(* ===== verification/Prelude.thy ===== *)
theory Prelude
  imports Main "HOL-Library.Word" "HOL-Library.Monad_Syntax"
begin

text \<open>
  Shared by every component: the integer types of the C sources as words, the failure
  monad, and the lemma collections.

  A failed \<open>assert\<close> of the kernel (\<open>src/src/assert.h\<close>) prints a message and spins forever;
  nothing after it runs. The models return \<open>None\<close> there, so \<open>do\<close>-blocks over
  \<open>option\<close> are the straight-line code of the source and \<open>kassert\<close> is its macro.
\<close>

unbundle bit_operations_syntax

type_synonym u8 = "8 word"
type_synonym u16 = "16 word"
type_synonym u32 = "32 word"
type_synonym u64 = "64 word"

named_theorems fail_simps \<open>evaluating the failure monad\<close>
named_theorems frame_simps \<open>a step does not touch this part of the state\<close>
named_theorems inv_intros \<open>an operation keeps its component's invariant\<close>

definition kassert :: "bool \<Rightarrow> unit option" where
  "kassert b = (if b then Some () else None)"

lemma kassert_bind [simp, fail_simps]: "(kassert b \<bind> f) = (if b then f () else None)"
  by (simp add: kassert_def)

lemma kassert_eq_Some [simp, fail_simps]: "kassert b = Some u \<longleftrightarrow> b"
  by (simp add: kassert_def)

lemma bind_Some_iff [fail_simps]: "(m \<bind> f) = Some y \<longleftrightarrow> (\<exists>x. m = Some x \<and> f x = Some y)"
  by (cases m) auto

lemma bind_SomeE:
  assumes "(m \<bind> f) = Some y"
  obtains x where "m = Some x" and "f x = Some y"
  using assms by (cases m) auto

lemma if_None_eq_Some [simp, fail_simps]:
  "(if b then x else None) = Some y \<longleftrightarrow> b \<and> x = Some y"
  "(if b then None else x) = Some y \<longleftrightarrow> \<not> b \<and> x = Some y"
  by auto

lemma interval_sep: "A \<subseteq> {a ..< b} \<Longrightarrow> B \<subseteq> {b ..< c} \<Longrightarrow> A \<inter> B = {}" for a b c :: nat
  by fastforce

end
