(* ===== verification/Bits.thy ===== *)
theory Bits
  imports Prelude
begin

text \<open>
  The integer helpers at the top of \<open>src/src/kalloc.cpp\<close>: \<open>CeilPower2\<close> on 64-bit words
  (the user library has the same function in \<open>tiny_libc/memory.c\<close>) and \<open>log2\<close>.
\<close>

definition CeilPower2 :: "u64 \<Rightarrow> u64" where
  "CeilPower2 x =
     (let x = x - 1;
          x = x OR drop_bit 1 x;
          x = x OR drop_bit 2 x;
          x = x OR drop_bit 4 x;
          x = x OR drop_bit 8 x;
          x = x OR drop_bit 16 x;
          x = x OR drop_bit 32 x
      in x + 1)"

text \<open>\<open>while (x >>= 1) res++;\<close>\<close>

fun log2 :: "nat \<Rightarrow> nat" where
  "log2 x = (let x = x div 2 in if x = 0 then 0 else Suc (log2 x))"

declare log2.simps [simp del]

subsection \<open>The binary logarithm\<close>

lemma log2_less_2: "x < 2 \<Longrightarrow> log2 x = 0"
  by (subst log2.simps) simp

lemma log2_rec: "2 \<le> x \<Longrightarrow> log2 x = Suc (log2 (x div 2))"
  by (subst log2.simps) (simp add: Let_def)

lemma log2_double [simp]:
  "0 < x \<Longrightarrow> log2 (2 * x) = Suc (log2 x)"
  "0 < x \<Longrightarrow> log2 (Suc (2 * x)) = Suc (log2 x)"
  by (subst log2_rec; simp)+

lemma log2_pow2 [simp]: "log2 (2 ^ n) = n"
  by (induction n) (simp_all add: log2_less_2)

lemma log2_bounds: "0 < x \<Longrightarrow> 2 ^ log2 x \<le> x \<and> x < 2 ^ Suc (log2 x)"
proof (induction x rule: log2.induct)
  case (1 x)
  show ?case
  proof (cases "x < 2")
    case True
    with "1.prems" show ?thesis by (simp add: log2_less_2)
  next
    case False
    with "1.IH" have "2 ^ log2 (x div 2) \<le> x div 2" "x div 2 < 2 ^ Suc (log2 (x div 2))"
      by simp_all
    with False show ?thesis by (simp add: log2_rec) linarith
  qed
qed

lemma log2_unique: "2 ^ n \<le> x \<Longrightarrow> x < 2 ^ Suc n \<Longrightarrow> log2 x = n"
proof -
  assume a: "2 ^ n \<le> x" "x < 2 ^ Suc n"
  have pos: "0 < x" using a(1) by (cases x) simp_all
  from log2_bounds [OF pos] a have "(2::nat) ^ n < 2 ^ Suc (log2 x)" "(2::nat) ^ log2 x < 2 ^ Suc n"
    by linarith+
  then have "n < Suc (log2 x) \<and> log2 x < Suc n"
    using power_less_imp_less_exp [of "2::nat" n "Suc (log2 x)"]
      power_less_imp_less_exp [of "2::nat" "log2 x" "Suc n"] by simp
  then show ?thesis by simp
qed

subsection \<open>Smearing the leading bit\<close>

lemma smear_step:
  fixes y :: u64
  assumes "\<And>n. bit y n \<longleftrightarrow> (\<exists>m. n \<le> m \<and> m < n + w \<and> bit x m)"
  shows "bit (y OR drop_bit w y) n \<longleftrightarrow> (\<exists>m. n \<le> m \<and> m < n + 2 * w \<and> bit x m)"
proof -
  have "bit (y OR drop_bit w y) n \<longleftrightarrow>
      (\<exists>m. n \<le> m \<and> m < n + w \<and> bit x m) \<or> (\<exists>m. n + w \<le> m \<and> m < n + w + w \<and> bit x m)"
    by (simp add: bit_or_iff bit_drop_bit_eq assms add.commute)
  also have "\<dots> \<longleftrightarrow> (\<exists>m. n \<le> m \<and> m < n + 2 * w \<and> bit x m)"
    by (auto simp: not_less) (metis add.commute le_add2 le_trans linorder_not_less mult_2 add.assoc)+
  finally show ?thesis .
qed

lemma bit_unat: "bit (x :: u64) n \<longleftrightarrow> odd (unat x div 2 ^ n)"
proof -
  have "bit x n \<longleftrightarrow> bit (unat x) n"
    by (auto simp: bit_unsigned_iff dest: bit_imp_possible_bit)
  then show ?thesis by (simp add: bit_iff_odd)
qed

lemma bit_high: "bit (x :: u64) n \<Longrightarrow> n \<le> log2 (unat x)"
proof (rule ccontr)
  assume b: "bit x n" and "\<not> n \<le> log2 (unat x)"
  then have "(2::nat) ^ Suc (log2 (unat x)) \<le> 2 ^ n"
    by (intro power_increasing) simp_all
  then have "unat x < 2 ^ n"
    using log2_bounds [of "unat x"] by (cases "unat x = 0") simp_all
  with b show False by (simp add: bit_unat)
qed

lemma bit_log2: "0 < unat (x :: u64) \<Longrightarrow> bit x (log2 (unat x))"
proof -
  assume "0 < unat x"
  from log2_bounds [OF this] have "unat x div 2 ^ log2 (unat x) = 1"
    by (intro div_nat_eqI) simp_all
  then show ?thesis by (simp add: bit_unat)
qed

lemma mask_of_smeared:
  fixes x y :: u64
  assumes s: "\<And>n. bit y n \<longleftrightarrow> (\<exists>m. n \<le> m \<and> m < n + 64 \<and> bit x m)"
    and pos: "0 < unat x"
  shows "y = mask (Suc (log2 (unat x)))"
proof (rule bit_eqI)
  fix n assume n: "possible_bit TYPE(u64) n"
  have lt: "m < 64" if "bit x m" for m
    using bit_imp_possible_bit [OF that] by simp
  have "(\<exists>m. n \<le> m \<and> m < n + 64 \<and> bit x m) \<longleftrightarrow> n \<le> log2 (unat x)"
    using bit_high [of x] bit_log2 [OF pos] lt by (meson le_trans trans_less_add2)
  then show "bit y n \<longleftrightarrow> bit (mask (Suc (log2 (unat x))) :: u64) n"
    using n by (simp add: s bit_mask_iff less_Suc_eq_le)
qed

lemma CeilPower2_eq_mask:
  assumes "1 < unat x"
  shows "CeilPower2 x = mask (Suc (log2 (unat (x - 1)))) + 1"
proof -
  let ?x = "x - 1"
  have pos: "0 < unat ?x"
    using assms by (metis gr0I unat_eq_zero diff_eq_eq add_0 unat_1 less_irrefl)
  define y1 where "y1 = ?x OR drop_bit 1 ?x"
  define y2 where "y2 = y1 OR drop_bit 2 y1"
  define y3 where "y3 = y2 OR drop_bit 4 y2"
  define y4 where "y4 = y3 OR drop_bit 8 y3"
  define y5 where "y5 = y4 OR drop_bit 16 y4"
  define y6 where "y6 = y5 OR drop_bit 32 y5"
  have b0: "bit ?x n \<longleftrightarrow> (\<exists>m. n \<le> m \<and> m < n + 1 \<and> bit ?x m)" for n
    using le_antisym by fastforce
  have b1: "bit y1 n \<longleftrightarrow> (\<exists>m. n \<le> m \<and> m < n + 2 \<and> bit ?x m)" for n
    using smear_step [of "?x" 1 "?x" n, OF b0] by (simp add: y1_def)
  have b2: "bit y2 n \<longleftrightarrow> (\<exists>m. n \<le> m \<and> m < n + 4 \<and> bit ?x m)" for n
    using smear_step [of "y1" 2 "?x" n, OF b1] by (simp add: y2_def)
  have b3: "bit y3 n \<longleftrightarrow> (\<exists>m. n \<le> m \<and> m < n + 8 \<and> bit ?x m)" for n
    using smear_step [of "y2" 4 "?x" n, OF b2] by (simp add: y3_def)
  have b4: "bit y4 n \<longleftrightarrow> (\<exists>m. n \<le> m \<and> m < n + 16 \<and> bit ?x m)" for n
    using smear_step [of "y3" 8 "?x" n, OF b3] by (simp add: y4_def)
  have b5: "bit y5 n \<longleftrightarrow> (\<exists>m. n \<le> m \<and> m < n + 32 \<and> bit ?x m)" for n
    using smear_step [of "y4" 16 "?x" n, OF b4] by (simp add: y5_def)
  have b6: "bit y6 n \<longleftrightarrow> (\<exists>m. n \<le> m \<and> m < n + 64 \<and> bit ?x m)" for n
    using smear_step [of "y5" 32 "?x" n, OF b5] by (simp add: y6_def)
  from mask_of_smeared [OF b6 pos] show ?thesis
    by (simp add: CeilPower2_def Let_def y6_def y5_def y4_def y3_def y2_def y1_def)
qed

lemma unat_pow2: "n < 64 \<Longrightarrow> unat ((2 :: u64) ^ n) = 2 ^ n"
proof -
  assume "n < 64"
  then have "(2::nat) ^ n < 2 ^ 64" by (intro power_strict_increasing) simp_all
  then show ?thesis using unat_of_nat [of "2 ^ n", where ?'a = 64] by simp
qed

text \<open>The result is the least power of two that is not below the argument.\<close>

lemma CeilPower2_least:
  assumes "0 < unat x" "unat x \<le> 2 ^ 63"
  obtains n where "CeilPower2 x = 2 ^ n" "n \<le> 63" "unat x \<le> 2 ^ n" "2 ^ n < 2 * unat x"
proof (cases "unat x = 1")
  case True
  then have "x = 1" by (metis unat_1 word_unat_eq_iff)
  then have "CeilPower2 x = 2 ^ 0" by (simp add: CeilPower2_def Let_def)
  with True that [of 0] show thesis by simp
next
  case False
  with assms(1) have gt: "1 < unat x" by simp
  define n where "n = Suc (log2 (unat (x - 1)))"
  have u: "unat (x - 1) = unat x - 1"
    using assms(1) by (simp add: unat_minus_one word_neq_0_conv unat_gt_0)
  with gt log2_bounds [of "unat (x - 1)"] have b: "2 ^ (n - 1) \<le> unat x - 1" "unat x - 1 < 2 ^ n"
    by (simp_all add: n_def)
  have n63: "n \<le> 63"
  proof (rule ccontr)
    assume "\<not> n \<le> 63"
    then have "(2::nat) ^ 63 \<le> 2 ^ (n - 1)" by (intro power_increasing) simp_all
    with b(1) assms(2) gt show False by simp
  qed
  have "CeilPower2 x = 2 ^ n"
    using CeilPower2_eq_mask [OF gt] by (simp add: n_def mask_eq_exp_minus_1)
  moreover have "unat x \<le> 2 ^ n" using b(2) by simp
  moreover have "(2::nat) ^ n < 2 * unat x"
  proof -
    have "(2::nat) ^ n = 2 * 2 ^ (n - 1)" by (simp add: n_def)
    with b(1) gt show ?thesis by linarith
  qed
  ultimately show thesis using that n63 by blast
qed

lemma CeilPower2_pow2: "n \<le> 63 \<Longrightarrow> CeilPower2 (2 ^ n) = 2 ^ n"
proof -
  assume n: "n \<le> 63"
  have u: "unat ((2 :: u64) ^ n) = 2 ^ n" using n by (simp add: unat_pow2)
  have "(2::nat) ^ n \<le> 2 ^ 63" using n by (intro power_increasing) simp_all
  with u obtain m where m: "CeilPower2 (2 ^ n) = 2 ^ m" "(2::nat) ^ n \<le> 2 ^ m" "(2::nat) ^ m < 2 * 2 ^ n"
    using CeilPower2_least [of "2 ^ n"] by (metis zero_less_numeral zero_less_power)
  from m(3) have "(2::nat) ^ m < 2 ^ Suc n" by simp
  then have "m \<le> n" using power_less_imp_less_exp [of "2::nat" m "Suc n"] by simp
  moreover from m(2) have "n \<le> m" by simp
  ultimately show ?thesis using m(1) by simp
qed

end
