(* ===== verification/Buddy.thy ===== *)
theory Buddy
  imports Bits
begin

text \<open>
  The buddy allocator of \<open>src/src/kalloc.cpp\<close> (\<open>template struct BuddyPool\<close>). The pool is one
  array \<open>longest\<close> laid out as a binary heap: node \<open>i\<close> has the children \<open>2i+1\<close> and \<open>2i+2\<close>, and
  \<open>longest[i]\<close> is one more than the logarithm of the largest free block below \<open>i\<close>, or 0. The template
  parameter \<open>capacity\<close> is an argument. \<open>power_t\<close> is 8 bits wide; every value stored is at most
  \<open>caplog\<close>, which is at most 64 for a 64-bit \<open>capacity\<close>, so the array holds plain numbers.

  The second half gives the array its meaning: a tree of free, used and split blocks, the set
  of allocated blocks, and the laws of \<open>init\<close>, \<open>alloc\<close> and \<open>free\<close> over that set.
\<close>

section \<open>The code\<close>

record buddy_pool =
  longest :: "nat \<Rightarrow> nat"

definition caplog :: "nat \<Rightarrow> nat" where
  "caplog capacity = log2 capacity + 1"

text \<open>The two loops of \<open>init\<close>, both counting down from \<open>2 * capacity - 2\<close>.\<close>

fun init_leaves :: "nat \<Rightarrow> nat \<Rightarrow> (nat \<Rightarrow> nat) \<Rightarrow> (nat \<Rightarrow> nat)" where
  "init_leaves capacity i lg =
     (if i > capacity - 2 then init_leaves capacity (i - 1) (lg(i := 1)) else lg)"

fun init_parents :: "nat \<Rightarrow> (nat \<Rightarrow> nat) \<Rightarrow> (nat \<Rightarrow> nat)" where
  "init_parents i lg =
     (if i > 0 then init_parents (i - 1) (lg((i - 1) div 2 := lg i + 1)) else lg)"

definition pool_init :: "nat \<Rightarrow> buddy_pool \<Rightarrow> buddy_pool" where
  "pool_init capacity p =
     (let i = 2 * capacity - 2
      in p\<lparr>longest := init_parents i (init_leaves capacity i (longest p))\<rparr>)"

text \<open>The descent of \<open>alloc\<close>: take the child with the tightest fit, the left one on a tie.\<close>

fun alloc_descend :: "(nat \<Rightarrow> nat) \<Rightarrow> nat \<Rightarrow> nat \<Rightarrow> nat \<Rightarrow> nat \<times> nat" where
  "alloc_descend lg sz nodesize index =
     (if nodesize > sz
      then let nodesize = nodesize - 1; lc = index * 2 + 1; rc = index * 2 + 2
           in if lg rc < sz \<or> (sz \<le> lg lc \<and> lg lc \<le> lg rc)
              then alloc_descend lg sz nodesize lc
              else alloc_descend lg sz nodesize rc
      else (nodesize, index))"

text \<open>The climb of \<open>alloc\<close>: recompute the maxima above \<open>index\<close>.\<close>

fun alloc_update :: "(nat \<Rightarrow> nat) \<Rightarrow> nat \<Rightarrow> (nat \<Rightarrow> nat)" where
  "alloc_update lg index =
     (if index = 0 then lg
      else let index = (index - 1) div 2
           in alloc_update (lg(index := max (lg (index * 2 + 1)) (lg (index * 2 + 2)))) index)"

definition pool_alloc :: "nat \<Rightarrow> buddy_pool \<Rightarrow> nat \<Rightarrow> (nat \<times> buddy_pool) option" where
  "pool_alloc capacity p sz =
     (let sz = (if sz = 0 then 1 else sz);
          sz = log2 sz + 1
      in do {
        kassert (longest p 0 \<ge> sz);
        let (nodesize, index) = alloc_descend (longest p) sz (caplog capacity) 0;
        let lg = (longest p)(index := 0);
        let offset = (index + 1) * 2 ^ (nodesize - 1) - capacity;
        Some (offset, p\<lparr>longest := alloc_update lg index\<rparr>)
      })"

text \<open>The two loops of \<open>free\<close>: find the lowest zero above the leaf, then merge upwards.\<close>

function free_find :: "(nat \<Rightarrow> nat) \<Rightarrow> nat \<Rightarrow> nat \<Rightarrow> (nat \<times> nat) option" where
  "free_find lg nodesize index =
     (if lg index = 0 then Some (nodesize, index)
      else if index = 0 then None
      else free_find lg (nodesize + 1) ((index - 1) div 2))"
  by pat_completeness auto
termination
  by (relation "measure (\<lambda>(lg, nodesize, index). index)") auto

fun free_merge :: "(nat \<Rightarrow> nat) \<Rightarrow> nat \<Rightarrow> nat \<Rightarrow> (nat \<Rightarrow> nat)" where
  "free_merge lg nodesize index =
     (if index = 0 then lg
      else let index = (index - 1) div 2; nodesize = nodesize + 1;
               ll = lg (index * 2 + 1); rl = lg (index * 2 + 2)
           in free_merge
                (lg(index := (if ll + 1 = nodesize \<and> rl + 1 = nodesize then nodesize else max ll rl)))
                nodesize index)"

definition pool_free :: "nat \<Rightarrow> buddy_pool \<Rightarrow> nat \<Rightarrow> buddy_pool option" where
  "pool_free capacity p offset = do {
     kassert (offset < capacity);
     (nodesize, index) \<leftarrow> free_find (longest p) 1 (offset + capacity - 1);
     let lg = (longest p)(index := nodesize);
     Some (p\<lparr>longest := free_merge lg nodesize index\<rparr>)
   }"

declare init_leaves.simps [simp del] init_parents.simps [simp del]
  alloc_descend.simps [simp del] alloc_update.simps [simp del]
  free_find.simps [simp del] free_merge.simps [simp del]

section \<open>The meaning of the array\<close>

text \<open>
  \<open>abs_tree h i lg\<close> reads the subtree of node \<open>i\<close>, whose block has \<open>2 ^ h\<close> units. A used block keeps
  the values its children had when they were free; that is how it differs from a split block
  with nothing left in it.
\<close>

datatype btree = Free | Used | Split btree btree

fun full :: "nat \<Rightarrow> nat \<Rightarrow> (nat \<Rightarrow> nat) \<Rightarrow> bool" where
  "full 0 i lg = (lg i = 1)"
| "full (Suc h) i lg = (lg i = Suc (Suc h) \<and> full h (2 * i + 1) lg \<and> full h (2 * i + 2) lg)"

fun tval :: "nat \<Rightarrow> btree \<Rightarrow> nat" where
  "tval h Free = Suc h"
| "tval h Used = 0"
| "tval h (Split l r) = max (tval (h - 1) l) (tval (h - 1) r)"

fun repr :: "nat \<Rightarrow> nat \<Rightarrow> (nat \<Rightarrow> nat) \<Rightarrow> btree \<Rightarrow> bool" where
  "repr h i lg Free = full h i lg"
| "repr 0 i lg Used = (lg i = 0)"
| "repr (Suc h) i lg Used = (lg i = 0 \<and> full h (2 * i + 1) lg \<and> full h (2 * i + 2) lg)"
| "repr 0 i lg (Split l r) = False"
| "repr (Suc h) i lg (Split l r) =
     (lg i = max (tval h l) (tval h r) \<and> \<not> (l = Free \<and> r = Free) \<and>
      repr h (2 * i + 1) lg l \<and> repr h (2 * i + 2) lg r)"

fun abs_tree :: "nat \<Rightarrow> nat \<Rightarrow> (nat \<Rightarrow> nat) \<Rightarrow> btree" where
  "abs_tree 0 i lg = (if lg i = 0 then Used else Free)"
| "abs_tree (Suc h) i lg =
     (if lg i = Suc (Suc h) then Free
      else if lg i = 0 \<and> lg (2 * i + 1) = Suc h \<and> lg (2 * i + 2) = Suc h then Used
      else Split (abs_tree h (2 * i + 1) lg) (abs_tree h (2 * i + 2) lg))"

text \<open>The allocated blocks below a node, as pairs of an offset and a height.\<close>

fun ublocks :: "nat \<Rightarrow> nat \<Rightarrow> btree \<Rightarrow> (nat \<times> nat) set" where
  "ublocks h off Free = {}"
| "ublocks h off Used = {(off, h)}"
| "ublocks h off (Split l r) = ublocks (h - 1) off l \<union> ublocks (h - 1) (off + 2 ^ (h - 1)) r"

definition pool_wf :: "nat \<Rightarrow> buddy_pool \<Rightarrow> bool" where
  "pool_wf H p \<longleftrightarrow> repr H 0 (longest p) (abs_tree H 0 (longest p))"

definition pool_blocks :: "nat \<Rightarrow> buddy_pool \<Rightarrow> (nat \<times> nat) set" where
  "pool_blocks H p = ublocks H 0 (abs_tree H 0 (longest p))"

definition block_range :: "nat \<times> nat \<Rightarrow> nat set" where
  "block_range b = {fst b ..< fst b + 2 ^ snd b}"

subsection \<open>Reading a represented tree\<close>

lemma full_val: "full h i lg \<Longrightarrow> lg i = Suc h"
  by (cases h) auto

lemma repr_val: "repr h i lg t \<Longrightarrow> lg i = tval h t"
  by (induction h i lg t rule: repr.induct) (auto dest: full_val)

lemma tval_le: "tval h t \<le> Suc h"
  by (induction h t rule: tval.induct) (auto intro: le_trans)

lemma repr_tval_full: "repr h i lg t \<Longrightarrow> tval h t = Suc h \<Longrightarrow> t = Free"
proof (cases t)
  case (Split l r)
  assume r: "repr h i lg t" and v: "tval h t = Suc h"
  from r Split obtain h' where h: "h = Suc h'" by (cases h) auto
  with v Split tval_le [of h' l] tval_le [of h' r] show ?thesis by simp
qed auto

lemma repr_unique: "repr h i lg t \<Longrightarrow> abs_tree h i lg = t"
proof (induction h i lg t rule: repr.induct)
  case (1 h i lg)
  then show ?case by (cases h) auto
next
  case (5 h i lg l r)
  then have v: "lg (2 * i + 1) = tval h l" "lg (2 * i + 2) = tval h r"
    by (auto dest: repr_val)
  have "max (tval h l) (tval h r) \<le> Suc h" by (simp add: tval_le)
  moreover have "\<not> (tval h l = Suc h \<and> tval h r = Suc h)"
    using "5.prems" repr_tval_full by auto
  ultimately show ?case using 5 v by auto
qed (auto dest: full_val)

lemma pool_wfI: "repr H 0 (longest p) t \<Longrightarrow> pool_wf H p \<and> pool_blocks H p = ublocks H 0 t"
  by (simp add: pool_wf_def pool_blocks_def repr_unique)

lemma pool_wfE:
  assumes "pool_wf H p"
  obtains t where "repr H 0 (longest p) t" "pool_blocks H p = ublocks H 0 t"
  using assms by (auto simp: pool_wf_def pool_blocks_def)

subsection \<open>Frames: a subtree depends only on the nodes below its root\<close>

definition under :: "nat \<Rightarrow> nat \<Rightarrow> bool" where
  "under i x \<longleftrightarrow> (\<exists>d. Suc x div 2 ^ d = Suc i)"

lemma under_refl [simp]: "under i i"
  unfolding under_def by (rule exI [of _ 0]) simp

lemma under_le: "under i x \<Longrightarrow> i \<le> x"
  unfolding under_def by (metis Suc_le_mono div_le_dividend)

lemma under_parent:
  assumes "under i x" "i = 2 * p + 1 \<or> i = 2 * p + 2"
  shows "under p x"
proof -
  from assms(1) obtain d where "Suc x div 2 ^ d = Suc i" by (auto simp: under_def)
  then have "Suc x div 2 ^ Suc d = Suc i div 2"
    by (simp add: div_mult2_eq mult.commute [of 2])
  with assms(2) have "Suc x div 2 ^ Suc d = Suc p" by auto
  then show ?thesis unfolding under_def by blast
qed

lemma div_pow2_le:
  assumes "d < e" "x div 2 ^ d = (n::nat)"
  shows "x div 2 ^ e \<le> n div 2"
proof -
  from assms(1) obtain k where "e = d + Suc k" by (auto simp: less_iff_Suc_add)
  then have "x div 2 ^ e = x div (2 ^ d * (2 * 2 ^ k))" by (simp add: power_add mult_ac)
  also have "\<dots> = n div 2 div 2 ^ k" by (simp only: div_mult2_eq assms(2))
  finally show ?thesis by simp
qed

lemma under_siblings: "\<not> (under (2 * p + 1) x \<and> under (2 * p + 2) x)"
proof
  assume "under (2 * p + 1) x \<and> under (2 * p + 2) x"
  then obtain d e where d: "Suc x div 2 ^ d = Suc (2 * p + 1)" and e: "Suc x div 2 ^ e = Suc (2 * p + 2)"
    by (auto simp: under_def)
  consider "d = e" | "d < e" | "e < d" by linarith
  then show False
    using d e div_pow2_le [of d e "Suc x" "Suc (2 * p + 1)"] div_pow2_le [of e d "Suc x" "Suc (2 * p + 2)"]
    by cases auto
qed

lemma under_child:
  "under (2 * i + 1) x \<Longrightarrow> under i x"
  "under (2 * i + 2) x \<Longrightarrow> under i x"
  using under_parent by blast+

lemma full_cong: "(\<And>x. under i x \<Longrightarrow> lg' x = lg x) \<Longrightarrow> full h i lg' = full h i lg"
proof (induction h arbitrary: i)
  case (Suc h)
  have "full h (2 * i + 1) lg' = full h (2 * i + 1) lg" "full h (2 * i + 2) lg' = full h (2 * i + 2) lg"
    by (rule Suc.IH, rule Suc.prems, erule under_child)+
  moreover have "lg' i = lg i" by (rule Suc.prems) simp
  ultimately show ?case by (simp only: full.simps)
qed simp

lemma repr_cong: "(\<And>x. under i x \<Longrightarrow> lg' x = lg x) \<Longrightarrow> repr h i lg' t = repr h i lg t"
proof (induction h i lg t rule: repr.induct)
  case (1 h i lg)
  then show ?case unfolding repr.simps by (rule full_cong)
next
  case (2 i lg)
  then show ?case by simp
next
  case (3 h i lg)
  have "full h (2 * i + 1) lg' = full h (2 * i + 1) lg" "full h (2 * i + 2) lg' = full h (2 * i + 2) lg"
    by (rule full_cong, rule 3, erule under_child)+
  moreover have "lg' i = lg i" by (rule 3) simp
  ultimately show ?case by (simp only: repr.simps)
next
  case (4 i lg l r)
  show ?case by simp
next
  case (5 h i lg l r)
  have "repr h (2 * i + 1) lg' l = repr h (2 * i + 1) lg l" "repr h (2 * i + 2) lg' r = repr h (2 * i + 2) lg r"
    by (rule "5.IH", rule "5.prems", erule under_child)+
  moreover have "lg' i = lg i" by (rule "5.prems") simp
  ultimately show ?case by (simp only: repr.simps)
qed

lemma repr_upd [frame_simps]: "\<not> under i x \<Longrightarrow> repr h i (lg(x := v)) t = repr h i lg t"
  by (rule repr_cong) auto

lemma full_upd [frame_simps]: "\<not> under i x \<Longrightarrow> full h i (lg(x := v)) = full h i lg"
  by (rule full_cong) auto

lemma not_under_less: "x < i \<Longrightarrow> \<not> under i x"
  using under_le by fastforce

subsection \<open>A node in its context\<close>

text \<open>
  The climbs of \<open>alloc\<close> and \<open>free\<close> rebuild the tree from one node upwards. A context lists, from
  the node to the root, the side of the node (\<open>True\<close> for a right child) and its sibling's tree.
\<close>

type_synonym ctx = "(bool \<times> btree) list"

definition node :: "btree \<Rightarrow> btree \<Rightarrow> btree" where
  "node l r = (if l = Free \<and> r = Free then Free else Split l r)"

fun plug :: "btree \<Rightarrow> ctx \<Rightarrow> btree" where
  "plug t [] = t"
| "plug t ((b, s) # c) = plug (if b then node s t else node t s) c"

fun ctx_repr :: "nat \<Rightarrow> nat \<Rightarrow> (nat \<Rightarrow> nat) \<Rightarrow> ctx \<Rightarrow> bool" where
  "ctx_repr h i lg [] = (i = 0)"
| "ctx_repr h i lg ((b, s) # c) =
     (\<exists>p. i = (if b then 2 * p + 2 else 2 * p + 1) \<and>
          repr h (if b then 2 * p + 1 else 2 * p + 2) lg s \<and> ctx_repr (Suc h) p lg c)"

fun ctx_base :: "nat \<Rightarrow> ctx \<Rightarrow> nat" where
  "ctx_base h [] = 0"
| "ctx_base h ((b, s) # c) = ctx_base (Suc h) c + (if b then 2 ^ h else 0)"

lemma ctx_repr_upd [frame_simps]: "under i x \<Longrightarrow> ctx_repr h i (lg(x := v)) c = ctx_repr h i lg c"
proof (induction c arbitrary: h i)
  case (Cons bs c)
  obtain b s where bs: "bs = (b, s)" by (cases bs)
  have "ctx_repr (Suc h) p (lg(x := v)) c = ctx_repr (Suc h) p lg c \<and>
      repr h (if b then 2 * p + 1 else 2 * p + 2) (lg(x := v)) s = repr h (if b then 2 * p + 1 else 2 * p + 2) lg s"
    if "i = (if b then 2 * p + 2 else 2 * p + 1)" for p
  proof
    have "under p x" using Cons.prems that under_parent [of i x p] by (auto split: if_splits)
    then show "ctx_repr (Suc h) p (lg(x := v)) c = ctx_repr (Suc h) p lg c" by (rule Cons.IH)
    have "\<not> under (if b then 2 * p + 1 else 2 * p + 2) x"
      using Cons.prems that under_siblings [of p x] by (auto split: if_splits)
    then show "repr h (if b then 2 * p + 1 else 2 * p + 2) (lg(x := v)) s =
        repr h (if b then 2 * p + 1 else 2 * p + 2) lg s"
      by (rule repr_upd)
  qed
  then show ?case unfolding bs ctx_repr.simps by blast
qed simp

text \<open>The index of a node, its height and its offset: \<open>offset = (index + 1) * 2 ^ h - capacity\<close>.\<close>

lemma ctx_base_index: "ctx_repr h i lg c \<Longrightarrow> Suc i * 2 ^ h = 2 ^ (h + length c) + ctx_base h c"
proof (induction c arbitrary: h i)
  case (Cons bs c)
  obtain b s where bs: "bs = (b, s)" by (cases bs)
  from Cons.prems bs obtain p where p: "i = (if b then 2 * p + 2 else 2 * p + 1)" "ctx_repr (Suc h) p lg c"
    by auto
  from Cons.IH [OF p(2)] p(1) show ?case by (simp add: bs algebra_simps)
qed simp

lemma ctx_base_bound: "ctx_base h c + 2 ^ h \<le> 2 ^ (h + length c)"
proof (induction c arbitrary: h)
  case (Cons bs c)
  obtain b s where bs: "bs = (b, s)" by (cases bs)
  from Cons.IH [of "Suc h"] show ?case by (auto simp: bs)
qed simp

lemma ctx_base_dvd: "2 ^ h dvd ctx_base h c"
proof (induction c arbitrary: h)
  case (Cons bs c)
  obtain b s where bs: "bs = (b, s)" by (cases bs)
  have "(2::nat) ^ h dvd 2 ^ Suc h" by simp
  with Cons.IH [of "Suc h"] have "2 ^ h dvd ctx_base (Suc h) c" using dvd_trans by blast
  then show ?case by (simp add: bs)
qed simp

fun ctx_blocks :: "nat \<Rightarrow> ctx \<Rightarrow> (nat \<times> nat) set" where
  "ctx_blocks h [] = {}"
| "ctx_blocks h ((b, s) # c) =
     ublocks h (ctx_base (Suc h) c + (if b then 0 else 2 ^ h)) s \<union> ctx_blocks (Suc h) c"

lemma ublocks_plug: "ublocks (h + length c) 0 (plug t c) = ublocks h (ctx_base h c) t \<union> ctx_blocks h c"
proof (induction c arbitrary: h t)
  case (Cons bs c)
  obtain b s where bs: "bs = (b, s)" by (cases bs)
  have n: "ublocks (Suc h) off (node l r) = ublocks h off l \<union> ublocks h (off + 2 ^ h) r" for off l r
    by (simp add: node_def)
  from Cons.IH [of "Suc h"] show ?case by (auto simp: bs n add.commute)
qed simp

lemma ublocks_range: "repr h i lg t \<Longrightarrow> b \<in> ublocks h off t \<Longrightarrow> block_range b \<subseteq> {off ..< off + 2 ^ h}"
proof (induction h i lg t arbitrary: off rule: repr.induct)
  case (5 h i lg l r)
  have "(2::nat) ^ h \<le> 2 ^ Suc h" by simp
  with 5 show ?case by fastforce
qed (auto simp: block_range_def)

lemma ctx_blocks_range:
  "ctx_repr h i lg c \<Longrightarrow> b \<in> ctx_blocks h c \<Longrightarrow>
     block_range b \<inter> {ctx_base h c ..< ctx_base h c + 2 ^ h} = {}"
proof (induction c arbitrary: h i)
  case (Cons bs c)
  obtain d s where bs: "bs = (d, s)" by (cases bs)
  from Cons.prems(1) bs obtain p where p: "ctx_repr (Suc h) p lg c"
    and s: "repr h (if d then 2 * p + 1 else 2 * p + 2) lg s" by auto
  from Cons.prems(2) bs consider
    (sib) "b \<in> ublocks h (ctx_base (Suc h) c + (if d then 0 else 2 ^ h)) s" | (up) "b \<in> ctx_blocks (Suc h) c"
    by auto
  then show ?case
  proof cases
    case sib
    from ublocks_range [OF s sib] show ?thesis by (auto simp: bs)
  next
    case up
    have "{ctx_base h (bs # c) ..< ctx_base h (bs # c) + 2 ^ h} \<subseteq>
        {ctx_base (Suc h) c ..< ctx_base (Suc h) c + 2 ^ Suc h}" by (auto simp: bs)
    with Cons.IH [OF p up] show ?thesis by blast
  qed
qed simp

lemma block_range_nonempty: "block_range b \<noteq> {}"
  by (simp add: block_range_def)

lemma ublocks_disjoint:
  "repr h i lg t \<Longrightarrow> b \<in> ublocks h off t \<Longrightarrow> b' \<in> ublocks h off t \<Longrightarrow> b \<noteq> b' \<Longrightarrow>
     block_range b \<inter> block_range b' = {}"
proof (induction h i lg t arbitrary: off rule: repr.induct)
  case (5 h i lg l r)
  then have rr: "repr h (2 * i + 1) lg l" "repr h (2 * i + 2) lg r" by auto
  have cross: "block_range c \<inter> block_range c' = {}"
    if "c \<in> ublocks h off l" "c' \<in> ublocks h (off + 2 ^ h) r" for c c'
    using ublocks_range [OF rr(1) that(1)] ublocks_range [OF rr(2) that(2)] by fastforce
  from "5.prems"(2,3) consider "b \<in> ublocks h off l" "b' \<in> ublocks h off l"
    | "b \<in> ublocks h (off + 2 ^ h) r" "b' \<in> ublocks h (off + 2 ^ h) r"
    | "b \<in> ublocks h off l" "b' \<in> ublocks h (off + 2 ^ h) r"
    | "b' \<in> ublocks h off l" "b \<in> ublocks h (off + 2 ^ h) r" by auto
  then show ?case
    using "5.IH"(1) [OF rr(1)] "5.IH"(2) [OF rr(2)] "5.prems"(4) cross by cases blast+
qed auto

subsection \<open>The loops\<close>

lemma alloc_update_repr:
  "repr h i lg t \<Longrightarrow> t \<noteq> Free \<Longrightarrow> ctx_repr h i lg c \<Longrightarrow>
     repr (h + length c) 0 (alloc_update lg i) (plug t c)"
proof (induction c arbitrary: h i lg t)
  case Nil
  then show ?case by (simp add: alloc_update.simps)
next
  case (Cons bs c)
  obtain b s where bs: "bs = (b, s)" by (cases bs)
  from Cons.prems(3) bs obtain p where i: "i = (if b then 2 * p + 2 else 2 * p + 1)"
    and s: "repr h (if b then 2 * p + 1 else 2 * p + 2) lg s" and c: "ctx_repr (Suc h) p lg c" by auto
  let ?lg = "lg(p := max (lg (p * 2 + 1)) (lg (p * 2 + 2)))"
  let ?t = "if b then node s t else node t s"
  have step: "alloc_update lg i = alloc_update ?lg p"
    using i by (subst alloc_update.simps) (auto simp: Let_def simp del: fun_upd_apply)
  have u: "\<not> under (2 * p + 1) p" "\<not> under (2 * p + 2) p" by (simp_all add: not_under_less)
  have t: "repr (Suc h) p ?lg ?t"
    using Cons.prems(1,2) s i u repr_val [OF Cons.prems(1)] repr_val [OF s]
    by (auto simp: node_def repr_upd mult.commute max.commute)
  have nf: "?t \<noteq> Free" using Cons.prems(2) by (simp add: node_def)
  have "ctx_repr (Suc h) p ?lg c" using c by (simp add: ctx_repr_upd)
  from Cons.IH [OF t nf this] have "repr (Suc h + length c) 0 (alloc_update lg i) (plug ?t c)"
    by (simp only: step)
  then show ?case by (simp add: bs)
qed

lemma free_merge_repr:
  "repr h i lg t \<Longrightarrow> ctx_repr h i lg c \<Longrightarrow>
     repr (h + length c) 0 (free_merge lg (Suc h) i) (plug t c)"
proof (induction c arbitrary: h i lg t)
  case Nil
  then show ?case by (simp add: free_merge.simps)
next
  case (Cons bs c)
  obtain b s where bs: "bs = (b, s)" by (cases bs)
  from Cons.prems(2) bs obtain p where i: "i = (if b then 2 * p + 2 else 2 * p + 1)"
    and s: "repr h (if b then 2 * p + 1 else 2 * p + 2) lg s" and c: "ctx_repr (Suc h) p lg c" by auto
  define l r where "l = (if b then s else t)" and "r = (if b then t else s)"
  have lr: "repr h (2 * p + 1) lg l" "repr h (2 * p + 2) lg r"
    using Cons.prems(1) s i by (simp_all add: l_def r_def split: if_splits)
  let ?v = "if lg (p * 2 + 1) + 1 = Suc (Suc h) \<and> lg (p * 2 + 2) + 1 = Suc (Suc h) then Suc (Suc h)
    else max (lg (p * 2 + 1)) (lg (p * 2 + 2))"
  have step: "free_merge lg (Suc h) i = free_merge (lg(p := ?v)) (Suc (Suc h)) p"
    using i by (subst free_merge.simps) (auto simp: Let_def)
  have u: "\<not> under (2 * p + 1) p" "\<not> under (2 * p + 2) p" by (simp_all add: not_under_less)
  have v: "?v = tval (Suc h) (node l r)"
    using lr [THEN repr_val] lr [THEN repr_tval_full] by (auto simp: node_def mult.commute)
  have "repr (Suc h) p (lg(p := tval (Suc h) (node l r))) (node l r)"
    using lr u by (auto simp: node_def repr_upd full_upd)
  then have t: "repr (Suc h) p (lg(p := ?v)) (node l r)" by (simp only: v)
  have "ctx_repr (Suc h) p (lg(p := ?v)) c" using c by (simp add: ctx_repr_upd)
  from Cons.IH [OF t this] have "repr (Suc h + length c) 0 (free_merge lg (Suc h) i) (plug (node l r) c)"
    by (simp only: step)
  then show ?case by (simp add: bs l_def r_def split: if_splits)
qed

lemma repr_children:
  assumes "repr (Suc h) i lg t" "Suc k \<le> tval (Suc h) t" "k \<le> h"
  obtains l r where "repr h (2 * i + 1) lg l" "repr h (2 * i + 2) lg r" "node l r = t"
    "Suc k \<le> tval h l \<or> Suc k \<le> tval h r"
proof (cases t)
  case Free
  with assms show thesis by (intro that [of Free Free]) (auto simp: node_def)
next
  case (Split l r)
  with assms show thesis by (intro that [of l r]) (auto simp: node_def le_max_iff_disj)
qed (use assms in auto)

text \<open>The descent ends at a free node of the wanted height, and leaves the tree as it was.\<close>

lemma alloc_descend_repr:
  "ctx_repr h i lg c \<Longrightarrow> repr h i lg t \<Longrightarrow> Suc k \<le> tval h t \<Longrightarrow> k \<le> h \<Longrightarrow>
     \<exists>j c'. alloc_descend lg (Suc k) (Suc h) i = (Suc k, j) \<and> ctx_repr k j lg c' \<and> repr k j lg Free \<and>
       k + length c' = h + length c \<and> plug Free c' = plug t c"
proof (induction h arbitrary: i c t)
  case 0
  then have "t = Free" by (cases t) auto
  with 0 show ?case by (auto simp: alloc_descend.simps)
next
  case (Suc h)
  show ?case
  proof (cases "k = Suc h")
    case True
    with Suc.prems have "tval (Suc h) t = Suc (Suc h)" using tval_le [of "Suc h" t] by simp
    with Suc.prems have "t = Free" using repr_tval_full by blast
    with True Suc.prems show ?thesis by (auto simp: alloc_descend.simps)
  next
    case False
    with Suc.prems have kh: "k \<le> h" by simp
    let ?left = "lg (i * 2 + 2) < Suc k \<or> (Suc k \<le> lg (i * 2 + 1) \<and> lg (i * 2 + 1) \<le> lg (i * 2 + 2))"
    obtain l r where lr: "repr h (2 * i + 1) lg l" "repr h (2 * i + 2) lg r" "plug (node l r) c = plug t c"
      "Suc k \<le> tval h l \<or> Suc k \<le> tval h r"
      using repr_children [OF Suc.prems(2,3) kh] by metis
    have v: "lg (i * 2 + 1) = tval h l" "lg (i * 2 + 2) = tval h r"
      using repr_val [OF lr(1)] repr_val [OF lr(2)] by (simp_all add: mult.commute)
    have step: "alloc_descend lg (Suc k) (Suc (Suc h)) i =
        alloc_descend lg (Suc k) (Suc h) (if ?left then i * 2 + 1 else i * 2 + 2)"
      using kh by (subst alloc_descend.simps) (simp add: Let_def)
    show ?thesis
    proof (cases ?left)
      case True
      have c: "ctx_repr h (2 * i + 1) lg ((False, r) # c)" using lr(2) Suc.prems(1) by auto
      from True v lr(4) have "Suc k \<le> tval h l" by auto
      from Suc.IH [OF c lr(1) this kh] True lr(3) step show ?thesis by (auto simp: mult.commute)
    next
      case False
      have c: "ctx_repr h (2 * i + 2) lg ((True, l) # c)" using lr(1) Suc.prems(1) by auto
      from False v have "Suc k \<le> tval h r" by auto
      from Suc.IH [OF c lr(2) this kh] False lr(3) step show ?thesis by (auto simp: mult.commute)
    qed
  qed
qed

lemma full_upd_children:
  "full h (2 * i + 1) (lg(i := v)) = full h (2 * i + 1) lg"
  "full h (2 * i + 2) (lg(i := v)) = full h (2 * i + 2) lg"
  by (simp_all add: full_upd not_under_less)

lemma repr_toggle:
  "repr k j lg Free \<Longrightarrow> repr k j (lg(j := 0)) Used"
  "repr k j lg Used \<Longrightarrow> repr k j (lg(j := Suc k)) Free"
  using full_upd_children by (cases k; simp)+

text \<open>A used block is the lowest zero on the path from any of its leaves to the root.\<close>

lemma free_find_full:
  "full h i lg \<Longrightarrow> Suc x div 2 ^ h = Suc i \<Longrightarrow> i \<noteq> 0 \<Longrightarrow>
     free_find lg 1 x = free_find lg (Suc (Suc h)) ((i - 1) div 2)"
proof (induction h arbitrary: i)
  case 0
  then show ?case by (simp add: free_find.simps [of lg "Suc 0"])
next
  case (Suc h)
  let ?c = "Suc x div 2 ^ h - 1"
  have half: "Suc x div 2 ^ h div 2 = Suc i"
    using Suc.prems(2) by (simp add: div_mult2_eq [symmetric] mult.commute)
  then have c: "?c = 2 * i + 1 \<or> ?c = 2 * i + 2" and s: "Suc x div 2 ^ h = Suc ?c"
    by linarith+
  with Suc.prems(1) have "full h ?c lg" by auto
  from Suc.IH [OF this s] c have "free_find lg 1 x = free_find lg (Suc (Suc h)) ((?c - 1) div 2)" by auto
  also have "(?c - 1) div 2 = i" using c by auto
  finally show ?case using Suc.prems(1,3) by (simp add: free_find.simps [of lg "Suc (Suc h)"])
qed

lemma free_find_used:
  assumes "repr k j lg Used" "Suc x div 2 ^ k = Suc j"
  shows "free_find lg 1 x = Some (Suc k, j)"
proof (cases k)
  case 0
  with assms show ?thesis by (simp add: free_find.simps)
next
  case (Suc h)
  let ?c = "Suc x div 2 ^ h - 1"
  have half: "Suc x div 2 ^ h div 2 = Suc j"
    using assms(2) Suc by (simp add: div_mult2_eq [symmetric] mult.commute)
  then have c: "?c = 2 * j + 1 \<or> ?c = 2 * j + 2" and s: "Suc x div 2 ^ h = Suc ?c"
    by linarith+
  with assms(1) Suc have "full h ?c lg" by auto
  from free_find_full [OF this s] c have "free_find lg 1 x = free_find lg (Suc (Suc h)) ((?c - 1) div 2)" by auto
  also have "(?c - 1) div 2 = j" using c by auto
  finally have "free_find lg 1 x = free_find lg (Suc k) j" by (simp only: Suc)
  then show ?thesis using assms(1) Suc by (simp add: free_find.simps)
qed

lemma find_used_block:
  "ctx_repr h i lg c \<Longrightarrow> repr h i lg t \<Longrightarrow> (off, k) \<in> ublocks h (ctx_base h c) t \<Longrightarrow>
     \<exists>j c'. ctx_repr k j lg c' \<and> repr k j lg Used \<and> plug Used c' = plug t c \<and>
       ctx_base k c' = off \<and> k + length c' = h + length c"
proof (induction h i lg t arbitrary: c rule: repr.induct)
  case (5 h i lg l r)
  then have rr: "repr h (2 * i + 1) lg l" "repr h (2 * i + 2) lg r" and n: "node l r = Split l r"
    by (auto simp: node_def)
  have cl: "ctx_repr h (2 * i + 1) lg ((False, r) # c)" and cr: "ctx_repr h (2 * i + 2) lg ((True, l) # c)"
    using rr "5.prems"(1) by auto
  from "5.prems"(3) consider "(off, k) \<in> ublocks h (ctx_base h ((False, r) # c)) l"
    | "(off, k) \<in> ublocks h (ctx_base h ((True, l) # c)) r" by auto
  then show ?case
  proof cases
    case 1
    from "5.IH"(1) [OF cl rr(1) this] show ?thesis by (auto simp: n)
  next
    case 2
    from "5.IH"(2) [OF cr rr(2) this] show ?thesis by (auto simp: n)
  qed
qed auto

lemma alloc_update_above: "i \<le> x \<Longrightarrow> alloc_update lg i x = lg x"
proof (induction i arbitrary: lg rule: less_induct)
  case (less i)
  show ?case
  proof (cases "i = 0")
    case False
    then have "(i - 1) div 2 < i" "(i - 1) div 2 < x" using less.prems by simp_all
    with less.IH False show ?thesis by (subst alloc_update.simps) (simp add: Let_def)
  qed (simp add: alloc_update.simps)
qed

lemma free_merge_above: "i \<le> x \<Longrightarrow> free_merge lg ns i x = lg x"
proof (induction i arbitrary: lg ns rule: less_induct)
  case (less i)
  show ?case
  proof (cases "i = 0")
    case False
    then have "(i - 1) div 2 < i" "(i - 1) div 2 < x" using less.prems by simp_all
    with less.IH False show ?thesis by (subst free_merge.simps) (simp add: Let_def)
  qed (simp add: free_merge.simps)
qed

lemma ctx_index_bound:
  assumes "ctx_repr k j lg c" "k + length c = H"
  shows "j < 2 * 2 ^ H - 1"
proof -
  have "Suc j * 1 \<le> Suc j * 2 ^ k" by (rule mult_le_mono2) simp
  also have "\<dots> \<le> 2 * 2 ^ H - 2 ^ k"
    using ctx_base_index [OF assms(1)] ctx_base_bound [of k c] assms(2) by simp
  also have "\<dots> \<le> 2 * 2 ^ H - 1" by (rule diff_le_mono2) simp
  finally show ?thesis by simp
qed

section \<open>The laws of the pool\<close>

definition blocks_disjoint :: "(nat \<times> nat) set \<Rightarrow> bool" where
  "blocks_disjoint B \<longleftrightarrow> (\<forall>b\<in>B. \<forall>b'\<in>B. b \<noteq> b' \<longrightarrow> block_range b \<inter> block_range b' = {})"

lemma pool_blocks_disjoint: "pool_wf H p \<Longrightarrow> blocks_disjoint (pool_blocks H p)"
  unfolding blocks_disjoint_def by (metis pool_wf_def pool_blocks_def ublocks_disjoint)

lemma pool_blocks_bound: "pool_wf H p \<Longrightarrow> b \<in> pool_blocks H p \<Longrightarrow> block_range b \<subseteq> {..< 2 ^ H}"
  unfolding pool_wf_def pool_blocks_def by (drule (1) ublocks_range) auto

lemma pool_block_end: "pool_wf H p \<Longrightarrow> (off, k) \<in> pool_blocks H p \<Longrightarrow> off + 2 ^ k \<le> 2 ^ H"
proof -
  assume "pool_wf H p" "(off, k) \<in> pool_blocks H p"
  then have "block_range (off, k) \<subseteq> {..< 2 ^ H}" by (rule pool_blocks_bound)
  moreover have "off + 2 ^ k - 1 \<in> block_range (off, k)"
    using one_le_power [of "2::nat" k] by (simp only: block_range_def fst_conv snd_conv atLeastLessThan_iff) linarith
  ultimately have "off + 2 ^ k - 1 < 2 ^ H" by blast
  then show ?thesis by linarith
qed

lemma pool_longest_bound: "pool_wf H p \<Longrightarrow> longest p 0 \<le> caplog (2 ^ H)"
  by (erule pool_wfE) (auto dest!: repr_val simp: caplog_def tval_le)

lemma pool_alloc_ok:
  assumes wf: "pool_wf H p" and k: "k = log2 (if sz = 0 then 1 else sz)" and fits: "Suc k \<le> longest p 0"
  obtains off p' where "pool_alloc (2 ^ H) p sz = Some (off, p')" "pool_wf H p'"
    "pool_blocks H p' = insert (off, k) (pool_blocks H p)" "2 ^ k dvd off" "off + 2 ^ k \<le> 2 ^ H"
    "\<forall>b\<in>pool_blocks H p. block_range b \<inter> block_range (off, k) = {}"
    "\<forall>x \<ge> 2 * 2 ^ H - 1. longest p' x = longest p x"
proof -
  from wf obtain t where t: "repr H 0 (longest p) t" "pool_blocks H p = ublocks H 0 t"
    by (rule pool_wfE)
  have kt: "Suc k \<le> tval H t" using fits repr_val [OF t(1)] by simp
  then have kH: "k \<le> H" using tval_le [of H t] by simp
  obtain j c where d: "alloc_descend (longest p) (Suc k) (Suc H) 0 = (Suc k, j)" "ctx_repr k j (longest p) c"
    "repr k j (longest p) Free" "k + length c = H" "plug Free c = t"
    using alloc_descend_repr [of H 0 "longest p" "[]" t k] t(1) kt kH by auto
  let ?lg = "(longest p)(j := 0)"
  define p' where "p' = p\<lparr>longest := alloc_update ?lg j\<rparr>"
  have base: "Suc j * 2 ^ k = 2 ^ H + ctx_base k c" using ctx_base_index [OF d(2)] d(4) by simp
  have "repr H 0 (longest p') (plug Used c)"
    using alloc_update_repr [OF repr_toggle(1) [OF d(3)], of c] d(2,4)
    by (simp add: p'_def ctx_repr_upd)
  then have wf': "pool_wf H p'" "pool_blocks H p' = ublocks H 0 (plug Used c)" using pool_wfI by blast+
  have B: "pool_blocks H p = ctx_blocks k c" "pool_blocks H p' = insert (ctx_base k c, k) (ctx_blocks k c)"
    using ublocks_plug [of k c] d(4,5) t(2) wf'(2) by auto
  have alloc: "pool_alloc (2 ^ H) p sz = Some (ctx_base k c, p')"
    using fits base d(1) by (simp add: pool_alloc_def Let_def k [symmetric] caplog_def p'_def)
  have disj: "\<forall>b\<in>pool_blocks H p. block_range b \<inter> block_range (ctx_base k c, k) = {}"
    using ctx_blocks_range [OF d(2)] B(1) by (simp add: block_range_def)
  have above: "\<forall>x \<ge> 2 * 2 ^ H - 1. longest p' x = longest p x"
    using ctx_index_bound [OF d(2,4)] by (simp add: p'_def alloc_update_above)
  show thesis
    by (rule that [OF alloc wf'(1) _ ctx_base_dvd _ disj above]) (use ctx_base_bound [of k c] d(4) B in auto)
qed

lemma pool_alloc_fails: "longest p 0 < Suc (log2 (if sz = 0 then 1 else sz)) \<Longrightarrow> pool_alloc cap p sz = None"
  by (simp add: pool_alloc_def Let_def)

lemma pool_alloc_SomeD:
  assumes wf: "pool_wf H p" and a: "pool_alloc (2 ^ H) p sz = Some (off, p')"
    and k: "k = log2 (if sz = 0 then 1 else sz)"
  shows "pool_wf H p'" "pool_blocks H p' = insert (off, k) (pool_blocks H p)" "2 ^ k dvd off" "off + 2 ^ k \<le> 2 ^ H"
    "\<forall>b\<in>pool_blocks H p. block_range b \<inter> block_range (off, k) = {}"
    "\<forall>x \<ge> 2 * 2 ^ H - 1. longest p' x = longest p x" "Suc k \<le> longest p 0"
proof -
  show fits: "Suc k \<le> longest p 0"
    using a pool_alloc_fails [of p sz "2 ^ H"] k by (metis not_less option.distinct(1))
  obtain off' p'' where r: "pool_alloc (2 ^ H) p sz = Some (off', p'')" "pool_wf H p''"
    "pool_blocks H p'' = insert (off', k) (pool_blocks H p)" "2 ^ k dvd off'" "off' + 2 ^ k \<le> 2 ^ H"
    "\<forall>b\<in>pool_blocks H p. block_range b \<inter> block_range (off', k) = {}"
    "\<forall>x \<ge> 2 * 2 ^ H - 1. longest p'' x = longest p x"
    using pool_alloc_ok [OF wf k fits] by blast
  from r(1) a have "off' = off" "p'' = p'" by auto
  with r show "pool_wf H p'" "pool_blocks H p' = insert (off, k) (pool_blocks H p)" "2 ^ k dvd off"
    "off + 2 ^ k \<le> 2 ^ H" "\<forall>b\<in>pool_blocks H p. block_range b \<inter> block_range (off, k) = {}"
    "\<forall>x \<ge> 2 * 2 ^ H - 1. longest p' x = longest p x" by auto
qed

lemma pool_free_ok:
  assumes wf: "pool_wf H p" and b: "(off, k) \<in> pool_blocks H p" and x: "x \<in> block_range (off, k)"
  obtains p' where "pool_free (2 ^ H) p x = Some p'" "pool_wf H p'"
    "pool_blocks H p' = pool_blocks H p - {(off, k)}"
    "\<forall>x \<ge> 2 * 2 ^ H - 1. longest p' x = longest p x"
proof -
  from wf obtain t where t: "repr H 0 (longest p) t" "pool_blocks H p = ublocks H 0 t"
    by (rule pool_wfE)
  obtain j c where d: "ctx_repr k j (longest p) c" "repr k j (longest p) Used" "plug Used c = t"
    "ctx_base k c = off" "k + length c = H"
    using find_used_block [of H 0 "longest p" "[]" t off k] t b by auto
  have base: "Suc j * 2 ^ k = 2 ^ H + off" using ctx_base_index [OF d(1)] d(4,5) by simp
  have "Suc (x + 2 ^ H - 1) div 2 ^ k = Suc j"
  proof (rule div_nat_eqI)
    show "2 ^ k * Suc j \<le> Suc (x + 2 ^ H - 1)" "Suc (x + 2 ^ H - 1) < 2 ^ k * Suc (Suc j)"
      using x base by (simp_all add: block_range_def algebra_simps)
  qed
  from free_find_used [OF d(2) this] have f: "free_find (longest p) (Suc 0) (x + 2 ^ H - 1) = Some (Suc k, j)"
    by simp
  define p' where "p' = p\<lparr>longest := free_merge ((longest p)(j := Suc k)) (Suc k) j\<rparr>"
  have "repr H 0 (longest p') (plug Free c)"
    using free_merge_repr [OF repr_toggle(2) [OF d(2)], of c] d(1,5)
    by (simp add: p'_def ctx_repr_upd)
  then have wf': "pool_wf H p'" "pool_blocks H p' = ublocks H 0 (plug Free c)" using pool_wfI by blast+
  have B: "pool_blocks H p' = ctx_blocks k c" "pool_blocks H p = insert (off, k) (ctx_blocks k c)"
    using ublocks_plug [of k c] d(3,4,5) t(2) wf'(2) by auto
  have "(off, k) \<notin> ctx_blocks k c"
    using ctx_blocks_range [OF d(1), of "(off, k)"] d(4) by (auto simp: block_range_def)
  moreover have "x < 2 ^ H" using pool_blocks_bound [OF wf b] x by auto
  moreover have "\<forall>x \<ge> 2 * 2 ^ H - 1. longest p' x = longest p x"
    using ctx_index_bound [OF d(1,5)] by (simp add: p'_def free_merge_above)
  ultimately show thesis
    using that [of p'] wf'(1) B f by (simp add: pool_free_def p'_def)
qed

subsection \<open>The blocks determine the array\<close>

lemma ublocks_nonempty: "repr h i lg t \<Longrightarrow> t \<noteq> Free \<Longrightarrow> ublocks h off t \<noteq> {}"
  by (induction h i lg t arbitrary: off rule: repr.induct) auto

lemma ublocks_height: "repr h i lg t \<Longrightarrow> (o', k) \<in> ublocks h off t \<Longrightarrow> k \<le> h \<and> off \<le> o' \<and> o' < off + 2 ^ h"
  by (induction h i lg t arbitrary: off rule: repr.induct) fastforce+

lemma ublocks_inject:
  "repr h i lg t \<Longrightarrow> repr h i lg' t' \<Longrightarrow> ublocks h off t = ublocks h off t' \<Longrightarrow> t = t'"
proof (induction h i lg t arbitrary: off t' rule: repr.induct)
  case (1 h i lg)
  then show ?case using ublocks_nonempty by fastforce
next
  case (2 i lg)
  then show ?case by (cases t') auto
next
  case (3 h i lg)
  then show ?case
  proof (cases t')
    case (Split l r)
    with 3 have "(off, Suc h) \<in> ublocks h off l \<union> ublocks h (off + 2 ^ h) r"
      "repr h (2 * i + 1) lg' l" "repr h (2 * i + 2) lg' r" by auto
    then show ?thesis using ublocks_height by fastforce
  qed auto
next
  case (5 h i lg l r)
  then have rr: "repr h (2 * i + 1) lg l" "repr h (2 * i + 2) lg r" by auto
  have ne: "ublocks (Suc h) off t' \<noteq> {}"
    using ublocks_nonempty [OF "5.prems"(1), of off] by (simp only: "5.prems"(3)) simp
  show ?case
  proof (cases t')
    case Free
    with ne show ?thesis by simp
  next
    case Used
    then have "(off, Suc h) \<in> ublocks h off l \<union> ublocks h (off + 2 ^ h) r" using "5.prems"(3) by auto
    with rr show ?thesis using ublocks_height by fastforce
  next
    case (Split l' r')
    with "5.prems"(2) have rr': "repr h (2 * i + 1) lg' l'" "repr h (2 * i + 2) lg' r'" by auto
    let ?L = "{b. fst b < off + 2 ^ h}"
    have halves: "ublocks h off a = (ublocks h off a \<union> ublocks h (off + 2 ^ h) b) \<inter> ?L \<and>
        ublocks h (off + 2 ^ h) b = (ublocks h off a \<union> ublocks h (off + 2 ^ h) b) - ?L"
      if "repr h (2 * i + 1) m a" "repr h (2 * i + 2) m b" for m a b
      using ublocks_height [OF that(1)] ublocks_height [OF that(2)] by fastforce
    have eq: "ublocks h off l \<union> ublocks h (off + 2 ^ h) r = ublocks h off l' \<union> ublocks h (off + 2 ^ h) r'"
      using "5.prems"(3) Split by simp
    have "ublocks h off l = ublocks h off l'" "ublocks h (off + 2 ^ h) r = ublocks h (off + 2 ^ h) r'"
      using halves [OF rr] halves [OF rr'] eq by metis+
    with "5.IH"(1) [OF rr(1) rr'(1)] "5.IH"(2) [OF rr(2) rr'(2)] Split show ?thesis by simp
  qed
qed auto

lemma full_det: "full h i lg \<Longrightarrow> full h i lg' \<Longrightarrow> d \<le> h \<Longrightarrow> Suc x div 2 ^ d = Suc i \<Longrightarrow> lg x = lg' x"
proof (induction h arbitrary: i d)
  case (Suc h)
  show ?case
  proof (cases d)
    case (Suc e)
    then have "Suc x div 2 ^ e div 2 = Suc i"
      using Suc.prems(4) by (simp add: div_mult2_eq [symmetric] mult.commute)
    then have "Suc x div 2 ^ e = Suc (2 * i + 1) \<or> Suc x div 2 ^ e = Suc (2 * i + 2)" by linarith
    with Suc.IH [of "2 * i + 1" e] Suc.IH [of "2 * i + 2" e] Suc.prems Suc show ?thesis by auto
  qed (use Suc.prems in auto)
qed simp

lemma repr_det: "repr h i lg t \<Longrightarrow> repr h i lg' t \<Longrightarrow> d \<le> h \<Longrightarrow> Suc x div 2 ^ d = Suc i \<Longrightarrow> lg x = lg' x"
proof (induction h i lg t arbitrary: d rule: repr.induct)
  case (1 h i lg)
  then show ?case using full_det by simp
next
  case (3 h i lg)
  show ?case
  proof (cases d)
    case (Suc e)
    then have "Suc x div 2 ^ e div 2 = Suc i"
      using 3(4) by (simp add: div_mult2_eq [symmetric] mult.commute)
    then have "Suc x div 2 ^ e = Suc (2 * i + 1) \<or> Suc x div 2 ^ e = Suc (2 * i + 2)" by linarith
    with full_det [of h "2 * i + 1" lg lg' e x] full_det [of h "2 * i + 2" lg lg' e x] 3 Suc show ?thesis by auto
  qed (use 3 in auto)
next
  case (5 h i lg l r)
  show ?case
  proof (cases d)
    case (Suc e)
    then have "Suc x div 2 ^ e div 2 = Suc i"
      using "5.prems"(4) by (simp add: div_mult2_eq [symmetric] mult.commute)
    then have "Suc x div 2 ^ e = Suc (2 * i + 1) \<or> Suc x div 2 ^ e = Suc (2 * i + 2)" by linarith
    with "5.IH"(1) [of e] "5.IH"(2) [of e] "5.prems" Suc show ?thesis by auto
  qed (use "5.prems" in auto)
qed auto

lemma pool_blocks_inject:
  assumes "pool_wf H p" "pool_wf H p'" "pool_blocks H p = pool_blocks H p'"
    and above: "\<forall>x \<ge> 2 * 2 ^ H - 1. longest p' x = longest p x"
  shows "p' = p"
proof -
  have t: "repr H 0 (longest p) (abs_tree H 0 (longest p))" "repr H 0 (longest p') (abs_tree H 0 (longest p))"
    using assms(1-3) ublocks_inject [of H 0 "longest p" "abs_tree H 0 (longest p)" "longest p'" _ 0]
    unfolding pool_wf_def pool_blocks_def by metis+
  have "longest p' x = longest p x" for x
  proof (cases "x \<ge> 2 * 2 ^ H - 1")
    case False
    then have "Suc x < 2 ^ Suc H" by simp
    then have "log2 (Suc x) \<le> H"
      using log2_bounds [of "Suc x"] power_less_imp_less_exp [of "2::nat" "log2 (Suc x)" "Suc H"] by simp
    moreover have "Suc x div 2 ^ log2 (Suc x) = Suc 0"
      using log2_bounds [of "Suc x"] by (intro div_nat_eqI) simp_all
    ultimately show ?thesis using repr_det [OF t] by metis
  qed (use above in simp)
  then show ?thesis by (simp add: fun_eq_iff)
qed

subsection \<open>Initialisation\<close>

lemma init_leaves_val: "init_leaves cap i lg x = (if cap - 2 < x \<and> x \<le> i then 1 else lg x)"
proof (induction i arbitrary: lg)
  case 0
  then show ?case by (simp add: init_leaves.simps)
next
  case (Suc i)
  have "init_leaves cap (Suc i) lg = (if Suc i > cap - 2 then init_leaves cap i (lg(Suc i := 1)) else lg)"
    by (simp add: init_leaves.simps [of cap "Suc i"])
  with Suc show ?case by auto
qed

lemma init_parents_val:
  assumes "i \<le> 2 * 2 ^ H - 2"
    and "\<And>x. x \<le> 2 * 2 ^ H - 2 \<Longrightarrow> 2 ^ H - 1 \<le> x \<or> i < 2 * x + 2 \<Longrightarrow> lg x = Suc H - log2 (Suc x)"
  shows "x \<le> 2 * 2 ^ H - 2 \<Longrightarrow> init_parents i lg x = Suc H - log2 (Suc x)"
  using assms
proof (induction i arbitrary: lg)
  case 0
  then show ?case by (simp add: init_parents.simps)
next
  case (Suc i)
  let ?p = "i div 2"
  have step: "init_parents (Suc i) lg = init_parents i (lg(?p := lg (Suc i) + 1))"
    by (simp add: init_parents.simps [of "Suc i"])
  have "Suc (Suc i) div 2 = Suc ?p" by simp
  then have l: "log2 (Suc (Suc i)) = Suc (log2 (Suc ?p))" by (simp add: log2_rec)
  have "Suc (Suc i) < 2 ^ Suc H" using Suc.prems(2) by simp
  then have "log2 (Suc (Suc i)) \<le> H"
    using log2_bounds [of "Suc (Suc i)"] power_less_imp_less_exp [of "2::nat" "log2 (Suc (Suc i))" "Suc H"] by simp
  then have v: "lg (Suc i) + 1 = Suc H - log2 (Suc ?p)"
    using Suc.prems(2) Suc.prems(3) [of "Suc i"] l by simp
  have "(lg(?p := lg (Suc i) + 1)) y = Suc H - log2 (Suc y)"
    if y: "y \<le> 2 * 2 ^ H - 2" "2 ^ H - 1 \<le> y \<or> i < 2 * y + 2" for y
  proof (cases "y = ?p")
    case False
    with y(2) have "2 ^ H - 1 \<le> y \<or> Suc i < 2 * y + 2" by linarith
    with False Suc.prems(3) [OF y(1)] show ?thesis by simp
  qed (use v in simp)
  note upd = this
  have "i \<le> 2 * 2 ^ H - 2" using Suc.prems(2) by simp
  from Suc.IH [OF Suc.prems(1) this upd] show ?case unfolding step .
qed

lemma full_of_vals:
  assumes "\<And>x. Suc x < 2 ^ Suc H \<Longrightarrow> lg x = Suc H - log2 (Suc x)"
  shows "log2 (Suc i) + h = H \<Longrightarrow> full h i lg"
proof (induction h arbitrary: i)
  case 0
  then have "Suc i < 2 ^ Suc H" using log2_bounds [of "Suc i"] by simp
  with 0 assms [of i] show ?case by simp
next
  case (Suc h)
  have l: "log2 (Suc (2 * i + 1)) = Suc (log2 (Suc i))" "log2 (Suc (2 * i + 2)) = Suc (log2 (Suc i))"
    using log2_double [of "Suc i"] by simp_all
  have "(2::nat) ^ Suc (log2 (Suc i)) \<le> 2 ^ H" using Suc.prems by (intro power_increasing) simp_all
  then have "Suc i < 2 ^ Suc H" using log2_bounds [of "Suc i"] by simp
  with Suc assms [of i] l show ?case by simp
qed

lemma pool_init_ok: "1 \<le> H \<Longrightarrow> pool_wf H (pool_init (2 ^ H) p) \<and> pool_blocks H (pool_init (2 ^ H) p) = {}"
proof -
  assume H: "1 \<le> H"
  have two: "(2::nat) \<le> 2 ^ H" using H power_increasing [of 1 H "2::nat"] by simp
  define lg where "lg = init_leaves (2 ^ H) (2 * 2 ^ H - 2) (longest p)"
  have leaf: "lg x = Suc H - log2 (Suc x)"
    if "x \<le> 2 * 2 ^ H - 2" "2 ^ H - 1 \<le> x \<or> 2 * 2 ^ H - 2 < 2 * x + 2" for x
  proof -
    from that(2) two have ge: "2 ^ H \<le> Suc x" by linarith
    moreover have "Suc x < 2 ^ Suc H" using that(1) two by simp
    ultimately have "log2 (Suc x) = H" by (rule log2_unique)
    moreover have "2 ^ H - 2 < x" using ge two by linarith
    ultimately show ?thesis using that(1) by (simp add: lg_def init_leaves_val)
  qed
  have "longest (pool_init (2 ^ H) p) x = Suc H - log2 (Suc x)" if "Suc x < 2 ^ Suc H" for x
    using init_parents_val [OF le_refl leaf, of x] that two by (simp add: pool_init_def lg_def Let_def)
  from full_of_vals [OF this, of 0 H] have "repr H 0 (longest (pool_init (2 ^ H) p)) Free"
    by (simp add: log2_less_2)
  from pool_wfI [OF this] show ?thesis by simp
qed

subsection \<open>A request fails only when there is no room for it\<close>

lemma dvd_interval_half:
  fixes o' :: nat
  assumes "2 ^ k dvd o'" "2 ^ k dvd m" "o' < m"
  shows "o' + 2 ^ k \<le> m"
proof -
  from assms(1,2) obtain a b where "o' = 2 ^ k * a" "m = 2 ^ k * b" by (auto elim!: dvdE)
  with assms(3) have "a + 1 \<le> b" by simp
  then have "2 ^ k * (a + 1) \<le> 2 ^ k * b" by (rule mult_le_mono2)
  with \<open>o' = 2 ^ k * a\<close> \<open>m = 2 ^ k * b\<close> show ?thesis by simp
qed

lemma tval_complete:
  "repr h i lg t \<Longrightarrow> k \<le> h \<Longrightarrow> 2 ^ k dvd o' \<Longrightarrow> 2 ^ h dvd off \<Longrightarrow> off \<le> o' \<Longrightarrow> o' + 2 ^ k \<le> off + 2 ^ h \<Longrightarrow>
     (\<And>b. b \<in> ublocks h off t \<Longrightarrow> block_range b \<inter> block_range (o', k) = {}) \<Longrightarrow> Suc k \<le> tval h t"
proof (induction h i lg t arbitrary: off rule: repr.induct)
  case (5 h i lg l r)
  then have rr: "repr h (2 * i + 1) lg l" "repr h (2 * i + 2) lg r" by auto
  show ?case
  proof (cases "k = Suc h")
    case True
    with "5.prems"(5,6) have eq: "block_range (o', k) = {off ..< off + 2 ^ Suc h}"
      by (auto simp: block_range_def)
    obtain b where b: "b \<in> ublocks (Suc h) off (Split l r)"
      using ublocks_nonempty [OF "5.prems"(1), of off] by blast
    from ublocks_range [OF "5.prems"(1) b] "5.prems"(7) [OF b] block_range_nonempty [of b] show ?thesis
      unfolding eq by blast
  next
    case False
    with "5.prems"(2) have k: "k \<le> h" by simp
    have dvds: "2 ^ h dvd off" "2 ^ h dvd off + 2 ^ h" "2 ^ k dvd off + 2 ^ h"
    proof -
      have "(2::nat) ^ h dvd 2 ^ Suc h" by simp
      with "5.prems"(4) show a: "2 ^ h dvd off" using dvd_trans by blast
      then show b: "2 ^ h dvd off + 2 ^ h" by simp
      show "2 ^ k dvd off + 2 ^ h" using b k le_imp_power_dvd dvd_trans by blast
    qed
    show ?thesis
    proof (cases "o' < off + 2 ^ h")
      case True
      from dvd_interval_half [OF "5.prems"(3) dvds(3) True] "5.IH"(1) [OF rr(1) k "5.prems"(3) dvds(1) "5.prems"(5)]
        "5.prems"(7) show ?thesis by (simp add: le_max_iff_disj)
    next
      case False
      with "5.IH"(2) [OF rr(2) k "5.prems"(3) dvds(2)] "5.prems"(6,7) show ?thesis
        by (simp add: le_max_iff_disj)
    qed
  qed
qed (auto simp: block_range_def)

lemma pool_alloc_complete:
  assumes wf: "pool_wf H p" and k: "k = log2 (if sz = 0 then 1 else sz)"
    and room: "2 ^ k dvd o'" "o' + 2 ^ k \<le> 2 ^ H" "\<And>b. b \<in> pool_blocks H p \<Longrightarrow> block_range b \<inter> block_range (o', k) = {}"
  shows "Suc k \<le> longest p 0"
proof -
  from wf obtain t where t: "repr H 0 (longest p) t" "pool_blocks H p = ublocks H 0 t"
    by (rule pool_wfE)
  have "(2::nat) ^ k \<le> 2 ^ H" using room(2) by linarith
  then have "k \<le> H" by simp
  with tval_complete [OF t(1), of k o' 0] room t(2) repr_val [OF t(1)] show ?thesis by simp
qed

subsection \<open>An untouched pool hands out its first units\<close>

lemma alloc_descend_full:
  "full h i lg \<Longrightarrow> k \<le> h \<Longrightarrow> \<exists>j. alloc_descend lg (Suc k) (Suc h) i = (Suc k, j) \<and> Suc j = Suc i * 2 ^ (h - k)"
proof (induction h arbitrary: i)
  case 0
  then show ?case by (simp add: alloc_descend.simps)
next
  case (Suc h)
  show ?case
  proof (cases "k = Suc h")
    case True
    then show ?thesis by (simp add: alloc_descend.simps)
  next
    case False
    with Suc.prems have k: "k \<le> h" by simp
    have v: "lg (i * 2 + 1) = Suc h" "lg (i * 2 + 2) = Suc h"
      using Suc.prems(1) full_val [of h "2 * i + 1" lg] full_val [of h "2 * i + 2" lg]
      by (simp_all add: mult.commute)
    have "alloc_descend lg (Suc k) (Suc (Suc h)) i = alloc_descend lg (Suc k) (Suc h) (i * 2 + 1)"
      using k v by (subst alloc_descend.simps) (simp add: Let_def)
    with Suc.IH [of "2 * i + 1"] Suc.prems(1) k show ?thesis
      by (auto simp: mult.commute Suc_diff_le algebra_simps)
  qed
qed

lemma pool_alloc_first:
  assumes "1 \<le> H" "k = log2 (if sz = 0 then 1 else sz)" "k \<le> H"
  obtains p' where "pool_alloc (2 ^ H) (pool_init (2 ^ H) p) sz = Some (0, p')"
proof -
  let ?p = "pool_init (2 ^ H) p"
  have wf: "pool_wf H ?p" "pool_blocks H ?p = {}" using pool_init_ok [OF assms(1)] by auto
  then obtain t where t: "repr H 0 (longest ?p) t" "ublocks H 0 t = {}" using pool_wfE by metis
  with ublocks_nonempty have f: "full H 0 (longest ?p)" by fastforce
  obtain j where j: "alloc_descend (longest ?p) (Suc k) (Suc H) 0 = (Suc k, j)" "Suc j = 2 ^ (H - k)"
    using alloc_descend_full [OF f assms(3)] by auto
  have "Suc j * 2 ^ k = 2 ^ H" using j(2) assms(3) by (simp flip: power_add)
  then have "2 ^ k + j * 2 ^ k = 2 ^ H" by simp
  with j(1) full_val [OF f] assms(3) have
    "pool_alloc (2 ^ H) ?p sz = Some (0, ?p\<lparr>longest := alloc_update ((longest ?p)(j := 0)) j\<rparr>)"
    by (simp add: pool_alloc_def Let_def caplog_def flip: assms(2))
  then show thesis by (rule that)
qed

section \<open>Properties\<close>

text \<open>
  What an allocator of aligned power-of-two blocks owes its caller, over the set of live blocks
  alone: a new block is aligned, inside the arena and apart from every live block, and a request is
  refused only if no such block exists.
\<close>

definition alloc_spec :: "nat \<Rightarrow> nat \<Rightarrow> (nat \<times> nat) set \<Rightarrow> (nat \<times> (nat \<times> nat) set) option \<Rightarrow> bool" where
  "alloc_spec H k B res \<longleftrightarrow>
     (let room = (\<lambda>off. 2 ^ k dvd off \<and> off + 2 ^ k \<le> 2 ^ H \<and>
                   (\<forall>b\<in>B. block_range b \<inter> block_range (off, k) = {}))
      in case res of None \<Rightarrow> \<not> (\<exists>off. room off) | Some (off, B') \<Rightarrow> room off \<and> B' = insert (off, k) B)"

text \<open>
  C3: On a well-formed pool of \<open>2 ^ H\<close> units, \<open>BuddyPool::alloc\<close> refines that specification. It hands out an
  aligned block that meets no live block and records it, it keeps the tree well-formed, and its
  assertion fails only when there is no free aligned block of the size.
\<close>

theorem pool_alloc_refines:
  assumes wf: "pool_wf H p" and k: "k = log2 (if sz = 0 then 1 else sz)"
  shows "alloc_spec H k (pool_blocks H p)
      (map_option (\<lambda>(off, p'). (off, pool_blocks H p')) (pool_alloc (2 ^ H) p sz)) \<and>
    (\<forall>off p'. pool_alloc (2 ^ H) p sz = Some (off, p') \<longrightarrow> pool_wf H p')"
proof (cases "pool_alloc (2 ^ H) p sz")
  case None
  then have "\<not> Suc k \<le> longest p 0" using pool_alloc_ok [OF wf k] by (metis option.distinct(1))
  with pool_alloc_complete [OF wf k] have
    "\<not> (\<exists>off. 2 ^ k dvd off \<and> off + 2 ^ k \<le> 2 ^ H \<and> (\<forall>b\<in>pool_blocks H p. block_range b \<inter> block_range (off, k) = {}))"
    by blast
  with None show ?thesis by (simp add: alloc_spec_def)
next
  case (Some r)
  obtain off p' where r: "r = (off, p')" by (cases r)
  from pool_alloc_SomeD [OF wf Some [unfolded r] k] Some r show ?thesis by (simp add: alloc_spec_def)
qed

theorem pool_alloc_refines_witness:
  "pool_alloc 4 (pool_init 4 \<lparr>longest = \<lambda>_. 0\<rparr>) 2 \<noteq> None \<and>
   alloc_spec 2 1 (pool_blocks 2 (pool_init 4 \<lparr>longest = \<lambda>_. 0\<rparr>))
     (map_option (\<lambda>(off, p'). (off, pool_blocks 2 p')) (pool_alloc 4 (pool_init 4 \<lparr>longest = \<lambda>_. 0\<rparr>) 2))"
proof -
  have wf: "pool_wf 2 (pool_init 4 \<lparr>longest = \<lambda>_. 0\<rparr>)" using pool_init_ok [of 2] by simp
  have k: "(1::nat) = log2 (if (2::nat) = 0 then 1 else 2)" using log2_pow2 [of 1] by simp
  have "(1::nat) \<le> 2" by simp
  then have "pool_alloc 4 (pool_init 4 \<lparr>longest = \<lambda>_. 0\<rparr>) 2 \<noteq> None"
    using pool_alloc_first [of 2 1 2 "\<lparr>longest = \<lambda>_. 0\<rparr>"] k by fastforce
  with pool_alloc_refines [OF wf k] show ?thesis by simp
qed

text \<open>
  C10: \<open>BuddyPool::free\<close>, called with any unit of a live block, passes its assertions, removes exactly
  that block from the live ones and keeps the tree well-formed.
\<close>

theorem pool_free_refines:
  assumes "pool_wf H p" "(off, k) \<in> pool_blocks H p" "x \<in> block_range (off, k)"
  shows "\<exists>p'. pool_free (2 ^ H) p x = Some p' \<and> pool_wf H p' \<and> pool_blocks H p' = pool_blocks H p - {(off, k)}"
  using pool_free_ok [OF assms] by metis

definition pool4 :: buddy_pool where
  "pool4 = \<lparr>longest = (\<lambda>_. 0)(0 := 2, 1 := 0, 2 := 2, 3 := 1, 4 := 1, 5 := 1, 6 := 1)\<rparr>"

theorem pool_free_refines_witness:
  "pool_wf 2 pool4 \<and> (0, 1) \<in> pool_blocks 2 pool4 \<and>
   (\<exists>p'. pool_free 4 pool4 1 = Some p' \<and> pool_wf 2 p' \<and> pool_blocks 2 p' = pool_blocks 2 pool4 - {(0, 1)})"
proof -
  have wf: "pool_wf 2 pool4" by (simp add: pool_wf_def pool4_def eval_nat_numeral)
  have b: "(0, 1) \<in> pool_blocks 2 pool4" by (simp add: pool_blocks_def pool4_def eval_nat_numeral)
  have x: "1 \<in> block_range (0, 1)" by (simp add: block_range_def)
  from pool_free_refines [OF wf b x] wf b show ?thesis by simp
qed

text \<open>
  Freeing the block that \<open>alloc\<close> has just returned restores the pool exactly: buddies that the
  allocation split are merged again, and no entry of \<open>longest\<close> is left changed.
\<close>

theorem pool_alloc_free_roundtrip:
  assumes wf: "pool_wf H p" and a: "pool_alloc (2 ^ H) p sz = Some (off, p')"
  shows "pool_free (2 ^ H) p' off = Some p"
proof -
  define k where "k = log2 (if sz = 0 then 1 else sz)"
  note r = pool_alloc_SomeD [OF wf a k_def]
  have fresh: "(off, k) \<notin> pool_blocks H p"
    using r(5) block_range_nonempty [of "(off, k)"] by (metis Int_absorb)
  have m: "(off, k) \<in> pool_blocks H p'" and x: "off \<in> block_range (off, k)"
    using r(2) by (simp_all add: block_range_def)
  obtain p'' where f: "pool_free (2 ^ H) p' off = Some p''" "pool_wf H p''"
    "pool_blocks H p'' = pool_blocks H p' - {(off, k)}" "\<forall>x \<ge> 2 * 2 ^ H - 1. longest p'' x = longest p' x"
    using pool_free_ok [OF r(1) m x] by metis
  have "p'' = p"
    using pool_blocks_inject [OF wf f(2)] f(3,4) r(2,6) fresh by simp
  with f(1) show ?thesis by simp
qed

theorem pool_alloc_free_roundtrip_witness:
  "\<exists>off p'. pool_alloc 4 pool4 1 = Some (off, p') \<and> pool_free 4 p' off = Some pool4"
proof -
  have wf: "pool_wf 2 pool4" by (simp add: pool_wf_def pool4_def eval_nat_numeral)
  have k: "(0::nat) = log2 (if (1::nat) = 0 then 1 else 1)" by (simp add: log2_less_2)
  have fits: "Suc 0 \<le> longest pool4 0" by (simp add: pool4_def)
  obtain off p' where "pool_alloc (2 ^ 2) pool4 1 = Some (off, p')" using pool_alloc_ok [OF wf k fits] by metis
  with pool_alloc_free_roundtrip [OF wf this] show ?thesis by auto
qed

end
