(* ===== verification/Alloc_Interface.thy ===== *)
theory Alloc_Interface
  imports Bits
begin

text \<open>
  What the clients of an allocator rely on: the kernel heap and the heap of user programs
  both promise it. A live block is a pair of its first address and its length in bytes.
\<close>

definition byte_range :: "nat \<times> nat \<Rightarrow> nat set" where
  "byte_range b = {fst b ..< fst b + snd b}"

text \<open>A request for nothing, or for more than \<open>2 ^ 63\<close> bytes, is outside the promise.\<close>

definition valid_request :: "u64 \<Rightarrow> bool" where
  "valid_request sz \<longleftrightarrow> 0 < unat sz \<and> unat sz \<le> 2 ^ 63"

text \<open>A sequence of requests; \<open>None\<close> as soon as one of them fails.\<close>

fun run_allocs :: "('h \<Rightarrow> u64 \<Rightarrow> (u64 \<times> 'h) option) \<Rightarrow> 'h \<Rightarrow> u64 list \<Rightarrow> (u64 list \<times> 'h) option" where
  "run_allocs alloc h [] = Some ([], h)"
| "run_allocs alloc h (sz # szs) = do {
     (a, h) \<leftarrow> alloc h sz;
     (as, h) \<leftarrow> run_allocs alloc h szs;
     Some (a # as, h)
   }"

locale allocator =
  fixes inv :: "'h \<Rightarrow> bool"
    and blocks :: "'h \<Rightarrow> (nat \<times> nat) set"
    and addr :: "u64 \<Rightarrow> nat"
    and alloc :: "'h \<Rightarrow> u64 \<Rightarrow> (u64 \<times> 'h) option"
  assumes alloc_inv: "inv h \<Longrightarrow> valid_request sz \<Longrightarrow> alloc h sz = Some (a, h') \<Longrightarrow> inv h'"
    and alloc_fresh: "inv h \<Longrightarrow> valid_request sz \<Longrightarrow> alloc h sz = Some (a, h') \<Longrightarrow>
      \<exists>len \<ge> unat sz. blocks h' = insert (addr a, len) (blocks h) \<and>
        (\<forall>b\<in>blocks h. byte_range b \<inter> byte_range (addr a, len) = {})"
begin

lemma alloc_kept: "inv h \<Longrightarrow> valid_request sz \<Longrightarrow> alloc h sz = Some (a, h') \<Longrightarrow> blocks h \<subseteq> blocks h'"
  using alloc_fresh by blast

lemma alloc_disjoint:
  assumes "inv h" "valid_request sz" "alloc h sz = Some (a, h')" "b \<in> blocks h"
  shows "byte_range b \<inter> byte_range (addr a, unat sz) = {}"
proof -
  from alloc_fresh [OF assms(1-3)] obtain len where
    "unat sz \<le> len" "\<forall>b\<in>blocks h. byte_range b \<inter> byte_range (addr a, len) = {}" by blast
  moreover then have "byte_range (addr a, unat sz) \<subseteq> byte_range (addr a, len)"
    by (auto simp: byte_range_def)
  ultimately show ?thesis using assms(4) by blast
qed

lemma alloc_live:
  assumes "inv h" "valid_request sz" "alloc h sz = Some (a, h')"
  obtains b where "b \<in> blocks h'" "byte_range (addr a, unat sz) \<subseteq> byte_range b"
  using alloc_fresh [OF assms] by (force simp: byte_range_def)

text \<open>Blocks handed out later never meet a block that is live now.\<close>

lemma run_allocs_disjoint:
  "inv h \<Longrightarrow> \<forall>sz\<in>set szs. valid_request sz \<Longrightarrow> run_allocs alloc h szs = Some (as, h') \<Longrightarrow>
     inv h' \<and> length as = length szs \<and>
     (\<forall>b\<in>blocks h. \<forall>i<length szs. byte_range b \<inter> byte_range (addr (as ! i), unat (szs ! i)) = {})"
proof (induction szs arbitrary: h as)
  case (Cons sz szs)
  from Cons.prems(3) obtain a h1 as' where a: "alloc h sz = Some (a, h1)" "run_allocs alloc h1 szs = Some (as', h')"
    "as = a # as'"
    by (auto elim!: bind_SomeE split: prod.splits)
  have z: "valid_request sz" "\<forall>sz\<in>set szs. valid_request sz" using Cons.prems(2) by auto
  have i1: "inv h1" using alloc_inv [OF Cons.prems(1) z(1) a(1)] .
  from Cons.IH [OF i1 z(2) a(2)] have IH: "inv h'" "length as' = length szs"
    "\<forall>b\<in>blocks h1. \<forall>i<length szs. byte_range b \<inter> byte_range (addr (as' ! i), unat (szs ! i)) = {}" by auto
  have "byte_range b \<inter> byte_range (addr (as ! i), unat ((sz # szs) ! i)) = {}"
    if "b \<in> blocks h" "i < length (sz # szs)" for b i
  proof (cases i)
    case 0
    with alloc_disjoint [OF Cons.prems(1) z(1) a(1) that(1)] a(3) show ?thesis by simp
  next
    case (Suc j)
    have "b \<in> blocks h1" using alloc_kept [OF Cons.prems(1) z(1) a(1)] that(1) by blast
    with IH(3) Suc that(2) a(3) show ?thesis by simp
  qed
  with IH a(3) show ?case by simp
qed simp

lemma run_allocs_pairwise:
  "inv h \<Longrightarrow> \<forall>sz\<in>set szs. valid_request sz \<Longrightarrow> run_allocs alloc h szs = Some (as, h') \<Longrightarrow> i < j \<Longrightarrow> j < length szs \<Longrightarrow>
     byte_range (addr (as ! i), unat (szs ! i)) \<inter> byte_range (addr (as ! j), unat (szs ! j)) = {}"
proof (induction szs arbitrary: h as i j)
  case (Cons sz szs)
  from Cons.prems(3) obtain a h1 as' where a: "alloc h sz = Some (a, h1)" "run_allocs alloc h1 szs = Some (as', h')"
    "as = a # as'"
    by (auto elim!: bind_SomeE split: prod.splits)
  have z: "valid_request sz" "\<forall>sz\<in>set szs. valid_request sz" using Cons.prems(2) by auto
  have i1: "inv h1" using alloc_inv [OF Cons.prems(1) z(1) a(1)] .
  obtain j' where j: "j = Suc j'" "j' < length szs" using Cons.prems(4,5) by (cases j) auto
  show ?case
  proof (cases i)
    case 0
    obtain b where b: "b \<in> blocks h1" "byte_range (addr a, unat sz) \<subseteq> byte_range b"
      using alloc_live [OF Cons.prems(1) z(1) a(1)] .
    from run_allocs_disjoint [OF i1 z(2) a(2)] b(1) j(2)
    have "byte_range b \<inter> byte_range (addr (as' ! j'), unat (szs ! j')) = {}" by blast
    with b(2) 0 j a(3) show ?thesis by auto
  next
    case (Suc i')
    with Cons.IH [OF i1 z(2) a(2), of i' j'] Cons.prems(4) j a(3) show ?thesis by simp
  qed
qed simp

end

text \<open>An allocator that gives whole pages, as the page tables need them. A page is the number of its first byte in physical memory.\<close>

definition page_in :: "(nat \<times> nat) set \<Rightarrow> nat \<Rightarrow> bool" where
  "page_in B p \<longleftrightarrow> p mod 4096 = 0 \<and> p + 4096 \<le> 2 ^ 56 \<and> (\<exists>b\<in>B. byte_range (p, 4096) \<subseteq> byte_range b)"

locale page_provider = allocator inv blocks addr alloc
  for inv :: "'h \<Rightarrow> bool" and blocks :: "'h \<Rightarrow> (nat \<times> nat) set" and addr :: "u64 \<Rightarrow> nat" and alloc :: "'h \<Rightarrow> u64 \<Rightarrow> (u64 \<times> 'h) option" +
  assumes page_aligned: "inv h \<Longrightarrow> alloc h 4096 = Some (a, h') \<Longrightarrow> addr a mod 4096 = 0 \<and> addr a + 4096 \<le> 2 ^ 56"
begin

lemma page_request: "valid_request 4096"
  by (simp add: valid_request_def)

lemma fresh_page:
  assumes "inv h" "alloc h 4096 = Some (a, h')"
  shows "inv h'" "page_in (blocks h') (addr a)" "page_in (blocks h) p \<Longrightarrow> page_in (blocks h') p" "page_in (blocks h) p \<Longrightarrow> p \<noteq> addr a"
proof -
  show "inv h'" by (rule alloc_inv [OF assms(1) page_request assms(2)])
  show "page_in (blocks h') (addr a)"
    using alloc_live [OF assms(1) page_request assms(2)] page_aligned [OF assms] by (auto simp: page_in_def)
  show "page_in (blocks h) p \<Longrightarrow> page_in (blocks h') p"
    using alloc_kept [OF assms(1) page_request assms(2)] by (auto simp: page_in_def)
  show "p \<noteq> addr a" if p: "page_in (blocks h) p"
  proof -
    obtain b where b: "b \<in> blocks h" "byte_range (p, 4096) \<subseteq> byte_range b" using p by (auto simp: page_in_def)
    have "byte_range b \<inter> byte_range (addr a, 4096) = {}" using alloc_disjoint [OF assms(1) page_request assms(2) b(1)] by simp
    moreover have "p \<in> byte_range (p, 4096)" by (simp add: byte_range_def)
    ultimately show ?thesis using b(2) by auto
  qed
qed

end

end
