(* ===== verification/Kalloc.thy ===== *)
theory Kalloc
  imports Buddy Alloc_Interface
begin

text \<open>
  The kernel heap of \<open>src/src/kalloc.cpp\<close>: the \<open>Allocator\<close> template over a \<open>BuddyPool\<close>, the two
  instances \<open>ksmall\<close> (128-byte units) and \<open>kpage\<close> (4096-byte units), \<open>kalloc\<close>, \<open>kfree\<close> and the
  global \<open>operator new\<close> and \<open>delete\<close>, with the address translation of \<open>src/src/page.hpp\<close>.
  Every entry point holds \<open>alloc_lock\<close> for its whole body, so a call is one step.
\<close>

section \<open>The code\<close>

definition KERNEL_MASK :: u64 where "KERNEL_MASK = 0xffffffc000000000"

definition kva2pa :: "u64 \<Rightarrow> u64" where "kva2pa kva = kva - KERNEL_MASK"

definition pa2kva :: "u64 \<Rightarrow> u64" where "pa2kva pa = pa + KERNEL_MASK"

definition allocator_capacity :: "u64 \<Rightarrow> u64 \<Rightarrow> u64 \<Rightarrow> nat" where
  "allocator_capacity batch_size mem_start mem_end = unat ((mem_end - mem_start) div batch_size)"

definition allocator_init :: "u64 \<Rightarrow> u64 \<Rightarrow> u64 \<Rightarrow> buddy_pool \<Rightarrow> u64 \<Rightarrow> buddy_pool option" where
  "allocator_init batch_size mem_start mem_end pool used =
     (let capacity = allocator_capacity batch_size mem_start mem_end;
          pool = pool_init capacity pool
      in if used \<noteq> 0
         then let used = CeilPower2 used
              in do {
                (offset, pool) \<leftarrow> pool_alloc capacity pool (unat (used div batch_size));
                kassert (offset = 0);
                Some pool
              }
         else Some pool)"

definition allocator_alloc :: "u64 \<Rightarrow> u64 \<Rightarrow> u64 \<Rightarrow> buddy_pool \<Rightarrow> u64 \<Rightarrow> (u64 \<times> buddy_pool) option" where
  "allocator_alloc batch_size mem_start mem_end pool sz = do {
     (offset, pool) \<leftarrow>
       pool_alloc (allocator_capacity batch_size mem_start mem_end) pool (unat (sz div batch_size));
     Some (mem_start + of_nat offset * batch_size, pool)
   }"

text \<open>\<open>Allocator::free\<close> computes the offset and stops there: the pool is not told.\<close>

definition allocator_free :: "u64 \<Rightarrow> u64 \<Rightarrow> buddy_pool \<Rightarrow> u64 \<Rightarrow> buddy_pool option" where
  "allocator_free batch_size mem_start pool ptr =
     (let offset = ptr - mem_start
      in do {
        kassert (offset mod batch_size = 0);
        let offset = offset div batch_size;
        Some pool
      })"

definition SMALL_BEGIN :: u64 where "SMALL_BEGIN = 0x50800000"
definition SMALL_END :: u64 where "SMALL_END = 0x51000000"
definition PAGE_START :: u64 where "PAGE_START = 0x51000000"
definition PAGE_BEGIN :: u64 where "PAGE_BEGIN = 0x50000000"
definition PAGE_END :: u64 where "PAGE_END = 0x60000000"

record heap =
  ksmall :: buddy_pool
  kpage :: buddy_pool

definition init_kernel_heap :: "heap \<Rightarrow> heap option" where
  "init_kernel_heap h = do {
     s \<leftarrow> allocator_init 128 SMALL_BEGIN SMALL_END (ksmall h) 0;
     p \<leftarrow> allocator_init 4096 PAGE_BEGIN PAGE_END (kpage h) (PAGE_START - PAGE_BEGIN);
     Some (h\<lparr>ksmall := s, kpage := p\<rparr>)
   }"

definition kalloc :: "heap \<Rightarrow> u64 \<Rightarrow> (u64 \<times> heap) option" where
  "kalloc h sz =
     (let sz = CeilPower2 sz
      in if sz > 1024
         then do {
           (p, pool) \<leftarrow> allocator_alloc 4096 PAGE_BEGIN PAGE_END (kpage h) sz;
           Some (pa2kva p, h\<lparr>kpage := pool\<rparr>)
         }
         else do {
           (p, pool) \<leftarrow> allocator_alloc 128 SMALL_BEGIN SMALL_END (ksmall h) sz;
           Some (pa2kva p, h\<lparr>ksmall := pool\<rparr>)
         })"

definition kfree :: "heap \<Rightarrow> u64 \<Rightarrow> heap option" where
  "kfree h ptr =
     (let ptr = kva2pa ptr
      in if ptr < PAGE_START
         then do {
           pool \<leftarrow> allocator_free 128 SMALL_BEGIN (ksmall h) ptr;
           Some (h\<lparr>ksmall := pool\<rparr>)
         }
         else do {
           pool \<leftarrow> allocator_free 4096 PAGE_BEGIN (kpage h) ptr;
           Some (h\<lparr>kpage := pool\<rparr>)
         })"

definition operator_new :: "heap \<Rightarrow> u64 \<Rightarrow> (u64 \<times> heap) option" where
  "operator_new h sz = kalloc h sz"

definition operator_delete :: "heap \<Rightarrow> u64 \<Rightarrow> heap option" where
  "operator_delete h ptr = kfree h ptr"

section \<open>The live blocks of the heap\<close>

text \<open>
  Both pools have \<open>2 ^ 16\<close> units. The page pool starts with its first \<open>2 ^ 12\<close> pages taken: the
  kernel image, the early page table and the small pool lie there.
\<close>

definition unit_blocks :: "nat \<Rightarrow> nat \<Rightarrow> buddy_pool \<Rightarrow> (nat \<times> nat) set" where
  "unit_blocks batch start p = (\<lambda>(off, k). (start + off * batch, batch * 2 ^ k)) ` pool_blocks 16 p"

definition reserved :: "nat \<times> nat" where "reserved = (0, 12)"

definition heap_inv :: "heap \<Rightarrow> bool" where
  "heap_inv h \<longleftrightarrow> pool_wf 16 (ksmall h) \<and> pool_wf 16 (kpage h) \<and> reserved \<in> pool_blocks 16 (kpage h)"

definition heap_blocks :: "heap \<Rightarrow> (nat \<times> nat) set" where
  "heap_blocks h =
     unit_blocks 128 0x50800000 (ksmall h) \<union>
     (\<lambda>(off, k). (0x50000000 + off * 4096, 4096 * 2 ^ k)) ` (pool_blocks 16 (kpage h) - {reserved})"

subsection \<open>From units to bytes\<close>

lemma kva2pa_pa2kva [simp]: "kva2pa (pa2kva p) = p"
  by (simp add: kva2pa_def pa2kva_def)

lemma pa2kva_kva2pa [simp]: "pa2kva (kva2pa p) = p"
  by (simp add: kva2pa_def pa2kva_def)

lemma capacities [simp]:
  "allocator_capacity 128 SMALL_BEGIN SMALL_END = 2 ^ 16"
  "allocator_capacity 4096 PAGE_BEGIN PAGE_END = 2 ^ 16"
  by (simp_all add: allocator_capacity_def SMALL_BEGIN_def SMALL_END_def PAGE_BEGIN_def PAGE_END_def unat_div)

lemma scale_disjoint:
  assumes "block_range (o1, k1) \<inter> block_range (o2, k2) = {}"
  shows "byte_range (s + o1 * b, b * 2 ^ k1) \<inter> byte_range (s + o2 * b, b * 2 ^ k2) = {}"
proof -
  have "o1 + 2 ^ k1 \<le> o2 \<or> o2 + 2 ^ k2 \<le> o1"
  proof (rule ccontr)
    assume "\<not> ?thesis"
    then have "max o1 o2 \<in> block_range (o1, k1) \<inter> block_range (o2, k2)"
      by (auto simp: block_range_def max_def)
    with assms show False by simp
  qed
  then have "(o1 + 2 ^ k1) * b \<le> o2 * b \<or> (o2 + 2 ^ k2) * b \<le> o1 * b" by (meson mult_le_mono1)
  then show ?thesis by (auto simp: byte_range_def algebra_simps)
qed

lemma units_cover:
  assumes "k = log2 (if (2::nat) ^ n div 2 ^ m = 0 then 1 else 2 ^ n div 2 ^ m)"
  shows "(2::nat) ^ n \<le> 2 ^ m * 2 ^ k"
proof (cases "m \<le> n")
  case True
  then have "(2::nat) ^ n div 2 ^ m = 2 ^ (n - m)" by (simp add: power_diff)
  with assms have "k = n - m" by simp
  with True show ?thesis by (simp flip: power_add)
next
  case False
  then have "(2::nat) ^ n \<le> 2 ^ m * 1" by (simp add: power_increasing)
  also have "(2::nat) ^ m * 1 \<le> 2 ^ m * 2 ^ k" by (rule mult_le_mono2) simp
  finally show ?thesis by simp
qed

lemma allocator_alloc_ok:
  assumes wf: "pool_wf 16 p" and cap: "allocator_capacity b s e = 2 ^ 16"
    and b: "unat b = 2 ^ m" "m \<le> 12" and s: "unat s < 2 ^ 32"
    and a: "allocator_alloc b s e p (2 ^ n) = Some (a, p')" and n: "n \<le> 63"
  obtains off k where "pool_wf 16 p'" "pool_blocks 16 p' = insert (off, k) (pool_blocks 16 p)"
    "unat a = unat s + off * 2 ^ m" "2 ^ n \<le> 2 ^ m * (2 ^ k :: nat)" "2 ^ k dvd off" "off + 2 ^ k \<le> 2 ^ 16"
    "\<forall>c\<in>pool_blocks 16 p. block_range c \<inter> block_range (off, k) = {}"
proof -
  obtain off where al: "pool_alloc (2 ^ 16) p (unat ((2 :: u64) ^ n div b)) = Some (off, p')"
    and av: "a = s + of_nat off * b"
    using a cap by (auto simp: allocator_alloc_def elim!: bind_SomeE split: prod.splits)
  have u: "unat ((2 :: u64) ^ n div b) = 2 ^ n div 2 ^ m" using n b by (simp add: unat_div unat_pow2)
  define k where "k = log2 (if (2::nat) ^ n div 2 ^ m = 0 then 1 else 2 ^ n div 2 ^ m)"
  note r = pool_alloc_SomeD [OF wf al [unfolded u] k_def]
  have off: "off \<le> 2 ^ 16" using r(4) by linarith
  have "off * 2 ^ m \<le> 2 ^ 16 * 2 ^ 12" using off b(2) by (intro mult_le_mono power_increasing) simp_all
  then have bound: "unat s + off * 2 ^ m < 2 ^ 64" using s by simp
  have "a = of_nat (unat s + off * unat b)" using av by simp
  then have "unat a = unat s + off * 2 ^ m" using bound by (simp only: unat_of_nat b(1)) simp
  with r units_cover [OF k_def] show thesis using that by blast
qed

subsection \<open>The heap keeps its promise\<close>

lemma unit_blocks_insert:
  "pool_blocks 16 p' = insert (off, k) (pool_blocks 16 p) \<Longrightarrow>
     unit_blocks b s p' = insert (s + off * b, b * 2 ^ k) (unit_blocks b s p)"
  by (simp add: unit_blocks_def)

lemma small_blocks_range:
  assumes "heap_inv h" "c \<in> unit_blocks 128 0x50800000 (ksmall h)"
  shows "byte_range c \<subseteq> {0x50800000 ..< 0x51000000}"
proof -
  from assms(2) obtain off k where c: "c = (0x50800000 + off * 128, 128 * 2 ^ k)"
    and m: "(off, k) \<in> pool_blocks 16 (ksmall h)" by (auto simp: unit_blocks_def)
  have "off + 2 ^ k \<le> 2 ^ 16" using pool_block_end [OF _ m] assms(1) by (simp add: heap_inv_def)
  then show ?thesis by (auto simp: byte_range_def c)
qed

lemma page_block_range:
  assumes "block_range reserved \<inter> block_range (off, k) = {}" "off + 2 ^ k \<le> 2 ^ 16"
  shows "byte_range (0x50000000 + off * 4096, 4096 * 2 ^ k) \<subseteq> {0x51000000 ..< 0x60000000}"
proof -
  have "4096 \<le> off"
  proof (rule ccontr)
    assume "\<not> 4096 \<le> off"
    then have "off \<in> block_range reserved \<inter> block_range (off, k)" by (simp add: reserved_def block_range_def)
    with assms(1) show False by simp
  qed
  with assms(2) show ?thesis by (auto simp: byte_range_def)
qed

lemma page_blocks_range:
  assumes "heap_inv h" "(off, k) \<in> pool_blocks 16 (kpage h) - {reserved}"
  shows "byte_range (0x50000000 + off * 4096, 4096 * 2 ^ k) \<subseteq> {0x51000000 ..< 0x60000000}"
proof (rule page_block_range)
  have wf: "pool_wf 16 (kpage h)" "reserved \<in> pool_blocks 16 (kpage h)" using assms(1) by (auto simp: heap_inv_def)
  show "block_range reserved \<inter> block_range (off, k) = {}"
    using pool_blocks_disjoint [OF wf(1)] wf(2) assms(2) by (auto simp: blocks_disjoint_def)
  show "off + 2 ^ k \<le> 2 ^ 16"
    using pool_block_end [OF wf(1)] assms(2) by blast
qed

lemma kalloc_page:
  assumes inv: "heap_inv h" and sz: "0 < unat sz" "unat sz \<le> 2 ^ 63" and big: "CeilPower2 sz > 1024"
    and a: "kalloc h sz = Some (a, h')"
  obtains off k where "heap_inv h'" "unat (kva2pa a) = 0x50000000 + off * 4096" "unat sz \<le> 4096 * 2 ^ k"
    "heap_blocks h' = insert (0x50000000 + off * 4096, 4096 * 2 ^ k) (heap_blocks h)"
    "\<forall>b\<in>heap_blocks h. byte_range b \<inter> byte_range (0x50000000 + off * 4096, 4096 * 2 ^ k) = {}"
    "byte_range (0x50000000 + off * 4096, 4096 * 2 ^ k) \<subseteq> {0x51000000 ..< 0x60000000}" "2 ^ k dvd off"
proof -
  obtain n where n: "CeilPower2 sz = 2 ^ n" "n \<le> 63" "unat sz \<le> 2 ^ n" using CeilPower2_least [OF sz] by blast
  obtain p pool where p: "allocator_alloc 4096 PAGE_BEGIN PAGE_END (kpage h) (2 ^ n) = Some (p, pool)"
    "a = pa2kva p" "h' = h\<lparr>kpage := pool\<rparr>"
    using a big n(1) by (auto simp: kalloc_def Let_def elim!: bind_SomeE)
  have wf: "pool_wf 16 (kpage h)" "reserved \<in> pool_blocks 16 (kpage h)" using inv by (auto simp: heap_inv_def)
  have b: "unat (4096 :: u64) = 2 ^ 12" "unat PAGE_BEGIN < 2 ^ 32" by (simp_all add: PAGE_BEGIN_def)
  obtain off k where r: "pool_wf 16 pool" "pool_blocks 16 pool = insert (off, k) (pool_blocks 16 (kpage h))"
    "unat p = unat PAGE_BEGIN + off * 2 ^ 12" "2 ^ n \<le> 2 ^ 12 * (2 ^ k :: nat)" "2 ^ k dvd off" "off + 2 ^ k \<le> 2 ^ 16"
    "\<forall>c\<in>pool_blocks 16 (kpage h). block_range c \<inter> block_range (off, k) = {}"
    by (rule allocator_alloc_ok [OF wf(1) capacities(2) b(1) le_refl b(2) p(1) n(2)])
  have nr: "(off, k) \<noteq> reserved" using bspec [OF r(7) wf(2)] block_range_nonempty [of reserved] by (metis Int_absorb)
  have range: "byte_range (0x50000000 + off * 4096, 4096 * 2 ^ k) \<subseteq> {0x51000000 ..< 0x60000000}"
    by (rule page_block_range [OF bspec [OF r(7) wf(2)] r(6)])
  have "byte_range b \<inter> byte_range (0x50000000 + off * 4096, 4096 * 2 ^ k) = {}" if "b \<in> heap_blocks h" for b
    using that unfolding heap_blocks_def
  proof
    assume "b \<in> unit_blocks 128 0x50800000 (ksmall h)"
    from small_blocks_range [OF inv this] range show ?thesis by (rule interval_sep)
  next
    assume "b \<in> (\<lambda>(off, k). (0x50000000 + off * 4096, 4096 * 2 ^ k)) ` (pool_blocks 16 (kpage h) - {reserved})"
    then obtain o' k' where "(o', k') \<in> pool_blocks 16 (kpage h)" "b = (0x50000000 + o' * 4096, 4096 * 2 ^ k')"
      by auto
    with r(7) show ?thesis using scale_disjoint by blast
  qed
  moreover have "heap_blocks h' = insert (0x50000000 + off * 4096, 4096 * 2 ^ k) (heap_blocks h)"
    using nr by (auto simp: heap_blocks_def p(3) r(2) insert_Diff_if)
  moreover have "heap_inv h'" using inv r(1,2) by (simp add: heap_inv_def p(3))
  ultimately show thesis
    using that [of off k] r(3,4,5) n(3) range by (simp add: p(2) PAGE_BEGIN_def)
qed

lemma kalloc_small:
  assumes inv: "heap_inv h" and sz: "0 < unat sz" "unat sz \<le> 2 ^ 63" and small: "\<not> CeilPower2 sz > 1024"
    and a: "kalloc h sz = Some (a, h')"
  obtains off k where "heap_inv h'" "unat (kva2pa a) = 0x50800000 + off * 128" "unat sz \<le> 128 * 2 ^ k"
    "heap_blocks h' = insert (0x50800000 + off * 128, 128 * 2 ^ k) (heap_blocks h)"
    "\<forall>b\<in>heap_blocks h. byte_range b \<inter> byte_range (0x50800000 + off * 128, 128 * 2 ^ k) = {}"
    "byte_range (0x50800000 + off * 128, 128 * 2 ^ k) \<subseteq> {0x50800000 ..< 0x51000000}" "2 ^ k dvd off"
proof -
  obtain n where n: "CeilPower2 sz = 2 ^ n" "n \<le> 63" "unat sz \<le> 2 ^ n" using CeilPower2_least [OF sz] by blast
  obtain p pool where p: "allocator_alloc 128 SMALL_BEGIN SMALL_END (ksmall h) (2 ^ n) = Some (p, pool)"
    "a = pa2kva p" "h' = h\<lparr>ksmall := pool\<rparr>"
    using a small n(1) by (auto simp: kalloc_def Let_def elim!: bind_SomeE)
  have wf: "pool_wf 16 (ksmall h)" using inv by (auto simp: heap_inv_def)
  have b: "unat (128 :: u64) = 2 ^ 7" "(7::nat) \<le> 12" "unat SMALL_BEGIN < 2 ^ 32" by (simp_all add: SMALL_BEGIN_def)
  obtain off k where r: "pool_wf 16 pool" "pool_blocks 16 pool = insert (off, k) (pool_blocks 16 (ksmall h))"
    "unat p = unat SMALL_BEGIN + off * 2 ^ 7" "2 ^ n \<le> 2 ^ 7 * (2 ^ k :: nat)" "2 ^ k dvd off" "off + 2 ^ k \<le> 2 ^ 16"
    "\<forall>c\<in>pool_blocks 16 (ksmall h). block_range c \<inter> block_range (off, k) = {}"
    by (rule allocator_alloc_ok [OF wf capacities(1) b p(1) n(2)])
  have range: "byte_range (0x50800000 + off * 128, 128 * 2 ^ k) \<subseteq> {0x50800000 ..< 0x51000000}"
    using r(6) by (auto simp: byte_range_def)
  have "byte_range b \<inter> byte_range (0x50800000 + off * 128, 128 * 2 ^ k) = {}" if "b \<in> heap_blocks h" for b
    using that unfolding heap_blocks_def
  proof
    assume "b \<in> unit_blocks 128 0x50800000 (ksmall h)"
    then obtain o' k' where "(o', k') \<in> pool_blocks 16 (ksmall h)" "b = (0x50800000 + o' * 128, 128 * 2 ^ k')"
      by (auto simp: unit_blocks_def)
    with r(7) show ?thesis using scale_disjoint by blast
  next
    assume "b \<in> (\<lambda>(off, k). (0x50000000 + off * 4096, 4096 * 2 ^ k)) ` (pool_blocks 16 (kpage h) - {reserved})"
    then obtain o' k' where "(o', k') \<in> pool_blocks 16 (kpage h) - {reserved}"
      "b = (0x50000000 + o' * 4096, 4096 * 2 ^ k')" by auto
    with page_blocks_range [OF inv, of o' k'] interval_sep [OF range] show ?thesis by blast
  qed
  moreover have "heap_blocks h' = insert (0x50800000 + off * 128, 128 * 2 ^ k) (heap_blocks h)"
    using unit_blocks_insert [OF r(2)] by (simp add: heap_blocks_def p(3))
  moreover have "heap_inv h'" using inv r(1,2) by (simp add: heap_inv_def p(3))
  ultimately show thesis
    using that [of off k] r(3,4,5) n(3) range by (simp add: p(2) SMALL_BEGIN_def)
qed

interpretation kheap: allocator heap_inv heap_blocks "\<lambda>a. unat (kva2pa a)" kalloc
proof
  fix h h' :: heap and sz a :: u64
  assume h: "heap_inv h" "valid_request sz" "kalloc h sz = Some (a, h')"
  then have sz: "0 < unat sz" "unat sz \<le> 2 ^ 63" by (auto simp: valid_request_def)
  show "heap_inv h'"
    by (cases "CeilPower2 sz > 1024"; (erule kalloc_page [OF h(1) sz _ h(3)] | erule kalloc_small [OF h(1) sz _ h(3)]))
  show "\<exists>len\<ge>unat sz. heap_blocks h' = insert (unat (kva2pa a), len) (heap_blocks h) \<and>
      (\<forall>b\<in>heap_blocks h. byte_range b \<inter> byte_range (unat (kva2pa a), len) = {})"
  proof (cases "CeilPower2 sz > 1024")
    case True
    show ?thesis by (rule kalloc_page [OF h(1) sz True h(3)]) auto
  next
    case False
    show ?thesis by (rule kalloc_small [OF h(1) sz False h(3)]) auto
  qed
qed

text \<open>Whole pages: the requests for the tables and the memory of processes.\<close>

interpretation kpages: page_provider heap_inv heap_blocks "\<lambda>a. unat (kva2pa a)" kalloc
proof
  fix h h' :: heap and a :: u64
  assume h: "heap_inv h" "kalloc h 4096 = Some (a, h')"
  have c: "CeilPower2 4096 > 1024" using CeilPower2_pow2 [of 12] by simp
  show "unat (kva2pa a) mod 4096 = 0 \<and> unat (kva2pa a) + 4096 \<le> 2 ^ 56"
  proof (rule kalloc_page [OF h(1) _ _ c h(2)])
    fix off k
    assume r: "unat (kva2pa a) = 0x50000000 + off * 4096" "byte_range (0x50000000 + off * 4096, 4096 * 2 ^ k) \<subseteq> {0x51000000 ..< 0x60000000}"
    have "(0x50000000 + off * 4096) mod 4096 = (0::nat)" by presburger
    moreover have "0x50000000 + off * 4096 \<in> byte_range (0x50000000 + off * 4096, 4096 * 2 ^ k)" by (simp add: byte_range_def)
    ultimately show ?thesis using r by auto
  qed simp_all
qed

lemma init_kernel_heap_ok:
  obtains h' where "init_kernel_heap h = Some h'" "heap_inv h'" "heap_blocks h' = {}"
proof -
  define s where "s = pool_init (2 ^ 16) (ksmall h)"
  have s: "pool_wf 16 s" "pool_blocks 16 s = {}" using pool_init_ok [of 16] by (auto simp: s_def)
  have used: "CeilPower2 (PAGE_START - PAGE_BEGIN) = 0x1000000"
    using CeilPower2_pow2 [of 24] by (simp add: PAGE_START_def PAGE_BEGIN_def)
  have units: "unat ((0x1000000 :: u64) div 4096) = 4096" by (simp add: unat_div)
  have log: "(12::nat) = log2 (if (4096::nat) = 0 then 1 else 4096)"
    using log2_pow2 [of 12] by simp
  have H: "(1::nat) \<le> 16" "(12::nat) \<le> 16" by simp_all
  obtain p where p: "pool_alloc (2 ^ 16) (pool_init (2 ^ 16) (kpage h)) 4096 = Some (0, p)"
    by (rule pool_alloc_first [OF H(1) log H(2)])
  have wf: "pool_wf 16 (pool_init (2 ^ 16) (kpage h))" "pool_blocks 16 (pool_init (2 ^ 16) (kpage h)) = {}"
    using pool_init_ok [of 16] by auto
  have pp: "pool_wf 16 p" "pool_blocks 16 p = {reserved}"
    using pool_alloc_SomeD(1,2) [OF wf(1) p log] wf(2) by (simp_all add: reserved_def)
  have "PAGE_START - PAGE_BEGIN \<noteq> 0" by (simp add: PAGE_START_def PAGE_BEGIN_def)
  then have "init_kernel_heap h = Some (h\<lparr>ksmall := s, kpage := p\<rparr>)"
    using p used units
    by (simp add: init_kernel_heap_def allocator_init_def Let_def s_def del: One_nat_def)
  moreover have "heap_inv (h\<lparr>ksmall := s, kpage := p\<rparr>)" using s pp by (simp add: heap_inv_def)
  moreover have "heap_blocks (h\<lparr>ksmall := s, kpage := p\<rparr>) = {}"
    using s pp by (simp add: heap_blocks_def unit_blocks_def)
  ultimately show thesis by (rule that)
qed

lemma CeilPower2_big: "valid_request sz \<Longrightarrow> CeilPower2 sz > 1024 \<longleftrightarrow> 1024 < unat sz"
proof -
  assume "valid_request sz"
  then obtain n where n: "CeilPower2 sz = 2 ^ n" "n \<le> 63" "unat sz \<le> 2 ^ n" "2 ^ n < 2 * unat sz"
    using CeilPower2_least [of sz] by (auto simp: valid_request_def)
  have "(2::nat) ^ n \<le> 2 ^ 10" if "(2::nat) ^ n < 2 ^ 11"
    using power_less_imp_less_exp [OF _ that] by (intro power_increasing) simp_all
  then have "(1024 < (2::nat) ^ n) = (1024 < unat sz)" using n(3,4) by (cases "(2::nat) ^ n < 2 ^ 11") auto
  with n(1,2) show ?thesis by (simp add: word_less_nat_alt unat_pow2)
qed

text \<open>A fresh heap serves a small request and a page.\<close>

lemma kalloc_small_succeeds:
  assumes "pool_wf 16 (ksmall h)" "pool_blocks 16 (ksmall h) = {}"
  obtains a h' where "kalloc h 64 = Some (a, h')" "kpage h' = kpage h"
proof -
  have c: "CeilPower2 64 = 64" using CeilPower2_pow2 [of 6] by simp
  have k: "(0::nat) = log2 (if (0::nat) = 0 then 1 else 0)" by (simp add: log2_less_2)
  have "Suc 0 \<le> longest (ksmall h) 0" by (rule pool_alloc_complete [OF assms(1) k, of 0]) (simp_all add: assms)
  then obtain off p' where "pool_alloc (2 ^ 16) (ksmall h) 0 = Some (off, p')"
    using pool_alloc_ok [OF assms(1) k] by metis
  then have "kalloc h 64 = Some (pa2kva (SMALL_BEGIN + of_nat off * 128), h\<lparr>ksmall := p'\<rparr>)"
    by (simp add: kalloc_def c allocator_alloc_def unat_div)
  then show thesis by (rule that) simp
qed

lemma kalloc_page_succeeds:
  assumes "pool_wf 16 (kpage h)" "pool_blocks 16 (kpage h) = {reserved}"
  obtains a h' where "kalloc h 4096 = Some (a, h')"
proof -
  have c: "CeilPower2 4096 = 4096" using CeilPower2_pow2 [of 12] by simp
  have k: "(0::nat) = log2 (if (1::nat) = 0 then 1 else 1)" by (simp add: log2_less_2)
  have "Suc 0 \<le> longest (kpage h) 0"
    by (rule pool_alloc_complete [OF assms(1) k, of 4096]) (simp_all add: assms(2) reserved_def block_range_def)
  then obtain off p' where "pool_alloc (2 ^ 16) (kpage h) 1 = Some (off, p')"
    using pool_alloc_ok [OF assms(1) k] by metis
  then show thesis by (intro that) (simp add: kalloc_def c allocator_alloc_def unat_div)
qed

lemma heap_blocks_emptyD:
  assumes "heap_inv h" "heap_blocks h = {}"
  shows "pool_wf 16 (ksmall h)" "pool_wf 16 (kpage h)" "pool_blocks 16 (ksmall h) = {}" "pool_blocks 16 (kpage h) = {reserved}"
  using assms by (auto simp: heap_inv_def heap_blocks_def unit_blocks_def)

section \<open>Properties\<close>

text \<open>
  \<open>CeilPower2\<close> computes the least power of two that is not below its argument, for every
  argument from 1 to \<open>2 ^ 63\<close>.
\<close>

theorem CeilPower2_correct:
  assumes "0 < unat x" "unat x \<le> 2 ^ 63"
  shows "\<exists>n. CeilPower2 x = 2 ^ n \<and> unat (CeilPower2 x) = 2 ^ n \<and> unat x \<le> 2 ^ n \<and> 2 ^ n < 2 * unat x"
  by (rule CeilPower2_least [OF assms]) (auto simp: unat_pow2)

theorem CeilPower2_correct_witness:
  "\<exists>n. CeilPower2 5000 = 2 ^ n \<and> unat (CeilPower2 5000) = 2 ^ n \<and> 5000 \<le> (2::nat) ^ n \<and> (2::nat) ^ n < 10000"
  using CeilPower2_correct [of 5000] by simp

text \<open>
  \<open>init_kernel_heap\<close> passes its assertion (the pages below \<open>PAGE_START\<close> are the first block of
  the page pool) and leaves a well-formed heap with no live block.
\<close>

theorem kernel_heap_starts_empty: "\<exists>h'. init_kernel_heap h = Some h' \<and> heap_inv h' \<and> heap_blocks h' = {}"
  by (rule init_kernel_heap_ok [of h]) blast

text \<open>
  C27: After \<open>init_kernel_heap\<close>, the blocks that any sequence of successful \<open>kalloc\<close> calls for 1 to 2^63 bytes each returns are
  pairwise disjoint over the whole requested length. (For more than 2^63 bytes \<open>CeilPower2\<close> wraps to 0 and \<open>kalloc\<close> returns a block of 128 bytes.)
\<close>

theorem kalloc_sequence_disjoint:
  assumes "init_kernel_heap h0 = Some h" "\<forall>sz\<in>set szs. valid_request sz"
    and "run_allocs kalloc h szs = Some (as, h')" "i < j" "j < length szs"
  shows "byte_range (unat (kva2pa (as ! i)), unat (szs ! i)) \<inter> byte_range (unat (kva2pa (as ! j)), unat (szs ! j)) = {}"
proof -
  have "heap_inv h" using assms(1) init_kernel_heap_ok [of h0] by (metis option.inject)
  then show ?thesis by (rule kheap.run_allocs_pairwise [OF _ assms(2-5)])
qed

theorem kalloc_sequence_disjoint_witness:
  "\<exists>h0 h as h'. init_kernel_heap h0 = Some h \<and> run_allocs kalloc h [64, 4096] = Some (as, h') \<and>
     byte_range (unat (kva2pa (as ! 0)), 64) \<inter> byte_range (unat (kva2pa (as ! 1)), 4096) = {}"
proof -
  obtain h where h: "init_kernel_heap \<lparr>ksmall = pool4, kpage = pool4\<rparr> = Some h" "heap_inv h" "heap_blocks h = {}"
    by (rule init_kernel_heap_ok)
  note e = heap_blocks_emptyD [OF h(2,3)]
  obtain a h1 where a: "kalloc h 64 = Some (a, h1)" "kpage h1 = kpage h"
    by (rule kalloc_small_succeeds [OF e(1,3)])
  have e1: "pool_wf 16 (kpage h1)" "pool_blocks 16 (kpage h1) = {reserved}" using e a(2) by simp_all
  obtain b h2 where b: "kalloc h1 4096 = Some (b, h2)" by (rule kalloc_page_succeeds [OF e1])
  have r: "run_allocs kalloc h [64, 4096] = Some ([a, b], h2)" using a(1) b by simp
  have "\<forall>sz\<in>set [64, 4096]. valid_request sz" by (simp add: valid_request_def)
  from kalloc_sequence_disjoint [OF h(1) this r, of 0 1] h(1) r show ?thesis by fastforce
qed

text \<open>
  A block from \<open>kalloc\<close> is at least as long as the request and lies in the region the size
  selects: requests above 1024 bytes are page-aligned blocks above \<open>PAGE_START\<close>, the others lie in
  the small pool. No live block overlaps it.
\<close>

theorem kalloc_region:
  assumes "heap_inv h" "valid_request sz" "kalloc h sz = Some (a, h')"
  shows "heap_inv h' \<and>
    byte_range (unat (kva2pa a), unat sz) \<subseteq>
      (if 1024 < unat sz then {0x51000000 ..< 0x60000000} else {0x50800000 ..< 0x51000000}) \<and>
    (1024 < unat sz \<longrightarrow> unat (kva2pa a) mod 4096 = 0) \<and>
    (\<forall>b\<in>heap_blocks h. byte_range b \<inter> byte_range (unat (kva2pa a), unat sz) = {})"
proof -
  have sz: "0 < unat sz" "unat sz \<le> 2 ^ 63" using assms(2) by (auto simp: valid_request_def)
  have sub: "byte_range (x, unat sz) \<subseteq> byte_range (x, y)" if "unat sz \<le> y" for x y
    using that by (auto simp: byte_range_def)
  show ?thesis
  proof (cases "CeilPower2 sz > 1024")
    case True
    show ?thesis
    proof (rule kalloc_page [OF assms(1) sz True assms(3)])
      fix off k
      assume r: "heap_inv h'" "unat (kva2pa a) = 0x50000000 + off * 4096" "unat sz \<le> 4096 * 2 ^ k"
        "byte_range (0x50000000 + off * 4096, 4096 * 2 ^ k) \<subseteq> {0x51000000 ..< 0x60000000}"
      have "(0x50000000 + off * 4096) mod 4096 = (0::nat)" by presburger
      moreover have "byte_range (0x50000000 + off * 4096, unat sz) \<subseteq> {0x51000000 ..< 0x60000000}"
        using sub [OF r(3)] r(4) by blast
      ultimately show ?thesis
        using r(1,2) True CeilPower2_big [OF assms(2)] kheap.alloc_disjoint [OF assms] by simp
    qed
  next
    case False
    show ?thesis
    proof (rule kalloc_small [OF assms(1) sz False assms(3)])
      fix off k
      assume r: "heap_inv h'" "unat (kva2pa a) = 0x50800000 + off * 128" "unat sz \<le> 128 * 2 ^ k"
        "byte_range (0x50800000 + off * 128, 128 * 2 ^ k) \<subseteq> {0x50800000 ..< 0x51000000}"
      then show ?thesis
        using sub [OF r(3)] False CeilPower2_big [OF assms(2)] kheap.alloc_disjoint [OF assms] by auto
    qed
  qed
qed

theorem kalloc_region_witness:
  "\<exists>h a h'. heap_inv h \<and> kalloc h 4096 = Some (a, h') \<and> heap_inv h' \<and> unat (kva2pa a) mod 4096 = 0 \<and>
     byte_range (unat (kva2pa a), 4096) \<subseteq> {0x51000000 ..< 0x60000000}"
proof -
  obtain h where h: "init_kernel_heap \<lparr>ksmall = pool4, kpage = pool4\<rparr> = Some h" "heap_inv h" "heap_blocks h = {}"
    by (rule init_kernel_heap_ok)
  note e = heap_blocks_emptyD [OF h(2,3)]
  obtain a h' where a: "kalloc h 4096 = Some (a, h')" by (rule kalloc_page_succeeds [OF e(2,4)])
  have "valid_request 4096" by (simp add: valid_request_def)
  from kalloc_region [OF h(2) this a] h(2) a show ?thesis by auto
qed

text \<open>
  \<open>kfree\<close> returns nothing to the pools. It checks that the pointer is a multiple of the unit and
  then leaves the heap as it is, so a freed block stays allocated for ever.
\<close>

theorem kfree_releases_nothing: "kfree h ptr = Some h' \<Longrightarrow> h' = h"
  by (auto simp: kfree_def Let_def allocator_free_def split: if_splits)

theorem kfree_releases_nothing_witness:
  "kfree \<lparr>ksmall = pool4, kpage = pool4\<rparr> (pa2kva 0x51002000) = Some \<lparr>ksmall = pool4, kpage = pool4\<rparr>"
proof -
  let ?h = "\<lparr>ksmall = pool4, kpage = pool4\<rparr>"
  obtain h' where "kfree ?h (pa2kva 0x51002000) = Some h'"
    by (simp add: kfree_def allocator_free_def PAGE_START_def PAGE_BEGIN_def)
  with kfree_releases_nothing [OF this] show ?thesis by simp
qed

end
