(* ===== verification/UserMalloc.thy ===== *)
theory UserMalloc
  imports Kalloc
begin

text \<open>
  The heap of user programs, \<open>tiny_libc/memory.c\<close>. It is the kernel's buddy tree written with
  sizes in place of logarithms (\<open>longest[i]\<close> is 0 or a power of two), without the assertion that
  a request fits. The proofs relate the two arrays by \<open>enc\<close> and carry the kernel's theorems over.
\<close>

section \<open>The code\<close>

definition maxul :: "nat \<Rightarrow> nat \<Rightarrow> nat" where
  "maxul a b = (if a > b then a else b)"

definition mem_begin :: u64 where "mem_begin = 2 ^ 30"
definition mem_end :: u64 where "mem_end = 2 * 2 ^ 30"
definition batch_size :: u64 where "batch_size = 4096"
definition u_capacity :: nat where "u_capacity = unat ((mem_end - mem_begin) div batch_size)"

fun u_init_leaves :: "nat \<Rightarrow> nat \<Rightarrow> (nat \<Rightarrow> nat) \<Rightarrow> (nat \<Rightarrow> nat)" where
  "u_init_leaves capacity i lg =
     (if i > capacity - 2 then u_init_leaves capacity (i - 1) (lg(i := 1)) else lg)"

fun u_init_parents :: "nat \<Rightarrow> (nat \<Rightarrow> nat) \<Rightarrow> (nat \<Rightarrow> nat)" where
  "u_init_parents i lg =
     (if i > 0 then u_init_parents (i - 1) (lg((i - 1) div 2 := lg i * 2)) else lg)"

definition u_pool_init :: "nat \<Rightarrow> (nat \<Rightarrow> nat) \<Rightarrow> (nat \<Rightarrow> nat)" where
  "u_pool_init capacity lg =
     u_init_parents (2 * capacity - 2) (u_init_leaves capacity (2 * capacity - 2) lg)"

text \<open>The loop guard \<open>nodesize > size\<close> keeps \<open>nodesize\<close> above 1, since \<open>size\<close> is at least 1.\<close>

fun u_descend :: "(nat \<Rightarrow> nat) \<Rightarrow> nat \<Rightarrow> nat \<Rightarrow> nat \<Rightarrow> nat \<times> nat" where
  "u_descend lg sz nodesize index =
     (if nodesize > sz
      then let nodesize = nodesize div 2; lc = index * 2 + 1; rc = index * 2 + 2
           in if lg rc < sz \<or> (sz \<le> lg lc \<and> lg lc \<le> lg rc)
              then u_descend lg sz nodesize lc
              else u_descend lg sz nodesize rc
      else (nodesize, index))"

fun u_update :: "(nat \<Rightarrow> nat) \<Rightarrow> nat \<Rightarrow> (nat \<Rightarrow> nat)" where
  "u_update lg index =
     (if index = 0 then lg
      else let index = (index - 1) div 2
           in u_update (lg(index := maxul (lg (index * 2 + 1)) (lg (index * 2 + 2)))) index)"

definition u_pool_alloc :: "nat \<Rightarrow> (nat \<Rightarrow> nat) \<Rightarrow> nat \<Rightarrow> nat \<times> (nat \<Rightarrow> nat)" where
  "u_pool_alloc capacity lg sz =
     (let sz = (if sz = 0 then 1 else sz);
          (nodesize, index) = u_descend lg sz capacity 0;
          lg = lg(index := 0);
          offset = (index + 1) * nodesize - capacity
      in (offset, u_update lg index))"

text \<open>
  The search of \<open>pool_free\<close> has no guard at the root: with \<open>longest[0]\<close> not 0 the next index is
  \<open>(0 - 1) / 2\<close> in 64-bit arithmetic, far outside the array. That read is \<open>None\<close>.
\<close>

function u_find :: "(nat \<Rightarrow> nat) \<Rightarrow> nat \<Rightarrow> nat \<Rightarrow> (nat \<times> nat) option" where
  "u_find lg nodesize index =
     (if lg index = 0 then Some (nodesize, index)
      else if index = 0 then None
      else u_find lg (nodesize * 2) ((index - 1) div 2))"
  by pat_completeness auto
termination
  by (relation "measure (\<lambda>(lg, nodesize, index). index)") auto

fun u_merge :: "(nat \<Rightarrow> nat) \<Rightarrow> nat \<Rightarrow> nat \<Rightarrow> (nat \<Rightarrow> nat)" where
  "u_merge lg nodesize index =
     (if index = 0 then lg
      else let index = (index - 1) div 2; nodesize = nodesize * 2;
               ll = lg (index * 2 + 1); rl = lg (index * 2 + 2)
           in u_merge (lg(index := (if ll + rl = nodesize then nodesize else maxul ll rl))) nodesize index)"

definition u_pool_free :: "nat \<Rightarrow> (nat \<Rightarrow> nat) \<Rightarrow> nat \<Rightarrow> (nat \<times> (nat \<Rightarrow> nat)) option" where
  "u_pool_free capacity lg offset = do {
     (nodesize, index) \<leftarrow> u_find lg 1 (offset + capacity - 1);
     let lg = lg(index := nodesize);
     Some (nodesize, u_merge lg nodesize index)
   }"

definition malloc :: "(nat \<Rightarrow> nat) \<Rightarrow> u64 \<Rightarrow> u64 \<times> (nat \<Rightarrow> nat)" where
  "malloc lg sz =
     (let sz = CeilPower2 sz;
          (offset, lg) = u_pool_alloc u_capacity lg (unat (sz div batch_size))
      in (mem_begin + of_nat offset * batch_size, lg))"

definition user_free :: "(nat \<Rightarrow> nat) \<Rightarrow> u64 \<Rightarrow> (nat \<Rightarrow> nat) option" where
  "user_free lg ptr =
     (let offset = ptr - mem_begin;
          offset = offset div batch_size
      in do {
        (free_size, lg) \<leftarrow> u_pool_free u_capacity lg (unat offset);
        Some lg
      })"

text \<open>The first component is the argument of the call \<open>sys_brk\<close>.\<close>

definition crt_init :: "(nat \<Rightarrow> nat) \<Rightarrow> u64 \<times> (nat \<Rightarrow> nat)" where
  "crt_init lg = (mem_end, u_pool_init u_capacity lg)"

declare u_init_leaves.simps [simp del] u_init_parents.simps [simp del] u_descend.simps [simp del]
  u_update.simps [simp del] u_find.simps [simp del] u_merge.simps [simp del]

section \<open>The same tree with sizes for logarithms\<close>

definition enc :: "nat \<Rightarrow> nat" where
  "enc v = (if v = 0 then 0 else 2 ^ (v - 1))"

definition dec :: "nat \<Rightarrow> nat" where
  "dec s = (if s = 0 then 0 else log2 s + 1)"

lemma enc_simps [simp]: "enc 0 = 0" "enc (Suc v) = 2 ^ v"
  by (simp_all add: enc_def)

lemma dec_enc [simp]: "dec (enc v) = v"
  by (cases v) (simp_all add: dec_def)

lemma enc_less: "enc a < enc b \<longleftrightarrow> a < b"
  by (cases a; cases b) simp_all

lemma enc_le: "enc a \<le> enc b \<longleftrightarrow> a \<le> b"
  using enc_less by (simp flip: not_less)

lemma maxul_enc: "maxul (enc a) (enc b) = enc (max a b)"
  by (auto simp: maxul_def enc_less max_def)

lemma enc_upd: "(enc \<circ> lg)(i := enc v) = enc \<circ> lg(i := v)"
  by (simp add: fun_eq_iff)

text \<open>Two children add up to their parent's size only if both are whole.\<close>

lemma enc_sum:
  assumes "0 < n" "a \<le> n" "b \<le> n"
  shows "enc a + enc b = 2 ^ n \<longleftrightarrow> a = n \<and> b = n"
proof -
  obtain m where n: "n = Suc m" using assms(1) by (cases n) auto
  have enc_bound: "enc a \<le> 2 ^ m \<and> (enc a = 2 ^ m \<longrightarrow> a = n)" if "a \<le> n" for a
    using that n enc_le [of a n] by (metis dec_enc enc_simps(2))
  show ?thesis using enc_bound [of a] enc_bound [of b] n assms(2,3) by auto
qed

lemma u_descend_enc:
  "u_descend (enc \<circ> lg) (2 ^ k) (2 ^ h) i =
     (case alloc_descend lg (Suc k) (Suc h) i of (ns, j) \<Rightarrow> (2 ^ (ns - 1), j))"
proof (induction h arbitrary: i)
  case 0
  then show ?case by (simp add: u_descend.simps alloc_descend.simps)
next
  case (Suc h)
  show ?case
  proof (cases "k < Suc h")
    case True
    have c: "(enc \<circ> lg) x < 2 ^ k \<longleftrightarrow> lg x < Suc k" "2 ^ k \<le> (enc \<circ> lg) x \<longleftrightarrow> Suc k \<le> lg x"
      "(enc \<circ> lg) x \<le> (enc \<circ> lg) y \<longleftrightarrow> lg x \<le> lg y" for x y
      using enc_less [of "lg x" "Suc k"] enc_le [of "Suc k" "lg x"] by (simp_all add: enc_le)
    have g: "(2::nat) ^ k < 2 ^ Suc h" using True by (intro power_strict_increasing) simp_all
    have d: "(2::nat) ^ Suc h div 2 = 2 ^ h" by simp
    show ?thesis
      by (subst u_descend.simps, subst alloc_descend.simps) (simp only: c Let_def g d True Suc if_True Suc_less_eq diff_Suc_1, simp)
  next
    case False
    then have "(2::nat) ^ Suc h \<le> 2 ^ k" by (intro power_increasing) simp_all
    with False show ?thesis by (simp add: u_descend.simps alloc_descend.simps)
  qed
qed

lemma u_update_enc: "u_update (enc \<circ> lg) i = enc \<circ> alloc_update lg i"
proof (induction i arbitrary: lg rule: less_induct)
  case (less i)
  show ?case
  proof (cases "i = 0")
    case False
    then have lt: "(i - 1) div 2 < i" by simp
    show ?thesis
      by (subst u_update.simps, subst alloc_update.simps)
        (simp only: False Let_def comp_apply maxul_enc enc_upd less.IH [OF lt] if_False, simp add: comp_def)
  qed (simp add: u_update.simps alloc_update.simps)
qed

lemma u_find_enc: "u_find (enc \<circ> lg) (2 ^ n) i = map_option (\<lambda>(ns, j). (2 ^ (ns - 1), j)) (free_find lg (Suc n) i)"
proof (induction i arbitrary: n rule: less_induct)
  case (less i)
  have z: "(enc \<circ> lg) i = 0 \<longleftrightarrow> lg i = 0" by (simp add: enc_def)
  show ?case
  proof (cases "lg i = 0 \<or> i = 0")
    case False
    then have "0 < i" by simp
    then have lt: "(i - 1) div 2 < i" by simp
    have "u_find (enc \<circ> lg) (2 ^ n) i = u_find (enc \<circ> lg) (2 ^ Suc n) ((i - 1) div 2)"
      using False z by (subst u_find.simps) (simp add: mult.commute)
    moreover have "free_find lg (Suc n) i = free_find lg (Suc (Suc n)) ((i - 1) div 2)"
      using False by (subst free_find.simps) simp
    ultimately show ?thesis by (simp only: less.IH [OF lt])
  next
    case True
    with z show ?thesis by (subst u_find.simps, subst free_find.simps) (cases "lg i = 0", simp_all)
  qed
qed

lemma u_merge_enc:
  "repr h i lg t \<Longrightarrow> ctx_repr h i lg c \<Longrightarrow> u_merge (enc \<circ> lg) (2 ^ h) i = enc \<circ> free_merge lg (Suc h) i"
proof (induction c arbitrary: h i lg t)
  case Nil
  then show ?case by (simp add: u_merge.simps free_merge.simps)
next
  case (Cons bs c)
  obtain b s where bs: "bs = (b, s)" by (cases bs)
  from Cons.prems(2) bs obtain p where i: "i = (if b then 2 * p + 2 else 2 * p + 1)"
    and s: "repr h (if b then 2 * p + 1 else 2 * p + 2) lg s" and c: "ctx_repr (Suc h) p lg c" by auto
  define l r where "l = (if b then s else t)" and "r = (if b then t else s)"
  have lr: "repr h (2 * p + 1) lg l" "repr h (2 * p + 2) lg r"
    using Cons.prems(1) s i by (simp_all add: l_def r_def split: if_splits)
  let ?v = "if lg (p * 2 + 1) + 1 = Suc (Suc h) \<and> lg (p * 2 + 2) + 1 = Suc (Suc h) then Suc (Suc h)
    else max (lg (p * 2 + 1)) (lg (p * 2 + 2))"
  have step: "free_merge lg (Suc h) i = free_merge (lg(p := ?v)) (Suc (Suc h)) p"
    using i by (subst free_merge.simps) (auto simp: Let_def)
  have le: "lg (p * 2 + 1) \<le> Suc h" "lg (p * 2 + 2) \<le> Suc h"
    using repr_val [OF lr(1)] repr_val [OF lr(2)] tval_le [of h] by (simp_all add: mult.commute)
  have v: "(if enc (lg (p * 2 + 1)) + enc (lg (p * 2 + 2)) = 2 ^ Suc h then 2 ^ Suc h
      else maxul (enc (lg (p * 2 + 1))) (enc (lg (p * 2 + 2)))) = enc ?v"
    using enc_sum [OF _ le] by (simp add: maxul_enc)
  have ustep: "u_merge (enc \<circ> lg) (2 ^ h) i = u_merge (enc \<circ> lg(p := ?v)) (2 ^ Suc h) p"
  proof -
    have "u_merge (enc \<circ> lg) (2 ^ h) i = u_merge ((enc \<circ> lg)(p :=
        (if enc (lg (p * 2 + 1)) + enc (lg (p * 2 + 2)) = 2 ^ Suc h then 2 ^ Suc h
         else maxul (enc (lg (p * 2 + 1))) (enc (lg (p * 2 + 2)))))) (2 ^ Suc h) p"
    proof -
      have "i \<noteq> 0" "(i - 1) div 2 = p" using i by auto
      then show ?thesis
        by (subst u_merge.simps) (simp only: Let_def comp_apply if_False power_Suc mult.commute [of 2])
    qed
    then show ?thesis by (simp only: v enc_upd)
  qed
  have u: "\<not> under (2 * p + 1) p" "\<not> under (2 * p + 2) p" by (simp_all add: not_under_less)
  have vn: "?v = tval (Suc h) (node l r)"
    using lr [THEN repr_val] lr [THEN repr_tval_full] by (auto simp: node_def mult.commute)
  have "repr (Suc h) p (lg(p := tval (Suc h) (node l r))) (node l r)"
    using lr u by (auto simp: node_def repr_upd full_upd)
  then have t: "repr (Suc h) p (lg(p := ?v)) (node l r)" by (simp only: vn)
  have "ctx_repr (Suc h) p (lg(p := ?v)) c" using c by (simp add: ctx_repr_upd)
  from Cons.IH [OF t this] show ?case by (simp only: step ustep)
qed

section \<open>The laws of the user heap\<close>

definition u_pool :: "(nat \<Rightarrow> nat) \<Rightarrow> buddy_pool" where
  "u_pool lg = \<lparr>longest = dec \<circ> lg\<rparr>"

definition u_wf :: "nat \<Rightarrow> (nat \<Rightarrow> nat) \<Rightarrow> bool" where
  "u_wf H lg \<longleftrightarrow> enc \<circ> (dec \<circ> lg) = lg \<and> pool_wf H (u_pool lg)"

definition u_blocks :: "nat \<Rightarrow> (nat \<Rightarrow> nat) \<Rightarrow> (nat \<times> nat) set" where
  "u_blocks H lg = pool_blocks H (u_pool lg)"

lemma dec_enc_comp [simp]: "dec \<circ> (enc \<circ> lg) = lg"
  by (simp add: fun_eq_iff)

lemma u_pool_enc [simp]: "u_pool (enc \<circ> longest p) = p"
  by (cases p) (simp add: u_pool_def fun_eq_iff)

lemma u_wf_enc: "pool_wf H p \<Longrightarrow> u_wf H (enc \<circ> longest p)"
  by (simp only: u_wf_def dec_enc_comp u_pool_enc)

lemma u_wfE:
  assumes "u_wf H lg"
  obtains p where "lg = enc \<circ> longest p" "pool_wf H p" "u_blocks H lg = pool_blocks H p"
  using that [of "u_pool lg"] assms unfolding u_wf_def u_blocks_def by (simp add: u_pool_def)

lemma u_pool_alloc_enc:
  assumes a: "pool_alloc (2 ^ H) p sz = Some (off, p')" and sz: "(if sz = 0 then 1 else sz) = 2 ^ k" and wf: "pool_wf H p"
  shows "u_pool_alloc (2 ^ H) (enc \<circ> longest p) sz = (off, enc \<circ> longest p')"
proof -
  have k: "k = log2 (if sz = 0 then 1 else sz)" by (simp only: sz log2_pow2)
  obtain ns j where d: "alloc_descend (longest p) (Suc k) (Suc H) 0 = (ns, j)" by fastforce
  have "longest p 0 \<ge> Suc k" using pool_alloc_SomeD(7) [OF wf a k] .
  with a d have r: "off = (j + 1) * 2 ^ (ns - 1) - 2 ^ H" "p' = p\<lparr>longest := alloc_update ((longest p)(j := 0)) j\<rparr>"
    by (simp_all add: pool_alloc_def Let_def caplog_def flip: k)
  have z: "(enc \<circ> longest p)(j := 0) = enc \<circ> (longest p)(j := 0)" using enc_upd [of "longest p" j 0] by simp
  show ?thesis
    by (simp only: u_pool_alloc_def Let_def sz u_descend_enc d prod.case z u_update_enc r) simp
qed

lemma u_pool_free_ok:
  assumes wf: "u_wf H lg" and b: "(off, k) \<in> u_blocks H lg" and x: "x \<in> block_range (off, k)"
  obtains lg' where "u_pool_free (2 ^ H) lg x = Some (2 ^ k, lg')" "u_wf H lg'"
    "u_blocks H lg' = u_blocks H lg - {(off, k)}"
proof -
  obtain p where p: "lg = enc \<circ> longest p" "pool_wf H p" "u_blocks H lg = pool_blocks H p"
    by (rule u_wfE [OF wf])
  from p(2) obtain t where t: "repr H 0 (longest p) t" "pool_blocks H p = ublocks H 0 t"
    by (rule pool_wfE)
  obtain j c where d: "ctx_repr k j (longest p) c" "repr k j (longest p) Used" "ctx_base k c = off" "k + length c = H"
    using find_used_block [of H 0 "longest p" "[]" t off k] t b p(3) by auto
  obtain p' where f: "pool_free (2 ^ H) p x = Some p'" "pool_wf H p'" "pool_blocks H p' = pool_blocks H p - {(off, k)}"
    using pool_free_ok [OF p(2) b [unfolded p(3)] x] by metis
  have base: "Suc j * 2 ^ k = 2 ^ H + off" using ctx_base_index [OF d(1)] d(3,4) by simp
  have "Suc (x + 2 ^ H - 1) div 2 ^ k = Suc j"
  proof (rule div_nat_eqI)
    show "2 ^ k * Suc j \<le> Suc (x + 2 ^ H - 1)" "Suc (x + 2 ^ H - 1) < 2 ^ k * Suc (Suc j)"
      using x base by (simp_all add: block_range_def algebra_simps)
  qed
  note ff = free_find_used [OF d(2) this]
  have p': "p' = p\<lparr>longest := free_merge ((longest p)(j := Suc k)) (Suc k) j\<rparr>"
    using f(1) ff by (simp add: pool_free_def split: if_splits)
  have uf: "u_find lg 1 (x + 2 ^ H - 1) = Some (2 ^ k, j)"
    using u_find_enc [of "longest p" 0 "x + 2 ^ H - 1"] ff by (simp add: p(1))
  have ur: "(enc \<circ> longest p)(j := 2 ^ k) = enc \<circ> (longest p)(j := Suc k)"
    using enc_upd [of "longest p" j "Suc k"] by simp
  have "ctx_repr k j ((longest p)(j := Suc k)) c" using d(1) by (simp add: ctx_repr_upd)
  note um = u_merge_enc [OF repr_toggle(2) [OF d(2)] this]
  have "u_pool_free (2 ^ H) lg x = Some (2 ^ k, enc \<circ> longest p')"
    using uf by (simp add: u_pool_free_def p(1) ur um p')
  then show thesis
    by (rule that) (use u_wf_enc [OF f(2)] f(3) p(3) in \<open>simp_all add: u_blocks_def\<close>)
qed

text \<open>A request that does not fit walks down the left edge of the tree.\<close>

lemma alloc_descend_leftmost:
  "repr h i lg t \<Longrightarrow> tval h t < Suc k \<Longrightarrow> k \<le> h \<Longrightarrow>
     \<exists>j. alloc_descend lg (Suc k) (Suc h) i = (Suc k, j) \<and> Suc j = Suc i * 2 ^ (h - k)"
proof (induction h arbitrary: i t)
  case 0
  then show ?case by (simp add: alloc_descend.simps)
next
  case (Suc h)
  show ?case
  proof (cases "k = Suc h")
    case False
    with Suc.prems have k: "k \<le> h" by simp
    have left: "lg (i * 2 + 2) < Suc k \<or> (Suc k \<le> lg (i * 2 + 1) \<and> lg (i * 2 + 1) \<le> lg (i * 2 + 2))"
      using Suc.prems k repr_val [of h "2 * i + 1" lg] repr_val [of h "2 * i + 2" lg]
        full_val [of h "2 * i + 1" lg] full_val [of h "2 * i + 2" lg]
      by (cases t) (auto simp: mult.commute)
    then have step: "alloc_descend lg (Suc k) (Suc (Suc h)) i = alloc_descend lg (Suc k) (Suc h) (i * 2 + 1)"
      using k by (subst alloc_descend.simps) (simp add: Let_def)
    have "\<exists>j. alloc_descend lg (Suc k) (Suc h) (2 * i + 1) = (Suc k, j) \<and> Suc j = Suc (2 * i + 1) * 2 ^ (h - k)"
    proof (cases t)
      case Free
      with Suc.prems show ?thesis by simp
    next
      case Used
      with Suc.prems(1) have "full h (2 * i + 1) lg" by simp
      from alloc_descend_full [OF this k] show ?thesis .
    next
      case (Split l r)
      with Suc.prems have "repr h (2 * i + 1) lg l" "tval h l < Suc k" by auto
      from Suc.IH [OF this k] show ?thesis .
    qed
    then show ?thesis using step k by (auto simp: mult.commute Suc_diff_le algebra_simps)
  qed (simp add: alloc_descend.simps)
qed

lemma u_pool_alloc_unfit:
  assumes wf: "u_wf H lg" and sz: "(if sz = 0 then 1 else sz) = 2 ^ k" and unfit: "lg 0 < 2 ^ k"
  shows "fst (u_pool_alloc (2 ^ H) lg sz) = 0"
proof -
  obtain p where p: "lg = enc \<circ> longest p" "pool_wf H p" by (rule u_wfE [OF wf])
  from p(2) obtain t where t: "repr H 0 (longest p) t" by (rule pool_wfE)
  have v: "tval H t < Suc k" using unfit p(1) enc_less [of "longest p 0" "Suc k"] repr_val [OF t] by simp
  show ?thesis
  proof (cases "k \<le> H")
    case True
    obtain j where j: "alloc_descend (longest p) (Suc k) (Suc H) 0 = (Suc k, j)" "Suc j = 2 ^ (H - k)"
      using alloc_descend_leftmost [OF t v True] by auto
    have "Suc j * 2 ^ k = 2 ^ H" using j(2) True by (simp flip: power_add)
    then have "(j + 1) * 2 ^ (Suc k - 1) - 2 ^ H = 0" by simp
    then show ?thesis
      by (simp only: p(1) u_pool_alloc_def Let_def sz u_descend_enc j prod.case fst_conv)
  next
    case False
    then have "(2::nat) ^ H \<le> 2 ^ k" by (intro power_increasing) simp_all
    then have "u_descend lg (2 ^ k) (2 ^ H) 0 = (2 ^ H, 0)" by (simp add: u_descend.simps)
    then show ?thesis by (simp only: u_pool_alloc_def Let_def sz prod.case fst_conv) simp
  qed
qed

subsection \<open>Initialisation\<close>

lemma u_init_leaves_val: "u_init_leaves cap i lg x = (if cap - 2 < x \<and> x \<le> i then 1 else lg x)"
proof (induction i arbitrary: lg)
  case 0
  then show ?case by (simp add: u_init_leaves.simps)
next
  case (Suc i)
  have "u_init_leaves cap (Suc i) lg = (if Suc i > cap - 2 then u_init_leaves cap i (lg(Suc i := 1)) else lg)"
    by (simp add: u_init_leaves.simps [of cap "Suc i"])
  with Suc show ?case by auto
qed

lemma u_init_parents_above: "i \<le> x \<Longrightarrow> u_init_parents i lg x = lg x"
proof (induction i arbitrary: lg)
  case (Suc i)
  have "u_init_parents (Suc i) lg = u_init_parents i (lg(i div 2 := lg (Suc i) * 2))"
    by (simp add: u_init_parents.simps [of "Suc i"])
  with Suc show ?case by auto
qed (simp add: u_init_parents.simps)

lemma u_init_parents_val:
  assumes "i \<le> 2 * 2 ^ H - 2"
    and "\<And>x. x \<le> 2 * 2 ^ H - 2 \<Longrightarrow> 2 ^ H - 1 \<le> x \<or> i < 2 * x + 2 \<Longrightarrow> lg x = 2 ^ (H - log2 (Suc x))"
  shows "x \<le> 2 * 2 ^ H - 2 \<Longrightarrow> u_init_parents i lg x = 2 ^ (H - log2 (Suc x))"
  using assms
proof (induction i arbitrary: lg)
  case 0
  then show ?case by (simp add: u_init_parents.simps)
next
  case (Suc i)
  let ?p = "i div 2"
  have step: "u_init_parents (Suc i) lg = u_init_parents i (lg(?p := lg (Suc i) * 2))"
    by (simp add: u_init_parents.simps [of "Suc i"])
  have "Suc (Suc i) div 2 = Suc ?p" by simp
  then have l: "log2 (Suc (Suc i)) = Suc (log2 (Suc ?p))" by (simp add: log2_rec)
  have "Suc (Suc i) < 2 ^ Suc H" using Suc.prems(2) by simp
  then have "log2 (Suc (Suc i)) \<le> H"
    using log2_bounds [of "Suc (Suc i)"] power_less_imp_less_exp [of "2::nat" "log2 (Suc (Suc i))" "Suc H"] by simp
  then have "H - log2 (Suc ?p) = Suc (H - log2 (Suc (Suc i)))" using l by simp
  then have v: "lg (Suc i) * 2 = 2 ^ (H - log2 (Suc ?p))"
    using Suc.prems(2) Suc.prems(3) [of "Suc i"] by simp
  have "(lg(?p := lg (Suc i) * 2)) y = 2 ^ (H - log2 (Suc y))"
    if y: "y \<le> 2 * 2 ^ H - 2" "2 ^ H - 1 \<le> y \<or> i < 2 * y + 2" for y
  proof (cases "y = ?p")
    case False
    with y(2) have "2 ^ H - 1 \<le> y \<or> Suc i < 2 * y + 2" by linarith
    with False Suc.prems(3) [OF y(1)] show ?thesis by simp
  qed (use v in simp)
  note upd = this
  have "i \<le> 2 * 2 ^ H - 2" using Suc.prems(2) by simp
  from Suc.IH [OF Suc.prems(1) this upd] show ?case unfolding step .
qed

text \<open>A cell outside the array, which the model's function has and the program does not, is 0.\<close>

lemma u_pool_init_ok:
  assumes H: "1 \<le> H" and out: "\<And>x. 2 * 2 ^ H - 2 < x \<Longrightarrow> lg x = 0"
  shows "u_wf H (u_pool_init (2 ^ H) lg) \<and> u_blocks H (u_pool_init (2 ^ H) lg) = {}"
proof -
  have two: "(2::nat) \<le> 2 ^ H" using H power_increasing [of 1 H "2::nat"] by simp
  define l0 where "l0 = u_init_leaves (2 ^ H) (2 * 2 ^ H - 2) lg"
  have leaf: "l0 x = 2 ^ (H - log2 (Suc x))"
    if "x \<le> 2 * 2 ^ H - 2" "2 ^ H - 1 \<le> x \<or> 2 * 2 ^ H - 2 < 2 * x + 2" for x
  proof -
    from that(2) two have ge: "2 ^ H \<le> Suc x" by linarith
    moreover have "Suc x < 2 ^ Suc H" using that(1) two by simp
    ultimately have "log2 (Suc x) = H" by (rule log2_unique)
    moreover have "2 ^ H - 2 < x" using ge two by linarith
    ultimately show ?thesis using that(1) by (simp add: l0_def u_init_leaves_val)
  qed
  let ?r = "u_pool_init (2 ^ H) lg"
  have inside: "?r x = 2 ^ (H - log2 (Suc x))" if "x \<le> 2 * 2 ^ H - 2" for x
    using u_init_parents_val [OF le_refl leaf, of x] that by (simp add: u_pool_init_def l0_def)
  have outside: "?r x = 0" if "2 * 2 ^ H - 2 < x" for x
    using that out u_init_parents_above [of "2 * 2 ^ H - 2" x] by (simp add: u_pool_init_def u_init_leaves_val)
  have d: "enc (dec (?r x)) = ?r x" for x
    by (cases "x \<le> 2 * 2 ^ H - 2") (simp_all add: inside outside dec_def)
  have "longest (u_pool ?r) x = Suc H - log2 (Suc x)" if "Suc x < 2 ^ Suc H" for x
  proof -
    have "(2::nat) ^ log2 (Suc x) < 2 ^ Suc H" using that log2_bounds [of "Suc x"] by linarith
    then have "log2 (Suc x) \<le> H" using power_less_imp_less_exp [of "2::nat" "log2 (Suc x)" "Suc H"] by simp
    then show ?thesis using that inside [of x] by (simp add: u_pool_def dec_def Suc_diff_le)
  qed
  from full_of_vals [OF this, of 0 H] have "repr H 0 (longest (u_pool ?r)) Free"
    by (simp add: log2_less_2)
  from pool_wfI [OF this] d show ?thesis by (simp add: u_wf_def u_blocks_def fun_eq_iff)
qed

subsection \<open>Addresses\<close>

text \<open>The arena has \<open>2 ^ 18\<close> pages from \<open>2 ^ 30\<close> on.\<close>

definition user_blocks :: "(nat \<Rightarrow> nat) \<Rightarrow> (nat \<times> nat) set" where
  "user_blocks lg = (\<lambda>(off, k). (2 ^ 30 + off * 4096, 4096 * 2 ^ k)) ` u_blocks 18 lg"

definition malloc_fits :: "(nat \<Rightarrow> nat) \<Rightarrow> u64 \<Rightarrow> bool" where
  "malloc_fits lg sz \<longleftrightarrow> max 1 (unat (CeilPower2 sz div batch_size)) \<le> lg 0"

text \<open>The allocator that \<open>malloc\<close> is as long as the requests fit.\<close>

definition malloc_checked :: "(nat \<Rightarrow> nat) \<Rightarrow> u64 \<Rightarrow> (u64 \<times> (nat \<Rightarrow> nat)) option" where
  "malloc_checked lg sz = (if malloc_fits lg sz then Some (malloc lg sz) else None)"

lemma u_capacity_eq: "u_capacity = 2 ^ 18"
  by (simp add: u_capacity_def mem_begin_def mem_end_def batch_size_def unat_div)

lemma request_pages:
  assumes "valid_request sz"
  obtains k where "(if unat (CeilPower2 sz div batch_size) = 0 then 1 else unat (CeilPower2 sz div batch_size)) = 2 ^ k"
    "unat sz \<le> 4096 * 2 ^ k"
proof -
  have sz: "0 < unat sz" "unat sz \<le> 2 ^ 63" using assms by (auto simp: valid_request_def)
  obtain n where n: "CeilPower2 sz = 2 ^ n" "n \<le> 63" "unat sz \<le> 2 ^ n" using CeilPower2_least [OF sz] by blast
  have u: "unat (CeilPower2 sz div batch_size) = 2 ^ n div 2 ^ 12"
    using n by (simp add: unat_div unat_pow2 batch_size_def)
  let ?k = "n - 12"
  have "(if (2::nat) ^ n div 2 ^ 12 = 0 then 1 else 2 ^ n div 2 ^ 12) = (2::nat) ^ ?k"
  proof (cases "12 \<le> n")
    case True
    then have "(2::nat) ^ n div 2 ^ 12 = 2 ^ ?k" by (simp add: power_diff)
    then show ?thesis by simp
  next
    case False
    then have "(2::nat) ^ n < 2 ^ 12" by (intro power_strict_increasing) simp_all
    with False show ?thesis by simp
  qed
  moreover from this [THEN arg_cong, of log2] have "(2::nat) ^ n \<le> 2 ^ 12 * 2 ^ ?k"
    by (intro units_cover) (simp only: log2_pow2)
  ultimately show thesis using that [of ?k, unfolded u] n(3) by simp
qed

lemma page_addr: "off < 2 ^ 18 \<Longrightarrow> unat (mem_begin + of_nat off * batch_size) = 2 ^ 30 + off * 4096"
proof -
  assume "off < 2 ^ 18"
  then have b: "2 ^ 30 + off * 4096 < 2 ^ 64" by simp
  have "mem_begin + of_nat off * batch_size = of_nat (2 ^ 30 + off * 4096)"
    by (simp add: mem_begin_def batch_size_def)
  then show ?thesis using b by (simp only: unat_of_nat) simp
qed

lemma malloc_ok:
  assumes wf: "u_wf 18 lg" and sz: "valid_request sz" and fits: "malloc_fits lg sz"
  obtains off k lg' where "malloc lg sz = (mem_begin + of_nat off * batch_size, lg')" "u_wf 18 lg'"
    "u_blocks 18 lg' = insert (off, k) (u_blocks 18 lg)" "off + 2 ^ k \<le> 2 ^ 18" "unat sz \<le> 4096 * 2 ^ k"
    "\<forall>b\<in>u_blocks 18 lg. block_range b \<inter> block_range (off, k) = {}"
proof -
  let ?u = "unat (CeilPower2 sz div batch_size)"
  obtain k where k: "(if ?u = 0 then 1 else ?u) = 2 ^ k" "unat sz \<le> 4096 * 2 ^ k" by (rule request_pages [OF sz])
  obtain p where p: "lg = enc \<circ> longest p" "pool_wf 18 p" "u_blocks 18 lg = pool_blocks 18 p"
    by (rule u_wfE [OF wf])
  have "2 ^ k \<le> lg 0" using fits k(1) by (simp add: malloc_fits_def split: if_splits)
  then have f: "Suc k \<le> longest p 0" using enc_le [of "Suc k" "longest p 0"] p(1) by simp
  have kl: "k = log2 (if ?u = 0 then 1 else ?u)" by (simp only: k(1) log2_pow2)
  obtain off p' where r: "pool_alloc (2 ^ 18) p ?u = Some (off, p')" "pool_wf 18 p'"
    "pool_blocks 18 p' = insert (off, k) (pool_blocks 18 p)" "off + 2 ^ k \<le> 2 ^ 18"
    "\<forall>b\<in>pool_blocks 18 p. block_range b \<inter> block_range (off, k) = {}"
    by (rule pool_alloc_ok [OF p(2) kl f])
  have m: "malloc lg sz = (mem_begin + of_nat off * batch_size, enc \<circ> longest p')"
    using u_pool_alloc_enc [OF r(1) k(1) p(2)] by (simp add: malloc_def u_capacity_eq p(1))
  have "u_blocks 18 (enc \<circ> longest p') = pool_blocks 18 p'" by (simp only: u_blocks_def u_pool_enc)
  with that [OF m u_wf_enc [OF r(2)]] r(3-5) k(2) p(3) show thesis by simp
qed

interpretation umalloc: allocator "u_wf 18" user_blocks unat malloc_checked
proof
  fix lg lg' :: "nat \<Rightarrow> nat" and sz a :: u64
  assume h: "u_wf 18 lg" "valid_request sz" "malloc_checked lg sz = Some (a, lg')"
  then have fits: "malloc_fits lg sz" and m: "malloc lg sz = (a, lg')"
    by (auto simp: malloc_checked_def split: if_splits)
  obtain off k l where r: "malloc lg sz = (mem_begin + of_nat off * batch_size, l)" "u_wf 18 l"
    "u_blocks 18 l = insert (off, k) (u_blocks 18 lg)" "off + 2 ^ k \<le> 2 ^ 18" "unat sz \<le> 4096 * 2 ^ k"
    "\<forall>b\<in>u_blocks 18 lg. block_range b \<inter> block_range (off, k) = {}"
    by (rule malloc_ok [OF h(1,2) fits])
  show "u_wf 18 lg'" using r(1,2) m by simp
  have "0 < (2::nat) ^ k" by simp
  with r(4) have "off < 2 ^ 18" by linarith
  then have a: "unat a = 2 ^ 30 + off * 4096" using r(1) m page_addr by auto
  have "byte_range b \<inter> byte_range (unat a, 4096 * 2 ^ k) = {}" if "b \<in> user_blocks lg" for b
  proof -
    from that obtain o' k' where o: "(o', k') \<in> u_blocks 18 lg" "b = (2 ^ 30 + o' * 4096, 4096 * 2 ^ k')"
      by (auto simp: user_blocks_def)
    from scale_disjoint [OF bspec [OF r(6) o(1)]] show ?thesis by (simp only: o(2) a)
  qed
  moreover have "user_blocks lg' = insert (unat a, 4096 * 2 ^ k) (user_blocks lg)"
    unfolding user_blocks_def using r(1,3) m by (simp only: a) auto
  ultimately show "\<exists>len\<ge>unat sz. user_blocks lg' = insert (unat a, len) (user_blocks lg) \<and>
      (\<forall>b\<in>user_blocks lg. byte_range b \<inter> byte_range (unat a, len) = {})"
    using r(5) by blast
qed

lemma user_free_ok:
  assumes wf: "u_wf 18 lg" and b: "(off, k) \<in> u_blocks 18 lg"
  obtains lg' where "user_free lg (mem_begin + of_nat off * batch_size) = Some lg'" "u_wf 18 lg'"
    "u_blocks 18 lg' = u_blocks 18 lg - {(off, k)}"
proof -
  have off: "off < 2 ^ 18"
  proof -
    have "off + 2 ^ k \<le> 2 ^ 18" using pool_block_end [of 18 "u_pool lg" off k] wf b by (simp add: u_wf_def u_blocks_def)
    moreover have "0 < (2::nat) ^ k" by simp
    ultimately show ?thesis by linarith
  qed
  then have "off * 4096 < 2 ^ 64" by simp
  then have "unat ((of_nat off :: u64) * batch_size) = off * 4096"
    by (simp add: batch_size_def unat_word_ariths unat_of_nat)
  then have u: "unat ((mem_begin + of_nat off * batch_size - mem_begin) div batch_size) = off"
    by (simp add: unat_div batch_size_def)
  have "off \<in> block_range (off, k)" by (simp add: block_range_def)
  then obtain lg' where "u_pool_free (2 ^ 18) lg off = Some (2 ^ k, lg')" "u_wf 18 lg'" "u_blocks 18 lg' = u_blocks 18 lg - {(off, k)}"
    by (rule u_pool_free_ok [OF wf b])
  with that u show thesis by (simp add: user_free_def u_capacity_eq)
qed

section \<open>Properties\<close>

text \<open>
  \<open>__crt_init\<close> asks for the arena up to \<open>mem_end\<close> and leaves a well-formed heap with no live block,
  whatever the array held.
\<close>

theorem crt_init_empty:
  assumes "\<And>x. 2 * u_capacity - 2 < x \<Longrightarrow> lg x = 0"
  shows "fst (crt_init lg) = mem_end \<and> u_wf 18 (snd (crt_init lg)) \<and> user_blocks (snd (crt_init lg)) = {}"
proof -
  have "u_wf 18 (u_pool_init (2 ^ 18) lg) \<and> u_blocks 18 (u_pool_init (2 ^ 18) lg) = {}"
    by (rule u_pool_init_ok) (use assms in \<open>simp_all add: u_capacity_eq\<close>)
  then show ?thesis by (simp add: crt_init_def user_blocks_def u_capacity_eq)
qed

theorem crt_init_empty_witness:
  "u_wf 18 (snd (crt_init (\<lambda>_. 0))) \<and> user_blocks (snd (crt_init (\<lambda>_. 0))) = {}"
  using crt_init_empty [of "\<lambda>_. 0"] by simp

text \<open>
  C28: While the heap has room for the request, \<open>malloc\<close> returns a block of at least the requested
  length, apart from every live block, and keeps the heap well-formed.
\<close>

theorem malloc_fresh:
  assumes "u_wf 18 lg" "valid_request sz" "malloc_fits lg sz" "malloc lg sz = (a, lg')"
  shows "u_wf 18 lg' \<and> (\<exists>len \<ge> unat sz. user_blocks lg' = insert (unat a, len) (user_blocks lg) \<and>
    (\<forall>b\<in>user_blocks lg. byte_range b \<inter> byte_range (unat a, len) = {}))"
proof -
  have "malloc_checked lg sz = Some (a, lg')" using assms(3,4) by (simp add: malloc_checked_def)
  from umalloc.alloc_inv [OF assms(1,2) this] umalloc.alloc_fresh [OF assms(1,2) this] show ?thesis by simp
qed

text \<open>A heap of whole pages after \<open>__crt_init\<close>, for the witnesses.\<close>

lemma fresh_heap:
  "u_wf 18 (u_pool_init (2 ^ 18) (\<lambda>_. 0))" "u_blocks 18 (u_pool_init (2 ^ 18) (\<lambda>_. 0)) = {}"
  "malloc_fits (u_pool_init (2 ^ 18) (\<lambda>_. 0)) 5000"
proof -
  let ?lg = "u_pool_init (2 ^ 18) (\<lambda>_. 0)"
  show wf: "u_wf 18 ?lg" and e: "u_blocks 18 ?lg = {}" using u_pool_init_ok [of 18 "\<lambda>_. 0"] by simp_all
  obtain p where p: "?lg = enc \<circ> longest p" "pool_wf 18 p" "u_blocks 18 ?lg = pool_blocks 18 p"
    by (rule u_wfE [OF wf])
  have "Suc 1 \<le> longest p 0"
    by (rule pool_alloc_complete [OF p(2), of 1 2 0]) (use p(3) e in \<open>simp_all add: log2_rec log2_less_2\<close>)
  then have "enc (Suc 1) \<le> ?lg 0" by (simp only: p(1) comp_apply enc_le)
  moreover have "CeilPower2 5000 = 8192" by (simp add: CeilPower2_def Let_def)
  ultimately show "malloc_fits ?lg 5000" by (simp add: malloc_fits_def batch_size_def)
qed

theorem malloc_fresh_witness:
  "\<exists>lg a lg' len. malloc lg 5000 = (a, lg') \<and> 5000 \<le> len \<and> user_blocks lg' = insert (unat a, len) (user_blocks lg)"
proof -
  let ?lg = "u_pool_init (2 ^ 18) (\<lambda>_. 0)"
  obtain a lg' where m: "malloc ?lg 5000 = (a, lg')" by fastforce
  have "valid_request 5000" by (simp add: valid_request_def)
  from malloc_fresh [OF fresh_heap(1) this fresh_heap(3) m] m show ?thesis by fastforce
qed

text \<open>
  \<open>free\<close> of a block that \<open>malloc\<close> returned takes exactly that block out of the heap: the live
  blocks are those before the \<open>malloc\<close>.
\<close>

theorem malloc_free_roundtrip:
  assumes "u_wf 18 lg" "valid_request sz" "malloc_fits lg sz" "malloc lg sz = (a, lg')"
  shows "\<exists>lg''. user_free lg' a = Some lg'' \<and> u_wf 18 lg'' \<and> user_blocks lg'' = user_blocks lg"
proof -
  obtain off k l where r: "malloc lg sz = (mem_begin + of_nat off * batch_size, l)" "u_wf 18 l"
    "u_blocks 18 l = insert (off, k) (u_blocks 18 lg)" "off + 2 ^ k \<le> 2 ^ 18" "unat sz \<le> 4096 * 2 ^ k"
    "\<forall>b\<in>u_blocks 18 lg. block_range b \<inter> block_range (off, k) = {}"
    by (rule malloc_ok [OF assms(1-3)])
  have new: "(off, k) \<notin> u_blocks 18 lg" using bspec [OF r(6)] block_range_nonempty [of "(off, k)"] by (metis Int_absorb)
  have "(off, k) \<in> u_blocks 18 l" by (simp only: r(3)) simp
  then obtain lg'' where "user_free l (mem_begin + of_nat off * batch_size) = Some lg''" "u_wf 18 lg''"
    "u_blocks 18 lg'' = u_blocks 18 l - {(off, k)}"
    by (rule user_free_ok [OF r(2)])
  with new r(1,3) assms(4) show ?thesis by (simp add: user_blocks_def)
qed

theorem malloc_free_roundtrip_witness:
  "\<exists>lg a lg' lg''. malloc lg 5000 = (a, lg') \<and> user_free lg' a = Some lg'' \<and> user_blocks lg'' = user_blocks lg"
proof -
  let ?lg = "u_pool_init (2 ^ 18) (\<lambda>_. 0)"
  obtain a lg' where m: "malloc ?lg 5000 = (a, lg')" by fastforce
  have "valid_request 5000" by (simp add: valid_request_def)
  from malloc_free_roundtrip [OF fresh_heap(1) this fresh_heap(3) m] m show ?thesis by fastforce
qed

text \<open>
  A request that does not fit is not refused: \<open>malloc\<close> returns the first address of the arena,
  which may be a live block.
\<close>

theorem malloc_exhausted:
  assumes "u_wf 18 lg" "valid_request sz" "\<not> malloc_fits lg sz"
  shows "fst (malloc lg sz) = mem_begin"
proof -
  let ?u = "unat (CeilPower2 sz div batch_size)"
  obtain k where k: "(if ?u = 0 then 1 else ?u) = 2 ^ k" by (rule request_pages [OF assms(2)])
  have "max 1 ?u = 2 ^ k" using k by (auto split: if_splits)
  with assms(3) have "lg 0 < 2 ^ k" unfolding malloc_fits_def by linarith
  from u_pool_alloc_unfit [OF assms(1) k this] show ?thesis
    by (cases "u_pool_alloc (2 ^ 18) lg ?u") (simp add: malloc_def u_capacity_eq)
qed

theorem malloc_exhausted_witness:
  "\<exists>lg. fst (malloc lg (2 ^ 31)) = mem_begin"
proof -
  let ?lg = "u_pool_init (2 ^ 18) (\<lambda>_. 0)"
  obtain p where p: "?lg = enc \<circ> longest p" "pool_wf 18 p" by (rule u_wfE [OF fresh_heap(1)])
  have "longest p 0 \<le> Suc 18" using pool_longest_bound [OF p(2)] by (simp only: caplog_def log2_pow2)
  then have "?lg 0 \<le> 2 ^ 18" using enc_le [of "longest p 0" "Suc 18"] by (simp only: p(1) comp_apply enc_simps)
  moreover have "CeilPower2 (2 ^ 31) = 2 ^ 31" by (rule CeilPower2_pow2) simp
  ultimately have "\<not> malloc_fits ?lg (2 ^ 31)" by (simp add: malloc_fits_def batch_size_def unat_div)
  from malloc_exhausted [OF fresh_heap(1) _ this] show ?thesis by (auto simp: valid_request_def)
qed

end
