(* ===== verification/Format.thy ===== *)
theory Format
  imports Prelude "HOL-Library.Signed_Division"
begin

text \<open>
  Formatted output: the \<open>mini_vsnprintf\<close> of the kernel (\<open>kstdio.c\<close>). A format and a string argument are their bytes without the terminating 0; an argument of a
  variadic call is a 64-bit register or a string. A call that takes an argument that is not there, or writes past
  the 24 bytes of \<open>bf\<close>, is \<open>None\<close>.
\<close>

section \<open>Numbers\<close>

definition digit_char :: "bool \<Rightarrow> int \<Rightarrow> u8" where
  "digit_char uppercase digit =
     (if digit < 10 then of_int (48 + digit) else of_int ((if uppercase then 65 else 97) + digit - 10))"

text \<open>
  The loop that produces the digits, lowest first. With \<open>unsig\<close> it divides the value as unsigned, otherwise as
  signed, towards 0. Radix 0 divides by zero; with radix 1 the loop does not end.
\<close>

partial_function (option) itoa_loop :: "bool \<Rightarrow> bool \<Rightarrow> u64 \<Rightarrow> u64 \<Rightarrow> u8 list \<Rightarrow> u8 list option" where
  "itoa_loop unsig uppercase radix value acc =
     (if radix = 0 then None
      else let digit = (if unsig then uint (value mod radix) else sint value smod sint radix);
               acc = acc @ [digit_char uppercase digit];
               value = (if unsig then value div radix else of_int (sint value sdiv sint radix))
           in if value \<noteq> 0 then itoa_loop unsig uppercase radix value acc else Some acc)"

text \<open>The reversal in place.\<close>

definition swap_ends :: "u8 list \<Rightarrow> nat \<Rightarrow> u8 list" where
  "swap_ends b i = b[i := b ! (length b - i - 1), length b - i - 1 := b ! i]"

definition reverse :: "u8 list \<Rightarrow> u8 list" where
  "reverse b = foldl swap_ends b [0 ..< length b div 2]"

definition mini_itoa :: "u64 \<Rightarrow> nat \<Rightarrow> bool \<Rightarrow> bool \<Rightarrow> nat \<Rightarrow> u8 \<Rightarrow> u8 list option" where
  "mini_itoa value radix uppercase unsig n_pad cpad =
     (if radix > 16 then Some []
      else do {
        let negative = (sint value < 0 \<and> \<not> unsig);
        let value = (if negative then - value else value);
        buffer \<leftarrow> itoa_loop unsig uppercase (of_nat radix) value [];
        let buffer = buffer @ replicate (n_pad - length buffer) cpad;
        let buffer = (if negative then buffer @ [0x2d] else buffer);
        Some (reverse buffer)
      })"

section \<open>The bounded buffer\<close>

record mini_buff =
  buffer :: "u8 list"
  buffer_len :: nat

definition putc :: "u8 \<Rightarrow> mini_buff \<Rightarrow> bool \<times> mini_buff" where
  "putc ch b = (if length (buffer b) + 1 \<ge> buffer_len b then (False, b) else (True, b\<lparr>buffer := buffer b @ [ch]\<rparr>))"

text \<open>Without a string the buffer is padded with spaces. A buffer that is already too long is not cut.\<close>

definition puts :: "u8 list option \<Rightarrow> nat \<Rightarrow> mini_buff \<Rightarrow> (nat \<times> mini_buff) option" where
  "puts s len b = do {
     kassert (length (buffer b) < buffer_len b);
     let left = buffer_len b - length (buffer b) - 1;
     let len = (if left < len then left else len);
     let out = (case s of None \<Rightarrow> replicate len 0x20 | Some s \<Rightarrow> take len s);
     Some (len, b\<lparr>buffer := buffer b @ out\<rparr>)
   }"

section \<open>Formats\<close>

datatype arg = Reg u64 | Str "u8 list"

definition is_digit :: "u8 \<Rightarrow> bool" where
  "is_digit ch \<longleftrightarrow> 0x30 \<le> ch \<and> ch \<le> 0x39"

text \<open>\<open>*(fmt++)\<close>: the next byte, 0 at the end.\<close>

fun next_ch :: "u8 list \<Rightarrow> u8 \<times> u8 list" where
  "next_ch [] = (0, [])"
| "next_ch (c # cs) = (c, cs)"

text \<open>The digits of the width, and the first byte that is none.\<close>

fun read_width :: "u8 list \<Rightarrow> u32 \<Rightarrow> u32 \<times> u8 \<times> u8 list" where
  "read_width [] n = (n, 0, [])"
| "read_width (c # cs) n = (if is_digit c then read_width cs (n * 10 + ucast c - 0x30) else (n, c, cs))"

record spec =
  n_pad :: nat
  c_pad :: u8
  longflag :: bool
  conv :: u8

text \<open>The width, which a first digit announces; the first digit also selects the byte to pad with.\<close>

definition read_pad :: "u8 list \<Rightarrow> nat \<times> u8 \<times> u8 \<times> u8 list" where
  "read_pad fmt =
     (let (ch, rest) = next_ch fmt
      in if is_digit ch
         then let (n, c, r) = read_width fmt 0 in (unat n, if ch = 0x30 then 0x30 else 0x20, c, r)
         else (0, 0x20, ch, rest))"

definition read_long :: "u8 \<Rightarrow> u8 list \<Rightarrow> bool \<times> u8 \<times> u8 list" where
  "read_long ch rest = (if ch = 0x6c then let (c, r) = next_ch rest in (True, c, r) else (False, ch, rest))"

definition read_spec :: "u8 list \<Rightarrow> spec \<times> u8 list" where
  "read_spec fmt =
     (let (n, pad, ch, rest) = read_pad fmt; (long, ch, rest) = read_long ch rest
      in (\<lparr>n_pad = n, c_pad = pad, longflag = long, conv = ch\<rparr>, rest))"

fun take_reg :: "arg list \<Rightarrow> (u64 \<times> arg list) option" where
  "take_reg (Reg w # as) = Some (w, as)"
| "take_reg _ = None"

fun take_str :: "arg list \<Rightarrow> (u8 list \<times> arg list) option" where
  "take_str (Str s # as) = Some (s, as)"
| "take_str _ = None"

text \<open>The digits go through the 24 bytes of \<open>bf\<close>, which also take the terminating 0.\<close>

definition put_digits :: "u8 list \<Rightarrow> mini_buff \<Rightarrow> mini_buff option" where
  "put_digits bf b = do {
     kassert (length bf < 24);
     (_, b) \<leftarrow> puts (Some bf) (length bf) b;
     Some b
   }"

text \<open>The \<open>switch\<close> over the conversion, without the case of the end of the format.\<close>

definition convert :: "spec \<Rightarrow> arg list \<Rightarrow> mini_buff \<Rightarrow> (arg list \<times> mini_buff) option" where
  "convert sp args b =
     (let ch = conv sp; long = longflag sp
      in if ch = 0x6c then Some (args, b)
         else if ch = 0x75
         then do {
           (w, args) \<leftarrow> take_reg args;
           bf \<leftarrow> mini_itoa (if long then w else w AND 0xffffffff) 10 False True (n_pad sp) (c_pad sp);
           b \<leftarrow> put_digits bf b;
           Some (args, b)
         }
         else if ch = 0x64
         then do {
           (w, args) \<leftarrow> take_reg args;
           bf \<leftarrow> mini_itoa (if long then w else scast (ucast w :: u32)) 10 False False (n_pad sp) (c_pad sp);
           b \<leftarrow> put_digits bf b;
           Some (args, b)
         }
         else if ch = 0x78 \<or> ch = 0x58
         then do {
           (w, args) \<leftarrow> take_reg args;
           bf \<leftarrow> mini_itoa (if long then w else w AND 0xffffffff) 16 (ch = 0x58) True (n_pad sp) (c_pad sp);
           b \<leftarrow> put_digits bf b;
           Some (args, b)
         }
         else if ch = 0x63
         then do {
           (w, args) \<leftarrow> take_reg args;
           Some (args, snd (putc (ucast w) b))
         }
         else if ch = 0x73
         then do {
           (s, args) \<leftarrow> take_str args;
           (_, b) \<leftarrow> puts (Some s) (length s) b;
           (_, b) \<leftarrow> (if length s < n_pad sp then puts None (n_pad sp - length s) b else Some (0, b));
           Some (args, b)
         }
         else Some (args, snd (putc ch b)))"

lemma next_ch_shorter: "next_ch fmt = (c, r) \<Longrightarrow> length r \<le> length fmt"
  by (cases fmt) auto

lemma read_width_shorter: "read_width fmt n = (k, c, r) \<Longrightarrow> length r \<le> length fmt"
  by (induction fmt n rule: read_width.induct) (auto split: if_splits)

lemma read_pad_shorter: "read_pad fmt = (n, p, c, r) \<Longrightarrow> length r \<le> length fmt"
  by (auto simp: read_pad_def split: prod.splits if_splits dest: next_ch_shorter read_width_shorter)

lemma read_long_shorter: "read_long c r = (l, c', r') \<Longrightarrow> length r' \<le> length r"
  by (auto simp: read_long_def split: prod.splits if_splits dest: next_ch_shorter)

lemma read_spec_shorter: "read_spec fmt = (sp, rest) \<Longrightarrow> length rest \<le> length fmt"
proof -
  assume eq: "read_spec fmt = (sp, rest)"
  obtain n p c r where a: "read_pad fmt = (n, p, c, r)" by (cases "read_pad fmt")
  obtain l c' r' where b: "read_long c r = (l, c', r')" by (cases "read_long c r")
  have "rest = r'" using eq by (simp add: read_spec_def a b)
  with read_pad_shorter [OF a] read_long_shorter [OF b] show ?thesis by simp
qed

text \<open>The loop over the format.\<close>

function vs_loop :: "u8 list \<Rightarrow> arg list \<Rightarrow> mini_buff \<Rightarrow> mini_buff option" where
  "vs_loop [] args b = Some b"
| "vs_loop (ch # fmt) args b =
     (if length (buffer b) + 1 \<ge> buffer_len b then Some b
      else if ch \<noteq> 0x25 then vs_loop fmt args (snd (putc ch b))
      else case read_spec fmt of
        (sp, rest) \<Rightarrow>
          if conv sp = 0 then Some b
          else do {
            (args, b) \<leftarrow> convert sp args b;
            vs_loop rest args b
          })"
  by pat_completeness auto
termination
  by (relation "measure (\<lambda>(fmt, args, b). length fmt)") (auto simp: less_Suc_eq_le, metis read_spec_shorter)

definition mini_vsnprintf :: "nat \<Rightarrow> u8 list \<Rightarrow> arg list \<Rightarrow> u8 list option" where
  "mini_vsnprintf len fmt args = map_option buffer (vs_loop fmt args \<lparr>buffer = [], buffer_len = len\<rparr>)"

text \<open>\<open>_vprint\<close>: the number of bytes, and the string that goes to the output function, which ends at the first 0.\<close>

definition vprint :: "u8 list \<Rightarrow> arg list \<Rightarrow> (nat \<times> u8 list) option" where
  "vprint fmt args = do {
     buff \<leftarrow> mini_vsnprintf 256 fmt args;
     Some (length buff, takeWhile (\<lambda>c. c \<noteq> 0) buff)
   }"

text \<open>\<open>printv\<close> and \<open>printl\<close> give the string to the BIOS, for the console and for its log.\<close>

record console =
  con_out :: "u8 list"
  con_log :: "u8 list"

definition printv :: "u8 list \<Rightarrow> arg list \<Rightarrow> 'a console_scheme \<Rightarrow> (nat \<times> 'a console_scheme) option" where
  "printv fmt args s = do {
     (ret, buff) \<leftarrow> vprint fmt args;
     Some (ret, s\<lparr>con_out := con_out s @ buff\<rparr>)
   }"

definition printl :: "u8 list \<Rightarrow> arg list \<Rightarrow> 'a console_scheme \<Rightarrow> (nat \<times> 'a console_scheme) option" where
  "printl fmt args s = do {
     (ret, buff) \<leftarrow> vprint fmt args;
     Some (ret, s\<lparr>con_log := con_log s @ buff\<rparr>)
   }"

section \<open>Digits\<close>

text \<open>The digits of a number, lowest first, and the number that a list of digits stands for.\<close>

fun low_digits :: "nat \<Rightarrow> nat \<Rightarrow> nat list" where
  "low_digits r n = (if n < r \<or> r < 2 then [n] else (n mod r) # low_digits r (n div r))"

declare low_digits.simps [simp del]

definition digits_value :: "nat \<Rightarrow> nat list \<Rightarrow> nat" where
  "digits_value r ds = foldr (\<lambda>d v. d + r * v) ds 0"

lemma digits_value_simps [simp]: "digits_value r [] = 0" "digits_value r (d # ds) = d + r * digits_value r ds"
  by (simp_all add: digits_value_def)

lemma low_digits_value: "2 \<le> r \<Longrightarrow> digits_value r (low_digits r n) = n"
  by (induction r n rule: low_digits.induct) (subst low_digits.simps, auto)

lemma low_digits_less: "2 \<le> r \<Longrightarrow> d \<in> set (low_digits r n) \<Longrightarrow> d < r"
  by (induction r n rule: low_digits.induct) (subst (asm) low_digits.simps, auto split: if_splits)

lemma low_digits_length: "2 \<le> r \<Longrightarrow> n < r ^ k \<Longrightarrow> 0 < k \<Longrightarrow> length (low_digits r n) \<le> k"
proof (induction k arbitrary: n)
  case (Suc k)
  show ?case
  proof (cases "n < r")
    case True
    then show ?thesis by (subst low_digits.simps) simp
  next
    case False
    then have "0 < k" using Suc.prems(2) by (cases k) auto
    moreover have "n div r < r ^ k" using Suc.prems(1,2) by (simp add: less_mult_imp_div_less mult.commute)
    ultimately have "length (low_digits r (n div r)) \<le> k" using Suc.IH Suc.prems(1) by blast
    then show ?thesis by (subst low_digits.simps) simp
  qed
qed simp

lemma sint_radix: "r \<le> 16 \<Longrightarrow> sint (of_nat r :: u64) = int r" "r \<le> 16 \<Longrightarrow> unat (of_nat r :: u64) = r"
proof -
  assume r: "r \<le> 16"
  then show "unat (of_nat r :: u64) = r" by (simp add: unat_of_nat)
  from r have "int r < 2 ^ 63" by simp
  then have "signed_take_bit 63 (int r) = int r" by (intro signed_take_bit_int_eq_self) simp_all
  then show "sint (of_nat r :: u64) = int r" by (simp add: signed_of_nat)
qed

text \<open>One round of the loop on a value that is not negative, or taken as unsigned.\<close>

lemma itoa_round:
  fixes w :: u64
  assumes r: "2 \<le> r" "r \<le> 16" and v: "unsig \<or> 0 \<le> sint w"
  shows "(if unsig then uint (w mod of_nat r) else sint w smod sint (of_nat r :: u64)) = int (unat w mod r)"
    "(if unsig then w div of_nat r else of_int (sint w sdiv sint (of_nat r :: u64))) = of_nat (unat w div r)"
proof -
  note u = sint_radix [OF r(2)]
  have "unat (w mod of_nat r) = unat w mod r" using u(2) by (simp add: unat_mod_distrib)
  then have m: "uint (w mod of_nat r) = int (unat w mod r)" by (metis uint_nat)
  have d: "w div of_nat r = of_nat (unat w div r)" by (simp add: word_arith_nat_div u(2))
  have s: "sint w = int (unat w)" if "0 \<le> sint w"
  proof -
    have "sint w < 2 ^ 64" using sint_lt [of w] by simp
    then have "uint w = sint w" using uint_sint [of w] that by (simp add: take_bit_int_eq_self)
    then show ?thesis by simp
  qed
  have sm: "int a smod int b = int (a mod b)" "int a sdiv int b = int (a div b)" for a b
    by (simp_all add: signed_modulo_int_def signed_divide_int_def sgn_if zmod_int zdiv_int)
  show "(if unsig then uint (w mod of_nat r) else sint w smod sint (of_nat r :: u64)) = int (unat w mod r)"
    using m v s sm(1) [of "unat w" r] by (cases unsig) (simp_all add: u(1))
  show "(if unsig then w div of_nat r else of_int (sint w sdiv sint (of_nat r :: u64))) = of_nat (unat w div r)"
    using d v s sm(2) [of "unat w" r] by (cases unsig) (simp_all add: u(1))
qed

lemma sint_of_nat_pos: "n \<le> unat w \<Longrightarrow> 0 \<le> sint w \<Longrightarrow> 0 \<le> sint (of_nat n :: u64)" for w :: u64
proof -
  assume a: "n \<le> unat w" "0 \<le> sint w"
  have "sint w < 2 ^ 63" using sint_lt [of w] by simp
  moreover have "uint w = sint w" using uint_sint [of w] a(2) calculation by (simp add: take_bit_int_eq_self)
  ultimately have "int (unat w) < 2 ^ 63" by simp
  then have "int n < 2 ^ 63" using a(1) by linarith
  then have "signed_take_bit 63 (int n) = int n" by (intro signed_take_bit_int_eq_self) simp_all
  then show ?thesis by (simp add: signed_of_nat)
qed

lemma itoa_loop_step:
  assumes "radix \<noteq> 0" "(if unsig then uint (w mod radix) else sint w smod sint radix) = d"
    "(if unsig then w div radix else of_int (sint w sdiv sint radix)) = v"
  shows "itoa_loop unsig upper radix w acc =
    (if v \<noteq> 0 then itoa_loop unsig upper radix v (acc @ [digit_char upper d]) else Some (acc @ [digit_char upper d]))"
  by (subst itoa_loop.simps) (simp only: assms Let_def if_False)

lemma itoa_loop_eq:
  fixes w :: u64
  assumes r: "2 \<le> r" "r \<le> 16" and v: "unsig \<or> 0 \<le> sint w"
  shows "itoa_loop unsig upper (of_nat r) w acc = Some (acc @ map (\<lambda>d. digit_char upper (int d)) (low_digits r (unat w)))"
  using v
proof (induction "unat w" arbitrary: w acc rule: less_induct)
  case less
  let ?n = "unat w"
  note rd = itoa_round [OF r less.prems]
  have r0: "(of_nat r :: u64) \<noteq> 0" using sint_radix(2) [OF r(2)] r(1) by auto
  have lt: "?n div r < 2 ^ 64" using unsigned_less [of w, where 'a = nat] by (simp add: order.strict_trans1 [OF div_le_dividend])
  then have u: "unat (of_nat (?n div r) :: u64) = ?n div r" by (simp add: unat_of_nat)
  have z: "(of_nat (?n div r) :: u64) = 0 \<longleftrightarrow> ?n div r = 0"
    unfolding unsigned_eq_0_iff [of "of_nat (?n div r) :: u64", where 'a = nat, symmetric] u ..
  show ?case
  proof (cases "?n div r = 0")
    case True
    then have d: "low_digits r ?n = [?n mod r]" using r(1) by (subst low_digits.simps) (auto simp: div_eq_0_iff)
    have "\<not> (of_nat (?n div r) :: u64) \<noteq> 0" using z True by blast
    then show ?thesis by (simp only: itoa_loop_step [OF r0 rd] d if_False list.map)
  next
    case False
    then have d: "low_digits r ?n = (?n mod r) # low_digits r (?n div r)" using r(1) by (subst low_digits.simps) (auto simp: div_eq_0_iff)
    have "?n div r < ?n" using False r(1) by (cases "?n = 0") auto
    moreover have "unsig \<or> 0 \<le> sint (of_nat (?n div r) :: u64)" using less.prems sint_of_nat_pos [of "?n div r" w] by auto
    ultimately have "itoa_loop unsig upper (of_nat r) (of_nat (?n div r)) acc' =
        Some (acc' @ map (\<lambda>d. digit_char upper (int d)) (low_digits r (?n div r)))" for acc'
      using less.hyps [of "of_nat (?n div r)" acc'] by (simp only: u)
    with False show ?thesis by (simp only: itoa_loop_step [OF r0 rd] z d simp_thms if_True list.map append.assoc append_Cons append_Nil)
  qed
qed

text \<open>The swaps reverse the buffer.\<close>

lemma swaps_nth:
  "k \<le> length b div 2 \<Longrightarrow> length (foldl swap_ends b [0 ..< k]) = length b \<and>
     (\<forall>j<length b. foldl swap_ends b [0 ..< k] ! j = (if j < k \<or> length b - k \<le> j then b ! (length b - 1 - j) else b ! j))"
proof (induction k)
  case (Suc k)
  let ?c = "foldl swap_ends b [0 ..< k]" and ?n = "length b"
  have IH: "length ?c = ?n" "\<And>j. j < ?n \<Longrightarrow> ?c ! j = (if j < k \<or> ?n - k \<le> j then b ! (?n - 1 - j) else b ! j)" using Suc by simp_all
  have k: "k < ?n - k - 1" using Suc.prems by linarith
  have "swap_ends ?c k ! j = (if j < Suc k \<or> ?n - Suc k \<le> j then b ! (?n - 1 - j) else b ! j)" if j: "j < ?n" for j
  proof -
    have "swap_ends ?c k ! j = (if j = ?n - k - 1 then ?c ! k else if j = k then ?c ! (?n - k - 1) else ?c ! j)"
      using IH(1) j k by (simp add: swap_ends_def nth_list_update)
    then show ?thesis using IH(2) [of k] IH(2) [of "?n - k - 1"] IH(2) [OF j] k j by auto
  qed
  moreover have "length (swap_ends ?c k) = ?n" using IH(1) by (simp add: swap_ends_def)
  moreover have "foldl swap_ends b [0 ..< Suc k] = swap_ends ?c k" by simp
  ultimately show ?case by simp
qed simp

lemma reverse_eq [simp]: "reverse b = rev b"
proof (rule nth_equalityI)
  note s = swaps_nth [of "length b div 2" b, simplified]
  show "length (reverse b) = length (rev b)" using s by (simp add: reverse_def)
  fix j assume "j < length (reverse b)"
  then have j: "j < length b" using s by (simp add: reverse_def)
  show "reverse b ! j = rev b ! j"
  proof (cases "j < length b div 2 \<or> length b - length b div 2 \<le> j")
    case True
    with s j show ?thesis by (simp add: reverse_def rev_nth)
  next
    case False
    then have "length b - 1 - j = j" using j by linarith
    with False s j show ?thesis by (simp add: reverse_def rev_nth)
  qed
qed

text \<open>The digits of a number, highest first.\<close>

definition numeral_of :: "nat \<Rightarrow> bool \<Rightarrow> nat \<Rightarrow> u8 list" where
  "numeral_of r upper n = map (\<lambda>d. digit_char upper (int d)) (rev (low_digits r n))"

lemma mini_itoa_eq:
  assumes r: "2 \<le> r" "r \<le> 16" and v: "unsig \<or> sint w \<noteq> - (2 ^ 63)"
  shows "mini_itoa w r upper unsig n pad =
    (let neg = (\<not> unsig \<and> sint w < 0); ds = numeral_of r upper (if neg then nat (- sint w) else unat w)
     in Some ((if neg then [0x2d] else []) @ replicate (n - length ds) pad @ ds))"
proof (cases "\<not> unsig \<and> sint w < 0")
  case True
  have b: "- (2 ^ 63) \<le> sint w" using sint_ge [of w] by simp
  with True v have lt: "- (2 ^ 63) < sint w" by auto
  then have m: "sint (- w) = - sint w" using True by (simp add: sint_word_minus signed_take_bit_int_eq_self)
  then have pos: "unsig \<or> 0 \<le> sint (- w)" using True by simp
  have "uint (- w) = sint (- w)" using uint_sint [of "- w"] m True lt by (simp add: take_bit_int_eq_self)
  then have u: "unat (- w) = nat (- sint w)" using m by (simp add: unat_eq_nat_uint)
  show ?thesis using True r itoa_loop_eq [OF r pos, of upper "[]"] u
    by (simp add: mini_itoa_def Let_def numeral_of_def rev_map)
next
  case False
  then have "unsig \<or> 0 \<le> sint w" by auto
  from False r itoa_loop_eq [OF r this, of upper "[]"] show ?thesis
    by (auto simp: mini_itoa_def Let_def numeral_of_def rev_map)
qed

section \<open>The buffer bound\<close>

definition in_bounds :: "mini_buff \<Rightarrow> bool" where
  "in_bounds b \<longleftrightarrow> length (buffer b) < buffer_len b"

lemma putc_bounds [simp]: "in_bounds b \<Longrightarrow> in_bounds (snd (putc ch b))" "buffer_len (snd (putc ch b)) = buffer_len b"
  by (auto simp: in_bounds_def putc_def)

lemma puts_bounds: "puts s len b = Some (k, b') \<Longrightarrow> in_bounds b' \<and> buffer_len b' = buffer_len b"
  by (auto simp: puts_def in_bounds_def Let_def split: option.splits if_splits)

lemma put_digits_bounds: "put_digits bf b = Some b' \<Longrightarrow> in_bounds b' \<and> buffer_len b' = buffer_len b"
  by (auto simp: put_digits_def bind_Some_iff dest: puts_bounds)

lemma convert_bounds: "convert sp args b = Some (args', b') \<Longrightarrow> in_bounds b \<Longrightarrow> in_bounds b' \<and> buffer_len b' = buffer_len b"
  unfolding convert_def Let_def
  by (auto simp: bind_Some_iff split: if_splits dest!: put_digits_bounds puts_bounds)

lemma vs_loop_bounds: "vs_loop fmt args b = Some b' \<Longrightarrow> in_bounds b \<Longrightarrow> in_bounds b' \<and> buffer_len b' = buffer_len b"
proof (induction fmt args b rule: vs_loop.induct)
  case (2 ch fmt args b)
  obtain sp rest where sp: "read_spec fmt = (sp, rest)" by (cases "read_spec fmt")
  consider "length (buffer b) + 1 \<ge> buffer_len b \<or> ch = 0x25 \<and> conv sp = 0" | "\<not> length (buffer b) + 1 \<ge> buffer_len b" "ch \<noteq> 0x25"
    | "\<not> length (buffer b) + 1 \<ge> buffer_len b" "ch = 0x25" "conv sp \<noteq> 0" by blast
  then show ?case
  proof cases
    case 1
    with 2 sp show ?thesis by (auto split: if_splits)
  next
    case 2
    with "2.IH"(1) "2.prems" show ?thesis by simp
  next
    case 3
    with "2.prems"(1) sp obtain args' b1 where c: "convert sp args b = Some (args', b1)" "vs_loop rest args' b1 = Some b'"
      by (auto simp: bind_Some_iff split: if_splits)
    from convert_bounds [OF c(1) "2.prems"(2)] "2.IH"(2) [OF 3(1) _ sp [symmetric] 3(3) c(1) refl c(2)] 3(2) show ?thesis by simp
  qed
qed simp

text \<open>Bytes that are no directive go through as they are while there is room.\<close>

lemma vs_loop_plain:
  "0x25 \<notin> set s \<Longrightarrow> length (buffer b) + length s < buffer_len b \<Longrightarrow>
     vs_loop (s @ fmt) args b = vs_loop fmt args (b\<lparr>buffer := buffer b @ s\<rparr>)"
proof (induction s arbitrary: b)
  case (Cons c s)
  have "snd (putc c b) = b\<lparr>buffer := buffer b @ [c]\<rparr>" using Cons.prems(2) by (simp add: putc_def)
  with Cons show ?case by simp
qed simp

section \<open>Arguments that fit the format\<close>

text \<open>
  The arguments that the rest of the format leaves, if there is one of the right kind for each conversion, no width is above 22 and the least number is not printed as signed:
  its negation overflows.
\<close>

definition next_args :: "spec \<Rightarrow> arg list \<Rightarrow> arg list option" where
  "next_args sp args =
     (if conv sp \<in> {0x75, 0x78, 0x58, 0x63} then map_option snd (take_reg args)
      else if conv sp = 0x64 then do { (w, args) \<leftarrow> take_reg args; kassert (sint w \<noteq> - (2 ^ 63)); Some args }
      else if conv sp = 0x73 then map_option snd (take_str args)
      else Some args)"

function args_fit :: "u8 list \<Rightarrow> arg list \<Rightarrow> bool" where
  "args_fit [] args = True"
| "args_fit (ch # fmt) args =
     (if ch \<noteq> 0x25 then args_fit fmt args
      else case read_spec fmt of
        (sp, rest) \<Rightarrow> conv sp = 0 \<or> n_pad sp \<le> 22 \<and> (case next_args sp args of None \<Rightarrow> False | Some args \<Rightarrow> args_fit rest args))"
  by pat_completeness auto
termination
  by (relation "measure (\<lambda>(fmt, args). length fmt)") (auto simp: less_Suc_eq_le, metis read_spec_shorter)

lemma mini_itoa_short:
  assumes "r = 10 \<or> r = 16" "unsig \<or> sint w \<noteq> - (2 ^ 63)" "n \<le> 22"
  obtains bf where "mini_itoa w r upper unsig n pad = Some bf" "length bf < 24"
proof -
  let ?neg = "\<not> unsig \<and> sint w < 0"
  let ?n = "if ?neg then nat (- sint w) else unat w"
  have "- (2 ^ 63) \<le> sint w" using sint_ge [of w] by simp
  moreover have "unat w < 2 ^ 64" using unsigned_less [of w, where 'a = nat] by simp
  ultimately have lt: "?n < 2 ^ 64" by (auto simp: nat_less_iff)
  have "length (low_digits r ?n) \<le> 20"
    using assms(1) by (intro low_digits_length order.strict_trans2 [OF lt]) auto
  then have l: "length (numeral_of r upper ?n) \<le> 20" by (simp add: numeral_of_def)
  have r: "2 \<le> r" "r \<le> 16" using assms(1) by auto
  show ?thesis
    by (rule that [OF mini_itoa_eq [OF r assms(2), of upper n pad, unfolded Let_def]]) (use l assms(3) in \<open>auto split: if_splits\<close>)
qed

lemma put_digits_total: "in_bounds b \<Longrightarrow> length bf < 24 \<Longrightarrow> \<exists>b'. put_digits bf b = Some b'"
  by (simp add: put_digits_def puts_def in_bounds_def Let_def)

lemma puts_total: "in_bounds b \<Longrightarrow> \<exists>n b'. puts s len b = Some (n, b')"
  by (simp add: puts_def in_bounds_def Let_def)

lemma scast_not_least: "sint (scast (w :: u32) :: u64) \<noteq> - (2 ^ 63)"
proof -
  have "sint (scast w :: u64) = sint w" by (simp add: sint_up_scast is_up_def source_size_def target_size_def word_size)
  then show ?thesis using sint_ge [of w] by simp
qed

lemma convert_total:
  assumes b: "in_bounds b" and n: "n_pad sp \<le> 22" and a: "next_args sp args = Some args'"
  shows "\<exists>b'. convert sp args b = Some (args', b')"
proof -
  have digits: "\<exists>bf b'. mini_itoa w r upper unsig (n_pad sp) c = Some bf \<and> put_digits bf b = Some b'"
    if "r = 10 \<or> r = 16" "unsig \<or> sint w \<noteq> - (2 ^ 63)" for w r upper unsig c
  proof -
    from mini_itoa_short [OF that n] obtain bf where bf: "mini_itoa w r upper unsig (n_pad sp) c = Some bf" "length bf < 24" .
    with put_digits_total [OF b bf(2)] show ?thesis by blast
  qed
  consider "conv sp \<in> {0x75, 0x78, 0x58}" | "conv sp = 0x64" | "conv sp = 0x63" | "conv sp = 0x73" | "conv sp \<notin> {0x75, 0x78, 0x58, 0x64, 0x63, 0x73}" by blast
  then show ?thesis
  proof cases
    case 1
    then obtain w where w: "take_reg args = Some (w, args')" using a by (auto simp: next_args_def)
    let ?v = "if longflag sp then w else w AND 0xffffffff"
    obtain bf b' where "mini_itoa ?v 10 False True (n_pad sp) (c_pad sp) = Some bf" "put_digits bf b = Some b'" using digits by blast
    moreover obtain bf' b'' where "mini_itoa ?v 16 (conv sp = 0x58) True (n_pad sp) (c_pad sp) = Some bf'" "put_digits bf' b = Some b''" using digits by blast
    ultimately show ?thesis using 1 w by (auto simp: convert_def Let_def)
  next
    case 2
    then obtain w where w: "take_reg args = Some (w, args')" "sint w \<noteq> - (2 ^ 63)" using a by (auto simp: next_args_def bind_Some_iff)
    let ?v = "if longflag sp then w else scast (ucast w :: u32)"
    have "sint ?v \<noteq> - (2 ^ 63)" using w(2) scast_not_least [of "ucast w"] by simp
    then obtain bf b' where "mini_itoa ?v 10 False False (n_pad sp) (c_pad sp) = Some bf" "put_digits bf b = Some b'" using digits by blast
    then show ?thesis using 2 w by (simp add: convert_def Let_def)
  next
    case 3
    then show ?thesis using a by (auto simp: next_args_def convert_def Let_def)
  next
    case 4
    then obtain s where s: "take_str args = Some (s, args')" using a by (auto simp: next_args_def)
    obtain k b' where p: "puts (Some s) (length s) b = Some (k, b')" using puts_total [OF b] by blast
    obtain k' b'' where q: "puts None (n_pad sp - length s) b' = Some (k', b'')" using puts_total puts_bounds [OF p] by blast
    show ?thesis using 4 s p q by (simp add: convert_def Let_def)
  next
    case 5
    then show ?thesis using a by (auto simp: next_args_def convert_def Let_def)
  qed
qed

lemma vs_loop_total: "in_bounds b \<Longrightarrow> args_fit fmt args \<Longrightarrow> \<exists>b'. vs_loop fmt args b = Some b'"
proof (induction fmt args b rule: vs_loop.induct)
  case (2 ch fmt args b)
  obtain sp rest where sp: "read_spec fmt = (sp, rest)" by (cases "read_spec fmt")
  consider "length (buffer b) + 1 \<ge> buffer_len b \<or> ch = 0x25 \<and> conv sp = 0" | "\<not> length (buffer b) + 1 \<ge> buffer_len b" "ch \<noteq> 0x25"
    | "\<not> length (buffer b) + 1 \<ge> buffer_len b" "ch = 0x25" "conv sp \<noteq> 0" by blast
  then show ?case
  proof cases
    case 1
    then show ?thesis by (auto simp: sp)
  next
    case 2
    with "2.IH"(1) "2.prems" show ?thesis by simp
  next
    case 3
    then obtain args' where n: "n_pad sp \<le> 22" "next_args sp args = Some args'" "args_fit rest args'" using "2.prems"(2) by (auto simp: sp split: option.splits)
    obtain b' where c: "convert sp args b = Some (args', b')" using convert_total [OF "2.prems"(1) n(1,2)] by blast
    have "in_bounds b'" using convert_bounds [OF c "2.prems"(1)] by simp
    from "2.IH"(2) [OF 3(1) _ sp [symmetric] 3(3) c refl this n(3)] 3(2) obtain b'' where "vs_loop rest args' b' = Some b''" by auto
    with 3 c show ?thesis by (simp add: sp)
  qed
qed simp

section \<open>Properties\<close>

text \<open>
  C35: \<open>mini_vsnprintf\<close> never writes past its buffer: whatever the format and the arguments, a result and its
  terminating 0 fit into the length given. If the arguments fit the format, there is a result. In particular \<open>printk\<close> and its relatives stay inside their 256 bytes.
\<close>

theorem mini_vsnprintf_bounded:
  assumes "0 < len"
  shows "(\<forall>out. mini_vsnprintf len fmt args = Some out \<longrightarrow> length out < len) \<and> (args_fit fmt args \<longrightarrow> (\<exists>out. mini_vsnprintf len fmt args = Some out))"
proof -
  let ?b = "\<lparr>buffer = [], buffer_len = len\<rparr>"
  have b: "in_bounds ?b" using assms by (simp add: in_bounds_def)
  show ?thesis using vs_loop_bounds [OF _ b] vs_loop_total [OF b] by (auto simp: mini_vsnprintf_def in_bounds_def)
qed

theorem mini_vsnprintf_bounded_witness: "\<exists>out. mini_vsnprintf 3 [104, 0x25, 0x64, 108, 108, 111] [Reg 5] = Some out \<and> length out < 3"
proof -
  have "args_fit [104, 0x25, 0x64, 108, 108, 111] [Reg 5]"
    by (simp add: read_spec_def read_pad_def read_long_def is_digit_def next_args_def)
  with mini_vsnprintf_bounded [of 3 "[104, 0x25, 0x64, 108, 108, 111]" "[Reg 5]"] show ?thesis by auto
qed

text \<open>
  C34: \<open>%ld\<close> prints a number so that it can be read back: a format with text around one \<open>%ld\<close> gives the text, with the sign
  and the decimal digits of the argument in between, and the value of these digits is the number. Only the least number,
  \<open>- 2 ^ 63\<close>, has no such form.
\<close>

theorem printf_decimal:
  assumes "0x25 \<notin> set pre" "0x25 \<notin> set post" "length pre + length post + 21 < len" "sint w \<noteq> - (2 ^ 63)"
  shows "\<exists>ds. mini_vsnprintf len (pre @ [0x25, 0x6c, 0x64] @ post) [Reg w] =
      Some (pre @ (if sint w < 0 then [0x2d] else []) @ map (\<lambda>d. 0x30 + of_nat d) ds @ post) \<and>
    (\<forall>d\<in>set ds. d < 10) \<and> digits_value 10 (rev ds) = nat \<bar>sint w\<bar>"
proof -
  let ?n = "if sint w < 0 then nat (- sint w) else unat w"
  define ds where "ds = rev (low_digits 10 ?n)"
  let ?sg = "if sint w < 0 then [0x2d] else [] :: u8 list"
  have less: "\<forall>d\<in>set ds. d < 10" by (auto simp: ds_def dest: low_digits_less [rotated])
  have num: "numeral_of 10 False ?n = map (\<lambda>d. 0x30 + of_nat d) ds"
    using less by (auto simp: numeral_of_def ds_def digit_char_def)
  have "- (2 ^ 63) \<le> sint w" "sint w < 2 ^ 63" using sint_ge [of w] sint_lt [of w] by simp_all
  then have abs: "?n = nat \<bar>sint w\<bar>" "?n < 10 ^ 20"
  proof -
    have "uint w = sint w" if "0 \<le> sint w" using uint_sint [of w] that \<open>sint w < 2 ^ 63\<close> by (simp add: take_bit_int_eq_self)
    then show "?n = nat \<bar>sint w\<bar>" by (auto simp: unat_eq_nat_uint)
    then show "?n < 10 ^ 20" using \<open>- (2 ^ 63) \<le> sint w\<close> \<open>sint w < 2 ^ 63\<close> by auto
  qed
  have len: "length ds \<le> 20" using low_digits_length [of 10 ?n 20] abs(2) by (simp add: ds_def)
  have it: "mini_itoa w 10 False False 0 0x20 = Some (?sg @ map (\<lambda>d. 0x30 + of_nat d) ds)"
    using mini_itoa_eq [where r = 10 and unsig = False and w = w and upper = False and n = 0 and pad = "0x20"] assms(4) num by (simp add: Let_def)
  have rs: "read_spec (0x6c # 0x64 # post) = (\<lparr>n_pad = 0, c_pad = 0x20, longflag = True, conv = 0x64\<rparr>, post)"
    by (simp add: read_spec_def read_pad_def read_long_def is_digit_def)
  let ?b = "\<lparr>buffer = pre, buffer_len = len\<rparr>"
  define out where "out = ?sg @ map (\<lambda>d. 0x30 + of_nat d) ds"
  have ol: "length out \<le> 21" using len by (simp add: out_def)
  note it = it [folded out_def]
  have fits: "\<not> len - Suc (length pre) < length out" using ol assms(3) by linarith
  have cv: "convert \<lparr>n_pad = 0, c_pad = 0x20, longflag = True, conv = 0x64\<rparr> [Reg w] ?b = Some ([], \<lparr>buffer = pre @ out, buffer_len = len\<rparr>)"
    using it ol assms(3) fits by (simp add: convert_def put_digits_def puts_def Let_def)
  have "vs_loop (pre @ [0x25, 0x6c, 0x64] @ post) [Reg w] \<lparr>buffer = [], buffer_len = len\<rparr> = vs_loop ([0x25, 0x6c, 0x64] @ post) [Reg w] ?b"
    using vs_loop_plain [OF assms(1), of "\<lparr>buffer = [], buffer_len = len\<rparr>"] assms(3) by simp
  also have "\<dots> = vs_loop (post @ []) [] \<lparr>buffer = pre @ out, buffer_len = len\<rparr>"
    using assms(3) by (simp add: rs cv)
  also have "\<dots> = Some \<lparr>buffer = (pre @ out) @ post, buffer_len = len\<rparr>"
    using vs_loop_plain [OF assms(2), of "\<lparr>buffer = pre @ out, buffer_len = len\<rparr>" "[]"] assms(3) ol by simp
  finally have "mini_vsnprintf len (pre @ [0x25, 0x6c, 0x64] @ post) [Reg w] = Some (pre @ ?sg @ map (\<lambda>d. 0x30 + of_nat d) ds @ post)"
    by (simp add: mini_vsnprintf_def out_def)
  moreover have "digits_value 10 (rev ds) = nat \<bar>sint w\<bar>" using low_digits_value [of 10 ?n] abs(1) by (simp add: ds_def)
  ultimately show ?thesis using less by blast
qed

theorem printf_decimal_witness:
  "\<exists>ds. mini_vsnprintf 256 ([0x78] @ [0x25, 0x6c, 0x64] @ [0x0a]) [Reg (- 42)] = Some ([0x78] @ [0x2d] @ map (\<lambda>d. 0x30 + of_nat d) ds @ [0x0a]) \<and>
     digits_value 10 (rev ds) = 42"
proof -
  have s: "sint (- 42 :: u64) = - 42" by simp
  from printf_decimal [of "[0x78]" "[0x0a]" 256 "- 42"] show ?thesis unfolding s by auto
qed

end
