(* ===== verification/Screen.thy ===== *)
theory Screen
  imports Format
begin

text \<open>
  The screen driver (\<open>drivers/screen.cpp\<close>) and the rest of \<open>kstdio.c\<close> above it. The screen is a buffer of 50 rows and 80
  columns; \<open>screen_reflush\<close> sends the cells that changed to the console, each after a VT100 cursor movement. An access
  outside the buffer is \<open>None\<close>. \<open>bios_putchar\<close> and \<open>bios_putstr\<close> append to the output of the console.
\<close>

section \<open>The code\<close>

definition SCREEN_WIDTH :: int where "SCREEN_WIDTH = 80"
definition SCREEN_HEIGHT :: int where "SCREEN_HEIGHT = 50"

definition SCREEN_LOC :: "int \<Rightarrow> int \<Rightarrow> int" where
  "SCREEN_LOC x y = y * SCREEN_WIDTH + x"

text \<open>The cursor is the one of the current process.\<close>

record screen = console +
  new_screen :: "u8 list"
  old_screen :: "u8 list"
  cursor_x :: int
  cursor_y :: int

definition bios_putchar :: "u8 \<Rightarrow> screen \<Rightarrow> screen" where
  "bios_putchar ch s = s\<lparr>con_out := con_out s @ [ch]\<rparr>"

definition vt100_move_cursor :: "int \<Rightarrow> int \<Rightarrow> screen \<Rightarrow> screen option" where
  "vt100_move_cursor x y s =
     map_option snd (printv [0x25, 0x63, 0x5b, 0x25, 0x64, 0x3b, 0x25, 0x64, 0x48] [Reg 27, Reg (of_int y), Reg (of_int x)] s)"

definition vt100_clear :: "screen \<Rightarrow> screen option" where
  "vt100_clear s = map_option snd (printv [0x25, 0x63, 0x5b, 0x32, 0x4a] [Reg 27] s)"

definition vt100_hidden_cursor :: "screen \<Rightarrow> screen option" where
  "vt100_hidden_cursor s = map_option snd (printv [0x25, 0x63, 0x5b, 0x3f, 0x32, 0x35, 0x6c] [Reg 27] s)"

text \<open>A store to a cell of \<open>new_screen\<close>.\<close>

definition set_cell :: "int \<Rightarrow> u8 \<Rightarrow> screen \<Rightarrow> screen option" where
  "set_cell i ch s = do {
     kassert (0 \<le> i \<and> i < int (length (new_screen s)));
     Some (s\<lparr>new_screen := (new_screen s)[nat i := ch]\<rparr>)
   }"

definition next_line :: "screen \<Rightarrow> screen" where
  "next_line s = s\<lparr>cursor_x := 0, cursor_y := (if cursor_y s < SCREEN_HEIGHT then cursor_y s + 1 else cursor_y s)\<rparr>"

definition screen_write_ch :: "u8 \<Rightarrow> screen \<Rightarrow> screen option" where
  "screen_write_ch ch s =
     (if ch = 0x0a then Some (next_line s)
      else if ch = 0x08 \<or> ch = 0x7f
      then if cursor_x s > 0
           then let s = s\<lparr>cursor_x := cursor_x s - 1\<rparr> in set_cell (SCREEN_LOC (cursor_x s) (cursor_y s)) 0x20 s
           else Some s
      else do {
        s \<leftarrow> set_cell (SCREEN_LOC (cursor_x s) (cursor_y s)) ch s;
        let s = s\<lparr>cursor_x := cursor_x s + 1\<rparr>;
        Some (if cursor_x s \<ge> SCREEN_WIDTH then next_line s else s)
      })"

fun screen_write :: "u8 list \<Rightarrow> screen \<Rightarrow> screen option" where
  "screen_write [] s = Some s"
| "screen_write (c # cs) s = do { s \<leftarrow> screen_write_ch c s; screen_write cs s }"

text \<open>The refresh visits the cells row by row.\<close>

definition reflush_cell :: "int \<Rightarrow> int \<Rightarrow> screen \<Rightarrow> screen option" where
  "reflush_cell i j s =
     (let k = nat (SCREEN_LOC j i)
      in if new_screen s ! k \<noteq> old_screen s ! k
         then do {
           s \<leftarrow> vt100_move_cursor (j + 1) (i + 1) s;
           let s = bios_putchar (new_screen s ! k) s;
           Some (s\<lparr>old_screen := (old_screen s)[k := new_screen s ! k]\<rparr>)
         }
         else Some s)"

fun reflush_cells :: "(int \<times> int) list \<Rightarrow> screen \<Rightarrow> screen option" where
  "reflush_cells [] s = Some s"
| "reflush_cells ((i, j) # cells) s = do { s \<leftarrow> reflush_cell i j s; reflush_cells cells s }"

definition all_cells :: "(int \<times> int) list" where
  "all_cells = [(i, j). i \<leftarrow> [0 .. SCREEN_HEIGHT - 1], j \<leftarrow> [0 .. SCREEN_WIDTH - 1]]"

definition screen_reflush :: "screen \<Rightarrow> screen option" where
  "screen_reflush s = do {
     s \<leftarrow> reflush_cells all_cells s;
     vt100_move_cursor (cursor_x s) (cursor_y s) s
   }"

fun clear_cells :: "(int \<times> int) list \<Rightarrow> screen \<Rightarrow> screen option" where
  "clear_cells [] s = Some s"
| "clear_cells ((i, j) # cells) s = do { s \<leftarrow> set_cell (SCREEN_LOC j i) 0x20 s; clear_cells cells s }"

definition screen_clear :: "screen \<Rightarrow> screen option" where
  "screen_clear s = do {
     s \<leftarrow> clear_cells all_cells s;
     screen_reflush (s\<lparr>cursor_x := 0, cursor_y := 0\<rparr>)
   }"

definition init_screen :: "screen \<Rightarrow> screen option" where
  "init_screen s = do {
     s \<leftarrow> vt100_hidden_cursor s;
     s \<leftarrow> vt100_clear s;
     screen_clear s
   }"

definition screen_move_cursor :: "int \<Rightarrow> int \<Rightarrow> screen \<Rightarrow> screen option" where
  "screen_move_cursor x y s =
     (let x = (if x \<ge> SCREEN_WIDTH then SCREEN_WIDTH - 1 else if x < 0 then 0 else x);
          y = (if y \<ge> SCREEN_HEIGHT then SCREEN_HEIGHT - 1 else if y < 0 then 0 else y)
      in vt100_move_cursor (x + 1) (y + 1) (s\<lparr>cursor_x := x, cursor_y := y\<rparr>))"

subsection \<open>Console input and output of the kernel\<close>

definition putstr :: "u8 list \<Rightarrow> screen \<Rightarrow> screen option" where
  "putstr str s = do { s \<leftarrow> screen_write str s; screen_reflush s }"

definition output_wrapper :: "u8 list \<Rightarrow> screen \<Rightarrow> screen option" where
  "output_wrapper buff s = do { s \<leftarrow> screen_write buff s; screen_reflush s }"

definition vprintk :: "u8 list \<Rightarrow> arg list \<Rightarrow> screen \<Rightarrow> (nat \<times> screen) option" where
  "vprintk fmt args s = do {
     (ret, buff) \<leftarrow> vprint fmt args;
     s \<leftarrow> output_wrapper buff s;
     Some (ret, s)
   }"

definition printk :: "u8 list \<Rightarrow> arg list \<Rightarrow> screen \<Rightarrow> (nat \<times> screen) option" where
  "printk fmt args s = vprintk fmt args s"

text \<open>
  \<open>bios_getchar\<close> returns -1 while there is no key. The input is the sequence of its results; at its end the loop goes on
  asking, which is \<open>None\<close>.
\<close>

fun getchar :: "int list \<Rightarrow> (int \<times> int list) option" where
  "getchar [] = None"
| "getchar (ch # input) = (if ch = - 1 then getchar input else Some (if ch = 13 then 10 else ch, input))"

lemma getchar_shorter: "getchar input = Some (ch, rest) \<Longrightarrow> length rest < length input"
  by (induction input) (auto split: if_splits)

text \<open>\<open>size - 1\<close> is unsigned: with size 0 there is no bound.\<close>

function getline_loop :: "u64 \<Rightarrow> u64 \<Rightarrow> u8 list \<Rightarrow> int list \<Rightarrow> screen \<Rightarrow> (u64 \<times> u8 list \<times> int list \<times> screen) option" where
  "getline_loop bufsize i buf input s =
     (if i < bufsize - 1
      then case getchar input of
        None \<Rightarrow> None
      | Some (ch, rest) \<Rightarrow>
          (let c = of_int ch; s = bios_putchar c s
           in if c = 0x0d \<or> c = 0x0a then Some (i, buf, rest, s) else getline_loop bufsize (i + 1) (buf @ [c]) rest s)
      else Some (i, buf, input, s))"
  by pat_completeness auto
termination
  by (relation "measure (\<lambda>(bufsize, i, buf, input, s). length input)") (auto dest: getchar_shorter)

declare getline_loop.simps [simp del]

definition getline :: "u64 \<Rightarrow> int list \<Rightarrow> screen \<Rightarrow> (u64 \<times> u8 list \<times> int list \<times> screen) option" where
  "getline bufsize input s = getline_loop bufsize 0 [] input s"

section \<open>Cursor movements always print\<close>

lemma scast_range: "sint (scast (w :: u32) :: u64) \<noteq> - (2 ^ 63)" "nat \<bar>sint (scast w :: u64)\<bar> < 10 ^ 20"
proof -
  have e: "sint (scast w :: u64) = sint w" by (simp add: sint_up_scast is_up_def source_size_def target_size_def word_size)
  have b: "- (2 ^ 31) \<le> sint w" "sint w < 2 ^ 31" using sint_ge [of w] sint_lt [of w] by simp_all
  show "sint (scast w :: u64) \<noteq> - (2 ^ 63)" using b unfolding e by simp
  show "nat \<bar>sint (scast w :: u64)\<bar> < 10 ^ 20" using b unfolding e by simp
qed

lemma itoa_d_short: "\<exists>bf. mini_itoa (scast (w :: u32)) 10 False False 0 pad = Some bf \<and> length bf < 24"
proof -
  let ?v = "scast w :: u64"
  let ?n = "if sint ?v < 0 then nat (- sint ?v) else unat ?v"
  have "uint ?v = sint ?v" if "0 \<le> sint ?v"
    using uint_sint [of ?v] sint_lt [of ?v] that by (simp add: take_bit_int_eq_self)
  then have "?n = nat \<bar>sint ?v\<bar>" by (auto simp: unat_eq_nat_uint)
  then have "length (low_digits 10 ?n) \<le> 20" using low_digits_length [of 10 ?n 20] scast_range(2) [of w] by simp
  then show ?thesis using mini_itoa_eq [where r = 10 and unsig = False and w = ?v and upper = False and n = 0] scast_range(1) [of w]
    by (cases "sint ?v < 0") (simp_all add: Let_def numeral_of_def)
qed

lemma puts_some: "in_bounds b \<Longrightarrow> \<exists>k b'. puts s len b = Some (k, b') \<and> in_bounds b'"
proof -
  assume "in_bounds b"
  then have "\<exists>k b'. puts s len b = Some (k, b')" by (simp add: puts_def in_bounds_def Let_def)
  with puts_bounds show ?thesis by blast
qed

lemma vs_step_c:
  "\<exists>b'. in_bounds b \<longrightarrow> in_bounds b' \<and> (vs_loop (0x25 # 0x63 # fmt) (Reg w # args) b = Some b \<or> vs_loop (0x25 # 0x63 # fmt) (Reg w # args) b = vs_loop fmt args b')"
proof -
  have "read_spec (0x63 # fmt) = (\<lparr>n_pad = 0, c_pad = 0x20, longflag = False, conv = 0x63\<rparr>, fmt)"
    by (simp add: read_spec_def read_pad_def read_long_def is_digit_def)
  then show ?thesis by (intro exI [of _ "snd (putc (ucast w) b)"]) (auto simp: convert_def)
qed

lemma vs_step_d:
  "\<exists>b'. in_bounds b \<longrightarrow> in_bounds b' \<and> (vs_loop (0x25 # 0x64 # fmt) (Reg w # args) b = Some b \<or> vs_loop (0x25 # 0x64 # fmt) (Reg w # args) b = vs_loop fmt args b')"
proof (cases "in_bounds b")
  case True
  have sp: "read_spec (0x64 # fmt) = (\<lparr>n_pad = 0, c_pad = 0x20, longflag = False, conv = 0x64\<rparr>, fmt)"
    by (simp add: read_spec_def read_pad_def read_long_def is_digit_def)
  obtain bf where bf: "mini_itoa (scast (ucast w :: u32)) 10 False False 0 0x20 = Some bf" "length bf < 24" using itoa_d_short by blast
  obtain k b' where "puts (Some bf) (length bf) b = Some (k, b')" "in_bounds b'" using puts_some [OF True] by blast
  then have "convert \<lparr>n_pad = 0, c_pad = 0x20, longflag = False, conv = 0x64\<rparr> (Reg w # args) b = Some (args, b')"
    using bf by (simp add: convert_def put_digits_def)
  with sp \<open>in_bounds b'\<close> show ?thesis by (intro exI [of _ b']) auto
qed auto

lemma vs_step_plain:
  "ch \<noteq> 0x25 \<Longrightarrow> \<exists>b'. in_bounds b \<longrightarrow> in_bounds b' \<and> (vs_loop (ch # fmt) args b = Some b \<or> vs_loop (ch # fmt) args b = vs_loop fmt args b')"
  by (intro exI [of _ "snd (putc ch b)"]) auto

lemma move_cursor_format: "in_bounds b \<Longrightarrow> \<exists>b'. vs_loop [0x25, 0x63, 0x5b, 0x25, 0x64, 0x3b, 0x25, 0x64, 0x48] [Reg u, Reg v, Reg w] b = Some b'"
proof -
  assume b: "in_bounds b"
  have f4: "\<exists>b'. vs_loop [0x48] [] b = Some b'" if "in_bounds b" for b using vs_step_plain [of "0x48" b "[]" "[]"] that by auto
  have f3: "\<exists>b'. vs_loop [0x25, 0x64, 0x48] [Reg w] b = Some b'" if "in_bounds b" for b
    using vs_step_d [of b "[0x48]" w "[]"] that f4 by metis
  have f2: "\<exists>b'. vs_loop [0x3b, 0x25, 0x64, 0x48] [Reg w] b = Some b'" if "in_bounds b" for b
    using vs_step_plain [of "0x3b" b "[0x25, 0x64, 0x48]" "[Reg w]"] that f3 by fastforce
  have f1: "\<exists>b'. vs_loop [0x25, 0x64, 0x3b, 0x25, 0x64, 0x48] [Reg v, Reg w] b = Some b'" if "in_bounds b" for b
    using vs_step_d [of b "[0x3b, 0x25, 0x64, 0x48]" v "[Reg w]"] that f2 by metis
  have f0: "\<exists>b'. vs_loop [0x5b, 0x25, 0x64, 0x3b, 0x25, 0x64, 0x48] [Reg v, Reg w] b = Some b'" if "in_bounds b" for b
    using vs_step_plain [of "0x5b" b "[0x25, 0x64, 0x3b, 0x25, 0x64, 0x48]" "[Reg v, Reg w]"] that f1 by fastforce
  show ?thesis using vs_step_c [of b "[0x5b, 0x25, 0x64, 0x3b, 0x25, 0x64, 0x48]" u "[Reg v, Reg w]"] b f0 by metis
qed

lemma move_cursor_some: "\<exists>out. vt100_move_cursor x y s = Some (s\<lparr>con_out := con_out s @ out\<rparr>)"
proof -
  have ib: "in_bounds \<lparr>buffer = [], buffer_len = 256\<rparr>" by (simp add: in_bounds_def)
  obtain b where "vs_loop [0x25, 0x63, 0x5b, 0x25, 0x64, 0x3b, 0x25, 0x64, 0x48] [Reg 27, Reg (of_int y), Reg (of_int x)] \<lparr>buffer = [], buffer_len = 256\<rparr> = Some b"
    using move_cursor_format [OF ib] by blast
  then show ?thesis
    by (intro exI [of _ "takeWhile (\<lambda>c. c \<noteq> 0) (buffer b)"])
      (simp add: vt100_move_cursor_def printv_def vprint_def mini_vsnprintf_def del: vs_loop.simps)
qed

section \<open>The buffers\<close>

definition screen_ok :: "screen \<Rightarrow> bool" where
  "screen_ok s \<longleftrightarrow> length (new_screen s) = 4000 \<and> length (old_screen s) = 4000 \<and>
     0 \<le> cursor_x s \<and> cursor_x s < 80 \<and> 0 \<le> cursor_y s \<and> cursor_y s \<le> 50"

text \<open>One cell, and then all of them.\<close>

lemma reflush_cell_ok:
  "\<exists>s'. reflush_cell i j s = Some s' \<and> new_screen s' = new_screen s \<and> cursor_x s' = cursor_x s \<and> cursor_y s' = cursor_y s \<and>
     old_screen s' = (old_screen s)[nat (SCREEN_LOC j i) := new_screen s ! nat (SCREEN_LOC j i)]"
proof (cases "new_screen s ! nat (SCREEN_LOC j i) = old_screen s ! nat (SCREEN_LOC j i)")
  case True
  then show ?thesis by (simp add: reflush_cell_def Let_def)
next
  case False
  obtain out where "vt100_move_cursor (j + 1) (i + 1) s = Some (s\<lparr>con_out := con_out s @ out\<rparr>)" using move_cursor_some by blast
  with False show ?thesis by (simp add: reflush_cell_def Let_def bios_putchar_def)
qed

lemma reflush_cells_ok:
  "\<exists>s'. reflush_cells cells s = Some s' \<and> new_screen s' = new_screen s \<and> cursor_x s' = cursor_x s \<and> cursor_y s' = cursor_y s \<and>
     length (old_screen s') = length (old_screen s) \<and>
     (\<forall>k<length (old_screen s). old_screen s' ! k =
        (if \<exists>(i, j)\<in>set cells. k = nat (SCREEN_LOC j i) then new_screen s ! k else old_screen s ! k))"
proof (induction cells arbitrary: s)
  case (Cons c cells)
  obtain i j where c: "c = (i, j)" by (cases c)
  obtain s1 where s1: "reflush_cell i j s = Some s1" "new_screen s1 = new_screen s" "cursor_x s1 = cursor_x s" "cursor_y s1 = cursor_y s"
    "old_screen s1 = (old_screen s)[nat (SCREEN_LOC j i) := new_screen s ! nat (SCREEN_LOC j i)]" using reflush_cell_ok by blast
  from Cons.IH [of s1] obtain s2 where s2: "reflush_cells cells s1 = Some s2" "new_screen s2 = new_screen s1" "cursor_x s2 = cursor_x s1"
    "cursor_y s2 = cursor_y s1" "length (old_screen s2) = length (old_screen s1)"
    "\<forall>k<length (old_screen s1). old_screen s2 ! k = (if \<exists>(i, j)\<in>set cells. k = nat (SCREEN_LOC j i) then new_screen s1 ! k else old_screen s1 ! k)"
    by blast
  show ?case
  proof (intro exI [of _ s2] conjI allI impI)
    show "reflush_cells (c # cells) s = Some s2" using s1(1) s2(1) c by simp
    fix k assume k: "k < length (old_screen s)"
    then show "old_screen s2 ! k = (if \<exists>(i, j)\<in>set (c # cells). k = nat (SCREEN_LOC j i) then new_screen s ! k else old_screen s ! k)"
      using s2(6) s1(2,5) c by (simp add: nth_list_update)
  qed (use s1 s2 in simp_all)
qed (auto simp: Let_def)

lemma set_all_cells: "set all_cells = {0 .. 49} \<times> {0 .. 79}"
  by (auto simp: all_cells_def SCREEN_HEIGHT_def SCREEN_WIDTH_def simp del: upto_rec_numeral)

lemma all_cells_cover: "k < 4000 \<Longrightarrow> \<exists>(i, j)\<in>set all_cells. k = nat (SCREEN_LOC j i)"
proof -
  assume k: "k < 4000"
  let ?i = "int (k div 80)" and ?j = "int (k mod 80)"
  have "k div 80 < 50" "k mod 80 < 80" using k by auto
  then have "(?i, ?j) \<in> set all_cells" unfolding set_all_cells mem_Times_iff fst_conv snd_conv atLeastAtMost_iff by linarith
  moreover have "int k = ?i * 80 + ?j" using div_mult_mod_eq [of k 80] by (metis of_nat_add of_nat_mult of_nat_numeral)
  then have "k = nat (SCREEN_LOC ?j ?i)" by (simp only: SCREEN_LOC_def SCREEN_WIDTH_def nat_int)
  ultimately show ?thesis by blast
qed

lemma reflush_ok:
  assumes "screen_ok s"
  obtains s' where "screen_reflush s = Some s'" "old_screen s' = new_screen s" "new_screen s' = new_screen s"
    "cursor_x s' = cursor_x s" "cursor_y s' = cursor_y s"
proof -
  obtain s1 where s1: "reflush_cells all_cells s = Some s1" "new_screen s1 = new_screen s" "cursor_x s1 = cursor_x s" "cursor_y s1 = cursor_y s"
    "length (old_screen s1) = length (old_screen s)"
    "\<forall>k<length (old_screen s). old_screen s1 ! k = (if \<exists>(i, j)\<in>set all_cells. k = nat (SCREEN_LOC j i) then new_screen s ! k else old_screen s ! k)"
    using reflush_cells_ok by blast
  have eq: "old_screen s1 = new_screen s"
    by (rule nth_equalityI) (use assms s1(5,6) all_cells_cover in \<open>auto simp: screen_ok_def\<close>)
  obtain out where "vt100_move_cursor (cursor_x s1) (cursor_y s1) s1 = Some (s1\<lparr>con_out := con_out s1 @ out\<rparr>)" using move_cursor_some by blast
  with s1(1) have "screen_reflush s = Some (s1\<lparr>con_out := con_out s1 @ out\<rparr>)" by (simp add: screen_reflush_def)
  from that [OF this] eq s1(2-4) show thesis by simp
qed

text \<open>Text without control characters that stays in its line.\<close>

definition plain :: "u8 list \<Rightarrow> bool" where
  "plain str \<longleftrightarrow> set str \<inter> {0, 0x0a, 0x08, 0x7f} = {}"

lemma screen_write_line:
  assumes "screen_ok s" "plain str" "cursor_y s < 50" "cursor_x s + int (length str) < 80"
  shows "\<exists>s'. screen_write str s = Some s' \<and> screen_ok s' \<and> old_screen s' = old_screen s \<and> cursor_y s' = cursor_y s \<and>
    cursor_x s' = cursor_x s + int (length str) \<and>
    (\<forall>k<4000. new_screen s' ! k = (let k0 = nat (SCREEN_LOC (cursor_x s) (cursor_y s)) in
       if k0 \<le> k \<and> k < k0 + length str then str ! (k - k0) else new_screen s ! k))"
  using assms
proof (induction str arbitrary: s)
  case (Cons c str)
  let ?k = "SCREEN_LOC (cursor_x s) (cursor_y s)"
  let ?s = "s\<lparr>new_screen := (new_screen s)[nat ?k := c], cursor_x := cursor_x s + 1\<rparr>"
  have k: "0 \<le> ?k" "?k < 4000" "SCREEN_LOC (cursor_x s + 1) (cursor_y s) = ?k + 1"
    using Cons.prems(1,3) by (simp_all add: screen_ok_def SCREEN_LOC_def SCREEN_WIDTH_def)
  have c: "c \<noteq> 0x0a" "c \<noteq> 0x08" "c \<noteq> 0x7f" using Cons.prems(2) by (auto simp: plain_def)
  have x: "cursor_x s + 1 < 80" using Cons.prems(4) by simp
  have w: "screen_write_ch c s = Some ?s"
    using c k(1,2) x Cons.prems(1) by (simp add: screen_write_ch_def set_cell_def screen_ok_def Let_def SCREEN_WIDTH_def)
  have "screen_ok ?s" "plain str" "cursor_y ?s < 50" "cursor_x ?s + int (length str) < 80"
    using Cons.prems x by (auto simp: screen_ok_def plain_def)
  from Cons.IH [OF this] obtain s' where s': "screen_write str ?s = Some s'" "screen_ok s'" "old_screen s' = old_screen s"
    "cursor_y s' = cursor_y s" "cursor_x s' = cursor_x s + 1 + int (length str)"
    "\<forall>k<4000. new_screen s' ! k = (if nat (?k + 1) \<le> k \<and> k < nat (?k + 1) + length str then str ! (k - nat (?k + 1)) else (new_screen s)[nat ?k := c] ! k)"
    by (auto simp: k(3) Let_def)
  have n1: "nat (?k + 1) = Suc (nat ?k)" using k(1) by simp
  have len: "length (new_screen s) = 4000" using Cons.prems(1) by (simp add: screen_ok_def)
  have "new_screen s' ! k = (if nat ?k \<le> k \<and> k < nat ?k + length (c # str) then (c # str) ! (k - nat ?k) else new_screen s ! k)" if "k < 4000" for k
    using s'(6) that len unfolding n1 by (cases "k = nat ?k") (auto simp: nth_list_update nth_Cons' Suc_diff_Suc)
  with w s' show ?case by (auto simp: Let_def)
qed (auto simp: Let_def)

text \<open>A whole line with its newline, from the first column on.\<close>

lemma screen_write_append: "screen_write (xs @ ys) s = screen_write xs s \<bind> screen_write ys"
  by (induction xs arbitrary: s) (simp_all split: bind_split)

lemma show_line:
  assumes "screen_ok s" "plain str" "cursor_x s = 0" "cursor_y s < 50" "length str < 80"
  obtains s' where "output_wrapper (str @ [0x0a]) s = Some s'" "screen_ok s'" "cursor_x s' = 0" "cursor_y s' = cursor_y s + 1" "old_screen s' = new_screen s'"
    "\<forall>k<4000. new_screen s' ! k = (let k0 = nat (80 * cursor_y s) in if k0 \<le> k \<and> k < k0 + length str then str ! (k - k0) else new_screen s ! k)"
proof -
  have fits: "cursor_x s + int (length str) < 80" using assms(3,5) by simp
  obtain s1 where s1: "screen_write str s = Some s1" "screen_ok s1" "cursor_y s1 = cursor_y s"
    "\<forall>k<4000. new_screen s1 ! k = (let k0 = nat (SCREEN_LOC (cursor_x s) (cursor_y s)) in if k0 \<le> k \<and> k < k0 + length str then str ! (k - k0) else new_screen s ! k)"
    using screen_write_line [OF assms(1,2,4) fits] by blast
  have n: "screen_ok (next_line s1)" "cursor_x (next_line s1) = 0" "cursor_y (next_line s1) = cursor_y s + 1" "new_screen (next_line s1) = new_screen s1"
    using s1(2,3) assms(4) by (simp_all add: next_line_def screen_ok_def SCREEN_HEIGHT_def)
  obtain s2 where s2: "screen_reflush (next_line s1) = Some s2" "old_screen s2 = new_screen (next_line s1)" "new_screen s2 = new_screen (next_line s1)"
    "cursor_x s2 = cursor_x (next_line s1)" "cursor_y s2 = cursor_y (next_line s1)" by (rule reflush_ok [OF n(1)])
  have w: "output_wrapper (str @ [0x0a]) s = Some s2" using s1(1) s2(1) by (simp add: output_wrapper_def screen_write_append screen_write_ch_def)
  have "screen_ok s2" using n s2(2-5) by (simp add: screen_ok_def)
  then show thesis using that [OF w] n s2 s1(4) assms(3) by (simp add: SCREEN_LOC_def SCREEN_WIDTH_def mult.commute)
qed

lemma printk_line:
  assumes "screen_ok s" "plain str" "0x25 \<notin> set str" "cursor_x s = 0" "cursor_y s < 50" "length str < 80"
  obtains n s' where "printk (str @ [0x0a]) [] s = Some (n, s')" "screen_ok s'" "cursor_x s' = 0" "cursor_y s' = cursor_y s + 1" "old_screen s' = new_screen s'"
    "\<forall>k<4000. new_screen s' ! k = (let k0 = nat (80 * cursor_y s) in if k0 \<le> k \<and> k < k0 + length str then str ! (k - k0) else new_screen s ! k)"
proof -
  let ?l = "str @ [0x0a]"
  have c: "0x25 \<notin> set ?l" "0 \<notin> set ?l" using assms(2,3) by (auto simp: plain_def)
  have "vs_loop (?l @ []) [] \<lparr>buffer = [], buffer_len = 256\<rparr> = Some \<lparr>buffer = ?l, buffer_len = 256\<rparr>"
    using vs_loop_plain [OF c(1), of "\<lparr>buffer = [], buffer_len = 256\<rparr>" "[]"] assms(6) by simp
  moreover have "takeWhile (\<lambda>c. c \<noteq> 0) ?l = ?l" using c(2) by (auto simp: takeWhile_eq_all_conv)
  ultimately have v: "vprint ?l [] = Some (length ?l, ?l)" by (simp add: vprint_def mini_vsnprintf_def)
  obtain s' where s': "output_wrapper ?l s = Some s'" "screen_ok s'" "cursor_x s' = 0" "cursor_y s' = cursor_y s + 1" "old_screen s' = new_screen s'"
    "\<forall>k<4000. new_screen s' ! k = (let k0 = nat (80 * cursor_y s) in if k0 \<le> k \<and> k < k0 + length str then str ! (k - k0) else new_screen s ! k)"
    by (rule show_line [OF assms(1,2,4,5,6)])
  have "printk ?l [] s = Some (length ?l, s')" using v s'(1) by (simp add: printk_def vprintk_def)
  from that [OF this s'(2-6)] show thesis .
qed

text \<open>The screen is cleared at start-up.\<close>

lemma clear_cells_ok:
  "set cells \<subseteq> {0 .. 49} \<times> {0 .. 79} \<Longrightarrow> length (new_screen s) = 4000 \<Longrightarrow>
    \<exists>ns. clear_cells cells s = Some (s\<lparr>new_screen := ns\<rparr>) \<and> length ns = 4000 \<and>
      (\<forall>k<4000. ns ! k = (if \<exists>(i, j)\<in>set cells. k = nat (SCREEN_LOC j i) then 0x20 else new_screen s ! k))"
proof (induction cells arbitrary: s)
  case Nil
  then show ?case by (intro exI [of _ "new_screen s"]) simp
next
  case (Cons c cells)
  obtain i j where c: "c = (i, j)" "0 \<le> i" "i \<le> 49" "0 \<le> j" "j \<le> 79" using Cons.prems(1) by (cases c) auto
  let ?k = "nat (SCREEN_LOC j i)"
  let ?s = "s\<lparr>new_screen := (new_screen s)[?k := 0x20]\<rparr>"
  have "0 \<le> SCREEN_LOC j i \<and> SCREEN_LOC j i < 4000" using c by (simp add: SCREEN_LOC_def SCREEN_WIDTH_def)
  then have w: "set_cell (SCREEN_LOC j i) 0x20 s = Some ?s" using Cons.prems(2) by (simp add: set_cell_def)
  obtain ns where ns: "clear_cells cells ?s = Some (?s\<lparr>new_screen := ns\<rparr>)" "length ns = 4000" "\<forall>k<4000. ns ! k = (if \<exists>(i, j)\<in>set cells. k = nat (SCREEN_LOC j i) then 0x20 else new_screen ?s ! k)"
    using Cons.IH [of ?s] Cons.prems by auto
  have "ns ! k = (if \<exists>(i, j)\<in>set (c # cells). k = nat (SCREEN_LOC j i) then 0x20 else new_screen s ! k)" if "k < 4000" for k
    using ns(3) that Cons.prems(2) c(1) by (simp add: nth_list_update)
  with w ns c(1) show ?case by (intro exI [of _ ns]) simp
qed

lemma init_screen_ok:
  assumes "screen_ok s"
  obtains s' where "init_screen s = Some s'" "screen_ok s'" "new_screen s' = replicate 4000 0x20" "old_screen s' = new_screen s'" "cursor_x s' = 0" "cursor_y s' = 0"
proof -
  have "vprint [0x25, 0x63, 0x5b, 0x3f, 0x32, 0x35, 0x6c] [Reg 27] \<noteq> None" "vprint [0x25, 0x63, 0x5b, 0x32, 0x4a] [Reg 27] \<noteq> None" by code_simp+
  then obtain n o1 m o2 where v: "vprint [0x25, 0x63, 0x5b, 0x3f, 0x32, 0x35, 0x6c] [Reg 27] = Some (n, o1)" "vprint [0x25, 0x63, 0x5b, 0x32, 0x4a] [Reg 27] = Some (m, o2)" by auto
  define s1 where "s1 = s\<lparr>con_out := (con_out s @ o1) @ o2\<rparr>"
  have c: "length (new_screen s1) = 4000" "length (old_screen s1) = 4000" using assms by (simp_all add: s1_def screen_ok_def)
  obtain ns where ns: "clear_cells all_cells s1 = Some (s1\<lparr>new_screen := ns\<rparr>)" "length ns = 4000"
    "\<forall>k<4000. ns ! k = (if \<exists>(i, j)\<in>set all_cells. k = nat (SCREEN_LOC j i) then 0x20 else new_screen s1 ! k)"
    using clear_cells_ok [of all_cells s1] c(1) set_all_cells by auto
  have "ns = replicate 4000 0x20" by (rule nth_equalityI) (use ns(2,3) all_cells_cover in auto)
  moreover define s2 where "s2 = s1\<lparr>new_screen := ns, cursor_x := 0, cursor_y := 0\<rparr>"
  moreover have "screen_ok s2" using c ns(2) by (simp add: s2_def screen_ok_def)
  then obtain s3 where s3: "screen_reflush s2 = Some s3" "old_screen s3 = new_screen s2" "new_screen s3 = new_screen s2" "cursor_x s3 = cursor_x s2" "cursor_y s3 = cursor_y s2" by (rule reflush_ok)
  have "init_screen s = Some s3"
    using v ns(1) s3(1) by (simp add: init_screen_def vt100_hidden_cursor_def vt100_clear_def printv_def screen_clear_def s1_def s2_def)
  ultimately show thesis using that [of s3] s3(2-5) by (simp add: screen_ok_def)
qed

section \<open>Properties\<close>

text \<open>
  \<open>printk\<close> shows its text. On a consistent screen, text without control characters that fits into the rest of the line is
  written at the cursor and the refresh makes what the console was sent equal to the buffer: the text is there and all
  other cells are as they were in the buffer. No access is outside the buffers.
\<close>

theorem printk_shows:
  assumes "screen_ok s" "plain str" "0x25 \<notin> set str" "cursor_y s < 50" "cursor_x s + int (length str) < 80"
  shows "\<exists>s'. printk str [] s = Some (length str, s') \<and> old_screen s' = new_screen s' \<and> cursor_x s' = cursor_x s + int (length str) \<and>
    (\<forall>k<4000. new_screen s' ! k = (let k0 = nat (SCREEN_LOC (cursor_x s) (cursor_y s)) in
       if k0 \<le> k \<and> k < k0 + length str then str ! (k - k0) else new_screen s ! k))"
proof -
  have l: "length str < 256" using assms(1,5) by (simp add: screen_ok_def)
  have "vs_loop (str @ []) [] \<lparr>buffer = [], buffer_len = 256\<rparr> = Some \<lparr>buffer = str, buffer_len = 256\<rparr>"
    using vs_loop_plain [OF assms(3), of "\<lparr>buffer = [], buffer_len = 256\<rparr>" "[]"] l by simp
  moreover have "takeWhile (\<lambda>c. c \<noteq> 0) str = str" using assms(2) by (auto simp: plain_def takeWhile_eq_all_conv)
  ultimately have v: "vprint str [] = Some (length str, str)" by (simp add: vprint_def mini_vsnprintf_def)
  obtain s1 where s1: "screen_write str s = Some s1" "screen_ok s1" "cursor_x s1 = cursor_x s + int (length str)"
    "\<forall>k<4000. new_screen s1 ! k = (let k0 = nat (SCREEN_LOC (cursor_x s) (cursor_y s)) in
       if k0 \<le> k \<and> k < k0 + length str then str ! (k - k0) else new_screen s ! k)"
    using screen_write_line [OF assms(1,2,4,5)] by blast
  obtain s2 where "screen_reflush s1 = Some s2" "old_screen s2 = new_screen s1" "new_screen s2 = new_screen s1" "cursor_x s2 = cursor_x s1"
    by (rule reflush_ok [OF s1(2)])
  with v s1 show ?thesis by (simp add: printk_def vprintk_def output_wrapper_def)
qed

definition screen0 :: screen where
  "screen0 = \<lparr>con_out = [], con_log = [], new_screen = replicate 4000 0, old_screen = replicate 4000 0, cursor_x = 0, cursor_y = 3\<rparr>"

theorem printk_shows_witness: "\<exists>s'. printk [104, 105] [] screen0 = Some (2, s') \<and> old_screen s' ! 240 = 104 \<and> old_screen s' ! 241 = 105"
proof -
  have pre: "screen_ok screen0" "plain [104, 105]" "0x25 \<notin> set [104, 105 :: u8]" "cursor_y screen0 < 50" "cursor_x screen0 + int (length [104, 105 :: u8]) < 80"
    by (simp_all add: screen_ok_def screen0_def plain_def)
  from printk_shows [OF pre] show ?thesis by (fastforce simp: screen0_def SCREEN_LOC_def SCREEN_WIDTH_def Let_def)
qed

end
