(* ===== verification/UserFormat.thy ===== *)
theory UserFormat
  imports Screen
begin

text \<open>
  The formatted output of the user library: \<open>tiny_libc/printf.c\<close>. It has its own copy of \<open>mini_vsnprintf\<close>, older than that of the kernel: it pads only with zeros, keeps the width in a \<open>char\<close>
  and divides every number as signed. The buffer and the reading of arguments are those of the theory Format. \<open>printf\<close> ends in two system calls, \<open>write\<close> and \<open>reflush\<close>.
\<close>

section \<open>Definitions\<close>

text \<open>\<open>radix\<close> is extended to the type \<open>long\<close> of \<open>value\<close>, so the division is signed also for \<open>unsig\<close>; a negative value ends the loop after one round.\<close>

partial_function (option) u_itoa_loop :: "bool \<Rightarrow> u64 \<Rightarrow> u64 \<Rightarrow> u8 list \<Rightarrow> u8 list option" where
  "u_itoa_loop uppercase radix value acc =
     (if radix = 0 then None
      else let digit = sint value smod sint radix;
               acc = acc @ [digit_char uppercase digit];
               value = of_int (sint value sdiv sint radix)
           in if 0 < sint value then u_itoa_loop uppercase radix value acc else Some acc)"

definition u_mini_itoa :: "u64 \<Rightarrow> nat \<Rightarrow> bool \<Rightarrow> bool \<Rightarrow> nat \<Rightarrow> u8 list option" where
  "u_mini_itoa value radix uppercase unsig zero_pad =
     (if radix > 16 then Some []
      else do {
        let negative = (sint value < 0 \<and> \<not> unsig);
        let value = (if negative then - value else value);
        buffer \<leftarrow> u_itoa_loop uppercase (of_nat radix) value [];
        let buffer = buffer @ replicate (zero_pad - length buffer) 0x30;
        let buffer = (if negative then buffer @ [0x2d] else buffer);
        Some (reverse buffer)
      })"

definition u_putc :: "u8 \<Rightarrow> mini_buff \<Rightarrow> bool \<times> mini_buff" where
  "u_putc ch b = (if length (buffer b) + 1 \<ge> buffer_len b then (False, b) else (True, b\<lparr>buffer := buffer b @ [ch]\<rparr>))"

definition u_puts :: "u8 list \<Rightarrow> nat \<Rightarrow> mini_buff \<Rightarrow> (nat \<times> mini_buff) option" where
  "u_puts s len b = do {
     kassert (length (buffer b) < buffer_len b);
     let left = buffer_len b - length (buffer b) - 1;
     let len = (if left < len then left else len);
     Some (len, b\<lparr>buffer := buffer b @ take len s\<rparr>)
   }"

text \<open>The width is a \<open>char\<close>, which is 8 bits and unsigned on this machine.\<close>

fun u_read_width :: "u8 list \<Rightarrow> u8 \<Rightarrow> u8 \<times> u8 \<times> u8 list" where
  "u_read_width [] n = (n, 0, [])"
| "u_read_width (c # cs) n = (if is_digit c then u_read_width cs (n * 10 + c - 0x30) else (n, c, cs))"

definition u_read_pad :: "u8 list \<Rightarrow> nat \<times> u8 \<times> u8 list" where
  "u_read_pad fmt =
     (let (ch, rest) = next_ch fmt
      in if ch = 0x30 then let (n, c, r) = u_read_width rest 0 in (unat n, c, r) else (0, ch, rest))"

definition u_read_long :: "u8 \<Rightarrow> u8 list \<Rightarrow> bool \<times> u8 \<times> u8 list" where
  "u_read_long ch rest = (if ch = 0x6c then let (c, r) = next_ch rest in (True, c, r) else (False, ch, rest))"

definition u_read_spec :: "u8 list \<Rightarrow> spec \<times> u8 list" where
  "u_read_spec fmt =
     (let (n, ch, rest) = u_read_pad fmt; (long, ch, rest) = u_read_long ch rest
      in (\<lparr>n_pad = n, c_pad = 0x30, longflag = long, conv = ch\<rparr>, rest))"

definition u_put_digits :: "u8 list \<Rightarrow> mini_buff \<Rightarrow> mini_buff option" where
  "u_put_digits bf b = do {
     kassert (length bf < 24);
     (_, b) \<leftarrow> u_puts bf (length bf) b;
     Some b
   }"

definition u_convert :: "spec \<Rightarrow> arg list \<Rightarrow> mini_buff \<Rightarrow> (arg list \<times> mini_buff) option" where
  "u_convert sp args b =
     (let ch = conv sp; long = longflag sp
      in if ch = 0x6c then Some (args, b)
         else if ch = 0x75
         then do {
           (w, args) \<leftarrow> take_reg args;
           bf \<leftarrow> u_mini_itoa (if long then w else w AND 0xffffffff) 10 False True (n_pad sp);
           b \<leftarrow> u_put_digits bf b;
           Some (args, b)
         }
         else if ch = 0x64
         then do {
           (w, args) \<leftarrow> take_reg args;
           bf \<leftarrow> u_mini_itoa (if long then w else scast (ucast w :: u32)) 10 False False (n_pad sp);
           b \<leftarrow> u_put_digits bf b;
           Some (args, b)
         }
         else if ch = 0x78 \<or> ch = 0x58
         then do {
           (w, args) \<leftarrow> take_reg args;
           bf \<leftarrow> u_mini_itoa (if long then w else w AND 0xffffffff) 16 (ch = 0x58) True (n_pad sp);
           b \<leftarrow> u_put_digits bf b;
           Some (args, b)
         }
         else if ch = 0x63
         then do {
           (w, args) \<leftarrow> take_reg args;
           Some (args, snd (u_putc (ucast w) b))
         }
         else if ch = 0x73
         then do {
           (s, args) \<leftarrow> take_str args;
           (_, b) \<leftarrow> u_puts s (length s) b;
           Some (args, b)
         }
         else Some (args, snd (u_putc ch b)))"

lemma u_read_width_shorter: "u_read_width fmt n = (k, c, r) \<Longrightarrow> length r \<le> length fmt"
  by (induction fmt n rule: u_read_width.induct) (auto split: if_splits)

lemma u_read_pad_shorter: "u_read_pad fmt = (n, c, r) \<Longrightarrow> length r \<le> length fmt"
proof -
  assume eq: "u_read_pad fmt = (n, c, r)"
  obtain ch rest where a: "next_ch fmt = (ch, rest)" by (cases "next_ch fmt")
  show ?thesis using eq next_ch_shorter [OF a] by (auto simp: u_read_pad_def a split: prod.splits if_splits dest: u_read_width_shorter)
qed

lemma u_read_spec_shorter: "u_read_spec fmt = (sp, rest) \<Longrightarrow> length rest \<le> length fmt"
proof -
  assume eq: "u_read_spec fmt = (sp, rest)"
  obtain n c r where a: "u_read_pad fmt = (n, c, r)" by (cases "u_read_pad fmt")
  obtain l c' r' where b: "u_read_long c r = (l, c', r')" by (cases "u_read_long c r")
  have "length r' \<le> length r" using b by (auto simp: u_read_long_def split: if_splits prod.splits dest: next_ch_shorter)
  moreover have "rest = r'" using eq by (simp add: u_read_spec_def a b)
  ultimately show ?thesis using u_read_pad_shorter [OF a] by simp
qed

function u_vs_loop :: "u8 list \<Rightarrow> arg list \<Rightarrow> mini_buff \<Rightarrow> mini_buff option" where
  "u_vs_loop [] args b = Some b"
| "u_vs_loop (ch # fmt) args b =
     (if length (buffer b) + 1 \<ge> buffer_len b then Some b
      else if ch \<noteq> 0x25 then u_vs_loop fmt args (snd (u_putc ch b))
      else case u_read_spec fmt of
        (sp, rest) \<Rightarrow>
          if conv sp = 0 then Some b
          else do {
            (args, b) \<leftarrow> u_convert sp args b;
            u_vs_loop rest args b
          })"
  by pat_completeness auto
termination
  by (relation "measure (\<lambda>(fmt, args, b). length fmt)") (auto simp: less_Suc_eq_le, metis u_read_spec_shorter)

definition u_mini_vsnprintf :: "nat \<Rightarrow> u8 list \<Rightarrow> arg list \<Rightarrow> u8 list option" where
  "u_mini_vsnprintf len fmt args = map_option buffer (u_vs_loop fmt args \<lparr>buffer = [], buffer_len = len\<rparr>)"

definition vprintf :: "u8 list \<Rightarrow> arg list \<Rightarrow> screen \<Rightarrow> (nat \<times> screen) option" where
  "vprintf fmt args s = do {
     buff \<leftarrow> u_mini_vsnprintf 256 fmt args;
     s \<leftarrow> screen_write (takeWhile (\<lambda>c. c \<noteq> 0) buff) s;
     s \<leftarrow> screen_reflush s;
     Some (length buff, s)
   }"

definition printf :: "u8 list \<Rightarrow> arg list \<Rightarrow> screen \<Rightarrow> (nat \<times> screen) option" where
  "printf fmt args s = vprintf fmt args s"

section \<open>Numbers\<close>

text \<open>On a value that is not negative the loop gives the digits that the kernel's loop gives.\<close>

lemma sint_pos_iff: "0 \<le> sint w \<Longrightarrow> 0 < sint w \<longleftrightarrow> w \<noteq> 0" for w :: u64
  using signed_word_eqI [of w 0, where 'a = int] by (auto simp: order_le_less)

lemma u_itoa_loop_step:
  assumes "radix \<noteq> 0" "sint w smod sint radix = d" "of_int (sint w sdiv sint radix) = v"
  shows "u_itoa_loop upper radix w acc =
    (if 0 < sint v then u_itoa_loop upper radix v (acc @ [digit_char upper d]) else Some (acc @ [digit_char upper d]))"
  by (subst u_itoa_loop.simps) (simp only: assms Let_def if_False)

lemma u_itoa_loop_eq:
  fixes w :: u64
  assumes r: "2 \<le> r" "r \<le> 16" and v: "0 \<le> sint w"
  shows "u_itoa_loop upper (of_nat r) w acc = itoa_loop False upper (of_nat r) w acc"
  using v
proof (induction "unat w" arbitrary: w acc rule: less_induct)
  case less
  let ?n = "unat w" and ?v = "of_nat (unat w div r) :: u64"
  note rd = itoa_round [OF r disjI2 [OF less.prems], of False]
  have rd': "sint w smod sint (of_nat r :: u64) = int (?n mod r)" "of_int (sint w sdiv sint (of_nat r :: u64)) = ?v" using rd by simp_all
  have r0: "(of_nat r :: u64) \<noteq> 0" using sint_radix(2) [OF r(2)] r(1) by auto
  have pos: "0 \<le> sint ?v" by (rule sint_of_nat_pos [OF _ less.prems]) simp
  have lt: "?n div r < 2 ^ 64" using unsigned_less [of w, where 'a = nat] by (simp add: order.strict_trans1 [OF div_le_dividend])
  then have u: "unat ?v = ?n div r" by (simp add: unat_of_nat)
  have IH: "u_itoa_loop upper (of_nat r) ?v acc' = itoa_loop False upper (of_nat r) ?v acc'" if "?v \<noteq> 0" for acc'
  proof (rule less.hyps [OF _ pos])
    have "?n div r \<noteq> 0"
    proof
      assume "?n div r = 0"
      then have "?v = of_nat 0" by (simp only:)
      with that show False by simp
    qed
    then have "0 < ?n" by (cases "?n = 0") auto
    then show "unat ?v < unat w" unfolding u using r(1) by (intro div_less_dividend) auto
  qed
  show ?case unfolding u_itoa_loop_step [OF r0 rd'] itoa_loop_step [OF r0 rd] sint_pos_iff [OF pos] using IH by auto
qed

lemma u_mini_itoa_eq:
  assumes r: "2 \<le> r" "r \<le> 16" and v: "0 \<le> sint w \<or> \<not> unsig \<and> sint w \<noteq> - (2 ^ 63)"
  shows "u_mini_itoa w r upper unsig n = mini_itoa w r upper unsig n 0x30"
proof (cases "0 \<le> sint w")
  case True
  have "itoa_loop unsig upper (of_nat r) w [] = itoa_loop False upper (of_nat r) w []"
    using itoa_loop_eq [OF r, of unsig w upper "[]"] itoa_loop_eq [OF r, of False w upper "[]"] True by auto
  with True u_itoa_loop_eq [OF r True, of upper "[]"] r show ?thesis by (simp add: u_mini_itoa_def mini_itoa_def)
next
  case False
  have "- (2 ^ 63) \<le> sint w" using sint_ge [of w] by simp
  with False v have m: "sint (- w) = - sint w" by (simp add: sint_word_minus signed_take_bit_int_eq_self)
  then have "0 \<le> sint (- w)" using False by simp
  with False v u_itoa_loop_eq [OF r this, of upper "[]"] r show ?thesis by (simp add: u_mini_itoa_def mini_itoa_def)
qed

text \<open>An unsigned number from \<open>2 ^ 63\<close> on is printed as a single byte, that of a negative digit.\<close>

lemma u_mini_itoa_wraps:
  assumes "sint w < 0" "2 \<le> r" "r \<le> 16"
  shows "u_mini_itoa w r upper True 0 = Some [of_int (48 + sint w smod int r)]"
proof -
  have r0: "(of_nat r :: u64) \<noteq> 0" using sint_radix(2) [OF assms(3)] assms(2) by auto
  have s: "sint (of_nat r :: u64) = int r" by (rule sint_radix(1) [OF assms(3)])
  have q: "- (2 ^ 63) \<le> sint w sdiv int r \<and> sint w sdiv int r \<le> 0"
  proof -
    have e: "sint w sdiv int r = - ((- sint w) div int r)" using assms(1,2) by (simp add: signed_divide_int_def sgn_if)
    have "0 \<le> (- sint w) div int r" using assms(1,2) by (simp add: pos_imp_zdiv_nonneg_iff)
    moreover have "(- sint w) div int r \<le> - sint w" using assms(1,2) zdiv_mono2 [of "- sint w" 1 "int r"] by simp
    moreover have "- (2 ^ 63) \<le> sint w" using sint_ge [of w] by simp
    ultimately show ?thesis using e by linarith
  qed
  then have "sint (of_int (sint w sdiv int r) :: u64) = sint w sdiv int r"
    by (subst sint_sbintrunc') (simp add: signed_take_bit_int_eq_self)
  with q have n: "\<not> 0 < sint (of_int (sint w sdiv int r) :: u64)" by simp
  have d: "sint w smod int r < 10"
  proof -
    have "sint w smod int r = - ((- sint w) mod int r)" using assms(1,2) by (simp add: signed_modulo_int_def sgn_if)
    moreover have "0 \<le> (- sint w) mod int r" using assms(2) by simp
    ultimately show ?thesis by linarith
  qed
  have "u_itoa_loop upper (of_nat r) w [] = Some [digit_char upper (sint w smod int r)]"
    using u_itoa_loop_step [OF r0, of w "sint w smod int r" "of_int (sint w sdiv int r)" upper "[]"] n by (simp add: s)
  then show ?thesis using assms d by (simp add: u_mini_itoa_def digit_char_def)
qed

section \<open>Agreement with the kernel\<close>

text \<open>
  The formats that both copies read alike: no width without a leading 0, no width above 255, and none for strings.
\<close>

function common :: "u8 list \<Rightarrow> bool" where
  "common [] = True"
| "common (ch # fmt) =
     (if ch \<noteq> 0x25 then common fmt
      else case read_spec fmt of
        (sp, rest) \<Rightarrow> (is_digit (fst (next_ch fmt)) \<longrightarrow> fst (next_ch fmt) = 0x30) \<and> n_pad sp < 256 \<and> (conv sp = 0x73 \<longrightarrow> n_pad sp = 0) \<and> common rest)"
  by pat_completeness auto
termination
  by (relation "measure length") (auto simp: less_Suc_eq_le, metis read_spec_shorter)

lemma u_read_width_eq: "u_read_width fmt (ucast n) = (case read_width fmt n of (k, c, r) \<Rightarrow> (ucast k, c, r))"
proof (induction fmt n rule: read_width.induct)
  case (2 c cs n)
  have "ucast (n * 10 + ucast c - 0x30 :: u32) = (ucast n * 10 + c - 0x30 :: u8)"
    by (rule word_uint_eqI) (simp add: uint_word_ariths unsigned_ucast_eq take_bit_eq_mod mod_mod_cancel mod_simps)
  with 2 show ?case by simp
qed simp

lemma read_pad_cases:
  assumes "is_digit (fst (next_ch fmt)) \<longrightarrow> fst (next_ch fmt) = 0x30" "read_pad fmt = (n, p, c, r)" "n < 256"
  shows "u_read_pad fmt = (n, c, r)" "n = 0 \<or> p = 0x30"
proof -
  obtain ch rest where nx: "next_ch fmt = (ch, rest)" by (cases "next_ch fmt")
  have "u_read_pad fmt = (n, c, r) \<and> (n = 0 \<or> p = 0x30)"
  proof (cases "ch = 0x30")
    case True
    then have f: "fmt = 0x30 # rest" using nx by (cases fmt) auto
    obtain k c' r' where w: "read_width rest 0 = (k, c', r')" by (cases "read_width rest 0")
    have "read_width fmt 0 = (k, c', r')" using w by (simp add: f is_digit_def)
    then have e: "n = unat k" "p = 0x30" "c = c'" "r = r'" using assms(2) by (simp_all add: read_pad_def nx True is_digit_def)
    have "u_read_width rest (ucast (0 :: u32)) = (ucast k, c', r')" unfolding u_read_width_eq w by simp
    moreover have "unat (ucast k :: u8) = n" using assms(3) e(1) by (simp add: unsigned_ucast_eq take_bit_nat_eq_self)
    ultimately show ?thesis using e by (simp add: u_read_pad_def nx True)
  next
    case False
    then have "\<not> is_digit ch" using assms(1) nx by simp
    then show ?thesis using assms(2) False by (simp add: read_pad_def u_read_pad_def nx)
  qed
  then show "u_read_pad fmt = (n, c, r)" "n = 0 \<or> p = 0x30" by simp_all
qed

lemma u_read_spec_eq:
  assumes "is_digit (fst (next_ch fmt)) \<longrightarrow> fst (next_ch fmt) = 0x30" "read_spec fmt = (sp, rest)" "n_pad sp < 256"
  shows "u_read_spec fmt = (sp\<lparr>c_pad := 0x30\<rparr>, rest)" "n_pad sp = 0 \<or> c_pad sp = 0x30"
proof -
  obtain n p c r where a: "read_pad fmt = (n, p, c, r)" by (cases "read_pad fmt")
  obtain l c' r' where b: "read_long c r = (l, c', r')" by (cases "read_long c r")
  have sp: "sp = \<lparr>n_pad = n, c_pad = p, longflag = l, conv = c'\<rparr>" "rest = r'" using assms(2) by (simp_all add: read_spec_def a b)
  have n: "n < 256" using assms(3) sp by simp
  have l: "u_read_long c r = (l, c', r')" using b by (simp add: u_read_long_def read_long_def)
  show "u_read_spec fmt = (sp\<lparr>c_pad := 0x30\<rparr>, rest)" by (simp add: u_read_spec_def read_pad_cases(1) [OF assms(1) a n] l sp)
  show "n_pad sp = 0 \<or> c_pad sp = 0x30" using read_pad_cases(2) [OF assms(1) a n] sp by simp
qed

lemma mini_itoa_pad0: "mini_itoa w r upper unsig 0 c = mini_itoa w r upper unsig 0 c'"
  by (simp add: mini_itoa_def)

lemma u_mini_itoa_pad:
  assumes "2 \<le> r" "r \<le> 16" "0 \<le> sint w \<or> \<not> unsig \<and> sint w \<noteq> - (2 ^ 63)" "n = 0 \<or> c = 0x30"
  shows "u_mini_itoa w r upper unsig n = mini_itoa w r upper unsig n c"
  using u_mini_itoa_eq [OF assms(1-3)] assms(4) mini_itoa_pad0 by metis

lemma u_puts_eq [simp]: "u_puts s len b = puts (Some s) len b"
  by (simp add: u_puts_def puts_def)

lemma u_putc_eq [simp]: "u_putc = putc"
  by (simp add: fun_eq_iff u_putc_def putc_def)

lemma u_put_digits_eq [simp]: "u_put_digits = put_digits"
  by (simp add: fun_eq_iff u_put_digits_def put_digits_def)

lemma low_word_nonneg: "0 \<le> sint (w AND 0xffffffff :: u64)"
proof -
  have "w AND 0xffffffff = take_bit 32 w" by (simp add: take_bit_eq_mask mask_eq_exp_minus_1)
  then have "uint (w AND 0xffffffff) < 2 ^ 32" using take_bit_int_less_exp [of 32 "uint w"] by (simp add: unsigned_take_bit_eq)
  moreover have lo: "- (2 ^ 63) \<le> uint (w AND 0xffffffff)" by (rule order.trans [of _ 0]) simp_all
  ultimately have "signed_take_bit 63 (uint (w AND 0xffffffff)) = uint (w AND 0xffffffff)" by (intro signed_take_bit_int_eq_self lo) simp
  then show ?thesis by (simp add: sint_uint)
qed

lemma take_reg_simps: "take_reg as = Some (w, bs) \<longleftrightarrow> as = Reg w # bs" "take_str as = Some (s, bs) \<longleftrightarrow> as = Str s # bs"
  by (cases as rule: take_reg.cases; simp)+

lemma convert_args: "convert sp args b = Some (args', b') \<Longrightarrow> set args' \<subseteq> set args"
  unfolding convert_def Let_def by (auto simp: bind_Some_iff take_reg_simps split: if_splits)

lemma u_convert_eq:
  assumes "n_pad sp = 0 \<or> c_pad sp = 0x30" "conv sp = 0x73 \<longrightarrow> n_pad sp = 0" "\<forall>w. Reg w \<in> set args \<longrightarrow> 0 \<le> sint w"
  shows "u_convert (sp\<lparr>c_pad := 0x30\<rparr>) args b = convert sp args b"
proof (cases args)
  case Nil
  then show ?thesis by (simp add: u_convert_def convert_def Let_def)
next
  case (Cons a as)
  show ?thesis
  proof (cases a)
    case (Reg w)
    then have w: "0 \<le> sint w" using assms(3) Cons by simp
    have v: "0 \<le> sint (if long then w else w AND 0xffffffff)" "0 \<le> sint (if long then w else scast (ucast w :: u32)) \<or>
       \<not> False \<and> sint (if long then w else scast (ucast w :: u32)) \<noteq> - (2 ^ 63)" for long
      using w low_word_nonneg [of w] scast_range(1) [of "ucast w"] by auto
    have i: "u_mini_itoa (if long then w else w AND 0xffffffff) 10 False True (n_pad sp) = mini_itoa (if long then w else w AND 0xffffffff) 10 False True (n_pad sp) (c_pad sp)"
      "u_mini_itoa (if long then w else w AND 0xffffffff) 16 up True (n_pad sp) = mini_itoa (if long then w else w AND 0xffffffff) 16 up True (n_pad sp) (c_pad sp)"
      "u_mini_itoa (if long then w else scast (ucast w :: u32)) 10 False False (n_pad sp) =
         mini_itoa (if long then w else scast (ucast w :: u32)) 10 False False (n_pad sp) (c_pad sp)" for long up
      using u_mini_itoa_pad [OF _ _ disjI1 [OF v(1)] assms(1)] u_mini_itoa_pad [OF _ _ v(2) assms(1)] by simp_all
    show ?thesis by (simp add: u_convert_def convert_def Let_def Cons Reg i del: if_image_distrib)
  next
    case (Str s)
    show ?thesis using assms(2) by (auto simp: u_convert_def convert_def Let_def Cons Str bind_eq_Some_conv split: option.splits)
  qed
qed

lemma u_vs_loop_eq:
  "common fmt \<Longrightarrow> \<forall>w. Reg w \<in> set args \<longrightarrow> 0 \<le> sint w \<Longrightarrow> u_vs_loop fmt args b = vs_loop fmt args b"
proof (induction fmt args b rule: vs_loop.induct)
  case (2 ch fmt args b)
  obtain sp rest where sp: "read_spec fmt = (sp, rest)" by (cases "read_spec fmt")
  consider "length (buffer b) + 1 \<ge> buffer_len b" | "\<not> length (buffer b) + 1 \<ge> buffer_len b" "ch \<noteq> 0x25" | "\<not> length (buffer b) + 1 \<ge> buffer_len b" "ch = 0x25" by blast
  then show ?case
  proof cases
    case 2
    with "2.IH"(1) "2.prems" show ?thesis by simp
  next
    case 3
    have c: "is_digit (fst (next_ch fmt)) \<longrightarrow> fst (next_ch fmt) = 0x30" "n_pad sp < 256" "conv sp = 0x73 \<longrightarrow> n_pad sp = 0" "common rest"
      using "2.prems"(1) 3(2) sp by simp_all
    note rs = u_read_spec_eq [OF c(1) sp c(2)]
    have cv: "u_convert (sp\<lparr>c_pad := 0x30\<rparr>) args b = convert sp args b" by (rule u_convert_eq [OF rs(2) c(3) "2.prems"(2)])
    show ?thesis
    proof (cases "conv sp = 0 \<or> convert sp args b = None")
      case True
      with 3 show ?thesis by (auto simp: sp rs(1) cv)
    next
      case False
      then obtain args' b' where r: "convert sp args b = Some (args', b')" by auto
      have "\<forall>w. Reg w \<in> set args' \<longrightarrow> 0 \<le> sint w" using convert_args [OF r] "2.prems"(2) by blast
      from "2.IH"(2) [OF 3(1) _ sp [symmetric] _ r refl c(4) this] 3 False show ?thesis by (simp add: sp rs(1) cv r)
    qed
  qed simp
qed simp

section \<open>Properties\<close>

text \<open>
  C39: The user library prints what the kernel prints. For a format that both copies of \<open>mini_vsnprintf\<close> read alike, and arguments that are not negative as 64-bit numbers, \<open>printf\<close> of a user program
  has the result and the effect on the screen that \<open>printk\<close> has, failures included.
\<close>

theorem printf_as_printk:
  assumes "common fmt" "\<forall>w. Reg w \<in> set args \<longrightarrow> 0 \<le> sint w"
  shows "printf fmt args s = printk fmt args s"
proof -
  have "u_mini_vsnprintf 256 fmt args = mini_vsnprintf 256 fmt args"
    using u_vs_loop_eq [OF assms] by (simp add: u_mini_vsnprintf_def mini_vsnprintf_def)
  then show ?thesis
    by (simp add: printf_def vprintf_def printk_def vprintk_def vprint_def output_wrapper_def)
qed

theorem printf_as_printk_witness:
  "printf [0x6e, 0x3d, 0x25, 0x30, 0x34, 0x78, 0x20, 0x25, 0x73] [Reg 255, Str [0x6f, 0x6b]] screen0 =
   printk [0x6e, 0x3d, 0x25, 0x30, 0x34, 0x78, 0x20, 0x25, 0x73] [Reg 255, Str [0x6f, 0x6b]] screen0"
proof (rule printf_as_printk)
  show "common [0x6e, 0x3d, 0x25, 0x30, 0x34, 0x78, 0x20, 0x25, 0x73]"
    by (simp add: read_spec_def read_pad_def read_long_def is_digit_def)
  show "\<forall>w. Reg w \<in> set [Reg 255, Str [0x6f, 0x6b]] \<longrightarrow> 0 \<le> sint w" by auto
qed

end
