(* ===== verification/Strings.thy ===== *)
theory Strings
  imports Prelude
begin

text \<open>
  The memory and string functions of the kernel (\<open>string.c\<close>) and of the user library (\<open>tiny_libc/string.c\<close>), over a
  memory of bytes at 64-bit addresses. \<open>char\<close> is unsigned on this machine. A loop that searches for the end of
  a string need not end; it is a partial function, and \<open>None\<close> means that it does not return.
\<close>

type_synonym mem = "u64 \<Rightarrow> u8"

section \<open>The code\<close>

text \<open>The loops of \<open>memcpy\<close> and of the two directions of \<open>memmove\<close>.\<close>

primrec copy_up :: "nat \<Rightarrow> u64 \<Rightarrow> u64 \<Rightarrow> mem \<Rightarrow> mem" where
  "copy_up 0 d s m = m"
| "copy_up (Suc n) d s m = copy_up n (d + 1) (s + 1) (m(d := m s))"

primrec copy_down :: "nat \<Rightarrow> u64 \<Rightarrow> u64 \<Rightarrow> mem \<Rightarrow> mem" where
  "copy_down 0 d s m = m"
| "copy_down (Suc n) d s m = copy_down n (d - 1) (s - 1) (m(d - 1 := m (s - 1)))"

definition memcpy :: "u64 \<Rightarrow> u64 \<Rightarrow> u64 \<Rightarrow> mem \<Rightarrow> mem" where
  "memcpy dest src len m = copy_up (unat len) dest src m"

definition memmove :: "u64 \<Rightarrow> u64 \<Rightarrow> u64 \<Rightarrow> mem \<Rightarrow> u64 \<times> mem" where
  "memmove dest src count m =
     (dest, if dest \<le> src then copy_up (unat count) dest src m
            else copy_down (unat count) (dest + count) (src + count) m)"

primrec fill :: "nat \<Rightarrow> u64 \<Rightarrow> u8 \<Rightarrow> mem \<Rightarrow> mem" where
  "fill 0 d v m = m"
| "fill (Suc n) d v m = fill n (d + 1) v (m(d := v))"

definition memset :: "u64 \<Rightarrow> u8 \<Rightarrow> u64 \<Rightarrow> mem \<Rightarrow> mem" where
  "memset dest v len m = fill (unat len) dest v m"

definition bzero :: "u64 \<Rightarrow> u64 \<Rightarrow> mem \<Rightarrow> mem" where
  "bzero dest len m = memset dest 0 len m"

text \<open>\<open>bzeropage\<close> stores 64-bit zeros.\<close>

primrec zero_words :: "nat \<Rightarrow> u64 \<Rightarrow> mem \<Rightarrow> mem" where
  "zero_words 0 p m = m"
| "zero_words (Suc n) p m = zero_words n (p + 8) (fill 8 p 0 m)"

definition bzeropage :: "u64 \<Rightarrow> u64 \<Rightarrow> mem \<Rightarrow> mem" where
  "bzeropage dest pages m = zero_words (unat (pages * 4096 div 8)) dest m"

partial_function (option) strlen_from :: "u64 \<Rightarrow> nat \<Rightarrow> mem \<Rightarrow> nat option" where
  "strlen_from src i m = (if m (src + of_nat i) \<noteq> 0 then strlen_from src (Suc i) m else Some i)"

definition strlen :: "u64 \<Rightarrow> mem \<Rightarrow> nat option" where
  "strlen src m = strlen_from src 0 m"

partial_function (option) strcmp :: "u64 \<Rightarrow> u64 \<Rightarrow> mem \<Rightarrow> int option" where
  "strcmp str1 str2 m =
     (if m str1 \<noteq> 0 \<and> m str2 \<noteq> 0
      then if m str1 \<noteq> m str2 then Some (uint (m str1) - uint (m str2)) else strcmp (str1 + 1) (str2 + 1) m
      else Some (uint (m str1) - uint (m str2)))"

fun strncmp_from :: "nat list \<Rightarrow> u64 \<Rightarrow> u64 \<Rightarrow> mem \<Rightarrow> int" where
  "strncmp_from [] str1 str2 m = 0"
| "strncmp_from (i # is) str1 str2 m =
     (let a = m (str1 + of_nat i); b = m (str2 + of_nat i)
      in if a = 0 \<or> a \<noteq> b then uint a - uint b else strncmp_from is str1 str2 m)"

definition strncmp :: "u64 \<Rightarrow> u64 \<Rightarrow> u64 \<Rightarrow> mem \<Rightarrow> int" where
  "strncmp str1 str2 n m = strncmp_from [0 ..< unat n] str1 str2 m"

partial_function (option) strcpy_loop :: "u64 \<Rightarrow> u64 \<Rightarrow> mem \<Rightarrow> mem option" where
  "strcpy_loop dest src m =
     (if m src \<noteq> 0 then strcpy_loop (dest + 1) (src + 1) (m(dest := m src)) else Some (m(dest := 0)))"

definition strcpy :: "u64 \<Rightarrow> u64 \<Rightarrow> mem \<Rightarrow> (u64 \<times> mem) option" where
  "strcpy dest src m = map_option (\<lambda>m. (dest, m)) (strcpy_loop dest src m)"

text \<open>
  The two loops of \<open>strncpy\<close>. The first one ends either at the end of the string or with the test of \<open>n\<close>, which
  decrements \<open>n\<close> below 0 then.
\<close>

function strncpy_copy :: "u64 \<Rightarrow> u64 \<Rightarrow> u64 \<Rightarrow> mem \<Rightarrow> u64 \<times> u64 \<times> mem" where
  "strncpy_copy dest src n m =
     (if m src = 0 then (dest, n, m)
      else if n = 0 then (dest, n - 1, m)
      else strncpy_copy (dest + 1) (src + 1) (n - 1) (m(dest := m src)))"
  by pat_completeness auto
termination
  by (relation "measure (\<lambda>(dest, src, n, m). unat n)") (auto simp: unat_minus_one unat_gt_0)

definition strncpy :: "u64 \<Rightarrow> u64 \<Rightarrow> u64 \<Rightarrow> mem \<Rightarrow> u64 \<times> mem" where
  "strncpy dest src n m = (let (d, n, m) = strncpy_copy dest src n m in (dest, fill (unat n) d 0 m))"

partial_function (option) str_end :: "u64 \<Rightarrow> mem \<Rightarrow> u64 option" where
  "str_end dest m = (if m dest \<noteq> 0 then str_end (dest + 1) m else Some dest)"

definition strcat :: "u64 \<Rightarrow> u64 \<Rightarrow> mem \<Rightarrow> (u64 \<times> mem) option" where
  "strcat dest src m = do {
     d \<leftarrow> str_end dest m;
     m \<leftarrow> strcpy_loop d src m;
     Some (dest, m)
   }"

declare strncpy_copy.simps [simp del]

subsection \<open>The user library\<close>

text \<open>Lengths are 32-bit here, and \<open>strncpy\<close> counts with an \<open>int\<close>.\<close>

definition u_memcpy :: "u64 \<Rightarrow> u64 \<Rightarrow> u32 \<Rightarrow> mem \<Rightarrow> mem" where
  "u_memcpy dest src len m = copy_up (unat len) dest src m"

definition u_memset :: "u64 \<Rightarrow> u8 \<Rightarrow> u32 \<Rightarrow> mem \<Rightarrow> mem" where
  "u_memset dest v len m = fill (unat len) dest v m"

definition u_bzero :: "u64 \<Rightarrow> u32 \<Rightarrow> mem \<Rightarrow> mem" where
  "u_bzero dest len m = u_memset dest 0 len m"

definition u_strlen :: "u64 \<Rightarrow> mem \<Rightarrow> nat option" where
  "u_strlen src m = strlen_from src 0 m"

partial_function (option) u_strcmp :: "u64 \<Rightarrow> u64 \<Rightarrow> mem \<Rightarrow> int option" where
  "u_strcmp str1 str2 m =
     (if m str1 \<noteq> 0 \<and> m str2 \<noteq> 0
      then if m str1 \<noteq> m str2 then Some (uint (m str1) - uint (m str2)) else u_strcmp (str1 + 1) (str2 + 1) m
      else Some (uint (m str1) - uint (m str2)))"

definition u_strncmp :: "u64 \<Rightarrow> u64 \<Rightarrow> u32 \<Rightarrow> mem \<Rightarrow> int" where
  "u_strncmp str1 str2 n m = strncmp_from [0 ..< unat n] str1 str2 m"

definition u_strcpy :: "u64 \<Rightarrow> u64 \<Rightarrow> mem \<Rightarrow> (u64 \<times> mem) option" where
  "u_strcpy dest src m = map_option (\<lambda>m. (dest, m)) (strcpy_loop dest src m)"

function u_strncpy_copy :: "u64 \<Rightarrow> u64 \<Rightarrow> int \<Rightarrow> mem \<Rightarrow> u64 \<times> int \<times> mem" where
  "u_strncpy_copy dest src n m =
     (if m src = 0 then (dest, n, m)
      else if n \<le> 0 then (dest, n - 1, m)
      else u_strncpy_copy (dest + 1) (src + 1) (n - 1) (m(dest := m src)))"
  by pat_completeness auto
termination
  by (relation "measure (\<lambda>(dest, src, n, m). nat n)") auto

definition u_strncpy :: "u64 \<Rightarrow> u64 \<Rightarrow> int \<Rightarrow> mem \<Rightarrow> u64 \<times> mem" where
  "u_strncpy dest src n m = (let (d, n, m) = u_strncpy_copy dest src n m in (dest, fill (nat n) d 0 m))"

definition u_strcat :: "u64 \<Rightarrow> u64 \<Rightarrow> mem \<Rightarrow> (u64 \<times> mem) option" where
  "u_strcat dest src m = do {
     d \<leftarrow> str_end dest m;
     m \<leftarrow> strcpy_loop d src m;
     Some (dest, m)
   }"

function strrev_loop :: "u64 \<Rightarrow> int \<Rightarrow> int \<Rightarrow> mem \<Rightarrow> mem" where
  "strrev_loop str i j m =
     (if i < j
      then strrev_loop str (i + 1) (j - 1)
        (m(str + of_int i := m (str + of_int j), str + of_int j := m (str + of_int i)))
      else m)"
  by pat_completeness auto
termination
  by (relation "measure (\<lambda>(str, i, j, m). nat (j - i))") auto

definition strrev :: "u64 \<Rightarrow> mem \<Rightarrow> mem option" where
  "strrev str m = do {
     len \<leftarrow> u_strlen str m;
     Some (strrev_loop str 0 (int len - 1) m)
   }"

declare u_strncpy_copy.simps [simp del] strrev_loop.simps [simp del]

section \<open>Copies and fills\<close>

text \<open>\<open>n\<close> bytes at \<open>d\<close> replaced by the values of \<open>f\<close>; distances are taken modulo the address space.\<close>

definition put :: "u64 \<Rightarrow> nat \<Rightarrow> (nat \<Rightarrow> u8) \<Rightarrow> mem \<Rightarrow> mem" where
  "put d n f m = (\<lambda>x. if unat (x - d) < n then f (unat (x - d)) else m x)"

lemma dist_Suc: "x \<noteq> d \<Longrightarrow> unat (x - d) = Suc (unat (x - (d + 1)))" for x d :: u64
proof -
  assume "x \<noteq> d"
  then have "x - d \<noteq> 0" by simp
  then have "unat (x - d - 1) = unat (x - d) - 1" "0 < unat (x - d)" by (simp_all add: unat_minus_one unat_gt_0)
  then show ?thesis by (simp add: diff_diff_eq)
qed

lemma dist_wrap: "unat (- 1 :: u64) = 2 ^ 64 - 1"
  by (simp add: unsigned_minus_1_eq_mask mask_eq_exp_minus_1)

lemma put_Suc:
  assumes "n < 2 ^ 64"
  shows "put d (Suc n) f m = put (d + 1) n (\<lambda>i. f (Suc i)) (m(d := f 0))"
proof (rule ext)
  fix x
  show "put d (Suc n) f m x = put (d + 1) n (\<lambda>i. f (Suc i)) (m(d := f 0)) x"
  proof (cases "x = d")
    case True
    with assms show ?thesis by (simp add: put_def dist_wrap)
  next
    case False
    with dist_Suc [OF False] show ?thesis by (simp add: put_def)
  qed
qed

lemma put_0 [simp]: "put d 0 f m = m"
  by (simp add: put_def)

lemma put_cong: "(\<And>i. i < n \<Longrightarrow> f i = g i) \<Longrightarrow> put d n f m = put d n g m"
  by (auto simp: put_def)

lemma addr_eq: "n \<le> 2 ^ 64 \<Longrightarrow> i < n \<Longrightarrow> j < n \<Longrightarrow> a + of_nat i = (a + of_nat j :: u64) \<longleftrightarrow> i = j"
proof -
  assume a: "n \<le> 2 ^ 64" "i < n" "j < n"
  have "unat (of_nat i :: u64) = i" "unat (of_nat j :: u64) = j"
    using a by (simp_all add: unat_of_nat)
  then show ?thesis by (metis add_left_cancel)
qed

text \<open>A copy upwards, if no byte is read after it was overwritten.\<close>

lemma copy_up_eq:
  "n \<le> 2 ^ 64 \<Longrightarrow> (\<And>j. 0 < j \<Longrightarrow> j < n \<Longrightarrow> s + of_nat j \<noteq> d) \<Longrightarrow> copy_up n d s m = put d n (\<lambda>i. m (s + of_nat i)) m"
proof (induction n arbitrary: d s m)
  case (Suc n)
  have "s + 1 + of_nat j \<noteq> d + 1" if "0 < j" "j < n" for j
    using Suc.prems(2) [of j] that by (simp add: add.commute add.left_commute)
  then have "copy_up n (d + 1) (s + 1) (m(d := m s)) = put (d + 1) n (\<lambda>i. (m(d := m s)) (s + 1 + of_nat i)) (m(d := m s))"
    using Suc.prems(1) by (intro Suc.IH) auto
  also have "\<dots> = put (d + 1) n (\<lambda>i. m (s + of_nat (Suc i))) (m(d := m s))"
    using Suc.prems(2) [of "Suc _"] by (intro put_cong) (simp add: add.assoc)
  also have "\<dots> = put d (Suc n) (\<lambda>i. m (s + of_nat i)) m"
    using Suc.prems(1) by (subst put_Suc) simp_all
  finally show ?case by simp
qed simp

lemma put_last:
  assumes "n < 2 ^ 64"
  shows "put d (Suc n) f m = put d n f (m(d + of_nat n := f n))"
proof (rule ext)
  fix x
  have u: "unat (of_nat n :: u64) = n" using assms by (simp add: unat_of_nat)
  have "x = d + of_nat n \<longleftrightarrow> x - d = of_nat n" by (auto simp: algebra_simps)
  then have "x = d + of_nat n \<longleftrightarrow> unat (x - d) = n" using u by (simp add: word_unat_eq_iff [of "x - d"])
  then show "put d (Suc n) f m x = put d n f (m(d + of_nat n := f n)) x" by (auto simp: put_def less_Suc_eq)
qed

lemma copy_down_eq:
  "n \<le> 2 ^ 64 \<Longrightarrow> (\<And>j. 0 < j \<Longrightarrow> j < n \<Longrightarrow> d + of_nat j \<noteq> s) \<Longrightarrow>
     copy_down n (d + of_nat n) (s + of_nat n) m = put d n (\<lambda>i. m (s + of_nat i)) m"
proof (induction n arbitrary: m)
  case (Suc n)
  let ?m = "m(d + of_nat n := m (s + of_nat n))"
  have "copy_down (Suc n) (d + of_nat (Suc n)) (s + of_nat (Suc n)) m = copy_down n (d + of_nat n) (s + of_nat n) ?m"
    by (simp add: algebra_simps)
  also have "\<dots> = put d n (\<lambda>i. ?m (s + of_nat i)) ?m" by (rule Suc.IH) (use Suc.prems in auto)
  also have "\<dots> = put d n (\<lambda>i. m (s + of_nat i)) ?m"
  proof (rule put_cong)
    fix i assume i: "i < n"
    have "d + of_nat (n - i) \<noteq> s" by (rule Suc.prems(2)) (use i in auto)
    then have "s + of_nat i \<noteq> d + of_nat n" using i by (auto simp: of_nat_diff algebra_simps)
    then show "?m (s + of_nat i) = m (s + of_nat i)" by simp
  qed
  also have "\<dots> = put d (Suc n) (\<lambda>i. m (s + of_nat i)) m" using Suc.prems(1) by (simp add: put_last)
  finally show ?case .
qed simp

lemma fill_eq: "n \<le> 2 ^ 64 \<Longrightarrow> fill n d v m = put d n (\<lambda>_. v) m"
proof (induction n arbitrary: d m)
  case (Suc n)
  then show ?case by (simp add: put_Suc)
qed simp

section \<open>Strings\<close>

text \<open>The bytes \<open>xs\<close> and a terminating 0 at \<open>a\<close>.\<close>

definition cstr :: "mem \<Rightarrow> u64 \<Rightarrow> u8 list \<Rightarrow> bool" where
  "cstr m a xs \<longleftrightarrow> (\<forall>i<length xs. m (a + of_nat i) = xs ! i) \<and> m (a + of_nat (length xs)) = 0 \<and> 0 \<notin> set xs"

lemma cstr_Nil [simp]: "cstr m a [] \<longleftrightarrow> m a = 0"
  by (simp add: cstr_def)

lemma cstr_Cons [simp]: "cstr m a (x # xs) \<longleftrightarrow> m a = x \<and> x \<noteq> 0 \<and> cstr m (a + 1) xs"
proof -
  have "(\<forall>i<length (x # xs). m (a + of_nat i) = (x # xs) ! i) \<longleftrightarrow> m a = x \<and> (\<forall>i<length xs. m (a + 1 + of_nat i) = xs ! i)"
    by (simp add: All_less_Suc2 add.assoc)
  then show ?thesis by (auto simp: cstr_def add.assoc)
qed

lemma strlen_from_eq: "cstr m (src + of_nat i) xs \<Longrightarrow> strlen_from src i m = Some (i + length xs)"
proof (induction xs arbitrary: i)
  case Nil
  then show ?case by (subst strlen_from.simps) simp
next
  case (Cons x xs)
  have "cstr m (src + of_nat (Suc i)) xs" using Cons.prems by (simp add: ac_simps)
  from Cons.IH [OF this] Cons.prems show ?case by (subst strlen_from.simps) auto
qed

lemma uint_pos: "c \<noteq> 0 \<Longrightarrow> 0 < uint c" for c :: u8
  by (simp add: less_le) (metis unsigned_eq_0_iff)

lemma strcmp_eq:
  assumes "cstr m a xs" "cstr m b ys"
  shows "\<exists>r. strcmp a b m = Some r \<and> (r = 0 \<longleftrightarrow> xs = ys) \<and> (r < 0 \<longleftrightarrow> (xs, ys) \<in> lexord {(c, d). c < d})"
  using assms
proof (induction xs arbitrary: a b ys)
  case Nil
  then show ?case
  proof (cases ys)
    case (Cons y ys')
    with Nil have "0 < uint y" by (simp add: uint_pos)
    with Nil Cons show ?thesis by (subst strcmp.simps) simp
  qed (subst strcmp.simps, simp)
next
  case (Cons x xs)
  show ?case
  proof (cases ys)
    case Nil
    with Cons.prems have "0 < uint x" by (simp add: uint_pos)
    with Nil Cons.prems show ?thesis by (subst strcmp.simps) simp
  next
    case (Cons y ys')
    show ?thesis
    proof (cases "x = y")
      case True
      have "cstr m (a + 1) xs" "cstr m (b + 1) ys'" using Cons.prems Cons by simp_all
      from Cons.IH [OF this] True Cons Cons.prems show ?thesis by (subst strcmp.simps) auto
    next
      case False
      then have "uint x \<noteq> uint y" by (simp add: word_uint_eq_iff)
      with False Cons Cons.prems show ?thesis by (subst strcmp.simps) (auto simp: word_less_def)
    qed
  qed
qed

text \<open>The copy of a string into a place apart from it.\<close>

definition apart :: "u64 \<Rightarrow> u64 \<Rightarrow> nat \<Rightarrow> bool" where
  "apart d s n \<longleftrightarrow> n \<le> 2 ^ 64 \<and> (\<forall>i<n. \<forall>j<n. d + of_nat i \<noteq> s + of_nat j)"

lemma apart_Suc: "apart d s (Suc n) \<Longrightarrow> apart (d + 1) (s + 1) n"
  unfolding apart_def
proof (intro conjI allI impI)
  assume a: "Suc n \<le> 2 ^ 64 \<and> (\<forall>i<Suc n. \<forall>j<Suc n. d + of_nat i \<noteq> s + of_nat j)"
  then show "n \<le> 2 ^ 64" by simp
  fix i j assume "i < n" "j < n"
  then have "d + of_nat (Suc i) \<noteq> s + of_nat (Suc j)" using a by blast
  then show "d + 1 + of_nat i \<noteq> s + 1 + of_nat j" by (simp add: add.assoc)
qed

lemma cstr_upd:
  assumes "cstr m s xs" "\<And>i. i \<le> length xs \<Longrightarrow> s + of_nat i \<noteq> d"
  shows "cstr (m(d := v)) s xs"
  using assms by (auto simp: cstr_def)

lemma cstr_next:
  assumes "apart d s (Suc (length (x # xs)))" "cstr m s (x # xs)"
  shows "cstr (m(d := v)) (s + 1) xs"
proof (rule cstr_upd)
  show "cstr m (s + 1) xs" using assms(2) by simp
  fix i assume "i \<le> length xs"
  then have "Suc i < Suc (length (x # xs))" "0 < Suc (length (x # xs))" by simp_all
  then have "d + of_nat 0 \<noteq> s + of_nat (Suc i)" using assms(1) unfolding apart_def by blast
  then show "s + 1 + of_nat i \<noteq> d" by (auto simp: add.assoc)
qed

lemma strcpy_loop_eq:
  "cstr m s xs \<Longrightarrow> apart d s (Suc (length xs)) \<Longrightarrow> strcpy_loop d s m = Some (put d (Suc (length xs)) (\<lambda>i. (xs @ [0]) ! i) m)"
proof (induction xs arbitrary: d s m)
  case Nil
  then show ?case by (subst strcpy_loop.simps) (simp add: put_Suc)
next
  case (Cons x xs)
  let ?m = "m(d := x)"
  have "cstr ?m (s + 1) xs" by (rule cstr_next [OF _ Cons.prems(1)]) (use Cons.prems(2) in simp)
  moreover have "apart (d + 1) (s + 1) (Suc (length xs))" using apart_Suc Cons.prems(2) by simp
  ultimately have "strcpy_loop (d + 1) (s + 1) ?m = Some (put (d + 1) (Suc (length xs)) (\<lambda>i. (xs @ [0]) ! i) ?m)" by (rule Cons.IH)
  moreover have "put d (Suc (length (x # xs))) (\<lambda>i. ((x # xs) @ [0]) ! i) m = put (d + 1) (Suc (length xs)) (\<lambda>i. (xs @ [0]) ! i) ?m"
    using Cons.prems(2) by (subst put_Suc) (simp_all add: apart_def)
  ultimately show ?case using Cons.prems(1) by (subst strcpy_loop.simps) simp
qed

lemma put_cstr:
  assumes "0 \<notin> set xs" "Suc (length xs) \<le> 2 ^ 64"
  shows "cstr (put d (Suc (length xs)) (\<lambda>i. (xs @ [0]) ! i) m) d xs"
proof -
  have "unat (of_nat i :: u64) = i" if "i \<le> length xs" for i using that assms(2) by (simp add: unat_of_nat)
  with assms(1) show ?thesis by (simp add: cstr_def put_def nth_append)
qed

lemma strncpy_copy_eq:
  assumes "cstr m s xs" "apart d s (Suc (length xs))"
  shows "strncpy_copy d s n m =
    (if length xs \<le> unat n then (d + of_nat (length xs), n - of_nat (length xs), put d (length xs) (\<lambda>i. xs ! i) m)
     else (d + n, - 1, put d (unat n) (\<lambda>i. xs ! i) m))"
  using assms
proof (induction xs arbitrary: d s n m)
  case Nil
  then show ?case by (subst strncpy_copy.simps) simp
next
  case (Cons x xs)
  let ?m = "m(d := x)"
  show ?case
  proof (cases "n = 0")
    case True
    with Cons.prems(1) show ?thesis by (subst strncpy_copy.simps) simp
  next
    case False
    have c: "cstr ?m (s + 1) xs" by (rule cstr_next [OF _ Cons.prems(1)]) (use Cons.prems(2) in simp)
    have a: "apart (d + 1) (s + 1) (Suc (length xs))" using apart_Suc Cons.prems(2) by simp
    have u: "unat n = Suc (unat (n - 1))" using False by (simp add: unat_minus_one unat_gt_0)
    have l: "length xs < 2 ^ 64" "unat (n - 1) < 2 ^ 64" using Cons.prems(2) unsigned_less [of "n - 1", where 'a = nat] by (simp_all add: apart_def)
    have p: "put d (Suc k) (\<lambda>i. (x # xs) ! i) m = put (d + 1) k (\<lambda>i. xs ! i) ?m" if "k < 2 ^ 64" for k
      using that by (subst put_Suc) simp_all
    have "strncpy_copy d s n m = strncpy_copy (d + 1) (s + 1) (n - 1) ?m"
      using False Cons.prems(1) by (subst strncpy_copy.simps) simp
    also note Cons.IH [OF c a, of "n - 1"]
    finally show ?thesis using l by (simp add: u p algebra_simps)
  qed
qed

lemma unat_small: "k < 2 ^ 64 \<Longrightarrow> unat (of_nat k :: u64) = k"
  by (simp add: unat_of_nat)

lemma put_append:
  assumes "a + b \<le> 2 ^ 64"
  shows "put (d + of_nat a) b (\<lambda>i. f (a + i)) (put d a f m) = put d (a + b) f m"
proof (rule ext)
  fix x
  let ?k = "unat (x - d)"
  have k: "?k < 2 ^ 64" using unsigned_less [of "x - d", where 'a = nat] by simp
  show "put (d + of_nat a) b (\<lambda>i. f (a + i)) (put d a f m) x = put d (a + b) f m x"
  proof (cases "a \<le> ?k")
    case True
    have "x - (d + of_nat a) = of_nat (?k - a)" using True by (simp add: of_nat_diff algebra_simps)
    then have "unat (x - (d + of_nat a)) = unat (of_nat (?k - a) :: u64)" by (simp only:)
    also have "\<dots> = ?k - a" using k by (intro unat_small) linarith
    finally have "unat (x - (d + of_nat a)) = ?k - a" .
    with True show ?thesis by (auto simp: put_def)
  next
    case False
    have z: "of_nat (2 ^ 64) = (0 :: u64)" by (simp only: word_of_nat_eq_0_iff) simp
    have "of_nat (2 ^ 64 + ?k - a) = (of_nat (2 ^ 64) + of_nat ?k - of_nat a :: u64)"
      using assms by (subst of_nat_diff, linarith) (simp only: of_nat_add)
    then have "x - (d + of_nat a) = of_nat (2 ^ 64 + ?k - a)" unfolding z by (simp add: algebra_simps)
    then have "unat (x - (d + of_nat a)) = unat (of_nat (2 ^ 64 + ?k - a) :: u64)" by (simp only:)
    also have "\<dots> = 2 ^ 64 + ?k - a" using k False by (intro unat_small) linarith
    finally have "unat (x - (d + of_nat a)) = 2 ^ 64 + ?k - a" .
    moreover have "\<not> 2 ^ 64 + ?k - a < b" using assms by linarith
    ultimately show ?thesis using False by (simp add: put_def)
  qed
qed

lemma no_overlap_up:
  fixes d s :: u64
  assumes "d \<le> s" "unat s + n \<le> 2 ^ 64" "0 < j" "j < n"
  shows "s + of_nat j \<noteq> d"
proof
  assume e: "s + of_nat j = d"
  have "unat (s + of_nat j) = unat s + j" using assms(2,4) by (simp add: unat_word_ariths unat_of_nat)
  with e assms(1,3) show False by (simp add: word_le_nat_alt)
qed

lemma cstr_put_other:
  assumes "cstr m s xs" "apart d s (Suc (length xs))"
  shows "cstr (put d (Suc (length xs)) f m) s xs"
proof -
  have "put d (Suc (length xs)) f m (s + of_nat i) = m (s + of_nat i)" if "i \<le> length xs" for i
  proof -
    have "\<not> unat (s + of_nat i - d) < Suc (length xs)"
    proof
      assume a: "unat (s + of_nat i - d) < Suc (length xs)"
      have "d + of_nat (unat (s + of_nat i - d)) = s + of_nat i" by simp
      moreover have "d + of_nat (unat (s + of_nat i - d)) \<noteq> s + of_nat i"
        using assms(2) a that unfolding apart_def by (metis less_Suc_eq_le)
      ultimately show False by simp
    qed
    then show ?thesis by (simp add: put_def)
  qed
  with assms(1) show ?thesis by (simp add: cstr_def)
qed

section \<open>Properties\<close>

text \<open>
  C26: \<open>memmove\<close> copies also between overlapping areas: for two areas inside the address space, the destination
  afterwards holds the bytes that the source held before, and no other byte changes.
\<close>

theorem memmove_correct:
  assumes "unat dest + unat count \<le> 2 ^ 64" "unat src + unat count \<le> 2 ^ 64"
  shows "memmove dest src count m = (dest, \<lambda>x. if unat (x - dest) < unat count then m (src + (x - dest)) else m x)"
proof -
  let ?n = "unat count"
  have n: "?n \<le> 2 ^ 64" using assms(1) by linarith
  have spec: "put dest ?n (\<lambda>i. m (src + of_nat i)) m = (\<lambda>x. if unat (x - dest) < ?n then m (src + (x - dest)) else m x)"
    by (simp add: put_def cong: if_cong)
  show ?thesis
  proof (cases "dest \<le> src")
    case True
    have "copy_up ?n dest src m = put dest ?n (\<lambda>i. m (src + of_nat i)) m"
      by (rule copy_up_eq [OF n no_overlap_up [OF True assms(2)]])
    with True spec show ?thesis by (simp add: memmove_def)
  next
    case False
    then have "src \<le> dest" by simp
    from copy_down_eq [OF n no_overlap_up [OF this assms(1)], of m] False spec show ?thesis by (simp add: memmove_def)
  qed
qed

theorem memmove_correct_witness: "snd (memmove 1 0 3 (\<lambda>x. ucast x)) 2 = 1"
  by (subst memmove_correct) simp_all

text \<open>
  \<open>strcpy\<close> of a string into a place apart from it returns, and the copy has the length of the original and compares
  equal to it; nothing beyond the terminating 0 is written.
\<close>

theorem strcpy_copies:
  assumes "cstr m src xs" "apart dest src (Suc (length xs))"
  shows "\<exists>m'. strcpy dest src m = Some (dest, m') \<and> cstr m' dest xs \<and> strlen dest m' = Some (length xs) \<and>
    strcmp dest src m' = Some 0 \<and> (\<forall>x. length xs < unat (x - dest) \<longrightarrow> m' x = m x)"
proof -
  let ?m = "put dest (Suc (length xs)) (\<lambda>i. (xs @ [0]) ! i) m"
  have c: "cstr ?m dest xs" using assms by (intro put_cstr) (simp_all add: cstr_def apart_def)
  have s: "cstr ?m src xs" by (rule cstr_put_other [OF assms])
  have "strlen dest ?m = Some (length xs)" using strlen_from_eq [of ?m dest 0 xs] c by (simp add: strlen_def)
  moreover have "strcmp dest src ?m = Some 0" using strcmp_eq [OF c s] by auto
  moreover have "strcpy dest src m = Some (dest, ?m)" by (simp add: strcpy_def strcpy_loop_eq [OF assms])
  moreover have "\<forall>x. length xs < unat (x - dest) \<longrightarrow> ?m x = m x" by (simp add: put_def)
  ultimately show ?thesis using c by blast
qed

theorem strcpy_copies_witness:
  "\<exists>m'. strcpy 100 0 (\<lambda>x. if x = 0 then 65 else 0) = Some (100, m') \<and> cstr m' 100 [65]"
proof -
  have "apart 100 0 (Suc (length [65 :: u8]))" by (simp add: apart_def All_less_Suc2)
  from strcpy_copies [OF _ this, of "\<lambda>x. if x = 0 then 65 else 0"] show ?thesis by auto
qed

text \<open>
  \<open>strcmp\<close> of two strings agrees with the lexicographic order of their bytes, taken as unsigned: it is 0 exactly for
  equal strings and negative exactly if the first one comes first. The copy of the user library computes the same.
\<close>

theorem strcmp_lexicographic:
  assumes "cstr m a xs" "cstr m b ys"
  shows "\<exists>r. strcmp a b m = Some r \<and> u_strcmp a b m = Some r \<and> (r = 0 \<longleftrightarrow> xs = ys) \<and> (r < 0 \<longleftrightarrow> (xs, ys) \<in> lexord {(c, d). c < d})"
proof -
  have "u_strcmp a b m = strcmp a b m"
    using assms
  proof (induction xs arbitrary: a b ys)
    case Nil
    then show ?case by (subst u_strcmp.simps, subst strcmp.simps) simp
  next
    case (Cons x xs)
    then show ?case
    proof (cases ys)
      case (Cons y ys')
      with Cons.prems Cons.IH [of "a + 1" "b + 1" ys'] show ?thesis by (subst u_strcmp.simps, subst strcmp.simps) simp
    qed (subst u_strcmp.simps, subst strcmp.simps, simp)
  qed
  with strcmp_eq [OF assms] show ?thesis by simp
qed

theorem strcmp_lexicographic_witness:
  "\<exists>r. strcmp 0 1 (\<lambda>x. if x = 0 then 65 else 0) = Some r \<and> r \<noteq> 0 \<and> \<not> r < 0"
  using strcmp_lexicographic [of "\<lambda>x. if x = 0 then 65 else 0" 0 "[65]" 1 "[]"] by auto

text \<open>
  What the kernel's \<open>strncpy\<close> does with a string apart from its destination. If the string fits into \<open>n\<close> bytes, it is
  copied and padded with zeros to \<open>n\<close> bytes, and nothing else changes. If it is longer than \<open>n\<close>, the counter wraps
  around and the loop that should pad clears the whole address space but for the last byte copied.
\<close>

theorem strncpy_effect:
  assumes "cstr m src xs" "apart dest src (Suc (length xs))"
  shows "strncpy dest src n m = (dest,
    if length xs \<le> unat n
    then (\<lambda>x. if unat (x - dest) < unat n then if unat (x - dest) < length xs then xs ! unat (x - dest) else 0 else m x)
    else (\<lambda>x. if x \<noteq> dest + n - 1 then 0 else if n = 0 then m x else xs ! (unat n - 1)))"
proof (cases "length xs \<le> unat n")
  case True
  let ?f = "\<lambda>i. if i < length xs then xs ! i else 0" and ?l = "length xs"
  have u: "unat (n - of_nat ?l) = unat n - ?l" "unat n < 2 ^ 64"
    using True unsigned_less [of n, where 'a = nat] by (simp_all add: unat_sub_if' unat_of_nat)
  have "put dest ?l (\<lambda>i. xs ! i) m = put dest ?l ?f m" by (rule put_cong) simp
  then have "fill (unat n - ?l) (dest + of_nat ?l) 0 (put dest ?l (\<lambda>i. xs ! i) m) =
      put (dest + of_nat ?l) (unat n - ?l) (\<lambda>i. ?f (?l + i)) (put dest ?l ?f m)"
    using u(2) by (simp add: fill_eq)
  also have "\<dots> = put dest (unat n) ?f m" using put_append [of ?l "unat n - ?l" dest ?f m] True u(2) by simp
  finally show ?thesis using True u(1) by (simp add: strncpy_def strncpy_copy_eq [OF assms] put_def)
next
  case False
  let ?m = "put dest (unat n) (\<lambda>i. xs ! i) m"
  have "fill (2 ^ 64 - 1) (dest + n) 0 ?m x = (if x \<noteq> dest + n - 1 then 0 else ?m x)" for x
  proof -
    have "unat (x - (dest + n)) < 2 ^ 64 - 1 \<longleftrightarrow> x - (dest + n) \<noteq> - 1"
      using dist_wrap unsigned_less [of "x - (dest + n)", where 'a = nat] by (auto simp: word_unat_eq_iff)
    moreover have "x - (dest + n) = - 1 \<longleftrightarrow> x = dest + n - 1" by (auto simp: algebra_simps)
    ultimately show ?thesis by (simp add: fill_eq put_def)
  qed
  moreover have "?m (dest + n - 1) = (if n = 0 then m (dest + n - 1) else xs ! (unat n - 1))"
    by (simp add: put_def unat_minus_one unat_gt_0)
  ultimately show ?thesis using False
    by (simp add: strncpy_def strncpy_copy_eq [OF assms] dist_wrap fun_eq_iff)
qed

theorem strncpy_effect_witness: "snd (strncpy 100 0 1 (\<lambda>x. if x < 2 then 65 else if x = 7 then 9 else 0)) 7 = 0"
proof -
  have "apart 100 0 (Suc (length [65, 65 :: u8]))" by (simp add: apart_def All_less_Suc2)
  from strncpy_effect [OF _ this, of "\<lambda>x. if x < 2 then 65 else if x = 7 then 9 else 0" 1] show ?thesis by simp
qed

end
