(* ===== verification/UserNum.thy ===== *)
theory UserNum
  imports Strings Format
begin

text \<open>
  The number conversions of the user library (\<open>tiny_libc/atoi.c\<close>, \<open>tiny_libc/itoa.c\<close>), its random numbers (\<open>tiny_libc/rand.c\<close>) and the checksum and test data of the mailbox programs
  (\<open>tiny_libc/mailbox.c\<close>), over the memory of the theory Strings. Arithmetic on \<open>int\<close> and \<open>long\<close> wraps around.
\<close>

section \<open>The code\<close>

definition isspace :: "u8 \<Rightarrow> bool" where
  "isspace ch \<longleftrightarrow> ch = 0x20 \<or> ch = 0x09 \<or> ch = 0x0a \<or> ch = 0x0b \<or> ch = 0x0c \<or> ch = 0x0d"

text \<open>The loop over the digits. \<open>Some None\<close> is the return of 0 at a byte that is no digit.\<close>

partial_function (option) atol_loop :: "u64 \<Rightarrow> u64 \<Rightarrow> u64 \<Rightarrow> mem \<Rightarrow> u64 option option" where
  "atol_loop base ret str m =
     (let c = m str
      in if c = 0 then Some (Some ret)
         else if is_digit c then atol_loop base (ret * base + (ucast c - 0x30)) (str + 1) m
         else if base = 16
         then if 0x61 \<le> c \<and> c \<le> 0x66 then atol_loop base (ret * base + (ucast c - 0x61 + 10)) (str + 1) m
              else if 0x41 \<le> c \<and> c \<le> 0x46 then atol_loop base (ret * base + (ucast c - 0x41 + 10)) (str + 1) m
              else Some None
         else Some None)"

text \<open>The loop that should skip leading blanks does not move on: with one it does not end.\<close>

definition atol :: "u64 \<Rightarrow> mem \<Rightarrow> u64 option" where
  "atol str m =
     (let c = m str
      in if str = 0 then Some 0
         else if isspace c then None
         else if c = 0x2b \<or> c = 0x2d \<or> is_digit c
         then let negative = (c = 0x2d);
                  str = (if is_digit c then str else str + 1);
                  hex = (m str = 0x30 \<and> (m (str + 1) = 0x78 \<or> m (str + 1) = 0x58));
                  base = (if hex then 16 else 10);
                  str = (if hex then str + 2 else str)
              in do {
                r \<leftarrow> atol_loop base 0 str m;
                Some (case r of None \<Rightarrow> 0 | Some ret \<Rightarrow> if negative then - ret else ret)
              }
         else Some 0)"

definition atoi :: "u64 \<Rightarrow> mem \<Rightarrow> u32 option" where
  "atoi str m = map_option ucast (atol str m)"

function itoa_digits :: "u64 \<Rightarrow> u32 \<Rightarrow> int \<Rightarrow> u32 \<Rightarrow> int \<Rightarrow> mem \<Rightarrow> (u32 \<times> int \<times> mem) option" where
  "itoa_digits str base len sm i m =
     (if base = 0 then None
      else let digit = sint sm smod sint base;
               m = m(str + of_int i := of_int (if digit < 10 then 48 + digit else 65 + digit - 10));
               sm = of_int (sint sm sdiv sint base);
               i = i + 1
           in if sm \<noteq> 0 \<and> i < len - 1 then itoa_digits str base len sm i m else Some (sm, i, m))"
  by pat_completeness auto
termination
  by (relation "measure (\<lambda>(str, base, len, sm, i, m). nat (len - i))") auto

declare itoa_digits.simps [simp del]

definition itoa :: "u32 \<Rightarrow> u64 \<Rightarrow> int \<Rightarrow> u32 \<Rightarrow> mem \<Rightarrow> (int \<times> mem) option" where
  "itoa num str len base m =
     (if len = 0 then Some (- 1, m)
      else do {
        (sm, i, m) \<leftarrow> itoa_digits str base len num 0 m;
        if i = len - 1 \<and> sm \<noteq> 0 then Some (- 1, m)
        else do {
          m \<leftarrow> strrev str (m(str + of_int i := 0));
          Some (0, m)
        }
      })"

definition srand :: "u32 \<Rightarrow> u32" where
  "srand seed = seed"

text \<open>The result is also the next state.\<close>

definition rand :: "u32 \<Rightarrow> u32" where
  "rand x = ucast (0x5deece66d * scast x + 0xb AND 0x7fffffff :: u64)"

primrec adler_loop :: "nat \<Rightarrow> u64 \<Rightarrow> u32 \<Rightarrow> u32 \<Rightarrow> mem \<Rightarrow> u32 \<times> u32" where
  "adler_loop 0 p a b m = (a, b)"
| "adler_loop (Suc n) p a b m = (let a = (a + ucast (m p)) mod 65521; b = (b + a) mod 65521 in adler_loop n (p + 1) a b m)"

definition adler32 :: "u64 \<Rightarrow> u64 \<Rightarrow> mem \<Rightarrow> u32" where
  "adler32 data len m = (let (a, b) = adler_loop (unat len) data 1 0 m in push_bit 16 b OR a)"

text \<open>The size of the array counts the terminating 0, so 0 is one of the bytes that are drawn.\<close>

definition alpha :: "u8 list" where
  "alpha = map of_nat ([97 ..< 123] @ [65 ..< 91] @ [48 ..< 58]) @
     [0x2d, 0x3d, 0x7b, 0x7d, 0x3b, 0x7c, 0x5b, 0x5d, 0x2c, 0x2e, 0x2f, 0x3c, 0x3e, 0x3f, 0x21, 0x40, 0x23, 0x24, 0x25, 0x5e, 0x26, 0x2a, 0]"

primrec random_bytes :: "nat \<Rightarrow> u64 \<Rightarrow> u32 \<Rightarrow> mem \<Rightarrow> u32 \<times> mem" where
  "random_bytes 0 buf x m = (x, m)"
| "random_bytes (Suc i) buf x m = (let x = rand x in random_bytes i buf x (m(buf + of_nat i := alpha ! (unat x mod length alpha))))"

definition generateRandomString :: "u64 \<Rightarrow> int \<Rightarrow> u32 \<Rightarrow> mem \<Rightarrow> u32 \<times> mem" where
  "generateRandomString buf len x m = random_bytes (nat (len - 1)) buf x (m(buf + of_int (len - 1) := 0))"

section \<open>Reversing a string\<close>

lemma uint_addr_eq: "0 \<le> k \<Longrightarrow> k < 2 ^ 64 \<Longrightarrow> x = a + of_int k \<longleftrightarrow> uint (x - a) = k" for x a :: u64
proof -
  assume k: "0 \<le> k" "k < 2 ^ 64"
  then have u: "uint (of_int k :: u64) = k" by (simp add: uint_word_of_int)
  have "x = a + of_int k \<longleftrightarrow> x - a = of_int k" by (auto simp: algebra_simps)
  also have "\<dots> \<longleftrightarrow> uint (x - a) = uint (of_int k :: u64)" by (simp only: word_uint_eq_iff)
  finally show ?thesis unfolding u .
qed

lemma strrev_loop_at:
  "0 \<le> i \<Longrightarrow> j < 2 ^ 64 \<Longrightarrow> strrev_loop a i j m x =
     (if i \<le> uint (x - a) \<and> uint (x - a) \<le> j then m (a + of_int (i + j - uint (x - a))) else m x)"
proof (induction a i j m arbitrary: x rule: strrev_loop.induct)
  case (1 a i j m)
  let ?d = "uint (x - a)"
  have x: "x = a + of_int ?d" by simp
  show ?case
  proof (cases "i < j")
    case False
    then show ?thesis
    proof (cases "i \<le> ?d \<and> ?d \<le> j")
      case True
      with False have "i + j - ?d = ?d" by linarith
      then have "a + of_int (i + j - ?d) = x" using x by (simp only:)
      with False True show ?thesis by (subst strrev_loop.simps) (simp only: if_True if_False simp_thms)
    qed (subst strrev_loop.simps, auto)
  next
    case True
    let ?m = "m(a + of_int i := m (a + of_int j), a + of_int j := m (a + of_int i))"
    note at = uint_addr_eq [of i _ a] uint_addr_eq [of j _ a]
    have "strrev_loop a i j m x = strrev_loop a (i + 1) (j - 1) ?m x" using True by (subst strrev_loop.simps) simp
    also have "\<dots> = (if i + 1 \<le> ?d \<and> ?d \<le> j - 1 then ?m (a + of_int (i + 1 + (j - 1) - ?d)) else ?m x)"
      by (rule "1.IH" [OF True]) (use "1.prems" in simp_all)
    also have "\<dots> = (if i \<le> ?d \<and> ?d \<le> j then m (a + of_int (i + j - ?d)) else m x)"
    proof -
      consider "i + 1 \<le> ?d \<and> ?d \<le> j - 1" | "?d = i" | "?d = j" | "\<not> (i \<le> ?d \<and> ?d \<le> j)" by linarith
      then show ?thesis
      proof cases
        case 1
        let ?k = "i + j - ?d"
        have k: "0 \<le> ?k" "?k < 2 ^ 64" "?k \<noteq> i" "?k \<noteq> j" using 1 True \<open>0 \<le> i\<close> \<open>j < 2 ^ 64\<close> by linarith+
        have "uint (a + of_int ?k - a) = ?k" using uint_addr_eq [OF k(1,2), of "a + of_int ?k" a] by simp
        then have "a + of_int ?k \<noteq> a + of_int i" "a + of_int ?k \<noteq> a + of_int j" using at [of "a + of_int ?k"] k True \<open>0 \<le> i\<close> \<open>j < 2 ^ 64\<close> by auto
        with 1 show ?thesis by simp
      next
        case 2
        then have "x = a + of_int i" "x \<noteq> a + of_int j" using at [of x] True \<open>0 \<le> i\<close> \<open>j < 2 ^ 64\<close> by auto
        with 2 True show ?thesis by simp
      next
        case 3
        then have "x = a + of_int j" using at [of x] True \<open>0 \<le> i\<close> \<open>j < 2 ^ 64\<close> by auto
        with 3 True show ?thesis by simp
      next
        case 4
        then have "x \<noteq> a + of_int i" "x \<noteq> a + of_int j" using at [of x] True \<open>0 \<le> i\<close> \<open>j < 2 ^ 64\<close> by auto
        moreover have "\<not> (i + 1 \<le> ?d \<and> ?d \<le> j - 1)" using 4 by linarith
        ultimately show ?thesis using 4 by (simp only: if_False fun_upd_apply)
      qed
    qed
    finally show ?thesis .
  qed
qed

lemma cstr_nth: "cstr m a xs \<Longrightarrow> k < length xs \<Longrightarrow> m (a + of_nat k) = xs ! k"
  by (simp add: cstr_def)

lemma strrev_eq:
  assumes "cstr m a xs" "length xs < 2 ^ 63"
  obtains m' where "strrev a m = Some m'" "cstr m' a (rev xs)" "\<forall>x. int (length xs) \<le> uint (x - a) \<longrightarrow> m' x = m x"
proof -
  let ?n = "int (length xs)"
  let ?m = "strrev_loop a 0 (?n - 1) m"
  have n: "?n - 1 < 2 ^ 64" using assms(2) by simp
  have l: "u_strlen a m = Some (length xs)" using strlen_from_eq [of m a 0 xs] assms(1) by (simp add: u_strlen_def)
  have at: "uint (of_nat i :: u64) = int i" if "i \<le> length xs" for i
    using that assms(2) uint_word_of_int [of "int i", where 'a = 64] by simp
  have "?m (a + of_nat i) = rev xs ! i" if i: "i < length xs" for i
  proof -
    have "?m (a + of_nat i) = m (a + of_int (?n - 1 - int i))" using strrev_loop_at [OF _ n, of 0 a m "a + of_nat i"] at [of i] i by simp
    also have "of_int (?n - 1 - int i) = (of_nat (length xs - 1 - i) :: u64)" using i by (simp add: of_nat_diff)
    also have "m (a + of_nat (length xs - 1 - i)) = xs ! (length xs - 1 - i)" by (rule cstr_nth [OF assms(1)]) (use i in simp)
    finally show ?thesis using i by (simp add: rev_nth)
  qed
  moreover have f: "?m x = m x" if "?n \<le> uint (x - a)" for x using strrev_loop_at [OF _ n, of 0 a m x] that by simp
  moreover have "?m (a + of_nat (length xs)) = 0" using f [of "a + of_nat (length xs)"] at [of "length xs"] assms(1) by (simp add: cstr_def)
  ultimately have "cstr ?m a (rev xs)" using assms(1) by (simp add: cstr_def)
  moreover have "strrev a m = Some ?m" using l by (simp add: strrev_def)
  ultimately show ?thesis using f that by blast
qed

section \<open>Decimal digits\<close>

definition ascii :: "nat \<Rightarrow> u8" where
  "ascii d = of_int (48 + int d)"

lemma ascii_digit:
  assumes "d < 10"
  shows "is_digit (ascii d)" "ascii d \<noteq> 0" "ucast (ascii d) - 0x30 = (of_nat d :: u64)" "\<not> isspace (ascii d)" "ascii d \<noteq> 0x2d" "ascii d \<noteq> 0x78" "ascii d \<noteq> 0x58"
proof -
  have "d \<in> {0, 1, 2, 3, 4, 5, 6, 7, 8, 9}" using assms by auto
  then show "is_digit (ascii d)" "ascii d \<noteq> 0" "ucast (ascii d) - 0x30 = (of_nat d :: u64)" "\<not> isspace (ascii d)" "ascii d \<noteq> 0x2d" "ascii d \<noteq> 0x78" "ascii d \<noteq> 0x58"
    by (auto simp: ascii_def is_digit_def isspace_def)
qed

lemma digits_value_append: "digits_value r (xs @ ys) = digits_value r xs + r ^ length xs * digits_value r ys"
  by (induction xs) (simp_all add: algebra_simps)

lemma atol_loop_digits:
  "cstr m str (map ascii ds) \<Longrightarrow> \<forall>d\<in>set ds. d < 10 \<Longrightarrow>
     atol_loop 10 ret str m = Some (Some (ret * 10 ^ length ds + of_nat (digits_value 10 (rev ds))))"
proof (induction ds arbitrary: ret str)
  case Nil
  then show ?case by (subst atol_loop.simps) simp
next
  case (Cons d ds)
  let ?r = "ret * 10 + of_nat d :: u64"
  have d: "d < 10" and c: "m str = ascii d" "cstr m (str + 1) (map ascii ds)" using Cons.prems by auto
  have "atol_loop 10 ret str m = atol_loop 10 ?r (str + 1) m"
    by (subst atol_loop.simps) (simp add: c(1) ascii_digit [OF d])
  also have "\<dots> = Some (Some (?r * 10 ^ length ds + of_nat (digits_value 10 (rev ds))))" using Cons.IH [OF c(2)] Cons.prems(2) by simp
  finally show ?case by (simp add: digits_value_append algebra_simps)
qed

lemma sint32: "n < 2 ^ 31 \<Longrightarrow> sint (of_nat n :: u32) = int n"
proof -
  assume "n < 2 ^ 31"
  then have "int n < 2 ^ 31" by simp
  then have "signed_take_bit 31 (int n) = int n" by (intro signed_take_bit_int_eq_self) simp_all
  then show ?thesis by (simp add: signed_of_nat)
qed

lemma itoa_digits_eq:
  "n < 2 ^ 31 \<Longrightarrow> 0 \<le> i \<Longrightarrow> i + int (length (low_digits 10 n)) \<le> len - 1 \<Longrightarrow> len < 2 ^ 31 \<Longrightarrow>
     itoa_digits str 10 len (of_nat n) i m =
     Some (0, i + int (length (low_digits 10 n)), put (str + of_int i) (length (low_digits 10 n)) (\<lambda>k. map ascii (low_digits 10 n) ! k) m)"
proof (induction n arbitrary: i m rule: less_induct)
  case (less n)
  have sd: "int n smod 10 = int (n mod 10)" "int n sdiv 10 = int (n div 10)"
    by (simp_all add: signed_modulo_int_def signed_divide_int_def sgn_if zmod_int zdiv_int)
  let ?m = "m(str + of_int i := ascii (n mod 10))"
  have s: "itoa_digits str 10 len (of_nat n) i m =
      (if (of_nat (n div 10) :: u32) \<noteq> 0 \<and> i + 1 < len - 1 then itoa_digits str 10 len (of_nat (n div 10)) (i + 1) ?m
       else Some (of_nat (n div 10), i + 1, ?m))"
    by (subst itoa_digits.simps) (simp add: sint32 [OF less.prems(1)] sd ascii_def Let_def)
  have z: "(of_nat (n div 10) :: u32) = 0 \<longleftrightarrow> n div 10 = 0"
  proof -
    have u: "unat (of_nat (n div 10) :: u32) = n div 10" using less.prems(1) by (simp add: unat_of_nat)
    show ?thesis unfolding unsigned_eq_0_iff [of "of_nat (n div 10) :: u32", where 'a = nat, symmetric] u ..
  qed
  show ?case
  proof (cases "n < 10")
    case True
    then have "low_digits 10 n = [n]" by (subst low_digits.simps) simp
    with True s show ?thesis by (simp add: put_Suc ascii_def fun_eq_iff)
  next
    case False
    then have d: "low_digits 10 n = (n mod 10) # low_digits 10 (n div 10)" by (subst low_digits.simps) simp
    have ne: "low_digits 10 (n div 10) \<noteq> []" by (subst low_digits.simps) simp
    have nd: "n div 10 \<noteq> 0" using False by simp
    have l: "length (low_digits 10 (n div 10)) < 2 ^ 64" using less.prems(2-4) d by simp
    have "i + 1 < len - 1" using less.prems(3) d ne by (cases "low_digits 10 (n div 10)") auto
    with s z nd have "itoa_digits str 10 len (of_nat n) i m = itoa_digits str 10 len (of_nat (n div 10)) (i + 1) ?m" by simp
    also have "\<dots> = Some (0, i + 1 + int (length (low_digits 10 (n div 10))),
        put (str + of_int (i + 1)) (length (low_digits 10 (n div 10))) (\<lambda>k. map ascii (low_digits 10 (n div 10)) ! k) ?m)"
      by (rule less.IH) (use False less.prems d in simp_all)
    finally show ?thesis using put_Suc [OF l, of "str + of_int i" "\<lambda>k. map ascii (low_digits 10 n) ! k" m] by (simp add: d add.assoc)
  qed
qed

lemma atoi_digits:
  assumes c: "cstr m str (map ascii ds)" and ds: "\<forall>d\<in>set ds. d < 10" "ds \<noteq> []" and str: "str \<noteq> 0"
  shows "atoi str m = Some (ucast (of_nat (digits_value 10 (rev ds)) :: u64))"
proof -
  obtain d es where e: "ds = d # es" using ds(2) by (cases ds) auto
  then have d: "d < 10" "m str = ascii d" using c ds(1) by auto
  have nx: "m (str + 1) \<noteq> 0x78 \<and> m (str + 1) \<noteq> 0x58"
  proof (cases es)
    case Nil
    then have "m (str + 1) = 0" using c e by simp
    then show ?thesis by simp
  next
    case (Cons d' es')
    then have "m (str + 1) = ascii d'" "d' < 10" using c e ds(1) by auto
    then show ?thesis using ascii_digit [of d'] by simp
  qed
  have "atol str m = Some (of_nat (digits_value 10 (rev ds)))"
    using atol_loop_digits [OF c ds(1), of 0] str nx ascii_digit [OF d(1)] by (simp add: atol_def Let_def d(2))
  then show ?thesis by (simp add: atoi_def)
qed

section \<open>Properties\<close>

text \<open>
  A number that \<open>itoa\<close> writes is read back by \<open>atoi\<close>. For every \<open>int\<close> that is not negative, base 10 and a buffer of at least 11 bytes, \<open>itoa\<close> returns 0, writes inside the buffer only, and
  \<open>atoi\<close> of the buffer returns and gives the number.
\<close>

theorem itoa_atoi:
  assumes "n < 2 ^ 31" "11 \<le> len" "len < 2 ^ 31" "str \<noteq> 0"
  shows "\<exists>m'. itoa (of_nat n) str len 10 m = Some (0, m') \<and> atoi str m' = Some (of_nat n) \<and> (\<forall>x. len \<le> uint (x - str) \<longrightarrow> m' x = m x)"
proof -
  define ds where "ds = low_digits 10 n"
  let ?l = "length ds"
  let ?m1 = "put str ?l (\<lambda>k. map ascii ds ! k) m"
  let ?m2 = "?m1(str + of_int (int ?l) := 0)"
  have l: "?l \<le> 10" using low_digits_length [of 10 n 10] assms(1) by (simp add: ds_def)
  have lt: "d < 10" if "d \<in> set ds" for d using that low_digits_less [of 10] by (simp add: ds_def)
  have ne: "ds \<noteq> []" unfolding ds_def by (subst low_digits.simps) simp
  have "itoa_digits str 10 len (of_nat n) 0 m = Some (0, int ?l, ?m1)"
    using itoa_digits_eq [OF assms(1), of 0 len str m] l assms(2,3) by (simp add: ds_def)
  moreover have u: "unat (of_nat i :: u64) = i" if "i \<le> 10" for i using that by (simp add: unat_of_nat)
  have "cstr ?m2 str (map ascii ds)"
    unfolding cstr_def
  proof (intro conjI allI impI)
    fix i assume i: "i < length (map ascii ds)"
    have "str + of_nat i \<noteq> str + of_int (int ?l)" using u [of i] u [of ?l] i l by (metis add_left_cancel length_map less_imp_le_nat nat_less_le of_int_of_nat_eq order_trans)
    then show "?m2 (str + of_nat i) = map ascii ds ! i" using i l u [of i] by (simp add: put_def)
  next
    show "0 \<notin> set (map ascii ds)" using lt ascii_digit(2) by fastforce
  qed simp
  then obtain m' where r: "strrev str ?m2 = Some m'" "cstr m' str (rev (map ascii ds))" "\<forall>x. int (length (map ascii ds)) \<le> uint (x - str) \<longrightarrow> m' x = ?m2 x"
    by (rule strrev_eq) (use l in simp)
  ultimately have "itoa (of_nat n) str len 10 m = Some (0, m')" using assms(2) by (simp add: itoa_def)
  moreover have "atoi str m' = Some (of_nat n)"
  proof -
    have "atoi str m' = Some (ucast (of_nat (digits_value 10 (rev (rev ds))) :: u64))"
      by (rule atoi_digits) (use r(2) lt ne assms(4) in \<open>auto simp: rev_map\<close>)
    also have "digits_value 10 (rev (rev ds)) = n" using low_digits_value [of 10 n] by (simp add: ds_def)
    also have "ucast (of_nat n :: u64) = (of_nat n :: u32)" using assms(1) by (simp add: word_unat_eq_iff unsigned_ucast_eq unat_of_nat take_bit_nat_eq_self)
    finally show ?thesis .
  qed
  moreover have "m' x = m x" if x: "len \<le> uint (x - str)" for x
  proof -
    have "x \<noteq> str + of_int (int ?l)" using uint_addr_eq [of "int ?l" x str] x l assms(2) by auto
    moreover have "int (unat (x - str)) = uint (x - str)" by simp
    then have "\<not> unat (x - str) < ?l" using x l assms(2) by linarith
    ultimately show ?thesis using r(3) x l assms(2) by (simp add: put_def)
  qed
  ultimately show ?thesis by blast
qed

theorem itoa_atoi_witness: "\<exists>m'. itoa 2024 0x1000 16 10 (\<lambda>_. 0) = Some (0, m') \<and> atoi 0x1000 m' = Some 2024"
  using itoa_atoi [of 2024 16 "0x1000" "\<lambda>_. 0"] by auto

section \<open>The checksum\<close>

lemma adler_step:
  fixes a c :: u32
  assumes "unat a < 65521" "unat c < 65536"
  shows "unat ((a + c) mod 65521) = (unat a + unat c) mod 65521"
proof -
  have "unat (a + c) = unat a + unat c" using assms by (intro unat_add_lem [THEN iffD1]) simp
  then show ?thesis by (simp add: unat_mod_distrib)
qed

lemma adler_loop_eq:
  "unat a < 65521 \<Longrightarrow> unat b < 65521 \<Longrightarrow> adler_loop n p a b m = (a', b') \<Longrightarrow>
     unat a' = (unat a + (\<Sum>i<n. unat (m (p + of_nat i)))) mod 65521 \<and>
     unat b' = (unat b + n * unat a + (\<Sum>i<n. (n - i) * unat (m (p + of_nat i)))) mod 65521"
proof (induction n arbitrary: p a b)
  case (Suc n)
  let ?d = "\<lambda>i. unat (m (p + of_nat i))"
  define c :: u32 where "c = (a + ucast (m p)) mod 65521"
  define e :: u32 where "e = (b + c) mod 65521"
  have d: "unat (m p) < 256" using unsigned_less [of "m p", where 'a = nat] by simp
  then have "unat (ucast (m p) :: u32) = unat (m p)" by (simp add: unsigned_ucast_eq take_bit_nat_eq_self)
  with d have c: "unat c = (unat a + ?d 0) mod 65521" using adler_step [OF Suc.prems(1), of "ucast (m p)"] by (simp add: c_def)
  then have c': "unat c < 65521" by simp
  have e: "unat e = (unat b + unat c) mod 65521" using adler_step [OF Suc.prems(2), of c] c' by (simp add: e_def)
  then have e': "unat e < 65521" by simp
  have "adler_loop n (p + 1) c e m = (a', b')" using Suc.prems(3) by (simp add: c_def e_def Let_def)
  note IH = Suc.IH [OF c' e' this]
  have s: "(\<Sum>i<Suc n. ?d i) = ?d 0 + (\<Sum>i<n. unat (m (p + 1 + of_nat i)))"
    by (simp add: sum.lessThan_Suc_shift add.assoc del: sum.lessThan_Suc)
  have s': "(\<Sum>i<Suc n. (Suc n - i) * ?d i) = Suc n * ?d 0 + (\<Sum>i<n. (n - i) * unat (m (p + 1 + of_nat i)))"
    by (simp add: sum.lessThan_Suc_shift add.assoc del: sum.lessThan_Suc)
  have "unat a' = (unat a + (\<Sum>i<Suc n. ?d i)) mod 65521" using IH c unfolding s by (simp add: mod_simps add.assoc)
  moreover have "unat b' = (unat b + Suc n * unat a + (\<Sum>i<Suc n. (Suc n - i) * ?d i)) mod 65521"
  proof -
    define t where "t = (\<Sum>i<n. (n - i) * unat (m (p + 1 + of_nat i)))"
    have m1: "((x + y) mod M + k * y + t) mod M = (x + Suc k * y + t) mod M" for x y k M :: nat by (simp add: mod_simps add.assoc)
    have m2: "(x + k * (y mod M) + t) mod M = (x + k * y + t) mod M" for x y k M :: nat by (metis mod_add_cong mod_mult_right_eq)
    have "unat b' = ((unat b + unat c) mod 65521 + n * unat c + t) mod 65521" using IH e by (simp add: t_def)
    also have "\<dots> = (unat b + Suc n * unat c + t) mod 65521" by (rule m1)
    also have "\<dots> = (unat b + Suc n * (unat a + ?d 0) + t) mod 65521" unfolding c by (rule m2)
    finally show ?thesis unfolding s' t_def [symmetric] by (simp add: add_mult_distrib2 add_ac)
  qed
  ultimately show ?case by blast
qed simp

text \<open>
  \<open>adler32\<close> computes the checksum of that name: in the low half the sum of the bytes plus 1, in the high half the sum of all the prefixes, both modulo 65521. No intermediate value wraps around.
\<close>

theorem adler32_eq:
  "unat (adler32 data len m) =
     2 ^ 16 * ((unat len + (\<Sum>i<unat len. (unat len - i) * unat (m (data + of_nat i)))) mod 65521) + (1 + (\<Sum>i<unat len. unat (m (data + of_nat i)))) mod 65521"
proof -
  obtain a b where ab: "adler_loop (unat len) data 1 0 m = (a, b)" by (cases "adler_loop (unat len) data 1 0 m")
  from adler_loop_eq [OF _ _ ab] have e: "unat a = (1 + (\<Sum>i<unat len. unat (m (data + of_nat i)))) mod 65521"
    "unat b = (unat len + (\<Sum>i<unat len. (unat len - i) * unat (m (data + of_nat i)))) mod 65521" by simp_all
  have a: "unat a < 2 ^ 16" and b: "unat b < 2 ^ 16" unfolding e by (rule order.strict_trans [of _ 65521]; simp)+
  have "push_bit 16 b AND a = 0"
  proof (rule bit_word_eqI)
    fix n
    have "\<not> bit a n" if "16 \<le> n"
    proof -
      have "take_bit 16 a = a" using a by (simp add: word_unat_eq_iff unsigned_take_bit_eq take_bit_nat_eq_self)
      then have "bit a n \<longleftrightarrow> n < 16 \<and> bit a n" by (metis bit_take_bit_iff)
      with that show ?thesis by simp
    qed
    then show "bit (push_bit 16 b AND a) n = bit (0 :: u32) n" by (auto simp: bit_simps)
  qed
  then have "push_bit 16 b OR a = push_bit 16 b + a" by (simp add: disjunctive_add_eq_or)
  moreover have p: "unat (push_bit 16 b) = 2 ^ 16 * unat b" using b by (simp add: push_bit_eq_mult unat_mult_lem [THEN iffD1] mult.commute)
  moreover have "unat (push_bit 16 b + a) = unat (push_bit 16 b) + unat a" using a b p by (intro unat_add_lem [THEN iffD1]) simp
  ultimately show ?thesis using e by (simp add: adler32_def ab)
qed

end
