(* ===== verification/E1000.thy ===== *)
theory E1000
  imports Kalloc
begin

text \<open>
  The driver of the network card: \<open>drivers/e1000.h\<close> and \<open>drivers/e1000.cpp\<close>. The two rings of descriptors and their buffers are in memory and shared with the card; head and tail of each ring are
  registers of the card. A packet to send is the list of its bytes. The registers behave as the manual of the card says: a write to the interrupt mask set register adds bits to the mask,
  one to the interrupt mask clear register takes bits away, a write to the interrupt cause register clears the bits written and reading it clears all.
\<close>

section \<open>Descriptors and registers\<close>

record rx_desc =
  rx_addr :: u64
  rx_length :: "16 word"
  rx_csum :: "16 word"
  rx_status :: u8
  rx_errors :: u8
  rx_special :: "16 word"

record tx_desc =
  tx_addr :: u64
  tx_length :: "16 word"
  tx_cso :: u8
  tx_cmd :: u8
  tx_status :: u8
  tx_css :: u8
  tx_special :: "16 word"

definition TXDESCS :: nat where "TXDESCS = 64"
definition RXDESCS :: nat where "RXDESCS = 64"
definition TX_PKT_SIZE :: nat where "TX_PKT_SIZE = 2048"
definition RX_PKT_SIZE :: nat where "RX_PKT_SIZE = 2048"

definition E1000_ICR :: u32 where "E1000_ICR = 0x000C0"
definition E1000_IMS :: u32 where "E1000_IMS = 0x000D0"
definition E1000_IMC :: u32 where "E1000_IMC = 0x000D8"
definition E1000_RCTL :: u32 where "E1000_RCTL = 0x00100"
definition E1000_TCTL :: u32 where "E1000_TCTL = 0x00400"
definition E1000_RDBAL :: u32 where "E1000_RDBAL = 0x02800"
definition E1000_RDBAH :: u32 where "E1000_RDBAH = 0x02804"
definition E1000_RDLEN :: u32 where "E1000_RDLEN = 0x02808"
definition E1000_RDH :: u32 where "E1000_RDH = 0x02810"
definition E1000_RDT :: u32 where "E1000_RDT = 0x02818"
definition E1000_TDBAL :: u32 where "E1000_TDBAL = 0x03800"
definition E1000_TDBAH :: u32 where "E1000_TDBAH = 0x03804"
definition E1000_TDLEN :: u32 where "E1000_TDLEN = 0x03808"
definition E1000_TDH :: u32 where "E1000_TDH = 0x03810"
definition E1000_TDT :: u32 where "E1000_TDT = 0x03818"
definition E1000_RA :: u32 where "E1000_RA = 0x05400"

lemmas reg_defs = E1000_ICR_def E1000_IMS_def E1000_IMC_def E1000_RCTL_def E1000_TCTL_def E1000_RDBAL_def E1000_RDBAH_def E1000_RDLEN_def E1000_RDH_def E1000_RDT_def
  E1000_TDBAL_def E1000_TDBAH_def E1000_TDLEN_def E1000_TDH_def E1000_TDT_def E1000_RA_def

text \<open>The addresses are those of the static arrays.\<close>

record nic =
  nic_regs :: "u32 \<Rightarrow> u32"
  tx_desc_array :: "tx_desc list"
  rx_desc_array :: "rx_desc list"
  tx_pkt_buffer :: "u8 list list"
  rx_pkt_buffer :: "u8 list list"
  tx_ring_kva :: u64
  rx_ring_kva :: u64
  tx_buf_kva :: u64
  rx_buf_kva :: u64

definition e1000_write_reg :: "u32 \<Rightarrow> u32 \<Rightarrow> nic \<Rightarrow> nic" where
  "e1000_write_reg reg val n =
     (if reg = E1000_IMS then n\<lparr>nic_regs := (nic_regs n)(E1000_IMS := nic_regs n E1000_IMS OR val)\<rparr>
      else if reg = E1000_IMC then n\<lparr>nic_regs := (nic_regs n)(E1000_IMS := nic_regs n E1000_IMS AND NOT val)\<rparr>
      else if reg = E1000_ICR then n\<lparr>nic_regs := (nic_regs n)(E1000_ICR := nic_regs n E1000_ICR AND NOT val)\<rparr>
      else n\<lparr>nic_regs := (nic_regs n)(reg := val)\<rparr>)"

definition e1000_read_reg :: "u32 \<Rightarrow> nic \<Rightarrow> u32 \<times> nic" where
  "e1000_read_reg reg n = (nic_regs n reg, if reg = E1000_ICR then n\<lparr>nic_regs := (nic_regs n)(E1000_ICR := 0)\<rparr> else n)"

definition e1000_write_reg_array :: "u32 \<Rightarrow> u32 \<Rightarrow> u32 \<Rightarrow> nic \<Rightarrow> nic" where
  "e1000_write_reg_array reg offset val n = e1000_write_reg (reg + push_bit 2 offset) val n"

section \<open>Initialisation\<close>

definition enetaddr :: "u8 list" where
  "enetaddr = [0x00, 0x0a, 0x35, 0x00, 0x1e, 0x53]"

text \<open>The delay before the interrupts are masked has no effect on the state.\<close>

definition e1000_reset :: "nic \<Rightarrow> nic" where
  "e1000_reset n =
     (let n = e1000_write_reg E1000_RCTL 0 n;
          n = e1000_write_reg E1000_TCTL 0 n;
          n = e1000_write_reg E1000_TDH 0 n;
          n = e1000_write_reg E1000_TDT 0 n;
          n = e1000_write_reg E1000_RDH 0 n;
          n = e1000_write_reg E1000_RDT 0 n;
          n = e1000_write_reg E1000_IMC 0xffffffff n
      in e1000_write_reg E1000_ICR 0xffffffff n)"

definition init_tx_desc :: "u64 \<Rightarrow> nat \<Rightarrow> tx_desc" where
  "init_tx_desc kva i =
     \<lparr>tx_addr = kva2pa (kva + of_nat (i * TX_PKT_SIZE)), tx_length = 0, tx_cso = 0, tx_cmd = 0x08 OR 0x01, tx_status = 0, tx_css = 0, tx_special = 0\<rparr>"

definition e1000_configure_tx :: "nic \<Rightarrow> nic" where
  "e1000_configure_tx n =
     (let n = n\<lparr>tx_desc_array := map (init_tx_desc (tx_buf_kva n)) [0 ..< TXDESCS]\<rparr>;
          n = e1000_write_reg E1000_TDBAL (ucast (kva2pa (tx_ring_kva n) AND 0xffffffff)) n;
          n = e1000_write_reg E1000_TDBAH (ucast (drop_bit 32 (kva2pa (tx_ring_kva n)))) n;
          n = e1000_write_reg E1000_TDLEN (of_nat (16 * TXDESCS)) n;
          n = e1000_write_reg E1000_TDH 0 n;
          n = e1000_write_reg E1000_TDT 0 n
      in e1000_write_reg E1000_TCTL (0x02 OR 0x08 OR (0xff0 AND push_bit 4 0x10) OR (0x3ff000 AND push_bit 12 0x40)) n)"

definition init_rx_desc :: "u64 \<Rightarrow> nat \<Rightarrow> rx_desc" where
  "init_rx_desc kva i =
     \<lparr>rx_addr = kva2pa (kva + of_nat (i * RX_PKT_SIZE)), rx_length = 0, rx_csum = 0, rx_status = 0, rx_errors = 0, rx_special = 0\<rparr>"

definition e1000_configure_rx :: "nic \<Rightarrow> nic" where
  "e1000_configure_rx n =
     (let byte = (\<lambda>i. ucast (enetaddr ! i) :: u32);
          n = e1000_write_reg_array E1000_RA 0 (push_bit 24 (byte 3) OR push_bit 16 (byte 2) OR push_bit 8 (byte 1) OR byte 0) n;
          n = e1000_write_reg_array E1000_RA 1 (0x80000000 OR push_bit 8 (byte 5) OR byte 4) n;
          n = n\<lparr>rx_desc_array := map (init_rx_desc (rx_buf_kva n)) [0 ..< RXDESCS]\<rparr>;
          n = e1000_write_reg E1000_RDBAL (ucast (kva2pa (rx_ring_kva n) AND 0xffffffff)) n;
          n = e1000_write_reg E1000_RDBAH (ucast (drop_bit 32 (kva2pa (rx_ring_kva n)))) n;
          n = e1000_write_reg E1000_RDLEN (of_nat (16 * RXDESCS)) n;
          n = e1000_write_reg E1000_RDH 0 n;
          n = e1000_write_reg E1000_RDT (of_nat (RXDESCS - 1)) n;
          n = e1000_write_reg E1000_RCTL (0x02 OR 0x8000) n
      in e1000_write_reg E1000_IMS 0x10 n)"

definition e1000_init :: "nic \<Rightarrow> nic" where
  "e1000_init n = e1000_configure_rx (e1000_configure_tx (e1000_reset n))"

section \<open>Packets\<close>

text \<open>\<open>memcpy\<close> into a buffer of 2048 bytes; a longer packet would run over the next buffers.\<close>

definition fill_buffer :: "u8 list \<Rightarrow> u8 list \<Rightarrow> u8 list option" where
  "fill_buffer pkt buf = (if length pkt \<le> length buf then Some (pkt @ drop (length pkt) buf) else None)"

definition e1000_transmit :: "u8 list \<Rightarrow> nic \<Rightarrow> (int \<times> nic) option" where
  "e1000_transmit txpacket n =
     (let (tdh, n) = e1000_read_reg E1000_TDH n;
          (tdt, n) = e1000_read_reg E1000_TDT n;
          i = unat tdt
      in if (tdt + 1) mod of_nat TXDESCS = tdh then Some (- 1, n)
         else do {
           kassert (i < length (tx_pkt_buffer n) \<and> i < length (tx_desc_array n));
           buf \<leftarrow> fill_buffer txpacket (tx_pkt_buffer n ! i);
           let n = n\<lparr>tx_pkt_buffer := (tx_pkt_buffer n)[i := buf]\<rparr>;
           let n = n\<lparr>tx_desc_array := (tx_desc_array n)[i := (tx_desc_array n ! i)\<lparr>tx_length := of_nat (length txpacket)\<rparr>]\<rparr>;
           Some (0, e1000_write_reg E1000_TDT ((tdt + 1) mod of_nat TXDESCS) n)
         })"

text \<open>The packet that was copied to the caller; none if the result is -1.\<close>

definition e1000_poll :: "nic \<Rightarrow> (int \<times> u8 list \<times> nic) option" where
  "e1000_poll n =
     (let (rdh, n) = e1000_read_reg E1000_RDH n;
          (rdt, n) = e1000_read_reg E1000_RDT n;
          nxt = (rdt + 1) mod of_nat RXDESCS;
          i = unat nxt
      in if nxt = rdh then Some (- 1, [], n)
         else do {
           kassert (i < length (rx_desc_array n) \<and> i < length (rx_pkt_buffer n));
           if rx_status (rx_desc_array n ! i) AND 0x01 = 0 then Some (- 1, [], n)
           else do {
             let len = unat (rx_length (rx_desc_array n ! i));
             kassert (len \<le> length (rx_pkt_buffer n ! i));
             Some (int len, take len (rx_pkt_buffer n ! i), e1000_write_reg E1000_RDT nxt n)
           }
         })"

section \<open>The card\<close>

text \<open>
  What the card does, after its manual: it sends the packet of the descriptor at the head of the transmit ring while head and tail differ, and it puts a packet that arrives into the buffer of the
  descriptor at the head of the receive ring while head and tail differ. It finds a buffer by the address in the descriptor.
\<close>

definition buffer_at :: "u64 \<Rightarrow> u64 \<Rightarrow> nat" where
  "buffer_at kva pa = unat (pa - kva2pa kva) div 2048"

definition card_sends :: "nic \<Rightarrow> (u8 list \<times> nic) option" where
  "card_sends n =
     (let h = nic_regs n E1000_TDH; d = tx_desc_array n ! unat h
      in if h = nic_regs n E1000_TDT then None
         else Some (take (unat (tx_length d)) (tx_pkt_buffer n ! buffer_at (tx_buf_kva n) (tx_addr d)),
           n\<lparr>tx_desc_array := (tx_desc_array n)[unat h := d\<lparr>tx_status := tx_status d OR 0x01\<rparr>],
             nic_regs := (nic_regs n)(E1000_TDH := (h + 1) mod 64)\<rparr>))"

definition card_receives :: "u8 list \<Rightarrow> nic \<Rightarrow> nic option" where
  "card_receives pkt n =
     (let h = nic_regs n E1000_RDH; d = rx_desc_array n ! unat h; j = buffer_at (rx_buf_kva n) (rx_addr d)
      in if h = nic_regs n E1000_RDT \<or> length pkt > 2048 then None
         else Some (n\<lparr>rx_pkt_buffer := (rx_pkt_buffer n)[j := pkt @ drop (length pkt) (rx_pkt_buffer n ! j)],
             rx_desc_array := (rx_desc_array n)[unat h := d\<lparr>rx_length := of_nat (length pkt), rx_status := rx_status d OR 0x01\<rparr>],
             nic_regs := (nic_regs n)(E1000_RDH := (h + 1) mod 64)\<rparr>))"

text \<open>
  Driver and card together, with what has passed so far: the packets that \<open>e1000_transmit\<close> accepted and the card sent, and those that arrived and \<open>e1000_poll\<close> delivered.
\<close>

record traffic =
  nic :: nic
  accepted :: "u8 list list"
  sent :: "u8 list list"
  arrived :: "u8 list list"
  delivered :: "u8 list list"

inductive nic_step :: "traffic \<Rightarrow> traffic \<Rightarrow> bool" where
  transmit: "e1000_transmit pkt (nic s) = Some (r, n) \<Longrightarrow> nic_step s (s\<lparr>nic := n, accepted := accepted s @ (if r = 0 then [pkt] else [])\<rparr>)"
| send: "card_sends (nic s) = Some (pkt, n) \<Longrightarrow> nic_step s (s\<lparr>nic := n, sent := sent s @ [pkt]\<rparr>)"
| receive: "card_receives pkt (nic s) = Some n \<Longrightarrow> nic_step s (s\<lparr>nic := n, arrived := arrived s @ [pkt]\<rparr>)"
| poll: "e1000_poll (nic s) = Some (r, pkt, n) \<Longrightarrow> nic_step s (s\<lparr>nic := n, delivered := delivered s @ (if r \<noteq> - 1 then [pkt] else [])\<rparr>)"

section \<open>Rings\<close>

text \<open>The indices of a ring of \<open>n\<close> places from its head to the one before its tail.\<close>

definition indices :: "nat \<Rightarrow> nat \<Rightarrow> nat \<Rightarrow> nat list" where
  "indices n h t = map (\<lambda>k. (h + k) mod n) [0 ..< (t + n - h) mod n]"

locale ring =
  fixes n :: nat
  assumes pos: "1 < n"
begin

lemma dist_tail: "h < n \<Longrightarrow> t < n \<Longrightarrow> (h + (t + n - h) mod n) mod n = t"
  by (simp add: mod_simps)

lemma dist_next:
  assumes "h < n" "t < n" "(t + 1) mod n \<noteq> h"
  shows "((t + 1) mod n + n - h) mod n = Suc ((t + n - h) mod n)"
proof (cases "h \<le> t")
  case True
  then have l: "(t + n - h) mod n = t - h" using assms by (simp add: le_mod_geq)
  show ?thesis
  proof (cases "t + 1 = n")
    case True
    then show ?thesis using assms l \<open>h \<le> t\<close> by (auto simp: mod_less)
  next
    case False
    then show ?thesis using assms l True by (simp add: le_mod_geq)
  qed
next
  case False
  then have "(t + n - h) mod n = t + n - h" "t + 1 < n" using assms by simp_all
  then show ?thesis using assms False by simp
qed

lemma indices_push:
  assumes "h < n" "t < n" "(t + 1) mod n \<noteq> h"
  shows "indices n h ((t + 1) mod n) = indices n h t @ [t]"
  unfolding indices_def dist_next [OF assms] by (simp add: dist_tail [OF assms(1,2)])

lemma dist_pop:
  assumes "h < n" "t < n" "h \<noteq> t"
  shows "(t + n - h) mod n = Suc ((t + n - (h + 1) mod n) mod n)"
proof (cases "h < t")
  case True
  then show ?thesis using assms by (simp add: le_mod_geq)
next
  case False
  then have "t < h" using assms(3) by simp
  then have l: "(t + n - h) mod n = t + n - h" using assms by simp
  show ?thesis
  proof (cases "h + 1 = n")
    case True
    then show ?thesis using assms l by (simp add: le_mod_geq)
  next
    case False
    then show ?thesis using assms l \<open>t < h\<close> by simp
  qed
qed

lemma indices_pop:
  assumes "h < n" "t < n" "h \<noteq> t"
  shows "indices n h t = h # indices n ((h + 1) mod n) t"
proof -
  have "map (\<lambda>k. (h + k) mod n) [0 ..< Suc m] = h # map (\<lambda>k. ((h + 1) mod n + k) mod n) [0 ..< m]" for m
    using assms(1) by (simp add: upt_conv_Cons map_Suc_upt [symmetric] comp_def mod_simps del: upt_Suc)
  then show ?thesis unfolding indices_def dist_pop [OF assms] .
qed

lemma indices_empty: "h < n \<Longrightarrow> t < n \<Longrightarrow> indices n h t = [] \<longleftrightarrow> h = t"
  by (cases "h = t") (simp_all add: indices_pop, simp add: indices_def)

lemma indices_less: "i \<in> set (indices n h t) \<Longrightarrow> i < n"
  using pos by (auto simp: indices_def)

lemma indices_length: "length (indices n h t) < n"
  using pos by (simp add: indices_def)

lemma indices_full: "h < n \<Longrightarrow> t < n \<Longrightarrow> (t + 1) mod n = h \<longleftrightarrow> length (indices n h t) = n - 1"
proof -
  assume a: "h < n" "t < n"
  have "length (indices n h t) = n - 1" if "(t + 1) mod n = h"
  proof (cases "t + 1 = n")
    case True
    with that pos a show ?thesis by (simp add: indices_def le_mod_geq)
  next
    case False
    with that pos a show ?thesis by (simp add: indices_def)
  qed
  moreover have "(t + 1) mod n = h" if l: "length (indices n h t) = n - 1"
  proof (rule ccontr)
    assume "(t + 1) mod n \<noteq> h"
    from indices_push [OF a this] l pos indices_length [of h "(t + 1) mod n"] show False by simp
  qed
  ultimately show ?thesis by blast
qed

lemma indices_fresh: "h < n \<Longrightarrow> t < n \<Longrightarrow> t \<notin> set (indices n h t)"
proof
  assume a: "h < n" "t < n" "t \<in> set (indices n h t)"
  let ?d = "(t + n - h) mod n"
  from a(3) obtain k where k: "k < ?d" "(h + k) mod n = t" by (auto simp: indices_def)
  have "(h + ?d) mod n = (h + k) mod n" using k(2) dist_tail [OF a(1,2)] by simp
  then have "n dvd (h + ?d) - (h + k)" using k(1) by (subst mod_eq_dvd_iff_nat [symmetric]) simp_all
  then have "n dvd ?d - k" by simp
  moreover have "?d - k < n" "0 < ?d - k" using k(1) pos by (auto intro: less_imp_diff_less)
  ultimately show False using nat_dvd_not_less by blast
qed

end

interpretation ring64: ring 64
  by unfold_locales simp

section \<open>The invariant of the rings\<close>

definition tx_packet :: "nic \<Rightarrow> nat \<Rightarrow> u8 list" where
  "tx_packet n i = take (unat (tx_length (tx_desc_array n ! i))) (tx_pkt_buffer n ! i)"

definition rx_packet :: "nic \<Rightarrow> nat \<Rightarrow> u8 list" where
  "rx_packet n i = take (unat (rx_length (rx_desc_array n ! i))) (rx_pkt_buffer n ! i)"

definition nic_ok :: "nic \<Rightarrow> bool" where
  "nic_ok n \<longleftrightarrow> nic_regs n E1000_TDH < 64 \<and> nic_regs n E1000_TDT < 64 \<and> nic_regs n E1000_RDH < 64 \<and> nic_regs n E1000_RDT < 64 \<and>
     length (tx_desc_array n) = 64 \<and> length (rx_desc_array n) = 64 \<and> length (tx_pkt_buffer n) = 64 \<and> length (rx_pkt_buffer n) = 64 \<and>
     (\<forall>i<64. length (tx_pkt_buffer n ! i) = 2048 \<and> length (rx_pkt_buffer n ! i) = 2048 \<and>
        buffer_at (tx_buf_kva n) (tx_addr (tx_desc_array n ! i)) = i \<and> buffer_at (rx_buf_kva n) (rx_addr (rx_desc_array n ! i)) = i)"

definition tx_ring :: "nic \<Rightarrow> nat list" where
  "tx_ring n = indices 64 (unat (nic_regs n E1000_TDH)) (unat (nic_regs n E1000_TDT))"

definition rx_ring :: "nic \<Rightarrow> nat list" where
  "rx_ring n = indices 64 (unat ((nic_regs n E1000_RDT + 1) mod 64)) (unat (nic_regs n E1000_RDH))"

definition traffic_inv :: "traffic \<Rightarrow> bool" where
  "traffic_inv s \<longleftrightarrow> nic_ok (nic s) \<and> accepted s = sent s @ map (tx_packet (nic s)) (tx_ring (nic s)) \<and>
     arrived s = delivered s @ map (rx_packet (nic s)) (rx_ring (nic s)) \<and>
     (\<forall>i\<in>set (rx_ring (nic s)). rx_status (rx_desc_array (nic s) ! i) AND 0x01 \<noteq> 0 \<and> unat (rx_length (rx_desc_array (nic s) ! i)) \<le> 2048)"

lemma next64: "unat ((w + 1) mod 64) = (unat w + 1) mod 64" if "w < 64" for w :: u32
proof -
  have "unat w < 64" using that by (simp add: word_less_nat_alt)
  then have "unat (w + 1) = unat w + 1" by (simp add: unat_word_ariths)
  then show ?thesis by (simp add: unat_mod_distrib)
qed

lemma next64_less: "(w + 1) mod 64 < 64" for w :: u32
  by (simp add: word_less_nat_alt unat_mod_distrib)

lemma next64_eq: "(w + 1) mod 64 = v \<longleftrightarrow> (unat w + 1) mod 64 = unat v" if "w < 64" for w v :: u32
  by (simp add: word_unat_eq_iff next64 [OF that])

lemma buffer_at_own: "i < 64 \<Longrightarrow> buffer_at kva (kva2pa (kva + of_nat (i * 2048))) = i"
proof -
  assume "i < 64"
  then have u: "unat (of_nat (i * 2048) :: u64) = i * 2048" unfolding unat_of_nat by simp
  have d: "kva2pa (kva + x) - kva2pa kva = x" for x by (simp add: kva2pa_def)
  show ?thesis unfolding buffer_at_def d u by simp
qed

lemma write_reg_at: "x \<noteq> E1000_IMS \<Longrightarrow> x \<noteq> E1000_ICR \<Longrightarrow> x \<noteq> E1000_IMC \<Longrightarrow> nic_regs (e1000_write_reg r v n) x = (if x = r then v else nic_regs n x)"
  by (simp add: e1000_write_reg_def)

lemma write_reg_fields [simp]:
  "tx_desc_array (e1000_write_reg r v n) = tx_desc_array n" "rx_desc_array (e1000_write_reg r v n) = rx_desc_array n"
  "tx_pkt_buffer (e1000_write_reg r v n) = tx_pkt_buffer n" "rx_pkt_buffer (e1000_write_reg r v n) = rx_pkt_buffer n"
  "tx_buf_kva (e1000_write_reg r v n) = tx_buf_kva n" "rx_buf_kva (e1000_write_reg r v n) = rx_buf_kva n"
  by (simp_all add: e1000_write_reg_def)

lemma ring_regs_other [simp]:
  "E1000_TDH \<noteq> E1000_IMS" "E1000_TDH \<noteq> E1000_ICR" "E1000_TDH \<noteq> E1000_IMC" "E1000_TDT \<noteq> E1000_IMS" "E1000_TDT \<noteq> E1000_ICR" "E1000_TDT \<noteq> E1000_IMC"
  "E1000_RDH \<noteq> E1000_IMS" "E1000_RDH \<noteq> E1000_ICR" "E1000_RDH \<noteq> E1000_IMC" "E1000_RDT \<noteq> E1000_IMS" "E1000_RDT \<noteq> E1000_ICR" "E1000_RDT \<noteq> E1000_IMC"
  "E1000_TDH \<noteq> E1000_TDT" "E1000_TDT \<noteq> E1000_TDH" "E1000_TDH \<noteq> E1000_RDH" "E1000_TDH \<noteq> E1000_RDT" "E1000_TDT \<noteq> E1000_RDH" "E1000_TDT \<noteq> E1000_RDT"
  "E1000_RDH \<noteq> E1000_TDH" "E1000_RDH \<noteq> E1000_TDT" "E1000_RDH \<noteq> E1000_RDT" "E1000_RDT \<noteq> E1000_TDH" "E1000_RDT \<noteq> E1000_TDT" "E1000_RDT \<noteq> E1000_RDH"
  by (simp_all add: reg_defs)

lemma nic_okD:
  assumes "nic_ok n"
  shows "unat (nic_regs n E1000_TDH) < 64" "unat (nic_regs n E1000_TDT) < 64" "unat (nic_regs n E1000_RDH) < 64" "unat (nic_regs n E1000_RDT) < 64"
  using assms by (simp_all add: nic_ok_def word_less_nat_alt)

lemma init_ok:
  assumes "length (tx_pkt_buffer n) = 64" "length (rx_pkt_buffer n) = 64" "\<forall>i<64. length (tx_pkt_buffer n ! i) = 2048 \<and> length (rx_pkt_buffer n ! i) = 2048"
  shows "nic_ok (e1000_init n)" "tx_ring (e1000_init n) = []" "rx_ring (e1000_init n) = []"
proof -
  let ?n = "e1000_init n"
  have r: "nic_regs ?n E1000_TDH = 0" "nic_regs ?n E1000_TDT = 0" "nic_regs ?n E1000_RDH = 0" "nic_regs ?n E1000_RDT = 63"
    by (simp_all add: e1000_init_def e1000_configure_rx_def e1000_configure_tx_def e1000_write_reg_array_def Let_def write_reg_at RXDESCS_def)
      (simp_all add: reg_defs)
  have m: "tx_desc_array ?n = map (init_tx_desc (tx_buf_kva n)) [0 ..< 64]" "rx_desc_array ?n = map (init_rx_desc (rx_buf_kva n)) [0 ..< 64]"
    "tx_pkt_buffer ?n = tx_pkt_buffer n" "rx_pkt_buffer ?n = rx_pkt_buffer n" "tx_buf_kva ?n = tx_buf_kva n" "rx_buf_kva ?n = rx_buf_kva n"
    by (simp_all add: e1000_init_def e1000_configure_rx_def e1000_configure_tx_def e1000_reset_def e1000_write_reg_array_def Let_def TXDESCS_def RXDESCS_def
        del: upt_rec_numeral)
  show "nic_ok ?n" using assms by (simp add: nic_ok_def r m init_tx_desc_def init_rx_desc_def buffer_at_own [simplified] TX_PKT_SIZE_def RX_PKT_SIZE_def del: upt_rec_numeral)
  show "tx_ring ?n = []" "rx_ring ?n = []" by (simp_all add: tx_ring_def rx_ring_def r indices_def)
qed

section \<open>The steps keep the invariant\<close>

lemma transmit_cases:
  assumes ok: "nic_ok n"
  obtains (full) "e1000_transmit pkt n = Some (- 1, n)" "length (tx_ring n) = 63"
  | (long) "e1000_transmit pkt n = None" "2048 < length pkt" "length (tx_ring n) \<noteq> 63"
  | (put) n' where "e1000_transmit pkt n = Some (0, n')" "length pkt \<le> 2048" "length (tx_ring n) \<noteq> 63" "nic_ok n'"
    "map (tx_packet n') (tx_ring n') = map (tx_packet n) (tx_ring n) @ [pkt]" "rx_ring n' = rx_ring n" "rx_desc_array n' = rx_desc_array n" "rx_pkt_buffer n' = rx_pkt_buffer n"
proof -
  let ?h = "nic_regs n E1000_TDH" and ?t = "nic_regs n E1000_TDT"
  let ?i = "unat ?t"
  note b = nic_okD [OF ok]
  have t: "?t < 64" using ok by (simp add: nic_ok_def)
  have full: "(?t + 1) mod 64 = ?h \<longleftrightarrow> length (tx_ring n) = 63" using next64_eq [OF t] ring64.indices_full [OF b(1,2)] by (simp add: tx_ring_def)
  have len: "?i < length (tx_pkt_buffer n)" "?i < length (tx_desc_array n)" "length (tx_pkt_buffer n ! ?i) = 2048" using ok b(2) by (simp_all add: nic_ok_def)
  consider "(?t + 1) mod 64 = ?h" | "(?t + 1) mod 64 \<noteq> ?h" "2048 < length pkt" | "(?t + 1) mod 64 \<noteq> ?h" "length pkt \<le> 2048" by linarith
  then show thesis
  proof cases
    case 1
    then show ?thesis using full by (intro that(1)) (simp_all add: e1000_transmit_def e1000_read_reg_def TXDESCS_def)
  next
    case 2
    then show ?thesis using full len by (intro that(2)) (simp_all add: e1000_transmit_def e1000_read_reg_def TXDESCS_def fill_buffer_def)
  next
    case 3
    define d where "d = (tx_desc_array n ! ?i)\<lparr>tx_length := of_nat (length pkt)\<rparr>"
    define buf where "buf = pkt @ drop (length pkt) (tx_pkt_buffer n ! ?i)"
    define n' where "n' = e1000_write_reg E1000_TDT ((?t + 1) mod 64) (n\<lparr>tx_pkt_buffer := (tx_pkt_buffer n)[?i := buf], tx_desc_array := (tx_desc_array n)[?i := d]\<rparr>)"
    have eq: "e1000_transmit pkt n = Some (0, n')"
      using 3 len by (simp add: e1000_transmit_def e1000_read_reg_def TXDESCS_def fill_buffer_def n'_def d_def buf_def Let_def)
    have f: "tx_pkt_buffer n' = (tx_pkt_buffer n)[?i := buf]" "tx_desc_array n' = (tx_desc_array n)[?i := d]" "rx_desc_array n' = rx_desc_array n" "rx_pkt_buffer n' = rx_pkt_buffer n"
      "tx_buf_kva n' = tx_buf_kva n" "rx_buf_kva n' = rx_buf_kva n" by (simp_all add: n'_def)
    have r: "nic_regs n' E1000_TDH = ?h" "nic_regs n' E1000_TDT = (?t + 1) mod 64" "nic_regs n' E1000_RDH = nic_regs n E1000_RDH" "nic_regs n' E1000_RDT = nic_regs n E1000_RDT"
      by (simp_all add: n'_def write_reg_at)
    have ad: "tx_addr d = tx_addr (tx_desc_array n ! ?i)" by (simp add: d_def)
    have lb: "length buf = 2048" using 3 len by (simp add: buf_def)
    have ok': "nic_ok n'" using ok b(2) next64_less [of ?t] lb ad by (auto simp: nic_ok_def f r nth_list_update)
    have ring: "tx_ring n' = tx_ring n @ [?i]"
      using ring64.indices_push [OF b(1,2)] 3(1) next64_eq [OF t] by (simp add: tx_ring_def r next64 [OF t])
    have fresh: "?i \<notin> set (tx_ring n)" using ring64.indices_fresh [OF b(1,2)] by (simp add: tx_ring_def)
    have old: "tx_packet n' j = tx_packet n j" if "j \<in> set (tx_ring n)" for j
    proof -
      have "?i \<noteq> j" using that fresh by auto
      then show ?thesis by (simp add: tx_packet_def f)
    qed
    have l: "unat (of_nat (length pkt) :: 16 word) = length pkt" using 3(2) by (simp add: unat_of_nat)
    have new: "tx_packet n' ?i = pkt" using len l by (simp add: tx_packet_def f d_def buf_def)
    show ?thesis by (rule that(3) [OF eq _ _ ok']) (use 3 full old new in \<open>simp_all add: ring f rx_ring_def r\<close>)
  qed
qed

lemma card_sends_cases:
  assumes ok: "nic_ok n" and s: "card_sends n = Some (pkt, n')"
  shows "nic_ok n'" "map (tx_packet n) (tx_ring n) = pkt # map (tx_packet n') (tx_ring n')" "rx_ring n' = rx_ring n" "rx_desc_array n' = rx_desc_array n" "rx_pkt_buffer n' = rx_pkt_buffer n"
proof -
  let ?h = "nic_regs n E1000_TDH" and ?t = "nic_regs n E1000_TDT"
  let ?i = "unat ?h"
  note b = nic_okD [OF ok]
  have h: "?h < 64" using ok by (simp add: nic_ok_def)
  define d where "d = (tx_desc_array n ! ?i)\<lparr>tx_status := tx_status (tx_desc_array n ! ?i) OR 0x01\<rparr>"
  have ne: "?h \<noteq> ?t" and p: "pkt = tx_packet n ?i"
    and n': "n' = n\<lparr>tx_desc_array := (tx_desc_array n)[?i := d], nic_regs := (nic_regs n)(E1000_TDH := (?h + 1) mod 64)\<rparr>"
    using s ok b(1) by (auto simp: card_sends_def Let_def tx_packet_def nic_ok_def d_def split: if_splits)
  have ne': "?i \<noteq> unat ?t" using ne by (simp add: word_unat_eq_iff)
  have f: "tx_addr d = tx_addr (tx_desc_array n ! ?i)" "tx_length d = tx_length (tx_desc_array n ! ?i)" by (simp_all add: d_def)
  show "nic_ok n'" using ok b(1) next64_less [of ?h] f by (auto simp: nic_ok_def n' nth_list_update)
  have ring: "tx_ring n = ?i # tx_ring n'" using ring64.indices_pop [OF b(1,2) ne'] by (simp add: tx_ring_def n' next64 [OF h])
  have "tx_packet n' j = tx_packet n j" for j using f ok b(1) by (cases "j = ?i") (auto simp: tx_packet_def n' nth_list_update nic_ok_def)
  then show "map (tx_packet n) (tx_ring n) = pkt # map (tx_packet n') (tx_ring n')" by (simp add: ring p)
  show "rx_ring n' = rx_ring n" "rx_desc_array n' = rx_desc_array n" "rx_pkt_buffer n' = rx_pkt_buffer n" by (simp_all add: n' rx_ring_def)
qed

lemma rx_next:
  assumes "nic_ok n"
  shows "unat ((nic_regs n E1000_RDT + 1) mod 64) = (unat (nic_regs n E1000_RDT) + 1) mod 64" "unat ((nic_regs n E1000_RDT + 1) mod 64) < 64"
  using next64 [of "nic_regs n E1000_RDT"] assms by (simp_all add: nic_ok_def)

lemma card_receives_cases:
  assumes ok: "nic_ok n" and s: "card_receives pkt n = Some n'"
  shows "nic_ok n'" "map (rx_packet n') (rx_ring n') = map (rx_packet n) (rx_ring n) @ [pkt]"
    "\<forall>i\<in>set (rx_ring n'). i \<in> set (rx_ring n) \<and> rx_desc_array n' ! i = rx_desc_array n ! i \<or>
       rx_status (rx_desc_array n' ! i) AND 0x01 \<noteq> 0 \<and> unat (rx_length (rx_desc_array n' ! i)) \<le> 2048"
    "tx_ring n' = tx_ring n" "tx_desc_array n' = tx_desc_array n" "tx_pkt_buffer n' = tx_pkt_buffer n"
proof -
  let ?h = "nic_regs n E1000_RDH" and ?t = "nic_regs n E1000_RDT"
  let ?i = "unat ?h"
  note b = nic_okD [OF ok]
  have h: "?h < 64" using ok by (simp add: nic_ok_def)
  define d where "d = (rx_desc_array n ! ?i)\<lparr>rx_length := of_nat (length pkt), rx_status := rx_status (rx_desc_array n ! ?i) OR 0x01\<rparr>"
  define buf where "buf = pkt @ drop (length pkt) (rx_pkt_buffer n ! ?i)"
  have "buffer_at (rx_buf_kva n) (rx_addr (rx_desc_array n ! ?i)) = ?i" using ok b(3) by (simp add: nic_ok_def)
  with s have ne: "?h \<noteq> ?t" and len: "length pkt \<le> 2048"
    and n': "n' = n\<lparr>rx_pkt_buffer := (rx_pkt_buffer n)[?i := buf], rx_desc_array := (rx_desc_array n)[?i := d], nic_regs := (nic_regs n)(E1000_RDH := (?h + 1) mod 64)\<rparr>"
    by (auto simp: card_receives_def Let_def d_def buf_def split: if_splits)
  have ll: "?i < length (rx_pkt_buffer n)" "?i < length (rx_desc_array n)" "length (rx_pkt_buffer n ! ?i) = 2048" using ok b(3) by (simp_all add: nic_ok_def)
  have f: "rx_addr d = rx_addr (rx_desc_array n ! ?i)" by (simp add: d_def)
  have lb: "length buf = 2048" using len ll by (simp add: buf_def)
  show "nic_ok n'" using ok b(3) next64_less [of ?h] f lb by (auto simp: nic_ok_def n' nth_list_update)
  have nx: "(?i + 1) mod 64 \<noteq> unat ((?t + 1) mod 64)"
  proof
    assume "(?i + 1) mod 64 = unat ((?t + 1) mod 64)"
    then have "(?i + 1) mod 64 = (unat ?t + 1) mod 64" using rx_next(1) [OF ok] by simp
    then have "?i = unat ?t" using b(3,4) by (cases "?i = 63"; cases "unat ?t = 63") auto
    with ne show False by (simp add: word_unat_eq_iff)
  qed
  have ring: "rx_ring n' = rx_ring n @ [?i]"
    using ring64.indices_push [OF rx_next(2) [OF ok] b(3) nx] by (simp add: rx_ring_def n' next64 [OF h])
  have fresh: "?i \<notin> set (rx_ring n)" using ring64.indices_fresh [OF rx_next(2) [OF ok] b(3)] by (simp add: rx_ring_def)
  have l: "unat (of_nat (length pkt) :: 16 word) = length pkt" using len by (simp add: unat_of_nat)
  have old: "rx_packet n' j = rx_packet n j" "rx_desc_array n' ! j = rx_desc_array n ! j" if "j \<in> set (rx_ring n)" for j
  proof -
    have "?i \<noteq> j" using that fresh by auto
    then show "rx_packet n' j = rx_packet n j" "rx_desc_array n' ! j = rx_desc_array n ! j" by (simp_all add: rx_packet_def n')
  qed
  have new: "rx_packet n' ?i = pkt" "rx_desc_array n' ! ?i = d" using ll l by (simp_all add: rx_packet_def n' d_def buf_def)
  show "map (rx_packet n') (rx_ring n') = map (rx_packet n) (rx_ring n) @ [pkt]" using old(1) new by (simp add: ring)
  have "(x OR 1) AND 1 = (1 :: u8)" for x by (rule bit_word_eqI) (auto simp: bit_simps)
  then have "rx_status d AND 0x01 \<noteq> 0" by (simp add: d_def)
  moreover have "unat (rx_length d) \<le> 2048" using l len by (simp add: d_def)
  ultimately show "\<forall>i\<in>set (rx_ring n'). i \<in> set (rx_ring n) \<and> rx_desc_array n' ! i = rx_desc_array n ! i \<or>
       rx_status (rx_desc_array n' ! i) AND 0x01 \<noteq> 0 \<and> unat (rx_length (rx_desc_array n' ! i)) \<le> 2048"
    using old(2) new(2) by (auto simp: ring)
  show "tx_ring n' = tx_ring n" "tx_desc_array n' = tx_desc_array n" "tx_pkt_buffer n' = tx_pkt_buffer n" by (simp_all add: n' tx_ring_def)
qed

text \<open>\<open>e1000_poll\<close> gives the oldest packet that was not delivered.\<close>

lemma poll_cases:
  assumes ok: "nic_ok n" and fin: "\<forall>i\<in>set (rx_ring n). rx_status (rx_desc_array n ! i) AND 0x01 \<noteq> 0 \<and> unat (rx_length (rx_desc_array n ! i)) \<le> 2048"
  obtains (none) "e1000_poll n = Some (- 1, [], n)" "rx_ring n = []"
  | (some) i js n' where "rx_ring n = i # js" "e1000_poll n = Some (int (length (rx_packet n i)), rx_packet n i, n')" "nic_ok n'" "rx_ring n' = js" "rx_desc_array n' = rx_desc_array n"
    "rx_pkt_buffer n' = rx_pkt_buffer n" "tx_ring n' = tx_ring n" "tx_desc_array n' = tx_desc_array n" "tx_pkt_buffer n' = tx_pkt_buffer n"
proof -
  let ?h = "nic_regs n E1000_RDH" and ?t = "nic_regs n E1000_RDT"
  let ?x = "(?t + 1) mod 64"
  let ?i = "unat ?x"
  note b = nic_okD [OF ok] and nx = rx_next [OF ok]
  have empty: "rx_ring n = [] \<longleftrightarrow> ?x = ?h" using ring64.indices_empty [OF nx(2) b(3)] by (simp add: rx_ring_def word_unat_eq_iff)
  show thesis
  proof (cases "?x = ?h")
    case True
    then show ?thesis using empty by (intro that(1)) (simp_all add: e1000_poll_def e1000_read_reg_def RXDESCS_def)
  next
    case False
    then have ne: "?i \<noteq> unat ?h" by (simp add: word_unat_eq_iff)
    define n' where "n' = e1000_write_reg E1000_RDT ?x n"
    have r: "nic_regs n' E1000_TDH = nic_regs n E1000_TDH" "nic_regs n' E1000_TDT = nic_regs n E1000_TDT" "nic_regs n' E1000_RDH = ?h" "nic_regs n' E1000_RDT = ?x"
      by (simp_all add: n'_def write_reg_at)
    have x: "?x < 64" by (rule next64_less)
    have ring: "rx_ring n = ?i # rx_ring n'" using ring64.indices_pop [OF nx(2) b(3) ne] by (simp add: rx_ring_def r next64 [OF x])
    then have d: "rx_status (rx_desc_array n ! ?i) AND 0x01 \<noteq> 0" "unat (rx_length (rx_desc_array n ! ?i)) \<le> 2048" using fin by auto
    have l: "?i < length (rx_desc_array n)" "?i < length (rx_pkt_buffer n)" "length (rx_pkt_buffer n ! ?i) = 2048" using ok nx(2) by (simp_all add: nic_ok_def)
    have lp: "length (rx_packet n ?i) = unat (rx_length (rx_desc_array n ! ?i))" using l d(2) by (simp add: rx_packet_def)
    have "e1000_poll n = Some (int (length (rx_packet n ?i)), rx_packet n ?i, n')"
      unfolding lp using False l d by (simp add: e1000_poll_def e1000_read_reg_def RXDESCS_def Let_def rx_packet_def n'_def)
    moreover have "nic_ok n'" using ok x by (simp add: nic_ok_def r) (simp add: n'_def)
    ultimately show ?thesis by (rule that(2) [OF ring]) (simp_all add: n'_def tx_ring_def write_reg_at)
  qed
qed

lemma packet_cong:
  "tx_desc_array n' = tx_desc_array n \<Longrightarrow> tx_pkt_buffer n' = tx_pkt_buffer n \<Longrightarrow> tx_packet n' = tx_packet n"
  "rx_desc_array n' = rx_desc_array n \<Longrightarrow> rx_pkt_buffer n' = rx_pkt_buffer n \<Longrightarrow> rx_packet n' = rx_packet n"
  by (simp_all add: fun_eq_iff tx_packet_def rx_packet_def)

lemma step_inv:
  assumes "nic_step s s'" "traffic_inv s"
  shows "traffic_inv s'"
  using assms(1)
proof cases
  case (transmit pkt r n)
  note inv = assms(2) [unfolded traffic_inv_def]
  then have ok: "nic_ok (nic s)" by simp
  show ?thesis
  proof (cases rule: transmit_cases [OF ok, of pkt])
    case 1
    with 1 transmit inv show ?thesis by (auto simp: traffic_inv_def)
  next
    case 2
    with 2 transmit show ?thesis by simp
  next
    case (3 n')
    with 3 transmit inv packet_cong(2) [OF 3(7,8)] show ?thesis by (simp add: traffic_inv_def)
  qed
next
  case (send pkt n)
  note inv = assms(2) [unfolded traffic_inv_def]
  then have ok: "nic_ok (nic s)" by simp
  note c = card_sends_cases [OF ok send(2)]
  show ?thesis using inv c packet_cong(2) [OF c(4,5)] by (simp add: traffic_inv_def send)
next
  case (receive pkt n)
  note inv = assms(2) [unfolded traffic_inv_def]
  then have ok: "nic_ok (nic s)" by simp
  note c = card_receives_cases [OF ok receive(2)]
  have "rx_status (rx_desc_array n ! i) AND 0x01 \<noteq> 0 \<and> unat (rx_length (rx_desc_array n ! i)) \<le> 2048" if "i \<in> set (rx_ring n)" for i
    using c(3) inv that by auto
  then show ?thesis using inv c packet_cong(1) [OF c(5,6)] by (simp add: traffic_inv_def receive)
next
  case (poll r pkt n)
  note inv = assms(2) [unfolded traffic_inv_def]
  then have ok: "nic_ok (nic s)"
    and d: "\<forall>i\<in>set (rx_ring (nic s)). rx_status (rx_desc_array (nic s) ! i) AND 0x01 \<noteq> 0 \<and> unat (rx_length (rx_desc_array (nic s) ! i)) \<le> 2048" by simp_all
  show ?thesis
  proof (cases rule: poll_cases [OF ok d])
    case 1
    with 1 poll inv show ?thesis by (auto simp: traffic_inv_def)
  next
    case (2 i js n')
    with 2 poll inv packet_cong(1) [OF 2(8,9)] packet_cong(2) [OF 2(5,6)] show ?thesis by (auto simp: traffic_inv_def)
  qed
qed

lemma reach_inv: "nic_step\<^sup>*\<^sup>* s s' \<Longrightarrow> traffic_inv s \<Longrightarrow> traffic_inv s'"
  by (induction rule: rtranclp_induct) (auto intro: step_inv)

section \<open>Properties\<close>

text \<open>
  C21: The two rings are queues of at most 63 packets. After \<open>e1000_init\<close>, in every interleaving of the driver and the card, the card has sent the packets that \<open>e1000_transmit\<close> accepted, in their order,
  but for a rest \<open>q\<close>, and \<open>e1000_poll\<close> has delivered those that arrived, in their order, but for a rest \<open>r\<close>. A packet of at most 2048 bytes is accepted exactly if \<open>q\<close> has less than 63 packets, and
  \<open>e1000_poll\<close> gives the first packet of \<open>r\<close> if there is one.
\<close>

theorem nic_fifo:
  assumes "length (tx_pkt_buffer n) = 64" "length (rx_pkt_buffer n) = 64" "\<forall>i<64. length (tx_pkt_buffer n ! i) = 2048 \<and> length (rx_pkt_buffer n ! i) = 2048"
    and "nic_step\<^sup>*\<^sup>* \<lparr>nic = e1000_init n, accepted = [], sent = [], arrived = [], delivered = []\<rparr> s"
  shows "\<exists>q r. accepted s = sent s @ q \<and> arrived s = delivered s @ r \<and>
    (\<forall>pkt. length pkt \<le> 2048 \<longrightarrow> (\<exists>n'. e1000_transmit pkt (nic s) = Some (if length q = 63 then - 1 else 0, n'))) \<and>
    (\<exists>n'. e1000_poll (nic s) = Some (if r = [] then (- 1, [], n') else (int (length (hd r)), hd r, n')))"
proof -
  have "traffic_inv \<lparr>nic = e1000_init n, accepted = [], sent = [], arrived = [], delivered = []\<rparr>"
    using init_ok [OF assms(1-3)] by (simp add: traffic_inv_def)
  from reach_inv [OF assms(4) this] have inv: "nic_ok (nic s)" "accepted s = sent s @ map (tx_packet (nic s)) (tx_ring (nic s))"
    "arrived s = delivered s @ map (rx_packet (nic s)) (rx_ring (nic s))"
    "\<forall>i\<in>set (rx_ring (nic s)). rx_status (rx_desc_array (nic s) ! i) AND 0x01 \<noteq> 0 \<and> unat (rx_length (rx_desc_array (nic s) ! i)) \<le> 2048"
    by (simp_all add: traffic_inv_def)
  have "\<exists>n'. e1000_transmit pkt (nic s) = Some (if length (tx_ring (nic s)) = 63 then - 1 else 0, n')" if "length pkt \<le> 2048" for pkt
    by (cases rule: transmit_cases [OF inv(1), of pkt]) (use that in auto)
  moreover have "\<exists>n'. e1000_poll (nic s) =
      Some (if rx_ring (nic s) = [] then (- 1, [], n') else (int (length (rx_packet (nic s) (hd (rx_ring (nic s))))), rx_packet (nic s) (hd (rx_ring (nic s))), n'))"
    by (cases rule: poll_cases [OF inv(1,4)]) auto
  then have "\<exists>n'. e1000_poll (nic s) =
      Some (if map (rx_packet (nic s)) (rx_ring (nic s)) = [] then (- 1, [], n')
            else (int (length (hd (map (rx_packet (nic s)) (rx_ring (nic s))))), hd (map (rx_packet (nic s)) (rx_ring (nic s))), n'))"
    by (cases "rx_ring (nic s)") auto
  ultimately show ?thesis
    by (intro exI [of _ "map (tx_packet (nic s)) (tx_ring (nic s))"] exI [of _ "map (rx_packet (nic s)) (rx_ring (nic s))"] conjI inv(2,3)) simp_all
qed

definition nic0 :: nic where
  "nic0 = \<lparr>nic_regs = \<lambda>_. 0, tx_desc_array = [], rx_desc_array = [], tx_pkt_buffer = replicate 64 (replicate 2048 0), rx_pkt_buffer = replicate 64 (replicate 2048 0),
     tx_ring_kva = 0, rx_ring_kva = 0, tx_buf_kva = 0, rx_buf_kva = 0\<rparr>"

theorem nic_fifo_witness:
  "\<exists>s q r. nic_step\<^sup>*\<^sup>* \<lparr>nic = e1000_init nic0, accepted = [], sent = [], arrived = [], delivered = []\<rparr> s \<and> accepted s = [[1, 2, 3]] \<and> accepted s = sent s @ q \<and> arrived s = delivered s @ r"
proof -
  let ?s = "\<lparr>nic = e1000_init nic0, accepted = [], sent = [], arrived = [], delivered = []\<rparr>"
  have pre: "length (tx_pkt_buffer nic0) = 64" "length (rx_pkt_buffer nic0) = 64" "\<forall>i<64. length (tx_pkt_buffer nic0 ! i) = 2048 \<and> length (rx_pkt_buffer nic0 ! i) = 2048"
    by (simp_all add: nic0_def)
  note ok = init_ok [OF pre]
  obtain n' where "e1000_transmit [1, 2, 3] (e1000_init nic0) = Some (0, n')"
    by (cases rule: transmit_cases [OF ok(1), of "[1, 2, 3]"]) (use ok(2) in auto)
  then have "nic_step ?s (?s\<lparr>nic := n', accepted := [[1, 2, 3]]\<rparr>)" using nic_step.transmit [of "[1, 2, 3]" ?s 0 n'] by simp
  then have "nic_step\<^sup>*\<^sup>* ?s (?s\<lparr>nic := n', accepted := [[1, 2, 3]]\<rparr>)" by blast
  with nic_fifo [OF pre this] show ?thesis by fastforce
qed

end
