(* ===== verification/Sched.thy ===== *)
theory Sched
  imports Prelude "HOL-Library.Product_Lexorder"
begin

text \<open>
  Threads, wait queues and the scheduler: \<open>thread.cpp\<close>, \<open>thread.hpp\<close>, \<open>schedule.cpp\<close>, \<open>CPU.hpp\<close> and
  \<open>WaitQueue\<close> of \<open>container.cpp\<close>.

  A thread is its \<open>tid\<close>, the index under which the constructor puts it into \<open>thread_table\<close>; a process its \<open>pid\<close>.
  \<open>None\<close> in a table is the null pointer that the destructor leaves. A wait queue is named by the object it is a member of,
  and \<open>wqs\<close> holds the contents of all of them. A function that runs on a CPU has the index of that CPU (its \<open>cpu_id\<close>) as its argument. 

  One definition is one pass through the code up to the context switch, with \<open>ready_lock\<close>, \<open>sleep_lock\<close> and
  \<open>thread_global_lock\<close> free at its start: these are released before the switch on every path. The locks that stay held over a switch are fields.
  \<open>None\<close> as a result means that the code does not get through: a null or freed thread is used, an iterator
  leaves its list, an assertion fails or a lock is never released.
\<close>

section \<open>State\<close>

datatype Status = BLOCKED | RUNNING | READY | EXITED

record thread =
  th_process :: nat
  th_addr :: u64
  trank :: nat
  running_cpu :: "nat option"
  status_block_cnt :: u32
  status_exited :: bool
  status_running :: bool
  regs :: "u64 list"
  sepc :: u64
  kernel_stack_top :: u64

record process =
  name :: string
  parent :: "nat option"
  children :: "nat list"
  threads :: "nat list"
  cpu_mask :: u64
  active_thread_cnt :: u64
  cwd_node_idx :: u32
  is_killed :: bool
  process_own_lock :: bool

text \<open>\<open>satp\<close> is the process whose page directory \<open>PageDir::enable\<close> made the current one.\<close>

record cpu =
  current_thread :: nat
  idle_thread :: nat
  hartid :: nat
  satp :: nat

datatype wq = WaitExited nat | WaitKill nat | WaitObj u64 | SendObj u64 | RecvObj u64 | NetSend | NetRecv

text \<open>An item of the sleeping queue has the wake-up time and the thread, pointers being compared by address.\<close>

type_synonym sleep_item = "u64 \<times> u64 \<times> nat"

record kernel =
  thread_table :: "thread option list"
  process_table :: "process option list"
  process_global_lock :: bool
  process_to_release :: "nat list"
  ready_queue :: "nat list"
  sleeping_queue :: "sleep_item list"
  cpus :: "cpu list"
  wqs :: "wq \<Rightarrow> nat list"
  timer :: u64
  ipis :: "u64 list"

definition thr :: "'a kernel_scheme \<Rightarrow> nat \<Rightarrow> thread option" where
  "thr k t = (if t < length (thread_table k) then thread_table k ! t else None)"

definition prc :: "'a kernel_scheme \<Rightarrow> nat \<Rightarrow> process option" where
  "prc k p = (if p < length (process_table k) then process_table k ! p else None)"

definition cpu_at :: "'a kernel_scheme \<Rightarrow> nat \<Rightarrow> cpu option" where
  "cpu_at k c = (if c < length (cpus k) then Some (cpus k ! c) else None)"

definition put_thr :: "nat \<Rightarrow> thread \<Rightarrow> 'a kernel_scheme \<Rightarrow> 'a kernel_scheme" where
  "put_thr t th k = k\<lparr>thread_table := (thread_table k)[t := Some th]\<rparr>"

definition put_prc :: "nat \<Rightarrow> process \<Rightarrow> 'a kernel_scheme \<Rightarrow> 'a kernel_scheme" where
  "put_prc p pr k = k\<lparr>process_table := (process_table k)[p := Some pr]\<rparr>"

section \<open>Threads\<close>

definition status :: "thread \<Rightarrow> Status" where
  "status th = (if status_exited th then EXITED else if status_block_cnt th \<noteq> 0 then BLOCKED
     else if status_running th then RUNNING else READY)"

definition block :: "nat \<Rightarrow> 'a kernel_scheme \<Rightarrow> 'a kernel_scheme option" where
  "block t k = do {
     th \<leftarrow> thr k t;
     Some (put_thr t (th\<lparr>status_block_cnt := status_block_cnt th + 1\<rparr>) k)
   }"

definition add_ready_thread :: "nat \<Rightarrow> 'a kernel_scheme \<Rightarrow> 'a kernel_scheme" where
  "add_ready_thread t k = k\<lparr>ready_queue := ready_queue k @ [t]\<rparr>"

definition wakeup :: "nat \<Rightarrow> 'a kernel_scheme \<Rightarrow> 'a kernel_scheme option" where
  "wakeup t k = do {
     th \<leftarrow> thr k t;
     let th = th\<lparr>status_block_cnt := status_block_cnt th - 1\<rparr>;
     let k = put_thr t th k;
     Some (if status_block_cnt th = 0 then if \<not> status_exited th then add_ready_thread t k else k else k)
   }"

section \<open>Wait queues\<close>

definition wq_push :: "wq \<Rightarrow> nat \<Rightarrow> 'a kernel_scheme \<Rightarrow> 'a kernel_scheme" where
  "wq_push q t k = k\<lparr>wqs := (wqs k)(q := wqs k q @ [t])\<rparr>"

definition wakeup_one :: "wq \<Rightarrow> 'a kernel_scheme \<Rightarrow> (nat option \<times> 'a kernel_scheme) option" where
  "wakeup_one q k =
     (case wqs k q of
        [] \<Rightarrow> Some (None, k)
      | t # que \<Rightarrow> do {
          k \<leftarrow> wakeup t (k\<lparr>wqs := (wqs k)(q := que)\<rparr>);
          Some (Some t, k)
        })"

fun wakeup_loop :: "wq \<Rightarrow> nat list \<Rightarrow> 'a kernel_scheme \<Rightarrow> 'a kernel_scheme option" where
  "wakeup_loop q [] k = Some k"
| "wakeup_loop q (t # que) k = do {
     k \<leftarrow> wakeup t (k\<lparr>wqs := (wqs k)(q := que)\<rparr>);
     wakeup_loop q que k
   }"

definition wakeup_all :: "wq \<Rightarrow> 'a kernel_scheme \<Rightarrow> 'a kernel_scheme option" where
  "wakeup_all q k = wakeup_loop q (wqs k q) k"

section \<open>The scheduler\<close>

text \<open>The priority queue is kept as the sorted list of its items, so that \<open>top\<close> is its head.\<close>

fun check_loop :: "sleep_item list \<Rightarrow> 'a kernel_scheme \<Rightarrow> 'a kernel_scheme option" where
  "check_loop [] k = Some k"
| "check_loop ((w, a, t) # que) k =
     (if w < timer k then do {
        k \<leftarrow> wakeup t (k\<lparr>sleeping_queue := que\<rparr>);
        check_loop que k
      } else Some k)"

definition check_sleeping :: "'a kernel_scheme \<Rightarrow> 'a kernel_scheme option" where
  "check_sleeping k = check_loop (sleeping_queue k) k"

text \<open>\<open>1 << cpu_id\<close> is an \<open>int\<close> that is extended to the 64 bits of the mask.\<close>

definition cpu_bit :: "nat \<Rightarrow> u64 option" where
  "cpu_bit c = (if c < 32 then Some (scast (push_bit c 1 :: u32)) else None)"

definition allowed :: "'a kernel_scheme \<Rightarrow> nat \<Rightarrow> thread \<Rightarrow> bool option" where
  "allowed k c th = do {
     pr \<leftarrow> prc k (th_process th);
     b \<leftarrow> cpu_bit c;
     Some (cpu_mask pr AND b \<noteq> 0)
   }"

text \<open>
  The loop over \<open>ready_queue\<close>: \<open>pre\<close> is the part before the iterator. After \<open>it = ready_queue.erase(it)\<close> the \<open>continue\<close>
  still increments the iterator, so the element behind the erased one is passed over, and an iterator at the end is incremented.
\<close>

fun select :: "'a kernel_scheme \<Rightarrow> nat \<Rightarrow> nat list \<Rightarrow> nat list \<Rightarrow> (nat option \<times> nat list) option" where
  "select k c pre [] = Some (None, pre)"
| "select k c pre [t] = do {
     th \<leftarrow> thr k t;
     if status th \<noteq> READY then None else do {
       ok \<leftarrow> allowed k c th;
       Some (if ok then (Some t, pre) else (None, pre @ [t]))
     }
   }"
| "select k c pre (t # u # que) = do {
     th \<leftarrow> thr k t;
     if status th \<noteq> READY then select k c (pre @ [u]) que else do {
       ok \<leftarrow> allowed k c th;
       if ok then Some (Some t, pre @ u # que) else select k c (pre @ [t]) (u # que)
     }
   }"

definition switch_to :: "nat \<Rightarrow> nat \<Rightarrow> nat \<Rightarrow> 'a kernel_scheme \<Rightarrow> 'a kernel_scheme option" where
  "switch_to c from_thread next_thread k = do {
     cpu \<leftarrow> cpu_at k c;
     let k = k\<lparr>cpus := (cpus k)[c := cpu\<lparr>current_thread := next_thread\<rparr>]\<rparr>;
     th \<leftarrow> thr k from_thread;
     let k = put_thr from_thread (th\<lparr>running_cpu := None, status_running := False\<rparr>) k;
     nth \<leftarrow> thr k next_thread;
     let k = put_thr next_thread (nth\<lparr>running_cpu := Some c, status_running := True\<rparr>) k;
     Some (if th_process th \<noteq> th_process nth
           then k\<lparr>cpus := (cpus k)[c := (cpus k ! c)\<lparr>satp := th_process nth\<rparr>]\<rparr> else k)
   }"

definition do_scheduler :: "nat \<Rightarrow> nat option \<Rightarrow> 'a kernel_scheme \<Rightarrow> 'a kernel_scheme option" where
  "do_scheduler c next_thread k = do {
     cpu \<leftarrow> cpu_at k c;
     let from_thread = current_thread cpu;
     th \<leftarrow> thr k from_thread;
     let k = put_thr from_thread (th\<lparr>status_running := False\<rparr>) k;
     case next_thread of
       Some t \<Rightarrow> switch_to c from_thread t k
     | None \<Rightarrow> do {
         k \<leftarrow> check_sleeping k;
         th \<leftarrow> thr k from_thread;
         let k = (if status th = READY then if from_thread \<noteq> idle_thread cpu then add_ready_thread from_thread k else k else k);
         (found, que) \<leftarrow> select k c [] (ready_queue k);
         let k = k\<lparr>ready_queue := que\<rparr>;
         switch_to c from_thread (case found of None \<Rightarrow> idle_thread cpu | Some t \<Rightarrow> t) k
       }
   }"

text \<open>\<open>do_block\<close>; the lock that its second form releases is a field of the object, which the caller clears.\<close>

definition do_block :: "nat \<Rightarrow> wq \<Rightarrow> 'a kernel_scheme \<Rightarrow> 'a kernel_scheme option" where
  "do_block c q k = do {
     cpu \<leftarrow> cpu_at k c;
     let k = wq_push q (current_thread cpu) k;
     k \<leftarrow> block (current_thread cpu) k;
     do_scheduler c None k
   }"

definition yield :: "nat \<Rightarrow> 'a kernel_scheme \<Rightarrow> 'a kernel_scheme option" where
  "yield c k = do_scheduler c None k"

text \<open>\<open>now\<close> is the timer when \<open>sleep\<close> reads it; the scheduler reads it again.\<close>

definition sleep :: "nat \<Rightarrow> u64 \<Rightarrow> u32 \<Rightarrow> 'a kernel_scheme \<Rightarrow> 'a kernel_scheme option" where
  "sleep c now time k = do {
     cpu \<leftarrow> cpu_at k c;
     let wakeup_time = now + ucast time;
     th \<leftarrow> thr k (current_thread cpu);
     let k = k\<lparr>sleeping_queue := insort (wakeup_time, th_addr th, current_thread cpu) (sleeping_queue k)\<rparr>;
     k \<leftarrow> block (current_thread cpu) k;
     do_scheduler c None k
   }"

end
