(* ===== verification/SchedInv.thy ===== *)
theory SchedInv
  imports Sched
begin

text \<open>
  The invariant of the scheduler: every thread is in one place (running on a CPU, in the ready queue, or in one wait queue) and its
  flags say which.
\<close>

section \<open>Places\<close>

definition cur :: "'a kernel_scheme \<Rightarrow> nat \<Rightarrow> nat option" where
  "cur k c = map_option current_thread (cpu_at k c)"

definition idle :: "'a kernel_scheme \<Rightarrow> nat \<Rightarrow> bool" where
  "idle k t \<longleftrightarrow> (\<exists>c<length (cpus k). idle_thread (cpus k ! c) = t)"

definition sleepers :: "'a kernel_scheme \<Rightarrow> nat list" where
  "sleepers k = map (snd \<circ> snd) (sleeping_queue k)"

text \<open>All queues as one function: the sleeping queue and the wait queues.\<close>

definition qs :: "'a kernel_scheme \<Rightarrow> wq option \<Rightarrow> nat list" where
  "qs k p = (case p of None \<Rightarrow> sleepers k | Some q \<Rightarrow> wqs k q)"

definition waiting :: "'a kernel_scheme \<Rightarrow> nat \<Rightarrow> bool" where
  "waiting k t \<longleftrightarrow> (\<exists>p. t \<in> set (qs k p))"

definition disjoint_lists :: "('p \<Rightarrow> 'a list) \<Rightarrow> bool" where
  "disjoint_lists Q \<longleftrightarrow> (\<forall>p. distinct (Q p)) \<and> (\<forall>p p' t. t \<in> set (Q p) \<longrightarrow> t \<in> set (Q p') \<longrightarrow> p = p')"

definition queues_ok :: "'a kernel_scheme \<Rightarrow> bool" where
  "queues_ok k \<longleftrightarrow> disjoint_lists (qs k)"

text \<open>
  \<open>C\<close> says which thread runs on which CPU, and the threads of \<open>X\<close> are those that a CPU is just taking from one place to another.
\<close>

definition thread_ok :: "(nat \<Rightarrow> nat option) \<Rightarrow> nat set \<Rightarrow> 'a kernel_scheme \<Rightarrow> nat \<Rightarrow> thread \<Rightarrow> bool" where
  "thread_ok C X k t th \<longleftrightarrow>
     status_block_cnt th = (if waiting k t then 1 else 0) \<and> (status_running th \<longleftrightarrow> t \<in> ran C) \<and>
     (t \<in> set (ready_queue k) \<longrightarrow> \<not> waiting k t \<and> t \<notin> ran C) \<and>
     (waiting k t \<and> t \<in> ran C \<longrightarrow> t \<in> X) \<and>
     (t \<notin> X \<and> \<not> status_exited th \<and> \<not> idle k t \<longrightarrow> t \<in> set (ready_queue k) \<or> waiting k t \<or> t \<in> ran C) \<and>
     (idle k t \<longrightarrow> t \<notin> set (ready_queue k) \<and> \<not> waiting k t \<and> \<not> status_exited th) \<and>
     (\<forall>c. C c = Some t \<longrightarrow> running_cpu th = Some c)"

definition cpus_ok :: "(nat \<Rightarrow> nat option) \<Rightarrow> 'a kernel_scheme \<Rightarrow> bool" where
  "cpus_ok C k \<longleftrightarrow> dom C \<subseteq> {..<length (cpus k)} \<and> inj_on C (dom C) \<and>
     (\<forall>c c'. c' < length (cpus k) \<and> C c = Some (idle_thread (cpus k ! c')) \<longrightarrow> c = c') \<and>
     inj_on (\<lambda>c. idle_thread (cpus k ! c)) {..<length (cpus k)}"

definition places :: "(nat \<Rightarrow> nat option) \<Rightarrow> nat set \<Rightarrow> 'a kernel_scheme \<Rightarrow> bool" where
  "places C X k \<longleftrightarrow> distinct (ready_queue k) \<and> queues_ok k \<and> cpus_ok C k \<and>
     (\<forall>t. t \<in> set (ready_queue k) \<or> waiting k t \<or> t \<in> ran C \<or> idle k t \<or> t \<in> X \<longrightarrow> thr k t \<noteq> None) \<and>
     (\<forall>t th. thr k t = Some th \<longrightarrow> thread_ok C X k t th)"

definition satp_ok :: "'a kernel_scheme \<Rightarrow> bool" where
  "satp_ok k \<longleftrightarrow> (\<forall>c th. c < length (cpus k) \<and> thr k (current_thread (cpus k ! c)) = Some th \<longrightarrow> satp (cpus k ! c) = th_process th)"

definition sched_inv :: "'a kernel_scheme \<Rightarrow> bool" where
  "sched_inv k \<longleftrightarrow> places (cur k) {} k \<and> satp_ok k"

section \<open>Frame lemmas\<close>

lemma thr_put [simp]: "t < length (thread_table k) \<Longrightarrow> thr (put_thr t th k) u = (if u = t then Some th else thr k u)"
  by (simp add: thr_def put_thr_def nth_list_update)

lemma thr_SomeD: "thr k t = Some th \<Longrightarrow> t < length (thread_table k)"
  by (simp add: thr_def split: if_splits)

lemma put_thr_frame [simp, frame_simps]:
  "ready_queue (put_thr t th k) = ready_queue k" "sleeping_queue (put_thr t th k) = sleeping_queue k" "cpus (put_thr t th k) = cpus k"
  "wqs (put_thr t th k) = wqs k" "timer (put_thr t th k) = timer k" "length (thread_table (put_thr t th k)) = length (thread_table k)"
  "process_table (put_thr t th k) = process_table k" "ipis (put_thr t th k) = ipis k"
  "process_global_lock (put_thr t th k) = process_global_lock k" "kernel.more (put_thr t th k) = kernel.more k"
  by (simp_all add: put_thr_def)

text \<open>What a predicate of the state depends on.\<close>

lemma thr_cong: "thread_table k' = thread_table k \<Longrightarrow> thr k' = thr k"
  by (simp add: thr_def fun_eq_iff)

lemma idle_cong: "cpus k' = cpus k \<Longrightarrow> idle k' = idle k"
  by (simp add: idle_def fun_eq_iff)

lemma qs_cong: "sleeping_queue k' = sleeping_queue k \<Longrightarrow> wqs k' = wqs k \<Longrightarrow> qs k' = qs k"
  by (simp add: qs_def sleepers_def fun_eq_iff split: option.split)

lemma waiting_cong: "qs k' = qs k \<Longrightarrow> waiting k' = waiting k"
  by (simp add: waiting_def fun_eq_iff)

lemma queues_ok_cong: "qs k' = qs k \<Longrightarrow> queues_ok k' = queues_ok k"
  by (simp add: queues_ok_def)

lemma cpus_ok_cong: "cpus k' = cpus k \<Longrightarrow> cpus_ok C k' = cpus_ok C k"
  by (simp add: cpus_ok_def)

lemma thr_upd [simp]:
  "thr (k\<lparr>ready_queue := r\<rparr>) = thr k" "thr (k\<lparr>wqs := w\<rparr>) = thr k" "thr (k\<lparr>sleeping_queue := s\<rparr>) = thr k" "thr (k\<lparr>cpus := cs\<rparr>) = thr k"
  by (rule thr_cong, simp)+

lemma idle_upd [simp]:
  "idle (k\<lparr>ready_queue := r\<rparr>) = idle k" "idle (k\<lparr>wqs := w\<rparr>) = idle k" "idle (k\<lparr>sleeping_queue := s\<rparr>) = idle k" "idle (put_thr t th k) = idle k"
  by (rule idle_cong, simp)+

lemma qs_upd [simp]: "qs (k\<lparr>ready_queue := r\<rparr>) = qs k" "qs (put_thr t th k) = qs k" "qs (k\<lparr>cpus := cs\<rparr>) = qs k"
  "qs (k\<lparr>wqs := (wqs k)(q := que)\<rparr>) = (qs k)(Some q := que)"
  "qs (k\<lparr>sleeping_queue := items\<rparr>) = (qs k)(None := map (snd \<circ> snd) items)"
  by (auto simp: qs_def sleepers_def fun_eq_iff split: option.splits)

lemma waiting_upd [simp]: "waiting (k\<lparr>ready_queue := r\<rparr>) = waiting k" "waiting (put_thr t th k) = waiting k" "waiting (k\<lparr>cpus := cs\<rparr>) = waiting k"
  by (rule waiting_cong, simp)+

lemma queues_ok_upd [simp]: "queues_ok (k\<lparr>ready_queue := r\<rparr>) = queues_ok k" "queues_ok (put_thr t th k) = queues_ok k" "queues_ok (k\<lparr>cpus := cs\<rparr>) = queues_ok k"
  by (rule queues_ok_cong, simp)+

lemma cpus_ok_upd [simp]:
  "cpus_ok C (k\<lparr>ready_queue := r\<rparr>) = cpus_ok C k" "cpus_ok C (k\<lparr>wqs := w\<rparr>) = cpus_ok C k" "cpus_ok C (k\<lparr>sleeping_queue := s\<rparr>) = cpus_ok C k"
  "cpus_ok C (put_thr t th k) = cpus_ok C k"
  by (rule cpus_ok_cong, simp)+

lemma placesD:
  assumes "places C X k"
  shows "distinct (ready_queue k)" "queues_ok k" "cpus_ok C k" "thr k t = Some th \<Longrightarrow> thread_ok C X k t th"
    "t \<in> set (ready_queue k) \<or> waiting k t \<or> t \<in> ran C \<or> idle k t \<or> t \<in> X \<Longrightarrow> \<exists>th. thr k t = Some th"
  using assms by (auto simp: places_def)

section \<open>Waking a thread\<close>

lemma disjoint_lists_pop:
  assumes "disjoint_lists Q" "Q p = t # que"
  shows "disjoint_lists (Q(p := que))" "(\<exists>p'. u \<in> set ((Q(p := que)) p')) \<longleftrightarrow> (\<exists>p'. u \<in> set (Q p')) \<and> u \<noteq> t"
proof -
  have d: "distinct (t # que)" using assms unfolding disjoint_lists_def by metis
  have o: "t \<notin> set (Q p')" if "p' \<noteq> p" for p' using assms that unfolding disjoint_lists_def by (metis list.set_intros(1))
  have sub: "set ((Q(p := que)) p') \<subseteq> set (Q p')" for p' using assms(2) by auto
  show "disjoint_lists (Q(p := que))" using assms(1) d sub unfolding disjoint_lists_def by (metis distinct.simps(2) fun_upd_apply subsetD)
  show "(\<exists>p'. u \<in> set ((Q(p := que)) p')) \<longleftrightarrow> (\<exists>p'. u \<in> set (Q p')) \<and> u \<noteq> t"
    using d o sub assms(2) by (metis distinct.simps(2) fun_upd_other fun_upd_same set_ConsD subsetD)
qed

lemma disjoint_lists_push:
  assumes "disjoint_lists Q" "\<And>p'. t \<notin> set (Q p')" "set que = insert t (set (Q p))" "distinct que"
  shows "disjoint_lists (Q(p := que))" "(\<exists>p'. u \<in> set ((Q(p := que)) p')) \<longleftrightarrow> (\<exists>p'. u \<in> set (Q p')) \<or> u = t"
proof -
  show "disjoint_lists (Q(p := que))" using assms unfolding disjoint_lists_def by auto
  show "(\<exists>p'. u \<in> set ((Q(p := que)) p')) \<longleftrightarrow> (\<exists>p'. u \<in> set (Q p')) \<or> u = t" using assms(3) by (auto split: if_splits)
qed

text \<open>\<open>k'\<close> is \<open>k\<close> with \<open>t\<close> taken out of the queue in which it waits.\<close>

definition popped :: "nat \<Rightarrow> 'a kernel_scheme \<Rightarrow> 'a kernel_scheme \<Rightarrow> bool" where
  "popped t k k' \<longleftrightarrow> thread_table k' = thread_table k \<and> ready_queue k' = ready_queue k \<and> cpus k' = cpus k \<and> queues_ok k' \<and>
     waiting k t \<and> (\<forall>u. waiting k' u \<longleftrightarrow> waiting k u \<and> u \<noteq> t)"

lemma poppedI:
  assumes "queues_ok k" "qs k p = t # que" "qs k' = (qs k)(p := que)"
    "thread_table k' = thread_table k" "ready_queue k' = ready_queue k" "cpus k' = cpus k"
  shows "popped t k k'"
  using disjoint_lists_pop [of "qs k" p t que] assms(1-3) unfolding queues_ok_def popped_def waiting_def assms(3-6)
  by (metis list.set_intros(1))

lemma popped_wq: "queues_ok k \<Longrightarrow> wqs k q = t # que \<Longrightarrow> popped t k (k\<lparr>wqs := (wqs k)(q := que)\<rparr>)"
  by (rule poppedI [where p = "Some q"]) (simp_all add: qs_def)

lemma popped_sleep: "queues_ok k \<Longrightarrow> sleeping_queue k = (w, a, t) # que \<Longrightarrow> popped t k (k\<lparr>sleeping_queue := que\<rparr>)"
  by (rule poppedI [where p = None and que = "map (snd \<circ> snd) que"]) (simp_all add: qs_def sleepers_def)

text \<open>A thread that was taken from its queue is woken without error and is ready afterwards, unless it has exited.\<close>

lemma wakeup_places:
  assumes "places C X k" "popped t k k'" "t \<notin> ran C"
  obtains th where "thr k t = Some th"
    "wakeup t k' = Some ((put_thr t (th\<lparr>status_block_cnt := 0\<rparr>) k')\<lparr>ready_queue := ready_queue k @ (if status_exited th then [] else [t])\<rparr>)"
    "places C X ((put_thr t (th\<lparr>status_block_cnt := 0\<rparr>) k')\<lparr>ready_queue := ready_queue k @ (if status_exited th then [] else [t])\<rparr>)"
proof -
  have p: "thread_table k' = thread_table k" "ready_queue k' = ready_queue k" "cpus k' = cpus k" "queues_ok k'"
    "waiting k t" "\<And>u. waiting k' u \<longleftrightarrow> waiting k u \<and> u \<noteq> t"
    using assms(2) by (auto simp: popped_def)
  note thr = thr_cong [OF p(1)] and idle = idle_cong [OF p(3)]
  obtain th where th: "thr k t = Some th" using placesD(5) [OF assms(1)] p(5) by blast
  have ok: "thread_ok C X k t th" by (rule placesD(4) [OF assms(1) th])
  have len: "t < length (thread_table k')" using thr_SomeD [OF th] p(1) by simp
  have c: "status_block_cnt th = 1" using ok p(5) by (simp add: thread_ok_def)
  let ?th = "th\<lparr>status_block_cnt := 0\<rparr>"
  let ?k = "(put_thr t ?th k')\<lparr>ready_queue := ready_queue k @ (if status_exited th then [] else [t])\<rparr>"
  have w: "wakeup t k' = Some ?k"
    using c th p(2) by (simp add: wakeup_def thr add_ready_thread_def put_thr_def Let_def)
  have nr: "t \<notin> set (ready_queue k)" "\<not> idle k t" using ok p(5) by (auto simp: thread_ok_def)
  have other: "thread_ok C X ?k u uh" if "u \<noteq> t" "thr k u = Some uh" for u uh
    using placesD(4) [OF assms(1) that(2)] that(1) by (simp add: thread_ok_def p(6) idle)
  have "thread_ok C X ?k t ?th" using ok assms(3) p(5) nr by (auto simp: thread_ok_def p(6) idle)
  with other have "thread_ok C X ?k u uh" if "thr ?k u = Some uh" for u uh using that len by (simp add: thr split: if_splits)
  moreover have "thr ?k u \<noteq> None" if "u \<in> set (ready_queue ?k) \<or> waiting ?k u \<or> u \<in> ran C \<or> idle ?k u \<or> u \<in> X" for u
    using that placesD(5) [OF assms(1), of u] len th by (auto simp: thr idle p(6) split: if_splits)
  moreover have "distinct (ready_queue ?k)" "queues_ok ?k" "cpus_ok C ?k"
    using placesD(1,3) [OF assms(1)] nr(1) p(4) cpus_ok_cong [OF p(3)] by auto
  ultimately have "places C X ?k" unfolding places_def by blast
  with th w show thesis by (rule that)
qed

text \<open>What waking threads leaves as it is: all but the block counts and the queues.\<close>

definition unblocked :: "thread \<Rightarrow> thread" where
  "unblocked th = th\<lparr>status_block_cnt := 0\<rparr>"

definition wake_frame :: "'a kernel_scheme \<Rightarrow> 'a kernel_scheme \<Rightarrow> bool" where
  "wake_frame k k' \<longleftrightarrow> cpus k' = cpus k \<and> process_table k' = process_table k \<and> timer k' = timer k \<and> kernel.more k' = kernel.more k \<and>
     (\<forall>t. map_option unblocked (thr k' t) = map_option unblocked (thr k t))"

lemma wake_frame_refl: "wake_frame k k"
  by (simp add: wake_frame_def)

lemma wake_frame_trans: "wake_frame k k' \<Longrightarrow> wake_frame k' k'' \<Longrightarrow> wake_frame k k''"
  by (simp add: wake_frame_def)

lemma wake_frameD:
  assumes "wake_frame k k'"
  shows "cpus k' = cpus k" "process_table k' = process_table k" "timer k' = timer k" "kernel.more k' = kernel.more k"
    "thr k t = Some th \<Longrightarrow> \<exists>th'. thr k' t = Some th' \<and> unblocked th' = unblocked th"
  using assms by (auto simp: wake_frame_def dest!: spec [of _ t])

lemma unblocked_eqD:
  assumes "unblocked th' = unblocked th"
  shows "status_exited th' = status_exited th" "th_process th' = th_process th" "status_running th' = status_running th"
    "running_cpu th' = running_cpu th" "th_addr th' = th_addr th"
  using assms by (cases th; cases th'; simp add: unblocked_def)+

text \<open>The threads of a list that have not exited, in the order of the list: those that waking makes ready.\<close>

definition live :: "'a kernel_scheme \<Rightarrow> nat list \<Rightarrow> nat list" where
  "live k ts = filter (\<lambda>t. \<exists>th. thr k t = Some th \<and> \<not> status_exited th) ts"

lemma wake_frame_live:
  assumes "wake_frame k k'"
  shows "live k' ts = live k ts"
proof -
  have e: "map_option unblocked (thr k' t) = map_option unblocked (thr k t)" for t using assms by (simp add: wake_frame_def)
  have "(\<exists>th. thr k' t = Some th \<and> \<not> status_exited th) \<longleftrightarrow> (\<exists>th. thr k t = Some th \<and> \<not> status_exited th)" for t
    using e [of t] by (cases "thr k t"; cases "thr k' t") (auto dest: unblocked_eqD)
  then show ?thesis by (simp add: live_def)
qed

lemma wake_step:
  assumes "places C X k" "popped t k k'" "t \<notin> ran C" "wake_frame k k'"
  obtains k'' where "wakeup t k' = Some k''" "places C X k''" "wake_frame k k''" "wqs k'' = wqs k'" "sleeping_queue k'' = sleeping_queue k'"
    "ready_queue k'' = ready_queue k @ live k [t]" "\<forall>u. u \<noteq> t \<longrightarrow> thr k'' u = thr k u"
proof -
  obtain th where th: "thr k t = Some th"
    "wakeup t k' = Some ((put_thr t (th\<lparr>status_block_cnt := 0\<rparr>) k')\<lparr>ready_queue := ready_queue k @ (if status_exited th then [] else [t])\<rparr>)"
    "places C X ((put_thr t (th\<lparr>status_block_cnt := 0\<rparr>) k')\<lparr>ready_queue := ready_queue k @ (if status_exited th then [] else [t])\<rparr>)"
    by (rule wakeup_places [OF assms(1-3)])
  have tt: "thread_table k' = thread_table k" using assms(2) by (simp add: popped_def)
  let ?k = "(put_thr t (th\<lparr>status_block_cnt := 0\<rparr>) k')\<lparr>ready_queue := ready_queue k @ (if status_exited th then [] else [t])\<rparr>"
  have "wake_frame k ?k" using assms(4) th(1) thr_SomeD [OF th(1)] thr_cong [OF tt] tt
    by (simp add: wake_frame_def unblocked_def)
  moreover have "\<forall>u. u \<noteq> t \<longrightarrow> thr ?k u = thr k u" using thr_SomeD [OF th(1)] tt thr_cong [OF tt] by simp
  ultimately show thesis using that [OF th(2,3)] th(1) by (simp add: live_def)
qed

lemma wakeup_loop_places:
  assumes "places C X k" "wqs k q = ts" "set ts \<inter> ran C = {}"
  shows "\<exists>k'. wakeup_loop q ts k = Some k' \<and> places C X k' \<and> wake_frame k k' \<and> wqs k' = (wqs k)(q := []) \<and>
    sleeping_queue k' = sleeping_queue k \<and> ready_queue k' = ready_queue k @ live k ts"
  using assms
proof (induction ts arbitrary: k)
  case Nil
  then show ?case by (auto simp: wake_frame_refl live_def)
next
  case (Cons t ts)
  have pop: "popped t k (k\<lparr>wqs := (wqs k)(q := ts)\<rparr>)" by (rule popped_wq [OF placesD(2) [OF Cons.prems(1)] Cons.prems(2)])
  have fr: "wake_frame k (k\<lparr>wqs := (wqs k)(q := ts)\<rparr>)" by (simp add: wake_frame_def)
  obtain k1 where k1: "wakeup t (k\<lparr>wqs := (wqs k)(q := ts)\<rparr>) = Some k1" "places C X k1" "wake_frame k k1" "wqs k1 = (wqs k)(q := ts)"
    "sleeping_queue k1 = sleeping_queue k" "ready_queue k1 = ready_queue k @ live k [t]" "\<forall>u. u \<noteq> t \<longrightarrow> thr k1 u = thr k u"
    using wake_step [OF Cons.prems(1) pop _ fr] Cons.prems(3) by auto
  obtain k2 where k2: "wakeup_loop q ts k1 = Some k2" "places C X k2" "wake_frame k1 k2" "wqs k2 = (wqs k)(q := [])"
    "sleeping_queue k2 = sleeping_queue k1" "ready_queue k2 = ready_queue k1 @ live k1 ts"
    using Cons.IH [OF k1(2)] k1(4) Cons.prems(3) by (auto simp: fun_upd_def cong: if_cong)
  have "live k [t] @ live k1 ts = live k (t # ts)" unfolding wake_frame_live [OF k1(3)] by (simp add: live_def)
  with k1 k2 show ?case by (auto intro: wake_frame_trans)
qed

lemmas wakeup_all_places = wakeup_loop_places [OF _ refl, folded wakeup_all_def]

lemma wakeup_one_places:
  assumes "places C X k" "set (wqs k q) \<inter> ran C = {}"
  shows "\<exists>k'. wakeup_one q k = Some (case wqs k q of [] \<Rightarrow> None | t # _ \<Rightarrow> Some t, k') \<and> places C X k' \<and> wake_frame k k' \<and>
    wqs k' = (wqs k)(q := tl (wqs k q)) \<and> sleeping_queue k' = sleeping_queue k \<and> ready_queue k' = ready_queue k @ live k (take 1 (wqs k q))"
proof (cases "wqs k q")
  case Nil
  with assms(1) show ?thesis by (auto simp: wakeup_one_def wake_frame_refl live_def)
next
  case (Cons t ts)
  have pop: "popped t k (k\<lparr>wqs := (wqs k)(q := ts)\<rparr>)" by (rule popped_wq [OF placesD(2) [OF assms(1)] Cons])
  have fr: "wake_frame k (k\<lparr>wqs := (wqs k)(q := ts)\<rparr>)" by (simp add: wake_frame_def)
  obtain k1 where k1: "wakeup t (k\<lparr>wqs := (wqs k)(q := ts)\<rparr>) = Some k1" "places C X k1" "wake_frame k k1" "wqs k1 = (wqs k)(q := ts)"
    "sleeping_queue k1 = sleeping_queue k" "ready_queue k1 = ready_queue k @ live k [t]" "\<forall>u. u \<noteq> t \<longrightarrow> thr k1 u = thr k u"
    using wake_step [OF assms(1) pop _ fr] assms(2) Cons by auto
  with Cons show ?thesis by (simp add: wakeup_one_def)
qed

text \<open>The items of the sleeping queue that are due.\<close>

definition due :: "'a kernel_scheme \<Rightarrow> nat list" where
  "due k = map (snd \<circ> snd) (takeWhile (\<lambda>i. fst i < timer k) (sleeping_queue k))"

lemma check_loop_places:
  assumes "places C X k" "sleeping_queue k = items" "set (sleepers k) \<inter> ran C = {}"
  shows "\<exists>k'. check_loop items k = Some k' \<and> places C X k' \<and> wake_frame k k' \<and> wqs k' = wqs k \<and>
    ready_queue k' = ready_queue k @ live k (due k) \<and> (\<forall>u. u \<notin> set (due k) \<longrightarrow> thr k' u = thr k u) \<and> due k' = []"
  using assms
proof (induction items arbitrary: k)
  case Nil
  then show ?case by (simp add: wake_frame_refl live_def due_def)
next
  case (Cons i items)
  obtain w a t where i: "i = (w, a, t)" by (cases i) auto
  show ?case
  proof (cases "w < timer k")
    case False
    with Cons.prems show ?thesis by (simp add: i wake_frame_refl live_def due_def)
  next
    case True
    let ?k = "k\<lparr>sleeping_queue := items\<rparr>"
    have pop: "popped t k ?k" by (rule popped_sleep [OF placesD(2) [OF Cons.prems(1)] Cons.prems(2) [unfolded i]])
    have fr: "wake_frame k ?k" by (simp add: wake_frame_def)
    have "t \<notin> ran C" using Cons.prems(2,3) i by (auto simp: sleepers_def)
    then obtain k1 where k1: "wakeup t ?k = Some k1" "places C X k1" "wake_frame k k1" "wqs k1 = wqs k"
      "sleeping_queue k1 = items" "ready_queue k1 = ready_queue k @ live k [t]" "\<forall>u. u \<noteq> t \<longrightarrow> thr k1 u = thr k u"
      using wake_step [OF Cons.prems(1) pop _ fr] by auto
    have "set (sleepers k1) \<inter> ran C = {}" using Cons.prems(2,3) k1(5) by (auto simp: sleepers_def)
    then obtain k2 where k2: "check_loop items k1 = Some k2" "places C X k2" "wake_frame k1 k2" "wqs k2 = wqs k1"
      "ready_queue k2 = ready_queue k1 @ live k1 (due k1)" "\<forall>u. u \<notin> set (due k1) \<longrightarrow> thr k2 u = thr k1 u" "due k2 = []"
      using Cons.IH [OF k1(2,5)] by auto
    have d: "due k = t # due k1" using True wake_frameD(3) [OF k1(3)] by (simp add: due_def Cons.prems(2) i k1(5))
    have "live k [t] @ live k1 (due k1) = live k (due k)" unfolding wake_frame_live [OF k1(3)] d by (simp add: live_def)
    with True k1 k2 d show ?thesis by (auto simp: i intro: wake_frame_trans)
  qed
qed

lemmas check_sleeping_places = check_loop_places [OF _ refl, folded check_sleeping_def]

section \<open>Switching\<close>

lemma placesI:
  assumes "distinct (ready_queue k)" "queues_ok k" "cpus_ok C k"
    "\<And>t. t \<in> set (ready_queue k) \<or> waiting k t \<or> t \<in> ran C \<or> idle k t \<or> t \<in> X \<Longrightarrow> thr k t \<noteq> None"
    "\<And>t th. thr k t = Some th \<Longrightarrow> thread_ok C X k t th"
  shows "places C X k"
  using assms by (simp add: places_def)

lemma cpus_ok_inj: "cpus_ok C k \<Longrightarrow> C c = Some t \<Longrightarrow> C c' = Some t \<Longrightarrow> c = c'"
  by (metis cpus_ok_def domI inj_onD)

lemma ran_remove:
  assumes "cpus_ok C k" "C c = Some t"
  shows "ran (C(c := None)) = ran C - {t}"
  using cpus_ok_inj [OF assms(1)] assms(2) by (auto simp: ran_def) (metis option.inject)

lemma cpus_ok_remove: "cpus_ok C k \<Longrightarrow> cpus_ok (C(c := None)) k"
  unfolding cpus_ok_def by (auto simp: inj_on_def dom_def split: if_splits)

text \<open>The running thread is marked as not running.\<close>

lemma places_stop:
  assumes "places C X k" "C c = Some t" "thr k t = Some th" "X \<subseteq> {t}"
  shows "places (C(c := None)) {t} (put_thr t (th\<lparr>status_running := False\<rparr>) k)"
proof (rule placesI)
  have len: "t < length (thread_table k)" by (rule thr_SomeD [OF assms(3)])
  have r: "ran (C(c := None)) = ran C - {t}" by (rule ran_remove [OF placesD(3) [OF assms(1)] assms(2)])
  show "distinct (ready_queue (put_thr t (th\<lparr>status_running := False\<rparr>) k))" "queues_ok (put_thr t (th\<lparr>status_running := False\<rparr>) k)"
    "cpus_ok (C(c := None)) (put_thr t (th\<lparr>status_running := False\<rparr>) k)"
    using placesD(1-3) [OF assms(1)] by (simp_all add: cpus_ok_remove)
  show "thr (put_thr t (th\<lparr>status_running := False\<rparr>) k) u \<noteq> None"
    if "u \<in> set (ready_queue (put_thr t (th\<lparr>status_running := False\<rparr>) k)) \<or> waiting (put_thr t (th\<lparr>status_running := False\<rparr>) k) u \<or>
      u \<in> ran (C(c := None)) \<or> idle (put_thr t (th\<lparr>status_running := False\<rparr>) k) u \<or> u \<in> {t}" for u
    using that placesD(5) [OF assms(1), of u] len r by auto
  show "thread_ok (C(c := None)) {t} (put_thr t (th\<lparr>status_running := False\<rparr>) k) u uh"
    if "thr (put_thr t (th\<lparr>status_running := False\<rparr>) k) u = Some uh" for u uh
  proof (cases "u = t")
    case True
    with that len have "uh = th\<lparr>status_running := False\<rparr>" by simp
    with True placesD(4) [OF assms(1,3)] cpus_ok_inj [OF placesD(3) [OF assms(1)] assms(2)] show ?thesis
      unfolding thread_ok_def r by auto
  next
    case False
    then have "thr k u = Some uh" using that len by simp
    from False placesD(4) [OF assms(1) this] assms(4) show ?thesis unfolding thread_ok_def r by auto
  qed
qed

text \<open>\<open>k'\<close> is \<open>k\<close> with the thread put at the end of a wait queue or into the sleeping queue.\<close>

definition pushed :: "nat \<Rightarrow> 'a kernel_scheme \<Rightarrow> 'a kernel_scheme \<Rightarrow> bool" where
  "pushed t k k' \<longleftrightarrow> thread_table k' = thread_table k \<and> ready_queue k' = ready_queue k \<and> cpus k' = cpus k \<and> queues_ok k' \<and>
     (\<forall>u. waiting k' u \<longleftrightarrow> waiting k u \<or> u = t)"

lemma pushedI:
  assumes "queues_ok k" "\<not> waiting k t" "set que = insert t (set (qs k p))" "distinct que" "qs k' = (qs k)(p := que)"
    "thread_table k' = thread_table k" "ready_queue k' = ready_queue k" "cpus k' = cpus k"
  shows "pushed t k k'"
proof -
  have nw: "t \<notin> set (qs k p')" for p' using assms(2) by (auto simp: waiting_def)
  show ?thesis
    using disjoint_lists_push [OF assms(1) [unfolded queues_ok_def] nw assms(3,4)]
    unfolding queues_ok_def pushed_def waiting_def assms(5-8) by metis
qed

lemma waiting_notin: "\<not> waiting k t \<Longrightarrow> t \<notin> set (qs k p)"
  by (auto simp: waiting_def)

lemma pushed_wq:
  assumes "queues_ok k" "\<not> waiting k t"
  shows "pushed t k (wq_push q t k)"
proof (rule pushedI [where p = "Some q" and que = "wqs k q @ [t]", OF assms])
  have e: "wqs k q = qs k (Some q)" by (simp add: qs_def)
  show "distinct (wqs k q @ [t])" using assms(1) waiting_notin [OF assms(2)] unfolding e by (simp add: queues_ok_def disjoint_lists_def)
qed (simp_all add: wq_push_def qs_def)

lemma pushed_sleep:
  assumes "queues_ok k" "\<not> waiting k t"
  shows "pushed t k (k\<lparr>sleeping_queue := insort (w, a, t) (sleeping_queue k)\<rparr>)"
proof (rule pushedI [where p = None and que = "map (snd \<circ> snd) (insort (w, a, t) (sleeping_queue k))", OF assms])
  have e: "map (snd \<circ> snd) (sleeping_queue k) = qs k None" by (simp add: qs_def sleepers_def)
  have d: "distinct (map (snd \<circ> snd) (sleeping_queue k))" "t \<notin> set (map (snd \<circ> snd) (sleeping_queue k))"
    unfolding e using assms(1) waiting_notin [OF assms(2)] by (simp_all add: queues_ok_def disjoint_lists_def)
  have "distinct (map f (insort x xs)) \<longleftrightarrow> distinct (map f (x # xs))" for f :: "sleep_item \<Rightarrow> nat" and x xs
    by (induction xs) (auto simp: set_insort_key)
  with d show "distinct (map (snd \<circ> snd) (insort (w, a, t) (sleeping_queue k)))" by simp
qed (auto simp: qs_def sleepers_def set_insort_key)

text \<open>The running thread blocks.\<close>

lemma places_block:
  assumes "places C {} k" "C c = Some t" "\<not> idle k t" "pushed t k k'"
  obtains th where "thr k t = Some th" "block t k' = Some (put_thr t (th\<lparr>status_block_cnt := 1\<rparr>) k')"
    "places C {t} (put_thr t (th\<lparr>status_block_cnt := 1\<rparr>) k')"
proof -
  have p: "thread_table k' = thread_table k" "ready_queue k' = ready_queue k" "cpus k' = cpus k" "queues_ok k'"
    "\<And>u. waiting k' u \<longleftrightarrow> waiting k u \<or> u = t"
    using assms(4) by (auto simp: pushed_def)
  note thr = thr_cong [OF p(1)] and idle = idle_cong [OF p(3)]
  have rt: "t \<in> ran C" using assms(2) by (rule ranI)
  obtain th where th: "thr k t = Some th" using placesD(5) [OF assms(1)] rt by blast
  have ok: "thread_ok C {} k t th" by (rule placesD(4) [OF assms(1) th])
  then have nw: "\<not> waiting k t" and c: "status_block_cnt th = 0" using rt by (auto simp: thread_ok_def)
  have len: "t < length (thread_table k')" using thr_SomeD [OF th] p(1) by simp
  let ?th = "th\<lparr>status_block_cnt := 1\<rparr>"
  have b: "block t k' = Some (put_thr t ?th k')" using th c by (simp add: block_def thr)
  have "places C {t} (put_thr t ?th k')"
  proof (rule placesI)
    show "distinct (ready_queue (put_thr t ?th k'))" "queues_ok (put_thr t ?th k')" "cpus_ok C (put_thr t ?th k')"
      using placesD(1,3) [OF assms(1)] p(2,4) cpus_ok_cong [OF p(3)] by simp_all
    show "thr (put_thr t ?th k') u \<noteq> None"
      if "u \<in> set (ready_queue (put_thr t ?th k')) \<or> waiting (put_thr t ?th k') u \<or> u \<in> ran C \<or> idle (put_thr t ?th k') u \<or> u \<in> {t}" for u
      using that placesD(5) [OF assms(1), of u] len p(2,5) by (auto simp: thr idle)
    show "thread_ok C {t} (put_thr t ?th k') u uh" if "thr (put_thr t ?th k') u = Some uh" for u uh
    proof (cases "u = t")
      case True
      with that len have "uh = ?th" by simp
      with True ok nw assms(3) show ?thesis by (auto simp: thread_ok_def p(2,5) idle rt)
    next
      case False
      then have "thr k u = Some uh" using that len by (simp add: thr)
      from False placesD(4) [OF assms(1) this] show ?thesis by (auto simp: thread_ok_def p(2,5) idle)
    qed
  qed
  with th b show thesis by (rule that)
qed

text \<open>A thread between two places that may run goes into the ready queue; another has a place already or needs none.\<close>

lemma places_ready:
  assumes "places C {t} k" "thr k t = Some th" "status th = READY" "\<not> idle k t" "t \<notin> set (ready_queue k)"
  shows "places C {} (add_ready_thread t k)"
proof -
  have ok: "thread_ok C {t} k t th" by (rule placesD(4) [OF assms(1,2)])
  then have nw: "\<not> waiting k t" "t \<notin> ran C" using assms(3) by (auto simp: thread_ok_def status_def split: if_splits)
  have other: "thread_ok C {} (k\<lparr>ready_queue := ready_queue k @ [t]\<rparr>) u uh" if "thr k u = Some uh" for u uh
    using placesD(4) [OF assms(1) that] nw assms(4) by (cases "u = t") (auto simp: thread_ok_def)
  show ?thesis unfolding add_ready_thread_def
    by (rule placesI) (use placesD(1-3,5) [OF assms(1)] assms(2,5) other in \<open>auto\<close>)
qed

lemma places_settled:
  assumes "places C {t} k" "thr k t = Some th" "status th \<noteq> READY \<or> idle k t" "t \<notin> ran C"
  shows "places C {} k"
proof -
  note ok = placesD(4) [OF assms(1,2)]
  have "\<not> status_running th" "status_block_cnt th = (if waiting k t then 1 else 0)" using ok assms(4) by (simp_all add: thread_ok_def)
  then have "status_exited th \<or> waiting k t \<or> idle k t" using assms(3) unfolding status_def by argo
  then have "thread_ok C {} k t th" using ok assms(4) unfolding thread_ok_def by blast
  moreover have "thread_ok C {} k u uh" if "thr k u = Some uh" "u \<noteq> t" for u uh
    using placesD(4) [OF assms(1) that(1)] that(2) by (simp add: thread_ok_def)
  ultimately have "thread_ok C {} k u uh" if "thr k u = Some uh" for u uh using that assms(2) by (cases "u = t") auto
  with assms(1) show ?thesis unfolding places_def by blast
qed

text \<open>The scan of the ready queue drops threads that have exited and takes a ready thread that may run on the CPU.\<close>

lemma ready_status:
  assumes "places C X k" "t \<in> set (ready_queue k)" "thr k t = Some th" "status th \<noteq> READY"
  shows "status_exited th"
  using placesD(4) [OF assms(1,3)] assms(2,4) by (auto simp: thread_ok_def status_def split: if_splits)

lemma select_spec:
  assumes "places C X k" "select k c pre que = Some (found, q)" "set (pre @ que) \<subseteq> set (ready_queue k)" "distinct (pre @ que)"
  shows "distinct q \<and> set q \<subseteq> set (pre @ que) \<and>
    (\<forall>t \<in> set (pre @ que) - set q. Some t = found \<or> (\<exists>th. thr k t = Some th \<and> status_exited th)) \<and>
    (\<forall>t. found = Some t \<longrightarrow> t \<in> set que \<and> t \<notin> set q \<and> (\<exists>th. thr k t = Some th \<and> status th = READY \<and> allowed k c th = Some True))"
  using assms
proof (induction k c pre que rule: select.induct)
  case (2 k c pre t)
  then show ?case by (auto simp: bind_Some_iff split: if_splits)
next
  case (3 k c pre t u que)
  obtain th where th: "thr k t = Some th" using 3(4) by (auto simp: bind_Some_iff)
  show ?case
  proof (cases "status th = READY")
    case False
    with th 3(4) have sel: "select k c (pre @ [u]) que = Some (found, q)" by simp
    have ex: "status_exited th" using ready_status [OF 3(3) _ th False] 3(5) by simp
    have "set ((pre @ [u]) @ que) \<subseteq> set (ready_queue k)" "distinct ((pre @ [u]) @ que)" using 3(5,6) by auto
    from 3(1) [OF th _ 3(3) sel this] False have ih: "distinct q" "set q \<subseteq> set ((pre @ [u]) @ que)"
      "\<forall>t \<in> set ((pre @ [u]) @ que) - set q. Some t = found \<or> (\<exists>th. thr k t = Some th \<and> status_exited th)"
      "\<forall>t. found = Some t \<longrightarrow> t \<in> set que \<and> t \<notin> set q \<and> (\<exists>th. thr k t = Some th \<and> status th = READY \<and> allowed k c th = Some True)"
      by blast+
    show ?thesis using ih th ex by auto
  next
    case True
    with th 3(4) obtain ok where ok: "allowed k c th = Some ok" by (auto simp: bind_Some_iff)
    show ?thesis
    proof (cases ok)
      case yes: True
      with True th ok 3(4) have "found = Some t" "q = pre @ u # que" by auto
      with True th ok yes 3(6) show ?thesis by auto
    next
      case no: False
      with True th ok 3(4) have sel: "select k c (pre @ [t]) (u # que) = Some (found, q)" by simp
      have "set ((pre @ [t]) @ u # que) \<subseteq> set (ready_queue k)" "distinct ((pre @ [t]) @ u # que)" using 3(5,6) by auto
      from 3(2) [OF th _ ok _ 3(3) sel this] True no show ?thesis by simp
    qed
  qed
qed simp

lemma places_select:
  assumes "places C {} k" "select k c [] (ready_queue k) = Some (found, q)"
  shows "places C (set_option found) (k\<lparr>ready_queue := q\<rparr>)"
    "found = Some t \<Longrightarrow> \<exists>th. t \<in> set (ready_queue k) \<and> thr k t = Some th \<and> status th = READY \<and> allowed k c th = Some True"
    "found = Some t \<Longrightarrow> t \<notin> set q"
proof -
  note sp = select_spec [OF assms(1,2), simplified, OF placesD(1) [OF assms(1)]]
  then have q: "distinct q" "set q \<subseteq> set (ready_queue k)" by auto
  have gone: "Some u = found \<or> status_exited uh" if "u \<in> set (ready_queue k)" "u \<notin> set q" "thr k u = Some uh" for u uh
    using sp that by fastforce
  have "thread_ok C (set_option found) (k\<lparr>ready_queue := q\<rparr>) u uh" if "thr k u = Some uh" for u uh
    using placesD(4) [OF assms(1) that] q(2) gone [OF _ _ that] unfolding thread_ok_def by (auto simp: elem_set)
  moreover have "thr k u \<noteq> None" if "u \<in> set_option found" for u using sp that by (auto simp: elem_set)
  ultimately show "places C (set_option found) (k\<lparr>ready_queue := q\<rparr>)"
    by (intro placesI) (use placesD(2,3,5) [OF assms(1)] q in \<open>auto\<close>)
  show "found = Some t \<Longrightarrow> \<exists>th. t \<in> set (ready_queue k) \<and> thr k t = Some th \<and> status th = READY \<and> allowed k c th = Some True"
    "found = Some t \<Longrightarrow> t \<notin> set q" using sp by auto
qed

lemma cpu_at_Some: "cpu_at k c = Some cpu \<longleftrightarrow> c < length (cpus k) \<and> cpu = cpus k ! c"
  by (auto simp: cpu_at_def)

lemma cur_Some: "cur k c = Some t \<longleftrightarrow> c < length (cpus k) \<and> current_thread (cpus k ! c) = t"
  by (auto simp: cur_def cpu_at_def)

lemma cur_cong: "cpus k' = cpus k \<Longrightarrow> cur k' = cur k"
  by (simp add: cur_def cpu_at_def fun_eq_iff)

text \<open>What the scheduler may take as the next thread.\<close>

definition runnable :: "'a kernel_scheme \<Rightarrow> nat \<Rightarrow> nat \<Rightarrow> bool" where
  "runnable k c t \<longleftrightarrow> (\<exists>th. thr k t = Some th \<and> \<not> status_exited th \<and> allowed k c th = Some True)"

text \<open>What the scheduler leaves as it is: the identity of the threads, the wait queues, the processes and the rest of the state.\<close>

definition ident :: "thread \<Rightarrow> nat \<times> bool \<times> u64" where
  "ident th = (th_process th, status_exited th, th_addr th)"

definition sched_frame :: "'a kernel_scheme \<Rightarrow> 'a kernel_scheme \<Rightarrow> bool" where
  "sched_frame k k' \<longleftrightarrow> wqs k' = wqs k \<and> process_table k' = process_table k \<and> timer k' = timer k \<and> kernel.more k' = kernel.more k \<and>
     map idle_thread (cpus k') = map idle_thread (cpus k) \<and> (\<forall>t. map_option ident (thr k' t) = map_option ident (thr k t))"

lemma sched_frame_trans: "sched_frame k k' \<Longrightarrow> sched_frame k' k'' \<Longrightarrow> sched_frame k k''"
  by (simp add: sched_frame_def)

lemma sched_frameD:
  assumes "sched_frame k k'"
  shows "wqs k' = wqs k" "process_table k' = process_table k" "timer k' = timer k" "kernel.more k' = kernel.more k"
    "length (cpus k') = length (cpus k)" "c < length (cpus k) \<Longrightarrow> idle_thread (cpus k' ! c) = idle_thread (cpus k ! c)"
    "thr k t = Some th \<Longrightarrow> \<exists>th'. thr k' t = Some th' \<and> ident th' = ident th"
    "thr k' t = Some th' \<Longrightarrow> \<exists>th. thr k t = Some th \<and> ident th' = ident th"
proof -
  have m: "map idle_thread (cpus k') = map idle_thread (cpus k)" using assms by (simp add: sched_frame_def)
  then show l: "length (cpus k') = length (cpus k)" by (metis length_map)
  show "c < length (cpus k) \<Longrightarrow> idle_thread (cpus k' ! c) = idle_thread (cpus k ! c)" using m l by (metis nth_map)
  have i: "map_option ident (thr k' t) = map_option ident (thr k t)" using assms by (simp add: sched_frame_def)
  then show "thr k t = Some th \<Longrightarrow> \<exists>th'. thr k' t = Some th' \<and> ident th' = ident th" by auto
  show "thr k' t = Some th' \<Longrightarrow> \<exists>th. thr k t = Some th \<and> ident th' = ident th" using i by (cases "thr k t") auto
qed (use assms in \<open>simp_all add: sched_frame_def\<close>)

lemma identD: "ident th' = ident th \<Longrightarrow> th_process th' = th_process th \<and> status_exited th' = status_exited th"
  by (simp add: ident_def)

lemma runnable_frame:
  assumes "sched_frame k k'"
  shows "runnable k' c t \<longleftrightarrow> runnable k c t"
proof -
  have a: "allowed k' c th' = allowed k c th" if "ident th' = ident th" for th th'
    using that sched_frameD(2) [OF assms] by (simp add: allowed_def prc_def ident_def)
  show ?thesis
  proof
    assume "runnable k' c t"
    then obtain th' where th': "thr k' t = Some th'" "\<not> status_exited th'" "allowed k' c th' = Some True" by (auto simp: runnable_def)
    obtain th where th: "thr k t = Some th" "ident th' = ident th" using sched_frameD(8) [OF assms th'(1)] by blast
    from th' th(1) a [OF th(2)] identD [OF th(2)] show "runnable k c t" by (simp add: runnable_def)
  next
    assume "runnable k c t"
    then obtain th where th: "thr k t = Some th" "\<not> status_exited th" "allowed k c th = Some True" by (auto simp: runnable_def)
    obtain th' where th': "thr k' t = Some th'" "ident th' = ident th" using sched_frameD(7) [OF assms th(1)] by blast
    from th th'(1) a [OF th'(2)] identD [OF th'(2)] show "runnable k' c t" by (simp add: runnable_def)
  qed
qed

text \<open>The context switch: \<open>n\<close> is in no place, its CPU runs nothing.\<close>

lemma places_switch:
  fixes k :: "'a kernel_scheme"
  defines "C \<equiv> \<lambda>c. (cur k)(c := None)"
  assumes "places (C c) X k" "X \<subseteq> {n}" "c < length (cpus k)" "thr k f = Some fh" "thr k n = Some nh"
    "n \<notin> set (ready_queue k)" "\<not> waiting k n" "\<not> status_exited nh" "n \<notin> ran (C c)"
    "idle k n \<Longrightarrow> n = idle_thread (cpus k ! c)" "\<And>c'. c' < length (cpus k) \<Longrightarrow> idle_thread (cpus k ! c') = n \<Longrightarrow> c' = c"
    "f \<notin> ran (C c)" "satp (cpus k ! c) = th_process fh"
  obtains k' where "switch_to c f n k = Some k'" "places (cur k') {} k'" "cur k' = (C c)(c \<mapsto> n)" "satp (cpus k' ! c) = th_process nh"
    "sched_frame k k'" "ready_queue k' = ready_queue k" "sleeping_queue k' = sleeping_queue k" "\<forall>c'. c' \<noteq> c \<longrightarrow> cpus k' ! c' = cpus k ! c'"
proof -
  define fh' where "fh' = fh\<lparr>running_cpu := None, status_running := False\<rparr>"
  define nh' where "nh' = (if f = n then fh' else nh)\<lparr>running_cpu := Some c, status_running := True\<rparr>"
  define cp where "cp = (cpus k ! c)\<lparr>current_thread := n, satp := th_process nh\<rparr>"
  define k' where "k' = (put_thr n nh' (put_thr f fh' k))\<lparr>cpus := (cpus k)[c := cp]\<rparr>"
  have lf: "f < length (thread_table k)" and ln: "n < length (thread_table k)" using thr_SomeD assms(5,6) by auto
  have pr: "th_process nh' = th_process nh" "status_exited nh' = status_exited nh" "status_block_cnt nh' = status_block_cnt nh"
    "running_cpu nh' = Some c" "status_running nh'"
    using assms(5,6) by (auto simp: nh'_def fh'_def)
  have same: "cp = (cpus k ! c)\<lparr>current_thread := n\<rparr>" if "th_process fh = th_process nh"
    using that assms(14) by (cases "cpus k ! c") (simp add: cp_def)
  have eq: "switch_to c f n k = Some k'"
  proof (cases "th_process fh = th_process nh")
    case True
    then show ?thesis unfolding k'_def same [OF True] using assms(4-6) lf ln
      by (cases k) (auto simp: switch_to_def cpu_at_def nh'_def fh'_def put_thr_def thr_def nth_list_update Let_def)
  next
    case False
    then show ?thesis unfolding k'_def cp_def using assms(4-6) lf ln
      by (cases k) (auto simp: switch_to_def cpu_at_def nh'_def fh'_def put_thr_def thr_def nth_list_update Let_def)
  qed
  have cpc: "cpus k' = (cpus k)[c := cp]" by (simp add: k'_def)
  have id: "idle_thread (cpus k' ! c') = idle_thread (cpus k ! c')" for c'
    using assms(4) by (cases "c' = c") (simp_all add: cpc cp_def)
  have idle: "idle k' = idle k" using id by (auto simp: idle_def fun_eq_iff cpc)
  have cu: "cur k' = (C c)(c \<mapsto> n)"
    using assms(4) by (auto simp: C_def cur_def cpu_at_def cpc cp_def fun_eq_iff)
  have thr': "thr k' t = (if t = n then Some nh' else if t = f then Some fh' else thr k t)" for t
    using lf ln by (simp add: k'_def)
  have qs': "qs k' = qs k" by (simp add: k'_def)
  note w = waiting_cong [OF qs']
  have rq: "ready_queue k' = ready_queue k" by (simp add: k'_def)
  have ran: "ran (cur k') = insert n (ran (C c))" unfolding cu by (rule ran_map_upd) (simp add: C_def)
  have cok: "cpus_ok (C c) k" by (rule placesD(3) [OF assms(2)])
  have "cpus_ok (cur k') k'"
    unfolding cpus_ok_def
  proof (intro conjI allI impI)
    show "dom (cur k') \<subseteq> {..<length (cpus k')}" by (auto simp: cur_def cpu_at_def split: if_splits)
    have "inj_on (C c) (dom (C c))" "\<And>c'. C c c' \<noteq> Some n" using cok assms(10) by (auto simp: cpus_ok_def intro: ranI)
    then show "inj_on (cur k') (dom (cur k'))" unfolding cu by (auto simp: inj_on_def dom_def split: if_splits)
    show "c1 = c2" if "c2 < length (cpus k') \<and> cur k' c1 = Some (idle_thread (cpus k' ! c2))" for c1 c2
      using that cok assms(12) [of c2] unfolding cu id by (auto simp: cpus_ok_def cpc split: if_splits)
    show "inj_on (\<lambda>c. idle_thread (cpus k' ! c)) {..<length (cpus k')}" using cok unfolding id by (simp add: cpus_ok_def cpc)
  qed
  moreover have "thread_ok (cur k') {} k' t th" if tth: "thr k' t = Some th" for t th
  proof (cases "t = n")
    case True
    with tth have "th = nh'" by (simp add: thr')
    moreover have "cur k' c' = Some n \<Longrightarrow> c' = c" for c' using assms(10) unfolding cu by (auto intro: ranI split: if_splits)
    ultimately show ?thesis using True placesD(4) [OF assms(2,6)] assms(7-9) pr
      by (auto simp: thread_ok_def rq w idle ran)
  next
    case False
    then obtain th0 where th0: "thr k t = Some th0" "status_block_cnt th = status_block_cnt th0" "status_exited th = status_exited th0"
      "status_running th = status_running th0 \<or> t = f \<and> \<not> status_running th" "running_cpu th = running_cpu th0 \<or> t = f"
      using tth assms(5) by (auto simp: thr' fh'_def split: if_splits)
    have "status_running th \<longleftrightarrow> t \<in> ran (C c)" using placesD(4) [OF assms(2) th0(1)] th0(4) assms(13) by (auto simp: thread_ok_def)
    moreover have "cur k' c' = Some t \<longrightarrow> running_cpu th = Some c'" for c'
      using placesD(4) [OF assms(2) th0(1)] th0(5) assms(13) False unfolding cu by (auto simp: thread_ok_def intro: ranI)
    ultimately show ?thesis using placesD(4) [OF assms(2) th0(1)] th0(2,3) False assms(3)
      unfolding thread_ok_def rq w idle ran by auto
  qed
  moreover have "thr k' t \<noteq> None" if "t \<in> set (ready_queue k') \<or> waiting k' t \<or> t \<in> ran (cur k') \<or> idle k' t \<or> t \<in> {}" for t
    using that placesD(5) [OF assms(2), of t] by (auto simp: thr' rq w idle ran)
  ultimately have "places (cur k') {} k'"
    using placesD(1,2) [OF assms(2)] queues_ok_cong [OF qs'] by (intro placesI) (auto simp: rq)
  moreover have "sched_frame k k'"
  proof -
    have "map idle_thread (cpus k') = map idle_thread (cpus k)" using id by (auto intro: nth_equalityI simp: cpc)
    moreover have "map_option ident (thr k' t) = map_option ident (thr k t)" for t
      using assms(5,6) by (auto simp: thr' ident_def nh'_def fh'_def)
    ultimately show ?thesis by (simp add: sched_frame_def k'_def)
  qed
  ultimately show thesis using that [OF eq _ cu] assms(4) by (simp add: cpc cp_def k'_def)
qed

section \<open>The scheduler keeps the invariant\<close>

text \<open>
  The state in which a CPU enters the scheduler: the invariant holds but for the thread of the CPU, which may have been put into a queue,
  and this thread is not yet due if it sleeps.
\<close>

definition leaving :: "nat \<Rightarrow> nat \<Rightarrow> 'a kernel_scheme \<Rightarrow> bool" where
  "leaving c f k \<longleftrightarrow> places (cur k) {f} k \<and> satp_ok k \<and> cur k c = Some f \<and> f \<notin> set (due k)"

text \<open>What is left to do when the sleeping threads have been woken and the old thread is put back.\<close>

definition decided :: "nat \<Rightarrow> nat \<Rightarrow> 'a kernel_scheme \<Rightarrow> bool" where
  "decided c f k \<longleftrightarrow> places ((cur k)(c := None)) {} k \<and> cpus_ok (cur k) k \<and> satp_ok k \<and> cur k c = Some f \<and> thr k f \<noteq> None"

definition finish :: "nat \<Rightarrow> nat \<Rightarrow> 'a kernel_scheme \<Rightarrow> 'a kernel_scheme option" where
  "finish c f k = do {
     (found, q) \<leftarrow> select k c [] (ready_queue k);
     switch_to c f (case found of None \<Rightarrow> idle_thread (cpus k ! c) | Some t \<Rightarrow> t) (k\<lparr>ready_queue := q\<rparr>)
   }"

lemma satp_ok_frame:
  assumes "satp_ok k" "cpus k' = cpus k" "\<And>t. map_option th_process (thr k' t) = map_option th_process (thr k t)"
  shows "satp_ok k'"
  unfolding satp_ok_def
proof (intro allI impI, elim conjE)
  fix c th assume a: "c < length (cpus k')" "thr k' (current_thread (cpus k' ! c)) = Some th"
  with assms(3) [of "current_thread (cpus k ! c)"] obtain th0 where "thr k (current_thread (cpus k ! c)) = Some th0" "th_process th0 = th_process th"
    by (cases "thr k (current_thread (cpus k ! c))") (auto simp: assms(2))
  with a(1) assms(1,2) show "satp (cpus k' ! c) = th_process th" by (auto simp: satp_ok_def)
qed

text \<open>After the sleeping threads were woken and the old thread was put back, if it can go on.\<close>

lemma scheduler_prepare:
  assumes "leaving c f k" and fh: "thr k f = Some fh"
  obtains k0 k1 fh1 where
    "k0 = put_thr f (fh\<lparr>status_running := False\<rparr>) k" "check_sleeping k0 = Some k1"
    "thr k1 f = Some fh1" "unblocked fh1 = unblocked (fh\<lparr>status_running := False\<rparr>)"
    "places ((cur k)(c := None)) {} (if status fh1 = READY \<and> f \<noteq> idle_thread (cpus k ! c) then add_ready_thread f k1 else k1)"
    "wake_frame k0 k1" "wqs k1 = wqs k" "ready_queue k1 = ready_queue k @ live k (due k)" "status_block_cnt fh1 = status_block_cnt fh" "due k1 = []"
proof -
  have pl: "places (cur k) {f} k" and cf: "cur k c = Some f" and nd: "f \<notin> set (due k)" using assms by (auto simp: leaving_def)
  let ?C = "(cur k)(c := None)"
  have len: "f < length (thread_table k)" by (rule thr_SomeD [OF fh])
  define k0 where "k0 = put_thr f (fh\<lparr>status_running := False\<rparr>) k"
  have p0: "places ?C {f} k0" unfolding k0_def by (rule places_stop [OF pl cf fh]) simp
  have "ran ?C = ran (cur k) - {f}" by (rule ran_remove [OF placesD(3) [OF pl] cf])
  then have nf: "f \<notin> ran ?C" by simp
  have "set (sleepers k0) \<inter> ran ?C = {}"
  proof (rule ccontr)
    assume "set (sleepers k0) \<inter> ran ?C \<noteq> {}"
    then obtain u where u: "u \<in> set (sleepers k0)" "u \<in> ran ?C" by blast
    then have w: "waiting k0 u" by (auto simp: waiting_def qs_def intro!: exI [of _ None])
    obtain uh where "thr k0 u = Some uh" using placesD(5) [OF p0, of u] u(2) by blast
    from placesD(4) [OF p0 this] w u(2) have "u = f" unfolding thread_ok_def by blast
    with u(2) nf show False by simp
  qed
  then obtain k1 where k1: "check_sleeping k0 = Some k1" "places ?C {f} k1" "wake_frame k0 k1" "wqs k1 = wqs k0"
    "ready_queue k1 = ready_queue k0 @ live k0 (due k0)" "\<forall>u. u \<notin> set (due k0) \<longrightarrow> thr k1 u = thr k0 u" "due k1 = []"
    using check_sleeping_places [OF p0] by auto
  have dk: "due k0 = due k" by (simp add: k0_def due_def)
  have lk: "live k0 ts = live k ts" for ts using len fh by (auto simp: live_def k0_def intro!: filter_cong)
  have "thread_ok (cur k) {f} k f fh" by (rule placesD(4) [OF pl fh])
  then have "f \<notin> set (ready_queue k)" using cf by (auto simp: thread_ok_def intro: ranI)
  with nd have nr: "f \<notin> set (ready_queue k1)" unfolding k1(5) dk lk by (simp add: k0_def live_def)
  have th0: "thr k0 f = Some (fh\<lparr>status_running := False\<rparr>)" using len by (simp add: k0_def)
  obtain fh1 where fh1: "thr k1 f = Some fh1" "unblocked fh1 = unblocked (fh\<lparr>status_running := False\<rparr>)"
    using wake_frameD(5) [OF k1(3) th0] by blast
  have cp: "cpus k1 = cpus k" using wake_frameD(1) [OF k1(3)] by (simp add: k0_def)
  have c: "c < length (cpus k)" "f = current_thread (cpus k ! c)" using cf by (auto simp: cur_Some)
  have id: "idle k1 f \<longleftrightarrow> f = idle_thread (cpus k ! c)"
    using placesD(3) [OF pl] cf c(1) by (auto simp: idle_def cp cpus_ok_def)
  have "places ?C {} (if status fh1 = READY \<and> f \<noteq> idle_thread (cpus k ! c) then add_ready_thread f k1 else k1)"
    using places_ready [OF k1(2) fh1(1)] places_settled [OF k1(2) fh1(1)] id nr nf by auto
  moreover have "status_block_cnt fh1 = status_block_cnt fh" using k1(6) nd fh1(1) th0 by (auto simp: dk)
  ultimately show thesis using that [OF k0_def k1(1) fh1 _ k1(3)] k1(4,5,7) dk lk by (simp add: k0_def)
qed

lemma scheduler_mid:
  assumes "leaving c f k" "thr k f = Some fh"
  obtains k2 where "do_scheduler c None k = finish c f k2" "decided c f k2" "sched_frame k k2" "cur k2 = cur k"
    "ready_queue k2 = ready_queue k @ live k (due k) @ (if status_exited fh \<or> status_block_cnt fh \<noteq> 0 \<or> idle k f then [] else [f])" "due k2 = []"
proof -
  obtain k0 k1 fh1 where p: "k0 = put_thr f (fh\<lparr>status_running := False\<rparr>) k" "check_sleeping k0 = Some k1"
    "thr k1 f = Some fh1" "unblocked fh1 = unblocked (fh\<lparr>status_running := False\<rparr>)"
    "places ((cur k)(c := None)) {} (if status fh1 = READY \<and> f \<noteq> idle_thread (cpus k ! c) then add_ready_thread f k1 else k1)"
    "wake_frame k0 k1" "wqs k1 = wqs k" "ready_queue k1 = ready_queue k @ live k (due k)" "status_block_cnt fh1 = status_block_cnt fh" "due k1 = []"
    by (rule scheduler_prepare [OF assms])
  define k2 where "k2 = (if status fh1 = READY \<and> f \<noteq> idle_thread (cpus k ! c) then add_ready_thread f k1 else k1)"
  have cf: "c < length (cpus k)" "current_thread (cpus k ! c) = f" using assms(1) by (auto simp: leaving_def cur_Some)
  have k2: "cpus k2 = cpus k" "thr k2 = thr k1" "wqs k2 = wqs k" "kernel.more k2 = kernel.more k" "process_table k2 = process_table k" "timer k2 = timer k"
    using wake_frameD(1-4) [OF p(6)] p(1,7) by (auto simp: k2_def add_ready_thread_def)
  have cu: "cur k2 = cur k" by (rule cur_cong [OF k2(1)])
  have id: "map_option ident (thr k2 t) = map_option ident (thr k t)" for t
  proof -
    have "map_option unblocked (thr k1 t) = map_option unblocked (thr k0 t)" using p(6) by (simp add: wake_frame_def)
    then have "map_option ident (thr k1 t) = map_option ident (thr k0 t)"
      by (cases "thr k1 t"; cases "thr k0 t") (auto simp: ident_def dest: unblocked_eqD)
    also have "\<dots> = map_option ident (thr k t)" using assms(2) thr_SomeD [OF assms(2)] by (simp add: p(1) ident_def)
    finally show ?thesis by (simp add: k2(2))
  qed
  have if2: "(if b1 then if b2 then x else y else y) = (if b1 \<and> b2 then x else y)" for b1 b2 and x y :: "'a kernel_scheme" by simp
  have "do_scheduler c None k = finish c f k2"
    using cf assms(2) p(2,3) k2(1) unfolding p(1) finish_def k2(1) by (simp add: do_scheduler_def cpu_at_def Let_def if2 k2_def)
  moreover have "decided c f k2"
  proof -
    have "map_option th_process (thr k2 t) = map_option th_process (thr k t)" for t
      using id [of t] by (cases "thr k t"; cases "thr k2 t") (auto simp: ident_def)
    then have "satp_ok k2" using satp_ok_frame [OF _ k2(1)] assms(1) by (auto simp: leaving_def)
    with p(3,5) assms(1) cu k2(2) cpus_ok_cong [OF k2(1)] placesD(3) show ?thesis by (auto simp: decided_def leaving_def k2_def [symmetric])
  qed
  moreover have "ready_queue k2 = ready_queue k @ live k (due k) @ (if status_exited fh \<or> status_block_cnt fh \<noteq> 0 \<or> idle k f then [] else [f])"
  proof -
    have "places (cur k) {f} k" using assms(1) by (simp add: leaving_def)
    then have "idle k f \<longleftrightarrow> f = idle_thread (cpus k ! c)"
      using placesD(3) cf by (fastforce simp: idle_def cpus_ok_def cur_Some)
    moreover have "status fh1 = READY \<longleftrightarrow> \<not> status_exited fh \<and> status_block_cnt fh = 0"
      using unblocked_eqD [OF p(4)] p(9) by (simp add: status_def)
    ultimately show ?thesis using p(8) by (simp add: k2_def add_ready_thread_def)
  qed
  moreover have "due k2 = []" using p(10) by (simp add: k2_def due_def add_ready_thread_def)
  ultimately show thesis using that cu k2 id by (simp add: sched_frame_def)
qed

text \<open>The next thread: the selected one or the idle thread of the CPU is in no place and may run.\<close>

lemma select_next:
  assumes p2: "places ((cur k)(c := None)) {} k2" and k2: "cpus k2 = cpus k" and cok: "cpus_ok (cur k) k" and c: "c < length (cpus k)"
    and sel: "select k2 c [] (ready_queue k2) = Some (found, q)" and n_def: "n = (case found of None \<Rightarrow> idle_thread (cpus k ! c) | Some t \<Rightarrow> t)"
  obtains nh where "thr k2 n = Some nh" "n \<notin> set q" "\<not> waiting k2 n" "\<not> status_exited nh" "n \<notin> ran ((cur k)(c := None))"
    "idle k2 n \<Longrightarrow> n = idle_thread (cpus k ! c)" "n = idle_thread (cpus k ! c) \<or> allowed k2 c nh = Some True"
    "\<And>c'. c' < length (cpus k) \<Longrightarrow> idle_thread (cpus k ! c') = n \<Longrightarrow> c' = c"
proof (cases found)
  case None
  then have ne: "n = idle_thread (cpus k ! c)" by (simp add: n_def)
  have il: "idle k2 n" using c by (auto simp: idle_def k2 ne)
  obtain nh where nh: "thr k2 n = Some nh" using placesD(5) [OF p2, of n] il by blast
  have ok: "thread_ok ((cur k)(c := None)) {} k2 n nh" by (rule placesD(4) [OF p2 nh])
  have "n \<notin> ran ((cur k)(c := None))"
  proof
    assume "n \<in> ran ((cur k)(c := None))"
    then obtain c' where "c' \<noteq> c" "cur k c' = Some n" by (auto simp: ran_def split: if_splits)
    with cok c show False unfolding ne cpus_ok_def by blast
  qed
  moreover have "c' = c" if "c' < length (cpus k)" "idle_thread (cpus k ! c') = n" for c'
    using that cok c unfolding ne cpus_ok_def by (auto dest: inj_onD)
  moreover have "n \<notin> set q" using ok il select_spec [OF p2 sel] placesD(1) [OF p2] by (auto simp: thread_ok_def)
  moreover have "\<not> waiting k2 n" "\<not> status_exited nh" using ok il unfolding thread_ok_def by blast+
  ultimately show thesis using that [OF nh] ne by blast
next
  case (Some t)
  then have ne: "n = t" by (simp add: n_def)
  obtain nh where nh: "n \<in> set (ready_queue k2)" "thr k2 n = Some nh" "status nh = READY" "allowed k2 c nh = Some True"
    using places_select(2) [OF p2 sel, of t] Some ne by auto
  have ok: "thread_ok ((cur k)(c := None)) {} k2 n nh" by (rule placesD(4) [OF p2 nh(2)])
  have ni: "\<not> idle k2 n" using ok nh(1) by (auto simp: thread_ok_def)
  then have "c' = c" if "c' < length (cpus k)" "idle_thread (cpus k ! c') = n" for c' using that by (auto simp: idle_def k2)
  moreover have "\<not> status_exited nh" using nh(3) by (auto simp: status_def)
  moreover have "n \<notin> set q" using places_select(3) [OF p2 sel, of t] Some ne by simp
  moreover have "\<not> waiting k2 n" "n \<notin> ran ((cur k)(c := None))" using ok nh(1) unfolding thread_ok_def by blast+
  ultimately show thesis using ni nh(4) that [OF nh(2)] by blast
qed

lemma finish_ok:
  assumes "decided c f k" "select k c [] (ready_queue k) = Some (found, q)" "n = (case found of None \<Rightarrow> idle_thread (cpus k ! c) | Some t \<Rightarrow> t)"
  obtains k' where "finish c f k = Some k'" "sched_inv k'" "cur k' = (cur k)(c \<mapsto> n)" "ready_queue k' = q" "sleeping_queue k' = sleeping_queue k"
    "sched_frame k k'" "n \<notin> set q" "n = idle_thread (cpus k ! c) \<or> runnable k' c n"
proof -
  have p: "places ((cur k)(c := None)) {} k" and sat: "satp_ok k" and cok: "cpus_ok (cur k) k" and cf: "c < length (cpus k)" "current_thread (cpus k ! c) = f"
    using assms(1) by (auto simp: decided_def cur_Some)
  obtain fh where fh: "thr k f = Some fh" using assms(1) by (auto simp: decided_def)
  let ?k = "k\<lparr>ready_queue := q\<rparr>"
  have curk: "cur ?k = cur k" by (rule cur_cong) simp
  have rf: "ran ((cur k)(c := None)) = ran (cur k) - {f}" by (rule ran_remove [OF cok]) (use cf in \<open>simp add: cur_Some\<close>)
  obtain nh where n: "thr k n = Some nh" "n \<notin> set q" "\<not> waiting k n" "\<not> status_exited nh" "n \<notin> ran ((cur k)(c := None))"
    "idle k n \<Longrightarrow> n = idle_thread (cpus k ! c)" "n = idle_thread (cpus k ! c) \<or> allowed k c nh = Some True"
    "\<And>c'. c' < length (cpus k) \<Longrightarrow> idle_thread (cpus k ! c') = n \<Longrightarrow> c' = c"
    by (rule select_next [OF p refl cok cf(1) assms(2,3)]) (rule that)
  have X: "set_option found \<subseteq> {n}" by (auto simp: assms(3) split: option.splits)
  have pl: "places ((cur ?k)(c := None)) (set_option found) ?k" unfolding curk by (rule places_select(1) [OF p assms(2)])
  have s: "satp (cpus ?k ! c) = th_process fh" using sat cf fh by (auto simp: satp_ok_def)
  have h: "c < length (cpus ?k)" "thr ?k f = Some fh" "thr ?k n = Some nh" "n \<notin> set (ready_queue ?k)" "\<not> waiting ?k n"
    "n \<notin> ran ((cur ?k)(c := None))" "f \<notin> ran ((cur ?k)(c := None))" "idle ?k n \<longrightarrow> n = idle_thread (cpus ?k ! c)"
    using cf(1) fh n(1,2,3,5,6) rf by (simp_all add: curk)
  obtain k' where sw: "switch_to c f n ?k = Some k'" "places (cur k') {} k'" "cur k' = (cur ?k)(c := None, c \<mapsto> n)" "satp (cpus k' ! c) = th_process nh"
    "sched_frame ?k k'" "ready_queue k' = ready_queue ?k" "sleeping_queue k' = sleeping_queue ?k" "\<forall>c'. c' \<noteq> c \<longrightarrow> cpus k' ! c' = cpus ?k ! c'"
    by (rule places_switch [OF pl X h(1-5) n(4) h(6) _ _ h(7) s]) (use h(8) n(8) in \<open>auto\<close>)
  have fr: "sched_frame k k'" using sw(5) by (simp add: sched_frame_def)
  have "satp_ok k'"
    unfolding satp_ok_def
  proof (intro allI impI, elim conjE)
    fix c' th assume c': "c' < length (cpus k')" and th: "thr k' (current_thread (cpus k' ! c')) = Some th"
    obtain th0 where th0: "thr k (current_thread (cpus k' ! c')) = Some th0" "ident th = ident th0" using sched_frameD(8) [OF fr th] by blast
    show "satp (cpus k' ! c') = th_process th"
    proof (cases "c' = c")
      case True
      have "cur k' c = Some n" using sw(3) by simp
      with True th0 n(1) have "th0 = nh" by (simp add: cur_Some)
      with True sw(4) identD [OF th0(2)] show ?thesis by simp
    next
      case False
      with sw(8) have e: "cpus k' ! c' = cpus k ! c'" by simp
      then show ?thesis using sat c' th0 identD [OF th0(2)] sched_frameD(5) [OF fr] by (simp add: satp_ok_def)
    qed
  qed
  then have "sched_inv k'" using sw(2) by (simp add: sched_inv_def)
  moreover have "runnable k' c n" if "allowed k c nh = Some True"
    using that n(1,4) runnable_frame [OF fr] by (auto simp: runnable_def)
  ultimately show thesis using that [of k'] sw(1,3,6,7) fr n(2,7) assms(2,3) by (auto simp: finish_def curk)
qed

lemma do_scheduler_inv:
  assumes "leaving c f k" "do_scheduler c None k = Some k'"
  shows "sched_inv k'" "sched_frame k k'" "\<exists>n. cur k' = (cur k)(c \<mapsto> n) \<and> (n = idle_thread (cpus k ! c) \<or> runnable k' c n)"
proof -
  obtain fh where fh: "thr k f = Some fh" using assms(1) placesD(5) [of "cur k" "{f}" k f] by (auto simp: leaving_def)
  obtain k2 where k2: "do_scheduler c None k = finish c f k2" "decided c f k2" "sched_frame k k2" "cur k2 = cur k"
    by (rule scheduler_mid [OF assms(1) fh])
  with assms(2) obtain found q where sel: "select k2 c [] (ready_queue k2) = Some (found, q)" by (auto simp: finish_def bind_Some_iff)
  obtain k3 where k3: "finish c f k2 = Some k3" "sched_inv k3" "sched_frame k2 k3"
    "cur k3 = (cur k2)(c \<mapsto> (case found of None \<Rightarrow> idle_thread (cpus k2 ! c) | Some t \<Rightarrow> t))"
    "(case found of None \<Rightarrow> idle_thread (cpus k2 ! c) | Some t \<Rightarrow> t) = idle_thread (cpus k2 ! c) \<or>
     runnable k3 c (case found of None \<Rightarrow> idle_thread (cpus k2 ! c) | Some t \<Rightarrow> t)"
    by (rule finish_ok [OF k2(2) sel refl])
  have e: "k3 = k'" using k3(1) k2(1) assms(2) by simp
  show "sched_inv k'" "sched_frame k k'" using k3(2,3) k2(3) sched_frame_trans unfolding e by blast+
  have "c < length (cpus k)" using assms(1) by (simp add: leaving_def cur_Some)
  then show "\<exists>n. cur k' = (cur k)(c \<mapsto> n) \<and> (n = idle_thread (cpus k ! c) \<or> runnable k' c n)"
    using k3(4,5) sched_frameD(6) [OF k2(3)] unfolding e k2(4) by auto
qed

section \<open>Blocking and yielding\<close>

lemma cur_thread_ok:
  assumes "sched_inv k" "cur k c = Some f"
  obtains fh where "thr k f = Some fh" "thread_ok (cur k) {} k f fh" "\<not> waiting k f" "f \<notin> set (ready_queue k)" "status_block_cnt fh = 0"
proof -
  have p: "places (cur k) {} k" using assms(1) by (simp add: sched_inv_def)
  have r: "f \<in> ran (cur k)" by (rule ranI [of _ c]) (rule assms(2))
  obtain fh where fh: "thr k f = Some fh" using placesD(5) [OF p, of f] r by blast
  have ok: "thread_ok (cur k) {} k f fh" by (rule placesD(4) [OF p fh])
  with r have "\<not> waiting k f" "f \<notin> set (ready_queue k)" unfolding thread_ok_def by blast+
  moreover from this ok have "status_block_cnt fh = 0" by (simp add: thread_ok_def)
  ultimately show thesis using fh ok that by blast
qed

lemma due_waiting: "t \<in> set (due k) \<Longrightarrow> waiting k t"
  by (force simp: due_def waiting_def qs_def sleepers_def dest!: set_takeWhileD intro!: exI [of _ None])

lemma leaving_run:
  assumes "sched_inv k" "cur k c = Some f"
  shows "leaving c f k"
proof -
  obtain fh where fh: "thr k f = Some fh" "\<not> waiting k f" by (rule cur_thread_ok [OF assms])
  have p: "places (cur k) {} k" "satp_ok k" using assms(1) by (simp_all add: sched_inv_def)
  have "thread_ok (cur k) {f} k t th" if "thr k t = Some th" for t th
    using placesD(4) [OF p(1) that] unfolding thread_ok_def by blast
  then have "places (cur k) {f} k" using p(1) fh(1) unfolding places_def by blast
  with p(2) assms(2) fh(2) due_waiting show ?thesis by (auto simp: leaving_def)
qed

lemma leaving_block:
  assumes "sched_inv k" "cur k c = Some f" "\<not> idle k f" "pushed f k k'" "f \<notin> set (due k')"
  obtains k'' where "block f k' = Some k''" "leaving c f k''" "cur k'' = cur k" "wqs k'' = wqs k'" "kernel.more k'' = kernel.more k'"
    "process_table k'' = process_table k'" "timer k'' = timer k'" "cpus k'' = cpus k" "ready_queue k'' = ready_queue k"
    "\<And>t. map_option ident (thr k'' t) = map_option ident (thr k t)" "waiting k'' f" "due k'' = due k'"
proof -
  have p: "places (cur k) {} k" "satp_ok k" using assms(1) by (simp_all add: sched_inv_def)
  obtain th where th: "thr k f = Some th" "block f k' = Some (put_thr f (th\<lparr>status_block_cnt := 1\<rparr>) k')"
    "places (cur k) {f} (put_thr f (th\<lparr>status_block_cnt := 1\<rparr>) k')"
    by (rule places_block [OF p(1) assms(2-4)])
  let ?k = "put_thr f (th\<lparr>status_block_cnt := 1\<rparr>) k'"
  have e: "thread_table k' = thread_table k" "cpus k' = cpus k" "ready_queue k' = ready_queue k" "waiting k' f" using assms(4) by (auto simp: pushed_def)
  have cu: "cur ?k = cur k" by (rule cur_cong) (simp add: e(2))
  have len: "f < length (thread_table k')" using thr_SomeD [OF th(1)] e(1) by simp
  have thr: "thr ?k t = (if t = f then Some (th\<lparr>status_block_cnt := 1\<rparr>) else thr k t)" for t
    using len by (simp add: thr_cong [OF e(1)])
  have d: "due ?k = due k'" by (simp add: due_def)
  have "satp_ok ?k" by (rule satp_ok_frame [OF p(2)]) (use th(1) e(2) in \<open>auto simp: thr\<close>)
  with th(3) assms(2,5) cu d have "leaving c f ?k" by (simp add: leaving_def)
  from that [OF th(2) this cu] th(1) e d show thesis by (simp add: thr ident_def)
qed

lemma frame_of_parts:
  assumes "\<And>t. map_option ident (thr k' t) = map_option ident (thr k t)" "sched_frame k' k''"
  shows "map_option ident (thr k'' t) = map_option ident (thr k t)"
  using assms by (simp add: sched_frame_def)

lemma do_block_inv:
  assumes "sched_inv k" "cur k c = Some f" "\<not> idle k f" "do_block c q k = Some k'"
  shows "sched_inv k'" "wqs k' = (wqs k)(q := wqs k q @ [f])" "kernel.more k' = kernel.more k" "process_table k' = process_table k"
    "\<exists>n. cur k' = (cur k)(c \<mapsto> n) \<and> (n = idle_thread (cpus k ! c) \<or> runnable k' c n)" "f \<notin> ran (cur k')"
    "\<And>t. map_option ident (thr k' t) = map_option ident (thr k t)" "map idle_thread (cpus k') = map idle_thread (cpus k)"
proof -
  obtain fh where fh: "\<not> waiting k f" by (rule cur_thread_ok [OF assms(1,2)])
  have pu: "pushed f k (wq_push q f k)" by (rule pushed_wq [OF _ fh]) (use assms(1) placesD(2) in \<open>auto simp: sched_inv_def\<close>)
  have d: "due (wq_push q f k) = due k" by (simp add: due_def wq_push_def)
  then have nd: "f \<notin> set (due (wq_push q f k))" using fh due_waiting by auto
  obtain k1 where k1: "block f (wq_push q f k) = Some k1" "leaving c f k1" "cur k1 = cur k" "wqs k1 = wqs (wq_push q f k)"
    "kernel.more k1 = kernel.more (wq_push q f k)" "process_table k1 = process_table (wq_push q f k)" "cpus k1 = cpus k"
    "\<And>t. map_option ident (thr k1 t) = map_option ident (thr k t)"
    by (rule leaving_block [OF assms(1-3) pu nd]) (rule that)
  have "do_scheduler c None k1 = Some k'"
    using assms(2,4) k1(1) by (auto simp: do_block_def cur_def cpu_at_def Let_def split: if_splits)
  note s = do_scheduler_inv [OF k1(2) this]
  show si: "sched_inv k'" by (rule s(1))
  show w: "wqs k' = (wqs k)(q := wqs k q @ [f])" using sched_frameD(1) [OF s(2)] k1(4) by (simp add: wq_push_def)
  show "kernel.more k' = kernel.more k" "process_table k' = process_table k" using sched_frameD(2,4) [OF s(2)] k1(5,6) by (simp_all add: wq_push_def)
  show "\<exists>n. cur k' = (cur k)(c \<mapsto> n) \<and> (n = idle_thread (cpus k ! c) \<or> runnable k' c n)" using s(3) k1(3,7) by simp
  show "\<And>t. map_option ident (thr k' t) = map_option ident (thr k t)" by (rule frame_of_parts [OF k1(8) s(2)])
  show "map idle_thread (cpus k') = map idle_thread (cpus k)" using s(2) k1(7) by (simp add: sched_frame_def)
  show "f \<notin> ran (cur k')"
  proof
    assume r: "f \<in> ran (cur k')"
    have "waiting k' f" by (auto simp: waiting_def qs_def w intro!: exI [of _ "Some q"])
    moreover from r obtain c' where "cur k' c' = Some f" by (auto simp: ran_def)
    ultimately show False using cur_thread_ok [OF si] by blast
  qed
qed

section \<open>The scheduler returns\<close>

text \<open>
  The condition under which the scan of the ready queue does not leave the list: no thread in it, or due to be put into it, has exited, their
  processes exist, and the CPU has a bit in the mask.
\<close>

definition sound :: "'a kernel_scheme \<Rightarrow> nat \<Rightarrow> nat \<Rightarrow> bool" where
  "sound k c t \<longleftrightarrow> (\<exists>th. thr k t = Some th \<and> \<not> status_exited th \<and> allowed k c th \<noteq> None)"

definition healthy :: "nat \<Rightarrow> 'a kernel_scheme \<Rightarrow> bool" where
  "healthy c k \<longleftrightarrow> (\<forall>t \<in> set (ready_queue k) \<union> set (due k) \<union> set_option (cur k c). sound k c t)"

lemma sound_frame:
  assumes "\<And>t. map_option ident (thr k' t) = map_option ident (thr k t)" "process_table k' = process_table k"
  shows "sound k' c t \<longleftrightarrow> sound k c t"
proof -
  have "allowed k' c th' = allowed k c th" if "ident th' = ident th" for th th'
    using that assms(2) by (simp add: allowed_def prc_def ident_def)
  then show ?thesis using assms(1) [of t]
    by (cases "thr k t"; cases "thr k' t") (auto simp: sound_def dest: identD, metis+)
qed

lemma select_total:
  assumes "\<forall>t \<in> set que. \<exists>th. thr k t = Some th \<and> status th = READY \<and> allowed k c th \<noteq> None"
  shows "\<exists>r. select k c pre que = Some r"
  using assms
proof (induction k c pre que rule: select.induct)
  case (3 k c pre t u que)
  then obtain th where "thr k t = Some th" "status th = READY" "allowed k c th \<noteq> None" by auto
  with 3 show ?case by (auto split: if_splits)
qed auto

lemma select_head:
  assumes "thr k t = Some th" "status th = READY" "allowed k c th = Some True"
  shows "select k c pre (t # que) = Some (Some t, pre @ que)"
  using assms by (cases que) auto

lemma decided_sound:
  assumes "decided c f k" "t \<in> set (ready_queue k)" "sound k c t"
  shows "\<exists>th. thr k t = Some th \<and> status th = READY \<and> allowed k c th \<noteq> None"
proof -
  have p: "places ((cur k)(c := None)) {} k" using assms(1) by (simp add: decided_def)
  obtain th where "thr k t = Some th" "\<not> status_exited th" "allowed k c th \<noteq> None" using assms(3) by (auto simp: sound_def)
  with ready_status [OF p assms(2)] show ?thesis by blast
qed

lemma do_scheduler_total:
  assumes "leaving c f k" "healthy c k"
  shows "\<exists>k'. do_scheduler c None k = Some k'"
proof -
  obtain fh where fh: "thr k f = Some fh" using assms(1) placesD(5) [of "cur k" "{f}" k f] by (auto simp: leaving_def)
  obtain k2 where k2: "do_scheduler c None k = finish c f k2" "decided c f k2" "sched_frame k k2"
    "ready_queue k2 = ready_queue k @ live k (due k) @ (if status_exited fh \<or> status_block_cnt fh \<noteq> 0 \<or> idle k f then [] else [f])"
    by (rule scheduler_mid [OF assms(1) fh])
  have "sound k2 c t" if "t \<in> set (ready_queue k2)" for t
    using that assms(1,2) sound_frame [of k2 k] k2(3,4) by (auto simp: healthy_def live_def leaving_def sched_frame_def split: if_splits)
  then have "\<forall>t \<in> set (ready_queue k2). \<exists>th. thr k2 t = Some th \<and> status th = READY \<and> allowed k2 c th \<noteq> None"
    using decided_sound [OF k2(2)] by blast
  then obtain found q where "select k2 c [] (ready_queue k2) = Some (found, q)" using select_total by fast
  from finish_ok [OF k2(2) this refl] k2(1) show ?thesis by metis
qed

lemma do_block_total:
  assumes "sched_inv k" "cur k c = Some f" "\<not> idle k f" "healthy c k"
  shows "\<exists>k' n. do_block c q k = Some k' \<and> sched_inv k' \<and> wqs k' = (wqs k)(q := wqs k q @ [f]) \<and> f \<notin> ran (cur k') \<and>
    cur k' = (cur k)(c \<mapsto> n) \<and> (n = idle_thread (cpus k ! c) \<or> runnable k' c n)"
proof -
  obtain fh where fh: "\<not> waiting k f" by (rule cur_thread_ok [OF assms(1,2)])
  have pu: "pushed f k (wq_push q f k)" by (rule pushed_wq [OF _ fh]) (use assms(1) placesD(2) in \<open>auto simp: sched_inv_def\<close>)
  have d: "due (wq_push q f k) = due k" by (simp add: due_def wq_push_def)
  then have nd: "f \<notin> set (due (wq_push q f k))" using fh due_waiting by auto
  obtain k1 where k1: "block f (wq_push q f k) = Some k1" "leaving c f k1" "cur k1 = cur k" "ready_queue k1 = ready_queue k"
    "process_table k1 = process_table (wq_push q f k)" "\<And>t. map_option ident (thr k1 t) = map_option ident (thr k t)" "due k1 = due (wq_push q f k)"
    by (rule leaving_block [OF assms(1-3) pu nd]) (rule that)
  have "sound k1 c t \<longleftrightarrow> sound k c t" for t by (rule sound_frame) (use k1(5,6) in \<open>auto simp: wq_push_def\<close>)
  then have "healthy c k1" using assms(4) k1(3,4,7) d by (simp add: healthy_def)
  then obtain k' where "do_scheduler c None k1 = Some k'" using do_scheduler_total [OF k1(2)] by blast
  then have b: "do_block c q k = Some k'" using assms(2) k1(1) by (simp add: do_block_def cur_def cpu_at_def Let_def split: if_splits)
  from do_block_inv [OF assms(1-3) this] b show ?thesis by blast
qed

text \<open>
  C9: A thread that blocks is in the wait queue and nowhere else. The running thread (not the idle thread) calls \<open>do_block\<close> in a state
  where every thread is in one place and no exited thread is in the ready queue: the call gets through to the context switch,
  the thread is at the end of the wait queue and runs on no CPU, the CPU goes on with its idle thread or with a thread that has not exited and whose mask
  allows the CPU, with the page table of its process, and again every thread is in exactly one place.
\<close>

theorem do_block_places:
  assumes "sched_inv k" "cur k c = Some f" "\<not> idle k f" "healthy c k"
  shows "\<exists>k' n. do_block c q k = Some k' \<and> sched_inv k' \<and> wqs k' = (wqs k)(q := wqs k q @ [f]) \<and> f \<notin> ran (cur k') \<and>
    cur k' = (cur k)(c \<mapsto> n) \<and> (n = idle_thread (cpus k ! c) \<or> runnable k' c n)"
  by (rule do_block_total [OF assms])

text \<open>A kernel with one CPU: its idle thread, a running thread and a ready one.\<close>

definition thread0 :: "nat \<Rightarrow> bool \<Rightarrow> thread" where
  "thread0 p r = \<lparr>th_process = p, th_addr = 0, trank = 0, running_cpu = (if r then Some 0 else None), status_block_cnt = 0, status_exited = False,
     status_running = r, regs = [], sepc = 0, kernel_stack_top = 0\<rparr>"

definition process0 :: "nat list \<Rightarrow> process" where
  "process0 ts = \<lparr>name = '''', parent = None, children = [], threads = ts, cpu_mask = -1, active_thread_cnt = of_nat (length ts), cwd_node_idx = 0,
     is_killed = False, process_own_lock = False\<rparr>"

definition kernel0 :: kernel where
  "kernel0 = \<lparr>thread_table = [Some (thread0 0 False), Some (thread0 1 True), Some (thread0 2 False)], process_table = [Some (process0 [0]), Some (process0 [1]), Some (process0 [2])],
     process_global_lock = False, process_to_release = [], ready_queue = [2], sleeping_queue = [],
     cpus = [\<lparr>current_thread = 1, idle_thread = 0, hartid = 0, satp = 1\<rparr>], wqs = (\<lambda>_. []), timer = 0, ipis = []\<rparr>"

lemma kernel0_simps:
  "cur kernel0 = (\<lambda>_. None)(0 := Some 1)" "\<not> waiting kernel0 t" "idle kernel0 t \<longleftrightarrow> t = 0"
  "thr kernel0 t = (if t = 0 then Some (thread0 0 False) else if t = 1 then Some (thread0 1 True) else if t = 2 then Some (thread0 2 False) else None)"
  "length (cpus kernel0) = 1" "idle_thread (cpus kernel0 ! 0) = 0" "ready_queue kernel0 = [2]" "due kernel0 = []"
  by (auto simp: kernel0_def cur_def cpu_at_def waiting_def qs_def sleepers_def idle_def thr_def due_def fun_eq_iff nth_Cons' split: option.splits)

lemma kernel0_inv: "sched_inv kernel0"
proof -
  have "cpus_ok (cur kernel0) kernel0" by (auto simp: cpus_ok_def kernel0_simps dom_def inj_on_def split: if_splits)
  moreover have "queues_ok kernel0" by (auto simp: queues_ok_def disjoint_lists_def qs_def sleepers_def kernel0_def split: option.splits)
  moreover have "thread_ok (cur kernel0) {} kernel0 t th" if "thr kernel0 t = Some th" for t th
    using that by (auto simp: thread_ok_def kernel0_simps thread0_def ran_def split: if_splits)
  moreover have "satp_ok kernel0" by (auto simp: satp_ok_def kernel0_def thr_def thread0_def)
  ultimately show ?thesis by (auto simp: sched_inv_def places_def kernel0_simps ran_def split: if_splits)
qed

lemma kernel0_healthy: "healthy 0 kernel0"
  by (auto simp: healthy_def kernel0_simps sound_def thread0_def allowed_def prc_def cpu_bit_def) (simp_all add: kernel0_def)

theorem do_block_places_witness: "\<exists>k'. do_block 0 (WaitObj 5) kernel0 = Some k' \<and> sched_inv k' \<and> wqs k' (WaitObj 5) = [1] \<and> 1 \<notin> ran (cur k')"
proof -
  have "cur kernel0 0 = Some 1" "\<not> idle kernel0 1" "wqs kernel0 (WaitObj 5) = []" by (simp_all add: kernel0_simps) (simp add: kernel0_def)
  with do_block_places [OF kernel0_inv _ _ kernel0_healthy, of 1 "WaitObj 5"] show ?thesis by auto
qed

section \<open>Fairness\<close>

text \<open>The running thread of a CPU yields, then the one that got the CPU, and so on.\<close>

primrec yields :: "nat \<Rightarrow> nat \<Rightarrow> 'a kernel_scheme \<Rightarrow> 'a kernel_scheme option" where
  "yields 0 c k = Some k"
| "yields (Suc n) c k = yield c k \<bind> yields n c"

lemma idle_frame:
  assumes "sched_frame k k'"
  shows "idle k' = idle k"
proof -
  have "length (cpus k') = length (cpus k)" by (rule sched_frameD(5) [OF assms])
  with sched_frameD(6) [OF assms] show ?thesis by (auto simp: idle_def fun_eq_iff)
qed

lemma yield_step:
  assumes "sched_inv k" "cur k c = Some f" "due k = []" "\<forall>u \<in> set (ready_queue k). runnable k c u" "idle k f \<or> runnable k c f"
    "ready_queue k = x # rest"
  obtains k' where "yield c k = Some k'" "sched_inv k'" "cur k' c = Some x" "due k' = []" "sched_frame k k'"
    "ready_queue k' = rest @ (if idle k f then [] else [f])"
proof -
  have lv: "leaving c f k" by (rule leaving_run [OF assms(1,2)])
  obtain fh where fh: "thr k f = Some fh" "thread_ok (cur k) {} k f fh" "status_block_cnt fh = 0" by (rule cur_thread_ok [OF assms(1,2)])
  obtain k2 where k2: "do_scheduler c None k = finish c f k2" "decided c f k2" "sched_frame k k2" "cur k2 = cur k"
    "ready_queue k2 = ready_queue k @ live k (due k) @ (if status_exited fh \<or> status_block_cnt fh \<noteq> 0 \<or> idle k f then [] else [f])" "due k2 = []"
    by (rule scheduler_mid [OF lv fh(1)])
  have ex: "\<not> status_exited fh" using assms(5) fh(1,2) by (auto simp: runnable_def thread_ok_def)
  have rq: "ready_queue k2 = x # rest @ (if idle k f then [] else [f])" using k2(5) ex fh(3) assms(3,6) by (simp add: live_def)
  have rx: "runnable k2 c x" using runnable_frame [OF k2(3)] assms(4,6) by simp
  then have "sound k2 c x" by (auto simp: runnable_def sound_def)
  then obtain xh where xh: "thr k2 x = Some xh" "status xh = READY" using decided_sound [OF k2(2), of x] rq by auto
  with rx have "allowed k2 c xh = Some True" by (simp add: runnable_def)
  from select_head [OF xh this] have sel: "select k2 c [] (ready_queue k2) = Some (Some x, rest @ (if idle k f then [] else [f]))"
    by (simp add: rq)
  obtain k3 where k3: "finish c f k2 = Some k3" "sched_inv k3" "cur k3 = (cur k2)(c \<mapsto> x)" "ready_queue k3 = rest @ (if idle k f then [] else [f])"
    "sleeping_queue k3 = sleeping_queue k2" "sched_frame k2 k3"
    by (rule finish_ok [OF k2(2) sel, of x]) simp_all
  have "due k3 = []" using k2(6) k3(5) sched_frameD(3) [OF k3(6)] by (simp add: due_def)
  with that [of k3] k2(1) k3 sched_frame_trans [OF k2(3) k3(6)] show thesis by (simp add: yield_def)
qed

text \<open>
  C13: A ready thread gets the CPU. As long as no sleeper is due and the ready threads have not exited and may run on the CPU, the thread that has \<open>n\<close> threads before it in
  the ready queue is running on the CPU after \<open>n + 1\<close> calls of \<open>yield\<close>, each made by the thread that then runs on the CPU.
\<close>

theorem yield_reaches:
  assumes "sched_inv k" "cur k c = Some f" "due k = []" "\<forall>u \<in> set (ready_queue k). runnable k c u" "idle k f \<or> runnable k c f"
    "ready_queue k = before @ t # behind"
  shows "\<exists>k'. yields (length before + 1) c k = Some k' \<and> sched_inv k' \<and> cur k' c = Some t"
  using assms
proof (induction before arbitrary: k f behind)
  case Nil
  obtain k' where "yield c k = Some k'" "sched_inv k'" "cur k' c = Some t"
    by (rule yield_step [OF Nil(1-5)]) (use Nil(6) in simp)
  then show ?case by simp
next
  case (Cons x before)
  obtain k' where k': "yield c k = Some k'" "sched_inv k'" "cur k' c = Some x" "due k' = []" "sched_frame k k'"
    "ready_queue k' = (before @ t # behind) @ (if idle k f then [] else [f])"
    by (rule yield_step [OF Cons.prems(1-5)]) (use Cons.prems(6) in simp)
  have r: "\<forall>u \<in> set (ready_queue k'). runnable k' c u" "runnable k' c x"
    using Cons.prems(4-6) k'(6) runnable_frame [OF k'(5)] by auto
  from Cons.IH [OF k'(2-4) r(1) disjI2 [OF r(2)], of "behind @ (if idle k f then [] else [f])"] k'(1,6) show ?case by simp
qed

theorem yield_reaches_witness: "\<exists>k'. yields 1 0 kernel0 = Some k' \<and> cur k' 0 = Some 2"
proof -
  have "\<forall>u \<in> set (ready_queue kernel0). runnable kernel0 0 u" "runnable kernel0 0 1"
    by (auto simp: kernel0_simps runnable_def thread0_def allowed_def prc_def cpu_bit_def) (simp_all add: kernel0_def process0_def)
  with yield_reaches [OF kernel0_inv, of 0 1 "[]" 2 "[]"] show ?thesis by (auto simp: kernel0_simps)
qed

end
