(* ===== verification/Proc.thy ===== *)
theory Proc
  imports SchedInv
begin

text \<open>
  Processes and the end of threads: \<open>process.cpp\<close> and \<open>thread.cpp\<close>.

  \<open>Thread::exit\<close> and \<open>Process::kill\<close> call each other. The current thread does not come back from the \<open>do_scheduler\<close> at the end of its \<open>exit\<close>, because a
  thread that has exited is not scheduled again: the result \<open>Away\<close> says that the call ended in this switch and that what follows it in the
  callers does not run. The recursion has a depth argument; three levels are enough for \<open>kill\<close> (\<open>kill_depth\<close> of the theory Kill).
  \<open>drop_objects\<close> stands for the loop of \<open>kill\<close> over \<open>kernel_objects\<close>; it is defined in the theory Locks, which has the objects, and what is proved of \<open>kill\<close> with it is in the theory Kill.
\<close>

datatype flow = Ret | Away

section \<open>Creation\<close>

text \<open>\<open>addr\<close> is the address of the new object and \<open>stack\<close> that of the four pages for its kernel stack.\<close>

definition new_thread :: "nat \<Rightarrow> nat \<Rightarrow> u64 \<Rightarrow> u64 \<Rightarrow> 'a kernel_scheme \<Rightarrow> 'a kernel_scheme" where
  "new_thread p rank addr stack k = k\<lparr>thread_table := thread_table k @
     [Some \<lparr>th_process = p, th_addr = addr, trank = rank, running_cpu = None, status_block_cnt = 0, status_exited = False, status_running = False,
            regs = (replicate 31 0)[16 := of_nat rank], sepc = 0, kernel_stack_top = stack + 4096 * 4 - 14 * 8\<rparr>]\<rparr>"

definition create_thread :: "nat \<Rightarrow> u64 \<Rightarrow> u64 \<Rightarrow> 'a kernel_scheme \<Rightarrow> (nat \<times> 'a kernel_scheme) option" where
  "create_thread p addr stack k = do {
     pr \<leftarrow> prc k p;
     kassert (\<not> process_own_lock pr);
     let t = length (thread_table k);
     let k = new_thread p (length (threads pr)) addr stack k;
     Some (t, put_prc p (pr\<lparr>active_thread_cnt := active_thread_cnt pr + 1, threads := threads pr @ [t]\<rparr>) k)
   }"

definition new_process :: "nat option \<Rightarrow> string \<Rightarrow> 'a kernel_scheme \<Rightarrow> (nat \<times> 'a kernel_scheme) option" where
  "new_process par nam k = do {
     let p = length (process_table k);
     let pr = \<lparr>name = nam, parent = par, children = [], threads = [], cpu_mask = -1, active_thread_cnt = 0, cwd_node_idx = 0,
               is_killed = False, process_own_lock = False\<rparr>;
     (pr, k) \<leftarrow> (case par of
        None \<Rightarrow> Some (pr, k)
      | Some q \<Rightarrow> do {
          pa \<leftarrow> prc k q;
          kassert (\<not> process_own_lock pa);
          Some (pr\<lparr>cpu_mask := cpu_mask pa, cwd_node_idx := cwd_node_idx pa\<rparr>, put_prc q (pa\<lparr>children := children pa @ [p]\<rparr>) k)
        });
     kassert (\<not> process_global_lock k);
     Some (p, k\<lparr>process_table := process_table k @ [Some pr]\<rparr>)
   }"

definition init_processor :: "nat \<Rightarrow> u64 \<Rightarrow> u64 \<Rightarrow> 'a kernel_scheme \<Rightarrow> 'a kernel_scheme option" where
  "init_processor hart addr stack k = do {
     k \<leftarrow> (if hart = 0 then do { (_, k) \<leftarrow> new_process None ''kernel-idle'' k; Some k } else Some k);
     (t, k) \<leftarrow> create_thread 0 addr stack k;
     th \<leftarrow> thr k t;
     let k = put_thr t (th\<lparr>kernel_stack_top := 0\<rparr>) k;
     Some (k\<lparr>cpus := cpus k @ [\<lparr>current_thread = t, idle_thread = t, hartid = hart, satp = 0\<rparr>]\<rparr>)
   }"

section \<open>The end of threads and processes\<close>

definition running_bit :: "'a kernel_scheme \<Rightarrow> nat \<Rightarrow> u64 option" where
  "running_bit k t = do {
     th \<leftarrow> thr k t;
     if status th = RUNNING then do {
       c \<leftarrow> running_cpu th;
       cpu \<leftarrow> cpu_at k c;
       cpu_bit (hartid cpu)
     } else Some 0
   }"

fun hart_mask :: "'a kernel_scheme \<Rightarrow> nat list \<Rightarrow> u64 \<Rightarrow> u64 option" where
  "hart_mask k [] m = Some m"
| "hart_mask k (t # ts) m = do { b \<leftarrow> running_bit k t; hart_mask k ts (m OR b) }"

definition send_intr_to_running_thread :: "nat \<Rightarrow> 'a kernel_scheme \<Rightarrow> 'a kernel_scheme option" where
  "send_intr_to_running_thread p k = do {
     pr \<leftarrow> prc k p;
     hartmask \<leftarrow> hart_mask k (threads pr) 0;
     Some (if hartmask \<noteq> 0 then k\<lparr>ipis := ipis k @ [hartmask]\<rparr> else k)
   }"

text \<open>The children that are alive go to the parent.\<close>

fun reparent :: "nat \<Rightarrow> nat list \<Rightarrow> 'a kernel_scheme \<Rightarrow> 'a kernel_scheme option" where
  "reparent q [] k = Some k"
| "reparent q (ch # chs) k = do {
     pr \<leftarrow> prc k ch;
     if is_killed pr then reparent q chs k
     else do {
       let k = put_prc ch (pr\<lparr>parent := Some q\<rparr>) k;
       pa \<leftarrow> prc k q;
       reparent q chs (put_prc q (pa\<lparr>children := children pa @ [ch]\<rparr>) k)
     }
   }"

definition give_children :: "nat \<Rightarrow> 'a kernel_scheme \<Rightarrow> 'a kernel_scheme option" where
  "give_children p k = do {
     pr \<leftarrow> prc k p;
     case parent pr of None \<Rightarrow> Some k | Some q \<Rightarrow> reparent q (children pr) k
   }"

fun thread_exit :: "(nat \<Rightarrow> 'a kernel_scheme \<Rightarrow> 'a kernel_scheme option) \<Rightarrow> nat \<Rightarrow> nat \<Rightarrow> nat \<Rightarrow> 'a kernel_scheme \<Rightarrow> (flow \<times> 'a kernel_scheme) option"
and process_kill :: "(nat \<Rightarrow> 'a kernel_scheme \<Rightarrow> 'a kernel_scheme option) \<Rightarrow> nat \<Rightarrow> nat \<Rightarrow> nat \<Rightarrow> 'a kernel_scheme \<Rightarrow> (flow \<times> 'a kernel_scheme) option"
and exit_threads :: "(nat \<Rightarrow> 'a kernel_scheme \<Rightarrow> 'a kernel_scheme option) \<Rightarrow> nat \<Rightarrow> nat \<Rightarrow> nat list \<Rightarrow> 'a kernel_scheme \<Rightarrow> (flow \<times> 'a kernel_scheme) option"
where
  "thread_exit drop_objects 0 c t k = None"
| "thread_exit drop_objects (Suc n) c t k = do {
     th \<leftarrow> thr k t;
     if status_exited th then Some (Ret, k) else do {
       let k = put_thr t (th\<lparr>status_exited := True\<rparr>) k;
       k \<leftarrow> wakeup_all (WaitExited t) k;
       pr \<leftarrow> prc k (th_process th);
       let k = put_prc (th_process th) (pr\<lparr>active_thread_cnt := active_thread_cnt pr - 1\<rparr>) k;
       (fl, k) \<leftarrow> (if active_thread_cnt pr - 1 = 0 then process_kill drop_objects n c (th_process th) k else Some (Ret, k));
       if fl = Away then Some (Away, k) else do {
         cpu \<leftarrow> cpu_at k c;
         if t = current_thread cpu then do { k \<leftarrow> do_scheduler c None k; Some (Away, k) } else Some (Ret, k)
       }
     }
   }"
| "process_kill drop_objects 0 c p k = None"
| "process_kill drop_objects (Suc n) c p k = do {
     pr \<leftarrow> prc k p;
     if is_killed pr then Some (Ret, k) else do {
       kassert (\<not> process_own_lock pr);
       let k = put_prc p (pr\<lparr>process_own_lock := True, is_killed := True\<rparr>) k;
       k \<leftarrow> wakeup_all (WaitKill p) k;
       (fl, k) \<leftarrow> exit_threads drop_objects n c (threads pr) k;
       if fl = Away then Some (Away, k) else do {
         pr \<leftarrow> prc k p;
         let k = put_prc p (pr\<lparr>process_own_lock := False\<rparr>) k;
         k \<leftarrow> send_intr_to_running_thread p k;
         k \<leftarrow> drop_objects p k;
         k \<leftarrow> give_children p k;
         kassert (\<not> process_global_lock k);
         Some (Ret, k\<lparr>process_to_release := process_to_release k @ [p]\<rparr>)
       }
     }
   }"
| "exit_threads drop_objects n c [] k = Some (Ret, k)"
| "exit_threads drop_objects n c (t # ts) k = do {
     (fl, k) \<leftarrow> thread_exit drop_objects n c t k;
     if fl = Away then Some (Away, k) else exit_threads drop_objects n c ts k
   }"

section \<open>Lookup and system calls\<close>

text \<open>The result of a lookup is the inner option; a table entry that is null is dereferenced.\<close>

definition get_thread :: "nat \<Rightarrow> 'a kernel_scheme \<Rightarrow> nat option option" where
  "get_thread t k =
     (if t \<ge> length (thread_table k) then Some None
      else do { th \<leftarrow> thr k t; Some (if status_exited th then None else Some t) })"

definition get_process :: "nat \<Rightarrow> 'a kernel_scheme \<Rightarrow> nat option option" where
  "get_process p k =
     (if p \<ge> length (process_table k) then Some None
      else do { pr \<leftarrow> prc k p; Some (if is_killed pr then None else Some p) })"

definition current_process :: "nat \<Rightarrow> 'a kernel_scheme \<Rightarrow> nat option" where
  "current_process c k = do { cpu \<leftarrow> cpu_at k c; th \<leftarrow> thr k (current_thread cpu); Some (th_process th) }"

abbreviation kill_fuel :: nat where "kill_fuel \<equiv> 3"

definition sys_exit_thread where
  "sys_exit_thread drop_objects c k = do { cpu \<leftarrow> cpu_at k c; thread_exit drop_objects (Suc kill_fuel) c (current_thread cpu) k }"

definition sys_kill_thread where
  "sys_kill_thread drop_objects c t k = do {
     r \<leftarrow> get_thread t k;
     case r of None \<Rightarrow> Some (Ret, k) | Some t \<Rightarrow> thread_exit drop_objects (Suc kill_fuel) c t k
   }"

definition sys_wait_thread :: "nat \<Rightarrow> nat \<Rightarrow> 'a kernel_scheme \<Rightarrow> (flow \<times> 'a kernel_scheme) option" where
  "sys_wait_thread c t k = do {
     r \<leftarrow> get_thread t k;
     case r of None \<Rightarrow> Some (Ret, k) | Some t \<Rightarrow> do { k \<leftarrow> do_block c (WaitExited t) k; Some (Away, k) }
   }"

definition sys_exit where
  "sys_exit drop_objects c k = do {
     p \<leftarrow> current_process c k;
     (fl, k) \<leftarrow> process_kill drop_objects kill_fuel c p k;
     if fl = Away then Some k else do_scheduler c None k
   }"

definition sys_kill where
  "sys_kill drop_objects c pid k = do {
     r \<leftarrow> get_process pid k;
     case r of None \<Rightarrow> Some (Ret, 0 :: int, k)
     | Some p \<Rightarrow> do {
         (fl, k) \<leftarrow> process_kill drop_objects kill_fuel c p k;
         if fl = Away then Some (Away, 0, k) else do {
           q \<leftarrow> current_process c k;
           if p = q then do { k \<leftarrow> do_scheduler c None k; Some (Away, 1, k) } else Some (Ret, 1, k)
         }
       }
   }"

definition sys_getpid :: "nat \<Rightarrow> 'a kernel_scheme \<Rightarrow> nat option" where
  "sys_getpid c k = current_process c k"

definition sys_waitpid :: "nat \<Rightarrow> nat \<Rightarrow> 'a kernel_scheme \<Rightarrow> (flow \<times> nat \<times> 'a kernel_scheme) option" where
  "sys_waitpid c pid k = do {
     r \<leftarrow> get_process pid k;
     case r of None \<Rightarrow> Some (Ret, 0, k) | Some p \<Rightarrow> do { k \<leftarrow> do_block c (WaitKill p) k; Some (Away, pid, k) }
   }"

definition sys_task_set :: "nat \<Rightarrow> nat \<Rightarrow> u64 \<Rightarrow> 'a kernel_scheme \<Rightarrow> 'a kernel_scheme option" where
  "sys_task_set c pid msk k = do {
     r \<leftarrow> (if pid = 0 then do { p \<leftarrow> current_process c k; Some (Some p) } else get_process pid k);
     case r of None \<Rightarrow> Some k | Some p \<Rightarrow> do { pr \<leftarrow> prc k p; Some (put_prc p (pr\<lparr>cpu_mask := msk\<rparr>) k) }
   }"

definition sys_create_thread :: "nat \<Rightarrow> u64 \<Rightarrow> u64 \<Rightarrow> u64 \<Rightarrow> u64 \<Rightarrow> 'a kernel_scheme \<Rightarrow> (nat \<times> 'a kernel_scheme) option" where
  "sys_create_thread c fn arg addr stack k = do {
     p \<leftarrow> current_process c k;
     (t, k) \<leftarrow> create_thread p addr stack k;
     th \<leftarrow> thr k t;
     let k = put_thr t (th\<lparr>sepc := 0x200000, regs := (regs th)[9 := fn, 10 := arg]\<rparr>) k;
     Some (t, add_ready_thread t k)
   }"

section \<open>Releasing killed processes\<close>

text \<open>\<open>delete t\<close>: the destructor clears the table entry, then that of the wait queue wakes the threads in it.\<close>

fun delete_threads :: "nat list \<Rightarrow> 'a kernel_scheme \<Rightarrow> 'a kernel_scheme option" where
  "delete_threads [] k = Some k"
| "delete_threads (t # ts) k = do {
     th \<leftarrow> thr k t;
     kassert (status_exited th);
     k \<leftarrow> wakeup_all (WaitExited t) (k\<lparr>thread_table := (thread_table k)[t := None]\<rparr>);
     delete_threads ts k
   }"

definition delete_process :: "nat \<Rightarrow> 'a kernel_scheme \<Rightarrow> 'a kernel_scheme option" where
  "delete_process p k = do {
     pr \<leftarrow> prc k p;
     kassert (is_killed pr);
     k \<leftarrow> delete_threads (threads pr) k;
     wakeup_all (WaitKill p) k
   }"

fun cleanup_loop :: "nat list \<Rightarrow> 'a kernel_scheme \<Rightarrow> 'a kernel_scheme option" where
  "cleanup_loop [] k = Some k"
| "cleanup_loop (p # ps) k =
     (case prc k p of
        None \<Rightarrow> cleanup_loop ps k
      | Some pr \<Rightarrow>
          if is_killed pr then do {
            kassert (\<not> process_own_lock pr);
            k \<leftarrow> delete_process p (put_prc p (pr\<lparr>process_own_lock := True\<rparr>) k);
            cleanup_loop ps (k\<lparr>process_table := (process_table k)[p := None]\<rparr>)
          } else cleanup_loop ps k)"

definition idle_cleanup :: "'a kernel_scheme \<Rightarrow> 'a kernel_scheme option" where
  "idle_cleanup k = do {
     kassert (\<not> process_global_lock k);
     cleanup_loop [0..<length (process_table k)] k
   }"

section \<open>Frame lemmas\<close>

lemma put_prc_frame [simp, frame_simps]:
  "thread_table (put_prc p pr k) = thread_table k" "ready_queue (put_prc p pr k) = ready_queue k" "sleeping_queue (put_prc p pr k) = sleeping_queue k"
  "cpus (put_prc p pr k) = cpus k" "wqs (put_prc p pr k) = wqs k" "timer (put_prc p pr k) = timer k" "kernel.more (put_prc p pr k) = kernel.more k"
  "process_global_lock (put_prc p pr k) = process_global_lock k" "length (process_table (put_prc p pr k)) = length (process_table k)"
  "ipis (put_prc p pr k) = ipis k"
  by (simp_all add: put_prc_def)

lemma thr_put_prc [simp]: "thr (put_prc p pr k) = thr k"
  by (rule thr_cong) simp

lemma prc_put [simp]: "p < length (process_table k) \<Longrightarrow> prc (put_prc p pr k) q = (if q = p then Some pr else prc k q)"
  by (simp add: prc_def put_prc_def nth_list_update)

lemma prc_SomeD: "prc k p = Some pr \<Longrightarrow> p < length (process_table k)"
  by (simp add: prc_def split: if_splits)

lemma prc_cong: "process_table k' = process_table k \<Longrightarrow> prc k' = prc k"
  by (simp add: prc_def fun_eq_iff)

lemma prc_upd [simp]: "prc (put_thr t th k) = prc k" "prc (k\<lparr>wqs := w\<rparr>) = prc k" "prc (k\<lparr>ready_queue := r\<rparr>) = prc k" "prc (k\<lparr>thread_table := tt\<rparr>) = prc k"
  by (rule prc_cong, simp)+

lemma places_put_prc [simp]: "places C X (put_prc p pr k) = places C X k"
proof -
  have q: "qs (put_prc p pr k) = qs k" by (rule qs_cong) simp_all
  show ?thesis
    using idle_cong [of "put_prc p pr k" k] waiting_cong [OF q] queues_ok_cong [OF q] cpus_ok_cong [of "put_prc p pr k" k]
    by (simp add: places_def thread_ok_def)
qed

lemma sched_inv_put_prc [simp]: "sched_inv (put_prc p pr k) = sched_inv k"
  by (simp add: sched_inv_def satp_ok_def cur_cong [of "put_prc p pr k" k])

text \<open>Waking leaves processes, CPUs and the thread objects alone, whatever the state.\<close>

lemma wakeup_frame:
  assumes "wakeup t k = Some k'"
  shows "process_table k' = process_table k" "cpus k' = cpus k" "map_option unblocked (thr k' u) = map_option unblocked (thr k u)" "ipis k' = ipis k"
    "process_global_lock k' = process_global_lock k" "length (thread_table k') = length (thread_table k)"
proof -
  obtain th where th: "thr k t = Some th" using assms by (auto simp: wakeup_def bind_Some_iff)
  then have len: "t < length (thread_table k)" by (rule thr_SomeD)
  show "process_table k' = process_table k" "cpus k' = cpus k" "map_option unblocked (thr k' u) = map_option unblocked (thr k u)" "ipis k' = ipis k"
    "process_global_lock k' = process_global_lock k" "length (thread_table k') = length (thread_table k)"
    using assms th len by (auto simp: wakeup_def Let_def add_ready_thread_def unblocked_def split: if_splits)
qed

lemma wakeup_loop_frame:
  assumes "wakeup_loop q ts k = Some k'"
  shows "process_table k' = process_table k \<and> cpus k' = cpus k \<and> (\<forall>u. map_option unblocked (thr k' u) = map_option unblocked (thr k u)) \<and> ipis k' = ipis k \<and>
    process_global_lock k' = process_global_lock k \<and> length (thread_table k') = length (thread_table k)"
  using assms
proof (induction ts arbitrary: k)
  case (Cons t ts)
  then obtain k1 where k1: "wakeup t (k\<lparr>wqs := (wqs k)(q := ts)\<rparr>) = Some k1" "wakeup_loop q ts k1 = Some k'" by (auto simp: bind_Some_iff)
  from wakeup_frame [OF k1(1)] Cons.IH [OF k1(2)] show ?case by simp
qed simp

lemmas wakeup_all_frame = wakeup_loop_frame [of q "wqs k q" k for q k, folded wakeup_all_def]

section \<open>The depth of the recursion\<close>

text \<open>Once the process is marked as killed, \<open>kill\<close> returns at once, and \<open>exit\<close> of one of its threads is this.\<close>

definition exit_in_kill :: "nat \<Rightarrow> nat \<Rightarrow> 'a kernel_scheme \<Rightarrow> (flow \<times> 'a kernel_scheme) option" where
  "exit_in_kill c t k = do {
     th \<leftarrow> thr k t;
     if status_exited th then Some (Ret, k) else do {
       k \<leftarrow> wakeup_all (WaitExited t) (put_thr t (th\<lparr>status_exited := True\<rparr>) k);
       pr \<leftarrow> prc k (th_process th);
       let k = put_prc (th_process th) (pr\<lparr>active_thread_cnt := active_thread_cnt pr - 1\<rparr>) k;
       cpu \<leftarrow> cpu_at k c;
       if t = current_thread cpu then do { k \<leftarrow> do_scheduler c None k; Some (Away, k) } else Some (Ret, k)
     }
   }"

fun exit_list :: "nat \<Rightarrow> nat list \<Rightarrow> 'a kernel_scheme \<Rightarrow> (flow \<times> 'a kernel_scheme) option" where
  "exit_list c [] k = Some (Ret, k)"
| "exit_list c (t # ts) k = do {
     (fl, k) \<leftarrow> exit_in_kill c t k;
     if fl = Away then Some (Away, k) else exit_list c ts k
   }"

definition killed :: "nat \<Rightarrow> 'a kernel_scheme \<Rightarrow> bool" where
  "killed p k \<longleftrightarrow> (\<exists>pr. prc k p = Some pr \<and> is_killed pr)"

lemma kill_killed: "killed p k \<Longrightarrow> process_kill drop_objects (Suc n) c p k = Some (Ret, k)"
  by (auto simp: killed_def)

lemma thread_exit_killed:
  assumes "killed p k" "thr k t = Some th" "th_process th = p"
  shows "thread_exit drop_objects (Suc (Suc n)) c t k = exit_in_kill c t k"
proof (cases "status_exited th")
  case False
  obtain pr where pr: "prc k p = Some pr" "is_killed pr" using assms(1) by (auto simp: killed_def)
  show ?thesis
  proof (cases "wakeup_all (WaitExited t) (put_thr t (th\<lparr>status_exited := True\<rparr>) k)")
    case None
    with assms(2) False show ?thesis by (simp add: exit_in_kill_def Let_def)
  next
    case (Some k1)
    from wakeup_all_frame [OF this] have "process_table k1 = process_table k" by simp
    then have pr1: "prc k1 p = Some pr" using pr(1) prc_cong by metis
    then have "killed p (put_prc p (pr\<lparr>active_thread_cnt := a\<rparr>) k1)" for a using pr(2) prc_SomeD [OF pr1] by (simp add: killed_def)
    from kill_killed [OF this, where n = n] show ?thesis
      using assms(2,3) False Some pr1 by (auto simp: exit_in_kill_def Let_def simp del: process_kill.simps cong: if_cong)
  qed
qed (use assms in \<open>simp add: exit_in_kill_def\<close>)

lemma exit_in_kill_frame:
  assumes "killed p k" "thr k t = Some th" "th_process th = p" "exit_in_kill c t k = Some (Ret, k')"
  shows "killed p k'" "map_option th_process (thr k' u) = map_option th_process (thr k u)"
proof -
  have "killed p k' \<and> map_option th_process (thr k' u) = map_option th_process (thr k u)"
  proof (cases "status_exited th")
    case True
    with assms show ?thesis by (simp add: exit_in_kill_def)
  next
    case False
    let ?k = "put_thr t (th\<lparr>status_exited := True\<rparr>) k"
    from False assms(2-4) obtain k1 pr where k1: "wakeup_all (WaitExited t) ?k = Some k1" "prc k1 p = Some pr"
      "k' = put_prc p (pr\<lparr>active_thread_cnt := active_thread_cnt pr - 1\<rparr>) k1"
      by (auto simp: exit_in_kill_def bind_Some_iff Let_def split: if_splits)
    from wakeup_all_frame [OF k1(1)] have f: "process_table k1 = process_table k" "map_option unblocked (thr k1 u) = map_option unblocked (thr ?k u)" by auto
    have "map_option th_process (thr k1 u) = map_option th_process (thr ?k u)"
      using f(2) by (cases "thr k1 u"; cases "thr ?k u") (auto dest: unblocked_eqD)
    moreover have "map_option th_process (thr ?k u) = map_option th_process (thr k u)" using assms(2) thr_SomeD [OF assms(2)] by simp
    moreover have "killed p k'" using assms(1) prc_SomeD [OF k1(2)] k1(2) prc_cong [OF f(1)] by (auto simp: killed_def k1(3))
    ultimately show ?thesis by (simp add: k1(3))
  qed
  then show "killed p k'" "map_option th_process (thr k' u) = map_option th_process (thr k u)" by auto
qed

lemma exit_threads_killed:
  assumes "killed p k" "\<forall>t \<in> set ts. \<exists>th. thr k t = Some th \<and> th_process th = p"
  shows "exit_threads drop_objects (Suc (Suc n)) c ts k = exit_list c ts k"
  using assms
proof (induction ts arbitrary: k)
  case (Cons t ts)
  from Cons.prems(2) obtain th where th: "thr k t = Some th" "th_process th = p" by auto
  have e: "thread_exit drop_objects (Suc (Suc n)) c t k = exit_in_kill c t k" by (rule thread_exit_killed [OF Cons.prems(1) th])
  have "exit_threads drop_objects (Suc (Suc n)) c ts k' = exit_list c ts k'" if k': "exit_in_kill c t k = Some (Ret, k')" for k'
  proof (rule Cons.IH)
    note f = exit_in_kill_frame [OF Cons.prems(1) th k']
    show "killed p k'" by (rule f(1))
    show "\<forall>t \<in> set ts. \<exists>th. thr k' t = Some th \<and> th_process th = p"
    proof
      fix u assume "u \<in> set ts"
      then obtain uh where "thr k u = Some uh" "th_process uh = p" using Cons.prems(2) by auto
      with f(2) [of u] show "\<exists>th. thr k' u = Some th \<and> th_process th = p" by auto
    qed
  qed
  then show ?case unfolding exit_threads.simps exit_list.simps e by (cases "exit_in_kill c t k") (auto, metis flow.exhaust)
qed simp

text \<open>\<open>kill\<close> and \<open>exit\<close> written without recursion: a thread that ends in the loop of \<open>kill\<close> does not call \<open>kill\<close> again with any effect.\<close>

definition kill_once :: "(nat \<Rightarrow> 'a kernel_scheme \<Rightarrow> 'a kernel_scheme option) \<Rightarrow> nat \<Rightarrow> nat \<Rightarrow> 'a kernel_scheme \<Rightarrow> (flow \<times> 'a kernel_scheme) option" where
  "kill_once drop_objects c p k = do {
     pr \<leftarrow> prc k p;
     if is_killed pr then Some (Ret, k) else do {
       kassert (\<not> process_own_lock pr);
       k \<leftarrow> wakeup_all (WaitKill p) (put_prc p (pr\<lparr>process_own_lock := True, is_killed := True\<rparr>) k);
       (fl, k) \<leftarrow> exit_list c (threads pr) k;
       if fl = Away then Some (Away, k) else do {
         pr \<leftarrow> prc k p;
         k \<leftarrow> send_intr_to_running_thread p (put_prc p (pr\<lparr>process_own_lock := False\<rparr>) k);
         k \<leftarrow> drop_objects p k;
         k \<leftarrow> give_children p k;
         kassert (\<not> process_global_lock k);
         Some (Ret, k\<lparr>process_to_release := process_to_release k @ [p]\<rparr>)
       }
     }
   }"

definition exit_once :: "(nat \<Rightarrow> 'a kernel_scheme \<Rightarrow> 'a kernel_scheme option) \<Rightarrow> nat \<Rightarrow> nat \<Rightarrow> 'a kernel_scheme \<Rightarrow> (flow \<times> 'a kernel_scheme) option" where
  "exit_once drop_objects c t k = do {
     th \<leftarrow> thr k t;
     if status_exited th then Some (Ret, k) else do {
       k \<leftarrow> wakeup_all (WaitExited t) (put_thr t (th\<lparr>status_exited := True\<rparr>) k);
       pr \<leftarrow> prc k (th_process th);
       let k = put_prc (th_process th) (pr\<lparr>active_thread_cnt := active_thread_cnt pr - 1\<rparr>) k;
       (fl, k) \<leftarrow> (if active_thread_cnt pr - 1 = 0 then kill_once drop_objects c (th_process th) k else Some (Ret, k));
       if fl = Away then Some (Away, k) else do {
         cpu \<leftarrow> cpu_at k c;
         if t = current_thread cpu then do { k \<leftarrow> do_scheduler c None k; Some (Away, k) } else Some (Ret, k)
       }
     }
   }"

text \<open>The threads of a process point back to it.\<close>

definition own_threads :: "nat \<Rightarrow> 'a kernel_scheme \<Rightarrow> bool" where
  "own_threads p k \<longleftrightarrow> (\<forall>pr. prc k p = Some pr \<longrightarrow> (\<forall>t \<in> set (threads pr). \<exists>th. thr k t = Some th \<and> th_process th = p))"

lemma own_threads_kept:
  assumes "own_threads p k" "\<And>pr'. prc k' p = Some pr' \<Longrightarrow> \<exists>pr. prc k p = Some pr \<and> threads pr' = threads pr" "\<And>u. map_option th_process (thr k' u) = map_option th_process (thr k u)"
  shows "own_threads p k'"
  unfolding own_threads_def
proof (intro allI impI ballI)
  fix pr' t assume "prc k' p = Some pr'" "t \<in> set (threads pr')"
  then obtain th where "thr k t = Some th" "th_process th = p" using assms(1,2) unfolding own_threads_def by metis
  then show "\<exists>th. thr k' t = Some th \<and> th_process th = p" using assms(3) [of t] by auto
qed

lemma unblocked_process: "map_option unblocked (thr k' u) = map_option unblocked (thr k u) \<Longrightarrow> map_option th_process (thr k' u) = map_option th_process (thr k u)"
  by (cases "thr k' u"; cases "thr k u") (auto dest: unblocked_eqD)

lemma kill_levels:
  assumes "own_threads p k"
  shows "process_kill drop_objects (kill_fuel + n) c p k = kill_once drop_objects c p k"
proof (cases "prc k p")
  case (Some pr)
  let ?k = "put_prc p (pr\<lparr>process_own_lock := True, is_killed := True\<rparr>) k"
  have "exit_threads drop_objects (Suc (Suc m)) c (threads pr) k1 = exit_list c (threads pr) k1" if k1: "wakeup_all (WaitKill p) ?k = Some k1" for k1 m
  proof (rule exit_threads_killed)
    from wakeup_all_frame [OF k1] have f: "process_table k1 = process_table ?k" "\<And>u. map_option unblocked (thr k1 u) = map_option unblocked (thr k u)" by auto
    have p1: "prc k1 p = Some (pr\<lparr>process_own_lock := True, is_killed := True\<rparr>)" using prc_cong [OF f(1)] prc_SomeD [OF Some] by simp
    then show "killed p k1" by (simp add: killed_def)
    have "own_threads p k1" by (rule own_threads_kept [OF assms]) (use p1 Some unblocked_process [OF f(2)] in auto)
    then show "\<forall>t \<in> set (threads pr). \<exists>th. thr k1 t = Some th \<and> th_process th = p" using p1 by (simp add: own_threads_def)
  qed
  from this [of _ n] Some show ?thesis
    by (cases "wakeup_all (WaitKill p) ?k") (simp_all add: kill_once_def numeral_3_eq_3 Let_def del: exit_threads.simps cong: if_cong)
qed (simp add: kill_once_def numeral_3_eq_3)

lemma exit_levels:
  assumes "\<And>p. own_threads p k"
  shows "thread_exit drop_objects (Suc (kill_fuel + n)) c t k = exit_once drop_objects c t k"
proof (cases "thr k t")
  case None
  then show ?thesis unfolding thread_exit.simps(2) exit_once_def by simp
next
  case (Some th)
  let ?p = "th_process th" and ?k = "put_thr t (th\<lparr>status_exited := True\<rparr>) k"
  have "process_kill drop_objects (kill_fuel + n) c ?p (put_prc ?p (pr\<lparr>active_thread_cnt := a\<rparr>) k1) = kill_once drop_objects c ?p (put_prc ?p (pr\<lparr>active_thread_cnt := a\<rparr>) k1)"
    if k1: "wakeup_all (WaitExited t) ?k = Some k1" and pr: "prc k1 ?p = Some pr" for k1 pr a
  proof (rule kill_levels, rule own_threads_kept [OF assms])
    from wakeup_all_frame [OF k1] have f: "process_table k1 = process_table k" "\<And>u. map_option unblocked (thr k1 u) = map_option unblocked (thr ?k u)" by auto
    show "map_option th_process (thr (put_prc ?p (pr\<lparr>active_thread_cnt := a\<rparr>) k1) u) = map_option th_process (thr k u)" for u
      using unblocked_process [OF f(2), of u] Some thr_SomeD [OF Some] by auto
    show "\<exists>pr''. prc k ?p = Some pr'' \<and> threads pr' = threads pr''" if "prc (put_prc ?p (pr\<lparr>active_thread_cnt := a\<rparr>) k1) ?p = Some pr'" for pr'
      using that pr prc_SomeD [OF pr] prc_cong [OF f(1)] by auto
  qed
  note kl = this
  show ?thesis
  proof (cases "wakeup_all (WaitExited t) ?k")
    case None
    with Some show ?thesis unfolding thread_exit.simps(2) exit_once_def by simp
  next
    case w: (Some k1)
    show ?thesis
    proof (cases "prc k1 ?p")
      case None
      with Some w show ?thesis unfolding thread_exit.simps(2) exit_once_def by simp
    next
      case (Some pr)
      with \<open>thr k t = Some th\<close> w kl [OF w Some] show ?thesis unfolding thread_exit.simps(2) exit_once_def Let_def by (simp del: process_kill.simps)
    qed
  qed
qed

section \<open>Killing a process\<close>

text \<open>The flag \<open>status_exited\<close> of a thread that is no idle thread may be set in any place.\<close>

lemma places_exited:
  assumes "places C X k" "thr k t = Some th" "\<not> idle k t"
  shows "places C X (put_thr t (th\<lparr>status_exited := True\<rparr>) k)"
proof -
  let ?k = "put_thr t (th\<lparr>status_exited := True\<rparr>) k"
  have len: "t < length (thread_table k)" by (rule thr_SomeD [OF assms(2)])
  have "thread_ok C X ?k u uh" if "thr ?k u = Some uh" for u uh
  proof (cases "u = t")
    case True
    with that len have "uh = th\<lparr>status_exited := True\<rparr>" by simp
    with True placesD(4) [OF assms(1,2)] assms(3) show ?thesis by (simp add: thread_ok_def)
  next
    case False
    with that len have "thr k u = Some uh" by simp
    from placesD(4) [OF assms(1) this] show ?thesis by (simp add: thread_ok_def)
  qed
  with placesD(1-3,5) [OF assms(1)] len show ?thesis by (auto simp: places_def)
qed

lemma waiting_not_running:
  assumes "places C {} k"
  shows "set (wqs k q) \<inter> ran C = {}"
proof (rule ccontr)
  assume "set (wqs k q) \<inter> ran C \<noteq> {}"
  then obtain t where t: "t \<in> set (wqs k q)" "t \<in> ran C" by blast
  then have w: "waiting k t" by (auto simp: waiting_def qs_def intro!: exI [of _ "Some q"])
  obtain th where "thr k t = Some th" using placesD(5) [OF assms, of t] w by blast
  from placesD(4) [OF assms this] w t(2) show False by (simp add: thread_ok_def)
qed

lemma wake_frame_satp: "wake_frame k k' \<Longrightarrow> satp_ok k \<Longrightarrow> satp_ok k'"
proof (rule satp_ok_frame)
  fix t assume "wake_frame k k'"
  then have "map_option unblocked (thr k' t) = map_option unblocked (thr k t)" by (simp add: wake_frame_def)
  then show "map_option th_process (thr k' t) = map_option th_process (thr k t)"
    by (cases "thr k' t"; cases "thr k t") (auto dest: unblocked_eqD)
qed (simp_all add: wake_frame_def)

lemma wakeup_all_inv:
  assumes "sched_inv k"
  obtains k' where "wakeup_all q k = Some k'" "sched_inv k'" "wake_frame k k'" "wqs k' = (wqs k)(q := [])" "ready_queue k' = ready_queue k @ live k (wqs k q)"
proof -
  have p: "places (cur k) {} k" "satp_ok k" using assms by (simp_all add: sched_inv_def)
  obtain k' where k': "wakeup_all q k = Some k'" "places (cur k) {} k'" "wake_frame k k'" "wqs k' = (wqs k)(q := [])" "ready_queue k' = ready_queue k @ live k (wqs k q)"
    using wakeup_all_places [OF p(1) waiting_not_running [OF p(1)]] by blast
  have "sched_inv k'" using k'(2) wake_frame_satp [OF k'(3) p(2)] cur_cong [OF wake_frameD(1) [OF k'(3)]] by (simp add: sched_inv_def)
  with k' show thesis by (intro that)
qed

lemma wakeup_one_inv:
  assumes "sched_inv k"
  obtains k' where "wakeup_one q k = Some (case wqs k q of [] \<Rightarrow> None | t # _ \<Rightarrow> Some t, k')" "sched_inv k'" "wake_frame k k'"
    "wqs k' = (wqs k)(q := tl (wqs k q))" "ready_queue k' = ready_queue k @ live k (take 1 (wqs k q))"
proof -
  have p: "places (cur k) {} k" "satp_ok k" using assms by (simp_all add: sched_inv_def)
  obtain k' where k': "wakeup_one q k = Some (case wqs k q of [] \<Rightarrow> None | t # _ \<Rightarrow> Some t, k')" "places (cur k) {} k'" "wake_frame k k'"
    "wqs k' = (wqs k)(q := tl (wqs k q))" "ready_queue k' = ready_queue k @ live k (take 1 (wqs k q))"
    using wakeup_one_places [OF p(1) waiting_not_running [OF p(1)]] by blast
  have "sched_inv k'" using k'(2) wake_frame_satp [OF k'(3) p(2)] cur_cong [OF wake_frameD(1) [OF k'(3)]] by (simp add: sched_inv_def)
  with k' show thesis by (intro that)
qed

text \<open>The loop of \<open>kill\<close> over threads that do not run on this CPU.\<close>

lemma exit_in_kill_other:
  assumes "sched_inv k" "thr k t = Some th" "th_process th = p" "prc k p = Some pr" "\<not> idle k t" "cur k c = Some f" "t \<noteq> f"
  obtains k' a where "exit_in_kill c t k = Some (Ret, k')" "sched_inv k'" "cpus k' = cpus k" "ipis k' = ipis k" "process_global_lock k' = process_global_lock k"
    "process_table k' = (process_table k)[p := Some (pr\<lparr>active_thread_cnt := a\<rparr>)]"
    "\<forall>u. map_option th_process (thr k' u) = map_option th_process (thr k u)"
    "\<forall>u. map_option status_exited (thr k' u) = (if u = t then Some True else map_option status_exited (thr k u))" "kernel.more k' = kernel.more k"
proof (cases "status_exited th")
  case True
  have "exit_in_kill c t k = Some (Ret, k)" using True assms(2) by (simp add: exit_in_kill_def)
  moreover have "process_table k = (process_table k)[p := Some (pr\<lparr>active_thread_cnt := active_thread_cnt pr\<rparr>)]"
    using assms(4) by (simp add: prc_def split: if_splits) (metis list_update_id)
  ultimately show thesis using assms(1,2) True by (intro that [of k "active_thread_cnt pr"]) auto
next
  case False
  let ?k = "put_thr t (th\<lparr>status_exited := True\<rparr>) k"
  have len: "t < length (thread_table k)" by (rule thr_SomeD [OF assms(2)])
  have "sched_inv ?k" unfolding sched_inv_def
  proof
    have "cur ?k = cur k" by (rule cur_cong) simp
    then show "places (cur ?k) {} ?k" using places_exited [OF _ assms(2,5)] assms(1) by (simp add: sched_inv_def)
    show "satp_ok ?k" by (rule satp_ok_frame [of k]) (use assms(1,2) len in \<open>auto simp: sched_inv_def\<close>)
  qed
  then obtain k1 where k1: "wakeup_all (WaitExited t) ?k = Some k1" "sched_inv k1" "wake_frame ?k k1" by (rule wakeup_all_inv)
  have mo: "kernel.more k1 = kernel.more k" using wake_frameD(4) [OF k1(3)] by (simp add: put_thr_def)
  from wakeup_all_frame [OF k1(1)] have f: "process_table k1 = process_table k" "cpus k1 = cpus k" "\<forall>u. map_option unblocked (thr k1 u) = map_option unblocked (thr ?k u)"
    "ipis k1 = ipis k" "process_global_lock k1 = process_global_lock k" by auto
  let ?k2 = "put_prc p (pr\<lparr>active_thread_cnt := active_thread_cnt pr - 1\<rparr>) k1"
  have "prc k1 p = Some pr" using prc_cong [OF f(1)] assms(4) by simp
  moreover have "cpu_at k1 c = Some (cpus k ! c)" "current_thread (cpus k ! c) = f" using assms(6) by (auto simp: cpu_at_def f(2) cur_Some)
  moreover have "cpu_at ?k2 = cpu_at k1" by (simp add: cpu_at_def fun_eq_iff)
  ultimately have e: "exit_in_kill c t k = Some (Ret, ?k2)" using False assms(2,3,7) k1(1) by (simp add: exit_in_kill_def Let_def)
  have "map_option th_process (thr ?k2 u) = map_option th_process (thr k u)" for u
    using f(3) [rule_format, of u] assms(2) len by (cases "thr k1 u"; cases "thr k u") (auto split: if_splits dest: unblocked_eqD)
  moreover have "map_option status_exited (thr ?k2 u) = (if u = t then Some True else map_option status_exited (thr k u))" for u
    using f(3) [rule_format, of u] assms(2) len by (cases "thr k1 u"; cases "thr k u") (auto split: if_splits dest: unblocked_eqD)
  moreover have "process_table ?k2 = (process_table k)[p := Some (pr\<lparr>active_thread_cnt := active_thread_cnt pr - 1\<rparr>)]" by (simp add: put_prc_def f(1))
  ultimately show thesis using that [OF e] k1(2) f mo by simp
qed

text \<open>What \<open>killing\<close> says of the process that is being killed; only the count of its active threads changes in the loop.\<close>

definition killing :: "nat \<Rightarrow> process \<Rightarrow> 'a kernel_scheme \<Rightarrow> bool" where
  "killing p pr k \<longleftrightarrow> (\<exists>a. prc k p = Some (pr\<lparr>active_thread_cnt := a\<rparr>))"

lemma exit_list_others:
  assumes "sched_inv k" "killing p pr k" "cur k c = Some f" "f \<notin> set ts" "\<forall>t \<in> set ts. \<not> idle k t \<and> (\<exists>th. thr k t = Some th \<and> th_process th = p)"
  shows "\<exists>k'. exit_list c ts k = Some (Ret, k') \<and> sched_inv k' \<and> killing p pr k' \<and> cpus k' = cpus k \<and> ipis k' = ipis k \<and>
    process_global_lock k' = process_global_lock k \<and> (\<forall>q. q \<noteq> p \<longrightarrow> prc k' q = prc k q) \<and>
    (\<forall>u. map_option th_process (thr k' u) = map_option th_process (thr k u)) \<and>
    (\<forall>u. map_option status_exited (thr k' u) = (if u \<in> set ts then Some True else map_option status_exited (thr k u))) \<and> kernel.more k' = kernel.more k"
  using assms
proof (induction ts arbitrary: k)
  case Nil
  then show ?case by simp
next
  case (Cons t ts)
  from Cons.prems(5) obtain th where th: "thr k t = Some th" "th_process th = p" "\<not> idle k t" by auto
  from Cons.prems(2) obtain b where b: "prc k p = Some (pr\<lparr>active_thread_cnt := b\<rparr>)" by (auto simp: killing_def)
  obtain k1 a where k1: "exit_in_kill c t k = Some (Ret, k1)" "sched_inv k1" "cpus k1 = cpus k" "ipis k1 = ipis k" "process_global_lock k1 = process_global_lock k"
    "process_table k1 = (process_table k)[p := Some (pr\<lparr>active_thread_cnt := b\<rparr>\<lparr>active_thread_cnt := a\<rparr>)]"
    "\<forall>u. map_option th_process (thr k1 u) = map_option th_process (thr k u)"
    "\<forall>u. map_option status_exited (thr k1 u) = (if u = t then Some True else map_option status_exited (thr k u))" "kernel.more k1 = kernel.more k"
    by (rule exit_in_kill_other [OF Cons.prems(1) th(1,2) b th(3) Cons.prems(3)]) (use Cons.prems(4) in auto)
  have kl: "killing p pr k1" using k1(6) prc_SomeD [OF b] by (auto simp: killing_def prc_def)
  have "\<forall>u \<in> set ts. \<not> idle k1 u \<and> (\<exists>th. thr k1 u = Some th \<and> th_process th = p)"
  proof
    fix u assume "u \<in> set ts"
    then obtain uh where "\<not> idle k u" "thr k u = Some uh" "th_process uh = p" using Cons.prems(5) by auto
    with k1(7) [rule_format, of u] idle_cong [OF k1(3)] show "\<not> idle k1 u \<and> (\<exists>th. thr k1 u = Some th \<and> th_process th = p)" by auto
  qed
  then obtain k2 where k2: "exit_list c ts k1 = Some (Ret, k2)" "sched_inv k2" "killing p pr k2" "cpus k2 = cpus k1" "ipis k2 = ipis k1"
    "process_global_lock k2 = process_global_lock k1" "\<forall>q. q \<noteq> p \<longrightarrow> prc k2 q = prc k1 q"
    "\<forall>u. map_option th_process (thr k2 u) = map_option th_process (thr k1 u)"
    "\<forall>u. map_option status_exited (thr k2 u) = (if u \<in> set ts then Some True else map_option status_exited (thr k1 u))" "kernel.more k2 = kernel.more k1"
    using Cons.IH [OF k1(2) kl] cur_cong [OF k1(3)] Cons.prems(3,4) by auto
  have "\<forall>q. q \<noteq> p \<longrightarrow> prc k2 q = prc k q" using k2(7) k1(6) by (simp add: prc_def)
  with k1(1-5,7-9) k2 show ?case by simp
qed

text \<open>Threads that have exited are not asked for an interrupt.\<close>

lemma hart_mask_exited:
  assumes "\<forall>t \<in> set ts. map_option status_exited (thr k t) = Some True"
  shows "hart_mask k ts m = Some m"
  using assms by (induction ts arbitrary: m) (auto simp: running_bit_def status_def)

lemma reparent_total:
  assumes "\<forall>ch \<in> set chs. prc k ch \<noteq> None" "prc k q \<noteq> None"
  shows "\<exists>k'. reparent q chs k = Some k' \<and> thread_table k' = thread_table k \<and> ipis k' = ipis k \<and> process_global_lock k' = process_global_lock k \<and>
    (\<forall>r. map_option is_killed (prc k' r) = map_option is_killed (prc k r) \<and> map_option process_own_lock (prc k' r) = map_option process_own_lock (prc k r))"
  using assms
proof (induction chs arbitrary: k)
  case (Cons ch chs)
  then obtain pr pq where pr: "prc k ch = Some pr" "prc k q = Some pq" by auto
  show ?case
  proof (cases "is_killed pr")
    case True
    with Cons pr show ?thesis by simp
  next
    case False
    let ?k = "put_prc ch (pr\<lparr>parent := Some q\<rparr>) k"
    have l: "ch < length (process_table k)" "q < length (process_table k)" using prc_SomeD pr by auto
    then obtain pa where pa: "prc ?k q = Some pa" "is_killed pa = is_killed pq" "process_own_lock pa = process_own_lock pq" using pr by (cases "q = ch") auto
    let ?k2 = "put_prc q (pa\<lparr>children := children pa @ [ch]\<rparr>) ?k"
    have "map_option is_killed (prc ?k2 r) = map_option is_killed (prc k r) \<and> map_option process_own_lock (prc ?k2 r) = map_option process_own_lock (prc k r)" for r
      using l pr pa by auto
    moreover have "\<forall>ch \<in> set chs. prc ?k2 ch \<noteq> None" "prc ?k2 q \<noteq> None" using Cons.prems l by auto
    ultimately show ?thesis using Cons.IH [of ?k2] False pr(1) pa(1) by (auto simp: Let_def)
  qed
qed simp

text \<open>
  Killing a process that has no thread on this CPU, up to the release of its objects, of which the hypothesis \<open>drop\<close> says that it returns in the state in which \<open>kill\<close> calls it; the theory Kill shows that it does.
\<close>

lemma kill_others:
  assumes "sched_inv k" "prc k p = Some pr" "\<not> is_killed pr" "\<not> process_own_lock pr" "\<not> process_global_lock k" "cur k c = Some f" "f \<notin> set (threads pr)"
    and own: "\<forall>t \<in> set (threads pr). \<not> idle k t \<and> (\<exists>th. thr k t = Some th \<and> th_process th = p)"
    and kin: "\<forall>ch \<in> set (children pr). prc k ch \<noteq> None" "\<forall>q. parent pr = Some q \<longrightarrow> prc k q \<noteq> None"
    and drop: "\<And>k1. sched_inv k1 \<Longrightarrow> kernel.more k1 = kernel.more k \<Longrightarrow> \<forall>u. map_option th_process (thr k1 u) = map_option th_process (thr k u) \<Longrightarrow> (\<exists>k2. drop_objects p k1 = Some k2 \<and> process_table k2 = process_table k1 \<and> ipis k2 = ipis k1 \<and>
      process_global_lock k2 = process_global_lock k1 \<and> (\<forall>t. map_option status_exited (thr k2 t) = map_option status_exited (thr k1 t)))"
  shows "\<exists>k' pr'. process_kill drop_objects kill_fuel c p k = Some (Ret, k') \<and> prc k' p = Some pr' \<and> is_killed pr' \<and> \<not> process_own_lock pr' \<and>
    (\<forall>t \<in> set (threads pr). map_option status_exited (thr k' t) = Some True) \<and> ipis k' = ipis k"
proof -
  let ?pr = "pr\<lparr>process_own_lock := True, is_killed := True\<rparr>"
  let ?k = "put_prc p ?pr k"
  have lp: "p < length (process_table k)" by (rule prc_SomeD [OF assms(2)])
  obtain k1 where k1: "wakeup_all (WaitKill p) ?k = Some k1" "sched_inv k1" "wake_frame ?k k1" by (rule wakeup_all_inv [of ?k]) (use assms(1) in auto)
  from wakeup_all_frame [OF k1(1)] have f: "process_table k1 = process_table ?k" "cpus k1 = cpus k" "ipis k1 = ipis k" "process_global_lock k1 = process_global_lock k"
    "\<forall>u. map_option unblocked (thr k1 u) = map_option unblocked (thr k u)" by auto
  have p1: "prc k1 = prc ?k" by (rule prc_cong [OF f(1)])
  have kl: "killing p ?pr k1" "killed p k1" using p1 lp by (auto simp: killing_def killed_def intro: exI [of _ "active_thread_cnt pr"])
  have own1: "\<forall>t \<in> set (threads pr). \<not> idle k1 t \<and> (\<exists>th. thr k1 t = Some th \<and> th_process th = p)"
  proof
    fix t assume "t \<in> set (threads pr)"
    with own obtain th where th: "\<not> idle k t" "thr k t = Some th" "th_process th = p" by blast
    with f(5) [rule_format, of t] obtain th' where "thr k1 t = Some th'" "unblocked th' = unblocked th" by auto
    with th idle_cong [OF f(2)] unblocked_eqD(2) show "\<not> idle k1 t \<and> (\<exists>th. thr k1 t = Some th \<and> th_process th = p)" by metis
  qed
  then obtain k2 where k2: "exit_list c (threads pr) k1 = Some (Ret, k2)" "sched_inv k2" "killing p ?pr k2" "ipis k2 = ipis k1"
    "process_global_lock k2 = process_global_lock k1" "\<forall>q. q \<noteq> p \<longrightarrow> prc k2 q = prc k1 q"
    "\<forall>u. map_option status_exited (thr k2 u) = (if u \<in> set (threads pr) then Some True else map_option status_exited (thr k1 u))" "kernel.more k2 = kernel.more k1"
    "\<forall>u. map_option th_process (thr k2 u) = map_option th_process (thr k1 u)"
    using exit_list_others [OF k1(2) kl(1) _ assms(7) own1] assms(6) cur_cong [OF f(2)] by metis
  have e: "exit_threads drop_objects 2 c (threads pr) k1 = Some (Ret, k2)"
    using exit_threads_killed [OF kl(2), of "threads pr" drop_objects 0 c] own1 k2(1) by (simp add: numeral_2_eq_2 del: exit_threads.simps)
  obtain a where a: "prc k2 p = Some (?pr\<lparr>active_thread_cnt := a\<rparr>)" using k2(3) by (auto simp: killing_def)
  define k3 where "k3 = put_prc p (?pr\<lparr>active_thread_cnt := a, process_own_lock := False\<rparr>) k2"
  have p3: "prc k3 q = (if q = p then Some (pr\<lparr>process_own_lock := False, is_killed := True, active_thread_cnt := a\<rparr>) else prc k q)" for q
    using prc_SomeD [OF a] k2(6) p1 lp by (auto simp: k3_def)
  have "hart_mask k3 (threads pr) 0 = Some 0" by (rule hart_mask_exited) (use k2(7) in \<open>simp add: k3_def\<close>)
  then have s3: "send_intr_to_running_thread p k3 = Some k3" by (simp add: send_intr_to_running_thread_def p3)
  have "sched_inv k3" using k2(2) by (simp add: k3_def)
  moreover have "kernel.more k3 = kernel.more k" using k2(8) wake_frameD(4) [OF k1(3)] by (simp add: k3_def)
  moreover have "\<forall>u. map_option th_process (thr k3 u) = map_option th_process (thr k u)" using k2(9) unblocked_process [OF f(5) [rule_format]] by (simp add: k3_def)
  ultimately obtain k4 where k4: "drop_objects p k3 = Some k4" "process_table k4 = process_table k3" "ipis k4 = ipis k3"
    "process_global_lock k4 = process_global_lock k3" "\<forall>t. map_option status_exited (thr k4 t) = map_option status_exited (thr k3 t)" using drop [of k3] by blast
  have p4: "prc k4 = prc k3" by (rule prc_cong [OF k4(2)])
  have "\<exists>k5. give_children p k4 = Some k5 \<and> thread_table k5 = thread_table k4 \<and> ipis k5 = ipis k4 \<and> process_global_lock k5 = process_global_lock k4 \<and>
    map_option is_killed (prc k5 p) = Some True \<and> map_option process_own_lock (prc k5 p) = Some False"
  proof (cases "parent pr")
    case None
    then show ?thesis by (simp add: give_children_def p4 p3)
  next
    case (Some q)
    with kin have "\<forall>ch \<in> set (children pr). prc k4 ch \<noteq> None" "prc k4 q \<noteq> None" by (auto simp: p4 p3)
    from reparent_total [OF this] obtain k5 where k5: "reparent q (children pr) k4 = Some k5" "thread_table k5 = thread_table k4" "ipis k5 = ipis k4"
      "process_global_lock k5 = process_global_lock k4" "\<And>r. map_option is_killed (prc k5 r) = map_option is_killed (prc k4 r)"
      "\<And>r. map_option process_own_lock (prc k5 r) = map_option process_own_lock (prc k4 r)" by blast
    have "map_option is_killed (prc k5 p) = Some True" "map_option process_own_lock (prc k5 p) = Some False"
      using k5(5,6) [of p] by (simp_all add: p4 p3 del: map_option_eq_Some)
    with k5(1-4) Some show ?thesis by (simp add: give_children_def p4 p3 del: map_option_eq_Some)
  qed
  then obtain k5 where k5: "give_children p k4 = Some k5" "thread_table k5 = thread_table k4" "ipis k5 = ipis k4" "process_global_lock k5 = process_global_lock k4"
    "map_option is_killed (prc k5 p) = Some True" "map_option process_own_lock (prc k5 p) = Some False" by blast
  define k6 where "k6 = k5\<lparr>process_to_release := process_to_release k5 @ [p]\<rparr>"
  have gl: "\<not> process_global_lock k5" using assms(5) f(4) k2(5) k4(4) k5(4) by (simp add: k3_def)
  have "process_kill drop_objects 3 c p k = Some (Ret, k6)"
    unfolding numeral_3_eq_3 process_kill.simps
    using assms(2-4) k1(1) e [unfolded numeral_2_eq_2] a s3 k4(1) k5(1) gl by (simp add: Let_def k3_def k6_def)
  moreover have "thr k6 t = thr k4 t" "prc k6 p = prc k5 p" for t using k5(2) by (simp_all add: thr_def k6_def prc_def)
  moreover have "map_option status_exited (thr k4 t) = Some True" if "t \<in> set (threads pr)" for t using that k4(5) k2(7) by (simp add: k3_def)
  ultimately show ?thesis using k5(3,5,6) k4(3) k2(4) f(3) by (auto simp: k6_def k3_def)
qed

section \<open>A process that exits\<close>

lemma check_loop_frame: "check_loop items k = Some k' \<Longrightarrow> process_table k' = process_table k"
proof (induction items arbitrary: k)
  case (Cons i items)
  obtain w a t where i: "i = (w, a, t)" by (cases i) auto
  show ?case
  proof (cases "w < timer k")
    case True
    with Cons.prems obtain k1 where "wakeup t (k\<lparr>sleeping_queue := items\<rparr>) = Some k1" "check_loop items k1 = Some k'" by (auto simp: i bind_Some_iff)
    with wakeup_frame(1) [OF this(1)] Cons.IH show ?thesis by simp
  qed (use Cons.prems in \<open>simp add: i\<close>)
qed simp

lemma switch_to_frame: "switch_to c f n k = Some k' \<Longrightarrow> process_table k' = process_table k"
  by (auto simp: switch_to_def Let_def elim!: bind_SomeE)

lemma do_scheduler_process_table:
  fixes k :: "'a kernel_scheme"
  assumes "do_scheduler c None k = Some k'"
  shows "process_table k' = process_table k"
proof -
  have if_table: "process_table (if b then x else y) = (if b then process_table x else process_table y)" for b and x y :: "'a kernel_scheme" by simp
  from assms show ?thesis
    unfolding do_scheduler_def Let_def option.case
    by (elim bind_SomeE) (auto elim!: bind_SomeE dest!: switch_to_frame check_loop_frame simp: check_sleeping_def add_ready_thread_def if_table)
qed

lemma killing_cong: "process_table k' = process_table k \<Longrightarrow> killing p pr k' = killing p pr k"
  using prc_cong [of k' k] by (simp add: killing_def)

lemma exit_list_self:
  assumes "killing p pr k" "is_killed pr" "cur k c = Some f" "f \<in> set ts" "map_option status_exited (thr k f) = Some False"
    "\<forall>t \<in> set ts. \<exists>th. thr k t = Some th \<and> th_process th = p" "exit_list c ts k = Some (fl, k')"
  shows "fl = Away \<and> killing p pr k'"
  using assms
proof (induction ts arbitrary: k)
  case (Cons t ts)
  from Cons.prems(6) obtain th where th: "thr k t = Some th" "th_process th = p" by auto
  let ?k = "put_thr t (th\<lparr>status_exited := True\<rparr>) k"
  obtain a where a: "prc k p = Some (pr\<lparr>active_thread_cnt := a\<rparr>)" using Cons.prems(1) by (auto simp: killing_def)
  obtain fl1 k1 where k1: "exit_in_kill c t k = Some (fl1, k1)" "fl1 = Away \<and> fl = Away \<and> k' = k1 \<or> fl1 = Ret \<and> exit_list c ts k1 = Some (fl, k')"
    using Cons.prems(7) by (auto simp: bind_Some_iff split: if_splits) (metis flow.exhaust)
  show ?case
  proof (cases "status_exited th")
    case True
    with th Cons.prems(5) have "t \<noteq> f" by auto
    moreover have "fl1 = Ret" "k1 = k" using k1(1) th(1) True by (auto simp: exit_in_kill_def)
    ultimately show ?thesis using Cons.IH [of k] Cons.prems k1(2) by auto
  next
    case False
    from k1(1) th(1) False obtain k2 where k2: "wakeup_all (WaitExited t) ?k = Some k2" by (auto simp: exit_in_kill_def elim!: bind_SomeE)
    from wakeup_all_frame [OF k2] have fr: "process_table k2 = process_table k" "cpus k2 = cpus k" "\<And>u. map_option unblocked (thr k2 u) = map_option unblocked (thr ?k u)" by auto
    define k3 where "k3 = put_prc p (pr\<lparr>active_thread_cnt := a - 1\<rparr>) k2"
    have p2: "prc k2 p = Some (pr\<lparr>active_thread_cnt := a\<rparr>)" using prc_cong [OF fr(1)] a by simp
    have kl3: "killing p pr k3" using prc_SomeD [OF p2] by (auto simp: killing_def k3_def)
    have cp: "cpus k3 = cpus k" by (simp add: k3_def fr(2))
    have c3: "cpu_at k3 c = Some (cpus k ! c)" "current_thread (cpus k ! c) = f" using Cons.prems(3) by (auto simp: cpu_at_def cp cur_Some)
    have e: "exit_in_kill c t k = (if t = f then do { k \<leftarrow> do_scheduler c None k3; Some (Away, k) } else Some (Ret, k3))"
      using th False k2 p2 c3 by (simp add: exit_in_kill_def Let_def k3_def)
    show ?thesis
    proof (cases "t = f")
      case True
      with e k1(1) have sc: "fl1 = Away" "do_scheduler c None k3 = Some k1" by (auto simp: bind_Some_iff)
      with k1(2) kl3 killing_cong [OF do_scheduler_process_table [OF sc(2)]] show ?thesis by auto
    next
      case nf: False
      with e k1 have r: "exit_list c ts k3 = Some (fl, k')" by auto
      have tk: "map_option unblocked (thr k3 u) = map_option unblocked (thr ?k u)" for u using fr(3) by (simp add: k3_def)
      have "map_option status_exited (thr k3 f) = Some False"
        using tk [of f] nf Cons.prems(5) thr_SomeD [OF th(1)] by (cases "thr k3 f"; cases "thr k f") (auto dest: unblocked_eqD)
      moreover have "\<exists>uh. thr k3 u = Some uh \<and> th_process uh = p" if u: "u \<in> set ts" for u
      proof -
        obtain uh where "thr k u = Some uh" "th_process uh = p" using Cons.prems(6) u by auto
        then obtain vh where vh: "thr ?k u = Some vh" "th_process vh = p" using thr_SomeD [OF th(1)] th by (cases "u = t") auto
        with tk [of u] obtain wh where "thr k3 u = Some wh" "unblocked wh = unblocked vh" by auto
        with vh(2) unblocked_eqD(2) show ?thesis by metis
      qed
      moreover have "cur k3 c = Some f" using cur_cong [OF cp] Cons.prems(3) by simp
      ultimately show ?thesis using Cons.IH [OF kl3 assms(2) _ _ _ _ r] nf Cons.prems(4) by auto
    qed
  qed
qed simp

text \<open>The clean-up of the idle loop takes the lock of a killed process and does not get it while it is held.\<close>

lemma delete_threads_frame: "delete_threads ts k = Some k' \<Longrightarrow> process_table k' = process_table k"
proof (induction ts arbitrary: k)
  case (Cons t ts)
  then obtain k1 where k1: "wakeup_all (WaitExited t) (k\<lparr>thread_table := (thread_table k)[t := None]\<rparr>) = Some k1" "delete_threads ts k1 = Some k'"
    by (auto simp: bind_Some_iff)
  from wakeup_all_frame [OF k1(1)] Cons.IH [OF k1(2)] show ?case by simp
qed simp

lemma delete_process_frame: "delete_process p k = Some k' \<Longrightarrow> process_table k' = process_table k"
  by (auto simp: delete_process_def bind_Some_iff dest!: delete_threads_frame wakeup_all_frame)

lemma cleanup_stuck:
  fixes k :: "'a kernel_scheme"
  assumes "p \<in> set ps" "prc k p = Some pr" "is_killed pr" "process_own_lock pr"
  shows "cleanup_loop ps k = None"
  using assms(1,2)
proof (induction ps arbitrary: k)
  case (Cons q ps)
  show ?case
  proof (cases "q = p")
    case True
    with Cons.prems(2) assms(3,4) show ?thesis by simp
  next
    case False
    have ih: "cleanup_loop ps k' = None" if "prc k' p = prc k p" for k' :: "'a kernel_scheme"
      using that Cons.IH [of k'] Cons.prems False by simp
    show ?thesis
    proof (cases "prc k q")
      case None
      with ih show ?thesis by simp
    next
      case (Some qr)
      have "prc (k1\<lparr>process_table := (process_table k1)[q := None]\<rparr>) p = prc k p"
        if "delete_process q (put_prc q (qr\<lparr>process_own_lock := True\<rparr>) k) = Some k1" for k1
        using delete_process_frame [OF that] False by (simp add: prc_def put_prc_def)
      with Some ih show ?thesis
        by (cases "delete_process q (put_prc q (qr\<lparr>process_own_lock := True\<rparr>) k)") auto
    qed
  qed
qed simp

text \<open>
  C37: A process that ends itself stops the clean-up. \<open>sys_exit\<close> kills the process of the running thread; in the loop of \<open>kill\<close> the \<open>exit\<close> of this thread switches to
  another thread and does not return, so the lock of the process stays held. The next \<open>idle_cleanup\<close> does not get through: it waits for this lock
  for ever, while it holds \<open>process_global_lock\<close>.
\<close>

theorem exit_blocks_cleanup:
  assumes "cur k c = Some f" "thr k f = Some fh" "\<not> status_exited fh" "prc k (th_process fh) = Some pr" "\<not> is_killed pr" "f \<in> set (threads pr)"
    "\<forall>t \<in> set (threads pr). \<exists>th. thr k t = Some th \<and> th_process th = th_process fh" "sys_exit drop_objects c k = Some k'"
  shows "(\<exists>pr'. prc k' (th_process fh) = Some pr' \<and> is_killed pr' \<and> process_own_lock pr') \<and> idle_cleanup k' = None"
proof -
  let ?p = "th_process fh" and ?pr = "pr\<lparr>process_own_lock := True, is_killed := True\<rparr>"
  let ?k = "put_prc ?p ?pr k"
  have lp: "?p < length (process_table k)" by (rule prc_SomeD [OF assms(4)])
  have cp: "current_process c k = Some ?p" using assms(1,2) by (auto simp: current_process_def cur_def)
  obtain fl k2 where kill: "process_kill drop_objects 3 c ?p k = Some (fl, k2)" and fin: "if fl = Away then k' = k2 else do_scheduler c None k2 = Some k'"
    using assms(8) cp by (auto simp: sys_exit_def bind_Some_iff split: if_splits)
  from kill [unfolded numeral_3_eq_3 process_kill.simps] assms(4,5) obtain k1 where k1: "wakeup_all (WaitKill ?p) ?k = Some k1"
    by (auto simp: Let_def elim!: bind_SomeE split: if_splits)
  from wakeup_all_frame [OF k1] have f: "process_table k1 = process_table ?k" "cpus k1 = cpus k" "\<And>u. map_option unblocked (thr k1 u) = map_option unblocked (thr k u)" by auto
  have kl: "killing ?p ?pr k1" "killed ?p k1" using prc_cong [OF f(1)] lp by (auto simp: killing_def killed_def intro: exI [of _ "active_thread_cnt pr"])
  have own: "\<forall>t \<in> set (threads pr). \<exists>th. thr k1 t = Some th \<and> th_process th = ?p"
  proof
    fix t assume "t \<in> set (threads pr)"
    with assms(7) obtain th where th: "thr k t = Some th" "th_process th = ?p" by blast
    with f(3) [of t] obtain th' where "thr k1 t = Some th'" "unblocked th' = unblocked th" by auto
    with th unblocked_eqD(2) show "\<exists>th. thr k1 t = Some th \<and> th_process th = ?p" by metis
  qed
  have e: "exit_threads drop_objects (Suc (Suc 0)) c (threads pr) k1 = exit_list c (threads pr) k1" by (rule exit_threads_killed [OF kl(2) own])
  obtain fl1 k3 where k3: "exit_list c (threads pr) k1 = Some (fl1, k3)"
    using kill [unfolded numeral_3_eq_3 process_kill.simps] assms(4,5) k1 e by (auto simp: Let_def elim!: bind_SomeE split: if_splits)
  have "map_option status_exited (thr k1 f) = Some False"
    using f(3) [of f] assms(2,3) by (cases "thr k1 f") (auto dest: unblocked_eqD)
  then have aw: "fl1 = Away" "killing ?p ?pr k3"
    using exit_list_self [OF kl(1) _ _ assms(6) _ own k3] cur_cong [OF f(2)] assms(1) by auto
  then have "fl = Away" "k2 = k3"
    using kill [unfolded numeral_3_eq_3 process_kill.simps] assms(4,5) k1 e k3 by (auto simp: Let_def elim!: bind_SomeE split: if_splits)
  with fin aw(2) obtain a where a: "prc k' ?p = Some (?pr\<lparr>active_thread_cnt := a\<rparr>)" by (auto simp: killing_def)
  have "idle_cleanup k' = None"
    using cleanup_stuck [OF _ a, of "[0..<length (process_table k')]"] prc_SomeD [OF a] by (simp add: idle_cleanup_def)
  with a show ?thesis by simp
qed

lemma kernel0_exits: "\<not> Option.is_none (sys_exit (\<lambda>p. Some) 0 kernel0)"
  by code_simp

theorem exit_blocks_cleanup_witness: "\<exists>k'. sys_exit (\<lambda>p. Some) 0 kernel0 = Some k' \<and> idle_cleanup k' = None"
proof -
  obtain k' where k': "sys_exit (\<lambda>p. Some) 0 kernel0 = Some k'" using kernel0_exits by (auto simp: Option.is_none_def)
  have "cur kernel0 0 = Some 1" "thr kernel0 1 = Some (thread0 1 True)" "\<not> status_exited (thread0 1 True)" "prc kernel0 (th_process (thread0 1 True)) = Some (process0 [1])"
    "\<not> is_killed (process0 [1])" "1 \<in> set (threads (process0 [1]))"
    by (simp_all add: kernel0_simps thread0_def process0_def prc_def) (simp_all add: kernel0_def process0_def)
  moreover have "\<forall>t \<in> set (threads (process0 [1])). \<exists>th. thr kernel0 t = Some th \<and> th_process th = th_process (thread0 1 True)"
    by (simp add: process0_def kernel0_simps)
  ultimately have "idle_cleanup k' = None" using exit_blocks_cleanup [OF _ _ _ _ _ _ _ k'] by blast
  with k' show ?thesis by blast
qed

end
