(* ===== verification/Net.thy ===== *)
theory Net
  imports E1000 Proc
begin

text \<open>
  The network calls and interrupts (\<open>net.cpp\<close>) above the driver of the card and the scheduler, and the interrupt controller (\<open>drivers/plic.c\<close>). A call that blocks ends in a context switch; when its
  thread runs again it does what is left of the loop, which is the same call with the packets that are left.
\<close>

section \<open>Calls\<close>

text \<open>A packet is the bytes at \<open>txpacket\<close>; the call returns its length. The transmit ring being full, the interrupt for the empty ring is enabled before the thread blocks.\<close>

definition sys_net_send :: "nat \<Rightarrow> u8 list \<Rightarrow> nic \<Rightarrow> 'a kernel_scheme \<Rightarrow> (flow \<times> nic \<times> 'a kernel_scheme) option" where
  "sys_net_send c pkt n k = do {
     (r, n) \<leftarrow> e1000_transmit pkt n;
     if r = - 1 then do {
       let n = e1000_write_reg E1000_IMS 0x02 n;
       k \<leftarrow> do_block c NetSend k;
       Some (Away, n, k)
     } else Some (Ret, n, k)
   }"

text \<open>\<open>left\<close> packets are still to be received after those in \<open>got\<close>; the call returns the sum of their lengths.\<close>

fun net_recv :: "nat \<Rightarrow> nat \<Rightarrow> u8 list list \<Rightarrow> nic \<Rightarrow> 'a kernel_scheme \<Rightarrow> (flow \<times> u8 list list \<times> nic \<times> 'a kernel_scheme) option" where
  "net_recv c 0 got n k = Some (Ret, got, n, k)"
| "net_recv c (Suc left) got n k = do {
     (r, pkt, n) \<leftarrow> e1000_poll n;
     if r = - 1 then do {
       k \<leftarrow> do_block c NetRecv k;
       Some (Away, got, n, k)
     } else net_recv c left (got @ [pkt]) n k
   }"

definition sys_net_recv :: "nat \<Rightarrow> nat \<Rightarrow> nic \<Rightarrow> 'a kernel_scheme \<Rightarrow> (flow \<times> u8 list list \<times> nic \<times> 'a kernel_scheme) option" where
  "sys_net_recv c pkt_num n k = net_recv c pkt_num [] n k"

section \<open>Interrupts\<close>

definition net_idle_check :: "'a kernel_scheme \<Rightarrow> 'a kernel_scheme option" where
  "net_idle_check k = wakeup_all NetRecv k"

definition handle_e1000_irq :: "nic \<Rightarrow> 'a kernel_scheme \<Rightarrow> (nic \<times> 'a kernel_scheme) option" where
  "handle_e1000_irq n k = do {
     let (icr, n) = e1000_read_reg E1000_ICR n;
     let (ims, n) = e1000_read_reg E1000_IMS n;
     k \<leftarrow> (if icr AND ims AND 0x10 \<noteq> 0 then wakeup_all NetRecv k else Some k);
     if icr AND ims AND 0x02 \<noteq> 0 then do {
       let n = e1000_write_reg E1000_IMC 0x02 n;
       k \<leftarrow> wakeup_all NetSend k;
       Some (n, k)
     } else Some (n, k)
   }"

text \<open>The interrupt controller: its memory-mapped registers and the handler of the one hart.\<close>

record plic =
  plic_io :: "u64 \<Rightarrow> u32"
  plic_regs :: u64
  plic_present :: bool
  hart_base :: u64
  enable_base :: u64

definition writel :: "u32 \<Rightarrow> u64 \<Rightarrow> plic \<Rightarrow> plic" where
  "writel v a p = p\<lparr>plic_io := (plic_io p)(a := v)\<rparr>"

definition plic_toggle :: "nat \<Rightarrow> bool \<Rightarrow> plic \<Rightarrow> plic" where
  "plic_toggle hwirq enable p =
     (let reg = enable_base p + 4 * of_nat (hwirq div 32); mask = push_bit (hwirq mod 32) 1
      in if enable then writel (plic_io p reg OR mask) reg p else writel (plic_io p reg AND NOT mask) reg p)"

definition plic_irq_unmask :: "nat \<Rightarrow> plic \<Rightarrow> plic" where
  "plic_irq_unmask hwirq p =
     (let p = writel 1 (plic_regs p + 0 + of_nat hwirq * 4) p
      in if plic_present p then plic_toggle hwirq True p else p)"

definition plic_claim :: "plic \<Rightarrow> u32" where
  "plic_claim p = plic_io p (hart_base p + 0x04)"

definition plic_complete :: "u32 \<Rightarrow> plic \<Rightarrow> plic" where
  "plic_complete hwirq p = writel hwirq (hart_base p + 0x04) p"

text \<open>The loop goes over the interrupts from 1 to \<open>nr_irqs\<close>.\<close>

definition plic_init :: "u64 \<Rightarrow> nat \<Rightarrow> plic \<Rightarrow> plic" where
  "plic_init addr nr_irqs p =
     (let p = p\<lparr>plic_regs := addr\<rparr>;
          threshold = (if plic_present p then 0xffffffff else 0);
          p = (if plic_present p then p else p\<lparr>plic_present := True, hart_base := addr + 0x200000, enable_base := addr + 0x2000\<rparr>);
          p = writel threshold (hart_base p + 0x00) p;
          p = fold (\<lambda>hwirq. plic_toggle hwirq False) [1 ..< nr_irqs + 1] p
      in if nr_irqs + 1 > 33 then plic_irq_unmask 33 p else plic_irq_unmask 3 p)"

definition handle_ext_irq :: "nic \<Rightarrow> plic \<Rightarrow> 'a kernel_scheme \<Rightarrow> (nic \<times> plic \<times> 'a kernel_scheme) option" where
  "handle_ext_irq n p k = do {
     let id = plic_claim p;
     (n, k) \<leftarrow> (if id = 3 \<or> id = 33 then handle_e1000_irq n k else Some (n, k));
     Some (n, plic_complete id p, k)
   }"

section \<open>Properties\<close>

lemma mask_bits: "(w OR 2) AND 2 = (2 :: u32)" "(w AND - 3) AND 2 = (0 :: u32)"
proof -
  show "(w OR 2) AND 2 = (2 :: u32)" by (rule bit_word_eqI) (auto simp: bit_simps)
  have "(w AND NOT 2) AND 2 = (0 :: u32)" by (rule bit_word_eqI) (auto simp: bit_simps)
  then show "(w AND - 3) AND 2 = (0 :: u32)" by simp
qed

text \<open>
  C38: A thread that finds the transmit ring full waits, and the interrupt of the empty ring wakes it. The call of the running thread puts it at the end of the wait queue of the senders, with that
  interrupt enabled; a packet is not lost, as the call has left the ring as it was. When the card reports the empty ring, all waiting senders that have not exited become ready in their order, the
  interrupt is disabled again, and every thread is still in exactly one place.
\<close>

theorem net_sender_waits:
  assumes "nic_ok n" "length (tx_ring n) = 63" "sched_inv k" "cur k c = Some f" "\<not> idle k f" "healthy c k"
  shows "\<exists>n' k'. sys_net_send c pkt n k = Some (Away, n', k') \<and> sched_inv k' \<and> wqs k' NetSend = wqs k NetSend @ [f] \<and> f \<notin> ran (cur k') \<and>
    tx_ring n' = tx_ring n \<and> tx_pkt_buffer n' = tx_pkt_buffer n \<and>
    (\<forall>m. nic_regs m E1000_ICR AND 0x02 \<noteq> 0 \<and> nic_regs m E1000_IMS = nic_regs n' E1000_IMS \<longrightarrow>
      (\<exists>m' k''. handle_e1000_irq m k' = Some (m', k'') \<and> sched_inv k'' \<and> wqs k'' NetSend = [] \<and> nic_regs m' E1000_IMS AND 0x02 = 0 \<and>
        (\<exists>rs. ready_queue k'' = ready_queue k' @ rs @ live k' (wqs k NetSend @ [f]))))"
proof -
  have tr: "e1000_transmit pkt n = Some (- 1, n)" by (cases rule: transmit_cases [OF assms(1), of pkt]) (use assms(2) in auto)
  define n' where "n' = e1000_write_reg E1000_IMS 0x02 n"
  obtain k' where k': "do_block c NetSend k = Some k'" "sched_inv k'" "wqs k' = (wqs k)(NetSend := wqs k NetSend @ [f])" "f \<notin> ran (cur k')"
    using do_block_total [OF assms(3-6), of NetSend] by blast
  have ims: "nic_regs n' E1000_IMS = nic_regs n E1000_IMS OR 0x02" by (simp add: n'_def e1000_write_reg_def)
  have irq: "\<exists>m' k''. handle_e1000_irq m k' = Some (m', k'') \<and> sched_inv k'' \<and> wqs k'' NetSend = [] \<and> nic_regs m' E1000_IMS AND 0x02 = 0 \<and>
      (\<exists>rs. ready_queue k'' = ready_queue k' @ rs @ live k' (wqs k NetSend @ [f]))"
    if m: "nic_regs m E1000_ICR AND 0x02 \<noteq> 0" "nic_regs m E1000_IMS = nic_regs n' E1000_IMS" for m
  proof -
    let ?icr = "nic_regs m E1000_ICR" and ?ims = "nic_regs m E1000_IMS"
    have bits: "?icr AND ?ims AND 0x02 \<noteq> 0"
    proof -
      have "?icr AND ?ims AND 0x02 = ?icr AND 0x02" unfolding m(2) ims by (simp add: mask_bits(1) and.assoc)
      then show ?thesis using m(1) by simp
    qed
    define k1 where "k1 = (if ?icr AND ?ims AND 0x10 \<noteq> 0 then wakeup_all NetRecv k' else Some k')"
    obtain k2 rs where k2: "k1 = Some k2" "sched_inv k2" "wake_frame k' k2" "wqs k2 NetSend = wqs k NetSend @ [f]" "ready_queue k2 = ready_queue k' @ rs"
    proof (cases "?icr AND ?ims AND 0x10 \<noteq> 0")
      case True
      obtain k2 where "wakeup_all NetRecv k' = Some k2" "sched_inv k2" "wake_frame k' k2" "wqs k2 = (wqs k')(NetRecv := [])" "ready_queue k2 = ready_queue k' @ live k' (wqs k' NetRecv)"
        by (rule wakeup_all_inv [OF k'(2)]) (rule that)
      with True that show ?thesis by (simp add: k1_def k'(3))
    next
      case False
      then show ?thesis using that [of k' "[]"] k' by (simp add: k1_def wake_frame_refl)
    qed
    obtain k3 where k3: "wakeup_all NetSend k2 = Some k3" "sched_inv k3" "wqs k3 = (wqs k2)(NetSend := [])" "ready_queue k3 = ready_queue k2 @ live k2 (wqs k2 NetSend)"
      by (rule wakeup_all_inv [OF k2(2)]) (rule that)
    let ?m = "e1000_write_reg E1000_IMC 0x02 (m\<lparr>nic_regs := (nic_regs m)(E1000_ICR := 0)\<rparr>)"
    have "E1000_IMS \<noteq> E1000_ICR" "E1000_IMC \<noteq> E1000_IMS" by (simp_all add: reg_defs)
    then have "handle_e1000_irq m k' = Some (?m, k3)" "nic_regs ?m E1000_IMS AND 0x02 = 0"
      using k2(1) k3(1) bits by (simp_all add: handle_e1000_irq_def e1000_read_reg_def k1_def Let_def e1000_write_reg_def mask_bits(2))
    moreover have "ready_queue k3 = ready_queue k' @ rs @ live k' (wqs k NetSend @ [f])" using k3(4) k2(4,5) wake_frame_live [OF k2(3)] by simp
    ultimately show ?thesis using k3(2,3) by auto
  qed
  have "sys_net_send c pkt n k = Some (Away, n', k')" by (simp add: sys_net_send_def tr k'(1) n'_def)
  moreover have "tx_ring n' = tx_ring n" "tx_pkt_buffer n' = tx_pkt_buffer n" by (simp_all add: n'_def tx_ring_def write_reg_at)
  ultimately show ?thesis using k' irq by auto
qed

text \<open>A card whose transmit ring holds 63 packets.\<close>

definition nic_full :: nic where
  "nic_full = (let n = e1000_init nic0 in n\<lparr>nic_regs := (nic_regs n)(E1000_TDT := 63)\<rparr>)"

lemma nic_full_ok: "nic_ok nic_full" "length (tx_ring nic_full) = 63"
proof -
  have "length (tx_pkt_buffer nic0) = 64" "length (rx_pkt_buffer nic0) = 64" "\<forall>i<64. length (tx_pkt_buffer nic0 ! i) = 2048 \<and> length (rx_pkt_buffer nic0 ! i) = 2048"
    by (simp_all add: nic0_def)
  note ok = init_ok [OF this]
  show "nic_ok nic_full" using ok(1) by (simp add: nic_ok_def nic_full_def Let_def)
  have "unat (nic_regs (e1000_init nic0) E1000_TDH) = unat (nic_regs (e1000_init nic0) E1000_TDT)"
    using ok(2) ring64.indices_empty [OF nic_okD(1,2) [OF ok(1)]] by (simp add: tx_ring_def)
  moreover have "nic_regs (e1000_init nic0) E1000_TDT = 0"
    by (simp add: e1000_init_def e1000_configure_rx_def e1000_configure_tx_def e1000_write_reg_array_def Let_def write_reg_at) (simp add: reg_defs)
  ultimately show "length (tx_ring nic_full) = 63" by (simp add: tx_ring_def nic_full_def Let_def indices_def)
qed

theorem net_sender_waits_witness: "\<exists>n' k'. sys_net_send 0 [1, 2] nic_full kernel0 = Some (Away, n', k') \<and> wqs k' NetSend = [1] \<and> tx_ring n' = tx_ring nic_full"
proof -
  have "cur kernel0 0 = Some 1" "\<not> idle kernel0 1" "wqs kernel0 NetSend = []" by (simp_all add: kernel0_simps) (simp add: kernel0_def)
  with net_sender_waits [OF nic_full_ok kernel0_inv _ _ kernel0_healthy, of 1 "[1, 2]"] show ?thesis by auto
qed

section \<open>The interrupt controller\<close>

lemma enable_addr: "i < 1024 \<Longrightarrow> j < 1024 \<Longrightarrow> (b :: u64) + 4 * of_nat (i div 32) = b + 4 * of_nat (j div 32) \<longleftrightarrow> i div 32 = j div 32"
proof -
  assume "i < 1024" "j < 1024"
  then have "unat (4 * of_nat (i div 32) :: u64) = 4 * (i div 32)" "unat (4 * of_nat (j div 32) :: u64) = 4 * (j div 32)"
    by (simp_all add: unat_word_ariths unat_of_nat)
  then show ?thesis by (metis add_left_cancel mult_left_cancel zero_neq_numeral)
qed

text \<open>Whether an interrupt is enabled.\<close>

definition enabled :: "plic \<Rightarrow> nat \<Rightarrow> bool" where
  "enabled p i \<longleftrightarrow> bit (plic_io p (enable_base p + 4 * of_nat (i div 32))) (i mod 32)"

lemma toggle_enabled:
  assumes "i < 1024" "j < 1024"
  shows "enabled (plic_toggle j e p) i \<longleftrightarrow> (if i = j then e else enabled p i)" "enable_base (plic_toggle j e p) = enable_base p" "plic_present (plic_toggle j e p) = plic_present p"
    "plic_regs (plic_toggle j e p) = plic_regs p"
proof -
  have "i = j \<longleftrightarrow> i div 32 = j div 32 \<and> i mod 32 = j mod 32" by (metis div_mult_mod_eq)
  then show "enabled (plic_toggle j e p) i \<longleftrightarrow> (if i = j then e else enabled p i)"
    using enable_addr [OF assms, of "enable_base p"]
    by (auto simp: enabled_def plic_toggle_def writel_def Let_def bit_simps)
qed (simp_all add: plic_toggle_def writel_def Let_def)

lemma toggles_off:
  assumes "\<forall>j\<in>set js. j < 1024" "i < 1024"
  shows "enabled (fold (\<lambda>hwirq. plic_toggle hwirq False) js p) i \<longleftrightarrow> i \<notin> set js \<and> enabled p i"
    "enable_base (fold (\<lambda>hwirq. plic_toggle hwirq False) js p) = enable_base p" "plic_present (fold (\<lambda>hwirq. plic_toggle hwirq False) js p) = plic_present p"
    "plic_regs (fold (\<lambda>hwirq. plic_toggle hwirq False) js p) = plic_regs p"
  using assms by (induction js arbitrary: p) (auto simp: toggle_enabled)

text \<open>
  \<open>plic_init\<close> lets through the interrupt of the network card and no other: of the interrupts it was told about, exactly the card's number is enabled afterwards, 33 if the controller has that many
  and 3 otherwise, and this interrupt has priority 1.
\<close>

theorem plic_init_enables_card:
  assumes "\<not> plic_present p" "nr < 1024" "1 \<le> i" "i \<le> nr"
  shows "(enabled (plic_init addr nr p) i \<longleftrightarrow> i = (if 33 \<le> nr then 33 else 3)) \<and> plic_io (plic_init addr nr p) (addr + 4 * of_nat (if 33 \<le> nr then 33 else 3)) = 1"
proof -
  define q where "q = writel 0 (addr + 0x200000 + 0x00) (p\<lparr>plic_regs := addr, plic_present := True, hart_base := addr + 0x200000, enable_base := addr + 0x2000\<rparr>)"
  define q' where "q' = fold (\<lambda>hwirq. plic_toggle hwirq False) [1 ..< nr + 1] q"
  define x :: nat where "x = (if 33 \<le> nr then 33 else 3)"
  have js: "\<forall>j\<in>set [1 ..< nr + 1]. j < 1024" using assms(2) by auto
  have i: "i < 1024" and x: "x < 1024" "x \<le> 33" using assms(2,4) by (auto simp: x_def)
  note off = toggles_off [OF js i, of q, folded q'_def]
  have f: "enable_base q' = addr + 0x2000" "plic_present q'" "plic_regs q' = addr" using off by (simp_all add: q_def writel_def)
  define w where "w = writel 1 (addr + of_nat x * 4) q'"
  have e: "plic_init addr nr p = plic_toggle x True w"
    using assms(1) f by (simp add: plic_init_def plic_irq_unmask_def Let_def x_def w_def q'_def q_def writel_def del: upt_Suc)
  have ne: "addr + of_nat x * 4 \<noteq> addr + 0x2000 + 4 * of_nat (j div 32)" if "j < 1024" for j
  proof
    assume "addr + of_nat x * 4 = addr + 0x2000 + 4 * of_nat (j div 32)"
    then have "of_nat x * 4 = (0x2000 + 4 * of_nat (j div 32) :: u64)" by (simp add: add.assoc)
    moreover have "unat (of_nat x * 4 :: u64) = x * 4" "unat (0x2000 + 4 * of_nat (j div 32) :: u64) = 0x2000 + 4 * (j div 32)"
      using x that by (simp_all add: unat_word_ariths unat_of_nat)
    ultimately have "x * 4 = 0x2000 + 4 * (j div 32)" by metis
    with x show False by simp
  qed
  have "enabled w i \<longleftrightarrow> enabled q' i" using ne [OF i] f(1) by (simp add: enabled_def w_def writel_def)
  then have "\<not> enabled w i" using off(1) assms(3,4) by simp
  then have "enabled (plic_init addr nr p) i \<longleftrightarrow> i = x" unfolding e using toggle_enabled(1) [OF i x(1)] by simp
  moreover have "plic_io (plic_toggle x True w) (addr + 4 * of_nat x) = 1"
    using ne [OF x(1)] f(1) by (simp add: plic_toggle_def writel_def w_def Let_def mult.commute)
  ultimately show ?thesis unfolding e x_def [symmetric] by simp
qed

theorem plic_init_enables_card_witness:
  "\<exists>p. \<not> plic_present p \<and> enabled (plic_init 0x1000 40 p) 33 \<and> \<not> enabled (plic_init 0x1000 40 p) 3"
proof (intro exI conjI)
  let ?p = "\<lparr>plic_io = \<lambda>_. - 1, plic_regs = 0, plic_present = False, hart_base = 0, enable_base = 0\<rparr>"
  show p: "\<not> plic_present ?p" by simp
  show "enabled (plic_init 0x1000 40 ?p) 33" "\<not> enabled (plic_init 0x1000 40 ?p) 3"
    using plic_init_enables_card [OF p, of 40 33 "0x1000"] plic_init_enables_card [OF p, of 40 3 "0x1000"] by simp_all
qed

end
