(* ===== verification/Page.thy ===== *)
theory Page
  imports Kalloc
begin

text \<open>
  Page tables and the address space of a process: \<open>page.hpp\<close> and \<open>page.cpp\<close>.

  The page tables are in memory: \<open>pmem\<close> gives the entry at an address in the kernel's view of memory, a pointer to an entry is that address. The pages come from \<open>kalloc\<close>.
  \<open>on_page_updated\<close> sets the flush mask; the interrupt that it sends is \<open>send_intr_to_running_thread\<close> of the theory of the processes. Instructions that flush the translation buffer
  have no counterpart: the model has no such buffer.
\<close>

section \<open>Entries\<close>

datatype PageAttr = Noleaf | R | RW | X | RX | RWX

datatype PageOSFlag = Normal | Shared | Swapped | Reserved

record PageEntry =
  V :: bool
  XWR :: PageAttr
  U :: bool
  G :: bool
  A :: bool
  D :: bool
  OSflag :: PageOSFlag
  ppn :: "44 word"
  Reserved1 :: "10 word"

definition zero_entry :: PageEntry where
  "zero_entry = \<lparr>V = False, XWR = Noleaf, U = False, G = False, A = False, D = False, OSflag = Normal, ppn = 0, Reserved1 = 0\<rparr>"

definition set_as_leaf :: "u64 \<Rightarrow> PageEntry \<Rightarrow> PageEntry" where
  "set_as_leaf pa e = e\<lparr>V := True, XWR := RWX, U := True, G := False, A := True, D := True, OSflag := Normal, ppn := ucast (drop_bit 12 pa)\<rparr>"

definition set_as_dir :: "u64 \<Rightarrow> PageEntry \<Rightarrow> PageEntry" where
  "set_as_dir pa e = e\<lparr>V := True, XWR := Noleaf, U := False, G := False, A := False, D := False, OSflag := Normal, ppn := ucast (drop_bit 12 pa)\<rparr>"

definition to_pa :: "PageEntry \<Rightarrow> u64" where
  "to_pa e = push_bit 12 (ucast (ppn e))"

definition to_kva :: "PageEntry \<Rightarrow> u64" where
  "to_kva e = pa2kva (to_pa e)"

text \<open>The 64 bits of an entry, as the bit fields of the structure lay them out.\<close>

fun attr_bits :: "PageAttr \<Rightarrow> u64" where
  "attr_bits Noleaf = 0"
| "attr_bits R = 1"
| "attr_bits RW = 3"
| "attr_bits X = 4"
| "attr_bits RX = 5"
| "attr_bits RWX = 7"

fun os_bits :: "PageOSFlag \<Rightarrow> u64" where
  "os_bits Normal = 0"
| "os_bits Shared = 1"
| "os_bits Swapped = 2"
| "os_bits Reserved = 3"

definition entry_bits :: "PageEntry \<Rightarrow> u64" where
  "entry_bits e = of_bool (V e) OR push_bit 1 (attr_bits (XWR e)) OR push_bit 4 (of_bool (U e)) OR push_bit 5 (of_bool (G e)) OR push_bit 6 (of_bool (A e)) OR
     push_bit 7 (of_bool (D e)) OR push_bit 8 (os_bits (OSflag e)) OR push_bit 10 (ucast (ppn e)) OR push_bit 54 (ucast (Reserved1 e))"

section \<open>Tables\<close>

definition get_vpn :: "u64 \<Rightarrow> nat \<Rightarrow> u64" where
  "get_vpn va sizeid = drop_bit (12 + 9 * sizeid) va AND 0x1ff"

definition set_satp :: "u64 \<Rightarrow> u64 \<Rightarrow> u64 \<Rightarrow> u64" where
  "set_satp mode asid pa = push_bit 60 mode OR push_bit 44 asid OR drop_bit 12 pa"

record vm =
  heap_of :: heap
  pmem :: "u64 \<Rightarrow> PageEntry"

definition put_entry :: "u64 \<Rightarrow> PageEntry \<Rightarrow> vm \<Rightarrow> vm" where
  "put_entry pte e s = s\<lparr>pmem := (pmem s)(pte := e)\<rparr>"

text \<open>\<open>bzeropage (p, 1)\<close> and \<open>memcpy\<close> of one page, over page tables.\<close>

definition clear_page :: "u64 \<Rightarrow> vm \<Rightarrow> vm" where
  "clear_page p s = s\<lparr>pmem := (\<lambda>a. if a - p < 4096 then zero_entry else pmem s a)\<rparr>"

definition copy_page :: "u64 \<Rightarrow> u64 \<Rightarrow> vm \<Rightarrow> vm" where
  "copy_page p q s = s\<lparr>pmem := (\<lambda>a. if a - p < 4096 then pmem s (q + (a - p)) else pmem s a)\<rparr>"

definition PGDIR_PA :: u64 where "PGDIR_PA = 0x50510000"
definition IO_BASE_VA :: u64 where "IO_BASE_VA = 0xffffffe000000000"

text \<open>This runs before paging is on: its addresses are physical.\<close>

definition setup_vm :: "vm \<Rightarrow> vm" where
  "setup_vm s =
     (let early_pgdir = pa2kva PGDIR_PA;
          s = clear_page early_pgdir s;
          base = 0x40000000;
          e = \<lparr>V = True, XWR = RWX, U = False, G = True, A = True, D = True, OSflag = Normal, ppn = ucast (drop_bit 12 (base :: u64)), Reserved1 = 0\<rparr>;
          s = put_entry (early_pgdir + 8 * get_vpn (pa2kva base) 2) e s;
          s = put_entry (early_pgdir + 8 * get_vpn base 2) e s
      in put_entry (early_pgdir + 8 * get_vpn IO_BASE_VA 2)
           \<lparr>V = True, XWR = Noleaf, U = False, G = True, A = False, D = False, OSflag = Normal, ppn = ucast (drop_bit 12 (PGDIR_PA + 4096)), Reserved1 = 0\<rparr> s)"

definition set_kernel_vm :: "u64 \<Rightarrow> vm \<Rightarrow> vm" where
  "set_kernel_vm root s =
     (let s = clear_page root s;
          s = copy_page root (pa2kva PGDIR_PA) s
      in put_entry (root + 8 * get_vpn 0x40000000 2) zero_entry s)"

text \<open>\<open>ioremap\<close>; the second component is \<open>io_base_va\<close>.\<close>

fun io_entries :: "nat \<Rightarrow> u64 \<Rightarrow> u64 \<Rightarrow> vm \<Rightarrow> vm" where
  "io_entries 0 pte phys s = s"
| "io_entries (Suc n) pte phys s =
     io_entries n (pte + 8) (phys + 0x200000)
       (put_entry pte \<lparr>V = True, XWR = RWX, U = False, G = True, A = True, D = True, OSflag = Normal, ppn = ucast (drop_bit 12 phys), Reserved1 = 0\<rparr> s)"

definition ioremap :: "u64 \<Rightarrow> u64 \<Rightarrow> u64 \<Rightarrow> vm \<Rightarrow> u64 \<times> u64 \<times> vm" where
  "ioremap phys_addr sz io_base_va s =
     (let va = io_base_va + phys_addr mod 0x200000;
          sz = sz + phys_addr mod 0x200000;
          sz = sz div 0x200000 + (if sz mod 0x200000 \<noteq> 0 then 1 else 0);
          phys_addr = phys_addr div 0x200000 * 0x200000;
          s = io_entries (unat sz) (pa2kva (PGDIR_PA + 4096) + 8 * get_vpn io_base_va 1) phys_addr s
      in (va, io_base_va + sz * 0x200000, s))"

section \<open>The directory of a process\<close>

record page_dir =
  root :: u64
  flush_mask :: u64
  shared_page_start :: u64
  active_private_mem :: u64
  private_mem_fifo :: "u64 list"
  user_mem_bound :: u64

definition new_page_dir :: "vm \<Rightarrow> (page_dir \<times> vm) option" where
  "new_page_dir s = do {
     (r, h) \<leftarrow> kalloc (heap_of s) 4096;
     Some (\<lparr>root = r, flush_mask = 0, shared_page_start = push_bit 30 128, active_private_mem = 0, private_mem_fifo = [], user_mem_bound = 0x300000\<rparr>,
           set_kernel_vm r (s\<lparr>heap_of := h\<rparr>))
   }"

text \<open>The value that \<open>enable\<close> writes to the register \<open>satp\<close>.\<close>

definition enable :: "u64 \<Rightarrow> page_dir \<Rightarrow> u64" where
  "enable asid pd = set_satp 8 asid (kva2pa (root pd))"

definition on_page_updated :: "page_dir \<Rightarrow> page_dir" where
  "on_page_updated pd = pd\<lparr>flush_mask := -1\<rparr>"

text \<open>A missing table of the next level is allocated.\<close>

definition make_dir :: "u64 \<Rightarrow> vm \<Rightarrow> vm option" where
  "make_dir pte s =
     (if \<not> V (pmem s pte) then do {
        (pdir, h) \<leftarrow> kalloc (heap_of s) 4096;
        let s = clear_page pdir (s\<lparr>heap_of := h\<rparr>);
        Some (put_entry pte (set_as_dir (kva2pa pdir) (pmem s pte)) s)
      } else Some s)"

definition lookup :: "u64 \<Rightarrow> u64 \<Rightarrow> vm \<Rightarrow> (u64 \<times> vm) option" where
  "lookup r va s = do {
     let pte = r + 8 * get_vpn va 2;
     if XWR (pmem s pte) \<noteq> Noleaf then Some (pte, s) else do {
       s \<leftarrow> make_dir pte s;
       let pte = to_kva (pmem s pte) + 8 * get_vpn va 1;
       if XWR (pmem s pte) \<noteq> Noleaf then Some (pte, s) else do {
         s \<leftarrow> make_dir pte s;
         let pte = to_kva (pmem s pte) + 8 * get_vpn va 0;
         Some (pte, s)
       }
     }
   }"

definition map_va_kva :: "u64 \<Rightarrow> u64 \<Rightarrow> PageOSFlag \<Rightarrow> page_dir \<Rightarrow> vm \<Rightarrow> (page_dir \<times> vm) option" where
  "map_va_kva va kva osflag pd s = do {
     (pte, s) \<leftarrow> lookup (root pd) va s;
     kassert (\<not> V (pmem s pte));
     let s = put_entry pte ((set_as_leaf (kva2pa kva) (pmem s pte))\<lparr>OSflag := osflag\<rparr>) s;
     Some (on_page_updated pd, s)
   }"

definition alloc_page_for_va :: "u64 \<Rightarrow> page_dir \<Rightarrow> vm \<Rightarrow> (u64 \<times> page_dir \<times> vm) option" where
  "alloc_page_for_va va pd s = do {
     kassert (\<not> va \<ge> user_mem_bound pd);
     (pte, s) \<leftarrow> lookup (root pd) va s;
     if V (pmem s pte) then Some (to_kva (pmem s pte), pd, s)
     else do {
       (kva, h) \<leftarrow> kalloc (heap_of s) 4096;
       (pd, s) \<leftarrow> map_va_kva va kva Normal pd (s\<lparr>heap_of := h\<rparr>);
       let pd = pd\<lparr>active_private_mem := active_private_mem pd + 4096, private_mem_fifo := private_mem_fifo pd @ [va]\<rparr>;
       Some (to_kva (pmem s pte), pd, s)
     }
   }"

text \<open>\<open>freeUserRecur\<close>, with the number of levels of tables that it may still go down.\<close>

fun free_user_recur :: "nat \<Rightarrow> u64 \<Rightarrow> vm \<Rightarrow> vm option"
and free_entries :: "nat \<Rightarrow> u64 list \<Rightarrow> vm \<Rightarrow> vm option" where
  "free_user_recur n pdir s = do {
     s \<leftarrow> free_entries n (map (\<lambda>i. pdir + 8 * of_nat i) [0..<512]) s;
     h \<leftarrow> kfree (heap_of s) pdir;
     Some (s\<lparr>heap_of := h\<rparr>)
   }"
| "free_entries n [] s = Some s"
| "free_entries n (pte # ptes) s = do {
     let e = pmem s pte;
     s \<leftarrow> (if V e \<and> U e \<and> XWR e = Noleaf then (case n of 0 \<Rightarrow> None | Suc m \<Rightarrow> free_user_recur m (to_kva e) s)
          else if V e \<and> U e \<and> OSflag e = Normal then do { h \<leftarrow> kfree (heap_of s) (to_kva e); Some (s\<lparr>heap_of := h\<rparr>) }
          else do { kassert (\<not> V e \<or> \<not> U e); Some s });
     free_entries n ptes s
   }"

definition free_user_private_mem :: "page_dir \<Rightarrow> vm \<Rightarrow> vm option" where
  "free_user_private_mem pd s = free_user_recur 3 (root pd) s"

definition attach_shared_page :: "u64 \<Rightarrow> page_dir \<Rightarrow> vm \<Rightarrow> (u64 \<times> page_dir \<times> vm) option" where
  "attach_shared_page kva pd s = do {
     let va = shared_page_start pd;
     (pd, s) \<leftarrow> map_va_kva va kva Shared pd s;
     let pd = pd\<lparr>shared_page_start := shared_page_start pd + 4096\<rparr>;
     Some (va, on_page_updated pd, s)
   }"

definition free_shared_page :: "u64 \<Rightarrow> page_dir \<Rightarrow> vm \<Rightarrow> (u64 \<times> page_dir \<times> vm) option" where
  "free_shared_page va pd s = do {
     (pte, s) \<leftarrow> lookup (root pd) va s;
     kassert (V (pmem s pte));
     let s = put_entry pte ((pmem s pte)\<lparr>V := False\<rparr>) s;
     Some (to_kva (pmem s pte), on_page_updated pd, s)
   }"

definition set_user_mem_bound :: "u64 \<Rightarrow> page_dir \<Rightarrow> page_dir" where
  "set_user_mem_bound bound pd = pd\<lparr>user_mem_bound := bound\<rparr>"

definition increase_active_private_mem :: "u64 \<Rightarrow> page_dir \<Rightarrow> u64 \<times> page_dir" where
  "increase_active_private_mem sz pd = (user_mem_bound pd, pd\<lparr>user_mem_bound := user_mem_bound pd + sz\<rparr>)"

section \<open>Shared pages\<close>

record shared_page =
  sp_addr :: u64
  sp_key :: u64
  sp_kva :: u64
  sp_cnt :: u64

fun find_key :: "u64 \<Rightarrow> shared_page list \<Rightarrow> nat option" where
  "find_key ky [] = None"
| "find_key ky (p # ps) = (if sp_key p = ky then Some 0 else map_option Suc (find_key ky ps))"

text \<open>The key is an \<open>int\<close> that is extended to the type of the field.\<close>

definition sys_shmpageget :: "u32 \<Rightarrow> shared_page list \<Rightarrow> page_dir \<Rightarrow> vm \<Rightarrow> (u64 \<times> shared_page list \<times> page_dir \<times> vm) option" where
  "sys_shmpageget ky ps pd s = do {
     (i, ps, s) \<leftarrow> (case find_key (scast ky) ps of
        Some i \<Rightarrow> Some (i, ps, s)
      | None \<Rightarrow> do {
          (obj, h) \<leftarrow> operator_new (heap_of s) 40;
          (page, h) \<leftarrow> kalloc h 4096;
          Some (length ps, ps @ [\<lparr>sp_addr = obj, sp_key = scast ky, sp_kva = page, sp_cnt = 0\<rparr>], s\<lparr>heap_of := h\<rparr>)
        });
     let ps = ps[i := (ps ! i)\<lparr>sp_cnt := sp_cnt (ps ! i) + 1\<rparr>];
     (va, pd, s) \<leftarrow> attach_shared_page (sp_kva (ps ! i)) pd s;
     Some (va, ps, pd, s)
   }"

fun drop_shared :: "u64 \<Rightarrow> shared_page list \<Rightarrow> heap \<Rightarrow> (shared_page list \<times> heap) option" where
  "drop_shared page [] h = Some ([], h)"
| "drop_shared page (p # ps) h =
     (if sp_kva p = page
      then (let p = p\<lparr>sp_cnt := sp_cnt p - 1\<rparr>
            in if sp_cnt p = 0 then do { h \<leftarrow> kfree h (sp_kva p); h \<leftarrow> operator_delete h (sp_addr p); Some (ps, h) } else Some (p # ps, h))
      else do { (ps, h) \<leftarrow> drop_shared page ps h; Some (p # ps, h) })"

definition sys_shmpagedt :: "u64 \<Rightarrow> shared_page list \<Rightarrow> page_dir \<Rightarrow> vm \<Rightarrow> (shared_page list \<times> page_dir \<times> vm) option" where
  "sys_shmpagedt va ps pd s = do {
     (page, pd, s) \<leftarrow> free_shared_page va pd s;
     (ps, h) \<leftarrow> drop_shared page ps (heap_of s);
     Some (ps, pd, s\<lparr>heap_of := h\<rparr>)
   }"

definition sys_brk :: "u64 \<Rightarrow> page_dir \<Rightarrow> int \<times> page_dir" where
  "sys_brk addr pd = (1, set_user_mem_bound addr pd)"

definition sys_sbrk :: "u64 \<Rightarrow> page_dir \<Rightarrow> u64 \<times> page_dir" where
  "sys_sbrk increment pd = increase_active_private_mem increment pd"

end
