(* ===== verification/PageProofs.thy ===== *)
theory PageProofs
  imports Page "HOL-Library.Sublist"
begin

text \<open>
  The address translation that the page tables give: the walk of the hardware over the tables, and what mapping a page changes of it.
\<close>

section \<open>Addresses of entries\<close>

lemma get_vpn_less: "unat (get_vpn va n) < 512"
proof -
  have "(0x1ff :: u64) = mask 9" by (simp add: mask_eq_exp_minus_1)
  then have "get_vpn va n = take_bit 9 (drop_bit (12 + 9 * n) va)" by (simp add: get_vpn_def take_bit_eq_mask)
  then show ?thesis using take_bit_nat_less_exp [of 9 "unat (drop_bit (12 + 9 * n) va)"] by (simp add: unsigned_take_bit_eq)
qed

definition paged :: "u64 \<Rightarrow> bool" where
  "paged a \<longleftrightarrow> unat (kva2pa a) mod 4096 = 0 \<and> unat (kva2pa a) + 4096 \<le> 2 ^ 56"

lemma entry_pa:
  assumes "paged a" "unat i < 512"
  shows "unat (kva2pa (a + 8 * i)) = unat (kva2pa a) + 8 * unat i"
proof -
  have "kva2pa (a + 8 * i) = kva2pa a + 8 * i" by (simp add: kva2pa_def)
  moreover have "unat (8 * i) = 8 * unat i" using assms(2) by (simp add: unat_word_ariths)
  ultimately show ?thesis using assms by (simp add: paged_def unat_word_ariths)
qed

lemma kva2pa_inj: "kva2pa a = kva2pa b \<longleftrightarrow> a = b"
  by (simp add: kva2pa_def)

lemma unat_pa_inj: "unat (kva2pa a) = unat (kva2pa b) \<longleftrightarrow> a = b"
  using kva2pa_inj by (simp add: word_unat_eq_iff [symmetric])

lemma page_base: "p mod 4096 = 0 \<Longrightarrow> x < 4096 \<Longrightarrow> (p + x) div 4096 * 4096 = p" for p x :: nat
  by (metis add.right_neutral div_less div_mult_self3 dvd_div_mult_self mod_eq_0_iff_dvd zero_neq_numeral)

lemma entry_inj:
  assumes "paged a" "paged b" "unat i < 512" "unat j < 512" "a + 8 * i = b + 8 * j"
  shows "a = b \<and> i = j"
proof -
  have e: "unat (kva2pa a) + 8 * unat i = unat (kva2pa b) + 8 * unat j"
    using entry_pa [OF assms(1,3)] entry_pa [OF assms(2,4)] assms(5) by simp
  have "unat (kva2pa a) = unat (kva2pa b)"
    using page_base [of "unat (kva2pa a)" "8 * unat i"] page_base [of "unat (kva2pa b)" "8 * unat j"] assms(1-4) e by (simp add: paged_def)
  moreover from this e have "unat i = unat j" by simp
  ultimately show ?thesis using unat_pa_inj by (simp add: word_unat_eq_iff)
qed

lemma entry_in_page:
  assumes "paged a" "paged p" "unat i < 512"
  shows "a + 8 * i - p < 4096 \<longleftrightarrow> a = p"
proof
  assume l: "a + 8 * i - p < 4096"
  let ?a = "unat (kva2pa a)" and ?p = "unat (kva2pa p)"
  define x where "x = kva2pa (a + 8 * i)"
  have x: "unat x = ?a + 8 * unat i" using entry_pa [OF assms(1,3)] by (simp add: x_def)
  have "a + 8 * i - p = x - kva2pa p" by (simp add: x_def kva2pa_def)
  with l have l2: "x - kva2pa p < 4096" by simp
  have "?p \<le> unat x"
  proof (rule ccontr)
    assume "\<not> ?p \<le> unat x"
    then have "unat (x - kva2pa p) = 2 ^ 64 - ?p + unat x" using assms(2) by (simp add: unat_sub_if' paged_def)
    with l2 assms(2) show False by (auto simp: word_less_nat_alt paged_def)
  qed
  then have "unat (x - kva2pa p) = ?a + 8 * unat i - ?p" using x by (simp add: unat_sub_if')
  with l2 have "?a + 8 * unat i - ?p < 4096" by (simp add: word_less_nat_alt)
  then obtain y where y: "?a + 8 * unat i = ?p + y" "y < 4096" using \<open>?p \<le> unat x\<close> x by (metis le_add_diff_inverse)
  then have "?a = ?p" using page_base [of ?a "8 * unat i"] page_base [of ?p y] assms by (simp add: paged_def)
  then show "a = p" using unat_pa_inj by simp
next
  assume "a = p"
  moreover have "unat (8 * i) = 8 * unat i" using assms(3) by (simp add: unat_word_ariths)
  ultimately show "a + 8 * i - p < 4096" using assms(3) by (simp add: word_less_nat_alt)
qed

text \<open>An entry that was set for a page gives the page back.\<close>

lemma ppn_roundtrip:
  assumes "paged a"
  shows "push_bit 12 (ucast (ucast (drop_bit 12 (kva2pa a)) :: 44 word)) = kva2pa a"
proof -
  let ?p = "kva2pa a"
  have "unat (drop_bit 12 ?p) = unat ?p div 2 ^ 12" by (simp add: drop_bit_eq_div unat_div)
  moreover have "unat ?p div 2 ^ 12 < 2 ^ 44" by (rule less_mult_imp_div_less) (use assms in \<open>simp add: paged_def\<close>)
  ultimately have "(ucast (ucast (drop_bit 12 ?p) :: 44 word) :: u64) = drop_bit 12 ?p"
    by (simp add: word_unat_eq_iff unsigned_ucast_eq unsigned_take_bit_eq take_bit_nat_eq_self)
  then have "push_bit 12 (ucast (ucast (drop_bit 12 ?p) :: 44 word)) = push_bit 12 (drop_bit 12 ?p)" by simp
  also have "\<dots> = ?p" 
  proof -
    have "unat ?p div 4096 * 4096 = unat ?p" using page_base [of "unat ?p" 0] assms by (simp add: paged_def)
    moreover have "unat ?p < 2 ^ 64" using unsigned_less [of ?p, where 'a = nat] by simp
    ultimately have "unat (push_bit 12 (drop_bit 12 ?p)) = unat ?p"
      by (simp add: push_bit_eq_mult drop_bit_eq_div unat_word_ariths unat_div)
    then show ?thesis by (simp add: word_unat_eq_iff)
  qed
  finally show ?thesis .
qed

section \<open>The tree of tables\<close>

text \<open>
  A table is named by the indices that lead to it, the last one first: \<open>[]\<close> is the root, \<open>[i]\<close> the table in its entry \<open>i\<close>, \<open>[j, i]\<close> that in entry \<open>j\<close> of \<open>[i]\<close>.
  Only the lower half of the root, the part of the user, is in the tree.
\<close>

fun tab :: "u64 \<Rightarrow> vm \<Rightarrow> u64 list \<Rightarrow> u64" where
  "tab r s [] = r"
| "tab r s (i # p) = to_kva (pmem s (tab r s p + 8 * i))"

definition ent :: "u64 \<Rightarrow> vm \<Rightarrow> u64 list \<Rightarrow> u64 \<Rightarrow> PageEntry" where
  "ent r s p i = pmem s (tab r s p + 8 * i)"

definition index_ok :: "u64 list \<Rightarrow> u64 \<Rightarrow> bool" where
  "index_ok p i \<longleftrightarrow> unat i < 512 \<and> (p = [] \<longrightarrow> unat i < 256)"

definition is_dir :: "PageEntry \<Rightarrow> bool" where
  "is_dir e \<longleftrightarrow> V e \<and> XWR e = Noleaf"

definition absent :: "PageEntry \<Rightarrow> bool" where
  "absent e \<longleftrightarrow> \<not> V e \<and> XWR e = Noleaf"

fun present :: "u64 \<Rightarrow> vm \<Rightarrow> u64 list \<Rightarrow> bool" where
  "present r s [] = True"
| "present r s (i # p) \<longleftrightarrow> present r s p \<and> length p \<le> 1 \<and> index_ok p i \<and> is_dir (ent r s p i)"

definition owned :: "vm \<Rightarrow> u64 \<Rightarrow> bool" where
  "owned s a \<longleftrightarrow> page_in (heap_blocks (heap_of s)) (unat (kva2pa a))"

definition tree_ok :: "u64 \<Rightarrow> vm \<Rightarrow> bool" where
  "tree_ok r s \<longleftrightarrow> heap_inv (heap_of s) \<and> (\<forall>p. present r s p \<longrightarrow> owned s (tab r s p)) \<and>
     (\<forall>p q. present r s p \<longrightarrow> present r s q \<longrightarrow> tab r s p = tab r s q \<longrightarrow> p = q) \<and>
     (\<forall>p i. present r s p \<longrightarrow> length p \<le> 1 \<longrightarrow> index_ok p i \<longrightarrow> is_dir (ent r s p i) \<or> absent (ent r s p i)) \<and>
     (\<forall>p i. present r s p \<longrightarrow> length p = 2 \<longrightarrow> unat i < 512 \<longrightarrow> V (ent r s p i) \<longrightarrow> XWR (ent r s p i) \<noteq> Noleaf)"

lemma owned_paged: "owned s a \<Longrightarrow> paged a"
  by (simp add: owned_def page_in_def paged_def)

lemma tree_okD:
  assumes "tree_ok r s"
  shows "heap_inv (heap_of s)" "present r s p \<Longrightarrow> owned s (tab r s p)" "present r s p \<Longrightarrow> paged (tab r s p)"
    "present r s p \<Longrightarrow> present r s q \<Longrightarrow> tab r s p = tab r s q \<Longrightarrow> p = q"
    "present r s p \<Longrightarrow> length p \<le> 1 \<Longrightarrow> index_ok p i \<Longrightarrow> is_dir (ent r s p i) \<or> absent (ent r s p i)"
    "present r s p \<Longrightarrow> length p = 2 \<Longrightarrow> unat i < 512 \<Longrightarrow> V (ent r s p i) \<Longrightarrow> XWR (ent r s p i) \<noteq> Noleaf"
  using assms owned_paged by (auto simp: tree_ok_def)

lemma index_ok_512: "index_ok p i \<Longrightarrow> unat i < 512"
  by (simp add: index_ok_def)

text \<open>A step that changes one entry of a table that is in the tree and no other entry of the tree.\<close>

definition changes_entry :: "u64 \<Rightarrow> u64 list \<Rightarrow> u64 \<Rightarrow> vm \<Rightarrow> vm \<Rightarrow> bool" where
  "changes_entry r p i s s' \<longleftrightarrow>
     (\<forall>q j. present r s q \<longrightarrow> unat j < 512 \<longrightarrow> (q, j) \<noteq> (p, i) \<longrightarrow> pmem s' (tab r s q + 8 * j) = pmem s (tab r s q + 8 * j))"

text \<open>The tables that do not lie behind the changed entry stay where they are.\<close>

lemma tab_kept:
  assumes "changes_entry r p i s s'" "present r s q" "\<not> suffix (i # p) q"
  shows "tab r s' q = tab r s q"
  using assms(2,3)
proof (induction q)
  case (Cons j q)
  then have q: "present r s q" "index_ok q j" "\<not> suffix (i # p) q" by (auto dest: suffix_ConsI)
  have "(q, j) \<noteq> (p, i)" using Cons.prems(2) by auto
  with assms(1) q(1) index_ok_512 [OF q(2)] have "pmem s' (tab r s q + 8 * j) = pmem s (tab r s q + 8 * j)" by (simp add: changes_entry_def)
  with Cons.IH [OF q(1,3)] show ?case by simp
qed simp

lemma ent_kept:
  assumes "changes_entry r p i s s'" "present r s q" "\<not> suffix (i # p) q" "unat j < 512" "(q, j) \<noteq> (p, i)"
  shows "ent r s' q j = ent r s q j"
  using assms tab_kept [OF assms(1-3)] by (simp add: ent_def changes_entry_def)

lemma present_kept:
  assumes "changes_entry r p i s s'" "\<not> suffix (i # p) q" "present r s' q"
  shows "present r s q"
  using assms(2,3)
proof (induction q)
  case (Cons j q)
  then have q: "present r s' q" "index_ok q j" "\<not> suffix (i # p) q" "(q, j) \<noteq> (p, i)" by (auto dest: suffix_ConsI)
  have "present r s q" by (rule Cons.IH [OF q(3,1)])
  with ent_kept [OF assms(1) _ q(3) index_ok_512 [OF q(2)] q(4)] Cons.prems(2) show ?case by simp
qed simp

lemma present_kept':
  assumes "changes_entry r p i s s'" "\<not> suffix (i # p) q" "present r s q"
  shows "present r s' q"
  using assms(2,3)
proof (induction q)
  case (Cons j q)
  then have q: "present r s q" "index_ok q j" "\<not> suffix (i # p) q" "(q, j) \<noteq> (p, i)" by (auto dest: suffix_ConsI)
  have "present r s' q" by (rule Cons.IH [OF q(3,1)])
  with ent_kept [OF assms(1) q(1,3) index_ok_512 [OF q(2)] q(4)] Cons.prems(2) show ?case by simp
qed simp

lemma present_suffix: "present r s q \<Longrightarrow> suffix p q \<Longrightarrow> present r s p"
proof (induction q)
  case (Cons j q)
  then show ?case by (cases "p = j # q") (auto simp: suffix_Cons)
qed simp

lemma to_kva_dir: "paged a \<Longrightarrow> to_kva (set_as_dir (kva2pa a) e) = a"
  by (simp add: to_kva_def to_pa_def set_as_dir_def ppn_roundtrip)

text \<open>What \<open>make_dir\<close> does to the tree: it is a table larger, or unchanged.\<close>

definition grows :: "u64 \<Rightarrow> u64 list \<Rightarrow> u64 \<Rightarrow> vm \<Rightarrow> vm \<Rightarrow> bool" where
  "grows r p i s s' \<longleftrightarrow> tree_ok r s' \<and> present r s' (i # p) \<and>
     (\<forall>q. present r s q \<longrightarrow> present r s' q \<and> tab r s' q = tab r s q) \<and> (\<forall>q. present r s' q \<longrightarrow> present r s q \<or> q = i # p) \<and>
     (\<forall>q j. present r s q \<longrightarrow> unat j < 512 \<longrightarrow> (q, j) \<noteq> (p, i) \<longrightarrow> ent r s' q j = ent r s q j) \<and>
     (\<not> present r s (i # p) \<longrightarrow> (\<forall>j. unat j < 512 \<longrightarrow> ent r s' (i # p) j = zero_entry))"

lemma make_dir_grows:
  assumes "tree_ok r s" "present r s p" "length p \<le> 1" "index_ok p i" "make_dir (tab r s p + 8 * i) s = Some s'"
  shows "grows r p i s s'"
proof (cases "is_dir (ent r s p i)")
  case True
  then have "s' = s" using assms(5) by (simp add: make_dir_def is_dir_def ent_def)
  with True assms show ?thesis by (auto simp: grows_def)
next
  case False
  note t = tree_okD [OF assms(1)]
  let ?pte = "tab r s p + 8 * i"
  have ab: "\<not> V (pmem s ?pte)" using t(5) [OF assms(2-4)] False by (simp add: absent_def ent_def)
  with assms(5) obtain a h where a: "kalloc (heap_of s) 4096 = Some (a, h)"
    and s': "s' = put_entry ?pte (set_as_dir (kva2pa a) (pmem (clear_page a (s\<lparr>heap_of := h\<rparr>)) ?pte)) (clear_page a (s\<lparr>heap_of := h\<rparr>))"
    by (auto simp: make_dir_def Let_def elim!: bind_SomeE)
  note fresh = kpages.fresh_page [OF t(1) a]
  have h': "heap_of s' = h" by (simp add: s' put_entry_def clear_page_def)
  have own': "owned s' b" if "owned s b" for b using that fresh(3) by (simp add: owned_def h')
  have owna: "owned s' a" using fresh(2) by (simp add: owned_def h')
  have na: "tab r s q \<noteq> a" if "present r s q" for q using t(2) [OF that] fresh(4) by (auto simp: owned_def)
  note pa = owned_paged [OF owna]
  have mem: "pmem s' b = (if b = ?pte then set_as_dir (kva2pa a) (pmem (clear_page a (s\<lparr>heap_of := h\<rparr>)) ?pte) else if b - a < 4096 then zero_entry else pmem s b)" for b
    by (simp add: s' put_entry_def clear_page_def)
  have ch: "changes_entry r p i s s'"
    unfolding changes_entry_def
  proof (intro allI impI)
    fix q j assume q: "present r s q" "unat j < 512" "(q, j) \<noteq> (p, i)"
    have "tab r s q + 8 * j \<noteq> ?pte"
      using entry_inj [OF t(3) [OF q(1)] t(3) [OF assms(2)] q(2) index_ok_512 [OF assms(4)]] t(4) [OF q(1) assms(2)] q(3) by blast
    moreover have "\<not> tab r s q + 8 * j - a < 4096" using entry_in_page [OF t(3) [OF q(1)] pa q(2)] na [OF q(1)] by simp
    ultimately show "pmem s' (tab r s q + 8 * j) = pmem s (tab r s q + 8 * j)" by (simp add: mem)
  qed
  have np: "\<not> present r s (i # p)" using False by simp
  then have ns: "\<not> suffix (i # p) q" if "present r s q" for q using that present_suffix by blast
  have kept: "present r s' q" "tab r s' q = tab r s q" if "present r s q" for q
    using present_kept' [OF ch ns [OF that] that] tab_kept [OF ch that ns [OF that]] by auto
  have entk: "ent r s' q j = ent r s q j" if "present r s q" "unat j < 512" "(q, j) \<noteq> (p, i)" for q j
    by (rule ent_kept [OF ch that(1) ns [OF that(1)] that(2,3)])
  have e: "ent r s' p i = set_as_dir (kva2pa a) (pmem (clear_page a (s\<lparr>heap_of := h\<rparr>)) ?pte)" using kept(2) [OF assms(2)] by (simp add: ent_def mem)
  then have dir: "is_dir (ent r s' p i)" by (simp add: is_dir_def set_as_dir_def)
  have new: "present r s' (i # p)" using kept(1) [OF assms(2)] assms(3,4) dir by simp
  have ta: "tab r s' (i # p) = a" using e to_kva_dir [OF pa] by (simp add: ent_def)
  have z: "ent r s' (i # p) j = zero_entry" if "unat j < 512" for j
  proof -
    have "a + 8 * j \<noteq> ?pte" using entry_inj [OF pa t(3) [OF assms(2)] that index_ok_512 [OF assms(4)]] na [OF assms(2)] by blast
    moreover have "a + 8 * j - a < 4096" using entry_in_page [OF pa pa that] by simp
    ultimately show ?thesis unfolding ent_def ta by (simp add: mem)
  qed
  have only: "present r s q \<or> q = i # p" if q: "present r s' q" for q
  proof (cases "suffix (i # p) q \<and> q \<noteq> i # p")
    case True
    then obtain x where x: "q = x @ (i # p)" "x \<noteq> []" by (auto simp: suffix_def)
    obtain y j where y: "x = y @ [j]" using x(2) by (metis rev_exhaust)
    have "suffix (j # i # p) q" by (auto simp: suffix_def x(1) y)
    then have "present r s' (j # i # p)" using present_suffix [OF q] by blast
    then have "index_ok (i # p) j" "is_dir (ent r s' (i # p) j)" by auto
    with z [OF index_ok_512] show ?thesis by (simp add: is_dir_def zero_entry_def)
  next
    case False
    with present_kept [OF ch _ q] show ?thesis by blast
  qed
  have "tree_ok r s'"
    unfolding tree_ok_def
  proof (intro conjI allI impI)
    show "heap_inv (heap_of s')" using fresh(1) by (simp add: h')
    show "owned s' (tab r s' q)" if "present r s' q" for q
      using only [OF that] own' t(2) kept(2) owna ta by metis
    show "q = q'" if "present r s' q" "present r s' q'" "tab r s' q = tab r s' q'" for q q'
      using only [OF that(1)] only [OF that(2)] that(3) t(4) kept(2) na ta by metis
    show "is_dir (ent r s' q j) \<or> absent (ent r s' q j)" if "present r s' q" "length q \<le> 1" "index_ok q j" for q j
    proof (cases "q = i # p")
      case True
      then show ?thesis using z [OF index_ok_512 [OF that(3)]] by (simp add: absent_def zero_entry_def)
    next
      case False
      with only [OF that(1)] have "present r s q" by blast
      with t(5) [OF this that(2,3)] entk [OF this index_ok_512 [OF that(3)]] dir show ?thesis by (cases "(q, j) = (p, i)") auto
    qed
    show "XWR (ent r s' q j) \<noteq> Noleaf" if "present r s' q" "length q = 2" "unat j < 512" "V (ent r s' q j)" for q j
    proof (cases "q = i # p")
      case True
      then show ?thesis using z [OF that(3)] that(4) by (simp add: zero_entry_def)
    next
      case False
      with only [OF that(1)] have "present r s q" by blast
      moreover have "q \<noteq> p" using that(2) assms(3) by auto
      ultimately show ?thesis using t(6) [of q j] entk [of q j] that(2-4) by simp
    qed
  qed
  with new kept only entk z np show ?thesis by (simp add: grows_def)
qed

section \<open>The walk of the hardware\<close>

text \<open>Sv39: an invalid entry is a fault, an entry with access rights ends the walk, with the low bits of the address as the offset.\<close>

definition sv39 :: "u64 \<Rightarrow> vm \<Rightarrow> u64 \<Rightarrow> u64 option" where
  "sv39 r s va =
     (let e = pmem s (r + 8 * get_vpn va 2)
      in if \<not> V e then None
         else if XWR e \<noteq> Noleaf then Some (to_pa e + take_bit 30 va)
         else let e = pmem s (to_kva e + 8 * get_vpn va 1)
              in if \<not> V e then None
                 else if XWR e \<noteq> Noleaf then Some (to_pa e + take_bit 21 va)
                 else let e = pmem s (to_kva e + 8 * get_vpn va 0)
                      in if \<not> V e \<or> XWR e = Noleaf then None else Some (to_pa e + take_bit 12 va))"

abbreviation user_va :: "u64 \<Rightarrow> bool" where "user_va va \<equiv> va < 0x4000000000"

lemma unat_get_vpn: "unat (get_vpn va n) = unat va div 2 ^ (12 + 9 * n) mod 512"
proof -
  have "(0x1ff :: u64) = mask 9" by (simp add: mask_eq_exp_minus_1)
  then have "get_vpn va n = take_bit 9 (drop_bit (12 + 9 * n) va)" by (simp add: get_vpn_def take_bit_eq_mask)
  then have "unat (get_vpn va n) = take_bit 9 (drop_bit (12 + 9 * n) (unat va))"
    by (simp only: unsigned_take_bit_eq unsigned_drop_bit_eq) (simp add: take_bit_nat_eq_self unsigned_less [of va, where 'a = nat, simplified])
  then show ?thesis by (simp add: take_bit_eq_mod drop_bit_eq_div)
qed

lemma user_index: "user_va va \<Longrightarrow> index_ok [] (get_vpn va 2)"
proof -
  assume "user_va va"
  then have "unat va < 2 ^ 38" by (simp add: word_less_nat_alt)
  then have "unat va div 2 ^ 30 < 2 ^ 8" by (intro less_mult_imp_div_less) simp
  then show ?thesis by (simp add: index_ok_def unat_get_vpn)
qed

text \<open>Two user addresses are in the same page if their three indices agree.\<close>

lemma same_page:
  assumes "user_va va" "user_va va'"
  shows "get_vpn va' 2 = get_vpn va 2 \<and> get_vpn va' 1 = get_vpn va 1 \<and> get_vpn va' 0 = get_vpn va 0 \<longleftrightarrow> drop_bit 12 va' = drop_bit 12 va"
proof -
  have d: "unat (drop_bit 12 v) = unat (get_vpn v 0) + 512 * unat (get_vpn v 1) + 512 * 512 * unat (get_vpn v 2)" if "user_va v" for v
  proof -
    define x where "x = unat v div 4096"
    have "unat v < 2 ^ 38" using that by (simp add: word_less_nat_alt)
    then have "x < 2 ^ 26" unfolding x_def by (intro less_mult_imp_div_less) simp
    then have "x div 512 div 512 < 512" by (intro less_mult_imp_div_less) simp
    then have m: "x div 512 div 512 mod 512 = x div 512 div 512" by simp
    have "x = x mod 512 + 512 * (x div 512 mod 512) + 512 * 512 * (x div 512 div 512 mod 512)"
      unfolding m using div_mult_mod_eq [of x 512] div_mult_mod_eq [of "x div 512" 512] by linarith
    moreover have "unat v div 2 ^ (12 + 9 * 1) = x div 512" "unat v div 2 ^ (12 + 9 * 2) = x div 512 div 512" "unat v div 2 ^ (12 + 9 * 0) = x"
      by (simp_all add: x_def div_mult2_eq)
    moreover have "unat (drop_bit 12 v) = x" by (simp add: x_def drop_bit_eq_div unat_div)
    ultimately show ?thesis unfolding unat_get_vpn by simp
  qed
  have "drop_bit (12 + 9 * n) v = drop_bit (9 * n) (drop_bit 12 v)" for n and v :: u64 by (simp add: add.commute)
  then have i: "get_vpn va' n = get_vpn va n" if "drop_bit 12 va' = drop_bit 12 va" for n using that by (simp only: get_vpn_def)
  show ?thesis
  proof
    assume "get_vpn va' 2 = get_vpn va 2 \<and> get_vpn va' 1 = get_vpn va 1 \<and> get_vpn va' 0 = get_vpn va 0"
    then have "unat (drop_bit 12 va') = unat (drop_bit 12 va)" unfolding d [OF assms(1)] d [OF assms(2)] by simp
    then show "drop_bit 12 va' = drop_bit 12 va" by (simp only: word_unat_eq_iff)
  qed (simp add: i)
qed

text \<open>The walk in terms of the tree.\<close>

definition leaf :: "PageEntry \<Rightarrow> u64 \<Rightarrow> u64 option" where
  "leaf e va = (if \<not> V e \<or> XWR e = Noleaf then None else Some (to_pa e + take_bit 12 va))"

lemma sv39_tree:
  assumes "tree_ok r s" "user_va va"
  shows "sv39 r s va = (if present r s [get_vpn va 1, get_vpn va 2] then leaf (ent r s [get_vpn va 1, get_vpn va 2] (get_vpn va 0)) va else None)"
proof -
  note t = tree_okD [OF assms(1)]
  let ?i = "get_vpn va 2" and ?j = "get_vpn va 1"
  have i: "index_ok [] ?i" by (rule user_index [OF assms(2)])
  have j: "index_ok [?i] ?j" using get_vpn_less by (simp add: index_ok_def)
  have e2: "is_dir (ent r s [] ?i) \<or> absent (ent r s [] ?i)" using t(5) [of "[]" ?i] i by simp
  show ?thesis
  proof (cases "is_dir (ent r s [] ?i)")
    case False
    with e2 show ?thesis by (simp add: sv39_def ent_def absent_def Let_def)
  next
    case True
    then have pi: "present r s [?i]" using i by simp
    have e1: "is_dir (ent r s [?i] ?j) \<or> absent (ent r s [?i] ?j)" using t(5) [OF pi] j by simp
    with True i j show ?thesis by (auto simp: sv39_def ent_def is_dir_def absent_def leaf_def Let_def)
  qed
qed

text \<open>The entry that maps a user address, where there is one.\<close>

definition page_entry :: "u64 \<Rightarrow> vm \<Rightarrow> u64 \<Rightarrow> PageEntry option" where
  "page_entry r s va =
     (let e = ent r s [get_vpn va 1, get_vpn va 2] (get_vpn va 0) in if present r s [get_vpn va 1, get_vpn va 2] \<and> V e then Some e else None)"

lemma sv39_entry:
  assumes "tree_ok r s" "user_va va"
  shows "sv39 r s va = map_option (\<lambda>e. to_pa e + take_bit 12 va) (page_entry r s va)"
  using tree_okD(6) [OF assms(1), of "[get_vpn va 1, get_vpn va 2]" "get_vpn va 0"] get_vpn_less [of va 0]
  by (auto simp: sv39_tree [OF assms] page_entry_def leaf_def Let_def simp del: present.simps)

lemma sv39_page:
  assumes "tree_ok r s" "user_va va" "user_va va'" "drop_bit 12 va' = drop_bit 12 va"
  shows "sv39 r s va' = None \<longleftrightarrow> sv39 r s va = None"
  unfolding sv39_tree [OF assms(1,2)] sv39_tree [OF assms(1,3)] using same_page [OF assms(2,3)] assms(4) by (auto simp: leaf_def)

lemma page_entry_grows:
  assumes "grows r p i s s'" "length p \<le> 1"
  shows "page_entry r s' va = page_entry r s va"
proof -
  have g: "\<And>q. present r s q \<Longrightarrow> present r s' q" "\<And>q. present r s' q \<Longrightarrow> present r s q \<or> q = i # p"
    "\<And>q j. present r s q \<Longrightarrow> unat j < 512 \<Longrightarrow> (q, j) \<noteq> (p, i) \<Longrightarrow> ent r s' q j = ent r s q j"
    "\<And>j. \<not> present r s (i # p) \<Longrightarrow> unat j < 512 \<Longrightarrow> ent r s' (i # p) j = zero_entry"
    using assms(1) unfolding grows_def by blast+
  let ?q = "[get_vpn va 1, get_vpn va 2]"
  have "?q \<noteq> p" using assms(2) by auto
  then have k: "ent r s' ?q (get_vpn va 0) = ent r s ?q (get_vpn va 0)" if "present r s ?q" using g(3) [OF that get_vpn_less, of va 0] by blast
  have z: "\<not> V (ent r s' ?q (get_vpn va 0))" if "present r s' ?q" "\<not> present r s ?q"
    using g(2) [OF that(1)] g(4) that(2) get_vpn_less [of va 0] by (auto simp: zero_entry_def)
  show ?thesis
  proof (cases "present r s ?q")
    case True
    then show ?thesis using k g(1) [OF True] by (simp add: page_entry_def Let_def del: present.simps)
  next
    case False
    then show ?thesis using z by (auto simp: page_entry_def Let_def simp del: present.simps)
  qed
qed

lemma sv39_grows:
  assumes "tree_ok r s" "grows r p i s s'" "length p \<le> 1" "user_va va"
  shows "sv39 r s' va = sv39 r s va"
  using assms page_entry_grows [OF assms(2,3)] by (simp add: sv39_entry grows_def)

section \<open>Mapping a page\<close>

text \<open>Two requests for a page succeed: the most that one lookup needs.\<close>

definition two_pages :: "heap \<Rightarrow> bool" where
  "two_pages h \<longleftrightarrow> run_allocs kalloc h [4096, 4096] \<noteq> None"

lemma two_pagesD:
  assumes "two_pages h"
  obtains a h1 b h2 where "kalloc h 4096 = Some (a, h1)" "kalloc h1 4096 = Some (b, h2)"
  using assms by (auto simp: two_pages_def bind_Some_iff)

text \<open>\<open>lookup\<close> completes the path to the page and translates nothing differently.\<close>

definition found :: "u64 \<Rightarrow> u64 \<Rightarrow> vm \<Rightarrow> u64 \<Rightarrow> vm \<Rightarrow> bool" where
  "found r va s pte s' \<longleftrightarrow> tree_ok r s' \<and> present r s' [get_vpn va 1, get_vpn va 2] \<and> pte = tab r s' [get_vpn va 1, get_vpn va 2] + 8 * get_vpn va 0 \<and>
     (\<forall>va'. user_va va' \<longrightarrow> sv39 r s' va' = sv39 r s va') \<and> (\<forall>a. owned s a \<longrightarrow> owned s' a) \<and> (\<forall>va'. page_entry r s' va' = page_entry r s va')"

lemma make_dir_owned:
  assumes "heap_inv (heap_of s)" "make_dir pte s = Some s'" "owned s a"
  shows "owned s' a"
  using assms kpages.fresh_page(3) [OF assms(1)]
  by (auto simp: make_dir_def owned_def put_entry_def clear_page_def Let_def split: if_splits elim!: bind_SomeE)

lemma lookup_steps:
  assumes "tree_ok r s" "user_va va"
  shows "lookup r va s = do {
     s1 \<leftarrow> make_dir (tab r s [] + 8 * get_vpn va 2) s;
     s2 \<leftarrow> make_dir (tab r s1 [get_vpn va 2] + 8 * get_vpn va 1) s1;
     Some (tab r s2 [get_vpn va 1, get_vpn va 2] + 8 * get_vpn va 0, s2)
   }"
proof -
  let ?i = "get_vpn va 2" and ?j = "get_vpn va 1"
  have i: "index_ok [] ?i" by (rule user_index [OF assms(2)])
  have j: "index_ok [?i] ?j" using get_vpn_less by (simp add: index_ok_def)
  have x2: "XWR (pmem s (r + 8 * ?i)) = Noleaf" using tree_okD(5) [OF assms(1), of "[]" ?i] i by (auto simp: ent_def is_dir_def absent_def)
  have "XWR (pmem s1 (tab r s1 [?i] + 8 * ?j)) = Noleaf \<and> (\<forall>s2. make_dir (tab r s1 [?i] + 8 * ?j) s1 = Some s2 \<longrightarrow> tab r s2 [?i] = tab r s1 [?i])"
    if "make_dir (tab r s [] + 8 * ?i) s = Some s1" for s1
  proof -
    have g: "grows r [] ?i s s1" by (rule make_dir_grows [OF assms(1) _ _ i that]) simp_all
    then have t1: "tree_ok r s1" "present r s1 [?i]" by (simp_all add: grows_def)
    have "grows r [?i] ?j s1 s2" if "make_dir (tab r s1 [?i] + 8 * ?j) s1 = Some s2" for s2
      by (rule make_dir_grows [OF t1 _ j that]) simp
    then show ?thesis using tree_okD(5) [OF t1, of ?j] j t1(2) by (auto simp: ent_def is_dir_def absent_def grows_def simp del: present.simps tab.simps)
  qed
  then show ?thesis using x2 by (auto simp: lookup_def Let_def split: Option.bind_splits)
qed

lemma lookup_found:
  assumes "tree_ok r s" "user_va va" "lookup r va s = Some (pte, s')"
  shows "found r va s pte s'"
proof -
  let ?i = "get_vpn va 2" and ?j = "get_vpn va 1"
  from assms(3) [unfolded lookup_steps [OF assms(1,2)]] obtain s1 where
    s1: "make_dir (tab r s [] + 8 * ?i) s = Some s1" "make_dir (tab r s1 [?i] + 8 * ?j) s1 = Some s'" "pte = tab r s' [?j, ?i] + 8 * get_vpn va 0"
    by (auto elim!: bind_SomeE)
  have i: "index_ok [] ?i" by (rule user_index [OF assms(2)])
  have j: "index_ok [?i] ?j" using get_vpn_less by (simp add: index_ok_def)
  have g1: "grows r [] ?i s s1" by (rule make_dir_grows [OF assms(1) _ _ i s1(1)]) simp_all
  then have t1: "tree_ok r s1" "present r s1 [?i]" by (simp_all add: grows_def)
  have g2: "grows r [?i] ?j s1 s'" by (rule make_dir_grows [OF t1 _ j s1(2)]) simp
  have "sv39 r s' va' = sv39 r s va'" if "user_va va'" for va'
    using sv39_grows [OF assms(1) g1 _ that] sv39_grows [OF t1(1) g2 _ that] by simp
  moreover have "owned s' a" if "owned s a" for a
    using make_dir_owned [OF _ s1(2)] make_dir_owned [OF _ s1(1) that] tree_okD(1) assms(1) t1(1) by blast
  moreover have "page_entry r s' va' = page_entry r s va'" for va' using page_entry_grows [OF g1] page_entry_grows [OF g2] by simp
  ultimately show ?thesis using g2 s1(3) by (simp add: found_def grows_def)
qed

lemma lookup_total:
  assumes "tree_ok r s" "user_va va" "two_pages (heap_of s)"
  shows "\<exists>pte s'. lookup r va s = Some (pte, s')"
proof -
  obtain a h1 b h2 where h: "kalloc (heap_of s) 4096 = Some (a, h1)" "kalloc h1 4096 = Some (b, h2)" by (rule two_pagesD [OF assms(3)])
  have m: "\<exists>s'. make_dir pte s = Some s' \<and> (heap_of s' = heap_of s \<or> heap_of s' = h1)" for pte
    using h(1) by (auto simp: make_dir_def Let_def put_entry_def clear_page_def)
  obtain s1 where s1: "make_dir (tab r s [] + 8 * get_vpn va 2) s = Some s1" "heap_of s1 = heap_of s \<or> heap_of s1 = h1" using m by blast
  have "\<exists>s'. make_dir pte s1 = Some s'" for pte using s1(2) h by (auto simp: make_dir_def Let_def)
  then obtain s2 where s2: "make_dir (tab r s1 [get_vpn va 2] + 8 * get_vpn va 1) s1 = Some s2" by blast
  show ?thesis unfolding lookup_steps [OF assms(1,2)] s1(1) bind.bind_lunit s2 by blast
qed

text \<open>A leaf entry is put into the table at the end of the path.\<close>

lemma leaf_put:
  assumes "tree_ok r s" "present r s [j, i]" "unat l < 512" "V e \<longrightarrow> XWR e \<noteq> Noleaf" "s' = put_entry (tab r s [j, i] + 8 * l) e s"
  shows "tree_ok r s'" "\<And>q. present r s' q = present r s q" "\<And>q k. present r s q \<Longrightarrow> unat k < 512 \<Longrightarrow> ent r s' q k = (if (q, k) = ([j, i], l) then e else ent r s q k)"
    "\<And>q. present r s q \<Longrightarrow> tab r s' q = tab r s q"
proof -
  note t = tree_okD [OF assms(1)]
  have ch: "changes_entry r [j, i] l s s'"
    unfolding changes_entry_def
  proof (intro allI impI)
    fix q k assume q: "present r s q" "unat k < 512" "(q, k) \<noteq> ([j, i], l)"
    have "tab r s q + 8 * k \<noteq> tab r s [j, i] + 8 * l"
      using entry_inj [OF t(3) [OF q(1)] t(3) [OF assms(2)] q(2) assms(3)] t(4) [OF q(1) assms(2)] q(3) by blast
    then show "pmem s' (tab r s q + 8 * k) = pmem s (tab r s q + 8 * k)" by (simp add: assms(5) put_entry_def)
  qed
  have short: "length q \<le> 2" if "present r x q" for q x using that by (cases q) auto
  have ns: "\<not> suffix [l, j, i] q" if "length q \<le> 2" for q using that suffix_length_le [of "[l, j, i]" q] by auto
  show pq: "present r s' q = present r s q" for q
    using present_kept [OF ch ns] present_kept' [OF ch ns] short by blast
  show tk: "tab r s' q = tab r s q" if "present r s q" for q by (rule tab_kept [OF ch that ns [OF short [OF that]]])
  show en: "ent r s' q k = (if (q, k) = ([j, i], l) then e else ent r s q k)" if "present r s q" "unat k < 512" for q k
  proof (cases "(q, k) = ([j, i], l)")
    case True
    then show ?thesis using tk [OF assms(2)] by (simp add: ent_def assms(5) put_entry_def del: tab.simps)
  next
    case False
    from ent_kept [OF ch that(1) ns [OF short [OF that(1)]] that(2) False] False show ?thesis by auto
  qed
  have h: "heap_of s' = heap_of s" by (simp add: assms(5) put_entry_def)
  show "tree_ok r s'"
    unfolding tree_ok_def pq
  proof (intro conjI allI impI)
    show "heap_inv (heap_of s')" using t(1) by (simp add: h)
    show "owned s' (tab r s' q)" if "present r s q" for q using t(2) [OF that] tk [OF that] by (simp add: owned_def h)
    show "q = q'" if "present r s q" "present r s q'" "tab r s' q = tab r s' q'" for q q' using t(4) [OF that(1,2)] that tk by simp
    show "is_dir (ent r s' q k) \<or> absent (ent r s' q k)" if "present r s q" "length q \<le> 1" "index_ok q k" for q k
      using t(5) [OF that] en [OF that(1) index_ok_512 [OF that(3)]] that(2) by auto
    show "XWR (ent r s' q k) \<noteq> Noleaf" if "present r s q" "length q = 2" "unat k < 512" "V (ent r s' q k)" for q k
      using t(6) [OF that(1-3)] en [OF that(1,3)] assms(4) that(4) by (auto split: if_splits)
  qed
qed

lemma sv39_put:
  assumes "tree_ok r s" "present r s [get_vpn va 1, get_vpn va 2]" "V e \<longrightarrow> XWR e \<noteq> Noleaf" "user_va va" "user_va va'"
    "s' = put_entry (tab r s [get_vpn va 1, get_vpn va 2] + 8 * get_vpn va 0) e s"
  shows "sv39 r s' va' = (if drop_bit 12 va' = drop_bit 12 va then leaf e va' else sv39 r s va')"
proof -
  note p = leaf_put [OF assms(1,2) get_vpn_less assms(3,6)]
  show ?thesis
    unfolding sv39_tree [OF assms(1,5)] sv39_tree [OF p(1) assms(5)] p(2) same_page [OF assms(4,5), symmetric]
    using p(3) [OF _ get_vpn_less, of "[get_vpn va' 1, get_vpn va' 2]" va' 0] assms(2) by auto
qed

lemma map_va_kva_ok:
  assumes "tree_ok (root pd) s" "user_va va" "paged kva" "map_va_kva va kva flag pd s = Some (pd', s')"
  shows "root pd' = root pd" "tree_ok (root pd) s'"
    "user_va va' \<Longrightarrow> sv39 (root pd) s' va' = (if drop_bit 12 va' = drop_bit 12 va then Some (kva2pa kva + take_bit 12 va') else sv39 (root pd) s va')"
proof -
  from assms(4) obtain pte s1 where l: "lookup (root pd) va s = Some (pte, s1)" "\<not> V (pmem s1 pte)"
    and s': "s' = put_entry pte ((set_as_leaf (kva2pa kva) (pmem s1 pte))\<lparr>OSflag := flag\<rparr>) s1" and pd': "pd' = on_page_updated pd"
    by (auto simp: map_va_kva_def Let_def elim!: bind_SomeE split: if_splits)
  define e where "e = (set_as_leaf (kva2pa kva) (pmem s1 pte))\<lparr>OSflag := flag\<rparr>"
  have f: "found (root pd) va s pte s1" by (rule lookup_found [OF assms(1,2) l(1)])
  then have t1: "tree_ok (root pd) s1" "present (root pd) s1 [get_vpn va 1, get_vpn va 2]"
    and pte: "pte = tab (root pd) s1 [get_vpn va 1, get_vpn va 2] + 8 * get_vpn va 0"
    and same: "\<And>va'. user_va va' \<Longrightarrow> sv39 (root pd) s1 va' = sv39 (root pd) s va'" unfolding found_def by blast+
  have x: "V e \<longrightarrow> XWR e \<noteq> Noleaf" by (simp add: e_def set_as_leaf_def)
  have lf: "leaf e va' = Some (kva2pa kva + take_bit 12 va')"
    using ppn_roundtrip [OF assms(3)] by (simp add: leaf_def e_def set_as_leaf_def to_pa_def)
  show "root pd' = root pd" by (simp add: pd' on_page_updated_def)
  show "tree_ok (root pd) s'" using leaf_put(1) [OF t1 get_vpn_less x] s' by (simp add: e_def pte del: tab.simps present.simps)
  show "sv39 (root pd) s' va' = (if drop_bit 12 va' = drop_bit 12 va then Some (kva2pa kva + take_bit 12 va') else sv39 (root pd) s va')" if "user_va va'"
    using sv39_put [OF t1 x assms(2) that] s' same [OF that] lf by (simp add: e_def pte del: tab.simps present.simps)
qed

lemma map_va_kva_returns:
  assumes "tree_ok (root pd) s" "user_va va" "sv39 (root pd) s va = None" "two_pages (heap_of s)"
  shows "\<exists>pd' s'. map_va_kva va kva flag pd s = Some (pd', s')"
proof -
  obtain pte s1 where l: "lookup (root pd) va s = Some (pte, s1)" using lookup_total [OF assms(1,2,4)] by blast
  have f: "found (root pd) va s pte s1" by (rule lookup_found [OF assms(1,2) l])
  then have t1: "tree_ok (root pd) s1" "present (root pd) s1 [get_vpn va 1, get_vpn va 2]"
    and pte: "pte = tab (root pd) s1 [get_vpn va 1, get_vpn va 2] + 8 * get_vpn va 0" and same: "sv39 (root pd) s1 va = None"
    using assms(2,3) unfolding found_def by auto
  have "leaf (pmem s1 pte) va = None" using same t1(2) unfolding sv39_tree [OF t1(1) assms(2)] ent_def pte by simp
  then have "\<not> V (pmem s1 pte)" using tree_okD(6) [OF t1, of "get_vpn va 0"] get_vpn_less [of va 0] by (auto simp: leaf_def ent_def pte split: if_splits)
  with l show ?thesis by (simp add: map_va_kva_def Let_def)
qed

text \<open>
  C4: Mapping a page. In an address space whose tables form a tree of allocated pages, \<open>map_va_kva\<close> of a user address that is not mapped, with two free pages for missing tables, passes its
  assertion; afterwards the hardware walk takes every address of that page to the same offset in the given page of memory, every other user address to where it went before, and the tables form a tree again.
\<close>

theorem map_va_kva_translates:
  assumes "tree_ok (root pd) s" "user_va va" "paged kva" "sv39 (root pd) s va = None" "two_pages (heap_of s)"
  shows "\<exists>pd' s'. map_va_kva va kva flag pd s = Some (pd', s') \<and> tree_ok (root pd') s' \<and>
    (\<forall>va'. user_va va' \<longrightarrow> sv39 (root pd') s' va' = (if drop_bit 12 va' = drop_bit 12 va then Some (kva2pa kva + take_bit 12 va') else sv39 (root pd) s va'))"
proof -
  obtain pd' s' where m: "map_va_kva va kva flag pd s = Some (pd', s')" using map_va_kva_returns [OF assms(1,2,4,5)] by blast
  from map_va_kva_ok [OF assms(1-3) m] m show ?thesis by auto
qed

section \<open>Pages on demand\<close>

lemma tab_heap [simp]: "tab r (s\<lparr>heap_of := h\<rparr>) p = tab r s p"
  by (induction p) simp_all

lemma ent_heap [simp]: "ent r (s\<lparr>heap_of := h\<rparr>) p i = ent r s p i"
  by (simp add: ent_def)

lemma present_heap [simp]: "present r (s\<lparr>heap_of := h\<rparr>) p = present r s p"
  by (induction p) simp_all

lemma sv39_heap [simp]: "sv39 r (s\<lparr>heap_of := h\<rparr>) va = sv39 r s va"
  by (simp add: sv39_def Let_def cong: if_cong)

lemma tree_ok_heap:
  assumes "tree_ok r s" "kalloc (heap_of s) 4096 = Some (a, h)"
  shows "tree_ok r (s\<lparr>heap_of := h\<rparr>)"
  using assms(1) kpages.fresh_page(1,3) [OF tree_okD(1) [OF assms(1)] assms(2)] by (simp add: tree_ok_def owned_def del: present.simps tab.simps)

lemma lookup_present:
  assumes "tree_ok r s" "user_va va" "present r s [get_vpn va 1, get_vpn va 2]"
  shows "lookup r va s = Some (tab r s [get_vpn va 1, get_vpn va 2] + 8 * get_vpn va 0, s)"
proof -
  have "V (pmem s (tab r s [] + 8 * get_vpn va 2))" "V (pmem s (tab r s [get_vpn va 2] + 8 * get_vpn va 1))"
    using assms(3) by (auto simp: is_dir_def ent_def)
  then show ?thesis unfolding lookup_steps [OF assms(1,2)] by (simp add: make_dir_def)
qed

definition three_pages :: "heap \<Rightarrow> bool" where
  "three_pages h \<longleftrightarrow> run_allocs kalloc h [4096, 4096, 4096] \<noteq> None"

text \<open>With three free pages, \<open>lookup\<close> leaves at least one.\<close>

lemma lookup_leaves_page:
  assumes "tree_ok r s" "user_va va" "three_pages (heap_of s)"
  obtains pte s' a h where "lookup r va s = Some (pte, s')" "kalloc (heap_of s') 4096 = Some (a, h)"
proof -
  obtain a0 h1 a1 h2 a2 h3 where h: "kalloc (heap_of s) 4096 = Some (a0, h1)" "kalloc h1 4096 = Some (a1, h2)" "kalloc h2 4096 = Some (a2, h3)"
    using assms(3) by (auto simp: three_pages_def bind_Some_iff)
  have m: "\<exists>s'. make_dir pte s = Some s' \<and> (heap_of s' = heap_of s \<or> heap_of s' = h1)" for pte
    using h(1) by (auto simp: make_dir_def Let_def put_entry_def clear_page_def)
  obtain s1 where s1: "make_dir (tab r s [] + 8 * get_vpn va 2) s = Some s1" "heap_of s1 = heap_of s \<or> heap_of s1 = h1" using m by blast
  have m2: "\<exists>s'. make_dir pte s1 = Some s' \<and> (heap_of s' = heap_of s \<or> heap_of s' = h1 \<or> heap_of s' = h2)" for pte
    using s1(2) h by (auto simp: make_dir_def Let_def put_entry_def clear_page_def)
  obtain s2 where s2: "make_dir (tab r s1 [get_vpn va 2] + 8 * get_vpn va 1) s1 = Some s2" "heap_of s2 = heap_of s \<or> heap_of s2 = h1 \<or> heap_of s2 = h2" using m2 by blast
  have "lookup r va s = Some (tab r s2 [get_vpn va 1, get_vpn va 2] + 8 * get_vpn va 0, s2)"
    unfolding lookup_steps [OF assms(1,2)] s1(1) bind.bind_lunit s2(1) by simp
  moreover have "\<exists>a h. kalloc (heap_of s2) 4096 = Some (a, h)" using s2(2) h by auto
  ultimately show thesis using that by blast
qed

lemma alloc_page_total:
  assumes "tree_ok (root pd) s" "user_va va" "va < user_mem_bound pd" "three_pages (heap_of s)"
  shows "\<exists>k pd' s'. alloc_page_for_va va pd s = Some (k, pd', s') \<and> tree_ok (root pd') s' \<and>
    sv39 (root pd') s' va = Some (kva2pa k + take_bit 12 va) \<and> (sv39 (root pd) s va = None \<longrightarrow> \<not> owned s k) \<and>
    (\<forall>va'. user_va va' \<and> (drop_bit 12 va' \<noteq> drop_bit 12 va \<or> sv39 (root pd) s va \<noteq> None) \<longrightarrow> sv39 (root pd') s' va' = sv39 (root pd) s va')"
proof -
  obtain pte s1 a h where l: "lookup (root pd) va s = Some (pte, s1)" and al: "kalloc (heap_of s1) 4096 = Some (a, h)"
    by (rule lookup_leaves_page [OF assms(1,2,4)])
  have f: "found (root pd) va s pte s1" by (rule lookup_found [OF assms(1,2) l])
  then have t1: "tree_ok (root pd) s1" "present (root pd) s1 [get_vpn va 1, get_vpn va 2]"
    and pte: "pte = tab (root pd) s1 [get_vpn va 1, get_vpn va 2] + 8 * get_vpn va 0"
    and same: "\<And>va'. user_va va' \<Longrightarrow> sv39 (root pd) s1 va' = sv39 (root pd) s va'" and own: "\<And>b. owned s b \<Longrightarrow> owned s1 b"
    unfolding found_def by blast+
  have sv: "sv39 (root pd) s va = leaf (pmem s1 pte) va" using same [OF assms(2)] t1(2) unfolding sv39_tree [OF t1(1) assms(2)] ent_def pte by simp
  show ?thesis
  proof (cases "V (pmem s1 pte)")
    case True
    then have x: "XWR (pmem s1 pte) \<noteq> Noleaf" using tree_okD(6) [OF t1, of "get_vpn va 0"] get_vpn_less [of va 0] by (simp add: ent_def pte)
    with True sv have e: "sv39 (root pd) s va = Some (kva2pa (to_kva (pmem s1 pte)) + take_bit 12 va)" by (simp add: leaf_def to_kva_def)
    have "alloc_page_for_va va pd s = Some (to_kva (pmem s1 pte), pd, s1)" using assms(3) l True by (simp add: alloc_page_for_va_def not_le)
    with t1(1) same e assms(2) show ?thesis by auto
  next
    case False
    let ?s = "s1\<lparr>heap_of := h\<rparr>"
    have t2: "tree_ok (root pd) ?s" by (rule tree_ok_heap [OF t1(1) al])
    note fresh = kpages.fresh_page [OF tree_okD(1) [OF t1(1)] al]
    have pa: "paged a" using fresh(2) by (simp add: page_in_def paged_def)
    have na: "\<not> owned s a" using own [of a] fresh(4) by (auto simp: owned_def)
    have p2: "present (root pd) ?s [get_vpn va 1, get_vpn va 2]" using t1(2) by (simp del: present.simps)
    have l2: "lookup (root pd) va ?s = Some (pte, ?s)" using lookup_present [OF t2 assms(2) p2] unfolding pte by (simp del: tab.simps)
    define e where "e = (set_as_leaf (kva2pa a) (pmem s1 pte))\<lparr>OSflag := Normal\<rparr>"
    have m: "map_va_kva va a Normal pd ?s = Some (on_page_updated pd, put_entry pte e ?s)"
      using l2 False by (simp add: map_va_kva_def Let_def e_def)
    have k: "to_kva (pmem (put_entry pte e ?s) pte) = a"
      using ppn_roundtrip [OF pa] by (simp add: put_entry_def e_def set_as_leaf_def to_kva_def to_pa_def)
    let ?pd = "(on_page_updated pd)\<lparr>active_private_mem := active_private_mem pd + 4096, private_mem_fifo := private_mem_fifo pd @ [va]\<rparr>"
    have "alloc_page_for_va va pd s = Some (a, ?pd, put_entry pte e ?s)"
      using assms(3) l al False m k by (simp add: alloc_page_for_va_def not_le Let_def on_page_updated_def)
    moreover have "sv39 (root pd) s va = None" using sv False by (simp add: leaf_def)
    moreover note map_va_kva_ok [OF t2 assms(2) pa m]
    ultimately show ?thesis using na same assms(2) by (simp add: on_page_updated_def)
  qed
qed

text \<open>
  Pages on demand. For a user address below the bound of the process, with three free pages, \<open>alloc_page_for_va\<close> returns the address of a page to which the hardware walk takes the address
  from then on; a page that was mapped stays, a new one is none that is in use. All other user addresses are translated as before, and the tables form a tree again.
\<close>

theorem alloc_page_on_demand:
  assumes "tree_ok (root pd) s" "user_va va" "va < user_mem_bound pd" "three_pages (heap_of s)"
  shows "\<exists>k pd' s'. alloc_page_for_va va pd s = Some (k, pd', s') \<and> tree_ok (root pd') s' \<and>
    sv39 (root pd') s' va = Some (kva2pa k + take_bit 12 va) \<and> (sv39 (root pd) s va = None \<longrightarrow> \<not> owned s k) \<and>
    (\<forall>va'. user_va va' \<and> (drop_bit 12 va' \<noteq> drop_bit 12 va \<or> sv39 (root pd) s va \<noteq> None) \<longrightarrow> sv39 (root pd') s' va' = sv39 (root pd) s va')"
  by (rule alloc_page_total [OF assms])

section \<open>An address space to start with\<close>

text \<open>A heap from which only single pages were taken, and not too many.\<close>

definition roomy :: "nat \<Rightarrow> heap \<Rightarrow> bool" where
  "roomy n h \<longleftrightarrow> heap_inv h \<and> (\<exists>S. finite S \<and> card S + n < 2 ^ 15 \<and> pool_blocks 16 (kpage h) = insert reserved ((\<lambda>off. (off, 0)) ` S))"

lemma roomy_alloc:
  assumes "roomy (Suc n) h"
  obtains a h' where "kalloc h 4096 = Some (a, h')" "roomy n h'"
proof -
  obtain S where S: "heap_inv h" "finite S" "card S + Suc n < 2 ^ 15" "pool_blocks 16 (kpage h) = insert reserved ((\<lambda>off. (off, 0)) ` S)"
    using assms by (auto simp: roomy_def)
  have wf: "pool_wf 16 (kpage h)" using S(1) by (simp add: heap_inv_def)
  have "card {2 ^ 12 ..< 2 ^ 16 :: nat} > card S" using S(3) by simp
  then obtain x where x: "x \<in> {2 ^ 12 ..< 2 ^ 16}" "x \<notin> S" using card_mono [OF S(2), of "{2 ^ 12 ..< 2 ^ 16}"] by fastforce
  have c: "CeilPower2 4096 = 4096" using CeilPower2_pow2 [of 12] by simp
  have k: "(0::nat) = log2 (if (1::nat) = 0 then 1 else 1)" by (simp add: log2_less_2)
  have "block_range reserved \<inter> block_range (x, 0) = {}" using x(1) by (simp add: reserved_def block_range_def)
  moreover have "block_range (off, 0) \<inter> block_range (x, 0) = {}" if "off \<in> S" for off using that x(2) by (auto simp: block_range_def)
  ultimately have dis: "block_range b \<inter> block_range (x, 0) = {}" if "b \<in> pool_blocks 16 (kpage h)" for b
    using that unfolding S(4) by (elim insertE imageE) simp_all
  have fits: "Suc 0 \<le> longest (kpage h) 0"
    by (rule pool_alloc_complete [OF wf k _ _ dis]) (use x(1) in simp_all)
  obtain off p' where p: "pool_alloc (2 ^ 16) (kpage h) 1 = Some (off, p')" "pool_wf 16 p'" "pool_blocks 16 p' = insert (off, 0) (pool_blocks 16 (kpage h))"
    by (rule pool_alloc_ok [OF wf k fits])
  then have al: "kalloc h 4096 = Some (pa2kva (PAGE_BEGIN + of_nat off * 4096), h\<lparr>kpage := p'\<rparr>)" by (simp add: kalloc_def c allocator_alloc_def unat_div)
  have "roomy n (h\<lparr>kpage := p'\<rparr>)"
    unfolding roomy_def
  proof (intro conjI exI)
    show "heap_inv (h\<lparr>kpage := p'\<rparr>)" using S(1) p(2,3) by (simp add: heap_inv_def)
    show "finite (insert off S)" using S(2) by simp
    show "card (insert off S) + n < 2 ^ 15" using S(2,3) by (simp add: card_insert_if)
    show "pool_blocks 16 (kpage (h\<lparr>kpage := p'\<rparr>)) = insert reserved ((\<lambda>off. (off, 0)) ` insert off S)" using p(3) S(4) by auto
  qed
  with al show thesis by (rule that)
qed

lemma roomy_pages: "roomy 3 h \<Longrightarrow> three_pages h" "roomy 2 h \<Longrightarrow> two_pages h"
proof -
  have r: "\<exists>a h'. kalloc h 4096 = Some (a, h') \<and> roomy n h'" if "roomy (Suc n) h" for n h using roomy_alloc [OF that] by blast
  show "three_pages h" if "roomy 3 h"
  proof -
    obtain a h1 where 1: "kalloc h 4096 = Some (a, h1)" "roomy 2 h1" using r [of 2 h] \<open>roomy 3 h\<close> by auto
    obtain b h2 where 2: "kalloc h1 4096 = Some (b, h2)" "roomy 1 h2" using r [of 1 h1] 1(2) by (auto simp: numeral_2_eq_2)
    obtain d h3 where "kalloc h2 4096 = Some (d, h3)" using r [of 0 h2] 2(2) by auto
    with 1 2 show ?thesis by (simp add: three_pages_def)
  qed
  show "two_pages h" if "roomy 2 h"
  proof -
    obtain a h1 where 1: "kalloc h 4096 = Some (a, h1)" "roomy 1 h1" using r [of 1 h] \<open>roomy 2 h\<close> by (auto simp: numeral_2_eq_2)
    obtain b h2 where "kalloc h1 4096 = Some (b, h2)" using r [of 0 h1] 1(2) by auto
    with 1 show ?thesis by (simp add: two_pages_def)
  qed
qed

lemma roomy_weaken: "roomy n h \<Longrightarrow> m \<le> n \<Longrightarrow> roomy m h"
  by (auto simp: roomy_def)

text \<open>A page as the root, with no user entries.\<close>

lemma first_space:
  obtains r s where "tree_ok r s" "\<forall>va. user_va va \<longrightarrow> sv39 r s va = None" "roomy 3 (heap_of s)"
proof -
  obtain h where h: "init_kernel_heap \<lparr>ksmall = pool4, kpage = pool4\<rparr> = Some h" "heap_inv h" "heap_blocks h = {}" by (rule init_kernel_heap_ok)
  have "pool_blocks 16 (kpage h) = insert reserved ((\<lambda>off. (off, 0)) ` {})" using heap_blocks_emptyD(4) [OF h(2,3)] by simp
  then have "roomy 4 h" unfolding roomy_def using h(2) by (intro conjI exI [of _ "{}"]) simp_all
  then obtain r h1 where r: "kalloc h 4096 = Some (r, h1)" "roomy 3 h1" using roomy_alloc [of 3 h] by auto
  let ?s = "\<lparr>heap_of = h1, pmem = \<lambda>_. zero_entry\<rparr>"
  have e: "ent r ?s p i = zero_entry" for p i by (simp add: ent_def)
  have nd: "\<not> is_dir zero_entry" "absent zero_entry" "\<not> V zero_entry" by (simp_all add: is_dir_def absent_def zero_entry_def)
  have pr: "present r ?s p \<longleftrightarrow> p = []" for p using nd by (cases p) (simp_all add: e)
  have "tree_ok r ?s"
    unfolding tree_ok_def pr using kpages.fresh_page(1,2) [OF h(2) r(1)] nd by (simp add: e owned_def)
  moreover from this have "sv39 r ?s va = None" if "user_va va" for va using sv39_tree [OF _ that, of r ?s] by (simp add: pr del: present.simps)
  ultimately show thesis using that r(2) by simp
qed

definition dir0 :: "u64 \<Rightarrow> page_dir" where
  "dir0 r = \<lparr>root = r, flush_mask = 0, shared_page_start = push_bit 30 128, active_private_mem = 0, private_mem_fifo = [], user_mem_bound = 0x300000\<rparr>"

theorem map_va_kva_translates_witness:
  "\<exists>r s pd' s'. map_va_kva 0x201000 (pa2kva 0x52000000) Shared (dir0 r) s = Some (pd', s') \<and> sv39 (root pd') s' 0x201008 = Some 0x52000008"
proof -
  obtain r s where s: "tree_ok r s" "\<forall>va. user_va va \<longrightarrow> sv39 r s va = None" "roomy 3 (heap_of s)" by (rule first_space)
  have t: "tree_ok (root (dir0 r)) s" "sv39 (root (dir0 r)) s 0x201000 = None" using s(1,2) by (simp_all add: dir0_def)
  have "two_pages (heap_of s)" by (rule roomy_pages(2)) (rule roomy_weaken [OF s(3)], simp)
  moreover have "paged (pa2kva 0x52000000)" by (simp add: paged_def)
  moreover have "drop_bit 12 (0x201008 :: u64) = drop_bit 12 0x201000" "take_bit 12 (0x201008 :: u64) = 8" by code_simp+
  ultimately show ?thesis using map_va_kva_translates [OF t(1) _ _ t(2), of "pa2kva 0x52000000" Shared] by fastforce
qed

theorem alloc_page_on_demand_witness:
  "\<exists>r s k pd' s'. alloc_page_for_va 0x201000 (dir0 r) s = Some (k, pd', s') \<and> sv39 (root pd') s' 0x201000 = Some (kva2pa k)"
proof -
  obtain r s where s: "tree_ok r s" "\<forall>va. user_va va \<longrightarrow> sv39 r s va = None" "roomy 3 (heap_of s)" by (rule first_space)
  have t: "tree_ok (root (dir0 r)) s" "0x201000 < user_mem_bound (dir0 r)" using s(1) by (simp_all add: dir0_def)
  have o: "take_bit 12 (0x201000 :: u64) = 0" by code_simp
  from alloc_page_on_demand [OF t(1) _ t(2) roomy_pages(1) [OF s(3)]] show ?thesis by (fastforce simp: o)
qed

section \<open>Giving memory back\<close>

lemma free_entries_none:
  assumes "\<forall>pte \<in> set ptes. \<not> (V (pmem s pte) \<and> U (pmem s pte))"
  shows "free_entries n ptes s = Some s"
  using assms by (induction ptes) (auto simp: Let_def)

text \<open>
  The memory of a process is not given back. The tables that \<open>lookup\<close> makes are not marked for user access, and \<open>freeUserRecur\<close> only goes down into tables that are: if no valid entry
  of the root is marked, which holds for the kernel's entries too, freeing an address space frees the root page and none of the pages and tables of the process.
\<close>

theorem free_user_frees_root_only:
  assumes "\<forall>i<512. \<not> (V (pmem s (root pd + 8 * of_nat i)) \<and> U (pmem s (root pd + 8 * of_nat i)))"
  shows "free_user_private_mem pd s = do { h \<leftarrow> kfree (heap_of s) (root pd); Some (s\<lparr>heap_of := h\<rparr>) }"
proof -
  have "free_entries 3 (map (\<lambda>i. root pd + 8 * of_nat i) [0..<512]) s = Some s"
    by (rule free_entries_none) (use assms in \<open>auto simp del: upt.simps\<close>)
  then show ?thesis by (simp add: free_user_private_mem_def del: upt.simps free_entries.simps upt_rec_numeral)
qed

theorem free_user_frees_root_only_witness:
  "\<forall>r h. free_user_private_mem (dir0 r) \<lparr>heap_of = h, pmem = \<lambda>_. set_as_dir 0 zero_entry\<rparr> =
   do { h' \<leftarrow> kfree h r; Some \<lparr>heap_of = h', pmem = \<lambda>_. set_as_dir 0 zero_entry\<rparr> }"
proof (intro allI)
  fix r h
  show "free_user_private_mem (dir0 r) \<lparr>heap_of = h, pmem = \<lambda>_. set_as_dir 0 zero_entry\<rparr> =
    do { h' \<leftarrow> kfree h r; Some \<lparr>heap_of = h', pmem = \<lambda>_. set_as_dir 0 zero_entry\<rparr> }"
    using free_user_frees_root_only [of "\<lparr>heap_of = h, pmem = \<lambda>_. set_as_dir 0 zero_entry\<rparr>" "dir0 r"] by (simp add: set_as_dir_def dir0_def)
qed

end
