(* ===== verification/Trie.thy ===== *)
theory Trie
  imports Prelude
begin

text \<open>
  \<open>TrieLookup\<close> of \<open>container.hpp\<close>: a map from \<open>size_t\<close> keys to pointers, kept as a vector of nodes.
  A key is read from its lowest bit until it is 0; a link of 0 is absent. The pointers are values of
  \<open>'v option\<close>, with \<open>None\<close> for the null pointer.
\<close>

section \<open>The code\<close>

record 'v item =
  val :: "'v option"
  ch0 :: nat
  ch1 :: nat

type_synonym 'v trie = "'v item list"

definition empty_item :: "'v item" where
  "empty_item = \<lparr>val = None, ch0 = 0, ch1 = 0\<rparr>"

definition trie_new :: "'v trie" where
  "trie_new = [empty_item]"

definition child :: "'v trie \<Rightarrow> nat \<Rightarrow> bool \<Rightarrow> nat" where
  "child nodes index x = (if x then ch1 (nodes ! index) else ch0 (nodes ! index))"

definition set_child :: "'v trie \<Rightarrow> nat \<Rightarrow> bool \<Rightarrow> nat \<Rightarrow> 'v trie" where
  "set_child nodes index x c =
     nodes[index := (if x then (nodes ! index)\<lparr>ch1 := c\<rparr> else (nodes ! index)\<lparr>ch0 := c\<rparr>)]"

definition set_val :: "'v trie \<Rightarrow> nat \<Rightarrow> 'v option \<Rightarrow> 'v trie" where
  "set_val nodes index v = nodes[index := (nodes ! index)\<lparr>val := v\<rparr>]"

text \<open>The loop of \<open>insert\<close>, which adds the nodes that are missing on the way.\<close>

fun insert_walk :: "'v trie \<Rightarrow> nat \<Rightarrow> nat \<Rightarrow> nat \<times> 'v trie" where
  "insert_walk nodes index key =
     (if key = 0 then (index, nodes)
      else let x = odd key;
               nodes = (if child nodes index x = 0
                        then set_child nodes index x (length nodes) @ [empty_item] else nodes)
           in insert_walk nodes (child nodes index x) (key div 2))"

definition trie_insert :: "'v trie \<Rightarrow> nat \<Rightarrow> 'v \<Rightarrow> (nat \<times> 'v trie) option" where
  "trie_insert nodes key v =
     (let (index, nodes) = insert_walk nodes 0 key
      in do {
        kassert (val (nodes ! index) = None \<or> val (nodes ! index) = Some v);
        let empty = (val (nodes ! index) = None);
        Some (if empty then index else 0, set_val nodes index (Some v))
      })"

text \<open>The loop that \<open>lookup\<close> and \<open>remove\<close> share; \<open>None\<close> is its early return.\<close>

fun find_walk :: "'v trie \<Rightarrow> nat \<Rightarrow> nat \<Rightarrow> nat option" where
  "find_walk nodes index key =
     (if key = 0 then Some index
      else let x = odd key
           in if child nodes index x = 0 then None
              else find_walk nodes (child nodes index x) (key div 2))"

definition trie_lookup :: "'v trie \<Rightarrow> nat \<Rightarrow> 'v option" where
  "trie_lookup nodes key =
     (case find_walk nodes 0 key of None \<Rightarrow> None | Some index \<Rightarrow> val (nodes ! index))"

definition trie_remove :: "'v trie \<Rightarrow> nat \<Rightarrow> bool \<times> 'v trie" where
  "trie_remove nodes key =
     (case find_walk nodes 0 key of None \<Rightarrow> (False, nodes) | Some index \<Rightarrow> (True, set_val nodes index None))"

definition remove_by_idx :: "'v trie \<Rightarrow> nat \<Rightarrow> 'v trie" where
  "remove_by_idx nodes idx = (if idx < length nodes then set_val nodes idx None else nodes)"

definition trie_foreach :: "'v trie \<Rightarrow> ('v \<Rightarrow> 's \<Rightarrow> 's) \<Rightarrow> 's \<Rightarrow> 's" where
  "trie_foreach nodes f s =
     fold (\<lambda>node s. case val node of None \<Rightarrow> s | Some v \<Rightarrow> f v s) nodes s"

declare insert_walk.simps [simp del] find_walk.simps [simp del]

section \<open>Paths\<close>

fun key_bits :: "nat \<Rightarrow> bool list" where
  "key_bits key = (if key = 0 then [] else odd key # key_bits (key div 2))"

declare key_bits.simps [simp del]

fun walk :: "'v trie \<Rightarrow> nat \<Rightarrow> bool list \<Rightarrow> nat option" where
  "walk t i [] = Some i"
| "walk t i (x # xs) = (if child t i x = 0 then None else walk t (child t i x) xs)"

text \<open>Links go to later nodes, and no two of them to the same node: the nodes form a tree.\<close>

definition links_ok :: "'v trie \<Rightarrow> bool" where
  "links_ok t \<longleftrightarrow> t \<noteq> [] \<and>
     (\<forall>i<length t. \<forall>x. child t i x \<noteq> 0 \<longrightarrow> i < child t i x \<and> child t i x < length t) \<and>
     (\<forall>i<length t. \<forall>j<length t. \<forall>x y. child t i x = child t j y \<and> child t i x \<noteq> 0 \<longrightarrow> i = j \<and> x = y)"

text \<open>Only nodes at the end of a key hold a value.\<close>

definition trie_wf :: "'v trie \<Rightarrow> bool" where
  "trie_wf t \<longleftrightarrow> links_ok t \<and> (\<forall>i<length t. val (t ! i) \<noteq> None \<longrightarrow> (\<exists>k. find_walk t 0 k = Some i))"

lemma links_okD:
  assumes "links_ok t" "i < length t" "child t i x \<noteq> 0"
  shows "i < child t i x" "child t i x < length t"
  using assms unfolding links_ok_def by blast+

lemma links_ok_inj:
  assumes "links_ok t" "i < length t" "j < length t" "child t i x = child t j y" "child t i x \<noteq> 0"
  shows "i = j \<and> x = y"
  using assms unfolding links_ok_def by blast

lemma key_bits_0 [simp]: "key_bits 0 = []"
  by (simp add: key_bits.simps)

lemma key_bits_pos: "0 < k \<Longrightarrow> key_bits k = odd k # key_bits (k div 2)"
  by (subst key_bits.simps) simp

lemma key_bits_inject: "key_bits k = key_bits k' \<longleftrightarrow> k = k'"
proof
  show "key_bits k = key_bits k' \<Longrightarrow> k = k'"
  proof (induction k arbitrary: k' rule: less_induct)
    case (less k)
    show ?case
    proof (cases "k = 0 \<or> k' = 0")
      case True
      with less.prems show ?thesis by (cases "k = 0"; cases "k' = 0") (simp_all add: key_bits_pos)
    next
      case False
      with less.prems have "odd k = odd k'" "key_bits (k div 2) = key_bits (k' div 2)"
        by (simp_all add: key_bits_pos)
      moreover from this(2) less.IH [of "k div 2" "k' div 2"] False have "k div 2 = k' div 2" by simp
      ultimately show ?thesis by presburger
    qed
  qed
qed simp

lemma find_walk_eq: "find_walk t i k = walk t i (key_bits k)"
proof (induction k arbitrary: i rule: less_induct)
  case (less k)
  then show ?case by (subst find_walk.simps) (simp add: key_bits_pos Let_def)
qed

lemma find_walk_0 [simp]: "find_walk t i 0 = Some i"
  by (simp add: find_walk_eq)

lemma walk_append: "walk t i (xs @ ys) = (case walk t i xs of None \<Rightarrow> None | Some j \<Rightarrow> walk t j ys)"
  by (induction xs arbitrary: i) auto

lemma walk_bound: "links_ok t \<Longrightarrow> i < length t \<Longrightarrow> walk t i xs = Some j \<Longrightarrow> i \<le> j \<and> j < length t"
proof (induction xs arbitrary: i)
  case (Cons x xs)
  then have c: "child t i x \<noteq> 0" "walk t (child t i x) xs = Some j" by (auto split: if_splits)
  from links_okD [OF Cons.prems(1,2) c(1)] Cons.IH [OF Cons.prems(1) _ c(2)] show ?case by simp
qed simp

lemma walk_snoc:
  assumes "links_ok t" "walk t 0 (xs @ [x]) = Some j"
  obtains i where "walk t 0 xs = Some i" "i < length t" "child t i x = j" "j \<noteq> 0"
proof -
  from assms(2) obtain i where i: "walk t 0 xs = Some i" "child t i x = j" "j \<noteq> 0"
    by (auto simp: walk_append split: option.splits if_splits)
  have "0 < length t" using assms(1) by (auto simp: links_ok_def)
  from walk_bound [OF assms(1) this i(1)] that i show thesis by blast
qed

lemma walk_inject:
  "links_ok t \<Longrightarrow> walk t 0 xs = Some j \<Longrightarrow> walk t 0 ys = Some j \<Longrightarrow> xs = ys"
proof (induction xs arbitrary: ys j rule: rev_induct)
  case Nil
  then show ?case by (cases ys rule: rev_cases) (auto elim: walk_snoc)
next
  case (snoc x xs)
  obtain i where i: "walk t 0 xs = Some i" "i < length t" "child t i x = j" "j \<noteq> 0"
    by (rule walk_snoc [OF snoc.prems(1,2)])
  show ?case
  proof (cases ys rule: rev_cases)
    case Nil
    with snoc.prems(3) i(4) show ?thesis by simp
  next
    case (snoc ys' y)
    obtain i' where i': "walk t 0 ys' = Some i'" "i' < length t" "child t i' y = j"
      by (rule walk_snoc [OF \<open>links_ok t\<close> \<open>walk t 0 ys = Some j\<close> [unfolded snoc]])
    have "i = i' \<and> x = y" using links_ok_inj [OF \<open>links_ok t\<close> i(2) i'(2), of x y] i(3,4) i'(3) by simp
    with snoc.IH [OF \<open>links_ok t\<close> i(1)] i'(1) snoc show ?thesis by simp
  qed
qed

lemma find_inject: "links_ok t \<Longrightarrow> find_walk t 0 k = Some j \<Longrightarrow> find_walk t 0 k' = Some j \<Longrightarrow> k = k'"
  using walk_inject by (metis find_walk_eq key_bits_inject)

section \<open>Growth of the trie\<close>

text \<open>What the walk of \<open>insert\<close> does to the nodes: absent links may now go to new, empty nodes.\<close>

definition extends :: "'v trie \<Rightarrow> 'v trie \<Rightarrow> bool" where
  "extends t t' \<longleftrightarrow> length t \<le> length t' \<and>
     (\<forall>m<length t. val (t' ! m) = val (t ! m) \<and>
        (\<forall>x. child t' m x = child t m x \<or> child t m x = 0 \<and> length t \<le> child t' m x)) \<and>
     (\<forall>m<length t'. length t \<le> m \<longrightarrow> val (t' ! m) = None)"

lemma extends_refl [simp]: "extends t t"
  by (simp add: extends_def)

lemma extendsD:
  assumes "extends t t'"
  shows "length t \<le> length t'" "m < length t \<Longrightarrow> val (t' ! m) = val (t ! m)"
    "m < length t \<Longrightarrow> child t m x \<noteq> 0 \<Longrightarrow> child t' m x = child t m x"
    "m < length t \<Longrightarrow> child t m x = 0 \<Longrightarrow> child t' m x \<noteq> 0 \<Longrightarrow> length t \<le> child t' m x"
    "m < length t' \<Longrightarrow> length t \<le> m \<Longrightarrow> val (t' ! m) = None"
proof -
  have c: "child t' m x = child t m x \<or> child t m x = 0 \<and> length t \<le> child t' m x" if "m < length t" for m x
    using assms that unfolding extends_def by blast
  show "length t \<le> length t'" "m < length t \<Longrightarrow> val (t' ! m) = val (t ! m)"
    "m < length t' \<Longrightarrow> length t \<le> m \<Longrightarrow> val (t' ! m) = None"
    using assms by (simp_all add: extends_def)
  show "m < length t \<Longrightarrow> child t m x \<noteq> 0 \<Longrightarrow> child t' m x = child t m x"
    "m < length t \<Longrightarrow> child t m x = 0 \<Longrightarrow> child t' m x \<noteq> 0 \<Longrightarrow> length t \<le> child t' m x"
    using c [of m x] by auto
qed

lemma extends_trans:
  assumes e: "extends t t'" "extends t' t''"
  shows "extends t t''"
  unfolding extends_def
proof (intro conjI allI impI)
  show le: "length t \<le> length t''" using extendsD(1) [OF e(1)] extendsD(1) [OF e(2)] by simp
  fix m
  { assume m: "m < length t"
    then have m': "m < length t'" using extendsD(1) [OF e(1)] by simp
    show "val (t'' ! m) = val (t ! m)" using extendsD(2) [OF e(1) m] extendsD(2) [OF e(2) m'] by simp
    fix x
    show "child t'' m x = child t m x \<or> child t m x = 0 \<and> length t \<le> child t'' m x"
      using extendsD(3,4) [OF e(1) m, of x] extendsD(3,4) [OF e(2) m', of x] extendsD(1) [OF e(1)]
      by (cases "child t m x = 0"; cases "child t' m x = 0"; cases "child t'' m x = 0") auto }
  assume "m < length t''" "length t \<le> m"
  then show "val (t'' ! m) = None"
    using extendsD(2,5) [OF e(2), of m] extendsD(5) [OF e(1), of m] by (cases "m < length t'") auto
qed

lemma extends_walk:
  assumes e: "extends t t'" and l: "links_ok t"
  shows "m < length t \<Longrightarrow> walk t m bs = Some j \<Longrightarrow> walk t' m bs = Some j"
proof (induction bs arbitrary: m)
  case (Cons x bs)
  from Cons.prems(2) have c: "child t m x \<noteq> 0" "walk t (child t m x) bs = Some j" by (auto split: if_splits)
  have "child t' m x = child t m x" by (rule extendsD(3) [OF e Cons.prems(1) c(1)])
  with c Cons.IH [OF links_okD(2) [OF l Cons.prems(1) c(1)] c(2)] show ?case by simp
qed simp

lemma extends_walk_new:
  assumes e: "extends t t'" and l: "links_ok t" "links_ok t'"
  shows "m < length t \<Longrightarrow> walk t m bs = None \<Longrightarrow> walk t' m bs = Some j \<Longrightarrow> length t \<le> j"
proof (induction bs arbitrary: m)
  case (Cons x bs)
  from Cons.prems(3) have c: "child t' m x \<noteq> 0" "walk t' (child t' m x) bs = Some j" by (auto split: if_splits)
  have m: "m < length t'" using Cons.prems(1) e by (simp add: extends_def)
  show ?case
  proof (cases "child t m x = 0")
    case True
    have "length t \<le> child t' m x" by (rule extendsD(4) [OF e Cons.prems(1) True c(1)])
    with walk_bound [OF l(2) links_okD(2) [OF l(2) m c(1)] c(2)] show ?thesis by simp
  next
    case False
    have eq: "child t' m x = child t m x" by (rule extendsD(3) [OF e Cons.prems(1) False])
    show ?thesis
      by (rule Cons.IH [OF links_okD(2) [OF l(1) Cons.prems(1) False]]) (use False Cons.prems(2) c(2) eq in simp_all)
  qed
qed simp

lemma child_snoc:
  assumes "i < length t" and "t' = set_child t i x (length t) @ [empty_item]"
  shows "length t' = Suc (length t)"
    and "m < length t \<Longrightarrow> child t' m y = (if m = i \<and> y = x then length t else child t m y)"
    and "child t' (length t) y = 0" "val (t' ! length t) = None"
    and "m < length t \<Longrightarrow> val (t' ! m) = val (t ! m)"
  using assms by (auto simp: child_def set_child_def nth_append nth_list_update empty_item_def)

lemma links_ok_snoc:
  assumes l: "links_ok t" and i: "i < length t" and z: "child t i x = 0"
  shows "links_ok (set_child t i x (length t) @ [empty_item]) \<and> extends t (set_child t i x (length t) @ [empty_item])"
proof -
  let ?t = "set_child t i x (length t) @ [empty_item]"
  note c = child_snoc [OF i refl [of ?t]]
  have old: "m < length t \<Longrightarrow> child ?t m y \<noteq> 0 \<Longrightarrow> child ?t m y = (if m = i \<and> y = x then length t else child t m y) \<and>
      (child t m y \<noteq> 0 \<longrightarrow> child t m y < length t)" for m y
    using c(2) links_okD(2) [OF l] by metis
  have "child ?t a y = child ?t b z \<and> child ?t a y \<noteq> 0 \<longrightarrow> a = b \<and> y = z"
    if "a < length ?t" "b < length ?t" for a b y z
    using that c(1,3) old [of a y] old [of b z] links_ok_inj [OF l, of a b y z]
    by (cases "a = length t"; cases "b = length t") (auto split: if_splits)
  moreover have "child ?t a y \<noteq> 0 \<longrightarrow> a < child ?t a y \<and> child ?t a y < length ?t" if "a < length ?t" for a y
    using that c(1,3) old [of a y] links_okD [OF l, of a y] by (cases "a = length t") (auto split: if_splits)
  ultimately have "links_ok ?t" unfolding links_ok_def by simp
  moreover have "extends t ?t"
    unfolding extends_def using c z i by (auto simp: less_Suc_eq)
  ultimately show ?thesis ..
qed

lemma insert_walk_ok:
  "links_ok t \<Longrightarrow> i < length t \<Longrightarrow> insert_walk t i k = (j, t') \<Longrightarrow>
     links_ok t' \<and> extends t t' \<and> find_walk t' i k = Some j"
proof (induction k arbitrary: t i rule: less_induct)
  case (less k)
  show ?case
  proof (cases "k = 0")
    case True
    with less.prems show ?thesis by (simp add: insert_walk.simps find_walk.simps)
  next
    case False
    define u where "u = (if child t i (odd k) = 0 then set_child t i (odd k) (length t) @ [empty_item] else t)"
    have u: "links_ok u \<and> extends t u"
      using links_ok_snoc [OF less.prems(1,2)] less.prems(1) by (simp add: u_def)
    have cu: "child u i (odd k) \<noteq> 0"
    proof (cases "child t i (odd k) = 0")
      case True
      then show ?thesis using child_snoc(2) [OF less.prems(2) refl less.prems(2), of "odd k" "odd k"] less.prems(2) by (auto simp: u_def)
    qed (simp add: u_def)
    have iu: "i < length u" using u less.prems(2) by (simp add: extends_def)
    have rec: "insert_walk u (child u i (odd k)) (k div 2) = (j, t')"
      using less.prems(3) False by (subst (asm) insert_walk.simps) (simp add: Let_def flip: u_def)
    have "k div 2 < k" using False by simp
    from less.IH [OF this _ links_okD(2) [OF _ iu cu] rec] u
    have r: "links_ok t'" "extends u t'" "find_walk t' (child u i (odd k)) (k div 2) = Some j" by auto
    have "child t' i (odd k) = child u i (odd k)" by (rule extendsD(3) [OF r(2) iu cu])
    then have "find_walk t' i k = Some j" using r(3) cu False by (subst find_walk.simps) (simp add: Let_def)
    with r extends_trans u show ?thesis by blast
  qed
qed

section \<open>The laws of the map\<close>

lemma set_val_simps [simp]:
  "length (set_val t i v) = length t"
  "child (set_val t i v) m x = child t m x"
  "walk (set_val t i v) m bs = walk t m bs"
  "find_walk (set_val t i v) m k = find_walk t m k"
proof -
  show 1: "child (set_val t i v) m x = child t m x" for m x
    by (cases "i < length t"; cases "m = i") (simp_all add: child_def set_val_def list_update_beyond)
  show 2: "walk (set_val t i v) m bs = walk t m bs" for bs
    by (induction bs arbitrary: m) (simp_all add: 1)
  then show "find_walk (set_val t i v) m k = find_walk t m k" by (simp add: find_walk_eq)
qed (simp add: set_val_def)

lemma links_ok_set_val [simp]: "links_ok (set_val t i v) = links_ok t"
proof -
  have "set_val t i v = [] \<longleftrightarrow> t = []" by (simp add: set_val_def)
  then show ?thesis by (simp add: links_ok_def)
qed

lemma val_set_val: "m < length t \<Longrightarrow> val (set_val t i v ! m) = (if m = i then v else val (t ! m))"
  by (simp add: set_val_def nth_list_update)

lemma find_bound: "links_ok t \<Longrightarrow> find_walk t 0 k = Some j \<Longrightarrow> j < length t"
  using walk_bound [of t 0 "key_bits k" j] by (auto simp: find_walk_eq links_ok_def)

lemma lookup_set_val:
  assumes "links_ok t" "find_walk t 0 k = Some j"
  shows "trie_lookup (set_val t j v) = (trie_lookup t)(k := v)"
proof
  fix k'
  show "trie_lookup (set_val t j v) k' = ((trie_lookup t)(k := v)) k'"
  proof (cases "find_walk t 0 k'")
    case None
    with assms(2) show ?thesis by (auto simp: trie_lookup_def)
  next
    case (Some i)
    have "i = j \<longleftrightarrow> k' = k" using Some assms(2) find_inject [OF assms(1), of k j k'] by auto
    with Some find_bound [OF assms(1) Some] show ?thesis by (simp add: trie_lookup_def val_set_val)
  qed
qed

lemma trie_wf_set_val:
  "trie_wf t \<Longrightarrow> v = None \<or> (\<exists>k. find_walk t 0 k = Some j) \<Longrightarrow> trie_wf (set_val t j v)"
  unfolding trie_wf_def by (auto simp: val_set_val split: if_splits)

lemma extends_lookup:
  assumes "links_ok t" "links_ok t'" "extends t t'"
  shows "trie_lookup t' = trie_lookup t"
proof
  fix k
  have z: "0 < length t" using assms(1) by (simp add: links_ok_def)
  show "trie_lookup t' k = trie_lookup t k"
  proof (cases "find_walk t 0 k")
    case None
    show ?thesis
    proof (cases "find_walk t' 0 k")
      case (Some j)
      with None extends_walk_new [OF assms(3,1,2) z] have "length t \<le> j" by (auto simp: find_walk_eq)
      with assms(3) find_bound [OF assms(2) Some] None Some show ?thesis by (auto simp: trie_lookup_def extends_def)
    qed (use None in \<open>simp add: trie_lookup_def\<close>)
  next
    case (Some j)
    then have "find_walk t' 0 k = Some j" using extends_walk [OF assms(3,1) z] by (simp add: find_walk_eq)
    with Some find_bound [OF assms(1) Some] assms(3) show ?thesis by (simp add: trie_lookup_def extends_def)
  qed
qed

lemma extends_wf:
  assumes "trie_wf t" "links_ok t'" "extends t t'"
  shows "trie_wf t'"
  unfolding trie_wf_def
proof (intro conjI allI impI)
  fix i assume i: "i < length t'" "val (t' ! i) \<noteq> None"
  with assms(3) have "i < length t" "val (t ! i) \<noteq> None" unfolding extends_def by (metis not_le)+
  with assms(1) obtain k where "find_walk t 0 k = Some i" by (auto simp: trie_wf_def)
  with extends_walk [OF assms(3)] assms(1) show "\<exists>k. find_walk t' 0 k = Some i"
    by (metis find_walk_eq links_ok_def length_greater_0_conv trie_wf_def)
qed (use assms in simp)

lemma trie_insert_ok:
  assumes wf: "trie_wf t" and free: "trie_lookup t k = None \<or> trie_lookup t k = Some v"
  obtains j t' where "trie_insert t k v = Some (if trie_lookup t k = None then j else 0, t')" "trie_wf t'"
    "trie_lookup t' = (trie_lookup t)(k \<mapsto> v)" "find_walk t' 0 k = Some j"
    "\<And>k' i. find_walk t 0 k' = Some i \<Longrightarrow> find_walk t' 0 k' = Some i"
proof -
  have l: "links_ok t" using wf by (simp add: trie_wf_def)
  then have z: "0 < length t" by (simp add: links_ok_def)
  obtain j u where u: "insert_walk t 0 k = (j, u)" by fastforce
  from insert_walk_ok [OF l z u] have e: "links_ok u" "extends t u" "find_walk u 0 k = Some j" by auto
  have v: "val (u ! j) = trie_lookup t k"
    using extends_lookup [OF l e(1,2)] e(3) by (metis option.case(2) trie_lookup_def)
  have i: "trie_insert t k v = Some (if trie_lookup t k = None then j else 0, set_val u j (Some v))"
    using free by (auto simp: trie_insert_def u v)
  have m: "find_walk (set_val u j (Some v)) 0 k' = Some i'" if "find_walk t 0 k' = Some i'" for k' i'
    using that extends_walk [OF e(2) l z] by (simp add: find_walk_eq)
  show thesis
    by (rule that [OF i _ _ _ m])
      (use e extends_wf [OF wf e(1,2)] lookup_set_val [OF e(1,3)] extends_lookup [OF l e(1,2)] in
        \<open>auto intro: trie_wf_set_val\<close>)
qed

lemma trie_insert_clash:
  assumes wf: "trie_wf t" and clash: "trie_lookup t k = Some w" "w \<noteq> v"
  shows "trie_insert t k v = None"
proof -
  have l: "links_ok t" using wf by (simp add: trie_wf_def)
  then have z: "0 < length t" by (simp add: links_ok_def)
  obtain j u where u: "insert_walk t 0 k = (j, u)" by fastforce
  from insert_walk_ok [OF l z u] have e: "links_ok u" "extends t u" "find_walk u 0 k = Some j" by auto
  have v: "val (u ! j) = trie_lookup t k"
    using extends_lookup [OF l e(1,2)] e(3) by (metis option.case(2) trie_lookup_def)
  then show ?thesis using clash by (simp add: trie_insert_def u)
qed

lemma trie_remove_ok:
  assumes wf: "trie_wf t" and r: "trie_remove t k = (b, t')"
  shows "trie_wf t'" "trie_lookup t' = (trie_lookup t)(k := None)" "trie_lookup t k \<noteq> None \<Longrightarrow> b"
proof -
  have l: "links_ok t" using wf by (simp add: trie_wf_def)
  have "trie_wf t' \<and> trie_lookup t' = (trie_lookup t)(k := None) \<and> (trie_lookup t k \<noteq> None \<longrightarrow> b)"
  proof (cases "find_walk t 0 k")
    case None
    with r have "t' = t" "trie_lookup t k = None" by (simp_all add: trie_remove_def trie_lookup_def)
    with wf show ?thesis by (simp add: fun_upd_idem)
  next
    case (Some j)
    with r have "b" "t' = set_val t j None" by (simp_all add: trie_remove_def)
    with lookup_set_val [OF l Some] trie_wf_set_val [OF wf] show ?thesis by simp
  qed
  then show "trie_wf t'" "trie_lookup t' = (trie_lookup t)(k := None)" "trie_lookup t k \<noteq> None \<Longrightarrow> b" by simp_all
qed

lemma trie_new_ok: "trie_wf (trie_new :: 'v trie)" "trie_lookup (trie_new :: 'v trie) = Map.empty"
proof -
  let ?t = "trie_new :: 'v trie"
  have c: "child ?t 0 x = 0" for x by (simp add: child_def trie_new_def empty_item_def)
  have n: "length ?t = 1" "?t \<noteq> []" "val (?t ! 0) = None" by (simp_all add: trie_new_def empty_item_def)
  show "trie_wf ?t" by (simp add: trie_wf_def links_ok_def n c)
  have "find_walk ?t 0 k = (if k = 0 then Some 0 else None)" for k by (subst find_walk.simps) (simp add: c)
  then show "trie_lookup ?t = Map.empty" by (simp add: trie_lookup_def fun_eq_iff n)
qed

text \<open>A pass over the nodes meets every key's value once.\<close>

definition trie_vals :: "'v trie \<Rightarrow> 'v list" where
  "trie_vals t = List.map_filter val t"

lemma set_map_filter: "set (List.map_filter f xs) = {v. \<exists>x\<in>set xs. f x = Some v}"
  by (induction xs) (auto simp: List.map_filter_simps split: option.splits)

lemma trie_foreach_vals: "trie_foreach t f s = fold f (trie_vals t) s"
  unfolding trie_foreach_def trie_vals_def by (induction t arbitrary: s) (auto simp: List.map_filter_simps split: option.splits)

lemma trie_vals_set: "trie_wf t \<Longrightarrow> set (trie_vals t) = ran (trie_lookup t)"
proof -
  assume wf: "trie_wf t"
  have l: "links_ok t" using wf by (simp add: trie_wf_def)
  have "v \<in> set (trie_vals t) \<longleftrightarrow> (\<exists>i<length t. val (t ! i) = Some v)" for v
    unfolding trie_vals_def set_map_filter by (auto simp: in_set_conv_nth Bex_def)
  moreover have "(\<exists>i<length t. val (t ! i) = Some v) \<longleftrightarrow> v \<in> ran (trie_lookup t)" for v
  proof
    assume "\<exists>i<length t. val (t ! i) = Some v"
    then obtain i where i: "i < length t" "val (t ! i) = Some v" by blast
    with wf obtain k where "find_walk t 0 k = Some i" unfolding trie_wf_def by blast
    then have "trie_lookup t k = Some v" using i by (simp add: trie_lookup_def)
    then show "v \<in> ran (trie_lookup t)" by (auto simp: ran_def)
  next
    assume "v \<in> ran (trie_lookup t)"
    then obtain k where "trie_lookup t k = Some v" by (auto simp: ran_def)
    then show "\<exists>i<length t. val (t ! i) = Some v"
      using find_bound [OF l, of k] by (auto simp: trie_lookup_def split: option.splits)
  qed
  ultimately show ?thesis by blast
qed

text \<open>If no value has two keys, the pass meets no value twice.\<close>

lemma trie_vals_distinct:
  assumes wf: "trie_wf t" and inj: "\<And>k k' v. trie_lookup t k = Some v \<Longrightarrow> trie_lookup t k' = Some v \<Longrightarrow> k = k'"
  shows "distinct (trie_vals t)"
proof -
  have key: "\<exists>k. find_walk t 0 k = Some i \<and> trie_lookup t k = Some v" if "i < length t" "val (t ! i) = Some v" for i v
  proof -
    from wf that obtain k where "find_walk t 0 k = Some i" unfolding trie_wf_def by blast
    with that show ?thesis by (auto simp: trie_lookup_def)
  qed
  have once: "i = j" if "i < length t" "j < length t" "val (t ! i) = Some v" "val (t ! j) = Some v" for i j v
    using key [OF that(1,3)] key [OF that(2,4)] inj by (metis option.inject)
  have "distinct (List.map_filter val (map (\<lambda>i. t ! i) is))" if "distinct is" "set is \<subseteq> {..< length t}" for "is"
    using that
  proof (induction "is")
    case (Cons i "is")
    then have IH: "distinct (List.map_filter val (map (\<lambda>i. t ! i) is))" and i: "i < length t" "i \<notin> set is"
      "set is \<subseteq> {..< length t}" by auto
    show ?case
    proof (cases "val (t ! i)")
      case (Some v)
      have "v \<notin> set (List.map_filter val (map (\<lambda>i. t ! i) is))"
      proof
        assume "v \<in> set (List.map_filter val (map (\<lambda>i. t ! i) is))"
        then obtain j where j: "j \<in> set is" "val (t ! j) = Some v" unfolding set_map_filter by auto
        then have "j < length t" using i(3) by auto
        from once [OF i(1) this Some j(2)] j(1) i(2) show False by simp
      qed
      with IH Some show ?thesis by (simp add: List.map_filter_simps)
    qed (use IH in \<open>simp add: List.map_filter_simps\<close>)
  qed (simp add: List.map_filter_simps)
  from this [of "[0 ..< length t]"] show ?thesis by (simp add: trie_vals_def map_nth atLeast0LessThan)
qed

section \<open>The interface\<close>

text \<open>
  What the clients rely on: a partial map whose \<open>insert\<close> refuses to replace another value, and
  tells a new key from an old one by a result that is not 0. The key 0 is the exception: its node is
  the root, with index 0.
\<close>

locale key_map =
  fixes inv :: "'t \<Rightarrow> bool"
    and lookup :: "'t \<Rightarrow> nat \<Rightarrow> 'v option"
    and insert :: "'t \<Rightarrow> nat \<Rightarrow> 'v \<Rightarrow> (nat \<times> 't) option"
    and remove :: "'t \<Rightarrow> nat \<Rightarrow> bool \<times> 't"
    and vals :: "'t \<Rightarrow> 'v list"
  assumes insert_new: "inv t \<Longrightarrow> lookup t k = None \<Longrightarrow>
      \<exists>i t'. insert t k v = Some (i, t') \<and> inv t' \<and> lookup t' = (lookup t)(k \<mapsto> v) \<and> (i = 0 \<longleftrightarrow> k = 0)"
    and insert_old: "inv t \<Longrightarrow> lookup t k = Some v \<Longrightarrow>
      \<exists>t'. insert t k v = Some (0, t') \<and> inv t' \<and> lookup t' = lookup t"
    and insert_other: "inv t \<Longrightarrow> lookup t k = Some w \<Longrightarrow> w \<noteq> v \<Longrightarrow> insert t k v = None"
    and remove_inv: "inv t \<Longrightarrow> remove t k = (b, t') \<Longrightarrow> inv t'"
    and lookup_remove: "inv t \<Longrightarrow> remove t k = (b, t') \<Longrightarrow> lookup t' = (lookup t)(k := None)"
    and remove_found: "inv t \<Longrightarrow> lookup t k \<noteq> None \<Longrightarrow> fst (remove t k)"
    and vals_ran: "inv t \<Longrightarrow> set (vals t) = ran (lookup t)"
    and vals_once: "inv t \<Longrightarrow> (\<And>k k' v. lookup t k = Some v \<Longrightarrow> lookup t k' = Some v \<Longrightarrow> k = k') \<Longrightarrow> distinct (vals t)"
begin

lemma insert_lookup:
  assumes "inv t" "insert t k v = Some (i, t')"
  shows "inv t'" "lookup t' = (lookup t)(k \<mapsto> v)" "lookup t k = None \<or> lookup t k = Some v"
proof -
  have old: "lookup t k = None \<or> lookup t k = Some v"
    using insert_other [OF assms(1), of k _ v] assms(2) by (cases "lookup t k") auto
  then have "inv t' \<and> lookup t' = (lookup t)(k \<mapsto> v)"
    using insert_new [OF assms(1), of k v] insert_old [OF assms(1), of k v] assms(2)
    by (auto simp: fun_upd_idem)
  with old show "inv t'" "lookup t' = (lookup t)(k \<mapsto> v)" "lookup t k = None \<or> lookup t k = Some v" by simp_all
qed

lemma insert_index:
  assumes "inv t" "insert t k v = Some (i, t')" "k \<noteq> 0"
  shows "i = 0 \<longleftrightarrow> lookup t k = Some v"
  using insert_lookup(3) [OF assms(1,2)] insert_new [OF assms(1), of k v] insert_old [OF assms(1), of k v] assms(2,3)
  by auto

text \<open>A key that was inserted and removed again is as if it had never been there.\<close>

lemma insert_remove:
  assumes "inv t" "lookup t k = None" "insert t k v = Some (i, t')" "remove t' k = (b, t'')"
  shows "b" "lookup t'' = lookup t"
proof -
  note i = insert_lookup [OF assms(1,3)]
  have "lookup t' k \<noteq> None" by (simp add: i(2))
  from remove_found [OF i(1) this] assms(4) show "b" by simp
  show "lookup t'' = lookup t" using lookup_remove [OF i(1) assms(4)] i(2) assms(2) by (simp add: fun_upd_idem)
qed

end

lemma find_root: "links_ok t \<Longrightarrow> find_walk t 0 k = Some 0 \<longleftrightarrow> k = 0"
  using find_inject [of t k 0 0] by auto

interpretation trie: key_map trie_wf trie_lookup trie_insert trie_remove trie_vals
proof (unfold_locales, goal_cases)
  case (1 t k v)
  obtain j t' where r: "trie_insert t k v = Some (if trie_lookup t k = None then j else 0, t')" "trie_wf t'"
    "trie_lookup t' = (trie_lookup t)(k \<mapsto> v)" "find_walk t' 0 k = Some j"
    by (rule trie_insert_ok [OF 1(1) disjI1 [OF 1(2)], of v]) (rule that)
  have "j = 0 \<longleftrightarrow> k = 0" using r(2,4) find_root [of t' k] by (auto simp: trie_wf_def)
  with r 1(2) show ?case by auto
next
  case (2 t k v)
  obtain j t' where r: "trie_insert t k v = Some (if trie_lookup t k = None then j else 0, t')" "trie_wf t'"
    "trie_lookup t' = (trie_lookup t)(k \<mapsto> v)"
    by (rule trie_insert_ok [OF 2(1) disjI2 [OF 2(2)]]) (rule that)
  with 2(2) show ?case by (auto simp: fun_upd_idem)
next
  case (6 t k)
  then show ?case using trie_remove_ok(3) [OF 6(1)] by (cases "trie_remove t k") auto
qed (auto intro: trie_insert_clash trie_remove_ok(1,2) trie_vals_distinct simp: trie_vals_set)

section \<open>Properties\<close>

text \<open>
  C17: \<open>TrieLookup\<close> is a partial map. On a well-formed trie \<open>insert\<close> of a key that is free or holds
  the same pointer succeeds and changes the map at that key alone; its result is 0 exactly when the
  key was there already or is 0: a new key 0 gives 0, too, since its node is the root, whereas the comment on \<open>insert\<close> says that 0 means that the key exists. \<open>insert\<close> of another pointer fails the assertion.
\<close>

theorem trie_insert_correct:
  assumes "trie_wf t"
  shows "case trie_insert t k v of
      None \<Rightarrow> trie_lookup t k \<noteq> None \<and> trie_lookup t k \<noteq> Some v
    | Some (i, t') \<Rightarrow> (trie_lookup t k = None \<or> trie_lookup t k = Some v) \<and> trie_wf t' \<and>
        trie_lookup t' = (trie_lookup t)(k \<mapsto> v) \<and> (i = 0 \<longleftrightarrow> k = 0 \<or> trie_lookup t k = Some v)"
proof (cases "trie_insert t k v")
  case None
  then show ?thesis using trie.insert_new [OF assms, of k v] trie.insert_old [OF assms, of k v] by auto
next
  case (Some r)
  obtain i t' where r: "r = (i, t')" by (cases r)
  note s = Some [unfolded r]
  have "i = 0 \<longleftrightarrow> k = 0 \<or> trie_lookup t k = Some v"
    using trie.insert_lookup(3) [OF assms s] trie.insert_new [OF assms, of k v] trie.insert_old [OF assms, of k v] s
    by auto
  with trie.insert_lookup [OF assms s] s show ?thesis by simp
qed

theorem trie_insert_correct_witness:
  "case trie_insert (trie_new :: nat trie) 6 7 of None \<Rightarrow> False
   | Some (i, t') \<Rightarrow> trie_lookup t' = [6 \<mapsto> 7] \<and> i \<noteq> 0"
  using trie_insert_correct [OF trie_new_ok(1), of 6 "7::nat"] trie_new_ok(2) [where ?'v = nat]
  by (auto split: option.splits)

text \<open>
  \<open>remove\<close> clears exactly its key and keeps the trie well-formed, and \<open>foreach\<close> visits exactly
  the pointers that some key maps to.
\<close>

theorem trie_remove_foreach:
  assumes "trie_wf t" "trie_remove t k = (b, t')"
  shows "trie_wf t' \<and> trie_lookup t' = (trie_lookup t)(k := None) \<and>
    (trie_lookup t k \<noteq> None \<longrightarrow> b) \<and> trie_foreach t' (\<lambda>v S. insert v S) {} = ran ((trie_lookup t)(k := None))"
proof -
  have "trie_foreach t' (\<lambda>v S. insert v S) {} = set (trie_vals t')"
    using union_set_fold [of "trie_vals t'" "{}"] by (simp add: trie_foreach_vals)
  with trie_remove_ok [OF assms] trie.vals_ran [of t'] show ?thesis by auto
qed

theorem trie_remove_foreach_witness:
  "trie_foreach (snd (trie_remove (trie_new :: nat trie) 5)) (\<lambda>v S. insert v S) {} = {}"
proof -
  obtain b t' where "trie_remove (trie_new :: nat trie) 5 = (b, t')" by fastforce
  from trie_remove_foreach [OF trie_new_ok(1) this] this show ?thesis
    by (simp add: trie_new_ok(2))
qed

text \<open>
  A second \<open>remove\<close> of a key still reports success, although the key is not found: the result
  tells whether the nodes of the key exist, not whether it has a value.
\<close>

theorem trie_remove_twice:
  assumes "trie_wf t" "trie_lookup t k \<noteq> None" "trie_remove t k = (b, t')"
  shows "trie_lookup t' k = None \<and> fst (trie_remove t' k)"
proof -
  obtain j where j: "find_walk t 0 k = Some j" using assms(2) by (auto simp: trie_lookup_def split: option.splits)
  then have "t' = set_val t j None" using assms(3) by (simp add: trie_remove_def)
  with j trie_remove_ok(2) [OF assms(1,3)] show ?thesis by (simp add: trie_remove_def)
qed

theorem trie_remove_twice_witness:
  "\<exists>t t' :: nat trie. trie_remove t 6 = (True, t') \<and> trie_lookup t' 6 = None \<and> fst (trie_remove t' 6)"
proof -
  obtain i t where t: "trie_insert (trie_new :: nat trie) 6 7 = Some (i, t)"
    using trie.insert_new [OF trie_new_ok(1), of 6 "7::nat"] by (auto simp: trie_new_ok(2))
  have w: "trie_wf t" "trie_lookup t 6 \<noteq> None"
    using trie.insert_lookup [OF trie_new_ok(1) t] by simp_all
  obtain b t' where r: "trie_remove t 6 = (b, t')" by fastforce
  have "b" using trie.remove_found [OF w] r by simp
  with trie_remove_twice [OF w r] r show ?thesis by auto
qed

end
