(* ===== verification/Kobj.thy ===== *)
theory Kobj
  imports Trie
begin

text \<open>
  Kernel objects and their registration: \<open>KernelObject\<close> and \<open>IdPool\<close> of \<open>container.hpp\<close> and
  \<open>container.cpp\<close>, and the object table of \<open>Process\<close> in \<open>process.hpp\<close>. An object is its address.
\<close>

section \<open>The code\<close>

record kstate =
  ref_count :: "u64 \<Rightarrow> u64"
  alive :: "u64 \<Rightarrow> bool"
  kernel_objects :: "nat \<Rightarrow> u64 trie"

definition on_process_register :: "u64 \<Rightarrow> kstate \<Rightarrow> kstate" where
  "on_process_register obj s = s\<lparr>ref_count := (ref_count s)(obj := ref_count s obj + 1)\<rparr>"

text \<open>\<open>delete this\<close> ends the life of the object.\<close>

definition on_process_unregister :: "u64 \<Rightarrow> kstate \<Rightarrow> kstate" where
  "on_process_unregister obj s =
     (let s = s\<lparr>ref_count := (ref_count s)(obj := ref_count s obj - 1)\<rparr>
      in if ref_count s obj = 0 then s\<lparr>alive := (alive s)(obj := False)\<rparr> else s)"

definition obj2key :: "u64 \<Rightarrow> nat" where
  "obj2key obj = unat (obj AND 0xffffffff)"

definition register_kernel_object :: "nat \<Rightarrow> u64 \<Rightarrow> kstate \<Rightarrow> (bool \<times> kstate) option" where
  "register_kernel_object p obj s = do {
     (i, t) \<leftarrow> trie_insert (kernel_objects s p) (obj2key obj) obj;
     let s = s\<lparr>kernel_objects := (kernel_objects s)(p := t)\<rparr>;
     Some (if i \<noteq> 0 then (True, on_process_register obj s) else (False, s))
   }"

definition unregister_kernel_object :: "nat \<Rightarrow> u64 \<Rightarrow> kstate \<Rightarrow> bool \<times> kstate" where
  "unregister_kernel_object p obj s =
     (let (found, t) = trie_remove (kernel_objects s p) (obj2key obj);
          s = s\<lparr>kernel_objects := (kernel_objects s)(p := t)\<rparr>
      in if \<not> found then (False, s) else (True, on_process_unregister obj s))"

text \<open>What \<open>Process::kill\<close> does with the objects of the process: it leaves the table as it is.\<close>

definition release_objects :: "nat \<Rightarrow> kstate \<Rightarrow> kstate" where
  "release_objects p s = trie_foreach (kernel_objects s p) on_process_unregister s"

text \<open>The fields \<open>handle\<close> and \<open>trie_idx\<close> of the objects are kept with the pool that sets them.\<close>

record id_pool =
  keymap :: "u64 trie"
  table :: "u64 option list"
  handle :: "u64 \<Rightarrow> nat"
  trie_idx :: "u64 \<Rightarrow> nat"

text \<open>\<open>created\<close> is the pointer that \<open>create_fn()\<close> returns if it is called.\<close>

definition id_init :: "nat \<Rightarrow> nat \<Rightarrow> u64 \<Rightarrow> id_pool \<Rightarrow> kstate \<Rightarrow> (nat \<times> id_pool \<times> kstate) option" where
  "id_init p key created pool s = do {
     (obj, pool) \<leftarrow>
       (case trie_lookup (keymap pool) key of
          Some obj \<Rightarrow> Some (obj, pool)
        | None \<Rightarrow> do {
            let pool = pool\<lparr>handle := (handle pool)(created := length (table pool))\<rparr>;
            let pool = pool\<lparr>table := table pool @ [Some created]\<rparr>;
            (i, t) \<leftarrow> trie_insert (keymap pool) key created;
            Some (created, pool\<lparr>keymap := t, trie_idx := (trie_idx pool)(created := i)\<rparr>)
          });
     (_, s) \<leftarrow> register_kernel_object p obj s;
     Some (handle pool obj, pool, s)
   }"

definition id_get :: "nat \<Rightarrow> id_pool \<Rightarrow> u64 option" where
  "id_get h pool = (if h \<ge> length (table pool) then None else table pool ! h)"

definition id_close :: "nat \<Rightarrow> nat \<Rightarrow> id_pool \<Rightarrow> kstate \<Rightarrow> kstate" where
  "id_close p h pool s =
     (case id_get h pool of None \<Rightarrow> s | Some obj \<Rightarrow> snd (unregister_kernel_object p obj s))"

definition id_remove :: "u64 \<Rightarrow> id_pool \<Rightarrow> id_pool" where
  "id_remove obj pool =
     (if handle pool obj \<ge> length (table pool) then pool
      else pool\<lparr>table := (table pool)[handle pool obj := None],
                keymap := remove_by_idx (keymap pool) (trie_idx pool obj)\<rparr>)"

section \<open>Reference counts\<close>

text \<open>\<open>holds s p obj\<close>: the process has the object in its table.\<close>

definition holds :: "kstate \<Rightarrow> nat \<Rightarrow> u64 \<Rightarrow> bool" where
  "holds s p obj \<longleftrightarrow> trie_lookup (kernel_objects s p) (obj2key obj) = Some obj"

definition objects_ok :: "kstate \<Rightarrow> bool" where
  "objects_ok s \<longleftrightarrow> (\<forall>p. trie_wf (kernel_objects s p)) \<and>
     (\<forall>p k obj. trie_lookup (kernel_objects s p) k = Some obj \<longrightarrow> k = obj2key obj \<and> k \<noteq> 0)"

text \<open>The count of an object is the number of processes that hold it.\<close>

definition refs_ok :: "nat set \<Rightarrow> kstate \<Rightarrow> bool" where
  "refs_ok P s \<longleftrightarrow> objects_ok s \<and> (\<forall>obj. unat (ref_count s obj) = card {p \<in> P. holds s p obj})"

lemma frame_objects [simp]:
  "kernel_objects (on_process_register obj s) = kernel_objects s"
  "kernel_objects (on_process_unregister obj s) = kernel_objects s"
  by (simp_all add: on_process_register_def on_process_unregister_def Let_def)

lemma holds_register [simp]:
  "holds (on_process_register obj s) = holds s" "holds (on_process_unregister obj s) = holds s"
  by (simp_all add: holds_def fun_eq_iff)

lemma ref_count_register [simp]:
  "ref_count (on_process_register obj s) = (ref_count s)(obj := ref_count s obj + 1)"
  "ref_count (on_process_unregister obj s) = (ref_count s)(obj := ref_count s obj - 1)"
  by (simp_all add: on_process_register_def on_process_unregister_def Let_def)

lemma objects_ok_upd:
  assumes "objects_ok s" "trie_wf t" "\<And>k obj. trie_lookup t k = Some obj \<Longrightarrow> k = obj2key obj \<and> k \<noteq> 0"
  shows "objects_ok (s\<lparr>kernel_objects := (kernel_objects s)(p := t)\<rparr>)"
  using assms by (auto simp: objects_ok_def)

lemma objects_ok_cong: "kernel_objects s' = kernel_objects s \<Longrightarrow> objects_ok s' = objects_ok s"
  by (simp add: objects_ok_def)

text \<open>A process that starts or stops to hold an object changes one count by one.\<close>

lemma card_hold:
  assumes "finite P" "p \<in> P" "\<not> holds s p obj" "\<And>q o'. holds s' q o' \<longleftrightarrow> holds s q o' \<or> q = p \<and> o' = obj"
  shows "card {q \<in> P. holds s' q o'} = (if o' = obj then Suc (card {q \<in> P. holds s q obj}) else card {q \<in> P. holds s q o'})"
proof -
  have "{q \<in> P. holds s' q obj} = insert p {q \<in> P. holds s q obj}" using assms(2,4) by auto
  then have "card {q \<in> P. holds s' q obj} = Suc (card {q \<in> P. holds s q obj})" using assms(1,3) by simp
  with assms(4) show ?thesis by simp
qed

lemma card_unhold:
  assumes "finite P" "p \<in> P" "holds s p obj" "\<And>q o'. holds s' q o' \<longleftrightarrow> holds s q o' \<and> \<not> (q = p \<and> o' = obj)"
  shows "card {q \<in> P. holds s' q o'} = (if o' = obj then card {q \<in> P. holds s q obj} - 1 else card {q \<in> P. holds s q o'})"
proof -
  have "{q \<in> P. holds s' q obj} = {q \<in> P. holds s q obj} - {p}" using assms(4) by auto
  moreover have "{q \<in> P. holds s' q o'} = {q \<in> P. holds s q o'}" if "o' \<noteq> obj" using that assms(4) by auto
  ultimately show ?thesis using assms(1-3) by simp
qed

lemma card_holders_less: "finite P \<Longrightarrow> card P < 2 ^ 64 \<Longrightarrow> p \<in> P \<Longrightarrow> \<not> holds s p obj \<Longrightarrow> Suc (card {q \<in> P. holds s q obj}) < 2 ^ 64"
proof -
  assume a: "finite P" "card P < 2 ^ 64" "p \<in> P" "\<not> holds s p obj"
  then have "card {q \<in> P. holds s q obj} < card P" by (intro psubset_card_mono) auto
  with a(2) show ?thesis by linarith
qed

lemma unat_dec: "0 < unat (x :: u64) \<Longrightarrow> unat (x - 1) = unat x - 1"
  by (metis unat_minus_one unat_0 less_irrefl)

lemma unat_inc: "Suc (unat (x :: u64)) < 2 ^ 64 \<Longrightarrow> unat (x + 1) = Suc (unat x)"
  using unat_word_ariths(1) [of x 1] by simp

lemma register_ok:
  assumes inv: "refs_ok P s" and P: "finite P" "card P < 2 ^ 64" "p \<in> P" and key: "obj2key obj \<noteq> 0"
    and r: "register_kernel_object p obj s = Some (b, s')"
  shows "refs_ok P s'" "b \<longleftrightarrow> \<not> holds s p obj" "holds s' q o' \<longleftrightarrow> holds s q o' \<or> q = p \<and> o' = obj"
    "alive s' = alive s"
proof -
  let ?k = "obj2key obj"
  from r obtain i t where t: "trie_insert (kernel_objects s p) ?k obj = Some (i, t)"
    and s': "(b, s') = (if i \<noteq> 0 then (True, on_process_register obj (s\<lparr>kernel_objects := (kernel_objects s)(p := t)\<rparr>))
      else (False, s\<lparr>kernel_objects := (kernel_objects s)(p := t)\<rparr>))"
    by (auto simp: register_kernel_object_def Let_def bind_Some_iff)
  have wf: "trie_wf (kernel_objects s p)" and ok: "objects_ok s" using inv by (auto simp: refs_ok_def objects_ok_def)
  note l = trie.insert_lookup [OF wf t]
  have i: "i = 0 \<longleftrightarrow> holds s p obj" using trie.insert_index [OF wf t key] by (simp add: holds_def)
  then show b: "b \<longleftrightarrow> \<not> holds s p obj" using s' by (auto split: if_splits)
  have ks: "kernel_objects s' = (kernel_objects s)(p := t)" using s' by (auto split: if_splits)
  show h: "holds s' q o' \<longleftrightarrow> holds s q o' \<or> q = p \<and> o' = obj" for q o'
    using l(2,3) by (auto simp: holds_def ks)
  show "alive s' = alive s" using s' by (auto simp: on_process_register_def split: if_splits)
  have "objects_ok (s\<lparr>kernel_objects := (kernel_objects s)(p := t)\<rparr>)"
    by (rule objects_ok_upd [OF ok l(1)]) (use l(2) key ok in \<open>auto simp: objects_ok_def split: if_splits\<close>)
  then have ok': "objects_ok s'" by (simp add: objects_ok_def ks)
  show "refs_ok P s'"
  proof (cases "holds s p obj")
    case True
    then have "holds s' = holds s" "ref_count s' = ref_count s" using h s' i by (auto simp: fun_eq_iff)
    with inv ok' show ?thesis by (simp add: refs_ok_def)
  next
    case False
    then have rc: "ref_count s' = (ref_count s)(obj := ref_count s obj + 1)" using s' i by simp
    have "unat (ref_count s obj + 1) = Suc (card {q \<in> P. holds s q obj})"
      using unat_inc [of "ref_count s obj"] inv card_holders_less [OF P False] by (simp add: refs_ok_def)
    with inv ok' card_hold [OF P(1,3) False h] show ?thesis by (simp add: refs_ok_def rc)
  qed
qed

lemma unregister_ok:
  assumes inv: "refs_ok P s" and P: "finite P" "p \<in> P" and h0: "holds s p obj"
    and r: "unregister_kernel_object p obj s = (b, s')"
  shows "refs_ok P s'" "b" "holds s' q o' \<longleftrightarrow> holds s q o' \<and> \<not> (q = p \<and> o' = obj)"
    "alive s' = (if \<exists>q\<in>P. holds s' q obj then alive s else (alive s)(obj := False))"
proof -
  let ?k = "obj2key obj"
  obtain b' t where t: "trie_remove (kernel_objects s p) ?k = (b', t)" by fastforce
  have wf: "trie_wf (kernel_objects s p)" and ok: "objects_ok s" using inv by (auto simp: refs_ok_def objects_ok_def)
  note l = trie_remove_ok [OF wf t]
  have "b'" using l(3) h0 by (simp add: holds_def)
  with r t have b: "b" and s': "s' = on_process_unregister obj (s\<lparr>kernel_objects := (kernel_objects s)(p := t)\<rparr>)"
    by (simp_all add: unregister_kernel_object_def)
  show b by (rule b)
  have ks: "kernel_objects s' = (kernel_objects s)(p := t)" using s' by simp
  have key: "trie_lookup (kernel_objects s q) k = Some o' \<Longrightarrow> k = obj2key o' \<and> k \<noteq> 0" for q k o'
    using ok by (simp add: objects_ok_def)
  show h: "holds s' q o' \<longleftrightarrow> holds s q o' \<and> \<not> (q = p \<and> o' = obj)" for q o'
    using l(2) h0 by (auto simp: holds_def ks)
  have rc: "ref_count s' = (ref_count s)(obj := ref_count s obj - 1)" using s' by simp
  have pos: "0 < card {q \<in> P. holds s q obj}" using P h0 by (auto simp: card_gt_0_iff)
  have cnt: "unat (ref_count s obj - 1) = card {q \<in> P. holds s q obj} - 1"
    using unat_dec [of "ref_count s obj"] inv pos by (simp add: refs_ok_def)
  have "objects_ok (s\<lparr>kernel_objects := (kernel_objects s)(p := t)\<rparr>)"
    by (rule objects_ok_upd [OF ok l(1)]) (use l(2) key in \<open>auto split: if_splits\<close>)
  then have "objects_ok s'" by (simp add: objects_ok_def ks)
  with inv cnt card_unhold [OF P h0 h] show "refs_ok P s'" by (simp add: refs_ok_def rc)
  then have "ref_count s' obj = 0 \<longleftrightarrow> \<not> (\<exists>q\<in>P. holds s' q obj)"
    using P(1) by (simp add: refs_ok_def unat_eq_zero [symmetric] del: unat_eq_zero) (auto simp: card_eq_0_iff)
  then show "alive s' = (if \<exists>q\<in>P. holds s' q obj then alive s else (alive s)(obj := False))"
    using s' by (auto simp: on_process_unregister_def Let_def)
qed

lemma fold_unregister:
  "distinct xs \<Longrightarrow>
     kernel_objects (fold on_process_unregister xs s) = kernel_objects s \<and>
     ref_count (fold on_process_unregister xs s) obj = (if obj \<in> set xs then ref_count s obj - 1 else ref_count s obj) \<and>
     (alive (fold on_process_unregister xs s) obj \<longleftrightarrow> alive s obj \<and> \<not> (obj \<in> set xs \<and> ref_count s obj = 1))"
proof (induction xs arbitrary: s)
  case (Cons x xs)
  then show ?case by (auto simp: on_process_unregister_def Let_def)
qed simp

lemma release_ok:
  assumes inv: "refs_ok P s" and P: "finite P" "p \<in> P"
  shows "refs_ok (P - {p}) (release_objects p s)"
    "alive (release_objects p s) obj \<longleftrightarrow> alive s obj \<and> (holds s p obj \<longrightarrow> (\<exists>q\<in>P - {p}. holds s q obj))"
proof -
  let ?t = "kernel_objects s p" and ?s = "release_objects p s"
  have wf: "trie_wf ?t" and ok: "objects_ok s" using inv by (auto simp: refs_ok_def objects_ok_def)
  have key: "trie_lookup ?t k = Some v \<Longrightarrow> k = obj2key v" for k v using ok by (simp add: objects_ok_def)
  have d: "distinct (trie_vals ?t)" by (rule trie.vals_once [OF wf]) (metis key)
  have m: "v \<in> set (trie_vals ?t) \<longleftrightarrow> holds s p v" for v
    using trie.vals_ran [OF wf] key by (auto simp: ran_def holds_def)
  have r: "?s = fold on_process_unregister (trie_vals ?t) s" by (simp add: release_objects_def trie_foreach_vals)
  note f = fold_unregister [OF d, of s, folded r, unfolded m]
  have ks: "kernel_objects ?s = kernel_objects s" using f by simp
  then have h: "holds ?s = holds s" by (simp add: holds_def fun_eq_iff)
  have split: "card {q \<in> P. holds s q v} = card {q \<in> P - {p}. holds s q v} + (if holds s p v then 1 else 0)" for v
  proof (cases "holds s p v")
    case True
    then have "{q \<in> P. holds s q v} = insert p {q \<in> P - {p}. holds s q v}" using P(2) by auto
    with True P(1) show ?thesis by simp
  next
    case False
    then have "{q \<in> P. holds s q v} = {q \<in> P - {p}. holds s q v}" by auto
    with False show ?thesis by simp
  qed
  have cnt: "unat (ref_count s v) = card {q \<in> P - {p}. holds s q v} + (if holds s p v then 1 else 0)" for v
    using inv split by (simp add: refs_ok_def)
  have "unat (ref_count ?s v) = card {q \<in> P - {p}. holds s q v}" for v
    using f [of v] cnt [of v] unat_dec [of "ref_count s v"] by simp
  moreover have "objects_ok ?s" using ok by (simp add: objects_ok_def ks)
  ultimately show "refs_ok (P - {p}) ?s" by (simp add: refs_ok_def h)
  have "ref_count s obj = 1 \<longleftrightarrow> unat (ref_count s obj) = 1" by (simp add: word_unat_eq_iff)
  then have "ref_count s obj = 1 \<longleftrightarrow> \<not> (\<exists>q\<in>P - {p}. holds s q obj)" if "holds s p obj"
    using cnt [of obj] that P(1) by (auto simp: card_eq_0_iff)
  with f [of obj] show "alive ?s obj \<longleftrightarrow> alive s obj \<and> (holds s p obj \<longrightarrow> (\<exists>q\<in>P - {p}. holds s q obj))"
    by auto
qed

section \<open>Handles\<close>

text \<open>Keys, table entries and the fields of the objects agree.\<close>

definition pool_ok :: "id_pool \<Rightarrow> bool" where
  "pool_ok pool \<longleftrightarrow> trie_wf (keymap pool) \<and>
     (\<forall>k obj. trie_lookup (keymap pool) k = Some obj \<longrightarrow>
        handle pool obj < length (table pool) \<and> table pool ! handle pool obj = Some obj \<and>
        find_walk (keymap pool) 0 k = Some (trie_idx pool obj)) \<and>
     (\<forall>h<length (table pool). \<forall>obj. table pool ! h = Some obj \<longrightarrow>
        handle pool obj = h \<and> (\<exists>k. trie_lookup (keymap pool) k = Some obj))"

lemma pool_okD:
  assumes "pool_ok pool"
  shows "trie_wf (keymap pool)" "links_ok (keymap pool)"
    and "trie_lookup (keymap pool) k = Some obj \<Longrightarrow> handle pool obj < length (table pool) \<and>
      table pool ! handle pool obj = Some obj \<and> find_walk (keymap pool) 0 k = Some (trie_idx pool obj)"
    and "h < length (table pool) \<Longrightarrow> table pool ! h = Some obj \<Longrightarrow>
      handle pool obj = h \<and> (\<exists>k. trie_lookup (keymap pool) k = Some obj)"
  using assms by (auto simp: pool_ok_def trie_wf_def)

lemma pool_key_unique:
  "pool_ok pool \<Longrightarrow> trie_lookup (keymap pool) k = Some obj \<Longrightarrow> trie_lookup (keymap pool) k' = Some obj \<Longrightarrow> k = k'"
  using pool_okD(2,3) find_inject by metis

lemma id_get_lookup: "pool_ok pool \<Longrightarrow> trie_lookup (keymap pool) k = Some obj \<Longrightarrow> id_get (handle pool obj) pool = Some obj"
  using pool_okD(3) [of pool k obj] by (simp add: id_get_def)

lemma id_create_ok:
  assumes inv: "pool_ok pool" and new: "trie_lookup (keymap pool) key = None"
    and fresh: "created \<notin> ran (trie_lookup (keymap pool))"
  obtains i t pool' where "trie_insert (keymap pool) key created = Some (i, t)"
    "pool' = pool\<lparr>keymap := t, table := table pool @ [Some created],
       handle := (handle pool)(created := length (table pool)), trie_idx := (trie_idx pool)(created := i)\<rparr>"
    "pool_ok pool'" "trie_lookup t = (trie_lookup (keymap pool))(key \<mapsto> created)"
proof -
  note d = pool_okD [OF inv]
  obtain j t where t: "trie_insert (keymap pool) key created = Some (if trie_lookup (keymap pool) key = None then j else 0, t)"
    "trie_wf t" "trie_lookup t = (trie_lookup (keymap pool))(key \<mapsto> created)" "find_walk t 0 key = Some j"
    "\<And>k' i. find_walk (keymap pool) 0 k' = Some i \<Longrightarrow> find_walk t 0 k' = Some i"
    by (rule trie_insert_ok [OF d(1) disjI1 [OF new], of created]) (rule that)
  define pool' where "pool' = pool\<lparr>keymap := t, table := table pool @ [Some created],
    handle := (handle pool)(created := length (table pool)), trie_idx := (trie_idx pool)(created := j)\<rparr>"
  have nk: "trie_lookup (keymap pool) k \<noteq> Some created" for k using fresh by (auto simp: ran_def)
  have nt: "table pool ! h \<noteq> Some created" if "h < length (table pool)" for h
    using d(4) [OF that, of created] nk by blast
  have "pool_ok pool'"
    unfolding pool_ok_def
  proof (intro conjI allI impI)
    show "trie_wf (keymap pool')" by (simp add: pool'_def t(2))
    fix k obj assume "trie_lookup (keymap pool') k = Some obj"
    then have l: "(if k = key then Some created else trie_lookup (keymap pool) k) = Some obj"
      by (simp add: pool'_def t(3))
    show "handle pool' obj < length (table pool')" "table pool' ! handle pool' obj = Some obj"
      "find_walk (keymap pool') 0 k = Some (trie_idx pool' obj)"
      using l nk [of k] d(3) [of k obj] t(4) t(5) [of k "trie_idx pool obj"]
      by (auto simp: pool'_def nth_append split: if_splits)
  next
    fix h obj assume h: "h < length (table pool')" "table pool' ! h = Some obj"
    show "handle pool' obj = h" "\<exists>k. trie_lookup (keymap pool') k = Some obj"
    proof (atomize (full), cases "h < length (table pool)")
      case True
      then have h': "table pool ! h = Some obj" using h(2) by (simp add: pool'_def nth_append)
      with nt [OF True] d(4) [OF True h'] new have "obj \<noteq> created" "handle pool obj = h"
        "\<exists>k. k \<noteq> key \<and> trie_lookup (keymap pool) k = Some obj" by (auto, metis option.distinct(1))
      then show "handle pool' obj = h \<and> (\<exists>k. trie_lookup (keymap pool') k = Some obj)"
        by (auto simp: pool'_def t(3))
    next
      case False
      with h have "h = length (table pool)" "obj = created" by (auto simp: pool'_def nth_append)
      then show "handle pool' obj = h \<and> (\<exists>k. trie_lookup (keymap pool') k = Some obj)"
        by (auto simp: pool'_def t(3))
    qed
  qed
  with t new show thesis using that pool'_def by simp
qed

lemma id_remove_ok:
  assumes inv: "pool_ok pool" and k: "trie_lookup (keymap pool) key = Some obj"
  shows "pool_ok (id_remove obj pool)" "trie_lookup (keymap (id_remove obj pool)) = (trie_lookup (keymap pool))(key := None)"
    "table (id_remove obj pool) = (table pool)[handle pool obj := None]"
proof -
  note d = pool_okD [OF inv]
  note o = d(3) [OF k]
  let ?t = "set_val (keymap pool) (trie_idx pool obj) None"
  have idx: "trie_idx pool obj < length (keymap pool)" using find_bound [OF d(2)] o by blast
  have r: "id_remove obj pool = pool\<lparr>table := (table pool)[handle pool obj := None], keymap := ?t\<rparr>"
    using o idx by (simp add: id_remove_def remove_by_idx_def)
  have l: "trie_lookup ?t = (trie_lookup (keymap pool))(key := None)" using lookup_set_val [OF d(2)] o by blast
  show "trie_lookup (keymap (id_remove obj pool)) = (trie_lookup (keymap pool))(key := None)"
    "table (id_remove obj pool) = (table pool)[handle pool obj := None]" using l by (simp_all add: r)
  have ne: "o' \<noteq> obj \<and> handle pool o' \<noteq> handle pool obj" if "trie_lookup (keymap pool) k' = Some o'" "k' \<noteq> key" for k' o'
  proof -
    have "o' \<noteq> obj" using pool_key_unique [OF inv k, of k'] that by auto
    moreover have "table pool ! handle pool o' = Some o'" "table pool ! handle pool obj = Some obj"
      using d(3) [OF that(1)] o by simp_all
    ultimately show ?thesis by (metis option.inject)
  qed
  show "pool_ok (id_remove obj pool)"
    unfolding pool_ok_def
  proof (intro conjI allI impI)
    show "trie_wf (keymap (id_remove obj pool))" using trie_wf_set_val [OF d(1)] by (simp add: r)
    fix k' o' assume "trie_lookup (keymap (id_remove obj pool)) k' = Some o'"
    then have k': "k' \<noteq> key" "trie_lookup (keymap pool) k' = Some o'" using l by (auto simp: r split: if_splits)
    show "handle (id_remove obj pool) o' < length (table (id_remove obj pool))"
      "table (id_remove obj pool) ! handle (id_remove obj pool) o' = Some o'"
      "find_walk (keymap (id_remove obj pool)) 0 k' = Some (trie_idx (id_remove obj pool) o')"
      using d(3) [OF k'(2)] ne [OF k'(2,1)] by (simp_all add: r)
  next
    fix h o' assume h: "h < length (table (id_remove obj pool))" "table (id_remove obj pool) ! h = Some o'"
    have h1: "h < length (table pool)" "h \<noteq> handle pool obj" using h by (auto simp: r)
    have h': "h < length (table pool)" "h \<noteq> handle pool obj" "table pool ! h = Some o'"
      using h h1 by (simp_all add: r)
    note e = d(4) [OF h'(1,3)]
    show "handle (id_remove obj pool) o' = h" using e by (simp add: r)
    from e obtain k' where k': "trie_lookup (keymap pool) k' = Some o'" by blast
    have "k' \<noteq> key" using k k' e h'(2) by auto
    with k' l show "\<exists>k. trie_lookup (keymap (id_remove obj pool)) k = Some o'" by (auto simp: r)
  qed
qed

lemma id_init_pool_ok:
  assumes "pool_ok pool" "created \<notin> ran (trie_lookup (keymap pool))"
    and "id_init p key created pool s = Some (h, pool', s')"
  shows "pool_ok pool' \<and>
    (let obj = (case trie_lookup (keymap pool) key of Some obj \<Rightarrow> obj | None \<Rightarrow> created)
     in id_get h pool' = Some obj \<and> trie_lookup (keymap pool') = (trie_lookup (keymap pool))(key \<mapsto> obj)) \<and>
    (\<forall>k obj. trie_lookup (keymap pool) k = Some obj \<longrightarrow> handle pool' obj = handle pool obj \<and> id_get (handle pool obj) pool' = Some obj)"
proof (cases "trie_lookup (keymap pool) key")
  case (Some obj)
  with assms(3) have "pool' = pool" "h = handle pool obj" by (auto simp: id_init_def bind_Some_iff)
  with Some assms(1) id_get_lookup show ?thesis by (auto simp: fun_upd_idem)
next
  case None
  obtain i t q where c: "trie_insert (keymap pool) key created = Some (i, t)"
    "q = pool\<lparr>keymap := t, table := table pool @ [Some created],
       handle := (handle pool)(created := length (table pool)), trie_idx := (trie_idx pool)(created := i)\<rparr>"
    "pool_ok q" "trie_lookup t = (trie_lookup (keymap pool))(key \<mapsto> created)"
    by (rule id_create_ok [OF assms(1) None assms(2)])
  have p: "pool' = q" "h = handle q created"
    using assms(3) None c(1) by (auto simp: id_init_def Let_def bind_Some_iff c(2))
  have "id_get (handle pool obj) q = Some obj \<and> handle q obj = handle pool obj"
    if "trie_lookup (keymap pool) k = Some obj" for k obj
  proof -
    have "obj \<noteq> created" using that assms(2) by (auto simp: ran_def)
    moreover have "trie_lookup (keymap q) k = Some obj" using that None by (auto simp: c(2,4))
    ultimately show ?thesis using id_get_lookup [OF c(3), of k obj] by (simp add: c(2))
  qed
  moreover have "id_get h q = Some created" using id_get_lookup [OF c(3), of key created] c(2,4) p(2) by simp
  ultimately show ?thesis using None c p by auto
qed

section \<open>Properties\<close>

text \<open>
  \<open>register_kernel_object\<close> keeps the reference counts equal to the numbers of processes that hold
  the objects, makes the process a holder and reports whether it was not one before. The low half of the
  address must not be 0, since \<open>insert\<close> of the key 0 reports an old key.
\<close>

theorem register_counts:
  assumes "refs_ok P s" "finite P" "card P < 2 ^ 64" "p \<in> P" "obj2key obj \<noteq> 0"
    and "register_kernel_object p obj s = Some (b, s')"
  shows "refs_ok P s' \<and> (b \<longleftrightarrow> \<not> holds s p obj) \<and> alive s' = alive s \<and>
    (\<forall>q o'. holds s' q o' \<longleftrightarrow> holds s q o' \<or> q = p \<and> o' = obj)"
  using register_ok [OF assms] by simp

text \<open>A kernel without objects.\<close>

definition kstate0 :: kstate where
  "kstate0 = \<lparr>ref_count = (\<lambda>_. 0), alive = (\<lambda>_. True), kernel_objects = (\<lambda>_. trie_new)\<rparr>"

lemma kstate0_ok: "refs_ok P kstate0" "\<not> holds kstate0 p obj"
  by (simp_all add: refs_ok_def objects_ok_def kstate0_def holds_def trie_new_ok)

lemma register_kstate0:
  obtains b s where "register_kernel_object 1 0x51000080 kstate0 = Some (b, s)"
proof -
  obtain i t where "trie_insert trie_new (obj2key 0x51000080) (0x51000080 :: u64) = Some (i, t)"
    using trie.insert_new [OF trie_new_ok(1)] by (metis trie_new_ok(2))
  then have "register_kernel_object 1 0x51000080 kstate0 \<noteq> None"
    by (simp add: register_kernel_object_def kstate0_def Let_def)
  with that show thesis by auto
qed

theorem register_counts_witness:
  "\<exists>s. register_kernel_object 1 0x51000080 kstate0 = Some (True, s) \<and> refs_ok {1, 2} s \<and> holds s 1 0x51000080"
proof -
  obtain b s where r: "register_kernel_object 1 0x51000080 kstate0 = Some (b, s)" by (rule register_kstate0)
  have "obj2key 0x51000080 \<noteq> 0" by (simp add: obj2key_def)
  from register_counts [OF kstate0_ok(1) _ _ _ this r, of "{1, 2}"] r show ?thesis by (auto simp: kstate0_ok)
qed

text \<open>
  C20: \<open>unregister_kernel_object\<close> of an object that the process holds keeps the counts right, and deletes
  the object exactly when no other process holds it.
\<close>

theorem unregister_counts:
  assumes "refs_ok P s" "finite P" "p \<in> P" "holds s p obj" "unregister_kernel_object p obj s = (b, s')"
  shows "b \<and> refs_ok P s' \<and> (\<forall>q o'. holds s' q o' \<longleftrightarrow> holds s q o' \<and> \<not> (q = p \<and> o' = obj)) \<and>
    (\<forall>o'. alive s' o' \<longleftrightarrow> alive s o' \<and> (o' = obj \<longrightarrow> (\<exists>q\<in>P. q \<noteq> p \<and> holds s q obj)))"
proof -
  note u = unregister_ok [OF assms]
  have "(\<exists>q\<in>P. holds s' q obj) \<longleftrightarrow> (\<exists>q\<in>P. q \<noteq> p \<and> holds s q obj)" by (auto simp: u(3))
  with u show ?thesis by auto
qed

theorem unregister_counts_witness:
  "\<exists>s s'. holds s 1 0x51000080 \<and> unregister_kernel_object 1 0x51000080 s = (True, s') \<and> \<not> alive s' 0x51000080"
proof -
  obtain b s where r: "register_kernel_object 1 0x51000080 kstate0 = Some (b, s)" by (rule register_kstate0)
  have "obj2key 0x51000080 \<noteq> 0" by (simp add: obj2key_def)
  note k = register_ok [OF kstate0_ok(1) _ _ _ this r, of "{1}"]
  obtain b' s' where u: "unregister_kernel_object 1 0x51000080 s = (b', s')" by fastforce
  have "refs_ok {1} s" "holds s 1 0x51000080" using k by simp_all
  from unregister_counts [OF this(1) _ _ this(2) u] u this(2) show ?thesis by auto
qed

text \<open>
  When \<open>Process::kill\<close> lets go of the objects of a process, every count becomes the number of the
  other processes that hold the object, and exactly the objects no other process holds are deleted.
\<close>

theorem kill_releases_objects:
  assumes "refs_ok P s" "finite P" "p \<in> P"
  shows "refs_ok (P - {p}) (release_objects p s) \<and>
    (\<forall>obj. alive (release_objects p s) obj \<longleftrightarrow>
       alive s obj \<and> (holds s p obj \<longrightarrow> (\<exists>q\<in>P - {p}. holds s q obj)))"
  using release_ok [OF assms] by blast

theorem kill_releases_objects_witness:
  "\<exists>s. holds s 1 0x51000080 \<and> \<not> alive (release_objects 1 s) 0x51000080"
proof -
  obtain b s where r: "register_kernel_object 1 0x51000080 kstate0 = Some (b, s)" by (rule register_kstate0)
  have "obj2key 0x51000080 \<noteq> 0" by (simp add: obj2key_def)
  note k = register_ok [OF kstate0_ok(1) _ _ _ this r, of "{1}"]
  have "refs_ok {1} s" "holds s 1 0x51000080" using k by simp_all
  from kill_releases_objects [OF this(1), of 1] this(2) show ?thesis by auto
qed

text \<open>
  \<open>IdPool::init\<close> returns a handle whose object is the one of the key: the object that was there,
  with no new one made, or else the created one. \<open>get\<close> of the handle returns it, and every other key keeps
  its object and handle.
\<close>

theorem id_init_get:
  assumes "pool_ok pool" "created \<notin> ran (trie_lookup (keymap pool))"
    and "id_init p key created pool s = Some (h, pool', s')"
  shows "pool_ok pool' \<and>
    (let obj = (case trie_lookup (keymap pool) key of Some obj \<Rightarrow> obj | None \<Rightarrow> created)
     in id_get h pool' = Some obj \<and> trie_lookup (keymap pool') = (trie_lookup (keymap pool))(key \<mapsto> obj)) \<and>
    (\<forall>k obj. trie_lookup (keymap pool) k = Some obj \<longrightarrow> handle pool' obj = handle pool obj \<and> id_get (handle pool obj) pool' = Some obj)"
  by (rule id_init_pool_ok [OF assms])

text \<open>A pool that has given out nothing.\<close>

definition id_pool0 :: id_pool where
  "id_pool0 = \<lparr>keymap = trie_new, table = [], handle = (\<lambda>_. 0), trie_idx = (\<lambda>_. 0)\<rparr>"

lemma id_pool0_ok: "pool_ok id_pool0" "trie_lookup (keymap id_pool0) = Map.empty"
  by (simp_all add: pool_ok_def id_pool0_def trie_new_ok)

lemma id_init_pool0:
  obtains h pool s where "id_init 1 42 0x51000080 id_pool0 kstate0 = Some (h, pool, s)"
proof -
  obtain i t where "trie_insert trie_new 42 (0x51000080 :: u64) = Some (i, t)"
    using trie.insert_new [OF trie_new_ok(1)] by (metis trie_new_ok(2))
  moreover obtain b s where "register_kernel_object 1 0x51000080 kstate0 = Some (b, s)" by (rule register_kstate0)
  ultimately show thesis using that by (simp add: id_init_def id_pool0_ok(2)) (simp add: id_pool0_def)
qed

theorem id_init_get_witness:
  "\<exists>h pool s. id_init 1 42 0x51000080 id_pool0 kstate0 = Some (h, pool, s) \<and> id_get h pool = Some 0x51000080"
proof -
  obtain h pool s where i: "id_init 1 42 0x51000080 id_pool0 kstate0 = Some (h, pool, s)" by (rule id_init_pool0)
  from id_init_get [OF id_pool0_ok(1) _ i] i show ?thesis by (auto simp: id_pool0_ok(2))
qed

text \<open>
  \<open>IdPool::remove\<close> of an object takes away its key and its handle and nothing else.
\<close>

theorem id_remove_exact:
  assumes "pool_ok pool" "trie_lookup (keymap pool) key = Some obj"
  shows "pool_ok (id_remove obj pool) \<and>
    trie_lookup (keymap (id_remove obj pool)) = (trie_lookup (keymap pool))(key := None) \<and>
    (\<forall>h. id_get h (id_remove obj pool) = (if h = handle pool obj then None else id_get h pool))"
  using id_remove_ok [OF assms] by (auto simp: id_get_def nth_list_update)

theorem id_remove_exact_witness:
  "\<exists>h pool s. id_init 1 42 0x51000080 id_pool0 kstate0 = Some (h, pool, s) \<and> id_get h pool \<noteq> None \<and>
     id_get (handle pool 0x51000080) (id_remove 0x51000080 pool) = None"
proof -
  obtain h pool s where i: "id_init 1 42 0x51000080 id_pool0 kstate0 = Some (h, pool, s)" by (rule id_init_pool0)
  have *: "pool_ok pool \<and> trie_lookup (keymap pool) 42 = Some 0x51000080 \<and> id_get h pool \<noteq> None"
    using id_init_pool_ok [OF id_pool0_ok(1) _ i] by (auto simp: id_pool0_ok(2))
  from id_remove_exact [of pool 42 "0x51000080"] * i show ?thesis by auto
qed

end
