(* ===== verification/Locks.thy ===== *)
theory Locks
  imports Proc Kobj
begin

text \<open>
  Mutexes, barriers, conditions and mailboxes: \<open>locks.cpp\<close>.

  An object is its address. Its wait queue is the queue \<open>WaitObj\<close> of that address, the two queues of a mailbox are \<open>SendObj\<close> and \<open>RecvObj\<close>. The spin lock of a mutex is a field,
  because one path leaves it held; those of the other objects are free whenever a thread is switched out or returns. A call that blocks ends in a context switch; what it does when the thread
  runs again is the entry of the thread in \<open>resume\<close>, and \<open>resume_thread\<close> does it. The entry also says where a thread is that has left the spin lock of a mutex but has not yet made itself its owner.
\<close>

section \<open>State\<close>

record mutex =
  m_lock :: bool
  owner :: "nat option"

record barrier =
  goal :: u64
  count :: u64

datatype object_kind = MutexLock | Barrier | Condition | Mailbox

datatype continuation = Done | ToOwn u64 | ToAcquire u64 | ToSend u64 "u8 list" | ToRecv u64 nat "u8 list"

record lkernel = kernel +
  mutexes :: "u64 \<Rightarrow> mutex"
  barriers :: "u64 \<Rightarrow> barrier"
  mailboxes :: "u64 \<Rightarrow> u8 list"
  kind :: "u64 \<Rightarrow> object_kind"
  mutex_pool :: id_pool
  barrier_pool :: id_pool
  condition_pool :: id_pool
  mailbox_pool :: id_pool
  kobjs :: kstate
  resume :: "nat \<Rightarrow> continuation"

definition put_mutex :: "u64 \<Rightarrow> mutex \<Rightarrow> lkernel \<Rightarrow> lkernel" where
  "put_mutex m mu k = k\<lparr>mutexes := (mutexes k)(m := mu)\<rparr>"

definition put_barrier :: "u64 \<Rightarrow> barrier \<Rightarrow> lkernel \<Rightarrow> lkernel" where
  "put_barrier b ba k = k\<lparr>barriers := (barriers k)(b := ba)\<rparr>"

definition put_mail :: "u64 \<Rightarrow> u8 list \<Rightarrow> lkernel \<Rightarrow> lkernel" where
  "put_mail m ms k = k\<lparr>mailboxes := (mailboxes k)(m := ms)\<rparr>"

definition put_resume :: "nat \<Rightarrow> continuation \<Rightarrow> lkernel \<Rightarrow> lkernel" where
  "put_resume t r k = k\<lparr>resume := (resume k)(t := r)\<rparr>"

section \<open>Mutexes\<close>

text \<open>
  \<open>acquire\<close> has two parts. The first is under the spin lock of the mutex: it finds the caller to be the owner already and returns (without \<open>lock.unlock()\<close>), or blocks, or finds the mutex free and
  unlocks. The second part, the assignment to \<open>owner\<close>, is made without the lock; another CPU may run between the two.
\<close>

datatype entered = Held | Blocked | Free

definition acquire_enter :: "nat \<Rightarrow> u64 \<Rightarrow> lkernel \<Rightarrow> (entered \<times> lkernel) option" where
  "acquire_enter c m k = do {
     cpu \<leftarrow> cpu_at k c;
     let f = current_thread cpu;
     let mu = mutexes k m;
     kassert (\<not> m_lock mu);
     if owner mu = Some f then Some (Held, put_mutex m (mu\<lparr>m_lock := True\<rparr>) k)
     else if owner mu \<noteq> None then do {
       k \<leftarrow> do_block c (WaitObj m) (put_resume f (ToOwn m) k);
       Some (Blocked, k)
     }
     else Some (Free, k)
   }"

definition acquire_own :: "nat \<Rightarrow> u64 \<Rightarrow> lkernel \<Rightarrow> lkernel option" where
  "acquire_own c m k = do {
     cpu \<leftarrow> cpu_at k c;
     Some (put_mutex m ((mutexes k m)\<lparr>owner := Some (current_thread cpu)\<rparr>) k)
   }"

text \<open>The call as a whole, when no other CPU comes between.\<close>

definition acquire :: "nat \<Rightarrow> u64 \<Rightarrow> lkernel \<Rightarrow> (flow \<times> lkernel) option" where
  "acquire c m k = do {
     (e, k) \<leftarrow> acquire_enter c m k;
     case e of
       Held \<Rightarrow> Some (Ret, k)
     | Blocked \<Rightarrow> Some (Away, k)
     | Free \<Rightarrow> do { k \<leftarrow> acquire_own c m k; Some (Ret, k) }
   }"

text \<open>\<open>owner->process\<close> with no owner is an access through the null pointer.\<close>

definition release :: "nat \<Rightarrow> u64 \<Rightarrow> lkernel \<Rightarrow> lkernel option" where
  "release p m k = do {
     let mu = mutexes k m;
     kassert (\<not> m_lock mu);
     t \<leftarrow> owner mu;
     th \<leftarrow> thr k t;
     if th_process th \<noteq> p then Some k
     else do {
       (t, k) \<leftarrow> wakeup_one (WaitObj m) k;
       Some (put_mutex m (mu\<lparr>owner := t\<rparr>) k)
     }
   }"

section \<open>Barriers and conditions\<close>

definition barrier_wait :: "nat \<Rightarrow> u64 \<Rightarrow> lkernel \<Rightarrow> (flow \<times> lkernel) option" where
  "barrier_wait c b k = do {
     let ba = barriers k b;
     let ba = ba\<lparr>count := count ba + 1\<rparr>;
     if count ba < goal ba then do {
       k \<leftarrow> do_block c (WaitObj b) (put_barrier b ba k);
       Some (Away, k)
     } else do {
       k \<leftarrow> wakeup_all (WaitObj b) (put_barrier b (ba\<lparr>count := 0\<rparr>) k);
       Some (Ret, k)
     }
   }"

definition condition_wait :: "nat \<Rightarrow> u64 \<Rightarrow> u64 \<Rightarrow> lkernel \<Rightarrow> lkernel option" where
  "condition_wait c cond m k = do {
     cpu \<leftarrow> cpu_at k c;
     let f = current_thread cpu;
     let k = wq_push (WaitObj cond) f k;
     p \<leftarrow> current_process c k;
     k \<leftarrow> release p m k;
     k \<leftarrow> block f k;
     do_scheduler c None (put_resume f (ToAcquire m) k)
   }"

definition condition_signal :: "u64 \<Rightarrow> lkernel \<Rightarrow> lkernel option" where
  "condition_signal cond k = do { (_, k) \<leftarrow> wakeup_one (WaitObj cond) k; Some k }"

definition condition_broadcast :: "u64 \<Rightarrow> lkernel \<Rightarrow> lkernel option" where
  "condition_broadcast cond k = wakeup_all (WaitObj cond) k"

section \<open>Mailboxes\<close>

abbreviation MAX_MSG_SIZE :: nat where "MAX_MSG_SIZE \<equiv> 4096"

text \<open>A full mailbox blocks the sender, in the queue of the receivers; after it the byte is put without a second test.\<close>

definition send_byte :: "u64 \<Rightarrow> u8 \<Rightarrow> lkernel \<Rightarrow> lkernel option" where
  "send_byte m b k = do {
     (_, k) \<leftarrow> wakeup_one (RecvObj m) (put_mail m (mailboxes k m @ [b]) k);
     Some k
   }"

fun send :: "nat \<Rightarrow> u64 \<Rightarrow> u8 list \<Rightarrow> lkernel \<Rightarrow> (flow \<times> lkernel) option" where
  "send c m [] k = Some (Ret, k)"
| "send c m (b # bs) k =
     (if length (mailboxes k m) \<ge> MAX_MSG_SIZE then do {
        cpu \<leftarrow> cpu_at k c;
        k \<leftarrow> do_block c (RecvObj m) (put_resume (current_thread cpu) (ToSend m (b # bs)) k);
        Some (Away, k)
      } else do { k \<leftarrow> send_byte m b k; send c m bs k })"

text \<open>\<open>got\<close> is what has been written to the buffer of the caller so far.\<close>

definition recv_byte :: "u64 \<Rightarrow> lkernel \<Rightarrow> (u8 \<times> lkernel) option" where
  "recv_byte m k =
     (case mailboxes k m of
        [] \<Rightarrow> None
      | b # bs \<Rightarrow> do { (_, k) \<leftarrow> wakeup_one (SendObj m) (put_mail m bs k); Some (b, k) })"

fun recv :: "nat \<Rightarrow> u64 \<Rightarrow> nat \<Rightarrow> u8 list \<Rightarrow> lkernel \<Rightarrow> (flow \<times> u8 list \<times> lkernel) option" where
  "recv c m 0 got k = Some (Ret, got, k)"
| "recv c m (Suc n) got k =
     (if mailboxes k m = [] then do {
        cpu \<leftarrow> cpu_at k c;
        k \<leftarrow> do_block c (RecvObj m) (put_resume (current_thread cpu) (ToRecv m (Suc n) got) k);
        Some (Away, got, k)
      } else do { (b, k) \<leftarrow> recv_byte m k; recv c m n (got @ [b]) k })"

section \<open>Going on after a switch\<close>

definition resume_thread :: "nat \<Rightarrow> lkernel \<Rightarrow> (flow \<times> u8 list \<times> lkernel) option" where
  "resume_thread c k = do {
     cpu \<leftarrow> cpu_at k c;
     let f = current_thread cpu;
     let k' = put_resume f Done k;
     case resume k f of
       Done \<Rightarrow> Some (Ret, [], k)
     | ToOwn m \<Rightarrow> do { k \<leftarrow> acquire_own c m k'; Some (Ret, [], k) }
     | ToAcquire m \<Rightarrow> do { (fl, k) \<leftarrow> acquire c m k'; Some (fl, [], k) }
     | ToSend m bs \<Rightarrow> (case bs of
           [] \<Rightarrow> Some (Ret, [], k')
         | b # bs \<Rightarrow> do { k \<leftarrow> send_byte m b k'; (fl, k) \<leftarrow> send c m bs k; Some (fl, [], k) })
     | ToRecv m n got \<Rightarrow> do { (b, k) \<leftarrow> recv_byte m k'; recv c m (n - 1) (got @ [b]) k }
   }"

section \<open>The objects of a process\<close>

text \<open>The destructors: the pool forgets the object and the threads in its queues are woken.\<close>

definition destroy :: "u64 \<Rightarrow> lkernel \<Rightarrow> lkernel option" where
  "destroy obj k =
     (case kind k obj of
        MutexLock \<Rightarrow> wakeup_all (WaitObj obj) (k\<lparr>mutex_pool := id_remove obj (mutex_pool k)\<rparr>)
      | Barrier \<Rightarrow> wakeup_all (WaitObj obj) (k\<lparr>barrier_pool := id_remove obj (barrier_pool k)\<rparr>)
      | Condition \<Rightarrow> wakeup_all (WaitObj obj) (k\<lparr>condition_pool := id_remove obj (condition_pool k)\<rparr>)
      | Mailbox \<Rightarrow> do {
          k \<leftarrow> wakeup_all (RecvObj obj) (k\<lparr>mailbox_pool := id_remove obj (mailbox_pool k)\<rparr>);
          wakeup_all (SendObj obj) k
        })"

text \<open>\<open>KernelObject::on_process_unregister\<close> and its override in \<open>mutex_lock\<close>.\<close>

definition unregister :: "nat \<Rightarrow> u64 \<Rightarrow> lkernel \<Rightarrow> lkernel option" where
  "unregister p obj k = do {
     k \<leftarrow> (if kind k obj = MutexLock then release p obj k else Some k);
     let s = on_process_unregister obj (kobjs k);
     let k = k\<lparr>kobjs := s\<rparr>;
     if ref_count s obj = 0 then destroy obj k else Some k
   }"

definition drop_objects :: "nat \<Rightarrow> lkernel \<Rightarrow> lkernel option" where
  "drop_objects p k = trie_foreach (kernel_objects (kobjs k) p) (\<lambda>obj r. r \<bind> unregister p obj) (Some k)"

definition close_handle :: "nat \<Rightarrow> id_pool \<Rightarrow> nat \<Rightarrow> lkernel \<Rightarrow> lkernel option" where
  "close_handle c pool h k =
     (case id_get h pool of
        None \<Rightarrow> Some k
      | Some obj \<Rightarrow> do {
          p \<leftarrow> current_process c k;
          let (found, t) = trie_remove (kernel_objects (kobjs k) p) (obj2key obj);
          let k = k\<lparr>kobjs := (kobjs k)\<lparr>kernel_objects := (kernel_objects (kobjs k))(p := t)\<rparr>\<rparr>;
          if \<not> found then Some k else unregister p obj k
        })"

section \<open>System calls\<close>

text \<open>\<open>created\<close> is the address of the object that \<open>create_fn\<close> makes if the key is new.\<close>

definition mutex_init :: "nat \<Rightarrow> nat \<Rightarrow> u64 \<Rightarrow> lkernel \<Rightarrow> (nat \<times> lkernel) option" where
  "mutex_init c key created k = do {
     p \<leftarrow> current_process c k;
     let k' = (if trie_lookup (keymap (mutex_pool k)) key = None
               then put_mutex created \<lparr>m_lock = False, owner = None\<rparr> (k\<lparr>kind := (kind k)(created := MutexLock)\<rparr>) else k);
     (h, pool, s) \<leftarrow> id_init p key created (mutex_pool k) (kobjs k);
     Some (h, k'\<lparr>mutex_pool := pool, kobjs := s\<rparr>)
   }"

definition mutex_acquire :: "nat \<Rightarrow> nat \<Rightarrow> lkernel \<Rightarrow> (flow \<times> lkernel) option" where
  "mutex_acquire c h k = (case id_get h (mutex_pool k) of None \<Rightarrow> Some (Ret, k) | Some m \<Rightarrow> acquire c m k)"

definition mutex_release :: "nat \<Rightarrow> nat \<Rightarrow> lkernel \<Rightarrow> lkernel option" where
  "mutex_release c h k =
     (case id_get h (mutex_pool k) of None \<Rightarrow> Some k | Some m \<Rightarrow> do { p \<leftarrow> current_process c k; release p m k })"

definition sys_barrier_init :: "nat \<Rightarrow> nat \<Rightarrow> u64 \<Rightarrow> u64 \<Rightarrow> lkernel \<Rightarrow> (nat \<times> lkernel) option" where
  "sys_barrier_init c key g created k = do {
     p \<leftarrow> current_process c k;
     let k' = (if trie_lookup (keymap (barrier_pool k)) key = None
               then put_barrier created \<lparr>goal = g, count = 0\<rparr> (k\<lparr>kind := (kind k)(created := Barrier)\<rparr>) else k);
     (h, pool, s) \<leftarrow> id_init p key created (barrier_pool k) (kobjs k);
     Some (h, k'\<lparr>barrier_pool := pool, kobjs := s\<rparr>)
   }"

definition sys_barrier_wait :: "nat \<Rightarrow> nat \<Rightarrow> lkernel \<Rightarrow> (flow \<times> lkernel) option" where
  "sys_barrier_wait c h k = (case id_get h (barrier_pool k) of None \<Rightarrow> Some (Ret, k) | Some b \<Rightarrow> barrier_wait c b k)"

definition sys_barrier_destroy :: "nat \<Rightarrow> nat \<Rightarrow> lkernel \<Rightarrow> lkernel option" where
  "sys_barrier_destroy c h k = close_handle c (barrier_pool k) h k"

definition sys_condition_init :: "nat \<Rightarrow> nat \<Rightarrow> u64 \<Rightarrow> lkernel \<Rightarrow> (nat \<times> lkernel) option" where
  "sys_condition_init c key created k = do {
     p \<leftarrow> current_process c k;
     let k' = (if trie_lookup (keymap (condition_pool k)) key = None then k\<lparr>kind := (kind k)(created := Condition)\<rparr> else k);
     (h, pool, s) \<leftarrow> id_init p key created (condition_pool k) (kobjs k);
     Some (h, k'\<lparr>condition_pool := pool, kobjs := s\<rparr>)
   }"

definition sys_condition_wait :: "nat \<Rightarrow> nat \<Rightarrow> nat \<Rightarrow> lkernel \<Rightarrow> (flow \<times> lkernel) option" where
  "sys_condition_wait c hc hm k =
     (case (id_get hc (condition_pool k), id_get hm (mutex_pool k)) of
        (Some cond, Some m) \<Rightarrow> do { k \<leftarrow> condition_wait c cond m k; Some (Away, k) }
      | _ \<Rightarrow> Some (Ret, k))"

definition sys_condition_signal :: "nat \<Rightarrow> lkernel \<Rightarrow> lkernel option" where
  "sys_condition_signal h k = (case id_get h (condition_pool k) of None \<Rightarrow> Some k | Some cond \<Rightarrow> condition_signal cond k)"

definition sys_condition_broadcast :: "nat \<Rightarrow> lkernel \<Rightarrow> lkernel option" where
  "sys_condition_broadcast h k = (case id_get h (condition_pool k) of None \<Rightarrow> Some k | Some cond \<Rightarrow> condition_broadcast cond k)"

definition sys_condition_destroy :: "nat \<Rightarrow> nat \<Rightarrow> lkernel \<Rightarrow> lkernel option" where
  "sys_condition_destroy c h k = close_handle c (condition_pool k) h k"

text \<open>The key of a mailbox is a hash of its name.\<close>

definition mbox_key :: "u8 list \<Rightarrow> u64" where
  "mbox_key nam = fold (\<lambda>ch key. key * 131 + ucast ch) (takeWhile (\<lambda>ch. ch \<noteq> 0) nam) 0"

definition sys_mbox_open :: "nat \<Rightarrow> u8 list \<Rightarrow> u64 \<Rightarrow> lkernel \<Rightarrow> (nat \<times> lkernel) option" where
  "sys_mbox_open c nam created k = do {
     p \<leftarrow> current_process c k;
     let key = unat (mbox_key nam);
     let k' = (if trie_lookup (keymap (mailbox_pool k)) key = None
               then put_mail created [] (k\<lparr>kind := (kind k)(created := Mailbox)\<rparr>) else k);
     (h, pool, s) \<leftarrow> id_init p key created (mailbox_pool k) (kobjs k);
     Some (h, k'\<lparr>mailbox_pool := pool, kobjs := s\<rparr>)
   }"

definition sys_mbox_close :: "nat \<Rightarrow> nat \<Rightarrow> lkernel \<Rightarrow> lkernel option" where
  "sys_mbox_close c h k = close_handle c (mailbox_pool k) h k"

text \<open>The third component is the result of the call once it has returned: the length, or -1 without a mailbox.\<close>

definition sys_mbox_recv :: "nat \<Rightarrow> nat \<Rightarrow> nat \<Rightarrow> lkernel \<Rightarrow> (flow \<times> u8 list \<times> int \<times> lkernel) option" where
  "sys_mbox_recv c h n k =
     (case id_get h (mailbox_pool k) of
        None \<Rightarrow> Some (Ret, [], -1, k)
      | Some m \<Rightarrow> do { (fl, got, k) \<leftarrow> recv c m n [] k; Some (fl, got, int n, k) })"

definition sys_mbox_send :: "nat \<Rightarrow> nat \<Rightarrow> u8 list \<Rightarrow> lkernel \<Rightarrow> (flow \<times> int \<times> lkernel) option" where
  "sys_mbox_send c h bs k =
     (case id_get h (mailbox_pool k) of
        None \<Rightarrow> Some (Ret, -1, k)
      | Some m \<Rightarrow> do { (fl, k) \<leftarrow> send c m bs k; Some (fl, int (length bs), k) })"

end
