(* ===== verification/LocksProofs.thy ===== *)
theory LocksProofs
  imports Locks
begin

text \<open>
  What the locks promise: mutual exclusion on one CPU and how it is lost on two, first-come hand-over of a mutex, the barrier, and the order of the bytes in a mailbox.
\<close>

section \<open>Frame lemmas\<close>

lemma sched_inv_cong:
  assumes "thread_table k' = thread_table k" "ready_queue k' = ready_queue k" "cpus k' = cpus k" "sleeping_queue k' = sleeping_queue k" "wqs k' = wqs k"
  shows "sched_inv k' = sched_inv k"
proof -
  note q = qs_cong [OF assms(4,5)]
  show ?thesis
    using assms(2,3) thr_cong [OF assms(1)] idle_cong [OF assms(3)] waiting_cong [OF q] queues_ok_cong [OF q] cpus_ok_cong [OF assms(3)] cur_cong [OF assms(3)]
    by (simp add: sched_inv_def satp_ok_def places_def thread_ok_def)
qed

lemma healthy_cong:
  assumes "thread_table k' = thread_table k" "ready_queue k' = ready_queue k" "cpus k' = cpus k" "sleeping_queue k' = sleeping_queue k"
    "process_table k' = process_table k" "timer k' = timer k"
  shows "healthy c k' = healthy c k"
proof -
  have "allowed k' = allowed k" using prc_cong [OF assms(5)] by (simp add: allowed_def fun_eq_iff)
  moreover have "due k' = due k" using assms(4,6) by (simp add: due_def)
  ultimately show ?thesis using assms(2) thr_cong [OF assms(1)] cur_cong [OF assms(3)] by (simp add: healthy_def sound_def)
qed

lemma put_healthy [simp, frame_simps]:
  "healthy c (put_mutex m mu k) = healthy c k" "healthy c (put_barrier b ba k) = healthy c k"
  by (rule healthy_cong; simp add: put_mutex_def put_barrier_def)+

lemma put_frame [simp, frame_simps]:
  "sched_inv (put_mutex m mu k) = sched_inv k" "sched_inv (put_barrier b ba k) = sched_inv k" "sched_inv (put_mail mb ms k) = sched_inv k"
  "sched_inv (put_resume t r k) = sched_inv k"
  by (rule sched_inv_cong; simp add: put_mutex_def put_barrier_def put_mail_def put_resume_def)+

lemma put_wqs [simp, frame_simps]:
  "wqs (put_mutex m mu k) = wqs k" "wqs (put_barrier b ba k) = wqs k" "wqs (put_mail mb ms k) = wqs k" "wqs (put_resume t r k) = wqs k"
  by (simp_all add: put_mutex_def put_barrier_def put_mail_def put_resume_def)

lemma put_cpus [simp, frame_simps]:
  "cpus (put_mutex m mu k) = cpus k" "cpus (put_barrier b ba k) = cpus k" "cpus (put_mail mb ms k) = cpus k" "cpus (put_resume t r k) = cpus k"
  by (simp_all add: put_mutex_def put_barrier_def put_mail_def put_resume_def)

lemma put_thr_of [simp, frame_simps]:
  "thr (put_mutex m mu k) = thr k" "thr (put_barrier b ba k) = thr k" "thr (put_mail mb ms k) = thr k" "thr (put_resume t r k) = thr k"
  by (rule thr_cong; simp add: put_mutex_def put_barrier_def put_mail_def put_resume_def)+

lemma put_cur [simp, frame_simps]:
  "cur (put_mutex m mu k) = cur k" "cur (put_barrier b ba k) = cur k" "cur (put_mail mb ms k) = cur k" "cur (put_resume t r k) = cur k"
  by (rule cur_cong, simp)+

lemma put_fields [simp, frame_simps]:
  "mutexes (put_mutex m mu k) = (mutexes k)(m := mu)" "resume (put_mutex m mu k) = resume k" "mutexes (put_resume t r k) = mutexes k"
  "resume (put_resume t r k) = (resume k)(t := r)" "mailboxes (put_mail mb ms k) = (mailboxes k)(mb := ms)" "mailboxes (put_resume t r k) = mailboxes k"
  "barriers (put_barrier b ba k) = (barriers k)(b := ba)" "ready_queue (put_mutex m mu k) = ready_queue k" "ready_queue (put_mail mb ms k) = ready_queue k"
  "ready_queue (put_barrier b ba k) = ready_queue k" "process_table (put_barrier b ba k) = process_table k"
  by (simp_all add: put_mutex_def put_barrier_def put_mail_def put_resume_def)

text \<open>The fields of the locks are the extension of the kernel record.\<close>

lemma more_fields:
  assumes "kernel.more k' = kernel.more k"
  shows "mutexes k' = mutexes k" "resume k' = resume k" "mailboxes k' = mailboxes k" "barriers k' = barriers k"
  using assms by (cases k; cases k'; simp add: lkernel.defs)+

section \<open>Mutual exclusion\<close>

text \<open>
  One step of the system: a thread on some CPU does the first part of \<open>acquire\<close>, makes itself the owner (at once, or after it was blocked), or releases a mutex; or a CPU switches threads. A thread
  that is inside \<open>acquire\<close> does nothing else in between, since interrupts are off in the kernel; other CPUs do. \<open>H\<close> is the set of pairs of a thread and a mutex for which \<open>acquire\<close>
  has returned and which no thread of its process has released since. The kernel lets every thread of the owner's process release a mutex; the condition of \<open>released\<close> is that of the user: what the process
  releases is held in this sense, and not a mutex that one of its threads is about to get. A release by a process that does not own the mutex is a step too.
\<close>

inductive lock_step :: "lkernel \<times> (nat \<times> u64) set \<Rightarrow> lkernel \<times> (nat \<times> u64) set \<Rightarrow> bool" where
  reentered: "cur k c = Some t \<Longrightarrow> \<not> idle k t \<Longrightarrow> resume k t = Done \<Longrightarrow> acquire_enter c m k = Some (Held, k') \<Longrightarrow> lock_step (k, H) (k', insert (t, m) H)"
| waits: "cur k c = Some t \<Longrightarrow> \<not> idle k t \<Longrightarrow> resume k t = Done \<Longrightarrow> acquire_enter c m k = Some (Blocked, k') \<Longrightarrow> lock_step (k, H) (k', H)"
| entered: "cur k c = Some t \<Longrightarrow> \<not> idle k t \<Longrightarrow> resume k t = Done \<Longrightarrow> acquire_enter c m k = Some (Free, k') \<Longrightarrow> lock_step (k, H) (put_resume t (ToOwn m) k', H)"
| owns: "cur k c = Some t \<Longrightarrow> resume k t = ToOwn m \<Longrightarrow> resume_thread c k = Some (Ret, out, k') \<Longrightarrow> lock_step (k, H) (k', insert (t, m) H)"
| released: "cur k c = Some t \<Longrightarrow> resume k t = Done \<Longrightarrow> current_process c k = Some p \<Longrightarrow>
    (\<And>u uh. owner (mutexes k m) = Some u \<Longrightarrow> thr k u = Some uh \<Longrightarrow> th_process uh = p \<Longrightarrow> (u, m) \<in> H) \<Longrightarrow> release p m k = Some k' \<Longrightarrow>
    lock_step (k, H) (k', {(u, m') \<in> H. \<not> (m' = m \<and> map_option th_process (thr k u) = Some p)})"
| yielded: "cur k c = Some t \<Longrightarrow> resume k t = Done \<Longrightarrow> yield c k = Some k' \<Longrightarrow> lock_step (k, H) (k', H)"
| ticked: "lock_step (k, H) (k\<lparr>timer := now\<rparr>, H)"

inductive_cases lock_stepE: "lock_step (k, H) s"

text \<open>
  The invariant on one CPU. A thread that is still to make itself the owner is in the queue of the mutex, is its owner already, or has just found the mutex free and is the thread on the CPU.
\<close>

definition lock_inv :: "lkernel \<times> (nat \<times> u64) set \<Rightarrow> bool" where
  "lock_inv s \<longleftrightarrow> (case s of (k, H) \<Rightarrow> sched_inv k \<and> length (cpus k) = 1 \<and>
     (\<forall>m. owner (mutexes k m) = None \<longrightarrow> wqs k (WaitObj m) = []) \<and>
     (\<forall>t m. (t, m) \<in> H \<longrightarrow> owner (mutexes k m) = Some t \<and> resume k t \<noteq> ToOwn m) \<and>
     (\<forall>t m. t \<in> set (wqs k (WaitObj m)) \<longrightarrow> resume k t = ToOwn m \<and> owner (mutexes k m) \<noteq> Some t) \<and>
     (\<forall>t m. resume k t = ToOwn m \<longrightarrow> t \<in> set (wqs k (WaitObj m)) \<or> owner (mutexes k m) = Some t \<or> owner (mutexes k m) = None \<and> cur k 0 = Some t))"

lemma lock_invD:
  assumes "lock_inv (k, H)"
  shows "sched_inv k" "owner (mutexes k m) = None \<Longrightarrow> wqs k (WaitObj m) = []" "(t, m) \<in> H \<Longrightarrow> owner (mutexes k m) = Some t"
    "(t, m) \<in> H \<Longrightarrow> resume k t \<noteq> ToOwn m" "t \<in> set (wqs k (WaitObj m)) \<Longrightarrow> resume k t = ToOwn m"
    "t \<in> set (wqs k (WaitObj m)) \<Longrightarrow> owner (mutexes k m) \<noteq> Some t"
    "resume k t = ToOwn m \<Longrightarrow> t \<in> set (wqs k (WaitObj m)) \<or> owner (mutexes k m) = Some t \<or> owner (mutexes k m) = None \<and> cur k 0 = Some t"
    "length (cpus k) = 1" "cur k c = Some t \<Longrightarrow> c = 0"
  using assms by (auto simp: lock_inv_def cur_def cpu_at_def split: if_splits)

lemma lock_invI:
  assumes "sched_inv k" "length (cpus k) = 1" "\<And>m. owner (mutexes k m) = None \<Longrightarrow> wqs k (WaitObj m) = []" "\<And>t m. (t, m) \<in> H \<Longrightarrow> owner (mutexes k m) = Some t \<and> resume k t \<noteq> ToOwn m"
    "\<And>t m. t \<in> set (wqs k (WaitObj m)) \<Longrightarrow> resume k t = ToOwn m \<and> owner (mutexes k m) \<noteq> Some t"
    "\<And>t m. resume k t = ToOwn m \<Longrightarrow> t \<notin> set (wqs k (WaitObj m)) \<Longrightarrow> owner (mutexes k m) \<noteq> Some t \<Longrightarrow> owner (mutexes k m) = None \<and> cur k 0 = Some t"
  shows "lock_inv (k, H)"
  unfolding lock_inv_def prod.case using assms by blast

text \<open>While the thread on the CPU is not inside \<open>acquire\<close>, no thread is between its two parts.\<close>

lemma outside:
  assumes "lock_inv (k, H)" "cur k c = Some t" "resume k t = Done" "resume k u = ToOwn m" "u \<notin> set (wqs k (WaitObj m))"
  shows "owner (mutexes k m) = Some u"
  using lock_invD(7) [OF assms(1,4)] lock_invD(9) [OF assms(1,2)] assms(2-5) by auto

lemma current_not_queued:
  assumes "sched_inv k" "cur k c = Some t"
  shows "t \<notin> set (wqs k q)"
proof -
  obtain th where "\<not> waiting k t" by (rule cur_thread_ok [OF assms])
  then show ?thesis by (auto simp: waiting_def qs_def dest!: spec [of _ "Some q"])
qed

lemma lock_inv_reentered:
  assumes "lock_inv (k, H)" "cur k c = Some t" "resume k t = Done" "acquire_enter c m k = Some (Held, k')"
  shows "lock_inv (k', insert (t, m) H)"
proof -
  note i = lock_invD [OF assms(1)]
  from assms(2,4) have 1: "owner (mutexes k m) = Some t" "k' = put_mutex m ((mutexes k m)\<lparr>m_lock := True\<rparr>) k"
    by (auto simp: acquire_enter_def cur_def Let_def bind_Some_iff split: if_splits)
  show ?thesis
  proof (rule lock_invI)
    fix u m' assume "resume k' u = ToOwn m'" "u \<notin> set (wqs k' (WaitObj m'))" "owner (mutexes k' m') \<noteq> Some u"
    then show "owner (mutexes k' m') = None \<and> cur k' 0 = Some u" using outside [OF assms(1-3), of u m'] 1 by (auto split: if_splits)
  qed (use 1 i(1-6,8) assms(3) in \<open>auto split: if_splits\<close>)
qed

lemma lock_inv_entered:
  assumes "lock_inv (k, H)" "cur k c = Some t" "resume k t = Done" "acquire_enter c m k = Some (Free, k')"
  shows "lock_inv (put_resume t (ToOwn m) k', H)"
proof -
  note i = lock_invD [OF assms(1)]
  from assms(2,4) have 1: "owner (mutexes k m) = None" "k' = k"
    by (auto simp: acquire_enter_def cur_def Let_def bind_Some_iff split: if_splits)
  have "(u, m) \<notin> H" for u using i(3) [of u m] 1(1) by auto
  moreover have c: "cur k 0 = Some t" using i(9) [OF assms(2)] assms(2) by simp
  moreover have "t \<notin> set (wqs k (WaitObj m'))" for m' using i(5) [of t m'] assms(3) by auto
  ultimately show ?thesis
  proof (intro lock_invI)
    let ?k = "put_resume t (ToOwn m) k'"
    fix u m' assume "resume ?k u = ToOwn m'" "u \<notin> set (wqs ?k (WaitObj m'))" "owner (mutexes ?k m') \<noteq> Some u"
    then show "owner (mutexes ?k m') = None \<and> cur ?k 0 = Some u" using outside [OF assms(1-3), of u m'] 1 c by (auto split: if_splits)
  qed (use 1 i(1-6,8) in \<open>auto split: if_splits\<close>)
qed

lemma lock_inv_waits:
  assumes "lock_inv (k, H)" "cur k c = Some t" "\<not> idle k t" "resume k t = Done" "acquire_enter c m k = Some (Blocked, k')"
  shows "lock_inv (k', H)"
proof -
  note i = lock_invD [OF assms(1)]
  let ?k = "put_resume t (ToOwn m) k"
  from assms(2,5) have o: "owner (mutexes k m) \<noteq> None" "owner (mutexes k m) \<noteq> Some t" and b: "do_block c (WaitObj m) ?k = Some k'"
    by (auto simp: acquire_enter_def cur_def Let_def bind_Some_iff split: if_splits)
  have "sched_inv ?k" "cur ?k c = Some t" "\<not> idle ?k t" using i(1) assms(2,3) idle_cong [of ?k k] by simp_all
  note d = do_block_inv [OF this b]
  note f = more_fields [OF d(3)]
  have l: "length (cpus k') = 1" using i(8) d(8) [THEN map_eq_imp_length_eq] by simp
  have "(u, m') \<in> H \<Longrightarrow> u = t \<Longrightarrow> m' \<noteq> m" for u m' using i(3) o(2) by auto
  then show ?thesis
  proof (intro lock_invI)
    fix u m' assume "resume k' u = ToOwn m'" "u \<notin> set (wqs k' (WaitObj m'))" "owner (mutexes k' m') \<noteq> Some u"
    then show "owner (mutexes k' m') = None \<and> cur k' 0 = Some u" using outside [OF assms(1,2,4), of u m'] f(1,2) d(2) by (auto split: if_splits)
  qed (use i(1-6) o assms(4) d(1,2) f(1,2) l in \<open>auto split: if_splits\<close>)
qed

lemma lock_inv_owns:
  assumes "lock_inv (k, H)" "cur k c = Some t" "resume k t = ToOwn m" "resume_thread c k = Some (Ret, out, k')"
  shows "lock_inv (k', insert (t, m) H)"
proof -
  note i = lock_invD [OF assms(1)]
  have k': "k' = put_mutex m ((mutexes k m)\<lparr>owner := Some t\<rparr>) (put_resume t Done k)"
    using assms(2-4) by (auto simp: resume_thread_def acquire_own_def cpu_at_def cur_def Let_def bind_Some_iff split: if_splits)
  have nq: "t \<notin> set (wqs k (WaitObj m'))" for m' by (rule current_not_queued [OF i(1) assms(2)])
  have o: "owner (mutexes k m) = Some t \<or> owner (mutexes k m) = None" using i(7) [OF assms(3)] nq [of m] by auto
  have c: "cur k 0 = Some t" using assms(2) i(9) [OF assms(2)] by simp
  have q: "resume k u \<noteq> ToOwn m'" if "owner (mutexes k m') = None" "u \<noteq> t" for u m' using i(2) [OF that(1)] i(7) [of u m'] that c by auto
  have r: "owner (mutexes k m') = Some u" if "resume k u = ToOwn m'" "u \<noteq> t" "u \<notin> set (wqs k (WaitObj m'))" for u m' using i(7) [OF that(1)] that c by auto
  have h: "(u, m) \<in> H \<Longrightarrow> False" for u using i(3,4) [of u m] o assms(3) by auto
  have q2: "u \<notin> set (wqs k (WaitObj m))" if "owner (mutexes k m) = None" for u using i(2) [OF that] by simp
  show ?thesis
  proof (rule lock_invI)
    fix u m' assume u: "resume k' u = ToOwn m'" "u \<notin> set (wqs k' (WaitObj m'))" "owner (mutexes k' m') \<noteq> Some u"
    then have "u \<noteq> t" "resume k u = ToOwn m'" "u \<notin> set (wqs k (WaitObj m'))" by (auto simp: k' split: if_splits)
    from r [OF this(2,1,3)] q [of m u] this o u(3) show "owner (mutexes k' m') = None \<and> cur k' 0 = Some u" by (auto simp: k' split: if_splits)
  next
    fix u m' assume u: "u \<in> set (wqs k' (WaitObj m'))"
    then have "u \<noteq> t" "u \<in> set (wqs k (WaitObj m'))" using nq by (auto simp: k')
    then show "resume k' u = ToOwn m' \<and> owner (mutexes k' m') \<noteq> Some u" using i(5,6) [of u m'] by (auto simp: k')
  next
    fix u m' assume "(u, m') \<in> insert (t, m) H"
    then show "owner (mutexes k' m') = Some u \<and> resume k' u \<noteq> ToOwn m'" using i(3,4) [of u m'] h [of u] by (auto simp: k')
  qed (use i(1,2,8) in \<open>auto simp: k' split: if_splits\<close>)
qed

lemma lock_inv_released:
  assumes "lock_inv (k, H)" "cur k c = Some t" "resume k t = Done" "\<And>u uh. owner (mutexes k m) = Some u \<Longrightarrow> thr k u = Some uh \<Longrightarrow> th_process uh = p \<Longrightarrow> (u, m) \<in> H"
    "release p m k = Some k'"
  shows "lock_inv (k', {(u, m') \<in> H. \<not> (m' = m \<and> map_option th_process (thr k u) = Some p)})" (is "lock_inv (k', ?H)")
proof -
  note i = lock_invD [OF assms(1)]
  obtain w oh where o: "owner (mutexes k m) = Some w" "thr k w = Some oh" using assms(5) by (auto simp: release_def Let_def elim!: bind_SomeE)
  show ?thesis
  proof (cases "th_process oh = p")
    case False
    with o assms(5) have "k' = k" by (auto simp: release_def Let_def bind_Some_iff)
    with assms(1) show ?thesis by (auto simp: lock_inv_def)
  next
    case True
    have oH: "(w, m) \<in> H" by (rule assms(4) [OF o True])
    obtain k1 where k1: "wakeup_one (WaitObj m) k = Some (case wqs k (WaitObj m) of [] \<Rightarrow> None | t # _ \<Rightarrow> Some t, k1)" "sched_inv k1" "wake_frame k k1"
      "wqs k1 = (wqs k)(WaitObj m := tl (wqs k (WaitObj m)))"
      by (rule wakeup_one_inv [OF i(1)])
    note f = more_fields [OF wake_frameD(4) [OF k1(3)]] and cp = wake_frameD(1) [OF k1(3)]
    have k': "k' = put_mutex m ((mutexes k m)\<lparr>owner := case wqs k (WaitObj m) of [] \<Rightarrow> None | t # _ \<Rightarrow> Some t\<rparr>) k1"
      using assms(5) o True k1(1) by (auto simp: release_def Let_def bind_Some_iff)
    have hold: "owner (mutexes k' m') = Some u \<and> resume k' u \<noteq> ToOwn m'" if "(u, m') \<in> ?H" for u m'
    proof -
      have "m' \<noteq> m" using that i(3) [of u m] o True by auto
      with that i(3,4) [of u m'] f(1,2) show ?thesis by (simp add: k')
    qed
    have dist: "distinct (wqs k (WaitObj m))"
      using i(1) by (auto simp: sched_inv_def places_def queues_ok_def disjoint_lists_def qs_def dest!: spec [of _ "Some (WaitObj m)"])
    have out: "resume k u = ToOwn m' \<Longrightarrow> u \<notin> set (wqs k (WaitObj m')) \<Longrightarrow> owner (mutexes k m') = Some u" for u m' by (rule outside [OF assms(1-3)])
    show ?thesis
    proof (cases "wqs k (WaitObj m)")
      case Nil
      have "resume k u \<noteq> ToOwn m" for u using out [of u m] i(4) [OF oH] Nil o by auto
      then show ?thesis
      proof (intro lock_invI)
        fix u m' assume "resume k' u = ToOwn m'" "u \<notin> set (wqs k' (WaitObj m'))" "owner (mutexes k' m') \<noteq> Some u"
        then show "owner (mutexes k' m') = None \<and> cur k' 0 = Some u" using \<open>\<And>u. resume k u \<noteq> ToOwn m\<close> out [of u m'] f(1,2) k1(4) Nil by (auto simp: k' split: if_splits)
      next
        fix u m' assume "(u, m') \<in> ?H"
        then show "owner (mutexes k' m') = Some u \<and> resume k' u \<noteq> ToOwn m'" by (rule hold)
      qed (use i(1,2,5,6,8) k1(2,4) f(1,2) cp Nil in \<open>auto simp: k' split: if_splits\<close>)
    next
      case (Cons u us)
      have v: "resume k v = ToOwn m \<Longrightarrow> v \<in> set (u # us)" for v using out [of v m] i(4) [OF oH] Cons o by auto
      have "resume k u = ToOwn m" using i(5) [of u m] Cons by simp
      then show ?thesis
      proof (intro lock_invI)
        fix x m' assume "resume k' x = ToOwn m'" "x \<notin> set (wqs k' (WaitObj m'))" "owner (mutexes k' m') \<noteq> Some x"
        then show "owner (mutexes k' m') = None \<and> cur k' 0 = Some x" using v [of x] out [of x m'] f(1,2) k1(4) Cons by (auto simp: k' split: if_splits)
      next
        fix u m' assume "(u, m') \<in> ?H"
        then show "owner (mutexes k' m') = Some u \<and> resume k' u \<noteq> ToOwn m'" by (rule hold)
      qed (use i(1,2,5,6,8) k1(2,4) f(1,2) cp Cons dist in \<open>auto simp: k' split: if_splits\<close>)
    qed
  qed
qed

lemma lock_inv_switch:
  assumes "lock_inv (k, H)" "cur k c = Some t" "resume k t = Done" "sched_inv k'" "wqs k' = wqs k" "kernel.more k' = kernel.more k" "length (cpus k') = length (cpus k)"
  shows "lock_inv (k', H)"
proof (rule lock_invI)
  fix u m assume "resume k' u = ToOwn m" "u \<notin> set (wqs k' (WaitObj m))" "owner (mutexes k' m) \<noteq> Some u"
  then show "owner (mutexes k' m) = None \<and> cur k' 0 = Some u" using outside [OF assms(1-3), of u m] assms(5) more_fields [OF assms(6)] by simp
qed (use lock_invD(1-6,8) [OF assms(1)] assms(4,5,7) more_fields [OF assms(6)] in auto)

lemma lock_step_inv:
  assumes "lock_step s s'" "lock_inv s"
  shows "lock_inv s'"
  using assms
proof induction
  case (yielded k c t k' H)
  then have i: "sched_inv k" by (simp add: lock_inv_def)
  have "do_scheduler c None k = Some k'" using yielded by (simp add: yield_def)
  note d = do_scheduler_inv [OF leaving_run [OF i yielded(1)] this]
  show ?case by (rule lock_inv_switch [OF yielded(4,1,2) d(1) sched_frameD(1,4,5) [OF d(2)]])
next
  case (ticked k H now)
  have "sched_inv (k\<lparr>timer := now\<rparr>) = sched_inv k" "cur (k\<lparr>timer := now\<rparr>) = cur k" by (rule sched_inv_cong cur_cong; simp)+
  with ticked show ?case by (simp add: lock_inv_def)
next
  case (reentered k c t m k' H)
  show ?case by (rule lock_inv_reentered [OF reentered(5,1,3,4)])
next
  case (entered k c t m k' H)
  show ?case by (rule lock_inv_entered [OF entered(5,1,3,4)])
next
  case (waits k c t m k' H)
  show ?case by (rule lock_inv_waits [OF waits(5,1-4)])
next
  case (owns k c t m out k' H)
  show ?case by (rule lock_inv_owns [OF owns(4,1-3)])
next
  case (released k c t p m H k')
  show ?case by (rule lock_inv_released [OF released(6,1,2,4,5)])
qed

text \<open>
  C7: Mutual exclusion on one CPU. In every state that is reached from one where no thread holds or waits for a mutex, by any number of steps, at most one thread is between the return of its
  \<open>acquire\<close> and the release of the same mutex by its process, and it is the owner. It is assumed of the programs that a process releases a mutex only when one of its threads has come back
  from \<open>acquire\<close>; releases of mutexes that another process owns are allowed and do nothing.
\<close>

theorem mutex_exclusive:
  assumes "lock_step\<^sup>*\<^sup>* (k0, {}) (k, H)" "length (cpus k0) = 1" "sched_inv k0" "\<forall>m. owner (mutexes k0 m) = None \<and> wqs k0 (WaitObj m) = []" "\<forall>t m. resume k0 t \<noteq> ToOwn m"
    "(t, m) \<in> H" "(t', m) \<in> H"
  shows "t = t' \<and> owner (mutexes k m) = Some t"
proof -
  have "lock_inv (k0, {})" using assms(2-5) by (simp add: lock_inv_def)
  with assms(1) have "lock_inv (k, H)" by (induction rule: rtranclp_induct) (auto intro: lock_step_inv)
  from lock_invD(3) [OF this assms(6)] lock_invD(3) [OF this assms(7)] show ?thesis by simp
qed

text \<open>The kernel of one CPU with locks that nobody uses.\<close>

definition lkernel0 :: lkernel where
  "lkernel0 = kernel.extend kernel0 (lkernel.fields (\<lambda>_. \<lparr>m_lock = False, owner = None\<rparr>) (\<lambda>_. \<lparr>goal = 2, count = 0\<rparr>) (\<lambda>_. []) (\<lambda>_. MutexLock)
     \<lparr>keymap = trie_new, table = [], handle = (\<lambda>_. 0), trie_idx = (\<lambda>_. 0)\<rparr> \<lparr>keymap = trie_new, table = [], handle = (\<lambda>_. 0), trie_idx = (\<lambda>_. 0)\<rparr>
     \<lparr>keymap = trie_new, table = [], handle = (\<lambda>_. 0), trie_idx = (\<lambda>_. 0)\<rparr> \<lparr>keymap = trie_new, table = [], handle = (\<lambda>_. 0), trie_idx = (\<lambda>_. 0)\<rparr>
     \<lparr>ref_count = (\<lambda>_. 0), alive = (\<lambda>_. False), kernel_objects = (\<lambda>_. trie_new)\<rparr> (\<lambda>_. Done))"

lemma lkernel0_fields [simp]:
  "mutexes lkernel0 m = \<lparr>m_lock = False, owner = None\<rparr>" "barriers lkernel0 b = \<lparr>goal = 2, count = 0\<rparr>" "mailboxes lkernel0 m = []" "resume lkernel0 t = Done"
  "wqs lkernel0 q = []" "cpus lkernel0 = cpus kernel0" "thread_table lkernel0 = thread_table kernel0" "ready_queue lkernel0 = ready_queue kernel0"
  "sleeping_queue lkernel0 = sleeping_queue kernel0" "timer lkernel0 = timer kernel0" "process_table lkernel0 = process_table kernel0"
  by (simp_all add: lkernel0_def kernel.defs lkernel.defs) (simp_all add: kernel0_def)

lemma lkernel0_inv: "sched_inv lkernel0"
proof -
  have "sched_inv lkernel0 = sched_inv kernel0" by (rule sched_inv_cong) (simp_all add: fun_eq_iff, simp add: kernel0_def)
  with kernel0_inv show ?thesis by simp
qed

lemma lkernel0_cur: "cur lkernel0 = (\<lambda>_. None)(0 := Some 1)" "idle lkernel0 t \<longleftrightarrow> t = 0"
  using cur_cong [of lkernel0 kernel0] idle_cong [of lkernel0 kernel0] by (simp_all add: kernel0_simps)

lemma resume_own:
  assumes "cur k c = Some t" "resume k t = ToOwn m"
  shows "resume_thread c k = Some (Ret, [], put_mutex m ((mutexes k m)\<lparr>owner := Some t\<rparr>) (put_resume t Done k))"
  using assms by (auto simp: resume_thread_def acquire_own_def cpu_at_def cur_def Let_def split: if_splits)

lemma enter_free:
  assumes "cur k c = Some t" "owner (mutexes k m) = None" "\<not> m_lock (mutexes k m)"
  shows "acquire_enter c m k = Some (Free, k)"
  using assms by (auto simp: acquire_enter_def cpu_at_def cur_def Let_def split: if_splits)

theorem mutex_exclusive_witness: "\<exists>k. lock_step\<^sup>*\<^sup>* (lkernel0, {}) (k, {(1, 7)}) \<and> owner (mutexes k 7) = Some 1"
proof -
  let ?k = "put_resume 1 (ToOwn 7) lkernel0"
  have c: "cur lkernel0 0 = Some 1" "cur ?k 0 = Some 1" "\<not> idle lkernel0 1" by (simp_all add: lkernel0_cur)
  have 1: "lock_step (lkernel0, {}) (?k, {})" by (rule lock_step.entered [OF c(1,3) _ enter_free [OF c(1)]]) simp_all
  have 2: "lock_step (?k, {}) (put_mutex 7 ((mutexes ?k 7)\<lparr>owner := Some 1\<rparr>) (put_resume 1 Done ?k), {(1, 7)})"
    by (rule lock_step.owns [OF c(2) _ resume_own [OF c(2)]]) simp_all
  from 1 2 have st: "lock_step\<^sup>*\<^sup>* (lkernel0, {}) (put_mutex 7 ((mutexes ?k 7)\<lparr>owner := Some 1\<rparr>) (put_resume 1 Done ?k), {(1, 7)})" by (meson r_into_rtranclp rtranclp_trans)
  from mutex_exclusive [OF st _ lkernel0_inv, of 1 7 1] st show ?thesis by (auto simp: kernel0_simps)
qed

section \<open>Two CPUs\<close>

text \<open>
  C8: Two CPUs break the mutual exclusion. \<open>acquire\<close> leaves the spin lock before it makes the caller the owner. If threads on two CPUs call it for a mutex that is free, both can find it free before
  either is the owner: both calls return, and both threads hold the mutex.
\<close>

theorem mutex_race:
  assumes "cur k c = Some t" "cur k c' = Some t'" "t \<noteq> t'" "\<not> idle k t" "\<not> idle k t'" "resume k t = Done" "resume k t' = Done" "owner (mutexes k m) = None" "\<not> m_lock (mutexes k m)"
  shows "\<exists>k'. lock_step\<^sup>*\<^sup>* (k, {}) (k', {(t, m), (t', m)}) \<and> owner (mutexes k' m) = Some t'"
proof -
  let ?a = "put_resume t (ToOwn m) k"
  let ?b = "put_resume t' (ToOwn m) ?a"
  let ?c = "put_mutex m ((mutexes ?b m)\<lparr>owner := Some t\<rparr>) (put_resume t Done ?b)"
  let ?d = "put_mutex m ((mutexes ?c m)\<lparr>owner := Some t'\<rparr>) (put_resume t' Done ?c)"
  have i: "\<not> idle ?a t'" using assms(5) idle_cong [of ?a k] by simp
  have 1: "lock_step (k, {}) (?a, {})" by (rule lock_step.entered [OF assms(1,4,6) enter_free [OF assms(1,8,9)]])
  have 2: "lock_step (?a, {}) (?b, {})" by (rule lock_step.entered [of _ c', OF _ i _ enter_free]) (use assms in simp_all)
  have 3: "lock_step (?b, {}) (?c, {(t, m)})" by (rule lock_step.owns [of _ c, OF _ _ resume_own]) (use assms in simp_all)
  have 4: "lock_step (?c, {(t, m)}) (?d, {(t', m), (t, m)})" by (rule lock_step.owns [of _ c', OF _ _ resume_own]) (use assms in simp_all)
  note converse_rtranclp_into_rtranclp [of lock_step, OF 1 converse_rtranclp_into_rtranclp [OF 2 converse_rtranclp_into_rtranclp [OF 3 r_into_rtranclp [of lock_step, OF 4]]]]
  then show ?thesis by (intro exI [of _ ?d]) (simp add: insert_commute)
qed

definition lkernel2 :: lkernel where
  "lkernel2 = lkernel0\<lparr>thread_table := [Some (thread0 0 False), Some (thread0 1 True), Some ((thread0 2 True)\<lparr>running_cpu := Some 1\<rparr>), Some (thread0 0 False)], ready_queue := [],
     cpus := [\<lparr>current_thread = 1, idle_thread = 0, hartid = 0, satp = 1\<rparr>, \<lparr>current_thread = 2, idle_thread = 3, hartid = 1, satp = 2\<rparr>]\<rparr>"

lemma lkernel2_simps:
  "cur lkernel2 = (\<lambda>_. None)(0 := Some 1, 1 := Some 2)" "\<not> waiting lkernel2 t" "idle lkernel2 t \<longleftrightarrow> t = 0 \<or> t = 3"
  "thr lkernel2 t = (if t = 0 \<or> t = 3 then Some (thread0 0 False) else if t = 1 then Some (thread0 1 True) else if t = 2 then Some ((thread0 2 True)\<lparr>running_cpu := Some 1\<rparr>) else None)"
  "length (cpus lkernel2) = 2" "idle_thread (cpus lkernel2 ! 0) = 0" "idle_thread (cpus lkernel2 ! Suc 0) = 3" "ready_queue lkernel2 = []" "resume lkernel2 t = Done"
  "mutexes lkernel2 m = \<lparr>m_lock = False, owner = None\<rparr>" "wqs lkernel2 q = []"
  by (auto simp: lkernel2_def cur_def cpu_at_def waiting_def qs_def sleepers_def idle_def thr_def fun_eq_iff nth_Cons' less_Suc_eq numeral_2_eq_2 numeral_3_eq_3 kernel0_def split: option.splits)

lemma lkernel2_inv: "sched_inv lkernel2"
proof -
  have l: "c < length (cpus lkernel2) \<longleftrightarrow> c = 0 \<or> c = 1" for c by (auto simp: lkernel2_simps)
  have "cpus_ok (cur lkernel2) lkernel2" unfolding cpus_ok_def l by (auto simp: lkernel2_simps dom_def inj_on_def less_Suc_eq numeral_2_eq_2 split: if_splits)
  moreover have "queues_ok lkernel2" by (auto simp: queues_ok_def disjoint_lists_def qs_def sleepers_def lkernel2_def kernel0_def split: option.splits)
  moreover have R: "ran (cur lkernel2) = {1, 2}" by (auto simp: lkernel2_simps ran_def)
  have C: "cur lkernel2 c = Some t \<longleftrightarrow> c = 0 \<and> t = 1 \<or> c = 1 \<and> t = 2" for c t by (auto simp: lkernel2_simps)
  have "thread_ok (cur lkernel2) {} lkernel2 t th" if "thr lkernel2 t = Some th" for t th
  proof -
    from that consider "t = 0 \<or> t = 3" "th = thread0 0 False" | "t = 1" "th = thread0 1 True" | "t = 2" "th = (thread0 2 True)\<lparr>running_cpu := Some 1\<rparr>"
      unfolding lkernel2_simps(4) by (auto split: if_splits)
    then show ?thesis unfolding thread_ok_def R C lkernel2_simps(3,8) by cases (auto simp: thread0_def lkernel2_simps(2))
  qed
  moreover have "satp_ok lkernel2" unfolding satp_ok_def l by (auto simp: lkernel2_def thr_def thread0_def)
  ultimately show ?thesis unfolding sched_inv_def places_def R by (auto simp: lkernel2_simps)
qed

theorem mutex_race_witness: "\<exists>k'. sched_inv lkernel2 \<and> lock_step\<^sup>*\<^sup>* (lkernel2, {}) (k', {(1, 7), (2, 7)}) \<and> owner (mutexes k' 7) = Some 2"
  using mutex_race [of lkernel2 0 1 1 2 7] lkernel2_inv by (simp add: lkernel2_simps)

section \<open>Waiting for a mutex ends\<close>

text \<open>The owner releases the mutex, then the thread that got it, and so on.\<close>

primrec handovers :: "nat \<Rightarrow> u64 \<Rightarrow> lkernel \<Rightarrow> lkernel option" where
  "handovers 0 m k = Some k"
| "handovers (Suc n) m k = do {
     t \<leftarrow> owner (mutexes k m);
     th \<leftarrow> thr k t;
     k \<leftarrow> release (th_process th) m k;
     handovers n m k
   }"

lemma release_owner:
  assumes "sched_inv k" "owner (mutexes k m) = Some t" "thr k t = Some th" "\<not> m_lock (mutexes k m)" "wqs k (WaitObj m) = u # us"
  obtains k' uh where "release (th_process th) m k = Some k'" "sched_inv k'" "owner (mutexes k' m) = Some u" "thr k' u = Some uh" "\<not> m_lock (mutexes k' m)"
    "wqs k' (WaitObj m) = us" "ready_queue k' = ready_queue k @ live k [u]" "wake_frame k (put_mutex m (mutexes k m) k')"
proof -
  obtain k1 where k1: "wakeup_one (WaitObj m) k = Some (Some u, k1)" "sched_inv k1" "wake_frame k k1"
    "wqs k1 = (wqs k)(WaitObj m := us)" "ready_queue k1 = ready_queue k @ live k [u]"
    using wakeup_one_inv [OF assms(1), of "WaitObj m"] assms(5) by auto
  have "waiting k u" using assms(5) by (auto simp: waiting_def qs_def intro!: exI [of _ "Some (WaitObj m)"])
  then obtain uh0 where "thr k u = Some uh0" using assms(1) placesD(5) [of "cur k" "{}" k u] by (auto simp: sched_inv_def)
  then obtain uh where uh: "thr k1 u = Some uh" using wake_frameD(5) [OF k1(3)] by blast
  let ?k = "put_mutex m ((mutexes k m)\<lparr>owner := Some u\<rparr>) k1"
  have r: "release (th_process th) m k = Some ?k" using assms(2-4) k1(1) by (simp add: release_def Let_def)
  have same: "put_mutex m (mutexes k m) ?k = k1" using more_fields(1) [OF wake_frameD(4) [OF k1(3)]] by (simp add: put_mutex_def)
  from that [OF r] k1 uh assms(4) show thesis unfolding same by simp
qed

text \<open>
  C18: A thread that waits for a mutex gets it, in the order of the queue. If it has \<open>n\<close> threads before it, it is the owner after the owner of the mutex has released it \<open>n + 1\<close> times, each
  owner once, and unless it has exited it is in the ready queue then. No thread that comes later can take the mutex before it.
\<close>

theorem mutex_handed_over:
  assumes "sched_inv k" "owner (mutexes k m) = Some ow" "thr k ow \<noteq> None" "\<not> m_lock (mutexes k m)" "wqs k (WaitObj m) = before @ t # behind"
  shows "\<exists>k'. handovers (length before + 1) m k = Some k' \<and> sched_inv k' \<and> owner (mutexes k' m) = Some t \<and> wqs k' (WaitObj m) = behind \<and>
    (\<forall>th. thr k' t = Some th \<and> \<not> status_exited th \<longrightarrow> t \<in> set (ready_queue k'))"
  using assms
proof (induction before arbitrary: k ow)
  case Nil
  from Nil(3) obtain oh where oh: "thr k ow = Some oh" by auto
  obtain k' uh where k': "release (th_process oh) m k = Some k'" "sched_inv k'" "owner (mutexes k' m) = Some t" "thr k' t = Some uh" "wqs k' (WaitObj m) = behind"
    "ready_queue k' = ready_queue k @ live k [t]" "wake_frame k (put_mutex m (mutexes k m) k')"
    by (rule release_owner [OF Nil(1,2) oh Nil(4)]) (use Nil(5) in simp)
  have "map_option unblocked (thr k' t) = map_option unblocked (thr k t)" using k'(7) by (simp add: wake_frame_def)
  then have "t \<in> set (ready_queue k')" if "\<not> status_exited uh"
    using that k'(4,6) by (cases "thr k t") (auto simp: live_def dest: unblocked_eqD)
  with k' Nil(2) oh show ?case by simp
next
  case (Cons u before)
  from Cons.prems(3) obtain oh where oh: "thr k ow = Some oh" by auto
  obtain k' uh where k': "release (th_process oh) m k = Some k'" "sched_inv k'" "owner (mutexes k' m) = Some u" "thr k' u = Some uh" "\<not> m_lock (mutexes k' m)"
    "wqs k' (WaitObj m) = before @ t # behind"
    by (rule release_owner [OF Cons.prems(1,2) oh Cons.prems(4)]) (use Cons.prems(5) in simp)
  from Cons.IH [OF k'(2,3) _ k'(5,6)] k'(1,4) Cons.prems(2) oh show ?case by simp
qed

lemma lkernel0_healthy: "healthy 0 lkernel0"
  using healthy_cong [of lkernel0 kernel0 0] kernel0_healthy by simp

theorem mutex_handed_over_witness:
  "\<exists>k k'. wqs k (WaitObj 7) = [1] \<and> handovers 1 7 k = Some k' \<and> owner (mutexes k' 7) = Some 1"
proof -
  let ?k = "put_mutex 7 \<lparr>m_lock = False, owner = Some 2\<rparr> lkernel0"
  have "healthy 0 ?k" using lkernel0_healthy by simp
  then obtain k where k: "do_block 0 (WaitObj 7) ?k = Some k"
    using do_block_total [of ?k 0 1 "WaitObj 7"] lkernel0_inv idle_cong [of ?k lkernel0] by (auto simp: lkernel0_cur)
  have pre: "sched_inv ?k" "cur ?k 0 = Some 1" "\<not> idle ?k 1" using lkernel0_inv idle_cong [of ?k lkernel0] by (simp_all add: lkernel0_cur)
  note d = do_block_inv [OF pre k]
  have q: "wqs k (WaitObj 7) = [] @ 1 # []" using d(2) by simp
  have mu: "mutexes k 7 = \<lparr>m_lock = False, owner = Some 2\<rparr>" using more_fields(1) [OF d(3)] by simp
  have "thr lkernel0 2 \<noteq> None" using thr_cong [of lkernel0 kernel0] by (simp add: kernel0_simps)
  then have "thr k 2 \<noteq> None" using d(7) [of 2] by auto
  from mutex_handed_over [OF d(1) _ this _ q] mu q show ?thesis by auto
qed

section \<open>Barriers\<close>

definition barrier_ok :: "u64 \<Rightarrow> lkernel \<Rightarrow> bool" where
  "barrier_ok b k \<longleftrightarrow> unat (count (barriers k b)) = length (wqs k (WaitObj b)) \<and> count (barriers k b) < goal (barriers k b)"

text \<open>
  C32: A barrier opens when the last of its threads arrives and not before. As long as fewer than \<open>goal\<close> threads have come, the caller is put at the end of the queue and blocked; the call that
  completes the number wakes every thread of the queue (those that have not exited become ready, in their order), returns at once and leaves the barrier empty for the next round. The number of
  threads that have arrived is always the length of the queue.
\<close>

theorem barrier_opens:
  assumes "sched_inv k" "cur k c = Some f" "\<not> idle k f" "healthy c k" "barrier_ok b k"
  shows "\<exists>fl k'. barrier_wait c b k = Some (fl, k') \<and> sched_inv k' \<and> barrier_ok b k' \<and>
    (if length (wqs k (WaitObj b)) + 1 < unat (goal (barriers k b))
     then fl = Away \<and> wqs k' (WaitObj b) = wqs k (WaitObj b) @ [f] \<and> f \<notin> ran (cur k')
     else fl = Ret \<and> wqs k' (WaitObj b) = [] \<and> ready_queue k' = ready_queue k @ live k (wqs k (WaitObj b)) \<and> cur k' = cur k)"
proof -
  let ?ba = "barriers k b"
  have n: "unat (count ?ba) = length (wqs k (WaitObj b))" "count ?ba < goal ?ba" using assms(5) by (auto simp: barrier_ok_def)
  have lt: "unat (count ?ba) < unat (goal ?ba)" using n(2) by (simp add: word_less_nat_alt)
  have "unat (count ?ba) + 1 < 2 ^ 64 " using lt unsigned_less [of "goal ?ba", where 'a = nat] by simp
  then have s: "unat (count ?ba + 1) = unat (count ?ba) + 1" by (simp add: unat_word_ariths)
  have t: "count ?ba + 1 < goal ?ba \<longleftrightarrow> length (wqs k (WaitObj b)) + 1 < unat (goal ?ba)" by (simp add: word_less_nat_alt s n(1))
  show ?thesis
  proof (cases "count ?ba + 1 < goal ?ba")
    case True
    let ?k = "put_barrier b (?ba\<lparr>count := count ?ba + 1\<rparr>) k"
    have pre: "sched_inv ?k" "cur ?k c = Some f" "\<not> idle ?k f" "healthy c ?k"
      using assms(1-4) idle_cong [of ?k k] by simp_all
    then obtain k' where k': "do_block c (WaitObj b) ?k = Some k'" using do_block_total by blast
    note d = do_block_inv [OF pre(1-3) k']
    have "barrier_wait c b k = Some (Away, k')" using True k' by (simp add: barrier_wait_def Let_def)
    moreover have "barrier_ok b k'" using more_fields(4) [OF d(3)] d(2) s n(1) True by (simp add: barrier_ok_def)
    ultimately show ?thesis using d(1,2,6) True t by simp
  next
    case False
    let ?k = "put_barrier b (?ba\<lparr>count := 0\<rparr>) k"
    have "sched_inv ?k" using assms(1) by simp
    then obtain k' where k': "wakeup_all (WaitObj b) ?k = Some k'" "sched_inv k'" "wake_frame ?k k'" "wqs k' = (wqs ?k)(WaitObj b := [])"
      "ready_queue k' = ready_queue ?k @ live ?k (wqs ?k (WaitObj b))" by (rule wakeup_all_inv)
    have "barrier_wait c b k = Some (Ret, k')" using False k'(1) by (simp add: barrier_wait_def Let_def)
    moreover have "barrier_ok b k'" using more_fields(4) [OF wake_frameD(4) [OF k'(3)]] k'(4) lt by (simp add: barrier_ok_def word_gt_0 word_less_nat_alt)
    moreover have "cur k' = cur k" using cur_cong [OF wake_frameD(1) [OF k'(3)]] by simp
    ultimately show ?thesis using k'(2,4,5) False t by (simp add: live_def)
  qed
qed

theorem barrier_opens_witness: "\<exists>k'. barrier_wait 0 9 lkernel0 = Some (Away, k') \<and> wqs k' (WaitObj 9) = [1]"
proof -
  have "barrier_ok 9 lkernel0" by (simp add: barrier_ok_def)
  from barrier_opens [OF lkernel0_inv _ _ lkernel0_healthy this, of 1] show ?thesis by (auto simp: lkernel0_cur)
qed

section \<open>Mailboxes\<close>

lemma send_room:
  assumes "sched_inv k" "length (mailboxes k m) + length bs \<le> MAX_MSG_SIZE"
  shows "\<exists>k'. send c m bs k = Some (Ret, k') \<and> sched_inv k' \<and> mailboxes k' m = mailboxes k m @ bs"
  using assms
proof (induction bs arbitrary: k)
  case (Cons b bs)
  let ?k = "put_mail m (mailboxes k m @ [b]) k"
  have "sched_inv ?k" using Cons.prems(1) by simp
  then obtain k1 where k1: "wakeup_one (RecvObj m) ?k = Some (case wqs ?k (RecvObj m) of [] \<Rightarrow> None | t # _ \<Rightarrow> Some t, k1)" "sched_inv k1" "wake_frame ?k k1"
    by (rule wakeup_one_inv)
  have mb: "mailboxes k1 m = mailboxes k m @ [b]" using more_fields(3) [OF wake_frameD(4) [OF k1(3)]] by simp
  have "send_byte m b k = Some k1" using k1(1) by (simp add: send_byte_def)
  with Cons.IH [OF k1(2)] Cons.prems(2) mb show ?case by simp
qed simp

lemma recv_there:
  assumes "sched_inv k" "n \<le> length (mailboxes k m)"
  shows "\<exists>k'. recv c m n got k = Some (Ret, got @ take n (mailboxes k m), k') \<and> sched_inv k' \<and> mailboxes k' m = drop n (mailboxes k m)"
  using assms
proof (induction n arbitrary: k got)
  case (Suc n)
  then obtain b ms where ms: "mailboxes k m = b # ms" by (cases "mailboxes k m") auto
  let ?k = "put_mail m ms k"
  have "sched_inv ?k" using Suc.prems(1) by simp
  then obtain k1 where k1: "wakeup_one (SendObj m) ?k = Some (case wqs ?k (SendObj m) of [] \<Rightarrow> None | t # _ \<Rightarrow> Some t, k1)" "sched_inv k1" "wake_frame ?k k1"
    by (rule wakeup_one_inv)
  have mb: "mailboxes k1 m = ms" using more_fields(3) [OF wake_frameD(4) [OF k1(3)]] by simp
  have "recv_byte m k = Some (b, k1)" using k1(1) by (simp add: recv_byte_def ms)
  with Suc.IH [OF k1(2), of "got @ [b]"] Suc.prems(2) mb ms show ?case by simp
qed simp

text \<open>
  C33: A mailbox keeps bytes in order. A message that fits into the free room is sent without blocking and is behind what was in the mailbox; a receiver that asks for as many bytes as there are
  gets them in the order in which they were sent, and the mailbox is empty.
\<close>

theorem mailbox_in_order:
  assumes "sched_inv k" "length (mailboxes k m) + length bs \<le> MAX_MSG_SIZE"
  shows "\<exists>k' k''. send c m bs k = Some (Ret, k') \<and>
    recv c' m (length (mailboxes k m) + length bs) [] k' = Some (Ret, mailboxes k m @ bs, k'') \<and> mailboxes k'' m = [] \<and> sched_inv k''"
proof -
  obtain k' where k': "send c m bs k = Some (Ret, k')" "sched_inv k'" "mailboxes k' m = mailboxes k m @ bs" using send_room [OF assms] by blast
  with recv_there [OF k'(2), of "length (mailboxes k m) + length bs" m c' "[]"] show ?thesis by auto
qed

theorem mailbox_in_order_witness: "\<exists>k' k''. send 0 5 [1, 2, 3] lkernel0 = Some (Ret, k') \<and> recv 0 5 3 [] k' = Some (Ret, [1, 2, 3], k'')"
  using mailbox_in_order [OF lkernel0_inv, of 5 "[1, 2, 3]" 0 0] by (auto simp: eval_nat_numeral)

end
