(* ===== verification/Cache.thy ===== *)
theory Cache
  imports Prelude
begin

text \<open>
  The block cache of the file system, \<open>fs/io.cpp\<close>: 64 slots over the SD card, replaced by age. A
  \<open>Block\<close> of the code is a slot number, and \<open>block.data\<close> is the memory of that slot, so that a slot
  that is given to another block changes under every \<open>Block\<close> that refers to it. The card is the contents
  of its sectors: \<open>bios_sd_read\<close> and \<open>bios_sd_write\<close> copy sectors between memory and the card.
\<close>

section \<open>The code\<close>

type_synonym bytes = "nat \<Rightarrow> u8"

definition BLOCK_SIZE :: nat where "BLOCK_SIZE = 4096"
definition SECTOR_SIZE :: nat where "SECTOR_SIZE = 512"
definition BLOCK_START :: nat where "BLOCK_START = 128 * (1024 * 1024)"
definition BLOCK_END :: nat where "BLOCK_END = 512 * (1024 * 1024)"
definition MAX_BLOCK_NUM :: nat where "MAX_BLOCK_NUM = (BLOCK_END - BLOCK_START) div BLOCK_SIZE"
definition CACHE_SIZE :: nat where "CACHE_SIZE = 64"

record cache_state =
  sd :: "nat \<Rightarrow> bytes"
  cache_data :: "nat \<Rightarrow> bytes"
  cache_blockid :: "nat \<Rightarrow> u32"
  cache_dirty :: "nat \<Rightarrow> bool"
  cache_age :: "nat \<Rightarrow> int"
  age :: int
  policy_writethrough :: bool
  policy_writeback_interval :: int
  last_time :: int

text \<open>The block number is a 32-bit integer and the sector is computed in place, with wrap-around.\<close>

definition block_sector :: "u32 \<Rightarrow> u32" where
  "block_sector blockid = of_nat (BLOCK_START div SECTOR_SIZE) + blockid * 8"

definition bios_sd_read :: "nat \<Rightarrow> nat \<Rightarrow> nat \<Rightarrow> 'a cache_state_scheme \<Rightarrow> 'a cache_state_scheme" where
  "bios_sd_read slot num first s =
     s\<lparr>cache_data := (cache_data s)(slot := (\<lambda>i. if i < num * SECTOR_SIZE
        then sd s (first + i div SECTOR_SIZE) (i mod SECTOR_SIZE) else cache_data s slot i))\<rparr>"

definition bios_sd_write :: "nat \<Rightarrow> nat \<Rightarrow> nat \<Rightarrow> 'a cache_state_scheme \<Rightarrow> 'a cache_state_scheme" where
  "bios_sd_write slot num first s =
     s\<lparr>sd := (\<lambda>sec i. if first \<le> sec \<and> sec < first + num \<and> i < SECTOR_SIZE
        then cache_data s slot ((sec - first) * SECTOR_SIZE + i) else sd s sec i)\<rparr>"

definition read_block_direct :: "nat \<Rightarrow> u32 \<Rightarrow> 'a cache_state_scheme \<Rightarrow> 'a cache_state_scheme option" where
  "read_block_direct slot blockid s =
     (let blockid = block_sector blockid
      in do {
        kassert (unat blockid < BLOCK_END div SECTOR_SIZE);
        Some (bios_sd_read slot 8 (unat blockid) s)
      })"

definition write_block_direct :: "nat \<Rightarrow> u32 \<Rightarrow> 'a cache_state_scheme \<Rightarrow> 'a cache_state_scheme option" where
  "write_block_direct slot blockid s =
     (let blockid = block_sector blockid
      in do {
        kassert (unat blockid < BLOCK_END div SECTOR_SIZE);
        Some (bios_sd_write slot 8 (unat blockid) s)
      })"

text \<open>
  The slots' memory is allocated once and page-aligned (\<open>kalloc\<close> of a whole page), so the assertions
  on the buffer's address hold; the memory itself is the slot.
\<close>

definition cache_init :: "'a cache_state_scheme \<Rightarrow> 'a cache_state_scheme" where
  "cache_init s =
     s\<lparr>cache_blockid := (\<lambda>i. if i < CACHE_SIZE then - 1 else cache_blockid s i),
       cache_dirty := (\<lambda>i. if i < CACHE_SIZE then False else cache_dirty s i),
       cache_age := (\<lambda>i. if i < CACHE_SIZE then - 1 else cache_age s i)\<rparr>"

text \<open>The loop for the oldest slot.\<close>

definition oldest :: "'a cache_state_scheme \<Rightarrow> nat" where
  "oldest s = foldl (\<lambda>selected i. if cache_age s i < cache_age s selected then i else selected) 0 [0 ..< CACHE_SIZE]"

definition touch :: "nat \<Rightarrow> 'a cache_state_scheme \<Rightarrow> 'a cache_state_scheme" where
  "touch i s = s\<lparr>cache_age := (cache_age s)(i := age s), age := age s + 1\<rparr>"

definition cache_find :: "u32 \<Rightarrow> 'a cache_state_scheme \<Rightarrow> (nat \<times> 'a cache_state_scheme) option" where
  "cache_find blockid s =
     (case List.find (\<lambda>i. cache_blockid s i = blockid) [0 ..< CACHE_SIZE] of
        Some i \<Rightarrow> Some (i, touch i s)
      | None \<Rightarrow> do {
          let selected = oldest s;
          s \<leftarrow> (if cache_dirty s selected then write_block_direct selected (cache_blockid s selected) s else Some s);
          let s = s\<lparr>cache_blockid := (cache_blockid s)(selected := blockid)\<rparr>;
          s \<leftarrow> read_block_direct selected blockid s;
          let s = s\<lparr>cache_dirty := (cache_dirty s)(selected := False)\<rparr>;
          Some (selected, touch selected s)
        })"

text \<open>The constructor of \<open>Block\<close>; \<open>block.data\<close> is then \<open>cache_data s cacheid\<close>.\<close>

definition Block :: "u32 \<Rightarrow> 'a cache_state_scheme \<Rightarrow> (nat \<times> 'a cache_state_scheme) option" where
  "Block blockid s = cache_find blockid s"

text \<open>A store to \<open>block.data\<close>.\<close>

definition set_data :: "nat \<Rightarrow> (bytes \<Rightarrow> bytes) \<Rightarrow> 'a cache_state_scheme \<Rightarrow> 'a cache_state_scheme" where
  "set_data cacheid f s = s\<lparr>cache_data := (cache_data s)(cacheid := f (cache_data s cacheid))\<rparr>"

definition update :: "nat \<Rightarrow> 'a cache_state_scheme \<Rightarrow> 'a cache_state_scheme option" where
  "update cacheid s =
     (if policy_writethrough s then write_block_direct cacheid (cache_blockid s cacheid) s
      else Some (s\<lparr>cache_dirty := (cache_dirty s)(cacheid := True)\<rparr>))"

fun writeback_from :: "nat list \<Rightarrow> 'a cache_state_scheme \<Rightarrow> 'a cache_state_scheme option" where
  "writeback_from [] s = Some s"
| "writeback_from (i # is) s = do {
     s \<leftarrow> (if cache_dirty s i
           then do {
             s \<leftarrow> write_block_direct i (cache_blockid s i) s;
             Some (s\<lparr>cache_dirty := (cache_dirty s)(i := False)\<rparr>)
           }
           else Some s);
     writeback_from is s
   }"

definition cache_writeback :: "'a cache_state_scheme \<Rightarrow> 'a cache_state_scheme option" where
  "cache_writeback s = writeback_from [0 ..< CACHE_SIZE] s"

text \<open>\<open>now\<close> and \<open>now'\<close> are what the two calls of \<open>get_timer\<close> return, \<open>free\<close> that \<open>try_lock\<close> succeeds.\<close>

definition cache_scan_timer :: "bool \<Rightarrow> int \<Rightarrow> int \<Rightarrow> 'a cache_state_scheme \<Rightarrow> 'a cache_state_scheme option" where
  "cache_scan_timer free now now' s =
     (if policy_writethrough s then Some s
      else if \<not> free then Some s
      else if last_time s + policy_writeback_interval s < now
      then cache_writeback (s\<lparr>last_time := now'\<rparr>)
      else Some s)"

definition cache_set_policy :: "int \<Rightarrow> 'a cache_state_scheme \<Rightarrow> 'a cache_state_scheme option" where
  "cache_set_policy policy_seconds s =
     (if policy_seconds = - 1
      then cache_writeback (s\<lparr>policy_writethrough := True, policy_writeback_interval := 0\<rparr>)
      else if policy_seconds \<ge> 0
      then Some (s\<lparr>policy_writethrough := False, policy_writeback_interval := policy_seconds\<rparr>)
      else Some s)"

section \<open>The card through the cache\<close>

definition on_block :: "bytes \<Rightarrow> bytes" where
  "on_block f = (\<lambda>i. if i < BLOCK_SIZE then f i else 0)"

text \<open>What the card holds for a block, and what a reader of the block sees.\<close>

definition card_block :: "(nat \<Rightarrow> bytes) \<Rightarrow> u32 \<Rightarrow> bytes" where
  "card_block sectors b = on_block (\<lambda>i. sectors (unat (block_sector b) + i div SECTOR_SIZE) (i mod SECTOR_SIZE))"

abbreviation disk_block :: "'a cache_state_scheme \<Rightarrow> u32 \<Rightarrow> bytes" where
  "disk_block s \<equiv> card_block (sd s)"

definition slot_in :: "(nat \<Rightarrow> u32) \<Rightarrow> u32 \<Rightarrow> nat option" where
  "slot_in ids b = List.find (\<lambda>i. ids i = b) [0 ..< CACHE_SIZE]"

abbreviation slot_of :: "'a cache_state_scheme \<Rightarrow> u32 \<Rightarrow> nat option" where
  "slot_of s \<equiv> slot_in (cache_blockid s)"

definition content :: "'a cache_state_scheme \<Rightarrow> u32 \<Rightarrow> bytes" where
  "content s b = (case slot_of s b of Some i \<Rightarrow> on_block (cache_data s i) | None \<Rightarrow> disk_block s b)"

definition valid_block :: "u32 \<Rightarrow> bool" where
  "valid_block b \<longleftrightarrow> unat b < MAX_BLOCK_NUM"

text \<open>A block has one slot, every slot in use is on the card, and a slot that is not dirty agrees with it.\<close>

definition cache_wf :: "'a cache_state_scheme \<Rightarrow> bool" where
  "cache_wf s \<longleftrightarrow>
     (\<forall>i<CACHE_SIZE. \<forall>j<CACHE_SIZE. cache_blockid s i = cache_blockid s j \<and> cache_blockid s i \<noteq> - 1 \<longrightarrow> i = j) \<and>
     (\<forall>i<CACHE_SIZE. cache_blockid s i \<noteq> - 1 \<longrightarrow> valid_block (cache_blockid s i)) \<and>
     (\<forall>i<CACHE_SIZE. cache_blockid s i = - 1 \<longrightarrow> \<not> cache_dirty s i)"

definition clean :: "'a cache_state_scheme \<Rightarrow> nat \<Rightarrow> bool" where
  "clean s i \<longleftrightarrow> (cache_blockid s i \<noteq> - 1 \<and> \<not> cache_dirty s i \<longrightarrow>
     on_block (cache_data s i) = disk_block s (cache_blockid s i))"

definition cache_inv :: "'a cache_state_scheme \<Rightarrow> bool" where
  "cache_inv s \<longleftrightarrow> cache_wf s \<and> (\<forall>i<CACHE_SIZE. clean s i)"

lemmas fs_consts = BLOCK_SIZE_def SECTOR_SIZE_def BLOCK_START_def BLOCK_END_def MAX_BLOCK_NUM_def CACHE_SIZE_def

lemma valid_blockD: "valid_block b \<Longrightarrow> unat b < 98304"
  by (simp add: valid_block_def fs_consts)

lemma valid_not_free: "valid_block b \<Longrightarrow> b \<noteq> - 1"
  using valid_blockD [of b] by (auto simp: unat_word_ariths unsigned_minus_1_eq_mask mask_eq_exp_minus_1)

lemma unat_sector: "valid_block b \<Longrightarrow> unat (block_sector b) = 262144 + unat b * 8"
proof -
  assume "valid_block b"
  from valid_blockD [OF this] have b: "262144 + unat b * 8 < 2 ^ 32" by simp
  have "block_sector b = of_nat (262144 + unat b * 8)" by (simp add: block_sector_def fs_consts)
  then show ?thesis using b by (simp only: unat_of_nat) simp
qed

lemma sector_ok: "valid_block b \<Longrightarrow> unat (block_sector b) < BLOCK_END div SECTOR_SIZE"
  using unat_sector [of b] valid_blockD [of b] by (simp add: fs_consts)

lemma slot_of_Some: "slot_in ids b = Some i \<Longrightarrow> i < CACHE_SIZE \<and> ids i = b"
  by (auto simp: slot_in_def find_Some_iff)

lemma slot_of_None: "slot_in ids b = None \<longleftrightarrow> (\<forall>i<CACHE_SIZE. ids i \<noteq> b)"
  by (auto simp: slot_in_def find_None_iff)

lemma slot_of_eq:
  assumes "cache_wf s" "i < CACHE_SIZE" "cache_blockid s i = b" "b \<noteq> - 1"
  shows "slot_of s b = Some i"
proof (cases "slot_of s b")
  case None
  with assms show ?thesis by (simp add: slot_of_None)
next
  case (Some j)
  from slot_of_Some [OF this] assms have "j = i" unfolding cache_wf_def by metis
  with Some show ?thesis by simp
qed

section \<open>The laws of the cache\<close>

lemma on_block_eq_iff: "on_block f = on_block g \<longleftrightarrow> (\<forall>i<BLOCK_SIZE. f i = g i)"
  by (auto simp: on_block_def fun_eq_iff)

lemma on_block_idem [simp]: "on_block (on_block f) = on_block f"
  by (simp add: on_block_def fun_eq_iff)

lemma content_cong:
  "sd s' = sd s \<Longrightarrow> cache_data s' = cache_data s \<Longrightarrow> cache_blockid s' = cache_blockid s \<Longrightarrow> content s' = content s"
  by (intro ext) (simp add: content_def split: option.split)

lemma touch_simps [simp]:
  "sd (touch i s) = sd s" "cache_data (touch i s) = cache_data s" "cache_blockid (touch i s) = cache_blockid s"
  "cache_dirty (touch i s) = cache_dirty s" "policy_writethrough (touch i s) = policy_writethrough s"
  "cache_state.more (touch i s) = cache_state.more s"
  by (simp_all add: touch_def)

lemma cache_inv_cong:
  "sd s' = sd s \<Longrightarrow> cache_data s' = cache_data s \<Longrightarrow> cache_blockid s' = cache_blockid s \<Longrightarrow> cache_dirty s' = cache_dirty s \<Longrightarrow>
     cache_inv s' = cache_inv s"
  by (simp add: cache_inv_def cache_wf_def clean_def)

lemma cache_wf_cong:
  "cache_blockid s' = cache_blockid s \<Longrightarrow> cache_dirty s' = cache_dirty s \<Longrightarrow> cache_wf s' = cache_wf s"
  by (simp add: cache_wf_def)

lemma block_sep: "q < 8 \<Longrightarrow> a * 8 \<le> b * 8 + q \<and> b * 8 + q < 8 + a * 8 \<longleftrightarrow> b = a" for a b q :: nat
  by presburger

lemma write_block_ok:
  assumes "valid_block b0"
  obtains x where "write_block_direct i b0 s = Some (s\<lparr>sd := x\<rparr>)"
    "\<forall>b. valid_block b \<longrightarrow> disk_block (s\<lparr>sd := x\<rparr>) b = (if b = b0 then on_block (cache_data s i) else disk_block s b)"
proof -
  define x where "x = sd (bios_sd_write i 8 (unat (block_sector b0)) s)"
  let ?s = "s\<lparr>sd := x\<rparr>"
  have s': "bios_sd_write i 8 (unat (block_sector b0)) s = ?s" by (simp add: x_def bios_sd_write_def)
  have w: "write_block_direct i b0 s = Some ?s"
    using sector_ok [OF assms] s' by (simp add: write_block_direct_def)
  have "disk_block ?s b = (if b = b0 then on_block (cache_data s i) else disk_block s b)" if v: "valid_block b" for b
  proof -
    have sec: "262144 + unat b0 * 8 \<le> 262144 + unat b * 8 + x div 512 \<and>
        262144 + unat b * 8 + x div 512 < 262144 + unat b0 * 8 + 8 \<longleftrightarrow> b = b0" if "x < 4096" for x
    proof -
      have "x div 512 < 8" using that by simp
      from block_sep [OF this, of "unat b0" "unat b"] show ?thesis by (simp add: word_unat_eq_iff)
    qed
    have idx: "(262144 + unat b * 8 + x div 512 - (262144 + unat b * 8)) * 512 + x mod 512 = x" for x
      by (simp add: div_mult_mod_eq mult.commute)
    have "disk_block ?s b y = (if b = b0 then on_block (cache_data s i) else disk_block s b) y" for y
    proof (cases "y < 4096")
      case True
      have "y mod 512 < 512" by simp
      with sec [OF True] idx [of y] True show ?thesis
        unfolding card_block_def on_block_def x_def bios_sd_write_def fs_consts
        by (simp add: unat_sector [OF v] unat_sector [OF assms] del: mod_less_divisor split del: if_split)
          (cases "b = b0"; simp add: unat_sector [OF v] unat_sector [OF assms])
    qed (simp add: card_block_def on_block_def fs_consts)
    then show ?thesis by (simp add: fun_eq_iff)
  qed
  with that w show thesis by blast
qed

lemma read_direct_ok:
  assumes "valid_block b"
  obtains d where "read_block_direct i b s = Some (s\<lparr>cache_data := (cache_data s)(i := d)\<rparr>)" "on_block d = disk_block s b"
proof -
  define d where "d = (\<lambda>x. if x < 8 * SECTOR_SIZE then sd s (unat (block_sector b) + x div SECTOR_SIZE) (x mod SECTOR_SIZE)
    else cache_data s i x)"
  have "read_block_direct i b s = Some (s\<lparr>cache_data := (cache_data s)(i := d)\<rparr>)"
    using sector_ok [OF assms] by (simp add: read_block_direct_def bios_sd_read_def d_def)
  moreover have "on_block d = disk_block s b"
    by (simp add: on_block_def card_block_def d_def fun_eq_iff fs_consts)
  ultimately show thesis by (rule that)
qed

lemma foldl_pick: "set xs \<subseteq> A \<Longrightarrow> a \<in> A \<Longrightarrow> foldl (\<lambda>sel i. if P i sel then i else sel) a xs \<in> A"
  by (induction xs arbitrary: a) auto

lemma oldest_bound: "oldest s < CACHE_SIZE"
  using foldl_pick [of "[0 ..< CACHE_SIZE]" "{..< CACHE_SIZE}" 0 "\<lambda>i sel. cache_age s i < cache_age s sel"]
  by (simp add: oldest_def CACHE_SIZE_def atLeast0LessThan)

lemma foldl_min:
  fixes g :: "nat \<Rightarrow> int"
  shows "\<forall>i\<in>insert a (set xs). g (foldl (\<lambda>sel i. if g i < g sel then i else sel) a xs) \<le> g i"
proof (induction xs arbitrary: a)
  case (Cons x xs)
  from Cons.IH [of "if g x < g a then x else a"] show ?case by (auto split: if_splits)
qed simp

text \<open>The evicted slot is one that was used longest ago.\<close>

lemma oldest_least: "i < CACHE_SIZE \<Longrightarrow> cache_age s (oldest s) \<le> cache_age s i"
  using foldl_min [of 0 "[0 ..< CACHE_SIZE]" "cache_age s"] by (auto simp: oldest_def)

text \<open>Loading a block into a slot that is clean or written back.\<close>

lemma load_ok:
  assumes inv: "cache_wf s" "\<forall>j<CACHE_SIZE. j \<noteq> i \<longrightarrow> clean s j" and i: "i < CACHE_SIZE" and b: "valid_block b" "slot_of s b = None"
    and s': "s' = s\<lparr>cache_blockid := (cache_blockid s)(i := b), cache_data := (cache_data s)(i := d),
      cache_dirty := (cache_dirty s)(i := False)\<rparr>" and d: "on_block d = disk_block s b"
    and safe: "cache_blockid s i \<noteq> - 1 \<Longrightarrow> on_block (cache_data s i) = disk_block s (cache_blockid s i)"
  shows "cache_inv s'" "valid_block b' \<Longrightarrow> content s' b' = content s b'"
proof -
  have n: "cache_blockid s j \<noteq> b" if "j < CACHE_SIZE" for j using b(2) that by (simp add: slot_of_None)
  have db: "disk_block s' = disk_block s" by (simp add: s')
  have nb: "b \<noteq> - 1" by (rule valid_not_free [OF b(1)])
  have wf': "cache_wf s'"
    unfolding cache_wf_def using inv(1) n b(1) nb unfolding cache_wf_def s' by (auto split: if_splits)
  have "clean s' j" if "j < CACHE_SIZE" for j
    using that inv(2) d by (auto simp: clean_def db) (auto simp: s')
  with wf' show "cache_inv s'" by (simp add: cache_inv_def)
  assume "valid_block b'"
  then have nb': "b' \<noteq> - 1" by (rule valid_not_free)
  show "content s' b' = content s b'"
  proof (cases "b' = b")
    case True
    have "slot_of s' b = Some i" by (rule slot_of_eq [OF wf' i]) (simp_all add: s' nb)
    with True b(2) d show ?thesis by (simp add: content_def s')
  next
    case False
    show ?thesis
    proof (cases "slot_of s b'")
      case None
      then have "slot_of s' b' = None" using False by (auto simp: slot_of_None s')
      with None db show ?thesis by (simp add: content_def)
    next
      case (Some j)
      note j = slot_of_Some [OF Some]
      show ?thesis
      proof (cases "j = i")
        case True
        have "cache_blockid s' x \<noteq> b'" if "x < CACHE_SIZE" for x
          using slot_of_eq [OF inv(1) that, of b'] nb' Some True False by (auto simp: s')
        then have "slot_of s' b' = None" by (simp add: slot_of_None)
        with Some True j safe nb' db show ?thesis by (simp add: content_def)
      next
        case False
        have "slot_of s' b' = Some j" by (rule slot_of_eq [OF wf']) (use j False nb' in \<open>auto simp: s'\<close>)
        with Some False show ?thesis by (simp add: content_def s')
      qed
    qed
  qed
qed

lemma cache_find_ok:
  assumes inv: "cache_inv s" and b: "valid_block b"
  obtains i s' where "cache_find b s = Some (i, s')" "i < CACHE_SIZE" "cache_blockid s' i = b" "cache_inv s'"
    "on_block (cache_data s' i) = content s b" "\<forall>b'. valid_block b' \<longrightarrow> content s' b' = content s b'"
    "policy_writethrough s' = policy_writethrough s" "cache_state.more s' = cache_state.more s"
proof (cases "slot_of s b")
  case (Some i)
  note i = slot_of_Some [OF Some]
  show thesis
  proof (rule that)
    show "cache_find b s = Some (i, touch i s)" using Some by (simp add: cache_find_def slot_in_def)
    show "cache_inv (touch i s)" using inv by (simp add: cache_inv_cong [of "touch i s" s])
    show "on_block (cache_data (touch i s) i) = content s b" using Some by (simp add: content_def)
    show "\<forall>b'. valid_block b' \<longrightarrow> content (touch i s) b' = content s b'" by (simp add: content_cong [of "touch i s" s])
  qed (use i in simp_all)
next
  case None
  let ?o = "oldest s"
  have wf: "cache_wf s" and cl: "\<forall>i<CACHE_SIZE. clean s i" using inv by (auto simp: cache_inv_def)
  note o = oldest_bound [of s]
  have old: "cache_dirty s ?o \<Longrightarrow> valid_block (cache_blockid s ?o)" using wf o by (auto simp: cache_wf_def)
  obtain x where x: "(if cache_dirty s ?o then write_block_direct ?o (cache_blockid s ?o) s else Some s) = Some (s\<lparr>sd := x\<rparr>)"
    "\<forall>b. valid_block b \<longrightarrow> disk_block (s\<lparr>sd := x\<rparr>) b =
      (if cache_dirty s ?o \<and> b = cache_blockid s ?o then on_block (cache_data s ?o) else disk_block s b)"
  proof (cases "cache_dirty s ?o")
    case True
    show thesis by (rule write_block_ok [OF old [OF True], of ?o s], rule that) (simp_all add: True)
  qed (use that [of "sd s"] in simp)
  let ?s1 = "s\<lparr>sd := x\<rparr>" and ?s2 = "s\<lparr>sd := x, cache_blockid := (cache_blockid s)(?o := b)\<rparr>"
  obtain d where d: "read_block_direct ?o b ?s2 = Some (?s2\<lparr>cache_data := (cache_data ?s2)(?o := d)\<rparr>)"
    "on_block d = disk_block ?s2 b" by (rule read_direct_ok [OF b])
  define s3 where "s3 = ?s1\<lparr>cache_blockid := (cache_blockid ?s1)(?o := b), cache_data := (cache_data ?s1)(?o := d),
      cache_dirty := (cache_dirty ?s1)(?o := False)\<rparr>"
  have f: "cache_find b s = Some (?o, touch ?o s3)"
    using None x(1) d(1) by (simp add: cache_find_def slot_in_def s3_def Let_def)
  have wf1: "cache_wf ?s1" using wf by (simp add: cache_wf_cong [of ?s1 s])
  have uniq: "cache_blockid s j \<noteq> cache_blockid s ?o" if "j < CACHE_SIZE" "j \<noteq> ?o" "cache_blockid s j \<noteq> - 1" for j
    using wf that o unfolding cache_wf_def by metis
  have val: "valid_block (cache_blockid s j)" if "j < CACHE_SIZE" "cache_blockid s j \<noteq> - 1" for j
    using wf that unfolding cache_wf_def by blast
  have cl1: "\<forall>j<CACHE_SIZE. j \<noteq> ?o \<longrightarrow> clean ?s1 j"
  proof (intro allI impI)
    fix j assume j: "j < CACHE_SIZE" "j \<noteq> ?o"
    with cl have "clean s j" by simp
    then show "clean ?s1 j" using uniq [OF j] x(2) val [OF j(1)] by (simp add: clean_def)
  qed
  have none1: "slot_of ?s1 b = None" using None by (simp add: slot_in_def)
  have safe: "on_block (cache_data ?s1 ?o) = disk_block ?s1 (cache_blockid ?s1 ?o)" if "cache_blockid ?s1 ?o \<noteq> - 1"
    using that cl o x(2) val [OF o] by (auto simp: clean_def)
  have d1: "on_block d = disk_block ?s1 b" using d(2) by simp
  note l = load_ok [OF wf1 cl1 o b none1 s3_def d1 safe]
  have c1: "content ?s1 b' = content s b'" if "valid_block b'" for b'
  proof (cases "slot_of s b'")
    case None
    then have "b' \<noteq> cache_blockid s ?o" using o by (auto simp: slot_of_None)
    with None x(2) that show ?thesis by (simp add: content_def)
  qed (simp add: content_def)
  have cb: "content s b = disk_block ?s1 b"
    using c1 [OF b] none1 by (simp add: content_def)
  show thesis
  proof (rule that [OF f o])
    show "cache_inv (touch ?o s3)" using l(1) by (simp add: cache_inv_cong [of "touch ?o s3" s3])
    show "\<forall>b'. valid_block b' \<longrightarrow> content (touch ?o s3) b' = content s b'"
      using l(2) c1 by (simp add: content_cong [of "touch ?o s3" s3])
    show "on_block (cache_data (touch ?o s3) ?o) = content s b" using d1 cb by (simp add: s3_def)
  qed (simp_all add: s3_def)
qed

text \<open>Storing into a block's slot and writing it out.\<close>

lemma update_ok:
  assumes inv: "cache_wf s" "\<forall>j<CACHE_SIZE. j \<noteq> i \<longrightarrow> clean s j" and i: "i < CACHE_SIZE" "valid_block (cache_blockid s i)"
  obtains s' where "update i s = Some s'" "cache_inv s'" "cache_data s' = cache_data s" "cache_blockid s' = cache_blockid s"
    "\<forall>b. valid_block b \<longrightarrow> content s' b = content s b" "policy_writethrough s' = policy_writethrough s"
    "cache_state.more s' = cache_state.more s"
    "policy_writethrough s \<Longrightarrow> disk_block s' (cache_blockid s i) = on_block (cache_data s i)"
proof (cases "policy_writethrough s")
  case True
  let ?b = "cache_blockid s i"
  obtain x where x: "write_block_direct i ?b s = Some (s\<lparr>sd := x\<rparr>)"
    "\<forall>b. valid_block b \<longrightarrow> disk_block (s\<lparr>sd := x\<rparr>) b = (if b = ?b then on_block (cache_data s i) else disk_block s b)"
    by (rule write_block_ok [OF i(2), of i s])
  let ?s = "s\<lparr>sd := x\<rparr>"
  have slot: "slot_of s ?b = Some i" by (rule slot_of_eq [OF inv(1) i(1) refl valid_not_free [OF i(2)]])
  have val: "valid_block (cache_blockid s j)" if "j < CACHE_SIZE" "cache_blockid s j \<noteq> - 1" for j
    using inv(1) that unfolding cache_wf_def by blast
  have "clean ?s j" if j: "j < CACHE_SIZE" for j
  proof (cases "j = i")
    case True
    then show ?thesis using x(2) i(2) by (simp add: clean_def)
  next
    case False
    then have "cache_blockid s j \<noteq> ?b" if "cache_blockid s j \<noteq> - 1"
      using that j i(1) inv(1) unfolding cache_wf_def by metis
    with inv(2) j False x(2) val [OF j] show ?thesis by (simp add: clean_def)
  qed
  moreover have "cache_wf ?s" using inv(1) by (simp add: cache_wf_cong [of ?s s])
  ultimately have "cache_inv ?s" by (simp add: cache_inv_def)
  moreover have "content ?s b = content s b" if "valid_block b" for b
    using x(2) that slot by (cases "slot_of s b") (auto simp: content_def)
  ultimately show thesis using that [of ?s] x True i(2) by (simp add: update_def)
next
  case False
  let ?s = "s\<lparr>cache_dirty := (cache_dirty s)(i := True)\<rparr>"
  have "cache_wf ?s" using inv(1) valid_not_free [OF i(2)] by (auto simp: cache_wf_def)
  moreover have "clean ?s j" if "j < CACHE_SIZE" for j
    using inv(2) that by (auto simp: clean_def)
  ultimately have "cache_inv ?s" by (simp add: cache_inv_def)
  moreover have "content ?s = content s" by (rule content_cong) simp_all
  ultimately show thesis using that [of ?s] False by (simp add: update_def)
qed

lemma set_data_simps [simp]:
  "sd (set_data i f s) = sd s" "cache_blockid (set_data i f s) = cache_blockid s" "cache_dirty (set_data i f s) = cache_dirty s"
  "policy_writethrough (set_data i f s) = policy_writethrough s" "cache_state.more (set_data i f s) = cache_state.more s"
  "cache_data (set_data i f s) = (cache_data s)(i := f (cache_data s i))"
  by (simp_all add: set_data_def)

lemma content_set_data:
  assumes "cache_wf s" "i < CACHE_SIZE" "valid_block (cache_blockid s i)" "valid_block b"
  shows "content (set_data i f s) b = (if b = cache_blockid s i then on_block (f (cache_data s i)) else content s b)"
proof -
  have slot: "slot_of s (cache_blockid s i) = Some i"
    by (rule slot_of_eq [OF assms(1,2) refl valid_not_free [OF assms(3)]])
  show ?thesis
  proof (cases "b = cache_blockid s i")
    case True
    with slot show ?thesis by (simp add: content_def)
  next
    case False
    then show ?thesis
      using slot_of_Some [of "cache_blockid s" b] by (cases "slot_of s b") (auto simp: content_def)
  qed
qed

lemma modify_update_ok:
  assumes inv: "cache_inv s" and i: "i < CACHE_SIZE" "valid_block (cache_blockid s i)"
  obtains s' where "update i (set_data i f s) = Some s'" "cache_inv s'"
    "\<forall>b. valid_block b \<longrightarrow> content s' b = (if b = cache_blockid s i then on_block (f (cache_data s i)) else content s b)"
    "cache_data s' = (cache_data s)(i := f (cache_data s i))" "cache_blockid s' = cache_blockid s"
    "policy_writethrough s' = policy_writethrough s" "cache_state.more s' = cache_state.more s"
    "policy_writethrough s \<Longrightarrow> disk_block s' (cache_blockid s i) = on_block (f (cache_data s i))"
proof -
  have wf: "cache_wf s" and cl: "\<forall>i<CACHE_SIZE. clean s i" using inv by (auto simp: cache_inv_def)
  have wf': "cache_wf (set_data i f s)" using wf by (simp add: cache_wf_cong [of "set_data i f s" s])
  have cl': "\<forall>j<CACHE_SIZE. j \<noteq> i \<longrightarrow> clean (set_data i f s) j"
    using cl by (simp add: clean_def)
  have v: "valid_block (cache_blockid (set_data i f s) i)" using i(2) by simp
  show thesis
    by (rule update_ok [OF wf' cl' i(1) v], rule that) (simp_all add: content_set_data [OF wf i])
qed

lemma writeback_step:
  assumes inv: "cache_inv s" and i: "i < CACHE_SIZE" "cache_dirty s i"
  obtains s' where "write_block_direct i (cache_blockid s i) s = Some s'"
    "cache_inv (s'\<lparr>cache_dirty := (cache_dirty s')(i := False)\<rparr>)" "cache_data s' = cache_data s" "cache_dirty s' = cache_dirty s"
    "cache_blockid s' = cache_blockid s" "\<forall>b. valid_block b \<longrightarrow> content s' b = content s b"
    "policy_writethrough s' = policy_writethrough s" "cache_state.more s' = cache_state.more s"
proof -
  have wf: "cache_wf s" and cl: "\<forall>i<CACHE_SIZE. clean s i" using inv by (auto simp: cache_inv_def)
  let ?b = "cache_blockid s i"
  have v: "valid_block ?b" using wf i by (auto simp: cache_wf_def)
  obtain x where x: "write_block_direct i ?b s = Some (s\<lparr>sd := x\<rparr>)"
    "\<forall>b. valid_block b \<longrightarrow> disk_block (s\<lparr>sd := x\<rparr>) b = (if b = ?b then on_block (cache_data s i) else disk_block s b)"
    by (rule write_block_ok [OF v, of i s])
  have val: "valid_block (cache_blockid s j)" if "j < CACHE_SIZE" "cache_blockid s j \<noteq> - 1" for j
    using wf that unfolding cache_wf_def by blast
  let ?s = "s\<lparr>sd := x, cache_dirty := (cache_dirty s)(i := False)\<rparr>"
  have slot: "slot_of s ?b = Some i" by (rule slot_of_eq [OF wf i(1) refl valid_not_free [OF v]])
  have "clean ?s j" if j: "j < CACHE_SIZE" for j
  proof (cases "j = i")
    case True
    then show ?thesis using x(2) v by (simp add: clean_def)
  next
    case False
    then have "cache_blockid s j \<noteq> ?b" if "cache_blockid s j \<noteq> - 1"
      using that j i(1) wf unfolding cache_wf_def by metis
    with cl j False x(2) val [OF j] show ?thesis by (simp add: clean_def)
  qed
  moreover have "cache_wf ?s" using wf unfolding cache_wf_def by auto
  ultimately have "cache_inv ?s" by (simp add: cache_inv_def)
  moreover have "content (s\<lparr>sd := x\<rparr>) b = content s b" if "valid_block b" for b
    using x(2) that slot by (cases "slot_of s b") (auto simp: content_def)
  ultimately show thesis using that [OF x(1)] by simp
qed

lemma writeback_from_ok:
  "cache_inv s \<Longrightarrow> set is \<subseteq> {..< CACHE_SIZE} \<Longrightarrow>
     \<exists>s'. writeback_from is s = Some s' \<and> cache_inv s' \<and> cache_data s' = cache_data s \<and> cache_blockid s' = cache_blockid s \<and>
       (\<forall>i. cache_dirty s' i \<longleftrightarrow> cache_dirty s i \<and> i \<notin> set is) \<and> (\<forall>b. valid_block b \<longrightarrow> content s' b = content s b) \<and>
       policy_writethrough s' = policy_writethrough s \<and> cache_state.more s' = cache_state.more s"
proof (induction "is" arbitrary: s)
  case (Cons i "is")
  from Cons.prems(2) have i: "i < CACHE_SIZE" and is': "set is \<subseteq> {..< CACHE_SIZE}" by auto
  show ?case
  proof (cases "cache_dirty s i")
    case True
    obtain s1 where s1: "write_block_direct i (cache_blockid s i) s = Some s1"
      "cache_inv (s1\<lparr>cache_dirty := (cache_dirty s1)(i := False)\<rparr>)" "cache_data s1 = cache_data s" "cache_dirty s1 = cache_dirty s"
      "cache_blockid s1 = cache_blockid s" "\<forall>b. valid_block b \<longrightarrow> content s1 b = content s b"
      "policy_writethrough s1 = policy_writethrough s" "cache_state.more s1 = cache_state.more s"
      by (rule writeback_step [OF Cons.prems(1) i True])
    let ?s = "s1\<lparr>cache_dirty := (cache_dirty s1)(i := False)\<rparr>"
    have c: "content ?s = content s1" by (rule content_cong) simp_all
    from Cons.IH [OF s1(2) is'] obtain s' where s': "writeback_from is ?s = Some s'" "cache_inv s'"
      "cache_data s' = cache_data s" "cache_blockid s' = cache_blockid s"
      "\<forall>j. cache_dirty s' j \<longleftrightarrow> cache_dirty ?s j \<and> j \<notin> set is" "\<forall>b. valid_block b \<longrightarrow> content s' b = content ?s b"
      "policy_writethrough s' = policy_writethrough s" "cache_state.more s' = cache_state.more s"
      using s1(3,5,7,8) by auto
    have "writeback_from (i # is) s = Some s'" using True s1(1) s'(1) by simp
    with s' s1(4,6) c show ?thesis by auto
  next
    case False
    with Cons.IH [OF Cons.prems(1) is'] show ?thesis by auto
  qed
qed simp

lemma cache_writeback_ok:
  assumes "cache_inv s"
  obtains s' where "cache_writeback s = Some s'" "cache_inv s'" "\<forall>b. valid_block b \<longrightarrow> content s' b = content s b"
    "\<forall>b. valid_block b \<longrightarrow> disk_block s' b = content s b"
proof -
  obtain s' where s': "cache_writeback s = Some s'" "cache_inv s'" "\<forall>i. cache_dirty s' i \<longleftrightarrow> cache_dirty s i \<and> i \<notin> {..< CACHE_SIZE}"
    "\<forall>b. valid_block b \<longrightarrow> content s' b = content s b"
    using writeback_from_ok [OF assms, of "[0 ..< CACHE_SIZE]"] by (auto simp: cache_writeback_def atLeast0LessThan)
  have "disk_block s' b = content s b" if "valid_block b" for b
  proof (cases "slot_of s' b")
    case None
    then have "content s' b = disk_block s' b" by (simp add: content_def)
    with s'(4) that show ?thesis by simp
  next
    case (Some i)
    note i = slot_of_Some [OF Some]
    from s'(2) i have "clean s' i" by (simp add: cache_inv_def)
    moreover have "\<not> cache_dirty s' i" using s'(3) i by auto
    ultimately have "content s' b = disk_block s' b"
      using i Some valid_not_free [OF that] by (auto simp: clean_def content_def)
    with s'(4) that show ?thesis by simp
  qed
  with that s' show thesis by blast
qed

lemma cache_init_ok: "cache_inv (cache_init s)" "valid_block b \<Longrightarrow> content (cache_init s) b = disk_block s b"
proof -
  show "cache_inv (cache_init s)" by (simp add: cache_inv_def cache_wf_def clean_def cache_init_def)
  assume "valid_block b"
  from valid_not_free [OF this] have "slot_of (cache_init s) b = None" by (simp add: slot_of_None cache_init_def)
  then show "content (cache_init s) b = disk_block s b" by (simp add: content_def) (simp add: cache_init_def)
qed

section \<open>The interface\<close>

text \<open>
  What the file system relies on: a block is opened, its bytes are read or changed, and a change is
  reported. \<open>frame\<close> is the part of the state that the cache does not touch.
\<close>

locale block_store =
  fixes inv :: "'s \<Rightarrow> bool"
    and blocks :: "'s \<Rightarrow> u32 \<Rightarrow> bytes"
    and frame :: "'s \<Rightarrow> 'f"
    and open_block :: "u32 \<Rightarrow> 's \<Rightarrow> (nat \<times> 's) option"
    and holds_block :: "'s \<Rightarrow> nat \<Rightarrow> u32 \<Rightarrow> bool"
    and data_of :: "'s \<Rightarrow> nat \<Rightarrow> bytes"
    and save :: "nat \<Rightarrow> (bytes \<Rightarrow> bytes) \<Rightarrow> 's \<Rightarrow> 's option"
  assumes open_block: "inv s \<Longrightarrow> valid_block b \<Longrightarrow>
      \<exists>h s'. open_block b s = Some (h, s') \<and> inv s' \<and> holds_block s' h b \<and> on_block (data_of s' h) = blocks s b \<and>
        (\<forall>b'. valid_block b' \<longrightarrow> blocks s' b' = blocks s b') \<and> frame s' = frame s"
    and save: "inv s \<Longrightarrow> valid_block b \<Longrightarrow> holds_block s h b \<Longrightarrow>
      \<exists>s'. save h f s = Some s' \<and> inv s' \<and> holds_block s' h b \<and> frame s' = frame s \<and>
        (\<forall>b'. valid_block b' \<longrightarrow> blocks s' b' = (if b' = b then on_block (f (data_of s h)) else blocks s b'))"
begin

text \<open>Read, and read-modify-write, of one block.\<close>

definition read_block :: "u32 \<Rightarrow> 's \<Rightarrow> (bytes \<times> 's) option" where
  "read_block b s = do { (h, s) \<leftarrow> open_block b s; Some (on_block (data_of s h), s) }"

definition modify_block :: "u32 \<Rightarrow> (bytes \<Rightarrow> bytes) \<Rightarrow> 's \<Rightarrow> 's option" where
  "modify_block b f s = do { (h, s) \<leftarrow> open_block b s; save h f s }"

lemma read_block_ok:
  assumes "inv s" "valid_block b"
  shows "\<exists>s'. read_block b s = Some (blocks s b, s') \<and> inv s' \<and> frame s' = frame s \<and>
    (\<forall>b'. valid_block b' \<longrightarrow> blocks s' b' = blocks s b')"
  using open_block [OF assms] by (auto simp: read_block_def)

definition local :: "(bytes \<Rightarrow> bytes) \<Rightarrow> bool" where
  "local f \<longleftrightarrow> (\<forall>d d'. on_block d = on_block d' \<longrightarrow> on_block (f d) = on_block (f d'))"

lemma modify_block_ok:
  assumes "inv s" "valid_block b" "local f"
  shows "\<exists>s'. modify_block b f s = Some s' \<and> inv s' \<and> frame s' = frame s \<and>
    (\<forall>b'. valid_block b' \<longrightarrow> blocks s' b' = (if b' = b then on_block (f (blocks s b)) else blocks s b'))"
proof -
  obtain h s1 where o: "open_block b s = Some (h, s1)" "inv s1" "holds_block s1 h b" "on_block (data_of s1 h) = blocks s b"
    "\<forall>b'. valid_block b' \<longrightarrow> blocks s1 b' = blocks s b'" "frame s1 = frame s"
    using open_block [OF assms(1,2)] by blast
  have "on_block (f (data_of s1 h)) = on_block (f (blocks s b))"
    using assms(3) o(4) unfolding local_def by (metis on_block_idem)
  with save [OF o(2) assms(2) o(3), of f] o show ?thesis by (auto simp: modify_block_def)
qed

text \<open>A block reads back as it was modified, and the others as before.\<close>

lemma read_after_modify:
  assumes "inv s" "valid_block b" "valid_block c" "local f" "modify_block b f s = Some s'"
  shows "\<exists>s''. read_block c s' = Some (if c = b then on_block (f (blocks s b)) else blocks s c, s'')"
proof -
  from modify_block_ok [OF assms(1,2,4)] assms(5) have s': "inv s'"
    "\<forall>b'. valid_block b' \<longrightarrow> blocks s' b' = (if b' = b then on_block (f (blocks s b)) else blocks s b')" by auto
  from read_block_ok [OF s'(1) assms(3)] s'(2) assms(3) show ?thesis by auto
qed

end

definition slot_holds :: "'a cache_state_scheme \<Rightarrow> nat \<Rightarrow> u32 \<Rightarrow> bool" where
  "slot_holds s i b \<longleftrightarrow> i < CACHE_SIZE \<and> cache_blockid s i = b"

definition save_block :: "nat \<Rightarrow> (bytes \<Rightarrow> bytes) \<Rightarrow> 'a cache_state_scheme \<Rightarrow> 'a cache_state_scheme option" where
  "save_block i f s = update i (set_data i f s)"

interpretation cache: block_store cache_inv content cache_state.more Block slot_holds cache_data save_block
proof (unfold_locales, goal_cases)
  case (1 s b)
  show ?case
    by (rule cache_find_ok [OF 1]) (auto simp: Block_def slot_holds_def)
next
  case (2 s b h f)
  then have h: "h < CACHE_SIZE" "valid_block (cache_blockid s h)" and b: "b = cache_blockid s h" by (auto simp: slot_holds_def)
  show ?case
    by (rule modify_update_ok [OF 2(1) h, of f]) (auto simp: save_block_def slot_holds_def b h)
qed

section \<open>Properties\<close>

text \<open>
  C14: \<open>Block(b)\<close> on a consistent cache gives a slot that holds block \<open>b\<close> with the contents last stored
  there, whether it was cached or had to be loaded in place of another block, and leaves what every
  block reads as unchanged: an evicted block that is dirty is written back first.
\<close>

theorem Block_reads_last_store:
  assumes "cache_inv s" "valid_block b"
  shows "\<exists>i s'. Block b s = Some (i, s') \<and> i < CACHE_SIZE \<and> cache_blockid s' i = b \<and> cache_inv s' \<and>
    on_block (cache_data s' i) = content s b \<and> (\<forall>b'. valid_block b' \<longrightarrow> content s' b' = content s b')"
  using cache.open_block [OF assms] by (auto simp: slot_holds_def)

text \<open>A card of zeroes behind an empty cache.\<close>

definition cache0 :: cache_state where
  "cache0 = cache_init \<lparr>sd = (\<lambda>_ _. 0), cache_data = (\<lambda>_ _. 0), cache_blockid = (\<lambda>_. 0), cache_dirty = (\<lambda>_. True),
     cache_age = (\<lambda>_. 0), age = 0, policy_writethrough = False, policy_writeback_interval = 30, last_time = 0\<rparr>"

lemma cache0_inv: "cache_inv cache0"
  by (simp add: cache0_def cache_init_ok)

theorem Block_reads_last_store_witness:
  "\<exists>i s'. Block 7 cache0 = Some (i, s') \<and> cache_blockid s' i = 7 \<and> on_block (cache_data s' i) = content cache0 7"
  using Block_reads_last_store [OF cache0_inv, of 7] by (auto simp: valid_block_def fs_consts)

text \<open>
  A store through a block followed by \<open>update\<close> changes what that block reads as and no other,
  under both policies, and keeps the cache consistent. Under write-through the card itself has the new contents.
\<close>

theorem update_stores:
  assumes "cache_inv s" "i < CACHE_SIZE" "valid_block (cache_blockid s i)"
  shows "\<exists>s'. update i (set_data i f s) = Some s' \<and> cache_inv s' \<and>
    (\<forall>b. valid_block b \<longrightarrow> content s' b = (if b = cache_blockid s i then on_block (f (cache_data s i)) else content s b)) \<and>
    (policy_writethrough s \<longrightarrow> disk_block s' (cache_blockid s i) = on_block (f (cache_data s i)))"
  by (rule modify_update_ok [OF assms, of f]) blast

theorem update_stores_witness:
  "\<exists>i s s'. Block 7 cache0 = Some (i, s) \<and> update i (set_data i (\<lambda>d. d(3 := 9)) s) = Some s' \<and> content s' 7 3 = 9"
proof -
  have v: "valid_block 7" by (simp add: valid_block_def fs_consts)
  obtain i s where o: "Block 7 cache0 = Some (i, s)" "cache_inv s" "slot_holds s i 7"
    using cache.open_block [OF cache0_inv v] by blast
  then have "i < CACHE_SIZE" "valid_block (cache_blockid s i)" "cache_blockid s i = 7" using v by (auto simp: slot_holds_def)
  from update_stores [OF o(2) this(1,2), of "\<lambda>d. d(3 := 9)"] o(1) v this(3) show ?thesis
    by (auto simp: on_block_def fs_consts)
qed

text \<open>
  \<open>cache_writeback\<close>, and so the timer and the change to write-through, brings the card up to date: every
  block of the card then holds what the cache would have read, and no slot is dirty.
\<close>

theorem writeback_flushes:
  assumes "cache_inv s" "cache_set_policy (- 1) s = Some s'"
  shows "cache_inv s' \<and> policy_writethrough s' \<and>
    (\<forall>b. valid_block b \<longrightarrow> content s' b = content s b \<and> disk_block s' b = content s b)"
proof -
  let ?s = "s\<lparr>policy_writethrough := True, policy_writeback_interval := 0\<rparr>"
  have i: "cache_inv ?s" using assms(1) by (simp add: cache_inv_cong [of ?s s])
  have c: "content ?s = content s" by (rule content_cong) simp_all
  have w: "cache_writeback ?s = Some s'" using assms(2) by (simp add: cache_set_policy_def)
  have p: "policy_writethrough s'"
    using writeback_from_ok [OF i, of "[0 ..< CACHE_SIZE]"] w by (auto simp: cache_writeback_def atLeast0LessThan)
  show ?thesis by (rule cache_writeback_ok [OF i]) (use w c p in auto)
qed

theorem writeback_flushes_witness:
  "\<exists>s'. cache_set_policy (- 1) cache0 = Some s' \<and> disk_block s' 7 = content cache0 7"
proof -
  let ?s = "cache0\<lparr>policy_writethrough := True, policy_writeback_interval := 0\<rparr>"
  have "cache_inv ?s" using cache0_inv by (simp add: cache_inv_cong [of ?s cache0])
  then obtain s' where "cache_writeback ?s = Some s'" by (rule cache_writeback_ok)
  then have "cache_set_policy (- 1) cache0 = Some s'" by (simp add: cache_set_policy_def)
  with writeback_flushes [OF cache0_inv this] show ?thesis by (auto simp: valid_block_def fs_consts)
qed

end
