(* ===== verification/Trap.thy ===== *)
theory Trap
  imports Net PageProofs LocksProofs Cache
begin

text \<open>
  Traps: the table of system calls (\<open>syscall.cpp\<close>) and the trap handler (\<open>trap.cpp\<close>, \<open>time.cpp\<close>), over the state of all parts that a trap can reach. \<open>handle_syscall\<close> calls through a table of function
  pointers; here the table has the names of the functions, and what a name stands for is an argument. A call or a timer interrupt that switches to another thread ends in the context switch;
  what is left of it is done when the thread runs again (\<open>end_syscall\<close>, \<open>end_timer\<close>).
\<close>

section \<open>The table of system calls\<close>

datatype sysname =
  Sys_exec | Sys_exit | Sys_sleep | Sys_kill | Sys_waitpid | Sys_ps | Sys_getpid | Sys_yield | Sys_task_set | Sys_create_thread | Sys_wait_thread | Sys_exit_thread | Sys_kill_thread |
  Sys_write | Sys_getchar | Sys_move_cursor | Sys_reflush | Sys_clear | Sys_get_timebase | Sys_get_tick | Sys_mutex_init | Sys_mutex_acquire | Sys_mutex_release |
  Sys_barrier_init | Sys_barrier_wait | Sys_barrier_destroy | Sys_condition_init | Sys_condition_wait | Sys_condition_signal | Sys_condition_broadcast | Sys_condition_destroy |
  Sys_mbox_open | Sys_mbox_close | Sys_mbox_send | Sys_mbox_recv | Sys_shmpageget | Sys_shmpagedt | Sys_brk | Sys_sbrk | Sys_net_send | Sys_net_recv |
  Fs_mkfs | Fs_statfs | Fs_cd | Fs_mkdir | Fs_rmdir | Fs_ls | Fs_touch | Fs_cat | Fs_fopen | Fs_fread | Fs_fwrite | Fs_fclose | Fs_ln | Fs_rm | Fs_lseek | Set_parameter

definition SYSCALL_NUM :: nat where "SYSCALL_NUM = 96"

definition init_syscall :: "(nat \<times> sysname) list" where
  "init_syscall =
     [(0, Sys_exec), (1, Sys_exit), (2, Sys_sleep), (3, Sys_kill), (4, Sys_waitpid), (5, Sys_ps), (6, Sys_getpid), (7, Sys_yield), (8, Sys_task_set),
      (10, Sys_create_thread), (11, Sys_wait_thread), (12, Sys_exit_thread), (13, Sys_kill_thread),
      (20, Sys_write), (21, Sys_getchar), (22, Sys_move_cursor), (23, Sys_reflush), (24, Sys_clear), (30, Sys_get_timebase), (31, Sys_get_tick),
      (40, Sys_mutex_init), (41, Sys_mutex_acquire), (42, Sys_mutex_release), (44, Sys_barrier_init), (45, Sys_barrier_wait), (46, Sys_barrier_destroy),
      (47, Sys_condition_init), (48, Sys_condition_wait), (49, Sys_condition_signal), (50, Sys_condition_broadcast), (51, Sys_condition_destroy),
      (52, Sys_mbox_open), (53, Sys_mbox_close), (54, Sys_mbox_send), (55, Sys_mbox_recv), (56, Sys_shmpageget), (57, Sys_shmpagedt), (59, Sys_brk), (60, Sys_sbrk),
      (63, Sys_net_send), (64, Sys_net_recv), (65, Fs_mkfs), (66, Fs_statfs), (67, Fs_cd), (70, Fs_ls), (68, Fs_mkdir), (71, Fs_touch), (69, Fs_rmdir), (78, Fs_rm), (77, Fs_ln),
      (72, Fs_cat), (73, Fs_fopen), (74, Fs_fread), (75, Fs_fwrite), (76, Fs_fclose), (79, Fs_lseek), (80, Set_parameter)]"

text \<open>\<open>args\<close> are the registers from \<open>a0\<close> to \<open>a7\<close>; the last one has the number.\<close>

definition handle_syscall :: "(sysname \<Rightarrow> u64 list \<Rightarrow> 'm \<Rightarrow> (flow \<times> u64 \<times> 'm) option) \<Rightarrow> u64 list \<Rightarrow> 'm \<Rightarrow> (flow \<times> u64 \<times> 'm) option" where
  "handle_syscall func args m =
     (if args ! 7 \<ge> of_nat SYSCALL_NUM then Some (Ret, 0, m)
      else case map_of init_syscall (unat (args ! 7)) of
        None \<Rightarrow> None
      | Some f \<Rightarrow> func f (take 7 args) m)"

section \<open>The trap handler\<close>

record machine =
  kern :: lkernel
  vmem :: vm
  dirs :: "nat \<Rightarrow> page_dir"
  card :: nic
  irqc :: plic
  cache :: cache_state
  next_timer :: u64

definition TIMER_INTERVAL :: u64 where "TIMER_INTERVAL = 150000"

definition end_syscall :: "nat \<Rightarrow> u64 \<Rightarrow> machine \<Rightarrow> machine option" where
  "end_syscall t r m = do {
     th \<leftarrow> thr (kern m) t;
     Some (m\<lparr>kern := put_thr t (th\<lparr>regs := (regs th)[9 := r], sepc := sepc th + 4\<rparr>) (kern m)\<rparr>)
   }"

definition handle_irq_timer :: "nat \<Rightarrow> u64 \<Rightarrow> machine \<Rightarrow> machine option" where
  "handle_irq_timer c ticks m = do {
     let m = m\<lparr>next_timer := ticks + TIMER_INTERVAL\<rparr>;
     k \<leftarrow> do_scheduler c None (kern m);
     Some (m\<lparr>kern := k\<rparr>)
   }"

text \<open>What the timer interrupt does when its thread runs again; the arguments are those of \<open>cache_scan_timer\<close>.\<close>

definition end_timer :: "bool \<Rightarrow> int \<Rightarrow> int \<Rightarrow> machine \<Rightarrow> machine option" where
  "end_timer free now now' m = do {
     s \<leftarrow> cache_scan_timer free now now' (cache m);
     Some (m\<lparr>cache := s\<rparr>)
   }"

text \<open>
  \<open>PageDir::alloc_page_for_va\<close> for the process of the current thread. Its \<open>on_page_updated\<close> also interrupts the other CPUs that run the process; it was called exactly if the directory has changed.
\<close>

definition handle_page_fault :: "nat \<Rightarrow> u64 \<Rightarrow> machine \<Rightarrow> machine option" where
  "handle_page_fault c stval m = do {
     p \<leftarrow> current_process c (kern m);
     (_, pd, s) \<leftarrow> alloc_page_for_va stval (dirs m p) (vmem m);
     k \<leftarrow> (if pd \<noteq> dirs m p then send_intr_to_running_thread p (kern m) else Some (kern m));
     Some (m\<lparr>kern := k, vmem := s, dirs := (dirs m)(p := pd)\<rparr>)
   }"

text \<open>
  \<open>ticks\<close> is the time counter when the timer interrupt reads it. An unknown cause prints the registers and fails an assertion. Clearing the pending bit of the software interrupt and
  flushing the translation buffer have no counterpart.
\<close>

definition trap_handler :: "(sysname \<Rightarrow> u64 list \<Rightarrow> machine \<Rightarrow> (flow \<times> u64 \<times> machine) option) \<Rightarrow> u64 \<Rightarrow> nat \<Rightarrow> u64 \<Rightarrow> u64 \<Rightarrow> machine \<Rightarrow> (flow \<times> machine) option" where
  "trap_handler func ticks c scause stval m = do {
     cpu \<leftarrow> cpu_at (kern m) c;
     let t = current_thread cpu;
     th \<leftarrow> thr (kern m) t;
     if scause = 8 then do {
       (fl, r, m) \<leftarrow> handle_syscall func (take 8 (drop 9 (regs th))) m;
       if fl = Ret then do { m \<leftarrow> end_syscall t r m; Some (Ret, m) } else Some (Away, m)
     }
     else if scause = push_bit 63 1 OR 5 then do {
       k \<leftarrow> net_idle_check (kern m);
       m \<leftarrow> handle_irq_timer c ticks (m\<lparr>kern := k\<rparr>);
       Some (Away, m)
     }
     else if scause = push_bit 63 1 OR 1 then
       if status_exited th then do { k \<leftarrow> do_scheduler c None (kern m); Some (Away, m\<lparr>kern := k\<rparr>) }
       else Some (Ret, m)
     else if scause = push_bit 63 1 OR 9 then do {
       (n, p, k) \<leftarrow> handle_ext_irq (card m) (irqc m) (kern m);
       Some (Ret, m\<lparr>card := n, irqc := p, kern := k\<rparr>)
     }
     else if scause = 12 \<or> scause = 13 \<or> scause = 15 then do { m \<leftarrow> handle_page_fault c stval m; Some (Ret, m) }
     else None
   }"

section \<open>System calls\<close>

lemma init_syscall_map:
  "distinct (map fst init_syscall)" "distinct (map snd init_syscall)" "\<forall>n\<in>set (map fst init_syscall). n < SYSCALL_NUM"
  by (simp_all add: init_syscall_def SYSCALL_NUM_def)

lemma sysname_number: "\<exists>!n. map_of init_syscall n = Some f"
proof -
  have "f \<in> set (map snd init_syscall)" by (cases f) (simp_all add: init_syscall_def)
  then obtain n where n: "(n, f) \<in> set init_syscall" by auto
  show ?thesis
  proof (rule ex1I [of _ n])
    show "map_of init_syscall n = Some f" using n init_syscall_map(1) by simp
    fix n' assume "map_of init_syscall n' = Some f"
    then have "(n', f) \<in> set init_syscall" by (rule map_of_SomeD)
    with n show "n' = n" using init_syscall_map(2) by (metis (no_types, lifting) distinct_map fst_conv inj_onD prod.inject snd_conv)
  qed
qed

section \<open>Page faults\<close>

lemma running_bit_total:
  assumes "sched_inv k" "thr k t \<noteq> None" "\<forall>c<length (cpus k). hartid (cpus k ! c) < 32"
  shows "\<exists>b. running_bit k t = Some b"
proof -
  obtain th where th: "thr k t = Some th" using assms(2) by auto
  have ok: "thread_ok (cur k) {} k t th" using assms(1) th placesD(4) by (auto simp: sched_inv_def)
  show ?thesis
  proof (cases "status th = RUNNING")
    case True
    then have "t \<in> ran (cur k)" using ok by (auto simp: status_def thread_ok_def split: if_splits)
    then obtain c where c: "cur k c = Some t" by (auto simp: ran_def)
    then have "running_cpu th = Some c" "c < length (cpus k)" using ok by (auto simp: thread_ok_def cur_Some)
    with True th assms(3) show ?thesis by (simp add: running_bit_def cpu_at_def cpu_bit_def)
  qed (simp add: running_bit_def th)
qed

lemma hart_mask_total:
  assumes "sched_inv k" "\<forall>t\<in>set ts. thr k t \<noteq> None" "\<forall>c<length (cpus k). hartid (cpus k ! c) < 32"
  shows "\<exists>b. hart_mask k ts m = Some b"
  using assms(2)
proof (induction ts arbitrary: m)
  case (Cons t ts)
  then obtain b where "running_bit k t = Some b" using running_bit_total [OF assms(1) _ assms(3), of t] by auto
  with Cons show ?case by auto
qed simp

text \<open>
  C22: A page fault is repaired. The running thread of a process accesses a user address below the bound of its process, and three pages are free: the handler returns to the same thread with its
  registers and its program counter as they were, so that the access is tried again, and now the hardware walk translates the address. Addresses that were translated before are translated
  to the same place, and the tables of the process form a tree again.
\<close>

theorem page_fault_repaired:
  assumes "scause \<in> {12, 13, 15}" and k: "sched_inv (kern m)" "cur (kern m) c = Some t" "thr (kern m) t = Some th" "prc (kern m) (th_process th) = Some pr"
      "\<forall>u\<in>set (threads pr). thr (kern m) u \<noteq> None" "\<forall>c<length (cpus (kern m)). hartid (cpus (kern m) ! c) < 32"
    and s: "tree_ok (root (dirs m (th_process th))) (vmem m)" "user_va va" "va < user_mem_bound (dirs m (th_process th))" "three_pages (heap_of (vmem m))"
  shows "\<exists>m'. trap_handler func ticks c scause va m = Some (Ret, m') \<and> thread_table (kern m') = thread_table (kern m) \<and> cpus (kern m') = cpus (kern m) \<and>
    tree_ok (root (dirs m' (th_process th))) (vmem m') \<and> sv39 (root (dirs m' (th_process th))) (vmem m') va \<noteq> None \<and>
    (\<forall>va' pa. user_va va' \<and> sv39 (root (dirs m (th_process th))) (vmem m) va' = Some pa \<longrightarrow> sv39 (root (dirs m' (th_process th))) (vmem m') va' = Some pa)"
proof -
  let ?p = "th_process th" and ?k = "kern m"
  obtain cpu where cpu: "cpu_at ?k c = Some cpu" "current_thread cpu = t" using k(2) by (auto simp: cur_def split: option.splits)
  obtain a pd s' where al: "alloc_page_for_va va (dirs m ?p) (vmem m) = Some (a, pd, s')" "tree_ok (root pd) s'" "sv39 (root pd) s' va = Some (kva2pa a + take_bit 12 va)"
    and same: "\<And>va'. user_va va' \<Longrightarrow> drop_bit 12 va' \<noteq> drop_bit 12 va \<or> sv39 (root (dirs m ?p)) (vmem m) va \<noteq> None \<Longrightarrow> sv39 (root pd) s' va' = sv39 (root (dirs m ?p)) (vmem m) va'"
    using alloc_page_total [OF s] by blast
  obtain b where "hart_mask ?k (threads pr) 0 = Some b" using hart_mask_total [OF k(1,5,6)] by blast
  then obtain k' where k': "send_intr_to_running_thread ?p ?k = Some k'" "thread_table k' = thread_table ?k" "cpus k' = cpus ?k"
    by (simp add: send_intr_to_running_thread_def k(4))
  define k'' where "k'' = (if pd \<noteq> dirs m ?p then k' else ?k)"
  let ?m = "m\<lparr>kern := k'', vmem := s', dirs := (dirs m)(?p := pd)\<rparr>"
  have "handle_page_fault c va m = Some ?m"
    using k'(1) by (simp add: handle_page_fault_def current_process_def cpu k(3) al(1) k''_def)
  moreover have "scause \<noteq> 8" "scause \<noteq> push_bit 63 1 OR 5" "scause \<noteq> push_bit 63 1 OR 1" "scause \<noteq> push_bit 63 1 OR 9" using assms(1) by auto
  ultimately have "trap_handler func ticks c scause va m = Some (Ret, ?m)" using assms(1) by (auto simp: trap_handler_def cpu k(3))
  moreover have "sv39 (root pd) s' va' = Some pa" if v: "user_va va'" "sv39 (root (dirs m ?p)) (vmem m) va' = Some pa" for va' pa
  proof (cases "drop_bit 12 va' = drop_bit 12 va")
    case True
    then have "sv39 (root (dirs m ?p)) (vmem m) va \<noteq> None" using v sv39_page [OF s(1,2) v(1) True] by auto
    with same [OF v(1)] v(2) show ?thesis by simp
  next
    case False
    with same [OF v(1)] v(2) show ?thesis by simp
  qed
  ultimately show ?thesis using al(2,3) k'(2,3) by (auto simp: k''_def)
qed

theorem page_fault_repaired_witness:
  "\<forall>func ticks m0. \<exists>r s m'. trap_handler func ticks 0 13 0x201000 (m0\<lparr>kern := lkernel0, vmem := s, dirs := \<lambda>_. dir0 r\<rparr>) = Some (Ret, m') \<and>
     sv39 r s 0x201000 = None \<and> sv39 (root (dirs m' 1)) (vmem m') 0x201000 \<noteq> None"
proof (intro allI)
  fix func :: "sysname \<Rightarrow> u64 list \<Rightarrow> machine \<Rightarrow> (flow \<times> u64 \<times> machine) option" and ticks and m0 :: machine
  obtain r s where s: "tree_ok r s" "\<forall>va. user_va va \<longrightarrow> sv39 r s va = None" "roomy 3 (heap_of s)" by (rule first_space)
  let ?m = "m0\<lparr>kern := lkernel0, vmem := s, dirs := \<lambda>_. dir0 r\<rparr>"
  have th: "thr (kern ?m) 1 = Some (thread0 1 True)" "prc (kern ?m) 1 = Some (process0 [1])" by (simp_all add: thr_def prc_def kernel0_def)
  have k: "sched_inv (kern ?m)" "cur (kern ?m) 0 = Some 1" "\<forall>u\<in>set (threads (process0 [1])). thr (kern ?m) u \<noteq> None" "\<forall>c<length (cpus (kern ?m)). hartid (cpus (kern ?m) ! c) < 32"
    using lkernel0_inv lkernel0_cur th by (simp_all add: process0_def) (simp add: kernel0_def)
  have p: "th_process (thread0 1 True) = 1" by (simp add: thread0_def)
  have sp: "tree_ok (root (dirs ?m 1)) (vmem ?m)" "user_va 0x201000" "0x201000 < user_mem_bound (dirs ?m 1)" "three_pages (heap_of (vmem ?m))"
    using s(1) roomy_pages(1) [OF s(3)] by (simp_all add: dir0_def)
  from page_fault_repaired [of 13 ?m 0 1 "thread0 1 True" "process0 [1]" "0x201000" func ticks] k th sp s(2)
  show "\<exists>r s m'. trap_handler func ticks 0 13 0x201000 (m0\<lparr>kern := lkernel0, vmem := s, dirs := \<lambda>_. dir0 r\<rparr>) = Some (Ret, m') \<and>
     sv39 r s 0x201000 = None \<and> sv39 (root (dirs m' 1)) (vmem m') 0x201000 \<noteq> None"
    unfolding p by (intro exI [of _ r] exI [of _ s]) auto
qed

end
