(* ===== verification/Std_List.thy ===== *)
theory Std_List
  imports Prelude
begin

text \<open>
  The nodes of \<open>std::list\<close>, which \<open>common.cpp\<close> defines for the kernel; the ready queue of the scheduler is such a list.

  A list is a ring of nodes through \<open>_M_next\<close> and \<open>_M_prev\<close>, closed by the node of the list object itself. The memory of the nodes is the two functions of \<open>links\<close>; a node is its address.
  Every operation refines the operation on sequences that it stands for, and changes no node outside the rings that it works on. The check of \<open>_M_transfer\<close> is only compiled in with
  \<open>_GLIBCXX_ASSERTIONS\<close>, which the build does not set.
\<close>

section \<open>The operations\<close>

record links =
  M_next :: "nat \<Rightarrow> nat"
  M_prev :: "nat \<Rightarrow> nat"

definition set_next :: "nat \<Rightarrow> nat \<Rightarrow> links \<Rightarrow> links" where
  "set_next n v h = h\<lparr>M_next := (M_next h)(n := v)\<rparr>"

definition set_prev :: "nat \<Rightarrow> nat \<Rightarrow> links \<Rightarrow> links" where
  "set_prev n v h = h\<lparr>M_prev := (M_prev h)(n := v)\<rparr>"

definition M_hook :: "nat \<Rightarrow> nat \<Rightarrow> links \<Rightarrow> links" where
  "M_hook this position h =
     (let h = set_next this position h;
          h = set_prev this (M_prev h position) h;
          h = set_next (M_prev h position) this h
      in set_prev position this h)"

definition M_unhook :: "nat \<Rightarrow> links \<Rightarrow> links" where
  "M_unhook this h =
     (let next_node = M_next h this;
          prev_node = M_prev h this;
          h = set_next prev_node next_node h
      in set_prev next_node prev_node h)"

definition M_transfer :: "nat \<Rightarrow> nat \<Rightarrow> nat \<Rightarrow> links \<Rightarrow> links" where
  "M_transfer this first_node last_node h =
     (if this \<noteq> last_node then
        let h = set_next (M_prev h last_node) this h;
            h = set_next (M_prev h first_node) last_node h;
            h = set_next (M_prev h this) first_node h;
            tmp = M_prev h this;
            h = set_prev this (M_prev h last_node) h;
            h = set_prev last_node (M_prev h first_node) h
        in set_prev first_node tmp h
      else h)"

text \<open>\<open>n._M_next->_M_prev = n._M_prev->_M_next = &n\<close>, whose right-hand assignment comes first.\<close>

definition close_ring :: "nat \<Rightarrow> links \<Rightarrow> links" where
  "close_ring n h = (let h = set_next (M_prev h n) n h in set_prev (M_next h n) n h)"

text \<open>The loop of \<open>_M_reverse\<close> ends when it is back at the node where it began.\<close>

definition swap_links :: "nat \<Rightarrow> links \<Rightarrow> links" where
  "swap_links n h = set_prev n (M_next h n) (set_next n (M_prev h n) h)"

partial_function (option) reverse_loop :: "nat \<Rightarrow> nat \<Rightarrow> links \<Rightarrow> links option" where
  "reverse_loop this tmp h =
     (let h = swap_links tmp h;
          tmp = M_prev h tmp
      in if tmp \<noteq> this then reverse_loop this tmp h else Some h)"

definition M_reverse :: "nat \<Rightarrow> links \<Rightarrow> links option" where
  "M_reverse this h = reverse_loop this this h"

definition list_swap :: "nat \<Rightarrow> nat \<Rightarrow> links \<Rightarrow> links" where
  "list_swap x y h =
     (if M_next h x \<noteq> x then
        if M_next h y \<noteq> y then
          let h = set_next y (M_next h x) (set_next x (M_next h y) h);
              h = set_prev y (M_prev h x) (set_prev x (M_prev h y) h)
          in close_ring y (close_ring x h)
        else
          let h = set_next y (M_next h x) h;
              h = set_prev y (M_prev h x) h;
              h = close_ring y h;
              h = set_prev x x h
          in set_next x x h
      else if M_next h y \<noteq> y then
        let h = set_next x (M_next h y) h;
            h = set_prev x (M_prev h y) h;
            h = close_ring x h;
            h = set_prev y y h
        in set_next y y h
      else h)"

section \<open>Rings of nodes\<close>

definition linked :: "links \<Rightarrow> nat list \<Rightarrow> bool" where
  "linked h = successively (\<lambda>x y. M_next h x = y \<and> M_prev h y = x)"

text \<open>The list object at \<open>s\<close> holds the sequence \<open>xs\<close> of nodes.\<close>

definition list_ring :: "links \<Rightarrow> nat \<Rightarrow> nat list \<Rightarrow> bool" where
  "list_ring h s xs \<longleftrightarrow> linked h (s # xs @ [s]) \<and> distinct (s # xs)"

definition same_off :: "nat set \<Rightarrow> links \<Rightarrow> links \<Rightarrow> bool" where
  "same_off N h h' \<longleftrightarrow> (\<forall>n. n \<notin> N \<longrightarrow> M_next h' n = M_next h n \<and> M_prev h' n = M_prev h n)"

lemma set_links [simp]:
  "M_next (set_next n v h) = (M_next h)(n := v)" "M_prev (set_next n v h) = M_prev h"
  "M_prev (set_prev n v h) = (M_prev h)(n := v)" "M_next (set_prev n v h) = M_next h"
  by (simp_all add: set_next_def set_prev_def)

lemma same_off_simps [simp]:
  "same_off N h h" "x \<in> N \<Longrightarrow> same_off N h (set_next x v h') = same_off N h h'" "x \<in> N \<Longrightarrow> same_off N h (set_prev x v h') = same_off N h h'"
  by (auto simp: same_off_def)

lemma linked_simps [simp]:
  "linked h []" "linked h [x]" "linked h (x # y # xs) \<longleftrightarrow> M_next h x = y \<and> M_prev h y = x \<and> linked h (y # xs)"
  by (auto simp: linked_def)

lemma linked_append:
  "linked h (xs @ ys) \<longleftrightarrow> linked h xs \<and> linked h ys \<and> (xs = [] \<or> ys = [] \<or> M_next h (last xs) = hd ys \<and> M_prev h (hd ys) = last xs)"
  by (simp add: linked_def successively_append_iff)

lemma linked_cong:
  "(\<And>x. x \<in> set (butlast xs) \<Longrightarrow> M_next h' x = M_next h x) \<Longrightarrow> (\<And>x. x \<in> set (tl xs) \<Longrightarrow> M_prev h' x = M_prev h x) \<Longrightarrow> linked h' xs = linked h xs"
proof (induction xs rule: induct_list012)
  case (3 x y zs)
  have "linked h' (y # zs) = linked h (y # zs)" by (rule "3.IH") (use "3.prems" in \<open>auto split: if_splits\<close>)
  with "3.prems" show ?case by simp
qed simp_all

lemma linked_upd [simp]:
  "x \<notin> set (butlast xs) \<Longrightarrow> linked (set_next x v h) xs = linked h xs"
  "x \<notin> set (tl xs) \<Longrightarrow> linked (set_prev x v h) xs = linked h xs"
  by (auto intro!: linked_cong)

lemma last_butlast: "distinct xs \<Longrightarrow> xs \<noteq> [] \<Longrightarrow> last xs \<notin> set (butlast xs)"
  by (metis append_butlast_last_id distinct_append distinct.simps(2) disjoint_iff list.set_intros(1))

lemma hd_tl: "distinct xs \<Longrightarrow> xs \<noteq> [] \<Longrightarrow> hd xs \<notin> set (tl xs)"
  by (cases xs) auto

lemma linked_fresh [simp]:
  "x \<notin> set xs \<Longrightarrow> linked (set_next x v h) xs = linked h xs" "x \<notin> set xs \<Longrightarrow> linked (set_prev x v h) xs = linked h xs"
  using in_set_butlastD [of x xs] list.set_sel(2) [of xs x] by (cases "xs = []"; force)+

lemma ring_same_off: "list_ring h s xs \<Longrightarrow> same_off N h h' \<Longrightarrow> N \<inter> set (s # xs) = {} \<Longrightarrow> list_ring h' s xs"
  unfolding list_ring_def same_off_def by (subst linked_cong [of _ h' h]) (auto simp: disjoint_iff dest: in_set_butlastD split: if_splits)

text \<open>
  A ring is cut in two pieces: the object with the nodes before the cut, and the nodes after it with the object again. The link over the cut is from the end of the first to the head of the
  second; these two are not where a link inside a piece is kept.
\<close>

definition pieces :: "nat \<Rightarrow> nat list \<Rightarrow> nat list \<Rightarrow> nat list \<Rightarrow> nat list \<Rightarrow> bool" where
  "pieces s xs ys A B \<longleftrightarrow> A = s # xs \<and> B = ys @ [s] \<and> distinct (s # xs @ ys)"

lemma piecesD:
  assumes "pieces s xs ys A B"
  shows "set A = set (s # xs)" "set B = set (s # ys)" "A \<noteq> []" "B \<noteq> []" "last A \<in> set A" "hd B \<in> set B"
    "last A \<notin> set (butlast A)" "last A \<notin> set (butlast B)" "hd B \<notin> set (tl A)" "hd B \<notin> set (tl B)" "set (butlast B) = set ys" "set (tl A) = set xs"
proof -
  have e: "A = s # xs" "B = ys @ [s]" "distinct (s # xs @ ys)" using assms by (auto simp: pieces_def)
  then show "set A = set (s # xs)" "set B = set (s # ys)" and ne: "A \<noteq> []" "B \<noteq> []" by auto
  show lA: "last A \<in> set A" "hd B \<in> set B" using ne by simp_all
  show "set (butlast B) = set ys" "set (tl A) = set xs" using e by auto
  show "last A \<notin> set (butlast A)" by (rule last_butlast) (use e in auto)
  show "last A \<notin> set (butlast B)" "hd B \<notin> set (tl A)" using lA e by auto
  show "hd B \<notin> set (tl B)" by (rule hd_tl) (use e in auto)
qed

lemma ring_cut:
  "list_ring h s (xs @ ys) \<longleftrightarrow> (\<exists>A B. pieces s xs ys A B \<and> linked h A \<and> linked h B \<and> M_next h (last A) = hd B \<and> M_prev h (hd B) = last A)"
  using linked_append [of h "s # xs" "ys @ [s]"] by (auto simp: list_ring_def pieces_def)

lemma linked_Cons: "ys \<noteq> [] \<Longrightarrow> linked h (n # ys) \<longleftrightarrow> M_next h n = hd ys \<and> M_prev h (hd ys) = n \<and> linked h ys"
  by (cases ys) auto

section \<open>Insertion and removal\<close>

lemma hook_ok:
  assumes "list_ring h s (xs @ ys)" "n \<notin> set (s # xs @ ys)" "p = hd (ys @ [s])"
  shows "list_ring (M_hook n p h) s (xs @ n # ys) \<and> same_off (set (n # s # xs @ ys)) h (M_hook n p h)"
proof -
  obtain A B where c: "pieces s xs ys A B" and l: "linked h A" "linked h B" "M_prev h (hd B) = last A" using assms(1) unfolding ring_cut by blast
  note d = piecesD [OF c]
  have p: "p = hd B" using c assms(3) by (simp add: pieces_def)
  have n: "n \<notin> set A" "n \<notin> set B" "n \<noteq> hd B" "n \<noteq> last A" using assms(2) d by auto
  have e: "M_hook n p h = set_prev (hd B) n (set_next (last A) n (set_prev n (last A) (set_next n (hd B) h)))" using l n by (simp add: M_hook_def p)
  have c': "pieces s xs (n # ys) A (n # B)" using c assms(2) by (auto simp: pieces_def)
  have "list_ring (M_hook n p h) s (xs @ n # ys)"
    unfolding ring_cut e by (rule exI [of _ A], rule exI [of _ "n # B"]) (use c' l n d in \<open>simp add: linked_Cons\<close>)
  then show ?thesis using d n by (auto simp: same_off_def e)
qed

lemma unhook_ok:
  assumes "list_ring h s (xs @ n # ys)"
  shows "list_ring (M_unhook n h) s (xs @ ys) \<and> same_off (set (s # xs @ n # ys)) h (M_unhook n h)"
proof -
  obtain A B' where c': "pieces s xs (n # ys) A B'" and l': "linked h A" "linked h B'" "M_prev h (hd B') = last A" using assms unfolding ring_cut by blast
  obtain B where B: "B' = n # B" "pieces s xs ys A B" using c' by (auto simp: pieces_def)
  note d = piecesD [OF B(2)]
  have l: "linked h B" "M_prev h n = last A" "M_next h n = hd B" using l' B d by (simp_all add: linked_Cons)
  have e: "M_unhook n h = set_prev (hd B) (last A) (set_next (last A) (hd B) h)" by (simp add: M_unhook_def l Let_def)
  have "list_ring (M_unhook n h) s (xs @ ys)" unfolding ring_cut e by (rule exI [of _ A], rule exI [of _ B]) (use B l l' d in simp)
  then show ?thesis using d by (auto simp: same_off_def e)
qed

section \<open>Moving a range, swapping and reversing\<close>

lemma apart: "x \<in> X \<Longrightarrow> y \<in> Y \<Longrightarrow> X \<inter> Y = {} \<Longrightarrow> x \<noteq> y" "x \<in> X \<Longrightarrow> y \<in> Y \<Longrightarrow> X \<inter> Y = {} \<Longrightarrow> y \<noteq> x"
  by blast+

lemma transfer_ok:
  assumes s: "list_ring h s (as @ bs)" and t: "list_ring h t (cs @ ds @ es)" and ne: "ds \<noteq> []" and dis: "set (s # as @ bs) \<inter> set (t # cs @ ds @ es) = {}"
    and at: "this = hd (bs @ [s])" "first = hd ds" "la = hd (es @ [t])"
  shows "list_ring (M_transfer this first la h) s (as @ ds @ bs) \<and> list_ring (M_transfer this first la h) t (cs @ es)
    \<and> same_off (set (s # as @ bs) \<union> set (t # cs @ ds @ es)) h (M_transfer this first la h)"
proof -
  obtain A B where c: "pieces s as bs A B" and l: "linked h A" "linked h B" "M_prev h (hd B) = last A" using s unfolding ring_cut by blast
  obtain C F where cF: "pieces t cs (ds @ es) C F" and lF: "linked h C" "linked h F" "M_prev h (hd F) = last C" using t unfolding ring_cut by blast
  obtain E where F: "F = ds @ E" and cE: "pieces t cs es C E" using cF by (auto simp: pieces_def)
  note d = piecesD [OF c] piecesD [OF cE] ne
  have m: "linked h ds" "linked h E" "M_prev h (hd E) = last ds" "M_prev h (hd ds) = last C" using lF F d by (auto simp: linked_append)
  have dd: "last ds \<in> set ds" "hd ds \<in> set ds" "last ds \<notin> set (butlast ds)" "hd ds \<notin> set (tl ds)"
    using ne cF last_butlast [of ds] hd_tl [of ds] by (auto simp: pieces_def)
  have sep: "set A \<inter> set C = {}" "set A \<inter> set ds = {}" "set A \<inter> set E = {}" "set B \<inter> set C = {}" "set B \<inter> set ds = {}" "set B \<inter> set E = {}" "set ds \<inter> set C = {}" "set ds \<inter> set E = {}"
    using dis d(1,2,13,14) cF by (auto simp: pieces_def)
  have th: "this = hd B" "first = hd ds" "la = hd E" using c cE at by (simp_all add: pieces_def)
  let ?h = "set_prev (hd ds) (last A) (set_prev (hd E) (last C) (set_prev (hd B) (last ds) (set_next (last A) (hd ds) (set_next (last C) (hd E) (set_next (last ds) (hd B) h)))))"
  have n: "hd B \<noteq> hd E" "hd E \<noteq> hd B" "hd B \<noteq> hd ds" "hd ds \<noteq> hd B" "hd E \<noteq> hd ds" "hd ds \<noteq> hd E" "last A \<noteq> last C" "last C \<noteq> last A" "last ds \<noteq> last A" "last ds \<noteq> last C" "last A \<noteq> last ds" "last C \<noteq> last ds"
    by (rule apart [OF d(6,18) sep(6)] apart [OF d(6) dd(2) sep(5)] apart [OF dd(2) d(18) sep(8)] apart [OF d(5,17) sep(1)] apart [OF d(5) dd(1) sep(2)] apart [OF dd(1) d(17) sep(7)])+
  have e: "M_transfer this first la h = ?h" using n m l by (simp add: M_transfer_def th Let_def)
  have off: "last C \<notin> set A" "last ds \<notin> set A" "hd E \<notin> set A" "hd ds \<notin> set A" "last C \<notin> set B" "last ds \<notin> set B" "hd E \<notin> set B" "hd ds \<notin> set B"
    "last A \<notin> set C" "last ds \<notin> set C" "hd B \<notin> set C" "hd ds \<notin> set C" "last A \<notin> set E" "last ds \<notin> set E" "hd B \<notin> set E" "hd ds \<notin> set E"
    "last A \<notin> set ds" "last C \<notin> set ds" "hd B \<notin> set ds" "hd E \<notin> set ds"
    using sep d(5,6,17,18) dd(1,2) by (simp_all only: disjoint_iff) metis+
  have k: "linked ?h A" "linked ?h B" "linked ?h C" "linked ?h ds" "linked ?h E" using off l(1,2) m(1,2) lF(1) d dd by simp_all
  have "pieces s as (ds @ bs) A (ds @ B)" using c cF dis by (auto simp: pieces_def)
  moreover have "linked ?h A \<and> linked ?h (ds @ B) \<and> M_next ?h (last A) = hd (ds @ B) \<and> M_prev ?h (hd (ds @ B)) = last A"
    using k n l m d by (simp add: linked_append del: linked_upd linked_fresh)
  ultimately have "list_ring ?h s (as @ ds @ bs)" unfolding ring_cut by blast
  moreover let ?N = "set (s # as @ bs) \<union> set (t # cs @ ds @ es)"
  have "linked ?h C \<and> linked ?h E \<and> M_next ?h (last C) = hd E \<and> M_prev ?h (hd E) = last C"
    using k n l m d lF by (simp del: linked_upd linked_fresh)
  with cE have "list_ring ?h t (cs @ es)" unfolding ring_cut by blast
  moreover have "last A \<in> ?N" "last C \<in> ?N" "last ds \<in> ?N" "hd B \<in> ?N" "hd E \<in> ?N" "hd ds \<in> ?N"
    using d(5,6,17,18) dd(1,2) unfolding d(1,2,13,14) by simp_all blast+
  then have "same_off ?N h ?h" by simp
  ultimately show ?thesis unfolding e by blast
qed

text \<open>What \<open>_M_reverse\<close> leaves: the two links of every node of the ring are exchanged.\<close>

definition turned :: "nat set \<Rightarrow> links \<Rightarrow> links" where
  "turned N h = h\<lparr>M_next := (\<lambda>n. if n \<in> N then M_prev h n else M_next h n), M_prev := (\<lambda>n. if n \<in> N then M_next h n else M_prev h n)\<rparr>"

lemma turned_simps [simp]:
  "M_next (turned N h) n = (if n \<in> N then M_prev h n else M_next h n)" "M_prev (turned N h) n = (if n \<in> N then M_next h n else M_prev h n)"
  by (simp_all add: turned_def)

lemma turned_empty [simp]: "turned {} h = h"
  by (simp add: turned_def)

lemma swap_links_turned: "n \<notin> N \<Longrightarrow> turned N (swap_links n h) = turned (insert n N) h"
  by (auto simp: turned_def swap_links_def set_next_def set_prev_def fun_eq_iff)

lemma swap_links_simps [simp]:
  "M_prev (swap_links n h) n = M_next h n" "M_next (swap_links n h) x = (if x = n then M_prev h n else M_next h x)"
  by (simp_all add: swap_links_def)

lemma next_cong:
  "(\<And>x. x \<in> set (butlast xs) \<Longrightarrow> M_next h' x = M_next h x) \<Longrightarrow> successively (\<lambda>x y. M_next h' x = y) xs = successively (\<lambda>x y. M_next h x = y) xs"
  by (induction xs rule: induct_list012) auto

lemma reverse_loop_eq:
  "successively (\<lambda>x y. M_next h x = y) (tmp # ns @ [this]) \<Longrightarrow> distinct (tmp # ns) \<Longrightarrow> this \<notin> set ns
    \<Longrightarrow> reverse_loop this tmp h = Some (turned (set (tmp # ns)) h)"
proof (induction ns arbitrary: tmp h)
  case Nil
  then show ?case using swap_links_turned [of tmp "{}" h] by (simp add: reverse_loop.simps)
next
  case (Cons n ns)
  have s: "successively (\<lambda>x y. M_next h x = y) (n # ns @ [this])" "M_next h tmp = n" using Cons.prems(1) by simp_all
  have "successively (\<lambda>x y. M_next (swap_links tmp h) x = y) (n # ns @ [this])"
    using Cons.prems(2) s(1) by (subst next_cong [of _ _ h]) (auto simp: butlast_append)
  have "reverse_loop this tmp h = reverse_loop this n (swap_links tmp h)" using Cons.prems(3) s(2) by (subst reverse_loop.simps) auto
  also have "\<dots> = Some (turned (set (n # ns)) (swap_links tmp h))" by (rule Cons.IH) (fact, use Cons.prems in auto)
  also have "\<dots> = Some (turned (set (tmp # n # ns)) h)" using Cons.prems(2) by (simp add: swap_links_turned)
  finally show ?case .
qed

lemma reverse_ok:
  assumes "list_ring h s xs"
  shows "\<exists>h'. M_reverse s h = Some h' \<and> list_ring h' s (rev xs) \<and> same_off (set (s # xs)) h h'"
proof -
  let ?N = "set (s # xs)"
  have l: "linked h (s # xs @ [s])" "distinct (s # xs)" using assms by (simp_all add: list_ring_def)
  have "successively (\<lambda>x y. M_next h x = y) (s # xs @ [s])" using l(1) unfolding linked_def by (rule successively_mono) simp
  then have e: "M_reverse s h = Some (turned ?N h)" unfolding M_reverse_def by (rule reverse_loop_eq) (use l in auto)
  have "s # rev xs @ [s] = rev (s # xs @ [s])" by simp
  then have "linked (turned ?N h) (s # rev xs @ [s])"
    using l(1) unfolding linked_def by (simp only: successively_rev) (erule successively_mono, auto)
  with e l(2) show ?thesis by (auto simp: list_ring_def same_off_def)
qed

text \<open>The links of a ring that has nodes: those among the nodes, and the four with the object.\<close>

lemma ring_Nil: "list_ring h s [] \<longleftrightarrow> M_next h s = s \<and> M_prev h s = s"
  by (auto simp: list_ring_def)

lemma ring_body:
  "xs \<noteq> [] \<Longrightarrow> list_ring h s xs \<longleftrightarrow> linked h xs \<and> M_next h s = hd xs \<and> M_prev h (hd xs) = s \<and> M_next h (last xs) = s \<and> M_prev h s = last xs \<and> distinct (s # xs)"
  by (auto simp: list_ring_def linked_Cons linked_append)

lemma ring_ends:
  assumes "list_ring h s xs" "xs \<noteq> []" "t \<notin> set xs" "set xs \<inter> set ys = {}"
  shows "linked h xs" "M_next h s = hd xs" "M_prev h s = last xs" "M_prev h (hd xs) = s" "M_next h (last xs) = s" "s \<notin> set xs" "distinct xs"
    "hd xs \<noteq> s" "s \<noteq> hd xs" "last xs \<noteq> s" "s \<noteq> last xs" "hd xs \<noteq> t" "t \<noteq> hd xs" "last xs \<noteq> t" "t \<noteq> last xs"
    "hd xs \<notin> set (tl xs)" "last xs \<notin> set (butlast xs)" "hd xs \<notin> set ys" "last xs \<notin> set ys" "hd xs \<in> set xs" "last xs \<in> set xs"
proof -
  show l: "linked h xs" "M_next h s = hd xs" "M_prev h s = last xs" "M_prev h (hd xs) = s" "M_next h (last xs) = s" "s \<notin> set xs" and d: "distinct xs"
    using assms(1,2) by (simp_all add: ring_body)
  show e: "hd xs \<in> set xs" "last xs \<in> set xs" using assms(2) by simp_all
  show "hd xs \<noteq> s" "s \<noteq> hd xs" "last xs \<noteq> s" "s \<noteq> last xs" "hd xs \<noteq> t" "t \<noteq> hd xs" "last xs \<noteq> t" "t \<noteq> last xs" using e l(6) assms(3) by metis+
  show "hd xs \<notin> set (tl xs)" "last xs \<notin> set (butlast xs)" using d assms(2) by (simp_all add: hd_tl last_butlast)
  show "hd xs \<notin> set ys" "last xs \<notin> set ys" using e assms(4) by blast+
qed

lemma swap_empty:
  assumes "list_ring h s []" "list_ring h t ys" "s \<noteq> t" "s \<notin> set ys" "ys \<noteq> []"
  shows "list_ring (list_swap s t h) s ys \<and> list_ring (list_swap s t h) t [] \<and> same_off (set (s # t # ys)) h (list_swap s t h)"
    "list_ring (list_swap t s h) s ys \<and> list_ring (list_swap t s h) t [] \<and> same_off (set (s # t # ys)) h (list_swap t s h)"
proof -
  note e = ring_ends [OF assms(2,5,4), of "[]", simplified] and n = assms(1) [unfolded ring_Nil]
  let ?h = "set_next t t (set_prev t t (set_prev (hd ys) s (set_next (last ys) s (set_prev s (last ys) (set_next s (hd ys) h)))))"
  have s: "list_swap s t h = ?h" "list_swap t s h = ?h" using e n assms(3) by (simp_all add: list_swap_def close_ring_def Let_def)
  have "list_ring ?h s ys" using e assms by (simp add: ring_body)
  moreover have "list_ring ?h t []" using e assms by (simp add: ring_Nil)
  moreover have "same_off (set (s # t # ys)) h ?h" using e by simp
  ultimately show "list_ring (list_swap s t h) s ys \<and> list_ring (list_swap s t h) t [] \<and> same_off (set (s # t # ys)) h (list_swap s t h)"
    "list_ring (list_swap t s h) s ys \<and> list_ring (list_swap t s h) t [] \<and> same_off (set (s # t # ys)) h (list_swap t s h)" unfolding s by blast+
qed

lemma swap_ok:
  assumes "list_ring h s xs" "list_ring h t ys" "set (s # xs) \<inter> set (t # ys) = {}"
  shows "list_ring (list_swap s t h) s ys \<and> list_ring (list_swap s t h) t xs \<and> same_off (set (s # t # xs @ ys)) h (list_swap s t h)"
proof -
  have st: "s \<noteq> t" "t \<noteq> s" "s \<notin> set ys" "t \<notin> set xs" "set xs \<inter> set ys = {}" "set ys \<inter> set xs = {}" using assms(3) by auto
  consider "xs = []" "ys = []" | "xs = []" "ys \<noteq> []" | "xs \<noteq> []" "ys = []" | "xs \<noteq> []" "ys \<noteq> []" by blast
  then show ?thesis
  proof cases
    case 1
    then show ?thesis using assms by (simp add: ring_Nil list_swap_def)
  next
    case 2
    then show ?thesis using swap_empty(1) [OF _ assms(2)] assms(1) st by simp
  next
    case 3
    then show ?thesis using swap_empty(2) [OF _ assms(1), of t] assms(2) st insert_commute [of t s "set xs"] by simp
  next
    case 4
    note e = ring_ends [OF assms(1) 4(1) st(4,5)] ring_ends [OF assms(2) 4(2) st(3,6)]
    let ?h = "set_prev (hd xs) t (set_next (last xs) t (set_prev (hd ys) s (set_next (last ys) s (set_prev t (last xs) (set_prev s (last ys) (set_next t (hd xs) (set_next s (hd ys) h)))))))"
    have n: "hd xs \<noteq> hd ys" "hd ys \<noteq> hd xs" "last xs \<noteq> last ys" "last ys \<noteq> last xs" using e(18-21,39-42) by metis+
    have s: "list_swap s t h = ?h" using e st by (simp add: list_swap_def close_ring_def Let_def)
    have "list_ring ?h s ys" using e n st 4 by (simp add: ring_body)
    moreover have "list_ring ?h t xs" using e n st 4 by (simp add: ring_body)
    moreover have "same_off (set (s # t # xs @ ys)) h ?h" using e by simp
    ultimately show ?thesis unfolding s by blast
  qed
qed

section \<open>Sequences of operations\<close>

text \<open>The operations on one list, as the kernel's \<open>std::list\<close> issues them: insertion before a node, removal of a node, reversal.\<close>

datatype list_op = Hook nat nat | Unhook nat | Reverse

fun do_op :: "nat \<Rightarrow> list_op \<Rightarrow> links \<Rightarrow> links option" where
  "do_op s (Hook n p) h = Some (M_hook n p h)"
| "do_op s (Unhook n) h = Some (M_unhook n h)"
| "do_op s Reverse h = M_reverse s h"

fun do_ops :: "nat \<Rightarrow> list_op list \<Rightarrow> links \<Rightarrow> links option" where
  "do_ops s [] h = Some h"
| "do_ops s (x # ops) h = do { h \<leftarrow> do_op s x h; do_ops s ops h }"

text \<open>The same on a sequence. It is not defined for a node that is already in the list or a position that is not.\<close>

fun seq_op :: "nat \<Rightarrow> list_op \<Rightarrow> nat list \<Rightarrow> nat list option" where
  "seq_op s (Hook n p) xs =
     (if n \<in> set (s # xs) then None
      else if p = s then Some (xs @ [n])
      else if p \<in> set xs then Some (takeWhile (\<lambda>x. x \<noteq> p) xs @ n # dropWhile (\<lambda>x. x \<noteq> p) xs)
      else None)"
| "seq_op s (Unhook n) xs = (if n \<in> set xs then Some (remove1 n xs) else None)"
| "seq_op s Reverse xs = Some (rev xs)"

fun seq_ops :: "nat \<Rightarrow> list_op list \<Rightarrow> nat list \<Rightarrow> nat list option" where
  "seq_ops s [] xs = Some xs"
| "seq_ops s (x # ops) xs = do { xs \<leftarrow> seq_op s x xs; seq_ops s ops xs }"

fun op_nodes :: "list_op \<Rightarrow> nat set" where
  "op_nodes (Hook n p) = {n}"
| "op_nodes _ = {}"

lemma do_op_refines:
  assumes "list_ring h s xs" "seq_op s x xs = Some ys"
  shows "\<exists>h'. do_op s x h = Some h' \<and> list_ring h' s ys \<and> same_off (set (s # xs) \<union> op_nodes x) h h' \<and> set ys \<subseteq> set xs \<union> op_nodes x"
proof (cases x)
  case (Hook n p)
  show ?thesis
  proof (cases "p = s")
    case True
    then show ?thesis using assms hook_ok [of h s xs "[]" n p] by (auto simp: Hook split: if_splits)
  next
    case False
    let ?a = "takeWhile (\<lambda>x. x \<noteq> p) xs" and ?b = "dropWhile (\<lambda>x. x \<noteq> p) xs"
    have p: "p \<in> set xs" "n \<notin> set (s # xs)" "ys = ?a @ n # ?b" using assms(2) False by (auto simp: Hook split: if_splits)
    then have b: "?b \<noteq> []" "hd ?b = p" using hd_dropWhile [of "\<lambda>x. x \<noteq> p" xs] by auto
    have xs: "?a @ ?b = xs" by simp
    have "list_ring (M_hook n p h) s (?a @ n # ?b) \<and> same_off (set (n # s # ?a @ ?b)) h (M_hook n p h)"
      by (rule hook_ok) (use assms(1) p b xs in simp_all)
    moreover have "set ?a \<union> set ?b = set xs" by (metis xs set_append)
    then have "set ys = insert n (set xs)" unfolding p(3) by auto
    ultimately show ?thesis using p xs by (auto simp: Hook)
  qed
next
  case (Unhook n)
  then have n: "n \<in> set xs" "ys = remove1 n xs" using assms(2) by (auto split: if_splits)
  obtain a b where ab: "xs = a @ n # b" "n \<notin> set a" using split_list_first [OF n(1)] by blast
  then show ?thesis using unhook_ok [of h s a n b] assms(1) n by (auto simp: Unhook remove1_append)
next
  case Reverse
  then show ?thesis using reverse_ok [OF assms(1)] assms(2) by (auto simp: Reverse)
qed

lemma same_off_trans: "same_off M h h' \<Longrightarrow> same_off N h' h'' \<Longrightarrow> M \<subseteq> K \<Longrightarrow> N \<subseteq> K \<Longrightarrow> same_off K h h''"
  unfolding same_off_def by (metis subset_iff)

lemma do_ops_refine:
  "list_ring h s xs \<Longrightarrow> seq_ops s ops xs = Some ys
    \<Longrightarrow> \<exists>h'. do_ops s ops h = Some h' \<and> list_ring h' s ys \<and> same_off (set (s # xs) \<union> \<Union> (op_nodes ` set ops)) h h'"
proof (induction ops arbitrary: h xs)
  case (Cons x ops)
  obtain zs where z: "seq_op s x xs = Some zs" "seq_ops s ops zs = Some ys" using Cons.prems(2) by (auto elim: bind_SomeE)
  obtain h1 where h1: "do_op s x h = Some h1" "list_ring h1 s zs" "same_off (set (s # xs) \<union> op_nodes x) h h1" "set zs \<subseteq> set xs \<union> op_nodes x"
    using do_op_refines [OF Cons.prems(1) z(1)] by blast
  obtain h2 where h2: "do_ops s ops h1 = Some h2" "list_ring h2 s ys" "same_off (set (s # zs) \<union> \<Union> (op_nodes ` set ops)) h1 h2"
    using Cons.IH [OF h1(2) z(2)] by blast
  have "same_off (set (s # xs) \<union> \<Union> (op_nodes ` set (x # ops))) h h2" by (rule same_off_trans [OF h1(3) h2(3)]) (use h1(4) in auto)
  with h1(1) h2(1,2) show ?case by simp
qed simp

section \<open>Properties\<close>

text \<open>
  C40: The linked nodes refine the sequence: for every series of insertions, removals and reversals that makes sense on the sequence of a list, the code ends and its nodes hold the resulting sequence,
  linked in both directions; any other list whose nodes are not involved holds what it held.
\<close>

theorem list_ops_refine:
  assumes "list_ring h s xs" "seq_ops s ops xs = Some ys"
  shows "\<exists>h'. do_ops s ops h = Some h' \<and> list_ring h' s ys
    \<and> (\<forall>t zs. list_ring h t zs \<and> set (t # zs) \<inter> (set (s # xs) \<union> \<Union> (op_nodes ` set ops)) = {} \<longrightarrow> list_ring h' t zs)"
  using do_ops_refine [OF assms] ring_same_off by (metis Int_commute)

definition links0 :: links where
  "links0 = \<lparr>M_next = id, M_prev = id\<rparr>"

lemma links0_empty [simp]: "list_ring links0 s []"
  by (simp add: ring_Nil links0_def)

theorem list_ops_refine_witness:
  "seq_ops 0 [Hook 1 0, Hook 2 0, Hook 3 2, Reverse, Unhook 3] [] = Some [2, 1]
   \<and> (\<exists>h'. do_ops 0 [Hook 1 0, Hook 2 0, Hook 3 2, Reverse, Unhook 3] links0 = Some h' \<and> list_ring h' 0 [2, 1] \<and> list_ring h' 9 [])"
proof
  show s: "seq_ops 0 [Hook 1 0, Hook 2 0, Hook 3 2, Reverse, Unhook 3] [] = Some [2, 1]" by simp
  have "set [9] \<inter> (set [0] \<union> \<Union> (op_nodes ` set [Hook 1 0, Hook 2 0, Hook 3 2, Reverse, Unhook 3])) = ({} :: nat set)" by simp
  then show "\<exists>h'. do_ops 0 [Hook 1 0, Hook 2 0, Hook 3 2, Reverse, Unhook 3] links0 = Some h' \<and> list_ring h' 0 [2, 1] \<and> list_ring h' 9 []"
    using list_ops_refine [OF links0_empty s] links0_empty [of 9] by blast
qed

text \<open>Moving a range of nodes from one list to another, and swapping two lists, does to the two sequences what it says and leaves every other list alone.\<close>

theorem list_transfer_swap:
  assumes "list_ring h s (as @ bs)" "list_ring h t (cs @ ds @ es)" "set (s # as @ bs) \<inter> set (t # cs @ ds @ es) = {}" "ds \<noteq> []"
  defines "h1 \<equiv> M_transfer (hd (bs @ [s])) (hd ds) (hd (es @ [t])) h" and "h2 \<equiv> list_swap s t h"
  shows "list_ring h1 s (as @ ds @ bs) \<and> list_ring h1 t (cs @ es) \<and> list_ring h2 s (cs @ ds @ es) \<and> list_ring h2 t (as @ bs)
    \<and> (\<forall>u us. list_ring h u us \<and> set (u # us) \<inter> (set (s # as @ bs) \<union> set (t # cs @ ds @ es)) = {} \<longrightarrow> list_ring h1 u us \<and> list_ring h2 u us)"
proof (intro conjI allI impI; (elim conjE)?)
  have tr: "list_ring h1 s (as @ ds @ bs) \<and> list_ring h1 t (cs @ es) \<and> same_off (set (s # as @ bs) \<union> set (t # cs @ ds @ es)) h h1"
    unfolding h1_def by (rule transfer_ok [OF assms(1,2,4,3) refl refl refl])
  have sw: "list_ring h2 s (cs @ ds @ es) \<and> list_ring h2 t (as @ bs) \<and> same_off (set (s # as @ bs) \<union> set (t # cs @ ds @ es)) h h2"
    using swap_ok [OF assms(1,2,3)] unfolding h2_def by (simp add: Un_ac insert_commute)
  show "list_ring h1 s (as @ ds @ bs)" "list_ring h1 t (cs @ es)" "list_ring h2 s (cs @ ds @ es)" "list_ring h2 t (as @ bs)" using tr sw by blast+
  fix u us
  assume u: "list_ring h u us" "set (u # us) \<inter> (set (s # as @ bs) \<union> set (t # cs @ ds @ es)) = {}"
  show "list_ring h1 u us" by (rule ring_same_off [OF u(1)]) (use tr u(2) in blast)+
  show "list_ring h2 u us" by (rule ring_same_off [OF u(1)]) (use sw u(2) in blast)+
qed

theorem list_transfer_swap_witness:
  "list_ring (M_hook 1 0 links0) 0 [1] \<and> list_ring (M_transfer 7 1 0 (M_hook 1 0 links0)) 7 [1] \<and> list_ring (M_transfer 7 1 0 (M_hook 1 0 links0)) 0 []
   \<and> list_ring (list_swap 7 0 (M_hook 1 0 links0)) 7 [1]"
proof -
  have r: "list_ring (M_hook 1 0 links0) 0 ([] @ [1] @ [])" "list_ring (M_hook 1 0 links0) 7 ([] @ [])"
    by (simp_all add: ring_Nil ring_body M_hook_def links0_def Let_def)
  show ?thesis using list_transfer_swap [OF r(2,1)] r by simp
qed

end
