(* ===== verification/Layout.thy ===== *)
theory Layout
  imports Cache
begin

text \<open>
  The on-disk structures of \<open>fs/fs.hpp\<close> as bytes: little-endian integers, \<open>SuperBlock\<close>, \<open>Inode\<close> (64
  bytes) and \<open>DirEntry\<close> (32 bytes). A structure copied from or to a block is a list of bytes loaded
  from or stored at an offset, as \<open>memcpy\<close> does it.
\<close>

section \<open>The structures\<close>

definition MAX_INODE_NUM :: nat where "MAX_INODE_NUM = 32 * 1024"
definition SUPERBLOCK_MAGIC :: u32 where "SUPERBLOCK_MAGIC = 0x20221205"
definition INODE_DATA_DIRECT :: nat where "INODE_DATA_DIRECT = 8"
definition INODE_DATA_L1 :: nat where "INODE_DATA_L1 = 3"
definition INODE_DATA_L2 :: nat where "INODE_DATA_L2 = 2"
definition INODE_SIZE :: nat where "INODE_SIZE = 64"
definition INODE_PER_BLOCK :: nat where "INODE_PER_BLOCK = BLOCK_SIZE div INODE_SIZE"
definition DIRENTRY_SIZE :: nat where "DIRENTRY_SIZE = 32"
definition DIRENTRY_PER_BLOCK :: nat where "DIRENTRY_PER_BLOCK = BLOCK_SIZE div DIRENTRY_SIZE"

record super_block =
  magic0 :: u32
  fs_start :: u32
  inode_map_start_block :: u32
  inode_map_size :: u32
  inode_allocated :: u32
  inode_free_min :: u32
  block_map_start_block :: u32
  block_map_size :: u32
  block_allocated :: u32
  block_free_min :: u32
  inode_start_block :: u32
  block_start_block :: u32
  root_inode :: u32
  magic1 :: u32

text \<open>\<open>itype\<close> is 0 for an empty inode, 1 for a directory, 2 for a file.\<close>

record inode =
  itype :: u8
  imode :: u8
  link_cnt :: u16
  isize :: u32
  data_direct :: "u32 list"
  data_l1 :: "u32 list"
  data_l2 :: "u32 list"
  data_l3 :: u32

record dir_entry =
  dinode :: u32
  dvalid :: u32
  dname :: "u8 list"

section \<open>Bytes\<close>

definition load_bytes :: "bytes \<Rightarrow> nat \<Rightarrow> nat \<Rightarrow> u8 list" where
  "load_bytes d off n = map (\<lambda>i. d (off + i)) [0 ..< n]"

definition store_bytes :: "nat \<Rightarrow> u8 list \<Rightarrow> bytes \<Rightarrow> bytes" where
  "store_bytes off bs d = (\<lambda>i. if off \<le> i \<and> i < off + length bs then bs ! (i - off) else d i)"

definition u16_bytes :: "u16 \<Rightarrow> u8 list" where
  "u16_bytes w = [ucast w, ucast (drop_bit 8 w)]"

definition u16_of :: "u8 \<Rightarrow> u8 \<Rightarrow> u16" where
  "u16_of a b = ucast a OR push_bit 8 (ucast b)"

definition u32_bytes :: "u32 \<Rightarrow> u8 list" where
  "u32_bytes w = [ucast w, ucast (drop_bit 8 w), ucast (drop_bit 16 w), ucast (drop_bit 24 w)]"

definition u32_of :: "u8 \<Rightarrow> u8 \<Rightarrow> u8 \<Rightarrow> u8 \<Rightarrow> u32" where
  "u32_of a b c d = ucast a OR push_bit 8 (ucast b) OR push_bit 16 (ucast c) OR push_bit 24 (ucast d)"

fun words_of :: "u8 list \<Rightarrow> u32 list" where
  "words_of (a # b # c # d # xs) = u32_of a b c d # words_of xs"
| "words_of _ = []"

definition bytes_of_words :: "u32 list \<Rightarrow> u8 list" where
  "bytes_of_words ws = concat (map u32_bytes ws)"

definition sb_bytes :: "super_block \<Rightarrow> u8 list" where
  "sb_bytes sb = bytes_of_words
     [magic0 sb, fs_start sb, inode_map_start_block sb, inode_map_size sb, inode_allocated sb, inode_free_min sb,
      block_map_start_block sb, block_map_size sb, block_allocated sb, block_free_min sb, inode_start_block sb,
      block_start_block sb, root_inode sb, magic1 sb]"

definition sb_of :: "u8 list \<Rightarrow> super_block" where
  "sb_of bs = (let w = words_of bs in
     \<lparr>magic0 = w ! 0, fs_start = w ! 1, inode_map_start_block = w ! 2, inode_map_size = w ! 3, inode_allocated = w ! 4,
      inode_free_min = w ! 5, block_map_start_block = w ! 6, block_map_size = w ! 7, block_allocated = w ! 8,
      block_free_min = w ! 9, inode_start_block = w ! 10, block_start_block = w ! 11, root_inode = w ! 12,
      magic1 = w ! 13\<rparr>)"

definition inode_bytes :: "inode \<Rightarrow> u8 list" where
  "inode_bytes ino = [itype ino, imode ino] @ u16_bytes (link_cnt ino) @
     bytes_of_words (isize ino # data_direct ino @ data_l1 ino @ data_l2 ino @ [data_l3 ino])"

definition inode_of :: "u8 list \<Rightarrow> inode" where
  "inode_of bs = (let w = words_of (drop 4 bs) in
     \<lparr>itype = bs ! 0, imode = bs ! 1, link_cnt = u16_of (bs ! 2) (bs ! 3), isize = w ! 0,
      data_direct = take INODE_DATA_DIRECT (drop 1 w), data_l1 = take INODE_DATA_L1 (drop 9 w),
      data_l2 = take INODE_DATA_L2 (drop 12 w), data_l3 = w ! 14\<rparr>)"

definition dir_bytes :: "dir_entry \<Rightarrow> u8 list" where
  "dir_bytes e = u32_bytes (dinode e) @ u32_bytes (dvalid e) @ dname e"

definition inode_ok :: "inode \<Rightarrow> bool" where
  "inode_ok ino \<longleftrightarrow> length (data_direct ino) = INODE_DATA_DIRECT \<and> length (data_l1 ino) = INODE_DATA_L1 \<and>
     length (data_l2 ino) = INODE_DATA_L2"

lemmas layout_consts = fs_consts MAX_INODE_NUM_def INODE_DATA_DIRECT_def INODE_DATA_L1_def INODE_DATA_L2_def
  INODE_SIZE_def INODE_PER_BLOCK_def DIRENTRY_SIZE_def DIRENTRY_PER_BLOCK_def

section \<open>Round trips\<close>

lemma length_load [simp]: "length (load_bytes d off n) = n"
  by (simp add: load_bytes_def)

lemma load_store: "load_bytes (store_bytes off bs d) off (length bs) = bs"
  by (rule nth_equalityI) (simp_all add: load_bytes_def store_bytes_def)

lemma load_store_other:
  "off' + n \<le> off \<or> off + length bs \<le> off' \<Longrightarrow> load_bytes (store_bytes off bs d) off' n = load_bytes d off' n"
  by (auto simp: load_bytes_def store_bytes_def)

lemma load_on_block: "off + n \<le> BLOCK_SIZE \<Longrightarrow> load_bytes (on_block d) off n = load_bytes d off n"
  by (auto simp: load_bytes_def on_block_def)

lemma store_local: "on_block d = on_block d' \<Longrightarrow> on_block (store_bytes off bs d) = on_block (store_bytes off bs d')"
  by (auto simp: store_bytes_def on_block_eq_iff)

lemma u16_roundtrip [simp]: "u16_of (ucast w) (ucast (drop_bit 8 w)) = w"
  by (rule bit_word_eqI) (auto simp: u16_of_def bit_simps)

lemma u32_roundtrip [simp]:
  "u32_of (ucast w) (ucast (drop_bit 8 w)) (ucast (drop_bit 16 w)) (ucast (drop_bit 24 w)) = w"
proof (rule bit_word_eqI)
  fix n assume n: "n < LENGTH(32)"
  consider "n < 8" | "8 \<le> n" "n < 16" | "16 \<le> n" "n < 24" | "24 \<le> n" by linarith
  then show "bit (u32_of (ucast w) (ucast (drop_bit 8 w)) (ucast (drop_bit 16 w)) (ucast (drop_bit 24 w))) n = bit w n"
    using n by cases (auto simp: u32_of_def bit_simps)
qed

lemma length_u32_bytes [simp]: "length (u32_bytes w) = 4"
  by (simp add: u32_bytes_def)

lemma length_bytes_of_words [simp]: "length (bytes_of_words ws) = 4 * length ws"
  by (induction ws) (simp_all add: bytes_of_words_def)

lemma words_roundtrip [simp]: "words_of (bytes_of_words ws) = ws"
  by (induction ws) (simp_all add: bytes_of_words_def u32_bytes_def)

lemma length_sb [simp]: "length (sb_bytes sb) = 56"
  by (simp add: sb_bytes_def)

lemma sb_roundtrip [simp]: "sb_of (sb_bytes sb) = sb"
  by (simp add: sb_of_def sb_bytes_def Let_def)

lemma length_inode [simp]: "inode_ok ino \<Longrightarrow> length (inode_bytes ino) = INODE_SIZE"
  by (simp add: inode_bytes_def inode_ok_def u16_bytes_def layout_consts)

lemma inode_roundtrip: "inode_ok ino \<Longrightarrow> inode_of (inode_bytes ino) = ino"
proof -
  assume ok: "inode_ok ino"
  have d: "drop 4 (inode_bytes ino) = bytes_of_words (isize ino # data_direct ino @ data_l1 ino @ data_l2 ino @ [data_l3 ino])"
    by (simp add: inode_bytes_def u16_bytes_def)
  have n: "inode_bytes ino ! 0 = itype ino" "inode_bytes ino ! 1 = imode ino"
    "u16_of (inode_bytes ino ! 2) (inode_bytes ino ! 3) = link_cnt ino"
    by (simp_all add: inode_bytes_def u16_bytes_def numeral_2_eq_2 numeral_3_eq_3)
  show ?thesis
    using ok unfolding inode_of_def Let_def d words_roundtrip n
    by (simp add: inode_ok_def layout_consts nth_append)
qed

lemma length_words_of: "length (words_of xs) = length xs div 4"
proof (induction xs rule: words_of.induct)
  case (1 a b c d xs)
  have "Suc (Suc (Suc (Suc n))) div 4 = Suc (n div 4)" for n :: nat by presburger
  with 1 show ?case by simp
qed simp_all

lemma inode_of_ok: "length bs = INODE_SIZE \<Longrightarrow> inode_ok (inode_of bs)"
  by (simp add: inode_ok_def inode_of_def Let_def layout_consts length_words_of)

end
