(* ===== verification/FsMap.thy ===== *)
theory FsMap
  imports Layout
begin

text \<open>
  The superblock and the two allocation bitmaps of \<open>fs/fs.cpp\<close>: \<open>flush_superblock\<close>, \<open>inode_alloc\<close>,
  \<open>inode_free\<close>, \<open>block_alloc\<close> and \<open>block_free\<close>. The allocators of inodes and of blocks are the same loops over
  different fields of the superblock; the loops are \<open>map_scan\<close> and \<open>map_clear\<close>.
\<close>

section \<open>The code\<close>

text \<open>\<open>cwd\<close> is \<open>current_process->cwd_node_idx\<close>.\<close>

record fs = cache_state +
  superblock :: super_block
  cwd :: u32

definition flush_superblock :: "fs \<Rightarrow> fs option" where
  "flush_superblock s = do {
     (block, s) \<leftarrow> Block 0 s;
     update block (set_data block (store_bytes 0 (sb_bytes (superblock s))) s)
   }"

definition scan_byte :: "u8 \<Rightarrow> nat option" where
  "scan_byte x = List.find (\<lambda>k. x AND push_bit k 1 = 0) [0 ..< 8]"

fun scan_bytes :: "bytes \<Rightarrow> nat list \<Rightarrow> (nat \<times> nat) option" where
  "scan_bytes d [] = None"
| "scan_bytes d (j # js) =
     (if d j \<noteq> 0xff
      then (case scan_byte (d j) of Some k \<Rightarrow> Some (j, k) | None \<Rightarrow> scan_bytes d js)
      else scan_bytes d js)"

text \<open>The loop of an allocation over the blocks of a map; \<open>None\<close> at its end is \<open>assert(0)\<close>.\<close>

fun map_scan :: "u32 \<Rightarrow> nat list \<Rightarrow> fs \<Rightarrow> (nat \<times> fs) option" where
  "map_scan start [] s = None"
| "map_scan start (i # is) s = do {
     (block, s) \<leftarrow> Block (start + of_nat i) s;
     (case scan_bytes (cache_data s block) [0 ..< BLOCK_SIZE] of
        None \<Rightarrow> map_scan start is s
      | Some (j, k) \<Rightarrow> do {
          s \<leftarrow> update block (set_data block (\<lambda>d. d(j := d j OR push_bit k 1)) s);
          Some (i * BLOCK_SIZE * 8 + j * 8 + k, s)
        })
   }"

definition map_clear :: "u32 \<Rightarrow> nat \<Rightarrow> fs \<Rightarrow> fs option" where
  "map_clear start n s =
     (let i = n div (BLOCK_SIZE * 8); j = n mod (BLOCK_SIZE * 8) div 8; k = n mod 8
      in do {
        (block, s) \<leftarrow> Block (start + of_nat i) s;
        kassert (cache_data s block j AND push_bit k 1 \<noteq> 0);
        update block (set_data block (\<lambda>d. d(j := d j AND NOT (push_bit k 1))) s)
      })"

definition inode_alloc :: "fs \<Rightarrow> (u32 \<times> fs) option" where
  "inode_alloc s = do {
     let sb = superblock s;
     (ino, s) \<leftarrow> map_scan (inode_map_start_block sb)
       [unat (inode_free_min sb) div (BLOCK_SIZE * 8) ..< unat (inode_map_size sb) div (BLOCK_SIZE * 8)] s;
     let s = s\<lparr>superblock := (superblock s)\<lparr>inode_allocated := inode_allocated (superblock s) + 1,
                inode_free_min := of_nat ino + 1\<rparr>\<rparr>;
     s \<leftarrow> flush_superblock s;
     Some (of_nat ino, s)
   }"

definition inode_free :: "u32 \<Rightarrow> fs \<Rightarrow> fs option" where
  "inode_free ino s = do {
     kassert (unat ino < MAX_INODE_NUM);
     s \<leftarrow> map_clear (inode_map_start_block (superblock s)) (unat ino) s;
     let s = s\<lparr>superblock := (superblock s)\<lparr>inode_allocated := inode_allocated (superblock s) - 1\<rparr>\<rparr>;
     let s = (if ino < inode_free_min (superblock s)
              then s\<lparr>superblock := (superblock s)\<lparr>inode_free_min := ino\<rparr>\<rparr> else s);
     flush_superblock s
   }"

definition block_alloc :: "fs \<Rightarrow> (u32 \<times> fs) option" where
  "block_alloc s = do {
     let sb = superblock s;
     (blockid, s) \<leftarrow> map_scan (block_map_start_block sb)
       [unat (block_free_min sb) div (BLOCK_SIZE * 8) ..< unat (block_map_size sb) div (BLOCK_SIZE * 8)] s;
     let s = s\<lparr>superblock := (superblock s)\<lparr>block_allocated := block_allocated (superblock s) + 1,
                block_free_min := of_nat blockid + 1\<rparr>\<rparr>;
     s \<leftarrow> flush_superblock s;
     Some (of_nat blockid, s)
   }"

definition block_free :: "u32 \<Rightarrow> fs \<Rightarrow> fs option" where
  "block_free blockid s = do {
     kassert (unat blockid < MAX_BLOCK_NUM);
     s \<leftarrow> map_clear (block_map_start_block (superblock s)) (unat blockid) s;
     let s = s\<lparr>superblock := (superblock s)\<lparr>block_allocated := block_allocated (superblock s) - 1\<rparr>\<rparr>;
     let s = (if blockid < block_free_min (superblock s)
              then s\<lparr>superblock := (superblock s)\<lparr>block_free_min := blockid\<rparr>\<rparr> else s);
     flush_superblock s
   }"

declare map_scan.simps [simp del]

section \<open>Bits\<close>

definition bit_at :: "bytes \<Rightarrow> nat \<Rightarrow> bool" where
  "bit_at d n \<longleftrightarrow> bit (d (n div 8)) (n mod 8)"

lemma and_push_bit_eq_0: "x AND push_bit k 1 = 0 \<longleftrightarrow> \<not> bit x k" if "k < 8" for x :: u8
proof -
  have "bit (x AND push_bit k 1) n \<longleftrightarrow> bit x k \<and> n = k" for n
    using that by (auto simp: bit_simps)
  then show ?thesis by (metis bit_0_eq bot_apply bot_bool_def bit_eqI)
qed

lemmas and_bit_eq_0 = and_push_bit_eq_0 [unfolded push_bit_of_1]

lemma byte_full: "(x :: u8) = 0xff \<longleftrightarrow> (\<forall>k<8. bit x k)"
proof -
  have "(0xff :: u8) = mask 8" by (simp add: mask_eq_exp_minus_1)
  then have b: "bit (0xff :: u8) k \<longleftrightarrow> k < 8" for k by (simp only: bit_mask_iff) simp
  show ?thesis
  proof
    assume "\<forall>k<8. bit x k"
    then show "x = 0xff" by (intro bit_word_eqI) (simp only: b, simp)
  qed (use b in blast)
qed

lemma scan_byte_Some: "scan_byte x = Some k \<Longrightarrow> k < 8 \<and> \<not> bit x k \<and> (\<forall>k'<k. bit x k')"
  unfolding scan_byte_def find_Some_iff by (auto simp: and_bit_eq_0)

lemma scan_byte_None: "scan_byte x = None \<longleftrightarrow> x = 0xff"
  unfolding scan_byte_def find_None_iff byte_full by (auto simp: and_bit_eq_0)

text \<open>The scan of a block finds its lowest clear bit.\<close>

lemma scan_bytes_upt:
  "a \<le> N \<Longrightarrow> case scan_bytes d [a ..< N] of
     None \<Rightarrow> \<forall>n. a * 8 \<le> n \<and> n < N * 8 \<longrightarrow> bit_at d n
   | Some (j, k) \<Rightarrow> j < N \<and> k < 8 \<and> a \<le> j \<and> \<not> bit_at d (j * 8 + k) \<and> (\<forall>n. a * 8 \<le> n \<and> n < j * 8 + k \<longrightarrow> bit_at d n)"
proof (induction "N - a" arbitrary: a)
  case (Suc m)
  then have a: "a < N" by simp
  then have u: "[a ..< N] = a # [Suc a ..< N]" by (rule upt_conv_Cons)
  show ?case
  proof (cases "d a = 0xff")
    case True
    have full: "bit_at d n" if "a * 8 \<le> n" "n < Suc a * 8" for n
    proof -
      have "n div 8 = a" using that by presburger
      with True show ?thesis by (simp add: bit_at_def byte_full)
    qed
    have rest: "bit_at d n \<or> Suc a * 8 \<le> n" if "a * 8 \<le> n" for n using full [OF that] by linarith
    have s: "scan_bytes d [a ..< N] = scan_bytes d [Suc a ..< N]" using True by (simp add: u)
    from Suc.hyps(1) [of "Suc a"] Suc.hyps(2) a show ?thesis
      unfolding s using rest by (fastforce split: option.splits)
  next
    case False
    then obtain k where k: "scan_byte (d a) = Some k" using scan_byte_None by blast
    note b = scan_byte_Some [OF k]
    have s: "scan_bytes d [a ..< N] = Some (a, k)" using False k by (simp add: u)
    have "bit_at d n" if "a * 8 \<le> n" "n < a * 8 + k" for n
    proof -
      have "k < 8" using b by simp
      with that have "n div 8 = a" and "n mod 8 < k" by presburger+
      with b show ?thesis by (simp add: bit_at_def)
    qed
    with b a show ?thesis unfolding s by (simp add: bit_at_def)
  qed
qed auto

lemma bit_pos: "k < 8 \<Longrightarrow> n = j * 8 + k \<longleftrightarrow> n div 8 = j \<and> n mod 8 = k" for n :: nat
  using div_mult_mod_eq [of n 8] by auto

lemma bit_at_set: "k < 8 \<Longrightarrow> bit_at (d(j := d j OR push_bit k 1)) n \<longleftrightarrow> bit_at d n \<or> n = j * 8 + k"
  by (cases "n div 8 = j") (auto simp: bit_at_def bit_simps bit_pos)

lemma bit_at_clear: "k < 8 \<Longrightarrow> bit_at (d(j := d j AND NOT (push_bit k 1))) n \<longleftrightarrow> bit_at d n \<and> n \<noteq> j * 8 + k"
  using mod_less_divisor [of 8 n] by (cases "n div 8 = j") (auto simp: bit_at_def bit_simps bit_pos)

lemma bit_at_on_block: "n < BLOCK_SIZE * 8 \<Longrightarrow> bit_at (on_block d) n = bit_at d n"
  by (simp add: bit_at_def on_block_def less_mult_imp_div_less)

section \<open>The maps on the card\<close>

definition map_bit :: "fs \<Rightarrow> u32 \<Rightarrow> nat \<Rightarrow> bool" where
  "map_bit s start n \<longleftrightarrow> bit_at (content s (start + of_nat (n div (BLOCK_SIZE * 8)))) (n mod (BLOCK_SIZE * 8))"

lemma frame_fs: "cache_state.more s' = cache_state.more s \<Longrightarrow> superblock s' = superblock s \<and> cwd s' = cwd s" for s s' :: fs
  by (cases s; cases s') simp

lemma fs_upd_simps [simp]:
  "cache_inv (s\<lparr>superblock := x\<rparr>) = cache_inv s" "content (s\<lparr>superblock := x\<rparr>) = content s"
  "cache_inv (s\<lparr>cwd := y\<rparr>) = cache_inv s" "content (s\<lparr>cwd := y\<rparr>) = content s"
  by (rule cache_inv_cong content_cong; simp)+

lemma map_bit_upd [simp]: "map_bit (s\<lparr>superblock := x\<rparr>) = map_bit s" "map_bit (s\<lparr>cwd := y\<rparr>) = map_bit s"
  by (simp_all add: map_bit_def fun_eq_iff)

lemma group_pos:
  assumes "m < BLOCK_SIZE * 8"
  shows "(i * BLOCK_SIZE * 8 + m) div (BLOCK_SIZE * 8) = i" "(i * BLOCK_SIZE * 8 + m) mod (BLOCK_SIZE * 8) = m"
  using assms by (simp_all add: mult.assoc [symmetric] mult.commute [of _ "BLOCK_SIZE * 8"] fs_consts)

lemma group_cases:
  assumes "i * (BLOCK_SIZE * 8) \<le> n" "n < Suc i * (BLOCK_SIZE * 8)"
  shows "n = i * BLOCK_SIZE * 8 + n mod (BLOCK_SIZE * 8)" "n div (BLOCK_SIZE * 8) = i"
proof -
  show d: "n div (BLOCK_SIZE * 8) = i"
    by (rule div_nat_eqI) (use assms in \<open>simp_all add: mult.commute\<close>)
  show "n = i * BLOCK_SIZE * 8 + n mod (BLOCK_SIZE * 8)"
    using div_mult_mod_eq [of n "BLOCK_SIZE * 8"] d by (simp add: mult.assoc)
qed

lemma map_scan_ok:
  assumes valid: "\<forall>i<c. valid_block (start + of_nat i)"
  shows "cache_inv s \<Longrightarrow> a \<le> c \<Longrightarrow>
    case map_scan start [a ..< c] s of
      None \<Rightarrow> \<forall>n. a * (BLOCK_SIZE * 8) \<le> n \<and> n < c * (BLOCK_SIZE * 8) \<longrightarrow> map_bit s start n
    | Some (n, s') \<Rightarrow> a * (BLOCK_SIZE * 8) \<le> n \<and> n < c * (BLOCK_SIZE * 8) \<and> \<not> map_bit s start n \<and>
        (\<forall>m. a * (BLOCK_SIZE * 8) \<le> m \<and> m < n \<longrightarrow> map_bit s start m) \<and> cache_inv s' \<and>
        cache_state.more s' = cache_state.more s \<and>
        (\<forall>b. valid_block b \<longrightarrow> content s' b =
           (if b = start + of_nat (n div (BLOCK_SIZE * 8))
            then on_block ((content s b)(n mod (BLOCK_SIZE * 8) div 8 :=
              content s b (n mod (BLOCK_SIZE * 8) div 8) OR push_bit (n mod 8) 1))
            else content s b))"
proof (induction "c - a" arbitrary: a s)
  case (Suc x)
  then have a: "a < c" by simp
  then have u: "[a ..< c] = a # [Suc a ..< c]" by (rule upt_conv_Cons)
  let ?b = "start + of_nat a" and ?G = "BLOCK_SIZE * 8"
  have vb: "valid_block ?b" using valid a by simp
  obtain i s1 where o: "Block ?b s = Some (i, s1)" "cache_inv s1" "slot_holds s1 i ?b" "on_block (cache_data s1 i) = content s ?b"
    "\<forall>b'. valid_block b' \<longrightarrow> content s1 b' = content s b'" "cache_state.more s1 = cache_state.more s"
    using cache.open_block [OF Suc.prems(1) vb] by blast
  have bits: "map_bit s start (a * BLOCK_SIZE * 8 + m) \<longleftrightarrow> bit_at (cache_data s1 i) m" if "m < ?G" for m
    using group_pos [OF that, of a] bit_at_on_block [OF that, of "cache_data s1 i"] by (simp add: map_bit_def flip: o(4))
  have same: "map_bit s1 start n \<longleftrightarrow> map_bit s start n" if "n < c * ?G" for n
  proof -
    have "n div ?G < c" using that by (simp add: less_mult_imp_div_less)
    with valid o(5) show ?thesis by (simp add: map_bit_def)
  qed
  note scan = scan_bytes_upt [of 0 BLOCK_SIZE "cache_data s1 i", simplified]
  show ?case
  proof (cases "scan_bytes (cache_data s1 i) [0 ..< BLOCK_SIZE]")
    case None
    with scan have full: "\<forall>n<?G. bit_at (cache_data s1 i) n" by simp
    have here: "map_bit s start n" if "a * ?G \<le> n" "n < Suc a * ?G" for n
    proof -
      have m: "n mod ?G < ?G" by (simp add: fs_consts)
      show ?thesis by (subst group_cases(1) [OF that]) (use bits [OF m] full m in simp)
    qed
    have rest: "map_bit s start n \<or> Suc a * ?G \<le> n" if "a * ?G \<le> n" for n using here [OF that] by linarith
    have eq: "map_scan start [a ..< c] s = map_scan start [Suc a ..< c] s1" using None o(1) by (simp add: u map_scan.simps)
    have ih: "case map_scan start [Suc a ..< c] s1 of
      None \<Rightarrow> \<forall>n. Suc a * ?G \<le> n \<and> n < c * ?G \<longrightarrow> map_bit s1 start n
    | Some (n, s') \<Rightarrow> Suc a * ?G \<le> n \<and> n < c * ?G \<and> \<not> map_bit s1 start n \<and>
        (\<forall>m. Suc a * ?G \<le> m \<and> m < n \<longrightarrow> map_bit s1 start m) \<and> cache_inv s' \<and>
        cache_state.more s' = cache_state.more s1 \<and>
        (\<forall>b. valid_block b \<longrightarrow> content s' b =
           (if b = start + of_nat (n div ?G)
            then on_block ((content s1 b)(n mod ?G div 8 := content s1 b (n mod ?G div 8) OR push_bit (n mod 8) 1))
            else content s1 b))"
      using Suc.hyps(1) [of "Suc a" s1] Suc.hyps(2) a o(2) by simp
    show ?thesis
    proof (cases "map_scan start [Suc a ..< c] s1")
      case None
      with ih same rest show ?thesis unfolding eq by (simp only: option.case) metis
    next
      case (Some r)
      obtain n s' where r: "r = (n, s')" by (cases r)
      with Some ih have n: "Suc a * ?G \<le> n" "n < c * ?G" "\<not> map_bit s1 start n"
        "\<forall>m. Suc a * ?G \<le> m \<and> m < n \<longrightarrow> map_bit s1 start m" "cache_inv s'" "cache_state.more s' = cache_state.more s1"
        "\<forall>b. valid_block b \<longrightarrow> content s' b =
           (if b = start + of_nat (n div ?G)
            then on_block ((content s1 b)(n mod ?G div 8 := content s1 b (n mod ?G div 8) OR push_bit (n mod 8) 1))
            else content s1 b)" by auto
      have "map_bit s start m" if "a * ?G \<le> m" "m < n" for m
        using rest [OF that(1)] n(4) that(2) same [of m] n(2) by force
      moreover have "a * ?G \<le> n" using n(1) by simp
      ultimately show ?thesis unfolding eq Some r using n same o(5,6) by simp
    qed
  next
    case (Some jk)
    obtain j k where jk: "jk = (j, k)" by (cases jk)
    with Some scan have sc: "j < BLOCK_SIZE" "k < 8" "\<not> bit_at (cache_data s1 i) (j * 8 + k)"
      "\<forall>n<j * 8 + k. bit_at (cache_data s1 i) n" by auto
    let ?m = "j * 8 + k" and ?n = "a * BLOCK_SIZE * 8 + j * 8 + k"
    let ?f = "\<lambda>d :: bytes. d(j := d j OR push_bit k 1)"
    have m: "?m < ?G" using sc(1,2) by linarith
    obtain s2 where s2: "save_block i ?f s1 = Some s2" "cache_inv s2" "cache_state.more s2 = cache_state.more s1"
      "\<forall>b'. valid_block b' \<longrightarrow> content s2 b' = (if b' = ?b then on_block (?f (cache_data s1 i)) else content s1 b')"
      using cache.save [OF o(2) vb o(3), of ?f] by blast
    have n: "?n = a * BLOCK_SIZE * 8 + ?m" by simp
    have dm: "?n div ?G = a" "?n mod ?G = ?m" unfolding n using group_pos [OF m] by simp_all
    have "?n = (a * BLOCK_SIZE + j) * 8 + k" by (simp add: algebra_simps)
    then have jk': "?m div 8 = j" "?n mod 8 = k" using sc(2) by (simp_all only: mod_mult_self3) simp_all
    have eq: "map_scan start [a ..< c] s = Some (?n, s2)"
      using Some jk o(1) s2(1) by (simp add: u map_scan.simps save_block_def)
    have lo: "a * ?G \<le> ?n" by (simp add: mult.assoc)
    have "?n < Suc a * ?G" using m by (simp add: mult.assoc)
    also have "\<dots> \<le> c * ?G" using a by (intro mult_le_mono1) simp
    finally have hi: "?n < c * ?G" .
    have low: "map_bit s start q" if "a * ?G \<le> q" "q < ?n" for q
    proof -
      have "q < Suc a * ?G" using that(2) m by (simp add: mult.assoc)
      note q = group_cases [OF that(1) this]
      have "q mod ?G < ?m" using q(1) that(2) by linarith
      with sc(4) bits [of "q mod ?G"] m q(1) show ?thesis by simp
    qed
    have nb: "\<not> map_bit s start ?n" using bits [OF m] sc(3) by (simp add: add.assoc)
    have cont: "content s2 b = (if b = ?b then on_block (?f (content s b)) else content s b)" if "valid_block b" for b
    proof (cases "b = ?b")
      case True
      have "on_block (?f (cache_data s1 i)) = on_block (?f (content s ?b))"
        using sc(1) by (simp flip: o(4)) (simp add: on_block_def fun_eq_iff)
      with s2(4) that True show ?thesis by simp
    qed (use s2(4) o(5) that in simp)
    show ?thesis
      unfolding eq option.case prod.case dm jk'
      using lo hi low nb s2(2,3) o(6) cont by simp
  qed
qed (auto simp: map_scan.simps)

lemma map_clear_ok:
  assumes "cache_inv s" "valid_block (start + of_nat (n div (BLOCK_SIZE * 8)))" "map_bit s start n"
  obtains s' where "map_clear start n s = Some s'" "cache_inv s'" "cache_state.more s' = cache_state.more s"
    "\<forall>b. valid_block b \<longrightarrow> content s' b =
       (if b = start + of_nat (n div (BLOCK_SIZE * 8))
        then on_block ((content s b)(n mod (BLOCK_SIZE * 8) div 8 :=
          content s b (n mod (BLOCK_SIZE * 8) div 8) AND NOT (push_bit (n mod 8) 1)))
        else content s b)"
proof -
  let ?G = "BLOCK_SIZE * 8"
  let ?b = "start + of_nat (n div ?G)" and ?j = "n mod ?G div 8" and ?k = "n mod 8"
  let ?f = "\<lambda>d :: bytes. d(?j := d ?j AND NOT (push_bit ?k 1))"
  obtain i s1 where o: "Block ?b s = Some (i, s1)" "cache_inv s1" "slot_holds s1 i ?b" "on_block (cache_data s1 i) = content s ?b"
    "\<forall>b'. valid_block b' \<longrightarrow> content s1 b' = content s b'" "cache_state.more s1 = cache_state.more s"
    using cache.open_block [OF assms(1,2)] by blast
  have m: "n mod ?G < ?G" by (simp add: fs_consts)
  then have j: "?j < BLOCK_SIZE" by (simp add: less_mult_imp_div_less)
  have k: "n mod ?G mod 8 = ?k" by (simp add: mod_mod_cancel fs_consts)
  have "bit_at (cache_data s1 i) (n mod ?G)"
    using assms(3) o(4) bit_at_on_block [OF m, of "cache_data s1 i"] by (simp add: map_bit_def)
  then have "cache_data s1 i ?j AND push_bit ?k 1 \<noteq> 0" by (simp add: bit_at_def k and_bit_eq_0)
  moreover obtain s2 where s2: "save_block i ?f s1 = Some s2" "cache_inv s2" "cache_state.more s2 = cache_state.more s1"
    "\<forall>b'. valid_block b' \<longrightarrow> content s2 b' = (if b' = ?b then on_block (?f (cache_data s1 i)) else content s1 b')"
    using cache.save [OF o(2) assms(2) o(3), of ?f] by blast
  ultimately have eq: "map_clear start n s = Some s2" using o(1) by (simp add: map_clear_def save_block_def Let_def)
  have "on_block (?f (cache_data s1 i)) = on_block (?f (content s ?b))"
    using j by (simp flip: o(4)) (simp add: on_block_def fun_eq_iff)
  with s2(4) o(5) assms(2) have "\<forall>b. valid_block b \<longrightarrow> content s2 b = (if b = ?b then on_block (?f (content s b)) else content s b)"
    by simp
  from that [OF eq s2(2) _ this] s2(3) o(6) show thesis by simp
qed

lemma flush_superblock_ok:
  assumes "cache_inv s"
  obtains s' where "flush_superblock s = Some s'" "cache_inv s'" "cache_state.more s' = cache_state.more s"
    "\<forall>b. valid_block b \<longrightarrow> b \<noteq> 0 \<longrightarrow> content s' b = content s b"
    "sb_of (load_bytes (content s' 0) 0 56) = superblock s"
proof -
  have v: "valid_block 0" by (simp add: valid_block_def fs_consts)
  obtain i s1 where o: "Block 0 s = Some (i, s1)" "cache_inv s1" "slot_holds s1 i 0"
    "\<forall>b'. valid_block b' \<longrightarrow> content s1 b' = content s b'" "cache_state.more s1 = cache_state.more s"
    using cache.open_block [OF assms v] by blast
  have sb: "superblock s1 = superblock s" using frame_fs [OF o(5)] by simp
  let ?f = "store_bytes 0 (sb_bytes (superblock s))"
  obtain s2 where s2: "save_block i ?f s1 = Some s2" "cache_inv s2" "cache_state.more s2 = cache_state.more s1"
    "\<forall>b'. valid_block b' \<longrightarrow> content s2 b' = (if b' = 0 then on_block (?f (cache_data s1 i)) else content s1 b')"
    using cache.save [OF o(2) v o(3), of ?f] by blast
  have "flush_superblock s = Some s2" using o(1) s2(1) sb by (simp add: flush_superblock_def save_block_def)
  moreover have "load_bytes (content s2 0) 0 56 = sb_bytes (superblock s)"
    using s2(4) v load_store [of 0 "sb_bytes (superblock s)" "cache_data s1 i"] load_on_block [of 0 56]
    by (simp add: fs_consts)
  ultimately show thesis using that s2 o(4,5) by simp
qed

section \<open>The layout of the card\<close>

text \<open>
  Block 0 is the superblock, block 1 the map of the inodes, blocks 2 to 4 the map of the blocks, blocks 5 to
  516 the inodes. Below the group of \<open>free_min\<close> nothing is free.
\<close>

definition layout_ok :: "super_block \<Rightarrow> bool" where
  "layout_ok sb \<longleftrightarrow> inode_map_start_block sb = 1 \<and> inode_map_size sb = 32768 \<and> block_map_start_block sb = 2 \<and>
     block_map_size sb = 98304 \<and> inode_start_block sb = 5 \<and> block_start_block sb = 517"

definition inodes_used :: "fs \<Rightarrow> nat set" where
  "inodes_used s = {n. n < 32768 \<and> map_bit s 1 n}"

definition blocks_used :: "fs \<Rightarrow> nat set" where
  "blocks_used s = {n. n < 98304 \<and> map_bit s 2 n}"

definition fs_inv :: "fs \<Rightarrow> bool" where
  "fs_inv s \<longleftrightarrow> cache_inv s \<and> layout_ok (superblock s) \<and>
     (\<forall>n<32768. n div 32768 < unat (inode_free_min (superblock s)) div 32768 \<longrightarrow> n \<in> inodes_used s) \<and>
     (\<forall>n<98304. n div 32768 < unat (block_free_min (superblock s)) div 32768 \<longrightarrow> n \<in> blocks_used s) \<and>
     unat (inode_free_min (superblock s)) \<le> 32768 \<and> unat (block_free_min (superblock s)) \<le> 98304"

lemma valid_small: "unat b < 98304 \<Longrightarrow> valid_block b"
  by (simp add: valid_block_def fs_consts)

lemma map_block_ne:
  assumes "n < 32768" "m < 98304"
  shows "(1 :: u32) + of_nat (n div 32768) \<noteq> 2 + of_nat (m div 32768)" "(2 :: u32) + of_nat (m div 32768) \<noteq> 1 + of_nat (n div 32768)"
    "(1 :: u32) + of_nat (n div 32768) \<noteq> 0" "(2 :: u32) + of_nat (m div 32768) \<noteq> 0"
    "valid_block (1 + of_nat (n div 32768))" "valid_block (2 + of_nat (m div 32768))"
    "unat ((1 :: u32) + of_nat (n div 32768)) < 5" "unat ((2 :: u32) + of_nat (m div 32768)) < 5"
proof -
  have n: "n div 32768 = 0" using assms(1) by simp
  have "m div 32768 < 3" using assms(2) by simp
  then consider "m div 32768 = 0" | "m div 32768 = 1" | "m div 32768 = 2" by linarith
  note c = this
  show "(1 :: u32) + of_nat (n div 32768) \<noteq> 2 + of_nat (m div 32768)" "(2 :: u32) + of_nat (m div 32768) \<noteq> 1 + of_nat (n div 32768)"
    "(1 :: u32) + of_nat (n div 32768) \<noteq> 0" "(2 :: u32) + of_nat (m div 32768) \<noteq> 0"
    "valid_block (1 + of_nat (n div 32768))" "valid_block (2 + of_nat (m div 32768))"
    "unat ((1 :: u32) + of_nat (n div 32768)) < 5" "unat ((2 :: u32) + of_nat (m div 32768)) < 5"
    using c by (cases; simp add: n valid_block_def fs_consts)+
qed

text \<open>A change of one bit of a map, seen from both maps.\<close>

lemma map_bit_change:
  assumes c: "\<forall>b. valid_block b \<longrightarrow> b \<noteq> 0 \<longrightarrow> content s' b = (if b = start + of_nat (n div 32768) then on_block (f (content s b)) else content s b)"
    and f: "\<And>m. m < 32768 \<Longrightarrow> bit_at (f (content s (start + of_nat (n div 32768)))) m = g m"
    and q: "valid_block (start' + of_nat (q div 32768))" "start' + of_nat (q div 32768) \<noteq> 0"
  shows "map_bit s' start' q = (if start' + of_nat (q div 32768) = start + of_nat (n div 32768) then g (q mod 32768) else map_bit s start' q)"
  using c q f [of "q mod 32768"] bit_at_on_block [of "q mod 32768"] by (simp add: map_bit_def fs_consts)

lemma same_group: "q div 32768 = n div 32768 \<Longrightarrow> q = n \<longleftrightarrow> q mod 32768 = n mod 32768" for q n :: nat
  by (metis div_mult_mod_eq)

lemma of_nat_group:
  assumes "q < 98304" "n < 98304"
  shows "start + (of_nat (q div 32768) :: u32) = start + of_nat (n div 32768) \<longleftrightarrow> q div 32768 = n div 32768"
proof -
  have "q div 32768 < 2 ^ 32" "n div 32768 < 2 ^ 32" using assms by simp_all
  then show ?thesis by (simp add: word_of_nat_eq_iff take_bit_nat_eq_self)
qed

text \<open>The effect of setting (\<open>v\<close>) or clearing bit \<open>n\<close> of one of the maps.\<close>

definition put_bit :: "bool \<Rightarrow> nat \<Rightarrow> bytes \<Rightarrow> bytes" where
  "put_bit v n d = d(n mod 32768 div 8 :=
     (if v then d (n mod 32768 div 8) OR push_bit (n mod 8) 1 else d (n mod 32768 div 8) AND NOT (push_bit (n mod 8) 1)))"

definition put_elem :: "bool \<Rightarrow> nat \<Rightarrow> nat set \<Rightarrow> nat set" where
  "put_elem v n S = (if v then insert n S else S - {n})"

lemma bit_at_put: "bit_at (put_bit v n d) m \<longleftrightarrow> (if m = n mod 32768 then v else bit_at d m)"
proof -
  have "n mod 32768 mod 8 = n mod 8" by (simp add: mod_mod_cancel)
  then have "n mod 32768 = n mod 32768 div 8 * 8 + n mod 8" using div_mult_mod_eq [of "n mod 32768" 8] by simp
  then show ?thesis
    using bit_at_set [of "n mod 8" d "n mod 32768 div 8" m] bit_at_clear [of "n mod 8" d "n mod 32768 div 8" m]
    by (cases v) (auto simp: put_bit_def)
qed

lemma map_put_bits:
  assumes n: "n < N" and start: "start = 1 \<and> N = 32768 \<or> start = 2 \<and> N = 98304"
    and c: "\<forall>b. valid_block b \<longrightarrow> b \<noteq> 0 \<longrightarrow> content s' b =
      (if b = start + of_nat (n div 32768) then on_block (put_bit v n (content s b)) else content s b)"
  shows "inodes_used s' = (if start = 1 then put_elem v n (inodes_used s) else inodes_used s)"
    "blocks_used s' = (if start = 2 then put_elem v n (blocks_used s) else blocks_used s)"
    "\<forall>b. valid_block b \<longrightarrow> 5 \<le> unat b \<longrightarrow> content s' b = content s b"
proof -
  have N: "n < 98304" "start = 1 \<Longrightarrow> n < 32768" using n start by auto
  have own: "map_bit s' start q \<longleftrightarrow> (if q = n then v else map_bit s start q)" if q: "q < N" for q
  proof -
    have q': "q < 98304" using q start by auto
    have val: "valid_block (start + of_nat (q div 32768))" "start + of_nat (q div 32768) \<noteq> 0"
      using start map_block_ne(3,5) [of q 0] map_block_ne(4,6) [of 0 q] q by auto
    show ?thesis
    proof (cases "q div 32768 = n div 32768")
      case True
      then show ?thesis
        using map_bit_change [OF c bit_at_put val] same_group [OF True]
        by (simp add: map_bit_def [of s start q] fs_consts True)
    next
      case False
      then have "q \<noteq> n" by auto
      with False show ?thesis using map_bit_change [OF c bit_at_put val] of_nat_group [OF q' N(1), of start] by simp
    qed
  qed
  have i: "map_bit s' 1 q \<longleftrightarrow> map_bit s 1 q" if "start = 2" "q < 32768" for q
    using map_bit_change [OF c bit_at_put, of 1 q] that map_block_ne(1,3,5) [OF that(2), of n] N(1) by simp
  have b: "map_bit s' 2 q \<longleftrightarrow> map_bit s 2 q" if "start = 1" "q < 98304" for q
    using map_bit_change [OF c bit_at_put, of 2 q] that map_block_ne(2,4,6) [of n q] N(2) by simp
  show "inodes_used s' = (if start = 1 then put_elem v n (inodes_used s) else inodes_used s)"
    using start own i N by (auto simp: inodes_used_def put_elem_def split: if_splits)
  show "blocks_used s' = (if start = 2 then put_elem v n (blocks_used s) else blocks_used s)"
    using start own b N by (auto simp: blocks_used_def put_elem_def split: if_splits)
  have "unat (start + of_nat (n div 32768)) < 5"
    using start map_block_ne(7) [of n 0] map_block_ne(8) [of 0 n] n by auto
  then show "\<forall>b. valid_block b \<longrightarrow> 5 \<le> unat b \<longrightarrow> content s' b = content s b"
    using c by (auto simp: unat_eq_zero [symmetric] simp del: unat_eq_zero)
qed

lemma used_cong:
  assumes "\<forall>b. valid_block b \<longrightarrow> b \<noteq> 0 \<longrightarrow> content s' b = content s b"
  shows "inodes_used s' = inodes_used s" "blocks_used s' = blocks_used s"
  using assms map_block_ne(3,5) [of _ 0] map_block_ne(4,6) [of 0]
  by (auto simp: inodes_used_def blocks_used_def map_bit_def fs_consts)

section \<open>The interface of the allocators\<close>

text \<open>
  Numbers below a limit, given out from the lowest. \<open>frame\<close> is what the allocator does not touch.
\<close>

locale id_allocator =
  fixes inv :: "'s \<Rightarrow> bool"
    and limit :: nat
    and used :: "'s \<Rightarrow> nat set"
    and frame :: "'s \<Rightarrow> 'f"
    and alloc :: "'s \<Rightarrow> (u32 \<times> 's) option"
    and free :: "u32 \<Rightarrow> 's \<Rightarrow> 's option"
  assumes used_bound: "used s \<subseteq> {..< limit}"
    and alloc_some: "inv s \<Longrightarrow> used s \<noteq> {..< limit} \<Longrightarrow>
      \<exists>n s'. alloc s = Some (n, s') \<and> inv s' \<and> unat n < limit \<and> unat n \<notin> used s \<and> (\<forall>m<unat n. m \<in> used s) \<and>
        used s' = insert (unat n) (used s) \<and> frame s' = frame s"
    and alloc_none: "inv s \<Longrightarrow> used s = {..< limit} \<Longrightarrow> alloc s = None"
    and free_some: "inv s \<Longrightarrow> unat n \<in> used s \<Longrightarrow>
      \<exists>s'. free n s = Some s' \<and> inv s' \<and> used s' = used s - {unat n} \<and> frame s' = frame s"
    and free_none: "inv s \<Longrightarrow> unat n \<notin> used s \<Longrightarrow> free n s = None"
begin

lemma alloc_SomeD:
  assumes "inv s" "alloc s = Some (n, s')"
  shows "inv s'" "unat n < limit" "unat n \<notin> used s" "\<forall>m<unat n. m \<in> used s" "used s' = insert (unat n) (used s)" "frame s' = frame s"
proof -
  have "used s \<noteq> {..< limit}" using alloc_none [OF assms(1)] assms(2) by auto
  from alloc_some [OF assms(1) this] assms(2)
  show "inv s'" "unat n < limit" "unat n \<notin> used s" "\<forall>m<unat n. m \<in> used s" "used s' = insert (unat n) (used s)" "frame s' = frame s"
    by auto
qed

text \<open>What was given out is not given out again before it is freed.\<close>

lemma alloc_again:
  assumes "inv s" "alloc s = Some (n, s1)" "alloc s1 = Some (m, s2)"
  shows "m \<noteq> n"
  using alloc_SomeD [OF assms(1,2)] alloc_SomeD(3) [OF _ assms(3)] by auto

lemma alloc_free:
  assumes "inv s" "alloc s = Some (n, s1)"
  shows "\<exists>s2. free n s1 = Some s2 \<and> inv s2 \<and> used s2 = used s \<and> frame s2 = frame s"
proof -
  note a = alloc_SomeD [OF assms]
  from free_some [OF a(1), of n] a show ?thesis by auto
qed

end

definition data_view :: "fs \<Rightarrow> u32 \<Rightarrow> bytes" where
  "data_view s b = (if valid_block b \<and> 5 \<le> unat b then content s b else (\<lambda>_. 0))"

definition inode_frame :: "fs \<Rightarrow> (u32 \<Rightarrow> bytes) \<times> u32 \<times> nat set" where
  "inode_frame s = (data_view s, cwd s, blocks_used s)"

definition block_frame :: "fs \<Rightarrow> (u32 \<Rightarrow> bytes) \<times> u32 \<times> nat set" where
  "block_frame s = (data_view s, cwd s, inodes_used s)"

lemma data_view_cong:
  "\<forall>b. valid_block b \<longrightarrow> 5 \<le> unat b \<longrightarrow> content s' b = content s b \<Longrightarrow> data_view s' = data_view s"
  by (auto simp: data_view_def fun_eq_iff)

text \<open>Both allocations: the scan, the new superblock, and its flush.\<close>

lemma scan_flush_ok:
  assumes inv: "cache_inv s" and start: "start = 1 \<and> N = 32768 \<or> start = 2 \<and> N = 98304" and a: "a * 32768 \<le> N"
    and low: "\<forall>m<a * 32768. map_bit s start m"
    and more: "\<And>n s1. cache_state.more s1 = cache_state.more s \<Longrightarrow> g n s1 = s1\<lparr>superblock := h n (superblock s)\<rparr>"
  shows "case map_scan start [a ..< N div 32768] s of
      None \<Rightarrow> \<forall>m<N. map_bit s start m
    | Some (n, s1) \<Rightarrow> n < N \<and> \<not> map_bit s start n \<and> (\<forall>m<n. map_bit s start m) \<and>
        (\<exists>s2. flush_superblock (g n s1) = Some s2 \<and> cache_inv s2 \<and> superblock s2 = h n (superblock s) \<and> cwd s2 = cwd s \<and>
          inodes_used s2 = (if start = 1 then insert n (inodes_used s) else inodes_used s) \<and>
          blocks_used s2 = (if start = 2 then insert n (blocks_used s) else blocks_used s) \<and> data_view s2 = data_view s)"
proof -
  have N: "N div 32768 * 32768 = N" "a \<le> N div 32768" using start a by auto
  have val: "\<forall>i<N div 32768. valid_block (start + of_nat i)"
  proof (intro allI impI)
    fix i assume i: "i < N div 32768"
    then have "i * 32768 < N" using N(1) by simp
    then show "valid_block (start + of_nat i)"
      using start map_block_ne(5) [of "i * 32768" 0] map_block_ne(6) [of 0 "i * 32768"] by auto
  qed
  have G: "BLOCK_SIZE * 8 = 32768" by (simp add: fs_consts)
  note scan = map_scan_ok [OF val inv N(2), unfolded G N(1)]
  show ?thesis
  proof (cases "map_scan start [a ..< N div 32768] s")
    case None
    with scan have hi: "\<forall>m. a * 32768 \<le> m \<and> m < N \<longrightarrow> map_bit s start m" by simp
    have "map_bit s start m" if "m < N" for m using hi low that by (cases "m < a * 32768") auto
    with None show ?thesis by simp
  next
    case (Some r)
    obtain n s1 where r: "r = (n, s1)" by (cases r)
    with Some scan have n: "a * 32768 \<le> n" "n < N" "\<not> map_bit s start n" "\<forall>m. a * 32768 \<le> m \<and> m < n \<longrightarrow> map_bit s start m"
      "cache_inv s1" "cache_state.more s1 = cache_state.more s"
      and c: "\<forall>b. valid_block b \<longrightarrow> content s1 b = (if b = start + of_nat (n div 32768) then on_block (put_bit True n (content s b)) else content s b)"
      by (auto simp: put_bit_def)
    have g: "g n s1 = s1\<lparr>superblock := h n (superblock s)\<rparr>" by (rule more [OF n(6)])
    obtain s2 where s2: "flush_superblock (g n s1) = Some s2" "cache_inv s2" "cache_state.more s2 = cache_state.more (g n s1)"
      "\<forall>b. valid_block b \<longrightarrow> b \<noteq> 0 \<longrightarrow> content s2 b = content (g n s1) b"
      by (rule flush_superblock_ok [of "g n s1"]) (use n(5) g in simp_all)
    have fr: "superblock s2 = h n (superblock s)" "cwd s2 = cwd s"
      using frame_fs [OF s2(3)] frame_fs [OF n(6)] g by simp_all
    have c2: "\<forall>b. valid_block b \<longrightarrow> b \<noteq> 0 \<longrightarrow> content s2 b = (if b = start + of_nat (n div 32768) then on_block (put_bit True n (content s b)) else content s b)"
      using s2(4) c g by simp
    note p = map_put_bits [OF n(2) start c2]
    have "map_bit s start m" if "m < n" for m using n(4) low that by (cases "m < a * 32768") auto
    with Some r n s2 fr p data_view_cong [OF p(3)] show ?thesis by (simp add: put_elem_def)
  qed
qed

lemma unat_succ: "n < 98304 \<Longrightarrow> unat (of_nat n + 1 :: u32) = n + 1"
proof -
  assume "n < 98304"
  then have "n + 1 < 2 ^ 32" by simp
  moreover have "of_nat n + 1 = (of_nat (n + 1) :: u32)" by simp
  ultimately show ?thesis by (simp only: unat_of_nat) simp
qed

lemma group_le: "m div 32768 < (n + 1) div 32768 \<Longrightarrow> m \<le> n" for m n :: nat
  by (metis Suc_eq_plus1 div_le_mono not_less_eq_eq not_le)

lemma inode_alloc_ok:
  assumes inv: "fs_inv s"
  shows "case inode_alloc s of
      None \<Rightarrow> inodes_used s = {..< 32768}
    | Some (n, s') \<Rightarrow> fs_inv s' \<and> unat n < 32768 \<and> unat n \<notin> inodes_used s \<and> (\<forall>m<unat n. m \<in> inodes_used s) \<and>
        inodes_used s' = insert (unat n) (inodes_used s) \<and> inode_frame s' = inode_frame s"
proof -
  let ?sb = "superblock s"
  define a where "a = unat (inode_free_min ?sb) div 32768"
  have i: "cache_inv s" and l: "layout_ok ?sb" using inv by (auto simp: fs_inv_def)
  have lay: "inode_map_start_block ?sb = 1" "inode_map_size ?sb = 32768" using l by (simp_all add: layout_ok_def)
  have a: "a * 32768 \<le> 32768" using inv by (auto simp: fs_inv_def a_def)
  have low: "\<forall>m<a * 32768. map_bit s 1 m" using inv a by (auto simp: fs_inv_def a_def inodes_used_def less_mult_imp_div_less)
  let ?h = "\<lambda>n sb. sb\<lparr>inode_allocated := inode_allocated sb + 1, inode_free_min := of_nat n + 1\<rparr>"
  let ?g = "\<lambda>n (s1 :: fs). s1\<lparr>superblock := (superblock s1)\<lparr>inode_allocated := inode_allocated (superblock s1) + 1, inode_free_min := of_nat n + 1\<rparr>\<rparr>"
  have more: "?g n s1 = s1\<lparr>superblock := ?h n (superblock s)\<rparr>" if "cache_state.more s1 = cache_state.more s" for n s1
    using frame_fs [OF that] by simp
  note sc = scan_flush_ok [where g = ?g and h = ?h, OF i _ a low more, simplified]
  have eq: "inode_alloc s = map_scan 1 [a ..< 1] s \<bind> (\<lambda>(n, s1). flush_superblock (?g n s1) \<bind> (\<lambda>s2. Some (of_nat n, s2)))"
    by (simp add: inode_alloc_def lay fs_consts a_def Let_def)
  show ?thesis
  proof (cases "map_scan 1 [a ..< 1] s")
    case None
    with sc have "\<forall>m<32768. map_bit s 1 m" by simp
    then show ?thesis using eq None by (auto simp: inodes_used_def)
  next
    case (Some r)
    obtain n s1 where r: "r = (n, s1)" by (cases r)
    from sc Some r obtain s2 where n: "n < 32768" "\<not> map_bit s 1 n" "\<forall>m<n. map_bit s 1 m"
      and s2: "flush_superblock (?g n s1) = Some s2" "cache_inv s2" "superblock s2 = ?h n ?sb" "cwd s2 = cwd s"
      "inodes_used s2 = insert n (inodes_used s)" "blocks_used s2 = blocks_used s" "data_view s2 = data_view s"
      by auto
    have r2: "inode_alloc s = Some (of_nat n, s2)" using eq Some r s2(1) by simp
    have un: "unat (of_nat n :: u32) = n" using n(1) by (simp add: unat_of_nat)
    have fm: "unat (inode_free_min (superblock s2)) = n + 1" using s2(3) unat_succ [of n] n(1) by simp
    have "m \<in> inodes_used s2" if "m < 32768" "m div 32768 < (n + 1) div 32768" for m
      using group_le [OF that(2)] n that(1) s2(5) by (cases "m = n") (auto simp: inodes_used_def)
    then have "fs_inv s2"
      using inv s2 n(1) fm l by (simp add: fs_inv_def layout_ok_def)
    with r2 un n s2 show ?thesis by (simp add: inodes_used_def inode_frame_def)
  qed
qed

lemma block_alloc_ok:
  assumes inv: "fs_inv s"
  shows "case block_alloc s of
      None \<Rightarrow> blocks_used s = {..< 98304}
    | Some (n, s') \<Rightarrow> fs_inv s' \<and> unat n < 98304 \<and> unat n \<notin> blocks_used s \<and> (\<forall>m<unat n. m \<in> blocks_used s) \<and>
        blocks_used s' = insert (unat n) (blocks_used s) \<and> block_frame s' = block_frame s"
proof -
  let ?sb = "superblock s"
  define a where "a = unat (block_free_min ?sb) div 32768"
  have i: "cache_inv s" and l: "layout_ok ?sb" using inv by (auto simp: fs_inv_def)
  have lay: "block_map_start_block ?sb = 2" "block_map_size ?sb = 98304" using l by (simp_all add: layout_ok_def)
  have a: "a * 32768 \<le> 98304" using inv by (auto simp: fs_inv_def a_def)
  have low: "\<forall>m<a * 32768. map_bit s 2 m" using inv a by (auto simp: fs_inv_def a_def blocks_used_def less_mult_imp_div_less)
  let ?h = "\<lambda>n sb. sb\<lparr>block_allocated := block_allocated sb + 1, block_free_min := of_nat n + 1\<rparr>"
  let ?g = "\<lambda>n (s1 :: fs). s1\<lparr>superblock := (superblock s1)\<lparr>block_allocated := block_allocated (superblock s1) + 1, block_free_min := of_nat n + 1\<rparr>\<rparr>"
  have more: "?g n s1 = s1\<lparr>superblock := ?h n (superblock s)\<rparr>" if "cache_state.more s1 = cache_state.more s" for n s1
    using frame_fs [OF that] by simp
  note sc = scan_flush_ok [where g = ?g and h = ?h, OF i _ a low more, simplified]
  have eq: "block_alloc s = map_scan 2 [a ..< 3] s \<bind> (\<lambda>(n, s1). flush_superblock (?g n s1) \<bind> (\<lambda>s2. Some (of_nat n, s2)))"
    by (simp add: block_alloc_def lay fs_consts a_def Let_def)
  show ?thesis
  proof (cases "map_scan 2 [a ..< 3] s")
    case None
    with sc have "\<forall>m<98304. map_bit s 2 m" by simp
    then show ?thesis using eq None by (auto simp: blocks_used_def)
  next
    case (Some r)
    obtain n s1 where r: "r = (n, s1)" by (cases r)
    from sc Some r obtain s2 where n: "n < 98304" "\<not> map_bit s 2 n" "\<forall>m<n. map_bit s 2 m"
      and s2: "flush_superblock (?g n s1) = Some s2" "cache_inv s2" "superblock s2 = ?h n ?sb" "cwd s2 = cwd s"
      "blocks_used s2 = insert n (blocks_used s)" "inodes_used s2 = inodes_used s" "data_view s2 = data_view s"
      by auto
    have r2: "block_alloc s = Some (of_nat n, s2)" using eq Some r s2(1) by simp
    have un: "unat (of_nat n :: u32) = n" using n(1) by (simp add: unat_of_nat)
    have fm: "unat (block_free_min (superblock s2)) = n + 1" using s2(3) unat_succ [of n] n(1) by simp
    have "m \<in> blocks_used s2" if "m < 98304" "m div 32768 < (n + 1) div 32768" for m
      using group_le [OF that(2)] n that(1) s2(5) by (cases "m = n") (auto simp: blocks_used_def)
    then have "fs_inv s2"
      using inv s2 n(1) fm l by (simp add: fs_inv_def layout_ok_def)
    with r2 un n s2 show ?thesis by (simp add: blocks_used_def block_frame_def)
  qed
qed

text \<open>The superblock in memory is the one that start-up will read.\<close>

definition sb_synced :: "fs \<Rightarrow> bool" where
  "sb_synced s \<longleftrightarrow> sb_of (load_bytes (content s 0) 0 56) = superblock s"

lemma flush_synced: "cache_inv s \<Longrightarrow> flush_superblock s = Some s' \<Longrightarrow> sb_synced s'"
  by (rule flush_superblock_ok [of s]) (auto simp: sb_synced_def dest!: frame_fs)

text \<open>The fields that no allocation changes.\<close>

definition sb_fixed :: "super_block \<Rightarrow> u32 \<times> u32 \<times> u32" where
  "sb_fixed sb = (magic0 sb, root_inode sb, magic1 sb)"

definition sb_kept :: "fs \<Rightarrow> fs \<Rightarrow> bool" where
  "sb_kept s s' \<longleftrightarrow> (sb_synced s \<longrightarrow> sb_synced s') \<and> sb_fixed (superblock s') = sb_fixed (superblock s)"

lemma flush_super: "cache_inv s \<Longrightarrow> flush_superblock s = Some s' \<Longrightarrow> superblock s' = superblock s"
  by (rule flush_superblock_ok [of s]) (auto dest!: frame_fs)

lemma inode_alloc_fixed:
  assumes "fs_inv s" "inode_alloc s = Some (b, s')"
  shows "sb_fixed (superblock s') = sb_fixed (superblock s)"
proof -
  have l: "inode_map_start_block (superblock s) = 1" "inode_map_size (superblock s) = 32768" "cache_inv s" "unat (inode_free_min (superblock s)) \<le> 32768"
    using assms(1) by (auto simp: fs_inv_def layout_ok_def)
  let ?a = "unat (inode_free_min (superblock s)) div 32768"
  obtain n s1 where m: "map_scan 1 [?a ..< 1] s = Some (n, s1)"
    and f: "flush_superblock (s1\<lparr>superblock := (superblock s1)\<lparr>inode_allocated := inode_allocated (superblock s1) + 1, inode_free_min := of_nat n + 1\<rparr>\<rparr>) = Some s'"
    using assms(2) l by (auto simp: inode_alloc_def Let_def fs_consts bind_Some_iff)
  have v: "\<forall>i<1. valid_block (1 + of_nat i)" by (auto simp: valid_block_def fs_consts)
  have a: "?a \<le> 1" using l(4) by linarith
  have s1: "cache_inv s1" "cache_state.more s1 = cache_state.more s" using map_scan_ok [OF v l(3) a] m by simp_all
  then show ?thesis using flush_super [OF _ f] frame_fs [OF s1(2)] by (simp add: sb_fixed_def)
qed

lemma block_alloc_synced:
  assumes "fs_inv s" "block_alloc s = Some (b, s')"
  shows "sb_kept s s'"
proof -
  have l: "block_map_start_block (superblock s) = 2" "block_map_size (superblock s) = 98304" "cache_inv s" "unat (block_free_min (superblock s)) \<le> 98304"
    using assms(1) by (auto simp: fs_inv_def layout_ok_def)
  let ?a = "unat (block_free_min (superblock s)) div 32768"
  obtain n s1 where m: "map_scan 2 [?a ..< 3] s = Some (n, s1)"
    and f: "flush_superblock (s1\<lparr>superblock := (superblock s1)\<lparr>block_allocated := block_allocated (superblock s1) + 1, block_free_min := of_nat n + 1\<rparr>\<rparr>) = Some s'"
    using assms(2) l by (auto simp: block_alloc_def Let_def fs_consts bind_Some_iff)
  have v: "\<forall>i<3. valid_block (2 + of_nat i)" by (auto simp: valid_block_def fs_consts unat_word_ariths unat_of_nat)
  have a: "?a \<le> 3" using l(4) by linarith
  have s1: "cache_inv s1" "cache_state.more s1 = cache_state.more s" using map_scan_ok [OF v l(3) a] m by simp_all
  then show ?thesis using flush_super [OF _ f] flush_synced [OF _ f] frame_fs [OF s1(2)] by (simp add: sb_fixed_def sb_kept_def)
qed

text \<open>Both releases: the bit is cleared, then the superblock changes and is flushed.\<close>

lemma clear_flush_ok:
  assumes inv: "cache_inv s" and start: "start = 1 \<and> N = 32768 \<or> start = 2 \<and> N = 98304" and n: "n < N" "map_bit s start n"
    and more: "\<And>s1. cache_state.more s1 = cache_state.more s \<Longrightarrow> g s1 = s1\<lparr>superblock := h (superblock s)\<rparr>"
  shows "\<exists>s1 s2. map_clear start n s = Some s1 \<and> flush_superblock (g s1) = Some s2 \<and> cache_inv s2 \<and> superblock s2 = h (superblock s) \<and>
    cwd s2 = cwd s \<and> inodes_used s2 = (if start = 1 then inodes_used s - {n} else inodes_used s) \<and>
    blocks_used s2 = (if start = 2 then blocks_used s - {n} else blocks_used s) \<and> data_view s2 = data_view s"
proof -
  have G: "BLOCK_SIZE * 8 = 32768" by (simp add: fs_consts)
  have v: "valid_block (start + of_nat (n div (BLOCK_SIZE * 8)))"
    unfolding G using start n map_block_ne(5) [of n 0] map_block_ne(6) [of 0 n] by auto
  obtain s1 where s1: "map_clear start n s = Some s1" "cache_inv s1" "cache_state.more s1 = cache_state.more s"
    and c: "\<forall>b. valid_block b \<longrightarrow> content s1 b = (if b = start + of_nat (n div 32768) then on_block (put_bit False n (content s b)) else content s b)"
    by (rule map_clear_ok [OF inv v n(2)]) (auto simp: G put_bit_def)
  have g: "g s1 = s1\<lparr>superblock := h (superblock s)\<rparr>" by (rule more [OF s1(3)])
  obtain s2 where s2: "flush_superblock (g s1) = Some s2" "cache_inv s2" "cache_state.more s2 = cache_state.more (g s1)"
    "\<forall>b. valid_block b \<longrightarrow> b \<noteq> 0 \<longrightarrow> content s2 b = content (g s1) b"
    by (rule flush_superblock_ok [of "g s1"]) (use s1(2) g in simp_all)
  have fr: "superblock s2 = h (superblock s)" "cwd s2 = cwd s"
    using frame_fs [OF s2(3)] frame_fs [OF s1(3)] g by simp_all
  have c2: "\<forall>b. valid_block b \<longrightarrow> b \<noteq> 0 \<longrightarrow> content s2 b = (if b = start + of_nat (n div 32768) then on_block (put_bit False n (content s b)) else content s b)"
    using s2(4) c g by simp
  note p = map_put_bits [OF n(1) start c2]
  with s1 s2 fr data_view_cong [OF p(3)] show ?thesis by (simp add: put_elem_def)
qed

lemma map_clear_None:
  assumes "cache_inv s" "valid_block (start + of_nat (n div 32768))" "\<not> map_bit s start n"
  shows "map_clear start n s = None"
proof -
  have G: "BLOCK_SIZE * 8 = 32768" by (simp add: fs_consts)
  obtain i s1 where o: "Block (start + of_nat (n div 32768)) s = Some (i, s1)"
    "on_block (cache_data s1 i) = content s (start + of_nat (n div 32768))"
    using cache.open_block [OF assms(1,2)] by blast
  have m: "n mod 32768 < BLOCK_SIZE * 8" by (simp add: fs_consts)
  have k: "n mod 32768 mod 8 = n mod 8" by (simp add: mod_mod_cancel)
  have "\<not> bit_at (cache_data s1 i) (n mod 32768)"
    using assms(3) o(2) bit_at_on_block [OF m, of "cache_data s1 i"] by (simp add: map_bit_def G)
  then have "cache_data s1 i (n mod 32768 div 8) AND push_bit (n mod 8) 1 = 0" by (simp add: bit_at_def k and_bit_eq_0)
  with o(1) show ?thesis by (simp add: map_clear_def Let_def G)
qed

lemma min_group: "m div 32768 < min a b div 32768 \<Longrightarrow> m div 32768 < a div 32768 \<and> m div 32768 < b div 32768" for m a b :: nat
  using div_le_mono [of a b 32768] div_le_mono [of b a 32768] by (auto simp: min_def split: if_splits)

lemma inode_free_ok:
  assumes inv: "fs_inv s" and n: "unat ino \<in> inodes_used s"
  shows "\<exists>s'. inode_free ino s = Some s' \<and> fs_inv s' \<and> inodes_used s' = inodes_used s - {unat ino} \<and> inode_frame s' = inode_frame s"
proof -
  let ?sb = "superblock s"
  have i: "cache_inv s" and l: "layout_ok ?sb" using inv by (auto simp: fs_inv_def)
  have lay: "inode_map_start_block ?sb = 1" using l by (simp add: layout_ok_def)
  have n': "unat ino < 32768" "map_bit s 1 (unat ino)" using n by (auto simp: inodes_used_def)
  let ?h = "\<lambda>sb. let sb = sb\<lparr>inode_allocated := inode_allocated sb - 1\<rparr>
    in if ino < inode_free_min sb then sb\<lparr>inode_free_min := ino\<rparr> else sb"
  let ?g = "\<lambda>s1 :: fs. let s1 = s1\<lparr>superblock := (superblock s1)\<lparr>inode_allocated := inode_allocated (superblock s1) - 1\<rparr>\<rparr>
    in if ino < inode_free_min (superblock s1) then s1\<lparr>superblock := (superblock s1)\<lparr>inode_free_min := ino\<rparr>\<rparr> else s1"
  have more: "?g s1 = s1\<lparr>superblock := ?h ?sb\<rparr>" if "cache_state.more s1 = cache_state.more s" for s1
    using frame_fs [OF that] by (simp add: Let_def)
  from clear_flush_ok [where g = ?g and h = ?h, OF i _ n' more, simplified] obtain s1 s2 where
    s: "map_clear 1 (unat ino) s = Some s1" "flush_superblock (?g s1) = Some s2" "cache_inv s2" "superblock s2 = ?h ?sb"
    "cwd s2 = cwd s" "inodes_used s2 = inodes_used s - {unat ino}" "blocks_used s2 = blocks_used s" "data_view s2 = data_view s"
    by auto
  have r: "inode_free ino s = Some s2"
    using s(1,2) n'(1) lay by (simp add: inode_free_def layout_consts Let_def)
  have fm: "unat (inode_free_min (superblock s2)) = min (unat ino) (unat (inode_free_min ?sb))"
    using s(4) by (auto simp: Let_def min_def word_less_nat_alt)
  have "m \<in> inodes_used s2" if "m < 32768" "m div 32768 < unat (inode_free_min (superblock s2)) div 32768" for m
  proof -
    have "m div 32768 < unat (inode_free_min ?sb) div 32768" "m div 32768 < unat ino div 32768"
      using min_group that(2) unfolding fm by blast+
    then have "m \<in> inodes_used s" "m \<noteq> unat ino" using inv that(1) by (auto simp: fs_inv_def)
    with s(6) show ?thesis by simp
  qed
  moreover have "layout_ok (superblock s2)" using l s(4) by (simp add: layout_ok_def Let_def)
  moreover have "block_free_min (superblock s2) = block_free_min ?sb" using s(4) by (simp add: Let_def)
  ultimately have "fs_inv s2" using inv s(3,7) fm by (simp add: fs_inv_def min_le_iff_disj)
  with r s show ?thesis by (simp add: inode_frame_def)
qed

lemma block_free_ok:
  assumes inv: "fs_inv s" and n: "unat b \<in> blocks_used s"
  shows "\<exists>s'. block_free b s = Some s' \<and> fs_inv s' \<and> blocks_used s' = blocks_used s - {unat b} \<and> block_frame s' = block_frame s"
proof -
  let ?sb = "superblock s"
  have i: "cache_inv s" and l: "layout_ok ?sb" using inv by (auto simp: fs_inv_def)
  have lay: "block_map_start_block ?sb = 2" using l by (simp add: layout_ok_def)
  have n': "unat b < 98304" "map_bit s 2 (unat b)" using n by (auto simp: blocks_used_def)
  let ?h = "\<lambda>sb. let sb = sb\<lparr>block_allocated := block_allocated sb - 1\<rparr>
    in if b < block_free_min sb then sb\<lparr>block_free_min := b\<rparr> else sb"
  let ?g = "\<lambda>s1 :: fs. let s1 = s1\<lparr>superblock := (superblock s1)\<lparr>block_allocated := block_allocated (superblock s1) - 1\<rparr>\<rparr>
    in if b < block_free_min (superblock s1) then s1\<lparr>superblock := (superblock s1)\<lparr>block_free_min := b\<rparr>\<rparr> else s1"
  have more: "?g s1 = s1\<lparr>superblock := ?h ?sb\<rparr>" if "cache_state.more s1 = cache_state.more s" for s1
    using frame_fs [OF that] by (simp add: Let_def)
  from clear_flush_ok [where g = ?g and h = ?h, OF i _ n' more, simplified] obtain s1 s2 where
    s: "map_clear 2 (unat b) s = Some s1" "flush_superblock (?g s1) = Some s2" "cache_inv s2" "superblock s2 = ?h ?sb"
    "cwd s2 = cwd s" "inodes_used s2 = inodes_used s" "blocks_used s2 = blocks_used s - {unat b}" "data_view s2 = data_view s"
    by auto
  have r: "block_free b s = Some s2"
    using s(1,2) n'(1) lay by (simp add: block_free_def layout_consts Let_def)
  have fm: "unat (block_free_min (superblock s2)) = min (unat b) (unat (block_free_min ?sb))"
    using s(4) by (auto simp: Let_def min_def word_less_nat_alt)
  have "m \<in> blocks_used s2" if "m < 98304" "m div 32768 < unat (block_free_min (superblock s2)) div 32768" for m
  proof -
    have "m div 32768 < unat (block_free_min ?sb) div 32768" "m div 32768 < unat b div 32768"
      using min_group that(2) unfolding fm by blast+
    then have "m \<in> blocks_used s" "m \<noteq> unat b" using inv that(1) by (auto simp: fs_inv_def)
    with s(7) show ?thesis by simp
  qed
  moreover have "layout_ok (superblock s2)" using l s(4) by (simp add: layout_ok_def Let_def)
  moreover have "inode_free_min (superblock s2) = inode_free_min ?sb" using s(4) by (simp add: Let_def)
  ultimately have "fs_inv s2" using inv s(3,6) fm by (simp add: fs_inv_def min_le_iff_disj)
  with r s show ?thesis by (simp add: block_frame_def)
qed

interpretation inodes: id_allocator fs_inv 32768 inodes_used inode_frame inode_alloc inode_free
proof (unfold_locales, goal_cases)
  case (1 s)
  show ?case by (auto simp: inodes_used_def)
next
  case (2 s)
  then show ?case using inode_alloc_ok [OF 2(1)] by (auto split: option.splits)
next
  case (3 s)
  then show ?case using inode_alloc_ok [OF 3(1)] by (auto split: option.splits)
next
  case (4 s n)
  then show ?case by (rule inode_free_ok)
next
  case (5 s n)
  then have "cache_inv s" "inode_map_start_block (superblock s) = 1" by (simp_all add: fs_inv_def layout_ok_def)
  then show ?case
    using 5(2) map_clear_None [of s 1 "unat n"] map_block_ne(5) [of "unat n" 0]
    by (simp add: inode_free_def inodes_used_def layout_consts)
qed

interpretation blocks: id_allocator fs_inv 98304 blocks_used block_frame block_alloc block_free
proof (unfold_locales, goal_cases)
  case (1 s)
  show ?case by (auto simp: blocks_used_def)
next
  case (2 s)
  then show ?case using block_alloc_ok [OF 2(1)] by (auto split: option.splits)
next
  case (3 s)
  then show ?case using block_alloc_ok [OF 3(1)] by (auto split: option.splits)
next
  case (4 s n)
  then show ?case by (rule block_free_ok)
next
  case (5 s n)
  then have "cache_inv s" "block_map_start_block (superblock s) = 2" by (simp_all add: fs_inv_def layout_ok_def)
  then show ?case
    using 5(2) map_clear_None [of s 2 "unat n"] map_block_ne(6) [of 0 "unat n"]
    by (simp add: block_free_def blocks_used_def layout_consts)
qed

section \<open>Properties\<close>

text \<open>
  C19: \<open>block_alloc\<close> returns the lowest free block and marks it, leaving every inode and data block as it was;
  it fails its assertion only if no block is free.
\<close>

theorem block_alloc_lowest:
  assumes "fs_inv s"
  shows "case block_alloc s of
      None \<Rightarrow> blocks_used s = {..< 98304}
    | Some (n, s') \<Rightarrow> fs_inv s' \<and> unat n = (LEAST m. m \<notin> blocks_used s) \<and> unat n < 98304 \<and>
        blocks_used s' = insert (unat n) (blocks_used s) \<and> inodes_used s' = inodes_used s \<and> data_view s' = data_view s"
proof (cases "block_alloc s")
  case None
  then show ?thesis using blocks.alloc_some [OF assms] by auto
next
  case (Some r)
  obtain n s' where r: "r = (n, s')" by (cases r)
  note a = blocks.alloc_SomeD [OF assms Some [unfolded r]]
  have "(LEAST m. m \<notin> blocks_used s) = unat n" by (rule Least_equality) (use a in \<open>auto simp: not_less [symmetric]\<close>)
  with Some r a show ?thesis by (simp add: block_frame_def)
qed

text \<open>A card of zeroes with the layout of \<open>mkfs\<close>.\<close>

definition fs0 :: fs where
  "fs0 = cache_init \<lparr>sd = (\<lambda>_ _. 0), cache_data = (\<lambda>_ _. 0), cache_blockid = (\<lambda>_. 0), cache_dirty = (\<lambda>_. True),
     cache_age = (\<lambda>_. 0), age = 0, policy_writethrough = True, policy_writeback_interval = 0, last_time = 0,
     superblock = \<lparr>magic0 = SUPERBLOCK_MAGIC, fs_start = 0, inode_map_start_block = 1, inode_map_size = 32768,
       inode_allocated = 0, inode_free_min = 0, block_map_start_block = 2, block_map_size = 98304, block_allocated = 0,
       block_free_min = 0, inode_start_block = 5, block_start_block = 517, root_inode = 0, magic1 = SUPERBLOCK_MAGIC\<rparr>,
     cwd = 0\<rparr>"

lemma fs0_inv: "fs_inv fs0"
proof -
  have "superblock fs0 = superblock fs0 \<and> layout_ok (superblock fs0) \<and> unat (inode_free_min (superblock fs0)) = 0 \<and>
    unat (block_free_min (superblock fs0)) = 0" by (simp add: fs0_def cache_init_def layout_ok_def)
  moreover have "cache_inv fs0" by (simp add: fs0_def cache_init_ok)
  ultimately show ?thesis by (simp add: fs_inv_def)
qed

lemma fs0_free: "map_bit fs0 1 0 = False" "map_bit fs0 2 0 = False"
proof -
  have "content fs0 b = (\<lambda>_. 0)" if "valid_block b" for b
    unfolding fs0_def cache_init_ok(2) [OF that] by (simp add: card_block_def on_block_def fun_eq_iff)
  then show "map_bit fs0 1 0 = False" "map_bit fs0 2 0 = False"
    by (simp_all add: map_bit_def bit_at_def valid_block_def fs_consts)
qed

theorem block_alloc_lowest_witness:
  "case block_alloc fs0 of None \<Rightarrow> False | Some (n, s') \<Rightarrow> n = 0 \<and> 0 \<in> blocks_used s'"
proof -
  have z: "0 \<notin> blocks_used fs0" using fs0_free by (simp add: blocks_used_def)
  then have "(LEAST m. m \<notin> blocks_used fs0) = 0" by (intro Least_equality) auto
  with block_alloc_lowest [OF fs0_inv] z show ?thesis by (auto simp: unat_eq_0 split: option.splits)
qed

text \<open>
  An inode that is allocated and freed again leaves the map of the inodes, the map of the blocks and
  every block of inodes and data as before, and freeing an inode that is not in use fails the assertion.
\<close>

theorem inode_alloc_free:
  assumes "fs_inv s" "inode_alloc s = Some (n, s1)"
  shows "inode_free n s = None \<and> (\<exists>s2. inode_free n s1 = Some s2 \<and> fs_inv s2 \<and> inodes_used s2 = inodes_used s \<and>
    blocks_used s2 = blocks_used s \<and> data_view s2 = data_view s)"
proof -
  have "unat n \<notin> inodes_used s" by (rule inodes.alloc_SomeD(3) [OF assms])
  with inodes.alloc_free [OF assms] inodes.free_none [OF assms(1)] show ?thesis by (auto simp: inode_frame_def)
qed

theorem inode_alloc_free_witness:
  "\<exists>n s1 s2. inode_alloc fs0 = Some (n, s1) \<and> inode_free n s1 = Some s2 \<and> inodes_used s2 = inodes_used fs0"
proof -
  have "0 \<notin> inodes_used fs0" using fs0_free by (simp add: inodes_used_def)
  then have "inodes_used fs0 \<noteq> {..< 32768}" by (metis lessThan_iff zero_less_numeral)
  from inodes.alloc_some [OF fs0_inv this] obtain n s1 where a: "inode_alloc fs0 = Some (n, s1)" by blast
  obtain s2 where "inode_free n s1 = Some s2" "inodes_used s2 = inodes_used fs0"
    using inode_alloc_free [OF fs0_inv a] by (elim conjE exE)
  with a show ?thesis by (intro exI conjI)
qed

end
