(* ===== verification/Inode.thy ===== *)
theory Inode
  imports FsMap
begin

text \<open>
  Inodes and file data of \<open>fs/fs.cpp\<close>: \<open>read_inode\<close>, \<open>write_inode\<close> and \<open>inode_modify_data\<close> with its recursion
  over the index blocks.
\<close>

section \<open>The code\<close>

definition inode_block :: "u32 \<Rightarrow> fs \<Rightarrow> u32" where
  "inode_block ino s = inode_start_block (superblock s) + of_nat (unat ino div INODE_PER_BLOCK)"

definition inode_offset :: "u32 \<Rightarrow> nat" where
  "inode_offset ino = unat ino mod INODE_PER_BLOCK * INODE_SIZE"

definition read_inode :: "u32 \<Rightarrow> fs \<Rightarrow> (inode \<times> fs) option" where
  "read_inode ino s = do {
     (block, s) \<leftarrow> Block (inode_block ino s) s;
     Some (inode_of (load_bytes (cache_data s block) (inode_offset ino) INODE_SIZE), s)
   }"

definition write_inode :: "u32 \<Rightarrow> inode \<Rightarrow> fs \<Rightarrow> fs option" where
  "write_inode ino inode s = do {
     (block, s) \<leftarrow> Block (inode_block ino s) s;
     update block (set_data block (store_bytes (inode_offset ino) (inode_bytes inode)) s)
   }"

definition RATIO_PER_LEVEL :: nat where "RATIO_PER_LEVEL = BLOCK_SIZE div 4"
definition L0_SIZE :: nat where "L0_SIZE = BLOCK_SIZE"
definition L1_SIZE :: nat where "L1_SIZE = L0_SIZE * RATIO_PER_LEVEL"
definition L2_SIZE :: nat where "L2_SIZE = L1_SIZE * RATIO_PER_LEVEL"
definition L0_BOUND :: nat where "L0_BOUND = INODE_DATA_DIRECT * BLOCK_SIZE"
definition L1_BOUND :: nat where "L1_BOUND = L0_BOUND + INODE_DATA_L1 * L1_SIZE"
definition L2_BOUND :: nat where "L2_BOUND = L1_BOUND + INODE_DATA_L2 * L2_SIZE"

text \<open>
  The pointer \<open>data\<close> of the recursion is the caller's buffer at the first level; below it is the memory of
  the index block, because the local variable of that name hides the parameter. The reference \<open>blockid\<close>
  is a field of the inode at the first level and a word of the index block below.
\<close>

datatype buf = UserBuf | SlotBuf nat
datatype bref = InodeRef | SlotRef nat nat

definition word_at :: "bytes \<Rightarrow> nat \<Rightarrow> u32" where
  "word_at d i = u32_of (d (4 * i)) (d (4 * i + 1)) (d (4 * i + 2)) (d (4 * i + 3))"

definition set_ref :: "bref \<Rightarrow> u32 \<Rightarrow> fs \<Rightarrow> fs" where
  "set_ref r b s = (case r of InodeRef \<Rightarrow> s | SlotRef slot i \<Rightarrow> set_data slot (store_bytes (4 * i) (u32_bytes b)) s)"

text \<open>The common start of the recursion: the block, which is allocated and cleared if there is none.\<close>

definition open_or_alloc :: "bref \<Rightarrow> u32 \<Rightarrow> fs \<Rightarrow> (bool \<times> u32 \<times> nat \<times> fs) option" where
  "open_or_alloc r blockid s = do {
     (allocated_new_block, blockid, s) \<leftarrow>
       (if blockid = 0
        then do { (b, s) \<leftarrow> block_alloc s; Some (True, b, set_ref r b s) }
        else Some (False, blockid, s));
     (block, s) \<leftarrow> Block blockid s;
     let s = (if allocated_new_block then set_data block (\<lambda>d i. if i < BLOCK_SIZE then 0 else d i) s else s);
     Some (allocated_new_block, blockid, block, s)
   }"

definition level_size :: "nat \<Rightarrow> nat option" where
  "level_size depth =
     (if depth = 1 then Some L0_SIZE else if depth = 2 then Some L1_SIZE else if depth = 3 then Some L2_SIZE else None)"

fun inode_modify_data_recur ::
    "bool \<Rightarrow> bref \<Rightarrow> u32 \<Rightarrow> buf \<Rightarrow> u8 list \<Rightarrow> nat \<Rightarrow> nat \<Rightarrow> nat \<Rightarrow> fs \<Rightarrow> (bool \<times> u32 \<times> u8 list \<times> fs) option" where
  "inode_modify_data_recur is_write r blockid data ub offset len 0 s = do {
     (modified, blockid, block, s) \<leftarrow> open_or_alloc r blockid s;
     if is_write
     then do {
       let src = (case data of UserBuf \<Rightarrow> take len ub | SlotBuf i \<Rightarrow> load_bytes (cache_data s i) 0 len);
       s \<leftarrow> update block (set_data block (store_bytes offset src) s);
       Some (modified, blockid, ub, s)
     }
     else
       (case data of
          UserBuf \<Rightarrow> Some (modified, blockid, load_bytes (cache_data s block) offset len, s)
        | SlotBuf i \<Rightarrow> Some (modified, blockid, ub, set_data i (store_bytes 0 (load_bytes (cache_data s block) offset len)) s))
   }"
| "inode_modify_data_recur is_write r blockid data ub offset len (Suc depth) s = do {
     (modified, blockid, block, s) \<leftarrow> open_or_alloc r blockid s;
     sz \<leftarrow> level_size (Suc depth);
     (block_modified, _, ub, s) \<leftarrow>
       inode_modify_data_recur is_write (SlotRef block (offset div sz)) (word_at (cache_data s block) (offset div sz))
         (SlotBuf block) ub (offset mod sz) len depth s;
     s \<leftarrow> (if block_modified then update block s else Some s);
     Some (modified, blockid, ub, s)
   }"

text \<open>
  \<open>ub\<close> is the caller's buffer; a read returns it filled. The result tells whether the inode changed,
  and is the new inode, the buffer and the state.
\<close>

definition inode_modify_data ::
    "bool \<Rightarrow> inode \<Rightarrow> u8 list \<Rightarrow> u32 \<Rightarrow> nat \<Rightarrow> fs \<Rightarrow> (bool \<times> inode \<times> u8 list \<times> fs) option" where
  "inode_modify_data is_write inode ub offset len s = do {
     kassert (unat offset mod BLOCK_SIZE + len \<le> BLOCK_SIZE);
     let grows = (isize inode < offset + of_nat len \<and> itype inode = 2);
     let inode = (if grows then inode\<lparr>isize := offset + of_nat len\<rparr> else inode);
     let off = unat offset;
     if off < L0_BOUND
     then do {
       (m, b, ub, s) \<leftarrow> inode_modify_data_recur is_write InodeRef (data_direct inode ! (off div L0_SIZE)) UserBuf ub
          (off mod L0_SIZE) len 0 s;
       Some (grows \<or> m, inode\<lparr>data_direct := (data_direct inode)[off div L0_SIZE := b]\<rparr>, ub, s)
     }
     else if off < L1_BOUND
     then do {
       let off = off - L0_BOUND;
       (m, b, ub, s) \<leftarrow> inode_modify_data_recur is_write InodeRef (data_l1 inode ! (off div L1_SIZE)) UserBuf ub
          (off mod L1_SIZE) len 1 s;
       Some (grows \<or> m, inode\<lparr>data_l1 := (data_l1 inode)[off div L1_SIZE := b]\<rparr>, ub, s)
     }
     else if off < L2_BOUND
     then do {
       let off = off - L1_BOUND;
       (m, b, ub, s) \<leftarrow> inode_modify_data_recur is_write InodeRef (data_l2 inode ! (off div L2_SIZE)) UserBuf ub
          (off mod L2_SIZE) len 2 s;
       Some (grows \<or> m, inode\<lparr>data_l2 := (data_l2 inode)[off div L2_SIZE := b]\<rparr>, ub, s)
     }
     else None
   }"

declare inode_modify_data_recur.simps [simp del]

section \<open>Inodes on the card\<close>

definition inode_at :: "fs \<Rightarrow> u32 \<Rightarrow> inode" where
  "inode_at s ino = inode_of (load_bytes (content s (5 + of_nat (unat ino div 64))) (unat ino mod 64 * 64) 64)"

lemma inode_pos:
  assumes "unat ino < 32768"
  shows "unat (5 + of_nat (unat ino div 64) :: u32) = 5 + unat ino div 64" "valid_block (5 + of_nat (unat ino div 64))"
    "unat ino mod 64 * 64 + 64 \<le> 4096"
proof -
  have d: "unat ino div 64 < 512" using assms by simp
  then have "5 + unat ino div 64 < 2 ^ 32" by simp
  moreover have "5 + of_nat (unat ino div 64) = (of_nat (5 + unat ino div 64) :: u32)" by simp
  ultimately show u: "unat (5 + of_nat (unat ino div 64) :: u32) = 5 + unat ino div 64"
    by (simp only: unat_of_nat) simp
  show "valid_block (5 + of_nat (unat ino div 64))" by (rule valid_small) (use u d in simp)
  show "unat ino mod 64 * 64 + 64 \<le> 4096" using mod_less_divisor [of 64 "unat ino"] by linarith
qed

lemma inode_block_eq: "fs_inv s \<Longrightarrow> inode_block ino s = 5 + of_nat (unat ino div 64)"
  by (simp add: inode_block_def fs_inv_def layout_ok_def layout_consts)

lemma fs_inv_frame:
  assumes "fs_inv s" "cache_inv s'" "cache_state.more s' = cache_state.more s"
    and "\<forall>b. valid_block b \<longrightarrow> unat b < 5 \<longrightarrow> content s' b = content s b"
  shows "fs_inv s'" "inodes_used s' = inodes_used s" "blocks_used s' = blocks_used s"
proof -
  have bits: "map_bit s' 1 n = map_bit s 1 n" if "n < 32768" for n
    using assms(4) map_block_ne(5,7) [OF that, of 0] by (simp add: map_bit_def fs_consts)
  have bits2: "map_bit s' 2 n = map_bit s 2 n" if "n < 98304" for n
    using assms(4) map_block_ne(6,8) [of 0 n] that by (simp add: map_bit_def fs_consts)
  show u: "inodes_used s' = inodes_used s" "blocks_used s' = blocks_used s"
    using bits bits2 by (auto simp: inodes_used_def blocks_used_def)
  show "fs_inv s'" using assms(1,2) frame_fs [OF assms(3)] u by (simp add: fs_inv_def)
qed

lemma read_inode_ok:
  assumes inv: "fs_inv s" and ino: "unat ino < 32768"
  obtains s' where "read_inode ino s = Some (inode_at s ino, s')" "fs_inv s'" "\<forall>b. valid_block b \<longrightarrow> content s' b = content s b"
    "inodes_used s' = inodes_used s" "blocks_used s' = blocks_used s" "cwd s' = cwd s"
proof -
  have c: "cache_inv s" using inv by (simp add: fs_inv_def)
  note p = inode_pos [OF ino]
  obtain i s' where o: "Block (5 + of_nat (unat ino div 64)) s = Some (i, s')" "cache_inv s'"
    "on_block (cache_data s' i) = content s (5 + of_nat (unat ino div 64))"
    "\<forall>b'. valid_block b' \<longrightarrow> content s' b' = content s b'" "cache_state.more s' = cache_state.more s"
    using cache.open_block [OF c p(2)] by blast
  have "load_bytes (cache_data s' i) (unat ino mod 64 * 64) 64 = load_bytes (content s (5 + of_nat (unat ino div 64))) (unat ino mod 64 * 64) 64"
    using load_on_block [of "unat ino mod 64 * 64" 64 "cache_data s' i"] p(3) o(3) by (simp add: fs_consts)
  then have r: "read_inode ino s = Some (inode_at s ino, s')"
    using o(1) by (simp add: read_inode_def inode_block_eq [OF inv] inode_at_def inode_offset_def layout_consts)
  show thesis by (rule that [OF r fs_inv_frame(1) [OF inv o(2,5)] o(4) fs_inv_frame(2,3) [OF inv o(2,5)]])
      (use o(4) frame_fs [OF o(5)] in auto)
qed

lemma inode_at_cong: "\<forall>b. valid_block b \<longrightarrow> content s' b = content s b \<Longrightarrow> unat ino < 32768 \<Longrightarrow> inode_at s' ino = inode_at s ino"
  using inode_pos [of ino] by (simp add: inode_at_def)

lemma write_inode_ok:
  assumes inv: "fs_inv s" and ino: "unat ino < 32768" and ok: "inode_ok inode"
  obtains s' where "write_inode ino inode s = Some s'" "fs_inv s'" "inode_at s' ino = inode"
    "\<forall>ino'. unat ino' < 32768 \<longrightarrow> ino' \<noteq> ino \<longrightarrow> inode_at s' ino' = inode_at s ino'"
    "\<forall>b. valid_block b \<longrightarrow> unat b < 5 \<or> 517 \<le> unat b \<longrightarrow> content s' b = content s b"
    "inodes_used s' = inodes_used s" "blocks_used s' = blocks_used s" "cwd s' = cwd s" "superblock s' = superblock s"
proof -
  have c: "cache_inv s" using inv by (simp add: fs_inv_def)
  note p = inode_pos [OF ino]
  let ?b = "5 + of_nat (unat ino div 64) :: u32" and ?o = "unat ino mod 64 * 64"
  let ?f = "store_bytes ?o (inode_bytes inode)"
  have len: "length (inode_bytes inode) = 64" using ok by (simp add: layout_consts)
  obtain i s1 where o: "Block ?b s = Some (i, s1)" "cache_inv s1" "slot_holds s1 i ?b" "on_block (cache_data s1 i) = content s ?b"
    "\<forall>b'. valid_block b' \<longrightarrow> content s1 b' = content s b'" "cache_state.more s1 = cache_state.more s"
    using cache.open_block [OF c p(2)] by blast
  obtain s2 where s2: "save_block i ?f s1 = Some s2" "cache_inv s2" "cache_state.more s2 = cache_state.more s1"
    "\<forall>b'. valid_block b' \<longrightarrow> content s2 b' = (if b' = ?b then on_block (?f (cache_data s1 i)) else content s1 b')"
    using cache.save [OF o(2) p(2) o(3), of ?f] by blast
  have same: "on_block (?f (cache_data s1 i)) = on_block (?f (content s ?b))"
    by (rule store_local) (simp flip: o(4))
  have c2: "content s2 b = (if b = ?b then on_block (?f (content s ?b)) else content s b)" if "valid_block b" for b
    using s2(4) o(5) that same by simp
  have w: "write_inode ino inode s = Some s2"
    using o(1) s2(1) by (simp add: write_inode_def inode_block_eq [OF inv] inode_offset_def save_block_def layout_consts)
  have more: "cache_state.more s2 = cache_state.more s" using s2(3) o(6) by simp
  have low: "content s2 b = content s b" if "valid_block b" "unat b < 5 \<or> 517 \<le> unat b" for b
  proof -
    have "unat ?b < 517" using p(1) ino by simp
    then have "b \<noteq> ?b" using that(2) p(1) by auto
    with c2 that show ?thesis by simp
  qed
  note fr = fs_inv_frame [OF inv s2(2) more]
  have at: "inode_at s2 ino = inode"
    using c2 [OF p(2)] load_on_block [of ?o 64 "?f (content s ?b)"] p(3) load_store [of ?o "inode_bytes inode" "content s ?b"] len
      inode_roundtrip [OF ok] by (simp add: inode_at_def fs_consts)
  have "inode_at s2 ino' = inode_at s ino'" if i': "unat ino' < 32768" "ino' \<noteq> ino" for ino'
  proof -
    note p' = inode_pos [OF i'(1)]
    let ?b' = "5 + of_nat (unat ino' div 64) :: u32" and ?o' = "unat ino' mod 64 * 64"
    show ?thesis
    proof (cases "?b' = ?b")
      case True
      then have "unat ino' div 64 = unat ino div 64" using p(1) p'(1) by simp
      moreover have "unat ino' \<noteq> unat ino" using i'(2) by (simp add: word_unat_eq_iff)
      ultimately have "unat ino' mod 64 \<noteq> unat ino mod 64" by (metis div_mult_mod_eq)
      then have "?o' + 64 \<le> ?o \<or> ?o + 64 \<le> ?o'" by linarith
      with True show ?thesis
        using c2 [OF p'(2)] load_on_block [of ?o' 64 "?f (content s ?b)"] p'(3) load_store_other [of ?o' 64 ?o "inode_bytes inode"] len
        by (simp add: inode_at_def fs_consts)
    qed (use c2 [OF p'(2)] in \<open>simp add: inode_at_def\<close>)
  qed
  with that [OF w] at low fr frame_fs [OF more] show thesis by blast
qed

section \<open>Data blocks\<close>

text \<open>The blocks of the superblock, the maps and the inodes are in use for good.\<close>

definition meta_used :: "fs \<Rightarrow> bool" where
  "meta_used s \<longleftrightarrow> {..< 517} \<subseteq> blocks_used s"

definition data_block :: "fs \<Rightarrow> u32 \<Rightarrow> bool" where
  "data_block s b \<longleftrightarrow> 517 \<le> unat b \<and> unat b \<in> blocks_used s"

text \<open>The direct blocks of an inode are distinct data blocks.\<close>

definition direct_ok :: "fs \<Rightarrow> inode \<Rightarrow> bool" where
  "direct_ok s inode \<longleftrightarrow> inode_ok inode \<and>
     (\<forall>i<8. data_direct inode ! i \<noteq> 0 \<longrightarrow> data_block s (data_direct inode ! i)) \<and>
     (\<forall>i<8. \<forall>j<8. data_direct inode ! i = data_direct inode ! j \<and> data_direct inode ! i \<noteq> 0 \<longrightarrow> i = j)"

text \<open>Byte \<open>p\<close> of a file, for the first 32 KiB; a hole reads as 0.\<close>

definition file_byte :: "fs \<Rightarrow> inode \<Rightarrow> nat \<Rightarrow> u8" where
  "file_byte s inode p =
     (let b = data_direct inode ! (p div 4096) in if b = 0 then 0 else content s b (p mod 4096))"

lemma data_block_valid: "data_block s b \<Longrightarrow> valid_block b \<and> b \<noteq> 0 \<and> 5 \<le> unat b"
  by (auto simp: data_block_def blocks_used_def valid_block_def fs_consts)

lemma set_data_comp: "set_data i f (set_data i g s) = set_data i (f \<circ> g) s"
  by (simp add: set_data_def)

lemma block_alloc_fresh:
  assumes "fs_inv s" "meta_used s" "blocks_used s \<noteq> {..< 98304}"
  obtains b s' where "block_alloc s = Some (b, s')" "fs_inv s'" "data_block s' b" "unat b \<notin> blocks_used s"
    "blocks_used s' = insert (unat b) (blocks_used s)" "inodes_used s' = inodes_used s" "cwd s' = cwd s"
    "\<forall>c. valid_block c \<longrightarrow> 5 \<le> unat c \<longrightarrow> content s' c = content s c" "sb_kept s s'"
proof -
  obtain b s' where a: "block_alloc s = Some (b, s')" using blocks.alloc_some [OF assms(1,3)] by blast
  note d = blocks.alloc_SomeD [OF assms(1) a]
  have "517 \<le> unat b" using d(3) assms(2) unfolding meta_used_def by (meson lessThan_iff not_less subsetD)
  then have db: "data_block s' b" using d(2,5) by (simp add: data_block_def)
  have v: "data_view s' = data_view s" "cwd s' = cwd s" "inodes_used s' = inodes_used s"
    using d(6) by (simp_all add: block_frame_def)
  have "content s' c = content s c" if "valid_block c" "5 \<le> unat c" for c
    using fun_cong [OF v(1), of c] that by (simp add: data_view_def)
  with that a d v db block_alloc_synced [OF assms(1) a] show thesis by blast
qed

lemma direct_write_ok:
  assumes inv: "fs_inv s" "meta_used s" and b: "b = 0 \<or> data_block s b" and room: "b = 0 \<Longrightarrow> blocks_used s \<noteq> {..< 98304}"
    and len: "off + length ub \<le> 4096"
  obtains b' s' where "inode_modify_data_recur True InodeRef b UserBuf ub off (length ub) 0 s = Some (b = 0, b', ub, s')"
    "b \<noteq> 0 \<longrightarrow> b' = b" "data_block s' b'" "b = 0 \<longrightarrow> unat b' \<notin> blocks_used s" "fs_inv s'"
    "blocks_used s' = (if b = 0 then insert (unat b') (blocks_used s) else blocks_used s)" "inodes_used s' = inodes_used s" "cwd s' = cwd s"
    "content s' b' = on_block (store_bytes off ub (if b = 0 then (\<lambda>_. 0) else content s b))"
    "\<forall>c. valid_block c \<longrightarrow> 5 \<le> unat c \<longrightarrow> c \<noteq> b' \<longrightarrow> content s' c = content s c" "sb_kept s s'"
proof -
  obtain b' s1 where a: "(if b = 0 then do { (b, s) \<leftarrow> block_alloc s; Some (True, b, set_ref InodeRef b s) } else Some (False, b, s))
      = Some (b = 0, b', s1)" "b \<noteq> 0 \<longrightarrow> b' = b" "data_block s1 b'" "b = 0 \<longrightarrow> unat b' \<notin> blocks_used s" "fs_inv s1"
    "blocks_used s1 = (if b = 0 then insert (unat b') (blocks_used s) else blocks_used s)" "inodes_used s1 = inodes_used s" "cwd s1 = cwd s"
    "\<forall>c. valid_block c \<longrightarrow> 5 \<le> unat c \<longrightarrow> content s1 c = content s c" "sb_kept s s1"
  proof (cases "b = 0")
    case True
    show thesis
      by (rule block_alloc_fresh [OF inv room [OF True]], rule that) (simp_all add: True set_ref_def)
  next
    case False
    with that [of b s] inv b show thesis by (simp add: sb_kept_def)
  qed
  note v = data_block_valid [OF a(3)]
  have c1: "cache_inv s1" using a(5) by (simp add: fs_inv_def)
  obtain i s2 where o: "Block b' s1 = Some (i, s2)" "cache_inv s2" "slot_holds s2 i b'" "on_block (cache_data s2 i) = content s1 b'"
    "\<forall>c. valid_block c \<longrightarrow> content s2 c = content s1 c" "cache_state.more s2 = cache_state.more s1"
    using cache.open_block [OF c1] v by blast
  let ?z = "\<lambda>(d :: bytes) x. if x < BLOCK_SIZE then 0 else d x"
  let ?f = "if b = 0 then store_bytes off ub \<circ> ?z else store_bytes off ub"
  obtain s3 where s3: "save_block i ?f s2 = Some s3" "cache_inv s3" "cache_state.more s3 = cache_state.more s2"
    "\<forall>c. valid_block c \<longrightarrow> content s3 c = (if c = b' then on_block (?f (cache_data s2 i)) else content s2 c)"
    using cache.save [OF o(2) _ o(3), of ?f] v by blast
  have r: "inode_modify_data_recur True InodeRef b UserBuf ub off (length ub) 0 s = Some (b = 0, b', ub, s3)"
    using a(1) o(1) s3(1)
    by (simp add: inode_modify_data_recur.simps open_or_alloc_def save_block_def set_data_comp split del: if_split)
      (cases "b = 0"; simp add: set_data_comp)
  have "on_block (?f (cache_data s2 i)) = on_block (store_bytes off ub (if b = 0 then (\<lambda>_. 0) else content s b))"
  proof (cases "b = 0")
    case True
    then show ?thesis by (simp add: on_block_eq_iff store_bytes_def)
  next
    case False
    then have "content s1 b' = content s b" using a(2,9) v by simp
    then have "on_block (cache_data s2 i) = on_block (content s b)" using arg_cong [OF o(4), of on_block] by simp
    from store_local [OF this] False show ?thesis by simp
  qed
  then have cb: "content s3 b' = on_block (store_bytes off ub (if b = 0 then (\<lambda>_. 0) else content s b))"
    using s3(4) v by simp
  have more: "cache_state.more s3 = cache_state.more s1" using s3(3) o(6) by simp
  have "content s3 c = content s1 c" if "valid_block c" "unat c < 5" for c
    using s3(4) o(5) that v by auto
  then have low: "\<forall>c. valid_block c \<longrightarrow> unat c < 5 \<longrightarrow> content s3 c = content s1 c" by blast
  note fr = fs_inv_frame [OF a(5) s3(2) more low]
  have "\<forall>c. valid_block c \<longrightarrow> 5 \<le> unat c \<longrightarrow> c \<noteq> b' \<longrightarrow> content s3 c = content s c"
    using s3(4) o(5) a(9) by simp
  moreover have "sb_kept s s3"
    using a(10) low [rule_format, of 0] frame_fs [OF more] by (simp add: sb_kept_def sb_synced_def valid_block_def fs_consts)
  moreover have "data_block s3 b'" using a(3) fr(3) by (simp add: data_block_def)
  ultimately show thesis
    using that [OF r a(2) _ a(4) fr(1)] cb fr(2,3) a(6,7,8) frame_fs [OF more] by simp
qed

lemma direct_read_ok:
  assumes inv: "fs_inv s" and b: "data_block s b" and len: "off + len \<le> 4096"
  obtains s' where "inode_modify_data_recur False InodeRef b UserBuf ub off len 0 s = Some (False, b, load_bytes (content s b) off len, s')"
    "fs_inv s'" "\<forall>c. valid_block c \<longrightarrow> content s' c = content s c" "blocks_used s' = blocks_used s" "inodes_used s' = inodes_used s" "cwd s' = cwd s"
proof -
  note v = data_block_valid [OF b]
  have c: "cache_inv s" using inv by (simp add: fs_inv_def)
  obtain i s' where o: "Block b s = Some (i, s')" "cache_inv s'" "on_block (cache_data s' i) = content s b"
    "\<forall>c. valid_block c \<longrightarrow> content s' c = content s c" "cache_state.more s' = cache_state.more s"
    using cache.open_block [OF c] v by blast
  have l: "load_bytes (cache_data s' i) off len = load_bytes (content s b) off len"
    using load_on_block [of off len "cache_data s' i"] o(3) len by (simp add: fs_consts)
  have r: "inode_modify_data_recur False InodeRef b UserBuf ub off len 0 s = Some (False, b, load_bytes (content s b) off len, s')"
    using o(1) v l by (simp add: inode_modify_data_recur.simps open_or_alloc_def)
  have low: "\<forall>c. valid_block c \<longrightarrow> unat c < 5 \<longrightarrow> content s' c = content s c" using o(4) by simp
  note fr = fs_inv_frame [OF inv o(2,5) low]
  show thesis by (rule that [OF r fr(1) o(4) fr(3,2)]) (use frame_fs [OF o(5)] in simp)
qed

text \<open>There are free blocks for all the holes in the first 32 KiB.\<close>

definition holes :: "inode \<Rightarrow> nat set" where
  "holes inode = {i. i < 8 \<and> data_direct inode ! i = 0}"

definition free_blocks :: "fs \<Rightarrow> nat set" where
  "free_blocks s = {..< 98304} - blocks_used s"

text \<open>The data blocks that are not in use hold zeros.\<close>

definition blank :: "fs \<Rightarrow> bool" where
  "blank s \<longleftrightarrow> (\<forall>c. valid_block c \<longrightarrow> 517 \<le> unat c \<longrightarrow> unat c \<notin> blocks_used s \<longrightarrow> content s c = (\<lambda>_. 0))"

definition room :: "fs \<Rightarrow> inode \<Rightarrow> bool" where
  "room s inode \<longleftrightarrow> card (holes inode) \<le> card (free_blocks s)"

definition writable :: "fs \<Rightarrow> inode \<Rightarrow> bool" where
  "writable s inode \<longleftrightarrow> fs_inv s \<and> meta_used s \<and> direct_ok s inode \<and> room s inode"

lemma finite_holes [simp]: "finite (holes inode)" "finite (free_blocks s)"
  by (simp_all add: holes_def free_blocks_def)

lemma level_bounds: "L0_BOUND = 32768" "L0_SIZE = 4096"
  by (simp_all add: L0_BOUND_def L0_SIZE_def layout_consts)

lemma same_block: "a mod 4096 + n \<le> 4096 \<Longrightarrow> a \<le> p \<Longrightarrow> p < a + n \<Longrightarrow> p div 4096 = a div 4096" for a n p :: nat
  using div_mult_mod_eq [of a 4096] by (intro div_nat_eqI; simp only: mult_Suc_right; linarith)

lemma modify_write_ok:
  assumes w: "writable s inode" and off: "unat offset < 32768" and len: "unat offset mod 4096 + length ub \<le> 4096"
  obtains m inode' s' where "inode_modify_data True inode ub offset (length ub) s = Some (m, inode', ub, s')" "writable s' inode'"
    "\<forall>p<32768. file_byte s' inode' p =
       (if unat offset \<le> p \<and> p < unat offset + length ub then ub ! (p - unat offset) else file_byte s inode p)"
    "data_direct inode' ! (unat offset div 4096) \<noteq> 0"
    "\<forall>i<8. data_direct inode ! i \<noteq> 0 \<longrightarrow> data_direct inode' ! i = data_direct inode ! i"
    "\<forall>c. data_block s c \<longrightarrow> c \<notin> set (data_direct inode) \<longrightarrow> c \<notin> set (data_direct inode') \<and> content s' c = content s c"
    "\<forall>c. valid_block c \<longrightarrow> 5 \<le> unat c \<longrightarrow> unat c < 517 \<longrightarrow> content s' c = content s c"
    "inodes_used s' = inodes_used s" "blocks_used s \<subseteq> blocks_used s'" "cwd s' = cwd s" "\<not> m \<longrightarrow> inode' = inode"
    "itype inode' = itype inode \<and> link_cnt inode' = link_cnt inode"
    "isize inode' = (if isize inode < offset + of_nat (length ub) \<and> itype inode = 2 then offset + of_nat (length ub) else isize inode)"
    "card (free_blocks s) \<le> Suc (card (free_blocks s'))" "sb_kept s s'" "blank s \<longrightarrow> blank s'"
proof -
  let ?k = "unat offset div 4096" and ?o = "unat offset mod 4096"
  let ?d = "data_direct inode"
  have inv: "fs_inv s" "meta_used s" and d: "direct_ok s inode" and rm: "room s inode" using w by (auto simp: writable_def)
  have k: "?k < 8" using off by simp
  have dl: "length ?d = 8" using d by (simp add: direct_ok_def inode_ok_def layout_consts)
  have b: "?d ! ?k = 0 \<or> data_block s (?d ! ?k)" using d k by (auto simp: direct_ok_def)
  have free: "blocks_used s \<noteq> {..< 98304}" if "?d ! ?k = 0"
  proof -
    have "?k \<in> holes inode" using that k by (simp add: holes_def)
    then have "0 < card (holes inode)" using card_gt_0_iff finite_holes(1) by blast
    with rm have "free_blocks s \<noteq> {}" by (auto simp: room_def)
    then show ?thesis by (auto simp: free_blocks_def)
  qed
  obtain b' s' where r: "inode_modify_data_recur True InodeRef (?d ! ?k) UserBuf ub ?o (length ub) 0 s = Some (?d ! ?k = 0, b', ub, s')"
    "?d ! ?k \<noteq> 0 \<longrightarrow> b' = ?d ! ?k" "data_block s' b'" "?d ! ?k = 0 \<longrightarrow> unat b' \<notin> blocks_used s" "fs_inv s'"
    "blocks_used s' = (if ?d ! ?k = 0 then insert (unat b') (blocks_used s) else blocks_used s)" "inodes_used s' = inodes_used s" "cwd s' = cwd s"
    "content s' b' = on_block (store_bytes ?o ub (if ?d ! ?k = 0 then (\<lambda>_. 0) else content s (?d ! ?k)))"
    "\<forall>c. valid_block c \<longrightarrow> 5 \<le> unat c \<longrightarrow> c \<noteq> b' \<longrightarrow> content s' c = content s c" "sb_kept s s'"
    by (rule direct_write_ok [OF inv b free len])
  let ?grows = "isize inode < offset + of_nat (length ub) \<and> itype inode = 2"
  define inode' where "inode' = (if ?grows then inode\<lparr>isize := offset + of_nat (length ub)\<rparr> else inode)\<lparr>data_direct := ?d[?k := b']\<rparr>"
  have res: "inode_modify_data True inode ub offset (length ub) s = Some (?grows \<or> ?d ! ?k = 0, inode', ub, s')"
    using r(1) off len by (simp add: inode_modify_data_def level_bounds fs_consts inode'_def Let_def)
  have dd: "data_direct inode' = ?d[?k := b']" by (simp add: inode'_def)
  have nz: "b' \<noteq> 0" using data_block_valid [OF r(3)] by simp
  have mono: "blocks_used s \<subseteq> blocks_used s'" using r(6) by auto
  have old: "?d ! i \<noteq> b'" if "i < 8" "i \<noteq> ?k" "?d ! i \<noteq> 0" for i
  proof (cases "?d ! ?k = 0")
    case True
    with r(4) that d show ?thesis by (auto simp: direct_ok_def data_block_def)
  next
    case False
    with r(2) that d k show ?thesis unfolding direct_ok_def by metis
  qed
  have db: "data_block s' c" if "data_block s c" for c using that mono by (auto simp: data_block_def)
  have dok: "direct_ok s' inode'"
    unfolding direct_ok_def dd
  proof (intro conjI allI impI)
    show "inode_ok inode'" using d by (simp add: direct_ok_def inode_ok_def inode'_def)
    fix i :: nat assume i: "i < 8"
    { assume "?d[?k := b'] ! i \<noteq> 0"
      then show "data_block s' (?d[?k := b'] ! i)"
        using i r(3) d db dl by (cases "i = ?k") (auto simp: direct_ok_def) }
    fix j :: nat assume j: "j < 8" "?d[?k := b'] ! i = ?d[?k := b'] ! j \<and> ?d[?k := b'] ! i \<noteq> 0"
    then show "i = j"
      using i dl old [of i] old [of j] d by (cases "i = ?k"; cases "j = ?k") (auto simp: direct_ok_def)
  qed
  have hol: "holes inode' = holes inode - {?k}" using dl nz k by (auto simp: holes_def dd nth_list_update)
  have rm': "room s' inode'"
  proof (cases "?d ! ?k = 0")
    case True
    then have "free_blocks s' = free_blocks s - {unat b'}" "unat b' \<in> free_blocks s" "?k \<in> holes inode"
      using r(3,4,6) k by (auto simp: free_blocks_def holes_def data_block_def blocks_used_def)
    with rm hol show ?thesis by (simp add: room_def card_Diff_singleton)
  next
    case False
    then have "holes inode' = holes inode" "free_blocks s' = free_blocks s"
      using hol r(6) by (auto simp: holes_def free_blocks_def)
    with rm show ?thesis by (simp add: room_def)
  qed
  have "meta_used s'" using inv(2) mono by (auto simp: meta_used_def)
  with r(5) dok rm' have wr: "writable s' inode'" by (simp add: writable_def)
  have fb: "file_byte s' inode' p = (if unat offset \<le> p \<and> p < unat offset + length ub then ub ! (p - unat offset) else file_byte s inode p)"
    if p: "p < 32768" for p
  proof (cases "p div 4096 = ?k")
    case True
    have pe: "p = ?k * 4096 + p mod 4096" "unat offset = ?k * 4096 + ?o"
      using div_mult_mod_eq [of p 4096] div_mult_mod_eq [of "unat offset" 4096] True by simp_all
    have rng: "?o \<le> p mod 4096 \<longleftrightarrow> unat offset \<le> p" "p mod 4096 < ?o + length ub \<longleftrightarrow> p < unat offset + length ub"
      "p mod 4096 - ?o = p - unat offset" using pe by linarith+
    have "file_byte s' inode' p = content s' b' (p mod 4096)" using True dl k nz by (simp add: file_byte_def dd Let_def)
    also have "\<dots> = (if ?o \<le> p mod 4096 \<and> p mod 4096 < ?o + length ub then ub ! (p mod 4096 - ?o)
        else (if ?d ! ?k = 0 then (\<lambda>_. 0) else content s (?d ! ?k)) (p mod 4096))"
      using r(9) by (simp add: on_block_def store_bytes_def fs_consts)
    also have "\<dots> = (if unat offset \<le> p \<and> p < unat offset + length ub then ub ! (p - unat offset) else file_byte s inode p)"
      unfolding rng using True by (simp add: file_byte_def Let_def)
    finally show ?thesis .
  next
    case False
    have p8: "p div 4096 < 8" using p by simp
    have out: "\<not> (unat offset \<le> p \<and> p < unat offset + length ub)" using same_block [OF len, of p] False by blast
    have eq: "data_direct inode' ! (p div 4096) = ?d ! (p div 4096)" using False by (simp add: dd)
    have "content s' (?d ! (p div 4096)) = content s (?d ! (p div 4096))" if "?d ! (p div 4096) \<noteq> 0"
    proof -
      have "data_block s (?d ! (p div 4096))" using that d p8 by (auto simp: direct_ok_def)
      from data_block_valid [OF this] old [OF p8 False that] r(10) show ?thesis by blast
    qed
    with out eq show ?thesis by (auto simp: file_byte_def Let_def)
  qed
  have new: "data_direct inode' ! ?k \<noteq> 0" using dl k nz by (simp add: dd)
  have keep: "\<forall>i<8. ?d ! i \<noteq> 0 \<longrightarrow> data_direct inode' ! i = ?d ! i"
    using r(2) dl k by (auto simp: dd nth_list_update)
  have oth: "c \<notin> set (data_direct inode') \<and> content s' c = content s c" if c: "data_block s c" "c \<notin> set ?d" for c
  proof -
    have "c \<noteq> b'"
    proof (cases "?d ! ?k = 0")
      case True
      with r(4) c(1) show ?thesis by (auto simp: data_block_def)
    next
      case False
      then show ?thesis using r(2) c(2) dl k nth_mem [of ?k ?d] by auto
    qed
    moreover have "c \<notin> set (data_direct inode')"
      using calculation c(2) set_update_subset_insert [of ?d ?k b'] by (auto simp: dd)
    ultimately show ?thesis using r(10) data_block_valid [OF c(1)] by blast
  qed
  have ino: "\<forall>c. valid_block c \<longrightarrow> 5 \<le> unat c \<longrightarrow> unat c < 517 \<longrightarrow> content s' c = content s c"
  proof (intro allI impI)
    fix c :: u32 assume c: "valid_block c" "5 \<le> unat c" "unat c < 517"
    then have "c \<noteq> b'" using r(3) by (auto simp: data_block_def)
    with r(10) c show "content s' c = content s c" by blast
  qed
  have nm: "\<not> (?grows \<or> ?d ! ?k = 0) \<longrightarrow> inode' = inode"
    using r(2) dl k by (auto simp: inode'_def list_update_id)
  have tl: "itype inode' = itype inode \<and> link_cnt inode' = link_cnt inode"
    "isize inode' = (if ?grows then offset + of_nat (length ub) else isize inode)"
    by (simp_all add: inode'_def)
  have "free_blocks s \<subseteq> insert (unat b') (free_blocks s')" using r(6) by (auto simp: free_blocks_def split: if_splits)
  then have "card (free_blocks s) \<le> card (insert (unat b') (free_blocks s'))" by (rule card_mono [rotated]) simp
  then have fewer: "card (free_blocks s) \<le> Suc (card (free_blocks s'))" by (simp add: card_insert_if split: if_splits)
  have bl: "blank s \<longrightarrow> blank s'"
    unfolding blank_def
  proof (intro impI allI)
    fix c assume z: "\<forall>c. valid_block c \<longrightarrow> 517 \<le> unat c \<longrightarrow> unat c \<notin> blocks_used s \<longrightarrow> content s c = (\<lambda>_. 0)" and c: "valid_block c" "517 \<le> unat c" "unat c \<notin> blocks_used s'"
    have "c \<noteq> b'" using c(3) r(3) by (auto simp: data_block_def)
    then have "content s' c = content s c" using r(10) c(1,2) by simp
    then show "content s' c = (\<lambda>_. 0)" using z c mono by auto
  qed
  show thesis
    by (rule that [OF res wr _ new keep _ ino r(7) mono r(8) nm tl fewer]) (use fb oth r(11) bl in blast)+
qed

lemma modify_read_ok:
  assumes inv: "fs_inv s" and d: "direct_ok s inode" and off: "unat offset < 32768" and len: "unat offset mod 4096 + n \<le> 4096"
    and b: "data_direct inode ! (unat offset div 4096) \<noteq> 0" and eof: "\<not> (isize inode < offset + of_nat n \<and> itype inode = 2)"
  obtains s' where "inode_modify_data False inode ub offset n s =
      Some (False, inode, map (file_byte s inode) [unat offset ..< unat offset + n], s')"
    "fs_inv s'" "\<forall>c. valid_block c \<longrightarrow> content s' c = content s c" "blocks_used s' = blocks_used s" "inodes_used s' = inodes_used s"
    "cwd s' = cwd s"
proof -
  let ?k = "unat offset div 4096" and ?o = "unat offset mod 4096" and ?d = "data_direct inode"
  have k: "?k < 8" using off by simp
  have db: "data_block s (?d ! ?k)" using d k b by (auto simp: direct_ok_def)
  obtain s' where r: "inode_modify_data_recur False InodeRef (?d ! ?k) UserBuf ub ?o n 0 s = Some (False, ?d ! ?k, load_bytes (content s (?d ! ?k)) ?o n, s')"
    "fs_inv s'" "\<forall>c. valid_block c \<longrightarrow> content s' c = content s c" "blocks_used s' = blocks_used s" "inodes_used s' = inodes_used s" "cwd s' = cwd s"
    by (rule direct_read_ok [OF inv db len])
  have "load_bytes (content s (?d ! ?k)) ?o n = map (file_byte s inode) [unat offset ..< unat offset + n]"
  proof (rule nth_equalityI)
    fix i assume "i < length (load_bytes (content s (?d ! ?k)) ?o n)"
    then have i: "i < n" by simp
    have "(unat offset + i) div 4096 = ?k" by (rule same_block [OF len]) (use i in simp_all)
    moreover have "(unat offset + i) mod 4096 = ?o + i"
      using calculation div_mult_mod_eq [of "unat offset" 4096] div_mult_mod_eq [of "unat offset + i" 4096] by linarith
    ultimately show "load_bytes (content s (?d ! ?k)) ?o n ! i = map (file_byte s inode) [unat offset ..< unat offset + n] ! i"
      using i b by (simp add: load_bytes_def file_byte_def Let_def)
  qed simp
  with r eof off len have "inode_modify_data False inode ub offset n s =
      Some (False, inode, map (file_byte s inode) [unat offset ..< unat offset + n], s')"
    by (simp add: inode_modify_data_def level_bounds fs_consts Let_def list_update_id)
  with that r show thesis by blast
qed

end
