(* ===== verification/File.thy ===== *)
theory File
  imports Inode
begin

text \<open>
  Open files, the class \<open>File\<close> of \<open>fs/file.cpp\<close>: reading and writing at the file pointer in pieces that do
  not cross a block, and seeking. Lengths are natural numbers: a negative \<open>length\<close> is not modelled.
\<close>

section \<open>The code\<close>

record open_file =
  inode_idx :: u32
  fmode :: u32
  file_ptr :: u32
  finode :: inode

definition O_RDONLY :: u32 where "O_RDONLY = 1"
definition O_WRONLY :: u32 where "O_WRONLY = 2"

text \<open>The loop of \<open>read\<close>; \<open>acc\<close> is the part of the buffer that is filled.\<close>

function read_loop :: "nat \<Rightarrow> u8 list \<Rightarrow> bool \<Rightarrow> open_file \<Rightarrow> fs \<Rightarrow> (u8 list \<times> bool \<times> open_file \<times> fs) option" where
  "read_loop len acc modified f s =
     (if len = 0 then Some (acc, modified, f, s)
      else let block_offset = unat (file_ptr f) mod BLOCK_SIZE;
               read_size = min (BLOCK_SIZE - block_offset) len
           in do {
             (m, ino, ub, s) \<leftarrow> inode_modify_data False (finode f) [] (file_ptr f) read_size s;
             read_loop (len - read_size) (acc @ ub) (modified \<or> m)
               (f\<lparr>finode := ino, file_ptr := file_ptr f + of_nat read_size\<rparr>) s
           })"
  by pat_completeness auto
termination
  by (relation "measure (\<lambda>(len, acc, modified, f, s). len)") (auto simp: BLOCK_SIZE_def)

function write_loop :: "u8 list \<Rightarrow> bool \<Rightarrow> open_file \<Rightarrow> fs \<Rightarrow> (bool \<times> open_file \<times> fs) option" where
  "write_loop buff modified f s =
     (if buff = [] then Some (modified, f, s)
      else let block_offset = unat (file_ptr f) mod BLOCK_SIZE;
               write_size = min (BLOCK_SIZE - block_offset) (length buff)
           in do {
             (m, ino, _, s) \<leftarrow> inode_modify_data True (finode f) (take write_size buff) (file_ptr f) write_size s;
             write_loop (drop write_size buff) (modified \<or> m)
               (f\<lparr>finode := ino, file_ptr := file_ptr f + of_nat write_size\<rparr>) s
           })"
  by pat_completeness auto
termination
  by (relation "measure (\<lambda>(buff, modified, f, s). length buff)") (auto simp: BLOCK_SIZE_def)

text \<open>The results are the value returned, the buffer (of a read), the file object and the state.\<close>

definition file_read :: "nat \<Rightarrow> open_file \<Rightarrow> fs \<Rightarrow> (int \<times> u8 list \<times> open_file \<times> fs) option" where
  "file_read len f s =
     (if fmode f AND O_RDONLY = 0 then Some (- 1, [], f, s)
      else do {
        (buff, inode_modified, f, s) \<leftarrow> read_loop len [] False f s;
        s \<leftarrow> (if inode_modified then write_inode (inode_idx f) (finode f) s else Some s);
        Some (int len, buff, f, s)
      })"

definition file_write :: "u8 list \<Rightarrow> open_file \<Rightarrow> fs \<Rightarrow> (int \<times> open_file \<times> fs) option" where
  "file_write buff f s =
     (if fmode f AND O_WRONLY = 0 then Some (- 1, f, s)
      else do {
        (inode_modified, f, s) \<leftarrow> write_loop buff False f s;
        s \<leftarrow> (if inode_modified then write_inode (inode_idx f) (finode f) s else Some s);
        Some (int (length buff), f, s)
      })"

definition file_lseek :: "int \<Rightarrow> int \<Rightarrow> open_file \<Rightarrow> int \<times> open_file" where
  "file_lseek offset whence f =
     (if whence = 0 then let f = f\<lparr>file_ptr := of_int offset\<rparr> in (sint (file_ptr f), f)
      else if whence = 1 then let f = f\<lparr>file_ptr := file_ptr f + of_int offset\<rparr> in (sint (file_ptr f), f)
      else if whence = 2 then let f = f\<lparr>file_ptr := isize (finode f) + of_int offset\<rparr> in (sint (file_ptr f), f)
      else (- 1, f))"

declare read_loop.simps [simp del] write_loop.simps [simp del]

section \<open>The loops\<close>

lemma unat_add_small: "unat (a :: u32) + n \<le> 32768 \<Longrightarrow> unat (a + of_nat n) = unat a + n"
proof -
  assume le: "unat a + n \<le> 32768"
  have "a + of_nat n = of_nat (unat a + n)" by simp
  moreover have "unat a + n < 2 ^ 32" using le by simp
  ultimately show ?thesis by (simp only: unat_of_nat) simp
qed

text \<open>
  What a write of \<open>bs\<close> at \<open>p\<close> does: the bytes are there and all others as before, the blocks of other files
  and the inodes are untouched, and the size grows to the end of the bytes.
\<close>

definition wrote :: "fs \<Rightarrow> inode \<Rightarrow> nat \<Rightarrow> u8 list \<Rightarrow> fs \<Rightarrow> inode \<Rightarrow> bool" where
  "wrote s inode p bs s' inode' \<longleftrightarrow>
     (\<forall>q<32768. file_byte s' inode' q = (if p \<le> q \<and> q < p + length bs then bs ! (q - p) else file_byte s inode q)) \<and>
     (\<forall>q. p \<le> q \<and> q < p + length bs \<longrightarrow> data_direct inode' ! (q div 4096) \<noteq> 0) \<and>
     (\<forall>i<8. data_direct inode ! i \<noteq> 0 \<longrightarrow> data_direct inode' ! i = data_direct inode ! i) \<and>
     (\<forall>c. data_block s c \<longrightarrow> c \<notin> set (data_direct inode) \<longrightarrow> c \<notin> set (data_direct inode') \<and> content s' c = content s c) \<and>
     (\<forall>c. valid_block c \<longrightarrow> 5 \<le> unat c \<longrightarrow> unat c < 517 \<longrightarrow> content s' c = content s c) \<and>
     inodes_used s' = inodes_used s \<and> blocks_used s \<subseteq> blocks_used s' \<and> cwd s' = cwd s \<and>
     itype inode' = itype inode \<and> link_cnt inode' = link_cnt inode \<and>
     (itype inode = 2 \<longrightarrow> unat (isize inode') = (if bs = [] then unat (isize inode) else max (unat (isize inode)) (p + length bs)))"

lemma wroteD:
  assumes "wrote s inode p bs s' inode'"
  shows "q < 32768 \<Longrightarrow> file_byte s' inode' q = (if p \<le> q \<and> q < p + length bs then bs ! (q - p) else file_byte s inode q)"
    "p \<le> q \<Longrightarrow> q < p + length bs \<Longrightarrow> data_direct inode' ! (q div 4096) \<noteq> 0"
    "i < 8 \<Longrightarrow> data_direct inode ! i \<noteq> 0 \<Longrightarrow> data_direct inode' ! i = data_direct inode ! i"
    "data_block s c \<Longrightarrow> c \<notin> set (data_direct inode) \<Longrightarrow> c \<notin> set (data_direct inode') \<and> content s' c = content s c"
    "valid_block c \<Longrightarrow> 5 \<le> unat c \<Longrightarrow> unat c < 517 \<Longrightarrow> content s' c = content s c"
    "inodes_used s' = inodes_used s" "blocks_used s \<subseteq> blocks_used s'" "cwd s' = cwd s"
    "itype inode' = itype inode" "link_cnt inode' = link_cnt inode"
    "itype inode = 2 \<Longrightarrow> unat (isize inode') = (if bs = [] then unat (isize inode) else max (unat (isize inode)) (p + length bs))"
  using assms unfolding wrote_def by blast+

lemma wrote_nil: "wrote s inode p [] s inode"
  by (auto simp: wrote_def)

lemma wrote_append:
  assumes a: "wrote s i p bs s1 i1" and b: "wrote s1 i1 (p + length bs) bs' s2 i2" and le: "p + length (bs @ bs') \<le> 32768"
  shows "wrote s i p (bs @ bs') s2 i2"
  unfolding wrote_def
proof (intro conjI allI impI)
  fix q :: nat assume q: "q < 32768"
  show "file_byte s2 i2 q = (if p \<le> q \<and> q < p + length (bs @ bs') then (bs @ bs') ! (q - p) else file_byte s i q)"
    using wroteD(1) [OF a q] wroteD(1) [OF b q] by (auto simp: nth_append diff_diff_left)
next
  fix q assume q: "p \<le> q \<and> q < p + length (bs @ bs')"
  show "data_direct i2 ! (q div 4096) \<noteq> 0"
  proof (cases "q < p + length bs")
    case True
    have "q div 4096 < 8" using True le by simp
    from wroteD(3) [OF b this] wroteD(2) [OF a _ True] q show ?thesis by auto
  qed (use wroteD(2) [OF b, of q] q in auto)
next
  fix c assume c: "data_block s c" "c \<notin> set (data_direct i)"
  note 1 = wroteD(4) [OF a c]
  have "data_block s1 c" using c(1) wroteD(7) [OF a] by (auto simp: data_block_def)
  from wroteD(4) [OF b this] 1 show "c \<notin> set (data_direct i2)" "content s2 c = content s c" by auto
qed (use wroteD(3) [OF a] wroteD(3) [OF b] wroteD(5) [OF a] wroteD(5) [OF b] wroteD(6-11) [OF a] wroteD(6-11) [OF b] in \<open>auto split: if_splits\<close>)

lemma modify_wrote:
  assumes w: "writable s inode" and off: "unat offset < 32768" and len: "unat offset mod 4096 + length ub \<le> 4096" "ub \<noteq> []"
  obtains m inode' s' where "inode_modify_data True inode ub offset (length ub) s = Some (m, inode', ub, s')" "writable s' inode'"
    "wrote s inode (unat offset) ub s' inode'" "\<not> m \<longrightarrow> inode' = inode" "card (free_blocks s) \<le> Suc (card (free_blocks s'))" "blank s \<longrightarrow> blank s'"
proof -
  obtain m inode' s' where r: "inode_modify_data True inode ub offset (length ub) s = Some (m, inode', ub, s')" "writable s' inode'"
    "\<forall>p<32768. file_byte s' inode' p =
       (if unat offset \<le> p \<and> p < unat offset + length ub then ub ! (p - unat offset) else file_byte s inode p)"
    "data_direct inode' ! (unat offset div 4096) \<noteq> 0"
    "\<forall>i<8. data_direct inode ! i \<noteq> 0 \<longrightarrow> data_direct inode' ! i = data_direct inode ! i"
    "\<forall>c. data_block s c \<longrightarrow> c \<notin> set (data_direct inode) \<longrightarrow> c \<notin> set (data_direct inode') \<and> content s' c = content s c"
    "\<forall>c. valid_block c \<longrightarrow> 5 \<le> unat c \<longrightarrow> unat c < 517 \<longrightarrow> content s' c = content s c"
    "inodes_used s' = inodes_used s" "blocks_used s \<subseteq> blocks_used s'" "cwd s' = cwd s" "\<not> m \<longrightarrow> inode' = inode"
    "itype inode' = itype inode \<and> link_cnt inode' = link_cnt inode"
    "isize inode' = (if isize inode < offset + of_nat (length ub) \<and> itype inode = 2 then offset + of_nat (length ub) else isize inode)"
    "card (free_blocks s) \<le> Suc (card (free_blocks s'))" "blank s \<longrightarrow> blank s'"
    by (rule modify_write_ok [OF w off len(1)])
  have d: "unat offset div 4096 \<le> 7" using off by simp
  have "unat offset + length ub \<le> 32768" using len(1) d div_mult_mod_eq [of "unat offset" 4096] by linarith
  then have e: "unat (offset + of_nat (length ub)) = unat offset + length ub" by (rule unat_add_small)
  have nz: "\<forall>q. unat offset \<le> q \<and> q < unat offset + length ub \<longrightarrow> data_direct inode' ! (q div 4096) \<noteq> 0"
    using r(4) same_block [OF len(1)] by auto
  have size: "itype inode = 2 \<longrightarrow> unat (isize inode') = (if ub = [] then unat (isize inode) else max (unat (isize inode)) (unat offset + length ub))"
    using r(13) len(2) by (simp add: word_less_nat_alt e max_def)
  have "wrote s inode (unat offset) ub s' inode'"
    unfolding wrote_def by (intro conjI; (rule r(3) nz r(5-10) size | use r(12) in blast))
  from that [OF r(1,2) this r(11,14,15)] show thesis .
qed

lemma write_loop_ok:
  assumes "writable s (finode f)" "unat (file_ptr f) + length buff \<le> 32768"
  shows "\<exists>m ino s'. write_loop buff modified f s = Some (modified \<or> m, f\<lparr>finode := ino, file_ptr := file_ptr f + of_nat (length buff)\<rparr>, s') \<and>
    writable s' ino \<and> wrote s (finode f) (unat (file_ptr f)) buff s' ino \<and> (\<not> m \<longrightarrow> ino = finode f)"
  using assms
proof (induction "length buff" arbitrary: buff modified f s rule: less_induct)
  case less
  show ?case
  proof (cases "buff = []")
    case True
    with less.prems show ?thesis
      by (intro exI [of _ False] exI [of _ "finode f"] exI [of _ s]) (simp add: write_loop.simps wrote_nil)
  next
    case False
    let ?p = "unat (file_ptr f)" and ?n = "min (BLOCK_SIZE - unat (file_ptr f) mod BLOCK_SIZE) (length buff)"
    let ?ub = "take ?n buff" and ?r = "drop ?n buff"
    have md: "?p mod BLOCK_SIZE < BLOCK_SIZE" by (simp add: fs_consts)
    have n: "0 < ?n" "?n \<le> length buff" "length ?ub = ?n" using False md by auto
    have len: "?p mod 4096 + length ?ub \<le> 4096" "?ub \<noteq> []" using n md by (auto simp: fs_consts)
    have off: "?p < 32768" using less.prems(2) False by (cases buff) auto
    obtain m ino s1 where w: "inode_modify_data True (finode f) ?ub (file_ptr f) (length ?ub) s = Some (m, ino, ?ub, s1)" "writable s1 ino"
      "wrote s (finode f) ?p ?ub s1 ino" "\<not> m \<longrightarrow> ino = finode f"
      by (rule modify_wrote [OF less.prems(1) off len])
    let ?f = "f\<lparr>finode := ino, file_ptr := file_ptr f + of_nat ?n\<rparr>"
    have up: "unat (file_ptr f + of_nat ?n) = ?p + ?n" using less.prems(2) n by (intro unat_add_small) simp
    have step: "write_loop buff modified f s = write_loop ?r (modified \<or> m) ?f s1"
      using w(1) n(3) False by (subst write_loop.simps) (simp add: Let_def)
    have pre: "length ?r < length buff" "writable s1 (finode ?f)" "unat (file_ptr ?f) + length ?r \<le> 32768"
      using n w(2) up less.prems(2) by simp_all
    obtain m' ino' s' where
      r: "write_loop ?r (modified \<or> m) ?f s1 = Some ((modified \<or> m) \<or> m', ?f\<lparr>finode := ino', file_ptr := file_ptr ?f + of_nat (length ?r)\<rparr>, s')"
      "writable s' ino'" "wrote s1 (finode ?f) (unat (file_ptr ?f)) ?r s' ino'" "\<not> m' \<longrightarrow> ino' = finode ?f"
      using less.hyps [OF pre, of "modified \<or> m"] by (elim exE conjE) (rule that)
    have len: "of_nat ?n + of_nat (length ?r) = (of_nat (length buff) :: u32)" using n by (simp flip: of_nat_add)
    have "wrote s (finode f) ?p (?ub @ ?r) s' ino'"
      by (rule wrote_append [OF w(3)]) (use r(3) up n less.prems(2) in simp_all)
    then have wr: "wrote s (finode f) ?p buff s' ino'" by (simp only: append_take_drop_id)
    have res: "write_loop buff modified f s = Some (modified \<or> (m \<or> m'), f\<lparr>finode := ino', file_ptr := file_ptr f + of_nat (length buff)\<rparr>, s')"
      unfolding step r(1) len [symmetric] by (simp add: add.assoc)
    have "\<not> (m \<or> m') \<longrightarrow> ino' = finode f" using r(4) w(4) by simp
    with res r(2) wr show ?thesis by blast
  qed
qed

lemma file_byte_cong:
  assumes "direct_ok s ino" "\<forall>c. valid_block c \<longrightarrow> content s' c = content s c" "p < 32768"
  shows "file_byte s' ino p = file_byte s ino p"
proof -
  have "p div 4096 < 8" using assms(3) by simp
  with assms(1) have "data_direct ino ! (p div 4096) \<noteq> 0 \<longrightarrow> data_block s (data_direct ino ! (p div 4096))" by (simp add: direct_ok_def)
  with assms(2) data_block_valid [of s "data_direct ino ! (p div 4096)"] show ?thesis by (auto simp: file_byte_def Let_def)
qed

lemma direct_ok_cong: "blocks_used s' = blocks_used s \<Longrightarrow> direct_ok s' ino = direct_ok s ino"
  by (simp add: direct_ok_def data_block_def)

lemma read_loop_ok:
  assumes "fs_inv s" "direct_ok s (finode f)" "unat (file_ptr f) + n \<le> 32768"
    and "\<forall>p. unat (file_ptr f) \<le> p \<and> p < unat (file_ptr f) + n \<longrightarrow> data_direct (finode f) ! (p div 4096) \<noteq> 0"
    and "itype (finode f) = 2 \<longrightarrow> n = 0 \<or> unat (file_ptr f) + n \<le> unat (isize (finode f))"
  shows "\<exists>s'. read_loop n acc modified f s =
      Some (acc @ map (file_byte s (finode f)) [unat (file_ptr f) ..< unat (file_ptr f) + n], modified,
        f\<lparr>file_ptr := file_ptr f + of_nat n\<rparr>, s') \<and> fs_inv s' \<and> (\<forall>c. valid_block c \<longrightarrow> content s' c = content s c)"
  using assms
proof (induction n arbitrary: acc f s rule: less_induct)
  case (less n)
  show ?case
  proof (cases "n = 0")
    case True
    with less.prems show ?thesis by (simp add: read_loop.simps)
  next
    case False
    let ?p = "unat (file_ptr f)" and ?k = "min (BLOCK_SIZE - unat (file_ptr f) mod BLOCK_SIZE) n"
    have md: "?p mod BLOCK_SIZE < BLOCK_SIZE" by (simp add: fs_consts)
    have k: "0 < ?k" "?k \<le> n" using False md by auto
    have len: "?p mod 4096 + ?k \<le> 4096" using md by (simp add: fs_consts)
    have off: "?p < 32768" using less.prems(3) False by simp
    have b: "data_direct (finode f) ! (?p div 4096) \<noteq> 0" using less.prems(4) False by simp
    have up: "unat (file_ptr f + of_nat ?k) = ?p + ?k" using less.prems(3) k by (intro unat_add_small) simp
    have eof: "\<not> (isize (finode f) < file_ptr f + of_nat ?k \<and> itype (finode f) = 2)"
      using less.prems(5) False k up by (auto simp: word_less_nat_alt)
    obtain s1 where r: "inode_modify_data False (finode f) [] (file_ptr f) ?k s =
        Some (False, finode f, map (file_byte s (finode f)) [?p ..< ?p + ?k], s1)" "fs_inv s1"
      "\<forall>c. valid_block c \<longrightarrow> content s1 c = content s c" "blocks_used s1 = blocks_used s"
      by (rule modify_read_ok [OF less.prems(1,2) off len b eof])
    let ?f = "f\<lparr>file_ptr := file_ptr f + of_nat ?k\<rparr>"
    have d1: "direct_ok s1 (finode ?f)" using less.prems(2) direct_ok_cong [OF r(4)] by simp
    have step: "read_loop n acc modified f s = read_loop (n - ?k) (acc @ map (file_byte s (finode f)) [?p ..< ?p + ?k]) modified ?f s1"
      using r(1) False by (subst read_loop.simps) (simp add: Let_def)
    have pre: "unat (file_ptr ?f) + (n - ?k) \<le> 32768"
      "\<forall>p. unat (file_ptr ?f) \<le> p \<and> p < unat (file_ptr ?f) + (n - ?k) \<longrightarrow> data_direct (finode ?f) ! (p div 4096) \<noteq> 0"
      "itype (finode ?f) = 2 \<longrightarrow> n - ?k = 0 \<or> unat (file_ptr ?f) + (n - ?k) \<le> unat (isize (finode ?f))"
      using less.prems(3-5) up k False by auto
    have lt: "n - ?k < n" using k by simp
    obtain s' where
      r': "read_loop (n - ?k) (acc @ map (file_byte s (finode f)) [?p ..< ?p + ?k]) modified ?f s1 =
        Some ((acc @ map (file_byte s (finode f)) [?p ..< ?p + ?k]) @
            map (file_byte s1 (finode ?f)) [unat (file_ptr ?f) ..< unat (file_ptr ?f) + (n - ?k)], modified,
          ?f\<lparr>file_ptr := file_ptr ?f + of_nat (n - ?k)\<rparr>, s')" "fs_inv s'" "\<forall>c. valid_block c \<longrightarrow> content s' c = content s1 c"
      using less.IH [OF lt r(2) d1 pre, of "acc @ map (file_byte s (finode f)) [?p ..< ?p + ?k]"] by (elim exE conjE) (rule that)
    have fp: "unat (file_ptr ?f) = ?p + ?k" "unat (file_ptr ?f) + (n - ?k) = ?p + n" using up k by simp_all
    have same: "map (file_byte s1 (finode f)) [?p + ?k ..< ?p + n] = map (file_byte s (finode f)) [?p + ?k ..< ?p + n]"
      using file_byte_cong [OF less.prems(2) r(3)] less.prems(3) by simp
    have up3: "[?p ..< ?p + n] = [?p ..< ?p + ?k] @ [?p + ?k ..< ?p + n]"
      using upt_add_eq_append [of ?p "?p + ?k" "n - ?k"] k by simp
    have sum: "of_nat ?k + of_nat (n - ?k) = (of_nat n :: u32)" using k by (simp flip: of_nat_add)
    have "read_loop n acc modified f s = Some (acc @ map (file_byte s (finode f)) [?p ..< ?p + n], modified,
        f\<lparr>file_ptr := file_ptr f + of_nat n\<rparr>, s')"
      unfolding step r'(1) fp up3 map_append sum [symmetric] by (simp add: same add.assoc)
    with r'(2,3) r(3) show ?thesis by (intro exI [of _ s']) simp
  qed
qed

text \<open>A whole \<open>write\<close>: the loop, then the inode if it changed.\<close>

lemma file_write_ok:
  assumes w: "writable s (finode f)" and m: "fmode f AND O_WRONLY \<noteq> 0" and len: "unat (file_ptr f) + length buff \<le> 32768"
    and idx: "unat (inode_idx f) < 32768" and sync: "inode_at s (inode_idx f) = finode f"
  obtains ino s' where "file_write buff f s = Some (int (length buff), f\<lparr>finode := ino, file_ptr := file_ptr f + of_nat (length buff)\<rparr>, s')"
    "writable s' ino" "inode_at s' (inode_idx f) = ino"
    "\<forall>q<32768. file_byte s' ino q = (if unat (file_ptr f) \<le> q \<and> q < unat (file_ptr f) + length buff then buff ! (q - unat (file_ptr f)) else file_byte s (finode f) q)"
    "\<forall>q. unat (file_ptr f) \<le> q \<and> q < unat (file_ptr f) + length buff \<longrightarrow> data_direct ino ! (q div 4096) \<noteq> 0"
    "\<forall>c. data_block s c \<longrightarrow> c \<notin> set (data_direct (finode f)) \<longrightarrow> c \<notin> set (data_direct ino) \<and> content s' c = content s c"
    "\<forall>i. unat i < 32768 \<longrightarrow> i \<noteq> inode_idx f \<longrightarrow> inode_at s' i = inode_at s i"
    "itype (finode f) = 2 \<longrightarrow> unat (isize ino) = (if buff = [] then unat (isize (finode f)) else max (unat (isize (finode f))) (unat (file_ptr f) + length buff))"
    "itype ino = itype (finode f)"
proof -
  obtain md ino s1 where r: "write_loop buff False f s = Some (False \<or> md, f\<lparr>finode := ino, file_ptr := file_ptr f + of_nat (length buff)\<rparr>, s1)"
    "writable s1 ino" "wrote s (finode f) (unat (file_ptr f)) buff s1 ino" "\<not> md \<longrightarrow> ino = finode f"
    using write_loop_ok [OF w len, of False] by (elim exE conjE) (rule that)
  note d = wroteD [OF r(3)]
  have at: "inode_at s1 i = inode_at s i" if "unat i < 32768" for i
    using inode_pos [OF that] d(5) that by (simp add: inode_at_def)
  have dk: "direct_ok s1 ino" and iv: "fs_inv s1" using r(2) by (simp_all add: writable_def)
  obtain s2 where s2: "(if md then write_inode (inode_idx f) ino s1 else Some s1) = Some s2" "fs_inv s2" "inode_at s2 (inode_idx f) = ino"
    "\<forall>i. unat i < 32768 \<longrightarrow> i \<noteq> inode_idx f \<longrightarrow> inode_at s2 i = inode_at s1 i"
    "\<forall>b. valid_block b \<longrightarrow> 517 \<le> unat b \<longrightarrow> content s2 b = content s1 b" "blocks_used s2 = blocks_used s1"
  proof (cases md)
    case True
    have "inode_ok ino" using dk by (simp add: direct_ok_def)
    from write_inode_ok [OF iv idx this] True that show thesis by (metis (full_types))
  next
    case False
    with that [of s1] iv at [OF idx] sync r(4) show thesis by simp
  qed
  have db: "content s2 c = content s1 c" if "data_block s1 c" for c
    using s2(5) data_block_valid [OF that] that by (auto simp: data_block_def)
  have fb: "file_byte s2 ino q = file_byte s1 ino q" if "q < 32768" for q
  proof -
    have "q div 4096 < 8" using that by simp
    with dk db show ?thesis by (auto simp: file_byte_def Let_def direct_ok_def)
  qed
  have w2: "writable s2 ino"
    using r(2) s2(2,6) direct_ok_cong [OF s2(6), of ino] by (simp add: writable_def meta_used_def room_def free_blocks_def)
  have oth: "c \<notin> set (data_direct ino) \<and> content s2 c = content s c" if c: "data_block s c" "c \<notin> set (data_direct (finode f))" for c
  proof -
    have "data_block s1 c" using c(1) d(7) by (auto simp: data_block_def)
    with db d(4) [OF c] show ?thesis by simp
  qed
  have res: "file_write buff f s = Some (int (length buff), f\<lparr>finode := ino, file_ptr := file_ptr f + of_nat (length buff)\<rparr>, s2)"
    using m r(1) s2(1) by (cases md) (simp_all add: file_write_def)
  show thesis
    by (rule that [OF res w2 s2(3)]) (use fb d(1,2,9,11) oth s2(4) at in \<open>simp_all\<close>)
qed

section \<open>Properties\<close>

text \<open>
  C12: Bytes written to an open file are read back. With room on the card, a \<open>write\<close> that ends within the
  first 32 KiB of the file succeeds and returns its length; after \<open>lseek\<close> to where it began, a \<open>read\<close> of the same length returns
  the same bytes.
\<close>

theorem file_write_read:
  assumes "writable s (finode f)" "fmode f AND O_WRONLY \<noteq> 0" "fmode f AND O_RDONLY \<noteq> 0" "itype (finode f) = 2"
    and "unat (file_ptr f) + length buff \<le> 32768" "unat (inode_idx f) < 32768" "inode_at s (inode_idx f) = finode f"
  shows "\<exists>f1 s1 f3 s3. file_write buff f s = Some (int (length buff), f1, s1) \<and>
    file_read (length buff) (snd (file_lseek (int (unat (file_ptr f))) 0 f1)) s1 = Some (int (length buff), buff, f3, s3)"
proof -
  obtain ino s' where r: "file_write buff f s = Some (int (length buff), f\<lparr>finode := ino, file_ptr := file_ptr f + of_nat (length buff)\<rparr>, s')"
    "writable s' ino" "inode_at s' (inode_idx f) = ino"
    "\<forall>q<32768. file_byte s' ino q = (if unat (file_ptr f) \<le> q \<and> q < unat (file_ptr f) + length buff then buff ! (q - unat (file_ptr f)) else file_byte s (finode f) q)"
    "\<forall>q. unat (file_ptr f) \<le> q \<and> q < unat (file_ptr f) + length buff \<longrightarrow> data_direct ino ! (q div 4096) \<noteq> 0"
    "\<forall>c. data_block s c \<longrightarrow> c \<notin> set (data_direct (finode f)) \<longrightarrow> c \<notin> set (data_direct ino) \<and> content s' c = content s c"
    "\<forall>i. unat i < 32768 \<longrightarrow> i \<noteq> inode_idx f \<longrightarrow> inode_at s' i = inode_at s i"
    "itype (finode f) = 2 \<longrightarrow> unat (isize ino) = (if buff = [] then unat (isize (finode f)) else max (unat (isize (finode f))) (unat (file_ptr f) + length buff))"
    "itype ino = itype (finode f)"
    by (rule file_write_ok [OF assms(1,2,5,6,7)])
  let ?f = "f\<lparr>finode := ino\<rparr>"
  have ls: "snd (file_lseek (int (unat (file_ptr f))) 0 (f\<lparr>finode := ino, file_ptr := file_ptr f + of_nat (length buff)\<rparr>)) = ?f"
    by (simp add: file_lseek_def)
  have pre: "fs_inv s'" "direct_ok s' (finode ?f)" "unat (file_ptr ?f) + length buff \<le> 32768"
    "\<forall>p. unat (file_ptr ?f) \<le> p \<and> p < unat (file_ptr ?f) + length buff \<longrightarrow> data_direct (finode ?f) ! (p div 4096) \<noteq> 0"
    "itype (finode ?f) = 2 \<longrightarrow> length buff = 0 \<or> unat (file_ptr ?f) + length buff \<le> unat (isize (finode ?f))"
    using r(2,5,8,9) assms(4,5) by (auto simp: writable_def)
  have bytes: "map (file_byte s' ino) [unat (file_ptr f) ..< unat (file_ptr f) + length buff] = buff"
    by (rule nth_equalityI) (use r(4) assms(5) in simp_all)
  from read_loop_ok [OF pre, of "[]" False] bytes obtain s3 where
    "read_loop (length buff) [] False ?f s' = Some (buff, False, ?f\<lparr>file_ptr := file_ptr ?f + of_nat (length buff)\<rparr>, s3)" by auto
  with assms(3) have "file_read (length buff) ?f s' = Some (int (length buff), buff, ?f\<lparr>file_ptr := file_ptr ?f + of_nat (length buff)\<rparr>, s3)"
    by (simp add: file_read_def)
  with r(1) ls show ?thesis by fastforce
qed

text \<open>A card on which only the first 517 blocks are in use, and an empty file on it.\<close>

definition fs1 :: fs where
  "fs1 = fs0\<lparr>sd := (\<lambda>sec i. if sec = 262160 \<and> i < 65 then (if i < 64 then 0xff else 0x1f) else 0)\<rparr>"

definition empty_file :: inode where
  "empty_file = \<lparr>itype = 2, imode = 0, link_cnt = 1, isize = 0, data_direct = replicate 8 0, data_l1 = replicate 3 0,
     data_l2 = replicate 2 0, data_l3 = 0\<rparr>"

lemma sector_2: "q < 8 \<Longrightarrow> 262144 + b * 8 + q = 262160 \<longleftrightarrow> b = 2 \<and> q = 0" for b q :: nat
  by presburger

lemma fs1_block:
  assumes "valid_block b"
  shows "content fs1 b = (if b = 2 then (\<lambda>i. if i < 64 then 0xff else if i = 64 then 0x1f else 0) else (\<lambda>_. 0))"
proof -
  have none: "slot_of fs1 b = None" using valid_not_free [OF assms] by (simp add: slot_of_None fs1_def fs0_def cache_init_def)
  have sec: "262144 + unat b * 8 + i div 512 = 262160 \<longleftrightarrow> b = 2 \<and> i < 512" if "i < 4096" for i
  proof -
    have lt: "i div 512 < 8" using that by simp
    have "262144 + unat b * 8 + i div 512 = 262160 \<longleftrightarrow> unat b = 2 \<and> i div 512 = 0" by (rule sector_2 [OF lt])
    also have "unat b = 2 \<longleftrightarrow> b = 2" by (simp add: word_unat_eq_iff)
    finally show ?thesis by auto
  qed
  have "content fs1 b i = (if b = 2 then (if i < 64 then 0xff else if i = 64 then 0x1f else 0) else 0)" for i
  proof (cases "i < 4096")
    case True
    have "content fs1 b i = sd fs1 (262144 + unat b * 8 + i div 512) (i mod 512)"
      using none True by (simp add: content_def card_block_def on_block_def unat_sector [OF assms] fs_consts)
    also have "\<dots> = (if b = 2 \<and> i < 512 \<and> i mod 512 < 65 then (if i mod 512 < 64 then 0xff else 0x1f) else 0)"
      by (simp add: fs1_def sec [OF True])
    also have "\<dots> = (if b = 2 then (if i < 64 then 0xff else if i = 64 then 0x1f else 0) else 0)" by auto
    finally show ?thesis .
  next
    case False
    then show ?thesis using none by (simp add: content_def card_block_def on_block_def fs_consts)
  qed
  then show ?thesis by (simp add: fun_eq_iff)
qed

lemma fs1_used: "blocks_used fs1 = {..< 517}"
proof -
  have v: "valid_block 2" "valid_block 3" "valid_block 4" by (simp_all add: valid_block_def fs_consts)
  have b1f: "bit (0x1f :: u8) k \<longleftrightarrow> k < 5" if "k < 8" for k
  proof -
    have "(0x1f :: u8) = mask 5" by (simp add: mask_eq_exp_minus_1)
    then show ?thesis using that by (simp only: bit_mask_iff) simp
  qed
  have low: "map_bit fs1 2 n \<longleftrightarrow> n < 517" if "n < 32768" for n
  proof -
    have m: "n mod 8 < 8" by simp
    have e: "n = n div 8 * 8 + n mod 8" by simp
    have "map_bit fs1 2 n \<longleftrightarrow> bit ((if n div 8 < 64 then 0xff else if n div 8 = 64 then 0x1f else 0) :: u8) (n mod 8)"
      using that fs1_block [OF v(1)] by (simp add: map_bit_def bit_at_def fs_consts)
    also have "\<dots> \<longleftrightarrow> n div 8 < 64 \<or> n div 8 = 64 \<and> n mod 8 < 5"
      using byte_full [of "0xff"] b1f [OF m] m by auto
    also have "\<dots> \<longleftrightarrow> n < 517" using e by linarith
    finally show ?thesis .
  qed
  have high: "\<not> map_bit fs1 2 n" if "32768 \<le> n" "n < 98304" for n
  proof -
    have "n div 32768 = 1 \<or> n div 32768 = 2" using that by linarith
    then show ?thesis using fs1_block [OF v(2)] fs1_block [OF v(3)] by (auto simp: map_bit_def bit_at_def fs_consts)
  qed
  have "(n < 98304 \<and> map_bit fs1 2 n) = (n < 517)" for n
    using low [of n] high [of n] by (cases "n < 32768") auto
  then show ?thesis by (simp only: blocks_used_def lessThan_def)
qed

lemma fs1_inv: "fs_inv fs1"
proof -
  have "cache_inv fs1" by (simp add: fs1_def fs0_def cache_init_def cache_inv_def cache_wf_def clean_def)
  moreover have "superblock fs1 = superblock fs0" by (simp add: fs1_def)
  ultimately show ?thesis by (simp add: fs_inv_def fs0_def cache_init_def layout_ok_def)
qed

lemma empty_file_ready:
  obtains s where "writable s empty_file" "inode_at s 3 = empty_file"
proof -
  have ok: "inode_ok empty_file" by (simp add: inode_ok_def empty_file_def layout_consts)
  have i: "unat (3 :: u32) < 32768" by simp
  obtain s where s: "fs_inv s" "inode_at s 3 = empty_file" "blocks_used s = blocks_used fs1"
    by (rule write_inode_ok [OF fs1_inv i ok])
  have "direct_ok s empty_file" using ok by (simp add: direct_ok_def) (simp add: empty_file_def)
  moreover have "meta_used s" using s(3) fs1_used by (simp add: meta_used_def)
  moreover have "room s empty_file"
  proof -
    have "{517 ..< 525} \<subseteq> free_blocks s" unfolding free_blocks_def s(3) fs1_used by (intro subsetI) simp
    then have "card {517 ..< 525 :: nat} \<le> card (free_blocks s)" by (rule card_mono [OF finite_holes(2)])
    moreover have "card (holes empty_file) \<le> card {..< 8 :: nat}" by (rule card_mono) (auto simp: holes_def)
    ultimately show ?thesis by (simp add: room_def)
  qed
  ultimately show thesis using that s by (simp add: writable_def)
qed

theorem file_write_read_witness:
  "\<exists>s f f1 s1 f3 s3. file_write [104, 105] f s = Some (2, f1, s1) \<and>
     file_read 2 (snd (file_lseek (int (unat (file_ptr f))) 0 f1)) s1 = Some (2, [104, 105], f3, s3)"
proof -
  obtain s where s: "writable s empty_file" "inode_at s 3 = empty_file" by (rule empty_file_ready)
  let ?f = "\<lparr>inode_idx = 3, fmode = 3, file_ptr = 4095, finode = empty_file\<rparr>"
  have l: "length [104, 105 :: u8] = 2" "int 2 = 2" by simp_all
  have "itype (finode ?f) = 2" by (simp add: empty_file_def)
  note pre = this
  have "\<exists>f1 s1 f3 s3. file_write [104, 105] ?f s = Some (2, f1, s1) \<and>
     file_read 2 (snd (file_lseek (int (unat (file_ptr ?f))) 0 f1)) s1 = Some (2, [104, 105], f3, s3)"
    by (rule file_write_read [OF _ _ _ pre, of s "[104, 105]", unfolded l]) (use s in \<open>simp_all add: O_WRONLY_def O_RDONLY_def\<close>)
  then show ?thesis by blast
qed

text \<open>
  C29: A \<open>write\<close> that ends within the first 32 KiB of its file, the part in direct blocks, leaves the other files as they were: every other inode on the card, and the
  bytes in the first 32 KiB of every inode that has no direct block in common with the written one. Index blocks, which begin behind 32 KiB, are outside this statement.
\<close>

theorem file_write_isolated:
  assumes "writable s (finode f)" "fmode f AND O_WRONLY \<noteq> 0" "unat (file_ptr f) + length buff \<le> 32768"
    and "unat (inode_idx f) < 32768" "inode_at s (inode_idx f) = finode f"
    and "file_write buff f s = Some (r, f1, s1)"
  shows "inode_at s1 (inode_idx f) = finode f1 \<and>
    (\<forall>i. unat i < 32768 \<and> i \<noteq> inode_idx f \<longrightarrow> inode_at s1 i = inode_at s i) \<and>
    (\<forall>other q. direct_ok s other \<and> q < 32768 \<and> set (data_direct other) \<inter> set (data_direct (finode f)) \<subseteq> {0} \<longrightarrow>
       file_byte s1 other q = file_byte s other q)"
proof -
  obtain ino s' where r: "file_write buff f s = Some (int (length buff), f\<lparr>finode := ino, file_ptr := file_ptr f + of_nat (length buff)\<rparr>, s')"
    "writable s' ino" "inode_at s' (inode_idx f) = ino"
    "\<forall>c. data_block s c \<longrightarrow> c \<notin> set (data_direct (finode f)) \<longrightarrow> c \<notin> set (data_direct ino) \<and> content s' c = content s c"
    "\<forall>i. unat i < 32768 \<longrightarrow> i \<noteq> inode_idx f \<longrightarrow> inode_at s' i = inode_at s i"
    by (rule file_write_ok [OF assms(1-5)])
  have eq: "f1 = f\<lparr>finode := ino, file_ptr := file_ptr f + of_nat (length buff)\<rparr>" "s1 = s'" using r(1) assms(6) by simp_all
  have "file_byte s' other q = file_byte s other q"
    if o: "direct_ok s other" "q < 32768" "set (data_direct other) \<inter> set (data_direct (finode f)) \<subseteq> {0}" for other q
  proof -
    let ?b = "data_direct other ! (q div 4096)"
    have k: "q div 4096 < 8" using o(2) by simp
    then have mem: "?b \<in> set (data_direct other)" using o(1) by (simp add: direct_ok_def inode_ok_def layout_consts)
    have "content s' ?b = content s ?b" if "?b \<noteq> 0"
    proof -
      have "data_block s ?b" using o(1) k that by (simp add: direct_ok_def)
      moreover have "?b \<notin> set (data_direct (finode f))" using o(3) mem that by blast
      ultimately show ?thesis using r(4) by blast
    qed
    then show ?thesis by (simp add: file_byte_def Let_def)
  qed
  with r(3,5) show ?thesis by (simp add: eq)
qed

theorem file_write_isolated_witness:
  "\<exists>s f r f1 s1. file_write [104, 105] f s = Some (r, f1, s1) \<and> inode_at s1 7 = inode_at s 7"
proof -
  obtain s where s: "writable s empty_file" "inode_at s 3 = empty_file" by (rule empty_file_ready)
  let ?f = "\<lparr>inode_idx = 3, fmode = 3, file_ptr = 4095, finode = empty_file\<rparr>"
  have pre: "writable s (finode ?f)" "fmode ?f AND O_WRONLY \<noteq> 0" "unat (file_ptr ?f) + length [104, 105 :: u8] \<le> 32768"
    "unat (inode_idx ?f) < 32768" "inode_at s (inode_idx ?f) = finode ?f" using s by (simp_all add: O_WRONLY_def)
  obtain ino s' where w: "file_write [104, 105] ?f s =
      Some (int (length [104, 105 :: u8]), ?f\<lparr>finode := ino, file_ptr := file_ptr ?f + of_nat (length [104, 105 :: u8])\<rparr>, s')"
    by (rule file_write_ok [OF pre])
  from file_write_isolated [OF pre w] have "inode_at s' 7 = inode_at s 7" by simp
  with w show ?thesis by blast
qed

end
