(* ===== verification/Dir.thy ===== *)
theory Dir
  imports File Kobj
begin

text \<open>
  Directories and the file system calls of \<open>fs/fs.cpp\<close> and \<open>fs/file.cpp\<close>. A path is a C string, given as
  its bytes without the terminating 0. The text that the calls print is left out, except for \<open>ls\<close> and \<open>cat\<close>,
  whose output is their result.
\<close>

section \<open>Lookup and creation\<close>

text \<open>\<open>strcmp\<close> of the bytes at \<open>off\<close> with a string is 0.\<close>

fun str_eq :: "bytes \<Rightarrow> nat \<Rightarrow> u8 list \<Rightarrow> bool" where
  "str_eq d off [] = (d off = 0)"
| "str_eq d off (c # cs) = (d off = c \<and> str_eq d (Suc off) cs)"

definition entry_inode :: "bytes \<Rightarrow> nat \<Rightarrow> u32" where
  "entry_inode d j = word_at d (8 * j)"

definition entry_valid :: "bytes \<Rightarrow> nat \<Rightarrow> u32" where
  "entry_valid d j = word_at d (8 * j + 1)"

definition entry_is :: "bytes \<Rightarrow> nat \<Rightarrow> u8 list \<Rightarrow> bool" where
  "entry_is d j path \<longleftrightarrow> entry_valid d j \<noteq> 0 \<and> str_eq d (32 * j + 8) path"

text \<open>The loop over the entries of one block: \<open>Inl\<close> is the return with the inode, \<open>Inr\<close> the free offset so far.\<close>

fun scan_entries :: "bytes \<Rightarrow> u8 list \<Rightarrow> nat \<Rightarrow> nat list \<Rightarrow> nat \<Rightarrow> u32 + nat" where
  "scan_entries d path i [] free_offset = Inr free_offset"
| "scan_entries d path i (j # js) free_offset =
     (if entry_is d j path then Inl (entry_inode d j)
      else if entry_valid d j = 0 \<and> free_offset = 0 then scan_entries d path i js (i * DIRENTRY_PER_BLOCK + j)
      else scan_entries d path i js free_offset)"

fun scan_dir :: "u8 list \<Rightarrow> inode \<Rightarrow> nat list \<Rightarrow> nat \<Rightarrow> fs \<Rightarrow> ((u32 + nat) \<times> fs) option" where
  "scan_dir path dir [] free_offset s = Some (Inr free_offset, s)"
| "scan_dir path dir (i # is) free_offset s =
     (if data_direct dir ! i \<noteq> 0
      then do {
        (block, s) \<leftarrow> Block (data_direct dir ! i) s;
        (case scan_entries (cache_data s block) path i [0 ..< DIRENTRY_PER_BLOCK] free_offset of
           Inl n \<Rightarrow> Some (Inl n, s)
         | Inr free_offset \<Rightarrow> scan_dir path dir is free_offset s)
      }
      else scan_dir path dir is free_offset s)"

definition hole_offset :: "inode \<Rightarrow> nat" where
  "hole_offset dir =
     (case List.find (\<lambda>i. data_direct dir ! i = 0) [0 ..< INODE_DATA_DIRECT] of
        Some i \<Rightarrow> i * DIRENTRY_PER_BLOCK | None \<Rightarrow> 0)"

definition zero_inode :: inode where
  "zero_inode = \<lparr>itype = 0, imode = 0, link_cnt = 0, isize = 0, data_direct = replicate 8 0, data_l1 = replicate 3 0,
     data_l2 = replicate 2 0, data_l3 = 0\<rparr>"

text \<open>
  A new entry: \<open>strcpy\<close> into the 24 bytes of the name of a zeroed entry. A longer path runs over the
  entry on the stack; that is \<open>None\<close>.
\<close>

definition new_entry :: "u32 \<Rightarrow> u8 list \<Rightarrow> dir_entry option" where
  "new_entry n path =
     (if length path < 24 then Some \<lparr>dinode = n, dvalid = 1, dname = path @ replicate (24 - length path) 0\<rparr> else None)"

definition get_inode_by_filename :: "u8 list \<Rightarrow> bool \<Rightarrow> u32 \<Rightarrow> fs \<Rightarrow> (int \<times> fs) option" where
  "get_inode_by_filename path create new_inode_idx s = do {
     (dir, s) \<leftarrow> read_inode (cwd s) s;
     (found, s) \<leftarrow> scan_dir path dir [0 ..< INODE_DATA_DIRECT] 0 s;
     (case found of
        Inl n \<Rightarrow> Some (sint n, s)
      | Inr free_offset \<Rightarrow> do {
          let free_offset = (if free_offset = 0 then hole_offset dir else free_offset);
          if \<not> create then Some (- 1, s)
          else do {
            (n, s) \<leftarrow>
              (if new_inode_idx = 0
               then do {
                 (n, s) \<leftarrow> inode_alloc s;
                 s \<leftarrow> write_inode n zero_inode s;
                 Some (n, s)
               }
               else Some (new_inode_idx, s));
            e \<leftarrow> new_entry n path;
            (_, dir, _, s) \<leftarrow> inode_modify_data True dir (dir_bytes e) (of_nat (free_offset * DIRENTRY_SIZE)) DIRENTRY_SIZE s;
            let dir = dir\<lparr>isize := isize dir + 1\<rparr>;
            s \<leftarrow> write_inode (cwd s) dir s;
            Some (sint n, s)
          }
        })
   }"

fun remove_entry :: "u8 list \<Rightarrow> inode \<Rightarrow> nat list \<Rightarrow> fs \<Rightarrow> fs option" where
  "remove_entry path dir [] s = None"
| "remove_entry path dir (i # is) s =
     (if data_direct dir ! i \<noteq> 0
      then do {
        (block, s) \<leftarrow> Block (data_direct dir ! i) s;
        (case List.find (\<lambda>j. entry_is (cache_data s block) j path) [0 ..< DIRENTRY_PER_BLOCK] of
           None \<Rightarrow> remove_entry path dir is s
         | Some j \<Rightarrow> do {
             s \<leftarrow> update block (set_data block (store_bytes (32 * j + 4) (u32_bytes 0)) s);
             write_inode (cwd s) (dir\<lparr>isize := isize dir - 1\<rparr>) s
           })
      }
      else remove_entry path dir is s)"

definition remove_inode_by_filename :: "u8 list \<Rightarrow> fs \<Rightarrow> fs option" where
  "remove_inode_by_filename path s = do {
     (dir, s) \<leftarrow> read_inode (cwd s) s;
     remove_entry path dir [0 ..< INODE_DATA_DIRECT] s
   }"

section \<open>The calls on paths\<close>

text \<open>\<open>split_path\<close>: the part before the first slash and what follows it.\<close>

definition slash :: u8 where "slash = 0x2f"

definition split_path :: "u8 list \<Rightarrow> u8 list \<times> u8 list" where
  "split_path path = (takeWhile (\<lambda>c. c \<noteq> slash) path, drop 1 (dropWhile (\<lambda>c. c \<noteq> slash) path))"

lemma split_path_shorter: "path \<noteq> [] \<Longrightarrow> length (snd (split_path path)) < length path"
proof -
  assume "path \<noteq> []"
  then have "0 < length path" by simp
  moreover have "length (dropWhile (\<lambda>c. c \<noteq> slash) path) \<le> length path" by (rule length_dropWhile_le)
  ultimately have "length (dropWhile (\<lambda>c. c \<noteq> slash) path) - 1 < length path" by linarith
  then show ?thesis by (simp add: split_path_def)
qed

text \<open>
  The components go through a buffer of 64 bytes; a longer one overruns it, which is \<open>None\<close>. On a
  failure the directory that was current at the start is set again.
\<close>

function cd_loop :: "u32 \<Rightarrow> u8 list \<Rightarrow> fs \<Rightarrow> (int \<times> fs) option" where
  "cd_loop old_cwd path s =
     (if path = [] then Some (0, s)
      else let (name, rest) = split_path path
           in do {
             kassert (length name < 64);
             (n, s) \<leftarrow> get_inode_by_filename name False 0 s;
             let s = s\<lparr>cwd := of_int n\<rparr>;
             if sint (cwd s) < 0 then Some (- 1, s\<lparr>cwd := old_cwd\<rparr>)
             else do {
               (inode, s) \<leftarrow> read_inode (cwd s) s;
               if itype inode \<noteq> 1 then Some (- 1, s\<lparr>cwd := old_cwd\<rparr>)
               else cd_loop old_cwd rest s
             }
           })"
  by pat_completeness auto
termination
  by (relation "measure (\<lambda>(old_cwd, path, s). length path)") (auto, metis snd_conv split_path_shorter)

declare cd_loop.simps [simp del]

definition fs_cd :: "u8 list \<Rightarrow> fs \<Rightarrow> (int \<times> fs) option" where
  "fs_cd path s = cd_loop (cwd s) path s"

fun ls_entries :: "bool \<Rightarrow> nat \<Rightarrow> nat list \<Rightarrow> fs \<Rightarrow> ((u8 list \<times> inode option) list \<times> fs) option" where
  "ls_entries opt_l block [] s = Some ([], s)"
| "ls_entries opt_l block (j # js) s =
     (if entry_valid (cache_data s block) j \<noteq> 0
      then do {
        (n, s) \<leftarrow> (if opt_l
                 then do { (n, s) \<leftarrow> read_inode (entry_inode (cache_data s block) j) s; Some (Some n, s) }
                 else Some (None, s));
        let name = load_bytes (cache_data s block) (32 * j + 8) 24;
        (out, s) \<leftarrow> ls_entries opt_l block js s;
        Some ((name, n) # out, s)
      }
      else ls_entries opt_l block js s)"

fun ls_blocks :: "bool \<Rightarrow> inode \<Rightarrow> nat list \<Rightarrow> fs \<Rightarrow> ((u8 list \<times> inode option) list \<times> fs) option" where
  "ls_blocks opt_l dir [] s = Some ([], s)"
| "ls_blocks opt_l dir (i # is) s =
     (if data_direct dir ! i \<noteq> 0
      then do {
        (block, s) \<leftarrow> Block (data_direct dir ! i) s;
        (out, s) \<leftarrow> ls_entries opt_l block [0 ..< DIRENTRY_PER_BLOCK] s;
        (out', s) \<leftarrow> ls_blocks opt_l dir is s;
        Some (out @ out', s)
      }
      else ls_blocks opt_l dir is s)"

definition fs_ls :: "u8 list \<Rightarrow> nat \<Rightarrow> fs \<Rightarrow> (int \<times> (u8 list \<times> inode option) list \<times> fs) option" where
  "fs_ls path option s = do {
     let old_cwd = cwd s;
     (r, s) \<leftarrow> fs_cd path s;
     if r = - 1 then Some (- 1, [], s\<lparr>cwd := old_cwd\<rparr>)
     else do {
       (inode, s) \<leftarrow> read_inode (cwd s) s;
       if itype inode \<noteq> 1 then Some (- 1, [], s\<lparr>cwd := old_cwd\<rparr>)
       else do {
         (out, s) \<leftarrow> ls_blocks (odd option) inode [0 ..< INODE_DATA_DIRECT] s;
         Some (0, out, s\<lparr>cwd := old_cwd\<rparr>)
       }
     }
   }"

text \<open>The two entries of a new directory, \<open>.\<close> and \<open>..\<close>.\<close>

definition dot_entries :: "u32 \<Rightarrow> u32 \<Rightarrow> u8 list" where
  "dot_entries self parent =
     dir_bytes \<lparr>dinode = self, dvalid = 1, dname = 0x2e # replicate 23 0\<rparr> @
     dir_bytes \<lparr>dinode = parent, dvalid = 1, dname = 0x2e # 0x2e # replicate 22 0\<rparr>"

definition fs_mkdir :: "u8 list \<Rightarrow> fs \<Rightarrow> (int \<times> fs) option" where
  "fs_mkdir path s = do {
     (n, s) \<leftarrow> get_inode_by_filename path True 0 s;
     if n < 0 then Some (- 1, s)
     else do {
       let ino = of_int n;
       (inode, s) \<leftarrow> read_inode ino s;
       if itype inode \<noteq> 0 then Some (- 1, s)
       else do {
         let inode = inode\<lparr>itype := 1, link_cnt := 1\<rparr>;
         (_, inode, _, s) \<leftarrow> inode_modify_data True inode (dot_entries ino (cwd s)) 0 (2 * DIRENTRY_SIZE) s;
         s \<leftarrow> write_inode ino inode s;
         Some (0, s)
       }
     }
   }"

definition fs_touch :: "u8 list \<Rightarrow> fs \<Rightarrow> (int \<times> fs) option" where
  "fs_touch path s = do {
     (n, s) \<leftarrow> get_inode_by_filename path True 0 s;
     if n < 0 then Some (- 1, s)
     else do {
       let ino = of_int n;
       (inode, s) \<leftarrow> read_inode ino s;
       if itype inode \<noteq> 0 then Some (- 1, s)
       else do {
         s \<leftarrow> write_inode ino (inode\<lparr>itype := 2, link_cnt := 1\<rparr>) s;
         Some (0, s)
       }
     }
   }"

text \<open>
  Freeing the blocks of an inode. The loop over an index block reads it through its slot, which by
  then may hold another block. The index blocks themselves are not freed.
\<close>

fun free_each :: "(u32 \<Rightarrow> fs \<Rightarrow> fs option) \<Rightarrow> nat \<Rightarrow> nat list \<Rightarrow> fs \<Rightarrow> fs option" where
  "free_each f block [] s = Some s"
| "free_each f block (i # is) s = do {
     s \<leftarrow> (if word_at (cache_data s block) i \<noteq> 0 then f (word_at (cache_data s block) i) s else Some s);
     free_each f block is s
   }"

primrec free_inode_blocks_recur :: "nat \<Rightarrow> u32 \<Rightarrow> fs \<Rightarrow> fs option" where
  "free_inode_blocks_recur 0 blockid s = (if blockid \<noteq> 0 then block_free blockid s else Some s)"
| "free_inode_blocks_recur (Suc depth) blockid s = do {
     (block, s) \<leftarrow> Block blockid s;
     free_each (free_inode_blocks_recur depth) block [0 ..< BLOCK_SIZE div 4] s
   }"

fun free_list :: "nat \<Rightarrow> u32 list \<Rightarrow> fs \<Rightarrow> fs option" where
  "free_list depth [] s = Some s"
| "free_list depth (b # bs) s = do {
     s \<leftarrow> (if b \<noteq> 0 then free_inode_blocks_recur depth b s else Some s);
     free_list depth bs s
   }"

definition free_inode_blocks :: "inode \<Rightarrow> fs \<Rightarrow> fs option" where
  "free_inode_blocks inode s = do {
     s \<leftarrow> free_list 0 (data_direct inode) s;
     s \<leftarrow> free_list 1 (data_l1 inode) s;
     s \<leftarrow> free_list 2 (data_l2 inode) s;
     free_list 3 [data_l3 inode] s
   }"

text \<open>The common end of \<open>rm\<close> and \<open>rmdir\<close>.\<close>

definition unlink :: "u8 list \<Rightarrow> u32 \<Rightarrow> inode \<Rightarrow> fs \<Rightarrow> (int \<times> fs) option" where
  "unlink path ino inode s = do {
     s \<leftarrow> remove_inode_by_filename path s;
     let inode = inode\<lparr>link_cnt := link_cnt inode - 1\<rparr>;
     if link_cnt inode \<noteq> 0
     then do { s \<leftarrow> write_inode ino inode s; Some (0, s) }
     else do {
       s \<leftarrow> free_inode_blocks inode s;
       s \<leftarrow> inode_free ino s;
       Some (0, s)
     }
   }"

definition fs_rm :: "u8 list \<Rightarrow> fs \<Rightarrow> (int \<times> fs) option" where
  "fs_rm path s = do {
     (n, s) \<leftarrow> get_inode_by_filename path False 0 s;
     if n < 0 then Some (- 1, s)
     else do {
       (inode, s) \<leftarrow> read_inode (of_int n) s;
       if itype inode \<noteq> 2 then Some (- 1, s) else unlink path (of_int n) inode s
     }
   }"

definition fs_rmdir :: "u8 list \<Rightarrow> fs \<Rightarrow> (int \<times> fs) option" where
  "fs_rmdir path s = do {
     (n, s) \<leftarrow> get_inode_by_filename path False 0 s;
     if n < 0 then Some (- 1, s)
     else do {
       (inode, s) \<leftarrow> read_inode (of_int n) s;
       if itype inode \<noteq> 1 then Some (- 1, s)
       else if isize inode \<noteq> 0 then Some (- 1, s)
       else unlink path (of_int n) inode s
     }
   }"

definition fs_ln :: "u8 list \<Rightarrow> u8 list \<Rightarrow> fs \<Rightarrow> (int \<times> fs) option" where
  "fs_ln src_path dst_path s = do {
     (src, s) \<leftarrow> get_inode_by_filename src_path False 0 s;
     if src < 0 then Some (- 1, s)
     else do {
       (dst, s) \<leftarrow> get_inode_by_filename dst_path True (of_int src) s;
       if dst < 0 then Some (- 1, s)
       else do {
         (inode, s) \<leftarrow> read_inode (of_int src) s;
         s \<leftarrow> write_inode (of_int src) (inode\<lparr>link_cnt := link_cnt inode + 1\<rparr>) s;
         Some (0, s)
       }
     }
   }"

section \<open>Making and mounting the file system\<close>

definition mkfs_superblock :: "super_block \<Rightarrow> super_block" where
  "mkfs_superblock sb =
     (let imap = 1;
          bmap = imap + of_nat (MAX_INODE_NUM div (8 * BLOCK_SIZE));
          istart = bmap + of_nat (MAX_BLOCK_NUM div (8 * BLOCK_SIZE));
          bstart = istart + of_nat (MAX_INODE_NUM div INODE_PER_BLOCK)
      in sb\<lparr>magic0 := SUPERBLOCK_MAGIC, fs_start := of_nat BLOCK_START, inode_map_start_block := imap,
            inode_map_size := of_nat MAX_INODE_NUM, inode_allocated := 0, inode_free_min := 0,
            block_map_start_block := bmap, block_map_size := of_nat MAX_BLOCK_NUM, inode_start_block := istart,
            block_start_block := bstart, block_allocated := bstart, block_free_min := bstart + 1,
            magic1 := SUPERBLOCK_MAGIC\<rparr>)"

definition clear_block :: "bytes \<Rightarrow> bytes" where
  "clear_block d = (\<lambda>i. if i < BLOCK_SIZE then 0 else d i)"

fun clear_blocks :: "u32 list \<Rightarrow> fs \<Rightarrow> fs option" where
  "clear_blocks [] s = Some s"
| "clear_blocks (b # bs) s = do {
     (block, s) \<leftarrow> Block b s;
     s \<leftarrow> update block (set_data block clear_block s);
     clear_blocks bs s
   }"

text \<open>The first bits of the block map, set one by one.\<close>

definition mark_blocks :: "nat \<Rightarrow> bytes \<Rightarrow> bytes" where
  "mark_blocks n d = foldl (\<lambda>d i. d(i div 8 := d (i div 8) OR push_bit (i mod 8) 1)) d [0 ..< n]"

definition root_dir_inode :: inode where
  "root_dir_inode = zero_inode\<lparr>itype := 1, link_cnt := 65535\<rparr>"

definition fs_mkfs :: "fs \<Rightarrow> (int \<times> fs) option" where
  "fs_mkfs s = do {
     let s = s\<lparr>superblock := mkfs_superblock (superblock s)\<rparr>;
     let sb = superblock s;
     kassert (unat (block_start_block sb) < BLOCK_SIZE * 8);
     s \<leftarrow> clear_blocks (map (\<lambda>i. inode_map_start_block sb + of_nat i) [0 ..< unat (inode_map_size sb) div (8 * BLOCK_SIZE)]) s;
     (block, s) \<leftarrow> Block (block_map_start_block sb) s;
     let s = set_data block clear_block s;
     s \<leftarrow> update block (set_data block (mark_blocks (unat (block_start_block sb))) s);
     s \<leftarrow> clear_blocks (map (\<lambda>i. block_map_start_block sb + of_nat i) [1 ..< unat (block_map_size sb) div (8 * BLOCK_SIZE)]) s;
     (root, s) \<leftarrow> inode_alloc s;
     let s = s\<lparr>superblock := (superblock s)\<lparr>root_inode := root\<rparr>, cwd := root\<rparr>;
     s \<leftarrow> flush_superblock s;
     (_, inode, _, s) \<leftarrow> inode_modify_data True root_dir_inode (dot_entries (cwd s) (cwd s)) 0 (2 * DIRENTRY_SIZE) s;
     s \<leftarrow> write_inode (root_inode (superblock s)) inode s;
     Some (0, s)
   }"

definition init_filesystem :: "fs \<Rightarrow> (bool \<times> fs) option" where
  "init_filesystem s = do {
     let s = cache_init s;
     (block, s) \<leftarrow> Block 0 s;
     let sb = sb_of (load_bytes (cache_data s block) 0 56);
     if magic0 sb = SUPERBLOCK_MAGIC \<and> magic1 sb = SUPERBLOCK_MAGIC
     then Some (True, s\<lparr>superblock := sb, cwd := root_inode sb\<rparr>)
     else do {
       (_, s) \<leftarrow> fs_mkfs s;
       Some (False, s)
     }
   }"

section \<open>Output of a file\<close>

lemma modify_isize:
  "inode_modify_data w inode ub offset len s = Some (m, inode', ub', s') \<Longrightarrow>
     isize inode' = (if isize inode < offset + of_nat len \<and> itype inode = 2 then offset + of_nat len else isize inode)"
  by (auto simp: inode_modify_data_def Let_def kassert_def bind_Some_iff split: if_splits)

text \<open>
  The loop of \<open>cat\<close>: it prints the buffer up to its first 0 each time, whatever was read; a buffer with no 0 is
  read past its end, which is \<open>None\<close>.
\<close>

function cat_loop :: "nat \<Rightarrow> u8 list \<Rightarrow> inode \<Rightarrow> fs \<Rightarrow> (u8 list \<times> u8 list \<times> fs) option" where
  "cat_loop offset cat_buffer inode s =
     (if offset < unat (isize inode)
      then let read_size = min BLOCK_SIZE (unat (isize inode) - offset)
           in do {
             (_, inode, got, s) \<leftarrow> inode_modify_data False inode (take read_size cat_buffer) (of_nat offset) read_size s;
             let cat_buffer = got @ drop read_size cat_buffer;
             kassert (0 \<in> set cat_buffer);
             (out, last_buffer, s) \<leftarrow> cat_loop (offset + read_size) cat_buffer inode s;
             Some (takeWhile (\<lambda>c. c \<noteq> 0) cat_buffer @ out, last_buffer, s)
           }
      else Some ([], cat_buffer, s))"
  by pat_completeness auto
termination
proof (relation "measure (\<lambda>(offset, cat_buffer, inode, s). unat (isize inode) - offset)", goal_cases)
  case (2 offset cat_buffer inode s rs x a y b ub s' buf u)
  have rs: "rs = min BLOCK_SIZE (unat (isize inode) - offset)" using 2 by simp
  have "unat (of_nat offset + of_nat rs :: u32) \<le> unat (isize inode)"
  proof -
    have le: "offset + rs \<le> unat (isize inode)" using 2(1) rs by linarith
    then have "offset + rs < 2 ^ 32" using unsigned_less [of "isize inode", where 'a = nat] by simp
    then have "unat (of_nat (offset + rs) :: u32) = offset + rs" by (simp only: unat_of_nat) simp
    with le show ?thesis by simp
  qed
  moreover have "inode_modify_data False inode (take rs cat_buffer) (of_nat offset) rs s = Some (a, b, fst ub, snd ub)"
    using 2(3-5) by (cases ub) simp
  ultimately have "isize b = isize inode" by (drule_tac modify_isize) (simp add: word_less_nat_alt)
  with 2(1) rs show ?case by (simp add: fs_consts)
qed simp

declare cat_loop.simps [simp del]

definition fs_cat :: "u8 list \<Rightarrow> u8 list \<Rightarrow> fs \<Rightarrow> (int \<times> u8 list \<times> u8 list \<times> fs) option" where
  "fs_cat path cat_buffer s = do {
     (n, s) \<leftarrow> get_inode_by_filename path False 0 s;
     if n < 0 then Some (- 1, [], cat_buffer, s)
     else do {
       (inode, s) \<leftarrow> read_inode (of_int n) s;
       if itype inode \<noteq> 2 then Some (- 1, [], cat_buffer, s)
       else do {
         (out, cat_buffer, s) \<leftarrow> cat_loop 0 cat_buffer inode s;
         Some (0, out, cat_buffer, s)
       }
     }
   }"

section \<open>Open files\<close>

text \<open>
  The pool of the open files, the objects and their counts, and the \<open>File\<close> objects by address. \<open>p\<close> is the
  current process and \<open>created\<close> the address of the \<open>File\<close> that \<open>new\<close> returns if it is called.
\<close>

record fcalls =
  filesys :: fs
  fpool :: id_pool
  fobjs :: kstate
  file_at :: "u64 \<Rightarrow> open_file"

definition fs_fopen :: "nat \<Rightarrow> u8 list \<Rightarrow> u32 \<Rightarrow> u64 \<Rightarrow> fcalls \<Rightarrow> (int \<times> fcalls) option" where
  "fs_fopen p path mode created c = do {
     (n, s) \<leftarrow> get_inode_by_filename path True 0 (filesys c);
     let ino = of_int n;
     (inode, s) \<leftarrow> read_inode ino s;
     if itype inode = 1 then Some (- 1, c\<lparr>filesys := s\<rparr>)
     else do {
       (inode, s) \<leftarrow>
         (if itype inode = 0
          then do {
            let inode = inode\<lparr>itype := 2, link_cnt := 1\<rparr>;
            s \<leftarrow> write_inode ino inode s;
            Some (inode, s)
          }
          else Some (inode, s));
       let files = (if trie_lookup (keymap (fpool c)) (unat ino) = None
                    then (file_at c)(created := \<lparr>inode_idx = ino, fmode = mode, file_ptr = 0, finode = inode\<rparr>)
                    else file_at c);
       (h, pool, k) \<leftarrow> id_init p (unat ino) created (fpool c) (fobjs c);
       Some (int h, c\<lparr>filesys := s, fpool := pool, fobjs := k, file_at := files\<rparr>)
     }
   }"

text \<open>\<open>get\<close> takes the descriptor as a \<open>size_t\<close>: a negative one is beyond the table.\<close>

definition file_of :: "int \<Rightarrow> fcalls \<Rightarrow> u64 option" where
  "file_of fd c = (if fd < 0 then None else id_get (nat fd) (fpool c))"

definition fs_fread :: "int \<Rightarrow> nat \<Rightarrow> fcalls \<Rightarrow> (int \<times> u8 list \<times> fcalls) option" where
  "fs_fread fd len c =
     (case file_of fd c of
        None \<Rightarrow> Some (- 1, [], c)
      | Some a \<Rightarrow> do {
          (r, buff, f, s) \<leftarrow> file_read len (file_at c a) (filesys c);
          Some (r, buff, c\<lparr>filesys := s, file_at := (file_at c)(a := f)\<rparr>)
        })"

definition fs_fwrite :: "int \<Rightarrow> u8 list \<Rightarrow> fcalls \<Rightarrow> (int \<times> fcalls) option" where
  "fs_fwrite fd buff c =
     (case file_of fd c of
        None \<Rightarrow> Some (- 1, c)
      | Some a \<Rightarrow> do {
          (r, f, s) \<leftarrow> file_write buff (file_at c a) (filesys c);
          Some (r, c\<lparr>filesys := s, file_at := (file_at c)(a := f)\<rparr>)
        })"

definition fs_lseek :: "int \<Rightarrow> int \<Rightarrow> int \<Rightarrow> fcalls \<Rightarrow> int \<times> fcalls" where
  "fs_lseek fd offset whence c =
     (case file_of fd c of
        None \<Rightarrow> (- 1, c)
      | Some a \<Rightarrow> (let (r, f) = file_lseek offset whence (file_at c a) in (r, c\<lparr>file_at := (file_at c)(a := f)\<rparr>)))"

text \<open>When the last process closes the file, the object is deleted and its destructor takes it out of the pool.\<close>

definition fs_fclose :: "nat \<Rightarrow> int \<Rightarrow> fcalls \<Rightarrow> int \<times> fcalls" where
  "fs_fclose p fd c =
     (case file_of fd c of
        None \<Rightarrow> (0, c)
      | Some a \<Rightarrow>
          (let k = id_close p (nat fd) (fpool c) (fobjs c);
               pool = (if alive (fobjs c) a \<and> \<not> alive k a then id_remove a (fpool c) else fpool c)
           in (0, c\<lparr>fpool := pool, fobjs := k\<rparr>)))"

end
