(* ===== verification/DirProofs.thy ===== *)
theory DirProofs
  imports Dir
begin

text \<open>
  A directory as a map from names to inodes. \<open>dir_lookup\<close> reads the entries of the current directory as one run of
  1024 entries over the bytes of the directory file; the lookup of the code refines it, creation adds one name,
  and removal takes one away.
\<close>

section \<open>Entries over the whole directory\<close>

definition dir_data :: "fs \<Rightarrow> bytes" where
  "dir_data s = file_byte s (inode_at s (cwd s))"

definition dir_find :: "bytes \<Rightarrow> u8 list \<Rightarrow> nat option" where
  "dir_find d path = List.find (\<lambda>k. entry_is d k path) [0 ..< 1024]"

definition dir_lookup :: "fs \<Rightarrow> u8 list \<Rightarrow> u32 option" where
  "dir_lookup s path = map_option (entry_inode (dir_data s)) (dir_find (dir_data s) path)"

text \<open>A name fits into an entry with its terminating 0.\<close>

definition name_ok :: "u8 list \<Rightarrow> bool" where
  "name_ok path \<longleftrightarrow> length path < 24 \<and> 0 \<notin> set path"

definition cwd_ok :: "fs \<Rightarrow> bool" where
  "cwd_ok s \<longleftrightarrow> unat (cwd s) < 32768 \<and> writable s (inode_at s (cwd s))"

lemma str_eq_cong: "(\<And>i. i \<le> length path \<Longrightarrow> d (off + i) = d' (off' + i)) \<Longrightarrow> str_eq d off path = str_eq d' off' path"
proof (induction path arbitrary: off off')
  case Nil
  from Nil [of 0] show ?case by simp
next
  case (Cons c cs)
  have "d off = d' off'" using Cons.prems [of 0] by simp
  moreover have "str_eq d (Suc off) cs = str_eq d' (Suc off') cs"
    by (rule Cons.IH) (use Cons.prems [of "Suc _"] in simp)
  ultimately show ?case by simp
qed

lemma word_at_cong: "(\<And>i. i < 4 \<Longrightarrow> d (4 * a + i) = d' (4 * b + i)) \<Longrightarrow> word_at d a = word_at d' b"
proof -
  assume a: "\<And>i. i < 4 \<Longrightarrow> d (4 * a + i) = d' (4 * b + i)"
  from a [of 0] a [of 1] a [of 2] a [of 3] show ?thesis by (simp add: word_at_def)
qed

lemma entry_cong:
  assumes "\<And>i. i < 32 \<Longrightarrow> d (32 * j + i) = d' (32 * k + i)"
  shows "entry_valid d j = entry_valid d' k" "entry_inode d j = entry_inode d' k"
    "length path < 24 \<Longrightarrow> entry_is d j path = entry_is d' k path"
proof -
  show v: "entry_valid d j = entry_valid d' k"
    unfolding entry_valid_def by (rule word_at_cong) (use assms [of "4 + _"] in \<open>simp add: algebra_simps\<close>)
  show "entry_inode d j = entry_inode d' k"
    unfolding entry_inode_def by (rule word_at_cong) (use assms in \<open>simp add: algebra_simps\<close>)
  assume l: "length path < 24"
  have "str_eq d (32 * j + 8) path = str_eq d' (32 * k + 8) path"
    by (rule str_eq_cong) (use assms [of "8 + _"] l in \<open>simp add: algebra_simps\<close>)
  with v show "entry_is d j path = entry_is d' k path" by (simp add: entry_is_def)
qed

lemma entry_pos:
  fixes i j m :: nat
  assumes "j < 128" "m < 32"
  shows "(32 * (128 * i + j) + m) div 4096 = i" "(32 * (128 * i + j) + m) mod 4096 = 32 * j + m"
proof -
  have e: "32 * (128 * i + j) + m = (32 * j + m) + i * 4096" by simp
  have l: "32 * j + m < 4096" using assms by linarith
  show "(32 * (128 * i + j) + m) div 4096 = i" unfolding e using l by (simp add: div_mult_self1)
  show "(32 * (128 * i + j) + m) mod 4096 = 32 * j + m" unfolding e using l by (simp add: mod_mult_self1)
qed

lemma entry_block:
  assumes "j < 128" "data_direct dir ! i \<noteq> 0"
  shows "m < 32 \<Longrightarrow> content s (data_direct dir ! i) (32 * j + m) = file_byte s dir (32 * (128 * i + j) + m)"
  using assms entry_pos [OF assms(1)] by (simp add: file_byte_def)

lemma entry_hole: "j < 128 \<Longrightarrow> data_direct dir ! i = 0 \<Longrightarrow> entry_valid (file_byte s dir) (128 * i + j) = 0"
proof -
  assume a: "j < 128" "data_direct dir ! i = 0"
  have "file_byte s dir (4 * (8 * (128 * i + j) + 1) + n) = 0" if "n < 4" for n
    using entry_pos(1) [OF a(1), of "4 + n" i] that a(2) by (simp add: file_byte_def algebra_simps)
  from this [of 0] this [of 1] this [of 2] this [of 3] show ?thesis
    by (simp add: entry_valid_def word_at_def u32_of_def)
qed

section \<open>The search\<close>

lemma find_append: "List.find P (xs @ ys) = (case List.find P xs of None \<Rightarrow> List.find P ys | Some x \<Rightarrow> Some x)"
  by (induction xs) auto

lemma find_map: "List.find P (map f xs) = map_option f (List.find (P \<circ> f) xs)"
  by (induction xs) auto

lemma find_cong: "(\<And>x. x \<in> set xs \<Longrightarrow> P x = Q x) \<Longrightarrow> List.find P xs = List.find Q xs"
  by (induction xs) auto

lemma find_concat_skip:
  "(\<And>i k. i \<in> set is \<Longrightarrow> \<not> c i \<Longrightarrow> k \<in> set (g i) \<Longrightarrow> \<not> P k) \<Longrightarrow>
     List.find P (concat (map (\<lambda>i. if c i then g i else []) is)) = List.find P (concat (map g is))"
proof (induction "is")
  case (Cons i "is")
  have "List.find P (g i) = None" if "\<not> c i" using Cons.prems that by (auto simp: find_None_iff)
  with Cons show ?case by (auto simp: find_append split: option.split)
qed simp

lemma concat_upt: "concat (map (\<lambda>i. map (\<lambda>j. n * i + j) [0 ..< n]) [0 ..< m]) = [0 ..< n * m]"
proof (induction m)
  case (Suc m)
  have "map (\<lambda>j. n * m + j) [0 ..< n] = [n * m ..< n * m + n]" by (rule nth_equalityI) simp_all
  moreover have "[0 ..< n * Suc m] = [0 ..< n * m] @ [n * m ..< n * m + n]"
    by (metis add.commute le0 mult_Suc_right upt_add_eq_append)
  ultimately show ?case using Suc by simp
qed simp

definition next_free :: "bytes \<Rightarrow> nat list \<Rightarrow> nat \<Rightarrow> nat" where
  "next_free d ks fo =
     (if fo \<noteq> 0 then fo else case List.find (\<lambda>k. entry_valid d k = 0 \<and> k \<noteq> 0) ks of Some k \<Rightarrow> k | None \<Rightarrow> 0)"

definition scan_result :: "bytes \<Rightarrow> u8 list \<Rightarrow> nat list \<Rightarrow> nat \<Rightarrow> u32 + nat" where
  "scan_result d path ks fo =
     (case List.find (\<lambda>k. entry_is d k path) ks of Some k \<Rightarrow> Inl (entry_inode d k) | None \<Rightarrow> Inr (next_free d ks fo))"

lemma next_free_append: "next_free d (xs @ ys) fo = next_free d ys (next_free d xs fo)"
proof (cases "List.find (\<lambda>k. entry_valid d k = 0 \<and> k \<noteq> 0) xs")
  case (Some k)
  then have "k \<noteq> 0" by (auto simp: find_Some_iff)
  with Some show ?thesis by (simp add: next_free_def find_append)
qed (simp add: next_free_def find_append)

lemma scan_result_append:
  "scan_result d path (xs @ ys) fo = (case scan_result d path xs fo of Inl n \<Rightarrow> Inl n | Inr fo \<Rightarrow> scan_result d path ys fo)"
  by (simp add: scan_result_def find_append next_free_append split: option.split)

lemma scan_entries_eq:
  assumes "\<And>j. j \<in> set js \<Longrightarrow> entry_is d j path = entry_is D (128 * i + j) path \<and> entry_valid d j = entry_valid D (128 * i + j) \<and>
      entry_inode d j = entry_inode D (128 * i + j)"
  shows "scan_entries d path i js fo = scan_result D path (map (\<lambda>j. 128 * i + j) js) fo"
  using assms
proof (induction js arbitrary: fo)
  case (Cons j js)
  have eq: "entry_is d j path = entry_is D (128 * i + j) path" "entry_valid d j = entry_valid D (128 * i + j)"
    "entry_inode d j = entry_inode D (128 * i + j)" using Cons.prems by simp_all
  have "scan_entries d path i js fo = scan_result D path (map (\<lambda>j. 128 * i + j) js) fo" for fo
    by (rule Cons.IH) (use Cons.prems in simp)
  then show ?case by (simp add: eq layout_consts) (auto simp: scan_result_def next_free_def mult.commute split: option.splits)
qed (simp add: scan_result_def next_free_def)

text \<open>A step that changes nothing but what is cached.\<close>

definition same :: "fs \<Rightarrow> fs \<Rightarrow> bool" where
  "same s s' \<longleftrightarrow> fs_inv s' \<and> (\<forall>b. valid_block b \<longrightarrow> content s' b = content s b) \<and> inodes_used s' = inodes_used s \<and>
     blocks_used s' = blocks_used s \<and> cwd s' = cwd s"

lemma same_trans: "same s s1 \<Longrightarrow> same s1 s2 \<Longrightarrow> same s s2"
  by (simp add: same_def)

lemma same_direct: "same s s' \<Longrightarrow> direct_ok s' ino = direct_ok s ino"
  by (simp add: same_def direct_ok_def data_block_def)

lemma same_inode: "same s s' \<Longrightarrow> unat ino < 32768 \<Longrightarrow> inode_at s' ino = inode_at s ino"
  by (rule inode_at_cong) (simp_all add: same_def)

lemma same_writable: "same s s' \<Longrightarrow> writable s ino \<Longrightarrow> writable s' ino"
  by (simp add: writable_def same_direct) (simp add: same_def meta_used_def room_def free_blocks_def)

lemma same_byte: "same s s' \<Longrightarrow> direct_ok s ino \<Longrightarrow> p < 32768 \<Longrightarrow> file_byte s' ino p = file_byte s ino p"
  by (rule file_byte_cong) (auto simp: same_def)

lemma read_inode_same:
  assumes "fs_inv s" "unat ino < 32768"
  obtains s' where "read_inode ino s = Some (inode_at s ino, s')" "same s s'"
  by (rule read_inode_ok [OF assms]) (simp add: same_def that)

lemma Block_same:
  assumes inv: "fs_inv s" and b: "valid_block b"
  obtains i s' where "Block b s = Some (i, s')" "same s s'" "on_block (cache_data s' i) = content s b" "slot_holds s' i b"
proof -
  have c: "cache_inv s" using inv by (simp add: fs_inv_def)
  obtain i s' where o: "Block b s = Some (i, s')" "cache_inv s'" "slot_holds s' i b" "on_block (cache_data s' i) = content s b"
    "\<forall>b'. valid_block b' \<longrightarrow> content s' b' = content s b'" "cache_state.more s' = cache_state.more s"
    using cache.open_block [OF c b] by blast
  have "same s s'" using fs_inv_frame [OF inv o(2,6)] o(5) frame_fs [OF o(6)] by (simp add: same_def)
  with that o show thesis by blast
qed

lemma entry_slot:
  assumes "on_block d = content s (data_direct dir ! i)" "j < 128" "data_direct dir ! i \<noteq> 0" "m < 32"
  shows "d (32 * j + m) = file_byte s dir (32 * (128 * i + j) + m)"
proof -
  have "32 * j + m < BLOCK_SIZE" using assms(2,4) by (simp add: fs_consts)
  then have "d (32 * j + m) = on_block d (32 * j + m)" by (simp add: on_block_def)
  also have "\<dots> = file_byte s dir (32 * (128 * i + j) + m)"
    unfolding assms(1) by (rule entry_block [OF assms(2,3,4)])
  finally show ?thesis .
qed

definition present :: "inode \<Rightarrow> nat list \<Rightarrow> nat list" where
  "present dir is = concat (map (\<lambda>i. if data_direct dir ! i \<noteq> 0 then map (\<lambda>j. 128 * i + j) [0 ..< 128] else []) is)"

lemma present_Cons: "present dir (i # is) = (if data_direct dir ! i \<noteq> 0 then map (\<lambda>j. 128 * i + j) [0 ..< 128] else []) @ present dir is"
  by (simp add: present_def)

lemma entry_is_same:
  assumes "\<And>p. p < 32768 \<Longrightarrow> d p = d' p" "k < 1024"
  shows "entry_valid d k = entry_valid d' k" "entry_inode d k = entry_inode d' k" "length path < 24 \<Longrightarrow> entry_is d k path = entry_is d' k path"
proof -
  have e: "d (32 * k + m) = d' (32 * k + m)" if "m < 32" for m by (rule assms(1)) (use assms(2) that in linarith)
  show "entry_valid d k = entry_valid d' k" "entry_inode d k = entry_inode d' k" "length path < 24 \<Longrightarrow> entry_is d k path = entry_is d' k path"
    using entry_cong [of d k d' k, OF e] by simp_all
qed

lemma scan_result_cong:
  assumes "\<And>p. p < 32768 \<Longrightarrow> d p = d' p" "\<And>k. k \<in> set ks \<Longrightarrow> k < 1024" "length path < 24"
  shows "scan_result d path ks fo = scan_result d' path ks fo"
proof -
  note e = entry_is_same [of d d', OF assms(1)]
  have "List.find (\<lambda>k. entry_is d k path) ks = List.find (\<lambda>k. entry_is d' k path) ks"
    "List.find (\<lambda>k. entry_valid d k = 0 \<and> k \<noteq> 0) ks = List.find (\<lambda>k. entry_valid d' k = 0 \<and> k \<noteq> 0) ks"
    by (rule find_cong, use e assms in simp)+
  moreover have "entry_inode d k = entry_inode d' k" if "List.find (\<lambda>k. entry_is d' k path) ks = Some k" for k
    using that e(2) assms(2) by (metis find_Some_iff nth_mem)
  ultimately show ?thesis by (auto simp: scan_result_def next_free_def split: option.split)
qed

lemma present_bound: "(\<And>i. i \<in> set is \<Longrightarrow> i < 8) \<Longrightarrow> k \<in> set (present dir is) \<Longrightarrow> k < 1024"
  by (fastforce simp: present_def split: if_splits)

lemma scan_dir_ok:
  assumes "fs_inv s" "direct_ok s dir" "length path < 24" "\<And>i. i \<in> set is \<Longrightarrow> i < 8"
  shows "\<exists>s'. scan_dir path dir is fo s = Some (scan_result (file_byte s dir) path (present dir is) fo, s') \<and> same s s'"
  using assms
proof (induction "is" arbitrary: fo s)
  case Nil
  then show ?case by (simp add: scan_result_def present_def next_free_def same_def)
next
  case (Cons i "is")
  have i: "i < 8" using Cons.prems(4) by simp
  show ?case
  proof (cases "data_direct dir ! i = 0")
    case True
    with Cons.IH [OF Cons.prems(1-3), of fo] Cons.prems(4) show ?thesis by (simp add: present_Cons)
  next
    case False
    let ?b = "data_direct dir ! i" and ?D = "file_byte s dir"
    have "valid_block ?b" using Cons.prems(2) i False data_block_valid by (auto simp: direct_ok_def)
    then obtain c s1 where o: "Block ?b s = Some (c, s1)" "same s s1" "on_block (cache_data s1 c) = content s ?b"
      by (rule Block_same [OF Cons.prems(1)])
    have "scan_entries (cache_data s1 c) path i [0 ..< 128] fo = scan_result ?D path (map (\<lambda>j. 128 * i + j) [0 ..< 128]) fo"
    proof (rule scan_entries_eq)
      fix j assume "j \<in> set [0 ..< 128 :: nat]"
      then have j: "j < 128" by simp
      from entry_cong [of "cache_data s1 c" j ?D "128 * i + j", OF entry_slot [OF o(3) j False]] Cons.prems(3)
      show "entry_is (cache_data s1 c) j path = entry_is ?D (128 * i + j) path \<and> entry_valid (cache_data s1 c) j = entry_valid ?D (128 * i + j) \<and>
        entry_inode (cache_data s1 c) j = entry_inode ?D (128 * i + j)" by blast
    qed
    note se = this
    have d1: "direct_ok s1 dir" "fs_inv s1" using same_direct [OF o(2)] Cons.prems(2) o(2) by (simp_all add: same_def)
    have sb: "file_byte s1 dir p = ?D p" if "p < 32768" for p by (rule same_byte [OF o(2) Cons.prems(2) that])
    have "\<exists>s'. scan_dir path dir is f s1 = Some (scan_result ?D path (present dir is) f, s') \<and> same s1 s'" for f
    proof -
      have "scan_result (file_byte s1 dir) path (present dir is) f = scan_result ?D path (present dir is) f"
        by (rule scan_result_cong [OF sb present_bound Cons.prems(3)]) (use Cons.prems(4) in auto)
      moreover have "\<And>i. i \<in> set is \<Longrightarrow> i < 8" using Cons.prems(4) by simp
      ultimately show ?thesis using Cons.IH [OF d1(2,1) Cons.prems(3), of f] by simp
    qed
    note ih = this
    show ?thesis
    proof (cases "scan_result ?D path (map (\<lambda>j. 128 * i + j) [0 ..< 128]) fo")
      case (Inl n)
      with False o(1,2) se show ?thesis by (simp add: present_Cons scan_result_append layout_consts)
    next
      case (Inr f)
      obtain s' where "scan_dir path dir is f s1 = Some (scan_result ?D path (present dir is) f, s')" "same s1 s'"
        using ih [of f] by blast
      with Inr False o(1) se same_trans [OF o(2)] show ?thesis by (simp add: present_Cons scan_result_append layout_consts)
    qed
  qed
qed

lemma find_present:
  "List.find (\<lambda>k. entry_is (file_byte s dir) k path) (present dir [0 ..< 8]) = dir_find (file_byte s dir) path"
proof -
  have hole: "\<not> entry_is (file_byte s dir) k path" if "data_direct dir ! i = 0" "128 * i \<le> k" "k < 128 + 128 * i" for i k
    using entry_hole [of "k - 128 * i" dir i s] that by (simp add: entry_is_def)
  have "List.find (\<lambda>k. entry_is (file_byte s dir) k path) (present dir [0 ..< 8]) =
    List.find (\<lambda>k. entry_is (file_byte s dir) k path) (concat (map (\<lambda>i. map (\<lambda>j. 128 * i + j) [0 ..< 128]) [0 ..< 8]))"
    unfolding present_def by (rule find_concat_skip) (use hole in auto)
  then show ?thesis by (simp add: concat_upt dir_find_def del: upt_conv_Cons)
qed

text \<open>The lookup of the code refines \<open>dir_lookup\<close>.\<close>

definition dir_readable :: "fs \<Rightarrow> bool" where
  "dir_readable s \<longleftrightarrow> unat (cwd s) < 32768 \<and> fs_inv s \<and> direct_ok s (inode_at s (cwd s))"

lemma cwd_readable: "cwd_ok s \<Longrightarrow> dir_readable s"
  by (simp add: cwd_ok_def writable_def dir_readable_def)

lemma scan_lookup:
  assumes "dir_readable s" "length path < 24"
  obtains s1 s' where "read_inode (cwd s) s = Some (inode_at s (cwd s), s1)"
    "scan_dir path (inode_at s (cwd s)) [0 ..< INODE_DATA_DIRECT] 0 s1 =
      Some (case dir_lookup s path of Some n \<Rightarrow> Inl n | None \<Rightarrow> Inr (next_free (dir_data s) (present (inode_at s (cwd s)) [0 ..< 8]) 0), s')"
    "same s s'"
proof -
  let ?dir = "inode_at s (cwd s)"
  have inv: "fs_inv s" "direct_ok s ?dir" and c: "unat (cwd s) < 32768" using assms(1) by (auto simp: dir_readable_def)
  obtain s1 where s1: "read_inode (cwd s) s = Some (?dir, s1)" "same s s1" by (rule read_inode_same [OF inv(1) c])
  have i1: "fs_inv s1" "direct_ok s1 ?dir" using s1(2) inv same_direct [OF s1(2)] by (simp_all add: same_def)
  obtain s2 where s2: "scan_dir path ?dir [0 ..< 8] 0 s1 = Some (scan_result (file_byte s1 ?dir) path (present ?dir [0 ..< 8]) 0, s2)" "same s1 s2"
    using scan_dir_ok [OF i1 assms(2), of "[0 ..< 8]" 0] by auto
  have "scan_result (file_byte s1 ?dir) path (present ?dir [0 ..< 8]) 0 = scan_result (file_byte s ?dir) path (present ?dir [0 ..< 8]) 0"
    by (rule scan_result_cong [OF same_byte [OF s1(2) inv(2)] present_bound assms(2)]) auto
  also have "\<dots> = (case dir_lookup s path of Some n \<Rightarrow> Inl n | None \<Rightarrow> Inr (next_free (dir_data s) (present ?dir [0 ..< 8]) 0))"
    unfolding scan_result_def find_present dir_lookup_def dir_data_def by (simp split: option.split)
  finally show thesis using that [OF s1(1) _ same_trans [OF s1(2) s2(2)]] s2(1) by (simp add: INODE_DATA_DIRECT_def del: upt_conv_Cons)
qed

lemma lookup_ok:
  assumes "cwd_ok s" "length path < 24"
  obtains s' where "get_inode_by_filename path False i s = Some (case dir_lookup s path of Some n \<Rightarrow> sint n | None \<Rightarrow> - 1, s')" "same s s'"
proof -
  obtain s1 s' where r: "read_inode (cwd s) s = Some (inode_at s (cwd s), s1)"
    "scan_dir path (inode_at s (cwd s)) [0 ..< INODE_DATA_DIRECT] 0 s1 =
      Some (case dir_lookup s path of Some n \<Rightarrow> Inl n | None \<Rightarrow> Inr (next_free (dir_data s) (present (inode_at s (cwd s)) [0 ..< 8]) 0), s')"
    "same s s'" by (rule scan_lookup [OF cwd_readable [OF assms(1)] assms(2)])
  show thesis by (rule that [OF _ r(3)]) (unfold get_inode_by_filename_def r(1), simp add: r(2) split: option.split)
qed

section \<open>Creation\<close>

text \<open>No name is there twice.\<close>

definition names_unique :: "bytes \<Rightarrow> bool" where
  "names_unique D \<longleftrightarrow> (\<forall>p j k. name_ok p \<and> j < 1024 \<and> k < 1024 \<and> entry_is D j p \<and> entry_is D k p \<longrightarrow> j = k)"

text \<open>Where the new entry goes: a free place if there is one besides the first.\<close>

definition new_slot :: "fs \<Rightarrow> nat" where
  "new_slot s =
     (let dir = inode_at s (cwd s); fo = next_free (dir_data s) (present dir [0 ..< 8]) 0
      in if fo = 0 then hole_offset dir else fo)"

definition has_slot :: "fs \<Rightarrow> bool" where
  "has_slot s \<longleftrightarrow> (\<exists>k. 0 < k \<and> k < 1024 \<and> entry_valid (dir_data s) k = 0)"

lemma new_slot_free:
  assumes "has_slot s"
  shows "new_slot s < 1024" "entry_valid (dir_data s) (new_slot s) = 0"
proof -
  let ?dir = "inode_at s (cwd s)" and ?D = "dir_data s"
  let ?F = "List.find (\<lambda>k. entry_valid ?D k = 0 \<and> k \<noteq> 0) (present ?dir [0 ..< 8])"
  obtain k where k: "0 < k" "k < 1024" "entry_valid ?D k = 0" using assms by (auto simp: has_slot_def)
  have "new_slot s < 1024 \<and> entry_valid ?D (new_slot s) = 0"
  proof (cases ?F)
    case (Some m)
    then have m: "entry_valid ?D m = 0" "m \<noteq> 0" "m \<in> set (present ?dir [0 ..< 8])"
      by (auto simp only: find_Some_iff nth_mem)
    have "m < 1024" by (rule present_bound [OF _ m(3)]) simp
    moreover have "new_slot s = m" using Some m(2) by (simp add: new_slot_def next_free_def del: upt_conv_Cons)
    ultimately show ?thesis using m(1) by simp
  next
    case None
    let ?H = "List.find (\<lambda>i. data_direct ?dir ! i = 0) [0 ..< 8]"
    have "k \<notin> set (present ?dir [0 ..< 8])" using None k by (simp only: find_None_iff) blast
    moreover have "k \<in> set (present ?dir [0 ..< 8])" if "data_direct ?dir ! (k div 128) \<noteq> 0"
    proof -
      have "k = 128 * (k div 128) + k mod 128" "k div 128 < 8" "k mod 128 < 128" using k(2) by auto
      then show ?thesis using that unfolding present_def by (force simp del: upt_conv_Cons)
    qed
    moreover have "k div 128 < 8" using k(2) by auto
    ultimately obtain i where H: "?H = Some i"
      by (cases ?H) (auto simp: find_None_iff simp del: upt_conv_Cons)
    then have i: "i < 8" "data_direct ?dir ! i = 0" by (auto simp: find_Some_iff simp del: upt_conv_Cons)
    have e: "new_slot s = 128 * i"
      using None H by (simp add: new_slot_def next_free_def hole_offset_def layout_consts del: upt_conv_Cons)
    with i(1) entry_hole [of 0, OF _ i(2), of s] show ?thesis by (simp add: dir_data_def)
  qed
  then show "new_slot s < 1024" "entry_valid ?D (new_slot s) = 0" by simp_all
qed

lemma str_eq_name:
  "(\<And>i. i \<le> length path \<Longrightarrow> d (off + i) = (path @ [0]) ! i) \<Longrightarrow> 0 \<notin> set path \<Longrightarrow> 0 \<notin> set q \<Longrightarrow> str_eq d off q \<longleftrightarrow> q = path"
proof (induction q arbitrary: off path)
  case Nil
  from Nil(1) [of 0] Nil(2) show ?case by (cases path) auto
next
  case (Cons c q)
  show ?case
  proof (cases path)
    case Nil
    with Cons.prems(1) [of 0] Cons.prems(3) show ?thesis by auto
  next
    case (Cons b bs)
    have "d off = b" using Cons.prems(1) [of 0] \<open>path = b # bs\<close> by simp
    moreover have "str_eq d (Suc off) q \<longleftrightarrow> q = bs"
      by (rule Cons.IH) (use Cons.prems(1) [of "Suc _"] Cons.prems(2,3) \<open>path = b # bs\<close> in auto)
    ultimately show ?thesis using \<open>path = b # bs\<close> by auto
  qed
qed

lemma find_unique: "(\<And>j. j \<in> set xs \<Longrightarrow> P j \<longleftrightarrow> j = k) \<Longrightarrow> k \<in> set xs \<Longrightarrow> List.find P xs = Some k"
  by (induction xs) auto

definition patched :: "bytes \<Rightarrow> nat \<Rightarrow> u8 list \<Rightarrow> bytes \<Rightarrow> bool" where
  "patched D p bs D' \<longleftrightarrow> (\<forall>q<32768. D' q = (if p \<le> q \<and> q < p + length bs then bs ! (q - p) else D q))"

lemma patched_other:
  assumes "patched D (32 * k) bs D'" "length bs = 32" "j < 1024" "j \<noteq> k"
  shows "entry_valid D' j = entry_valid D j" "entry_inode D' j = entry_inode D j" "length path < 24 \<Longrightarrow> entry_is D' j path = entry_is D j path"
proof -
  have "D' (32 * j + m) = D (32 * j + m)" if "m < 32" for m
  proof -
    have "32 * j + m < 32768" "\<not> (32 * k \<le> 32 * j + m \<and> 32 * j + m < 32 * k + 32)" using assms(3,4) that by linarith+
    then show ?thesis using assms(1,2) unfolding patched_def by (metis (no_types, lifting))
  qed
  from entry_cong [of D' j D j, OF this] show "entry_valid D' j = entry_valid D j" "entry_inode D' j = entry_inode D j"
    "length path < 24 \<Longrightarrow> entry_is D' j path = entry_is D j path" by simp_all
qed

lemma patched_new:
  fixes path :: "u8 list" and n :: u32
  defines "bs \<equiv> dir_bytes \<lparr>dinode = n, dvalid = 1, dname = path @ replicate (24 - length path) 0\<rparr>"
  assumes D': "patched D (32 * k) bs D'" and k: "k < 1024" and p: "name_ok path" and q: "name_ok q"
  shows "entry_inode D' k = n" "entry_is D' k q \<longleftrightarrow> q = path" "length bs = 32"
proof -
  show len: "length bs = 32" using p by (simp add: bs_def dir_bytes_def name_ok_def)
  have at: "D' (32 * k + m) = bs ! m" if "m < 32" for m
  proof -
    have "32 * k + m < 32768" using k that by linarith
    then show ?thesis using D' that len by (simp add: patched_def)
  qed
  have w: "bs ! 0 = ucast n" "bs ! 1 = ucast (drop_bit 8 n)" "bs ! 2 = ucast (drop_bit 16 n)" "bs ! 3 = ucast (drop_bit 24 n)"
    "bs ! 4 = 1" "bs ! 5 = 0" "bs ! 6 = 0" "bs ! 7 = 0" for m
    by (simp_all add: bs_def dir_bytes_def u32_bytes_def eval_nat_numeral)
  have name: "bs ! (8 + m) = (path @ [0]) ! m" if "m \<le> length path" for m
    using that p by (simp add: bs_def dir_bytes_def u32_bytes_def nth_append name_ok_def)
  show "entry_inode D' k = n"
    using at [of 0] at [of 1] at [of 2] at [of 3] w by (simp add: entry_inode_def word_at_def)
  have v: "entry_valid D' k = 1"
    using at [of 4] at [of 5] at [of 6] at [of 7] w by (simp add: entry_valid_def word_at_def u32_of_def algebra_simps)
  have "str_eq D' (32 * k + 8) q \<longleftrightarrow> q = path"
  proof (rule str_eq_name)
    fix i assume i: "i \<le> length path"
    then have "8 + i < 32" using p by (simp add: name_ok_def)
    from at [OF this] name [OF i] show "D' (32 * k + 8 + i) = (path @ [0]) ! i" by (simp add: add.assoc)
  qed (use p q in \<open>simp_all add: name_ok_def\<close>)
  with v show "entry_is D' k q \<longleftrightarrow> q = path" by (simp add: entry_is_def)
qed

lemma patched_lookup:
  fixes path :: "u8 list" and n :: u32
  defines "bs \<equiv> dir_bytes \<lparr>dinode = n, dvalid = 1, dname = path @ replicate (24 - length path) 0\<rparr>"
  assumes D': "patched D (32 * k) bs D'" and k: "k < 1024" "entry_valid D k = 0" and p: "name_ok path" "dir_find D path = None"
    and q: "name_ok q"
  shows "map_option (entry_inode D') (dir_find D' q) = (if q = path then Some n else map_option (entry_inode D) (dir_find D q))"
proof -
  note new = patched_new [OF D' [unfolded bs_def] k(1) p(1) q]
  have len: "length bs = 32" using new(3) by (simp add: bs_def)
  note other = patched_other [OF D' len]
  have ql: "length q < 24" using q by (simp add: name_ok_def)
  show ?thesis
  proof (cases "q = path")
    case True
    have "\<not> entry_is D j path" if "j < 1024" for j using p(2) that by (auto simp: dir_find_def find_None_iff)
    then have "dir_find D' q = Some k"
      unfolding dir_find_def using other(3) [OF _ _ ql] new(2) k(1) True by (intro find_unique) (metis atLeastLessThan_iff set_upt, simp)
    with True new(1) show ?thesis by simp
  next
    case False
    have nk: "\<not> entry_is D k q" using k(2) by (simp add: entry_is_def)
    have "entry_is D' j q = entry_is D j q" if "j < 1024" for j using other(3) [OF that _ ql] new(2) False nk by (cases "j = k") auto
    then have eq: "dir_find D' q = dir_find D q" unfolding dir_find_def by (intro find_cong) simp
    have "entry_inode D' j = entry_inode D j" if "dir_find D q = Some j" for j
    proof -
      have "j < 1024" "entry_is D j q" using that by (auto simp: dir_find_def find_Some_iff)
      with nk other(2) show ?thesis by blast
    qed
    with False eq show ?thesis by (cases "dir_find D q") simp_all
  qed
qed

lemma patched_unique:
  fixes path :: "u8 list" and n :: u32
  defines "bs \<equiv> dir_bytes \<lparr>dinode = n, dvalid = 1, dname = path @ replicate (24 - length path) 0\<rparr>"
  assumes D': "patched D (32 * k) bs D'" and k: "k < 1024" and p: "name_ok path" "dir_find D path = None" and u: "names_unique D"
  shows "names_unique D'"
proof -
  have len: "length bs = 32" using patched_new(3) [OF D' [unfolded bs_def] k p(1) p(1)] by (simp add: bs_def)
  have none: "\<not> entry_is D j path" if "j < 1024" for j using p(2) that by (auto simp: dir_find_def find_None_iff)
  have "entry_is D' j q \<longleftrightarrow> (if j = k then q = path else entry_is D j q)" if "j < 1024" "name_ok q" for j q
    using patched_new(2) [OF D' [unfolded bs_def] k p(1) that(2)] patched_other(3) [OF D' len that(1)] that(2) by (simp add: name_ok_def)
  with none u show ?thesis unfolding names_unique_def by (metis (full_types))
qed

text \<open>Steps that leave the data blocks and the block map alone.\<close>

definition data_same :: "fs \<Rightarrow> fs \<Rightarrow> bool" where
  "data_same s s' \<longleftrightarrow> fs_inv s' \<and> (\<forall>b. valid_block b \<longrightarrow> 517 \<le> unat b \<longrightarrow> content s' b = content s b) \<and>
     blocks_used s' = blocks_used s \<and> cwd s' = cwd s"

lemma data_same_trans: "data_same s s1 \<Longrightarrow> data_same s1 s2 \<Longrightarrow> data_same s s2"
  by (simp add: data_same_def)

lemma same_data: "same s s' \<Longrightarrow> data_same s s'"
  by (simp add: same_def data_same_def)

lemma data_same_direct: "data_same s s' \<Longrightarrow> direct_ok s' ino = direct_ok s ino"
  by (simp add: data_same_def direct_ok_def data_block_def)

lemma data_same_blank: "data_same s s' \<Longrightarrow> blank s' = blank s"
  by (simp add: data_same_def blank_def)

lemma data_same_writable: "data_same s s' \<Longrightarrow> writable s ino \<Longrightarrow> writable s' ino"
  by (simp add: writable_def data_same_direct) (simp add: data_same_def meta_used_def room_def free_blocks_def)

lemma data_same_byte:
  assumes "data_same s s'" "direct_ok s ino" "p < 32768"
  shows "file_byte s' ino p = file_byte s ino p"
proof -
  have "p div 4096 < 8" using assms(3) by simp
  then have "data_direct ino ! (p div 4096) \<noteq> 0 \<Longrightarrow> data_block s (data_direct ino ! (p div 4096))"
    using assms(2) by (simp add: direct_ok_def)
  then show ?thesis using assms(1) data_block_valid by (auto simp: file_byte_def data_same_def data_block_def Let_def)
qed

lemma isize_irrelevant [simp]:
  "direct_ok s (ino\<lparr>isize := x\<rparr>) = direct_ok s ino" "writable s (ino\<lparr>isize := x\<rparr>) = writable s ino"
  "file_byte s (ino\<lparr>isize := x\<rparr>) = file_byte s ino" "inode_ok (ino\<lparr>isize := x\<rparr>) = inode_ok ino"
  by (simp_all add: direct_ok_def writable_def file_byte_def inode_ok_def room_def holes_def fun_eq_iff)

lemma sint_small: "unat (w :: u32) < 32768 \<Longrightarrow> sint w = int (unat w)"
proof -
  assume "unat w < 32768"
  then have "int (unat w) < 32768" by linarith
  then have "uint w < 2 ^ 31" by simp
  moreover have "- (2 ^ 31) \<le> uint w" by (rule order_trans [of _ 0]) simp_all
  ultimately have "signed_take_bit 31 (uint w) = uint w" by (intro signed_take_bit_int_eq_self)
  then show ?thesis by (simp add: sint_uint)
qed

lemma inode_alloc_fresh:
  assumes inv: "fs_inv s" and room: "inodes_used s \<noteq> {..< 32768}"
  obtains n s1 s2 where "inode_alloc s = Some (n, s1)" "write_inode n zero_inode s1 = Some s2" "unat n < 32768" "unat n \<notin> inodes_used s"
    "inodes_used s2 = insert (unat n) (inodes_used s)" "data_same s s2" "inode_at s2 n = zero_inode"
    "\<forall>i. unat i < 32768 \<longrightarrow> i \<noteq> n \<longrightarrow> inode_at s2 i = inode_at s i"
proof -
  obtain n s1 where a: "inode_alloc s = Some (n, s1)" using inodes.alloc_some [OF inv room] by blast
  from inode_alloc_ok [OF inv] a have n: "fs_inv s1" "unat n < 32768" "unat n \<notin> inodes_used s"
    "inodes_used s1 = insert (unat n) (inodes_used s)" "inode_frame s1 = inode_frame s" by simp_all
  have dv: "content s1 b = content s b" if "valid_block b" "5 \<le> unat b" for b
    using n(5) that by (auto simp: inode_frame_def data_view_def dest!: fun_cong [of "data_view s1" "data_view s" b])
  have ok: "inode_ok zero_inode" by (simp add: inode_ok_def zero_inode_def layout_consts)
  obtain s2 where s2: "write_inode n zero_inode s1 = Some s2" "fs_inv s2" "inode_at s2 n = zero_inode"
    "\<forall>i. unat i < 32768 \<longrightarrow> i \<noteq> n \<longrightarrow> inode_at s2 i = inode_at s1 i"
    "\<forall>b. valid_block b \<longrightarrow> unat b < 5 \<or> 517 \<le> unat b \<longrightarrow> content s2 b = content s1 b"
    "inodes_used s2 = inodes_used s1" "blocks_used s2 = blocks_used s1" "cwd s2 = cwd s1"
    by (rule write_inode_ok [OF n(1,2) ok])
  have d: "data_same s s2" using s2(2,5,7,8) dv n(5) by (simp add: data_same_def inode_frame_def)
  have "inode_at s1 i = inode_at s i" if "unat i < 32768" for i
    using inode_pos [OF that] dv by (simp add: inode_at_def)
  with that [OF a s2(1) n(2,3) _ d s2(3)] n(4) s2(4,6) show thesis by simp
qed

lemma create_ok:
  assumes ok: "cwd_ok s" "unat (cwd s) \<in> inodes_used s" and p: "name_ok path" "dir_lookup s path = None"
    and room: "has_slot s" "inodes_used s \<noteq> {..< 32768}"
  obtains n s' where "get_inode_by_filename path True 0 s = Some (int (unat n), s')" "unat n \<notin> inodes_used s" "unat n < 32768"
    "inodes_used s' = insert (unat n) (inodes_used s)" "cwd s' = cwd s" "cwd_ok s'" "inode_at s' n = zero_inode"
    "\<forall>q. name_ok q \<longrightarrow> dir_lookup s' q = ((dir_lookup s)(path \<mapsto> n)) q"
    "names_unique (dir_data s) \<longrightarrow> names_unique (dir_data s')" "card (free_blocks s) \<le> Suc (card (free_blocks s'))" "blank s \<longrightarrow> blank s'"
proof -
  let ?dir = "inode_at s (cwd s)" and ?k = "new_slot s"
  have pl: "length path < 24" using p(1) by (simp add: name_ok_def)
  have c: "unat (cwd s) < 32768" and w: "writable s ?dir" using ok(1) by (simp_all add: cwd_ok_def)
  have dk: "direct_ok s ?dir" using w by (simp add: writable_def)
  note slot = new_slot_free [OF room(1)]
  obtain s0 s1 where r: "read_inode (cwd s) s = Some (?dir, s0)"
    "scan_dir path ?dir [0 ..< INODE_DATA_DIRECT] 0 s0 =
      Some (case dir_lookup s path of Some n \<Rightarrow> Inl n | None \<Rightarrow> Inr (next_free (dir_data s) (present ?dir [0 ..< 8]) 0), s1)"
    "same s s1" by (rule scan_lookup [OF cwd_readable [OF ok(1)] pl])
  have i1: "fs_inv s1" "inodes_used s1 = inodes_used s" using r(3) by (simp_all add: same_def)
  obtain n s2 s3 where a: "inode_alloc s1 = Some (n, s2)" "write_inode n zero_inode s2 = Some s3" "unat n < 32768" "unat n \<notin> inodes_used s1"
    "inodes_used s3 = insert (unat n) (inodes_used s1)" "data_same s1 s3" "inode_at s3 n = zero_inode"
    by (rule inode_alloc_fresh [OF i1(1) room(2) [folded i1(2)]])
  have d3: "data_same s s3" by (rule data_same_trans [OF same_data [OF r(3)] a(6)])
  have ne: "n \<noteq> cwd s" using a(4) ok(2) i1(2) by auto
  let ?e = "\<lparr>dinode = n, dvalid = 1, dname = path @ replicate (24 - length path) 0\<rparr>"
  have e: "new_entry n path = Some ?e" "length (dir_bytes ?e) = 32" "dir_bytes ?e \<noteq> []"
    using pl by (simp_all add: new_entry_def dir_bytes_def)
  have off: "unat (of_nat (?k * 32) :: u32) = 32 * ?k" using slot(1) by (simp only: unat_of_nat) simp
  have bnd: "unat (of_nat (?k * 32) :: u32) < 32768" "unat (of_nat (?k * 32) :: u32) mod 4096 + length (dir_bytes ?e) \<le> 4096"
  proof -
    have "32 * ?k mod 4096 = 32 * (?k mod 128)" by (simp add: mult_mod_right)
    moreover have "?k mod 128 < 128" by simp
    ultimately show "unat (of_nat (?k * 32) :: u32) < 32768" "unat (of_nat (?k * 32) :: u32) mod 4096 + length (dir_bytes ?e) \<le> 4096"
      unfolding off e(2) using slot(1) by linarith+
  qed
  obtain m dir' s4 where u: "inode_modify_data True ?dir (dir_bytes ?e) (of_nat (?k * 32)) (length (dir_bytes ?e)) s3 = Some (m, dir', dir_bytes ?e, s4)"
    "writable s4 dir'" "wrote s3 ?dir (unat (of_nat (?k * 32) :: u32)) (dir_bytes ?e) s4 dir'" "card (free_blocks s3) \<le> Suc (card (free_blocks s4))" "blank s3 \<longrightarrow> blank s4"
    by (rule modify_wrote [OF data_same_writable [OF d3 w] bnd e(3)])
  let ?dir2 = "dir'\<lparr>isize := isize dir' + 1\<rparr>"
  have i4: "fs_inv s4" "inode_ok ?dir2" "cwd s4 = cwd s" using u(2) wroteD(8) [OF u(3)] d3 by (simp_all add: writable_def direct_ok_def data_same_def)
  obtain s5 where x: "write_inode (cwd s) ?dir2 s4 = Some s5" "fs_inv s5" "inode_at s5 (cwd s) = ?dir2"
    "\<forall>i. unat i < 32768 \<longrightarrow> i \<noteq> cwd s \<longrightarrow> inode_at s5 i = inode_at s4 i"
    "\<forall>b. valid_block b \<longrightarrow> unat b < 5 \<or> 517 \<le> unat b \<longrightarrow> content s5 b = content s4 b"
    "inodes_used s5 = inodes_used s4" "blocks_used s5 = blocks_used s4" "cwd s5 = cwd s4"
    by (rule write_inode_ok [OF i4(1) c i4(2)])
  have d5: "data_same s4 s5" using x by (simp add: data_same_def)
  have res: "get_inode_by_filename path True 0 s = Some (int (unat n), s5)"
    unfolding get_inode_by_filename_def r(1)
    using r(2) p(2) a(1,2) e(1,2) u(1) x(1) i4(3) sint_small [OF a(3)]
    by (simp add: new_slot_def Let_def DIRENTRY_SIZE_def)
  have cw: "cwd s5 = cwd s" using x(8) i4(3) by simp
  have ok5: "cwd_ok s5" using c data_same_writable [OF d5 u(2)] x(3) by (simp add: cwd_ok_def cw)
  have at: "inode_at s5 n = zero_inode"
  proof -
    have "inode_at s4 n = inode_at s3 n" using inode_pos [OF a(3)] wroteD(5) [OF u(3)] a(3) by (simp add: inode_at_def)
    with x(4) a(3,7) ne show ?thesis by simp
  qed
  have "patched (dir_data s) (32 * ?k) (dir_bytes ?e) (dir_data s5)"
    unfolding patched_def
  proof (intro allI impI)
    fix q :: nat assume q: "q < 32768"
    have "dir_data s5 q = file_byte s4 dir' q"
      using data_same_byte [OF d5 _ q, of dir'] u(2) by (simp add: dir_data_def cw x(3) writable_def)
    also have "\<dots> = (if 32 * ?k \<le> q \<and> q < 32 * ?k + length (dir_bytes ?e) then dir_bytes ?e ! (q - 32 * ?k) else file_byte s3 ?dir q)"
      using wroteD(1) [OF u(3) q] unfolding off .
    also have "file_byte s3 ?dir q = dir_data s q" using data_same_byte [OF d3 dk q] by (simp add: dir_data_def)
    finally show "dir_data s5 q = (if 32 * ?k \<le> q \<and> q < 32 * ?k + length (dir_bytes ?e) then dir_bytes ?e ! (q - 32 * ?k) else dir_data s q)" .
  qed
  note pt = this
  have none: "dir_find (dir_data s) path = None" using p(2) by (simp add: dir_lookup_def)
  have "dir_lookup s5 q = ((dir_lookup s)(path \<mapsto> n)) q" if "name_ok q" for q
    using patched_lookup [OF pt slot p(1) none that] by (simp add: dir_lookup_def)
  moreover have "card (free_blocks s) \<le> Suc (card (free_blocks s5))" using u(4) d3 d5 by (simp add: data_same_def free_blocks_def)
  moreover have "blank s \<longrightarrow> blank s5" using u(5) data_same_blank [OF d3] data_same_blank [OF d5] by simp
  ultimately show thesis using that [OF res _ a(3) _ cw ok5 at] patched_unique [OF pt slot(1) p(1) none] a(4,5) i1(2) x(6) wroteD(6) [OF u(3)] by simp
qed

section \<open>Removal\<close>

lemma find_first: "List.find P xs = Some k \<Longrightarrow> P k \<and> k \<in> set xs"
  by (induction xs) (auto split: if_splits)

text \<open>Clearing the field \<open>valid\<close> of the entry \<open>k\<close>.\<close>

lemma cleared_lookup:
  assumes D': "\<forall>q<32768. D' q = (if 32 * k + 4 \<le> q \<and> q < 32 * k + 8 then 0 else D q)" and k: "k < 1024"
    and u: "\<forall>j<1024. entry_is D j path \<longrightarrow> j = k" and is_k: "entry_is D k path" and p: "name_ok path" "name_ok q"
    and other: "q \<noteq> path \<longrightarrow> \<not> entry_is D k q"
  shows "map_option (entry_inode D') (dir_find D' q) = (if q = path then None else map_option (entry_inode D) (dir_find D q))"
proof -
  have ql: "length q < 24" using p(2) by (simp add: name_ok_def)
  have at: "D' (32 * k + 4 + m) = 0" if "m < 4" for m
  proof -
    have "32 * k + 4 + m < 32768" using k that by linarith
    with D' that show ?thesis by simp
  qed
  from at [of 0] at [of 1] at [of 2] at [of 3] have "entry_valid D' k = 0"
    by (simp add: entry_valid_def word_at_def u32_of_def algebra_simps)
  then have nk: "\<not> entry_is D' k q" by (simp add: entry_is_def)
  have ot: "D' (32 * j + m) = D (32 * j + m)" if "m < 32" "j < 1024" "j \<noteq> k" for j m
  proof -
    have "32 * j + m < 32768" "\<not> (32 * k + 4 \<le> 32 * j + m \<and> 32 * j + m < 32 * k + 8)" using that by linarith+
    with D' show ?thesis by (metis (no_types, lifting))
  qed
  have e: "entry_is D' j q = entry_is D j q" "entry_inode D' j = entry_inode D j" if "j < 1024" "j \<noteq> k" for j
    using entry_cong [of D' j D j, OF ot [OF _ that]] ql by simp_all
  show ?thesis
  proof (cases "q = path")
    case True
    have "\<not> entry_is D' j q" if "j < 1024" for j using e(1) [OF that] nk u that True by blast
    with True show ?thesis by (simp add: dir_find_def find_None_iff)
  next
    case False
    have "entry_is D' j q = entry_is D j q" if "j < 1024" for j using e(1) [OF that] nk False other by blast
    then have eq: "dir_find D' q = dir_find D q" unfolding dir_find_def by (intro find_cong) simp
    have "entry_inode D' j = entry_inode D j" if "dir_find D q = Some j" for j
    proof -
      from that have "entry_is D j q" "j < 1024" unfolding dir_find_def by (auto dest: find_first)
      with e(2) False other show ?thesis by blast
    qed
    with False eq show ?thesis by (cases "dir_find D q") simp_all
  qed
qed

lemma str_eq_unique: "0 \<notin> set p \<Longrightarrow> 0 \<notin> set q \<Longrightarrow> str_eq d off p \<Longrightarrow> str_eq d off q \<Longrightarrow> p = q"
proof (induction p arbitrary: q off)
  case Nil
  then show ?case by (cases q) auto
next
  case (Cons c p)
  then show ?case by (cases q) auto
qed

text \<open>The loop of the removal, on the entry that the search finds.\<close>

lemma clear_entry_ok:
  assumes inv: "fs_inv s" and b: "data_block s b" and o: "Block b s = Some (c, s1)" and j: "j < 128"
  obtains s2 where "update c (set_data c (store_bytes (32 * j + 4) (u32_bytes 0)) s1) = Some s2" "fs_inv s2"
    "blocks_used s2 = blocks_used s" "inodes_used s2 = inodes_used s" "cwd s2 = cwd s"
    "\<forall>b'. valid_block b' \<longrightarrow> content s2 b' = (if b' = b then on_block (store_bytes (32 * j + 4) (u32_bytes 0) (content s b)) else content s b')"
proof -
  let ?f = "store_bytes (32 * j + 4) (u32_bytes 0)"
  have v: "valid_block b" "5 \<le> unat b" using data_block_valid [OF b] by simp_all
  obtain c' s1' where o': "Block b s = Some (c', s1')" "same s s1'" "on_block (cache_data s1' c') = content s b" "slot_holds s1' c' b"
    by (rule Block_same [OF inv v(1)])
  have e: "c' = c" "s1' = s1" using o o'(1) by simp_all
  note sm = o'(2) [unfolded e] and dat = o'(3) [unfolded e] and sl = o'(4) [unfolded e]
  have "fs_inv s1" using sm by (simp add: same_def)
  then have c1: "cache_inv s1" "fs_inv s1" by (simp_all add: fs_inv_def)
  obtain s2 where s2: "save_block c ?f s1 = Some s2" "cache_inv s2" "cache_state.more s2 = cache_state.more s1"
    "\<forall>b'. valid_block b' \<longrightarrow> content s2 b' = (if b' = b then on_block (?f (cache_data s1 c)) else content s1 b')"
    using cache.save [OF c1(1) v(1) sl, of ?f] by blast
  have same': "on_block (?f (cache_data s1 c)) = on_block (?f (content s b))"
    by (rule store_local) (simp flip: dat)
  have "\<forall>b. valid_block b \<longrightarrow> unat b < 5 \<longrightarrow> content s2 b = content s1 b" using s2(4) v(2) by auto
  note fr = fs_inv_frame [OF c1(2) s2(2,3) this]
  show thesis
    by (rule that [of s2])
      (use s2 fr sm frame_fs [OF s2(3)] same' in \<open>simp_all add: save_block_def same_def\<close>)
qed

lemma remove_entry_ok:
  assumes "fs_inv s" "direct_ok s dir" "length path < 24" "\<forall>i\<in>set is. i < 8"
    and "List.find (\<lambda>k. entry_is (file_byte s dir) k path) (present dir is) = Some k"
  shows "\<exists>s2. remove_entry path dir is s = write_inode (cwd s) (dir\<lparr>isize := isize dir - 1\<rparr>) s2 \<and> fs_inv s2 \<and>
    blocks_used s2 = blocks_used s \<and> inodes_used s2 = inodes_used s \<and> cwd s2 = cwd s \<and>
    (\<forall>b'. valid_block b' \<longrightarrow> content s2 b' = (if b' = data_direct dir ! (k div 128)
       then on_block (store_bytes (32 * (k mod 128) + 4) (u32_bytes 0) (content s (data_direct dir ! (k div 128)))) else content s b')) \<and>
    data_direct dir ! (k div 128) \<noteq> 0"
  using assms
proof (induction "is" arbitrary: s)
  case Nil
  then show ?case by (simp add: present_def)
next
  case (Cons i "is")
  have i: "i < 8" "\<forall>i\<in>set is. i < 8" using Cons.prems(4) by simp_all
  show ?case
  proof (cases "data_direct dir ! i = 0")
    case True
    with Cons.IH [OF Cons.prems(1-3) i(2)] Cons.prems(5) show ?thesis by (simp add: present_Cons)
  next
    case False
    let ?b = "data_direct dir ! i" and ?D = "file_byte s dir"
    have db: "data_block s ?b" using Cons.prems(2) i(1) False by (simp add: direct_ok_def)
    obtain c s1 where o: "Block ?b s = Some (c, s1)" "same s s1" "on_block (cache_data s1 c) = content s ?b"
      using Block_same [OF Cons.prems(1)] data_block_valid [OF db] by blast
    let ?F = "List.find (\<lambda>j. entry_is (cache_data s1 c) j path) [0 ..< 128]"
    have ej: "entry_is (cache_data s1 c) j path = entry_is ?D (128 * i + j) path" if "j < 128" for j
      using entry_cong(3) [of "cache_data s1 c" j ?D "128 * i + j", OF entry_slot [OF o(3) that False]] Cons.prems(3) by blast
    have F: "List.find (\<lambda>k. entry_is ?D k path) (map (\<lambda>j. 128 * i + j) [0 ..< 128]) = map_option (\<lambda>j. 128 * i + j) ?F"
      unfolding find_map by (rule arg_cong [where f = "map_option _"], rule find_cong) (use ej in \<open>simp add: comp_def\<close>)
    show ?thesis
    proof (cases ?F)
      case None
      have sb: "entry_is (file_byte s1 dir) k path = entry_is ?D k path" if "k < 1024" for k
        by (rule entry_is_same(3) [OF same_byte [OF o(2) Cons.prems(2)] that Cons.prems(3)])
      have "List.find (\<lambda>k. entry_is (file_byte s1 dir) k path) (present dir is) = List.find (\<lambda>k. entry_is ?D k path) (present dir is)"
        by (rule find_cong) (use sb present_bound [of "is"] i(2) in blast)
      also have "\<dots> = Some k" using Cons.prems(5) None F False by (simp add: present_Cons find_append)
      finally have f1: "List.find (\<lambda>k. entry_is (file_byte s1 dir) k path) (present dir is) = Some k" .
      have d1: "fs_inv s1" "direct_ok s1 dir" using o(2) same_direct [OF o(2)] Cons.prems(2) by (simp_all add: same_def)
      have eq: "content s1 b' = content s b'" if "valid_block b'" for b' using o(2) that by (simp add: same_def)
      have rm: "remove_entry path dir (i # is) s = remove_entry path dir is s1" using False o(1) None by (simp add: layout_consts)
      have k: "k < 1024" by (rule present_bound [of "is"]) (use find_first [OF f1] i(2) in auto)
      then have "k div 128 < 8" by auto
      then have kb: "data_direct dir ! (k div 128) \<noteq> 0 \<Longrightarrow> valid_block (data_direct dir ! (k div 128))"
        using Cons.prems(2) data_block_valid unfolding direct_ok_def by blast
      have u: "blocks_used s1 = blocks_used s" "inodes_used s1 = inodes_used s" "cwd s1 = cwd s" using o(2) by (simp_all add: same_def)
      obtain s2 where s2: "remove_entry path dir is s1 = write_inode (cwd s1) (dir\<lparr>isize := isize dir - 1\<rparr>) s2" "fs_inv s2"
        "blocks_used s2 = blocks_used s1" "inodes_used s2 = inodes_used s1" "cwd s2 = cwd s1"
        "\<forall>b'. valid_block b' \<longrightarrow> content s2 b' = (if b' = data_direct dir ! (k div 128)
          then on_block (store_bytes (32 * (k mod 128) + 4) (u32_bytes 0) (content s1 (data_direct dir ! (k div 128)))) else content s1 b')"
        "data_direct dir ! (k div 128) \<noteq> 0"
        using Cons.IH [OF d1 Cons.prems(3) i(2) f1] by (elim exE conjE) (rule that)
      show ?thesis by (rule exI [of _ s2]) (use s2 u eq kb [OF s2(7)] rm in simp)
    next
      case (Some j)
      have j: "j < 128" using find_first [OF Some] by simp
      have k: "k = 128 * i + j" using Cons.prems(5) Some F False by (simp add: present_Cons find_append)
      then have kd: "k div 128 = i" "k mod 128 = j" using j by simp_all
      obtain s2 where s2: "update c (set_data c (store_bytes (32 * j + 4) (u32_bytes 0)) s1) = Some s2" "fs_inv s2"
        "blocks_used s2 = blocks_used s" "inodes_used s2 = inodes_used s" "cwd s2 = cwd s"
        "\<forall>b'. valid_block b' \<longrightarrow> content s2 b' = (if b' = ?b then on_block (store_bytes (32 * j + 4) (u32_bytes 0) (content s ?b)) else content s b')"
        by (rule clear_entry_ok [OF Cons.prems(1) db o(1) j])
      have "remove_entry path dir (i # is) s = write_inode (cwd s) (dir\<lparr>isize := isize dir - 1\<rparr>) s2"
        using False o(1) Some s2(1,5) by (simp add: layout_consts)
      with s2 False kd show ?thesis by blast
    qed
  qed
qed

lemma remove_ok:
  assumes ok: "cwd_ok s" and p: "name_ok path" "dir_lookup s path \<noteq> None" and u: "names_unique (dir_data s)"
  obtains s' where "remove_inode_by_filename path s = Some s'" "cwd_ok s'" "cwd s' = cwd s"
    "\<forall>q. name_ok q \<longrightarrow> dir_lookup s' q = ((dir_lookup s)(path := None)) q"
proof -
  let ?dir = "inode_at s (cwd s)" and ?D = "dir_data s"
  have pl: "length path < 24" using p(1) by (simp add: name_ok_def)
  have c: "unat (cwd s) < 32768" and w: "writable s ?dir" using ok by (simp_all add: cwd_ok_def)
  have inv: "fs_inv s" and dk: "direct_ok s ?dir" using w by (simp_all add: writable_def)
  obtain k where k: "dir_find ?D path = Some k" using p(2) by (auto simp: dir_lookup_def)
  then have k1: "k < 1024" "entry_is ?D k path" unfolding dir_find_def by (auto dest: find_first)
  obtain s1 where s1: "read_inode (cwd s) s = Some (?dir, s1)" "same s s1" by (rule read_inode_same [OF inv c])
  have i1: "fs_inv s1" "direct_ok s1 ?dir" "cwd s1 = cwd s" "blocks_used s1 = blocks_used s"
    and c1: "\<And>b. valid_block b \<Longrightarrow> content s1 b = content s b"
    using s1(2) dk same_direct [OF s1(2)] by (simp_all add: same_def)
  have "dir_find (file_byte s1 ?dir) path = dir_find ?D path"
    unfolding dir_find_def dir_data_def
    by (rule find_cong) (use entry_is_same(3) [OF same_byte [OF s1(2) dk] _ pl] in simp)
  with k have f: "List.find (\<lambda>k. entry_is (file_byte s1 ?dir) k path) (present ?dir [0 ..< 8]) = Some k" by (simp only: find_present)
  have i8: "\<forall>i\<in>set [0 ..< 8 :: nat]. i < 8" by (simp del: upt_conv_Cons)
  let ?b = "data_direct ?dir ! (k div 128)" and ?dir2 = "?dir\<lparr>isize := isize ?dir - 1\<rparr>"
  obtain s2 where s2: "remove_entry path ?dir [0 ..< 8] s1 = write_inode (cwd s1) ?dir2 s2" "fs_inv s2"
    "blocks_used s2 = blocks_used s1" "inodes_used s2 = inodes_used s1" "cwd s2 = cwd s1"
    "\<forall>b'. valid_block b' \<longrightarrow> content s2 b' =
       (if b' = ?b then on_block (store_bytes (32 * (k mod 128) + 4) (u32_bytes 0) (content s1 ?b)) else content s1 b')" "?b \<noteq> 0"
    using remove_entry_ok [OF i1(1,2) pl i8 f] by (elim exE conjE) (rule that)
  have ik: "inode_ok ?dir2" using dk by (simp add: direct_ok_def)
  obtain s3 where x: "write_inode (cwd s) ?dir2 s2 = Some s3" "fs_inv s3" "inode_at s3 (cwd s) = ?dir2"
    "\<forall>b. valid_block b \<longrightarrow> unat b < 5 \<or> 517 \<le> unat b \<longrightarrow> content s3 b = content s2 b"
    "blocks_used s3 = blocks_used s2" "cwd s3 = cwd s2"
    by (rule write_inode_ok [OF s2(2) c ik])
  have res: "remove_inode_by_filename path s = Some s3"
    using s1(1) s2(1) x(1) i1(3) by (simp add: remove_inode_by_filename_def INODE_DATA_DIRECT_def del: upt_conv_Cons remove_entry.simps)
  have cw: "cwd s3 = cwd s" using x(6) s2(5) i1(3) by simp
  have bu: "blocks_used s3 = blocks_used s" using x(5) s2(3) i1(4) by simp
  have ok3: "cwd_ok s3" using c w x(2,3) bu direct_ok_cong [OF bu, of ?dir]
    by (simp add: cwd_ok_def cw) (simp add: writable_def meta_used_def room_def free_blocks_def)
  have D3: "\<forall>q<32768. dir_data s3 q = (if 32 * k + 4 \<le> q \<and> q < 32 * k + 8 then 0 else ?D q)"
  proof (intro allI impI)
    fix q :: nat assume q: "q < 32768"
    let ?bq = "data_direct ?dir ! (q div 4096)"
    have q8: "q div 4096 < 8" "k div 128 < 8" using q k1(1) by auto
    have dq: "data_block s ?bq" if "?bq \<noteq> 0" using dk q8(1) that by (simp add: direct_ok_def)
    have cq: "content s3 ?bq = content s2 ?bq" if "?bq \<noteq> 0"
      using x(4) dq [OF that] data_block_valid [OF dq [OF that]] by (simp add: data_block_def)
    show "dir_data s3 q = (if 32 * k + 4 \<le> q \<and> q < 32 * k + 8 then 0 else ?D q)"
    proof (cases "q div 4096 = k div 128")
      case True
      have e: "q = 4096 * (k div 128) + q mod 4096" using True by (metis mult_div_mod_eq)
      have "32 * k = 4096 * (k div 128) + 32 * (k mod 128)" using mult_div_mod_eq [of 128 k] by linarith
      then have r: "32 * k + 4 \<le> q \<and> q < 32 * k + 8 \<longleftrightarrow> 32 * (k mod 128) + 4 \<le> q mod 4096 \<and> q mod 4096 < 32 * (k mod 128) + 8" using e by linarith
      have nz: "?bq \<noteq> 0" using s2(7) True by simp
      have "u32_bytes 0 ! m = 0" if "m < 4" for m using that by (auto simp: u32_bytes_def less_Suc_eq numeral_eq_Suc)
      then have z: "u32_bytes 0 ! (x - a) = 0" if "a \<le> x" "x < a + 4" for a x using that by simp
      have "q mod 4096 < 4096" by simp
      then have "content s2 ?bq (q mod 4096) = (if 32 * (k mod 128) + 4 \<le> q mod 4096 \<and> q mod 4096 < 32 * (k mod 128) + 8 then 0 else content s ?bq (q mod 4096))"
        using s2(6) data_block_valid [OF dq [OF nz]] True c1 z [of "32 * (k mod 128) + 4" "q mod 4096"]
        by (auto simp: on_block_def store_bytes_def fs_consts)
      with cq [OF nz] nz r show ?thesis by (simp add: dir_data_def cw x(3) file_byte_def Let_def)
    next
      case False
      have "\<not> (32 * k + 4 \<le> q \<and> q < 32 * k + 8)"
      proof
        assume a: "32 * k + 4 \<le> q \<and> q < 32 * k + 8"
        have "(32 * (128 * (k div 128) + k mod 128) + (q - 32 * k)) div 4096 = k div 128"
          by (rule entry_pos(1)) (use a in auto)
        with a False show False by simp
      qed
      moreover have "content s2 ?bq = content s ?bq" if "?bq \<noteq> 0"
      proof -
        have "?bq \<noteq> ?b" using dk q8 that False unfolding direct_ok_def by blast
        with s2(6) c1 data_block_valid [OF dq [OF that]] show ?thesis by simp
      qed
      ultimately show ?thesis using cq by (auto simp: dir_data_def cw x(3) file_byte_def Let_def)
    qed
  qed
  have uk: "\<forall>j<1024. entry_is ?D j path \<longrightarrow> j = k" using u k1 p(1) unfolding names_unique_def by blast
  have "dir_lookup s3 q = ((dir_lookup s)(path := None)) q" if q: "name_ok q" for q
  proof -
    have "q \<noteq> path \<longrightarrow> \<not> entry_is ?D k q"
      using k1(2) str_eq_unique [of path q ?D "32 * k + 8"] p(1) q by (auto simp: entry_is_def name_ok_def)
    from cleared_lookup [OF D3 k1(1) uk k1(2) p(1) q this] show ?thesis by (simp add: dir_lookup_def)
  qed
  with that [OF res ok3 cw] show thesis by blast
qed

section \<open>Properties\<close>

text \<open>
  C11: Creating a name in the current directory adds exactly that name. In a directory with a free place, with a free inode,
  \<open>get_inode_by_filename\<close> with the flag for creation makes a new inode, which was not in use and starts as an empty
  one, and afterwards the directory maps the new name to it and every other name as before.
\<close>

theorem dir_create_refines:
  assumes "cwd_ok s" "unat (cwd s) \<in> inodes_used s" "name_ok path" "dir_lookup s path = None" "has_slot s" "inodes_used s \<noteq> {..< 32768}"
  shows "\<exists>n s'. get_inode_by_filename path True 0 s = Some (int (unat n), s') \<and> unat n \<notin> inodes_used s \<and>
    inodes_used s' = insert (unat n) (inodes_used s) \<and> inode_at s' n = zero_inode \<and> cwd_ok s' \<and>
    (\<forall>q. name_ok q \<longrightarrow> dir_lookup s' q = ((dir_lookup s)(path \<mapsto> n)) q \<and>
       (\<exists>s''. get_inode_by_filename q False 0 s' = Some (case dir_lookup s' q of Some m \<Rightarrow> sint m | None \<Rightarrow> - 1, s'')))"
proof -
  obtain n s' where r: "get_inode_by_filename path True 0 s = Some (int (unat n), s')" "unat n \<notin> inodes_used s" "unat n < 32768"
    "inodes_used s' = insert (unat n) (inodes_used s)" "cwd s' = cwd s" "cwd_ok s'" "inode_at s' n = zero_inode"
    "\<forall>q. name_ok q \<longrightarrow> dir_lookup s' q = ((dir_lookup s)(path \<mapsto> n)) q"
    by (rule create_ok [OF assms]) blast
  have "\<exists>s''. get_inode_by_filename q False 0 s' = Some (case dir_lookup s' q of Some m \<Rightarrow> sint m | None \<Rightarrow> - 1, s'')" if "name_ok q" for q
  proof -
    have "length q < 24" using that by (simp add: name_ok_def)
    then show ?thesis by (rule lookup_ok [OF r(6)]) (rule exI)
  qed
  with r show ?thesis by blast
qed

text \<open>A directory that is empty but for its inode, on the card of \<open>fs1\<close>.\<close>

lemma cwd_irrelevant [simp]:
  "content (s\<lparr>cwd := n\<rparr>) = content s" "fs_inv (s\<lparr>cwd := n\<rparr>) = fs_inv s" "blocks_used (s\<lparr>cwd := n\<rparr>) = blocks_used s"
  "inodes_used (s\<lparr>cwd := n\<rparr>) = inodes_used s" "file_byte (s\<lparr>cwd := n\<rparr>) ino = file_byte s ino" "inode_at (s\<lparr>cwd := n\<rparr>) i = inode_at s i"
  "direct_ok (s\<lparr>cwd := n\<rparr>) ino = direct_ok s ino"
proof -
  show c: "content (s\<lparr>cwd := n\<rparr>) = content s" by (rule content_cong) simp_all
  show b: "blocks_used (s\<lparr>cwd := n\<rparr>) = blocks_used s" "inodes_used (s\<lparr>cwd := n\<rparr>) = inodes_used s"
    by (simp_all add: blocks_used_def inodes_used_def map_bit_def c)
  show "direct_ok (s\<lparr>cwd := n\<rparr>) ino = direct_ok s ino" by (rule direct_ok_cong [OF b(1)])
  have "cache_inv (s\<lparr>cwd := n\<rparr>) = cache_inv s" by (simp add: cache_inv_def cache_wf_def clean_def)
  then show "fs_inv (s\<lparr>cwd := n\<rparr>) = fs_inv s" by (simp add: fs_inv_def b)
  show "file_byte (s\<lparr>cwd := n\<rparr>) ino = file_byte s ino" by (rule ext) (simp add: file_byte_def Let_def c)
  show "inode_at (s\<lparr>cwd := n\<rparr>) i = inode_at s i" by (simp add: inode_at_def c)
qed

lemma empty_dir_ready:
  obtains s where "cwd_ok s" "unat (cwd s) \<in> inodes_used s" "\<forall>q. dir_lookup s q = None" "has_slot s" "inodes_used s \<noteq> {..< 32768}"
    "names_unique (dir_data s)" "9 \<le> card (free_blocks s)"
proof -
  have "content fs1 1 = (\<lambda>_. 0)" using fs1_block [of 1] by (simp add: valid_block_def fs_consts)
  then have free: "inodes_used fs1 = {}" by (auto simp: inodes_used_def map_bit_def bit_at_def fs_consts)
  then have "inodes_used fs1 \<noteq> {..< 32768}" by (metis empty_iff lessThan_iff zero_less_numeral)
  then obtain n s1 s2 where r: "inode_alloc fs1 = Some (n, s1)" "write_inode n zero_inode s1 = Some s2" "unat n < 32768"
    "inodes_used s2 = insert (unat n) (inodes_used fs1)" "data_same fs1 s2" "inode_at s2 n = zero_inode"
    by (rule inode_alloc_fresh [OF fs1_inv])
  let ?s = "s2\<lparr>cwd := n\<rparr>"
  have DZ: "dir_data ?s p = 0" if "p < 32768" for p
  proof -
    have "p div 4096 < 8" using that by simp
    then show ?thesis using r(6) by (simp add: dir_data_def file_byte_def zero_inode_def)
  qed
  have inval: "entry_valid (dir_data ?s) k = 0" if k: "k < 1024" for k
  proof -
    have "dir_data ?s (4 * (8 * k + 1) + m) = 0" if m: "m < 4" for m by (rule DZ) (use k m in simp)
    from this [of 0] this [of 1] this [of 2] this [of 3] show ?thesis by (simp add: entry_valid_def word_at_def u32_of_def)
  qed
  have w: "writable s2 zero_inode"
  proof (rule data_same_writable [OF r(5)])
    have "direct_ok fs1 zero_inode" by (simp add: direct_ok_def inode_ok_def zero_inode_def layout_consts)
    moreover have "room fs1 zero_inode"
    proof -
      have "{517 ..< 525} \<subseteq> free_blocks fs1" unfolding free_blocks_def fs1_used by (intro subsetI) simp
      then have "card {517 ..< 525 :: nat} \<le> card (free_blocks fs1)" by (rule card_mono [OF finite_holes(2)])
      moreover have "card (holes zero_inode) \<le> card {..< 8 :: nat}" by (rule card_mono) (auto simp: holes_def)
      ultimately show ?thesis by (simp add: room_def)
    qed
    ultimately show "writable fs1 zero_inode" using fs1_inv fs1_used by (simp add: writable_def meta_used_def)
  qed
  have u1: "inodes_used ?s = {unat n}" using r(4) free by simp
  show thesis
  proof (rule that [of ?s])
    show "cwd_ok ?s" using w r(3,6) by (simp add: cwd_ok_def) (simp add: writable_def meta_used_def room_def free_blocks_def)
    show "unat (cwd ?s) \<in> inodes_used ?s" using u1 by simp
    show "\<forall>q. dir_lookup ?s q = None" using inval by (auto simp: dir_lookup_def dir_find_def find_None_iff entry_is_def)
    show "has_slot ?s" unfolding has_slot_def using inval by (intro exI [of _ 1]) simp
    show "inodes_used ?s \<noteq> {..< 32768}" unfolding u1 by (metis lessThan_iff n_not_Suc_n numeral_2_eq_2 singletonD zero_less_numeral one_less_numeral_iff semiring_norm(76) less_trans zero_neq_one)
    show "names_unique (dir_data ?s)" using inval by (auto simp: names_unique_def entry_is_def)
    have "{517 ..< 526} \<subseteq> free_blocks ?s" using r(5) fs1_used by (auto simp: free_blocks_def data_same_def)
    then show "9 \<le> card (free_blocks ?s)" using card_mono [OF finite_holes(2), of "{517 ..< 526}" ?s] by simp
  qed
qed

theorem dir_create_refines_witness:
  "\<exists>(n :: u32) s s' s''. get_inode_by_filename [97] True 0 s = Some (int (unat n), s') \<and> get_inode_by_filename [97] False 0 s' = Some (sint n, s'')"
proof -
  obtain s where s: "cwd_ok s" "unat (cwd s) \<in> inodes_used s" "\<forall>q. dir_lookup s q = None" "has_slot s" "inodes_used s \<noteq> {..< 32768}"
    by (rule empty_dir_ready)
  have nm: "name_ok [97]" by (simp add: name_ok_def)
  have none: "dir_lookup s [97] = None" using s(3) by simp
  from dir_create_refines [OF s(1,2) nm none s(4,5)] obtain n s' where
    r: "get_inode_by_filename [97] True 0 s = Some (int (unat n), s')"
    "\<forall>q. name_ok q \<longrightarrow> dir_lookup s' q = ((dir_lookup s)([97] \<mapsto> n)) q \<and>
       (\<exists>s''. get_inode_by_filename q False 0 s' = Some (case dir_lookup s' q of Some m \<Rightarrow> sint m | None \<Rightarrow> - 1, s''))" by blast
  from r(2) nm obtain s'' where "get_inode_by_filename [97] False 0 s' = Some (sint n, s'')" by fastforce
  with r(1) show ?thesis by blast
qed

text \<open>
  C30: Removing a name from the current directory takes away exactly that name: in a directory that has no name twice,
  \<open>remove_inode_by_filename\<close> of a name that is there succeeds, and afterwards the directory does not have the name and maps
  every other name as before.
\<close>

theorem dir_remove_refines:
  assumes "cwd_ok s" "name_ok path" "dir_lookup s path \<noteq> None" "names_unique (dir_data s)"
  shows "\<exists>s'. remove_inode_by_filename path s = Some s' \<and> cwd_ok s' \<and> (\<forall>q. name_ok q \<longrightarrow> dir_lookup s' q = ((dir_lookup s)(path := None)) q)"
  by (rule remove_ok [OF assms]) blast

theorem dir_remove_refines_witness:
  "\<exists>s s'. dir_lookup s [97] \<noteq> None \<and> remove_inode_by_filename [97] s = Some s' \<and> dir_lookup s' [97] = None"
proof -
  obtain s where s: "cwd_ok s" "unat (cwd s) \<in> inodes_used s" "\<forall>q. dir_lookup s q = None" "has_slot s" "inodes_used s \<noteq> {..< 32768}"
    "names_unique (dir_data s)" by (rule empty_dir_ready)
  have nm: "name_ok [97]" by (simp add: name_ok_def)
  have none: "dir_lookup s [97] = None" using s(3) by simp
  obtain n s' where r: "cwd_ok s'" "\<forall>q. name_ok q \<longrightarrow> dir_lookup s' q = ((dir_lookup s)([97] \<mapsto> n)) q"
    "names_unique (dir_data s) \<longrightarrow> names_unique (dir_data s')"
    by (rule create_ok [OF s(1,2) nm none s(4,5)])
  have f: "dir_lookup s' [97] \<noteq> None" using r(2) nm by simp
  from r(3) s(6) have "names_unique (dir_data s')" by simp
  from dir_remove_refines [OF r(1) nm f this] nm f show ?thesis by auto
qed

end
