(* ===== verification/SysParams.thy ===== *)
theory SysParams
  imports DirProofs Format
begin

text \<open>
  The boot parameters, \<open>sysparams.cpp\<close>: the policy of the block cache is kept as a decimal number in the file \<open>sysparams\<close>, which is read at start-up and written when the parameter is set.

  \<open>p\<close> is the current process, \<open>created\<close> the address of a new \<open>File\<close> object and \<open>junk\<close> what the buffer on the stack holds before it is read into.
\<close>

section \<open>The code\<close>

record params =
  fd_param :: int
  calls :: fcalls

definition sysparams :: "u8 list" where "sysparams = map of_char ''sysparams''"

text \<open>The loop over the buffer; \<open>None\<close> is the return at a character that is no digit.\<close>

fun policy_loop :: "u8 list \<Rightarrow> int \<Rightarrow> int option" where
  "policy_loop [] policy = Some policy"
| "policy_loop (b # buf) policy =
     (if b = 0 then Some policy
      else if b < 48 \<or> b > 57 then None
      else policy_loop buf (policy * 10 + uint b - 48))"

definition long_to_int :: "int \<Rightarrow> int" where "long_to_int v = sint (of_int v :: u32)"

definition init_parameters :: "nat \<Rightarrow> u64 \<Rightarrow> u8 list \<Rightarrow> params \<Rightarrow> params option" where
  "init_parameters p created junk x = do {
     (fd, c) \<leftarrow> fs_fopen p sysparams 3 created (calls x);
     (_, bs, c) \<leftarrow> fs_fread fd 16 c;
     let buf = take 16 (bs @ drop (length bs) junk);
     case policy_loop buf 0 of
       None \<Rightarrow> Some (x\<lparr>fd_param := fd, calls := c\<rparr>)
     | Some policy \<Rightarrow> do {
         s \<leftarrow> cache_set_policy (long_to_int policy) (filesys c);
         Some (x\<lparr>fd_param := fd, calls := c\<lparr>filesys := s\<rparr>\<rparr>)
       }
   }"

text \<open>\<open>std::to_string\<close>.\<close>

definition to_string :: "int \<Rightarrow> u8 list" where
  "to_string v = (if v < 0 then [45] else []) @ map (\<lambda>d. of_nat (48 + d)) (rev (low_digits 10 (nat \<bar>v\<bar>)))"

definition set_parameter :: "int \<Rightarrow> int \<Rightarrow> params \<Rightarrow> (int \<times> params) option" where
  "set_parameter key v x =
     (if key \<noteq> 0 then Some (- 1, x)
      else do {
        s \<leftarrow> cache_set_policy (long_to_int v) (filesys (calls x));
        let str = to_string v;
        let (_, c) = fs_lseek (fd_param x) 0 0 ((calls x)\<lparr>filesys := s\<rparr>);
        (_, c) \<leftarrow> fs_fwrite (fd_param x) str c;
        Some (0, x\<lparr>calls := c\<rparr>)
      })"

section \<open>Numbers as text\<close>

lemma policy_loop_digits:
  "(\<And>d. d \<in> set ds \<Longrightarrow> d < 10) \<Longrightarrow>
    policy_loop (map (\<lambda>d. of_nat (48 + d)) (rev ds) @ rest) acc = policy_loop rest (acc * 10 ^ length ds + int (digits_value 10 ds))"
proof (induction ds arbitrary: rest)
  case (Cons d ds)
  have d: "d < 10" using Cons.prems by simp
  have u: "uint (48 + of_nat d :: u8) = 48 + int d" "unat (48 + of_nat d :: u8) = 48 + d" using d by (simp_all add: uint_word_ariths unat_word_ariths uint_nat unat_of_nat)
  have b: "\<not> (48 + of_nat d :: u8) < 48" "\<not> 57 < (48 + of_nat d :: u8)" "(48 + of_nat d :: u8) \<noteq> 0" using d u(2) by (auto simp: word_less_nat_alt)
  show ?case using Cons u(1) b by (simp add: algebra_simps)
qed simp

lemma long_to_int_small: "- 2147483648 \<le> v \<Longrightarrow> v < 2147483648 \<Longrightarrow> long_to_int v = v"
  by (simp add: long_to_int_def signed_of_int signed_take_bit_int_eq_self)

lemma policy_loop_to_string:
  assumes "0 \<le> v"
  shows "policy_loop (to_string v @ rest) 0 = policy_loop rest v"
  using policy_loop_digits [of "low_digits 10 (nat v)" rest 0] low_digits_less [of 10 _ "nat v"] assms by (simp add: to_string_def low_digits_value)

lemma length_to_string:
  assumes "- 1 \<le> v" "v < 2147483648"
  shows "length (to_string v) \<le> 10" "to_string v \<noteq> []"
proof -
  have "nat \<bar>v\<bar> < 10 ^ 10" using assms by auto
  then show "length (to_string v) \<le> 10" using low_digits_length [of 10 "nat \<bar>v\<bar>" 10] low_digits_length [of 10 1 1] assms by (cases "v = - 1") (auto simp: to_string_def)
  have "low_digits 10 n \<noteq> []" for n by (subst low_digits.simps) simp
  then show "to_string v \<noteq> []" by (simp add: to_string_def)
qed

section \<open>The file of the parameters\<close>

text \<open>The current directory has the file, with at least 16 bytes in its first block.\<close>

definition param_entry :: "fs \<Rightarrow> u32 \<Rightarrow> bool" where
  "param_entry s idx \<longleftrightarrow> dir_readable s \<and> dir_lookup s sysparams = Some idx \<and> unat idx < 32768 \<and> idx \<noteq> cwd s \<and> itype (inode_at s idx) = 2 \<and> writable s (inode_at s idx) \<and>
     set (data_direct (inode_at s (cwd s))) \<inter> set (data_direct (inode_at s idx)) \<subseteq> {0}"

definition param_file :: "fs \<Rightarrow> u32 \<Rightarrow> bool" where
  "param_file s idx \<longleftrightarrow> param_entry s idx \<and> 16 \<le> unat (isize (inode_at s idx)) \<and> data_direct (inode_at s idx) ! 0 \<noteq> 0"

lemma param_fileD:
  assumes "param_file s idx"
  shows "dir_readable s" "dir_lookup s sysparams = Some idx" "unat idx < 32768" "idx \<noteq> cwd s" "itype (inode_at s idx) = 2" "writable s (inode_at s idx)" "16 \<le> unat (isize (inode_at s idx))"
    "data_direct (inode_at s idx) ! 0 \<noteq> 0" "set (data_direct (inode_at s (cwd s))) \<inter> set (data_direct (inode_at s idx)) \<subseteq> {0}"
  using assms by (simp_all add: param_file_def param_entry_def)

definition param_text :: "fs \<Rightarrow> u32 \<Rightarrow> u8 list" where
  "param_text s idx = map (file_byte s (inode_at s idx)) [0..<16]"

lemma dir_lookup_cong:
  assumes "\<And>q. q < 32768 \<Longrightarrow> dir_data s' q = dir_data s q" "length path < 24"
  shows "dir_lookup s' path = dir_lookup s path"
proof -
  note e = entry_is_same [of "dir_data s'" "dir_data s", OF assms(1)]
  have f: "dir_find (dir_data s') path = dir_find (dir_data s) path" unfolding dir_find_def by (rule find_cong) (use e(3) assms(2) in simp)
  then show ?thesis using e(2) by (auto simp: dir_lookup_def dir_find_def map_option_case dest: find_first split: option.split)
qed

lemma sysparams_name: "length sysparams < 24" "name_ok sysparams"
  by (simp_all add: sysparams_def name_ok_def)

lemma param_file_same:
  assumes "same s s'" "param_file s idx"
  shows "param_file s' idx" "param_text s' idx = param_text s idx"
proof -
  note d = param_fileD [OF assms(2)]
  have c: "unat (cwd s) < 32768" "direct_ok s (inode_at s (cwd s))" using d(1) by (simp_all add: dir_readable_def)
  have cw: "cwd s' = cwd s" using assms(1) by (simp add: same_def)
  note at = same_inode [OF assms(1)]
  have "dir_data s' q = dir_data s q" if "q < 32768" for q
    using same_byte [OF assms(1) c(2) that] c by (simp add: dir_data_def cw at)
  note l = dir_lookup_cong [OF this sysparams_name(1)]
  show "param_file s' idx" using d c same_writable [OF assms(1)] same_direct [OF assms(1)] assms(1) by (simp add: param_file_def param_entry_def dir_readable_def cw at l) (simp add: same_def)
  show "param_text s' idx = param_text s idx" using same_byte [OF assms(1)] d(3,6) by (simp add: param_text_def at writable_def)
qed

lemma same_refl: "fs_inv s \<Longrightarrow> same s s"
  by (simp add: same_def)

lemma param_lookup:
  assumes "param_file s idx"
  obtains s' where "get_inode_by_filename sysparams True 0 s = Some (int (unat idx), s')" "same s s'"
proof -
  obtain s1 s' where r: "read_inode (cwd s) s = Some (inode_at s (cwd s), s1)"
    "scan_dir sysparams (inode_at s (cwd s)) [0 ..< INODE_DATA_DIRECT] 0 s1 =
      Some (case dir_lookup s sysparams of Some n \<Rightarrow> Inl n | None \<Rightarrow> Inr (next_free (dir_data s) (present (inode_at s (cwd s)) [0 ..< 8]) 0), s')"
    "same s s'" by (rule scan_lookup [OF param_fileD(1) [OF assms] sysparams_name(1)])
  show thesis by (rule that [OF _ r(3)]) (use r(2) param_fileD(2) [OF assms] sint_small [OF param_fileD(3) [OF assms]] in \<open>unfold get_inode_by_filename_def r(1), simp\<close>)
qed

lemma set_policy_same:
  assumes "fs_inv s"
  obtains s' where "cache_set_policy v s = Some s'" "same s s'" "0 \<le> v \<Longrightarrow> policy_writeback_interval s' = v \<and> \<not> policy_writethrough s'"
proof -
  have c: "cache_inv s" using assms by (simp add: fs_inv_def)
  have plain: "same s (s\<lparr>policy_writethrough := w, policy_writeback_interval := v\<rparr>)" (is "same s ?s") for w v
  proof -
    have e: "content ?s = content s" "cache_inv ?s" using c by (simp_all add: content_cong [of ?s s] cache_inv_cong [of ?s s])
    have "cache_state.more ?s = cache_state.more s" by (cases s) simp
    with fs_inv_frame [OF assms e(2) this] e frame_fs [OF this] show ?thesis by (simp add: same_def)
  qed
  consider "v = - 1" | "0 \<le> v" | "v < - 1" by linarith
  then show thesis
  proof cases
    case 1
    let ?s = "s\<lparr>policy_writethrough := True, policy_writeback_interval := 0\<rparr>"
    have i2: "fs_inv ?s" using plain [where w = True and v = 0] by (simp add: same_def)
    then have i1: "cache_inv ?s" unfolding fs_inv_def by blast
    note i = i1 i2
    obtain s' where s': "cache_writeback ?s = Some s'" "cache_inv s'" "\<forall>b. valid_block b \<longrightarrow> content s' b = content ?s b" "cache_state.more s' = cache_state.more ?s"
      using writeback_from_ok [OF i(1), of "[0 ..< CACHE_SIZE]"] by (auto simp: cache_writeback_def atLeast0LessThan)
    have "same ?s s'" using fs_inv_frame [OF i(2) s'(2,4)] s'(3) frame_fs [OF s'(4)] by (simp add: same_def)
    from that [OF _ same_trans [OF plain this]] s'(1) 1 show thesis by (simp add: cache_set_policy_def)
  next
    case 2
    from that [OF _ plain [where w = False and v = v]] 2 show thesis by (simp add: cache_set_policy_def)
  next
    case 3
    from that [OF _ same_refl [OF assms]] 3 show thesis by (simp add: cache_set_policy_def)
  qed
qed

section \<open>Start-up reads the file\<close>

text \<open>No file is open, and the process holds no object at the address of the new one.\<close>

definition no_files :: "nat \<Rightarrow> u64 \<Rightarrow> fcalls \<Rightarrow> bool" where
  "no_files p created c \<longleftrightarrow> pool_ok (fpool c) \<and> trie_lookup (keymap (fpool c)) = Map.empty \<and> trie_wf (kernel_objects (fobjs c) p) \<and>
     trie_lookup (kernel_objects (fobjs c) p) (obj2key created) = None"

lemma open_new:
  assumes "no_files p created c"
  obtains h pool k where "id_init p key created (fpool c) (fobjs c) = Some (h, pool, k)" "id_get h pool = Some created"
proof -
  have n: "pool_ok (fpool c)" "trie_lookup (keymap (fpool c)) = Map.empty" "trie_wf (kernel_objects (fobjs c) p)" "trie_lookup (kernel_objects (fobjs c) p) (obj2key created) = None"
    using assms by (simp_all add: no_files_def)
  obtain i t where r: "trie_insert (kernel_objects (fobjs c) p) (obj2key created) created = Some (i, t)" using trie.insert_new [OF n(3,4)] by blast
  have l: "trie_lookup (keymap (fpool c)) key = None" "created \<notin> ran (trie_lookup (keymap (fpool c)))" using n(2) by simp_all
  obtain j u where j: "trie_insert (keymap (fpool c)) key created = Some (j, u)" by (rule id_create_ok [OF n(1) l])
  obtain h pool k where i: "id_init p key created (fpool c) (fobjs c) = Some (h, pool, k)"
    using r j l(1) by (cases "i = 0") (auto simp: id_init_def register_kernel_object_def Let_def)
  from that [OF i] id_init_pool_ok [OF n(1) l(2) i] l(1) show thesis by (simp add: Let_def)
qed

definition param_open :: "params \<Rightarrow> u32 \<Rightarrow> u64 \<Rightarrow> bool" where
  "param_open x idx a \<longleftrightarrow> param_file (filesys (calls x)) idx \<and> file_of (fd_param x) (calls x) = Some a \<and>
     (\<exists>fp. file_at (calls x) a = \<lparr>inode_idx = idx, fmode = 3, file_ptr = fp, finode = inode_at (filesys (calls x)) idx\<rparr>)"

lemma init_reads:
  assumes f: "param_file (filesys (calls x)) idx" and n: "no_files p created (calls x)" and t: "policy_loop (param_text (filesys (calls x)) idx) 0 = r"
  obtains x' where "init_parameters p created junk x = Some x'" "param_open x' idx created" "same (filesys (calls x)) (filesys (calls x'))"
    "\<And>v. r = Some v \<Longrightarrow> 0 \<le> long_to_int v \<Longrightarrow> policy_writeback_interval (filesys (calls x')) = long_to_int v \<and> \<not> policy_writethrough (filesys (calls x'))"
proof -
  let ?s = "filesys (calls x)" and ?ino = "inode_at (filesys (calls x)) idx"
  note d = param_fileD [OF f]
  have w: "fs_inv ?s" "direct_ok ?s ?ino" using d(6) by (simp_all add: writable_def)
  obtain s1 where s1: "get_inode_by_filename sysparams True 0 ?s = Some (int (unat idx), s1)" "same ?s s1" by (rule param_lookup [OF f])
  have i1: "fs_inv s1" using s1(2) by (simp add: same_def)
  obtain s2 where s2: "read_inode idx s1 = Some (inode_at s1 idx, s2)" "same s1 s2" by (rule read_inode_same [OF i1 d(3)])
  have a1: "inode_at s1 idx = ?ino" by (rule same_inode [OF s1(2) d(3)])
  note s02 = same_trans [OF s1(2) s2(2)]
  obtain h pool k where o: "id_init p (unat idx) created (fpool (calls x)) (fobjs (calls x)) = Some (h, pool, k)" "id_get h pool = Some created" by (rule open_new [OF n])
  let ?f = "\<lparr>inode_idx = idx, fmode = 3, file_ptr = 0, finode = ?ino\<rparr>"
  define c where "c = (calls x)\<lparr>filesys := s2, fpool := pool, fobjs := k, file_at := (file_at (calls x))(created := ?f)\<rparr>"
  have open': "fs_fopen p sysparams 3 created (calls x) = Some (int h, c)"
    using s1(1) s2(1) a1 d(5) o(1) n by (simp add: fs_fopen_def c_def no_files_def)
  have fo: "file_of (int h) c = Some created" using o(2) by (simp add: file_of_def c_def)
  have pre: "fs_inv s2" "direct_ok s2 ?ino" "unat (0 :: u32) < 32768" "unat (0 :: u32) mod 4096 + 16 \<le> 4096" "data_direct ?ino ! (unat (0 :: u32) div 4096) \<noteq> 0"
    "\<not> (isize ?ino < 0 + of_nat 16 \<and> itype ?ino = 2)"
    using s02 w same_direct [OF s02] d(7,8) by (simp_all add: same_def word_less_nat_alt)
  obtain s3 where s3: "inode_modify_data False ?ino [] 0 16 s2 = Some (False, ?ino, map (file_byte s2 ?ino) [unat (0 :: u32) ..< unat (0 :: u32) + 16], s3)"
    "fs_inv s3" "\<forall>c. valid_block c \<longrightarrow> content s3 c = content s2 c" "blocks_used s3 = blocks_used s2" "inodes_used s3 = inodes_used s2" "cwd s3 = cwd s2"
    by (rule modify_read_ok [OF pre])
  have s03: "same ?s s3" by (rule same_trans [OF s02]) (use s3 in \<open>simp add: same_def\<close>)
  have tx: "map (file_byte s2 ?ino) [0..<16] = param_text ?s idx" using same_byte [OF s02 w(2)] by (simp add: param_text_def)
  have "read_loop 16 [] False ?f s2 = Some (param_text ?s idx, False, ?f\<lparr>file_ptr := 16\<rparr>, s3)"
    using s3(1) tx by (subst read_loop.simps) (simp add: BLOCK_SIZE_def read_loop.simps [of 0])
  then have "file_read 16 ?f s2 = Some (16, param_text ?s idx, ?f\<lparr>file_ptr := 16\<rparr>, s3)" by (simp add: file_read_def O_RDONLY_def)
  then have rd: "fs_fread (int h) 16 c = Some (16, param_text ?s idx, c\<lparr>filesys := s3, file_at := (file_at c)(created := ?f\<lparr>file_ptr := 16\<rparr>)\<rparr>)"
    using fo by (simp add: fs_fread_def) (simp add: c_def)
  obtain s4 where s4: "(case r of None \<Rightarrow> Some s3 | Some v \<Rightarrow> cache_set_policy (long_to_int v) s3) = Some s4" "same s3 s4"
    "\<And>v. r = Some v \<Longrightarrow> 0 \<le> long_to_int v \<Longrightarrow> policy_writeback_interval s4 = long_to_int v \<and> \<not> policy_writethrough s4"
  proof (cases r)
    case None
    then show thesis using that [of s3] same_refl s3(2) by simp
  next
    case (Some v)
    obtain s4 where "cache_set_policy (long_to_int v) s3 = Some s4" "same s3 s4" "0 \<le> long_to_int v \<Longrightarrow> policy_writeback_interval s4 = long_to_int v \<and> \<not> policy_writethrough s4"
      by (rule set_policy_same [OF s3(2), of "long_to_int v"]) blast
    with that [of s4] Some show thesis by simp
  qed
  note s04 = same_trans [OF s03 s4(2)]
  define x' where "x' = x\<lparr>fd_param := int h, calls := c\<lparr>filesys := s4, file_at := (file_at c)(created := ?f\<lparr>file_ptr := 16\<rparr>)\<rparr>\<rparr>"
  have res: "init_parameters p created junk x = Some x'"
    using open' rd t s4(1) by (cases r) (simp_all add: init_parameters_def x'_def param_text_def)
  have "param_open x' idx created" using param_file_same(1) [OF s04 f] same_inode [OF s04 d(3)] fo by (simp add: param_open_def x'_def file_of_def)
  with that [OF res] s04 s4(3) show thesis by (simp add: x'_def)
qed

section \<open>Setting the parameter writes the file\<close>

text \<open>What a write leaves as it was, besides \<open>file_write_ok\<close>.\<close>

lemma file_write_frame:
  assumes w: "writable s (finode f)" and len: "unat (file_ptr f) + length buff \<le> 32768" and idx: "unat (inode_idx f) < 32768" and r: "file_write buff f s = Some (n, f', s')"
  shows "cwd s' = cwd s \<and> blocks_used s \<subseteq> blocks_used s'"
proof (cases "fmode f AND O_WRONLY = 0")
  case False
  obtain md ino s1 where l: "write_loop buff False f s = Some (False \<or> md, f\<lparr>finode := ino, file_ptr := file_ptr f + of_nat (length buff)\<rparr>, s1)"
    "writable s1 ino" "wrote s (finode f) (unat (file_ptr f)) buff s1 ino"
    using write_loop_ok [OF w len, of False] by (elim exE conjE) (rule that)
  have iv: "fs_inv s1" "inode_ok ino" using l(2) by (simp_all add: writable_def direct_ok_def)
  have "cwd s' = cwd s1 \<and> blocks_used s' = blocks_used s1"
  proof (cases md)
    case True
    obtain s2 where "write_inode (inode_idx f) ino s1 = Some s2" "blocks_used s2 = blocks_used s1" "cwd s2 = cwd s1" by (rule write_inode_ok [OF iv(1) idx iv(2)])
    with r l(1) True False show ?thesis by (simp add: file_write_def)
  qed (use r l(1) False in \<open>simp add: file_write_def\<close>)
  with wroteD(7,8) [OF l(3)] show ?thesis by simp
qed (use r in \<open>simp add: file_write_def\<close>)

text \<open>A write at the beginning of the file.\<close>

lemma param_write:
  assumes e: "param_entry s1 idx" and bs: "bs \<noteq> []" "length bs \<le> 16" "length bs = 16 \<or> 16 \<le> unat (isize (inode_at s1 idx))"
    and f: "f = \<lparr>inode_idx = idx, fmode = 3, file_ptr = 0, finode = inode_at s1 idx\<rparr>"
  obtains ino s2 where "file_write bs f s1 = Some (int (length bs), f\<lparr>finode := ino, file_ptr := of_nat (length bs)\<rparr>, s2)" "inode_at s2 idx = ino" "param_file s2 idx"
    "param_text s2 idx = bs @ drop (length bs) (param_text s1 idx)"
proof -
  let ?ino = "inode_at s1 idx" and ?dir = "inode_at s1 (cwd s1)"
  have d: "dir_readable s1" "dir_lookup s1 sysparams = Some idx" "unat idx < 32768" "idx \<noteq> cwd s1" "itype ?ino = 2" "writable s1 ?ino" "set (data_direct ?dir) \<inter> set (data_direct ?ino) \<subseteq> {0}"
    using e by (simp_all add: param_entry_def)
  have pre: "writable s1 (finode f)" "fmode f AND O_WRONLY \<noteq> 0" "unat (file_ptr f) + length bs \<le> 32768" "unat (inode_idx f) < 32768" "inode_at s1 (inode_idx f) = finode f"
    using d(3,6) bs(2) by (simp_all add: O_WRONLY_def f)
  obtain ino s2 where w: "file_write bs f s1 = Some (int (length bs), f\<lparr>finode := ino, file_ptr := file_ptr f + of_nat (length bs)\<rparr>, s2)"
    "writable s2 ino" "inode_at s2 (inode_idx f) = ino"
    "\<forall>q<32768. file_byte s2 ino q = (if unat (file_ptr f) \<le> q \<and> q < unat (file_ptr f) + length bs then bs ! (q - unat (file_ptr f)) else file_byte s1 (finode f) q)"
    "\<forall>q. unat (file_ptr f) \<le> q \<and> q < unat (file_ptr f) + length bs \<longrightarrow> data_direct ino ! (q div 4096) \<noteq> 0"
    "\<forall>c. data_block s1 c \<longrightarrow> c \<notin> set (data_direct (finode f)) \<longrightarrow> c \<notin> set (data_direct ino) \<and> content s2 c = content s1 c"
    "\<forall>i. unat i < 32768 \<longrightarrow> i \<noteq> inode_idx f \<longrightarrow> inode_at s2 i = inode_at s1 i"
    "itype (finode f) = 2 \<longrightarrow> unat (isize ino) = (if bs = [] then unat (isize (finode f)) else max (unat (isize (finode f))) (unat (file_ptr f) + length bs))"
    "itype ino = itype (finode f)"
    by (rule file_write_ok [OF pre])
  have fr: "cwd s2 = cwd s1" "blocks_used s1 \<subseteq> blocks_used s2" using file_write_frame [OF pre(1,3,4) w(1)] by simp_all
  have cw: "unat (cwd s1) < 32768" "direct_ok s1 ?dir" using d(1) by (simp_all add: dir_readable_def)
  have at: "inode_at s2 idx = ino" "inode_at s2 (cwd s1) = ?dir" using w(3,7) cw(1) d(4) by (simp_all add: f)
  have dd: "length (data_direct ?dir) = 8" using cw(2) by (simp add: direct_ok_def inode_ok_def INODE_DATA_DIRECT_def)
  have apart: "c \<notin> set (data_direct ino) \<and> content s2 c = content s1 c" if c: "c \<in> set (data_direct ?dir)" "c \<noteq> 0" for c
  proof -
    have "data_block s1 c" using c cw(2) dd by (auto simp: direct_ok_def in_set_conv_nth)
    moreover have "c \<notin> set (data_direct ?ino)" using c d(7) by blast
    ultimately show ?thesis using w(6) by (simp add: f)
  qed
  have "dir_data s2 q = dir_data s1 q" if "q < 32768" for q
    using apart [of "data_direct ?dir ! (q div 4096)"] dd that by (simp add: dir_data_def fr(1) at file_byte_def Let_def)
  note look = dir_lookup_cong [OF this sysparams_name(1)]
  have "direct_ok s2 ?dir" using cw(2) fr(2) by (auto simp: direct_ok_def data_block_def)
  then have "dir_readable s2" using cw(1) w(2) by (simp add: dir_readable_def fr(1) at writable_def)
  moreover have "set (data_direct ?dir) \<inter> set (data_direct ino) \<subseteq> {0}" using apart by blast
  moreover have "data_direct ino ! 0 \<noteq> 0" using w(5) [rule_format, of 0] bs(1) by (simp add: f)
  ultimately have pf: "param_file s2 idx" using d(2-5) w(2,8,9) bs(1,3) by (auto simp: param_file_def param_entry_def look fr(1) at f)
  have tx: "param_text s2 idx = bs @ drop (length bs) (param_text s1 idx)"
    by (rule nth_equalityI) (use w(4) bs(2) in \<open>simp_all add: param_text_def at nth_append f del: upt_conv_Cons\<close>)
  from w(1) have "file_write bs f s1 = Some (int (length bs), f\<lparr>finode := ino, file_ptr := of_nat (length bs)\<rparr>, s2)" by (simp add: f)
  from that [OF this at(1) pf tx] show thesis .
qed

lemma set_writes:
  assumes o: "param_open x idx a" and v: "- 1 \<le> v" "v < 2147483648"
  obtains x' where "set_parameter 0 v x = Some (0, x')" "param_file (filesys (calls x')) idx"
    "param_text (filesys (calls x')) idx = to_string v @ drop (length (to_string v)) (param_text (filesys (calls x)) idx)"
proof -
  let ?s = "filesys (calls x)" and ?t = "to_string v"
  obtain fp where f: "param_file ?s idx" "file_of (fd_param x) (calls x) = Some a" "file_at (calls x) a = \<lparr>inode_idx = idx, fmode = 3, file_ptr = fp, finode = inode_at ?s idx\<rparr>"
    using o by (auto simp: param_open_def)
  have iv: "fs_inv ?s" using param_fileD(6) [OF f(1)] by (simp add: writable_def)
  obtain s1 where s1: "cache_set_policy (long_to_int v) ?s = Some s1" "same ?s s1" by (rule set_policy_same [OF iv])
  have f1: "param_file s1 idx" and t1: "param_text s1 idx = param_text ?s idx" using param_file_same [OF s1(2) f(1)] by simp_all
  note tl = length_to_string [OF v]
  have e1: "param_entry s1 idx" "length ?t \<le> 16" "length ?t = 16 \<or> 16 \<le> unat (isize (inode_at s1 idx))" using f1 tl(1) by (simp_all add: param_file_def)
  let ?f = "\<lparr>inode_idx = idx, fmode = 3, file_ptr = 0, finode = inode_at s1 idx\<rparr>"
  obtain ino s2 where w: "file_write ?t ?f s1 = Some (int (length ?t), ?f\<lparr>finode := ino, file_ptr := of_nat (length ?t)\<rparr>, s2)" "param_file s2 idx"
    "param_text s2 idx = ?t @ drop (length ?t) (param_text s1 idx)"
    by (rule param_write [OF e1(1) tl(2) e1(2,3) refl])
  define c where "c = (calls x)\<lparr>filesys := s2, file_at := (file_at (calls x))(a := ?f\<lparr>finode := ino, file_ptr := of_nat (length ?t)\<rparr>)\<rparr>"
  have "inode_at ?s idx = inode_at s1 idx" using same_inode [OF s1(2) param_fileD(3) [OF f1]] by simp
  then have "set_parameter 0 v x = Some (0, x\<lparr>calls := c\<rparr>)"
    using s1(1) f(2,3) w(1) by (simp add: set_parameter_def fs_lseek_def fs_fwrite_def file_of_def file_lseek_def Let_def c_def)
  from that [OF this] w(2,3) t1 show thesis by (simp add: c_def)
qed

text \<open>
  C24: A parameter that is set is found again at the next start. Let the file of the parameters be there, with no text behind the digits of the new number. Start-up opens the file, \<open>set_parameter\<close> succeeds,
  and whenever the machine is started again, with the same blocks and no open file, start-up sets the interval of the cache to that number. A policy of \<open>-1\<close> is not found again: its sign ends the loop.
\<close>

theorem parameter_persists:
  assumes pf: "param_file (filesys (calls x)) idx" "no_files p created (calls x)" and v: "0 \<le> v" "v < 2147483648"
    and rest: "param_text (filesys (calls x)) idx ! length (to_string v) = 0"
  shows "\<exists>x1 x2. init_parameters p created junk x = Some x1 \<and> set_parameter 0 v x1 = Some (0, x2) \<and>
    (\<forall>y. same (filesys (calls x2)) (filesys (calls y)) \<and> no_files p created (calls y) \<longrightarrow>
      (\<exists>y'. init_parameters p created junk' y = Some y' \<and> policy_writeback_interval (filesys (calls y')) = v \<and> \<not> policy_writethrough (filesys (calls y'))))"
proof -
  have v': "- 1 \<le> v" using v(1) by simp
  obtain x1 where x1: "init_parameters p created junk x = Some x1" "param_open x1 idx created" "same (filesys (calls x)) (filesys (calls x1))"
    by (rule init_reads [OF pf refl, of junk]) blast
  obtain x2 where x2: "set_parameter 0 v x1 = Some (0, x2)" "param_file (filesys (calls x2)) idx"
    "param_text (filesys (calls x2)) idx = to_string v @ drop (length (to_string v)) (param_text (filesys (calls x1)) idx)" by (rule set_writes [OF x1(2) v' v(2)])
  note tl = length_to_string [OF v' v(2)]
  have t: "param_text (filesys (calls x1)) idx = param_text (filesys (calls x)) idx" by (rule param_file_same(2) [OF x1(3) pf(1)])
  have ln: "length (param_text (filesys (calls x)) idx) = 16" by (simp add: param_text_def)
  then obtain rs where "drop (length (to_string v)) (param_text (filesys (calls x)) idx) = 0 # rs" using rest tl(1) by (metis Cons_nth_drop_Suc le_less_trans numeral_less_iff semiring_norm(76,78,81))
  then have num: "policy_loop (param_text (filesys (calls x2)) idx) 0 = Some v" using x2(3) t policy_loop_to_string [OF v(1), of "0 # rs"] by simp
  have "\<exists>y'. init_parameters p created junk' y = Some y' \<and> policy_writeback_interval (filesys (calls y')) = v \<and> \<not> policy_writethrough (filesys (calls y'))"
    if y: "same (filesys (calls x2)) (filesys (calls y))" "no_files p created (calls y)" for y
  proof -
    note f = param_file_same [OF y(1) x2(2)]
    have num1: "policy_loop (param_text (filesys (calls y)) idx) 0 = Some v" using num f(2) by simp
    obtain y' where "init_parameters p created junk' y = Some y'"
      "0 \<le> long_to_int v \<Longrightarrow> policy_writeback_interval (filesys (calls y')) = long_to_int v \<and> \<not> policy_writethrough (filesys (calls y'))"
      by (rule init_reads [OF f(1) y(2) num1, of junk']) blast
    moreover have "long_to_int v = v" using v by (intro long_to_int_small) simp_all
    ultimately show ?thesis using v(1) by auto
  qed
  with x1(1) x2(1) show ?thesis by blast
qed

lemma minus_one_lost: "policy_loop (to_string (- 1) @ rest) 0 = None"
  by (simp add: to_string_def low_digits.simps)

text \<open>A directory with an empty parameter file.\<close>

lemma param_file_made:
  obtains s idx where "param_file s idx" "param_text s idx = replicate 16 0"
proof -
  obtain s0 where s0: "cwd_ok s0" "unat (cwd s0) \<in> inodes_used s0" "\<forall>q. dir_lookup s0 q = None" "has_slot s0" "inodes_used s0 \<noteq> {..< 32768}" "9 \<le> card (free_blocks s0)"
    by (rule empty_dir_ready)
  have none: "dir_lookup s0 sysparams = None" using s0(3) by simp
  obtain n s1 where s1: "unat n \<notin> inodes_used s0" "unat n < 32768" "cwd s1 = cwd s0" "cwd_ok s1" "\<forall>q. name_ok q \<longrightarrow> dir_lookup s1 q = ((dir_lookup s0)(sysparams \<mapsto> n)) q"
    "card (free_blocks s0) \<le> Suc (card (free_blocks s1))" by (rule create_ok [OF s0(1,2) sysparams_name(2) none s0(4,5)])
  have ne: "n \<noteq> cwd s1" using s1(1,3) s0(2) by auto
  have w1: "fs_inv s1" "meta_used s1" "unat (cwd s1) < 32768" "direct_ok s1 (inode_at s1 (cwd s1))" using s1(4) by (simp_all add: cwd_ok_def writable_def)
  have ok: "inode_ok empty_file" by (simp add: inode_ok_def empty_file_def layout_consts)
  obtain s2 where s2: "fs_inv s2" "inode_at s2 n = empty_file" "\<forall>i. unat i < 32768 \<longrightarrow> i \<noteq> n \<longrightarrow> inode_at s2 i = inode_at s1 i"
    "\<forall>b. valid_block b \<longrightarrow> unat b < 5 \<or> 517 \<le> unat b \<longrightarrow> content s2 b = content s1 b" "blocks_used s2 = blocks_used s1" "cwd s2 = cwd s1"
    by (rule write_inode_ok [OF w1(1) s1(2) ok])
  have d2: "data_same s1 s2" using s2 by (simp add: data_same_def)
  have "card (holes empty_file) \<le> card {..< 8 :: nat}" by (rule card_mono) (auto simp: holes_def)
  then have "room s2 empty_file" using s1(6) s0(6) s2(5) by (simp add: room_def free_blocks_def)
  then have wr: "writable s2 empty_file" using s2(1,5) w1(2) ok by (simp add: writable_def meta_used_def direct_ok_def) (simp add: empty_file_def)
  have "dir_data s2 q = dir_data s1 q" if "q < 32768" for q
    using data_same_byte [OF d2 w1(4) that] s2(3) w1(3) ne by (simp add: dir_data_def s2(6))
  note look = dir_lookup_cong [OF this sysparams_name(1)]
  have "dir_readable s2" using s2(1,3,6) w1(3,4) ne data_same_direct [OF d2] by (simp add: dir_readable_def)
  moreover have "dir_lookup s2 sysparams = Some n" using look s1(5) sysparams_name(2) by simp
  ultimately have e: "param_entry s2 n" using wr s1(2) ne s2(2,6) by (simp add: param_entry_def) (simp add: empty_file_def)
  have bs: "replicate 16 (0 :: u8) \<noteq> []" "length (replicate 16 (0 :: u8)) \<le> 16" "length (replicate 16 (0 :: u8)) = 16 \<or> 16 \<le> unat (isize (inode_at s2 n))" by simp_all
  obtain s3 where "param_file s3 n" "param_text s3 n = replicate 16 0 @ drop (length (replicate 16 (0 :: u8))) (param_text s2 n)" by (rule param_write [OF e bs refl])
  with that [of s3 n] show thesis by (simp add: param_text_def)
qed

theorem parameter_persists_witness:
  "\<exists>x x1 x2 y'. init_parameters 0 0x51000080 [] x = Some x1 \<and> set_parameter 0 30 x1 = Some (0, x2) \<and>
    init_parameters 0 0x51000080 [] (x2\<lparr>calls := calls x2\<lparr>fpool := id_pool0, fobjs := kstate0\<rparr>\<rparr>) = Some y' \<and> policy_writeback_interval (filesys (calls (y' :: params))) = 30"
proof -
  obtain s idx where s: "param_file s idx" "param_text s idx = replicate 16 0" by (rule param_file_made)
  have n: "no_files 0 0x51000080 (c\<lparr>fpool := id_pool0, fobjs := kstate0\<rparr>)" for c by (simp add: no_files_def id_pool0_ok) (simp add: kstate0_def trie_new_ok)
  define x where "x = \<lparr>fd_param = 0, calls = \<lparr>filesys = s, fpool = id_pool0, fobjs = kstate0, file_at = undefined\<rparr>\<rparr>"
  have f: "param_file (filesys (calls x)) idx" "no_files 0 0x51000080 (calls x)" using s(1) n [of "calls x"] by (simp_all add: x_def)
  have v: "(0 :: int) \<le> 30" "(30 :: int) < 2147483648" by simp_all
  have "length (to_string 30) \<le> 10" using length_to_string(1) [of 30] by simp
  then have z: "param_text (filesys (calls x)) idx ! length (to_string 30) = 0" using s(2) by (simp add: x_def)
  from parameter_persists [OF f v z, of "[]" "[]"] obtain x1 x2 where r: "init_parameters 0 0x51000080 [] x = Some x1" "set_parameter 0 30 x1 = Some (0, x2)"
    "\<And>y. same (filesys (calls x2)) (filesys (calls y)) \<Longrightarrow> no_files 0 0x51000080 (calls y) \<Longrightarrow> \<exists>y'. init_parameters 0 0x51000080 [] y = Some y' \<and> policy_writeback_interval (filesys (calls y')) = 30" by blast
  obtain x1' where "init_parameters 0 0x51000080 [] x = Some x1'" "param_open x1' idx 0x51000080" by (rule init_reads [OF f refl, of "[]"])
  then have o: "param_open x1 idx 0x51000080" using r(1) by simp
  obtain x2' where "set_parameter 0 30 x1 = Some (0, x2')" "param_file (filesys (calls x2')) idx" by (rule set_writes [OF o, of 30]) simp_all
  then have "fs_inv (filesys (calls x2))" using r(2) param_fileD(6) [of "filesys (calls x2')" idx] by (simp add: writable_def)
  with r(3) [of "x2\<lparr>calls := calls x2\<lparr>fpool := id_pool0, fobjs := kstate0\<rparr>\<rparr>"] n [of "calls x2"] same_refl r(1,2) show ?thesis by fastforce
qed

end
