(* ===== verification/Mkfs.thy ===== *)
theory Mkfs
  imports DirProofs
begin

text \<open>
  Making and mounting the file system: what \<open>fs_mkfs\<close> leaves on the card, whatever was there before, and what \<open>init_filesystem\<close> finds after the machine was switched off.
\<close>

section \<open>The maps\<close>

lemma clear_blocks_ok:
  "cache_inv s \<Longrightarrow> (\<And>b. b \<in> set bs \<Longrightarrow> valid_block b) \<Longrightarrow>
    \<exists>s'. clear_blocks bs s = Some s' \<and> cache_inv s' \<and> cache_state.more s' = cache_state.more s \<and>
      (\<forall>b. valid_block b \<longrightarrow> content s' b = (if b \<in> set bs then (\<lambda>_. 0) else content s b))"
proof (induction bs arbitrary: s)
  case (Cons b bs)
  have v: "valid_block b" using Cons.prems(2) by simp
  obtain i s1 where o: "Block b s = Some (i, s1)" "cache_inv s1" "slot_holds s1 i b" "\<forall>b'. valid_block b' \<longrightarrow> content s1 b' = content s b'" "cache_state.more s1 = cache_state.more s"
    using cache.open_block [OF Cons.prems(1) v] by blast
  obtain s2 where s2: "save_block i clear_block s1 = Some s2" "cache_inv s2" "cache_state.more s2 = cache_state.more s1"
    "\<forall>b'. valid_block b' \<longrightarrow> content s2 b' = (if b' = b then on_block (clear_block (cache_data s1 i)) else content s1 b')"
    using cache.save [OF o(2) v o(3), of clear_block] by blast
  have z: "on_block (clear_block d) = (\<lambda>_. 0)" for d by (simp add: on_block_def clear_block_def fun_eq_iff)
  obtain s3 where s3: "clear_blocks bs s2 = Some s3" "cache_inv s3" "cache_state.more s3 = cache_state.more s2"
    "\<forall>b. valid_block b \<longrightarrow> content s3 b = (if b \<in> set bs then (\<lambda>_. 0) else content s2 b)" using Cons.IH [OF s2(2)] Cons.prems(2) by auto
  show ?case using o(1,4,5) s2(1,3,4) s3 z by (intro exI [of _ s3]) (auto simp: save_block_def)
qed simp

lemma mark_blocks_bit: "bit_at (mark_blocks k d) m \<longleftrightarrow> m < k \<or> bit_at d m"
proof (induction k)
  case (Suc k)
  have e: "mark_blocks (Suc k) d = (mark_blocks k d)(k div 8 := mark_blocks k d (k div 8) OR push_bit (k mod 8) 1)" by (simp add: mark_blocks_def)
  have "bit_at (mark_blocks (Suc k) d) m \<longleftrightarrow> bit_at (mark_blocks k d) m \<or> m = k div 8 * 8 + k mod 8" unfolding e by (rule bit_at_set) simp
  then show ?case using Suc by auto
qed (simp add: mark_blocks_def)

lemma mkfs_sb:
  "inode_map_start_block (mkfs_superblock sb) = 1" "inode_map_size (mkfs_superblock sb) = 32768" "block_map_start_block (mkfs_superblock sb) = 2" "block_map_size (mkfs_superblock sb) = 98304"
  "inode_start_block (mkfs_superblock sb) = 5" "block_start_block (mkfs_superblock sb) = 517" "inode_free_min (mkfs_superblock sb) = 0" "block_free_min (mkfs_superblock sb) = 518"
  "magic0 (mkfs_superblock sb) = SUPERBLOCK_MAGIC" "magic1 (mkfs_superblock sb) = SUPERBLOCK_MAGIC"
  by (simp_all add: mkfs_superblock_def Let_def layout_consts)

text \<open>The first half of \<open>fs_mkfs\<close>: both maps are cleared, and the blocks before the first data block are taken.\<close>

definition mkfs_maps :: "fs \<Rightarrow> fs option" where
  "mkfs_maps s = do {
     let sb = superblock s;
     kassert (unat (block_start_block sb) < BLOCK_SIZE * 8);
     s \<leftarrow> clear_blocks (map (\<lambda>i. inode_map_start_block sb + of_nat i) [0 ..< unat (inode_map_size sb) div (8 * BLOCK_SIZE)]) s;
     (block, s) \<leftarrow> Block (block_map_start_block sb) s;
     let s = set_data block clear_block s;
     s \<leftarrow> update block (set_data block (mark_blocks (unat (block_start_block sb))) s);
     clear_blocks (map (\<lambda>i. block_map_start_block sb + of_nat i) [1 ..< unat (block_map_size sb) div (8 * BLOCK_SIZE)]) s
   }"

lemma mkfs_split:
  "fs_mkfs s = do {
     s \<leftarrow> mkfs_maps (s\<lparr>superblock := mkfs_superblock (superblock s)\<rparr>);
     (root, s) \<leftarrow> inode_alloc s;
     let s = s\<lparr>superblock := (superblock s)\<lparr>root_inode := root\<rparr>, cwd := root\<rparr>;
     s \<leftarrow> flush_superblock s;
     (_, inode, _, s) \<leftarrow> inode_modify_data True root_dir_inode (dot_entries (cwd s) (cwd s)) 0 (2 * DIRENTRY_SIZE) s;
     s \<leftarrow> write_inode (root_inode (superblock s)) inode s;
     Some (0, s)
   }"
  by (simp add: fs_mkfs_def mkfs_maps_def Let_def case_prod_unfold)

lemma mkfs_maps_ok:
  assumes "cache_inv s" "superblock s = mkfs_superblock sb"
  obtains s' where "mkfs_maps s = Some s'" "fs_inv s'" "inodes_used s' = {}" "blocks_used s' = {..< 517}" "superblock s' = superblock s"
    "\<forall>b. valid_block b \<longrightarrow> 517 \<le> unat b \<longrightarrow> content s' b = content s b"
proof -
  have v: "valid_block 1" "valid_block 2" "valid_block 3" "valid_block 4" by (simp_all add: valid_block_def fs_consts)
  obtain s1 where s1: "clear_blocks [1] s = Some s1" "cache_inv s1" "cache_state.more s1 = cache_state.more s"
    "\<forall>b. valid_block b \<longrightarrow> content s1 b = (if b \<in> set [1] then (\<lambda>_. 0) else content s b)" using clear_blocks_ok [OF assms(1), of "[1]"] v by auto
  obtain i s2 where o: "Block 2 s1 = Some (i, s2)" "cache_inv s2" "slot_holds s2 i 2" "\<forall>b'. valid_block b' \<longrightarrow> content s2 b' = content s1 b'" "cache_state.more s2 = cache_state.more s1"
    using cache.open_block [OF s1(2) v(2)] by blast
  let ?f = "mark_blocks 517 \<circ> clear_block"
  obtain s3 where s3: "save_block i ?f s2 = Some s3" "cache_inv s3" "cache_state.more s3 = cache_state.more s2"
    "\<forall>b'. valid_block b' \<longrightarrow> content s3 b' = (if b' = 2 then on_block (?f (cache_data s2 i)) else content s2 b')"
    using cache.save [OF o(2) v(2) o(3), of ?f] by blast
  obtain s4 where s4: "clear_blocks [3, 4] s3 = Some s4" "cache_inv s4" "cache_state.more s4 = cache_state.more s3"
    "\<forall>b. valid_block b \<longrightarrow> content s4 b = (if b \<in> set [3, 4] then (\<lambda>_. 0) else content s3 b)" using clear_blocks_ok [OF s3(2), of "[3, 4]"] v by auto
  have sb: "superblock s4 = superblock s" using frame_fs [OF s4(3)] frame_fs [OF s3(3)] frame_fs [OF o(5)] frame_fs [OF s1(3)] by simp
  have r: "mkfs_maps s = Some s4"
    using s1(1) o(1) s3(1) s4(1) by (simp add: mkfs_maps_def assms(2) mkfs_sb fs_consts save_block_def set_data_comp Let_def upt_rec)
  have c: "content s4 1 = (\<lambda>_. 0)" "content s4 2 = on_block (?f (cache_data s2 i))" "content s4 3 = (\<lambda>_. 0)" "content s4 4 = (\<lambda>_. 0)"
    using s4(4) s3(4) o(4) s1(4) v by simp_all
  have "\<not> map_bit s4 1 n" if "n < 32768" for n using that c(1) by (simp add: map_bit_def fs_consts bit_at_def)
  then have iu: "inodes_used s4 = {}" by (auto simp: inodes_used_def)
  have "map_bit s4 2 n \<longleftrightarrow> n < 517" if n: "n < 98304" for n
  proof -
    have "n div 32768 = 0 \<or> n div 32768 = 1 \<or> n div 32768 = 2" using n by linarith
    then show ?thesis
    proof (elim disjE)
      assume "n div 32768 = 0"
      then have l: "n < 32768" by (simp add: div_eq_0_iff)
      have "\<not> bit_at (clear_block d) n" for d using l by (simp add: bit_at_def clear_block_def fs_consts less_mult_imp_div_less)
      then show ?thesis using l c(2) bit_at_on_block [of n] by (simp add: map_bit_def fs_consts mark_blocks_bit)
    qed (use c(3,4) in \<open>auto simp: map_bit_def fs_consts bit_at_def\<close>)
  qed
  then have bu: "blocks_used s4 = {..< 517}" by (auto simp: blocks_used_def)
  have "fs_inv s4" using s4(2) by (simp add: fs_inv_def sb assms(2) mkfs_sb layout_ok_def)
  moreover have "content s4 b = content s b" if b: "valid_block b" "517 \<le> unat b" for b
  proof -
    have "b \<noteq> 1" "b \<noteq> 2" "b \<noteq> 3" "b \<noteq> 4" using b(2) by auto
    then show ?thesis using b(1) s4(4) s3(4) o(4) s1(4) by simp
  qed
  ultimately show thesis using that [OF r _ iu bu sb] by blast
qed

section \<open>The new file system\<close>

definition dot :: "u8 list" where "dot = [0x2e]"
definition dotdot :: "u8 list" where "dotdot = [0x2e, 0x2e]"

lemma dot_entries_patch:
  assumes "\<And>q. q < 32768 \<Longrightarrow> D q = (if q < 64 then dot_entries n m ! q else 0)"
  shows "\<forall>q. name_ok q \<longrightarrow> map_option (entry_inode D) (dir_find D q) = (if q = dotdot then Some m else if q = dot then Some n else None)"
    and "entry_valid D 2 = 0"
proof -
  let ?e = "\<lambda>n p. dir_bytes \<lparr>dinode = n, dvalid = 1, dname = p @ replicate (24 - length p) 0\<rparr>"
  let ?D0 = "(\<lambda>_. 0) :: bytes" and ?D1 = "\<lambda>q. if q < 32 then ?e n dot ! q else (0 :: u8)"
  have e: "dot_entries n m = ?e n dot @ ?e m dotdot" by (simp add: dot_entries_def dot_def dotdot_def)
  have l: "length (?e n dot) = 32" "length (?e m dotdot) = 32" by (simp_all add: dir_bytes_def dot_def dotdot_def)
  have ok: "name_ok dot" "name_ok dotdot" "dot \<noteq> dotdot" by (simp_all add: name_ok_def dot_def dotdot_def)
  have p1: "patched ?D0 (32 * 0) (?e n dot) ?D1" using l(1) by (simp add: patched_def)
  have p2: "patched ?D1 (32 * 1) (?e m dotdot) D" using assms l unfolding patched_def e by (auto simp: nth_append)
  have v0: "entry_valid ?D0 k = 0" "\<not> entry_is ?D0 k p" for k p by (simp_all add: entry_valid_def word_at_def u32_of_def entry_is_def)
  have f0: "dir_find ?D0 p = None" for p using v0(2) by (simp add: dir_find_def find_None_iff)
  have k: "(0 :: nat) < 1024" "(1 :: nat) < 1024" "(2 :: nat) < 1024" "(1 :: nat) \<noteq> 0" "(2 :: nat) \<noteq> 0" "(2 :: nat) \<noteq> 1" by simp_all
  note o1 = patched_other [OF p1 l(1)] and o2 = patched_other [OF p2 l(2)]
  have v1: "entry_valid ?D1 1 = 0" using o1(1) [OF k(2,4)] v0(1) by simp
  note l1 = patched_lookup [OF p1 k(1) v0(1) ok(1) f0]
  have "map_option (entry_inode ?D1) (dir_find ?D1 dotdot) = None" unfolding l1 [OF ok(2)] using ok(3) f0 by simp
  then have f1: "dir_find ?D1 dotdot = None" by (simp only: option.map_disc_iff)
  show "\<forall>q. name_ok q \<longrightarrow> map_option (entry_inode D) (dir_find D q) = (if q = dotdot then Some m else if q = dot then Some n else None)"
  proof (intro allI impI)
    fix q assume q: "name_ok q"
    show "map_option (entry_inode D) (dir_find D q) = (if q = dotdot then Some m else if q = dot then Some n else None)"
      unfolding patched_lookup [OF p2 k(2) v1 ok(2) f1 q] l1 [OF q] using f0 by simp
  qed
  show "entry_valid D 2 = 0" using o2(1) [OF k(3,6)] o1(1) [OF k(3,5)] v0(1) by simp
qed

text \<open>The root is entered into the superblock, which is flushed.\<close>

lemma root_flushed:
  assumes i2: "fs_inv s2" and u2: "inodes_used s2 = {0}" "blocks_used s2 = {..< 517}" and mg: "magic0 (superblock s2) = SUPERBLOCK_MAGIC" "magic1 (superblock s2) = SUPERBLOCK_MAGIC"
  obtains s4 where "flush_superblock (s2\<lparr>superblock := (superblock s2)\<lparr>root_inode := 0\<rparr>, cwd := 0\<rparr>) = Some s4" "fs_inv s4" "sb_synced s4" "inodes_used s4 = {0}" "blocks_used s4 = {..< 517}" "cwd s4 = 0"
    "sb_fixed (superblock s4) = (SUPERBLOCK_MAGIC, 0, SUPERBLOCK_MAGIC)" "\<forall>b. valid_block b \<longrightarrow> b \<noteq> 0 \<longrightarrow> content s4 b = content s2 b"
proof -
  let ?s3 = "s2\<lparr>superblock := (superblock s2)\<lparr>root_inode := 0\<rparr>, cwd := 0\<rparr>"
  have c3: "cache_inv ?s3" using i2 by (simp add: fs_inv_def)
  have u3: "inodes_used ?s3 = {0}" "blocks_used ?s3 = {..< 517}" using u2 by (simp_all add: inodes_used_def blocks_used_def map_bit_def)
  have i3: "fs_inv ?s3" using i2 u3 u2 by (simp add: fs_inv_def layout_ok_def)
  obtain s4 where f: "flush_superblock ?s3 = Some s4" "cache_inv s4" "cache_state.more s4 = cache_state.more ?s3" "\<forall>b. valid_block b \<longrightarrow> b \<noteq> 0 \<longrightarrow> content s4 b = content ?s3 b"
    by (rule flush_superblock_ok [OF c3])
  note u = used_cong [OF f(4)]
  have "fs_inv s4" using i3 f(2) u frame_fs [OF f(3)] by (simp add: fs_inv_def)
  with that [OF f(1)] flush_synced [OF c3 f(1)] u u3 frame_fs [OF f(3)] mg f(4) show thesis by (simp add: sb_fixed_def)
qed

text \<open>The directory of the root is written.\<close>

lemma root_written:
  assumes s4: "fs_inv s4" "sb_synced s4" "inodes_used s4 = {0}" "blocks_used s4 = {..< 517}" "cwd s4 = 0"
  obtains m dir s5 s6 where "inode_modify_data True root_dir_inode (dot_entries 0 0) 0 64 s4 = Some (m, dir, dot_entries 0 0, s5)" "write_inode 0 dir s5 = Some s6" "sb_kept s4 s5"
    "superblock s6 = superblock s5" "sb_synced s6" "cwd_ok s6" "cwd s6 = 0" "inodes_used s6 = {0}" "meta_used s6" "inode_at s6 0 = dir" "itype dir = 1"
    "\<forall>q < 32768. dir_data s6 q = (if q < 64 then dot_entries 0 0 ! q else 0)" "blank s4 \<longrightarrow> blank s6" "9 \<le> card (free_blocks s6)"
proof -
  let ?ub = "dot_entries 0 0"
  have len: "length ?ub = 64" by (simp add: dot_entries_def dir_bytes_def)
  have root: "inode_ok root_dir_inode" "data_direct root_dir_inode = replicate 8 0" "itype root_dir_inode = 1" by (simp_all add: root_dir_inode_def zero_inode_def inode_ok_def layout_consts)
  have w4: "writable s4 root_dir_inode"
  proof -
    have "{517 ..< 525} \<subseteq> free_blocks s4" using s4(4) by (auto simp: free_blocks_def)
    then have "card {517 ..< 525 :: nat} \<le> card (free_blocks s4)" by (rule card_mono [OF finite_holes(2)])
    moreover have "card (holes root_dir_inode) \<le> card {..< 8 :: nat}" by (rule card_mono) (auto simp: holes_def)
    ultimately show ?thesis using s4(1,4) root by (simp add: writable_def meta_used_def direct_ok_def room_def)
  qed
  have off: "unat (0 :: u32) < 32768" "unat (0 :: u32) mod 4096 + length ?ub \<le> 4096" by (simp_all add: len)
  obtain m dir s5 where m: "inode_modify_data True root_dir_inode ?ub 0 (length ?ub) s4 = Some (m, dir, ?ub, s5)" "writable s5 dir"
    "\<forall>p<32768. file_byte s5 dir p = (if unat (0 :: u32) \<le> p \<and> p < unat (0 :: u32) + length ?ub then ?ub ! (p - unat (0 :: u32)) else file_byte s4 root_dir_inode p)"
    "inodes_used s5 = inodes_used s4" "blocks_used s4 \<subseteq> blocks_used s5" "cwd s5 = cwd s4" "itype dir = itype root_dir_inode \<and> link_cnt dir = link_cnt root_dir_inode" "sb_kept s4 s5"
    "card (free_blocks s4) \<le> Suc (card (free_blocks s5))" "blank s4 \<longrightarrow> blank s5"
    by (rule modify_write_ok [OF w4 off])
  have i5: "fs_inv s5" "inode_ok dir" "unat (0 :: u32) < 32768" using m(2) by (simp_all add: writable_def direct_ok_def)
  obtain s6 where s6: "write_inode 0 dir s5 = Some s6" "fs_inv s6" "inode_at s6 0 = dir" "\<forall>b. valid_block b \<longrightarrow> unat b < 5 \<or> 517 \<le> unat b \<longrightarrow> content s6 b = content s5 b"
    "inodes_used s6 = inodes_used s5" "blocks_used s6 = blocks_used s5" "cwd s6 = cwd s5" "superblock s6 = superblock s5" by (rule write_inode_ok [OF i5(1,3,2)])
  have sf: "sb_synced s6" using m(8) s4(2) s6(8) s6(4) [rule_format, of 0] by (simp add: sb_kept_def sb_synced_def valid_block_def fs_consts)
  have d6: "data_same s5 s6" using s6 by (simp add: data_same_def)
  have cw: "cwd s6 = 0" using s6(7) m(6) s4(5) by simp
  have dd: "dir_data s6 q = (if q < 64 then dot_entries 0 0 ! q else 0)" if q: "q < 32768" for q
  proof -
    have "q div 4096 < 8" using q by simp
    then have "file_byte s4 root_dir_inode q = 0" by (simp add: file_byte_def root(2))
    moreover have "dir_data s6 q = file_byte s5 dir q" using data_same_byte [OF d6 _ q, of dir] m(2) s6(3) by (simp add: dir_data_def cw writable_def)
    ultimately show ?thesis using m(3) q len by simp
  qed
  have "cwd_ok s6" using data_same_writable [OF d6 m(2)] s6(3) by (simp add: cwd_ok_def cw)
  moreover have "meta_used s6" using m(5) s4(4) s6(6) by (simp add: meta_used_def)
  moreover have "blank s4 \<longrightarrow> blank s6" using m(10) data_same_blank [OF d6] by simp
  moreover have "9 \<le> card (free_blocks s6)"
  proof -
    have "{517 ..< 527} \<subseteq> free_blocks s4" using s4(4) by (auto simp: free_blocks_def)
    then have "card {517 ..< 527 :: nat} \<le> card (free_blocks s4)" by (rule card_mono [OF finite_holes(2)])
    then show ?thesis using m(9) s6(6) by (simp add: free_blocks_def)
  qed
  ultimately show thesis using that [OF m(1) [unfolded len] s6(1) m(8) s6(8) sf] cw s6(3,5) m(4,7) s4(3) root(3) dd by simp
qed

lemma mkfs_ok:
  assumes "cache_inv s"
  shows "\<exists>s'. fs_mkfs s = Some (0, s') \<and> fs_inv s' \<and> meta_used s' \<and> cwd_ok s' \<and> cwd s' = 0 \<and> sb_fixed (superblock s') = (SUPERBLOCK_MAGIC, 0, SUPERBLOCK_MAGIC) \<and> sb_synced s' \<and> inodes_used s' = {0} \<and>
    itype (inode_at s' 0) = 1 \<and> has_slot s' \<and> (\<forall>q. name_ok q \<longrightarrow> dir_lookup s' q = (if q = [0x2e] \<or> q = [0x2e, 0x2e] then Some 0 else None)) \<and>
    ((\<forall>b. valid_block b \<longrightarrow> 517 \<le> unat b \<longrightarrow> content s b = (\<lambda>_. 0)) \<longrightarrow> blank s') \<and> 9 \<le> card (free_blocks s')"
proof -
  let ?s0 = "s\<lparr>superblock := mkfs_superblock (superblock s)\<rparr>"
  have i0: "cache_inv ?s0" "superblock ?s0 = mkfs_superblock (superblock s)" using assms by simp_all
  obtain s1 where s1: "mkfs_maps ?s0 = Some s1" "fs_inv s1" "inodes_used s1 = {}" "blocks_used s1 = {..< 517}" "superblock s1 = superblock ?s0"
    "\<forall>b. valid_block b \<longrightarrow> 517 \<le> unat b \<longrightarrow> content s1 b = content ?s0 b" by (rule mkfs_maps_ok [OF i0])
  have "inodes_used s1 \<noteq> {..< 32768}" using s1(3) by (metis empty_iff lessThan_iff zero_less_numeral)
  then obtain r s2 where a: "inode_alloc s1 = Some (r, s2)" using inodes.alloc_some [OF s1(2)] by blast
  from inode_alloc_ok [OF s1(2)] a s1(3,4) have s2: "fs_inv s2" "unat r = 0" "inodes_used s2 = {0}" "blocks_used s2 = {..< 517}" by (auto simp: inode_frame_def)
  have mg: "magic0 (superblock s2) = SUPERBLOCK_MAGIC" "magic1 (superblock s2) = SUPERBLOCK_MAGIC" using inode_alloc_fixed [OF s1(2) a] s1(5) by (simp_all add: sb_fixed_def mkfs_sb)
  have r: "r = 0" using s2(2) by (simp add: unat_eq_0)
  obtain s4 where s4: "flush_superblock (s2\<lparr>superblock := (superblock s2)\<lparr>root_inode := 0\<rparr>, cwd := 0\<rparr>) = Some s4" "fs_inv s4" "sb_synced s4" "inodes_used s4 = {0}" "blocks_used s4 = {..< 517}"
    "cwd s4 = 0" "sb_fixed (superblock s4) = (SUPERBLOCK_MAGIC, 0, SUPERBLOCK_MAGIC)" "\<forall>b. valid_block b \<longrightarrow> b \<noteq> 0 \<longrightarrow> content s4 b = content s2 b" by (rule root_flushed [OF s2(1,3,4) mg])
  obtain m dir s5 s6 where w: "inode_modify_data True root_dir_inode (dot_entries 0 0) 0 64 s4 = Some (m, dir, dot_entries 0 0, s5)" "write_inode 0 dir s5 = Some s6" "sb_kept s4 s5"
    "superblock s6 = superblock s5" "sb_synced s6" "cwd_ok s6" "cwd s6 = 0" "inodes_used s6 = {0}" "meta_used s6" "inode_at s6 0 = dir" "itype dir = 1"
    "\<forall>q < 32768. dir_data s6 q = (if q < 64 then dot_entries 0 0 ! q else 0)" "blank s4 \<longrightarrow> blank s6" "9 \<le> card (free_blocks s6)" by (rule root_written [OF s4(2-6)])
  have sf: "sb_fixed (superblock s5) = (SUPERBLOCK_MAGIC, 0, SUPERBLOCK_MAGIC)" using w(3) s4(7) by (simp add: sb_kept_def)
  have res: "fs_mkfs s = Some (0, s6)" using s1(1) a r s4(1,6) w(1,2) sf by (simp add: mkfs_split DIRENTRY_SIZE_def sb_fixed_def)
  note de = dot_entries_patch [OF w(12) [rule_format]]
  have "has_slot s6" unfolding has_slot_def using de(2) by (intro exI [of _ 2]) simp
  moreover have "\<forall>q. name_ok q \<longrightarrow> dir_lookup s6 q = (if q = [0x2e] \<or> q = [0x2e, 0x2e] then Some 0 else None)" using de(1) by (auto simp: dir_lookup_def dot_def dotdot_def)
  moreover have "fs_inv s6" using w(6) by (simp add: cwd_ok_def writable_def)
  moreover have "blank s4" if z: "\<forall>b. valid_block b \<longrightarrow> 517 \<le> unat b \<longrightarrow> content s b = (\<lambda>_. 0)"
  proof -
    have "data_view s2 = data_view s1" using inode_alloc_ok [OF s1(2)] a by (simp add: inode_frame_def)
    then have "content s2 b = content s1 b" if "valid_block b" "517 \<le> unat b" for b
      using that by (auto simp: data_view_def dest!: fun_cong [of "data_view s2" "data_view s1" b])
    moreover have "b \<noteq> 0" if "517 \<le> unat b" for b :: u32 using that by auto
    ultimately show ?thesis using z s1(6) s4(8) by (simp add: blank_def)
  qed
  ultimately show ?thesis using res sf w(4-11,13,14) by auto
qed

text \<open>
  C16: \<open>fs_mkfs\<close> makes a well-formed file system out of any card: it succeeds, only inode 0, the root, is in use, the root is the current directory with the two entries that name it and room for more,
  and the superblock is on the card.
\<close>

theorem mkfs_ready:
  assumes "cache_inv s"
  shows "\<exists>s'. fs_mkfs s = Some (0, s') \<and> fs_inv s' \<and> meta_used s' \<and> cwd_ok s' \<and> cwd s' = 0 \<and> sb_fixed (superblock s') = (SUPERBLOCK_MAGIC, 0, SUPERBLOCK_MAGIC) \<and> sb_synced s' \<and> inodes_used s' = {0} \<and>
    itype (inode_at s' 0) = 1 \<and> has_slot s' \<and> (\<forall>q. name_ok q \<longrightarrow> dir_lookup s' q = (if q = [0x2e] \<or> q = [0x2e, 0x2e] then Some 0 else None))"
  using mkfs_ok [OF assms] by blast

theorem mkfs_ready_witness: "\<exists>s'. fs_mkfs fs0 = Some (0, s') \<and> dir_lookup s' [0x2e] = Some 0 \<and> dir_lookup s' [97] = None \<and> cwd_ok s'"
proof -
  have "cache_inv fs0" using fs0_inv by (simp add: fs_inv_def)
  from mkfs_ready [OF this] obtain s' where "fs_mkfs fs0 = Some (0, s')" "cwd_ok s'" "\<forall>q. name_ok q \<longrightarrow> dir_lookup s' q = (if q = [0x2e] \<or> q = [0x2e, 0x2e] then Some 0 else None)" by blast
  then show ?thesis by (simp add: name_ok_def)
qed

lemma remount_ok:
  assumes "fs_inv s" "sb_synced s" "magic0 (superblock s) = SUPERBLOCK_MAGIC" "magic1 (superblock s) = SUPERBLOCK_MAGIC"
    and "\<forall>b. valid_block b \<longrightarrow> disk_block s b = content s b" "sd t = sd s"
  shows "\<exists>t'. init_filesystem t = Some (True, t') \<and> superblock t' = superblock s \<and> same (s\<lparr>cwd := root_inode (superblock s)\<rparr>) t'"
proof -
  have v: "valid_block 0" by (simp add: valid_block_def fs_consts)
  have db: "disk_block t b = disk_block s b" for b using assms(6) by simp
  have c: "cache_inv (cache_init t)" "\<forall>b. valid_block b \<longrightarrow> content (cache_init t) b = content s b" using assms(5) by (simp_all add: cache_init_ok db)
  obtain i t1 where o: "Block 0 (cache_init t) = Some (i, t1)" "cache_inv t1" "on_block (cache_data t1 i) = content (cache_init t) 0" "\<forall>b. valid_block b \<longrightarrow> content t1 b = content (cache_init t) b"
    using cache.open_block [OF c(1) v] by blast
  have ld: "load_bytes (cache_data t1 i) 0 56 = load_bytes (content s 0) 0 56" using load_on_block [of 0 56 "cache_data t1 i"] o(3) c(2) v by (simp add: fs_consts)
  have sb: "sb_of (load_bytes (cache_data t1 i) 0 56) = superblock s" using assms(2) ld by (simp add: sb_synced_def)
  let ?t = "t1\<lparr>superblock := superblock s, cwd := root_inode (superblock s)\<rparr>" and ?s = "s\<lparr>cwd := root_inode (superblock s)\<rparr>"
  have r: "init_filesystem t = Some (True, ?t)" using o(1) sb assms(3,4) by (simp add: init_filesystem_def Let_def)
  have ct: "content ?t b = content ?s b" if "valid_block b" for b using that o(4) c(2) by simp
  have more: "cache_state.more ?t = cache_state.more ?s" by (cases s; cases t1) simp
  have "fs_inv ?s" "cache_inv ?t" using assms(1) o(2) by simp_all
  note fr = fs_inv_frame [OF this more]
  have "same ?s ?t" using fr ct frame_fs [OF more] by (simp add: same_def)
  with r show ?thesis by (intro exI [of _ ?t]) simp
qed

text \<open>
  C23: What is on the card is found again. Let the cache have nothing that the card has not, and the superblock be on the card, as it is after every allocation. When the machine is started again, with any
  contents of its memory, \<open>init_filesystem\<close> finds the file system and makes the root the current directory; every block reads as before.
\<close>

theorem remount_same:
  assumes "fs_inv s" "sb_synced s" "magic0 (superblock s) = SUPERBLOCK_MAGIC" "magic1 (superblock s) = SUPERBLOCK_MAGIC"
    and "\<forall>b. valid_block b \<longrightarrow> disk_block s b = content s b" "sd t = sd s"
  shows "\<exists>t'. init_filesystem t = Some (True, t') \<and> superblock t' = superblock s \<and> same (s\<lparr>cwd := root_inode (superblock s)\<rparr>) t'"
  by (rule remount_ok [OF assms])

text \<open>The file system that \<open>fs_mkfs\<close> makes, written back and mounted again.\<close>

lemma made_and_saved:
  obtains s where "fs_inv s" "sb_synced s" "sb_fixed (superblock s) = (SUPERBLOCK_MAGIC, 0, SUPERBLOCK_MAGIC)" "\<forall>b. valid_block b \<longrightarrow> disk_block s b = content s b"
proof -
  have c0: "cache_inv fs0" using fs0_inv by (simp add: fs_inv_def)
  obtain s1 where s1: "fs_inv s1" "sb_fixed (superblock s1) = (SUPERBLOCK_MAGIC, 0, SUPERBLOCK_MAGIC)" "sb_synced s1" using mkfs_ok [OF c0] by blast
  have c1: "cache_inv s1" using s1(1) by (simp add: fs_inv_def)
  obtain s2 where s2: "cache_writeback s1 = Some s2" "cache_inv s2" "\<forall>b. valid_block b \<longrightarrow> content s2 b = content s1 b" "cache_state.more s2 = cache_state.more s1"
    using writeback_from_ok [OF c1, of "[0 ..< CACHE_SIZE]"] by (auto simp: cache_writeback_def atLeast0LessThan)
  have d: "\<forall>b. valid_block b \<longrightarrow> disk_block s2 b = content s2 b" by (rule cache_writeback_ok [OF c1]) (use s2 in auto)
  have "fs_inv s2" using fs_inv_frame(1) [OF s1(1) s2(2,4)] s2(3) by simp
  with that d s1(2,3) s2(3) [rule_format, of 0] frame_fs [OF s2(4)] show thesis by (simp add: sb_synced_def valid_block_def fs_consts)
qed

theorem remount_same_witness: "\<exists>s t'. init_filesystem (cache_init (s\<lparr>superblock := superblock fs0, cwd := 7\<rparr>)) = Some (True, t') \<and> superblock t' = superblock s \<and> same (s\<lparr>cwd := 0\<rparr>) (t' :: fs)"
proof -
  obtain s where s: "fs_inv s" "sb_synced s" "sb_fixed (superblock s) = (SUPERBLOCK_MAGIC, 0, SUPERBLOCK_MAGIC)" "\<forall>b. valid_block b \<longrightarrow> disk_block s b = content s b" by (rule made_and_saved)
  have f: "magic0 (superblock s) = SUPERBLOCK_MAGIC" "magic1 (superblock s) = SUPERBLOCK_MAGIC" "root_inode (superblock s) = 0" using s(3) by (simp_all add: sb_fixed_def)
  have "sd (cache_init (s\<lparr>superblock := superblock fs0, cwd := 7\<rparr>)) = sd s" by (simp add: cache_init_def)
  from remount_same [OF s(1,2) f(1,2) s(4) this] f(3) show ?thesis by auto
qed

end
