(* ===== verification/StartFiles.thy ===== *)
theory StartFiles
  imports SysParams Mkfs
begin

text \<open>
  The files at start-up: \<open>init_filesystem\<close> and then \<open>init_parameters\<close>, on a card that has a file system and on a blank one. On a blank card the file system is made, and the parameter file is created by its
  first reading.
\<close>

section \<open>Reading a hole\<close>

text \<open>Storing into a slot what it holds already.\<close>

lemma set_data_same:
  fixes s :: "'a cache_state_scheme"
  assumes "cache_inv s" "on_block (f (cache_data s i)) = on_block (cache_data s i)"
  shows "cache_inv (set_data i f s)" "content (set_data i f s) b = content s b" "cache_state.more (set_data i f s) = cache_state.more s"
proof -
  have d: "on_block (cache_data (set_data i f s) j) = on_block (cache_data s j)" for j using assms(2) by (simp add: set_data_def)
  have e: "cache_blockid (set_data i f s) = cache_blockid s" "cache_dirty (set_data i f s) = cache_dirty s" "sd (set_data i f s) = sd s" by (simp_all add: set_data_def)
  have "cache_wf (set_data i f s) = cache_wf s" by (simp add: cache_wf_def e)
  moreover have "clean (set_data i f s) j = clean s j" for j unfolding clean_def d e ..
  ultimately show "cache_inv (set_data i f s)" using assms(1) by (simp add: cache_inv_def)
  show "content (set_data i f s) b = content s b" unfolding content_def d e ..
  show "cache_state.more (set_data i f s) = cache_state.more s" by (simp add: set_data_def)
qed

text \<open>The first read of an empty file takes a block. It is cleared in the cache only, which is enough if the block on the card is clear.\<close>

lemma first_read:
  assumes inv: "fs_inv s" "meta_used s" "blank s" "blocks_used s \<noteq> {..< 98304}"
  obtains b s' where "inode_modify_data False empty_file ub 0 16 s = Some (True, empty_file\<lparr>isize := 16, data_direct := (replicate 8 0)[0 := b]\<rparr>, replicate 16 0, s')"
    "fs_inv s'" "data_block s' b" "unat b \<notin> blocks_used s" "blocks_used s' = insert (unat b) (blocks_used s)" "inodes_used s' = inodes_used s" "cwd s' = cwd s"
    "\<forall>c. valid_block c \<longrightarrow> 5 \<le> unat c \<longrightarrow> content s' c = content s c" "content s' b = (\<lambda>_. 0)"
proof -
  let ?z = "\<lambda>(d :: bytes) i. if i < BLOCK_SIZE then 0 else d i"
  obtain b s1 where a: "block_alloc s = Some (b, s1)" "fs_inv s1" "data_block s1 b" "unat b \<notin> blocks_used s" "blocks_used s1 = insert (unat b) (blocks_used s)"
    "inodes_used s1 = inodes_used s" "cwd s1 = cwd s" "\<forall>c. valid_block c \<longrightarrow> 5 \<le> unat c \<longrightarrow> content s1 c = content s c" by (rule block_alloc_fresh [OF inv(1,2,4)])
  note v = data_block_valid [OF a(3)]
  have c1: "cache_inv s1" using a(2) by (simp add: fs_inv_def)
  have "517 \<le> unat b" using a(3) by (simp add: data_block_def)
  then have z: "content s1 b = (\<lambda>_. 0)" using inv(3) a(4,8) v by (simp add: blank_def)
  obtain i s2 where o: "Block b s1 = Some (i, s2)" "cache_inv s2" "on_block (cache_data s2 i) = content s1 b" "\<forall>c. valid_block c \<longrightarrow> content s2 c = content s1 c" "cache_state.more s2 = cache_state.more s1"
    using cache.open_block [OF c1] v by blast
  have zz: "on_block (?z (cache_data s2 i)) = on_block (cache_data s2 i)" unfolding o(3) z by (simp add: on_block_def fun_eq_iff)
  note sd = set_data_same [where f = ?z, OF o(2) zz]
  let ?s = "set_data i ?z s2"
  have low: "\<forall>c. valid_block c \<longrightarrow> unat c < 5 \<longrightarrow> content ?s c = content s1 c" using o(4) sd(2) by simp
  have more: "cache_state.more ?s = cache_state.more s1" using sd(3) o(5) by simp
  note fr = fs_inv_frame [OF a(2) sd(1) more low]
  have ld: "load_bytes (cache_data ?s i) 0 16 = replicate 16 0" by (rule nth_equalityI) (simp_all add: load_bytes_def set_data_def fs_consts)
  have "inode_modify_data_recur False InodeRef 0 UserBuf ub 0 16 0 s = Some (True, b, replicate 16 0, ?s)"
    using a(1) o(1) ld by (simp add: inode_modify_data_recur.simps open_or_alloc_def set_ref_def)
  then have r: "inode_modify_data False empty_file ub 0 16 s = Some (True, empty_file\<lparr>isize := 16, data_direct := (replicate 8 0)[0 := b]\<rparr>, replicate 16 0, ?s)"
    by (simp add: inode_modify_data_def level_bounds fs_consts empty_file_def)
  show thesis
    by (rule that [OF r fr(1)]) (use a v fr(2,3) o(4) sd(2) z frame_fs [OF more] in \<open>simp_all add: data_block_def\<close>)
qed

section \<open>The parameter file is made\<close>

text \<open>The directory reads as before, although blocks have been taken.\<close>

definition dir_kept :: "fs \<Rightarrow> fs \<Rightarrow> bool" where
  "dir_kept s s' \<longleftrightarrow> cwd s' = cwd s \<and> unat (cwd s) < 32768 \<and> fs_inv s' \<and> inode_at s' (cwd s) = inode_at s (cwd s) \<and> direct_ok s (inode_at s (cwd s)) \<and> blocks_used s \<subseteq> blocks_used s' \<and>
     (\<forall>c. data_block s c \<longrightarrow> content s' c = content s c)"

lemma dir_kept_trans: "dir_kept s s1 \<Longrightarrow> dir_kept s1 s2 \<Longrightarrow> dir_kept s s2"
  by (auto simp: dir_kept_def data_block_def)

lemma dir_keptD:
  assumes "dir_kept s s'"
  shows "dir_readable s'" "dir_lookup s' sysparams = dir_lookup s sysparams" "cwd s' = cwd s" "inode_at s' (cwd s) = inode_at s (cwd s)"
proof -
  let ?dir = "inode_at s (cwd s)"
  have k: "cwd s' = cwd s" "unat (cwd s) < 32768" "fs_inv s'" "inode_at s' (cwd s) = ?dir" "direct_ok s ?dir" "blocks_used s \<subseteq> blocks_used s'" "\<And>c. data_block s c \<Longrightarrow> content s' c = content s c"
    using assms by (simp_all add: dir_kept_def)
  have "direct_ok s' ?dir" using k(5,6) by (auto simp: direct_ok_def data_block_def)
  then show "dir_readable s'" using k(1-4) by (simp add: dir_readable_def)
  have "dir_data s' q = dir_data s q" if "q < 32768" for q
  proof -
    have "q div 4096 < 8" using that by simp
    then have "data_direct ?dir ! (q div 4096) \<noteq> 0 \<longrightarrow> data_block s (data_direct ?dir ! (q div 4096))" using k(5) by (simp add: direct_ok_def)
    then show ?thesis using k(7) by (auto simp: dir_data_def k(1,4) file_byte_def Let_def)
  qed
  from dir_lookup_cong [OF this sysparams_name(1)] show "dir_lookup s' sysparams = dir_lookup s sysparams" .
qed (use assms in \<open>simp_all add: dir_kept_def\<close>)

lemma same_dir_kept: "same s s' \<Longrightarrow> dir_readable s \<Longrightarrow> dir_kept s s'"
  using same_inode [of s s' "cwd s"] by (auto simp: dir_kept_def dir_readable_def same_def dest: data_block_valid)

lemma write_dir_kept:
  assumes "dir_readable s" "n \<noteq> cwd s" "fs_inv s'" "\<forall>i. unat i < 32768 \<longrightarrow> i \<noteq> n \<longrightarrow> inode_at s' i = inode_at s i"
    "\<forall>b. valid_block b \<longrightarrow> unat b < 5 \<or> 517 \<le> unat b \<longrightarrow> content s' b = content s b" "blocks_used s' = blocks_used s" "cwd s' = cwd s"
  shows "dir_kept s s'"
  using assms data_block_valid by (auto simp: dir_kept_def dir_readable_def data_block_def)

text \<open>The entry is made and its empty inode written; then the first read takes a block and the inode is written again.\<close>

definition made_entry :: "fs \<Rightarrow> u32 \<Rightarrow> fs \<Rightarrow> fs \<Rightarrow> fs \<Rightarrow> bool" where
  "made_entry s idx s1 s2 s3 \<longleftrightarrow> get_inode_by_filename sysparams True 0 s = Some (int (unat idx), s1) \<and> read_inode idx s1 = Some (zero_inode, s2) \<and> write_inode idx empty_file s2 = Some s3 \<and>
     dir_kept s1 s3 \<and> unat idx < 32768 \<and> idx \<noteq> cwd s1 \<and> dir_lookup s1 sysparams = Some idx \<and> cwd s3 = cwd s"

lemma entry_made:
  assumes s0: "cwd_ok s" "unat (cwd s) \<in> inodes_used s" "dir_lookup s sysparams = None" "has_slot s" "inodes_used s \<noteq> {..< 32768}" "blank s" "9 \<le> card (free_blocks s)"
  obtains idx s1 s2 s3 where "made_entry s idx s1 s2 s3" "meta_used s3" "blank s3" "8 \<le> card (free_blocks s3)"
proof -
  obtain idx s1 where s1: "get_inode_by_filename sysparams True 0 s = Some (int (unat idx), s1)" "unat idx \<notin> inodes_used s" "unat idx < 32768" "cwd s1 = cwd s" "cwd_ok s1" "inode_at s1 idx = zero_inode"
    "\<forall>q. name_ok q \<longrightarrow> dir_lookup s1 q = ((dir_lookup s)(sysparams \<mapsto> idx)) q" "card (free_blocks s) \<le> Suc (card (free_blocks s1))" "blank s \<longrightarrow> blank s1"
    by (rule create_ok [OF s0(1,2) sysparams_name(2) s0(3-5)])
  have ne: "idx \<noteq> cwd s1" using s1(2,4) s0(2) by auto
  have w1: "fs_inv s1" "meta_used s1" using s1(5) by (simp_all add: cwd_ok_def writable_def)
  obtain s2 where s2: "read_inode idx s1 = Some (inode_at s1 idx, s2)" "same s1 s2" by (rule read_inode_same [OF w1(1) s1(3)])
  note k2 = same_dir_kept [OF s2(2) cwd_readable [OF s1(5)]]
  have i2: "fs_inv s2" using s2(2) by (simp add: same_def)
  have ok: "inode_ok empty_file" by (simp add: inode_ok_def empty_file_def layout_consts)
  obtain s3 where s3: "write_inode idx empty_file s2 = Some s3" "fs_inv s3" "\<forall>i. unat i < 32768 \<longrightarrow> i \<noteq> idx \<longrightarrow> inode_at s3 i = inode_at s2 i"
    "\<forall>b. valid_block b \<longrightarrow> unat b < 5 \<or> 517 \<le> unat b \<longrightarrow> content s3 b = content s2 b" "blocks_used s3 = blocks_used s2" "cwd s3 = cwd s2"
    by (rule write_inode_ok [OF i2 s1(3) ok])
  have "dir_kept s2 s3" by (rule write_dir_kept [OF dir_keptD(1) [OF k2] _ s3(2-6)]) (use ne dir_keptD(3) [OF k2] in simp)
  note k3 = dir_kept_trans [OF k2 this]
  have d13: "data_same s1 s3" using s2(2) s3 by (simp add: same_def data_same_def)
  have m: "made_entry s idx s1 s2 s3" using s1 s2(1) s3(1) k3 ne sysparams_name(2) dir_keptD(3) [OF k3] by (simp add: made_entry_def)
  have u: "blocks_used s3 = blocks_used s1" using d13 by (simp add: data_same_def)
  show thesis by (rule that [OF m]) (use w1(2) u data_same_blank [OF d13] s1(8,9) s0(6,7) in \<open>simp_all add: meta_used_def free_blocks_def\<close>)
qed

abbreviation first_inode :: "u32 \<Rightarrow> inode" where
  "first_inode b \<equiv> empty_file\<lparr>isize := 16, data_direct := (replicate 8 0)[0 := b]\<rparr>"

lemma first_inode_writable:
  assumes "fs_inv s" "meta_used s" "data_block s b" "7 \<le> card (free_blocks s)"
  shows "writable s (first_inode b)"
proof -
  have nz: "b \<noteq> 0" using data_block_valid [OF assms(3)] by simp
  have ok: "inode_ok (first_inode b)" by (simp add: inode_ok_def empty_file_def layout_consts)
  have "card (holes (first_inode b)) \<le> card {1 ..< 8 :: nat}" by (rule card_mono) (use nz in \<open>auto simp: holes_def nth_list_update split: if_splits\<close>)
  moreover have "direct_ok s (first_inode b)" using ok assms(3) by (auto simp: direct_ok_def nth_list_update)
  ultimately show ?thesis using assms(1,2,4) by (simp add: writable_def room_def)
qed

lemma file_made:
  assumes m: "made_entry s idx s1 s2 s3" and pre: "meta_used s3" "blank s3" "8 \<le> card (free_blocks s3)"
  obtains b s4 s5 where "inode_modify_data False empty_file [] 0 16 s3 = Some (True, first_inode b, replicate 16 0, s4)" "write_inode idx (first_inode b) s4 = Some s5"
    "inode_at s5 idx = first_inode b" "param_file s5 idx" "param_text s5 idx = replicate 16 0" "cwd s5 = cwd s"
proof -
  have k13: "dir_kept s1 s3" and idx: "unat idx < 32768" "idx \<noteq> cwd s1" "dir_lookup s1 sysparams = Some idx" "cwd s3 = cwd s" using m by (simp_all add: made_entry_def)
  note rd3 = dir_keptD(1) [OF k13]
  have i3: "fs_inv s3" using rd3 by (simp add: dir_readable_def)
  have "free_blocks s3 \<noteq> {}" using pre(3) by auto
  then have full: "blocks_used s3 \<noteq> {..< 98304}" by (auto simp: free_blocks_def)
  obtain b s4 where s4: "inode_modify_data False empty_file [] 0 16 s3 = Some (True, first_inode b, replicate 16 0, s4)"
    "fs_inv s4" "data_block s4 b" "unat b \<notin> blocks_used s3" "blocks_used s4 = insert (unat b) (blocks_used s3)" "inodes_used s4 = inodes_used s3" "cwd s4 = cwd s3"
    "\<forall>c. valid_block c \<longrightarrow> 5 \<le> unat c \<longrightarrow> content s4 c = content s3 c" "content s4 b = (\<lambda>_. 0)" by (rule first_read [OF i3 pre(1,2) full])
  note v = data_block_valid [OF s4(3)]
  have at4: "inode_at s4 i = inode_at s3 i" if "unat i < 32768" for i using inode_pos [OF that] s4(8) by (simp add: inode_at_def)
  have k4: "dir_kept s3 s4" using rd3 s4 at4 data_block_valid by (auto simp: dir_kept_def dir_readable_def)
  have ino: "inode_ok (first_inode b)" by (simp add: inode_ok_def empty_file_def layout_consts)
  obtain s5 where s5: "write_inode idx (first_inode b) s4 = Some s5" "fs_inv s5" "inode_at s5 idx = first_inode b" "\<forall>i. unat i < 32768 \<longrightarrow> i \<noteq> idx \<longrightarrow> inode_at s5 i = inode_at s4 i"
    "\<forall>b. valid_block b \<longrightarrow> unat b < 5 \<or> 517 \<le> unat b \<longrightarrow> content s5 b = content s4 b" "blocks_used s5 = blocks_used s4" "cwd s5 = cwd s4"
    by (rule write_inode_ok [OF s4(2) idx(1) ino])
  have k5: "dir_kept s4 s5" by (rule write_dir_kept [OF dir_keptD(1) [OF k4] _ s5(2,4-7)]) (use idx(2) dir_keptD(3) [OF k13] dir_keptD(3) [OF k4] in simp)
  note k35 = dir_kept_trans [OF k4 k5]
  note k = dir_keptD [OF dir_kept_trans [OF k13 k35]]
  have "free_blocks s3 \<subseteq> insert (unat b) (free_blocks s5)" using s4(5) s5(6) by (auto simp: free_blocks_def)
  then have "card (free_blocks s3) \<le> card (insert (unat b) (free_blocks s5))" by (rule card_mono [rotated]) simp
  then have "7 \<le> card (free_blocks s5)" using pre(3) by (simp add: card_insert_if split: if_splits)
  then have wr: "writable s5 (first_inode b)" using s5(2,6) pre(1) s4(3,5) by (intro first_inode_writable) (auto simp: meta_used_def data_block_def)
  have "unat c \<in> blocks_used s3" if "c \<in> set (data_direct (inode_at s3 (cwd s3)))" "c \<noteq> 0" for c
    using rd3 that by (auto simp: dir_readable_def direct_ok_def inode_ok_def layout_consts in_set_conv_nth data_block_def)
  then have "set (data_direct (inode_at s3 (cwd s3))) \<inter> set (data_direct (first_inode b)) \<subseteq> {0}" using s4(4) set_update_subset_insert [of "replicate 8 0" 0 b] by auto
  moreover have "inode_at s3 (cwd s3) = inode_at s5 (cwd s5)" using dir_keptD(3,4) [OF k35] by simp
  ultimately have pf: "param_file s5 idx" using wr k(1-3) idx s5(3) v by (simp add: param_file_def param_entry_def) (simp add: empty_file_def)
  have "content s5 b = (\<lambda>_. 0)" using s5(5) s4(3,9) v by (simp add: data_block_def)
  then have tx: "param_text s5 idx = replicate 16 0" using v by (intro nth_equalityI) (simp_all add: param_text_def s5(3) file_byte_def Let_def del: upt_conv_Cons)
  show thesis by (rule that [OF s4(1) s5(1,3) pf tx]) (use dir_keptD(3) [OF k35] idx(4) in simp)
qed

lemma params_made:
  assumes s0: "cwd_ok (filesys (calls x))" "unat (cwd (filesys (calls x))) \<in> inodes_used (filesys (calls x))" "dir_lookup (filesys (calls x)) sysparams = None" "has_slot (filesys (calls x))"
      "inodes_used (filesys (calls x)) \<noteq> {..< 32768}" "blank (filesys (calls x))" "9 \<le> card (free_blocks (filesys (calls x)))" and n: "no_files p created (calls x)"
  obtains x' idx where "init_parameters p created junk x = Some x'" "param_open x' idx created" "policy_writeback_interval (filesys (calls x')) = 0" "\<not> policy_writethrough (filesys (calls x'))"
    "cwd (filesys (calls x')) = cwd (filesys (calls x))" "param_text (filesys (calls x')) idx = replicate 16 0"
proof -
  let ?s = "filesys (calls x)"
  obtain idx s1 s2 s3 where m: "made_entry ?s idx s1 s2 s3" "meta_used s3" "blank s3" "8 \<le> card (free_blocks s3)" by (rule entry_made [OF s0])
  obtain b s4 s5 where f: "inode_modify_data False empty_file [] 0 16 s3 = Some (True, first_inode b, replicate 16 0, s4)" "write_inode idx (first_inode b) s4 = Some s5"
    "inode_at s5 idx = first_inode b" "param_file s5 idx" "param_text s5 idx = replicate 16 0" "cwd s5 = cwd ?s" by (rule file_made [OF m])
  have i5: "fs_inv s5" using param_fileD(6) [OF f(4)] by (simp add: writable_def)
  obtain s6 where s6: "cache_set_policy 0 s5 = Some s6" "same s5 s6" "(0 :: int) \<le> 0 \<Longrightarrow> policy_writeback_interval s6 = 0 \<and> \<not> policy_writethrough s6" by (rule set_policy_same [OF i5, of 0]) blast
  have e: "get_inode_by_filename sysparams True 0 ?s = Some (int (unat idx), s1)" "read_inode idx s1 = Some (zero_inode, s2)" "write_inode idx empty_file s2 = Some s3" using m(1) by (simp_all add: made_entry_def)
  have tl: "trie_lookup (keymap (fpool (calls x))) = Map.empty" using n by (simp add: no_files_def)
  obtain h pool ks where o: "id_init p (unat idx) created (fpool (calls x)) (fobjs (calls x)) = Some (h, pool, ks)" "id_get h pool = Some created" by (rule open_new [OF n])
  let ?f = "\<lparr>inode_idx = idx, fmode = 3, file_ptr = 0, finode = empty_file\<rparr>"
  define c where "c = (calls x)\<lparr>filesys := s3, fpool := pool, fobjs := ks, file_at := (file_at (calls x))(created := ?f)\<rparr>"
  have ef: "zero_inode\<lparr>itype := 2, link_cnt := 1\<rparr> = empty_file" "itype zero_inode = 0" by (simp_all add: zero_inode_def empty_file_def layout_consts)
  have open': "fs_fopen p sysparams 3 created (calls x) = Some (int h, c)" using e o(1) tl ef by (simp add: fs_fopen_def c_def)
  have fo: "file_of (int h) c = Some created" using o(2) by (simp add: file_of_def c_def)
  have "read_loop 16 [] False ?f s3 = Some (replicate 16 0, True, ?f\<lparr>finode := first_inode b, file_ptr := 16\<rparr>, s4)"
    using f(1) by (subst read_loop.simps) (simp add: BLOCK_SIZE_def read_loop.simps [of 0])
  then have "file_read 16 ?f s3 = Some (16, replicate 16 0, ?f\<lparr>finode := first_inode b, file_ptr := 16\<rparr>, s5)" using f(2) by (simp add: file_read_def O_RDONLY_def)
  then have rd: "fs_fread (int h) 16 c = Some (16, replicate 16 0, c\<lparr>filesys := s5, file_at := (file_at c)(created := ?f\<lparr>finode := first_inode b, file_ptr := 16\<rparr>)\<rparr>)"
    using fo by (simp add: fs_fread_def) (simp add: c_def)
  define x' where "x' = x\<lparr>fd_param := int h, calls := c\<lparr>filesys := s6, file_at := (file_at c)(created := ?f\<lparr>finode := first_inode b, file_ptr := 16\<rparr>)\<rparr>\<rparr>"
  have res: "init_parameters p created junk x = Some x'" using open' rd s6(1) by (simp add: init_parameters_def x'_def eval_nat_numeral long_to_int_def)
  note pf6 = param_file_same [OF s6(2) f(4)]
  have "param_open x' idx created" using pf6(1) same_inode [OF s6(2) param_fileD(3) [OF f(4)]] f(3) fo by (simp add: param_open_def x'_def file_of_def)
  moreover have "cwd s6 = cwd ?s" using s6(2) f(6) by (simp add: same_def)
  ultimately show thesis using that [OF res] s6(3) pf6(2) f(5) by (simp add: x'_def)
qed

section \<open>Start-up\<close>

text \<open>The file part of start-up in the order of \<open>main\<close>.\<close>

definition start_files :: "nat \<Rightarrow> u64 \<Rightarrow> u8 list \<Rightarrow> params \<Rightarrow> (bool \<times> params) option" where
  "start_files p created junk x = do {
     (found, s) \<leftarrow> init_filesystem (filesys (calls x));
     x \<leftarrow> init_parameters p created junk (x\<lparr>calls := (calls x)\<lparr>filesys := s\<rparr>\<rparr>);
     Some (found, x)
   }"

text \<open>A card without anything on it, and a card on which a file system with the parameter file was left.\<close>

definition blank_card :: "fs \<Rightarrow> bool" where
  "blank_card t \<longleftrightarrow> (\<forall>b. valid_block b \<longrightarrow> disk_block t b = (\<lambda>_. 0))"

definition left_on_card :: "fs \<Rightarrow> u32 \<Rightarrow> fs \<Rightarrow> bool" where
  "left_on_card s idx t \<longleftrightarrow> fs_inv s \<and> sb_synced s \<and> sb_fixed (superblock s) = (SUPERBLOCK_MAGIC, root_inode (superblock s), SUPERBLOCK_MAGIC) \<and>
     (\<forall>b. valid_block b \<longrightarrow> disk_block s b = content s b) \<and> sd t = sd s \<and> param_file (s\<lparr>cwd := root_inode (superblock s)\<rparr>) idx"

lemma start_found:
  assumes l: "left_on_card s idx (filesys (calls x))" and n: "no_files p created (calls x)"
  obtains x' where "start_files p created junk x = Some (True, x')" "param_open x' idx created" "same (s\<lparr>cwd := root_inode (superblock s)\<rparr>) (filesys (calls x'))"
    "\<And>s1 fnd. init_filesystem (filesys (calls x)) = Some (fnd, s1) \<Longrightarrow> cwd s1 = cwd (filesys (calls x'))"
proof -
  let ?s = "s\<lparr>cwd := root_inode (superblock s)\<rparr>"
  have a: "fs_inv s" "sb_synced s" "magic0 (superblock s) = SUPERBLOCK_MAGIC" "magic1 (superblock s) = SUPERBLOCK_MAGIC" "\<forall>b. valid_block b \<longrightarrow> disk_block s b = content s b"
    "sd (filesys (calls x)) = sd s" "param_file ?s idx" using l by (simp_all add: left_on_card_def sb_fixed_def)
  obtain t' where t': "init_filesystem (filesys (calls x)) = Some (True, t')" "same ?s t'" using remount_ok [OF a(1-6)] by blast
  let ?x = "x\<lparr>calls := (calls x)\<lparr>filesys := t'\<rparr>\<rparr>"
  have f: "param_file (filesys (calls ?x)) idx" "no_files p created (calls ?x)" using param_file_same(1) [OF t'(2) a(7)] n by (simp_all add: no_files_def)
  obtain x' where x': "init_parameters p created junk ?x = Some x'" "param_open x' idx created" "same (filesys (calls ?x)) (filesys (calls x'))" by (rule init_reads [OF f refl, of junk]) blast
  have "same ?s (filesys (calls x'))" by (rule same_trans [OF t'(2)]) (use x'(3) in simp)
  with that [of x'] t'(1) x'(1-3) show thesis by (simp add: start_files_def same_def)
qed

lemma start_blank:
  assumes b: "blank_card (filesys (calls x))" and n: "no_files p created (calls x)"
  obtains x' idx where "start_files p created junk x = Some (False, x')" "param_open x' idx created" "cwd (filesys (calls x')) = 0" "param_text (filesys (calls x')) idx = replicate 16 0"
    "policy_writeback_interval (filesys (calls x')) = 0" "\<not> policy_writethrough (filesys (calls x'))" "\<And>s1 fnd. init_filesystem (filesys (calls x)) = Some (fnd, s1) \<Longrightarrow> cwd s1 = cwd (filesys (calls x'))"
proof -
  let ?t = "filesys (calls x)"
  have v: "valid_block 0" by (simp add: valid_block_def fs_consts)
  have c: "cache_inv (cache_init ?t)" "\<forall>b. valid_block b \<longrightarrow> content (cache_init ?t) b = (\<lambda>_. 0)" using b by (simp_all add: cache_init_ok blank_card_def)
  obtain i t1 where o: "Block 0 (cache_init ?t) = Some (i, t1)" "cache_inv t1" "on_block (cache_data t1 i) = content (cache_init ?t) 0" "\<forall>b. valid_block b \<longrightarrow> content t1 b = content (cache_init ?t) b"
    using cache.open_block [OF c(1) v] by blast
  have z: "on_block (cache_data t1 i) = (\<lambda>_. 0)" using o(3) c(2) v by simp
  have "(0 :: nat) + 56 \<le> BLOCK_SIZE" by (simp add: fs_consts)
  from load_on_block [OF this, of "cache_data t1 i", unfolded z] have ld: "load_bytes (cache_data t1 i) 0 56 = load_bytes (\<lambda>_. 0) 0 56" by (rule sym)
  have mg: "magic0 (sb_of (load_bytes (cache_data t1 i) 0 56)) \<noteq> SUPERBLOCK_MAGIC" unfolding ld by code_simp
  obtain s where s: "fs_mkfs t1 = Some (0, s)" "cwd_ok s" "cwd s = 0" "inodes_used s = {0}" "has_slot s" "\<forall>q. name_ok q \<longrightarrow> dir_lookup s q = (if q = [0x2e] \<or> q = [0x2e, 0x2e] then Some 0 else None)"
    "blank s" "9 \<le> card (free_blocks s)" using mkfs_ok [OF o(2)] o(4) c(2) by (elim exE conjE) (simp add: that)
  have fs: "init_filesystem ?t = Some (False, s)" using o(1) mg s(1) by (simp add: init_filesystem_def Let_def)
  let ?x = "x\<lparr>calls := (calls x)\<lparr>filesys := s\<rparr>\<rparr>"
  have full: "{0} \<noteq> {..< 32768 :: nat}" by (metis lessThan_iff numeral_less_iff one_less_numeral_iff semiring_norm(76) singleton_iff zero_neq_one)
  have none: "dir_lookup s sysparams = None" using s(6) sysparams_name(2) by (simp add: sysparams_def)
  have pre: "cwd_ok (filesys (calls ?x))" "unat (cwd (filesys (calls ?x))) \<in> inodes_used (filesys (calls ?x))" "dir_lookup (filesys (calls ?x)) sysparams = None" "has_slot (filesys (calls ?x))"
    "inodes_used (filesys (calls ?x)) \<noteq> {..< 32768}" "blank (filesys (calls ?x))" "9 \<le> card (free_blocks (filesys (calls ?x)))" "no_files p created (calls ?x)"
    using s full none n by (simp_all add: no_files_def)
  obtain x' idx where x': "init_parameters p created junk ?x = Some x'" "param_open x' idx created" "policy_writeback_interval (filesys (calls x')) = 0" "\<not> policy_writethrough (filesys (calls x'))"
    "cwd (filesys (calls x')) = cwd (filesys (calls ?x))" "param_text (filesys (calls x')) idx = replicate 16 0" by (rule params_made [OF pre, of junk])
  with that [of x' idx] fs s(3) show thesis by (simp add: start_files_def)
qed

end
