(* ===== verification/PageIso.thy ===== *)
theory PageIso
  imports PageProofs
begin

text \<open>
  All address spaces together: processes are created and end, fault their pages in, attach and detach shared pages, in any order. A private page is mapped at one address of one process only,
  and no process maps a page that holds a table.
\<close>

section \<open>The processes' view of the operations\<close>

record spaces =
  mem :: vm
  dirs :: "page_dir list"
  shm :: "shared_page list"

text \<open>
  One operation on behalf of process number \<open>i\<close>; the first argument is the address at which it reads or changes the tables of the process, if there is one. The code checks this address against the bound of the
  process only (\<open>alloc_page_for_va\<close>), which the process sets as it likes, or not at all (\<open>sys_shmpagedt\<close>). \<open>exits\<close> is what the destructor of a process does to its memory.
\<close>

inductive space_step :: "u64 option \<Rightarrow> spaces \<Rightarrow> spaces \<Rightarrow> bool" where
  created: "new_page_dir (mem x) = Some (pd, s) \<Longrightarrow> space_step None x (x\<lparr>mem := s, dirs := dirs x @ [pd]\<rparr>)"
| faults: "i < length (dirs x) \<Longrightarrow> alloc_page_for_va va (dirs x ! i) (mem x) = Some (k, pd, s)
    \<Longrightarrow> space_step (Some va) x (x\<lparr>mem := s, dirs := (dirs x)[i := pd]\<rparr>)"
| attaches: "i < length (dirs x) \<Longrightarrow> sys_shmpageget ky (shm x) (dirs x ! i) (mem x) = Some (va, ps, pd, s)
    \<Longrightarrow> space_step (Some va) x (x\<lparr>mem := s, dirs := (dirs x)[i := pd], shm := ps\<rparr>)"
| detaches: "i < length (dirs x) \<Longrightarrow> sys_shmpagedt va (shm x) (dirs x ! i) (mem x) = Some (ps, pd, s)
    \<Longrightarrow> space_step (Some va) x (x\<lparr>mem := s, dirs := (dirs x)[i := pd], shm := ps\<rparr>)"
| breaks: "i < length (dirs x) \<Longrightarrow> sys_brk a (dirs x ! i) = (c, pd) \<Longrightarrow> space_step None x (x\<lparr>dirs := (dirs x)[i := pd]\<rparr>)"
| extends: "i < length (dirs x) \<Longrightarrow> sys_sbrk a (dirs x ! i) = (b, pd) \<Longrightarrow> space_step None x (x\<lparr>dirs := (dirs x)[i := pd]\<rparr>)"
| exits: "i < length (dirs x) \<Longrightarrow> free_user_private_mem (dirs x ! i) (mem x) = Some s
    \<Longrightarrow> space_step None x (x\<lparr>mem := s, dirs := take i (dirs x) @ drop (Suc i) (dirs x)\<rparr>)"

text \<open>The kernel starts with an empty heap, its own tables and no process. \<open>space_run vas x\<close>: the state \<open>x\<close> is reached by operations at the addresses \<open>vas\<close>.\<close>

inductive space_run :: "u64 list \<Rightarrow> spaces \<Rightarrow> bool" where
  start: "init_kernel_heap h0 = Some h
    \<Longrightarrow> space_run [] \<lparr>mem = setup_vm \<lparr>heap_of = h, pmem = m\<rparr>, dirs = [], shm = []\<rparr>"
| step: "space_run vas x \<Longrightarrow> space_step a x y \<Longrightarrow> space_run (case a of None \<Rightarrow> vas | Some va \<Rightarrow> va # vas) y"

definition space_reach :: "spaces \<Rightarrow> bool" where
  "space_reach x \<longleftrightarrow> (\<exists>vas. space_run vas x \<and> (\<forall>va \<in> set vas. user_va va))"

lemma space_reach_start: "init_kernel_heap h0 = Some h \<Longrightarrow> space_reach \<lparr>mem = setup_vm \<lparr>heap_of = h, pmem = m\<rparr>, dirs = [], shm = []\<rparr>"
  unfolding space_reach_def using space_run.start [of h0 h m] by (metis empty_iff list.set(1))

lemma space_reach_step:
  assumes "space_reach x" "space_step a x y" "\<And>va. a = Some va \<Longrightarrow> user_va va"
  shows "space_reach y"
proof -
  obtain vas where "space_run vas x" "\<forall>va \<in> set vas. user_va va" using assms(1) by (auto simp: space_reach_def)
  then have "space_run (case a of None \<Rightarrow> vas | Some va \<Rightarrow> va # vas) y" "\<forall>va \<in> set (case a of None \<Rightarrow> vas | Some va \<Rightarrow> va # vas). user_va va"
    using space_run.step assms(2,3) by (blast, auto split: option.splits)
  then show ?thesis unfolding space_reach_def by blast
qed

section \<open>A step on one tree\<close>

definition tables :: "u64 \<Rightarrow> vm \<Rightarrow> u64 set" where
  "tables r s = {tab r s q | q. present r s q}"

text \<open>The tree of \<open>r\<close> may grow by pages that were free; no entry of any other page changes.\<close>

definition step_on :: "u64 \<Rightarrow> vm \<Rightarrow> vm \<Rightarrow> bool" where
  "step_on r s s' \<longleftrightarrow> tree_ok r s' \<and> (\<forall>a. owned s a \<longrightarrow> owned s' a) \<and> tables r s \<subseteq> tables r s' \<and> (\<forall>t \<in> tables r s'. t \<in> tables r s \<or> \<not> owned s t)
     \<and> (\<forall>t j. paged t \<longrightarrow> t \<notin> tables r s' \<longrightarrow> unat j < 512 \<longrightarrow> pmem s' (t + 8 * j) = pmem s (t + 8 * j))"

lemma step_on_refl: "tree_ok r s \<Longrightarrow> step_on r s s"
  by (simp add: step_on_def)

lemma step_onD:
  assumes "step_on r s s'"
  shows "tree_ok r s'" "owned s a \<Longrightarrow> owned s' a" "t \<in> tables r s \<Longrightarrow> t \<in> tables r s'" "t \<in> tables r s' \<Longrightarrow> t \<in> tables r s \<or> \<not> owned s t"
    "paged t \<Longrightarrow> t \<notin> tables r s' \<Longrightarrow> unat j < 512 \<Longrightarrow> pmem s' (t + 8 * j) = pmem s (t + 8 * j)"
  using assms unfolding step_on_def by blast+

lemma step_on_trans:
  assumes "step_on r s s'" "step_on r s' s''"
  shows "step_on r s s''"
proof -
  note d = step_onD [OF assms(1)] and e = step_onD [OF assms(2)]
  have "pmem s'' (t + 8 * j) = pmem s (t + 8 * j)" if "paged t" "t \<notin> tables r s''" "unat j < 512" for t j
    using d(5) [OF that(1) _ that(3)] e(5) [OF that] e(3) that(2) by metis
  moreover have "t \<in> tables r s \<or> \<not> owned s t" if "t \<in> tables r s''" for t using e(4) [OF that] d(2,4) by blast
  ultimately show ?thesis unfolding step_on_def using d(2,3) e(1-3) by blast
qed

lemma tables_owned: "tree_ok r s \<Longrightarrow> t \<in> tables r s \<Longrightarrow> owned s t \<and> paged t"
  using tree_okD(2,3) by (auto simp: tables_def)

lemma root_table: "r \<in> tables r s"
  by (auto simp: tables_def intro!: exI [of _ "[]"])

lemma present_short: "present r s q \<Longrightarrow> length q \<le> 2"
  by (cases q) auto

text \<open>A tree of which no entry changes.\<close>

definition same_entries :: "u64 \<Rightarrow> vm \<Rightarrow> vm \<Rightarrow> bool" where
  "same_entries r s s' \<longleftrightarrow> (\<forall>q j. present r s q \<longrightarrow> unat j < 512 \<longrightarrow> pmem s' (tab r s q + 8 * j) = pmem s (tab r s q + 8 * j))"

lemma tree_kept:
  assumes "same_entries r s s'"
  shows "present r s' q = present r s q" "present r s q \<Longrightarrow> tab r s' q = tab r s q" "present r s q \<Longrightarrow> unat j < 512 \<Longrightarrow> ent r s' q j = ent r s q j"
    "tables r s' = tables r s" "page_entry r s' va = page_entry r s va"
proof -
  let ?p = "[0, 0] :: u64 list"
  have ch: "changes_entry r ?p 0 s s'" using assms by (simp add: changes_entry_def same_entries_def)
  have ns: "\<not> suffix (0 # ?p) q" if "present r x q" for x q using suffix_length_le [of "0 # ?p" q] present_short [OF that] by auto
  show pr: "present r s' q = present r s q" for q using present_kept [OF ch ns] present_kept' [OF ch ns] by blast
  show tb: "present r s q \<Longrightarrow> tab r s' q = tab r s q" for q using tab_kept [OF ch _ ns] by blast
  show en: "present r s q \<Longrightarrow> unat j < 512 \<Longrightarrow> ent r s' q j = ent r s q j" for q j using assms tb by (simp add: ent_def same_entries_def)
  show "tables r s' = tables r s" unfolding tables_def using pr tb by metis
  show "page_entry r s' va = page_entry r s va" using pr en [OF _ get_vpn_less] by (auto simp: page_entry_def Let_def simp del: present.simps)
qed

lemma tree_ok_kept:
  assumes "tree_ok r s" "same_entries r s s'" "heap_inv (heap_of s')" "\<And>a. owned s a \<Longrightarrow> owned s' a"
  shows "tree_ok r s'"
proof -
  note k = tree_kept [OF assms(2)] and t = tree_okD [OF assms(1)]
  show ?thesis
    unfolding tree_ok_def k(1)
  proof (intro conjI allI impI)
    show "owned s' (tab r s' p)" if "present r s p" for p using k(2) [OF that] t(2) [OF that] assms(4) by simp
    show "p = q" if "present r s p" "present r s q" "tab r s' p = tab r s' q" for p q using that k(2) t(4) by simp
    show "is_dir (ent r s' p i) \<or> absent (ent r s' p i)" if "present r s p" "length p \<le> 1" "index_ok p i" for p i
      using t(5) [OF that] k(3) [OF that(1) index_ok_512 [OF that(3)]] by simp
    show "XWR (ent r s' p i) \<noteq> Noleaf" if "present r s p" "length p = 2" "unat i < 512" "V (ent r s' p i)" for p i
      using t(6) [OF that(1-3)] k(3) [OF that(1,3)] that(4) by simp
  qed (fact assms(3))
qed

lemma other_tree:
  assumes "step_on r s s'" "tree_ok r' s" "tables r' s \<inter> tables r s = {}"
  shows "tree_ok r' s'" "tables r' s' = tables r' s" "page_entry r' s' va = page_entry r' s va" "tables r' s' \<inter> tables r s' = {}"
proof -
  have d: "tables r' s \<inter> tables r s' = {}" using assms tables_owned [OF assms(2)] unfolding step_on_def by blast
  have k: "same_entries r' s s'"
    unfolding same_entries_def
  proof (intro allI impI)
    fix q j assume q: "present r' s q" "unat (j :: u64) < 512"
    have "tab r' s q \<in> tables r' s" using q(1) by (auto simp: tables_def)
    then show "pmem s' (tab r' s q + 8 * j) = pmem s (tab r' s q + 8 * j)" using assms(1) d tables_owned [OF assms(2)] q(2) unfolding step_on_def by blast
  qed
  show "tree_ok r' s'" by (rule tree_ok_kept [OF assms(2) k]) (use assms(1) tree_okD(1) in \<open>auto simp: step_on_def\<close>)
  show e: "tables r' s' = tables r' s" by (rule tree_kept(4) [OF k])
  show "page_entry r' s' va = page_entry r' s va" by (rule tree_kept(5) [OF k])
  show "tables r' s' \<inter> tables r s' = {}" using e d by simp
qed

lemma make_dir_step_on:
  assumes "tree_ok r s" "present r s p" "length p \<le> 1" "index_ok p i" "make_dir (tab r s p + 8 * i) s = Some s'"
  shows "step_on r s s'"
proof (cases "V (pmem s (tab r s p + 8 * i))")
  case True
  then have "s' = s" using assms(5) by (simp add: make_dir_def)
  then show ?thesis using step_on_refl [OF assms(1)] by simp
next
  case False
  let ?pte = "tab r s p + 8 * i"
  from False assms(5) obtain a h where a: "kalloc (heap_of s) 4096 = Some (a, h)"
    and s': "s' = put_entry ?pte (set_as_dir (kva2pa a) (pmem (clear_page a (s\<lparr>heap_of := h\<rparr>)) ?pte)) (clear_page a (s\<lparr>heap_of := h\<rparr>))"
    by (auto simp: make_dir_def Let_def elim!: bind_SomeE)
  note g = make_dir_grows [OF assms, unfolded grows_def] and fresh = kpages.fresh_page [OF tree_okD(1) [OF assms(1)] a]
  have pa: "paged a" using fresh(2) by (simp add: page_in_def paged_def)
  have na: "\<not> owned s a" using fresh(4) by (auto simp: owned_def)
  have "tab r s' (i # p) = a" using g assms(2) to_kva_dir [OF pa] by (simp add: s' put_entry_def)
  then have q: "tab r s' q = tab r s q \<and> present r s q \<or> tab r s' q = a" if "present r s' q" for q using g that by metis
  have t': "a \<in> tables r s'" "tab r s p \<in> tables r s'" using g assms(2) \<open>tab r s' (i # p) = a\<close> unfolding tables_def by (metis (mono_tags, lifting) mem_Collect_eq)+
  have "pmem s' (t + 8 * j) = pmem s (t + 8 * j)" if t: "paged t" "t \<notin> tables r s'" "unat j < 512" for t j
  proof -
    have "t \<noteq> a" "t \<noteq> tab r s p" using t(2) t' by auto
    then have "t + 8 * j \<noteq> ?pte" "\<not> t + 8 * j - a < 4096"
      using entry_inj [OF t(1) tree_okD(3) [OF assms(1,2)] t(3) index_ok_512 [OF assms(4)]] entry_in_page [OF t(1) pa t(3)] by auto
    then show ?thesis by (simp add: s' put_entry_def clear_page_def)
  qed
  moreover have "tables r s \<subseteq> tables r s'" using g unfolding tables_def by (auto simp del: present.simps tab.simps) metis
  moreover have "x \<in> tables r s \<or> \<not> owned s x" if "x \<in> tables r s'" for x using that q na by (auto simp: tables_def simp del: present.simps tab.simps)
  moreover have "owned s' x" if "owned s x" for x by (rule make_dir_owned [OF tree_okD(1) [OF assms(1)] assms(5) that])
  ultimately show ?thesis unfolding step_on_def using g by blast
qed

lemma lookup_step_on:
  assumes "tree_ok r s" "user_va va" "lookup r va s = Some (pte, s')"
  shows "step_on r s s'"
proof -
  let ?i = "get_vpn va 2" and ?j = "get_vpn va 1"
  from assms(3) [unfolded lookup_steps [OF assms(1,2)]] obtain s1 where
    s1: "make_dir (tab r s [] + 8 * ?i) s = Some s1" "make_dir (tab r s1 [?i] + 8 * ?j) s1 = Some s'"
    by (auto elim!: bind_SomeE)
  have i: "index_ok [] ?i" by (rule user_index [OF assms(2)])
  have j: "index_ok [?i] ?j" using get_vpn_less by (simp add: index_ok_def)
  have g1: "grows r [] ?i s s1" by (rule make_dir_grows [OF assms(1) _ _ i s1(1)]) simp_all
  then have t1: "tree_ok r s1" "present r s1 [?i]" by (simp_all add: grows_def)
  have "step_on r s s1" by (rule make_dir_step_on [OF assms(1) _ _ i s1(1)]) simp_all
  moreover have "step_on r s1 s'" by (rule make_dir_step_on [OF t1 _ j s1(2)]) simp
  ultimately show ?thesis by (rule step_on_trans)
qed

lemma put_step_on:
  assumes "tree_ok r s" "present r s [j, i]" "unat l < 512" "V e \<longrightarrow> XWR e \<noteq> Noleaf" "s' = put_entry (tab r s [j, i] + 8 * l) e s"
  shows "step_on r s s'" "tables r s' = tables r s"
proof -
  note p = leaf_put [OF assms]
  show e: "tables r s' = tables r s" unfolding tables_def p(2) using p(4) by metis
  have "tab r s [j, i] \<in> tables r s" using assms(2) by (auto simp: tables_def simp del: present.simps tab.simps)
  then have "pmem s' (t + 8 * k) = pmem s (t + 8 * k)" if "paged t" "t \<notin> tables r s" "unat k < 512" for t k
    using entry_inj [OF that(1) tree_okD(3) [OF assms(1,2)] that(3) assms(3)] that(2) by (auto simp: assms(5) put_entry_def simp del: tab.simps)
  moreover have "owned s' a = owned s a" for a by (simp add: assms(5) owned_def put_entry_def)
  ultimately show "step_on r s s'" unfolding step_on_def e using p(1) by blast
qed

lemma page_entry_put:
  assumes "tree_ok r s" "user_va va" "user_va va'" "present r s [get_vpn va 1, get_vpn va 2]" "V e \<longrightarrow> XWR e \<noteq> Noleaf"
    "s' = put_entry (tab r s [get_vpn va 1, get_vpn va 2] + 8 * get_vpn va 0) e s"
  shows "page_entry r s' va' = (if drop_bit 12 va' = drop_bit 12 va then if V e then Some e else None else page_entry r s va')"
proof -
  note p = leaf_put [OF assms(1,4) get_vpn_less assms(5,6)]
  show ?thesis
    unfolding page_entry_def p(2) Let_def same_page [OF assms(2,3), symmetric]
    using p(3) [OF _ get_vpn_less, of "[get_vpn va' 1, get_vpn va' 2]" va' 0] assms(4) by (auto simp del: present.simps tab.simps)
qed

section \<open>The invariant over all spaces\<close>

text \<open>
  \<open>Q\<close> is the set of the root tables, \<open>P\<close> the pages that were allocated to be shared. The user half of the kernel's own table is empty, but for the entry of the first mapping of the memory.
\<close>

definition entry_use :: "u64 set \<Rightarrow> u64 set \<Rightarrow> vm \<Rightarrow> PageEntry \<Rightarrow> bool" where
  "entry_use P Q s e \<longleftrightarrow>
     OSflag e = Normal \<and> owned s (to_kva e) \<and> to_kva e \<notin> P \<and> (\<forall>r \<in> Q. to_kva e \<notin> tables r s) \<or> OSflag e = Shared \<and> to_kva e \<in> P"

definition own_page :: "u64 \<Rightarrow> vm \<Rightarrow> u64 \<Rightarrow> u64 \<Rightarrow> bool" where
  "own_page r s va k \<longleftrightarrow> user_va va \<and> (\<exists>e. page_entry r s va = Some e \<and> OSflag e = Normal \<and> to_kva e = k)"

definition kernel_table_ok :: "vm \<Rightarrow> bool" where
  "kernel_table_ok s \<longleftrightarrow> (\<forall>i. unat i < 256 \<longrightarrow> i \<noteq> 1 \<longrightarrow> absent (pmem s (pa2kva PGDIR_PA + 8 * i)))"

definition iso :: "u64 set \<Rightarrow> u64 set \<Rightarrow> vm \<Rightarrow> bool" where
  "iso P Q s \<longleftrightarrow> heap_inv (heap_of s) \<and> kernel_table_ok s \<and> (\<forall>r \<in> Q. tree_ok r s) \<and>
     (\<forall>r \<in> Q. \<forall>r' \<in> Q. r \<noteq> r' \<longrightarrow> tables r s \<inter> tables r' s = {}) \<and>
     (\<forall>r \<in> Q. \<forall>va e. user_va va \<longrightarrow> page_entry r s va = Some e \<longrightarrow> entry_use P Q s e) \<and>
     (\<forall>r \<in> Q. \<forall>r' \<in> Q. \<forall>va va' k. own_page r s va k \<longrightarrow> own_page r' s va' k \<longrightarrow> r = r' \<and> drop_bit 12 va = drop_bit 12 va') \<and>
     (\<forall>k \<in> P. owned s k \<and> (\<forall>r \<in> Q. k \<notin> tables r s))"

lemma isoD:
  assumes "iso P Q s"
  shows "heap_inv (heap_of s)" "kernel_table_ok s" "r \<in> Q \<Longrightarrow> tree_ok r s" "r \<in> Q \<Longrightarrow> r' \<in> Q \<Longrightarrow> r \<noteq> r' \<Longrightarrow> tables r s \<inter> tables r' s = {}"
    "r \<in> Q \<Longrightarrow> user_va va \<Longrightarrow> page_entry r s va = Some e \<Longrightarrow> entry_use P Q s e"
    "r \<in> Q \<Longrightarrow> r' \<in> Q \<Longrightarrow> own_page r s va k \<Longrightarrow> own_page r' s va' k \<Longrightarrow> r = r' \<and> drop_bit 12 va = drop_bit 12 va'"
    "k \<in> P \<Longrightarrow> owned s k \<and> (\<forall>r \<in> Q. k \<notin> tables r s)"
  using assms unfolding iso_def by blast+

lemma isoI:
  assumes "heap_inv (heap_of s)" "kernel_table_ok s" "\<And>r. r \<in> Q \<Longrightarrow> tree_ok r s" "\<And>r r'. r \<in> Q \<Longrightarrow> r' \<in> Q \<Longrightarrow> r \<noteq> r' \<Longrightarrow> tables r s \<inter> tables r' s = {}"
    "\<And>r va e. r \<in> Q \<Longrightarrow> user_va va \<Longrightarrow> page_entry r s va = Some e \<Longrightarrow> entry_use P Q s e"
    "\<And>r r' va va' k. r \<in> Q \<Longrightarrow> r' \<in> Q \<Longrightarrow> own_page r s va k \<Longrightarrow> own_page r' s va' k \<Longrightarrow> r = r' \<and> drop_bit 12 va = drop_bit 12 va'"
    "\<And>k. k \<in> P \<Longrightarrow> owned s k \<and> (\<forall>r \<in> Q. k \<notin> tables r s)"
  shows "iso P Q s"
  unfolding iso_def using assms by blast

lemma own_page_owned: "iso P Q s \<Longrightarrow> r \<in> Q \<Longrightarrow> own_page r s va k \<Longrightarrow> owned s k \<and> k \<notin> P \<and> (\<forall>r' \<in> Q. k \<notin> tables r' s)"
  using isoD(5) unfolding own_page_def entry_use_def by fastforce

text \<open>The kernel's own table lies outside the heap.\<close>

lemma owned_range: "heap_inv (heap_of s) \<Longrightarrow> owned s a \<Longrightarrow> 0x50800000 \<le> unat (kva2pa a)"
proof -
  assume h: "heap_inv (heap_of s)" and "owned s a"
  then obtain b where b: "b \<in> heap_blocks (heap_of s)" "byte_range (unat (kva2pa a), 4096) \<subseteq> byte_range b" by (auto simp: owned_def page_in_def)
  have "byte_range b \<subseteq> {0x50800000 ..< 0x60000000}"
    using b(1) small_blocks_range [OF h] page_blocks_range [OF h] unfolding heap_blocks_def by fastforce
  moreover have "unat (kva2pa a) \<in> byte_range (unat (kva2pa a), 4096)" by (simp add: byte_range_def)
  ultimately show ?thesis using b(2) by fastforce
qed

lemma kernel_table_kept:
  assumes "kernel_table_ok s" "\<And>j. unat j < 512 \<Longrightarrow> pmem s' (pa2kva PGDIR_PA + 8 * j) = pmem s (pa2kva PGDIR_PA + 8 * j)"
  shows "kernel_table_ok s'"
  using assms by (auto simp: kernel_table_ok_def)

lemma pgdir_paged: "paged (pa2kva PGDIR_PA)"
  by (simp add: paged_def PGDIR_PA_def)

text \<open>The tree of one process grows; what its entries are is known.\<close>

lemma iso_step:
  assumes i: "iso P Q s" and r: "r \<in> Q" and st: "step_on r s s'"
    and use: "\<And>va e. user_va va \<Longrightarrow> page_entry r s' va = Some e \<Longrightarrow> entry_use P Q s' e"
    and own: "\<And>va va' r' k. own_page r s' va k \<Longrightarrow> r' \<in> Q \<Longrightarrow> own_page r' s' va' k \<Longrightarrow> r = r' \<and> drop_bit 12 va = drop_bit 12 va'"
  shows "iso P Q s'"
proof -
  note d = isoD [OF i] and so = step_onD [OF st]
  have o: "tree_ok r' s'" "tables r' s' = tables r' s" "\<And>va. page_entry r' s' va = page_entry r' s va" "tables r' s' \<inter> tables r s' = {}" if "r' \<in> Q" "r' \<noteq> r" for r'
    using other_tree [OF st d(3) [OF that(1)] d(4) [OF that(1) r that(2)]] by auto
  have hi: "heap_inv (heap_of s')" by (rule tree_okD(1) [OF so(1)])
  have out: "k \<notin> tables r' s'" if "owned s k" "\<forall>r \<in> Q. k \<notin> tables r s" "r' \<in> Q" for k r'
  proof (cases "r' = r")
    case True
    then show ?thesis using so(4) [of k] that r by blast
  next
    case False
    then show ?thesis using o(2) that by blast
  qed
  show ?thesis
  proof (rule isoI [OF hi])
    have "pa2kva PGDIR_PA \<notin> tables r s'" using tables_owned [OF so(1)] owned_range [OF hi] by (fastforce simp: PGDIR_PA_def)
    then show "kernel_table_ok s'" by (intro kernel_table_kept [OF d(2)] so(5) pgdir_paged)
    show "tree_ok r' s'" if "r' \<in> Q" for r' using o(1) [OF that] so(1) by (cases "r' = r") auto
    show "tables r1 s' \<inter> tables r2 s' = {}" if "r1 \<in> Q" "r2 \<in> Q" "r1 \<noteq> r2" for r1 r2
      using o(2,4) d(4) [OF that] that by (metis Int_commute)
    show "entry_use P Q s' e" if e: "r' \<in> Q" "user_va va" "page_entry r' s' va = Some e" for r' va e
    proof (cases "r' = r")
      case True
      then show ?thesis using use e by blast
    next
      case False
      then have "entry_use P Q s e" using d(5) e o(3) by metis
      then show ?thesis unfolding entry_use_def using so(2) out by blast
    qed
    show "r1 = r2 \<and> drop_bit 12 va = drop_bit 12 va'" if x: "r1 \<in> Q" "r2 \<in> Q" "own_page r1 s' va k" "own_page r2 s' va' k" for r1 r2 va va' k
    proof (cases "r1 = r \<or> r2 = r")
      case True
      then show ?thesis using own x by metis
    next
      case False
      then have "own_page r1 s va k" "own_page r2 s va' k" using x o(3) by (simp_all add: own_page_def)
      then show ?thesis using d(6) x(1,2) by blast
    qed
    show "owned s' k \<and> (\<forall>r \<in> Q. k \<notin> tables r s')" if "k \<in> P" for k using d(7) [OF that] so(2) out by blast
  qed
qed

section \<open>Every operation keeps it\<close>

lemma iso_lookup:
  assumes "iso P Q s" "r \<in> Q" "user_va va" "lookup r va s = Some (pte, s')"
  shows "iso P Q s'"
proof -
  note d = isoD [OF assms(1)]
  have t: "tree_ok r s" by (rule d(3) [OF assms(2)])
  have st: "step_on r s s'" by (rule lookup_step_on [OF t assms(3,4)])
  have same: "page_entry r s' va' = page_entry r s va'" for va' using lookup_found [OF t assms(3,4)] by (simp add: found_def)
  note so = step_onD [OF st]
  have others: "own_page r' s' va' k \<longleftrightarrow> own_page r' s va' k" if "r' \<in> Q" for r' va' k
    using other_tree(3) [OF st d(3) [OF that] d(4) [OF that assms(2)]] same by (cases "r' = r") (simp_all add: own_page_def)
  show ?thesis
  proof (rule iso_step [OF assms(1,2) st])
    show "entry_use P Q s' e" if "user_va va'" "page_entry r s' va' = Some e" for va' e
    proof -
      have u: "entry_use P Q s e" using d(5) [OF assms(2) that(1)] that(2) same by simp
      have "to_kva e \<notin> tables r' s'" if "r' \<in> Q" "owned s (to_kva e)" "\<forall>r \<in> Q. to_kva e \<notin> tables r s" for r'
        using other_tree(2) [OF st d(3) [OF that(1)] d(4) [OF that(1) assms(2)]] so(4) that assms(2) by (cases "r' = r") blast+
      with u so(2) show ?thesis unfolding entry_use_def by blast
    qed
    show "r = r' \<and> drop_bit 12 va1 = drop_bit 12 va2" if "own_page r s' va1 k" "r' \<in> Q" "own_page r' s' va2 k" for va1 va2 r' k
      using d(6) [OF assms(2) that(2)] that others assms(2) by blast
  qed
qed

text \<open>An entry at the end of a path is set: to a page of its own that nobody has, to a shared page, or to nothing.\<close>

lemma iso_put:
  assumes i: "iso P Q s" and r: "r \<in> Q" and va: "user_va va" "present r s [get_vpn va 1, get_vpn va 2]"
    and e: "V e \<longrightarrow> XWR e \<noteq> Noleaf \<and> entry_use P Q s e" "V e \<and> OSflag e = Normal \<longrightarrow> (\<forall>r' \<in> Q. \<forall>va'. \<not> own_page r' s va' (to_kva e))"
    and s': "s' = put_entry (tab r s [get_vpn va 1, get_vpn va 2] + 8 * get_vpn va 0) e s"
  shows "iso P Q s'"
proof -
  note d = isoD [OF i]
  have t: "tree_ok r s" by (rule d(3) [OF r])
  have x: "V e \<longrightarrow> XWR e \<noteq> Noleaf" using e(1) by blast
  note st = put_step_on [OF t va(2) get_vpn_less x s']
  have tb: "tables r' s' = tables r' s" if "r' \<in> Q" for r'
    using other_tree(2) [OF st(1) d(3) [OF that] d(4) [OF that r]] st(2) by (cases "r' = r") auto
  have ow: "owned s' a = owned s a" for a by (simp add: s' owned_def put_entry_def)
  have use: "entry_use P Q s' x \<longleftrightarrow> entry_use P Q s x" for x using tb ow by (simp add: entry_use_def)
  have pe: "page_entry r s' va' = (if drop_bit 12 va' = drop_bit 12 va then if V e then Some e else None else page_entry r s va')" if "user_va va'" for va'
    by (rule page_entry_put [OF t va(1) that va(2) x s'])
  have others: "page_entry r' s' va' = page_entry r' s va'" if "r' \<in> Q" "r' \<noteq> r" for r' va'
    using other_tree(3) [OF st(1) d(3) [OF that(1)] d(4) [OF that(1) r that(2)]] .
  have old: "own_page r' s' va' k \<Longrightarrow> own_page r' s va' k \<or> r' = r \<and> V e \<and> OSflag e = Normal \<and> k = to_kva e \<and> drop_bit 12 va' = drop_bit 12 va" if "r' \<in> Q" for r' va' k
    using pe others [OF that] by (cases "r' = r") (auto simp: own_page_def split: if_splits)
  show ?thesis
  proof (rule iso_step [OF i r st(1)])
    show "entry_use P Q s' x" if "user_va va'" "page_entry r s' va' = Some x" for va' x
      using that pe [OF that(1)] d(5) [OF r that(1)] e(1) unfolding use by (auto split: if_splits)
    show "r = r' \<and> drop_bit 12 va1 = drop_bit 12 va2" if "own_page r s' va1 k" "r' \<in> Q" "own_page r' s' va2 k" for va1 va2 r' k
      using old [OF r that(1)] old [OF that(2,3)] d(6) [OF r that(2), of va1 k va2] e(2) that(2) r by metis
  qed
qed

lemma page_entry_heap [simp]: "page_entry r (s\<lparr>heap_of := h\<rparr>) va = page_entry r s va"
  by (simp add: page_entry_def Let_def del: present.simps)

text \<open>A page from the heap is none of those in use, and can be for sharing or not.\<close>

lemma iso_heap:
  assumes "iso P Q s" "heap_inv h" "\<And>a. owned s a \<Longrightarrow> owned (s\<lparr>heap_of := h\<rparr>) a"
  shows "iso P Q (s\<lparr>heap_of := h\<rparr>)"
proof -
  let ?s = "s\<lparr>heap_of := h\<rparr>"
  note d = isoD [OF assms(1)]
  have k: "tables r ?s = tables r s" "page_entry r ?s va = page_entry r s va" for r va by (simp_all add: tables_def page_entry_def Let_def del: present.simps)
  show ?thesis
  proof (rule isoI)
    show "heap_inv (heap_of ?s)" using assms(2) by simp
    show "kernel_table_ok ?s" using d(2) by (simp add: kernel_table_ok_def)
    show "tree_ok r ?s" if "r \<in> Q" for r by (rule tree_ok_kept [OF d(3) [OF that]]) (use assms(2,3) in \<open>auto simp: same_entries_def\<close>)
    show "tables r ?s \<inter> tables r' ?s = {}" if "r \<in> Q" "r' \<in> Q" "r \<noteq> r'" for r r' using d(4) [OF that] by (simp add: k)
    show "entry_use P Q ?s e" if "r \<in> Q" "user_va va" "page_entry r ?s va = Some e" for r va e
      using d(5) [OF that(1,2)] that(3) assms(3) unfolding entry_use_def k by blast
    show "r = r' \<and> drop_bit 12 va = drop_bit 12 va'" if "r \<in> Q" "r' \<in> Q" "own_page r ?s va k" "own_page r' ?s va' k" for r r' va va' k
      using d(6) [OF that(1,2)] that(3,4) unfolding own_page_def k by blast
    show "owned ?s k \<and> (\<forall>r \<in> Q. k \<notin> tables r ?s)" if "k \<in> P" for k using d(7) [OF that] assms(3) by (simp add: k)
  qed
qed

lemma iso_page:
  assumes "iso P Q s" "kalloc (heap_of s) 4096 = Some (a, h)"
  shows "iso P Q (s\<lparr>heap_of := h\<rparr>)" "paged a" "owned (s\<lparr>heap_of := h\<rparr>) a" "\<not> owned s a"
proof -
  note fresh = kpages.fresh_page [OF isoD(1) [OF assms(1)] assms(2)]
  show "iso P Q (s\<lparr>heap_of := h\<rparr>)" by (rule iso_heap [OF assms(1) fresh(1)]) (use fresh(3) in \<open>simp add: owned_def\<close>)
  show "owned (s\<lparr>heap_of := h\<rparr>) a" using fresh(2) by (simp add: owned_def)
  then show "paged a" by (rule owned_paged)
  show "\<not> owned s a" using fresh(4) by (auto simp: owned_def)
qed

text \<open>A page that is allocated but not yet used.\<close>

definition spare :: "u64 set \<Rightarrow> u64 set \<Rightarrow> vm \<Rightarrow> u64 \<Rightarrow> bool" where
  "spare P Q s k \<longleftrightarrow> owned s k \<and> k \<notin> P \<and> (\<forall>r \<in> Q. k \<notin> tables r s) \<and> (\<forall>r \<in> Q. \<forall>va. \<not> own_page r s va k)"

lemma spare_page:
  assumes "iso P Q s" "kalloc (heap_of s) 4096 = Some (a, h)"
  shows "spare P Q (s\<lparr>heap_of := h\<rparr>) a"
proof -
  note n = iso_page [OF assms]
  have k: "tables r (s\<lparr>heap_of := h\<rparr>) = tables r s" "own_page r (s\<lparr>heap_of := h\<rparr>) va k = own_page r s va k" for r va k
    by (simp_all add: tables_def own_page_def page_entry_def Let_def del: present.simps)
  show ?thesis
    unfolding spare_def k using n(3,4) isoD(7) [OF assms(1)] own_page_owned [OF assms(1)] tables_owned [OF isoD(3) [OF assms(1)]] by blast
qed

lemma spare_lookup:
  assumes "iso P Q s" "r \<in> Q" "user_va va" "lookup r va s = Some (pte, s')" "spare P Q s k"
  shows "spare P Q s' k"
proof -
  note d = isoD [OF assms(1)]
  have t: "tree_ok r s" by (rule d(3) [OF assms(2)])
  have st: "step_on r s s'" by (rule lookup_step_on [OF t assms(3,4)])
  have same: "page_entry r s' va' = page_entry r s va'" for va' using lookup_found [OF t assms(3,4)] by (simp add: found_def)
  have "own_page r' s' va' k = own_page r' s va' k \<and> k \<notin> tables r' s'" if "r' \<in> Q" for r' va'
    using other_tree(2,3) [OF st d(3) [OF that] d(4) [OF that assms(2)]] same step_onD(4) [OF st] assms(5) that
    by (cases "r' = r") (auto simp: own_page_def spare_def)
  then show ?thesis using assms(5) step_onD(2) [OF st] by (simp add: spare_def)
qed

lemma iso_map:
  assumes i: "iso P Q s" and r: "root pd \<in> Q" and va: "user_va va" and m: "map_va_kva va kva flag pd s = Some (pd', s')"
    and k: "flag = Normal \<and> spare P Q s kva \<or> flag = Shared \<and> kva \<in> P"
  shows "iso P Q s'" "root pd' = root pd"
proof -
  note d = isoD [OF i]
  have t: "tree_ok (root pd) s" by (rule d(3) [OF r])
  from m obtain pte s1 where l: "lookup (root pd) va s = Some (pte, s1)"
    and s': "s' = put_entry pte ((set_as_leaf (kva2pa kva) (pmem s1 pte))\<lparr>OSflag := flag\<rparr>) s1" and pd': "pd' = on_page_updated pd"
    by (auto simp: map_va_kva_def Let_def elim!: bind_SomeE split: if_splits)
  show "root pd' = root pd" by (simp add: pd' on_page_updated_def)
  have pa: "paged kva" using k d(7) owned_paged by (auto simp: spare_def)
  define e where "e = (set_as_leaf (kva2pa kva) (pmem s1 pte))\<lparr>OSflag := flag\<rparr>"
  have e: "to_kva e = kva" "OSflag e = flag" "XWR e \<noteq> Noleaf" "V e" using ppn_roundtrip [OF pa] by (simp_all add: e_def to_kva_def to_pa_def set_as_leaf_def)
  have i1: "iso P Q s1" by (rule iso_lookup [OF i r va l])
  have f: "present (root pd) s1 [get_vpn va 1, get_vpn va 2]" "pte = tab (root pd) s1 [get_vpn va 1, get_vpn va 2] + 8 * get_vpn va 0"
    using lookup_found [OF t va l] unfolding found_def by blast+
  have sp: "spare P Q s1 kva" if "flag = Normal" using spare_lookup [OF i r va l] k that by auto
  show "iso P Q s'"
  proof (rule iso_put [OF i1 r va f(1), where e = e])
    show "s' = put_entry (tab (root pd) s1 [get_vpn va 1, get_vpn va 2] + 8 * get_vpn va 0) e s1" using s' f(2) by (simp add: e_def)
    show "V e \<longrightarrow> XWR e \<noteq> Noleaf \<and> entry_use P Q s1 e" using e sp k unfolding entry_use_def spare_def by auto
    show "V e \<and> OSflag e = Normal \<longrightarrow> (\<forall>r' \<in> Q. \<forall>va'. \<not> own_page r' s1 va' (to_kva e))" using e sp unfolding spare_def by auto
  qed
qed

lemma iso_fault:
  assumes i: "iso P Q s" and r: "root pd \<in> Q" and va: "user_va va" and m: "alloc_page_for_va va pd s = Some (k, pd', s')"
  shows "iso P Q s'" "root pd' = root pd"
proof -
  from m obtain pte s1 where l: "lookup (root pd) va s = Some (pte, s1)"
    and c: "V (pmem s1 pte) \<and> pd' = pd \<and> s' = s1 \<or> (\<exists>kva h pd1. kalloc (heap_of s1) 4096 = Some (kva, h) \<and> map_va_kva va kva Normal pd (s1\<lparr>heap_of := h\<rparr>) = Some (pd1, s') \<and>
      root pd' = root pd1)"
    by (auto simp: alloc_page_for_va_def Let_def elim!: bind_SomeE split: if_splits)
  have i1: "iso P Q s1" by (rule iso_lookup [OF i r va l])
  from c have "iso P Q s' \<and> root pd' = root pd"
  proof
    assume "V (pmem s1 pte) \<and> pd' = pd \<and> s' = s1"
    then show ?thesis using i1 by simp
  next
    assume "\<exists>kva h pd1. kalloc (heap_of s1) 4096 = Some (kva, h) \<and> map_va_kva va kva Normal pd (s1\<lparr>heap_of := h\<rparr>) = Some (pd1, s') \<and> root pd' = root pd1"
    then obtain kva h pd1 where a: "kalloc (heap_of s1) 4096 = Some (kva, h)" "map_va_kva va kva Normal pd (s1\<lparr>heap_of := h\<rparr>) = Some (pd1, s')" "root pd' = root pd1" by blast
    from iso_map [OF iso_page(1) [OF i1 a(1)] r va a(2)] spare_page [OF i1 a(1)] a(3) show ?thesis by simp
  qed
  then show "iso P Q s'" "root pd' = root pd" by auto
qed

lemma iso_attach:
  assumes i: "iso P Q s" and r: "root pd \<in> Q" and va: "user_va (shared_page_start pd)" and m: "attach_shared_page kva pd s = Some (va, pd', s')" and k: "kva \<in> P"
  shows "iso P Q s'" "root pd' = root pd"
proof -
  from m obtain pd1 where a: "map_va_kva (shared_page_start pd) kva Shared pd s = Some (pd1, s')" "root pd' = root pd1"
    by (auto simp: attach_shared_page_def Let_def on_page_updated_def elim!: bind_SomeE)
  from iso_map [OF i r va a(1)] k a(2) show "iso P Q s'" "root pd' = root pd" by auto
qed

lemma iso_detach:
  assumes i: "iso P Q s" and r: "root pd \<in> Q" and va: "user_va va" and m: "free_shared_page va pd s = Some (k, pd', s')"
  shows "iso P Q s'" "root pd' = root pd"
proof -
  from m obtain pte s1 where l: "lookup (root pd) va s = Some (pte, s1)" and s': "s' = put_entry pte ((pmem s1 pte)\<lparr>V := False\<rparr>) s1" and pd': "pd' = on_page_updated pd"
    by (auto simp: free_shared_page_def Let_def elim!: bind_SomeE split: if_splits)
  show "root pd' = root pd" by (simp add: pd' on_page_updated_def)
  have i1: "iso P Q s1" by (rule iso_lookup [OF i r va l])
  have f: "present (root pd) s1 [get_vpn va 1, get_vpn va 2]" "pte = tab (root pd) s1 [get_vpn va 1, get_vpn va 2] + 8 * get_vpn va 0"
    using lookup_found [OF isoD(3) [OF i r] va l] unfolding found_def by blast+
  show "iso P Q s'" by (rule iso_put [OF i1 r va f(1), where e = "(pmem s1 pte)\<lparr>V := False\<rparr>"]) (simp_all add: s' f(2) del: tab.simps)
qed

text \<open>A new address space: the root has the kernel's entries in its upper half and none in the lower.\<close>

lemma set_kernel_vm_mem:
  assumes "paged r" "r \<noteq> pa2kva PGDIR_PA" "paged t" "unat j < 512"
  shows "pmem (set_kernel_vm r s) (t + 8 * j) = (if t = r then if j = 1 then zero_entry else pmem s (pa2kva PGDIR_PA + 8 * j) else pmem s (t + 8 * j))"
proof -
  have v: "get_vpn 0x40000000 2 = 1" by code_simp
  have o: "unat (1 :: u64) < 512" by simp
  have p: "t + 8 * j = r + 8 * 1 \<longleftrightarrow> t = r \<and> j = 1" using entry_inj [OF assms(3,1,4) o] by auto
  have b: "\<not> pa2kva PGDIR_PA + 8 * j - r < 4096" using entry_in_page [OF pgdir_paged assms(1,4)] assms(2) by auto
  have c: "t + 8 * j - r < 4096 \<longleftrightarrow> t = r" by (rule entry_in_page [OF assms(3,1,4)])
  show ?thesis using p b c by (auto simp: set_kernel_vm_def put_entry_def copy_page_def clear_page_def v Let_def)
qed

lemma iso_create:
  assumes i: "iso P Q s" and m: "new_page_dir s = Some (pd, s')"
  shows "iso P (insert (root pd) Q) s'" "root pd \<notin> Q" "page_entry (root pd) s' va = None"
proof -
  note d = isoD [OF i]
  define r where "r = root pd"
  from m obtain h where a: "kalloc (heap_of s) 4096 = Some (r, h)" and s': "s' = set_kernel_vm r (s\<lparr>heap_of := h\<rparr>)"
    by (auto simp: new_page_dir_def r_def elim!: bind_SomeE)
  let ?s = "s\<lparr>heap_of := h\<rparr>"
  note n = iso_page [OF i a] and e = isoD [OF iso_page(1) [OF i a]]
  have h': "heap_of s' = h" by (simp add: s' set_kernel_vm_def put_entry_def copy_page_def clear_page_def Let_def)
  have ow: "owned s' x = owned ?s x" for x by (simp add: owned_def h')
  have rb: "r \<noteq> pa2kva PGDIR_PA" using owned_range [OF e(1) n(3)] by (auto simp: PGDIR_PA_def)
  note mem = set_kernel_vm_mem [OF n(2) rb, where s = ?s, folded s']
  have nt: "r \<notin> tables r' ?s" if "r' \<in> Q" for r' using spare_page [OF i a] that by (simp add: spare_def)
  show nq: "root pd \<notin> Q" using nt root_table [of r ?s] by (auto simp: r_def)
  have se: "same_entries r' ?s s'" if "r' \<in> Q" for r'
    unfolding same_entries_def
  proof (intro allI impI)
    fix q j assume q: "present r' ?s q" "unat (j :: u64) < 512"
    have "tab r' ?s q \<in> tables r' ?s" using q(1) unfolding tables_def by blast
    then have "tab r' ?s q \<noteq> r" "paged (tab r' ?s q)" using nt [OF that] tables_owned [OF e(3) [OF that]] by auto
    then show "pmem s' (tab r' ?s q + 8 * j) = pmem ?s (tab r' ?s q + 8 * j)" using mem [OF _ q(2)] by simp
  qed
  note k = tree_kept [OF se]
  have ab: "absent (ent r s' [] j)" if "unat j < 256" for j
    using mem [OF n(2), of j] that e(2) by (auto simp: ent_def kernel_table_ok_def absent_def zero_entry_def)
  have only: "q = []" if "present r s' q" for q
  proof (rule ccontr)
    assume "q \<noteq> []"
    then obtain x j where "q = x @ [j]" by (metis rev_exhaust)
    then have "present r s' [j]" using present_suffix [OF that, of "[j]"] by (simp add: suffix_def)
    then show False using ab [of j] by (auto simp: index_ok_def is_dir_def absent_def)
  qed
  have "t = r" if t: "t \<in> tables r s'" for t
  proof -
    obtain q where "t = tab r s' q" "present r s' q" using t by (auto simp: tables_def simp del: present.simps tab.simps)
    with only [OF this(2)] show ?thesis by simp
  qed
  then have tr: "tables r s' = {r}" using root_table [of r s'] by blast
  have tree: "tree_ok r s'"
    unfolding tree_ok_def
  proof (intro conjI allI impI)
    show "heap_inv (heap_of s')" using e(1) by (simp add: h')
    show "owned s' (tab r s' p)" if "present r s' p" for p using only [OF that] n(3) by (simp add: ow)
    show "p = q" if "present r s' p" "present r s' q" for p q using only that by blast
    show "is_dir (ent r s' p i) \<or> absent (ent r s' p i)" if "present r s' p" "index_ok p i" for p i using only [OF that(1)] that(2) ab by (simp add: index_ok_def)
    show "XWR (ent r s' p i) \<noteq> Noleaf" if "present r s' p" "length p = 2" for p i using only [OF that(1)] that(2) by simp
  qed
  have none: "page_entry r s' va = None" for va using only by (auto simp: page_entry_def Let_def simp del: present.simps)
  then show "page_entry (root pd) s' va = None" by (simp add: r_def)
  have own: "own_page r' s' va x = (r' \<in> Q \<and> own_page r' ?s va x)" if "r' \<in> insert r Q" for r' va x
    using that nq none k(5) by (auto simp: own_page_def r_def)
  show "iso P (insert (root pd) Q) s'"
    unfolding r_def [symmetric]
  proof (rule isoI)
    show "heap_inv (heap_of s')" using e(1) by (simp add: h')
    show "kernel_table_ok s'" by (rule kernel_table_kept [OF e(2)]) (use mem [OF pgdir_paged] rb in auto)
    show "tree_ok r' s'" if "r' \<in> insert r Q" for r'
      using tree tree_ok_kept [OF e(3) se] that e(1) by (auto simp: h' ow)
    show "tables r1 s' \<inter> tables r2 s' = {}" if "r1 \<in> insert r Q" "r2 \<in> insert r Q" "r1 \<noteq> r2" for r1 r2
    proof (cases "r1 \<in> Q \<and> r2 \<in> Q")
      case True
      then show ?thesis using e(4) that(3) k(4) by simp
    next
      case False
      then show ?thesis using that tr k(4) nt by auto
    qed
    show "entry_use P (insert r Q) s' x" if "r' \<in> insert r Q" "user_va va" "page_entry r' s' va = Some x" for r' va x
    proof -
      have r': "r' \<in> Q" using that none by auto
      then have u: "entry_use P Q s x" using d(5) [OF r' that(2), of x] that(3) k(5) [OF r', of va] by simp
      have "entry_use P Q ?s x" using e(5) [OF r' that(2)] that(3) k(5) [OF r'] by simp
      moreover have "to_kva x \<noteq> r" if "OSflag x = Normal" using u n(4) that by (auto simp: entry_use_def)
      ultimately show ?thesis using tr k(4) by (auto simp: entry_use_def ow)
    qed
    show "r1 = r2 \<and> drop_bit 12 va = drop_bit 12 va'" if "r1 \<in> insert r Q" "r2 \<in> insert r Q" "own_page r1 s' va x" "own_page r2 s' va' x" for r1 r2 va va' x
      using e(6) own that by blast
    show "owned s' x \<and> (\<forall>r' \<in> insert r Q. x \<notin> tables r' s')" if "x \<in> P" for x
      using e(7) [OF that] d(7) [OF that] n(4) tr k(4) by (auto simp: ow)
  qed
qed

lemma iso_subset: "iso P Q s \<Longrightarrow> Q' \<subseteq> Q \<Longrightarrow> iso P Q' s"
proof -
  assume i: "iso P Q s" and sub: "Q' \<subseteq> Q"
  note d = isoD [OF i] and q = subsetD [OF sub]
  show ?thesis
  proof (rule isoI [OF d(1,2)])
    show "entry_use P Q' s e" if "r \<in> Q'" "user_va va" "page_entry r s va = Some e" for r va e
      using d(5) [OF q [OF that(1)] that(2,3)] q unfolding entry_use_def by blast
    show "owned s k \<and> (\<forall>r \<in> Q'. k \<notin> tables r s)" if "k \<in> P" for k using d(7) [OF that] q by blast
  qed (use d(3,4,6) q in blast)+
qed

lemma iso_share:
  assumes "iso P Q s" "spare P Q s a"
  shows "iso (insert a P) Q s"
proof -
  note d = isoD [OF assms(1)]
  show ?thesis
  proof (rule isoI [OF d(1,2)])
    show "entry_use (insert a P) Q s e" if "r \<in> Q" "user_va va" "page_entry r s va = Some e" for r va e
      using d(5) [OF that] assms(2) that unfolding entry_use_def spare_def own_page_def by blast
    show "owned s k \<and> (\<forall>r \<in> Q. k \<notin> tables r s)" if "k \<in> insert a P" for k using d(7) [of k] assms(2) that unfolding spare_def by blast
  qed (use d(3,4,6) in blast)+
qed

lemma kfree_same: "kfree h a = Some h' \<Longrightarrow> h' = h"
  by (auto simp: kfree_def Let_def allocator_free_def split: if_splits)

lemma free_user_same: "free_user_recur n pdir s = Some s' \<Longrightarrow> s' = s" "free_entries n ptes s = Some s' \<Longrightarrow> s' = s"
proof (induction n pdir s and n ptes s arbitrary: s' and s' rule: free_user_recur_free_entries.induct)
  case (1 n pdir s)
  then show ?case by (auto dest!: kfree_same elim!: bind_SomeE)
next
  case (3 n pte ptes s)
  from "3.prems" obtain s1 where s1: "(if V (pmem s pte) \<and> U (pmem s pte) \<and> XWR (pmem s pte) = Noleaf then (case n of 0 \<Rightarrow> None | Suc m \<Rightarrow> free_user_recur m (to_kva (pmem s pte)) s)
      else if V (pmem s pte) \<and> U (pmem s pte) \<and> OSflag (pmem s pte) = Normal then do { h \<leftarrow> kfree (heap_of s) (to_kva (pmem s pte)); Some (s\<lparr>heap_of := h\<rparr>) }
      else do { kassert (\<not> V (pmem s pte) \<or> \<not> U (pmem s pte)); Some s }) = Some s1" and s': "free_entries n ptes s1 = Some s'"
    by (auto simp: Let_def elim!: bind_SomeE)
  have "s1 = s" using s1 "3.IH"(1) by (auto dest!: kfree_same elim!: bind_SomeE split: if_splits nat.splits)
  with s' "3.IH"(2) s1 show ?case by blast
qed simp

lemma drop_shared_same: "drop_shared a ps h = Some (ps', h') \<Longrightarrow> h' = h \<and> sp_kva ` set ps' \<subseteq> sp_kva ` set ps"
proof (induction ps arbitrary: ps')
  case (Cons p ps)
  then show ?case by (auto simp: Let_def operator_delete_def image_subset_iff dest!: kfree_same elim!: bind_SomeE split: if_splits)
qed simp

definition space_inv :: "u64 set \<Rightarrow> spaces \<Rightarrow> bool" where
  "space_inv P x \<longleftrightarrow> iso P (root ` set (dirs x)) (mem x) \<and> distinct (map root (dirs x)) \<and> sp_kva ` set (shm x) \<subseteq> P"

lemma find_key_bound: "find_key ky ps = Some i \<Longrightarrow> i < length ps"
  by (induction ps arbitrary: i) (auto split: if_splits)

lemma iso_shmget:
  assumes i: "iso P Q s" and r: "root pd \<in> Q" and va: "user_va (shared_page_start pd)" and P: "sp_kva ` set ps \<subseteq> P"
    and m: "sys_shmpageget ky ps pd s = Some (va, ps', pd', s')"
  shows "\<exists>P'. iso P' Q s' \<and> root pd' = root pd \<and> sp_kva ` set ps' \<subseteq> P'"
proof -
  have "\<exists>P1 i1 ps1 s1. iso P1 Q s1 \<and> i1 < length ps1 \<and> sp_kva ` set ps1 \<subseteq> P1 \<and> attach_shared_page (sp_kva (ps1 ! i1)) pd s1 = Some (va, pd', s') \<and>
    ps' = ps1[i1 := (ps1 ! i1)\<lparr>sp_cnt := sp_cnt (ps1 ! i1) + 1\<rparr>]"
  proof (cases "find_key (scast ky) ps")
    case None
    with m obtain ob h1 pg h2 where h: "operator_new (heap_of s) 40 = Some (ob, h1)" "kalloc h1 4096 = Some (pg, h2)"
      and n: "attach_shared_page pg pd (s\<lparr>heap_of := h2\<rparr>) = Some (va, pd', s')" "ps' = ps @ [\<lparr>sp_addr = ob, sp_key = scast ky, sp_kva = pg, sp_cnt = 1\<rparr>]"
      by (auto simp: sys_shmpageget_def Let_def elim!: bind_SomeE)
    have v: "valid_request 40" by (simp add: valid_request_def)
    have k: "kalloc (heap_of s) 40 = Some (ob, h1)" using h(1) by (simp add: operator_new_def)
    have j: "iso P Q (s\<lparr>heap_of := h1\<rparr>)"
      by (rule iso_heap [OF i kheap.alloc_inv [OF isoD(1) [OF i] v k]]) (use kheap.alloc_kept [OF isoD(1) [OF i] v k] in \<open>auto simp: owned_def page_in_def\<close>)
    have "iso P Q (s\<lparr>heap_of := h2\<rparr>)" "spare P Q (s\<lparr>heap_of := h2\<rparr>) pg" using iso_page(1) [OF j] spare_page [OF j] h(2) by simp_all
    then have "iso (insert pg P) Q (s\<lparr>heap_of := h2\<rparr>)" by (rule iso_share)
    then show ?thesis using P n
      by (intro exI [of _ "insert pg P"] exI [of _ "length ps"] exI [of _ "ps @ [\<lparr>sp_addr = ob, sp_key = scast ky, sp_kva = pg, sp_cnt = 0\<rparr>]"] exI [of _ "s\<lparr>heap_of := h2\<rparr>"]) auto
  next
    case (Some j)
    then show ?thesis using i find_key_bound [OF Some] P m
      by (intro exI [of _ P] exI [of _ j] exI [of _ ps] exI [of _ s]) (auto simp: sys_shmpageget_def Let_def elim!: bind_SomeE)
  qed
  then obtain P1 i1 ps1 s1 where 1: "iso P1 Q s1" "i1 < length ps1" "sp_kva ` set ps1 \<subseteq> P1"
    and a: "attach_shared_page (sp_kva (ps1 ! i1)) pd s1 = Some (va, pd', s')" and ps': "ps' = ps1[i1 := (ps1 ! i1)\<lparr>sp_cnt := sp_cnt (ps1 ! i1) + 1\<rparr>]"
    by blast
  have "sp_kva (ps1 ! i1) \<in> P1" using 1(2,3) nth_mem by blast
  note at = iso_attach [OF 1(1) r va a this]
  have "set ps' \<subseteq> insert ((ps1 ! i1)\<lparr>sp_cnt := sp_cnt (ps1 ! i1) + 1\<rparr>) (set ps1)" unfolding ps' by (rule set_update_subset_insert)
  then have "sp_kva ` set ps' \<subseteq> sp_kva ` insert ((ps1 ! i1)\<lparr>sp_cnt := sp_cnt (ps1 ! i1) + 1\<rparr>) (set ps1)" by (rule image_mono)
  also have "\<dots> \<subseteq> P1" using 1(3) \<open>sp_kva (ps1 ! i1) \<in> P1\<close> by simp
  finally have "sp_kva ` set ps' \<subseteq> P1" .
  with at show ?thesis by blast
qed

lemma iso_shmdt:
  assumes i: "iso P Q s" and r: "root pd \<in> Q" and va: "user_va va" and m: "sys_shmpagedt va ps pd s = Some (ps', pd', s')"
  shows "iso P Q s' \<and> root pd' = root pd \<and> sp_kva ` set ps' \<subseteq> sp_kva ` set ps"
proof -
  from m obtain k s1 h where a: "free_shared_page va pd s = Some (k, pd', s1)" "drop_shared k ps (heap_of s1) = Some (ps', h)" "s' = s1\<lparr>heap_of := h\<rparr>"
    by (auto simp: sys_shmpagedt_def elim!: bind_SomeE)
  from drop_shared_same [OF a(2)] a(3) have "s' = s1" "sp_kva ` set ps' \<subseteq> sp_kva ` set ps" by auto
  with iso_detach [OF i r va a(1)] show ?thesis by blast
qed

section \<open>Every reachable state\<close>

lemma roots_update: "i < length ds \<Longrightarrow> root pd = root (ds ! i) \<Longrightarrow> map root (ds[i := pd]) = map root ds"
  by (metis list_update_id map_update)

lemma root_mem: "i < length ds \<Longrightarrow> root (ds ! i) \<in> root ` set ds"
  by simp

lemma space_inv_update:
  assumes "iso P' (root ` set (dirs x)) s" "distinct (map root (dirs x))" "i < length (dirs x)" "root pd = root (dirs x ! i)" "sp_kva ` set ps \<subseteq> P'"
  shows "space_inv P' (x\<lparr>mem := s, dirs := (dirs x)[i := pd], shm := ps\<rparr>)"
proof -
  note m = roots_update [OF assms(3,4)]
  have "root ` set ((dirs x)[i := pd]) = root ` set (dirs x)" using arg_cong [OF m, of set] by simp
  then show ?thesis using assms m by (simp add: space_inv_def)
qed

lemma space_step_inv:
  assumes "space_step a x y" "space_inv P x" "\<And>va. a = Some va \<Longrightarrow> user_va va"
  shows "\<exists>P'. space_inv P' y"
  using assms(1)
proof cases
  have i: "iso P (root ` set (dirs x)) (mem x)" "distinct (map root (dirs x))" "sp_kva ` set (shm x) \<subseteq> P" using assms(2) by (simp_all add: space_inv_def)
  {
    case (created pd s)
    show ?thesis using iso_create [OF i(1) created(3)] i created(2) by (intro exI [of _ P]) (auto simp: space_inv_def)
  next
    case (faults n va k pd s)
    note f = iso_fault [OF i(1) root_mem [OF faults(3)] assms(3) [OF faults(1)] faults(4)]
    then show ?thesis using space_inv_update [OF f(1) i(2) faults(3) f(2) i(3)] faults(2) by auto
  next
    case (attaches n ky va ps pd s)
    have "va = shared_page_start (dirs x ! n)" using attaches(4) by (auto simp: sys_shmpageget_def attach_shared_page_def Let_def elim!: bind_SomeE)
    then have u: "user_va (shared_page_start (dirs x ! n))" using assms(3) [OF attaches(1)] by simp
    from iso_shmget [OF i(1) root_mem [OF attaches(3)] u i(3) attaches(4)] obtain P' where
      a: "iso P' (root ` set (dirs x)) s" "root pd = root (dirs x ! n)" "sp_kva ` set ps \<subseteq> P'" by blast
    then show ?thesis using space_inv_update [OF a(1) i(2) attaches(3) a(2,3)] attaches(2) by auto
  next
    case (detaches n va ps pd s)
    from iso_shmdt [OF i(1) root_mem [OF detaches(3)] assms(3) [OF detaches(1)] detaches(4)] have
      a: "iso P (root ` set (dirs x)) s" "root pd = root (dirs x ! n)" "sp_kva ` set ps \<subseteq> P" using i(3) by blast+
    then show ?thesis using space_inv_update [OF a(1) i(2) detaches(3) a(2,3)] detaches(2) by auto
  next
    case (breaks n a c pd)
    have "root pd = root (dirs x ! n)" using breaks(4) by (auto simp: sys_brk_def set_user_mem_bound_def)
    then show ?thesis using space_inv_update [OF i(1,2) breaks(3) _ i(3), of pd] breaks(2) by auto
  next
    case (extends n a b pd)
    have "root pd = root (dirs x ! n)" using extends(4) by (auto simp: sys_sbrk_def increase_active_private_mem_def)
    then show ?thesis using space_inv_update [OF i(1,2) extends(3) _ i(3), of pd] extends(2) by auto
  next
    case (exits n s)
    have "s = mem x" using exits(4) free_user_same(1) by (simp add: free_user_private_mem_def)
    moreover have "iso P (root ` set (take n (dirs x) @ drop (Suc n) (dirs x))) (mem x)"
      by (rule iso_subset [OF i(1)]) (auto dest: in_set_takeD in_set_dropD)
    moreover have "map root (dirs x) = map root (take n (dirs x)) @ root (dirs x ! n) # map root (drop (Suc n) (dirs x))" using id_take_nth_drop [OF exits(3)] by (metis list.simps(9) map_append)
    then have "distinct (map root (take n (dirs x) @ drop (Suc n) (dirs x)))" using i(2) by simp
    ultimately show ?thesis using i(3) exits(2) by (intro exI [of _ P]) (simp add: space_inv_def)
  }
qed

lemma setup_vm_ok:
  assumes "heap_inv h"
  shows "iso {} {} (setup_vm \<lparr>heap_of = h, pmem = m\<rparr>)"
proof -
  let ?t = "pa2kva PGDIR_PA"
  have v: "get_vpn (pa2kva 0x40000000) 2 = 257" "get_vpn 0x40000000 2 = 1" "get_vpn IO_BASE_VA 2 = 384" by code_simp+
  have "pmem (setup_vm \<lparr>heap_of = h, pmem = m\<rparr>) (?t + 8 * j) = zero_entry" if j: "unat j < 256" "j \<noteq> 1" for j
  proof -
    have u: "unat j < 512" "unat (257 :: u64) < 512" "unat (1 :: u64) < 512" "unat (384 :: u64) < 512" using j by simp_all
    have "?t + 8 * j \<noteq> ?t + 8 * 257" "?t + 8 * j \<noteq> ?t + 8 * 1" "?t + 8 * j \<noteq> ?t + 8 * 384" "?t + 8 * j - ?t < 4096"
      using entry_inj [OF pgdir_paged pgdir_paged u(1,2)] entry_inj [OF pgdir_paged pgdir_paged u(1,3)] entry_inj [OF pgdir_paged pgdir_paged u(1,4)]
        entry_in_page [OF pgdir_paged pgdir_paged u(1)] j by auto
    then show ?thesis by (simp add: setup_vm_def v put_entry_def clear_page_def Let_def)
  qed
  moreover have "heap_of (setup_vm \<lparr>heap_of = h, pmem = m\<rparr>) = h" by (simp add: setup_vm_def put_entry_def clear_page_def Let_def)
  ultimately show ?thesis using assms by (auto simp: iso_def kernel_table_ok_def absent_def zero_entry_def)
qed

text \<open>Device memory is entered into a table of its own behind the one of the kernel, which is outside the heap.\<close>

lemma io_table_paged: "paged (pa2kva (PGDIR_PA + 4096))"
  by (simp add: paged_def PGDIR_PA_def)

lemma iso_outside:
  assumes i: "iso P Q s" and h: "heap_of s' = heap_of s" and same: "\<And>t j. paged t \<Longrightarrow> t \<noteq> pa2kva (PGDIR_PA + 4096) \<Longrightarrow> unat j < 512 \<Longrightarrow> pmem s' (t + 8 * j) = pmem s (t + 8 * j)"
  shows "iso P Q s'"
proof -
  note d = isoD [OF i]
  have ow: "owned s' = owned s" by (simp add: owned_def h fun_eq_iff)
  have se: "same_entries r s s'" if "r \<in> Q" for r
    unfolding same_entries_def
  proof (intro allI impI)
    fix q j assume q: "present r s q" "unat (j :: u64) < 512"
    have o: "owned s (tab r s q)" by (rule tree_okD(2) [OF d(3) [OF that] q(1)])
    then have "tab r s q \<noteq> pa2kva (PGDIR_PA + 4096)" using owned_range [OF d(1)] by (fastforce simp: PGDIR_PA_def)
    then show "pmem s' (tab r s q + 8 * j) = pmem s (tab r s q + 8 * j)" by (rule same [OF owned_paged [OF o] _ q(2)])
  qed
  note k = tree_kept(4,5) [OF se]
  have "pa2kva PGDIR_PA \<noteq> pa2kva (PGDIR_PA + 4096)" by (simp add: PGDIR_PA_def pa2kva_def)
  then have kt: "kernel_table_ok s'" by (intro kernel_table_kept [OF d(2)] same [OF pgdir_paged])
  have op: "own_page r s' va x = own_page r s va x" if "r \<in> Q" for r va x using k(2) [OF that] by (simp add: own_page_def)
  have eu: "entry_use P Q s' e = entry_use P Q s e" for e using k(1) by (simp add: entry_use_def ow)
  show ?thesis
  proof (rule isoI)
    show "heap_inv (heap_of s')" using d(1) by (simp add: h)
    show "tree_ok r s'" if "r \<in> Q" for r by (rule tree_ok_kept [OF d(3) [OF that] se [OF that]]) (simp_all add: h d(1) ow)
    show "tables r s' \<inter> tables r' s' = {}" if "r \<in> Q" "r' \<in> Q" "r \<noteq> r'" for r r' using d(4) [OF that] k(1) that by simp
    show "entry_use P Q s' e" if "r \<in> Q" "user_va va" "page_entry r s' va = Some e" for r va e using d(5) [OF that(1,2)] that(3) k(2) [OF that(1)] by (simp add: eu)
    show "r = r' \<and> drop_bit 12 va = drop_bit 12 va'" if "r \<in> Q" "r' \<in> Q" "own_page r s' va x" "own_page r' s' va' x" for r r' va va' x using d(6) [OF that(1,2)] that(3,4) op that(1,2) by blast
    show "owned s' x \<and> (\<forall>r \<in> Q. x \<notin> tables r s')" if "x \<in> P" for x using d(7) [OF that] k(1) by (simp add: ow)
  qed (fact kt)
qed

lemma io_entries_frame:
  "heap_of (io_entries n pte phys s) = heap_of s \<and> ((\<forall>i<n. a \<noteq> pte + 8 * of_nat i) \<longrightarrow> pmem (io_entries n pte phys s) a = pmem s a)"
proof (induction n arbitrary: pte phys s)
  case (Suc n)
  have "a \<noteq> pte" "\<forall>i<n. a \<noteq> pte + 8 + 8 * of_nat i" if "\<forall>i<Suc n. a \<noteq> pte + 8 * of_nat i"
    using that [rule_format, of 0] that [rule_format, of "Suc i" for i] by (auto simp: algebra_simps)
  then show ?case using Suc.IH by (auto simp: put_entry_def)
qed simp

lemma ioremap_iso:
  assumes i: "iso P Q s" and r: "ioremap phys sz io s = (va, io', s')"
    and n: "unat (get_vpn io 1) + unat ((sz + phys mod 0x200000) div 0x200000 + (if (sz + phys mod 0x200000) mod 0x200000 \<noteq> 0 then 1 else 0)) \<le> 512"
  shows "iso P Q s'" "heap_of s' = heap_of s"
proof -
  let ?n = "unat ((sz + phys mod 0x200000) div 0x200000 + (if (sz + phys mod 0x200000) mod 0x200000 \<noteq> 0 then 1 else 0))" and ?v = "get_vpn io 1" and ?t = "pa2kva (PGDIR_PA + 4096)"
  have s': "s' = io_entries ?n (?t + 8 * ?v) (phys div 0x200000 * 0x200000) s" using r by (simp add: ioremap_def Let_def split: if_splits)
  show h: "heap_of s' = heap_of s" unfolding s' using io_entries_frame by blast
  show "iso P Q s'"
  proof (rule iso_outside [OF i h])
    fix t j assume t: "paged t" "t \<noteq> ?t" "unat (j :: u64) < 512"
    have "t + 8 * j \<noteq> ?t + 8 * ?v + 8 * of_nat m" if "m < ?n" for m
    proof
      assume e: "t + 8 * j = ?t + 8 * ?v + 8 * of_nat m"
      have u: "unat (?v + of_nat m) < 512" using n that get_vpn_less [of io 1] by (simp add: unat_word_ariths unat_of_nat)
      from entry_inj [OF t(1) io_table_paged t(3) u] e t(2) show False by (simp add: algebra_simps)
    qed
    then show "pmem s' (t + 8 * j) = pmem s (t + 8 * j)" unfolding s' using io_entries_frame by blast
  qed
qed

lemma space_run_inv: "space_run vas x \<Longrightarrow> \<forall>va \<in> set vas. user_va va \<Longrightarrow> \<exists>P. space_inv P x"
proof (induction rule: space_run.induct)
  case (start h0 h m)
  have "heap_inv h" using init_kernel_heap_ok start by (metis option.inject)
  then show ?case using setup_vm_ok by (intro exI [of _ "{}"]) (simp add: space_inv_def)
next
  case (step vas x a y)
  then obtain P where "space_inv P x" by (auto split: option.splits)
  then show ?case by (rule space_step_inv [OF step(2)]) (use step(4) in simp)
qed

lemma space_reach_inv: "space_reach x \<Longrightarrow> \<exists>P. space_inv P x"
  using space_run_inv by (auto simp: space_reach_def)

section \<open>Room in the heap\<close>

text \<open>How many pages an operation takes at most.\<close>

lemma roomy_kalloc: "roomy (Suc n) h \<Longrightarrow> kalloc h 4096 = Some (a, h') \<Longrightarrow> roomy n h'"
  using roomy_alloc by fastforce

lemma make_dir_roomy: "roomy (Suc n) (heap_of s) \<Longrightarrow> make_dir pte s = Some s' \<Longrightarrow> roomy n (heap_of s')"
  using roomy_weaken [of "Suc n" _ n] roomy_kalloc
  by (auto simp: make_dir_def put_entry_def clear_page_def Let_def elim!: bind_SomeE split: if_splits)

lemma lookup_roomy:
  assumes "roomy (n + 2) (heap_of s)" "lookup r va s = Some (pte, s')"
  shows "roomy n (heap_of s')"
proof -
  have w: "roomy n (heap_of s)" "roomy (Suc (Suc n)) (heap_of s)" using assms(1) roomy_weaken [OF assms(1), of n] by simp_all
  show ?thesis using assms(2) w make_dir_roomy roomy_weaken [of "Suc n" _ n]
    by (auto simp: lookup_def Let_def elim!: bind_SomeE split: if_splits) blast+
qed

lemma alloc_page_roomy:
  assumes "roomy (n + 5) (heap_of s)" "alloc_page_for_va va pd s = Some (k, pd', s')"
  shows "roomy n (heap_of s')"
proof -
  from assms(2) obtain pte s1 where l: "lookup (root pd) va s = Some (pte, s1)"
    and c: "s' = s1 \<or> (\<exists>kva h pd1. kalloc (heap_of s1) 4096 = Some (kva, h) \<and> map_va_kva va kva Normal pd (s1\<lparr>heap_of := h\<rparr>) = Some (pd1, s'))"
    by (auto simp: alloc_page_for_va_def Let_def elim!: bind_SomeE split: if_splits)
  have s1: "roomy (n + 3) (heap_of s1)" by (rule lookup_roomy [OF _ l]) (use assms(1) in \<open>simp add: eval_nat_numeral\<close>)
  from c show ?thesis
  proof
    assume "s' = s1"
    then show ?thesis using roomy_weaken [OF s1] by simp
  next
    assume "\<exists>kva h pd1. kalloc (heap_of s1) 4096 = Some (kva, h) \<and> map_va_kva va kva Normal pd (s1\<lparr>heap_of := h\<rparr>) = Some (pd1, s')"
    then obtain kva h pd1 pte2 s2 where k: "kalloc (heap_of s1) 4096 = Some (kva, h)" and l2: "lookup (root pd) va (s1\<lparr>heap_of := h\<rparr>) = Some (pte2, s2)" and h2: "heap_of s' = heap_of s2"
      by (auto simp: map_va_kva_def put_entry_def Let_def elim!: bind_SomeE split: if_splits)
    have "roomy (n + 2) h" using roomy_kalloc [OF _ k, of "n + 2"] s1 by (simp add: eval_nat_numeral)
    then show ?thesis using lookup_roomy [OF _ l2] h2 by simp
  qed
qed

section \<open>Properties\<close>

definition page_of :: "u64 \<Rightarrow> u64" where
  "page_of pa = pa2kva (push_bit 12 (drop_bit 12 pa))"

lemma page_of_entry: "page_of (to_pa e + take_bit 12 va) = to_kva e"
proof -
  have "to_pa e + take_bit 12 va = to_pa e OR take_bit 12 va"
    by (rule disjunctive_add_eq_or, rule bit_eqI) (auto simp: to_pa_def bit_simps)
  moreover have "drop_bit 12 (to_pa e OR take_bit 12 va) = drop_bit 12 (to_pa e)" by (rule bit_eqI) (auto simp: bit_simps)
  moreover have "push_bit 12 (drop_bit 12 (to_pa e)) = to_pa e" by (rule bit_eqI) (auto simp: to_pa_def bit_simps)
  ultimately show ?thesis by (simp add: page_of_def to_kva_def)
qed

text \<open>
  C1: Isolation of the user half. Let processes be created and end, fault pages in, attach and detach shared pages and move their bounds, in any order, with every fault, attachment and detachment at an address
  below \<open>0x4000000000\<close>, where the kernel's half begins. Then, if the hardware walk takes a user address of one process and a user address of another (or another page of the same) into the same page of memory,
  both entries are marked as shared; and no page that a process can reach at a user address holds a table of the user half of any process. The kernel does not enforce the condition on the addresses; without
  it the isolation is lost (\<open>device_page_shared\<close>).
\<close>

theorem process_isolation:
  assumes "space_run vas x" "\<forall>v \<in> set vas. user_va v" "i < length (dirs x)" "j < length (dirs x)" "user_va va" "user_va va'"
    "sv39 (root (dirs x ! i)) (mem x) va = Some pa" "sv39 (root (dirs x ! j)) (mem x) va' = Some pa'"
  shows "(page_of pa = page_of pa' \<and> (i, drop_bit 12 va) \<noteq> (j, drop_bit 12 va') \<longrightarrow>
      map_option OSflag (page_entry (root (dirs x ! i)) (mem x) va) = Some Shared \<and> map_option OSflag (page_entry (root (dirs x ! j)) (mem x) va') = Some Shared) \<and>
    (\<forall>n < length (dirs x). page_of pa \<notin> tables (root (dirs x ! n)) (mem x))"
proof -
  let ?r = "root (dirs x ! i)" and ?q = "root (dirs x ! j)" and ?Q = "root ` set (dirs x)"
  obtain P where P: "space_inv P x" using space_run_inv [OF assms(1,2)] by blast
  then have i: "iso P ?Q (mem x)" and ds: "distinct (map root (dirs x))" by (simp_all add: space_inv_def)
  note d = isoD [OF i] and m = root_mem [OF assms(3)] root_mem [OF assms(4)]
  obtain e e' where e: "page_entry ?r (mem x) va = Some e" "page_entry ?q (mem x) va' = Some e'" "page_of pa = to_kva e" "page_of pa' = to_kva e'"
    using assms(7,8) sv39_entry [OF d(3) [OF m(1)] assms(5)] sv39_entry [OF d(3) [OF m(2)] assms(6)] page_of_entry by auto
  note u = d(5) [OF m(1) assms(5) e(1)] d(5) [OF m(2) assms(6) e(2)]
  have tab: "page_of pa \<notin> tables r (mem x)" if "r \<in> ?Q" for r using u(1) d(7) that unfolding entry_use_def e(3) by blast
  have same: "(i, drop_bit 12 va) = (j, drop_bit 12 va')" if "OSflag e = Normal" "OSflag e' = Normal" "to_kva e = to_kva e'"
  proof -
    have "own_page ?r (mem x) va (to_kva e)" "own_page ?q (mem x) va' (to_kva e)" using e assms(5,6) that by (simp_all add: own_page_def)
    then have "?r = ?q" "drop_bit 12 va = drop_bit 12 va'" using d(6) [OF m] by blast+
    then show ?thesis using ds assms(3,4) by (simp add: distinct_conv_nth) metis
  qed
  have "OSflag e = Shared \<and> OSflag e' = Shared" if "to_kva e = to_kva e'" "(i, drop_bit 12 va) \<noteq> (j, drop_bit 12 va')"
    using u same that unfolding entry_use_def by metis
  with e tab m show ?thesis using root_mem by auto
qed

text \<open>A process that has its first page fault in a roomy heap.\<close>

lemma fault_reached:
  assumes "space_reach x" "i < length (dirs x)" "user_va va" "va < user_mem_bound (dirs x ! i)" "roomy (n + 5) (heap_of (mem x))"
  obtains pd s pa where "space_reach (x\<lparr>mem := s, dirs := (dirs x)[i := pd]\<rparr>)" "roomy n (heap_of s)" "root pd = root (dirs x ! i)" "sv39 (root pd) s va = Some pa"
    "user_mem_bound pd = user_mem_bound (dirs x ! i)" "\<And>va'. user_va va' \<Longrightarrow> drop_bit 12 va' \<noteq> drop_bit 12 va \<Longrightarrow> sv39 (root pd) s va' = sv39 (root (dirs x ! i)) (mem x) va'"
proof -
  obtain P where P: "space_inv P x" using space_reach_inv [OF assms(1)] by blast
  then have i: "iso P (root ` set (dirs x)) (mem x)" by (simp add: space_inv_def)
  have th: "three_pages (heap_of (mem x))" by (rule roomy_pages(1), rule roomy_weaken [OF assms(5)]) simp
  obtain k pd s where a: "alloc_page_for_va va (dirs x ! i) (mem x) = Some (k, pd, s)" "sv39 (root pd) s va = Some (kva2pa k + take_bit 12 va)"
    "\<forall>va'. user_va va' \<and> drop_bit 12 va' \<noteq> drop_bit 12 va \<longrightarrow> sv39 (root pd) s va' = sv39 (root (dirs x ! i)) (mem x) va'"
    using alloc_page_total [OF isoD(3) [OF i root_mem [OF assms(2)]] assms(3,4) th] by blast
  have "user_mem_bound pd = user_mem_bound (dirs x ! i)"
    using a(1) by (auto simp: alloc_page_for_va_def map_va_kva_def on_page_updated_def Let_def elim!: bind_SomeE split: if_splits)
  then show thesis
    using that [OF _ _ _ a(2)] space_reach_step [OF assms(1) space_step.faults [OF assms(2) a(1)]] assms(3) alloc_page_roomy [OF assms(5) a(1)] iso_fault(2) [OF i root_mem [OF assms(2)] assms(3) a(1)] a(3)
    by blast
qed

lemma first_process:
  assumes "n < 2 ^ 15 - 1"
  obtains x where "space_reach x" "length (dirs x) = 1" "roomy n (heap_of (mem x))" "user_mem_bound (dirs x ! 0) = 0x300000" "\<forall>va. user_va va \<longrightarrow> sv39 (root (dirs x ! 0)) (mem x) va = None"
proof -
  obtain h where h: "init_kernel_heap \<lparr>ksmall = pool4, kpage = pool4\<rparr> = Some h" "heap_inv h" "heap_blocks h = {}" by (rule init_kernel_heap_ok)
  have "pool_blocks 16 (kpage h) = insert reserved ((\<lambda>off. (off, 0)) ` {})" using heap_blocks_emptyD(4) [OF h(2,3)] by simp
  then have "roomy (Suc n) h" unfolding roomy_def using h(2) assms by (intro conjI exI [of _ "{}"]) simp_all
  then obtain r h1 where r: "kalloc h 4096 = Some (r, h1)" "roomy n h1" using roomy_alloc [of n h] by blast
  let ?s = "setup_vm \<lparr>heap_of = h, pmem = \<lambda>_. zero_entry\<rparr>"
  have hs: "heap_of ?s = h" by (simp add: setup_vm_def put_entry_def clear_page_def Let_def)
  let ?x = "\<lparr>mem = ?s, dirs = [], shm = []\<rparr>"
  have n: "new_page_dir (mem ?x) = Some (dir0 r, set_kernel_vm r (?s\<lparr>heap_of := h1\<rparr>))" using r(1) by (simp add: new_page_dir_def hs dir0_def)
  have hr: "heap_of (set_kernel_vm r (?s\<lparr>heap_of := h1\<rparr>)) = h1" by (simp add: set_kernel_vm_def put_entry_def copy_page_def clear_page_def Let_def)
  have "space_reach ?x" by (rule space_reach_start [OF h(1)])
  from space_reach_step [OF this space_step.created [OF n]] have y: "space_reach (?x\<lparr>mem := set_kernel_vm r (?s\<lparr>heap_of := h1\<rparr>), dirs := dirs ?x @ [dir0 r]\<rparr>)" by simp
  have i: "iso {} {} ?s" by (rule setup_vm_ok [OF h(2)])
  have n': "new_page_dir ?s = Some (dir0 r, set_kernel_vm r (?s\<lparr>heap_of := h1\<rparr>))" using n by simp
  have "tree_ok (root (dir0 r)) (set_kernel_vm r (?s\<lparr>heap_of := h1\<rparr>))" by (rule isoD(3) [OF iso_create(1) [OF i n']]) simp
  then have "\<forall>va. user_va va \<longrightarrow> sv39 (root (dir0 r)) (set_kernel_vm r (?s\<lparr>heap_of := h1\<rparr>)) va = None" using iso_create(3) [OF i n'] by (simp add: sv39_entry)
  then show thesis using that [OF y] hr r(2) by (simp add: dir0_def)
qed

theorem process_isolation_witness:
  "\<exists>vas x pa pa'. space_run vas x \<and> (\<forall>v \<in> set vas. user_va v) \<and> sv39 (root (dirs x ! 0)) (mem x) 0x201000 = Some pa \<and> sv39 (root (dirs x ! 0)) (mem x) 0x202000 = Some pa' \<and> page_of pa \<notin> tables (root (dirs x ! 0)) (mem x) \<and>
    (page_of pa = page_of pa' \<longrightarrow> map_option OSflag (page_entry (root (dirs x ! 0)) (mem x) 0x201000) = Some Shared)"
proof -
  obtain x where x: "space_reach x" "length (dirs x) = 1" "roomy 20 (heap_of (mem x))" "user_mem_bound (dirs x ! 0) = 0x300000" by (rule first_process [of 20]) simp_all
  have d: "drop_bit 12 (0x201000 :: u64) \<noteq> drop_bit 12 0x202000" by code_simp
  have u: "user_va 0x201000" "user_va 0x202000" by simp_all
  have l: "0 < length (dirs x)" using x(2) by simp
  obtain pd s pa where 1: "space_reach (x\<lparr>mem := s, dirs := (dirs x)[0 := pd]\<rparr>)" "roomy 15 (heap_of s)" "root pd = root (dirs x ! 0)" "sv39 (root pd) s 0x201000 = Some pa"
    "user_mem_bound pd = user_mem_bound (dirs x ! 0)"
    by (rule fault_reached [OF x(1) l, where va = "0x201000" and n = 15]) (use x in simp_all)
  let ?y = "x\<lparr>mem := s, dirs := (dirs x)[0 := pd]\<rparr>"
  have l2: "0 < length (dirs ?y)" using l by simp
  obtain pd' s' pa' where 2: "space_reach (?y\<lparr>mem := s', dirs := (dirs ?y)[0 := pd']\<rparr>)" "root pd' = root (dirs ?y ! 0)" "sv39 (root pd') s' 0x202000 = Some pa'"
    "\<And>va'. user_va va' \<Longrightarrow> drop_bit 12 va' \<noteq> drop_bit 12 0x202000 \<Longrightarrow> sv39 (root pd') s' va' = sv39 (root (dirs ?y ! 0)) (mem ?y) va'"
    by (rule fault_reached [OF 1(1) l2, where va = "0x202000" and n = 10]) (use x 1 l in simp_all)
  have old: "sv39 (root pd') s' 0x201000 = Some pa" using 2(4) [of "0x201000"] 1(4) d l by simp
  let ?z = "?y\<lparr>mem := s', dirs := (dirs ?y)[0 := pd']\<rparr>"
  have z: "sv39 (root (dirs ?z ! 0)) (mem ?z) 0x201000 = Some pa" "sv39 (root (dirs ?z ! 0)) (mem ?z) 0x202000 = Some pa'" "0 < length (dirs ?z)" using old 2(3) l by simp_all
  obtain vas where v: "space_run vas ?z" "\<forall>v \<in> set vas. user_va v" using 2(1) unfolding space_reach_def by blast
  have "page_of pa \<notin> tables (root (dirs ?z ! 0)) (mem ?z) \<and> (page_of pa = page_of pa' \<longrightarrow> map_option OSflag (page_entry (root (dirs ?z ! 0)) (mem ?z) 0x201000) = Some Shared)"
    using process_isolation [OF v z(3,3) u z(1,2)] d z(3) by blast
  with z(1,2) v show ?thesis by blast
qed

end
