(* ===== verification/Image.thy ===== *)
theory Image
  imports Prelude
begin

text \<open>
  The tool that builds the disk image, \<open>tools/createimage.c\<close>: the segments of the boot block, of the kernel and of every program one after the other, each padded to whole sectors, a table of the
  programs in the last sector, and its place and length in the first.

  A stream is its contents and its position. \<open>fs\<close> gives the contents of the files by name. An \<open>int\<close> that counts bytes is an integer; where it would overflow the result is \<open>None\<close>, as for a failed
  assertion. The output to the terminal is left out.
\<close>

section \<open>Streams\<close>

record stream =
  content :: "u8 list"
  fpos :: nat

definition open_stream :: "u8 list \<Rightarrow> stream" where
  "open_stream bs = \<lparr>content = bs, fpos = 0\<rparr>"

text \<open>The offset is a signed \<open>long\<close>; \<open>fseek\<close> refuses a negative one.\<close>

definition fseek_set :: "u64 \<Rightarrow> stream \<Rightarrow> stream" where
  "fseek_set off f = (if 0 \<le> sint off then f\<lparr>fpos := unat off\<rparr> else f)"

definition fseek_end :: "stream \<Rightarrow> stream" where
  "fseek_end f = f\<lparr>fpos := length (content f)\<rparr>"

text \<open>\<open>fread\<close> of one object, whose result is asserted to be 1.\<close>

definition fread_one :: "nat \<Rightarrow> stream \<Rightarrow> (u8 list \<times> stream) option" where
  "fread_one n f = do {
     kassert (fpos f + n \<le> length (content f));
     Some (take n (drop (fpos f) (content f)), f\<lparr>fpos := fpos f + n\<rparr>)
   }"

text \<open>At the end of the file \<open>fgetc\<close> gives \<open>EOF\<close>, of which \<open>fputc\<close> writes the low byte.\<close>

definition fgetc :: "stream \<Rightarrow> u8 \<times> stream" where
  "fgetc f = (if fpos f < length (content f) then (content f ! fpos f, f\<lparr>fpos := Suc (fpos f)\<rparr>) else (-1, f))"

definition fwrite :: "u8 list \<Rightarrow> stream \<Rightarrow> stream" where
  "fwrite bs f =
     (let c = content f @ replicate (fpos f - length (content f)) 0
      in f\<lparr>content := take (fpos f) c @ bs @ drop (fpos f + length bs) c, fpos := fpos f + length bs\<rparr>)"

definition fputc :: "u8 \<Rightarrow> stream \<Rightarrow> stream" where
  "fputc c f = fwrite [c] f"

section \<open>Numbers in a file\<close>

fun le :: "u8 list \<Rightarrow> nat" where
  "le [] = 0"
| "le (b # bs) = unat b + 256 * le bs"

primrec le_bytes :: "nat \<Rightarrow> nat \<Rightarrow> u8 list" where
  "le_bytes 0 x = []"
| "le_bytes (Suc n) x = of_nat x # le_bytes n (x div 256)"

definition field :: "nat \<Rightarrow> nat \<Rightarrow> u8 list \<Rightarrow> nat" where
  "field off n bs = le (take n (drop off bs))"

record Elf64_Ehdr =
  e_entry :: u64
  e_phoff :: u64
  e_phentsize :: u16
  e_phnum :: u16

record Elf64_Phdr =
  p_type :: u32
  p_offset :: u64
  p_filesz :: u64
  p_memsz :: u64

record task_info =
  entry_point :: u64
  sdcard_block_id :: u32
  sdcard_block_num :: u32
  task_name :: "u8 list"

definition task_bytes :: "task_info \<Rightarrow> u8 list" where
  "task_bytes t = le_bytes 8 (unat (entry_point t)) @ le_bytes 4 (unat (sdcard_block_id t)) @ le_bytes 4 (unat (sdcard_block_num t)) @ task_name t"

section \<open>The code\<close>

definition PT_LOAD :: u32 where "PT_LOAD = 1"
definition SECTOR :: int where "SECTOR = 512"

text \<open>Division of C rounds towards zero.\<close>

definition NBYTES2SEC :: "int \<Rightarrow> int" where
  "NBYTES2SEC n = (if 0 \<le> n then n div SECTOR else - (- n div SECTOR)) + (if n mod SECTOR \<noteq> 0 then 1 else 0)"

definition read_ehdr :: "stream \<Rightarrow> (Elf64_Ehdr \<times> stream) option" where
  "read_ehdr fp = do {
     (b, fp) \<leftarrow> fread_one 64 fp;
     kassert (b ! 1 = 0x45);
     kassert (b ! 2 = 0x4c);
     kassert (b ! 3 = 0x46);
     Some (\<lparr>e_entry = of_nat (field 24 8 b), e_phoff = of_nat (field 32 8 b), e_phentsize = of_nat (field 54 2 b), e_phnum = of_nat (field 56 2 b)\<rparr>, fp)
   }"

definition read_phdr :: "stream \<Rightarrow> nat \<Rightarrow> Elf64_Ehdr \<Rightarrow> (Elf64_Phdr \<times> stream) option" where
  "read_phdr fp ph ehdr = do {
     let fp = fseek_set (e_phoff ehdr + scast (of_nat ph * ucast (e_phentsize ehdr) :: u32)) fp;
     (b, fp) \<leftarrow> fread_one 56 fp;
     Some (\<lparr>p_type = of_nat (field 0 4 b), p_offset = of_nat (field 8 8 b), p_filesz = of_nat (field 32 8 b), p_memsz = of_nat (field 40 8 b)\<rparr>, fp)
   }"

definition get_entrypoint :: "Elf64_Ehdr \<Rightarrow> u64" where
  "get_entrypoint ehdr = e_entry ehdr"

definition get_filesz :: "Elf64_Phdr \<Rightarrow> u32" where
  "get_filesz phdr = ucast (p_filesz phdr)"

definition get_memsz :: "Elf64_Phdr \<Rightarrow> u32" where
  "get_memsz phdr = ucast (p_memsz phdr)"

definition count_up :: "int \<Rightarrow> int option" where
  "count_up n = (if n < 2 ^ 31 - 1 then Some (n + 1) else None)"

fun copy_bytes :: "nat \<Rightarrow> stream \<Rightarrow> stream \<Rightarrow> int \<Rightarrow> (stream \<times> stream \<times> int) option" where
  "copy_bytes 0 fp f a = Some (fp, f, a)"
| "copy_bytes (Suc n) fp f a = do {
     let (c, fp) = fgetc fp;
     a \<leftarrow> count_up a;
     copy_bytes n fp (fputc c f) a
   }"

definition write_segment :: "Elf64_Phdr \<Rightarrow> stream \<Rightarrow> stream \<Rightarrow> int \<Rightarrow> (stream \<times> stream \<times> int) option" where
  "write_segment phdr fp f a =
     (if p_memsz phdr \<noteq> 0 \<and> p_type phdr = PT_LOAD then copy_bytes (unat (p_filesz phdr)) (fseek_set (p_offset phdr) fp) f a
      else Some (fp, f, a))"

function write_padding :: "stream \<Rightarrow> int \<Rightarrow> int \<Rightarrow> stream \<times> int" where
  "write_padding f a b =
     (if a < b then write_padding (fputc 0 f) (a + 1) b else (f, a))"
  by auto

termination by (relation "measure (\<lambda>(_, a, n). nat (n - a))") auto

declare write_padding.simps [simp del]

record image =
  img :: stream
  phyaddr :: int
  nbytes_kernel :: u32
  taskinfo :: "task_info list"

definition TASK_MAXNUM :: nat where "TASK_MAXNUM = 16"

definition no_task :: task_info where
  "no_task = \<lparr>entry_point = 0, sdcard_block_id = 0, sdcard_block_num = 0, task_name = replicate 16 0\<rparr>"

text \<open>The loop over the program headers of one file.\<close>

fun write_segments :: "string \<Rightarrow> Elf64_Ehdr \<Rightarrow> nat list \<Rightarrow> stream \<Rightarrow> image \<Rightarrow> image option" where
  "write_segments nam ehdr [] fp x = Some x"
| "write_segments nam ehdr (ph # phs) fp x = do {
     (phdr, fp) \<leftarrow> read_phdr fp ph ehdr;
     if p_type phdr \<noteq> PT_LOAD then write_segments nam ehdr phs fp x
     else do {
       (fp, i, a) \<leftarrow> write_segment phdr fp (img x) (phyaddr x);
       let x = x\<lparr>img := i, phyaddr := a\<rparr>;
       write_segments nam ehdr phs fp (if nam = ''main'' then x\<lparr>nbytes_kernel := nbytes_kernel x + get_filesz phdr\<rparr> else x)
     }
   }"

text \<open>\<open>strcpy\<close> to the 16 bytes of the name.\<close>

definition copy_name :: "string \<Rightarrow> u8 list \<Rightarrow> u8 list option" where
  "copy_name nam old = do {
     kassert (length nam < 16);
     Some (map of_char nam @ 0 # drop (Suc (length nam)) old)
   }"

definition begin_task :: "nat \<Rightarrow> string \<Rightarrow> image \<Rightarrow> image option" where
  "begin_task taskidx nam x = do {
     kassert (taskidx < TASK_MAXNUM);
     let t = taskinfo x ! taskidx;
     n \<leftarrow> copy_name nam (task_name t);
     Some (x\<lparr>taskinfo := (taskinfo x)[taskidx := t\<lparr>entry_point := of_nat (0x52000000 + taskidx * 0x10000), sdcard_block_id := of_int (phyaddr x div SECTOR), task_name := n\<rparr>]\<rparr>)
   }"

definition end_task :: "nat \<Rightarrow> image \<Rightarrow> image" where
  "end_task taskidx x =
     (let t = taskinfo x ! taskidx
      in x\<lparr>taskinfo := (taskinfo x)[taskidx := t\<lparr>sdcard_block_num := of_int (phyaddr x div SECTOR) - sdcard_block_id t\<rparr>]\<rparr>)"

definition add_file :: "(string \<Rightarrow> u8 list option) \<Rightarrow> nat \<Rightarrow> string \<Rightarrow> image \<Rightarrow> image option" where
  "add_file fs fidx nam x = do {
     x \<leftarrow> (if fidx \<ge> 2 then begin_task (fidx - 2) nam x else Some x);
     bs \<leftarrow> fs nam;
     (ehdr, fp) \<leftarrow> read_ehdr (open_stream bs);
     x \<leftarrow> write_segments nam ehdr [0..<unat (e_phnum ehdr)] fp x;
     kassert (NBYTES2SEC (phyaddr x) * SECTOR < 2 ^ 31);
     let (i, a) = write_padding (img x) (phyaddr x) (NBYTES2SEC (phyaddr x) * SECTOR);
     let x = x\<lparr>img := i, phyaddr := a\<rparr>;
     Some (if fidx \<ge> 2 then end_task (fidx - 2) x else x)
   }"

fun add_files :: "(string \<Rightarrow> u8 list option) \<Rightarrow> nat \<Rightarrow> string list \<Rightarrow> image \<Rightarrow> image option" where
  "add_files fs fidx [] x = Some x"
| "add_files fs fidx (nam # nams) x = do { x \<leftarrow> add_file fs fidx nam x; add_files fs (Suc fidx) nams x }"

definition write_img_info :: "u32 \<Rightarrow> u16 \<Rightarrow> task_info list \<Rightarrow> stream \<Rightarrow> stream option" where
  "write_img_info nbytes tasknum tasks f = do {
     let task_info_sdcard_id = fpos f div 512;
     let f = fseek_set 0x1f0 f;
     let f = fwrite (le_bytes 4 task_info_sdcard_id) f;
     let f = fwrite (le_bytes 2 (unat tasknum)) f;
     let os_size = (of_int (NBYTES2SEC (sint nbytes)) :: u16);
     let f = fseek_set 0x1fc f;
     let f = fwrite (le_bytes 2 (unat os_size)) f;
     let f = fseek_end f;
     kassert (fpos f mod 512 = 0);
     Some (fwrite (concat (map task_bytes tasks)) f)
   }"

definition create_image :: "(string \<Rightarrow> u8 list option) \<Rightarrow> string list \<Rightarrow> u8 list option" where
  "create_image fs files = do {
     x \<leftarrow> add_files fs 0 files \<lparr>img = open_stream [], phyaddr = 0, nbytes_kernel = 0, taskinfo = replicate TASK_MAXNUM no_task\<rparr>;
     i \<leftarrow> write_img_info (nbytes_kernel x) (of_nat (length files) - 2) (taskinfo x) (img x);
     Some (content i)
   }"

text \<open>\<open>main\<close>: the options, of which \<open>--vm\<close> is refused, and the number of arguments. An error ends the program without an image.\<close>

fun strip_options :: "bool \<Rightarrow> string list \<Rightarrow> (bool \<times> string list) option" where
  "strip_options vm [] = Some (vm, [])"
| "strip_options vm (a # as) =
     (if take 2 a = ''--'' then
        if drop 2 a = ''vm'' then strip_options True as
        else if drop 2 a = ''extended'' then strip_options vm as
        else None
      else Some (vm, a # as))"

definition image_main :: "(string \<Rightarrow> u8 list option) \<Rightarrow> string list \<Rightarrow> u8 list option" where
  "image_main fs args = do {
     (vm, files) \<leftarrow> strip_options False args;
     if vm then None
     else if length files + 1 < 3 then None
     else create_image fs files
   }"

section \<open>What the image should hold\<close>

text \<open>The loaded bytes of one file, read without writing anything, and the padding to whole sectors.\<close>

fun read_bytes :: "nat \<Rightarrow> stream \<Rightarrow> u8 list \<times> stream" where
  "read_bytes 0 fp = ([], fp)"
| "read_bytes (Suc n) fp = (let (c, fp) = fgetc fp; (cs, fp) = read_bytes n fp in (c # cs, fp))"

fun read_segments :: "Elf64_Ehdr \<Rightarrow> nat list \<Rightarrow> stream \<Rightarrow> u8 list option" where
  "read_segments ehdr [] fp = Some []"
| "read_segments ehdr (ph # phs) fp = do {
     (phdr, fp) \<leftarrow> read_phdr fp ph ehdr;
     if p_type phdr = PT_LOAD \<and> p_memsz phdr \<noteq> 0 then do {
       let (bs, fp) = read_bytes (unat (p_filesz phdr)) (fseek_set (p_offset phdr) fp);
       cs \<leftarrow> read_segments ehdr phs fp;
       Some (bs @ cs)
     } else read_segments ehdr phs fp
   }"

definition payload :: "(string \<Rightarrow> u8 list option) \<Rightarrow> string \<Rightarrow> u8 list option" where
  "payload fs nam = do {
     bs \<leftarrow> fs nam;
     (ehdr, fp) \<leftarrow> read_ehdr (open_stream bs);
     read_segments ehdr [0..<unat (e_phnum ehdr)] fp
   }"

definition sectors :: "nat \<Rightarrow> nat" where
  "sectors n = (n + 511) div 512"

definition sector_pad :: "u8 list \<Rightarrow> u8 list" where
  "sector_pad bs = bs @ replicate (sectors (length bs) * 512 - length bs) 0"

lemma length_sector_pad: "length (sector_pad bs) = sectors (length bs) * 512"
  by (simp add: sector_pad_def sectors_def)

section \<open>What is written\<close>

lemma length_le_bytes [simp]: "length (le_bytes n x) = n"
  by (induction n arbitrary: x) simp_all

lemma le_le_bytes: "le (le_bytes n x) = x mod 256 ^ n"
proof (induction n arbitrary: x)
  case (Suc n)
  have "x mod 256 ^ Suc n = x mod 256 + 256 * (x div 256 mod 256 ^ n)" by (simp add: mod_mult2_eq)
  then show ?case by (simp add: Suc unat_of_nat)
qed simp

lemma fputc_end: "fpos f = length (content f) \<Longrightarrow> fputc c f = \<lparr>content = content f @ [c], fpos = Suc (fpos f)\<rparr>"
  by (simp add: fputc_def fwrite_def Let_def)

text \<open>The stream of the image is at its end, and the counter of bytes agrees with it.\<close>

definition at_end :: "stream \<Rightarrow> int \<Rightarrow> bool" where
  "at_end f a \<longleftrightarrow> fpos f = length (content f) \<and> a = int (length (content f)) \<and> a < 2 ^ 31"

lemma copy_bytes_ok:
  "at_end f a \<Longrightarrow> copy_bytes n fp f a = Some (fp', f', a') \<Longrightarrow> content f' = content f @ fst (read_bytes n fp) \<and> fp' = snd (read_bytes n fp) \<and> at_end f' a'"
proof (induction n arbitrary: fp f a)
  case (Suc n)
  obtain c fp1 where c: "fgetc fp = (c, fp1)" by fastforce
  have a: "a + 1 < 2 ^ 31" "copy_bytes n fp1 (fputc c f) (a + 1) = Some (fp', f', a')"
    using Suc.prems(2) c by (auto simp: count_up_def elim!: bind_SomeE split: if_splits)
  have e: "fputc c f = \<lparr>content = content f @ [c], fpos = Suc (fpos f)\<rparr>" using Suc.prems(1) by (intro fputc_end) (simp add: at_end_def)
  have "at_end (fputc c f) (a + 1)" using Suc.prems(1) a(1) unfolding e by (simp add: at_end_def)
  from Suc.IH [OF this a(2)] show ?case by (simp add: c e split: prod.splits)
qed simp

lemma write_padding_ok:
  "at_end f a \<Longrightarrow> b < 2 ^ 31 \<Longrightarrow> write_padding f a b = (f', a') \<Longrightarrow> content f' = content f @ replicate (nat (b - a)) 0 \<and> at_end f' a'"
proof (induction f a b arbitrary: f' a' rule: write_padding.induct)
  case (1 f a b)
  show ?case
  proof (cases "a < b")
    case True
    have e: "fputc 0 f = \<lparr>content = content f @ [0], fpos = Suc (fpos f)\<rparr>" using "1.prems"(1) by (intro fputc_end) (simp add: at_end_def)
    have "at_end (fputc 0 f) (a + 1)" using "1.prems"(1,2) True unfolding e by (simp add: at_end_def)
    moreover have "write_padding (fputc 0 f) (a + 1) b = (f', a')" using "1.prems"(3) True by (subst (asm) write_padding.simps) simp
    ultimately have "content f' = content (fputc 0 f) @ replicate (nat (b - (a + 1))) 0 \<and> at_end f' a'" by (intro "1.IH" [OF True]) (use "1.prems"(2) in simp_all)
    moreover have "nat (b - a) = Suc (nat (b - (a + 1)))" using True by simp
    ultimately show ?thesis by (simp add: e)
  next
    case False
    then have "(f', a') = (f, a)" using "1.prems"(3) by (subst (asm) write_padding.simps) simp
    with False "1.prems"(1) show ?thesis by simp
  qed
qed

lemma write_segments_ok:
  "at_end (img x) (phyaddr x) \<Longrightarrow> write_segments nam ehdr phs fp x = Some x' \<Longrightarrow>
    \<exists>bs. read_segments ehdr phs fp = Some bs \<and> content (img x') = content (img x) @ bs \<and> at_end (img x') (phyaddr x') \<and> taskinfo x' = taskinfo x"
proof (induction phs arbitrary: fp x)
  case (Cons ph phs)
  from Cons.prems(2) obtain phdr fp1 where r: "read_phdr fp ph ehdr = Some (phdr, fp1)" by (auto elim!: bind_SomeE)
  show ?case
  proof (cases "p_type phdr = PT_LOAD")
    case False
    then show ?thesis using Cons.IH [OF Cons.prems(1)] Cons.prems(2) r by simp
  next
    case True
    define y where "y i a = (let x = x\<lparr>img := i, phyaddr := a\<rparr> in if nam = ''main'' then x\<lparr>nbytes_kernel := nbytes_kernel x + get_filesz phdr\<rparr> else x)" for i a
    have y: "img (y i a) = i" "phyaddr (y i a) = a" "taskinfo (y i a) = taskinfo x" for i a by (simp_all add: y_def Let_def)
    from Cons.prems(2) r True obtain fp2 i a where w: "write_segment phdr fp1 (img x) (phyaddr x) = Some (fp2, i, a)" "write_segments nam ehdr phs fp2 (y i a) = Some x'"
      by (auto simp: y_def Let_def elim!: bind_SomeE)
    show ?thesis
    proof (cases "p_memsz phdr = 0")
      case True
      then have "fp2 = fp1" "i = img x" "a = phyaddr x" using w(1) by (simp_all add: write_segment_def)
      then show ?thesis using Cons.IH [of "y i a" fp2] Cons.prems(1) w(2) r True by (simp add: y)
    next
      case False
      let ?fp = "fseek_set (p_offset phdr) fp1"
      from w(1) False True have "copy_bytes (unat (p_filesz phdr)) ?fp (img x) (phyaddr x) = Some (fp2, i, a)" by (simp add: write_segment_def)
      from copy_bytes_ok [OF Cons.prems(1) this] Cons.IH [of "y i a" fp2] w(2) show ?thesis
        by (auto simp: r True False y split: prod.splits)
    qed
  qed
qed simp

text \<open>The entry of a program in the table: where it begins, how long it is, and its name, filled up with zeros.\<close>

definition task_entry :: "nat \<Rightarrow> string \<Rightarrow> nat \<Rightarrow> nat \<Rightarrow> task_info" where
  "task_entry i nam first n =
     \<lparr>entry_point = of_nat (0x52000000 + i * 0x10000), sdcard_block_id = of_nat first, sdcard_block_num = of_nat n, task_name = map of_char nam @ replicate (16 - length nam) 0\<rparr>"

lemma sectors_rec: "r < 512 \<Longrightarrow> sectors (512 * q + r) = q + (if r = 0 then 0 else 1)"
proof -
  assume r: "r < 512"
  show ?thesis
  proof (cases r)
    case (Suc m)
    then have "512 * q + r + 511 = m + 512 * Suc q" by simp
    moreover have "(m + 512 * Suc q) div 512 = Suc q" using r Suc by (subst div_mult_self2) simp_all
    ultimately show ?thesis using Suc by (simp add: sectors_def)
  qed (simp add: sectors_def)
qed

lemma sectors_eq: "NBYTES2SEC (int n) * SECTOR = int (sectors n * 512)"
proof -
  have "sectors n = n div 512 + (if n mod 512 = 0 then 0 else 1)" using sectors_rec [of "n mod 512" "n div 512"] by simp
  moreover have "int n div SECTOR = int (n div 512)" "int n mod SECTOR = int (n mod 512)" by (simp_all add: SECTOR_def zdiv_int zmod_int)
  ultimately show ?thesis by (simp add: NBYTES2SEC_def) (simp add: SECTOR_def)
qed

lemma sectors_add: "512 dvd a \<Longrightarrow> sectors (a + n) = a div 512 + sectors n"
  by (auto simp: sectors_def dvd_def)

lemma add_file_ok:
  assumes x: "at_end (img x) (phyaddr x)" "512 dvd length (content (img x))" "length (taskinfo x) = 16" "fidx \<ge> 2 \<Longrightarrow> fidx - 2 < 16 \<Longrightarrow> taskinfo x ! (fidx - 2) = no_task"
    and a: "add_file fs fidx nam x = Some x'"
  obtains bs where "payload fs nam = Some bs" "content (img x') = content (img x) @ sector_pad bs" "at_end (img x') (phyaddr x')"
    "if fidx \<ge> 2 then fidx - 2 < 16 \<and> length nam < 16 \<and> taskinfo x' = (taskinfo x)[fidx - 2 := task_entry (fidx - 2) nam (length (content (img x)) div 512) (sectors (length bs))]
     else taskinfo x' = taskinfo x"
proof -
  let ?c = "length (content (img x))"
  from a obtain y bs0 ehdr fp z where
    y: "(if fidx \<ge> 2 then begin_task (fidx - 2) nam x else Some x) = Some y" and r: "fs nam = Some bs0" "read_ehdr (open_stream bs0) = Some (ehdr, fp)"
    and w: "write_segments nam ehdr [0..<unat (e_phnum ehdr)] fp y = Some z" "NBYTES2SEC (phyaddr z) * SECTOR < 2 ^ 31"
    and x': "x' = (let (i, a) = write_padding (img z) (phyaddr z) (NBYTES2SEC (phyaddr z) * SECTOR); x = z\<lparr>img := i, phyaddr := a\<rparr> in if fidx \<ge> 2 then end_task (fidx - 2) x else x)"
    by (auto simp: add_file_def Let_def elim!: bind_SomeE split: prod.splits)
  have iy: "img y = img x" "phyaddr y = phyaddr x" using y by (auto simp: begin_task_def Let_def elim!: bind_SomeE split: if_splits)
  obtain bs where bs: "read_segments ehdr [0..<unat (e_phnum ehdr)] fp = Some bs" "content (img z) = content (img x) @ bs" "at_end (img z) (phyaddr z)" "taskinfo z = taskinfo y"
    using write_segments_ok [OF _ w(1)] x(1) iy by auto
  obtain i b where p: "write_padding (img z) (phyaddr z) (NBYTES2SEC (phyaddr z) * SECTOR) = (i, b)" by fastforce
  have n: "phyaddr z = int (?c + length bs)" using bs(2,3) by (simp add: at_end_def)
  have s: "NBYTES2SEC (phyaddr z) * SECTOR = int (?c + sectors (length bs) * 512)"
    unfolding n sectors_eq using x(2) by (simp add: sectors_add add_mult_distrib)
  have k: "nat (NBYTES2SEC (phyaddr z) * SECTOR - phyaddr z) = sectors (length bs) * 512 - length bs" unfolding s unfolding n by simp
  have i: "content i = content (img x) @ sector_pad bs" "at_end i b" using write_padding_ok [OF bs(3) w(2) p] unfolding k by (auto simp: bs(2) sector_pad_def)
  have b: "b = int (?c + sectors (length bs) * 512)" using i by (simp add: at_end_def length_sector_pad)
  have ix: "img x' = i" "phyaddr x' = b" by (simp_all add: x' p end_task_def Let_def)
  have "if fidx \<ge> 2 then fidx - 2 < 16 \<and> length nam < 16 \<and> taskinfo x' = (taskinfo x)[fidx - 2 := task_entry (fidx - 2) nam (?c div 512) (sectors (length bs))]
     else taskinfo x' = taskinfo x"
  proof (cases "fidx \<ge> 2")
    case False
    then show ?thesis using y bs(4) by (simp add: x' p)
  next
    case True
    then have t: "fidx - 2 < 16" "length nam < 16" using y by (auto simp: begin_task_def copy_name_def TASK_MAXNUM_def Let_def elim!: bind_SomeE split: if_splits)
    have c: "phyaddr x = int ?c" using x(1) by (simp add: at_end_def)
    have "int ?c div 512 = int (?c div 512)" by (simp add: zdiv_int)
    then have e: "word_of_int (int ?c div 512) = (of_nat (?c div 512) :: u32)" by (simp only: of_int_of_nat_eq)
    have "16 - length nam = Suc (15 - length nam)" using t(2) by simp
    then have "0 # replicate (15 - length nam) 0 = (replicate (16 - length nam) 0 :: u8 list)" by (simp only: replicate_Suc)
    note e = e this
    have ty: "taskinfo y = (taskinfo x)[fidx - 2 := (task_entry (fidx - 2) nam (?c div 512) 0)]"
      using y True t x(4) [OF True t(1)] c by (auto simp: begin_task_def copy_name_def TASK_MAXNUM_def Let_def no_task_def task_entry_def SECTOR_def e elim!: bind_SomeE)
    have "(?c + sectors (length bs) * 512) div 512 = ?c div 512 + sectors (length bs)" by simp
    then have "of_int (b div SECTOR) - (of_nat (?c div 512) :: u32) = of_nat (sectors (length bs))" using e(1) by (simp add: b SECTOR_def)
    then have "taskinfo x' = (taskinfo x)[fidx - 2 := task_entry (fidx - 2) nam (?c div 512) (sectors (length bs))]"
      using True t(1) x(3) by (simp add: x' p end_task_def Let_def bs(4) ty task_entry_def)
    with True t show ?thesis by simp
  qed
  then show thesis using that [of bs] i ix bs(1) r by (simp add: payload_def)
qed

definition body :: "u8 list list \<Rightarrow> u8 list" where
  "body ps = concat (map sector_pad ps)"

lemma body_simps [simp]: "body [] = []" "body (p # ps) = sector_pad p @ body ps"
  by (simp_all add: body_def)

lemma body_sectors: "512 dvd length (body ps)"
  by (induction ps) (simp_all add: length_sector_pad)

text \<open>The images of the files follow each other, and the table tells where each program lies.\<close>

definition built :: "(string \<Rightarrow> u8 list option) \<Rightarrow> nat \<Rightarrow> string list \<Rightarrow> u8 list list \<Rightarrow> image \<Rightarrow> image \<Rightarrow> bool" where
  "built fs fidx nams ps x x' \<longleftrightarrow> list_all2 (\<lambda>nam p. payload fs nam = Some p) nams ps \<and> content (img x') = content (img x) @ body ps \<and> at_end (img x') (phyaddr x') \<and>
     length (taskinfo x') = 16 \<and> (\<forall>i < 16. fidx + length nams \<le> i + 2 \<longrightarrow> taskinfo x' ! i = no_task) \<and> (\<forall>i. i + 2 < fidx \<longrightarrow> taskinfo x' ! i = taskinfo x ! i) \<and>
     (\<forall>j < length nams. fidx + j \<ge> 2 \<longrightarrow> fidx + j - 2 < 16 \<and> length (nams ! j) < 16 \<and>
        taskinfo x' ! (fidx + j - 2) = task_entry (fidx + j - 2) (nams ! j) ((length (content (img x)) + length (body (take j ps))) div 512) (sectors (length (ps ! j))))"

lemma add_files_ok:
  "at_end (img x) (phyaddr x) \<Longrightarrow> 512 dvd length (content (img x)) \<Longrightarrow> length (taskinfo x) = 16 \<Longrightarrow> \<forall>i < 16. fidx \<le> i + 2 \<longrightarrow> taskinfo x ! i = no_task
    \<Longrightarrow> add_files fs fidx nams x = Some x' \<Longrightarrow> \<exists>ps. built fs fidx nams ps x x'"
proof (induction nams arbitrary: fidx x)
  case Nil
  then show ?case by (intro exI [of _ "[]"]) (simp add: built_def)
next
  case (Cons nam nams)
  from Cons.prems(5) obtain y where y: "add_file fs fidx nam x = Some y" "add_files fs (Suc fidx) nams y = Some x'" by (auto elim!: bind_SomeE)
  obtain bs where bs: "payload fs nam = Some bs" "content (img y) = content (img x) @ sector_pad bs" "at_end (img y) (phyaddr y)"
    and t: "if fidx \<ge> 2 then fidx - 2 < 16 \<and> length nam < 16 \<and> taskinfo y = (taskinfo x)[fidx - 2 := task_entry (fidx - 2) nam (length (content (img x)) div 512) (sectors (length bs))]
     else taskinfo y = taskinfo x"
    by (rule add_file_ok [OF Cons.prems(1-3) _ y(1)]) (use Cons.prems(4) in auto)
  have l: "length (taskinfo y) = 16" using t Cons.prems(3) by (auto split: if_splits)
  have "\<forall>i < 16. Suc fidx \<le> i + 2 \<longrightarrow> taskinfo y ! i = no_task" using t Cons.prems(3,4) by (auto split: if_splits)
  then obtain ps where ps: "built fs (Suc fidx) nams ps y x'" using Cons.IH [OF bs(3) _ l _ y(2)] Cons.prems(2) bs(2) by (auto simp: length_sector_pad)
  then have q: "content (img x') = content (img y) @ body ps" "length (taskinfo x') = 16" "\<And>i. i + 2 < Suc fidx \<Longrightarrow> taskinfo x' ! i = taskinfo y ! i"
    and j: "\<And>j. j < length nams \<Longrightarrow> Suc fidx + j \<ge> 2 \<Longrightarrow> Suc fidx + j - 2 < 16 \<and> length (nams ! j) < 16 \<and>
        taskinfo x' ! (Suc fidx + j - 2) = task_entry (Suc fidx + j - 2) (nams ! j) ((length (content (img y)) + length (body (take j ps))) div 512) (sectors (length (ps ! j)))"
    by (auto simp: built_def)
  have "fidx + k - 2 < 16 \<and> length ((nam # nams) ! k) < 16 \<and> taskinfo x' ! (fidx + k - 2) =
      task_entry (fidx + k - 2) ((nam # nams) ! k) ((length (content (img x)) + length (body (take k (bs # ps)))) div 512) (sectors (length ((bs # ps) ! k)))"
    if k: "k < Suc (length nams)" "fidx + k \<ge> 2" for k
  proof (cases k)
    case 0
    then show ?thesis using t k q(3) [of "fidx - 2"] Cons.prems(3) by auto
  next
    case (Suc m)
    then show ?thesis using j [of m] k bs(2) by (simp add: add.assoc)
  qed
  moreover have "taskinfo x' ! i = taskinfo x ! i" if "i + 2 < fidx" for i using q(3) [of i] t that by auto
  ultimately have "built fs fidx (nam # nams) (bs # ps) x x'" using ps bs(1,2) by (simp add: built_def)
  then show ?case by blast
qed

text \<open>The three places of the first sector that are filled in at the end, and the table after the last sector.\<close>

definition with_info :: "u8 list \<Rightarrow> nat \<Rightarrow> u16 \<Rightarrow> u8 list" where
  "with_info c tasknum os_size =
     take 496 c @ le_bytes 4 (length c div 512) @ le_bytes 2 tasknum @ take 6 (drop 502 c) @ le_bytes 2 (unat os_size) @ drop 510 c"

lemma length_with_info: "512 \<le> length c \<Longrightarrow> length (with_info c m z) = length c"
  by (simp add: with_info_def)

lemma fwrite_in:
  "fpos f + length bs \<le> length (content f) \<Longrightarrow>
    fwrite bs f = \<lparr>content = take (fpos f) (content f) @ bs @ drop (fpos f + length bs) (content f), fpos = fpos f + length bs\<rparr>"
  by (simp add: fwrite_def Let_def)

lemma write_img_info_eq:
  fixes nb :: u32 and m :: u16
  assumes "fpos f = length (content f)" "512 \<le> length (content f)"
  defines "c \<equiv> with_info (content f) (unat m) (of_int (NBYTES2SEC (sint nb)))"
  shows "write_img_info nb m ts f = do { kassert (length c mod 512 = 0); Some (fwrite (concat (map task_bytes ts)) \<lparr>content = c, fpos = length c\<rparr>) }"
proof -
  let ?c = "content f" and ?z = "of_int (NBYTES2SEC (sint nb)) :: u16"
  have s: "fseek_set 0x1f0 g = g\<lparr>fpos := 496\<rparr>" "fseek_set 0x1fc g = g\<lparr>fpos := 508\<rparr>" for g by (simp_all add: fseek_set_def)
  let ?L = "le_bytes 4 (length ?c div 512)" and ?M = "le_bytes 2 (unat m)"
  have 1: "fwrite ?L (f\<lparr>fpos := 496\<rparr>) = \<lparr>content = take 496 ?c @ ?L @ drop 500 ?c, fpos = 500\<rparr>" using assms(2) by (simp add: fwrite_in)
  have 2: "fwrite ?M \<lparr>content = take 496 ?c @ ?L @ drop 500 ?c, fpos = 500\<rparr> = \<lparr>content = take 496 ?c @ ?L @ ?M @ drop 502 ?c, fpos = 502\<rparr>"
    using assms(2) by (simp add: fwrite_in)
  have 3: "fwrite (le_bytes 2 (unat ?z)) \<lparr>content = take 496 ?c @ ?L @ ?M @ drop 502 ?c, fpos = 508\<rparr> = \<lparr>content = with_info ?c (unat m) ?z, fpos = 510\<rparr>"
    using assms(2) by (simp add: fwrite_in with_info_def)
  have 4: "fseek_end \<lparr>content = c, fpos = n\<rparr> = \<lparr>content = c, fpos = length c\<rparr>" for c n by (simp add: fseek_end_def)
  show ?thesis unfolding c_def write_img_info_def Let_def s assms(1) 1 2 stream.simps 3 4 ..
qed

lemma write_img_info_ok:
  assumes "fpos f = length (content f)" "512 \<le> length (content f)" "write_img_info nb m ts f = Some f'"
  shows "content f' = with_info (content f) (unat m) (of_int (NBYTES2SEC (sint nb))) @ concat (map task_bytes ts)"
  using assms(3) unfolding write_img_info_eq [OF assms(1,2)] by (auto simp: fwrite_def Let_def)

lemma length_task_bytes: "length (task_name t) = 16 \<Longrightarrow> length (task_bytes t) = 32"
  by (simp add: task_bytes_def)

lemma field_task:
  assumes "i < length ts" "\<forall>t \<in> set ts. length (task_name t) = 16" "off + n \<le> 32"
  shows "take n (drop (32 * i + off) (concat (map task_bytes ts))) = take n (drop off (task_bytes (ts ! i)))"
  using assms
proof (induction ts arbitrary: i)
  case (Cons t ts)
  have l: "length (task_bytes t) = 32" using Cons.prems(2) length_task_bytes by simp
  show ?case
  proof (cases i)
    case 0
    then show ?thesis using Cons.prems(3) l by simp
  next
    case (Suc k)
    then show ?thesis using Cons.IH [of k] Cons.prems l by simp
  qed
qed simp

text \<open>What the finished image holds.\<close>

lemma create_image_ok:
  assumes c: "create_image fs files = Some im" and b: "payload fs (hd files) \<noteq> Some []" and l: "2 \<le> length files"
  obtains ps ts z where "list_all2 (\<lambda>nam p. payload fs nam = Some p) files ps" "im = with_info (body ps) (length files - 2) z @ concat (map task_bytes ts)"
    "512 \<le> length (body ps)" "length (body ps) < 2 ^ 31" "length ts = 16" "\<forall>t \<in> set ts. length (task_name t) = 16" "length files - 2 \<le> 16"
    "\<And>j. j < length files - 2 \<Longrightarrow> length (files ! (j + 2)) < 16 \<and>
       ts ! j = task_entry j (files ! (j + 2)) (length (body (take (j + 2) ps)) div 512) (sectors (length (ps ! (j + 2))))"
proof -
  let ?x = "\<lparr>img = open_stream [], phyaddr = 0, nbytes_kernel = 0, taskinfo = replicate TASK_MAXNUM no_task\<rparr>"
  from c obtain x i where a: "add_files fs 0 files ?x = Some x" and w: "write_img_info (nbytes_kernel x) (of_nat (length files) - 2) (taskinfo x) (img x) = Some i" and im: "im = content i"
    by (auto simp: create_image_def elim!: bind_SomeE)
  obtain ps where bu: "built fs 0 files ps ?x x"
    using add_files_ok [OF _ _ _ _ a] by (auto simp: at_end_def open_stream_def TASK_MAXNUM_def)
  then have p: "list_all2 (\<lambda>nam p. payload fs nam = Some p) files ps" and co: "content (img x) = body ps" and e: "at_end (img x) (phyaddr x)" and lt: "length (taskinfo x) = 16"
    and none: "\<And>i. i < 16 \<Longrightarrow> length files \<le> i + 2 \<Longrightarrow> taskinfo x ! i = no_task"
    and en: "\<And>j. j < length files \<Longrightarrow> 2 \<le> j \<Longrightarrow> j - 2 < 16 \<and> length (files ! j) < 16 \<and>
        taskinfo x ! (j - 2) = task_entry (j - 2) (files ! j) (length (body (take j ps)) div 512) (sectors (length (ps ! j)))"
    by (auto simp: built_def open_stream_def)
  obtain f fs' where f: "files = f # fs'" using l by (cases files) auto
  with p obtain p0 ps' where p0: "ps = p0 # ps'" "payload fs f = Some p0" by (auto simp: list_all2_Cons1)
  have "p0 \<noteq> []" using b f p0(2) by auto
  then have "sectors (length p0) \<ge> 1" unfolding sectors_def by (simp add: Suc_leI length_greater_0_conv [symmetric] del: length_greater_0_conv)
  then have g: "512 \<le> length (body ps)" using p0(1) by (simp add: length_sector_pad)
  have n16: "length files - 2 \<le> 16" 
  proof (rule ccontr)
    assume "\<not> length files - 2 \<le> 16"
    then have "18 < length files" by linarith
    then show False using conjunct1 [OF en [of "18"]] by simp
  qed
  have nm: "length (task_name (taskinfo x ! j)) = 16" if "j < 16" for j
    using en [of "j + 2"] none [of j] that by (cases "j + 2 < length files") (auto simp: task_entry_def no_task_def)
  have m: "unat (of_nat (length files) - 2 :: u16) = length files - 2"
  proof -
    have "(of_nat (length files) - 2 :: u16) = of_nat (length files - 2)" using l by (simp add: of_nat_diff)
    then show ?thesis using n16 by (simp add: unat_of_nat)
  qed
  have ci: "content i = with_info (body ps) (length files - 2) (of_int (NBYTES2SEC (sint (nbytes_kernel x)))) @ concat (map task_bytes (taskinfo x))"
    using write_img_info_ok [OF _ _ w] e g by (simp add: co at_end_def m)
  show thesis
  proof (rule that [OF p _ g _ lt _ n16])
    show "im = with_info (body ps) (length files - 2) (of_int (NBYTES2SEC (sint (nbytes_kernel x)))) @ concat (map task_bytes (taskinfo x))" using ci im by simp
    show "length (body ps) < 2 ^ 31" using e by (simp add: at_end_def co)
    show "\<forall>t \<in> set (taskinfo x). length (task_name t) = 16" using nm lt by (metis in_set_conv_nth)
    show "length (files ! (j + 2)) < 16 \<and> taskinfo x ! j = task_entry j (files ! (j + 2)) (length (body (take (j + 2) ps)) div 512) (sectors (length (ps ! (j + 2))))"
      if "j < length files - 2" for j using en [of "j + 2"] that by simp
  qed
qed

section \<open>The builder succeeds\<close>

lemma length_read_bytes: "length (fst (read_bytes n fp)) = n"
  by (induction n arbitrary: fp) (simp_all split: prod.splits, metis fst_conv)

lemma copy_bytes_total:
  "at_end f a \<Longrightarrow> a + int n < 2 ^ 31 \<Longrightarrow> \<exists>f' a'. copy_bytes n fp f a = Some (snd (read_bytes n fp), f', a')"
proof (induction n arbitrary: fp f a)
  case (Suc n)
  obtain c fp1 where c: "fgetc fp = (c, fp1)" by fastforce
  have "fputc c f = \<lparr>content = content f @ [c], fpos = Suc (fpos f)\<rparr>" using Suc.prems(1) by (intro fputc_end) (simp add: at_end_def)
  then have "at_end (fputc c f) (a + 1)" using Suc.prems by (simp add: at_end_def)
  from Suc.IH [OF this, of fp1] Suc.prems(2) show ?case by (auto simp: c count_up_def split: prod.splits)
qed simp

lemma write_segments_total:
  "at_end (img x) (phyaddr x) \<Longrightarrow> read_segments ehdr phs fp = Some bs \<Longrightarrow> phyaddr x + int (length bs) < 2 ^ 31 \<Longrightarrow> \<exists>x'. write_segments nam ehdr phs fp x = Some x'"
proof (induction phs arbitrary: fp x bs)
  case (Cons ph phs)
  from Cons.prems(2) obtain phdr fp1 where r: "read_phdr fp ph ehdr = Some (phdr, fp1)" by (auto elim!: bind_SomeE)
  define y where "y i a = (let x = x\<lparr>img := i, phyaddr := a\<rparr> in if nam = ''main'' then x\<lparr>nbytes_kernel := nbytes_kernel x + get_filesz phdr\<rparr> else x)" for i a
  have y: "img (y i a) = i" "phyaddr (y i a) = a" for i a by (simp_all add: y_def Let_def)
  consider "p_type phdr \<noteq> PT_LOAD" | "p_type phdr = PT_LOAD" "p_memsz phdr = 0" | "p_type phdr = PT_LOAD" "p_memsz phdr \<noteq> 0" by blast
  then show ?case
  proof cases
    case 1
    then show ?thesis using Cons.IH [OF Cons.prems(1), of fp1 bs] Cons.prems(2,3) r by simp
  next
    case 2
    then have w: "write_segment phdr fp1 (img x) (phyaddr x) = Some (fp1, img x, phyaddr x)" by (simp add: write_segment_def)
    then show ?thesis using Cons.IH [of "y (img x) (phyaddr x)" fp1 bs] Cons.prems r 2 by (simp add: y) (auto simp: y_def Let_def split: if_splits)
  next
    case 3
    let ?n = "unat (p_filesz phdr)" and ?fp = "fseek_set (p_offset phdr) fp1"
    from Cons.prems(2) r 3 obtain cs where cs: "read_segments ehdr phs (snd (read_bytes ?n ?fp)) = Some cs" "bs = fst (read_bytes ?n ?fp) @ cs"
      by (auto elim!: bind_SomeE split: prod.splits)
    then have l: "length bs = ?n + length cs" by (simp add: length_read_bytes)
    obtain f' a' where c: "copy_bytes ?n ?fp (img x) (phyaddr x) = Some (snd (read_bytes ?n ?fp), f', a')"
      using copy_bytes_total [OF Cons.prems(1), of ?n ?fp] Cons.prems(3) l by auto
    note k = copy_bytes_ok [OF Cons.prems(1) c]
    then have "a' = phyaddr x + int ?n" using Cons.prems(1) by (auto simp: at_end_def length_read_bytes)
    then obtain x' where "write_segments nam ehdr phs (snd (read_bytes ?n ?fp)) (y f' a') = Some x'"
      using Cons.IH [of "y f' a'" _ cs] k cs(1) Cons.prems(3) l by (auto simp: y)
    with c r 3 show ?thesis by (auto simp: write_segment_def y_def Let_def)
  qed
qed simp

lemma add_file_total:
  assumes x: "at_end (img x) (phyaddr x)" "512 dvd length (content (img x))" and p: "payload fs nam = Some bs" "phyaddr x + int (sectors (length bs) * 512) < 2 ^ 31"
    and n: "2 \<le> fidx \<Longrightarrow> fidx - 2 < 16 \<and> length nam < 16"
  shows "\<exists>x'. add_file fs fidx nam x = Some x'"
proof -
  obtain y where y: "(if fidx \<ge> 2 then begin_task (fidx - 2) nam x else Some x) = Some y" "img y = img x" "phyaddr y = phyaddr x"
    using n by (cases "fidx \<ge> 2") (auto simp: begin_task_def copy_name_def TASK_MAXNUM_def Let_def)
  from p(1) obtain bs0 ehdr fp where r: "fs nam = Some bs0" "read_ehdr (open_stream bs0) = Some (ehdr, fp)" "read_segments ehdr [0..<unat (e_phnum ehdr)] fp = Some bs"
    by (auto simp: payload_def elim!: bind_SomeE)
  have le: "length bs \<le> sectors (length bs) * 512" by (simp add: sectors_def)
  then obtain z where z: "write_segments nam ehdr [0..<unat (e_phnum ehdr)] fp y = Some z" using write_segments_total [OF _ r(3)] y x(1) p(2) by fastforce
  with write_segments_ok [OF _ z] y(2,3) x(1) r(3) have "phyaddr z = int (length (content (img x)) + length bs)" by (auto simp: at_end_def)
  then have "NBYTES2SEC (phyaddr z) * SECTOR = phyaddr x + int (sectors (length bs) * 512)" using x by (simp only: sectors_eq) (simp add: sectors_add add_mult_distrib at_end_def)
  then have "NBYTES2SEC (phyaddr z) * SECTOR < 2 ^ 31" using p(2) by simp
  then show ?thesis using y(1) r(1,2) z by (simp add: add_file_def Let_def split: prod.splits)
qed

lemma add_files_total:
  "at_end (img x) (phyaddr x) \<Longrightarrow> 512 dvd length (content (img x)) \<Longrightarrow> length (taskinfo x) = 16 \<Longrightarrow> \<forall>i < 16. fidx \<le> i + 2 \<longrightarrow> taskinfo x ! i = no_task
    \<Longrightarrow> list_all2 (\<lambda>nam p. payload fs nam = Some p) nams ps \<Longrightarrow> phyaddr x + int (length (body ps)) < 2 ^ 31 \<Longrightarrow> fidx + length nams \<le> 18
    \<Longrightarrow> \<forall>j < length nams. 2 \<le> fidx + j \<longrightarrow> length (nams ! j) < 16 \<Longrightarrow> \<exists>x'. add_files fs fidx nams x = Some x'"
proof (induction nams arbitrary: fidx x ps)
  case (Cons nam nams)
  obtain p qs where ps: "ps = p # qs" "payload fs nam = Some p" "list_all2 (\<lambda>nam p. payload fs nam = Some p) nams qs" using Cons.prems(5) by (auto simp: list_all2_Cons1)
  have n: "2 \<le> fidx \<Longrightarrow> fidx - 2 < 16 \<and> length nam < 16" using Cons.prems(7,8) by force
  have sz: "phyaddr x + int (sectors (length p) * 512) < 2 ^ 31" using Cons.prems(6) by (simp add: ps(1) length_sector_pad)
  obtain y where y: "add_file fs fidx nam x = Some y" using add_file_total [OF Cons.prems(1,2) ps(2) sz n] by blast
  obtain bs where bs: "payload fs nam = Some bs" "content (img y) = content (img x) @ sector_pad bs" "at_end (img y) (phyaddr y)"
    and t: "if fidx \<ge> 2 then fidx - 2 < 16 \<and> length nam < 16 \<and> taskinfo y = (taskinfo x)[fidx - 2 := task_entry (fidx - 2) nam (length (content (img x)) div 512) (sectors (length bs))]
     else taskinfo y = taskinfo x"
    by (rule add_file_ok [OF Cons.prems(1-3) _ y]) (use Cons.prems(4) in auto)
  have "bs = p" using bs(1) ps(2) by simp
  then have "phyaddr y + int (length (body qs)) < 2 ^ 31" using Cons.prems(1,6) bs(2,3) by (simp add: ps(1) at_end_def)
  moreover have "length (taskinfo y) = 16" using t Cons.prems(3) by (auto split: if_splits)
  moreover have "\<forall>i < 16. Suc fidx \<le> i + 2 \<longrightarrow> taskinfo y ! i = no_task" using t Cons.prems(3,4) by (auto split: if_splits)
  moreover have "512 dvd length (content (img y))" using Cons.prems(2) bs(2) by (simp add: length_sector_pad)
  moreover have "\<forall>j < length nams. 2 \<le> Suc fidx + j \<longrightarrow> length (nams ! j) < 16" using Cons.prems(8) by force
  ultimately have "\<exists>x'. add_files fs (Suc fidx) nams y = Some x'" using Cons.IH [OF bs(3) _ _ _ ps(3)] Cons.prems(7) by simp
  with y show ?case by simp
qed simp

lemma create_image_total:
  assumes "list_all2 (\<lambda>nam p. payload fs nam = Some p) files ps" "512 \<le> length (body ps)" "length (body ps) < 2 ^ 31" "length files \<le> 18" "\<forall>nam \<in> set (drop 2 files). length nam < 16"
  shows "\<exists>im. create_image fs files = Some im"
proof -
  let ?x = "\<lparr>img = open_stream [], phyaddr = 0, nbytes_kernel = 0, taskinfo = replicate TASK_MAXNUM no_task\<rparr>"
  have nm: "\<forall>j < length files. 2 \<le> 0 + j \<longrightarrow> length (files ! j) < 16"
  proof (intro allI impI)
    fix j assume j: "j < length files" "2 \<le> 0 + j"
    then have "2 + (j - 2) = j" "j - 2 < length (drop 2 files)" by simp_all
    then have "drop 2 files ! (j - 2) = files ! j" "j - 2 < length (drop 2 files)" using nth_drop [of 2 files "j - 2"] j by simp_all
    then show "length (files ! j) < 16" using assms(5) nth_mem by metis
  qed
  obtain x where x: "add_files fs 0 files ?x = Some x"
    using add_files_total [OF _ _ _ _ assms(1), of ?x 0] assms(3,4) nm by (auto simp: at_end_def open_stream_def TASK_MAXNUM_def)
  obtain qs where bu: "built fs 0 files qs ?x x"
    using add_files_ok [OF _ _ _ _ x] by (auto simp: at_end_def open_stream_def TASK_MAXNUM_def)
  have "qs = ps"
  proof -
    have m: "map (payload fs) files = map Some rs" if "list_all2 (\<lambda>nam p. payload fs nam = Some p) files rs" for rs using that by (induction rule: list_all2_induct) simp_all
    have "map Some qs = map Some ps" using m [of qs] m [OF assms(1)] bu by (simp add: built_def)
    then show ?thesis by (simp add: inj_map_eq_map)
  qed
  then have c: "content (img x) = body ps" "fpos (img x) = length (content (img x))" using bu by (auto simp: built_def at_end_def open_stream_def)
  have "length (with_info (content (img x)) m z) mod 512 = 0" for m z using assms(2) body_sectors [of ps] by (simp add: c(1) length_with_info)
  then show ?thesis using x write_img_info_eq [OF c(2)] assms(2) by (simp add: create_image_def c(1))
qed

end
