(* ===== verification/Loader.thy ===== *)
theory Loader
  imports PageIso Image
begin

text \<open>
  The program loader, \<open>task_loader.cpp\<close>: the table of programs is read from the card, a program is found by its name and its sectors are read into new pages of an address space.

  The table is the 512 bytes of \<open>tasks\<close>; a read beyond them has no result. \<open>ram\<close> is the data in memory by physical address. The page tables are the entries of the state \<open>vm\<close>; a page that
  holds a table is never one that holds data of a program (\<open>process_isolation\<close>). \<open>disk\<close> gives the bytes of the sectors, which \<open>bios_sd_read\<close> copies.
\<close>

section \<open>The code\<close>

type_synonym disk = "nat \<Rightarrow> nat \<Rightarrow> u8"

record loader =
  tasks :: "u8 list"
  task_num :: u16

definition USER_ENTRYPOINT :: u64 where "USER_ENTRYPOINT = 0x200000"

text \<open>\<open>boot\<close> is the first sector of the card, which the firmware has loaded to \<open>0x50200000\<close>.\<close>

definition init_task_info :: "u8 list \<Rightarrow> disk \<Rightarrow> loader" where
  "init_task_info boot disk =
     (let block_id = field 0x1f0 4 boot
      in \<lparr>tasks = map (disk block_id) [0..<512], task_num = of_nat (field 0x1f4 2 boot)\<rparr>)"

definition sd_read :: "disk \<Rightarrow> u64 \<Rightarrow> u32 \<Rightarrow> u32 \<Rightarrow> (u64 \<Rightarrow> u8) \<Rightarrow> u64 \<Rightarrow> u8" where
  "sd_read disk pa num block_id ram =
     (\<lambda>a. let d = unat (a - pa) in if d < unat num * 512 then disk (unat block_id + d div 512) (d mod 512) else ram a)"

fun load_pages :: "disk \<Rightarrow> nat \<Rightarrow> u64 \<Rightarrow> u64 \<Rightarrow> u64 \<Rightarrow> page_dir \<Rightarrow> vm \<Rightarrow> (u64 \<Rightarrow> u8) \<Rightarrow> (page_dir \<times> vm \<times> (u64 \<Rightarrow> u8)) option" where
  "load_pages disk 0 va block_num sdcard_id pd s ram = Some (pd, s, ram)"
| "load_pages disk (Suc n) va block_num sdcard_id pd s ram = do {
     (kva, pd, s) \<leftarrow> alloc_page_for_va va pd s;
     let ram = sd_read disk (kva2pa kva) (ucast (if block_num > 8 then 8 else block_num)) (ucast sdcard_id) ram;
     load_pages disk n (va + 4096) (block_num - 8) (sdcard_id + 8) pd s ram
   }"

definition load_task_img :: "disk \<Rightarrow> loader \<Rightarrow> int \<Rightarrow> page_dir \<Rightarrow> vm \<Rightarrow> (u64 \<Rightarrow> u8) \<Rightarrow> (bool \<times> page_dir \<times> vm \<times> (u64 \<Rightarrow> u8)) option" where
  "load_task_img disk l taskid pd s ram =
     (if taskid \<ge> sint (task_num l) then Some (False, pd, s, ram)
      else do {
        kassert (0 \<le> taskid \<and> taskid < 16);
        let block_num = scast (of_nat (field (32 * nat taskid + 12) 4 (tasks l)) :: u32);
        let sdcard_id = scast (of_nat (field (32 * nat taskid + 8) 4 (tasks l)) :: u32);
        let pages = block_num div 8 + (if block_num \<noteq> 0 then 1 else 0);
        (pd, s, ram) \<leftarrow> load_pages disk (unat pages) USER_ENTRYPOINT block_num sdcard_id pd s ram;
        Some (True, pd, s, ram)
      })"

text \<open>\<open>strcmp (tasks[i].name, taskname) == 0\<close>, where the second string is given without its final zero.\<close>

fun same_name :: "u8 list \<Rightarrow> u8 list \<Rightarrow> bool option" where
  "same_name [] ys = None"
| "same_name (x # xs) [] = Some (x = 0)"
| "same_name (x # xs) (y # ys) = (if x = 0 then Some False else if x \<noteq> y then Some False else same_name xs ys)"

fun find_loop :: "u8 list \<Rightarrow> u8 list \<Rightarrow> nat list \<Rightarrow> int option" where
  "find_loop bs nam [] = Some (- 1)"
| "find_loop bs nam (i # js) = do {
     eq \<leftarrow> same_name (drop (32 * i + 16) bs) nam;
     if eq then Some (int i) else find_loop bs nam js
   }"

definition find_task_idx_by_name :: "loader \<Rightarrow> u8 list \<Rightarrow> int option" where
  "find_task_idx_by_name l nam = find_loop (tasks l) nam [0..<nat (sint (task_num l))]"

section \<open>Pages of a program\<close>

lemma alloc_page_owned:
  assumes "iso P Q s" "root pd \<in> Q" "user_va va" "alloc_page_for_va va pd s = Some (k, pd', s')" "owned s a"
  shows "owned s' a"
proof -
  from assms(4) obtain pte s1 where l: "lookup (root pd) va s = Some (pte, s1)"
    and c: "s' = s1 \<or> (\<exists>kva h pd1. kalloc (heap_of s1) 4096 = Some (kva, h) \<and> map_va_kva va kva Normal pd (s1\<lparr>heap_of := h\<rparr>) = Some (pd1, s'))"
    by (auto simp: alloc_page_for_va_def Let_def elim!: bind_SomeE split: if_splits)
  have i1: "iso P Q s1" by (rule iso_lookup [OF assms(1-3) l])
  have o1: "owned s1 a" using step_onD(2) [OF lookup_step_on [OF isoD(3) [OF assms(1,2)] assms(3) l] assms(5)] .
  from c show ?thesis
  proof
    assume "\<exists>kva h pd1. kalloc (heap_of s1) 4096 = Some (kva, h) \<and> map_va_kva va kva Normal pd (s1\<lparr>heap_of := h\<rparr>) = Some (pd1, s')"
    then obtain kva h pd1 pte2 s2 where k: "kalloc (heap_of s1) 4096 = Some (kva, h)" and l2: "lookup (root pd) va (s1\<lparr>heap_of := h\<rparr>) = Some (pte2, s2)" and h2: "heap_of s' = heap_of s2"
      by (auto simp: map_va_kva_def put_entry_def Let_def elim!: bind_SomeE split: if_splits)
    have "owned (s1\<lparr>heap_of := h\<rparr>) a" using o1 kpages.fresh_page(3) [OF isoD(1) [OF i1] k] by (simp add: owned_def)
    then have "owned s2 a" by (rule step_onD(2) [OF lookup_step_on [OF isoD(3) [OF iso_page(1) [OF i1 k] assms(2)] assms(3) l2]])
    then show ?thesis by (simp add: owned_def h2)
  qed (use o1 in simp)
qed

text \<open>All addresses of one page go to one page.\<close>

lemma sv39_same_page:
  assumes "tree_ok r s" "user_va va" "user_va va'" "drop_bit 12 va' = drop_bit 12 va" "sv39 r s va = Some (p + take_bit 12 va)"
  shows "sv39 r s va' = Some (p + take_bit 12 va')"
proof -
  have "page_entry r s va' = page_entry r s va" using same_page [OF assms(2,3)] assms(4) by (simp add: page_entry_def Let_def)
  then show ?thesis using assms(5) unfolding sv39_entry [OF assms(1,2)] sv39_entry [OF assms(1,3)] by auto
qed

lemma alloc_fresh:
  assumes i: "iso P Q s" and r: "root pd \<in> Q" and va: "user_va va" "va < user_mem_bound pd" and h: "three_pages (heap_of s)" and n: "sv39 (root pd) s va = None"
  obtains k pd' s' where "alloc_page_for_va va pd s = Some (k, pd', s')" "iso P Q s'" "root pd' = root pd" "user_mem_bound pd' = user_mem_bound pd" "\<not> owned s k" "owned s' k"
    "\<And>a. owned s a \<Longrightarrow> owned s' a"
    "\<And>va'. user_va va' \<Longrightarrow> sv39 (root pd) s' va' = (if drop_bit 12 va' = drop_bit 12 va then Some (kva2pa k + take_bit 12 va') else sv39 (root pd) s va')"
proof -
  note t = isoD(3) [OF i r]
  obtain k pd' s' where a: "alloc_page_for_va va pd s = Some (k, pd', s')" "sv39 (root pd') s' va = Some (kva2pa k + take_bit 12 va)" "\<not> owned s k"
    "\<forall>va'. user_va va' \<and> drop_bit 12 va' \<noteq> drop_bit 12 va \<longrightarrow> sv39 (root pd') s' va' = sv39 (root pd) s va'"
    using alloc_page_total [OF t va h] n by blast
  note f = iso_fault [OF i r va(1) a(1)]
  have b: "user_mem_bound pd' = user_mem_bound pd"
    using a(1) by (auto simp: alloc_page_for_va_def map_va_kva_def on_page_updated_def Let_def elim!: bind_SomeE split: if_splits)
  have t': "tree_ok (root pd) s'" by (rule isoD(3) [OF f(1) r])
  obtain e where e: "page_entry (root pd) s' va = Some e" "to_kva e = k"
    using a(2) sv39_entry [OF t' va(1)] f(2) by (auto simp: to_kva_def)
  have own: "owned s' k" using isoD(5) [OF f(1) r va(1) e(1)] isoD(7) [OF i] a(3) e(2) by (auto simp: entry_use_def)
  show thesis
  proof (rule that [OF a(1) f b a(3) own])
    show "owned s' x" if "owned s x" for x by (rule alloc_page_owned [OF i r va(1) a(1) that])
    show "sv39 (root pd) s' va' = (if drop_bit 12 va' = drop_bit 12 va then Some (kva2pa k + take_bit 12 va') else sv39 (root pd) s va')" if "user_va va'" for va'
      using a(4) sv39_same_page [OF t' va(1) that _ a(2) [unfolded f(2)]] that f(2) by auto
  qed
qed

lemma page_bytes_apart:
  assumes "paged a" "paged p" "x < 4096" "a \<noteq> p"
  shows "4096 \<le> unat (kva2pa a + of_nat x - kva2pa p)"
proof (rule ccontr)
  let ?a = "unat (kva2pa a)" and ?p = "unat (kva2pa p)"
  assume "\<not> 4096 \<le> unat (kva2pa a + of_nat x - kva2pa p)"
  moreover have x: "unat (kva2pa a + of_nat x) = ?a + x" using assms(1,3) by (simp add: paged_def unat_word_ariths unat_of_nat)
  ultimately have l: "unat (kva2pa a + of_nat x - kva2pa p) < 4096" by simp
  have "?p \<le> ?a + x"
  proof (rule ccontr)
    assume "\<not> ?p \<le> ?a + x"
    then have "unat (kva2pa a + of_nat x - kva2pa p) = 2 ^ 64 - ?p + (?a + x)" using assms(2) x by (simp add: unat_sub_if' paged_def)
    with l assms(2) show False by (auto simp: paged_def)
  qed
  then have "unat (kva2pa a + of_nat x - kva2pa p) = ?a + x - ?p" using x by (simp add: unat_sub_if')
  with l \<open>?p \<le> ?a + x\<close> obtain y where y: "?a + x = ?p + y" "y < 4096" by (metis le_add_diff_inverse)
  then have "?a = ?p" using page_base [of ?a x] page_base [of ?p y] assms by (simp add: paged_def)
  then show False using unat_pa_inj assms(4) by simp
qed

lemma page_of_nat:
  assumes "x < 2 ^ 38"
  shows "unat (of_nat x :: u64) = x" "user_va (of_nat x)" "unat (drop_bit 12 (of_nat x :: u64)) = x div 4096" "take_bit 12 (of_nat x :: u64) = of_nat (x mod 4096)"
proof -
  show u: "unat (of_nat x :: u64) = x" using assms by (simp add: unat_of_nat)
  show "user_va (of_nat x)" using assms by (simp add: word_less_nat_alt u)
  show "unat (drop_bit 12 (of_nat x :: u64)) = x div 4096" by (simp add: drop_bit_eq_div unat_div u)
  have "unat (take_bit 12 (of_nat x :: u64)) = x mod 4096" by (simp add: take_bit_eq_mod unat_mod u)
  moreover have "x mod 4096 < 2 ^ 64" by (rule less_trans [of _ 4096]) simp_all
  ultimately show "take_bit 12 (of_nat x :: u64) = of_nat (x mod 4096)" by (simp add: word_unat_eq_iff unat_of_nat)
qed

lemma sd_read_in:
  assumes "unat num * 512 \<le> 4096" "x < unat num * 512"
  shows "sd_read disk pa num first ram (pa + of_nat x) = disk (unat first + x div 512) (x mod 512)"
proof -
  have "unat (pa + of_nat x - pa) = x" using assms by (simp add: unat_of_nat)
  then show ?thesis using assms(2) by (simp add: sd_read_def Let_def)
qed

lemma sd_read_out:
  assumes "unat num * 512 \<le> 4096" "paged a" "paged k" "a \<noteq> k" "x < 4096"
  shows "sd_read disk (kva2pa k) num first ram (kva2pa a + of_nat x) = ram (kva2pa a + of_nat x)"
  using page_bytes_apart [OF assms(2,3,5,4)] assms(1) by (simp add: sd_read_def Let_def)

text \<open>What \<open>n\<close> pages of \<open>b\<close> sectors from sector \<open>f\<close> on look like, from address \<open>B\<close>.\<close>

definition loaded :: "disk \<Rightarrow> u64 \<Rightarrow> nat \<Rightarrow> nat \<Rightarrow> nat \<Rightarrow> vm \<Rightarrow> (u64 \<Rightarrow> u8) \<Rightarrow> bool" where
  "loaded disk r B b f s ram \<longleftrightarrow> (\<forall>x < 512 * b. \<exists>pa. sv39 r s (of_nat (B + x)) = Some pa \<and> ram pa = disk (f + x div 512) (x mod 512))"

lemma load_pages_ok:
  "iso P Q s \<Longrightarrow> root pd \<in> Q \<Longrightarrow> B mod 4096 = 0 \<Longrightarrow> B + 4096 * n \<le> unat (user_mem_bound pd) \<Longrightarrow> B + 4096 * n \<le> 2 ^ 38 \<Longrightarrow> roomy (5 * n + q) (heap_of s)
    \<Longrightarrow> \<forall>x. B \<le> x \<and> x < B + 4096 * n \<longrightarrow> sv39 (root pd) s (of_nat x) = None \<Longrightarrow> b \<le> 8 * n \<Longrightarrow> (n > 0 \<longrightarrow> w = of_nat b \<and> 8 * (n - 1) \<le> b) \<Longrightarrow> f + 8 * n < 2 ^ 32
    \<Longrightarrow> \<exists>pd' s' ram'. load_pages disk n (of_nat B) w (of_nat f) pd s ram = Some (pd', s', ram') \<and> iso P Q s' \<and> root pd' = root pd \<and> user_mem_bound pd' = user_mem_bound pd \<and> roomy q (heap_of s') \<and>
      (\<forall>a x. owned s a \<longrightarrow> x < 4096 \<longrightarrow> ram' (kva2pa a + of_nat x) = ram (kva2pa a + of_nat x)) \<and>
      (\<forall>x < 2 ^ 38. x < B \<or> B + 4096 * n \<le> x \<longrightarrow> sv39 (root pd) s' (of_nat x) = sv39 (root pd) s (of_nat x)) \<and> loaded disk (root pd) B b f s' ram'"
proof (induction n arbitrary: B b w f pd s ram)
  case 0
  then show ?case by (simp add: loaded_def)
next
  case (Suc n)
  have w: "w = of_nat b" "8 * n \<le> b" "b < 2 ^ 32" using Suc.prems(8,9,10) by simp_all
  have Bs: "B < 2 ^ 38" using Suc.prems(5) by simp
  note pB = page_of_nat [OF Bs]
  have h: "three_pages (heap_of s)" by (rule roomy_pages(1), rule roomy_weaken [OF Suc.prems(6)]) simp
  have none: "sv39 (root pd) s (of_nat B) = None" using Suc.prems(7) by simp
  have bound: "of_nat B < user_mem_bound pd" using Suc.prems(4) pB(1) by (simp add: word_less_nat_alt)
  obtain k pd1 s1 where a: "alloc_page_for_va (of_nat B) pd s = Some (k, pd1, s1)" "iso P Q s1" "root pd1 = root pd" "user_mem_bound pd1 = user_mem_bound pd" "\<not> owned s k" "owned s1 k"
    and own: "\<And>a. owned s a \<Longrightarrow> owned s1 a"
    and sv: "\<And>va'. user_va va' \<Longrightarrow> sv39 (root pd) s1 va' = (if drop_bit 12 va' = drop_bit 12 (of_nat B) then Some (kva2pa k + take_bit 12 va') else sv39 (root pd) s va')"
    by (rule alloc_fresh [OF Suc.prems(1,2) pB(2) bound h none]) blast
  let ?num = "ucast (if w > 8 then 8 else w) :: u32"
  let ?ram = "sd_read disk (kva2pa k) ?num (ucast (of_nat f :: u64)) ram"
  have wb: "unat w = b" using w(1,3) by (simp add: unat_of_nat)
  have num: "unat ?num = min 8 b" using wb w(3) by (auto simp: unsigned_ucast_eq word_less_nat_alt min_def take_bit_nat_eq_self)
  have ff: "unat (ucast (of_nat f :: u64) :: u32) = f" using Suc.prems(10) by (simp add: unsigned_ucast_eq unat_of_nat take_bit_nat_eq_self)
  have n4: "unat ?num * 512 \<le> 4096" by (simp add: num)
  have svn: "sv39 (root pd) s1 (of_nat x) = (if x div 4096 = B div 4096 then Some (kva2pa k + of_nat (x mod 4096)) else sv39 (root pd) s (of_nat x))" if "x < 2 ^ 38" for x
  proof -
    have "drop_bit 12 (of_nat x :: u64) = drop_bit 12 (of_nat B) \<longleftrightarrow> x div 4096 = B div 4096" using page_of_nat(3) [OF that] pB(3) by (simp add: word_unat_eq_iff)
    then show ?thesis using sv [OF page_of_nat(2) [OF that]] page_of_nat(4) [OF that] by simp
  qed
  have inpage: "x div 4096 = B div 4096 \<longleftrightarrow> B \<le> x \<and> x < B + 4096" for x
  proof -
    obtain q where q: "B = 4096 * q" using Suc.prems(3) by (metis mod_eq_0_iff_dvd dvd_def)
    have "x div 4096 = q \<longleftrightarrow> 4096 * q \<le> x \<and> x < 4096 * q + 4096"
      using div_mult_mod_eq [of x 4096] mod_less_divisor [of 4096 x] by (auto intro: div_nat_eqI)
    with q show ?thesis by simp
  qed
  have rm: "roomy (5 * n + q) (heap_of s1)" by (rule alloc_page_roomy [OF _ a(1)]) (use Suc.prems(6) in \<open>simp add: algebra_simps\<close>)
  have un: "\<forall>x. B + 4096 \<le> x \<and> x < B + 4096 + 4096 * n \<longrightarrow> sv39 (root pd1) s1 (of_nat x) = None"
    using svn inpage Suc.prems(5,7) a(3) by auto
  have w': "n > 0 \<longrightarrow> w - 8 = of_nat (b - 8) \<and> 8 * (n - 1) \<le> b - 8" using w by (auto simp: of_nat_diff)
  have p: "root pd1 \<in> Q" "(B + 4096) mod 4096 = 0" "B + 4096 + 4096 * n \<le> unat (user_mem_bound pd1)" "B + 4096 + 4096 * n \<le> 2 ^ 38" "b - 8 \<le> 8 * n" "f + 8 + 8 * n < 2 ^ 32"
    using Suc.prems(2-5,8,10) a(3,4) by simp_all
  from Suc.IH [OF a(2) p(1-4) rm un p(5) w' p(6), of ?ram] obtain pd' s' ram' where r: "load_pages disk n (of_nat (B + 4096)) (w - 8) (of_nat (f + 8)) pd1 s1 ?ram = Some (pd', s', ram')" "iso P Q s'" "root pd' = root pd1"
    and r': "user_mem_bound pd' = user_mem_bound pd1" "roomy q (heap_of s')" and r'':
    "\<And>a x. owned s1 a \<Longrightarrow> x < 4096 \<Longrightarrow> ram' (kva2pa a + of_nat x) = ?ram (kva2pa a + of_nat x)"
    "\<And>x. x < 2 ^ 38 \<Longrightarrow> x < B + 4096 \<or> B + 4096 + 4096 * n \<le> x \<Longrightarrow> sv39 (root pd1) s' (of_nat x) = sv39 (root pd1) s1 (of_nat x)"
    "loaded disk (root pd1) (B + 4096) (b - 8) (f + 8) s' ram'"
    by blast
  note r = r r''
  have "load_pages disk (Suc n) (of_nat B) w (of_nat f) pd s ram = Some (pd', s', ram')" using a(1) r(1) by (simp add: Let_def add.commute)
  moreover have "ram' (kva2pa y + of_nat x) = ram (kva2pa y + of_nat x)" if "owned s y" "x < 4096" for y x
  proof -
    have "y \<noteq> k" using that(1) a(5) by auto
    then show ?thesis using r(4) [OF own [OF that(1)] that(2)] sd_read_out [OF n4 owned_paged [OF that(1)] owned_paged [OF a(6)] _ that(2)] by simp
  qed
  moreover have "sv39 (root pd) s' (of_nat x) = sv39 (root pd) s (of_nat x)" if "x < 2 ^ 38" "x < B \<or> B + 4096 * Suc n \<le> x" for x
    using r(5) [OF that(1)] svn [OF that(1)] inpage [of x] that(2) a(3) by auto
  moreover have "\<exists>pa. sv39 (root pd) s' (of_nat (B + x)) = Some pa \<and> ram' pa = disk (f + x div 512) (x mod 512)" if x: "x < 512 * b" for x
  proof (cases "x < 4096")
    case True
    have y: "B + x < 2 ^ 38" using True Suc.prems(5) by simp
    have m: "(B + x) mod 4096 = x" using Suc.prems(3) True by (metis mod_add_left_eq add_0 mod_less)
    have "sv39 (root pd) s' (of_nat (B + x)) = Some (kva2pa k + of_nat x)" using r(5) [OF y] svn [OF y] inpage [of "B + x"] True a(3) m by simp
    moreover have "x < unat ?num * 512" using num x True by simp
    then have "ram' (kva2pa k + of_nat x) = disk (f + x div 512) (x mod 512)" using r(4) [OF a(6) True] sd_read_in [OF n4] ff by simp
    ultimately show ?thesis by blast
  next
    case False
    obtain y where y: "x = 4096 + y" using False by (metis le_iff_add not_less)
    then have "y < 512 * (b - 8)" using x by simp
    moreover have "f + x div 512 = f + 8 + y div 512" "x mod 512 = y mod 512" unfolding y using mod_mult_self1 [of y 8 512] by (simp_all add: div_plus_div_distrib_dvd_left add.commute)
    ultimately show ?thesis using r(6) a(3) y by (auto simp: loaded_def add.assoc)
  qed
  ultimately show ?case using r(2,3) r' a(3,4) by (auto simp: loaded_def)
qed

text \<open>A program of \<open>b\<close> sectors in an address space that has nothing mapped yet.\<close>

lemma load_task_ok:
  assumes i: "iso P Q s" "root pd \<in> Q" "user_mem_bound pd = 0x300000" "roomy (1280 + q) (heap_of s)" "\<forall>va. user_va va \<longrightarrow> sv39 (root pd) s va = None"
    and t: "int j < sint (task_num l)" "j < 16" "field (32 * j + 12) 4 (tasks l) = b" "field (32 * j + 8) 4 (tasks l) = f" "b < 2048" "f < 2 ^ 31"
  shows "\<exists>pd' s' ram'. load_task_img disk l (int j) pd s ram = Some (True, pd', s', ram') \<and> root pd' = root pd \<and> iso P Q s' \<and> loaded disk (root pd) 0x200000 b f s' ram' \<and>
    user_mem_bound pd' = user_mem_bound pd \<and> roomy q (heap_of s') \<and> (\<forall>x < 0x200000. sv39 (root pd) s' (of_nat x) = sv39 (root pd) s (of_nat x))"
proof -
  have small: "scast (of_nat n :: u32) = (of_nat n :: u64)" if "n < 2 ^ 31" for n
  proof -
    have "sint (of_nat n :: u32) = int n" using that by (simp add: signed_of_nat signed_take_bit_int_eq_self)
    then show ?thesis by (metis of_int_sint of_int_of_nat_eq)
  qed
  let ?n = "b div 8 + (if b \<noteq> 0 then 1 else 0)"
  have b: "unat (of_nat b :: u64) = b" using t(5) by (simp add: unat_of_nat)
  have n: "unat ((of_nat b :: u64) div 8 + (if (of_nat b :: u64) \<noteq> 0 then 1 else 0)) = ?n"
  proof -
    have "unat ((of_nat b :: u64) div 8) = b div 8" by (simp add: unat_div b)
    moreover have "(of_nat b :: u64) \<noteq> 0 \<longleftrightarrow> b \<noteq> 0" by (simp add: word_unat_eq_iff b)
    ultimately show ?thesis using t(5) by (auto simp: unat_word_ariths)
  qed
  have n256: "?n \<le> 256" using t(5) by auto
  have x: "of_nat x < (0x4000000000 :: u64)" if "x < 0x200000 + 4096 * ?n" for x
  proof -
    have "x < 2 ^ 38" using that n256 by simp
    then show ?thesis by (rule page_of_nat(2))
  qed
  have l: "\<exists>pd' s' ram'. load_pages disk ?n (of_nat 0x200000) (of_nat b) (of_nat f) pd s ram = Some (pd', s', ram') \<and> iso P Q s' \<and> root pd' = root pd \<and> user_mem_bound pd' = user_mem_bound pd \<and> roomy q (heap_of s') \<and>
      (\<forall>a x. owned s a \<longrightarrow> x < 4096 \<longrightarrow> ram' (kva2pa a + of_nat x) = ram (kva2pa a + of_nat x)) \<and>
      (\<forall>x < 2 ^ 38. x < 0x200000 \<or> 0x200000 + 4096 * ?n \<le> x \<longrightarrow> sv39 (root pd) s' (of_nat x) = sv39 (root pd) s (of_nat x)) \<and> loaded disk (root pd) 0x200000 b f s' ram'"
  proof (rule load_pages_ok [OF i(1,2)])
    show "roomy (5 * ?n + q) (heap_of s)" by (rule roomy_weaken [OF i(4)]) (use n256 in simp)
    show "\<forall>x. 0x200000 \<le> x \<and> x < 0x200000 + 4096 * ?n \<longrightarrow> sv39 (root pd) s (of_nat x) = None" using i(5) x by blast
    show "0 < ?n \<longrightarrow> of_nat b = (of_nat b :: u64) \<and> 8 * (?n - 1) \<le> b" by auto
    have "b mod 8 < 8" by simp
    then show "b \<le> 8 * ?n" using div_mult_mod_eq [of b 8] by (cases "b = 0") auto
  qed (use n256 i(3) t(6) in simp_all)
  have "load_task_img disk l (int j) pd s ram = do { (pd, s, ram) \<leftarrow> load_pages disk ?n (of_nat 0x200000) (of_nat b) (of_nat f) pd s ram; Some (True, pd, s, ram) }"
    using t small [of b] small [of f] n by (simp add: load_task_img_def Let_def USER_ENTRYPOINT_def)
  moreover obtain pd' s' ram' where r: "load_pages disk ?n (of_nat 0x200000) (of_nat b) (of_nat f) pd s ram = Some (pd', s', ram')" "iso P Q s'" "root pd' = root pd"
    "user_mem_bound pd' = user_mem_bound pd" "roomy q (heap_of s')" "\<forall>x < 2 ^ 38. x < 0x200000 \<longrightarrow> sv39 (root pd) s' (of_nat x) = sv39 (root pd) s (of_nat x)" "loaded disk (root pd) 0x200000 b f s' ram'"
    using l by blast
  ultimately have "load_task_img disk l (int j) pd s ram = Some (True, pd', s', ram')" unfolding r(1) by simp
  moreover have "\<forall>x < 0x200000. sv39 (root pd) s' (of_nat x) = sv39 (root pd) s (of_nat x)" using r(6) by simp
  ultimately show ?thesis using r by blast
qed

section \<open>The table of the image\<close>

lemma same_name_ok: "0 \<notin> set xs \<Longrightarrow> 0 \<notin> set ys \<Longrightarrow> same_name (xs @ 0 # zs) ys = Some (xs = ys)"
proof (induction xs arbitrary: ys)
  case Nil
  then show ?case by (cases ys) auto
next
  case (Cons x xs)
  then show ?case by (cases ys) auto
qed

lemma find_loop_ok:
  assumes "\<And>i. i < m \<Longrightarrow> same_name (drop (32 * i + 16) bs) nam = Some (i = j)" "j < m"
  shows "find_loop bs nam [0..<m] = Some (int j)"
proof -
  have "find_loop bs nam (ks @ j # ks') = Some (int j)" if "\<forall>i \<in> set ks. i < m \<and> i \<noteq> j" for ks ks'
    using that assms by (induction ks) auto
  from this [of "[0..<j]" "[Suc j..<m]"] show ?thesis using assms(2) upt_conv_Cons [of j m] upt_add_eq_append [of 0 j "m - j"] by simp
qed

lemma body_append: "body (ps @ qs) = body ps @ body qs"
  by (simp add: body_def)

lemma task_fields:
  assumes "i < length ts" "\<forall>t \<in> set ts. length (task_name t) = 16" "ts ! i = task_entry i nam first n" "first < 2 ^ 32" "n < 2 ^ 32"
  shows "field (32 * i + 8) 4 (concat (map task_bytes ts)) = first" "field (32 * i + 12) 4 (concat (map task_bytes ts)) = n"
proof -
  note f = field_task [OF assms(1,2)]
  have "take 4 (drop (32 * i + 8) (concat (map task_bytes ts))) = le_bytes 4 first" "take 4 (drop (32 * i + 12) (concat (map task_bytes ts))) = le_bytes 4 n"
    using assms(4,5) by (simp_all add: f assms(3) task_bytes_def task_entry_def unat_of_nat)
  then show "field (32 * i + 8) 4 (concat (map task_bytes ts)) = first" "field (32 * i + 12) 4 (concat (map task_bytes ts)) = n"
    using assms(4,5) by (simp_all add: field_def le_le_bytes)
qed

lemma task_name_at:
  assumes "i < length ts" "\<forall>t \<in> set ts. length (task_name t) = 16" "ts ! i = task_entry i nam first n" "length nam < 16"
  shows "\<exists>zs. drop (32 * i + 16) (concat (map task_bytes ts)) = map of_char nam @ 0 # zs"
proof -
  let ?T = "drop (32 * i + 16) (concat (map task_bytes ts))"
  have "take 16 ?T = map of_char nam @ replicate (16 - length nam) 0" using field_task [OF assms(1,2), of 16 16] using assms(4) by (simp add: assms(3) task_bytes_def task_entry_def)
  moreover have "16 - length nam = Suc (15 - length nam)" using assms(4) by simp
  then have "replicate (16 - length nam) 0 = 0 # replicate (15 - length nam) (0 :: u8)" by (simp only: replicate_Suc)
  ultimately have "take 16 ?T = map of_char nam @ 0 # replicate (15 - length nam) 0" by simp
  then show ?thesis by (metis append_take_drop_id append.assoc append_Cons)
qed

lemma with_info_nth: "512 \<le> length c \<Longrightarrow> 510 \<le> i \<Longrightarrow> with_info c m z ! i = c ! i"
proof -
  assume c: "512 \<le> length c" "510 \<le> i"
  let ?X = "take 496 c @ le_bytes 4 (length c div 512) @ le_bytes 2 m @ take 6 (drop 502 c) @ le_bytes 2 (unat z)"
  have "with_info c m z = ?X @ drop 510 c" "length ?X = 510" using c(1) by (simp_all add: with_info_def)
  then have "with_info c m z ! i = drop 510 c ! (i - 510)" using c(2) by (simp only: nth_append) simp
  then show ?thesis using c by simp
qed

text \<open>What the boot sector says about the table.\<close>

lemma boot_fields:
  assumes "512 \<le> length c" "length c < 2 ^ 31" "m \<le> 16"
  shows "field 0x1f0 4 (take 512 (with_info c m z @ T)) = length c div 512" "field 0x1f4 2 (take 512 (with_info c m z @ T)) = m"
proof -
  have l: "length c div 512 < 2 ^ 32" using assms(2) by (simp add: div_less_iff_less_mult)
  have "take 4 (drop 496 (take 512 (with_info c m z @ T))) = le_bytes 4 (length c div 512)" "take 2 (drop 500 (take 512 (with_info c m z @ T))) = le_bytes 2 m"
    using assms(1) by (simp_all add: with_info_def)
  then show "field 0x1f0 4 (take 512 (with_info c m z @ T)) = length c div 512" "field 0x1f4 2 (take 512 (with_info c m z @ T)) = m"
    using l assms(3) by (simp_all add: field_def le_le_bytes)
qed

lemma of_char_inj: "map of_char xs = (map of_char ys :: u8 list) \<longleftrightarrow> xs = ys"
proof -
  have "inj (of_char :: char \<Rightarrow> u8)"
  proof (rule injI)
    fix a b assume "of_char a = (of_char b :: u8)"
    then have "of_nat (of_char a) = (of_nat (of_char b) :: u8)" by (simp only: of_nat_of_char)
    then have "unat (of_nat (of_char a) :: u8) = unat (of_nat (of_char b) :: u8)" by (rule arg_cong)
    moreover have "of_char c < (256 :: nat)" for c by (rule nat_of_char_less_256)
    ultimately show "a = b" by (simp add: unat_of_nat)
  qed
  then show ?thesis by (simp add: inj_map_eq_map)
qed

section \<open>From the builder to the memory of the process\<close>

text \<open>The card onto which an image was written from its beginning.\<close>

definition disk_of :: "u8 list \<Rightarrow> disk" where
  "disk_of im sec i = (if 512 * sec + i < length im then im ! (512 * sec + i) else 0)"

definition names_ok :: "string list \<Rightarrow> bool" where
  "names_ok nams \<longleftrightarrow> distinct nams \<and> (\<forall>nam \<in> set nams. 0 \<notin> set (map of_char nam :: u8 list))"

lemma init_task_info_image:
  assumes "512 \<le> length (body ps)" "length (body ps) < 2 ^ 31" "m \<le> 16" "length ts = 16" "\<forall>t \<in> set ts. length (task_name t) = 16"
    "im = with_info (body ps) m z @ concat (map task_bytes ts)"
  shows "tasks (init_task_info (take 512 im) (disk_of im)) = concat (map task_bytes ts)" "sint (task_num (init_task_info (take 512 im) (disk_of im))) = int m"
proof -
  let ?T = "concat (map task_bytes ts)" and ?L = "length (body ps) div 512"
  note f = boot_fields [OF assms(1-3), where T = "concat (map task_bytes ts)" and z = z, folded assms(6)]
  have "length ?T = sum_list (map (\<lambda>t. 32) ts)" using assms(5) length_task_bytes by (simp add: length_concat comp_def cong: map_cong)
  then have T: "length ?T = 512" by (simp add: sum_list_triv assms(4))
  have L: "512 * ?L = length (body ps)" using body_sectors [of ps] by simp
  have "disk_of im ?L i = ?T ! i" if "i < 512" for i
    using that T L by (simp add: disk_of_def assms(6) length_with_info [OF assms(1)] nth_append)
  then have "map (disk_of im ?L) [0..<512] = ?T" using T by (intro nth_equalityI) simp_all
  then show "tasks (init_task_info (take 512 im) (disk_of im)) = ?T" using f by (simp add: init_task_info_def Let_def)
  have "sint (of_nat m :: u16) = int m" using assms(3) by (simp add: signed_of_nat signed_take_bit_int_eq_self)
  then show "sint (task_num (init_task_info (take 512 im) (disk_of im))) = int m" using f by (simp add: init_task_info_def Let_def)
qed

lemma body_program:
  assumes "j < length ps" "k < length (ps ! j)"
  shows "length (body (take j ps)) + k < length (body ps) \<and> body ps ! (length (body (take j ps)) + k) = ps ! j ! k"
proof -
  have "body ps = body (take j ps) @ sector_pad (ps ! j) @ body (drop (Suc j) ps)"
    by (metis assms(1) body_append body_simps(2) id_take_nth_drop)
  moreover have "k < length (sector_pad (ps ! j))" "sector_pad (ps ! j) ! k = ps ! j ! k" using assms(2) by (simp_all add: sector_pad_def nth_append)
  ultimately show ?thesis by (simp add: nth_append)
qed

lemma body_start:
  assumes "0 < length ps" "hd ps \<noteq> []"
  shows "512 \<le> length (body (take (Suc n) ps))"
proof -
  obtain p qs where ps: "ps = p # qs" using assms(1) by (cases ps) auto
  then have "p \<noteq> []" using assms(2) by simp
  then have "1 \<le> sectors (length p)" unfolding sectors_def by (simp add: Suc_leI length_greater_0_conv [symmetric] del: length_greater_0_conv)
  then show ?thesis by (simp add: ps length_sector_pad)
qed

text \<open>
  C2: From the files to the memory of a process. Let an image be built from a boot block that is not empty, a kernel and programs with different names, and be on the card. Then the kernel finds each
  program by its name, and loading it into an address space in which nothing is mapped succeeds (for programs below one megabyte and with room in the heap); afterwards the hardware walk takes the
  addresses from the entry point on to memory that holds, byte for byte, the segments of the program's file.
\<close>

theorem program_loaded:
  assumes im: "create_image fs files = Some im" "2 \<le> length files" "payload fs (hd files) \<noteq> Some []" "names_ok (drop 2 files)"
    and j: "j < length files - 2" "payload fs (files ! (j + 2)) = Some p" "sectors (length p) < 2048"
    and x: "space_reach x" "i < length (dirs x)" "user_mem_bound (dirs x ! i) = 0x300000" "roomy 1280 (heap_of (mem x))"
    and un: "\<forall>va. user_va va \<longrightarrow> sv39 (root (dirs x ! i)) (mem x) va = None"
  defines "l \<equiv> init_task_info (take 512 im) (disk_of im)"
  shows "find_task_idx_by_name l (map of_char (files ! (j + 2))) = Some (int j) \<and>
    (\<exists>pd s ram'. load_task_img (disk_of im) l (int j) (dirs x ! i) (mem x) ram = Some (True, pd, s, ram') \<and>
      (\<forall>k < length p. \<exists>pa. sv39 (root pd) s (USER_ENTRYPOINT + of_nat k) = Some pa \<and> ram' pa = p ! k))"
proof -
  let ?nam = "\<lambda>i. files ! (i + 2)"
  obtain ps ts z where c: "list_all2 (\<lambda>nam p. payload fs nam = Some p) files ps" and image: "im = with_info (body ps) (length files - 2) z @ concat (map task_bytes ts)"
    and b: "512 \<le> length (body ps)" "length (body ps) < 2 ^ 31" "length ts = 16" "\<forall>t \<in> set ts. length (task_name t) = 16" "length files - 2 \<le> 16"
    and e: "\<And>i. i < length files - 2 \<Longrightarrow> length (?nam i) < 16 \<and> ts ! i = task_entry i (?nam i) (length (body (take (i + 2) ps)) div 512) (sectors (length (ps ! (i + 2))))"
    by (rule create_image_ok [OF im(1,3,2)]) blast
  note li = init_task_info_image [OF b(1,2,5,3,4) image, folded l_def]
  have lp: "length ps = length files" using c by (simp add: list_all2_lengthD)
  have pj: "ps ! (j + 2) = p" "j + 2 < length ps" using list_all2_nthD [OF c, of "j + 2"] j lp by simp_all
  have j16: "j < 16" "j < length ts" using j(1) b(3,5) by simp_all
  have nm: "0 \<notin> set (map of_char (?nam i) :: u8 list)" if "i < length files - 2" for i
    using im(4) nth_mem [of i "drop 2 files"] that by (simp add: names_ok_def add.commute)
  have ne: "?nam i = ?nam j \<longleftrightarrow> i = j" if "i < length files - 2" for i
    using im(4) nth_eq_iff_index_eq [of "drop 2 files" i j] that j(1) by (simp add: names_ok_def add.commute)
  have "find_task_idx_by_name l (map of_char (?nam j)) = Some (int j)"
    unfolding find_task_idx_by_name_def li nat_int
  proof (rule find_loop_ok [OF _ j(1)])
    fix i assume i: "i < length files - 2"
    obtain zs where "drop (32 * i + 16) (concat (map task_bytes ts)) = map of_char (?nam i) @ 0 # zs"
      using task_name_at [OF _ b(4) conjunct2 [OF e [OF i]] conjunct1 [OF e [OF i]]] i b(3,5) by auto
    then show "same_name (drop (32 * i + 16) (concat (map task_bytes ts))) (map of_char (?nam j)) = Some (i = j)"
      using same_name_ok [OF nm [OF i] nm [OF j(1)]] of_char_inj ne [OF i] by simp
  qed
  moreover
  let ?f = "length (body (take (j + 2) ps)) div 512"
  obtain P where "space_inv P x" using space_reach_inv [OF x(1)] by blast
  then have iso: "iso P (root ` set (dirs x)) (mem x)" by (simp add: space_inv_def)
  have body: "length (body (take (j + 2) ps)) \<le> length (body ps)" using body_append [of "take (j + 2) ps" "drop (j + 2) ps"] by (metis append_take_drop_id le_add1 length_append)
  then have f: "?f < 2 ^ 31" "512 * ?f = length (body (take (j + 2) ps))" using b(2) body_sectors [of "take (j + 2) ps"] by (simp_all add: div_less_iff_less_mult)
  have s32: "sectors (length p) < 2 ^ 32" using j(3) by simp
  have "?f < 2 ^ 32" using f(1) by simp
  note tf = task_fields [OF j16(2) b(4) conjunct2 [OF e [OF j(1)]] this, unfolded pj(1), OF s32, folded li(1)]
  have jm: "int j < sint (task_num l)" using li(2) j(1) by simp
  have x4: "roomy (1280 + 0) (heap_of (mem x))" using x(4) by simp
  obtain pd s ram' where r: "load_task_img (disk_of im) l (int j) (dirs x ! i) (mem x) ram = Some (True, pd, s, ram')" "root pd = root (dirs x ! i)"
    "loaded (disk_of im) (root (dirs x ! i)) 0x200000 (sectors (length p)) ?f s ram'"
    using load_task_ok [OF iso root_mem [OF x(2)] x(3) x4 un jm j16(1) tf(2,1) j(3) f(1), of "disk_of im" ram] by blast
  have hd: "hd ps \<noteq> []" "0 < length ps" using c im(2,3) by (cases files; auto simp: list_all2_Cons1)+
  have "\<exists>pa. sv39 (root pd) s (USER_ENTRYPOINT + of_nat k) = Some pa \<and> ram' pa = p ! k" if k: "k < length p" for k
  proof -
    have "k < 512 * sectors (length p)" using k by (simp add: sectors_def)
    then obtain pa where pa: "sv39 (root (dirs x ! i)) s (of_nat (0x200000 + k)) = Some pa" "ram' pa = disk_of im (?f + k div 512) (k mod 512)"
      using r(3) unfolding loaded_def by blast
    let ?a = "length (body (take (j + 2) ps)) + k"
    have a: "512 * (?f + k div 512) + k mod 512 = ?a" using f(2) by (simp add: add_mult_distrib2)
    have bp: "?a < length (body ps)" "body ps ! ?a = p ! k" using body_program [OF pj(2), of k] pj(1) k by auto
    moreover have "510 \<le> ?a" using body_start [OF hd(2,1), of "Suc j"] by simp
    ultimately have "im ! ?a = p ! k" "?a < length im" using b(1) by (simp_all add: image length_with_info nth_append with_info_nth)
    then have "disk_of im (?f + k div 512) (k mod 512) = p ! k" unfolding disk_of_def a by simp
    with pa r(2) show ?thesis by (simp add: USER_ENTRYPOINT_def)
  qed
  with r(1) have "\<exists>pd s ram'. load_task_img (disk_of im) l (int j) (dirs x ! i) (mem x) ram = Some (True, pd, s, ram') \<and>
      (\<forall>k < length p. \<exists>pa. sv39 (root pd) s (USER_ENTRYPOINT + of_nat k) = Some pa \<and> ram' pa = p ! k)" by blast
  ultimately show ?thesis by blast
qed

text \<open>A file with one segment.\<close>

definition elf_file :: "u8 list \<Rightarrow> u8 list" where
  "elf_file bs = [0x7f, 0x45, 0x4c, 0x46] @ replicate 28 0 @ le_bytes 8 64 @ replicate 14 0 @ le_bytes 2 56 @ le_bytes 2 1 @ replicate 6 0 @
     le_bytes 4 1 @ le_bytes 4 0 @ le_bytes 8 120 @ replicate 16 0 @ le_bytes 8 (length bs) @ le_bytes 8 (length bs) @ replicate 8 0 @ bs"

definition files0 :: "string \<Rightarrow> u8 list option" where
  "files0 nam = (if nam = ''bootblock'' then Some (elf_file [1]) else if nam = ''main'' then Some (elf_file [2, 3]) else if nam = ''shell'' then Some (elf_file [4, 5, 6]) else None)"

lemma payload_files0: "payload files0 ''bootblock'' = Some [1]" "payload files0 ''main'' = Some [2, 3]" "payload files0 ''shell'' = Some [4, 5, 6]"
  by code_simp+

theorem program_loaded_witness:
  "\<exists>im x l pd s ram'. create_image files0 [''bootblock'', ''main'', ''shell''] = Some im \<and> l = init_task_info (take 512 im) (disk_of im) \<and>
    find_task_idx_by_name l (map of_char ''shell'') = Some 0 \<and> load_task_img (disk_of im) l 0 (dirs x ! 0) (mem (x :: spaces)) (\<lambda>_. 0) = Some (True, pd, s, ram') \<and>
    (\<exists>pa. sv39 (root pd) s 0x200002 = Some pa \<and> ram' pa = 6)"
proof -
  let ?files = "[''bootblock'', ''main'', ''shell'']" and ?ps = "[[1], [2, 3], [4, 5, 6]]"
  have p: "list_all2 (\<lambda>nam p. payload files0 nam = Some p) ?files ?ps" by (simp add: payload_files0)
  obtain im where im: "create_image files0 ?files = Some im" using create_image_total [OF p] by (auto simp: length_sector_pad sectors_def)
  obtain x where x: "space_reach x" "length (dirs x) = 1" "roomy 1280 (heap_of (mem x))" "user_mem_bound (dirs x ! 0) = 0x300000"
    "\<forall>va. user_va va \<longrightarrow> sv39 (root (dirs x ! 0)) (mem x) va = None" by (rule first_process [of 1280]) simp_all
  have n: "names_ok (drop 2 ?files)" by (simp add: names_ok_def)
  have s: "payload files0 (?files ! (0 + 2)) = Some [4, 5, 6]" "sectors (length [4, 5, 6 :: u8]) < 2048" by (simp_all add: payload_files0 sectors_def)
  have l: "0 < length (dirs x)" "(0 :: nat) < length ?files - 2" "2 \<le> length ?files" using x(2) by simp_all
  have h: "payload files0 (hd ?files) \<noteq> Some []" by (simp add: payload_files0)
  let ?l = "init_task_info (take 512 im) (disk_of im)"
  from program_loaded [OF im l(3) h n l(2) s x(1) l(1) x(4,3,5), of "\<lambda>_. 0"]
  obtain pd s ram' where r: "find_task_idx_by_name ?l (map of_char ''shell'') = Some 0" "load_task_img (disk_of im) ?l 0 (dirs x ! 0) (mem x) (\<lambda>_. 0) = Some (True, pd, s, ram')"
    "\<forall>k < 3. \<exists>pa. sv39 (root pd) s (USER_ENTRYPOINT + of_nat k) = Some pa \<and> ram' pa = [4, 5, 6] ! k" by auto
  from r(3) [rule_format, of 2] have "\<exists>pa. sv39 (root pd) s 0x200002 = Some pa \<and> ram' pa = 6" by (simp add: USER_ENTRYPOINT_def)
  with im r(1,2) show ?thesis by blast
qed

end
