(* ===== verification/Exec.thy ===== *)
theory Exec
  imports Loader Proc
begin

text \<open>
  Starting a program: \<open>sys_exec\<close> of \<open>process.cpp\<close>, which puts together the program loader, a new process with its address space and its first thread, and the page of the arguments.

  \<open>pdirs\<close> has the page directory of every process, by its number. The arguments are given as the strings that the caller's pointers lead to, without the final zero. \<open>addr\<close> and \<open>stack\<close> are the addresses
  of the new thread object and of its kernel stack.
\<close>

section \<open>The code\<close>

record exec_state =
  kern :: kernel
  vmem :: vm
  pdirs :: "page_dir list"
  ram :: "u64 \<Rightarrow> u8"

definition ARGV_VA :: u64 where "ARGV_VA = 0x100000"

definition put_bytes :: "u64 \<Rightarrow> u8 list \<Rightarrow> (u64 \<Rightarrow> u8) \<Rightarrow> u64 \<Rightarrow> u8" where
  "put_bytes pa bs m = (\<lambda>a. let d = unat (a - pa) in if d < length bs then bs ! d else m a)"

text \<open>The loop over the arguments: the string and its final zero, then the pointer to it.\<close>

fun copy_args :: "u64 \<Rightarrow> nat \<Rightarrow> u64 \<Rightarrow> u64 \<Rightarrow> u8 list list \<Rightarrow> (u64 \<Rightarrow> u8) \<Rightarrow> u64 \<Rightarrow> u8" where
  "copy_args argv_copy i argv_data argc_data_va [] m = m"
| "copy_args argv_copy i argv_data argc_data_va (a # as) m =
     (let len = of_nat (length a) + 1;
          m = put_bytes argv_data (a @ [0]) m;
          m = put_bytes (argv_copy + 8 * of_nat i) (le_bytes 8 (unat argc_data_va)) m
      in copy_args argv_copy (Suc i) (argv_data + len) (argc_data_va + len) as m)"

definition sys_exec :: "disk \<Rightarrow> loader \<Rightarrow> nat \<Rightarrow> string \<Rightarrow> u8 list list \<Rightarrow> u64 \<Rightarrow> u64 \<Rightarrow> exec_state \<Rightarrow> (nat \<times> exec_state) option" where
  "sys_exec disk l c nam args addr stack x = do {
     task_idx \<leftarrow> find_task_idx_by_name l (map of_char nam);
     if task_idx = - 1 then Some (0, x)
     else do {
       cp \<leftarrow> current_process c (kern x);
       (pd, s) \<leftarrow> new_page_dir (vmem x);
       (p, k) \<leftarrow> new_process (Some cp) nam (kern x);
       (t, k) \<leftarrow> create_thread p addr stack k;
       (_, pd, s, m) \<leftarrow> load_task_img disk l task_idx pd s (ram x);
       th \<leftarrow> thr k t;
       let argc = length args;
       let k = put_thr t (th\<lparr>sepc := USER_ENTRYPOINT, regs := (regs th)[9 := of_nat argc, 10 := ARGV_VA]\<rparr>) k;
       (argv_copy, pd, s) \<leftarrow> alloc_page_for_va ARGV_VA pd s;
       let m = copy_args (kva2pa argv_copy) 0 (kva2pa argv_copy + 8 * of_nat argc) (ARGV_VA + 8 * of_nat argc) args m;
       Some (p, x\<lparr>kern := add_ready_thread t k, vmem := s, pdirs := pdirs x @ [pd], ram := m\<rparr>)
     }
   }"

section \<open>The page of the arguments\<close>

lemma put_bytes_page:
  assumes "o1 + length bs \<le> 4096" "j < 4096"
  shows "put_bytes (base + of_nat o1) bs m (base + of_nat j) = (if o1 \<le> j \<and> j < o1 + length bs then bs ! (j - o1) else m (base + of_nat j))"
proof -
  have u: "unat (of_nat j :: u64) = j" "unat (of_nat o1 :: u64) = o1" using assms by (simp_all add: unat_of_nat)
  have e: "unat (of_nat j - of_nat o1 :: u64) = (if o1 \<le> j then j - o1 else j + 2 ^ 64 - o1)"
    using u assms by (simp add: unat_sub_if')
  show ?thesis using assms by (auto simp: put_bytes_def Let_def e)
qed

text \<open>Where the string of argument \<open>m\<close> begins, counted from the first one.\<close>

definition arg_start :: "u8 list list \<Rightarrow> nat \<Rightarrow> nat" where
  "arg_start args m = sum_list (map (\<lambda>a. Suc (length a)) (take m args))"

definition args_size :: "u8 list list \<Rightarrow> nat" where
  "args_size args = 8 * length args + arg_start args (length args)"

lemma arg_start_simps [simp]: "arg_start args 0 = 0" "arg_start (a # as) (Suc m) = Suc (length a) + arg_start as m"
  by (simp_all add: arg_start_def)

text \<open>The page at \<open>base\<close> has the pointers from number \<open>i\<close> on, the strings from offset \<open>off\<close> on, and is otherwise what it was up to there.\<close>

definition args_at :: "u64 \<Rightarrow> nat \<Rightarrow> nat \<Rightarrow> nat \<Rightarrow> u8 list list \<Rightarrow> (u64 \<Rightarrow> u8) \<Rightarrow> (u64 \<Rightarrow> u8) \<Rightarrow> bool" where
  "args_at base i off v args m m' \<longleftrightarrow> (\<forall>j < off. \<not> (8 * i \<le> j \<and> j < 8 * (i + length args)) \<longrightarrow> m' (base + of_nat j) = m (base + of_nat j)) \<and>
    (\<forall>n < length args. \<forall>d < 8. m' (base + of_nat (8 * (i + n) + d)) = le_bytes 8 (v + arg_start args n) ! d) \<and>
    (\<forall>n < length args. \<forall>d \<le> length (args ! n). m' (base + of_nat (off + arg_start args n + d)) = (args ! n @ [0]) ! d)"

lemma copy_args_page:
  "8 * (i + length args) \<le> off \<Longrightarrow> off + arg_start args (length args) \<le> 4096 \<Longrightarrow> v + arg_start args (length args) < 2 ^ 63
    \<Longrightarrow> args_at base i off v args m (copy_args base i (base + of_nat off) (of_nat v) args m)"
proof (induction args arbitrary: i off v m)
  case (Cons a as)
  let ?len = "Suc (length a)"
  let ?m1 = "put_bytes (base + of_nat off) (a @ [0]) m"
  let ?m2 = "put_bytes (base + of_nat (8 * i)) (le_bytes 8 v) ?m1"
  have v: "unat (of_nat v :: u64) = v" using Cons.prems(3) by (simp add: unat_of_nat)
  have c: "copy_args base i (base + of_nat off) (of_nat v) (a # as) m = copy_args base (Suc i) (base + of_nat (off + ?len)) (of_nat (v + ?len)) as ?m2"
    by (simp add: Let_def v algebra_simps)
  have pre: "8 * (Suc i + length as) \<le> off + ?len" "off + ?len + arg_start as (length as) \<le> 4096" "v + ?len + arg_start as (length as) < 2 ^ 63" using Cons.prems by simp_all
  note IH = Cons.IH [OF pre, of ?m2, unfolded args_at_def]
  have m2: "?m2 (base + of_nat j) = (if 8 * i \<le> j \<and> j < 8 * i + 8 then le_bytes 8 v ! (j - 8 * i) else if off \<le> j \<and> j < off + ?len then (a @ [0]) ! (j - off) else m (base + of_nat j))"
    if "j < 4096" for j using that Cons.prems put_bytes_page [of "8 * i" "le_bytes 8 v" j base ?m1] put_bytes_page [of off "a @ [0]" j base m] by simp
  have k: "copy_args base (Suc i) (base + of_nat (off + ?len)) (of_nat (v + ?len)) as ?m2 (base + of_nat j) = ?m2 (base + of_nat j)"
    if "j < off + ?len" "\<not> (8 * Suc i \<le> j \<and> j < 8 * (Suc i + length as))" for j using IH that by blast
  show ?case
    unfolding c args_at_def
  proof (intro conjI allI impI)
    fix j assume "j < off" "\<not> (8 * i \<le> j \<and> j < 8 * (i + length (a # as)))"
    then show "copy_args base (Suc i) (base + of_nat (off + ?len)) (of_nat (v + ?len)) as ?m2 (base + of_nat j) = m (base + of_nat j)"
      using k [of j] m2 [of j] Cons.prems(2) by auto
  next
    fix n d assume n: "n < length (a # as)" "d < (8 :: nat)"
    show "copy_args base (Suc i) (base + of_nat (off + ?len)) (of_nat (v + ?len)) as ?m2 (base + of_nat (8 * (i + n) + d)) = le_bytes 8 (v + arg_start (a # as) n) ! d"
    proof (cases n)
      case 0
      then show ?thesis using k [of "8 * i + d"] m2 [of "8 * i + d"] Cons.prems(1,2) n(2) by auto
    next
      case (Suc q)
      then have "q < length as" using n(1) by simp
      then have "copy_args base (Suc i) (base + of_nat (off + ?len)) (of_nat (v + ?len)) as ?m2 (base + of_nat (8 * (Suc i + q) + d)) = le_bytes 8 (v + ?len + arg_start as q) ! d"
        using IH n(2) by blast
      then show ?thesis by (simp add: Suc add.assoc)
    qed
  next
    fix n d assume n: "n < length (a # as)" "d \<le> length ((a # as) ! n)"
    show "copy_args base (Suc i) (base + of_nat (off + ?len)) (of_nat (v + ?len)) as ?m2 (base + of_nat (off + arg_start (a # as) n + d)) = ((a # as) ! n @ [0]) ! d"
    proof (cases n)
      case 0
      then show ?thesis using k [of "off + d"] m2 [of "off + d"] Cons.prems(1,2) n(2) by auto
    next
      case (Suc q)
      then have "q < length as" "d \<le> length (as ! q)" using n by simp_all
      then have "copy_args base (Suc i) (base + of_nat (off + ?len)) (of_nat (v + ?len)) as ?m2 (base + of_nat (off + ?len + arg_start as q + d)) = (as ! q @ [0]) ! d"
        using IH by blast
      then show ?thesis by (simp add: Suc add.assoc)
    qed
  qed
qed (simp add: args_at_def)

section \<open>A program is started\<close>

text \<open>What the new thread and its address space look like. A byte of the user at \<open>va\<close> is found by the hardware walk.\<close>

definition user_byte :: "u64 \<Rightarrow> vm \<Rightarrow> (u64 \<Rightarrow> u8) \<Rightarrow> nat \<Rightarrow> u8 option" where
  "user_byte r s m va = map_option m (sv39 r s (of_nat va))"

definition user_bytes :: "u64 \<Rightarrow> vm \<Rightarrow> (u64 \<Rightarrow> u8) \<Rightarrow> nat \<Rightarrow> nat \<Rightarrow> u8 option list" where
  "user_bytes r s m va n = map (\<lambda>d. user_byte r s m (va + d)) [0..<n]"

text \<open>Pages that are mapped are allocated.\<close>

lemma mapped_owned:
  assumes "iso P Q s" "r \<in> Q" "user_va va" "sv39 r s va = Some pa"
  obtains a where "owned s a" "pa = kva2pa a + take_bit 12 va"
proof -
  obtain e where e: "page_entry r s va = Some e" "pa = to_pa e + take_bit 12 va" using assms(4) sv39_entry [OF isoD(3) [OF assms(1,2)] assms(3)] by auto
  have "owned s (to_kva e)" using isoD(5) [OF assms(1-3) e(1)] isoD(7) [OF assms(1)] by (auto simp: entry_use_def)
  moreover have "kva2pa (to_kva e) = to_pa e" by (simp add: to_kva_def)
  ultimately show thesis using that e(2) by simp
qed

text \<open>The copied arguments change no other page.\<close>

lemma put_bytes_apart:
  assumes "paged a" "paged k" "a \<noteq> k" "x < 4096" "o1 + length bs \<le> 4096"
  shows "put_bytes (kva2pa k + of_nat o1) bs m (kva2pa a + of_nat x) = m (kva2pa a + of_nat x)"
proof -
  define D where "D = kva2pa a + of_nat x - kva2pa k"
  have D: "4096 \<le> unat D" using page_bytes_apart [OF assms(1,2,4,3)] by (simp add: D_def)
  have o1: "unat (of_nat o1 :: u64) = o1" using assms(5) by (simp add: unat_of_nat)
  have "kva2pa a + of_nat x - (kva2pa k + of_nat o1) = D - of_nat o1" by (simp add: D_def)
  moreover have "unat (D - of_nat o1) = unat D - o1" using D o1 assms(5) by (simp add: unat_sub_if')
  ultimately have e: "unat (kva2pa a + of_nat x - (kva2pa k + of_nat o1)) = unat D - o1" by (rule ssubst)
  have "\<not> unat D - o1 < length bs" using D assms(5) by linarith
  then show ?thesis unfolding put_bytes_def Let_def e by simp
qed

lemma copy_args_apart:
  "paged a \<Longrightarrow> paged k \<Longrightarrow> a \<noteq> k \<Longrightarrow> x < 4096 \<Longrightarrow> 8 * (i + length args) \<le> off \<Longrightarrow> off + arg_start args (length args) \<le> 4096
    \<Longrightarrow> copy_args (kva2pa k) i (kva2pa k + of_nat off) v args m (kva2pa a + of_nat x) = m (kva2pa a + of_nat x)"
proof (induction args arbitrary: i off v m)
  case (Cons b bs)
  let ?m1 = "put_bytes (kva2pa k + of_nat off) (b @ [0]) m"
  let ?m2 = "put_bytes (kva2pa k + of_nat (8 * i)) (le_bytes 8 (unat v)) ?m1"
  have e: "copy_args (kva2pa k) i (kva2pa k + of_nat off) v (b # bs) m = copy_args (kva2pa k) (Suc i) (kva2pa k + of_nat (off + Suc (length b))) (v + (of_nat (length b) + 1)) bs ?m2"
    by (simp add: Let_def algebra_simps)
  have "copy_args (kva2pa k) (Suc i) (kva2pa k + of_nat (off + Suc (length b))) (v + (of_nat (length b) + 1)) bs ?m2 (kva2pa a + of_nat x) = ?m2 (kva2pa a + of_nat x)"
    by (rule Cons.IH [OF Cons.prems(1-4)]) (use Cons.prems(5,6) in simp_all)
  also have "\<dots> = ?m1 (kva2pa a + of_nat x)" by (rule put_bytes_apart [OF Cons.prems(1-4)]) (use Cons.prems(5,6) in simp)
  also have "\<dots> = m (kva2pa a + of_nat x)" by (rule put_bytes_apart [OF Cons.prems(1-4)]) (use Cons.prems(6) in simp)
  finally show ?case unfolding e .
qed simp

lemma arg_start_bound: "n < length args \<Longrightarrow> arg_start args n + Suc (length (args ! n)) \<le> arg_start args (length args)"
proof (induction args arbitrary: n)
  case (Cons a as)
  then show ?case by (cases n) auto
qed simp

text \<open>The arguments as the new process sees them, when the page at \<open>ARGV_VA\<close> is the one at \<open>base\<close>.\<close>

lemma args_visible:
  assumes "\<And>j. j < 4096 \<Longrightarrow> user_byte r s m' (0x100000 + j) = Some (m' (base + of_nat j))"
    and at: "args_at base 0 (8 * length args) (0x100000 + 8 * length args) args m m'" and sz: "args_size args \<le> 4096" and n: "n < length args"
  shows "\<exists>v. user_bytes r s m' (0x100000 + 8 * n) 8 = map Some (le_bytes 8 v) \<and> user_bytes r s m' v (Suc (length (args ! n))) = map Some (args ! n @ [0])"
proof (intro exI conjI)
  let ?v = "0x100000 + 8 * length args + arg_start args n"
  have b: "8 * length args + arg_start args n + Suc (length (args ! n)) \<le> 4096" using arg_start_bound [OF n] sz by (simp add: args_size_def)
  have p: "m' (base + of_nat (8 * n + d)) = le_bytes 8 ?v ! d" if "d < 8" for d using at n that by (simp add: args_at_def)
  have q: "m' (base + of_nat (8 * length args + arg_start args n + d)) = (args ! n @ [0]) ! d" if "d \<le> length (args ! n)" for d using at n that by (simp add: args_at_def)
  show "user_bytes r s m' (0x100000 + 8 * n) 8 = map Some (le_bytes 8 ?v)"
  proof (rule nth_equalityI)
    fix d assume d: "d < length (user_bytes r s m' (0x100000 + 8 * n) 8)"
    then have d8: "d < 8" by (simp add: user_bytes_def)
    then have "8 * n + d < 4096" using n sz by (simp add: args_size_def)
    from assms(1) [OF this] p [OF d8] d8 show "user_bytes r s m' (0x100000 + 8 * n) 8 ! d = map Some (le_bytes 8 ?v) ! d" by (simp add: user_bytes_def add.assoc)
  qed (simp add: user_bytes_def)
  show "user_bytes r s m' ?v (Suc (length (args ! n))) = map Some (args ! n @ [0])"
  proof (rule nth_equalityI)
    fix d assume d: "d < length (user_bytes r s m' ?v (Suc (length (args ! n))))"
    then have dl: "d \<le> length (args ! n)" by (simp add: user_bytes_def)
    then have "8 * length args + arg_start args n + d < 4096" using b by simp
    from assms(1) [OF this] q [OF dl] dl show "user_bytes r s m' ?v (Suc (length (args ! n))) ! d = map Some (args ! n @ [0]) ! d"
      by (simp add: user_bytes_def add.assoc less_Suc_eq_le del: upt_Suc map_append)
  qed (simp add: user_bytes_def)
qed

text \<open>The two steps that make the process and the thread.\<close>

lemma new_thread_made:
  assumes "prc k cp = Some pr" "\<not> process_own_lock pr" "\<not> process_global_lock k"
  obtains k1 k2 th where "new_process (Some cp) nam k = Some (length (process_table k), k1)" "create_thread (length (process_table k)) addr stack k1 = Some (length (thread_table k), k2)"
    "thr k2 (length (thread_table k)) = Some th" "th_process th = length (process_table k)" "length (regs th) = 31" "ready_queue k2 = ready_queue k"
proof -
  let ?p = "length (process_table k)"
  obtain k1 pr1 where n: "new_process (Some cp) nam k = Some (?p, k1)" "prc k1 ?p = Some pr1" "\<not> process_own_lock pr1" "thread_table k1 = thread_table k" "ready_queue k1 = ready_queue k"
    using assms by (auto simp: new_process_def Let_def prc_def put_prc_def nth_append)
  then show thesis
    using that [OF n(1)] by (auto simp: create_thread_def new_thread_def Let_def prc_def put_prc_def thr_def nth_append)
qed

text \<open>What the page of the arguments adds to an address space that has the program: the arguments at \<open>ARGV_VA\<close>; the program stays as it was.\<close>

lemma argument_page:
  assumes i: "iso P Q s1" "r \<in> Q" and kv: "\<not> owned s1 kv" "owned s2 kv"
    and sv: "\<And>va'. user_va va' \<Longrightarrow> sv39 r s2 va' = (if drop_bit 12 va' = drop_bit 12 ARGV_VA then Some (kva2pa kv + take_bit 12 va') else sv39 r s1 va')"
    and l: "loaded disk r 0x200000 b f s1 m1" "b < 2048" and args: "args_size args \<le> 4096"
    and m2: "m2 = copy_args (kva2pa kv) 0 (kva2pa kv + 8 * of_nat (length args)) (ARGV_VA + 8 * of_nat (length args)) args m1"
  shows "\<forall>v < 512 * b. user_byte r s2 m2 (0x200000 + v) = Some (disk (f + v div 512) (v mod 512))"
    and "\<forall>n < length args. \<exists>v. user_bytes r s2 m2 (0x100000 + 8 * n) 8 = map Some (le_bytes 8 v) \<and> user_bytes r s2 m2 v (Suc (length (args ! n))) = map Some (args ! n @ [0])"
proof -
  let ?n = "length args"
  have pg: "unat (drop_bit 12 ARGV_VA) = 256" by (simp add: ARGV_VA_def)
  have svn: "sv39 r s2 (of_nat v) = (if v div 4096 = 256 then Some (kva2pa kv + of_nat (v mod 4096)) else sv39 r s1 (of_nat v))" if "v < 2 ^ 38" for v
  proof -
    have "drop_bit 12 (of_nat v :: u64) = drop_bit 12 ARGV_VA \<longleftrightarrow> v div 4096 = 256" using page_of_nat(3) [OF that] pg by (simp add: word_unat_eq_iff)
    then show ?thesis using sv [OF page_of_nat(2) [OF that]] page_of_nat(4) [OF that] by simp
  qed
  have sz: "8 * (0 + ?n) \<le> 8 * ?n" "8 * ?n + arg_start args ?n \<le> 4096" "0x100000 + 8 * ?n + arg_start args ?n < 2 ^ 63" using args by (simp_all add: args_size_def)
  have m2': "m2 = copy_args (kva2pa kv) 0 (kva2pa kv + of_nat (8 * ?n)) (of_nat (0x100000 + 8 * ?n)) args m1" by (simp add: m2 ARGV_VA_def)
  have "args_at (kva2pa kv) 0 (8 * ?n) (0x100000 + 8 * ?n) args m1 m2" unfolding m2' by (rule copy_args_page [OF sz])
  moreover have "user_byte r s2 m2 (0x100000 + v) = Some (m2 (kva2pa kv + of_nat v))" if "v < 4096" for v
  proof -
    have "(0x100000 + v) div 4096 = 256" "(0x100000 + v) mod 4096 = v" using that by (simp_all add: div_add1_eq mod_add_eq [symmetric])
    then show ?thesis using svn [of "0x100000 + v"] that by (simp add: user_byte_def)
  qed
  ultimately show "\<forall>n < ?n. \<exists>v. user_bytes r s2 m2 (0x100000 + 8 * n) 8 = map Some (le_bytes 8 v) \<and> user_bytes r s2 m2 v (Suc (length (args ! n))) = map Some (args ! n @ [0])"
    using args_visible [OF _ _ args] by blast
  have "user_byte r s2 m2 (0x200000 + v) = Some (disk (f + v div 512) (v mod 512))" if v: "v < 512 * b" for v
  proof -
    let ?w = "0x200000 + v"
    have w: "?w < 2 ^ 38" "?w div 4096 \<noteq> 256" using v l(2) by (simp_all add: div_add1_eq)
    obtain pa where pa: "sv39 r s1 (of_nat ?w) = Some pa" "m1 pa = disk (f + v div 512) (v mod 512)" using l(1) v unfolding loaded_def by blast
    obtain c where c: "owned s1 c" "pa = kva2pa c + of_nat (?w mod 4096)"
      using mapped_owned [OF i page_of_nat(2) [OF w(1)] pa(1)] page_of_nat(4) [OF w(1)] by auto
    have "c \<noteq> kv" using c(1) kv(1) by auto
    then have "m2 pa = m1 pa" unfolding c(2) m2' by (rule copy_args_apart [OF owned_paged [OF c(1)] owned_paged [OF kv(2)]]) (use sz in simp_all)
    then show ?thesis using svn [OF w(1)] w(2) pa by (simp add: user_byte_def)
  qed
  then show "\<forall>v < 512 * b. user_byte r s2 m2 (0x200000 + v) = Some (disk (f + v div 512) (v mod 512))" by blast
qed

text \<open>The address space of a new process, with the program and one page at \<open>ARGV_VA\<close>.\<close>

lemma exec_space:
  assumes mem: "iso P Q s" "roomy 1300 (heap_of s)" and tab: "int j < sint (task_num l)" "j < 16" "field (32 * j + 12) 4 (tasks l) = b" "field (32 * j + 8) 4 (tasks l) = f" "b < 2048" "f < 2 ^ 31"
  obtains r s0 pd1 s1 m1 kv pd2 s2 where "new_page_dir s = Some (dir0 r, s0)" "load_task_img disk l (int j) (dir0 r) s0 m = Some (True, pd1, s1, m1)"
    "alloc_page_for_va ARGV_VA pd1 s1 = Some (kv, pd2, s2)" "root pd1 = r" "root pd2 = r" "iso P (insert r Q) s1" "loaded disk r 0x200000 b f s1 m1" "\<not> owned s1 kv" "owned s2 kv"
    "\<And>va'. user_va va' \<Longrightarrow> sv39 r s2 va' = (if drop_bit 12 va' = drop_bit 12 ARGV_VA then Some (kva2pa kv + take_bit 12 va') else sv39 r s1 va')"
proof -
  obtain r h1 where h1: "kalloc (heap_of s) 4096 = Some (r, h1)" "roomy 1299 h1" using roomy_alloc [of 1299 "heap_of s"] mem(2) by auto
  define s0 where "s0 = set_kernel_vm r (s\<lparr>heap_of := h1\<rparr>)"
  have pd0: "new_page_dir s = Some (dir0 r, s0)" using h1(1) by (simp add: new_page_dir_def dir0_def s0_def)
  let ?Q = "insert r Q"
  have i0: "iso P ?Q s0" using iso_create(1) [OF mem(1) pd0] by (simp add: dir0_def)
  have u0: "\<forall>va. user_va va \<longrightarrow> sv39 (root (dir0 r)) s0 va = None"
    using iso_create(3) [OF mem(1) pd0] isoD(3) [OF i0, of r] by (simp add: sv39_entry dir0_def)
  have r0: "roomy (1280 + 19) (heap_of s0)" using h1(2) by (simp add: s0_def set_kernel_vm_def put_entry_def copy_page_def clear_page_def Let_def)
  have d0: "root (dir0 r) \<in> ?Q" "user_mem_bound (dir0 r) = 0x300000" by (simp_all add: dir0_def)
  obtain pd1 s1 m1 where l: "load_task_img disk l (int j) (dir0 r) s0 m = Some (True, pd1, s1, m1)" "root pd1 = root (dir0 r)" "iso P ?Q s1" "loaded disk (root (dir0 r)) 0x200000 b f s1 m1"
    "user_mem_bound pd1 = user_mem_bound (dir0 r)" "roomy 19 (heap_of s1)" "\<forall>v < 0x200000. sv39 (root (dir0 r)) s1 (of_nat v) = sv39 (root (dir0 r)) s0 (of_nat v)"
    using load_task_ok [OF i0 d0 r0 u0 tab, of disk m] by blast
  have rr: "root (dir0 r) = r" "root pd1 = r" using l(2) by (simp_all add: dir0_def)
  have av: "ARGV_VA = of_nat 0x100000" "user_va ARGV_VA" "ARGV_VA < user_mem_bound pd1" using l(5) by (simp_all add: ARGV_VA_def dir0_def)
  have un: "sv39 (root pd1) s1 ARGV_VA = None" using l(7) [rule_format, of "0x100000"] u0 [rule_format, of ARGV_VA] av rr by simp
  have th: "three_pages (heap_of s1)" by (rule roomy_pages(1), rule roomy_weaken [OF l(6)]) simp
  obtain kv pd2 s2 where a: "alloc_page_for_va ARGV_VA pd1 s1 = Some (kv, pd2, s2)" "root pd2 = root pd1" "\<not> owned s1 kv" "owned s2 kv"
    and sv: "\<And>va'. user_va va' \<Longrightarrow> sv39 (root pd1) s2 va' = (if drop_bit 12 va' = drop_bit 12 ARGV_VA then Some (kva2pa kv + take_bit 12 va') else sv39 (root pd1) s1 va')"
    by (rule alloc_fresh [OF l(3) _ av(2,3) th un]) (use rr in blast)+
  show thesis using that [OF pd0 l(1) a(1)] a(2-4) l(3,4) sv unfolding rr by blast
qed

text \<open>The new state in full: the kernel part step by step, the address space with the program and the arguments.\<close>

lemma exec_ok:
  assumes tab: "find_task_idx_by_name l (map of_char nam) = Some (int j)" "int j < sint (task_num l)" "j < 16" "field (32 * j + 12) 4 (tasks l) = b" "field (32 * j + 8) 4 (tasks l) = f" "b < 2048" "f < 2 ^ 31"
    and mem: "iso P Q (vmem x)" "roomy 1300 (heap_of (vmem x))"
    and k: "current_process c (kern x) = Some cp" "prc (kern x) cp = Some pr" "\<not> process_own_lock pr" "\<not> process_global_lock (kern x)" "length (pdirs x) = length (process_table (kern x))"
    and args: "args_size args \<le> 4096"
  obtains p t x' k1 k2 th0 th r where "sys_exec disk l c nam args addr stack x = Some (p, x')" "p = length (process_table (kern x))" "t = length (thread_table (kern x))" "root (pdirs x' ! p) = r" "length (pdirs x') = Suc p"
    "new_process (Some cp) nam (kern x) = Some (p, k1)" "create_thread p addr stack k1 = Some (t, k2)" "thr k2 t = Some th0" "th_process th0 = p" "length (regs th0) = 31" "ready_queue k2 = ready_queue (kern x)"
    "th = th0\<lparr>sepc := USER_ENTRYPOINT, regs := (regs th0)[9 := of_nat (length args), 10 := ARGV_VA]\<rparr>" "kern x' = add_ready_thread t (put_thr t th k2)" "iso P (insert r Q) (vmem x')"
    "\<forall>v < 512 * b. user_byte r (vmem x') (ram x') (0x200000 + v) = Some (disk (f + v div 512) (v mod 512))"
    "\<forall>n < length args. \<exists>v. user_bytes r (vmem x') (ram x') (0x100000 + 8 * n) 8 = map Some (le_bytes 8 v) \<and> user_bytes r (vmem x') (ram x') v (Suc (length (args ! n))) = map Some (args ! n @ [0])"
proof -
  let ?p = "length (process_table (kern x))" and ?t = "length (thread_table (kern x))" and ?n = "length args"
  obtain r s0 pd1 s1 m1 kv pd2 s2 where m: "new_page_dir (vmem x) = Some (dir0 r, s0)" "load_task_img disk l (int j) (dir0 r) s0 (ram x) = Some (True, pd1, s1, m1)"
      "alloc_page_for_va ARGV_VA pd1 s1 = Some (kv, pd2, s2)" "root pd1 = r" "root pd2 = r" "iso P (insert r Q) s1" "loaded disk r 0x200000 b f s1 m1" "\<not> owned s1 kv" "owned s2 kv"
    and sv: "\<And>va'. user_va va' \<Longrightarrow> sv39 r s2 va' = (if drop_bit 12 va' = drop_bit 12 ARGV_VA then Some (kva2pa kv + take_bit 12 va') else sv39 r s1 va')"
    by (rule exec_space [OF mem tab(2-7), of disk "ram x"]; (rule that; assumption))
  obtain k1 k2 th0 where kk: "new_process (Some cp) nam (kern x) = Some (?p, k1)" "create_thread ?p addr stack k1 = Some (?t, k2)" "thr k2 ?t = Some th0" "th_process th0 = ?p"
    "length (regs th0) = 31" "ready_queue k2 = ready_queue (kern x)" by (rule new_thread_made [OF k(2-4)])
  define th1 where "th1 = th0\<lparr>sepc := USER_ENTRYPOINT, regs := (regs th0)[9 := of_nat ?n, 10 := ARGV_VA]\<rparr>"
  define m2 where "m2 = copy_args (kva2pa kv) 0 (kva2pa kv + 8 * of_nat ?n) (ARGV_VA + 8 * of_nat ?n) args m1"
  define x' where "x' = x\<lparr>kern := add_ready_thread ?t (put_thr ?t th1 k2), vmem := s2, pdirs := pdirs x @ [pd2], ram := m2\<rparr>"
  have "int j \<noteq> - 1" by simp
  then have ex: "sys_exec disk l c nam args addr stack x = Some (?p, x')"
    using tab(1) k(1) kk(1-3) m(1-3) by (simp add: sys_exec_def Let_def x'_def th1_def m2_def)
  have S: "root (pdirs x' ! ?p) = r" "length (pdirs x') = Suc ?p" "vmem x' = s2" "ram x' = m2" "kern x' = add_ready_thread ?t (put_thr ?t th1 k2)" using k(5) m(5) by (simp_all add: x'_def nth_append)
  have "root pd1 \<in> insert r Q" "user_va ARGV_VA" using m(4) by (simp_all add: ARGV_VA_def)
  from iso_fault(1) [OF m(6) this m(3)] have I: "iso P (insert r Q) (vmem x')" by (simp add: S(3))
  note A = argument_page [OF m(6) insertI1 m(8,9) sv m(7) tab(6) args m2_def, folded S(3,4)]
  show thesis by (rule that [OF ex refl refl S(1,2) kk th1_def S(5) I A])
qed

text \<open>
  C6: Starting a program. Let the table of programs have the name, with a program below one megabyte, and let the arguments fit into one page. Then \<open>sys_exec\<close> returns the number of a new process with
  one new thread, at the end of the ready queue, that begins at the entry point with the number of arguments and their address in its registers. In its address space, the sectors of the program
  lie from the entry point on; entry \<open>n\<close> of the argument vector is the address of a copy of argument \<open>n\<close>, ended by a zero.
\<close>

theorem exec_starts_program:
  assumes tab: "find_task_idx_by_name l (map of_char nam) = Some (int j)" "int j < sint (task_num l)" "j < 16" "field (32 * j + 12) 4 (tasks l) = b" "field (32 * j + 8) 4 (tasks l) = f" "b < 2048" "f < 2 ^ 31"
    and mem: "iso P Q (vmem x)" "roomy 1300 (heap_of (vmem x))"
    and k: "current_process c (kern x) = Some cp" "prc (kern x) cp = Some pr" "\<not> process_own_lock pr" "\<not> process_global_lock (kern x)" "length (pdirs x) = length (process_table (kern x))"
    and args: "args_size args \<le> 4096"
  shows "\<exists>p t x' th r. sys_exec disk l c nam args addr stack x = Some (p, x') \<and> p = length (process_table (kern x)) \<and> r = root (pdirs x' ! p) \<and>
    t = length (thread_table (kern x)) \<and> thr (kern x') t = Some th \<and> th_process th = p \<and> ready_queue (kern x') = ready_queue (kern x) @ [t] \<and> sepc th = USER_ENTRYPOINT \<and> regs th ! 9 = of_nat (length args) \<and> regs th ! 10 = ARGV_VA \<and>
    (\<forall>v < 512 * b. user_byte r (vmem x') (ram x') (0x200000 + v) = Some (disk (f + v div 512) (v mod 512))) \<and>
    (\<forall>n < length args. \<exists>v. user_bytes r (vmem x') (ram x') (0x100000 + 8 * n) 8 = map Some (le_bytes 8 v) \<and>
      user_bytes r (vmem x') (ram x') v (Suc (length (args ! n))) = map Some (args ! n @ [0]))"
proof -
  obtain p t x' k1 k2 th0 th r where e: "sys_exec disk l c nam args addr stack x = Some (p, x')" "p = length (process_table (kern x))" "t = length (thread_table (kern x))" "root (pdirs x' ! p) = r"
    "thr k2 t = Some th0" "th_process th0 = p" "length (regs th0) = 31" "ready_queue k2 = ready_queue (kern x)"
    "th = th0\<lparr>sepc := USER_ENTRYPOINT, regs := (regs th0)[9 := of_nat (length args), 10 := ARGV_VA]\<rparr>" "kern x' = add_ready_thread t (put_thr t th k2)"
    "\<forall>v < 512 * b. user_byte r (vmem x') (ram x') (0x200000 + v) = Some (disk (f + v div 512) (v mod 512))"
    "\<forall>n < length args. \<exists>v. user_bytes r (vmem x') (ram x') (0x100000 + 8 * n) 8 = map Some (le_bytes 8 v) \<and> user_bytes r (vmem x') (ram x') v (Suc (length (args ! n))) = map Some (args ! n @ [0])"
    by (rule exec_ok [OF assms, of disk addr stack])
  have tl: "t < length (thread_table k2)" using e(5) by (auto simp: thr_def split: if_splits)
  have "thr (kern x') t = Some th" "th_process th = p" "ready_queue (kern x') = ready_queue (kern x) @ [t]" "sepc th = USER_ENTRYPOINT" "regs th ! 9 = of_nat (length args)" "regs th ! 10 = ARGV_VA"
    using e(6-10) tl by (simp_all add: thr_def put_thr_def add_ready_thread_def)
  with e(1-4,11,12) show ?thesis by (intro exI [of _ p] exI [of _ t] exI [of _ x'] exI [of _ th] exI [of _ r]) simp
qed

text \<open>A table with one program of two sectors.\<close>

definition loader0 :: loader where
  "loader0 = \<lparr>tasks = replicate 8 0 @ le_bytes 4 40 @ le_bytes 4 2 @ map of_char ''shell'' @ replicate 491 0, task_num = 1\<rparr>"

lemma loader0_simps:
  "find_task_idx_by_name loader0 (map of_char ''shell'') = Some (int 0)" "int 0 < sint (task_num loader0)" "field (32 * 0 + 12) 4 (tasks loader0) = 2" "field (32 * 0 + 8) 4 (tasks loader0) = 40"
  by code_simp+

theorem exec_starts_program_witness:
  "\<exists>(x :: exec_state) x' th r. sys_exec (\<lambda>b d. of_nat (b + d)) loader0 0 ''shell'' [[65, 66], [67]] 1 2 x = Some (3, x') \<and> r = root (pdirs x' ! 3) \<and> thr (kern x') 3 = Some th \<and>
    ready_queue (kern x') = [2, 3] \<and> regs th ! 9 = 2 \<and> user_byte r (vmem x') (ram x') 0x200201 = Some 42 \<and>
    (\<exists>v. user_bytes r (vmem x') (ram x') 0x100008 8 = map Some (le_bytes 8 v) \<and> user_bytes r (vmem x') (ram x') v 2 = [Some 67, Some 0])"
proof -
  obtain y where y: "space_reach y" "length (dirs y) = 1" "roomy 1300 (heap_of (mem y))" by (rule first_process [of 1300]) simp_all
  obtain P where "space_inv P y" using space_reach_inv [OF y(1)] by blast
  then have iso: "iso P (root ` set (dirs y)) (mem y)" by (simp add: space_inv_def)
  define x :: exec_state where "x = \<lparr>kern = kernel0, vmem = mem y, pdirs = replicate 3 (dirs y ! 0), ram = \<lambda>_. 0\<rparr>"
  have i: "iso P (root ` set (dirs y)) (vmem x)" "roomy 1300 (heap_of (vmem x))" using iso y(3) by (simp_all add: x_def)
  have k: "current_process 0 (kern x) = Some 1" "prc (kern x) 1 = Some (process0 [1])" "\<not> process_own_lock (process0 [1])" "\<not> process_global_lock (kern x)"
    "length (pdirs x) = length (process_table (kern x))" "length (process_table (kern x)) = 3" "ready_queue (kern x) = [2]"
    by (simp_all add: x_def current_process_def prc_def cpu_at_def thr_def kernel0_def thread0_def process0_def)
  have a: "args_size [[65, 66], [67 :: u8]] \<le> 4096" "(0 :: nat) < 16" "(2 :: nat) < 2048" "(40 :: nat) < 2 ^ 31" by (simp_all add: args_size_def arg_start_def)
  from exec_starts_program [OF loader0_simps(1,2) a(2) loader0_simps(3,4) a(3,4) i k(1-5) a(1), of "\<lambda>b d. of_nat (b + d)" 1 2]
  obtain t x' th r where e0: "t = length (thread_table (kern x))" and e: "sys_exec (\<lambda>b d. of_nat (b + d)) loader0 0 ''shell'' [[65, 66], [67]] 1 2 x = Some (3, x')" "r = root (pdirs x' ! 3)" "thr (kern x') t = Some th"
    "ready_queue (kern x') = [2, t]" "regs th ! 9 = 2" and b: "\<forall>v < 1024. user_byte r (vmem x') (ram x') (0x200000 + v) = Some (of_nat (40 + v div 512 + v mod 512))"
    and c: "\<forall>n < length [[65, 66], [67 :: u8]]. \<exists>v. user_bytes r (vmem x') (ram x') (0x100000 + 8 * n) 8 = map Some (le_bytes 8 v) \<and>
      user_bytes r (vmem x') (ram x') v (Suc (length ([[65, 66], [67 :: u8]] ! n))) = map Some ([[65, 66], [67]] ! n @ [0])"
    unfolding k(6,7) by auto
  have "t = 3" using e0 by (simp add: x_def kernel0_def)
  then show ?thesis using e b [rule_format, of 513] c [rule_format, of 1] by - (rule exI [of _ x], rule exI [of _ x'], auto simp: numeral_2_eq_2)
qed

end
