(* ===== verification/Cpu.thy ===== *)
theory Cpu
  imports Screen
begin

text \<open>
  What is left of the processor and its clock in the C++ code: the interrupt bits of the control registers (\<open>arch/CSR.h\<close>, \<open>init_trap\<close> of \<open>trap.cpp\<close>, the three functions on preemption of \<open>schedule.cpp\<close>),
  the time counter (\<open>time.cpp\<close>), and the system calls of \<open>syscall.cpp\<close> that depend on them.
\<close>

section \<open>Control registers\<close>

definition SR_SIE :: u64 where "SR_SIE = 0x00000002"
definition SR_SPIE :: u64 where "SR_SPIE = 0x00000020"
definition SIE_SSIE :: u64 where "SIE_SSIE = push_bit 1 1"
definition SIE_STIE :: u64 where "SIE_STIE = push_bit 5 1"
definition SIE_SEIE :: u64 where "SIE_SEIE = push_bit 9 1"

record hart =
  sstatus :: u64
  sie :: u64
  stvec :: u64

text \<open>The instructions \<open>csrs\<close> and \<open>csrc\<close> on the value of a register.\<close>

definition csr_set :: "u64 \<Rightarrow> u64 \<Rightarrow> u64" where "csr_set val v = v OR val"
definition csr_clear :: "u64 \<Rightarrow> u64 \<Rightarrow> u64" where "csr_clear val v = v AND NOT val"

definition enable_preempt :: "'a hart_scheme \<Rightarrow> 'a hart_scheme" where
  "enable_preempt h = h\<lparr>sstatus := csr_set SR_SIE (sstatus h)\<rparr>"

definition disable_preempt :: "'a hart_scheme \<Rightarrow> 'a hart_scheme" where
  "disable_preempt h = h\<lparr>sstatus := csr_clear SR_SIE (sstatus h)\<rparr>"

definition assert_no_preempt :: "'a hart_scheme \<Rightarrow> unit option" where
  "assert_no_preempt h = kassert (sstatus h AND SR_SIE = 0)"

text \<open>\<open>entry\<close> is the address of \<open>kernel_trap_entry\<close>.\<close>

definition init_trap :: "u64 \<Rightarrow> 'a hart_scheme \<Rightarrow> 'a hart_scheme" where
  "init_trap entry h =
     (let h = h\<lparr>sstatus := csr_clear SR_SIE (sstatus h)\<rparr>;
          h = h\<lparr>sstatus := csr_clear SR_SPIE (sstatus h)\<rparr>;
          h = h\<lparr>sie := csr_set (SIE_SEIE OR SIE_STIE OR SIE_SSIE) (sie h)\<rparr>
      in h\<lparr>stvec := entry\<rparr>)"

section \<open>Time\<close>

text \<open>\<open>next_timer\<close> is what \<open>bios_set_timer\<close> was last called with. Every read of the time counter is an argument.\<close>

record clock =
  time_elapsed :: u64
  time_base :: u64
  next_timer :: u64

definition get_ticks :: "u64 \<Rightarrow> 'a clock_scheme \<Rightarrow> u64 \<times> 'a clock_scheme" where
  "get_ticks now c = (let c = c\<lparr>time_elapsed := now\<rparr> in (time_elapsed c, c))"

definition init_timer :: "u64 \<Rightarrow> u64 \<Rightarrow> 'a clock_scheme \<Rightarrow> 'a clock_scheme" where
  "init_timer now timebase c =
     (let (t, c) = get_ticks now c;
          c = c\<lparr>next_timer := t\<rparr>
      in c\<lparr>time_base := timebase\<rparr>)"

text \<open>A division by 0 does not trap on this processor: the result has all bits set.\<close>

definition get_timer :: "u64 \<Rightarrow> 'a clock_scheme \<Rightarrow> u64 \<times> 'a clock_scheme" where
  "get_timer now c = (let (t, c) = get_ticks now c in (if time_base c = 0 then - 1 else t div time_base c, c))"

definition get_time_base :: "'a clock_scheme \<Rightarrow> u64" where
  "get_time_base c = time_base c"

definition sys_get_timebase :: "'a clock_scheme \<Rightarrow> u64" where
  "sys_get_timebase c = time_base c"

definition sys_get_tick :: "u64 \<Rightarrow> 'a clock_scheme \<Rightarrow> u64 \<times> 'a clock_scheme" where
  "sys_get_tick now c = get_ticks now c"

text \<open>\<open>rd i\<close> is what read number \<open>i\<close> of the counter gives. The results are the number of the first read after the call and the state.\<close>

partial_function (option) latency_loop :: "(nat \<Rightarrow> u64) \<Rightarrow> u64 \<Rightarrow> u64 \<Rightarrow> nat \<Rightarrow> clock \<Rightarrow> (nat \<times> clock) option" where
  "latency_loop rd begin_time tim i c =
     (let (t, c) = get_timer (rd i) c
      in if t - begin_time < tim then latency_loop rd begin_time tim (Suc i) c else Some (Suc i, c))"

definition latency :: "(nat \<Rightarrow> u64) \<Rightarrow> u64 \<Rightarrow> clock \<Rightarrow> (nat \<times> clock) option" where
  "latency rd tim c = (let (begin_time, c) = get_timer (rd 0) c in latency_loop rd begin_time tim 1 c)"

section \<open>System calls\<close>

text \<open>The sequence of results of \<open>bios_getchar\<close> is as for \<open>getchar\<close>; between two of them interrupts are on for a moment.\<close>

fun getchar_wait :: "int list \<Rightarrow> 'a hart_scheme \<Rightarrow> (int \<times> int list \<times> 'a hart_scheme) option" where
  "getchar_wait [] h = None"
| "getchar_wait (c # input) h =
     (let h = disable_preempt h;
          h = enable_preempt h
      in if c = - 1 then getchar_wait input h else Some (c, input, disable_preempt h))"

definition sys_getchar :: "int list \<Rightarrow> 'a hart_scheme \<Rightarrow> (int \<times> int list \<times> 'a hart_scheme) option" where
  "sys_getchar input h =
     (case input of
        [] \<Rightarrow> None
      | c # input \<Rightarrow> if c = - 1 then getchar_wait input h else Some (c, input, disable_preempt h))"

definition sys_move_cursor :: "int \<Rightarrow> int \<Rightarrow> 'a hart_scheme \<Rightarrow> screen \<Rightarrow> screen option" where
  "sys_move_cursor x y h s = do { assert_no_preempt h; screen_move_cursor x y s }"

definition sys_write :: "u8 list \<Rightarrow> 'a hart_scheme \<Rightarrow> screen \<Rightarrow> screen option" where
  "sys_write buff h s = do { assert_no_preempt h; screen_write buff s }"

definition sys_reflush :: "'a hart_scheme \<Rightarrow> screen \<Rightarrow> screen option" where
  "sys_reflush h s = do { assert_no_preempt h; screen_reflush s }"

definition sys_clear :: "'a hart_scheme \<Rightarrow> screen \<Rightarrow> screen option" where
  "sys_clear h s = do { assert_no_preempt h; screen_clear s }"

section \<open>Interrupts are off where they must be\<close>

definition preemptible :: "'a hart_scheme \<Rightarrow> bool" where
  "preemptible h \<longleftrightarrow> sstatus h AND SR_SIE \<noteq> 0"

lemma preempt_simps [simp]:
  "\<not> preemptible (disable_preempt h)" "preemptible (enable_preempt h)" "\<not> preemptible (init_trap entry h)" "assert_no_preempt h = (if preemptible h then None else Some ())"
proof -
  show "\<not> preemptible (disable_preempt h)" by (simp add: preemptible_def disable_preempt_def csr_clear_def and.assoc)
  have "(sstatus h OR 2) AND 2 = 2" by (rule bit_word_eqI) (auto simp: bit_simps)
  then show "preemptible (enable_preempt h)" by (simp add: preemptible_def enable_preempt_def csr_set_def SR_SIE_def)
  have "((sstatus h AND NOT 2) AND NOT 32) AND 2 = 0" by (rule bit_word_eqI) (auto simp: bit_simps)
  then show "\<not> preemptible (init_trap entry h)" by (simp add: preemptible_def init_trap_def csr_clear_def SR_SIE_def SR_SPIE_def Let_def)
  show "assert_no_preempt h = (if preemptible h then None else Some ())" by (simp add: assert_no_preempt_def preemptible_def kassert_def)
qed

lemma getchar_wait_key: "c \<noteq> - 1 \<Longrightarrow> \<exists>h'. getchar_wait (replicate n (- 1) @ c # rest) h = Some (c, rest, h') \<and> \<not> preemptible h'"
  by (induction n arbitrary: h) (simp_all add: Let_def)

text \<open>
  A key that is typed is what the program gets. However often the keyboard is asked in vain before, \<open>sys_getchar\<close> returns the first key and takes no further one from the keyboard; interrupts are off
  again when it returns, so that the calls on the screen that follow pass their assertion.
\<close>

lemma sys_getchar_key:
  assumes "c \<noteq> - 1"
  shows "\<exists>h'. sys_getchar (replicate n (- 1) @ c # rest) h = Some (c, rest, h') \<and> sys_write buff h' s = screen_write buff s \<and> sys_reflush h' s = screen_reflush s \<and>
    sys_clear h' s = screen_clear s \<and> sys_move_cursor x y h' s = screen_move_cursor x y s"
proof -
  obtain h' where "sys_getchar (replicate n (- 1) @ c # rest) h = Some (c, rest, h')" "\<not> preemptible h'"
  proof (cases n)
    case 0
    then show thesis using that [of "disable_preempt h"] assms by (simp add: sys_getchar_def)
  next
    case (Suc m)
    then show thesis using that getchar_wait_key [OF assms, of m rest h] by (auto simp: sys_getchar_def)
  qed
  then show ?thesis by (auto simp: sys_write_def sys_reflush_def sys_clear_def sys_move_cursor_def)
qed

section \<open>Waiting for a time\<close>

lemma get_timer_simps: "time_base c \<noteq> 0 \<Longrightarrow> get_timer now c = (now div time_base c, c\<lparr>time_elapsed := now\<rparr>)"
  by (simp add: get_timer_def get_ticks_def Let_def)

lemma latency_loop_until:
  assumes "time_base c \<noteq> 0" "i \<le> j" "\<forall>m. i \<le> m \<and> m < j \<longrightarrow> rd m div time_base c - b < tim" "\<not> rd j div time_base c - b < tim"
  shows "latency_loop rd b tim i c = Some (Suc j, c\<lparr>time_elapsed := rd j\<rparr>)"
  using assms
proof (induction "j - i" arbitrary: i c)
  case 0
  then show ?case by (subst latency_loop.simps) (simp add: get_timer_simps)
next
  case (Suc n)
  then have "rd i div time_base c - b < tim" "latency_loop rd b tim (Suc i) (c\<lparr>time_elapsed := rd i\<rparr>) = Some (Suc j, c\<lparr>time_elapsed := rd j\<rparr>)" using Suc.hyps(1) [of "Suc i" "c\<lparr>time_elapsed := rd i\<rparr>"] by simp_all
  then show ?case using Suc.prems(1) by (subst latency_loop.simps) (simp add: get_timer_simps)
qed

text \<open>
  \<open>latency\<close> returns when its time is over and not before. Let the counter not run backwards, and let some later read be \<open>tim\<close> units of the time base after the first one. Then the call returns with the
  first such read; every read before it was too early.
\<close>

lemma latency_waits:
  assumes "time_base c \<noteq> 0" "\<And>i. rd 0 \<le> rd i" "0 < n" "unat (rd 0 div time_base c) + unat tim \<le> unat (rd n div time_base c)"
  shows "\<exists>j. 0 < j \<and> j \<le> n \<and> latency rd tim c = Some (Suc j, c\<lparr>time_elapsed := rd j\<rparr>) \<and>
    unat (rd 0 div time_base c) + unat tim \<le> unat (rd j div time_base c) \<and> (\<forall>i. 0 < i \<and> i < j \<longrightarrow> unat (rd i div time_base c) < unat (rd 0 div time_base c) + unat tim)"
proof -
  let ?q = "\<lambda>i. rd i div time_base c" and ?over = "\<lambda>i. 0 < i \<and> unat (rd 0 div time_base c) + unat tim \<le> unat (rd i div time_base c)"
  define j where "j = (LEAST i. ?over i)"
  have j: "?over j" "j \<le> n" "\<And>i. i < j \<Longrightarrow> \<not> ?over i" unfolding j_def using assms(3,4) LeastI [of ?over n] Least_le [of ?over n] not_less_Least by blast+
  have up: "unat (?q 0) \<le> unat (?q i)" for i using assms(2) [of i] by (simp add: unat_div div_le_mono word_le_nat_alt)
  have lt: "?q i - ?q 0 < tim \<longleftrightarrow> unat (?q i) < unat (?q 0) + unat tim" for i
    using up [of i] by (simp add: word_less_nat_alt unat_sub word_le_nat_alt less_diff_conv2 add.commute)
  have early: "unat (?q i) < unat (?q 0) + unat tim" if "0 < i" "i < j" for i using j(3) [OF that(2)] that(1) by simp
  have "\<forall>m. 1 \<le> m \<and> m < j \<longrightarrow> ?q m - ?q 0 < tim" unfolding lt using early by simp
  moreover have "\<not> ?q j - ?q 0 < tim" unfolding lt using j(1) by simp
  ultimately have "latency_loop rd (?q 0) tim 1 (c\<lparr>time_elapsed := rd 0\<rparr>) = Some (Suc j, c\<lparr>time_elapsed := rd 0\<rparr>\<lparr>time_elapsed := rd j\<rparr>)"
    using assms(1) j(1) by (intro latency_loop_until) simp_all
  then have "latency rd tim c = Some (Suc j, c\<lparr>time_elapsed := rd j\<rparr>)" using assms(1) by (simp add: latency_def get_timer_simps)
  then show ?thesis using j(1,2) early by (intro exI [of _ j]) simp
qed

lemma latency_waits_witness:
  "latency (\<lambda>i. if i < 17 then 1000 else 1510) 5 \<lparr>time_elapsed = 0, time_base = 100, next_timer = 0\<rparr> = Some (18, \<lparr>time_elapsed = 1510, time_base = 100, next_timer = 0\<rparr>)"
proof -
  let ?rd = "\<lambda>i :: nat. if i < 17 then 1000 else 1510 :: u64" and ?c = "\<lparr>time_elapsed = 0, time_base = 100, next_timer = 0\<rparr>"
  have q: "(1000 :: u64) div 100 = 10" "(1510 :: u64) div 100 = 15" by code_simp+
  have "time_base ?c \<noteq> 0" "?rd 0 \<le> ?rd i" "(0 :: nat) < 17" "unat (?rd 0 div time_base ?c) + unat (5 :: u64) \<le> unat (?rd 17 div time_base ?c)" for i by (simp_all add: q)
  from latency_waits [OF this] obtain j where j: "j \<le> 17" "latency ?rd 5 ?c = Some (Suc j, ?c\<lparr>time_elapsed := ?rd j\<rparr>)" "unat (?rd 0 div 100) + unat (5 :: u64) \<le> unat (?rd j div 100)" by auto
  have "\<not> j < 17"
  proof
    assume "j < 17"
    then show False using j(3) by (simp add: q)
  qed
  then have "j = 17" using j(1) by simp
  then show ?thesis using j(2) by simp
qed

end
