(* ===== verification/Boot.thy ===== *)
theory Boot
  imports StartFiles Exec Cpu Net
begin

text \<open>
  Start-up: \<open>boot_kernel\<close> of \<open>page.cpp\<close>, \<open>main\<close> of \<open>main.cpp\<close> up to its idle loop, \<open>init_net\<close> of \<open>net.cpp\<close>, and one turn of the idle loop.

  The state has the parts that the other theories model. What start-up finds in its surroundings is a record of its own: the device tree, the time counter, the first sector of the card as the firmware has
  loaded it, the sectors of the card with the programs (the file system only writes sectors behind them, \<open>fs_writes_behind\<close>), and the addresses of the thread objects, their kernel stacks and the first file object; as in the other
  theories these objects are not taken from the heap of the model. \<open>init_locks\<close> is empty. The table that \<open>init_syscall\<close> fills is the constant of that name in the theory of the traps.
\<close>

section \<open>The code\<close>

datatype FDT_TYPE = TIMEBASE | SLCR_BADE_ADDR | ETHERNET_ADDR | PLIC_ADDR | NR_IRQS

record surroundings =
  fdt :: "FDT_TYPE \<Rightarrow> u64"
  counter :: u64
  boot_sector :: "u8 list"
  sectors :: disk
  thread_addr :: "nat \<Rightarrow> u64"
  thread_stack :: "nat \<Rightarrow> u64"
  file_addr :: u64
  stack_junk :: "u8 list"
  trap_entry :: u64

record board =
  exec_of :: exec_state
  loader_of :: loader
  files_of :: params
  screen_of :: screen
  nic_of :: nic
  plic_of :: plic
  io_base_va :: u64
  clock_of :: clock
  hart_of :: "nat \<Rightarrow> hart"
  satp_of :: "nat \<Rightarrow> u64"

definition init_net :: "surroundings \<Rightarrow> board \<Rightarrow> board" where
  "init_net e m =
     (let e1000 = fdt e ETHERNET_ADDR;
          plic_addr = fdt e PLIC_ADDR;
          nr_irqs = ucast (fdt e NR_IRQS) :: u32;
          (plic_addr, io, s) = ioremap plic_addr (0x4000 * 4096) (io_base_va m) (vmem (exec_of m));
          (e1000, io, s) = ioremap e1000 (8 * 4096) io s
      in m\<lparr>exec_of := (exec_of m)\<lparr>vmem := s\<rparr>, io_base_va := io, plic_of := plic_init plic_addr (unat nr_irqs) (plic_of m), nic_of := e1000_init (nic_of m)\<rparr>)"

text \<open>Static objects: zero where they have no initial value, and after the constructors have run. The console, the card, the memory, the timer and the registers are not static objects.\<close>

definition static_objects :: "board \<Rightarrow> board" where
  "static_objects m =
     (let x = exec_of m; c = calls (files_of m); n = nic_of m; p = plic_of m
      in m\<lparr>exec_of := x\<lparr>kern := (kern x)\<lparr>thread_table := [], process_table := [], process_global_lock := False, process_to_release := [], ready_queue := [], sleeping_queue := [], cpus := [], wqs := \<lambda>_. []\<rparr>, pdirs := []\<rparr>,
           files_of := \<lparr>fd_param = 0, calls = c\<lparr>filesys := (filesys c)\<lparr>policy_writethrough := True, policy_writeback_interval := 0, age := 0, cwd := 0\<rparr>, fpool := id_pool0, fobjs := kstate0\<rparr>\<rparr>,
           screen_of := (screen_of m)\<lparr>new_screen := replicate 4000 0, old_screen := replicate 4000 0, cursor_x := 0, cursor_y := 0\<rparr>,
           nic_of := n\<lparr>tx_pkt_buffer := replicate TXDESCS (replicate TX_PKT_SIZE 0), rx_pkt_buffer := replicate RXDESCS (replicate RX_PKT_SIZE 0)\<rparr>,
           plic_of := p\<lparr>plic_regs := 0, plic_present := False, hart_base := 0, enable_base := 0\<rparr>,
           io_base_va := IO_BASE_VA, clock_of := (clock_of m)\<lparr>time_elapsed := 0, time_base := 0\<rparr>\<rparr>)"

text \<open>\<open>init_processor\<close> with the page directory of the idle process.\<close>

definition start_processor :: "surroundings \<Rightarrow> nat \<Rightarrow> board \<Rightarrow> board option" where
  "start_processor e hart m = do {
     let x = exec_of m;
     (pds, s) \<leftarrow> (if hart = 0 then do { (pd, s) \<leftarrow> new_page_dir (vmem x); Some ([pd], s) } else Some ([], vmem x));
     let t = length (thread_table (kern x));
     k \<leftarrow> init_processor hart (thread_addr e t) (thread_stack e t) (kern x);
     Some (m\<lparr>exec_of := x\<lparr>kern := k, vmem := s, pdirs := pdirs x @ pds\<rparr>\<rparr>)
   }"

definition say :: "string \<Rightarrow> arg list \<Rightarrow> board \<Rightarrow> board option" where
  "say msg args m = do {
     (_, s) \<leftarrow> printk (map of_char msg @ [0x0a]) args (screen_of m);
     Some (m\<lparr>screen_of := s\<rparr>)
   }"

definition start_timer :: "surroundings \<Rightarrow> board \<Rightarrow> board" where
  "start_timer e m = m\<lparr>clock_of := init_timer (counter e) (fdt e TIMEBASE) (clock_of m)\<rparr>"

definition start_trap :: "surroundings \<Rightarrow> nat \<Rightarrow> board \<Rightarrow> board" where
  "start_trap e hart m = m\<lparr>hart_of := (hart_of m)(hart := init_trap (trap_entry e) (hart_of m hart))\<rparr>"

text \<open>The current directory is a field of the current process, which the file system reads and sets through \<open>cwd_node\<close>.\<close>

definition set_cwd_node :: "nat \<Rightarrow> u32 \<Rightarrow> kernel \<Rightarrow> kernel option" where
  "set_cwd_node c w k = do {
     p \<leftarrow> current_process c k;
     pr \<leftarrow> prc k p;
     Some (put_prc p (pr\<lparr>cwd_node_idx := w\<rparr>) k)
   }"

definition mount :: "nat \<Rightarrow> board \<Rightarrow> (bool \<times> board) option" where
  "mount c m = do {
     let c0 = calls (files_of m);
     (fnd, s) \<leftarrow> init_filesystem (filesys c0);
     k \<leftarrow> set_cwd_node c (cwd s) (kern (exec_of m));
     Some (fnd, m\<lparr>files_of := (files_of m)\<lparr>calls := c0\<lparr>filesys := s\<rparr>\<rparr>, exec_of := (exec_of m)\<lparr>kern := k\<rparr>\<rparr>)
   }"

definition load_parameters :: "surroundings \<Rightarrow> nat \<Rightarrow> board \<Rightarrow> board option" where
  "load_parameters e c m = do {
     p \<leftarrow> current_process c (kern (exec_of m));
     f \<leftarrow> init_parameters p (file_addr e) (stack_junk e) (files_of m);
     Some (m\<lparr>files_of := f\<rparr>)
   }"

definition exec_shell :: "surroundings \<Rightarrow> nat \<Rightarrow> board \<Rightarrow> board option" where
  "exec_shell e c m = do {
     let t = length (thread_table (kern (exec_of m)));
     (_, x) \<leftarrow> sys_exec (sectors e) (loader_of m) c ''shell'' [] (thread_addr e t) (thread_stack e t) (exec_of m);
     Some (m\<lparr>exec_of := x\<rparr>)
   }"

text \<open>\<open>main\<close> up to the idle loop. \<open>bios_send_ipi\<close> without a mask interrupts all harts.\<close>

definition wake_harts :: "board \<Rightarrow> board" where
  "wake_harts m = (let x = exec_of m in m\<lparr>exec_of := x\<lparr>kern := (kern x)\<lparr>ipis := ipis (kern x) @ [- 1]\<rparr>\<rparr>\<rparr>)"

definition kernel_main :: "surroundings \<Rightarrow> nat \<Rightarrow> board \<Rightarrow> board option" where
  "kernel_main e hart m =
     (if hart = 0 then do {
        h \<leftarrow> init_kernel_heap (heap_of (vmem (exec_of m)));
        let m = static_objects (m\<lparr>exec_of := (exec_of m)\<lparr>vmem := (vmem (exec_of m))\<lparr>heap_of := h\<rparr>\<rparr>\<rparr>);
        let m = m\<lparr>loader_of := init_task_info (boot_sector e) (sectors e)\<rparr>;
        m \<leftarrow> start_processor e hart m;
        m \<leftarrow> say ''> [INIT] PCB initialization succeeded.'' [] m;
        s \<leftarrow> init_screen (screen_of m);
        m \<leftarrow> say ''> [INIT] SCREEN initialization succeeded.'' [] (m\<lparr>screen_of := s\<rparr>);
        m \<leftarrow> say ''> [INIT] Timer initialization succeeded.'' [] (start_timer e m);
        m \<leftarrow> say ''> [INIT] Lock mechanism initialization succeeded.'' [] m;
        m \<leftarrow> say ''> [INIT] Trap processing initialization succeeded.'' [] (start_trap e hart m);
        m \<leftarrow> say ''> [INIT] System call initialized successfully.'' [] m;
        m \<leftarrow> say ''> [INIT] Network initialization succeeded.'' [] (init_net e m);
        (fnd, m) \<leftarrow> mount 0 m;
        m \<leftarrow> say (if fnd then ''> [INIT] File system found.'' else ''> [INIT] File system not found, creating a new one.'') [] m;
        m \<leftarrow> load_parameters e 0 m;
        m \<leftarrow> exec_shell e 0 m;
        Some (wake_harts m)
      }
      else do {
        let c = length (cpus (kern (exec_of m)));
        m \<leftarrow> start_processor e hart m;
        let m = start_trap e hart (start_timer e m);
        say ''> [INIT] Core %d, mhartid=%d initialization succeeded.'' [Reg (of_nat c), Reg (of_nat hart)] m
      })"

definition boot_kernel :: "surroundings \<Rightarrow> nat \<Rightarrow> board \<Rightarrow> board option" where
  "boot_kernel e hart m =
     (let m = (if hart = 0 then m\<lparr>exec_of := (exec_of m)\<lparr>vmem := setup_vm (vmem (exec_of m))\<rparr>\<rparr> else m);
          m = m\<lparr>satp_of := (satp_of m)(hart := set_satp 8 0 PGDIR_PA)\<rparr>
      in kernel_main e hart m)"

text \<open>One turn of the idle loop, up to the instruction that waits for an interrupt.\<close>

definition idle_turn :: "nat \<Rightarrow> board \<Rightarrow> board option" where
  "idle_turn hart m = do {
     let m = m\<lparr>hart_of := (hart_of m)(hart := disable_preempt (hart_of m hart))\<rparr>;
     k \<leftarrow> idle_cleanup (kern (exec_of m));
     Some (m\<lparr>exec_of := (exec_of m)\<lparr>kern := k\<rparr>, hart_of := (hart_of m)(hart := enable_preempt (hart_of m hart))\<rparr>)
   }"

section \<open>The screen, the devices and the card\<close>

text \<open>The cursor is at the beginning of row \<open>n\<close>.\<close>

definition at_row :: "nat \<Rightarrow> screen \<Rightarrow> bool" where
  "at_row n s \<longleftrightarrow> screen_ok s \<and> cursor_x s = 0 \<and> cursor_y s = int n"

definition one_line :: "string \<Rightarrow> bool" where
  "one_line msg \<longleftrightarrow> length msg < 80 \<and> list_all (\<lambda>c. c \<notin> set [0, 0x0a, 0x08, 0x7f, 0x25]) (map of_char msg :: u8 list)"

lemma say_ok:
  assumes "at_row n (screen_of m)" "n < 50" "one_line msg"
  obtains s where "say msg [] m = Some (m\<lparr>screen_of := s\<rparr>)" "at_row (Suc n) s"
proof -
  have a: "screen_ok (screen_of m)" "cursor_x (screen_of m) = 0" "cursor_y (screen_of m) < 50" "plain (map of_char msg)" "0x25 \<notin> set (map of_char msg :: u8 list)" "length (map of_char msg :: u8 list) < 80"
    using assms by (auto simp: at_row_def one_line_def plain_def list_all_iff)
  obtain k s where "printk (map of_char msg @ [0x0a]) [] (screen_of m) = Some (k, s)" "screen_ok s" "cursor_x s = 0" "cursor_y s = cursor_y (screen_of m) + 1"
    by (rule printk_line [OF a(1,4,5,2,3,6)])
  with that [of s] assms(1) show thesis by (simp add: say_def at_row_def)
qed

text \<open>The two devices take at most 35 entries of the table for device memory.\<close>

lemma remap_counts:
  fixes p :: u64
  defines "c \<equiv> (\<lambda>sz :: u64. (sz + p mod 0x200000) div 0x200000 + (if (sz + p mod 0x200000) mod 0x200000 \<noteq> 0 then 1 else 0))"
  shows "c (0x4000 * 4096) = 32 \<or> c (0x4000 * 4096) = 33" "unat (c (8 * 4096)) \<le> 2"
proof -
  have m: "unat (p mod 0x200000) < 0x200000" by (simp add: unat_mod)
  have a: "unat (0x4000000 + p mod 0x200000) = 0x4000000 + unat (p mod 0x200000)" "unat (0x8000 + p mod 0x200000) = 0x8000 + unat (p mod 0x200000)"
    using m by (simp_all add: unat_word_ariths)
  have "unat ((0x4000000 + p mod 0x200000) div 0x200000) = 32" using m by (simp add: unat_div a)
  then have "(0x4000000 + p mod 0x200000) div 0x200000 = 32" by (simp add: word_unat_eq_iff)
  then show "c (0x4000 * 4096) = 32 \<or> c (0x4000 * 4096) = 33" by (simp add: c_def)
  have "unat ((0x8000 + p mod 0x200000) div 0x200000) \<le> 1" using m by (simp add: unat_div a)
  then show "unat (c (8 * 4096)) \<le> 2" by (simp add: c_def unat_word_ariths)
qed

lemma init_net_ok:
  assumes i: "iso P Q (vmem (exec_of m))" and io: "io_base_va m = IO_BASE_VA"
  obtains s io' pl ni where "init_net e m = m\<lparr>exec_of := (exec_of m)\<lparr>vmem := s\<rparr>, io_base_va := io', plic_of := pl, nic_of := ni\<rparr>" "iso P Q s" "heap_of s = heap_of (vmem (exec_of m))"
proof -
  obtain va1 io1 s1 where r1: "ioremap (fdt e PLIC_ADDR) (0x4000 * 4096) IO_BASE_VA (vmem (exec_of m)) = (va1, io1, s1)" by (cases "ioremap (fdt e PLIC_ADDR) (0x4000 * 4096) IO_BASE_VA (vmem (exec_of m))")
  obtain va2 io2 s2 where r2: "ioremap (fdt e ETHERNET_ADDR) (8 * 4096) io1 s1 = (va2, io2, s2)" by (cases "ioremap (fdt e ETHERNET_ADDR) (8 * 4096) io1 s1")
  note n1 = remap_counts(1) [of "fdt e PLIC_ADDR"] and n2 = remap_counts(2) [of "fdt e ETHERNET_ADDR"]
  have v: "get_vpn IO_BASE_VA 1 = 0" "get_vpn (IO_BASE_VA + 32 * 0x200000) 1 = 32" "get_vpn (IO_BASE_VA + 33 * 0x200000) 1 = 33" by code_simp+
  let ?p = "fdt e PLIC_ADDR mod 0x200000"
  have io1: "io1 = IO_BASE_VA + ((0x4000 * 4096 + ?p) div 0x200000 + (if (0x4000 * 4096 + ?p) mod 0x200000 \<noteq> 0 then 1 else 0)) * 0x200000" using r1 by (simp only: ioremap_def Let_def prod.inject)
  from n1 have "io1 = IO_BASE_VA + 32 * 0x200000 \<or> io1 = IO_BASE_VA + 33 * 0x200000" unfolding io1 by (elim disjE) (simp_all only: simp_thms)
  then have v1: "unat (get_vpn io1 1) \<le> 33" using v(2,3) by auto
  have b1: "unat (get_vpn IO_BASE_VA 1) + unat ((0x4000 * 4096 + ?p) div 0x200000 + (if (0x4000 * 4096 + ?p) mod 0x200000 \<noteq> 0 then 1 else 0)) \<le> 512"
    using n1 unfolding v(1) by (elim disjE) (simp_all only: unat_numeral unat_0, simp_all)
  note i1 = ioremap_iso [OF i r1 b1]
  have "unat (get_vpn io1 1) + unat ((8 * 4096 + fdt e ETHERNET_ADDR mod 0x200000) div 0x200000 + (if (8 * 4096 + fdt e ETHERNET_ADDR mod 0x200000) mod 0x200000 \<noteq> 0 then 1 else 0)) \<le> 512"
    using n2 v1 by linarith
  note i2 = ioremap_iso [OF i1(1) r2 this]
  have "init_net e m = m\<lparr>exec_of := (exec_of m)\<lparr>vmem := s2\<rparr>, io_base_va := io2, plic_of := plic_init va1 (unat (ucast (fdt e NR_IRQS) :: u32)) (plic_of m), nic_of := e1000_init (nic_of m)\<rparr>"
    using r1 r2 by (simp add: init_net_def io Let_def)
  from that [OF this i2(1)] i1(2) i2(2) show thesis by simp
qed

text \<open>The sectors before the file system, where the programs are, are never written.\<close>

lemma fs_writes_behind:
  assumes "write_block_direct i b s = Some s'" "valid_block b" "n < BLOCK_START div SECTOR_SIZE"
  shows "sd s' n = sd s n"
proof -
  have "unat (block_sector b) = 262144 + 8 * unat b" using valid_blockD [OF assms(2)] by (simp add: block_sector_def fs_consts unat_word_ariths)
  then show ?thesis using assms(1,3) by (auto simp: write_block_direct_def bios_sd_write_def fs_consts Let_def)
qed

section \<open>The first scheduling\<close>

text \<open>Two threads, the idle thread on the CPU and a ready one: the ready one gets the CPU.\<close>

lemma first_schedule:
  assumes "thread_table k = [Some t0, Some t1]" "process_table k = [p0, Some p1]" "ready_queue k = [1]" "sleeping_queue k = []" "wqs k = (\<lambda>_. [])"
    "cpus k = [\<lparr>current_thread = 0, idle_thread = 0, hartid = h, satp = 0\<rparr>]" "th_process t0 = 0" "th_process t1 = 1" "cpu_mask p1 = - 1"
    "\<not> status_exited t0" "status_block_cnt t0 = 0" "\<not> status_running t0" "\<not> status_exited t1" "status_block_cnt t1 = 0" "\<not> status_running t1"
  obtains k' where "do_scheduler 0 None k = Some k'" "sched_inv k'" "cpus k' = [\<lparr>current_thread = 1, idle_thread = 0, hartid = h, satp = 1\<rparr>]" "ready_queue k' = []"
    "thr k' 1 = Some (t1\<lparr>running_cpu := Some 0, status_running := True\<rparr>)" "process_table k' = process_table k"
proof -
  define k' where "k' = k\<lparr>thread_table := [Some (t0\<lparr>running_cpu := None, status_running := False\<rparr>), Some (t1\<lparr>running_cpu := Some 0, status_running := True\<rparr>)],
    ready_queue := [], cpus := [\<lparr>current_thread = 1, idle_thread = 0, hartid = h, satp = 1\<rparr>]\<rparr>"
  have b: "cpu_bit 0 = Some 1" by (simp add: cpu_bit_def)
  have d: "do_scheduler 0 None k = Some k'"
    using assms by (simp add: do_scheduler_def cpu_at_def thr_def put_thr_def check_sleeping_def status_def allowed_def prc_def switch_to_def k'_def b)
  have rq: "ready_queue k' = []" by (simp add: k'_def)
  have cs: "cpus k' = [\<lparr>current_thread = 1, idle_thread = 0, hartid = h, satp = 1\<rparr>]" by (simp add: k'_def)
  have C: "cur k' = [0 \<mapsto> 1]" by (rule ext) (simp add: cur_def cpu_at_def k'_def)
  have q: "qs k' p = []" for p using assms(4,5) by (simp add: qs_def sleepers_def k'_def split: option.split)
  have w: "\<not> waiting k' t" for t by (simp add: waiting_def q)
  have i: "idle k' t \<longleftrightarrow> t = 0" for t by (auto simp: idle_def k'_def)
  have th: "thr k' t = Some th \<longleftrightarrow> t = 0 \<and> th = t0\<lparr>running_cpu := None, status_running := False\<rparr> \<or> t = 1 \<and> th = t1\<lparr>running_cpu := Some 0, status_running := True\<rparr>" for t th
    by (auto simp: thr_def k'_def less_Suc_eq numeral_2_eq_2)
  have "thread_ok (cur k') {} k' t th" if "thr k' t = Some th" for t th
    using that assms(10-15) unfolding th thread_ok_def C i by (auto simp: w rq)
  moreover have "cpus_ok (cur k') k'" unfolding C cpus_ok_def cs by (auto simp: inj_on_def)
  moreover have "t = 0 \<or> t = 1 \<Longrightarrow> thr k' t \<noteq> None" for t by (auto simp: thr_def k'_def)
  ultimately have "places (cur k') {} k'" unfolding places_def by (auto simp: queues_ok_def disjoint_lists_def q w i C rq)
  moreover have "satp_ok k'" using assms(8) by (auto simp: satp_ok_def k'_def thr_def)
  ultimately have "sched_inv k'" by (simp add: sched_inv_def)
  with that [OF d] show thesis by (simp add: k'_def thr_def)
qed

section \<open>The steps of start-up\<close>

text \<open>The idle thread and the idle process, and the state while \<open>main\<close> runs: only they exist, the address spaces are in order, and the cursor is at row \<open>n\<close>.\<close>

definition idle_obj :: "surroundings \<Rightarrow> thread" where
  "idle_obj e = \<lparr>th_process = 0, th_addr = thread_addr e 0, trank = 0, running_cpu = None, status_block_cnt = 0, status_exited = False, status_running = False,
     regs = (replicate 31 0)[16 := 0], sepc = 0, kernel_stack_top = 0\<rparr>"

definition idle_proc :: "u32 \<Rightarrow> process" where
  "idle_proc w = \<lparr>name = ''kernel-idle'', parent = None, children = [], threads = [0], cpu_mask = - 1, active_thread_cnt = 1, cwd_node_idx = w, is_killed = False, process_own_lock = False\<rparr>"

definition booting :: "surroundings \<Rightarrow> u64 \<Rightarrow> u32 \<Rightarrow> exec_state \<Rightarrow> bool" where
  "booting e r w x \<longleftrightarrow> thread_table (kern x) = [Some (idle_obj e)] \<and> process_table (kern x) = [Some (idle_proc w)] \<and> \<not> process_global_lock (kern x) \<and> ready_queue (kern x) = [] \<and> sleeping_queue (kern x) = [] \<and>
     wqs (kern x) = (\<lambda>_. []) \<and> cpus (kern x) = [\<lparr>current_thread = 0, idle_thread = 0, hartid = 0, satp = 0\<rparr>] \<and> length (pdirs x) = 1 \<and> iso {} {r} (vmem x) \<and> roomy 1300 (heap_of (vmem x))"

lemma bootingD:
  assumes "booting e r w x"
  shows "current_process 0 (kern x) = Some 0" "prc (kern x) 0 = Some (idle_proc w)" "length (pdirs x) = length (process_table (kern x))" "\<not> process_global_lock (kern x)" "iso {} {r} (vmem x)" "roomy 1300 (heap_of (vmem x))"
  using assms by (simp_all add: booting_def current_process_def cpu_at_def thr_def prc_def idle_obj_def)

lemma setup_vm_heap: "setup_vm s\<lparr>heap_of := h\<rparr> = setup_vm \<lparr>heap_of = h, pmem = pmem s\<rparr>"
  by (cases s) (simp add: setup_vm_def clear_page_def put_entry_def Let_def cong: if_cong)

lemma processor_started:
  assumes k: "thread_table (kern x) = []" "process_table (kern x) = []" "\<not> process_global_lock (kern x)" "ready_queue (kern x) = []" "sleeping_queue (kern x) = []" "cpus (kern x) = []" "wqs (kern x) = (\<lambda>_. [])"
    and m: "pdirs x = []" "vmem x = setup_vm s\<lparr>heap_of := h\<rparr>" and h: "heap_inv h" "heap_blocks h = {}" and x: "exec_of m = x"
  obtains r x' where "start_processor e 0 m = Some (m\<lparr>exec_of := x'\<rparr>)" "booting e r 0 x'"
proof -
  have "pool_blocks 16 (kpage h) = insert reserved ((\<lambda>off. (off, 0)) ` {})" using heap_blocks_emptyD(4) [OF h] by simp
  then have "roomy (Suc 1300) h" unfolding roomy_def using h(1) by (intro conjI exI [of _ "{}"]) simp_all
  then obtain r h1 where r: "kalloc h 4096 = Some (r, h1)" "roomy 1300 h1" using roomy_alloc [of 1300 h] by blast
  let ?s = "setup_vm s\<lparr>heap_of := h\<rparr>"
  have n: "new_page_dir ?s = Some (dir0 r, set_kernel_vm r (?s\<lparr>heap_of := h1\<rparr>))" using r(1) by (simp add: new_page_dir_def dir0_def)
  have i: "iso {} {} ?s" unfolding setup_vm_heap by (rule setup_vm_ok [OF h(1)])
  have i1: "iso {} {r} (set_kernel_vm r (?s\<lparr>heap_of := h1\<rparr>))" using iso_create(1) [OF i n] by (simp add: dir0_def)
  have h1: "heap_of (set_kernel_vm r (?s\<lparr>heap_of := h1\<rparr>)) = h1" by (simp add: set_kernel_vm_def put_entry_def copy_page_def clear_page_def Let_def)
  let ?k = "(kern x)\<lparr>thread_table := [Some (idle_obj e)], process_table := [Some (idle_proc 0)], cpus := [\<lparr>current_thread = 0, idle_thread = 0, hartid = 0, satp = 0\<rparr>]\<rparr>"
  let ?x = "x\<lparr>kern := ?k, vmem := set_kernel_vm r (?s\<lparr>heap_of := h1\<rparr>), pdirs := [dir0 r]\<rparr>"
  have "init_processor 0 (thread_addr e 0) (thread_stack e 0) (kern x) = Some ?k"
    using k by (simp add: init_processor_def new_process_def create_thread_def new_thread_def prc_def put_prc_def thr_def put_thr_def idle_obj_def idle_proc_def)
  then have st: "start_processor e 0 m = Some (m\<lparr>exec_of := ?x\<rparr>)" using n m k(1) by (simp add: start_processor_def x)
  have "booting e r 0 ?x" using i1 r(2) h1 k by (simp add: booting_def)
  from that [OF st this] show thesis .
qed

lemma mounted:
  assumes "booting e r 0 (exec_of m)" "init_filesystem (filesys (calls (files_of m))) = Some (fnd, s)"
  obtains x where "mount 0 m = Some (fnd, m\<lparr>files_of := (files_of m)\<lparr>calls := (calls (files_of m))\<lparr>filesys := s\<rparr>\<rparr>, exec_of := x\<rparr>)" "booting e r (cwd s) x"
proof -
  let ?x = "exec_of m"
  define x where "x = ?x\<lparr>kern := put_prc 0 (idle_proc (cwd s)) (kern ?x)\<rparr>"
  have "set_cwd_node 0 (cwd s) (kern ?x) = Some (kern x)" using bootingD(1,2) [OF assms(1)] by (simp add: set_cwd_node_def x_def idle_proc_def)
  then have "mount 0 m = Some (fnd, m\<lparr>files_of := (files_of m)\<lparr>calls := (calls (files_of m))\<lparr>filesys := s\<rparr>\<rparr>, exec_of := x\<rparr>)" using assms(2) by (simp add: mount_def x_def)
  moreover have "booting e r (cwd s) x" using assms(1) by (simp add: booting_def x_def put_prc_def)
  ultimately show thesis by (rule that)
qed

text \<open>The shell as a second process, with its first thread ready.\<close>

lemma shell_execed:
  assumes x: "booting e r w x" and tab: "find_task_idx_by_name l (map of_char ''shell'') = Some (int j)" "int j < sint (task_num l)" "j < 16" "field (32 * j + 12) 4 (tasks l) = b" "field (32 * j + 8) 4 (tasks l) = f" "b < 2048" "f < 2 ^ 31"
  obtains x' th pr r' where "sys_exec disk l 0 ''shell'' [] addr stack x = Some (1, x')" "thread_table (kern x') = [Some (idle_obj e), Some th]" "process_table (kern x') = [Some ((idle_proc w)\<lparr>children := [1]\<rparr>), Some pr]"
    "ready_queue (kern x') = [1]" "sleeping_queue (kern x') = []" "wqs (kern x') = (\<lambda>_. [])" "cpus (kern x') = [\<lparr>current_thread = 0, idle_thread = 0, hartid = 0, satp = 0\<rparr>]"
    "th_process th = 1" "\<not> status_exited th" "status_block_cnt th = 0" "\<not> status_running th" "sepc th = USER_ENTRYPOINT" "regs th ! 9 = 0"
    "name pr = ''shell''" "cpu_mask pr = - 1" "cwd_node_idx pr = w" "parent pr = Some 0" "root (pdirs x' ! 1) = r'" "iso {} {r', r} (vmem x')"
    "\<forall>v < 512 * b. user_byte r' (vmem x') (ram x') (0x200000 + v) = Some (disk (f + v div 512) (v mod 512))"
proof -
  note d = bootingD [OF x]
  have lk: "\<not> process_own_lock (idle_proc w)" by (simp add: idle_proc_def)
  have as: "args_size [] \<le> 4096" by (simp add: args_size_def)
  obtain p t x' k1 k2 th0 th r' where o: "sys_exec disk l 0 ''shell'' [] addr stack x = Some (p, x')" "p = length (process_table (kern x))" "t = length (thread_table (kern x))" "root (pdirs x' ! p) = r'"
    "new_process (Some 0) ''shell'' (kern x) = Some (p, k1)" "create_thread p addr stack k1 = Some (t, k2)" "thr k2 t = Some th0"
    "th = th0\<lparr>sepc := USER_ENTRYPOINT, regs := (regs th0)[9 := of_nat (length ([] :: u8 list list)), 10 := ARGV_VA]\<rparr>" "kern x' = add_ready_thread t (put_thr t th k2)" "iso {} (insert r' {r}) (vmem x')"
    "\<forall>v < 512 * b. user_byte r' (vmem x') (ram x') (0x200000 + v) = Some (disk (f + v div 512) (v mod 512))"
    by (rule exec_ok [OF tab d(5,6,1,2) lk d(4,3) as, of disk addr stack])
  have b: "thread_table (kern x) = [Some (idle_obj e)]" "process_table (kern x) = [Some (idle_proc w)]" "\<not> process_global_lock (kern x)" "ready_queue (kern x) = []" "sleeping_queue (kern x) = []" "wqs (kern x) = (\<lambda>_. [])"
    "cpus (kern x) = [\<lparr>current_thread = 0, idle_thread = 0, hartid = 0, satp = 0\<rparr>]" using x by (simp_all add: booting_def)
  have pt: "p = 1" "t = 1" using o(2,3) b(1,2) by simp_all
  have k1: "k1 = (kern x)\<lparr>process_table := [Some ((idle_proc w)\<lparr>children := [1]\<rparr>), Some \<lparr>name = ''shell'', parent = Some 0, children = [], threads = [], cpu_mask = - 1, active_thread_cnt = 0, cwd_node_idx = w, is_killed = False,
      process_own_lock = False\<rparr>]\<rparr>" using o(5) b(2,3) by (simp add: pt new_process_def prc_def put_prc_def idle_proc_def)
  define pr where "pr = \<lparr>name = ''shell'', parent = Some 0, children = [], threads = [1], cpu_mask = - 1 :: u64, active_thread_cnt = 1 :: u64, cwd_node_idx = w, is_killed = False, process_own_lock = False\<rparr>"
  have k2: "k2 = (kern x)\<lparr>thread_table := [Some (idle_obj e), Some th0], process_table := [Some ((idle_proc w)\<lparr>children := [1]\<rparr>), Some pr]\<rparr>"
    and th0: "th_process th0 = 1" "\<not> status_exited th0" "status_block_cnt th0 = 0" "\<not> status_running th0" "length (regs th0) = 31"
    using o(6,7) b(1) by (auto simp: pt k1 create_thread_def new_thread_def prc_def put_prc_def thr_def pr_def Let_def)
  have kx: "kern x' = (kern x)\<lparr>thread_table := [Some (idle_obj e), Some th], process_table := [Some ((idle_proc w)\<lparr>children := [1]\<rparr>), Some pr], ready_queue := [1]\<rparr>"
    unfolding o(9) k2 pt by (simp add: add_ready_thread_def put_thr_def b(4))
  show thesis
    by (rule that [of x' th pr r', OF o(1) [unfolded pt(1)]]) (use o(4,8,10,11) b(5-7) th0 in \<open>simp_all add: kx pt pr_def\<close>)
qed

text \<open>Everything that \<open>main\<close> says is one line.\<close>

lemma messages:
  "one_line ''> [INIT] PCB initialization succeeded.''" "one_line ''> [INIT] SCREEN initialization succeeded.''" "one_line ''> [INIT] Timer initialization succeeded.''"
  "one_line ''> [INIT] Lock mechanism initialization succeeded.''" "one_line ''> [INIT] Trap processing initialization succeeded.''" "one_line ''> [INIT] System call initialized successfully.''"
  "one_line ''> [INIT] Network initialization succeeded.''" "one_line (if fnd then ''> [INIT] File system found.'' else ''> [INIT] File system not found, creating a new one.'')"
proof -
  show "one_line (if fnd then ''> [INIT] File system found.'' else ''> [INIT] File system not found, creating a new one.'')" by (cases fnd) (simp_all only: if_True if_False, code_simp+)
qed code_simp+

text \<open>
  \<open>main\<close> on the first hart, in two halves: up to the file system, which leaves the files and the programs alone, and from there on.
\<close>

definition early_main :: "surroundings \<Rightarrow> board \<Rightarrow> board option" where
  "early_main e m = do {
     h \<leftarrow> init_kernel_heap (heap_of (vmem (exec_of m)));
     let m = static_objects (m\<lparr>exec_of := (exec_of m)\<lparr>vmem := (vmem (exec_of m))\<lparr>heap_of := h\<rparr>\<rparr>\<rparr>);
     let m = m\<lparr>loader_of := init_task_info (boot_sector e) (sectors e)\<rparr>;
     m \<leftarrow> start_processor e 0 m;
     m \<leftarrow> say ''> [INIT] PCB initialization succeeded.'' [] m;
     s \<leftarrow> init_screen (screen_of m);
     m \<leftarrow> say ''> [INIT] SCREEN initialization succeeded.'' [] (m\<lparr>screen_of := s\<rparr>);
     m \<leftarrow> say ''> [INIT] Timer initialization succeeded.'' [] (start_timer e m);
     m \<leftarrow> say ''> [INIT] Lock mechanism initialization succeeded.'' [] m;
     m \<leftarrow> say ''> [INIT] Trap processing initialization succeeded.'' [] (start_trap e 0 m);
     m \<leftarrow> say ''> [INIT] System call initialized successfully.'' [] m;
     say ''> [INIT] Network initialization succeeded.'' [] (init_net e m)
   }"

definition late_main :: "surroundings \<Rightarrow> board \<Rightarrow> board option" where
  "late_main e m = do {
     (fnd, m) \<leftarrow> mount 0 m;
     m \<leftarrow> say (if fnd then ''> [INIT] File system found.'' else ''> [INIT] File system not found, creating a new one.'') [] m;
     m \<leftarrow> load_parameters e 0 m;
     m \<leftarrow> exec_shell e 0 m;
     Some (wake_harts m)
   }"

lemma kernel_main_halves: "kernel_main e 0 m = early_main e m \<bind> late_main e"
  by (simp add: kernel_main_def early_main_def late_main_def [abs_def] Let_def)

lemma early_main_ok:
  assumes "vmem (exec_of m) = setup_vm s"
  obtains r m' where "early_main e m = Some m'" "booting e r 0 (exec_of m')" "at_row 6 (screen_of m')" "loader_of m' = init_task_info (boot_sector e) (sectors e)"
    "files_of m' = files_of (static_objects m)" "satp_of m' = satp_of m" "\<not> preemptible (hart_of m' 0)" "time_base (clock_of m') = fdt e TIMEBASE"
proof -
  obtain h where h: "init_kernel_heap (heap_of (setup_vm s)) = Some h" "heap_inv h" "heap_blocks h = {}" by (rule init_kernel_heap_ok)
  define m1 where "m1 = (static_objects (m\<lparr>exec_of := (exec_of m)\<lparr>vmem := setup_vm s\<lparr>heap_of := h\<rparr>\<rparr>\<rparr>))\<lparr>loader_of := init_task_info (boot_sector e) (sectors e)\<rparr>"
  have k: "thread_table (kern (exec_of m1)) = []" "process_table (kern (exec_of m1)) = []" "\<not> process_global_lock (kern (exec_of m1))" "ready_queue (kern (exec_of m1)) = []" "sleeping_queue (kern (exec_of m1)) = []"
    "cpus (kern (exec_of m1)) = []" "wqs (kern (exec_of m1)) = (\<lambda>_. [])" "pdirs (exec_of m1) = []" "vmem (exec_of m1) = setup_vm s\<lparr>heap_of := h\<rparr>" "files_of m1 = files_of (static_objects m)" "satp_of m1 = satp_of m"
    "loader_of m1 = init_task_info (boot_sector e) (sectors e)" "io_base_va m1 = IO_BASE_VA" "at_row 0 (screen_of m1)"
    by (simp_all add: m1_def static_objects_def Let_def at_row_def screen_ok_def)
  obtain r x where p: "start_processor e 0 m1 = Some (m1\<lparr>exec_of := x\<rparr>)" "booting e r 0 x" by (rule processor_started [OF k(1-9) h(2,3) refl])
  let ?m2 = "m1\<lparr>exec_of := x\<rparr>"
  have a0: "at_row 0 (screen_of ?m2)" using k(14) by simp
  obtain s1 where s1: "say ''> [INIT] PCB initialization succeeded.'' [] ?m2 = Some (?m2\<lparr>screen_of := s1\<rparr>)" "at_row (Suc 0) s1" by (rule say_ok [OF a0 _ messages(1)]) simp
  obtain s2 where s2: "init_screen s1 = Some s2" "at_row 0 s2" by (rule init_screen_ok [of s1]) (use s1(2) in \<open>simp_all add: at_row_def\<close>)
  let ?m3 = "?m2\<lparr>screen_of := s2\<rparr>"
  have a1: "at_row 0 (screen_of ?m3)" using s2(2) by simp
  obtain s3 where s3: "say ''> [INIT] SCREEN initialization succeeded.'' [] ?m3 = Some (?m3\<lparr>screen_of := s3\<rparr>)" "at_row (Suc 0) s3" by (rule say_ok [OF a1 _ messages(2)]) simp
  let ?m4 = "start_timer e (?m3\<lparr>screen_of := s3\<rparr>)"
  have a2: "at_row (Suc 0) (screen_of ?m4)" using s3(2) by (simp add: start_timer_def)
  obtain s4 where s4: "say ''> [INIT] Timer initialization succeeded.'' [] ?m4 = Some (?m4\<lparr>screen_of := s4\<rparr>)" "at_row (Suc (Suc 0)) s4" by (rule say_ok [OF a2 _ messages(3)]) simp
  let ?m5 = "?m4\<lparr>screen_of := s4\<rparr>"
  have a3: "at_row (Suc (Suc 0)) (screen_of ?m5)" using s4(2) by simp
  obtain s5 where s5: "say ''> [INIT] Lock mechanism initialization succeeded.'' [] ?m5 = Some (?m5\<lparr>screen_of := s5\<rparr>)" "at_row (Suc (Suc (Suc 0))) s5" by (rule say_ok [OF a3 _ messages(4)]) simp
  let ?m6 = "start_trap e 0 (?m5\<lparr>screen_of := s5\<rparr>)"
  have a4: "at_row (Suc (Suc (Suc 0))) (screen_of ?m6)" using s5(2) by (simp add: start_trap_def)
  obtain s6 where s6: "say ''> [INIT] Trap processing initialization succeeded.'' [] ?m6 = Some (?m6\<lparr>screen_of := s6\<rparr>)" "at_row (Suc (Suc (Suc (Suc 0)))) s6" by (rule say_ok [OF a4 _ messages(5)]) simp
  let ?m7 = "?m6\<lparr>screen_of := s6\<rparr>"
  have a5: "at_row (Suc (Suc (Suc (Suc 0)))) (screen_of ?m7)" using s6(2) by simp
  obtain s7 where s7: "say ''> [INIT] System call initialized successfully.'' [] ?m7 = Some (?m7\<lparr>screen_of := s7\<rparr>)" "at_row (Suc (Suc (Suc (Suc (Suc 0))))) s7" by (rule say_ok [OF a5 _ messages(6)]) simp
  let ?m8 = "?m7\<lparr>screen_of := s7\<rparr>"
  have e8: "exec_of ?m8 = x" "io_base_va ?m8 = IO_BASE_VA" using k(13) by (simp_all add: start_timer_def start_trap_def)
  have i8: "iso {} {r} (vmem (exec_of ?m8))" unfolding e8(1) by (rule bootingD(5) [OF p(2)])
  obtain vs io pl ni where n: "init_net e ?m8 = ?m8\<lparr>exec_of := (exec_of ?m8)\<lparr>vmem := vs\<rparr>, io_base_va := io, plic_of := pl, nic_of := ni\<rparr>" "iso {} {r} vs" "heap_of vs = heap_of (vmem (exec_of ?m8))"
    by (rule init_net_ok [OF i8 e8(2)])
  have a6: "at_row (Suc (Suc (Suc (Suc (Suc 0))))) (screen_of (init_net e ?m8))" unfolding n(1) using s7(2) by simp
  obtain s8 where s8: "say ''> [INIT] Network initialization succeeded.'' [] (init_net e ?m8) = Some ((init_net e ?m8)\<lparr>screen_of := s8\<rparr>)" "at_row (Suc (Suc (Suc (Suc (Suc (Suc 0)))))) s8" by (rule say_ok [OF a6 _ messages(7)]) simp
  have res: "early_main e m = Some ((init_net e ?m8)\<lparr>screen_of := s8\<rparr>)"
    unfolding early_main_def using h(1) p(1) s1(1) s2(1) s3(1) s4(1) s5(1) s6(1) s7(1) s8(1) assms by (simp add: m1_def Let_def)
  have "booting e r 0 (x\<lparr>vmem := vs\<rparr>)" using p(2) n(2,3) e8(1) by (simp add: booting_def)
  then have "booting e r 0 (exec_of (init_net e ?m8))" unfolding n(1) by (simp add: start_timer_def start_trap_def)
  moreover have "loader_of (init_net e ?m8) = loader_of m1" "files_of (init_net e ?m8) = files_of m1" "satp_of (init_net e ?m8) = satp_of m1" "\<not> preemptible (hart_of (init_net e ?m8) 0)" "time_base (clock_of (init_net e ?m8)) = fdt e TIMEBASE"
    unfolding n(1) by (simp_all add: start_timer_def start_trap_def init_timer_def get_ticks_def Let_def)
  ultimately show thesis using that [OF res] s8(2) k(10-12) by (simp add: eval_nat_numeral)
qed

lemma late_main_ok:
  assumes m: "booting e r 0 (exec_of m)" "at_row 6 (screen_of m)" and f: "start_files 0 (file_addr e) (stack_junk e) (files_of m) = Some (fnd, f')" "cwd (filesys (calls f')) = w" "\<And>s. init_filesystem (filesys (calls (files_of m))) = Some (fnd, s) \<Longrightarrow> cwd s = w"
    and tab: "find_task_idx_by_name (loader_of m) (map of_char ''shell'') = Some (int j)" "int j < sint (task_num (loader_of m))" "j < 16" "field (32 * j + 12) 4 (tasks (loader_of m)) = b" "field (32 * j + 8) 4 (tasks (loader_of m)) = f"
      "b < 2048" "f < 2 ^ 31"
  obtains m' th pr r' where "late_main e m = Some m'" "files_of m' = f'" "at_row 7 (screen_of m')" "satp_of m' = satp_of m" "hart_of m' = hart_of m" "clock_of m' = clock_of m"
    "thread_table (kern (exec_of m')) = [Some (idle_obj e), Some th]" "process_table (kern (exec_of m')) = [Some ((idle_proc w)\<lparr>children := [1]\<rparr>), Some pr]" "ready_queue (kern (exec_of m')) = [1]" "sleeping_queue (kern (exec_of m')) = []"
    "wqs (kern (exec_of m')) = (\<lambda>_. [])" "cpus (kern (exec_of m')) = [\<lparr>current_thread = 0, idle_thread = 0, hartid = 0, satp = 0\<rparr>]"
    "th_process th = 1" "\<not> status_exited th" "status_block_cnt th = 0" "\<not> status_running th" "sepc th = USER_ENTRYPOINT" "regs th ! 9 = 0" "name pr = ''shell''" "cpu_mask pr = - 1" "cwd_node_idx pr = w"
    "root (pdirs (exec_of m') ! 1) = r'" "iso {} {r', r} (vmem (exec_of m'))"
    "\<forall>v < 512 * b. user_byte r' (vmem (exec_of m')) (ram (exec_of m')) (0x200000 + v) = Some (sectors e (f + v div 512) (v mod 512))"
proof -
  let ?f = "files_of m"
  obtain s where s: "init_filesystem (filesys (calls ?f)) = Some (fnd, s)" "init_parameters 0 (file_addr e) (stack_junk e) (?f\<lparr>calls := (calls ?f)\<lparr>filesys := s\<rparr>\<rparr>) = Some f'"
    using f(1) by (auto simp: start_files_def elim!: bind_SomeE)
  have cw: "cwd s = w" by (rule f(3) [OF s(1)])
  obtain x where x: "mount 0 m = Some (fnd, m\<lparr>files_of := ?f\<lparr>calls := (calls ?f)\<lparr>filesys := s\<rparr>\<rparr>, exec_of := x\<rparr>)" "booting e r (cwd s) x" by (rule mounted [OF m(1) s(1)])
  let ?m1 = "m\<lparr>files_of := ?f\<lparr>calls := (calls ?f)\<lparr>filesys := s\<rparr>\<rparr>, exec_of := x\<rparr>"
  have a: "at_row 6 (screen_of ?m1)" using m(2) by simp
  obtain sc where sc: "say (if fnd then ''> [INIT] File system found.'' else ''> [INIT] File system not found, creating a new one.'') [] ?m1 = Some (?m1\<lparr>screen_of := sc\<rparr>)" "at_row (Suc 6) sc"
    by (rule say_ok [OF a _ messages(8)]) simp
  let ?m2 = "?m1\<lparr>screen_of := sc\<rparr>"
  have lp: "load_parameters e 0 ?m2 = Some (?m2\<lparr>files_of := f'\<rparr>)" using bootingD(1) [OF x(2)] s(2) by (simp add: load_parameters_def)
  obtain x' th pr r' where o: "sys_exec (sectors e) (loader_of m) 0 ''shell'' [] (thread_addr e 1) (thread_stack e 1) x = Some (1, x')" "thread_table (kern x') = [Some (idle_obj e), Some th]"
    "process_table (kern x') = [Some ((idle_proc (cwd s))\<lparr>children := [1]\<rparr>), Some pr]" "ready_queue (kern x') = [1]" "sleeping_queue (kern x') = []" "wqs (kern x') = (\<lambda>_. [])"
    "cpus (kern x') = [\<lparr>current_thread = 0, idle_thread = 0, hartid = 0, satp = 0\<rparr>]" "th_process th = 1" "\<not> status_exited th" "status_block_cnt th = 0" "\<not> status_running th" "sepc th = USER_ENTRYPOINT" "regs th ! 9 = 0"
    "name pr = ''shell''" "cpu_mask pr = - 1" "cwd_node_idx pr = cwd s" "parent pr = Some 0" "root (pdirs x' ! 1) = r'" "iso {} {r', r} (vmem x')"
    "\<forall>v < 512 * b. user_byte r' (vmem x') (ram x') (0x200000 + v) = Some (sectors e (f + v div 512) (v mod 512))"
    by (rule shell_execed [OF x(2) tab, of "sectors e" "thread_addr e 1" "thread_stack e 1"])
  have "length (thread_table (kern x)) = 1" using x(2) by (simp add: booting_def)
  then have ex: "exec_shell e 0 (?m2\<lparr>files_of := f'\<rparr>) = Some (?m2\<lparr>files_of := f', exec_of := x'\<rparr>)" using o(1) by (simp add: exec_shell_def)
  have res: "late_main e m = Some (wake_harts (?m2\<lparr>files_of := f', exec_of := x'\<rparr>))" unfolding late_main_def using x(1) sc(1) lp ex by simp
  show thesis by (rule that [OF res, of th pr r']) (use sc(2) o(2-20) cw in \<open>simp_all add: wake_harts_def Let_def\<close>)
qed

section \<open>Start-up as a whole\<close>

lemma static_files:
  "sd (filesys (calls (files_of (static_objects m)))) = sd (filesys (calls (files_of m)))" "no_files p a (calls (files_of (static_objects m)))"
  by (simp_all add: static_objects_def Let_def no_files_def id_pool0_ok) (simp add: kstate0_def trie_new_ok)

lemma files_started:
  assumes "blank_card (filesys (calls (files_of m))) \<or> left_on_card s idx (filesys (calls (files_of m)))"
  obtains fnd f' idx' where "start_files 0 (file_addr e) (stack_junk e) (files_of (static_objects m)) = Some (fnd, f')" "param_open f' idx' (file_addr e)"
    "\<And>s1. init_filesystem (filesys (calls (files_of (static_objects m)))) = Some (fnd, s1) \<Longrightarrow> cwd s1 = cwd (filesys (calls f'))"
    "blank_card (filesys (calls (files_of m))) \<and> \<not> fnd \<or> fnd \<and> idx' = idx \<and> same (s\<lparr>cwd := root_inode (superblock s)\<rparr>) (filesys (calls f'))"
proof (cases "blank_card (filesys (calls (files_of m)))")
  case True
  then have b: "blank_card (filesys (calls (files_of (static_objects m))))" by (simp add: blank_card_def static_files(1))
  obtain f' i where "start_files 0 (file_addr e) (stack_junk e) (files_of (static_objects m)) = Some (False, f')" "param_open f' i (file_addr e)"
    "\<And>s1 fnd. init_filesystem (filesys (calls (files_of (static_objects m)))) = Some (fnd, s1) \<Longrightarrow> cwd s1 = cwd (filesys (calls f'))"
    by (rule start_blank [OF b static_files(2) [of 0 "file_addr e"], of "stack_junk e"]) blast
  with that [of False f' i] True show thesis by blast
next
  case False
  then have l: "left_on_card s idx (filesys (calls (files_of (static_objects m))))" using assms by (simp add: left_on_card_def static_files(1))
  obtain f' where "start_files 0 (file_addr e) (stack_junk e) (files_of (static_objects m)) = Some (True, f')" "param_open f' idx (file_addr e)" "same (s\<lparr>cwd := root_inode (superblock s)\<rparr>) (filesys (calls f'))"
    "\<And>s1 fnd. init_filesystem (filesys (calls (files_of (static_objects m)))) = Some (fnd, s1) \<Longrightarrow> cwd s1 = cwd (filesys (calls f'))"
    by (rule start_found [OF l static_files(2) [of 0 "file_addr e"], of "stack_junk e"]) blast
  with that [of True f' idx] show thesis by blast
qed

text \<open>
  C5: Start-up brings the system up. Let the card have no file system, or one that was left with its parameter file, and a program named shell below one megabyte; what is in memory does not matter.
  Then \<open>boot_kernel\<close> on the first hart passes all assertions of its steps. The file system is mounted, or made on a blank card, and the parameter file open; the registers of the hart are set, with
  interrupts off. The first timer interrupt, which calls the scheduler, runs the shell: its thread is the current one, in the address space of its own process, which has the program from the entry point
  on and the root as its directory; and from then on every thread is in exactly one place, and no page is shared by accident.
\<close>

theorem boot_runs_shell:
  assumes card: "blank_card (filesys (calls (files_of m))) \<or> left_on_card s idx (filesys (calls (files_of m)))"
    and tab: "l = init_task_info (boot_sector e) (sectors e)" "find_task_idx_by_name l (map of_char ''shell'') = Some (int j)" "int j < sint (task_num l)" "j < 16" "field (32 * j + 12) 4 (tasks l) = b"
      "field (32 * j + 8) 4 (tasks l) = f" "b < 2048" "f < 2 ^ 31"
  shows "\<exists>m' k' th pr r r' idx'. boot_kernel e 0 m = Some m' \<and> do_scheduler 0 None (kern (exec_of m')) = Some k' \<and> sched_inv k' \<and> cpus k' = [\<lparr>current_thread = 1, idle_thread = 0, hartid = 0, satp = 1\<rparr>] \<and>
    thr k' 1 = Some th \<and> th_process th = 1 \<and> sepc th = USER_ENTRYPOINT \<and> prc k' 1 = Some pr \<and> name pr = ''shell'' \<and> cwd_node_idx pr = cwd (filesys (calls (files_of m'))) \<and>
    iso {} {r', r} (vmem (exec_of m')) \<and> r' = root (pdirs (exec_of m') ! 1) \<and>
    (\<forall>v < 512 * b. user_byte r' (vmem (exec_of m')) (ram (exec_of m')) (0x200000 + v) = Some (sectors e (f + v div 512) (v mod 512))) \<and>
    param_open (files_of m') idx' (file_addr e) \<and> (\<not> blank_card (filesys (calls (files_of m))) \<longrightarrow> same (s\<lparr>cwd := root_inode (superblock s)\<rparr>) (filesys (calls (files_of m')))) \<and>
    screen_ok (screen_of m') \<and> \<not> preemptible (hart_of m' 0) \<and> satp_of m' 0 = set_satp 8 0 PGDIR_PA"
proof -
  obtain fnd f' idx' where f: "start_files 0 (file_addr e) (stack_junk e) (files_of (static_objects m)) = Some (fnd, f')" "param_open f' idx' (file_addr e)"
    "\<And>s1. init_filesystem (filesys (calls (files_of (static_objects m)))) = Some (fnd, s1) \<Longrightarrow> cwd s1 = cwd (filesys (calls f'))"
    "blank_card (filesys (calls (files_of m))) \<and> \<not> fnd \<or> fnd \<and> idx' = idx \<and> same (s\<lparr>cwd := root_inode (superblock s)\<rparr>) (filesys (calls f'))" by (rule files_started [OF card, of e]) blast
  define m0 where "m0 = m\<lparr>exec_of := (exec_of m)\<lparr>vmem := setup_vm (vmem (exec_of m))\<rparr>, satp_of := (satp_of m)(0 := set_satp 8 0 PGDIR_PA)\<rparr>"
  have v: "vmem (exec_of m0) = setup_vm (vmem (exec_of m))" "files_of (static_objects m0) = files_of (static_objects m)" by (simp_all add: m0_def static_objects_def Let_def)
  obtain r m1 where m1: "early_main e m0 = Some m1" "booting e r 0 (exec_of m1)" "at_row 6 (screen_of m1)" "loader_of m1 = init_task_info (boot_sector e) (sectors e)" "files_of m1 = files_of (static_objects m0)"
    "satp_of m1 = satp_of m0" "\<not> preemptible (hart_of m1 0)" by (rule early_main_ok [OF v(1)])
  have f1: "start_files 0 (file_addr e) (stack_junk e) (files_of m1) = Some (fnd, f')" "\<And>s1. init_filesystem (filesys (calls (files_of m1))) = Some (fnd, s1) \<Longrightarrow> cwd s1 = cwd (filesys (calls f'))"
    using f(1,3) by (simp_all add: m1(5) v(2))
  have l: "loader_of m1 = l" using m1(4) tab(1) by simp
  obtain m' th pr r' where m': "late_main e m1 = Some m'" "files_of m' = f'" "at_row 7 (screen_of m')" "satp_of m' = satp_of m1" "hart_of m' = hart_of m1"
    "thread_table (kern (exec_of m')) = [Some (idle_obj e), Some th]" "process_table (kern (exec_of m')) = [Some ((idle_proc (cwd (filesys (calls f'))))\<lparr>children := [1]\<rparr>), Some pr]" "ready_queue (kern (exec_of m')) = [1]"
    "sleeping_queue (kern (exec_of m')) = []" "wqs (kern (exec_of m')) = (\<lambda>_. [])" "cpus (kern (exec_of m')) = [\<lparr>current_thread = 0, idle_thread = 0, hartid = 0, satp = 0\<rparr>]"
    "th_process th = 1" "\<not> status_exited th" "status_block_cnt th = 0" "\<not> status_running th" "sepc th = USER_ENTRYPOINT" "name pr = ''shell''" "cpu_mask pr = - 1" "cwd_node_idx pr = cwd (filesys (calls f'))"
    "root (pdirs (exec_of m') ! 1) = r'" "iso {} {r', r} (vmem (exec_of m'))"
    "\<forall>v < 512 * b. user_byte r' (vmem (exec_of m')) (ram (exec_of m')) (0x200000 + v) = Some (sectors e (f + v div 512) (v mod 512))"
    by (rule late_main_ok [OF m1(2,3) f1(1) refl f1(2) tab(2-8) [folded l]])
  have bk: "boot_kernel e 0 m = Some m'" using m1(1) m'(1) by (simp add: boot_kernel_def kernel_main_halves m0_def)
  have io: "th_process (idle_obj e) = 0" "\<not> status_exited (idle_obj e)" "status_block_cnt (idle_obj e) = 0" "\<not> status_running (idle_obj e)" by (simp_all add: idle_obj_def)
  obtain k' where k': "do_scheduler 0 None (kern (exec_of m')) = Some k'" "sched_inv k'" "cpus k' = [\<lparr>current_thread = 1, idle_thread = 0, hartid = 0, satp = 1\<rparr>]"
    "thr k' 1 = Some (th\<lparr>running_cpu := Some 0, status_running := True\<rparr>)" "process_table k' = process_table (kern (exec_of m'))"
    by (rule first_schedule [OF m'(6-11) io(1) m'(12,18) io(2-4) m'(13-15)])
  have "prc k' 1 = Some pr" using k'(5) m'(7) by (simp add: prc_def)
  moreover have "satp_of m' 0 = set_satp 8 0 PGDIR_PA" "screen_ok (screen_of m')" using m'(3,4) m1(6) by (simp_all add: m0_def at_row_def)
  moreover have "\<not> blank_card (filesys (calls (files_of m))) \<longrightarrow> same (s\<lparr>cwd := root_inode (superblock s)\<rparr>) (filesys (calls (files_of m')))" using f(4) m'(2) by blast
  ultimately show ?thesis
    by - (rule exI [of _ m'], rule exI [of _ k'], rule exI [of _ "th\<lparr>running_cpu := Some 0, status_running := True\<rparr>"], rule exI [of _ pr], rule exI [of _ r], rule exI [of _ r'], rule exI [of _ idx'],
      use bk k' m'(2,5,12,16,17,19-22) m1(7) f(2) in simp)
qed

text \<open>A card with one program, whose table is in sector 1, and an empty file system area.\<close>

definition surroundings0 :: surroundings where
  "surroundings0 = \<lparr>fdt = \<lambda>_. 0x10000000, counter = 5, boot_sector = replicate 0x1f0 0 @ le_bytes 4 1 @ le_bytes 2 1 @ replicate 10 0,
     sectors = \<lambda>b d. if b = 1 then tasks loader0 ! d else of_nat (b + d), thread_addr = of_nat, thread_stack = of_nat, file_addr = 7, stack_junk = replicate 16 9, trap_entry = 3\<rparr>"

lemma surroundings0_table: "loader0 = init_task_info (boot_sector surroundings0) (sectors surroundings0)"
proof -
  have f: "field 0x1f0 4 (boot_sector surroundings0) = 1" "field 0x1f4 2 (boot_sector surroundings0) = 1" by code_simp+
  have "length (tasks loader0) = 512" by code_simp
  then have "map (\<lambda>d. tasks loader0 ! d) [0..<512] = tasks loader0" by (metis map_nth)
  then show ?thesis unfolding init_task_info_def f by (simp add: surroundings0_def loader0_def)
qed

theorem boot_runs_shell_witness:
  "\<forall>m. blank_card (filesys (calls (files_of (m\<lparr>files_of := (files_of m)\<lparr>calls := (calls (files_of m))\<lparr>filesys := (filesys (calls (files_of m)))\<lparr>sd := \<lambda>_ _. 0\<rparr>\<rparr>\<rparr>\<rparr>)))) \<and>
    (\<exists>m' k' th pr. boot_kernel surroundings0 0 (m\<lparr>files_of := (files_of m)\<lparr>calls := (calls (files_of m))\<lparr>filesys := (filesys (calls (files_of m)))\<lparr>sd := \<lambda>_ _. 0\<rparr>\<rparr>\<rparr>\<rparr>) = Some m' \<and>
      do_scheduler 0 None (kern (exec_of m')) = Some k' \<and> sched_inv k' \<and> thr k' 1 = Some th \<and> sepc th = 0x200000 \<and> prc k' 1 = Some pr \<and> name pr = ''shell'' \<and>
      user_byte (root (pdirs (exec_of m') ! 1)) (vmem (exec_of m')) (ram (exec_of m')) 0x200201 = Some 42)"
proof
  fix m :: board
  let ?m = "m\<lparr>files_of := (files_of m)\<lparr>calls := (calls (files_of m))\<lparr>filesys := (filesys (calls (files_of m)))\<lparr>sd := \<lambda>_ _. 0\<rparr>\<rparr>\<rparr>\<rparr>"
  have b: "blank_card (filesys (calls (files_of ?m)))" by (auto simp: blank_card_def card_block_def on_block_def)
  have a: "(0 :: nat) < 16" "(2 :: nat) < 2048" "(40 :: nat) < 2 ^ 31" by simp_all
  from boot_runs_shell [where s = "filesys (calls (files_of m))" and idx = 0, OF disjI1 [OF b] surroundings0_table loader0_simps(1,2) a(1) loader0_simps(3,4) a(2,3)]
  obtain m' k' th pr r' where r: "boot_kernel surroundings0 0 ?m = Some m'" "do_scheduler 0 None (kern (exec_of m')) = Some k'" "sched_inv k'" "thr k' 1 = Some th" "sepc th = USER_ENTRYPOINT" "prc k' 1 = Some pr" "name pr = ''shell''"
    and r': "r' = root (pdirs (exec_of m') ! 1)" and u: "\<forall>v < 512 * 2. user_byte r' (vmem (exec_of m')) (ram (exec_of m')) (0x200000 + v) = Some (sectors surroundings0 (40 + v div 512) (v mod 512))"
    by (elim exE conjE) (rule that; assumption)
  have "user_byte (root (pdirs (exec_of m') ! 1)) (vmem (exec_of m')) (ram (exec_of m')) 0x200201 = Some 42" using u [rule_format, of 513] by (simp add: surroundings0_def r')
  with r b show "blank_card (filesys (calls (files_of ?m))) \<and> (\<exists>m' k' th pr. boot_kernel surroundings0 0 ?m = Some m' \<and> do_scheduler 0 None (kern (exec_of m')) = Some k' \<and> sched_inv k' \<and> thr k' 1 = Some th \<and>
    sepc th = 0x200000 \<and> prc k' 1 = Some pr \<and> name pr = ''shell'' \<and> user_byte (root (pdirs (exec_of m') ! 1)) (vmem (exec_of m')) (ram (exec_of m')) 0x200201 = Some 42)"
    by (auto simp: USER_ENTRYPOINT_def)
qed

end
