(* ===== verification/Spin.thy ===== *)
theory Spin
  imports Prelude
begin

text \<open>
  Spin locks, \<open>spinlock.hpp\<close>: an atomic flag that \<open>lock\<close> sets in a loop, \<open>try_lock\<close> sets once and \<open>unlock\<close> clears.

  The CPUs take turns in any order. What a CPU does while it holds the lock is a program \<open>body\<close>, one access to the shared state at a time, with a local state that holds its variables and
  the place where it is. The result of this theory is that such a program can be taken for one step, which is how the other theories model operations under a lock.
\<close>

section \<open>The lock\<close>

text \<open>Where a CPU is: outside, in the loop of \<open>lock\<close>, or holding the lock.\<close>

datatype 'l place = Out | Wait 'l | In 'l

record ('l, 's) locked =
  flag :: bool
  at :: "nat \<Rightarrow> 'l place"
  shared :: 's

definition test_and_set :: "('l, 's) locked \<Rightarrow> bool \<times> ('l, 's) locked" where
  "test_and_set x = (flag x, x\<lparr>flag := True\<rparr>)"

definition try_lock :: "('l, 's) locked \<Rightarrow> bool \<times> ('l, 's) locked" where
  "try_lock x = (let (old, x) = test_and_set x in (\<not> old, x))"

definition unlock :: "('l, 's) locked \<Rightarrow> ('l, 's) locked" where
  "unlock x = x\<lparr>flag := False\<rparr>"

definition go :: "nat \<Rightarrow> 'l place \<Rightarrow> ('l, 's) locked \<Rightarrow> ('l, 's) locked" where
  "go c p x = x\<lparr>at := (at x)(c := p)\<rparr>"

text \<open>One step of CPU \<open>c\<close>. The label is the operation that gets the lock in this step, if one does.\<close>

inductive spin_step :: "('l \<Rightarrow> 's \<Rightarrow> ('l \<times> 's) option) \<Rightarrow> ('l, 's) locked \<Rightarrow> 'l list \<Rightarrow> ('l, 's) locked \<Rightarrow> bool" for body where
  calls: "at x c = Out \<Longrightarrow> spin_step body x [] (go c (Wait l) x)"
| spins: "at x c = Wait l \<Longrightarrow> test_and_set x = (True, y) \<Longrightarrow> spin_step body x [] y"
| enters: "at x c = Wait l \<Longrightarrow> test_and_set x = (False, y) \<Longrightarrow> spin_step body x [l] (go c (In l) y)"
| tries: "at x c = Out \<Longrightarrow> try_lock x = (True, y) \<Longrightarrow> spin_step body x [l] (go c (In l) y)"
| refused: "at x c = Out \<Longrightarrow> try_lock x = (False, y) \<Longrightarrow> spin_step body x [] y"
| works: "at x c = In l \<Longrightarrow> body l (shared x) = Some (l', s) \<Longrightarrow> spin_step body x [] (go c (In l') (x\<lparr>shared := s\<rparr>))"
| leaves: "at x c = In l \<Longrightarrow> body l (shared x) = None \<Longrightarrow> spin_step body x [] (go c Out (unlock x))"

inductive spin_run :: "('l \<Rightarrow> 's \<Rightarrow> ('l \<times> 's) option) \<Rightarrow> ('l, 's) locked \<Rightarrow> 'l list \<Rightarrow> ('l, 's) locked \<Rightarrow> bool" for body where
  start: "spin_run body x [] x"
| step: "spin_run body x ls y \<Longrightarrow> spin_step body y ls' z \<Longrightarrow> spin_run body x (ls @ ls') z"

section \<open>Operations one after another\<close>

text \<open>One operation without interruption, to its end, and whole operations in a given order.\<close>

partial_function (option) finish :: "('l \<Rightarrow> 's \<Rightarrow> ('l \<times> 's) option) \<Rightarrow> 'l \<Rightarrow> 's \<Rightarrow> 's option" where
  "finish body l s = (case body l s of None \<Rightarrow> Some s | Some (l', s') \<Rightarrow> finish body l' s')"

fun in_order :: "('l \<Rightarrow> 's \<Rightarrow> ('l \<times> 's) option) \<Rightarrow> 'l list \<Rightarrow> 's \<Rightarrow> 's option" where
  "in_order body [] s = Some s"
| "in_order body (l # ls) s = do { s \<leftarrow> finish body l s; in_order body ls s }"

lemma in_order_append: "in_order body (ls @ ls') s = in_order body ls s \<bind> in_order body ls'"
proof (induction ls arbitrary: s)
  case (Cons l ls)
  then show ?case by (cases "finish body l s") simp_all
qed simp

lemma in_order_one [simp]: "in_order body [l] = finish body l"
  by (rule ext) (simp split: bind_split)

lemma finish_simps: "body l s = None \<Longrightarrow> finish body l s = Some s" "body l s = Some (l', s') \<Longrightarrow> finish body l s = finish body l' s'"
  by (simp_all add: finish.simps)

section \<open>The invariant\<close>

definition lock_free :: "('l \<Rightarrow> 's \<Rightarrow> ('l \<times> 's) option) \<Rightarrow> 's \<Rightarrow> 'l list \<Rightarrow> ('l, 's) locked \<Rightarrow> bool" where
  "lock_free body s0 ls x \<longleftrightarrow> \<not> flag x \<and> (\<forall>c l. at x c \<noteq> In l) \<and> in_order body ls s0 = Some (shared x)"

definition lock_held :: "('l \<Rightarrow> 's \<Rightarrow> ('l \<times> 's) option) \<Rightarrow> 's \<Rightarrow> 'l list \<Rightarrow> nat \<Rightarrow> ('l, 's) locked \<Rightarrow> bool" where
  "lock_held body s0 ls c x \<longleftrightarrow> flag x \<and> (\<forall>c' l. at x c' = In l \<longrightarrow> c' = c) \<and> (\<exists>l. at x c = In l \<and> in_order body ls s0 = finish body l (shared x))"

lemmas lock_defs = lock_free_def lock_held_def test_and_set_def try_lock_def unlock_def go_def in_order_append

inductive_cases spin_stepE: "spin_step body x ls y"

lemma free_step: "lock_free body s0 ls x \<Longrightarrow> spin_step body x ls' y \<Longrightarrow> lock_free body s0 (ls @ ls') y \<or> (\<exists>c. lock_held body s0 (ls @ ls') c y)"
  by (erule spin_stepE) (auto simp: lock_defs)

lemma held_step: "lock_held body s0 ls c x \<Longrightarrow> spin_step body x ls' y \<Longrightarrow> lock_free body s0 (ls @ ls') y \<or> lock_held body s0 (ls @ ls') c y"
  by (erule spin_stepE) (auto simp: lock_defs finish_simps)

lemma run_inv:
  "spin_run body x ls y \<Longrightarrow> lock_free body s0 [] x \<Longrightarrow> lock_free body s0 ls y \<or> (\<exists>c. lock_held body s0 ls c y)"
proof (induction rule: spin_run.induct)
  case (step x ls y ls' z)
  then show ?case using free_step held_step by metis
qed simp

text \<open>
  C15: Let no CPU hold or wait for the lock at the beginning. However the steps of the CPUs are interleaved after that, at most one CPU holds the lock, the flag is set exactly then, and a CPU that
  waits for a free lock gets it with its next step. The shared state is what the operations give that got the lock, one after another in that order, each as one step: when the lock is free
  all of them have ended, and otherwise only the last one still has to be brought to its end.
\<close>

theorem spin_lock_atomic:
  assumes "\<not> flag x" "\<And>c. at x c = Out" "spin_run body x ls y"
  shows "(\<forall>c c' l l'. at y c = In l \<and> at y c' = In l' \<longrightarrow> c = c') \<and> (flag y \<longleftrightarrow> (\<exists>c l. at y c = In l)) \<and>
    (\<forall>c l. \<not> flag y \<and> at y c = Wait l \<longrightarrow> (\<exists>z. spin_step body y [l] z \<and> at z c = In l)) \<and>
    (\<not> flag y \<longrightarrow> in_order body ls (shared x) = Some (shared y)) \<and> (\<forall>c l. at y c = In l \<longrightarrow> in_order body ls (shared x) = finish body l (shared y))"
proof -
  have "lock_free body (shared x) [] x" using assms(1,2) by (simp add: lock_free_def)
  note i = run_inv [OF assms(3) this]
  have "\<exists>z. spin_step body y [l] z \<and> at z c = In l" if "\<not> flag y" "at y c = Wait l" for c l
  proof -
    have "spin_step body y [l] (go c (In l) (y\<lparr>flag := True\<rparr>))" using that by (intro spin_step.enters) (simp_all add: test_and_set_def)
    then show ?thesis by (intro exI conjI) (auto simp: go_def)
  qed
  with i show ?thesis
  proof (elim disjE exE)
    fix c assume h: "lock_held body (shared x) ls c y"
    then obtain l where l: "at y c = In l" "in_order body ls (shared x) = finish body l (shared y)" "\<And>c' l'. at y c' = In l' \<Longrightarrow> c' = c" "flag y" unfolding lock_held_def by blast
    then show ?thesis by (metis place.inject(2))
  qed (auto simp: lock_free_def)
qed

text \<open>Two CPUs add to a counter, which each reads first and writes later; the second one waits meanwhile.\<close>

fun add_body :: "nat option \<times> nat \<Rightarrow> nat \<Rightarrow> ((nat option \<times> nat) \<times> nat) option" where
  "add_body (None, Suc n) s = Some ((Some s, n), s)"
| "add_body (Some r, n) s = Some ((None, 0), r + 1)"
| "add_body (None, 0) s = None"

definition cpus2 :: "bool \<Rightarrow> (nat option \<times> nat) place \<Rightarrow> (nat option \<times> nat) place \<Rightarrow> nat \<Rightarrow> (nat option \<times> nat, nat) locked" where
  "cpus2 f a b s = \<lparr>flag = f, at = (\<lambda>_. Out)(0 := a, Suc 0 := b), shared = s\<rparr>"

lemma cpus2_simps:
  "flag (cpus2 f a b s) = f" "shared (cpus2 f a b s) = s" "at (cpus2 f a b s) 0 = a" "at (cpus2 f a b s) (Suc 0) = b" "go 0 p (cpus2 f a b s) = cpus2 f p b s" "go (Suc 0) p (cpus2 f a b s) = cpus2 f a p s"
  "cpus2 f a b s\<lparr>shared := t\<rparr> = cpus2 f a b t" "unlock (cpus2 f a b s) = cpus2 False a b s" "test_and_set (cpus2 f a b s) = (f, cpus2 True a b s)"
  by (auto simp: cpus2_def go_def unlock_def test_and_set_def fun_upd_twist)

lemma two_adds: "spin_run add_body (cpus2 False Out Out 5) [(None, Suc 0), (None, Suc 0)] (cpus2 False Out Out 7)"
proof -
  let ?go = "spin_step add_body" and ?o = "(None, Suc 0) :: nat option \<times> nat"
  note d = cpus2_simps
  have 1: "?go (cpus2 False Out Out 5) [] (cpus2 False (Wait ?o) Out 5)" using spin_step.calls [of "cpus2 False Out Out 5" 0 add_body ?o] by (simp add: d)
  have 2: "?go (cpus2 False (Wait ?o) Out 5) [] (cpus2 False (Wait ?o) (Wait ?o) 5)" using spin_step.calls [of "cpus2 False (Wait ?o) Out 5" "Suc 0" add_body ?o] by (simp add: d)
  have 3: "?go (cpus2 False (Wait ?o) b s) [?o] (cpus2 True (In ?o) b s)" for b s using spin_step.enters [of "cpus2 False (Wait ?o) b s" 0 ?o _ add_body] by (simp add: d)
  have 4: "?go (cpus2 True (In ?o) b s) [] (cpus2 True (In (Some s, 0)) b s)" for b s using spin_step.works [of "cpus2 True (In ?o) b s" 0 ?o add_body] by (simp add: d)
  have 5: "?go (cpus2 True a (Wait ?o) s) [] (cpus2 True a (Wait ?o) s)" for a s using spin_step.spins [of "cpus2 True a (Wait ?o) s" "Suc 0" ?o _ add_body] by (simp add: d)
  have 6: "?go (cpus2 True (In (Some r, 0)) b s) [] (cpus2 True (In (None, 0)) b (r + 1))" for r b s using spin_step.works [of "cpus2 True (In (Some r, 0)) b s" 0 "(Some r, 0)" add_body] by (simp add: d)
  have 7: "?go (cpus2 True (In (None, 0)) b s) [] (cpus2 False Out b s)" for b s using spin_step.leaves [of "cpus2 True (In (None, 0)) b s" 0 "(None, 0)" add_body] by (simp add: d)
  have 8: "?go (cpus2 False a (Wait ?o) s) [?o] (cpus2 True a (In ?o) s)" for a s using spin_step.enters [of "cpus2 False a (Wait ?o) s" "Suc 0" ?o _ add_body] by (simp add: d)
  have 9: "?go (cpus2 True a (In ?o) s) [] (cpus2 True a (In (Some s, 0)) s)" for a s using spin_step.works [of "cpus2 True a (In ?o) s" "Suc 0" ?o add_body] by (simp add: d)
  have 10: "?go (cpus2 True a (In (Some r, 0)) s) [] (cpus2 True a (In (None, 0)) (r + 1))" for a r s using spin_step.works [of "cpus2 True a (In (Some r, 0)) s" "Suc 0" "(Some r, 0)" add_body] by (simp add: d)
  have 11: "?go (cpus2 True a (In (None, 0)) s) [] (cpus2 False a Out s)" for a s using spin_step.leaves [of "cpus2 True a (In (None, 0)) s" "Suc 0" "(None, 0)" add_body] by (simp add: d)
  note run = spin_run.step [OF spin_run.step [OF spin_run.step [OF spin_run.step [OF spin_run.step [OF spin_run.start 1] 2] 3] 4] 5]
  note run = spin_run.step [OF spin_run.step [OF spin_run.step [OF spin_run.step [OF spin_run.step [OF spin_run.step [OF run 6] 7] 8] 9] 10] 11]
  from run show ?thesis by (simp add: numeral_eq_Suc)
qed

theorem spin_lock_atomic_witness:
  "spin_run add_body (cpus2 False Out Out 5) [(None, Suc 0), (None, Suc 0)] (cpus2 False Out Out 7) \<and> in_order add_body [(None, Suc 0), (None, Suc 0)] 5 = Some 7"
proof -
  have "at (cpus2 False Out Out 5) c = Out" for c by (simp add: cpus2_def)
  with spin_lock_atomic [OF _ _ two_adds] two_adds show ?thesis by (simp add: cpus2_simps)
qed

end
