(* ===== verification/Kill.thy ===== *)
theory Kill
  imports LocksProofs
begin

text \<open>
  The end of a process together with its objects: \<open>Process::kill\<close> and \<open>Thread::exit\<close> with the loop over \<open>kernel_objects\<close> of the theory of the locks. The recursion of the two ends, killing another process
  returns, and the objects of the process are released.
\<close>

section \<open>Releasing the objects\<close>

text \<open>What releasing an object leaves alone.\<close>

definition drop_frame :: "lkernel \<Rightarrow> lkernel \<Rightarrow> bool" where
  "drop_frame k k' \<longleftrightarrow> process_table k' = process_table k \<and> ipis k' = ipis k \<and> process_global_lock k' = process_global_lock k \<and> kind k' = kind k \<and>
     kernel_objects (kobjs k') = kernel_objects (kobjs k) \<and> (\<forall>t. map_option unblocked (thr k' t) = map_option unblocked (thr k t))"

lemma drop_frame_trans: "drop_frame k k' \<Longrightarrow> drop_frame k' k'' \<Longrightarrow> drop_frame k k''"
  by (simp add: drop_frame_def)

lemma more_objects:
  assumes "kernel.more k' = kernel.more k"
  shows "kind k' = kind k" "kobjs k' = kobjs k"
  using assms by (cases k; cases k'; simp add: lkernel.defs)+

lemma wakeup_all_drop:
  assumes "sched_inv k"
  obtains k' where "wakeup_all q k = Some k'" "sched_inv k'" "drop_frame k k'" "mutexes k' = mutexes k"
proof -
  obtain k' where k': "wakeup_all q k = Some k'" "sched_inv k'" "wake_frame k k'" by (rule wakeup_all_inv [OF assms])
  note f = wakeup_all_frame [OF k'(1)] and m = wake_frameD(4) [OF k'(3)]
  have "drop_frame k k'" using f more_objects [OF m] by (simp add: drop_frame_def)
  with that k'(1,2) more_fields(1) [OF m] show thesis by blast
qed

text \<open>A mutex that can be released: its spin lock is free and it has an owner.\<close>

definition releasable :: "lkernel \<Rightarrow> u64 \<Rightarrow> bool" where
  "releasable k m \<longleftrightarrow> (kind k m = MutexLock \<longrightarrow> \<not> m_lock (mutexes k m) \<and> (\<exists>t. owner (mutexes k m) = Some t \<and> thr k t \<noteq> None))"

lemma release_drop:
  assumes "sched_inv k" "\<not> m_lock (mutexes k m)" "owner (mutexes k m) = Some t" "thr k t = Some th"
  obtains k' where "release p m k = Some k'" "sched_inv k'" "drop_frame k k'" "\<And>x. x \<noteq> m \<Longrightarrow> mutexes k' x = mutexes k x"
proof (cases "th_process th = p")
  case False
  then have "release p m k = Some k" using assms(2-4) by (simp add: release_def Let_def)
  then show thesis using that assms(1) by (simp add: drop_frame_def)
next
  case True
  obtain k1 where k1: "wakeup_one (WaitObj m) k = Some (case wqs k (WaitObj m) of [] \<Rightarrow> None | t # _ \<Rightarrow> Some t, k1)" "sched_inv k1" "wake_frame k k1"
    by (rule wakeup_one_inv [OF assms(1)])
  obtain o' where w: "wakeup_one (WaitObj m) k = Some (o', k1)" using k1(1) by blast
  note mo = wake_frameD(4) [OF k1(3)]
  have pf: "process_table k1 = process_table k" "ipis k1 = ipis k" "process_global_lock k1 = process_global_lock k"
    using w by (auto simp: wakeup_one_def Let_def elim!: bind_SomeE split: list.splits dest: wakeup_frame(1) wakeup_frame(4) wakeup_frame(5))
  let ?k = "put_mutex m ((mutexes k m)\<lparr>owner := o'\<rparr>) k1"
  have "release p m k = Some ?k" using assms(2-4) True w by (simp add: release_def Let_def)
  moreover have "drop_frame k ?k"
  proof -
    have "drop_frame k1 ?k" unfolding drop_frame_def put_thr_of by (simp add: put_mutex_def)
    moreover have "drop_frame k k1" using pf k1(3) more_objects [OF mo] by (simp add: drop_frame_def wake_frame_def)
    ultimately show ?thesis using drop_frame_trans by blast
  qed
  ultimately show thesis using that k1(2) more_fields(1) [OF mo] by simp
qed

lemma destroy_drop:
  assumes "sched_inv k"
  obtains k' where "destroy obj k = Some k'" "sched_inv k'" "drop_frame k k'" "mutexes k' = mutexes k"
proof -
  define k0 where "k0 = (case kind k obj of MutexLock \<Rightarrow> k\<lparr>mutex_pool := id_remove obj (mutex_pool k)\<rparr> | Barrier \<Rightarrow> k\<lparr>barrier_pool := id_remove obj (barrier_pool k)\<rparr>
    | Condition \<Rightarrow> k\<lparr>condition_pool := id_remove obj (condition_pool k)\<rparr> | Mailbox \<Rightarrow> k\<lparr>mailbox_pool := id_remove obj (mailbox_pool k)\<rparr>)"
  have same: "thread_table k0 = thread_table k" "ready_queue k0 = ready_queue k" "cpus k0 = cpus k" "sleeping_queue k0 = sleeping_queue k" "wqs k0 = wqs k" "process_table k0 = process_table k"
    "ipis k0 = ipis k" "process_global_lock k0 = process_global_lock k" "kind k0 = kind k" "kobjs k0 = kobjs k" "mutexes k0 = mutexes k"
    by (simp_all add: k0_def split: object_kind.split)
  have s0: "sched_inv k0" using assms sched_inv_cong [OF same(1-5)] by simp
  have f0: "drop_frame k k0" using same thr_cong [OF same(1)] by (simp add: drop_frame_def)
  show thesis
  proof (cases "kind k obj = Mailbox")
    case False
    obtain x where "wakeup_all (WaitObj obj) k0 = Some x" "sched_inv x" "drop_frame k0 x" "mutexes x = mutexes k0" by (rule wakeup_all_drop [OF s0])
    moreover from False have "destroy obj k = wakeup_all (WaitObj obj) k0" by (auto simp: destroy_def k0_def split: object_kind.split)
    ultimately show thesis using that [of x] drop_frame_trans [OF f0] same(11) by simp
  next
    case True
    obtain x where x: "wakeup_all (RecvObj obj) k0 = Some x" "sched_inv x" "drop_frame k0 x" "mutexes x = mutexes k0" by (rule wakeup_all_drop [OF s0])
    obtain y where y: "wakeup_all (SendObj obj) x = Some y" "sched_inv y" "drop_frame x y" "mutexes y = mutexes x" by (rule wakeup_all_drop [OF x(2)])
    from True have "destroy obj k = do { k \<leftarrow> wakeup_all (RecvObj obj) k0; wakeup_all (SendObj obj) k }" by (simp add: destroy_def k0_def)
    then show thesis using that [of y] x y drop_frame_trans [OF drop_frame_trans [OF f0 x(3)] y(3)] same(11) by simp
  qed
qed

text \<open>One object after the other, each once.\<close>

lemma unregister_drop:
  assumes "sched_inv k" "releasable k obj"
  obtains k' where "unregister p obj k = Some k'" "sched_inv k'" "drop_frame k k'" "\<And>x. x \<noteq> obj \<Longrightarrow> mutexes k' x = mutexes k x"
proof -
  obtain k1 where k1: "(if kind k obj = MutexLock then release p obj k else Some k) = Some k1" "sched_inv k1" "drop_frame k k1" "\<And>x. x \<noteq> obj \<Longrightarrow> mutexes k1 x = mutexes k x"
  proof (cases "kind k obj = MutexLock")
    case True
    with assms(2) obtain t th where "\<not> m_lock (mutexes k obj)" "owner (mutexes k obj) = Some t" "thr k t = Some th" by (auto simp: releasable_def)
    from release_drop [OF assms(1) this] that True show thesis by metis
  qed (use that assms(1) in \<open>simp add: drop_frame_def\<close>)
  let ?s = "on_process_unregister obj (kobjs k1)"
  let ?k = "k1\<lparr>kobjs := ?s\<rparr>"
  have s: "sched_inv ?k" using k1(2) sched_inv_cong [of ?k k1] by simp
  have "thr ?k = thr k1" by (rule thr_cong) simp
  then have "drop_frame k1 ?k" by (simp add: drop_frame_def)
  with k1(3) have f: "drop_frame k ?k" by (rule drop_frame_trans)
  show thesis
  proof (cases "ref_count ?s obj = 0")
    case True
    obtain x where "destroy obj ?k = Some x" "sched_inv x" "drop_frame ?k x" "mutexes x = mutexes ?k" by (rule destroy_drop [OF s])
    with that [of x] True k1(1,4) drop_frame_trans [OF f] show thesis by (simp add: unregister_def Let_def)
  next
    case False
    with that [of ?k] s f k1(1,4) show thesis by (simp add: unregister_def Let_def)
  qed
qed

lemma unregister_all:
  assumes "sched_inv k" "\<forall>obj \<in> set objs. releasable k obj" "distinct objs"
  shows "\<exists>k'. fold (\<lambda>obj r. r \<bind> unregister p obj) objs (Some k) = Some k' \<and> sched_inv k' \<and> drop_frame k k'"
  using assms
proof (induction objs arbitrary: k)
  case Nil
  then show ?case by (simp add: drop_frame_def)
next
  case (Cons obj objs)
  obtain k1 where k1: "unregister p obj k = Some k1" "sched_inv k1" "drop_frame k k1" "\<And>x. x \<noteq> obj \<Longrightarrow> mutexes k1 x = mutexes k x"
    using unregister_drop [OF Cons.prems(1), of obj p] Cons.prems(2) by auto
  have "releasable k1 x" if "x \<in> set objs" for x
  proof -
    have "x \<noteq> obj" using that Cons.prems(3) by auto
    then have x: "releasable k x" "mutexes k1 x = mutexes k x" using that Cons.prems(2) k1(4) [of x] by auto
    have "kind k1 = kind k" "\<And>t. thr k1 t = None \<longleftrightarrow> thr k t = None" using k1(3) unfolding drop_frame_def by (simp, metis map_option_is_None)
    with x show ?thesis by (simp add: releasable_def)
  qed
  with Cons.IH [OF k1(2)] Cons.prems(3) obtain k2 where "fold (\<lambda>obj r. r \<bind> unregister p obj) objs (Some k1) = Some k2" "sched_inv k2" "drop_frame k1 k2" by auto
  with k1(1) drop_frame_trans [OF k1(3)] show ?case by auto
qed

lemma drop_objects_returns:
  assumes "sched_inv k" "objects_ok (kobjs k)" "\<And>obj. holds (kobjs k) p obj \<Longrightarrow> releasable k obj"
  shows "\<exists>k'. drop_objects p k = Some k' \<and> sched_inv k' \<and> drop_frame k k'"
proof -
  let ?t = "kernel_objects (kobjs k) p"
  have wf: "trie_wf ?t" and key: "\<And>x v. trie_lookup ?t x = Some v \<Longrightarrow> x = obj2key v" using assms(2) by (simp_all add: objects_ok_def)
  have d: "distinct (trie_vals ?t)" by (rule trie.vals_once [OF wf]) (metis key)
  have "v \<in> set (trie_vals ?t) \<Longrightarrow> holds (kobjs k) p v" for v using trie.vals_ran [OF wf] key by (auto simp: ran_def holds_def)
  with unregister_all [OF assms(1) _ d, of p] assms(3) show ?thesis by (simp add: drop_objects_def trie_foreach_vals)
qed

section \<open>Killing\<close>

lemma kill_returns:
  assumes "sched_inv k" "prc k p = Some pr" "\<not> is_killed pr" "\<not> process_own_lock pr" "\<not> process_global_lock k" "cur k c = Some f" "f \<notin> set (threads pr)"
    and own: "\<forall>t \<in> set (threads pr). \<not> idle k t \<and> (\<exists>th. thr k t = Some th \<and> th_process th = p)"
    and kin: "\<forall>ch \<in> set (children pr). prc k ch \<noteq> None" "\<forall>q. parent pr = Some q \<longrightarrow> prc k q \<noteq> None"
    and obj: "objects_ok (kobjs k)" "\<forall>obj. holds (kobjs k) p obj \<longrightarrow> releasable k obj"
  shows "\<exists>k' pr'. process_kill drop_objects kill_fuel c p k = Some (Ret, k') \<and> prc k' p = Some pr' \<and> is_killed pr' \<and> \<not> process_own_lock pr' \<and>
    (\<forall>t \<in> set (threads pr). map_option status_exited (thr k' t) = Some True) \<and> ipis k' = ipis k"
proof (rule kill_others [OF assms(1-7) own kin])
  fix k1 :: lkernel assume k1: "sched_inv k1" "kernel.more k1 = kernel.more k" "\<forall>u. map_option th_process (thr k1 u) = map_option th_process (thr k u)"
  note m = more_objects [OF k1(2)] more_fields(1) [OF k1(2)]
  have "thr k1 t = None \<longleftrightarrow> thr k t = None" for t using k1(3) by (metis map_option_is_None)
  then have "releasable k1 x = releasable k x" for x by (simp add: releasable_def m)
  then have r: "holds (kobjs k1) p x \<Longrightarrow> releasable k1 x" for x using obj(2) by (simp add: m)
  have "objects_ok (kobjs k1)" using obj(1) by (simp add: m)
  from drop_objects_returns [OF k1(1) this r] obtain k2 where k2: "drop_objects p k1 = Some k2" "drop_frame k1 k2" by blast
  have "map_option status_exited (thr k2 t) = map_option status_exited (thr k1 t)" for t
    using k2(2) unfolding drop_frame_def by (cases "thr k2 t"; cases "thr k1 t") (auto dest!: spec [of _ t] dest: unblocked_eqD)
  with k2 show "\<exists>k2. drop_objects p k1 = Some k2 \<and> process_table k2 = process_table k1 \<and> ipis k2 = ipis k1 \<and> process_global_lock k2 = process_global_lock k1 \<and>
    (\<forall>t. map_option status_exited (thr k2 t) = map_option status_exited (thr k1 t))" by (auto simp: drop_frame_def)
qed

lemma kernel0_threads: "prc kernel0 p = Some pr \<Longrightarrow> t \<in> set (threads pr) \<Longrightarrow> \<exists>th. thr kernel0 t = Some th \<and> th_process th = p"
  by (auto simp: kernel0_simps prc_def thread0_def) (auto simp: kernel0_def process0_def nth_Cons' split: if_splits)

text \<open>Process 2 has opened a mutex and its thread is the owner.\<close>

lemma opened_mutex:
  obtains k where "sched_inv k" "prc k 2 = Some (process0 [2])" "\<not> process_global_lock k" "cur k 0 = Some 1" "\<not> idle k 2" "thr k 2 = Some (thread0 2 False)" "ipis k = []" "objects_ok (kobjs k)"
    "holds (kobjs k) 2 0x51000080" "\<forall>obj. holds (kobjs k) 2 obj \<longrightarrow> releasable k obj"
    "\<forall>p pr. prc k p = Some pr \<longrightarrow> (\<forall>t \<in> set (threads pr). \<exists>th. thr k t = Some th \<and> th_process th = p)"
proof -
  obtain i t where "trie_insert trie_new (obj2key 0x51000080) (0x51000080 :: u64) = Some (i, t)"
    using trie.insert_new [OF trie_new_ok(1)] by (metis trie_new_ok(2))
  then have "register_kernel_object 2 0x51000080 kstate0 \<noteq> None" by (simp add: register_kernel_object_def kstate0_def Let_def)
  then obtain b s where r: "register_kernel_object 2 0x51000080 kstate0 = Some (b, s)" by auto
  have ne: "obj2key 0x51000080 \<noteq> 0" by (simp add: obj2key_def)
  note g = register_ok [OF kstate0_ok(1) _ _ _ ne r, of "{2}"]
  let ?k = "lkernel0\<lparr>kobjs := s, mutexes := \<lambda>_. \<lparr>m_lock = False, owner = Some 2\<rparr>\<rparr>"
  have p: "prc ?k = prc kernel0" "thr ?k = thr kernel0" "cur ?k = cur kernel0" "idle ?k = idle kernel0"
    by (rule prc_cong thr_cong cur_cong idle_cong; simp)+
  have "sched_inv ?k" using lkernel0_inv sched_inv_cong [of ?k lkernel0] by simp
  moreover have "prc ?k 2 = Some (process0 [2])" unfolding p by (simp add: prc_def kernel0_def)
  moreover have "\<not> process_global_lock ?k" "ipis ?k = []" by (simp_all add: lkernel0_def kernel.defs kernel0_def)
  moreover have "objects_ok s" "holds s 2 0x51000080" using g by (simp_all add: refs_ok_def)
  moreover have "\<forall>p pr. prc ?k p = Some pr \<longrightarrow> (\<forall>t \<in> set (threads pr). \<exists>th. thr ?k t = Some th \<and> th_process th = p)"
    using kernel0_threads unfolding p by blast
  ultimately show thesis by (intro that [of ?k]) (simp_all add: p kernel0_simps releasable_def)
qed

text \<open>
  C31: \<open>Process::kill\<close> and \<open>Thread::exit\<close> call each other, and the calls end. For processes whose threads are their own, three levels of calls below \<open>kill\<close> and four below \<open>exit\<close> are enough: whatever depth is
  allowed beyond that, the result is the one of definitions without recursion, in which a thread that ends in the loop of \<open>kill\<close> does not call \<open>kill\<close> again. The inner \<open>kill\<close> finds the process
  marked as killed, returns at once, and does not take the lock that the outer one holds.
\<close>

theorem kill_depth:
  assumes "\<forall>p pr. prc k p = Some pr \<longrightarrow> (\<forall>t \<in> set (threads pr). \<exists>th. thr k t = Some th \<and> th_process th = p)"
  shows "process_kill drop_objects (kill_fuel + n) c p k = kill_once drop_objects c p k \<and> thread_exit drop_objects (Suc (kill_fuel + n)) c t k = exit_once drop_objects c t k"
proof
  have o: "own_threads p k" for p using assms by (simp add: own_threads_def)
  show "process_kill drop_objects (kill_fuel + n) c p k = kill_once drop_objects c p k" by (rule kill_levels [OF o])
  show "thread_exit drop_objects (Suc (kill_fuel + n)) c t k = exit_once drop_objects c t k" by (rule exit_levels [OF o])
qed

theorem kill_depth_witness:
  "\<exists>k k'. holds (kobjs k) 2 0x51000080 \<and> process_kill drop_objects (kill_fuel + 7) 0 2 k = Some (Ret, k') \<and> kill_once drop_objects 0 2 k = Some (Ret, k') \<and>
    thread_exit drop_objects (Suc (kill_fuel + 7)) 0 2 k = exit_once drop_objects 0 2 k"
proof -
  obtain k where k: "sched_inv k" "prc k 2 = Some (process0 [2])" "\<not> process_global_lock k" "cur k 0 = Some 1" "\<not> idle k 2" "thr k 2 = Some (thread0 2 False)" "ipis k = []" "objects_ok (kobjs k)"
    "holds (kobjs k) 2 0x51000080" "\<forall>obj. holds (kobjs k) 2 obj \<longrightarrow> releasable k obj"
    and own: "\<forall>p pr. prc k p = Some pr \<longrightarrow> (\<forall>t \<in> set (threads pr). \<exists>th. thr k t = Some th \<and> th_process th = p)" by (rule opened_mutex)
  have "\<exists>k' pr'. process_kill drop_objects kill_fuel 0 2 k = Some (Ret, k') \<and> prc k' 2 = Some pr' \<and> is_killed pr' \<and> \<not> process_own_lock pr' \<and>
    (\<forall>t \<in> set (threads (process0 [2])). map_option status_exited (thr k' t) = Some True) \<and> ipis k' = ipis k"
    by (rule kill_returns [OF k(1,2) _ _ k(3,4)]) (use k in \<open>simp_all add: process0_def thread0_def\<close>)
  then obtain k' where k': "process_kill drop_objects (kill_fuel + 0) 0 2 k = Some (Ret, k')" by auto
  from kill_depth [OF own, of 0 0 2 2] k' have "kill_once drop_objects 0 2 k = Some (Ret, k')" by simp
  with kill_depth [OF own, of 7 0 2 2] k(9) show ?thesis by auto
qed



end
