(* ===== verification/DevicePages.thy ===== *)
theory DevicePages
  imports PageIso
begin

text \<open>
  What a process can do at addresses of the kernel's half. The root table of every process has the same entry for the device memory, so that all share one table of the next level. \<open>alloc_page_for_va\<close> compares an
  address with the bound of the process only, and \<open>sys_brk\<close> sets this bound to anything: a page fault at an unused device address enters a page of the process into the table that all have.
\<close>

abbreviation io_table :: u64 where "io_table \<equiv> pa2kva (PGDIR_PA + 4096)"

text \<open>The last entry of the walk, at any address.\<close>

definition last_entry :: "u64 \<Rightarrow> vm \<Rightarrow> u64 \<Rightarrow> PageEntry" where
  "last_entry r s va = pmem s (to_kva (pmem s (to_kva (pmem s (r + 8 * get_vpn va 2)) + 8 * get_vpn va 1)) + 8 * get_vpn va 0)"

lemma device_fault:
  assumes i: "iso P Q s" "root pd \<in> Q" "r' \<in> Q" and h: "roomy 2 (heap_of s)" and va: "get_vpn va 2 = 384" "va < user_mem_bound pd"
    and e0: "pmem s (root pd + 8 * 384) = e0" "pmem s (r' + 8 * 384) = e0" "V e0" "XWR e0 = Noleaf" "to_kva e0 = io_table"
    and free: "absent (pmem s (io_table + 8 * get_vpn va 1))"
  obtains k pd' s' where "alloc_page_for_va va pd s = Some (k, pd', s')" "root pd' = root pd" "owned s' k"
    "\<And>q. q = root pd \<or> q = r' \<Longrightarrow> sv39 q s' va = Some (kva2pa k + take_bit 12 va) \<and> V (last_entry q s' va) \<and> U (last_entry q s' va) \<and> OSflag (last_entry q s' va) = Normal"
proof -
  note d = isoD [OF i(1)]
  let ?a = "io_table + 8 * get_vpn va 1"
  have h2: "roomy (Suc 1) (heap_of s)" using h by (simp add: numeral_2_eq_2)
  obtain p h1 where p: "kalloc (heap_of s) 4096 = Some (p, h1)" "roomy 1 h1" using roomy_alloc [OF h2] by blast
  obtain k h3 where k: "kalloc h1 4096 = Some (k, h3)" using roomy_alloc [of 0 h1] p(2) by (metis One_nat_def)
  note fp = kpages.fresh_page [OF d(1) p(1)]
  note fk = kpages.fresh_page [OF fp(1) k]
  have pp: "paged p" "paged k" using fp(2) fk(2) by (simp_all add: page_in_def paged_def)
  have np: "\<not> owned s p" using fp(4) by (auto simp: owned_def)
  have own: "owned s q" if "q \<in> Q" for q using tables_owned [OF d(3) [OF that] root_table] by blast
  have io: "x \<noteq> io_table" if "owned s x" for x using owned_range [OF d(1) that] by (auto simp: PGDIR_PA_def)
  have pio: "p \<noteq> io_table"
  proof -
    have "owned (s\<lparr>heap_of := h1\<rparr>) p" using fp(2) by (simp add: owned_def)
    then show ?thesis using owned_range [of "s\<lparr>heap_of := h1\<rparr>" p] fp(1) by (auto simp: PGDIR_PA_def)
  qed
  define s1 where "s1 = put_entry ?a (set_as_dir (kva2pa p) (pmem (clear_page p (s\<lparr>heap_of := h1\<rparr>)) ?a)) (clear_page p (s\<lparr>heap_of := h1\<rparr>))"
  have v: "unat (384 :: u64) < 512" "unat (get_vpn va 1) < 512" "unat (get_vpn va 0) < 512" using get_vpn_less by simp_all
  let ?pte = "p + 8 * get_vpn va 0"
  have pa: "?pte \<noteq> ?a" using entry_inj [OF pp(1) io_table_paged v(3,2)] pio by auto
  have s1: "pmem s1 (q + 8 * 384) = e0" "q + 8 * 384 \<noteq> ?pte" if q: "q = root pd \<or> q = r'" for q
  proof -
    have o: "owned s q" "paged q" "q \<noteq> p" using q own i(2,3) owned_paged np by auto
    show "q + 8 * 384 \<noteq> ?pte" using entry_inj [OF o(2) pp(1) v(1,3)] o(3) by auto
    have "q + 8 * 384 \<noteq> ?a" "\<not> q + 8 * 384 - p < 4096" using entry_inj [OF o(2) io_table_paged v(1,2)] io [OF o(1)] entry_in_page [OF o(2) pp(1) v(1)] o(3) by auto
    then show "pmem s1 (q + 8 * 384) = e0" using q e0(1,2) by (auto simp: s1_def put_entry_def clear_page_def)
  qed
  have e1: "pmem s1 ?a = set_as_dir (kva2pa p) (pmem (clear_page p (s\<lparr>heap_of := h1\<rparr>)) ?a)" by (simp add: s1_def put_entry_def)
  have d1: "V (pmem s1 ?a)" "XWR (pmem s1 ?a) = Noleaf" "to_kva (pmem s1 ?a) = p" unfolding e1 using to_kva_dir [OF pp(1)] by (simp_all add: set_as_dir_def)
  have z: "pmem s1 ?pte = zero_entry" using pa entry_in_page [OF pp(1,1) v(3)] by (simp add: s1_def put_entry_def clear_page_def)
  have hs: "heap_of s1 = h1" by (simp add: s1_def put_entry_def clear_page_def)
  have m: "make_dir ?a s = Some s1" using free p(1) by (simp add: make_dir_def absent_def s1_def Let_def)
  have l: "lookup (root pd) va s = Some (?pte, s1)"
    using e0 free m d1(3) va(1) by (simp add: lookup_def make_dir_def absent_def Let_def)
  let ?s = "s1\<lparr>heap_of := h3\<rparr>"
  have l2: "lookup (root pd) va ?s = Some (?pte, ?s)" using s1(1) e0(3-5) d1 va(1) by (simp add: lookup_def make_dir_def Let_def)
  define e where "e = (set_as_leaf (kva2pa k) (pmem s1 ?pte))\<lparr>OSflag := Normal\<rparr>"
  define s' where "s' = put_entry ?pte e ?s"
  have e: "to_pa e = kva2pa k" "to_kva e = k" "V e" "U e" "XWR e = RWX" "OSflag e = Normal" using ppn_roundtrip [OF pp(2)] by (simp_all add: e_def set_as_leaf_def to_kva_def to_pa_def)
  have mv: "map_va_kva va k Normal pd ?s = Some (on_page_updated pd, s')" using l2 z by (simp add: map_va_kva_def Let_def s'_def e_def zero_entry_def)
  let ?pd = "(on_page_updated pd)\<lparr>active_private_mem := active_private_mem (on_page_updated pd) + 4096, private_mem_fifo := private_mem_fifo (on_page_updated pd) @ [va]\<rparr>"
  have a: "alloc_page_for_va va pd s = Some (k, ?pd, s')"
    using va(2) l z k hs mv e(2) by (simp add: alloc_page_for_va_def Let_def zero_entry_def not_le s'_def put_entry_def)
  have "pmem s' (q + 8 * 384) = e0" if "q = root pd \<or> q = r'" for q using s1 [OF that] by (simp add: s'_def put_entry_def)
  moreover have "pmem s' ?a = pmem s1 ?a" "pmem s' ?pte = e" using pa by (simp_all add: s'_def put_entry_def)
  ultimately have w: "sv39 q s' va = Some (kva2pa k + take_bit 12 va) \<and> V (last_entry q s' va) \<and> U (last_entry q s' va) \<and> OSflag (last_entry q s' va) = Normal" if "q = root pd \<or> q = r'" for q
    using that e0(3-5) d1 e va(1) by (simp add: sv39_def last_entry_def Let_def)
  have "owned s' k" using fk(2) by (simp add: owned_def s'_def put_entry_def)
  with that [OF a _ _ w] show thesis by (simp add: on_page_updated_def)
qed

text \<open>
  A process that sets its bound to the end of the address space and touches an unused device address gets a page that is private by its mark and open to user programs, and every other process finds the same page at the same address.
\<close>

theorem device_page_shared:
  "\<exists>vas x pa. space_run vas x \<and> length (dirs x) = 2 \<and> root (dirs x ! 0) \<noteq> root (dirs x ! 1) \<and> (\<forall>i < 2. sv39 (root (dirs x ! i)) (mem x) IO_BASE_VA = Some pa \<and>
     U (last_entry (root (dirs x ! i)) (mem x) IO_BASE_VA) \<and> OSflag (last_entry (root (dirs x ! i)) (mem x) IO_BASE_VA) = Normal)"
proof -
  obtain h where h: "init_kernel_heap \<lparr>ksmall = pool4, kpage = pool4\<rparr> = Some h" "heap_inv h" "heap_blocks h = {}" by (rule init_kernel_heap_ok)
  have "pool_blocks 16 (kpage h) = insert reserved ((\<lambda>off. (off, 0)) ` {})" using heap_blocks_emptyD(4) [OF h(2,3)] by simp
  then have "roomy (Suc (Suc 2)) h" unfolding roomy_def using h(2) by (intro conjI exI [of _ "{}"]) simp_all
  then obtain r h1 where r: "kalloc h 4096 = Some (r, h1)" "roomy (Suc 2) h1" using roomy_alloc by blast
  then obtain r' h2 where r': "kalloc h1 4096 = Some (r', h2)" "roomy 2 h2" using roomy_alloc by blast
  let ?s = "setup_vm \<lparr>heap_of = h, pmem = \<lambda>_. zero_entry\<rparr>"
  let ?s1 = "set_kernel_vm r (?s\<lparr>heap_of := h1\<rparr>)"
  let ?s2 = "set_kernel_vm r' (?s1\<lparr>heap_of := h2\<rparr>)"
  have hs: "heap_of ?s = h" "heap_of ?s1 = h1" "heap_of ?s2 = h2" by (simp_all add: setup_vm_def set_kernel_vm_def put_entry_def copy_page_def clear_page_def Let_def)
  have n: "new_page_dir ?s = Some (dir0 r, ?s1)" "new_page_dir ?s1 = Some (dir0 r', ?s2)" using r(1) r'(1) by (simp_all add: new_page_dir_def hs dir0_def)
  have i: "iso {} {} ?s" by (rule setup_vm_ok [OF h(2)])
  note i1 = iso_create [OF i n(1)]
  note i2 = iso_create [OF i1(1) n(2)]
  have rt: "root (dir0 r) = r" "root (dir0 r') = r'" by (simp_all add: dir0_def)
  let ?pd = "set_user_mem_bound (- 1) (dir0 r)"
  have rp: "root ?pd = r" by (simp add: set_user_mem_bound_def rt)
  have Q: "iso {} {r', r} ?s2" "r' \<noteq> r" using i2(1,2) by (simp_all add: rt)
  have v: "get_vpn IO_BASE_VA 2 = 384" "get_vpn IO_BASE_VA 1 = 0" "get_vpn (pa2kva 0x40000000) 2 = 257" "get_vpn 0x40000000 2 = 1" by code_simp+
  define e0 where "e0 = \<lparr>V = True, XWR = Noleaf, U = False, G = True, A = False, D = False, OSflag = Normal, ppn = ucast (drop_bit 12 (PGDIR_PA + 4096)), Reserved1 = 0\<rparr>"
  have ow: "owned ?s2 r" "owned ?s2 r'" using tables_owned [OF isoD(3) [OF Q(1)] root_table] by blast+
  have ne: "r \<noteq> pa2kva PGDIR_PA" "r' \<noteq> pa2kva PGDIR_PA" "r \<noteq> io_table" "r' \<noteq> io_table" using owned_range [OF isoD(1) [OF Q(1)] ow(1)] owned_range [OF isoD(1) [OF Q(1)] ow(2)] by (auto simp: PGDIR_PA_def)
  note pg = owned_paged [OF ow(1)] owned_paged [OF ow(2)]
  note sk = set_kernel_vm_mem [OF pg(1) ne(1)] set_kernel_vm_mem [OF pg(2) ne(2)]
  have u: "unat (384 :: u64) < 512" "unat (0 :: u64) < 512" by simp_all
  have b: "pmem ?s (pa2kva PGDIR_PA + 8 * 384) = e0" by (simp add: setup_vm_def put_entry_def v e0_def Let_def)
  have io: "pmem ?s (io_table + 8 * 0) = zero_entry" unfolding setup_vm_def v Let_def by (simp add: put_entry_def clear_page_def PGDIR_PA_def pa2kva_def)
  have f: "pmem ?s1 (r + 8 * 384) = e0" "pmem ?s1 (pa2kva PGDIR_PA + 8 * 384) = e0" "pmem ?s1 (io_table + 8 * 0) = zero_entry"
    using sk(1) [OF pg(1) u(1), of "?s\<lparr>heap_of := h1\<rparr>"] sk(1) [OF pgdir_paged u(1), of "?s\<lparr>heap_of := h1\<rparr>"] sk(1) [OF io_table_paged u(2), of "?s\<lparr>heap_of := h1\<rparr>"] b io ne by simp_all
  have e: "pmem ?s2 (r + 8 * 384) = e0" "pmem ?s2 (r' + 8 * 384) = e0" "pmem ?s2 (io_table + 8 * 0) = zero_entry"
    using sk(2) [OF pg(1) u(1), of "?s1\<lparr>heap_of := h2\<rparr>"] sk(2) [OF pg(2) u(1), of "?s1\<lparr>heap_of := h2\<rparr>"] sk(2) [OF io_table_paged u(2), of "?s1\<lparr>heap_of := h2\<rparr>"] f ne Q(2) by simp_all
  have k0: "V e0" "XWR e0 = Noleaf" "to_kva e0 = io_table" by (simp_all add: e0_def to_kva_def to_pa_def PGDIR_PA_def)
  have q: "root ?pd \<in> {r', r}" "r' \<in> {r', r}" "roomy 2 (heap_of ?s2)" "IO_BASE_VA < user_mem_bound ?pd"
    using r'(2) by (simp_all add: rp hs) (simp_all add: set_user_mem_bound_def IO_BASE_VA_def)
  have e1: "pmem ?s2 (root ?pd + 8 * 384) = e0" unfolding rp by (rule e(1))
  have q5: "absent (pmem ?s2 (io_table + 8 * get_vpn IO_BASE_VA 1))" unfolding v e(3) by (simp add: absent_def zero_entry_def)
  obtain k pd' s' where f: "alloc_page_for_va IO_BASE_VA ?pd ?s2 = Some (k, pd', s')" "root pd' = root ?pd" "owned s' k"
    "\<And>q. q = root ?pd \<or> q = r' \<Longrightarrow> sv39 q s' IO_BASE_VA = Some (kva2pa k + take_bit 12 IO_BASE_VA) \<and> V (last_entry q s' IO_BASE_VA) \<and> U (last_entry q s' IO_BASE_VA) \<and> OSflag (last_entry q s' IO_BASE_VA) = Normal"
    by (rule device_fault [OF Q(1) q(1-3) v(1) q(4) e1 e(2) k0 q5]) blast
  let ?x0 = "\<lparr>mem = ?s, dirs = [], shm = []\<rparr>" and ?x1 = "\<lparr>mem = ?s1, dirs = [dir0 r], shm = []\<rparr>" and ?x2 = "\<lparr>mem = ?s2, dirs = [dir0 r, dir0 r'], shm = []\<rparr>"
    and ?x3 = "\<lparr>mem = ?s2, dirs = [?pd, dir0 r'], shm = []\<rparr>" and ?x4 = "\<lparr>mem = s', dirs = [pd', dir0 r'], shm = []\<rparr>"
  have "space_run [] ?x0" by (rule space_run.start [OF h(1)])
  moreover have "space_step None ?x0 ?x1" using space_step.created [of ?x0] n(1) by simp
  ultimately have "space_run [] ?x1" using space_run.step [of "[]" ?x0 None ?x1] by simp
  moreover have "space_step None ?x1 ?x2" using space_step.created [of ?x1] n(2) by simp
  ultimately have "space_run [] ?x2" using space_run.step [of "[]" ?x1 None ?x2] by simp
  moreover have "space_step None ?x2 ?x3" using space_step.breaks [of 0 ?x2 "- 1" 1 ?pd] by (simp add: sys_brk_def)
  ultimately have "space_run [] ?x3" using space_run.step [of "[]" ?x2 None ?x3] by simp
  moreover have "space_step (Some IO_BASE_VA) ?x3 ?x4" using space_step.faults [of 0 ?x3 IO_BASE_VA k pd' s'] f(1) by simp
  ultimately have "space_run [IO_BASE_VA] ?x4" using space_run.step [of "[]" ?x3 "Some IO_BASE_VA" ?x4] by simp
  then show ?thesis
    by - (rule exI [of _ "[IO_BASE_VA]"], rule exI [of _ ?x4], rule exI [of _ "kva2pa k + take_bit 12 IO_BASE_VA"], use f(2,4) Q(2) in \<open>auto simp: rt rp less_2_cases_iff\<close>)
qed

end
