(* ===== verification/HwWalk.thy ===== *)
theory HwWalk
  imports PageIso
begin

text \<open>
  What the hardware makes of the page tables. The algorithm of the privileged specification (version 1.10, Sv39) is written here over the 64-bit words in memory and the register \<open>satp\<close>, with no use of the
  definitions of the kernel; the words are those that the bit fields of \<open>PageEntry\<close> in \<open>page.hpp\<close> give, the register is what \<open>PageDir::enable\<close> writes. The reserved bits of an entry are ignored,
  as that version has it. The access is one of a user program.
\<close>

section \<open>The layout of an entry\<close>

lemma bit_attr: "bit (attr_bits x) n \<Longrightarrow> n < 3"
  by (cases x) (auto simp: bit_numeral_rec bit_1_iff split: nat.splits)

lemma bit_os: "bit (os_bits x) n \<Longrightarrow> n < 2"
  by (cases x) (auto simp: bit_numeral_rec bit_1_iff split: nat.splits)

lemma bit_field: "bit (push_bit k w :: u64) n \<longleftrightarrow> k \<le> n \<and> n < 64 \<and> bit w (n - k)"
  by (auto simp: bit_push_bit_iff possible_bit_def)

lemma bit_flag: "bit (of_bool b :: u64) n \<longleftrightarrow> b \<and> n = 0"
  by (cases b) (auto simp: bit_1_iff)

lemma bit_ucast: "bit (ucast (w :: 'a::len word) :: u64) n \<longleftrightarrow> n < 64 \<and> bit w n"
  by (simp add: bit_simps)

lemma bit_entry: "bit (entry_bits e) n \<longleftrightarrow> (n = 0 \<and> V e) \<or> (1 \<le> n \<and> n < 4 \<and> bit (attr_bits (XWR e)) (n - 1)) \<or> (n = 4 \<and> U e) \<or> (n = 5 \<and> G e) \<or>
    (n = 6 \<and> A e) \<or> (n = 7 \<and> D e) \<or> (8 \<le> n \<and> n < 10 \<and> bit (os_bits (OSflag e)) (n - 8)) \<or> (10 \<le> n \<and> n < 64 \<and> bit (ppn e) (n - 10)) \<or>
    (54 \<le> n \<and> n < 64 \<and> bit (Reserved1 e) (n - 54))"
proof -
  have a: "1 \<le> n \<and> n < 64 \<and> bit (attr_bits (XWR e)) (n - 1) \<longleftrightarrow> 1 \<le> n \<and> n < 4 \<and> bit (attr_bits (XWR e)) (n - 1)"
    using bit_attr [of "XWR e" "n - 1"] by linarith
  have s: "8 \<le> n \<and> n < 64 \<and> bit (os_bits (OSflag e)) (n - 8) \<longleftrightarrow> 8 \<le> n \<and> n < 10 \<and> bit (os_bits (OSflag e)) (n - 8)"
    using bit_os [of "OSflag e" "n - 8"] by linarith
  have p: "10 \<le> n \<and> n < 64 \<and> n - 10 < 64 \<and> bit (ppn e) (n - 10) \<longleftrightarrow> 10 \<le> n \<and> n < 64 \<and> bit (ppn e) (n - 10)"
    and r: "54 \<le> n \<and> n < 64 \<and> n - 54 < 64 \<and> bit (Reserved1 e) (n - 54) \<longleftrightarrow> 54 \<le> n \<and> n < 64 \<and> bit (Reserved1 e) (n - 54)"
    by linarith+
  have f4: "4 \<le> n \<and> n < 64 \<and> b \<and> n - 4 = 0 \<longleftrightarrow> n = 4 \<and> b" for b by auto
  have f5: "5 \<le> n \<and> n < 64 \<and> b \<and> n - 5 = 0 \<longleftrightarrow> n = 5 \<and> b" for b by auto
  have f6: "6 \<le> n \<and> n < 64 \<and> b \<and> n - 6 = 0 \<longleftrightarrow> n = 6 \<and> b" for b by auto
  have f7: "7 \<le> n \<and> n < 64 \<and> b \<and> n - 7 = 0 \<longleftrightarrow> n = 7 \<and> b" for b by auto
  show ?thesis unfolding entry_bits_def bit_or_iff bit_field bit_flag bit_ucast a s p r f4 f5 f6 f7 by blast
qed


text \<open>What the hardware looks at in the word of an entry.\<close>

lemma entry_word:
  "bit (entry_bits e) 0 = V e" "bit (entry_bits e) (Suc 0) \<or> bit (entry_bits e) 3 \<longleftrightarrow> XWR e \<noteq> Noleaf" "bit (entry_bits e) 2 \<Longrightarrow> bit (entry_bits e) (Suc 0)"
  "bit (entry_bits e) 4 = U e" "bit (entry_bits e) 6 = A e" "bit (entry_bits e) 7 = D e" "XWR e = RWX \<Longrightarrow> bit (entry_bits e) (Suc 0) \<and> bit (entry_bits e) 2 \<and> bit (entry_bits e) 3"
  by (cases "XWR e"; simp add: bit_entry bit_numeral_rec bit_1_iff)+

lemma entry_page: "push_bit 12 (take_bit 44 (drop_bit 10 (entry_bits e))) = to_pa e"
proof -
  have "take_bit 44 (drop_bit 10 (entry_bits e)) = (ucast (ppn e) :: u64)"
  proof (rule bit_word_eqI)
    fix n assume "n < LENGTH(64)"
    moreover have "bit (ppn e) n \<Longrightarrow> n < 44" using bit_imp_le_length [of "ppn e" n] by simp
    ultimately show "bit (take_bit 44 (drop_bit 10 (entry_bits e))) n = bit (ucast (ppn e) :: u64) n"
      by (auto simp: bit_take_bit_iff bit_drop_bit_eq bit_entry bit_ucast)
  qed
  then show ?thesis by (simp add: to_pa_def)
qed

section \<open>The algorithm of the hardware\<close>

datatype access = Load | Store | Fetch

fun access_bit :: "access \<Rightarrow> nat" where
  "access_bit Load = 1"
| "access_bit Store = 2"
| "access_bit Fetch = 3"

text \<open>The end of the walk at level \<open>i\<close>: the page is one for the user, allows the access, is marked as accessed (and as dirty for a store), and a large page is aligned.\<close>

definition hw_leaf :: "u64 \<Rightarrow> nat \<Rightarrow> u64 \<Rightarrow> access \<Rightarrow> u64 option" where
  "hw_leaf pte i va acc =
     (if bit pte 4 \<and> bit pte (access_bit acc) \<and> bit pte 6 \<and> (acc = Store \<longrightarrow> bit pte 7) \<and> take_bit (9 * i) (drop_bit 10 pte) = 0
      then Some (push_bit 12 (take_bit 44 (drop_bit 10 pte)) + take_bit (12 + 9 * i) va) else None)"

fun hw_walk :: "(u64 \<Rightarrow> u64) \<Rightarrow> u64 \<Rightarrow> nat \<Rightarrow> u64 \<Rightarrow> access \<Rightarrow> u64 option" where
  "hw_walk m a i va acc =
     (let pte = m (a + 8 * take_bit 9 (drop_bit (12 + 9 * i) va))
      in if \<not> bit pte 0 \<or> \<not> bit pte 1 \<and> bit pte 2 then None
         else if bit pte 1 \<or> bit pte 3 then hw_leaf pte i va acc
         else case i of 0 \<Rightarrow> None | Suc j \<Rightarrow> hw_walk m (push_bit 12 (take_bit 44 (drop_bit 10 pte))) j va acc)"

definition hw_access :: "(u64 \<Rightarrow> u64) \<Rightarrow> u64 \<Rightarrow> u64 \<Rightarrow> access \<Rightarrow> u64 option" where
  "hw_access m satp va acc =
     (if drop_bit 60 satp = 0 then Some va
      else if drop_bit 60 satp = 8 \<and> signed_take_bit 38 va = va then hw_walk m (push_bit 12 (take_bit 44 satp)) 2 va acc else None)"

text \<open>The words in physical memory.\<close>

definition raw :: "vm \<Rightarrow> u64 \<Rightarrow> u64" where
  "raw s pa = entry_bits (pmem s (pa2kva pa))"

section \<open>The algorithm on the tables of a process\<close>

lemma vpn_bits: "take_bit 9 (drop_bit (12 + 9 * i) va) = get_vpn va i"
proof -
  have "(0x1ff :: u64) = mask 9" by (simp add: mask_eq_exp_minus_1)
  then show ?thesis by (simp add: get_vpn_def take_bit_eq_mask)
qed

lemma raw_entry: "raw s (kva2pa a + 8 * i) = entry_bits (pmem s (a + 8 * i))"
  by (simp add: raw_def pa2kva_def kva2pa_def)

text \<open>One step of the walk at a table in the memory of the kernel.\<close>

lemma hw_walk_table:
  "hw_walk (raw s) (kva2pa a) i va acc =
     (let e = pmem s (a + 8 * get_vpn va i)
      in if \<not> V e then None else if XWR e \<noteq> Noleaf then hw_leaf (entry_bits e) i va acc
         else case i of 0 \<Rightarrow> None | Suc j \<Rightarrow> hw_walk (raw s) (kva2pa (to_kva e)) j va acc)"
proof -
  define e where "e = pmem s (a + 8 * get_vpn va i)"
  have m: "raw s (kva2pa a + 8 * take_bit 9 (drop_bit (12 + 9 * i) va)) = entry_bits e" unfolding vpn_bits raw_entry e_def by (rule refl)
  have k: "kva2pa (to_kva e) = push_bit 12 (take_bit 44 (drop_bit 10 (entry_bits e)))" by (simp add: entry_page to_kva_def)
  show ?thesis
    unfolding hw_walk.simps [of _ _ i] m e_def [symmetric] Let_def k using entry_word(1-3) [of e] by (auto split: nat.split)
qed

lemma hw_walk_tree:
  assumes "tree_ok r s" "user_va va"
  shows "hw_walk (raw s) (kva2pa r) 2 va acc = (case page_entry r s va of None \<Rightarrow> None | Some e \<Rightarrow> hw_leaf (entry_bits e) 0 va acc)"
proof -
  note t = tree_okD [OF assms(1)]
  let ?i = "get_vpn va 2" and ?j = "get_vpn va 1"
  have i: "index_ok [] ?i" by (rule user_index [OF assms(2)])
  have j: "index_ok [?i] ?j" using get_vpn_less by (simp add: index_ok_def)
  have e2: "is_dir (ent r s [] ?i) \<or> absent (ent r s [] ?i)" using t(5) [of "[]" ?i] i by simp
  have w2: "hw_walk (raw s) (kva2pa r) 2 va acc = (if is_dir (ent r s [] ?i) then hw_walk (raw s) (kva2pa (tab r s [?i])) 1 va acc else None)"
    unfolding hw_walk_table [of s r 2] using e2 by (auto simp: Let_def is_dir_def absent_def ent_def numeral_2_eq_2)
  show ?thesis
  proof (cases "is_dir (ent r s [] ?i)")
    case False
    then show ?thesis unfolding w2 by (simp add: page_entry_def)
  next
    case True
    then have pi: "present r s [?i]" using i by simp
    have e1: "is_dir (ent r s [?i] ?j) \<or> absent (ent r s [?i] ?j)" using t(5) [OF pi] j by simp
    have w1: "hw_walk (raw s) (kva2pa (tab r s [?i])) 1 va acc = (if is_dir (ent r s [?i] ?j) then hw_walk (raw s) (kva2pa (tab r s [?j, ?i])) 0 va acc else None)"
      unfolding hw_walk_table [of s "tab r s [?i]" 1] using e1 by (auto simp: Let_def is_dir_def absent_def ent_def)
    have p: "present r s [?j, ?i] \<longleftrightarrow> is_dir (ent r s [?i] ?j)" using pi j by simp
    show ?thesis
      unfolding w2 w1 hw_walk_table [of s "tab r s [?j, ?i]" 0] page_entry_def p using True t(6) [of "[?j, ?i]" "get_vpn va 0"] p get_vpn_less [of va 0]
      by (auto simp: Let_def ent_def simp del: present.simps tab.simps)
  qed
qed

text \<open>The register: the mode, and the page of the root table.\<close>

lemma bit_bound:
  fixes w :: u64
  assumes "unat w < 2 ^ k" "bit w n"
  shows "n < k"
proof -
  have "take_bit k (unat w) = unat w" using assms(1) by (simp add: take_bit_nat_eq_self)
  then have "take_bit k w = w" by (simp add: word_unat_eq_iff unsigned_take_bit_eq)
  then show ?thesis using assms(2) bit_take_bit_iff [of k w n] by simp
qed

lemma enable_fields:
  assumes "paged (root pd)" "asid < 0x10000"
  shows "drop_bit 60 (enable asid pd) = 8" "push_bit 12 (take_bit 44 (enable asid pd)) = kva2pa (root pd)"
proof -
  let ?p = "drop_bit 12 (kva2pa (root pd))"
  have a: "n < 16" if "bit asid n" for n by (rule bit_bound [OF _ that]) (use assms(2) in \<open>simp add: word_less_nat_alt\<close>)
  have p: "n < 56" if "bit (kva2pa (root pd)) n" for n by (rule bit_bound [OF _ that]) (use assms(1) in \<open>simp add: paged_def\<close>)
  have a': "\<not> bit asid n" if "16 \<le> n" for n using a [of n] that by linarith
  have p': "\<not> bit (kva2pa (root pd)) n" if "56 \<le> n" for n using p [of n] that by linarith
  have e: "bit (8 :: u64) n \<longleftrightarrow> n = 3" for n
    using bit_push_bit_iff [of 3 "1 :: u64" n] by (auto simp: push_bit_eq_mult bit_1_iff possible_bit_def)
  show "drop_bit 60 (enable asid pd) = 8" unfolding enable_def set_satp_def
    by (rule bit_word_eqI) (simp add: bit_drop_bit_eq bit_or_iff bit_field e a' p')
  have "take_bit 44 (enable asid pd) = ucast (ucast ?p :: 44 word)" unfolding enable_def set_satp_def
    by (rule bit_word_eqI) (auto simp: bit_simps dest: p)
  then show "push_bit 12 (take_bit 44 (enable asid pd)) = kva2pa (root pd)" using ppn_roundtrip [OF assms(1)] by simp
qed

lemma hw_access_entry:
  assumes "tree_ok (root pd) s" "user_va va" "asid < 0x10000"
  shows "hw_access (raw s) (enable asid pd) va acc = (case page_entry (root pd) s va of None \<Rightarrow> None | Some e \<Rightarrow> hw_leaf (entry_bits e) 0 va acc)"
proof -
  have p: "paged (root pd)" using tree_okD(3) [OF assms(1), of "[]"] by simp
  have b: "n < 38" if "bit va n" for n by (rule bit_bound [OF _ that]) (use assms(2) in \<open>simp add: word_less_nat_alt\<close>)
  have "signed_take_bit 38 va = va"
    by (rule bit_word_eqI) (auto simp: bit_signed_take_bit_iff min_def dest: b)
  then show ?thesis unfolding hw_access_def enable_fields [OF p assms(3)] hw_walk_tree [OF assms(1,2)] by simp
qed

section \<open>A mapped page\<close>

text \<open>The word that \<open>map_va_kva\<close> leaves for a page.\<close>

lemma hw_leaf_mapped:
  assumes "paged kva"
  shows "hw_leaf (entry_bits ((set_as_leaf (kva2pa kva) e)\<lparr>OSflag := flag\<rparr>)) 0 va acc = Some (kva2pa kva + take_bit 12 va)"
proof -
  let ?e = "(set_as_leaf (kva2pa kva) e)\<lparr>OSflag := flag\<rparr>"
  have "to_pa ?e = kva2pa kva" using ppn_roundtrip [OF assms] by (simp add: set_as_leaf_def to_pa_def)
  moreover have "XWR ?e = RWX" "U ?e" "A ?e" "D ?e" by (simp_all add: set_as_leaf_def)
  ultimately show ?thesis unfolding hw_leaf_def entry_page using entry_word(4-7) [of ?e] by (cases acc) simp_all
qed

lemma map_va_kva_entries:
  assumes "tree_ok (root pd) s" "user_va va" "map_va_kva va kva flag pd s = Some (pd', s')"
  obtains e where "\<And>va'. user_va va' \<Longrightarrow> page_entry (root pd) s' va' =
    (if drop_bit 12 va' = drop_bit 12 va then Some ((set_as_leaf (kva2pa kva) e)\<lparr>OSflag := flag\<rparr>) else page_entry (root pd) s va')"
proof -
  from assms(3) obtain pte s1 where l: "lookup (root pd) va s = Some (pte, s1)"
    and s': "s' = put_entry pte ((set_as_leaf (kva2pa kva) (pmem s1 pte))\<lparr>OSflag := flag\<rparr>) s1"
    by (auto simp: map_va_kva_def Let_def elim!: bind_SomeE split: if_splits)
  have "found (root pd) va s pte s1" by (rule lookup_found [OF assms(1,2) l])
  then have t1: "tree_ok (root pd) s1" "present (root pd) s1 [get_vpn va 1, get_vpn va 2]"
    and pte: "pte = tab (root pd) s1 [get_vpn va 1, get_vpn va 2] + 8 * get_vpn va 0"
    and same: "\<And>va'. page_entry (root pd) s1 va' = page_entry (root pd) s va'" unfolding found_def by blast+
  let ?e = "(set_as_leaf (kva2pa kva) (pmem s1 pte))\<lparr>OSflag := flag\<rparr>"
  have v: "V ?e" "V ?e \<longrightarrow> XWR ?e \<noteq> Noleaf" by (simp_all add: set_as_leaf_def)
  show thesis
  proof (rule that)
    fix va' assume "user_va va'"
    from page_entry_put [OF t1(1) assms(2) this t1(2) v(2)] s' v(1) same [of va']
    show "page_entry (root pd) s' va' = (if drop_bit 12 va' = drop_bit 12 va then Some ?e else page_entry (root pd) s va')" by (simp add: pte del: tab.simps present.simps)
  qed
qed

text \<open>
  C25: A mapped page as the hardware sees it. Before \<open>map_va_kva\<close> of a user address that is not mapped every access of a user program to it is a page fault. Afterwards, with the register \<open>satp\<close> as
  \<open>enable\<close> writes it, the algorithm of the hardware on the words in memory lets loads, stores and instruction fetches at every address of the page through to the same offset of the given page, with no fault
  for a missing access or dirty mark; at every other user address each kind of access gives what it gave before.
\<close>

theorem hw_sees_mapping:
  assumes "tree_ok (root pd) s" "user_va va" "paged kva" "sv39 (root pd) s va = None" "two_pages (heap_of s)" "asid < 0x10000"
  shows "\<exists>pd' s'. map_va_kva va kva flag pd s = Some (pd', s') \<and> (\<forall>acc. hw_access (raw s) (enable asid pd) va acc = None \<and>
    (\<forall>va'. user_va va' \<longrightarrow> hw_access (raw s') (enable asid pd') va' acc =
      (if drop_bit 12 va' = drop_bit 12 va then Some (kva2pa kva + take_bit 12 va') else hw_access (raw s) (enable asid pd) va' acc)))"
proof -
  obtain pd' s' where m: "map_va_kva va kva flag pd s = Some (pd', s')" using map_va_kva_returns [OF assms(1,2,4,5)] by blast
  note o = map_va_kva_ok(1,2) [OF assms(1-3) m]
  obtain e where e: "\<And>va'. user_va va' \<Longrightarrow> page_entry (root pd) s' va' =
    (if drop_bit 12 va' = drop_bit 12 va then Some ((set_as_leaf (kva2pa kva) e)\<lparr>OSflag := flag\<rparr>) else page_entry (root pd) s va')"
    by (rule map_va_kva_entries [OF assms(1,2) m]) blast
  have n: "page_entry (root pd) s va = None" using assms(4) by (simp add: sv39_entry [OF assms(1,2)])
  have "enable asid pd' = enable asid pd" by (simp add: enable_def o(1))
  with e show ?thesis using m hw_access_entry [OF assms(1) _ assms(6)] hw_access_entry [OF o(2) _ assms(6)] n assms(2) hw_leaf_mapped [OF assms(3)] by simp
qed

theorem hw_sees_mapping_witness:
  "\<exists>r s pd' s'. map_va_kva 0x201000 (pa2kva 0x52000000) Shared (dir0 r) s = Some (pd', s') \<and> hw_access (raw s) (enable 1 (dir0 r)) 0x201000 Fetch = None \<and>
    hw_access (raw s') (enable 1 pd') 0x201008 Store = Some 0x52000008"
proof -
  obtain r s where s: "tree_ok r s" "\<forall>va. user_va va \<longrightarrow> sv39 r s va = None" "roomy 3 (heap_of s)" by (rule first_space)
  have t: "tree_ok (root (dir0 r)) s" "sv39 (root (dir0 r)) s 0x201000 = None" using s(1,2) by (simp_all add: dir0_def)
  have h: "two_pages (heap_of s)" by (rule roomy_pages(2)) (rule roomy_weaken [OF s(3)], simp)
  have p: "paged (pa2kva 0x52000000)" by (simp add: paged_def)
  have u: "user_va 0x201000" "user_va 0x201008" "(1 :: u64) < 0x10000" by simp_all
  have d: "drop_bit 12 (0x201008 :: u64) = drop_bit 12 0x201000" "take_bit 12 (0x201008 :: u64) = 8" by code_simp+
  from hw_sees_mapping [OF t(1) u(1) p t(2) h u(3), of Shared] obtain pd' s' where m: "map_va_kva 0x201000 (pa2kva 0x52000000) Shared (dir0 r) s = Some (pd', s')"
    and a: "\<forall>acc. hw_access (raw s) (enable 1 (dir0 r)) 0x201000 acc = None \<and> (\<forall>va'. user_va va' \<longrightarrow> hw_access (raw s') (enable 1 pd') va' acc =
      (if drop_bit 12 va' = drop_bit 12 0x201000 then Some (kva2pa (pa2kva 0x52000000) + take_bit 12 va') else hw_access (raw s) (enable 1 (dir0 r)) va' acc))" by blast
  have "hw_access (raw s') (enable 1 pd') 0x201008 Store = Some (kva2pa (pa2kva 0x52000000) + take_bit 12 0x201008)" using a u(2) d(1) by presburger
  then have "hw_access (raw s') (enable 1 pd') 0x201008 Store = Some 0x52000008" unfolding d(2) kva2pa_pa2kva by simp
  with m a show ?thesis by blast
qed

end
