(* ===== verification/Spec2Isabelle.thy ===== *)
theory Spec2Isabelle
  imports UserMalloc UserFormat UserNum Trap Std_List Boot Spin Kill DevicePages HwWalk
begin

text \<open>
  A verification development for the UCAS operating system laboratory kernel: a small kernel for 64-bit RISC-V in C and C++ (\<open>src/src\<close>) with a user library (\<open>src/tiny_libc\<close>).

  \<^bold>\<open>The program.\<close> The kernel has two heaps of buddy pools (\<open>kalloc.cpp\<close>); from them come the page tables of the processes (\<open>page.cpp\<close>) and all kernel objects. Processes and threads are in
  two tables (\<open>process.cpp\<close>, \<open>thread.cpp\<close>); the scheduler (\<open>schedule.cpp\<close>) moves threads between the CPUs, the ready queue, the sleeping queue and the wait queues (\<open>container.hpp\<close>).
  Mutexes, barriers, conditions and mailboxes (\<open>locks.cpp\<close>) are objects with a wait queue each; handles for them are kept in id pools over a binary trie and are counted per process.
  The file system (\<open>fs/\<close>) keeps inodes, directories and files on the card behind a block cache of 64 slots. The console (\<open>kstdio.c\<close>, \<open>drivers/screen.cpp\<close>) formats text and keeps a screen buffer.
  Traps of user programs (\<open>trap.cpp\<close>) are system calls, which go through a table (\<open>syscall.cpp\<close>), page faults and interrupts. The network calls (\<open>net.cpp\<close>) use the descriptor rings of the card
  (\<open>drivers/e1000.cpp\<close>). A host program (\<open>tools/createimage.c\<close>) writes the kernel and the programs to the card; \<open>task_loader.cpp\<close> and \<open>sys_exec\<close> start a program from there.
  The user library has its own heap, string functions, formatted output and number conversions.

  \<^bold>\<open>Conventions.\<close> A machine integer is a word of its width; pointers are 64-bit words or, for objects that are only compared, numbers. An operation that changes state takes the state and returns it.
  \<open>None\<close> is the end of all that follows: an assertion that fails, an access outside an array or through a null pointer, or a spin lock that is never released (\<open>kassert\<close> of the theory Prelude).
  A lock that protects one operation is that operation being one step. A lock that some path leaves held is a field of its object.
  A call that blocks ends in a context switch; what it still does when its thread runs again is a continuation in the state (\<open>resume_thread\<close>).

  \<^bold>\<open>The theories.\<close>
  \<^item> Prelude: the types, the rules for the error monad, lists, words and functions that the others share.
  \<^item> Bits, Buddy, Alloc\_Interface, Kalloc: \<open>kalloc.cpp\<close>. A pool is the array \<open>longest\<close>; \<open>alloc_descend\<close> and \<open>alloc_update\<close> are the two loops of \<open>BuddyPool::alloc\<close>, \<open>free_find\<close> and \<open>free_merge\<close>
    those of \<open>BuddyPool::free\<close>. The pool refines an allocator over the set of live blocks; the locales of Alloc\_Interface state what the clients rely on and are interpreted on the pool and on \<open>kalloc\<close>.
  \<^item> UserMalloc: \<open>tiny_libc/memory.c\<close>, the copy of the pool in the user library, with the same interface.
  \<^item> Trie, Kobj: \<open>TrieLookup\<close>, the reference counts of \<open>KernelObject\<close>, the table of objects of a process, and \<open>IdPool\<close>.
  \<^item> Cache, Layout, FsMap, Inode, File, Dir, DirProofs: \<open>fs/io.cpp\<close>, \<open>fs/fs.cpp\<close> and \<open>fs/file.cpp\<close>. Every block reads as what was last stored; the allocation maps give the lowest free number;
    what is written to a file is read back; a directory refines a map from names to inodes.
  \<^item> Mkfs: making the file system (\<open>fs_mkfs\<close>) and mounting it (\<open>init_filesystem\<close>): a fresh card becomes a well-formed file system, and what is on the card is found again after a restart.
  \<^item> SysParams: \<open>sysparams.cpp\<close>; a cache policy that was set is in force again after the next start.
  \<^item> Strings: \<open>string.c\<close> of the kernel and of the user library over a memory of bytes.
  \<^item> Format, Screen: \<open>kstdio.c\<close> and \<open>drivers/screen.cpp\<close>. The formatted text stays inside its buffer and shows the numbers it was given; what is printed is on the screen.
  \<^item> Sched, SchedInv: the threads, queues and the scheduler, and the invariant that every thread is in exactly one place; a ready thread gets the CPU.
  \<^item> Proc: creation and end of threads and processes. Kill: the end of a process together with the release of its objects; the mutual recursion of \<open>kill\<close> and \<open>exit\<close> ends, and what a kill from outside leaves.
  \<^item> Locks, LocksProofs: \<open>locks.cpp\<close>; mutual exclusion on one CPU as an invariant of a step relation in which the two parts of \<open>acquire\<close> are separate steps, its loss on two CPUs,
    which can both come between these parts, hand-over in the order of the queue, the barrier, the order of bytes in a mailbox.
  \<^item> Page, PageProofs: page table entries, tables and address spaces; mapping a page refines the update of the translation that the hardware walk computes.
  \<^item> PageIso: all operations on the address spaces as a step relation from start-up on; as long as faults, attachments and detachments are at user addresses, a page of a process
    is in no other address space unless it is a shared page. The kernel does not check the addresses; DevicePages has a run in which a page fault in the range of the devices puts a page of one process into the table that all share.
  \<^item> HwWalk: the algorithm of the hardware over the 64-bit words in memory, with its checks of access rights; it sees a page that was mapped as the kernel means it. The layout of the entries and of the register \<open>satp\<close> enters here.
  \<^item> Image, Loader, Exec: \<open>tools/createimage.c\<close>, \<open>task_loader.cpp\<close> and \<open>sys_exec\<close>. What is built into the image is what the new process finds at its entry point, beside its arguments.
  \<^item> Trap: \<open>syscall.cpp\<close>, \<open>trap.cpp\<close> and the timer of \<open>time.cpp\<close>; a page fault is repaired. The functions behind the table of system calls are an argument of the handler.
  \<^item> E1000, Net: \<open>drivers/e1000.cpp\<close> with the card as a second party, \<open>drivers/plic.c\<close> and \<open>net.cpp\<close>; the rings are bounded queues and a sender that finds its ring full is woken.
  \<^item> UserFormat, UserNum: \<open>printf.c\<close>, \<open>itoa.c\<close>, \<open>atoi.c\<close>, \<open>rand.c\<close> and \<open>mailbox.c\<close> of the user library; where its formats agree with the kernel's, and numbers that are written and read back.
  \<^item> Spin: \<open>spinlock.hpp\<close>, with CPUs that take turns in any order; programs that run under one lock have the effect of single steps, in the order in which they got the lock. The other theories model an operation
    under a lock as one step for this reason.
  \<^item> Cpu: the interrupt bits of the control registers, the clock of \<open>time.cpp\<close> and the calls of \<open>syscall.cpp\<close> on keyboard and screen; \<open>latency\<close> returns when its time is over, a key that is typed is returned.
  \<^item> StartFiles, Boot: \<open>main.cpp\<close>, \<open>boot_kernel\<close> of \<open>page.cpp\<close> and \<open>init_net\<close>, composed from the operations of the other theories. The state \<open>board\<close> has their states as its fields; \<open>surroundings\<close> is what start-up
    finds: the device tree, the time, the sectors of the programs. Start-up on any memory runs the shell, with a file system that was left on the card or on a card that is clear where the file system will be. That it is
    clear matters: the first read of the new parameter file clears its block in the cache only.
  \<^item> Std\_List: the node operations of \<open>std::list\<close> in \<open>common.cpp\<close>, which carry the queues of the scheduler; they refine operations on sequences.

  \<^bold>\<open>Bounds.\<close> \<open>thread_exit\<close> and \<open>process_kill\<close> call each other and have a depth as argument; three levels are enough for processes whose threads are their own (\<open>kill_depth\<close> of the theory Kill, which gives a definition without recursion that the result equals at every larger depth), and the system calls use
  that depth. \<open>free_user_recur\<close> has the number of levels of tables below as argument, 3 for a root table, which is the number of levels of the hardware walk. All other recursions are proved to end.

  \<^bold>\<open>Not modelled.\<close> Assembly and what the BIOS does behind its calls (hardware access); the switch of registers and kernel stacks; that the storage of threads, processes, queues and the slots of the
  block cache is taken from the kernel heap (only page tables and user pages are); output-only calls (\<open>fs_statfs\<close>, \<open>print_processes\<close>, \<open>print_threads\<close>, \<open>handle_other\<close>); the shell and the test programs.
\<close>

end
